(* ===== verification/Prelude.thy ===== *)
theory Prelude
  imports Main "HOL-Library.Word"
begin

text \<open>
  Shared vocabulary of the development: the outcome of a Rust call (a value, an error
  value or a panic), the two calling conventions (a method on \<open>&self\<close> is a function into
  \<open>result\<close>, a method on \<open>&mut self\<close> is a function from the state to an outcome and the
  state it leaves behind), checked indexing, loops over ranges, and the byte encodings of
  unsigned integers.  Every component theory builds on these and proves its loops with the
  rules \<open>sfold_upt\<close> and \<open>rmap_upt\<close> stated here.
\<close>

named_theorems sm_simps \<open>unfolding rules of the state-and-outcome combinators\<close>

named_theorems byte_simps \<open>lengths and round trips of the byte encodings\<close>

section \<open>Outcomes\<close>

text \<open>
  \<open>Ok\<close> and \<open>Err\<close> are the two variants of Rust's \<open>Result\<close>; \<open>Panic\<close> is an unwinding call
  (a failed \<open>assert!\<close>, \<open>expect\<close>, or an index out of bounds).
\<close>

datatype ('a, 'e) result = Ok 'a | Err 'e | Panic

fun rbind :: "('a, 'e) result \<Rightarrow> ('a \<Rightarrow> ('b, 'e) result) \<Rightarrow> ('b, 'e) result" where
  "rbind (Ok a) f = f a"
| "rbind (Err e) f = Err e"
| "rbind Panic f = Panic"

lemma rbind_Ok_iff: "rbind m f = Ok b \<longleftrightarrow> (\<exists>a. m = Ok a \<and> f a = Ok b)"
  by (cases m) auto

lemma rbind_Panic_iff: "rbind m f = Panic \<longleftrightarrow> m = Panic \<or> (\<exists>a. m = Ok a \<and> f a = Panic)"
  by (cases m) auto

lemma rbind_Err_iff: "rbind m f = Err e \<longleftrightarrow> m = Err e \<or> (\<exists>a. m = Ok a \<and> f a = Err e)"
  by (cases m) auto

lemma rbind_assoc [simp]: "rbind (rbind m f) g = rbind m (\<lambda>a. rbind (f a) g)"
  by (cases m) auto

lemma rbind_cong [fundef_cong]:
  "m = m' \<Longrightarrow> (\<And>a. m' = Ok a \<Longrightarrow> f a = g a) \<Longrightarrow> rbind m f = rbind m' g"
  by (cases m') auto

text \<open>\<open>Option::ok_or\<close>, \<open>Result::expect\<close> and \<open>Result::map_err\<close>.\<close>

fun ok_or :: "'a option \<Rightarrow> 'e \<Rightarrow> ('a, 'e) result" where
  "ok_or (Some a) e = Ok a"
| "ok_or None e = Err e"

fun expect :: "('a, 'e) result \<Rightarrow> ('a, 'd) result" where
  "expect (Ok a) = Ok a"
| "expect (Err e) = Panic"
| "expect Panic = Panic"

fun map_err :: "('e \<Rightarrow> 'd) \<Rightarrow> ('a, 'e) result \<Rightarrow> ('a, 'd) result" where
  "map_err f (Ok a) = Ok a"
| "map_err f (Err e) = Err (f e)"
| "map_err f Panic = Panic"

lemma ok_or_Ok_iff [simp]: "ok_or x e = Ok a \<longleftrightarrow> x = Some a"
  by (cases x) auto

lemma ok_or_Panic [simp]: "ok_or x e \<noteq> Panic"
  by (cases x) auto

lemma map_err_Ok_iff [simp]: "map_err f m = Ok a \<longleftrightarrow> m = Ok a"
  by (cases m) auto

lemma map_err_Panic_iff [simp]: "map_err f m = Panic \<longleftrightarrow> m = Panic"
  by (cases m) auto

text \<open>\<open>Option::unwrap_or\<close>, and the test of the low bit \<open>(n >> i) & 1 == 1\<close>.\<close>

fun unwrap_or :: "'a option \<Rightarrow> 'a \<Rightarrow> 'a" where
  "unwrap_or (Some a) d = a"
| "unwrap_or None d = d"

definition test_bit :: "nat \<Rightarrow> nat \<Rightarrow> bool" where
  "test_bit n i = odd (n div 2 ^ i)"

text \<open>\<open>assert!\<close>, and an early \<open>return Err(e)\<close> guarded by a condition.\<close>

definition rassert :: "bool \<Rightarrow> (unit, 'e) result" where
  "rassert b = (if b then Ok () else Panic)"

definition guard :: "bool \<Rightarrow> 'e \<Rightarrow> (unit, 'e) result" where
  "guard b e = (if b then Err e else Ok ())"

lemma rassert_simps [simp]: "rassert True = Ok ()" "rassert False = Panic"
  by (simp_all add: rassert_def)

lemma guard_simps [simp]: "guard True e = Err e" "guard False e = Ok ()"
  by (simp_all add: guard_def)

lemma guard_Ok_iff [simp]: "guard b e = Ok u \<longleftrightarrow> \<not> b"
  by (simp add: guard_def)

lemma guard_Panic [simp]: "guard b e \<noteq> Panic"
  by (simp add: guard_def)

section \<open>Vectors\<close>

text \<open>
  \<open>v[i]\<close> panics out of bounds; \<open>v.get(i)\<close> does not; \<open>v.get(i).copied().unwrap_or(d)\<close> is
  \<open>get_or\<close>; \<open>v.resize(n, d)\<close> cuts or pads.
\<close>

definition idx :: "'a list \<Rightarrow> nat \<Rightarrow> ('a, 'e) result" where
  "idx xs i = (if i < length xs then Ok (xs ! i) else Panic)"

definition get :: "'a list \<Rightarrow> nat \<Rightarrow> 'a option" where
  "get xs i = (if i < length xs then Some (xs ! i) else None)"

definition get_or :: "'a list \<Rightarrow> nat \<Rightarrow> 'a \<Rightarrow> 'a" where
  "get_or xs i d = (if i < length xs then xs ! i else d)"

definition resize :: "'a list \<Rightarrow> nat \<Rightarrow> 'a \<Rightarrow> 'a list" where
  "resize xs n d = take n xs @ replicate (n - length xs) d"

text \<open>A slice \<open>v[a..]\<close> or \<open>v[..b]\<close> panics when the bound is past the end.\<close>

definition slice_from :: "'a list \<Rightarrow> nat \<Rightarrow> ('a list, 'e) result" where
  "slice_from xs a = (if a \<le> length xs then Ok (drop a xs) else Panic)"

definition slice_to :: "'a list \<Rightarrow> nat \<Rightarrow> ('a list, 'e) result" where
  "slice_to xs b = (if b \<le> length xs then Ok (take b xs) else Panic)"

lemma idx_Ok [simp]: "i < length xs \<Longrightarrow> idx xs i = Ok (xs ! i)"
  by (simp add: idx_def)

lemma idx_Ok_iff: "idx xs i = Ok x \<longleftrightarrow> i < length xs \<and> x = xs ! i"
  by (auto simp: idx_def)

lemma get_Some_iff: "get xs i = Some x \<longleftrightarrow> i < length xs \<and> x = xs ! i"
  by (auto simp: get_def)

lemma get_simps [simp]:
  "i < length xs \<Longrightarrow> get xs i = Some (xs ! i)"
  "length xs \<le> i \<Longrightarrow> get xs i = None"
  by (simp_all add: get_def)

lemma get_or_simps [simp]:
  "i < length xs \<Longrightarrow> get_or xs i d = xs ! i"
  "length xs \<le> i \<Longrightarrow> get_or xs i d = d"
  by (simp_all add: get_or_def)

lemma resize_same [simp]: "resize xs (length xs) d = xs"
  by (simp add: resize_def)

lemma length_resize [simp]: "length (resize xs n d) = n"
  by (simp add: resize_def)

section \<open>Methods on \<open>&mut self\<close>\<close>

text \<open>
  The state is returned on every path, so what a method leaves behind when it fails is
  part of the model.
\<close>

type_synonym ('s, 'a, 'e) sm = "'s \<Rightarrow> ('a, 'e) result \<times> 's"

definition sret :: "'a \<Rightarrow> ('s, 'a, 'e) sm" where
  [sm_simps]: "sret a = (\<lambda>s. (Ok a, s))"

definition slift :: "('a, 'e) result \<Rightarrow> ('s, 'a, 'e) sm" where
  [sm_simps]: "slift r = (\<lambda>s. (r, s))"

definition smodify :: "('s \<Rightarrow> 's) \<Rightarrow> ('s, unit, 'e) sm" where
  [sm_simps]: "smodify f = (\<lambda>s. (Ok (), f s))"

definition sbind :: "('s, 'a, 'e) sm \<Rightarrow> ('a \<Rightarrow> ('s, 'b, 'e) sm) \<Rightarrow> ('s, 'b, 'e) sm" where
  [sm_simps]: "sbind m f =
     (\<lambda>s. case m s of (r, s') \<Rightarrow>
        (case r of Ok a \<Rightarrow> f a s' | Err e \<Rightarrow> (Err e, s') | Panic \<Rightarrow> (Panic, s')))"

text \<open>Calling a method of a field: the field's state is taken out and put back.\<close>

definition szoom :: "('s \<Rightarrow> 't) \<Rightarrow> ('t \<Rightarrow> 's \<Rightarrow> 's) \<Rightarrow> ('t, 'a, 'e) sm \<Rightarrow> ('s, 'a, 'e) sm" where
  [sm_simps]: "szoom rd wr m = (\<lambda>s. case m (rd s) of (r, t) \<Rightarrow> (r, wr t s))"

text \<open>\<open>?\<close> through a \<open>From\<close> conversion of the error.\<close>

definition smap_err :: "('e \<Rightarrow> 'd) \<Rightarrow> ('s, 'a, 'e) sm \<Rightarrow> ('s, 'a, 'd) sm" where
  [sm_simps]: "smap_err f m = (\<lambda>s. case m s of (r, s') \<Rightarrow> (map_err f r, s'))"

text \<open>\<open>for x in xs\<close> with loop-carried variables.\<close>

primrec sfold :: "'x list \<Rightarrow> ('x \<Rightarrow> 'acc \<Rightarrow> ('s, 'acc, 'e) sm) \<Rightarrow> 'acc \<Rightarrow> ('s, 'acc, 'e) sm" where
  "sfold [] body acc = sret acc"
| "sfold (x # xs) body acc = sbind (body x acc) (sfold xs body)"

primrec rfold :: "'x list \<Rightarrow> ('x \<Rightarrow> 'acc \<Rightarrow> ('acc, 'e) result) \<Rightarrow> 'acc \<Rightarrow> ('acc, 'e) result" where
  "rfold [] body acc = Ok acc"
| "rfold (x # xs) body acc = rbind (body x acc) (rfold xs body)"

text \<open>\<open>xs.map(f).collect::<Result<Vec<_>, _>>()\<close>.\<close>

primrec rmap :: "('x \<Rightarrow> ('y, 'e) result) \<Rightarrow> 'x list \<Rightarrow> ('y list, 'e) result" where
  "rmap f [] = Ok []"
| "rmap f (x # xs) = rbind (f x) (\<lambda>y. rbind (rmap f xs) (\<lambda>ys. Ok (y # ys)))"

lemma sbind_Ok [simp]: "m s = (Ok a, s') \<Longrightarrow> sbind m f s = f a s'"
  by (simp add: sbind_def)

lemma sbind_sret [simp]: "sbind (sret a) f = f a"
  by (simp add: sbind_def sret_def)

lemma sbind_assoc: "sbind (sbind m f) g = sbind m (\<lambda>a. sbind (f a) g)"
  by (rule ext) (simp add: sbind_def split: prod.splits result.splits)

lemma sfold_append: "sfold (xs @ ys) body acc = sbind (sfold xs body acc) (sfold ys body)"
proof (induction xs arbitrary: acc)
  case Nil
  then show ?case by simp
next
  case (Cons x xs)
  have "sfold (xs @ ys) body = (\<lambda>acc. sbind (sfold xs body acc) (sfold ys body))"
    by (rule ext) (rule Cons.IH)
  then show ?case by (simp add: sbind_assoc)
qed

text \<open>
  The loop rule: give the loop-carried variables \<open>A i\<close> and the state \<open>S i\<close> before round
  \<open>i\<close>; each round must neither fail nor panic.
\<close>

lemma sfold_upt:
  assumes "a \<le> b"
    and "\<And>i. a \<le> i \<Longrightarrow> i < b \<Longrightarrow> body i (A i) (S i) = (Ok (A (Suc i)), S (Suc i))"
  shows "sfold [a..<b] body (A a) (S a) = (Ok (A b), S b)"
  using assms
proof (induction rule: dec_induct)
  case base
  then show ?case by (simp add: sm_simps)
next
  case (step b)
  then have "sfold [a..<b] body (A a) (S a) = (Ok (A b), S b)" by simp
  moreover have "body b (A b) (S b) = (Ok (A (Suc b)), S (Suc b))" using step by simp
  ultimately show ?case using step(1) by (simp add: sfold_append sbind_def sret_def)
qed

lemma rmap_Ok:
  "(\<And>x. x \<in> set xs \<Longrightarrow> f x = Ok (g x)) \<Longrightarrow> rmap f xs = Ok (map g xs)"
  by (induction xs) auto

lemma rmap_Ok_iff: "rmap f xs = Ok ys \<longleftrightarrow> list_all2 (\<lambda>x y. f x = Ok y) xs ys"
  by (induction xs arbitrary: ys) (auto simp: rbind_Ok_iff list_all2_Cons1)

lemma rmap_no_Panic: "(\<And>x. x \<in> set xs \<Longrightarrow> f x \<noteq> Panic) \<Longrightarrow> rmap f xs \<noteq> Panic"
  by (induction xs) (auto simp: rbind_Panic_iff)

lemma rfold_append: "rfold (xs @ ys) body acc = rbind (rfold xs body acc) (rfold ys body)"
proof (induction xs arbitrary: acc)
  case Nil
  then show ?case by simp
next
  case (Cons x xs)
  have "rfold (xs @ ys) body = (\<lambda>acc. rbind (rfold xs body acc) (rfold ys body))"
    by (rule ext) (rule Cons.IH)
  then show ?case by simp
qed

lemma rfold_upt:
  assumes "a \<le> b"
    and "\<And>i. a \<le> i \<Longrightarrow> i < b \<Longrightarrow> body i (A i) = Ok (A (Suc i))"
  shows "rfold [a..<b] body (A a) = Ok (A b)"
  using assms
proof (induction rule: dec_induct)
  case base
  then show ?case by simp
next
  case (step b)
  then show ?case by (simp add: rfold_append)
qed

text \<open>A method that never panics, whatever the state; \<open>P\<close> is an invariant of the loop variables.\<close>

definition no_panic :: "('s, 'a, 'e) sm \<Rightarrow> bool" where
  "no_panic m \<longleftrightarrow> (\<forall>s. fst (m s) \<noteq> Panic)"

lemma no_panicD: "no_panic m \<Longrightarrow> m s = (r, s') \<Longrightarrow> r \<noteq> Panic"
  unfolding no_panic_def by (metis fst_conv)

lemma no_panic_simps [simp, intro]:
  "no_panic (sret a)" "no_panic (smodify g)" "r \<noteq> Panic \<Longrightarrow> no_panic (slift r)"
  by (simp_all add: no_panic_def sm_simps)

lemma no_panic_sbind [intro]:
  "no_panic m \<Longrightarrow> (\<And>a s s'. m s = (Ok a, s') \<Longrightarrow> no_panic (f a)) \<Longrightarrow> no_panic (sbind m f)"
  unfolding no_panic_def sbind_def by (auto split: prod.splits result.splits) (metis fst_conv)+

text \<open>A method that reads its own state first.\<close>

lemma no_panic_reader [intro]:
  assumes "\<And>c. no_panic (m c)" and "\<And>c a. no_panic (f c a)"
  shows "no_panic (\<lambda>c. sbind (m c) (f c) c)"
proof -
  have "no_panic (sbind (m c) (f c))" for c using assms by (intro no_panic_sbind)
  then show ?thesis by (simp add: no_panic_def)
qed

lemma no_panic_sfold:
  assumes "\<And>x acc. x \<in> set xs \<Longrightarrow> P acc \<Longrightarrow> no_panic (body x acc)"
    and "\<And>x acc s acc' s'. x \<in> set xs \<Longrightarrow> P acc \<Longrightarrow> body x acc s = (Ok acc', s') \<Longrightarrow> P acc'"
    and "P acc"
  shows "no_panic (sfold xs body acc)"
  using assms
proof (induction xs arbitrary: acc)
  case Nil
  then show ?case by simp
next
  case (Cons x xs)
  have "no_panic (sfold xs body acc')" if "body x acc s = (Ok acc', s')" for acc' s s'
  proof (rule Cons.IH)
    show "P acc'" using that Cons.prems(2,3) by (meson list.set_intros(1))
  qed (use Cons.prems in \<open>meson list.set_intros(2)\<close>)+
  then show ?case using Cons.prems(1,3) by (auto simp del: split_paired_All)
qed

lemma rfold_no_panic:
  assumes "\<And>x acc. x \<in> set xs \<Longrightarrow> P acc \<Longrightarrow> body x acc \<noteq> Panic"
    and "\<And>x acc acc'. x \<in> set xs \<Longrightarrow> P acc \<Longrightarrow> body x acc = Ok acc' \<Longrightarrow> P acc'"
    and "P acc"
  shows "rfold xs body acc \<noteq> Panic"
  using assms
proof (induction xs arbitrary: acc)
  case Nil
  then show ?case by simp
next
  case (Cons x xs)
  have "rfold xs body acc' \<noteq> Panic" if "body x acc = Ok acc'" for acc'
  proof (rule Cons.IH)
    show "P acc'" using that Cons.prems(2,3) by (meson list.set_intros(1))
  qed (use Cons.prems in \<open>meson list.set_intros(2)\<close>)+
  then show ?case using Cons.prems(1,3) by (auto simp: rbind_Panic_iff)
qed

section \<open>Lists\<close>

lemma map_upt_snoc: "a \<le> b \<Longrightarrow> map f [a..<Suc b] = map f [a..<b] @ [f b]"
  by simp

lemma take_map_upt: "take k (map f [0..<n]) = map f [0..<min k n]"
  by (simp add: take_map min_def)

lemma drop_map_upt: "drop k (map f [a..<n]) = map f [a + k..<n]"
  by (simp add: drop_map)

lemma list_update_map_upt:
  "(map f [0..<n])[i := v] = map (\<lambda>j. if j = i then v else f j) [0..<n]"
  by (rule nth_equalityI) (auto simp: nth_list_update)

lemma map_upt_extend: "a \<le> b \<Longrightarrow> b \<le> c \<Longrightarrow> map f [a..<b] @ map f [b..<c] = map f [a..<c]"
  by (metis map_append upt_add_eq_append le_add_diff_inverse)

text \<open>\<open>xs.chunks(n)\<close>, for \<open>n > 0\<close>.\<close>

fun chunks :: "nat \<Rightarrow> 'a list \<Rightarrow> 'a list list" where
  "chunks n xs = (if xs = [] \<or> n = 0 then [] else take n xs # chunks n (drop n xs))"

declare chunks.simps [simp del]

lemma chunks_Nil [simp]: "chunks n [] = []"
  by (subst chunks.simps) simp

lemma chunks_step: "xs \<noteq> [] \<Longrightarrow> 0 < n \<Longrightarrow> chunks n xs = take n xs # chunks n (drop n xs)"
  by (subst chunks.simps) simp

lemma concat_chunks [simp]: "0 < n \<Longrightarrow> concat (chunks n xs) = xs"
proof (induction n xs rule: chunks.induct)
  case (1 n xs)
  then show ?case by (cases "xs = []") (simp_all add: chunks_step)
qed

lemma chunks_length: "\<forall>ys \<in> set (chunks n xs). length ys \<le> n"
proof (induction n xs rule: chunks.induct)
  case (1 n xs)
  then show ?case by (cases "xs = [] \<or> n = 0") (auto simp: chunks.simps [of n xs])
qed

lemma chunks_lengths_eq: "length xs = length ys \<Longrightarrow> map length (chunks n xs) = map length (chunks n ys)"
proof (induction n xs arbitrary: ys rule: chunks.induct)
  case (1 n xs)
  show ?case
  proof (cases "xs = [] \<or> n = 0")
    case True
    with 1(2) show ?thesis by (auto simp: chunks.simps [of 0])
  next
    case False
    then have "ys \<noteq> []" using 1(2) by auto
    with False 1(2) 1(1) [of "drop n ys"] show ?thesis by (simp add: chunks_step)
  qed
qed

section \<open>Decimal rendering\<close>

text \<open>The decimal digits of a natural number, most significant first.\<close>

fun dec_digits :: "nat \<Rightarrow> nat list" where
  "dec_digits n = (if n < 10 then [n] else dec_digits (n div 10) @ [n mod 10])"

declare dec_digits.simps [simp del]

definition show_nat :: "nat \<Rightarrow> string" where
  "show_nat n = map (\<lambda>d. char_of (48 + d)) (dec_digits n)"

definition horner10 :: "nat \<Rightarrow> nat list \<Rightarrow> nat" where
  "horner10 = foldl (\<lambda>v d. 10 * v + d)"

lemma horner10_simps [simp]:
  "horner10 v [] = v" "horner10 v (d # ds) = horner10 (10 * v + d) ds"
  by (simp_all add: horner10_def)

lemma horner10_append [simp]: "horner10 v (ds @ es) = horner10 (horner10 v ds) es"
  by (simp add: horner10_def)

lemma horner10_shift: "horner10 v ds = v * 10 ^ length ds + horner10 0 ds"
proof (induction ds arbitrary: v)
  case Nil
  then show ?case by simp
next
  case (Cons d ds)
  show ?case using Cons [of "10 * v + d"] Cons [of d] by (simp add: algebra_simps)
qed

lemma horner10_bound: "\<forall>d \<in> set ds. d < 10 \<Longrightarrow> horner10 0 ds < 10 ^ length ds"
proof (induction ds rule: rev_induct)
  case Nil
  then show ?case by simp
next
  case (snoc d ds)
  then show ?case by simp
qed

lemma horner10_mono: "v \<le> horner10 v ds"
  by (subst horner10_shift) (simp add: trans_le_add1)

lemma horner10_zeros [simp]: "horner10 0 (replicate k 0) = 0"
  by (induction k) auto

lemma dec_digits_less: "\<forall>d \<in> set (dec_digits n). d < 10"
proof (induction n rule: dec_digits.induct)
  case (1 n)
  then show ?case by (subst dec_digits.simps) auto
qed

lemma horner10_dec_digits [simp]: "horner10 0 (dec_digits n) = n"
proof (induction n rule: dec_digits.induct)
  case (1 n)
  then show ?case by (subst dec_digits.simps) auto
qed

lemma dec_digits_not_Nil [simp]: "dec_digits n \<noteq> []"
  by (subst dec_digits.simps) auto

lemma hd_dec_digits: "0 < n \<Longrightarrow> hd (dec_digits n) \<noteq> 0"
proof (induction n rule: dec_digits.induct)
  case (1 n)
  then show ?case by (subst dec_digits.simps) (auto simp: hd_append)
qed

lemma length_dec_digits: "n < 10 ^ k \<Longrightarrow> 0 < k \<Longrightarrow> length (dec_digits n) \<le> k"
proof (induction n arbitrary: k rule: dec_digits.induct)
  case (1 n)
  show ?case
  proof (cases "n < 10")
    case True
    with 1(3) show ?thesis by (subst dec_digits.simps) auto
  next
    case False
    then have "k \<noteq> 1" using 1(2) by auto
    then obtain k' where k: "k = Suc k'" "0 < k'" using 1(3) by (cases k) auto
    then have "n div 10 < 10 ^ k'" using 1(2) by (auto simp: less_mult_imp_div_less mult.commute)
    with False k show ?thesis using 1(1) [of k'] by (subst dec_digits.simps) simp
  qed
qed

section \<open>Unsigned integers as bytes\<close>

type_synonym byte = "8 word"

primrec nat_to_le :: "nat \<Rightarrow> nat \<Rightarrow> byte list" where
  "nat_to_le 0 n = []"
| "nat_to_le (Suc k) n = of_nat (n mod 256) # nat_to_le k (n div 256)"

primrec nat_of_le :: "byte list \<Rightarrow> nat" where
  "nat_of_le [] = 0"
| "nat_of_le (b # bs) = unat b + 256 * nat_of_le bs"

definition nat_to_be :: "nat \<Rightarrow> nat \<Rightarrow> byte list" where
  "nat_to_be k n = rev (nat_to_le k n)"

definition nat_of_be :: "byte list \<Rightarrow> nat" where
  "nat_of_be bs = nat_of_le (rev bs)"

lemma length_nat_to_le [simp, byte_simps]: "length (nat_to_le k n) = k"
  by (induction k arbitrary: n) auto

lemma length_nat_to_be [simp, byte_simps]: "length (nat_to_be k n) = k"
  by (simp add: nat_to_be_def)

lemma unat_byte_mod [simp]: "unat (of_nat (n mod 256) :: byte) = n mod 256"
  by (simp add: unat_of_nat take_bit_eq_mod)

lemma unat_byte_less: "unat (b :: byte) < 256"
proof -
  have "unat b < 2 ^ LENGTH(8)" by (rule unsigned_less)
  then show ?thesis by simp
qed

lemma unat_ucast_byte_64 [simp]: "unat (ucast (b :: byte) :: 64 word) = unat b"
  using unat_byte_less [of b] by (simp add: unsigned_ucast_eq take_bit_nat_eq_self)

lemma unat_ucast_byte_16 [simp]: "unat (ucast (b :: byte) :: 16 word) = unat b"
  using unat_byte_less [of b] by (simp add: unsigned_ucast_eq take_bit_nat_eq_self)

lemma unat_ucast_16_byte [simp]: "unat (ucast (w :: 16 word) :: byte) = unat w mod 256"
  by (simp add: unsigned_ucast_eq take_bit_eq_mod)

lemma nat_of_le_to_le: "nat_of_le (nat_to_le k n) = n mod 256 ^ k"
proof (induction k arbitrary: n)
  case 0
  then show ?case by simp
next
  case (Suc k)
  have "n mod 256 ^ Suc k = n mod 256 + 256 * (n div 256 mod 256 ^ k)"
    by (simp add: mod_mult2_eq)
  then show ?case by (simp add: Suc.IH)
qed

lemma nat_of_le_to_le_small [simp, byte_simps]: "n < 256 ^ k \<Longrightarrow> nat_of_le (nat_to_le k n) = n"
  by (simp add: nat_of_le_to_le)

lemma nat_of_be_to_be [simp, byte_simps]: "n < 256 ^ k \<Longrightarrow> nat_of_be (nat_to_be k n) = n"
  by (simp add: nat_of_be_def nat_to_be_def)

lemma nat_to_le_of_le [simp, byte_simps]: "nat_to_le (length bs) (nat_of_le bs) = bs"
proof (induction bs)
  case Nil
  then show ?case by simp
next
  case (Cons b bs)
  have "unat b < 256" by (rule unat_byte_less)
  then have "(unat b + 256 * nat_of_le bs) mod 256 = unat b"
    and "(unat b + 256 * nat_of_le bs) div 256 = nat_of_le bs" by auto
  then show ?case using Cons.IH by simp
qed

lemma nat_to_be_of_be [simp, byte_simps]: "nat_to_be (length bs) (nat_of_be bs) = bs"
  using nat_to_le_of_le [of "rev bs"] by (simp add: nat_of_be_def nat_to_be_def)

lemma nat_of_le_bound: "nat_of_le bs < 256 ^ length bs"
proof (induction bs)
  case Nil
  then show ?case by simp
next
  case (Cons b bs)
  have "unat b < 256" by (rule unat_byte_less)
  with Cons.IH show ?case by simp
qed

lemma nat_of_be_bound: "nat_of_be bs < 256 ^ length bs"
  using nat_of_le_bound [of "rev bs"] by (simp add: nat_of_be_def)

lemma nat_of_le_inj: "length as = length bs \<Longrightarrow> nat_of_le as = nat_of_le bs \<Longrightarrow> as = bs"
  by (metis nat_to_le_of_le)

section \<open>Checked sizes\<close>

text \<open>A \<open>usize\<close> has 64 bits.\<close>

definition usize_bits :: nat where
  "usize_bits = 64"

definition checked_add :: "nat \<Rightarrow> nat \<Rightarrow> nat option" where
  "checked_add a b = (if a + b < 2 ^ usize_bits then Some (a + b) else None)"

definition checked_mul :: "nat \<Rightarrow> nat \<Rightarrow> nat option" where
  "checked_mul a b = (if a * b < 2 ^ usize_bits then Some (a * b) else None)"

lemma checked_add_Some_iff [simp]: "checked_add a b = Some c \<longleftrightarrow> a + b < 2 ^ 64 \<and> c = a + b"
  by (auto simp: checked_add_def usize_bits_def)

lemma checked_mul_Some_iff [simp]: "checked_mul a b = Some c \<longleftrightarrow> a * b < 2 ^ 64 \<and> c = a * b"
  by (auto simp: checked_mul_def usize_bits_def)

end
