(* ===== verification/Merkle_Spec.thy ===== *)
theory Merkle_Spec
  imports Prelude
begin

text \<open>
  The abstract binary Merkle tree every tree of \<open>crates/core/src/imt.rs\<close> implements.  A tree
  is a function from leaf positions to leaves; \<open>subtree_root ps f l i\<close> is the root of the
  \<open>i\<close>-th height-\<open>l\<close> subtree.  A finite leaf log is padded with a zero leaf (\<open>padded\<close>).  The
  hash is a parameter: \<open>ps\<close> stands for \<open>poseidon\<close> on a slice, and every tree hashes pairs
  \<open>ps [left, right]\<close> only.  The lemmas say what a subtree depends on (\<open>subtree_root_cong\<close>),
  what an empty one is (\<open>subtree_root_padding\<close>), and how subtrees stack
  (\<open>subtree_root_stack\<close>).
\<close>

named_theorems merkle_simps \<open>equations of the abstract Merkle tree\<close>

primrec subtree_root :: "('f list \<Rightarrow> 'f) \<Rightarrow> (nat \<Rightarrow> 'f) \<Rightarrow> nat \<Rightarrow> nat \<Rightarrow> 'f" where
  "subtree_root ps f 0 i = f i"
| "subtree_root ps f (Suc l) i =
     ps [subtree_root ps f l (2 * i), subtree_root ps f l (2 * i + 1)]"

definition zroot :: "('f list \<Rightarrow> 'f) \<Rightarrow> 'f \<Rightarrow> nat \<Rightarrow> 'f" where
  "zroot ps z l = subtree_root ps (\<lambda>_. z) l 0"

definition padded :: "'f \<Rightarrow> 'f list \<Rightarrow> nat \<Rightarrow> 'f" where
  "padded z xs i = (if i < length xs then xs ! i else z)"

text \<open>The root of the depth-\<open>d\<close> tree over a padded leaf log.\<close>

definition merkle_root :: "('f list \<Rightarrow> 'f) \<Rightarrow> 'f \<Rightarrow> nat \<Rightarrow> 'f list \<Rightarrow> 'f" where
  "merkle_root ps z d xs = subtree_root ps (padded z xs) d 0"

lemma subtree_root_const: "subtree_root ps (\<lambda>_. z) l i = subtree_root ps (\<lambda>_. z) l 0"
  by (induction l arbitrary: i) (simp, metis subtree_root.simps(2))

lemma zroot_0 [simp, merkle_simps]: "zroot ps z 0 = z"
  by (simp add: zroot_def)

lemma zroot_Suc [merkle_simps]: "zroot ps z (Suc l) = ps [zroot ps z l, zroot ps z l]"
  unfolding zroot_def subtree_root.simps by (metis subtree_root_const)

lemma subtree_root_cong:
  assumes "\<And>j. i * 2 ^ l \<le> j \<Longrightarrow> j < (i + 1) * 2 ^ l \<Longrightarrow> f j = g j"
  shows "subtree_root ps f l i = subtree_root ps g l i"
  using assms
proof (induction l arbitrary: i)
  case 0
  then show ?case by simp
next
  case (Suc l)
  have "subtree_root ps f l (2 * i) = subtree_root ps g l (2 * i)"
    by (rule Suc.IH, rule Suc.prems) (simp_all add: algebra_simps)
  moreover have "subtree_root ps f l (2 * i + 1) = subtree_root ps g l (2 * i + 1)"
    by (rule Suc.IH, rule Suc.prems) (simp_all add: algebra_simps)
  ultimately show ?case by simp
qed

lemma subtree_root_padding:
  "length xs \<le> i * 2 ^ l \<Longrightarrow> subtree_root ps (padded z xs) l i = zroot ps z l"
  by (simp add: zroot_def flip: subtree_root_const [of ps z l i])
    (rule subtree_root_cong, simp add: padded_def)

lemma padded_Nil [simp]: "padded z [] = (\<lambda>_. z)"
  by (simp add: padded_def fun_eq_iff)

lemma merkle_root_Nil [simp, merkle_simps]: "merkle_root ps z d [] = zroot ps z d"
  by (simp add: merkle_root_def zroot_def)

lemma padded_append: "padded z (xs @ ys) i = (if i < length xs then xs ! i else padded z ys (i - length xs))"
  by (auto simp: padded_def nth_append)

lemma padded_less [simp]: "i < length xs \<Longrightarrow> padded z xs i = xs ! i"
  by (simp add: padded_def)

text \<open>Appending leaves leaves every subtree that ends before them alone.\<close>

lemma subtree_root_append:
  "(i + 1) * 2 ^ l \<le> length xs \<Longrightarrow>
    subtree_root ps (padded z (xs @ ys)) l i = subtree_root ps (padded z xs) l i"
  by (rule subtree_root_cong) (simp add: padded_append)

lemma subtree_root_take:
  "(i + 1) * 2 ^ l \<le> n \<Longrightarrow>
    subtree_root ps (padded z (take n xs)) l i = subtree_root ps (padded z xs) l i"
  by (rule subtree_root_cong) (auto simp: padded_def)

text \<open>Changing a leaf changes only the subtrees above it.\<close>

lemma subtree_root_update:
  "j div 2 ^ l \<noteq> i \<Longrightarrow>
    subtree_root ps (padded z (xs[j := x])) l i = subtree_root ps (padded z xs) l i"
proof (rule subtree_root_cong)
  fix k assume "j div 2 ^ l \<noteq> i" and "i * 2 ^ l \<le> k" and "k < (i + 1) * 2 ^ l"
  moreover from this have "k div 2 ^ l = i"
    by (intro div_nat_eqI) (simp_all add: mult.commute)
  ultimately have "j \<noteq> k" by auto
  then show "padded z (xs[j := x]) k = padded z xs k" by (simp add: padded_def)
qed

text \<open>A tall tree is a cap over the roots of short ones.\<close>

lemma subtree_root_stack:
  "subtree_root ps f (k + l) i = subtree_root ps (\<lambda>j. subtree_root ps f l j) k i"
  by (induction k arbitrary: i) simp_all

lemma subtree_root_shift:
  "subtree_root ps (\<lambda>j. f (j + s * 2 ^ l)) l i = subtree_root ps f l (i + s)"
proof (induction l arbitrary: i s)
  case 0
  then show ?case by simp
next
  case (Suc l)
  have "subtree_root ps (\<lambda>j. f (j + s * 2 ^ Suc l)) l k = subtree_root ps f l (k + 2 * s)" for k
    using Suc.IH [of "2 * s" k] by (simp add: ac_simps)
  then show ?case by (simp add: algebra_simps)
qed

lemma zroot_stack: "zroot ps z (k + l) = zroot ps (zroot ps z l) k"
proof -
  have "(\<lambda>j. subtree_root ps (\<lambda>_. z) l j) = (\<lambda>_. zroot ps z l)"
    unfolding zroot_def by (rule ext) (rule subtree_root_const)
  then have "subtree_root ps (\<lambda>_. z) (k + l) 0 = subtree_root ps (\<lambda>_. zroot ps z l) k 0"
    by (simp only: subtree_root_stack)
  then show ?thesis by (simp only: zroot_def)
qed

text \<open>Leaf positions split into a subtree index and a position inside it.\<close>

lemma half_div_pow: "(i :: nat) div 2 ^ Suc l = i div 2 ^ l div 2"
  by (metis div_mult2_eq power_Suc2)

lemma two_mult_div: "2 * ((n :: nat) div 2 ^ Suc l) \<le> n div 2 ^ l"
  by (simp add: half_div_pow del: power_Suc)

section \<open>Recomputing a root from a path\<close>

text \<open>
  The node a bottom-up walk has computed after \<open>l\<close> levels, from the leaf, its position and
  one sibling per level.
\<close>

primrec path_node :: "('f list \<Rightarrow> 'f) \<Rightarrow> 'f \<Rightarrow> nat \<Rightarrow> 'f list \<Rightarrow> nat \<Rightarrow> 'f" where
  "path_node ps leaf i sibs 0 = leaf"
| "path_node ps leaf i sibs (Suc l) =
     (let node = path_node ps leaf i sibs l
      in if even (i div 2 ^ l) then ps [node, sibs ! l] else ps [sibs ! l, node])"

definition path_pair :: "('f list \<Rightarrow> 'f) \<Rightarrow> 'f \<Rightarrow> nat \<Rightarrow> 'f list \<Rightarrow> nat \<Rightarrow> 'f list" where
  "path_pair ps leaf i sibs l =
     (let node = path_node ps leaf i sibs l
      in if even (i div 2 ^ l) then [node, sibs ! l] else [sibs ! l, node])"

definition tree_pair :: "('f list \<Rightarrow> 'f) \<Rightarrow> (nat \<Rightarrow> 'f) \<Rightarrow> nat \<Rightarrow> nat \<Rightarrow> 'f list" where
  "tree_pair ps f i l =
     (let j = i div 2 ^ Suc l in [subtree_root ps f l (2 * j), subtree_root ps f l (2 * j + 1)])"

lemma path_node_pair: "path_node ps leaf i sibs (Suc l) = ps (path_pair ps leaf i sibs l)"
  by (simp add: path_pair_def Let_def)

lemma subtree_root_pair: "subtree_root ps f (Suc l) (i div 2 ^ Suc l) = ps (tree_pair ps f i l)"
  by (simp add: tree_pair_def Let_def)

text \<open>The sibling of the node at \<open>i\<close> on level \<open>l\<close>.\<close>

definition sibling_index :: "nat \<Rightarrow> nat" where
  "sibling_index i = (if even i then i + 1 else i - 1)"

definition tree_siblings :: "('f list \<Rightarrow> 'f) \<Rightarrow> (nat \<Rightarrow> 'f) \<Rightarrow> nat \<Rightarrow> nat \<Rightarrow> 'f list" where
  "tree_siblings ps f d i = map (\<lambda>l. subtree_root ps f l (sibling_index (i div 2 ^ l))) [0..<d]"

lemma tree_pair_even:
  "even (i div 2 ^ l) \<Longrightarrow>
    tree_pair ps f i l = [subtree_root ps f l (i div 2 ^ l), subtree_root ps f l (i div 2 ^ l + 1)]"
  by (simp add: tree_pair_def Let_def half_div_pow del: power_Suc)

lemma tree_pair_odd:
  "odd (i div 2 ^ l) \<Longrightarrow>
    tree_pair ps f i l = [subtree_root ps f l (i div 2 ^ l - 1), subtree_root ps f l (i div 2 ^ l)]"
  by (simp add: tree_pair_def Let_def half_div_pow odd_two_times_div_two_nat del: power_Suc)

text \<open>Walking up with the true siblings recomputes the true nodes.\<close>

lemma path_node_siblings:
  assumes "\<And>k. k < l \<Longrightarrow> sibs ! k = subtree_root ps f k (sibling_index (i div 2 ^ k))"
  shows "path_node ps (f i) i sibs l = subtree_root ps f l (i div 2 ^ l)"
  using assms
proof (induction l)
  case 0
  then show ?case by simp
next
  case (Suc l)
  then have "path_node ps (f i) i sibs l = subtree_root ps f l (i div 2 ^ l)" by simp
  with Suc.prems [of l] show ?case
    by (cases "even (i div 2 ^ l)")
      (simp_all add: subtree_root_pair tree_pair_even tree_pair_odd sibling_index_def
        del: subtree_root.simps power_Suc)
qed

lemma path_node_tree_siblings:
  "l \<le> d \<Longrightarrow> path_node ps (f i) i (tree_siblings ps f d i) l = subtree_root ps f l (i div 2 ^ l)"
  by (rule path_node_siblings) (simp add: tree_siblings_def)

text \<open>
  Soundness of a path: if a walk of \<open>d\<close> levels ends in the tree's root, the leaf is the
  tree's leaf, or some level exhibits two different pairs with the same hash.
\<close>

lemma path_sound_or_collision:
  assumes "path_node ps leaf i sibs d = subtree_root ps f d (i div 2 ^ d)"
  shows "leaf = f i \<or>
    (\<exists>l < d. path_pair ps leaf i sibs l \<noteq> tree_pair ps f i l \<and>
             ps (path_pair ps leaf i sibs l) = ps (tree_pair ps f i l))"
  using assms
proof (induction d)
  case 0
  then show ?case by simp
next
  case (Suc d)
  then have eq: "ps (path_pair ps leaf i sibs d) = ps (tree_pair ps f i d)"
    by (simp add: path_node_pair subtree_root_pair del: subtree_root.simps path_node.simps power_Suc)
  show ?case
  proof (cases "path_pair ps leaf i sibs d = tree_pair ps f i d")
    case True
    then have "path_node ps leaf i sibs d = subtree_root ps f d (i div 2 ^ d)"
      by (cases "even (i div 2 ^ d)")
        (simp_all add: path_pair_def Let_def tree_pair_even tree_pair_odd)
    then show ?thesis using Suc.IH less_Suc_eq by blast
  next
    case False
    then show ?thesis using eq by blast
  qed
qed

end
