(* ===== verification/Imt.thy ===== *)
theory Imt
  imports Merkle_Spec
begin

text \<open>
  The flat incremental Merkle tree \<open>Imt\<close> of \<open>crates/core/src/imt.rs\<close>: its state, every
  operation, and the functional refinement \<open>imt_of\<close> that says each operation's result is
  the canonical tree of the abstract leaf log.  \<open>usize\<close> values are naturals; the pointer
  width is 64 bits, which \<open>tree_capacity\<close> makes explicit.  \<open>ps\<close> is \<open>poseidon\<close> and
  \<open>0 :: 'f\<close> is \<open>Fr::ZERO\<close>.
\<close>

datatype tree_error =
    InvalidGeometry nat nat
  | CapacityOverflow nat
  | TreeFull nat
  | DuplicateLeaf
  | LeafNotFound
  | LeafIndexOutOfRange nat nat
  | DuplicateOwnedLeaf nat
  | OwnedLeafMismatch nat
  | NoteNotMarked
  | NoteAlreadyCompleted nat
  | ShardNotCompleted nat
  | InvalidSiblingCount nat nat
  | WitnessRootMismatch nat
  | InvalidSnapshot string
  | RewindBeforeCompleted nat nat
  | NonCanonicalField

record 'f inclusion_proof =
  ip_leaf :: 'f
  ip_index :: nat
  ip_siblings :: "'f list"
  ip_root :: 'f

definition u32_max :: nat where
  "u32_max = 2 ^ 32 - 1"

text \<open>\<open>u32::try_from(depth).ok().and_then(|shift| 1usize.checked_shl(shift))\<close>.\<close>

definition tree_capacity :: "nat \<Rightarrow> (nat, tree_error) result" where
  "tree_capacity depth =
     (if depth \<le> u32_max \<and> depth < usize_bits then Ok (2 ^ depth) else Err (CapacityOverflow depth))"

lemma tree_capacity_Ok_iff: "tree_capacity d = Ok c \<longleftrightarrow> d < 64 \<and> c = 2 ^ d"
  by (auto simp: tree_capacity_def usize_bits_def u32_max_def)

lemma tree_capacity_Ok [simp]: "d < 64 \<Longrightarrow> tree_capacity d = Ok (2 ^ d)"
  by (simp add: tree_capacity_Ok_iff)

lemma tree_capacity_Err [simp]: "64 \<le> d \<Longrightarrow> tree_capacity d = Err (CapacityOverflow d)"
  by (simp add: tree_capacity_def usize_bits_def)

lemma tree_capacity_no_Panic [simp]: "tree_capacity d \<noteq> Panic"
  by (simp add: tree_capacity_def)

section \<open>Zero roots\<close>

primrec zero_roots_loop :: "('f list \<Rightarrow> 'f) \<Rightarrow> nat \<Rightarrow> 'f list \<Rightarrow> 'f list" where
  "zero_roots_loop ps 0 z = z"
| "zero_roots_loop ps (Suc n) z = zero_roots_loop ps n (z @ [ps [last z, last z]])"

definition zero_roots_from :: "('f list \<Rightarrow> 'f) \<Rightarrow> nat \<Rightarrow> 'f \<Rightarrow> 'f list" where
  "zero_roots_from ps depth zero_leaf = zero_roots_loop ps depth [zero_leaf]"

definition max_cached_zero_depth :: nat where
  "max_cached_zero_depth = 64"

text \<open>\<open>zero_roots\<close> copies a prefix of the cached table, or recomputes for a larger depth.\<close>

definition zero_roots :: "('f :: zero list \<Rightarrow> 'f) \<Rightarrow> nat \<Rightarrow> 'f list" where
  "zero_roots ps depth =
     (let table = zero_roots_from ps max_cached_zero_depth 0
      in if depth < length table then take (depth + 1) table
         else zero_roots_from ps depth 0)"

lemma zero_roots_loop_eq:
  "zero_roots_loop ps n (map (zroot ps z) [0..<Suc m]) = map (zroot ps z) [0..<Suc (m + n)]"
proof (induction n arbitrary: m)
  case 0
  then show ?case by simp
next
  case (Suc n)
  have "map (zroot ps z) [0..<Suc m] @ [ps [zroot ps z m, zroot ps z m]]
      = map (zroot ps z) [0..<Suc (Suc m)]"
    by (simp add: zroot_Suc)
  with Suc.IH [of "Suc m"] show ?case by simp
qed

lemma zero_roots_from_eq: "zero_roots_from ps d z = map (zroot ps z) [0..<Suc d]"
  using zero_roots_loop_eq [of ps d z 0] by (simp add: zero_roots_from_def)

lemma zero_roots_eq: "zero_roots ps d = map (zroot ps 0) [0..<Suc d]"
  by (simp add: zero_roots_def zero_roots_from_eq Let_def take_map del: upt_Suc)

lemma length_zero_roots [simp]: "length (zero_roots ps d) = Suc d"
  by (simp add: zero_roots_eq)

lemma nth_zero_roots [simp]: "l \<le> d \<Longrightarrow> zero_roots ps d ! l = zroot ps 0 l"
  by (simp add: zero_roots_eq del: upt_Suc)

section \<open>The tree and its operations\<close>

record 'f imt =
  imt_depth :: nat
  imt_zero_leaf :: 'f
  imt_zeroes :: "'f list"
  imt_nodes :: "'f list list"

definition imt_new_with_zero ::
    "('f list \<Rightarrow> 'f) \<Rightarrow> nat \<Rightarrow> 'f \<Rightarrow> ('f imt, tree_error) result" where
  "imt_new_with_zero ps depth zero_leaf =
     rbind (expect (tree_capacity depth)) (\<lambda>_.
       let z = zero_roots_from ps depth zero_leaf;
           nodes = replicate (depth + 1) [];
           nodes = (if depth \<noteq> 0 then nodes[depth := [z ! depth]] else nodes)
       in Ok \<lparr>imt_depth = depth, imt_zero_leaf = zero_leaf, imt_zeroes = take depth z,
              imt_nodes = nodes\<rparr>)"

definition imt_new :: "('f :: zero list \<Rightarrow> 'f) \<Rightarrow> nat \<Rightarrow> ('f imt, tree_error) result" where
  "imt_new ps depth = imt_new_with_zero ps depth 0"

text \<open>\<open>level.chunks(2)\<close>, a missing right child read as the level's zero.\<close>

fun build_parent_level :: "('f list \<Rightarrow> 'f) \<Rightarrow> 'f list \<Rightarrow> 'f \<Rightarrow> 'f list" where
  "build_parent_level ps [] zero = []"
| "build_parent_level ps [a] zero = [ps [a, zero]]"
| "build_parent_level ps (a # b # rest) zero = ps [a, b] # build_parent_level ps rest zero"

definition imt_build_level ::
    "('f list \<Rightarrow> 'f) \<Rightarrow> nat \<Rightarrow> unit \<Rightarrow> ('f imt, unit, tree_error) sm" where
  "imt_build_level ps level acc = (\<lambda>t.
     sbind (slift (idx (imt_nodes t) level)) (\<lambda>row.
     sbind (slift (idx (imt_zeroes t) level)) (\<lambda>zero.
     sbind (slift (rassert (level + 1 < length (imt_nodes t)))) (\<lambda>_.
       smodify (imt_nodes_update (\<lambda>nodes. nodes[level + 1 := build_parent_level ps row zero]))))) t)"

definition imt_from_leaves_with_zero ::
    "('f list \<Rightarrow> 'f) \<Rightarrow> nat \<Rightarrow> 'f \<Rightarrow> 'f list \<Rightarrow> ('f imt, tree_error) result" where
  "imt_from_leaves_with_zero ps depth zero_leaf leaves =
     rbind (expect (tree_capacity depth)) (\<lambda>capacity.
     rbind (rassert (length leaves \<le> capacity)) (\<lambda>_.
     rbind (imt_new_with_zero ps depth zero_leaf) (\<lambda>t.
       if leaves = [] then Ok t
       else (case sfold [0..<depth] (imt_build_level ps) ()
                    (t\<lparr>imt_nodes := (imt_nodes t)[0 := leaves]\<rparr>) of
               (r, t') \<Rightarrow> rbind r (\<lambda>_. Ok t')))))"

definition imt_from_leaves ::
    "('f :: zero list \<Rightarrow> 'f) \<Rightarrow> nat \<Rightarrow> 'f list \<Rightarrow> ('f imt, tree_error) result" where
  "imt_from_leaves ps depth leaves = imt_from_leaves_with_zero ps depth 0 leaves"

text \<open>Accessors.  \<open>self.nodes[0]\<close> always exists: \<open>nodes\<close> has \<open>depth + 1\<close> rows.\<close>

definition imt_leaves :: "'f imt \<Rightarrow> 'f list" where
  "imt_leaves t = imt_nodes t ! 0"

definition imt_leaf_count :: "'f imt \<Rightarrow> nat" where
  "imt_leaf_count t = length (imt_leaves t)"

definition imt_capacity :: "'f imt \<Rightarrow> (nat, tree_error) result" where
  "imt_capacity t = tree_capacity (imt_depth t)"

definition imt_leaf :: "'f imt \<Rightarrow> nat \<Rightarrow> 'f option" where
  "imt_leaf t index = get (imt_leaves t) index"

definition imt_root :: "'f imt \<Rightarrow> ('f, tree_error) result" where
  "imt_root t =
     (if imt_depth t = 0 \<and> imt_leaves t = [] then Ok (imt_zero_leaf t)
      else rbind (idx (imt_nodes t) (imt_depth t)) (\<lambda>top. idx top 0))"

definition imt_insert_level ::
    "('f list \<Rightarrow> 'f) \<Rightarrow> nat \<Rightarrow> 'f \<times> nat \<Rightarrow> ('f imt, 'f \<times> nat, tree_error) sm" where
  "imt_insert_level ps level = (\<lambda>(node, index) t.
     sbind (slift (idx (imt_nodes t) level)) (\<lambda>row.
     sbind (slift (idx (imt_zeroes t) level)) (\<lambda>zero.
       let pos = index mod 2;
           start = index - pos;
           row = (if index < length row then row[index := node] else resize row index zero @ [node]);
           left = get_or row start zero;
           right = get_or row (start + 1) zero
       in sbind (smodify (imt_nodes_update (\<lambda>nodes. nodes[level := row])))
            (\<lambda>_. sret (ps [left, right], index div 2)))) t)"

definition imt_set_top :: "'f \<Rightarrow> ('f imt, unit, tree_error) sm" where
  "imt_set_top node = (\<lambda>t.
     sbind (slift (idx (imt_nodes t) (imt_depth t))) (\<lambda>top.
       smodify (imt_nodes_update (\<lambda>nodes.
         nodes[imt_depth t := (if top = [] then [node] else top[0 := node])]))) t)"

definition imt_insert :: "('f list \<Rightarrow> 'f) \<Rightarrow> 'f \<Rightarrow> ('f imt, unit, tree_error) sm" where
  "imt_insert ps leaf = (\<lambda>t.
     sbind (slift (expect (imt_capacity t))) (\<lambda>capacity.
     sbind (slift (rassert (imt_leaf_count t < capacity))) (\<lambda>_.
     sbind (sfold [0..<imt_depth t] (imt_insert_level ps) (leaf, imt_leaf_count t))
       (\<lambda>(node, index). imt_set_top node))) t)"

definition imt_insert_many_level ::
    "('f list \<Rightarrow> 'f) \<Rightarrow> nat \<Rightarrow> nat \<Rightarrow> ('f imt, nat, tree_error) sm" where
  "imt_insert_many_level ps level first = (\<lambda>t.
     let first = first div 2 in
     sbind (slift (idx (imt_nodes t) level)) (\<lambda>row.
     sbind (slift (slice_from row (2 * first))) (\<lambda>tail.
     sbind (slift (idx (imt_zeroes t) level)) (\<lambda>zero.
     sbind (slift (idx (imt_nodes t) (level + 1))) (\<lambda>above.
     sbind (smodify (imt_nodes_update (\<lambda>nodes.
              nodes[level + 1 := take first above @ build_parent_level ps tail zero])))
       (\<lambda>_. sret first))))) t)"

definition imt_insert_many :: "('f list \<Rightarrow> 'f) \<Rightarrow> 'f list \<Rightarrow> ('f imt, unit, tree_error) sm" where
  "imt_insert_many ps leaves = (\<lambda>t.
     sbind (slift (imt_capacity t)) (\<lambda>capacity.
     sbind (slift (guard (capacity - imt_leaf_count t < length leaves) (TreeFull (imt_depth t)))) (\<lambda>_.
       if leaves = [] then sret ()
       else sbind (smodify (imt_nodes_update (\<lambda>nodes. nodes[0 := nodes ! 0 @ leaves]))) (\<lambda>_.
            sbind (sfold [0..<imt_depth t] (imt_insert_many_level ps) (imt_leaf_count t)) (\<lambda>_.
              sret ())))) t)"

text \<open>\<open>node_index & !1\<close> clears the low bit.\<close>

definition imt_update_level ::
    "('f list \<Rightarrow> 'f) \<Rightarrow> nat \<Rightarrow> nat \<Rightarrow> ('f imt, nat, tree_error) sm" where
  "imt_update_level ps level node_index = (\<lambda>t.
     let pair_start = node_index - node_index mod 2 in
     sbind (slift (idx (imt_nodes t) level)) (\<lambda>row.
     sbind (slift (idx (imt_zeroes t) level)) (\<lambda>zero.
       let left = get_or row pair_start zero;
           right = get_or row (pair_start + 1) zero;
           node_index = node_index div 2
       in sbind (slift (idx (imt_nodes t) (level + 1))) (\<lambda>above.
          sbind (slift (rassert (node_index < length above))) (\<lambda>_.
          sbind (smodify (imt_nodes_update (\<lambda>nodes.
                   nodes[level + 1 := above[node_index := ps [left, right]]])))
            (\<lambda>_. sret node_index))))) t)"

definition imt_update :: "('f list \<Rightarrow> 'f) \<Rightarrow> nat \<Rightarrow> 'f \<Rightarrow> ('f imt, unit, tree_error) sm" where
  "imt_update ps index leaf = (\<lambda>t.
     let leaf_count = imt_leaf_count t in
     sbind (slift (guard (leaf_count \<le> index) (LeafIndexOutOfRange index leaf_count))) (\<lambda>_.
     sbind (smodify (imt_nodes_update (\<lambda>nodes. nodes[0 := (nodes ! 0)[index := leaf]]))) (\<lambda>_.
     sbind (sfold [0..<imt_depth t] (imt_update_level ps) index) (\<lambda>_. sret ()))) t)"

definition imt_truncate :: "('f list \<Rightarrow> 'f) \<Rightarrow> nat \<Rightarrow> ('f imt, unit, tree_error) sm" where
  "imt_truncate ps leaf_count = (\<lambda>t.
     let current = imt_leaf_count t in
     sbind (slift (guard (current < leaf_count) (LeafIndexOutOfRange leaf_count current))) (\<lambda>_.
     sbind (slift (imt_from_leaves_with_zero ps (imt_depth t) (imt_zero_leaf t)
                     (take leaf_count (imt_leaves t)))) (\<lambda>t'.
       smodify (\<lambda>_. t'))) t)"

definition imt_next_leaf_frontier :: "'f :: zero imt \<Rightarrow> ('f list, tree_error) result" where
  "imt_next_leaf_frontier t =
     (let index = imt_leaf_count t in
      rbind (imt_capacity t) (\<lambda>capacity.
      rbind (guard (capacity \<le> index) (TreeFull (imt_depth t))) (\<lambda>_.
        rmap (\<lambda>level.
          let position = index div 2 ^ level in
          if odd position then rbind (idx (imt_nodes t) level) (\<lambda>row. idx row (position - 1))
          else Ok 0) [0..<imt_depth t])))"

definition imt_proof_level :: "'f imt \<Rightarrow> nat \<Rightarrow> 'f list \<times> nat \<Rightarrow> ('f list \<times> nat, tree_error) result" where
  "imt_proof_level t level = (\<lambda>(siblings, idx').
     let sib_i = (if even idx' then idx' + 1 else idx' - 1) in
     rbind (idx (imt_nodes t) level) (\<lambda>row.
     rbind (idx (imt_zeroes t) level) (\<lambda>zero.
       Ok (siblings @ [get_or row sib_i zero], idx' div 2))))"

definition imt_create_proof :: "'f imt \<Rightarrow> nat \<Rightarrow> ('f inclusion_proof, tree_error) result" where
  "imt_create_proof t index =
     rbind (rassert (index < length (imt_leaves t))) (\<lambda>_.
     rbind (idx (imt_leaves t) index) (\<lambda>leaf.
     rbind (rfold [0..<imt_depth t] (imt_proof_level t) ([], index)) (\<lambda>(siblings, _).
     rbind (imt_root t) (\<lambda>root.
       Ok \<lparr>ip_leaf = leaf, ip_index = index, ip_siblings = siblings, ip_root = root\<rparr>))))"

end
