(* ===== verification/Imt_Refine.thy ===== *)
theory Imt_Refine
  imports Imt
begin

text \<open>
  The flat tree refines the abstract Merkle tree.  \<open>imt_of ps d z xs\<close> is the state of the
  depth-\<open>d\<close> tree over the leaf log \<open>xs\<close>; every operation maps canonical states to canonical
  states, so two histories with the same leaves give the same tree, and no operation panics.
\<close>

lemma upt_0_1 [simp]: "[0..<Suc 0] = [0]"
  by simp

section \<open>Canonical states\<close>

definition ceil_len :: "nat \<Rightarrow> nat \<Rightarrow> nat" where
  "ceil_len n l = (n + 2 ^ l - 1) div 2 ^ l"

definition level_len :: "nat \<Rightarrow> nat \<Rightarrow> nat \<Rightarrow> nat" where
  "level_len d n l = (if l = d \<and> 0 < d then 1 else ceil_len n l)"

definition imt_row :: "('f list \<Rightarrow> 'f) \<Rightarrow> nat \<Rightarrow> 'f \<Rightarrow> 'f list \<Rightarrow> nat \<Rightarrow> 'f list" where
  "imt_row ps d z xs l = map (subtree_root ps (padded z xs) l) [0..<level_len d (length xs) l]"

definition imt_mk :: "('f list \<Rightarrow> 'f) \<Rightarrow> nat \<Rightarrow> 'f \<Rightarrow> (nat \<Rightarrow> 'f list) \<Rightarrow> 'f imt" where
  "imt_mk ps d z R = \<lparr>imt_depth = d, imt_zero_leaf = z, imt_zeroes = map (zroot ps z) [0..<d],
     imt_nodes = map R [0..<Suc d]\<rparr>"

definition imt_of :: "('f list \<Rightarrow> 'f) \<Rightarrow> nat \<Rightarrow> 'f \<Rightarrow> 'f list \<Rightarrow> 'f imt" where
  "imt_of ps d z xs = imt_mk ps d z (imt_row ps d z xs)"

text \<open>The well-formedness invariant of a tree, checkable on a concrete state.\<close>

definition imt_wf :: "('f list \<Rightarrow> 'f) \<Rightarrow> 'f imt \<Rightarrow> bool" where
  "imt_wf ps t \<longleftrightarrow> imt_depth t < 64 \<and> length (imt_leaves t) \<le> 2 ^ imt_depth t \<and>
     t = imt_of ps (imt_depth t) (imt_zero_leaf t) (imt_leaves t)"

section \<open>Level lengths\<close>

lemma ceil_len_0 [simp]: "ceil_len n 0 = n"
  by (simp add: ceil_len_def)

lemma ceil_len_zero [simp]: "ceil_len 0 l = 0"
  by (simp add: ceil_len_def)

lemma ceil_len_Suc: "ceil_len n (Suc l) = (ceil_len n l + 1) div 2"
proof -
  define p :: nat where "p = 2 ^ l"
  have "0 < p" by (simp add: p_def)
  then have "(n + p - 1) div p + 1 = (n + p - 1 + p) div p"
    by (subst div_add_self2) simp_all
  also have "n + p - 1 + p = n + 2 * p - 1" using \<open>0 < p\<close> by simp
  finally have "((n + p - 1) div p + 1) div 2 = (n + 2 * p - 1) div p div 2" by simp
  then show ?thesis by (simp add: ceil_len_def flip: p_def) (simp add: div_mult2_eq mult.commute [of 2 p])
qed

lemma ceil_len_cases: "ceil_len n l = n div 2 ^ l \<or> ceil_len n l = n div 2 ^ l + 1"
proof (induction l)
  case 0
  then show ?case by simp
next
  case (Suc l)
  then show ?case by (auto simp: ceil_len_Suc half_div_pow simp del: power_Suc)
qed

lemma div_le_ceil_len: "n div 2 ^ l \<le> ceil_len n l"
  using ceil_len_cases [of n l] by auto

lemma ceil_len_le: "ceil_len n l \<le> n div 2 ^ l + 1"
  using ceil_len_cases [of n l] by auto

lemma ceil_len_Suc_len [simp]: "ceil_len (Suc n) l = n div 2 ^ l + 1"
proof -
  have "ceil_len (Suc n) l = (n + 2 ^ l) div 2 ^ l" by (simp add: ceil_len_def)
  then show ?thesis by (subst (asm) div_add_self2) simp_all
qed

lemma ceil_len_covers: "ceil_len n l \<le> i \<Longrightarrow> n \<le> i * 2 ^ l"
proof (cases n)
  case (Suc m)
  assume "ceil_len n l \<le> i"
  then have "m div 2 ^ l < i" using Suc by simp
  then show ?thesis using Suc by (simp add: div_less_iff_less_mult mult.commute)
qed simp

lemma ceil_len_less: "i < ceil_len n l \<Longrightarrow> i * 2 ^ l < n"
proof (cases n)
  case (Suc m)
  assume "i < ceil_len n l"
  then have "i \<le> m div 2 ^ l" using Suc by simp
  then have "i * 2 ^ l \<le> m" by (simp add: less_eq_div_iff_mult_less_eq)
  then show ?thesis using Suc by simp
qed simp

lemma ceil_len_top: "0 < n \<Longrightarrow> n \<le> 2 ^ d \<Longrightarrow> ceil_len n d = 1"
  by (cases n) auto

lemma level_len_0 [simp]: "level_len d n 0 = n"
  by (simp add: level_len_def)

lemma level_len_below [simp]: "l < d \<Longrightarrow> level_len d n l = ceil_len n l"
  by (simp add: level_len_def)

lemma level_len_nonempty: "0 < n \<Longrightarrow> n \<le> 2 ^ d \<Longrightarrow> level_len d n l = ceil_len n l"
  by (simp add: level_len_def ceil_len_top)

lemma level_len_top [simp]: "0 < d \<Longrightarrow> level_len d n d = 1"
  by (simp add: level_len_def)

section \<open>Rows\<close>

lemma imt_row_top: "0 < d \<Longrightarrow> imt_row ps d z xs d = [subtree_root ps (padded z xs) d 0]"
  by (simp add: imt_row_def)

lemma imt_row_0 [simp]: "imt_row ps d z xs 0 = xs"
  by (rule nth_equalityI) (simp_all add: imt_row_def)

lemma length_imt_row [simp]: "length (imt_row ps d z xs l) = level_len d (length xs) l"
  by (simp add: imt_row_def)

lemma nth_imt_row [simp]:
  "i < level_len d (length xs) l \<Longrightarrow> imt_row ps d z xs l ! i = subtree_root ps (padded z xs) l i"
  by (simp add: imt_row_def)

lemma row_get_or:
  "length xs \<le> m * 2 ^ l \<Longrightarrow>
    get_or (map (subtree_root ps (padded z xs) l) [0..<m]) i (zroot ps z l) =
      subtree_root ps (padded z xs) l i"
  by (cases "i < m")
    (simp_all add: subtree_root_padding [OF order_trans [of _ "m * 2 ^ l"]])

lemma imt_row_get_or [simp]:
  "l < d \<Longrightarrow>
    get_or (imt_row ps d z xs l) i (zroot ps z l) = subtree_root ps (padded z xs) l i"
  by (simp add: imt_row_def row_get_or ceil_len_covers)

lemma build_parent_level_eq:
  assumes "2 * a \<le> m" and "odd m \<Longrightarrow> subtree_root ps f l m = zero"
  shows "build_parent_level ps (map (subtree_root ps f l) [2 * a..<m]) zero =
    map (subtree_root ps f (Suc l)) [a..<(m + 1) div 2]"
  using assms(1)
proof (induction "m - 2 * a" arbitrary: a rule: less_induct)
  case less
  have "2 * a = m \<or> 2 * a + 1 = m \<or> 2 * Suc a \<le> m" using less.prems by arith
  then consider "2 * a = m" | "2 * a + 1 = m" | "2 * Suc a \<le> m" by blast
  then show ?case
  proof cases
    case 1
    then show ?thesis by auto
  next
    case 2
    then have "[2 * a..<m] = [2 * a]" and "[a..<(m + 1) div 2] = [a]" by auto
    then show ?thesis using assms(2) 2 by auto
  next
    case 3
    then have "[2 * a..<m] = 2 * a # (2 * a + 1) # [2 * Suc a..<m]"
      and "[a..<(m + 1) div 2] = a # [Suc a..<(m + 1) div 2]"
      by (simp_all add: upt_conv_Cons)
    then show ?thesis using less.hyps [of "Suc a"] 3 by simp
  qed
qed

text \<open>The parent row of a row, from an even position on.\<close>

lemma build_parent_row:
  assumes "2 * a \<le> ceil_len (length xs) l"
  shows "build_parent_level ps
      (drop (2 * a) (map (subtree_root ps (padded z xs) l) [0..<ceil_len (length xs) l])) (zroot ps z l) =
    map (subtree_root ps (padded z xs) (Suc l)) [a..<ceil_len (length xs) (Suc l)]"
  using assms
  by (simp add: drop_map_upt build_parent_level_eq subtree_root_padding ceil_len_covers ceil_len_Suc
      del: subtree_root.simps)

section \<open>State accessors\<close>

lemma imt_mk_simps [simp]:
  "imt_depth (imt_mk ps d z R) = d"
  "imt_zero_leaf (imt_mk ps d z R) = z"
  "imt_zeroes (imt_mk ps d z R) = map (zroot ps z) [0..<d]"
  "imt_nodes (imt_mk ps d z R) = map R [0..<Suc d]"
  by (simp_all add: imt_mk_def)

lemma imt_mk_update [simp]:
  "l \<le> d \<Longrightarrow>
    imt_nodes_update (\<lambda>nodes. nodes[l := v]) (imt_mk ps d z R) = imt_mk ps d z (R(l := v))"
  by (auto simp: imt_mk_def list_update_map_upt simp del: upt_Suc intro: map_cong)

lemma imt_mk_cong: "(\<And>l. l \<le> d \<Longrightarrow> R l = R' l) \<Longrightarrow> imt_mk ps d z R = imt_mk ps d z R'"
  by (auto simp: imt_mk_def simp del: upt_Suc)

lemma imt_of_simps [simp]:
  "imt_depth (imt_of ps d z xs) = d"
  "imt_zero_leaf (imt_of ps d z xs) = z"
  "imt_zeroes (imt_of ps d z xs) = map (zroot ps z) [0..<d]"
  "imt_leaves (imt_of ps d z xs) = xs"
  "imt_leaf_count (imt_of ps d z xs) = length xs"
  by (simp_all add: imt_of_def imt_leaves_def imt_leaf_count_def del: upt_Suc)

lemma imt_leaves_mk [simp]: "imt_leaves (imt_mk ps d z R) = R 0"
  by (simp add: imt_leaves_def del: upt_Suc)

lemma imt_capacity_of [simp]: "d < 64 \<Longrightarrow> imt_capacity (imt_of ps d z xs) = Ok (2 ^ d)"
  by (simp add: imt_capacity_def)

lemma imt_wf_of [simp]: "d < 64 \<Longrightarrow> length xs \<le> 2 ^ d \<Longrightarrow> imt_wf ps (imt_of ps d z xs)"
  by (simp add: imt_wf_def)

lemma imt_wfE:
  assumes "imt_wf ps t"
  obtains d z xs where "t = imt_of ps d z xs" "d < 64" "length xs \<le> 2 ^ d"
    "d = imt_depth t" "z = imt_zero_leaf t" "xs = imt_leaves t"
  using assms by (auto simp: imt_wf_def)

section \<open>Operations on canonical states\<close>

lemma imt_new_with_zero_eq: "d < 64 \<Longrightarrow> imt_new_with_zero ps d z = Ok (imt_of ps d z [])"
proof -
  assume d: "d < 64"
  have "0 < d \<Longrightarrow> (replicate (Suc d) [])[d := [zroot ps z d]] = map (imt_row ps d z []) [0..<Suc d]"
    by (rule nth_equalityI)
      (auto simp: nth_list_update imt_row_def level_len_def zroot_def less_Suc_eq
        simp del: upt_Suc replicate_Suc)
  with d show ?thesis
    by (auto simp: imt_new_with_zero_def imt_of_def imt_mk_def Let_def zero_roots_from_eq take_map
        simp del: upt_Suc replicate_Suc) simp
qed

lemma imt_new_eq: "d < 64 \<Longrightarrow> imt_new ps d = Ok (imt_of ps d 0 [])"
  by (simp add: imt_new_def imt_new_with_zero_eq)

lemma imt_root_eq:
  assumes "length xs \<le> 2 ^ d"
  shows "imt_root (imt_of ps d z xs) = Ok (merkle_root ps z d xs)"
proof (cases "d = 0")
  case True
  with assms show ?thesis
    by (cases xs) (auto simp: imt_root_def merkle_root_def imt_of_def idx_def)
next
  case False
  then show ?thesis
    by (simp add: imt_root_def merkle_root_def imt_of_def idx_def imt_row_top del: upt_Suc)
qed

lemma imt_build_level_eq:
  assumes "i < d" and "xs \<noteq> []" and "length xs \<le> 2 ^ d"
  shows "imt_build_level ps i ()
      (imt_mk ps d z (\<lambda>l. if l \<le> i then imt_row ps d z xs l else R l)) =
    (Ok (), imt_mk ps d z (\<lambda>l. if l \<le> Suc i then imt_row ps d z xs l else R l))"
proof -
  have "build_parent_level ps (imt_row ps d z xs i) (zroot ps z i) = imt_row ps d z xs (Suc i)"
    using assms build_parent_row [of 0 xs i ps z]
    by (simp add: imt_row_def level_len_nonempty del: subtree_root.simps)
  then show ?thesis
    using assms by (auto simp: imt_build_level_def sm_simps simp del: upt_Suc intro!: imt_mk_cong)
qed

lemma imt_from_leaves_with_zero_eq:
  assumes "d < 64" and "length xs \<le> 2 ^ d"
  shows "imt_from_leaves_with_zero ps d z xs = Ok (imt_of ps d z xs)"
proof (cases "xs = []")
  case True
  with assms show ?thesis by (simp add: imt_from_leaves_with_zero_def imt_new_with_zero_eq)
next
  case False
  let ?S = "\<lambda>i. imt_mk ps d z (\<lambda>l. if l \<le> i then imt_row ps d z xs l else imt_row ps d z [] l)"
  have "sfold [0..<d] (imt_build_level ps) ((\<lambda>_. ()) 0) (?S 0) = (Ok ((\<lambda>_. ()) d), ?S d)"
    by (rule sfold_upt) (simp_all add: imt_build_level_eq False assms)
  moreover have "(imt_of ps d z [])\<lparr>imt_nodes := (imt_nodes (imt_of ps d z []))[0 := xs]\<rparr> = ?S 0"
    by (auto simp: imt_of_def imt_mk_def list_update_map_upt simp del: upt_Suc)
  moreover have "?S d = imt_of ps d z xs"
    unfolding imt_of_def by (rule imt_mk_cong) simp
  ultimately show ?thesis
    using assms False by (simp add: imt_from_leaves_with_zero_def imt_new_with_zero_eq)
qed

section \<open>Appending\<close>

lemma less_div_mult: "j < (n :: nat) div p \<Longrightarrow> (j + 1) * p \<le> n"
  by (metis Suc_eq_plus1 Suc_leI div_times_less_eq_dividend mult_le_mono1 order_trans)

lemma imt_row_snoc:
  fixes xs :: "'f list" and x z :: 'f and ps :: "'f list \<Rightarrow> 'f"
  assumes "i < d"
  defines "k \<equiv> length xs div 2 ^ i"
  defines "v \<equiv> subtree_root ps (padded z (xs @ [x])) i k"
  shows "(if k < length (imt_row ps d z xs i) then (imt_row ps d z xs i)[k := v]
      else resize (imt_row ps d z xs i) k (zroot ps z i) @ [v]) = imt_row ps d z (xs @ [x]) i"
    (is "?row = _")
proof (rule nth_equalityI)
  have len: "length (imt_row ps d z xs i) = k \<or> length (imt_row ps d z xs i) = k + 1"
    using assms ceil_len_cases [of "length xs" i] by auto
  then show "length ?row = length (imt_row ps d z (xs @ [x]) i)"
    using assms(1) by (auto simp: k_def)
  fix j assume "j < length ?row"
  with len have j: "j < k \<or> j = k" by (auto split: if_splits)
  have old: "imt_row ps d z xs i ! j = imt_row ps d z (xs @ [x]) i ! j" if "j < k"
  proof -
    from that have "(j + 1) * 2 ^ i \<le> length xs" unfolding k_def by (rule less_div_mult)
    with that len show ?thesis
      using assms(1) by (auto simp: subtree_root_append k_def)
  qed
  from j len old show "?row ! j = imt_row ps d z (xs @ [x]) i ! j"
    using assms(1) by (auto simp: v_def k_def nth_append resize_def)
qed

lemma imt_insert_level_eq:
  fixes xs :: "'f list" and x z :: 'f and ps :: "'f list \<Rightarrow> 'f"
  assumes "i < d"
  defines "R \<equiv> \<lambda>i l. if l < i then imt_row ps d z (xs @ [x]) l else imt_row ps d z xs l"
  defines "A \<equiv> \<lambda>i. (subtree_root ps (padded z (xs @ [x])) i (length xs div 2 ^ i), length xs div 2 ^ i)"
  shows "imt_insert_level ps i (A i) (imt_mk ps d z (R i)) = (Ok (A (Suc i)), imt_mk ps d z (R (Suc i)))"
proof -
  let ?k = "length xs div 2 ^ i"
  have pair: "?k - ?k mod 2 = 2 * (?k div 2)" by (simp add: minus_mod_eq_mult_div)
  have "imt_mk ps d z ((R i)(i := imt_row ps d z (xs @ [x]) i)) = imt_mk ps d z (R (Suc i))"
    by (rule imt_mk_cong) (simp add: R_def)
  then show ?thesis
    using assms(1) imt_row_snoc [OF assms(1), of xs ps z x]
    by (simp add: imt_insert_level_def sm_simps A_def R_def Let_def pair half_div_pow
        del: upt_Suc power_Suc)
qed

lemma imt_set_top_eq:
  assumes "length xs < 2 ^ d"
  shows "imt_set_top (subtree_root ps (padded z (xs @ [x])) d 0)
      (imt_mk ps d z (\<lambda>l. if l < d then imt_row ps d z (xs @ [x]) l else imt_row ps d z xs l)) =
    (Ok (), imt_of ps d z (xs @ [x]))"
proof (cases "d = 0")
  case True
  with assms show ?thesis by (simp add: imt_set_top_def sm_simps imt_of_def imt_mk_def)
next
  case False
  then show ?thesis
    by (auto simp: imt_set_top_def sm_simps imt_of_def imt_row_top simp del: upt_Suc
        intro!: imt_mk_cong)
qed

lemma imt_insert_eq:
  assumes "d < 64" and "length xs < 2 ^ d"
  shows "imt_insert ps x (imt_of ps d z xs) = (Ok (), imt_of ps d z (xs @ [x]))"
proof -
  let ?R = "\<lambda>i l. if l < i then imt_row ps d z (xs @ [x]) l else imt_row ps d z xs l"
  let ?A = "\<lambda>i. (subtree_root ps (padded z (xs @ [x])) i (length xs div 2 ^ i), length xs div 2 ^ i)"
  have "sfold [0..<d] (imt_insert_level ps) (?A 0) (imt_mk ps d z (?R 0)) =
      (Ok (?A d), imt_mk ps d z (?R d))"
    by (rule sfold_upt) (simp_all add: imt_insert_level_eq del: subtree_root.simps)
  then have "sfold [0..<d] (imt_insert_level ps) (x, length xs) (imt_of ps d z xs) =
      (Ok (?A d), imt_mk ps d z (?R d))"
    by (simp add: imt_of_def)
  then show ?thesis
    using assms imt_set_top_eq [OF assms(2), of ps z x]
    by (simp add: imt_insert_def slift_def del: upt_Suc)
qed

lemma imt_insert_full:
  "length xs = 2 ^ d \<Longrightarrow> d < 64 \<Longrightarrow> fst (imt_insert ps x (imt_of ps d z xs)) = Panic"
  by (simp add: imt_insert_def sm_simps)

section \<open>Appending in bulk\<close>

lemma take_imt_row_append:
  assumes "l \<le> d" and "length (xs @ ys) \<le> 2 ^ d" and "ys \<noteq> []"
  shows "take (length xs div 2 ^ l) (imt_row ps d z xs l) =
    map (subtree_root ps (padded z (xs @ ys)) l) [0..<length xs div 2 ^ l]"
proof (rule nth_equalityI)
  have "length xs < 2 ^ d" using assms by (cases ys) auto
  then have "length xs div 2 ^ l \<le> level_len d (length xs) l"
    using div_le_ceil_len [of "length xs" l] by (cases "l = d") (auto simp: level_len_def)
  then show "length (take (length xs div 2 ^ l) (imt_row ps d z xs l)) =
      length (map (subtree_root ps (padded z (xs @ ys)) l) [0..<length xs div 2 ^ l])"
    by simp
  fix i assume "i < length (take (length xs div 2 ^ l) (imt_row ps d z xs l))"
  then have "i < length xs div 2 ^ l" and "i < level_len d (length xs) l" by auto
  moreover from this(1) have "(i + 1) * 2 ^ l \<le> length xs" by (rule less_div_mult)
  ultimately show "take (length xs div 2 ^ l) (imt_row ps d z xs l) ! i =
      map (subtree_root ps (padded z (xs @ ys)) l) [0..<length xs div 2 ^ l] ! i"
    by (simp add: subtree_root_append)
qed

lemma imt_insert_many_level_eq:
  fixes xs ys :: "'f list" and z :: 'f and ps :: "'f list \<Rightarrow> 'f"
  assumes "i < d" and "length (xs @ ys) \<le> 2 ^ d" and "ys \<noteq> []"
  defines "R \<equiv> \<lambda>i l. if l \<le> i then imt_row ps d z (xs @ ys) l else imt_row ps d z xs l"
  shows "imt_insert_many_level ps i (length xs div 2 ^ i) (imt_mk ps d z (R i)) =
    (Ok (length xs div 2 ^ Suc i), imt_mk ps d z (R (Suc i)))"
proof -
  let ?n = "length xs" and ?m = "length (xs @ ys)"
  let ?a = "?n div 2 ^ Suc i"
  have "?a * 2 \<le> ?n div 2 ^ i" using two_mult_div [of ?n i] by simp
  also have "\<dots> \<le> ?m div 2 ^ i" by (simp add: div_le_mono)
  also have "\<dots> \<le> ceil_len ?m i" by (rule div_le_ceil_len)
  finally have a: "2 * ?a \<le> ceil_len ?m i" by simp
  then have a': "?a \<le> ceil_len ?m (Suc i)" by (simp add: ceil_len_Suc del: power_Suc)
  have "take ?a (imt_row ps d z xs (Suc i)) @
      build_parent_level ps (drop (2 * ?a) (imt_row ps d z (xs @ ys) i)) (zroot ps z i)
    = imt_row ps d z (xs @ ys) (Suc i)"
    using assms(1-3) build_parent_row [OF a, of ps z] a' take_imt_row_append [of "Suc i" d xs ys ps z]
    by (simp add: imt_row_def level_len_nonempty map_upt_extend del: subtree_root.simps power_Suc)
  moreover have "imt_mk ps d z ((R i)(Suc i := imt_row ps d z (xs @ ys) (Suc i))) = imt_mk ps d z (R (Suc i))"
    by (rule imt_mk_cong) (auto simp: R_def)
  ultimately show ?thesis
    using assms(1) a
    by (simp add: imt_insert_many_level_def sm_simps Let_def R_def slice_from_def
        flip: half_div_pow del: upt_Suc power_Suc)
qed

lemma imt_insert_many_eq:
  assumes "d < 64" and "length (xs @ ys) \<le> 2 ^ d"
  shows "imt_insert_many ps ys (imt_of ps d z xs) = (Ok (), imt_of ps d z (xs @ ys))"
proof (cases "ys = []")
  case True
  with assms show ?thesis by (simp add: imt_insert_many_def sm_simps)
next
  case False
  let ?R = "\<lambda>i l. if l \<le> i then imt_row ps d z (xs @ ys) l else imt_row ps d z xs l"
  have "sfold [0..<d] (imt_insert_many_level ps) (length xs div 2 ^ 0) (imt_mk ps d z (?R 0)) =
      (Ok (length xs div 2 ^ d), imt_mk ps d z (?R d))"
    using False assms imt_insert_many_level_eq [of _ d xs ys ps z] by (intro sfold_upt) simp_all
  moreover have "imt_mk ps d z (?R d) = imt_of ps d z (xs @ ys)"
    unfolding imt_of_def by (rule imt_mk_cong) simp
  moreover have "imt_nodes_update (\<lambda>nodes. nodes[0 := nodes ! 0 @ ys]) (imt_of ps d z xs) = imt_mk ps d z (?R 0)"
    by (auto simp: imt_of_def imt_mk_def list_update_map_upt simp del: upt_Suc)
  moreover have "\<not> 2 ^ d - length xs < length ys" using assms by auto
  ultimately show ?thesis
    using assms False by (simp add: imt_insert_many_def sm_simps)
qed

lemma imt_insert_many_full:
  "d < 64 \<Longrightarrow> length xs \<le> 2 ^ d \<Longrightarrow> 2 ^ d < length (xs @ ys) \<Longrightarrow>
    imt_insert_many ps ys (imt_of ps d z xs) = (Err (TreeFull d), imt_of ps d z xs)"
  by (auto simp: imt_insert_many_def sm_simps guard_def)

section \<open>Updating and truncating\<close>

lemma index_in_level:
  assumes "j < n" and "n \<le> 2 ^ d" and "l \<le> d"
  shows "j div 2 ^ l < level_len d n l"
proof -
  have "\<not> ceil_len n l \<le> j div 2 ^ l"
    using ceil_len_covers [of n l "j div 2 ^ l"] assms(1) times_div_less_eq_dividend [of "2 ^ l" j]
    by (auto simp: mult.commute)
  then show ?thesis using assms by (simp add: level_len_nonempty)
qed

lemma imt_row_update:
  assumes "j < length xs" and "length xs \<le> 2 ^ d" and "l \<le> d"
  shows "(imt_row ps d z xs l)[j div 2 ^ l := subtree_root ps (padded z (xs[j := x])) l (j div 2 ^ l)] =
    imt_row ps d z (xs[j := x]) l"
proof (rule nth_equalityI)
  fix i assume "i < length ((imt_row ps d z xs l)
    [j div 2 ^ l := subtree_root ps (padded z (xs[j := x])) l (j div 2 ^ l)])"
  then show "(imt_row ps d z xs l)
      [j div 2 ^ l := subtree_root ps (padded z (xs[j := x])) l (j div 2 ^ l)] ! i =
    imt_row ps d z (xs[j := x]) l ! i"
    by (cases "i = j div 2 ^ l") (simp_all add: subtree_root_update)
qed simp

lemma imt_update_level_eq:
  fixes xs :: "'f list" and x z :: 'f and ps :: "'f list \<Rightarrow> 'f"
  assumes "i < d" and "j < length xs" and "length xs \<le> 2 ^ d"
  defines "R \<equiv> \<lambda>i l. if l \<le> i then imt_row ps d z (xs[j := x]) l else imt_row ps d z xs l"
  shows "imt_update_level ps i (j div 2 ^ i) (imt_mk ps d z (R i)) =
    (Ok (j div 2 ^ Suc i), imt_mk ps d z (R (Suc i)))"
proof -
  let ?k = "j div 2 ^ i"
  have pair: "?k - ?k mod 2 = 2 * (?k div 2)" by (simp add: minus_mod_eq_mult_div)
  have below: "?k div 2 < level_len d (length xs) (Suc i)"
    using index_in_level [of j "length xs" d "Suc i"] assms(1-3) by (simp add: half_div_pow del: power_Suc)
  have "imt_mk ps d z ((R i)(Suc i := imt_row ps d z (xs[j := x]) (Suc i))) = imt_mk ps d z (R (Suc i))"
    by (rule imt_mk_cong) (auto simp: R_def)
  then show ?thesis
    using assms(1-3) below imt_row_update [OF assms(2,3), of "Suc i" ps z x]
    by (simp add: imt_update_level_def sm_simps Let_def R_def pair half_div_pow del: upt_Suc power_Suc)
qed

lemma imt_update_eq:
  assumes "d < 64" and "length xs \<le> 2 ^ d" and "j < length xs"
  shows "imt_update ps j x (imt_of ps d z xs) = (Ok (), imt_of ps d z (xs[j := x]))"
proof -
  let ?R = "\<lambda>i l. if l \<le> i then imt_row ps d z (xs[j := x]) l else imt_row ps d z xs l"
  have "sfold [0..<d] (imt_update_level ps) (j div 2 ^ 0) (imt_mk ps d z (?R 0)) =
      (Ok (j div 2 ^ d), imt_mk ps d z (?R d))"
    using assms imt_update_level_eq [of _ d j xs ps z x] by (intro sfold_upt) simp_all
  moreover have "imt_mk ps d z (?R d) = imt_of ps d z (xs[j := x])"
    unfolding imt_of_def by (rule imt_mk_cong) simp
  moreover have "imt_nodes_update (\<lambda>nodes. nodes[0 := (nodes ! 0)[j := x]]) (imt_of ps d z xs) = imt_mk ps d z (?R 0)"
    by (auto simp: imt_of_def imt_mk_def list_update_map_upt simp del: upt_Suc)
  ultimately show ?thesis using assms by (simp add: imt_update_def sm_simps)
qed

lemma imt_update_out_of_range:
  "length xs \<le> j \<Longrightarrow>
    imt_update ps j x (imt_of ps d z xs) = (Err (LeafIndexOutOfRange j (length xs)), imt_of ps d z xs)"
  by (simp add: imt_update_def sm_simps)

lemma imt_truncate_eq:
  assumes "d < 64" and "length xs \<le> 2 ^ d" and "n \<le> length xs"
  shows "imt_truncate ps n (imt_of ps d z xs) = (Ok (), imt_of ps d z (take n xs))"
  using assms by (simp add: imt_truncate_def sm_simps imt_from_leaves_with_zero_eq)

lemma imt_truncate_out_of_range:
  "length xs < n \<Longrightarrow>
    imt_truncate ps n (imt_of ps d z xs) = (Err (LeafIndexOutOfRange n (length xs)), imt_of ps d z xs)"
  by (simp add: imt_truncate_def sm_simps)

section \<open>Proofs and the frontier of the next leaf\<close>

lemma imt_nodes_of [simp]: "l \<le> d \<Longrightarrow> imt_nodes (imt_of ps d z xs) ! l = imt_row ps d z xs l"
  by (simp add: imt_of_def del: upt_Suc)

lemma length_imt_nodes_of [simp]: "length (imt_nodes (imt_of ps d z xs)) = Suc d"
  by (simp add: imt_of_def)

lemma imt_proof_level_eq:
  "i < d \<Longrightarrow> imt_proof_level (imt_of ps d z xs) i (sibs, k) =
    Ok (sibs @ [subtree_root ps (padded z xs) i (sibling_index k)], k div 2)"
  by (simp add: imt_proof_level_def Let_def sibling_index_def)

lemma imt_proof_levels_eq:
  "rfold [0..<d] (imt_proof_level (imt_of ps d z xs)) ([], j) =
    Ok (tree_siblings ps (padded z xs) d j, j div 2 ^ d)"
proof -
  let ?A = "\<lambda>i. (tree_siblings ps (padded z xs) i j, j div 2 ^ i)"
  have "rfold [0..<d] (imt_proof_level (imt_of ps d z xs)) (?A 0) = Ok (?A d)"
    by (rule rfold_upt) (simp_all add: imt_proof_level_eq tree_siblings_def half_div_pow del: power_Suc)
  then show ?thesis by (simp add: tree_siblings_def)
qed

text \<open>The proof record of leaf \<open>j\<close> in the abstract tree.\<close>

definition proof_of :: "('f list \<Rightarrow> 'f) \<Rightarrow> nat \<Rightarrow> 'f \<Rightarrow> 'f list \<Rightarrow> nat \<Rightarrow> 'f inclusion_proof" where
  "proof_of ps d z xs j = \<lparr>ip_leaf = padded z xs j, ip_index = j,
     ip_siblings = tree_siblings ps (padded z xs) d j, ip_root = merkle_root ps z d xs\<rparr>"

lemma imt_create_proof_eq:
  assumes "length xs \<le> 2 ^ d" and "j < length xs"
  shows "imt_create_proof (imt_of ps d z xs) j = Ok (proof_of ps d z xs j)"
  using assms by (simp add: imt_create_proof_def imt_proof_levels_eq imt_root_eq proof_of_def)

lemma imt_create_proof_out_of_range:
  "length xs \<le> j \<Longrightarrow> imt_create_proof (imt_of ps d z xs) j = Panic"
  by (simp add: imt_create_proof_def rassert_def)

text \<open>What the next leaf's path finds on its left, zero where it turns left.\<close>

definition next_frontier :: "('f :: zero list \<Rightarrow> 'f) \<Rightarrow> (nat \<Rightarrow> 'f) \<Rightarrow> nat \<Rightarrow> nat \<Rightarrow> 'f list" where
  "next_frontier ps f d n =
     map (\<lambda>l. if odd (n div 2 ^ l) then subtree_root ps f l (n div 2 ^ l - 1) else 0) [0..<d]"

lemma imt_next_leaf_frontier_eq:
  assumes "d < 64" and "length xs < 2 ^ d"
  shows "imt_next_leaf_frontier (imt_of ps d z xs) = Ok (next_frontier ps (padded z xs) d (length xs))"
proof -
  have "length xs div 2 ^ l - 1 < ceil_len (length xs) l" if "odd (length xs div 2 ^ l)" for l
    using that div_le_ceil_len [of "length xs" l] by (cases "length xs div 2 ^ l") auto
  then show ?thesis
    using assms by (auto simp: imt_next_leaf_frontier_def next_frontier_def Let_def intro!: rmap_Ok)
qed

lemma imt_next_leaf_frontier_full:
  "d < 64 \<Longrightarrow> length xs = 2 ^ d \<Longrightarrow> imt_next_leaf_frontier (imt_of ps d z xs) = Err (TreeFull d)"
  by (simp add: imt_next_leaf_frontier_def Let_def)

lemma imt_leaf_eq: "imt_leaf (imt_of ps d z xs) i = get xs i"
  by (simp add: imt_leaf_def)

lemmas imt_of_ops = imt_new_with_zero_eq imt_new_eq imt_root_eq imt_from_leaves_with_zero_eq
  imt_insert_eq imt_insert_many_eq imt_update_eq imt_truncate_eq imt_create_proof_eq
  imt_next_leaf_frontier_eq imt_leaf_eq

section \<open>Histories\<close>

text \<open>The mutating operations, and what each does to the leaf log it stands for.\<close>

datatype 'f imt_op = ImtInsert 'f | ImtInsertMany "'f list" | ImtUpdate nat 'f | ImtTruncate nat

fun imt_exec :: "('f list \<Rightarrow> 'f) \<Rightarrow> 'f imt_op \<Rightarrow> ('f imt, unit, tree_error) sm" where
  "imt_exec ps (ImtInsert x) = imt_insert ps x"
| "imt_exec ps (ImtInsertMany xs) = imt_insert_many ps xs"
| "imt_exec ps (ImtUpdate i x) = imt_update ps i x"
| "imt_exec ps (ImtTruncate n) = imt_truncate ps n"

fun log_exec :: "nat \<Rightarrow> 'f imt_op \<Rightarrow> ('f list, unit, tree_error) sm" where
  "log_exec d (ImtInsert x) xs = (if length xs < 2 ^ d then (Ok (), xs @ [x]) else (Panic, xs))"
| "log_exec d (ImtInsertMany ys) xs =
     (if length xs + length ys \<le> 2 ^ d then (Ok (), xs @ ys) else (Err (TreeFull d), xs))"
| "log_exec d (ImtUpdate i x) xs =
     (if i < length xs then (Ok (), xs[i := x]) else (Err (LeafIndexOutOfRange i (length xs)), xs))"
| "log_exec d (ImtTruncate n) xs =
     (if n \<le> length xs then (Ok (), take n xs) else (Err (LeafIndexOutOfRange n (length xs)), xs))"

lemma log_exec_bound: "length xs \<le> 2 ^ d \<Longrightarrow> length (snd (log_exec d op xs)) \<le> 2 ^ d"
  by (cases op) auto

lemma imt_exec_of:
  assumes "d < 64" and "length xs \<le> 2 ^ d"
  shows "imt_exec ps op (imt_of ps d z xs) = (case log_exec d op xs of (r, xs') \<Rightarrow> (r, imt_of ps d z xs'))"
proof (cases op)
  case (ImtInsert x)
  have "length xs = 2 ^ d \<Longrightarrow> imt_insert ps x (imt_of ps d z xs) = (Panic, imt_of ps d z xs)"
    using assms(1) by (simp add: imt_insert_def sm_simps)
  with ImtInsert assms show ?thesis by (auto simp: imt_insert_eq not_less)
next
  case (ImtInsertMany ys)
  with assms show ?thesis by (auto simp: imt_insert_many_eq imt_insert_many_full)
next
  case (ImtUpdate i x)
  with assms show ?thesis by (auto simp: imt_update_eq imt_update_out_of_range)
next
  case (ImtTruncate n)
  with assms show ?thesis by (auto simp: imt_truncate_eq imt_truncate_out_of_range)
qed

definition imt_history :: "('f list \<Rightarrow> 'f) \<Rightarrow> 'f imt_op list \<Rightarrow> 'f imt \<Rightarrow> 'f imt" where
  "imt_history ps ops t = fold (\<lambda>op t. snd (imt_exec ps op t)) ops t"

definition log_history :: "nat \<Rightarrow> 'f imt_op list \<Rightarrow> 'f list \<Rightarrow> 'f list" where
  "log_history d ops xs = fold (\<lambda>op xs. snd (log_exec d op xs)) ops xs"

lemma log_history_bound: "length xs \<le> 2 ^ d \<Longrightarrow> length (log_history d ops xs) \<le> 2 ^ d"
  unfolding log_history_def by (induction ops arbitrary: xs) (simp_all add: log_exec_bound)

lemma imt_history_of:
  assumes "d < 64" and "length xs \<le> 2 ^ d"
  shows "imt_history ps ops (imt_of ps d z xs) = imt_of ps d z (log_history d ops xs)"
  using assms(2) unfolding imt_history_def log_history_def
  by (induction ops arbitrary: xs) (simp_all add: imt_exec_of [OF assms(1)] log_exec_bound case_prod_unfold)

section \<open>Properties\<close>

text \<open>
  C1: Every mutating operation of \<open>Imt\<close> on a well-formed tree (\<open>insert\<close>, \<open>insert_many\<close>,
  \<open>update\<close>, \<open>truncate\<close>) returns what the same operation on the plain leaf log returns -
  success, \<open>TreeFull\<close>, \<open>LeafIndexOutOfRange\<close>, or the documented panic of a full \<open>insert\<close> -
  and leaves exactly the tree that bulk construction builds from the resulting log; on a
  failure nothing changes.
\<close>

theorem imt_operations_refine:
  assumes "imt_wf ps t"
  shows "imt_exec ps op t =
      (case log_exec (imt_depth t) op (imt_leaves t) of
         (r, xs) \<Rightarrow> (r, imt_of ps (imt_depth t) (imt_zero_leaf t) xs)) \<and>
    imt_from_leaves_with_zero ps (imt_depth t) (imt_zero_leaf t) (snd (log_exec (imt_depth t) op (imt_leaves t))) =
      Ok (snd (imt_exec ps op t)) \<and>
    imt_wf ps (snd (imt_exec ps op t))"
  using assms
  by (auto elim!: imt_wfE simp: imt_exec_of imt_from_leaves_with_zero_eq log_exec_bound case_prod_unfold)

theorem imt_operations_refine_witness:
  "imt_exec sum_list (ImtInsert 9) (imt_of sum_list 2 0 [5, 7 :: nat]) = (Ok (), imt_of sum_list 2 0 [5, 7, 9])"
  using imt_operations_refine [of sum_list "imt_of sum_list 2 0 [5, 7 :: nat]" "ImtInsert 9"] by simp

text \<open>
  C2: The tree depends on its leaf log only: two histories of operations from the empty tree
  that lead to the same log - appends in any batching, updates, truncations, failed calls in
  between - end in the same tree, whose root is the root of the abstract Merkle tree over the
  log padded with zeros.
\<close>

theorem imt_history_independent:
  assumes "d < 64" and "log_history d ops [] = log_history d ops' []"
  shows "\<exists>t. imt_new ps d = Ok t \<and> imt_history ps ops t = imt_history ps ops' t \<and>
    imt_wf ps (imt_history ps ops t) \<and> imt_leaves (imt_history ps ops t) = log_history d ops [] \<and>
    imt_root (imt_history ps ops t) = Ok (merkle_root ps 0 d (log_history d ops []))"
  using assms log_history_bound [of "[]" d ops]
  by (simp add: imt_new_eq imt_history_of imt_root_eq)

theorem imt_history_independent_witness:
  "\<exists>t. imt_new sum_list 2 = Ok t \<and>
    imt_history sum_list [ImtInsertMany [5, 7, 9], ImtTruncate 2] t =
      imt_history sum_list [ImtInsert 4, ImtUpdate 7 1, ImtUpdate 0 5, ImtInsert (7 :: nat)] t"
  using imt_history_independent [of 2 "[ImtInsertMany [5, 7, 9], ImtTruncate 2]"
      "[ImtInsert 4, ImtUpdate 7 1, ImtUpdate 0 5, ImtInsert (7 :: nat)]" sum_list]
  by (auto simp: log_history_def)

end
