(* ===== verification/Inclusion_Proof.thy ===== *)
theory Inclusion_Proof
  imports Imt_Refine
begin

text \<open>
  Verification of inclusion proofs (\<open>verify_proof\<close>, \<open>verify_path\<close> and
  \<open>verify_proof_at_depth\<close> of \<open>crates/core/src/imt.rs\<close>): completeness, soundness up to an
  explicit hash collision on the path, and the weakness of the unpinned check that the
  depth-pinned one removes.
\<close>

fun verify_loop :: "('f list \<Rightarrow> 'f) \<Rightarrow> 'f list \<Rightarrow> 'f \<Rightarrow> nat \<Rightarrow> 'f \<times> nat" where
  "verify_loop ps [] node i = (node, i)"
| "verify_loop ps (sib # sibs) node i =
     verify_loop ps sibs (if even i then ps [node, sib] else ps [sib, node]) (i div 2)"

definition verify_path :: "('f list \<Rightarrow> 'f) \<Rightarrow> 'f inclusion_proof \<Rightarrow> bool" where
  "verify_path ps p =
     (case verify_loop ps (ip_siblings p) (ip_leaf p) (ip_index p) of
        (node, i) \<Rightarrow> i = 0 \<and> node = ip_root p)"

definition verify_proof :: "('f list \<Rightarrow> 'f) \<Rightarrow> 'f inclusion_proof \<Rightarrow> bool" where
  "verify_proof ps p = verify_path ps p"

definition verify_proof_at_depth :: "('f list \<Rightarrow> 'f) \<Rightarrow> 'f inclusion_proof \<Rightarrow> nat \<Rightarrow> bool" where
  "verify_proof_at_depth ps p depth \<longleftrightarrow>
     (case tree_capacity depth of Ok _ \<Rightarrow> True | _ \<Rightarrow> False) \<and>
     length (ip_siblings p) = depth \<and> verify_path ps p"

section \<open>The walk\<close>

lemma verify_loop_append:
  "verify_loop ps (ss @ ts) node i = (case verify_loop ps ss node i of (n, k) \<Rightarrow> verify_loop ps ts n k)"
  by (induction ss arbitrary: node i) simp_all

lemma path_node_cong:
  "(\<And>k. k < l \<Longrightarrow> ss ! k = ts ! k) \<Longrightarrow> path_node ps leaf i ss l = path_node ps leaf i ts l"
  by (induction l) (simp_all add: Let_def)

lemma verify_loop_eq:
  "verify_loop ps sibs leaf i = (path_node ps leaf i sibs (length sibs), i div 2 ^ length sibs)"
proof (induction sibs rule: rev_induct)
  case Nil
  then show ?case by simp
next
  case (snoc s ss)
  have "path_node ps leaf i (ss @ [s]) (length ss) = path_node ps leaf i ss (length ss)"
    by (rule path_node_cong) (simp add: nth_append)
  with snoc.IH show ?case
    by (simp add: verify_loop_append Let_def half_div_pow del: power_Suc)
qed

lemma verify_path_iff:
  "verify_path ps p \<longleftrightarrow> ip_index p < 2 ^ length (ip_siblings p) \<and>
     path_node ps (ip_leaf p) (ip_index p) (ip_siblings p) (length (ip_siblings p)) = ip_root p"
  by (auto simp: verify_path_def verify_loop_eq div_eq_0_iff)

lemma verify_proof_at_depth_iff:
  "verify_proof_at_depth ps p d \<longleftrightarrow> d < 64 \<and> length (ip_siblings p) = d \<and> ip_index p < 2 ^ d \<and>
     path_node ps (ip_leaf p) (ip_index p) (ip_siblings p) d = ip_root p"
  by (cases "d < 64") (auto simp: verify_proof_at_depth_def verify_path_iff)

section \<open>Completeness and soundness\<close>

lemma length_tree_siblings [simp]: "length (tree_siblings ps f d i) = d"
  by (simp add: tree_siblings_def)

lemma proof_of_verifies:
  "d < 64 \<Longrightarrow> j < 2 ^ d \<Longrightarrow> verify_proof_at_depth ps (proof_of ps d z xs j) d"
  by (simp add: verify_proof_at_depth_iff proof_of_def path_node_tree_siblings merkle_root_def)

lemma verify_sound_or_collision:
  assumes "verify_proof_at_depth ps p d" and "ip_root p = merkle_root ps z d xs"
  shows "ip_leaf p = padded z xs (ip_index p) \<or>
    (\<exists>l < d. path_pair ps (ip_leaf p) (ip_index p) (ip_siblings p) l \<noteq> tree_pair ps (padded z xs) (ip_index p) l \<and>
             ps (path_pair ps (ip_leaf p) (ip_index p) (ip_siblings p) l) =
             ps (tree_pair ps (padded z xs) (ip_index p) l))"
  using assms
  by (intro path_sound_or_collision) (simp add: verify_proof_at_depth_iff merkle_root_def)

text \<open>Two accepted proofs of one position and root with different leaves exhibit a collision.\<close>

lemma path_nodes_agree_or_collision:
  assumes "path_node ps a i ss d = path_node ps b i ts d"
  shows "a = b \<or> (\<exists>l < d. path_pair ps a i ss l \<noteq> path_pair ps b i ts l \<and>
      ps (path_pair ps a i ss l) = ps (path_pair ps b i ts l))"
  using assms
proof (induction d)
  case 0
  then show ?case by simp
next
  case (Suc d)
  then have eq: "ps (path_pair ps a i ss d) = ps (path_pair ps b i ts d)"
    by (simp add: path_node_pair del: path_node.simps)
  show ?case
  proof (cases "path_pair ps a i ss d = path_pair ps b i ts d")
    case True
    then have "path_node ps a i ss d = path_node ps b i ts d"
      by (simp add: path_pair_def Let_def split: if_splits)
    then show ?thesis using Suc.IH less_Suc_eq by blast
  next
    case False
    then show ?thesis using eq by blast
  qed
qed

section \<open>Proofs of inner nodes\<close>

text \<open>
  The walk of a leaf's path from level \<open>l\<close> on is a shorter proof whose leaf is an inner
  node.
\<close>

definition inner_proof :: "nat \<Rightarrow> 'f \<Rightarrow> 'f inclusion_proof \<Rightarrow> 'f inclusion_proof" where
  "inner_proof l node p = \<lparr>ip_leaf = node, ip_index = ip_index p div 2 ^ l,
     ip_siblings = drop l (ip_siblings p), ip_root = ip_root p\<rparr>"

lemma path_node_drop:
  "path_node ps (path_node ps leaf i sibs l) (i div 2 ^ l) (drop l sibs) k = path_node ps leaf i sibs (k + l)"
  if "k + l \<le> length sibs"
  using that
  by (induction k) (simp_all add: Let_def add.commute [of l] flip: div_mult2_eq power_add)

lemma inner_proof_verifies:
  assumes "d < 64" and "j < 2 ^ d" and "l \<le> d"
  shows "verify_proof ps
    (inner_proof l (subtree_root ps (padded z xs) l (j div 2 ^ l)) (proof_of ps d z xs j))"
proof -
  let ?f = "padded z xs" and ?S = "tree_siblings ps (padded z xs) d j"
  have "path_node ps (path_node ps (?f j) j ?S l) (j div 2 ^ l) (drop l ?S) (d - l) = path_node ps (?f j) j ?S d"
    using path_node_drop [of "d - l" l ?S ps "?f j" j] assms(3) by simp
  moreover have "j div 2 ^ l < 2 ^ (d - l)"
    using assms(2,3) by (simp add: div_less_iff_less_mult flip: power_add)
  ultimately show ?thesis
    using assms
    by (simp add: verify_proof_def verify_path_iff inner_proof_def proof_of_def path_node_tree_siblings
        merkle_root_def)
qed

section \<open>Properties\<close>

text \<open>
  C3: A well-formed tree proves every leaf it holds: \<open>create_proof\<close> of an occupied index
  returns a proof of that leaf against the tree's root which the depth-pinned verifier
  accepts; of a free index it panics, as documented.
\<close>

theorem create_proof_complete:
  assumes "imt_wf ps t"
  shows "(i < imt_leaf_count t \<longrightarrow> (\<exists>p. imt_create_proof t i = Ok p \<and> ip_index p = i \<and>
      ip_leaf p = imt_leaves t ! i \<and> imt_root t = Ok (ip_root p) \<and>
      verify_proof_at_depth ps p (imt_depth t))) \<and>
    (imt_leaf_count t \<le> i \<longrightarrow> imt_create_proof t i = Panic)"
  using assms
  by (auto elim!: imt_wfE simp: imt_create_proof_eq imt_create_proof_out_of_range proof_of_verifies
      imt_root_eq) (simp_all add: proof_of_def)

theorem create_proof_complete_witness:
  "\<exists>p. imt_create_proof (imt_of sum_list 2 0 [5, 7 :: nat]) 1 = Ok p \<and> ip_leaf p = 7 \<and>
    verify_proof_at_depth sum_list p 2"
  using create_proof_complete [of sum_list "imt_of sum_list 2 0 [5, 7 :: nat]" 1] by auto

text \<open>
  C4: An accepted proof is about the tree: if \<open>verify_proof_at_depth\<close> accepts a proof at the
  tree's depth and root, then its index is in the tree and its leaf is the leaf stored there
  (or the zero leaf of a free position), or some level of the walk hashes a pair different
  from the tree's pair at that place to the same value - a collision of the hash, located.
\<close>

theorem verified_leaf_is_in_the_tree:
  assumes "imt_wf ps t" and "imt_root t = Ok (ip_root p)" and "verify_proof_at_depth ps p (imt_depth t)"
  shows "ip_index p < 2 ^ imt_depth t \<and>
    (ip_leaf p = get_or (imt_leaves t) (ip_index p) (imt_zero_leaf t) \<or>
     (\<exists>l < imt_depth t.
        path_pair ps (ip_leaf p) (ip_index p) (ip_siblings p) l \<noteq>
          tree_pair ps (padded (imt_zero_leaf t) (imt_leaves t)) (ip_index p) l \<and>
        ps (path_pair ps (ip_leaf p) (ip_index p) (ip_siblings p) l) =
          ps (tree_pair ps (padded (imt_zero_leaf t) (imt_leaves t)) (ip_index p) l)))"
proof -
  from assms(1) obtain d z xs where t: "t = imt_of ps d z xs" "d < 64" "length xs \<le> 2 ^ d"
    by (rule imt_wfE) blast
  have "get_or xs i z = padded z xs i" for i by (simp add: get_or_def padded_def)
  moreover have "ip_root p = merkle_root ps z d xs" using assms(2) t by (simp add: imt_root_eq)
  ultimately show ?thesis
    using verify_sound_or_collision [of ps p d z xs] assms(3) t by (simp add: verify_proof_at_depth_iff)
qed

theorem verified_leaf_is_in_the_tree_witness:
  "ip_index (proof_of sum_list 1 0 [5, 7 :: nat] 1) < 2"
  using verified_leaf_is_in_the_tree [of sum_list "imt_of sum_list 1 0 [5, 7 :: nat]"
      "proof_of sum_list 1 0 [5, 7 :: nat] 1"]
  by (simp add: imt_root_eq proof_of_verifies) (simp add: proof_of_def)

text \<open>
  Why the depth must be pinned: for every inner node above an occupied leaf, the rest of
  the leaf's path is a proof that the unpinned \<open>verify_proof\<close> accepts with the inner node as
  its "leaf", while \<open>verify_proof_at_depth\<close> at the tree's depth refuses it.
\<close>

theorem unpinned_verification_accepts_inner_nodes:
  assumes "imt_wf ps t" and "imt_create_proof t i = Ok p" and "0 < l" and "l \<le> imt_depth t"
  shows "verify_proof ps (inner_proof l (path_node ps (ip_leaf p) i (ip_siblings p) l) p) \<and>
    \<not> verify_proof_at_depth ps (inner_proof l (path_node ps (ip_leaf p) i (ip_siblings p) l) p) (imt_depth t)"
proof -
  from assms(1) obtain d z xs where t: "t = imt_of ps d z xs" "d < 64" "length xs \<le> 2 ^ d"
    by (rule imt_wfE) blast
  have i: "i < length xs"
    using assms(2) t imt_create_proof_out_of_range [of xs i ps d z] by (cases "i < length xs") auto
  then have p: "p = proof_of ps d z xs i" using assms(2) t by (simp add: imt_create_proof_eq)
  have "path_node ps (ip_leaf p) i (ip_siblings p) l = subtree_root ps (padded z xs) l (i div 2 ^ l)"
    using assms(4) t p path_node_tree_siblings [of l d ps "padded z xs" i] by (simp add: proof_of_def)
  moreover have "d - l \<noteq> d" using assms(3,4) t by simp
  ultimately show ?thesis
    using inner_proof_verifies [of d i l ps z xs] assms(3,4) t i p
    by (simp add: verify_proof_at_depth_iff) (simp add: inner_proof_def proof_of_def)
qed

theorem unpinned_verification_accepts_inner_nodes_witness:
  "verify_proof sum_list (inner_proof 1 12 (proof_of sum_list 2 0 [5, 7 :: nat] 1))"
  using unpinned_verification_accepts_inner_nodes
    [of sum_list "imt_of sum_list 2 0 [5, 7 :: nat]" 1 "proof_of sum_list 2 0 [5, 7 :: nat] 1" 1]
  by (simp add: imt_create_proof_eq) (simp add: proof_of_def tree_siblings_def sibling_index_def)

end
