(* ===== verification/Leaf_Trees.thy ===== *)
theory Leaf_Trees
  imports Inclusion_Proof
begin

text \<open>
  The two public trees over \<open>Imt\<close>: \<open>OrderedMerkleTree\<close>, which permits equal leaves, and
  \<open>IndexedMerkleTree\<close>, which keeps a reverse index and refuses duplicates.  A method on
  \<open>&mut self\<close> returns the state it leaves behind on every path, so that the all-or-none
  claims of the code are statements about the model.
\<close>

section \<open>OrderedMerkleTree\<close>

record 'f ordered_tree =
  ot_tree :: "'f imt"

definition ordered_new :: "('f :: zero list \<Rightarrow> 'f) \<Rightarrow> nat \<Rightarrow> ('f ordered_tree, tree_error) result" where
  "ordered_new ps depth =
     rbind (tree_capacity depth) (\<lambda>_.
     rbind (imt_new ps depth) (\<lambda>t. Ok \<lparr>ot_tree = t\<rparr>))"

definition ordered_from_leaves ::
    "('f :: zero list \<Rightarrow> 'f) \<Rightarrow> nat \<Rightarrow> 'f list \<Rightarrow> ('f ordered_tree, tree_error) result" where
  "ordered_from_leaves ps depth leaves =
     rbind (tree_capacity depth) (\<lambda>capacity.
     rbind (guard (capacity < length leaves) (TreeFull depth)) (\<lambda>_.
     rbind (imt_from_leaves ps depth leaves) (\<lambda>t. Ok \<lparr>ot_tree = t\<rparr>)))"

definition ordered_insert :: "('f list \<Rightarrow> 'f) \<Rightarrow> 'f \<Rightarrow> ('f ordered_tree, nat, tree_error) sm" where
  "ordered_insert ps leaf = (\<lambda>s.
     sbind (slift (imt_capacity (ot_tree s))) (\<lambda>capacity.
     sbind (slift (guard (capacity \<le> imt_leaf_count (ot_tree s)) (TreeFull (imt_depth (ot_tree s))))) (\<lambda>_.
       let index = imt_leaf_count (ot_tree s) in
       sbind (szoom ot_tree (\<lambda>t. ot_tree_update (\<lambda>_. t)) (imt_insert ps leaf)) (\<lambda>_. sret index))) s)"

definition ordered_insert_many ::
    "('f list \<Rightarrow> 'f) \<Rightarrow> 'f list \<Rightarrow> ('f ordered_tree, unit, tree_error) sm" where
  "ordered_insert_many ps leaves = szoom ot_tree (\<lambda>t. ot_tree_update (\<lambda>_. t)) (imt_insert_many ps leaves)"

definition ordered_create_proof_at ::
    "'f ordered_tree \<Rightarrow> nat \<Rightarrow> ('f inclusion_proof, tree_error) result" where
  "ordered_create_proof_at s index =
     rbind (guard (imt_leaf_count (ot_tree s) \<le> index)
              (LeafIndexOutOfRange index (imt_leaf_count (ot_tree s)))) (\<lambda>_.
       imt_create_proof (ot_tree s) index)"

section \<open>IndexedMerkleTree\<close>

record 'f indexed_tree =
  it_tree :: "'f imt"
  it_indices :: "'f \<Rightarrow> nat option"

definition indexed_new :: "('f :: zero list \<Rightarrow> 'f) \<Rightarrow> nat \<Rightarrow> ('f indexed_tree, tree_error) result" where
  "indexed_new ps depth =
     rbind (tree_capacity depth) (\<lambda>_.
     rbind (imt_new ps depth) (\<lambda>t. Ok \<lparr>it_tree = t, it_indices = Map.empty\<rparr>))"

text \<open>\<open>indices.insert(leaf, index)\<close> reports the previous entry of the key.\<close>

definition index_leaf ::
    "'f \<times> nat \<Rightarrow> ('f \<Rightarrow> nat option) \<Rightarrow> ('f \<Rightarrow> nat option, tree_error) result" where
  "index_leaf = (\<lambda>(leaf, index) indices.
     if indices leaf \<noteq> None then Err DuplicateLeaf else Ok (indices(leaf \<mapsto> index)))"

definition indexed_from_leaves ::
    "('f :: zero list \<Rightarrow> 'f) \<Rightarrow> nat \<Rightarrow> 'f list \<Rightarrow> ('f indexed_tree, tree_error) result" where
  "indexed_from_leaves ps depth leaves =
     rbind (tree_capacity depth) (\<lambda>capacity.
     rbind (guard (capacity < length leaves) (TreeFull depth)) (\<lambda>_.
     rbind (rfold (zip leaves [0..<length leaves]) index_leaf Map.empty) (\<lambda>indices.
     rbind (imt_from_leaves ps depth leaves) (\<lambda>t.
       Ok \<lparr>it_tree = t, it_indices = indices\<rparr>))))"

definition indexed_depth :: "'f indexed_tree \<Rightarrow> nat" where
  "indexed_depth s = imt_depth (it_tree s)"

definition indexed_leaf_count :: "'f indexed_tree \<Rightarrow> nat" where
  "indexed_leaf_count s = imt_leaf_count (it_tree s)"

definition indexed_root :: "'f indexed_tree \<Rightarrow> ('f, tree_error) result" where
  "indexed_root s = imt_root (it_tree s)"

definition indexed_get_index :: "'f indexed_tree \<Rightarrow> 'f \<Rightarrow> nat option" where
  "indexed_get_index s leaf = it_indices s leaf"

definition indexed_insert :: "('f list \<Rightarrow> 'f) \<Rightarrow> 'f \<Rightarrow> ('f indexed_tree, nat, tree_error) sm" where
  "indexed_insert ps leaf = (\<lambda>s.
     sbind (slift (guard (it_indices s leaf \<noteq> None) DuplicateLeaf)) (\<lambda>_.
     sbind (slift (imt_capacity (it_tree s))) (\<lambda>capacity.
     sbind (slift (guard (capacity \<le> indexed_leaf_count s) (TreeFull (indexed_depth s)))) (\<lambda>_.
       let index = indexed_leaf_count s in
       sbind (szoom it_tree (\<lambda>t. it_tree_update (\<lambda>_. t)) (imt_insert ps leaf)) (\<lambda>_.
       sbind (smodify (it_indices_update (\<lambda>m. m(leaf \<mapsto> index)))) (\<lambda>_. sret index))))) s)"

definition check_incoming ::
    "('f \<Rightarrow> nat option) \<Rightarrow> 'f \<Rightarrow> 'f set \<Rightarrow> ('f set, tree_error) result" where
  "check_incoming indices leaf incoming =
     (if indices leaf \<noteq> None \<or> leaf \<in> incoming then Err DuplicateLeaf
      else Ok (insert leaf incoming))"

definition indexed_check_insert_many :: "'f indexed_tree \<Rightarrow> 'f list \<Rightarrow> (unit, tree_error) result" where
  "indexed_check_insert_many s leaves =
     rbind (imt_capacity (it_tree s)) (\<lambda>capacity.
     rbind (guard (capacity - indexed_leaf_count s < length leaves) (TreeFull (indexed_depth s))) (\<lambda>_.
     rbind (rfold leaves (check_incoming (it_indices s)) {}) (\<lambda>_. Ok ())))"

definition indexed_insert_many ::
    "('f list \<Rightarrow> 'f) \<Rightarrow> 'f list \<Rightarrow> ('f indexed_tree, unit, tree_error) sm" where
  "indexed_insert_many ps leaves = (\<lambda>s.
     sbind (slift (indexed_check_insert_many s leaves)) (\<lambda>_.
       let first = indexed_leaf_count s in
       sbind (szoom it_tree (\<lambda>t. it_tree_update (\<lambda>_. t)) (imt_insert_many ps leaves)) (\<lambda>_.
         smodify (it_indices_update (\<lambda>m. m(leaves [\<mapsto>] [first..<first + length leaves]))))) s)"

definition indexed_next_leaf_frontier :: "'f :: zero indexed_tree \<Rightarrow> ('f list, tree_error) result" where
  "indexed_next_leaf_frontier s = imt_next_leaf_frontier (it_tree s)"

definition indexed_create_proof :: "'f indexed_tree \<Rightarrow> 'f \<Rightarrow> ('f inclusion_proof, tree_error) result" where
  "indexed_create_proof s leaf =
     rbind (ok_or (indexed_get_index s leaf) LeafNotFound) (\<lambda>index.
       imt_create_proof (it_tree s) index)"

definition indexed_create_proof_at ::
    "'f indexed_tree \<Rightarrow> nat \<Rightarrow> ('f inclusion_proof, tree_error) result" where
  "indexed_create_proof_at s index =
     rbind (guard (indexed_leaf_count s \<le> index)
              (LeafIndexOutOfRange index (indexed_leaf_count s))) (\<lambda>_.
       imt_create_proof (it_tree s) index)"

definition indexed_truncate :: "('f list \<Rightarrow> 'f) \<Rightarrow> nat \<Rightarrow> ('f indexed_tree, unit, tree_error) sm" where
  "indexed_truncate ps leaf_count = (\<lambda>s.
     sbind (slift (guard (indexed_leaf_count s < leaf_count)
              (LeafIndexOutOfRange leaf_count (indexed_leaf_count s)))) (\<lambda>_.
       let removed = drop leaf_count (imt_leaves (it_tree s)) in
       sbind (szoom it_tree (\<lambda>t. it_tree_update (\<lambda>_. t)) (imt_truncate ps leaf_count)) (\<lambda>_.
         smodify (it_indices_update (fold (\<lambda>leaf m. m(leaf := None)) removed)))) s)"

section \<open>The reverse index\<close>

definition index_map :: "'f list \<Rightarrow> 'f \<Rightarrow> nat option" where
  "index_map xs = map_of (zip xs [0..<length xs])"

definition indexed_of :: "('f :: zero list \<Rightarrow> 'f) \<Rightarrow> nat \<Rightarrow> 'f list \<Rightarrow> 'f indexed_tree" where
  "indexed_of ps d xs = \<lparr>it_tree = imt_of ps d 0 xs, it_indices = index_map xs\<rparr>"

definition ordered_of :: "('f :: zero list \<Rightarrow> 'f) \<Rightarrow> nat \<Rightarrow> 'f list \<Rightarrow> 'f ordered_tree" where
  "ordered_of ps d xs = \<lparr>ot_tree = imt_of ps d 0 xs\<rparr>"

text \<open>The invariant of an indexed tree: a canonical tree over distinct leaves, and its index.\<close>

definition indexed_wf :: "('f :: zero list \<Rightarrow> 'f) \<Rightarrow> 'f indexed_tree \<Rightarrow> bool" where
  "indexed_wf ps s \<longleftrightarrow> imt_wf ps (it_tree s) \<and> imt_zero_leaf (it_tree s) = 0 \<and>
     distinct (imt_leaves (it_tree s)) \<and> it_indices s = index_map (imt_leaves (it_tree s))"

lemma index_map_Nil [simp]: "index_map [] = Map.empty"
  by (simp add: index_map_def)

lemma index_map_Some_iff:
  assumes "distinct xs"
  shows "index_map xs x = Some i \<longleftrightarrow> i < length xs \<and> xs ! i = x"
proof -
  have "distinct (map fst (zip xs [0..<length xs]))" using assms by simp
  then show ?thesis
    by (auto simp: index_map_def map_of_eq_Some_iff in_set_zip)
qed

lemma index_map_None_iff: "index_map xs x = None \<longleftrightarrow> x \<notin> set xs"
proof -
  have "set (map fst (zip xs [0..<length xs])) = set xs" by (simp only: map_fst_zip length_upt diff_zero)
  then show ?thesis by (simp add: index_map_def map_of_eq_None_iff flip: set_map)
qed

lemma index_map_eqI:
  assumes "distinct xs" and "\<And>x i. m x = Some i \<longleftrightarrow> i < length xs \<and> xs ! i = x"
  shows "m = index_map xs"
proof (rule ext)
  fix x
  show "m x = index_map xs x"
  proof (cases "m x")
    case None
    have "index_map xs x \<noteq> Some i" for i
      using None assms(2) [of x i] by (simp add: index_map_Some_iff [OF assms(1)])
    with None show ?thesis by (cases "index_map xs x") auto
  next
    case (Some i)
    then have "index_map xs x = Some i" using assms(2) [of x i] by (simp add: index_map_Some_iff [OF assms(1)])
    with Some show ?thesis by simp
  qed
qed

lemma index_map_snoc: "distinct (xs @ [x]) \<Longrightarrow> (index_map xs)(x \<mapsto> length xs) = index_map (xs @ [x])"
  by (rule index_map_eqI)
    (auto simp: index_map_Some_iff nth_append less_Suc_eq split: if_splits)

lemma index_map_append:
  "distinct (xs @ ys) \<Longrightarrow>
    (index_map xs)(ys [\<mapsto>] [length xs..<length xs + length ys]) = index_map (xs @ ys)"
proof (induction ys arbitrary: xs)
  case Nil
  then show ?case by simp
next
  case (Cons y ys)
  have "[length xs..<length xs + length (y # ys)] = length xs # [length (xs @ [y])..<length (xs @ [y]) + length ys]"
    by (subst upt_conv_Cons) simp_all
  moreover have "(index_map xs)(y \<mapsto> length xs) = index_map (xs @ [y])"
    using Cons.prems by (intro index_map_snoc) simp
  ultimately show ?case using Cons.IH [of "xs @ [y]"] Cons.prems by simp
qed

lemma fold_remove: "fold (\<lambda>leaf m. m(leaf := None)) ys m = (\<lambda>x. if x \<in> set ys then None else m x)"
  by (induction ys arbitrary: m) auto

lemma index_map_take:
  assumes "distinct xs"
  shows "fold (\<lambda>leaf m. m(leaf := None)) (drop n xs) (index_map xs) = index_map (take n xs)"
proof (rule index_map_eqI)
  show "distinct (take n xs)" using assms by simp
  fix x i
  have "xs ! i \<in> set (drop n xs) \<longleftrightarrow> n \<le> i" if "i < length xs" for i
  proof -
    have "xs ! i \<notin> set (drop n xs)" if "i < n"
    proof -
      from that \<open>i < length xs\<close> have "xs ! i \<in> set (take n xs)" by (auto simp: in_set_conv_nth)
      moreover have "set (take n xs) \<inter> set (drop n xs) = {}"
        using assms by (rule set_take_disj_set_drop_if_distinct) simp
      ultimately show ?thesis by blast
    qed
    moreover have "xs ! i \<in> set (drop n xs)" if "n \<le> i"
      using that \<open>i < length xs\<close> nth_mem [of "i - n" "drop n xs"] by simp
    ultimately show ?thesis by (meson leI)
  qed
  then show "fold (\<lambda>leaf m. m(leaf := None)) (drop n xs) (index_map xs) x = Some i \<longleftrightarrow>
      i < length (take n xs) \<and> take n xs ! i = x"
    using assms by (auto simp: fold_remove index_map_Some_iff)
qed

section \<open>Operations on canonical states\<close>

lemma indexed_of_simps [simp]:
  "it_tree (indexed_of ps d xs) = imt_of ps d 0 xs"
  "it_indices (indexed_of ps d xs) = index_map xs"
  "indexed_depth (indexed_of ps d xs) = d"
  "indexed_leaf_count (indexed_of ps d xs) = length xs"
  by (simp_all add: indexed_of_def indexed_depth_def indexed_leaf_count_def)

lemma indexed_wf_of: "d < 64 \<Longrightarrow> length xs \<le> 2 ^ d \<Longrightarrow> distinct xs \<Longrightarrow> indexed_wf ps (indexed_of ps d xs)"
  by (simp add: indexed_wf_def)

lemma indexed_wfE:
  assumes "indexed_wf ps s"
  obtains d xs where "s = indexed_of ps d xs" "d < 64" "length xs \<le> 2 ^ d" "distinct xs"
    "d = indexed_depth s" "xs = imt_leaves (it_tree s)"
  using assms by (cases s) (auto simp: indexed_wf_def imt_wf_def indexed_of_def indexed_depth_def)

lemma indexed_new_eq: "d < 64 \<Longrightarrow> indexed_new ps d = Ok (indexed_of ps d [])"
  by (simp add: indexed_new_def imt_new_eq indexed_of_def)

lemma index_leaf_app [simp]:
  "index_leaf (x, i) m = (if m x \<noteq> None then Err DuplicateLeaf else Ok (m(x \<mapsto> i)))"
  by (simp add: index_leaf_def)

lemma index_leaves_eq:
  "distinct xs \<Longrightarrow> rfold (zip xs [0..<length xs]) index_leaf Map.empty = Ok (index_map xs)"
proof (induction xs rule: rev_induct)
  case Nil
  then show ?case by simp
next
  case (snoc x xs)
  then show ?case
    using index_map_snoc [of xs x]
    by (simp add: rfold_append index_map_None_iff)
qed

lemma index_leaves_dup:
  "\<not> distinct xs \<Longrightarrow> rfold (zip xs [0..<length xs]) index_leaf Map.empty = Err DuplicateLeaf"
proof (induction xs rule: rev_induct)
  case Nil
  then show ?case by simp
next
  case (snoc x xs)
  then show ?case
    by (cases "distinct xs")
      (simp_all add: rfold_append index_leaves_eq index_map_None_iff)
qed

lemma indexed_from_leaves_eq:
  "d < 64 \<Longrightarrow> length xs \<le> 2 ^ d \<Longrightarrow> distinct xs \<Longrightarrow>
    indexed_from_leaves ps d xs = Ok (indexed_of ps d xs)"
  by (simp add: indexed_from_leaves_def index_leaves_eq imt_from_leaves_def imt_of_ops indexed_of_def)

lemma indexed_from_leaves_dup:
  "d < 64 \<Longrightarrow> length xs \<le> 2 ^ d \<Longrightarrow> \<not> distinct xs \<Longrightarrow>
    indexed_from_leaves ps d xs = Err DuplicateLeaf"
  by (simp add: indexed_from_leaves_def index_leaves_dup)

lemma indexed_insert_eq:
  assumes "d < 64" and "length xs \<le> 2 ^ d"
  shows "indexed_insert ps x (indexed_of ps d xs) =
    (if x \<in> set xs then (Err DuplicateLeaf, indexed_of ps d xs)
     else if length xs = 2 ^ d then (Err (TreeFull d), indexed_of ps d xs)
     else (Ok (length xs), \<lparr>it_tree = imt_of ps d 0 (xs @ [x]), it_indices = (index_map xs)(x \<mapsto> length xs)\<rparr>))"
  using assms
  by (auto simp: indexed_insert_def sm_simps Let_def imt_insert_eq index_map_None_iff indexed_of_def
      guard_def indexed_leaf_count_def indexed_depth_def simp del: not_None_eq)

lemma indexed_insert_Ok:
  assumes "d < 64" and "length xs < 2 ^ d" and "distinct (xs @ [x])"
  shows "indexed_insert ps x (indexed_of ps d xs) = (Ok (length xs), indexed_of ps d (xs @ [x]))"
  using assms index_map_snoc [of xs x] indexed_insert_eq [of d xs ps x] by (simp add: indexed_of_def)

lemma check_incoming_eq:
  "rfold ys (check_incoming (index_map xs)) inc =
    (if distinct ys \<and> set ys \<inter> (set xs \<union> inc) = {} then Ok (inc \<union> set ys) else Err DuplicateLeaf)"
  by (induction ys arbitrary: inc) (auto simp: check_incoming_def index_map_None_iff)

lemma indexed_check_insert_many_eq:
  assumes "d < 64" and "length xs \<le> 2 ^ d" and "distinct xs"
  shows "indexed_check_insert_many (indexed_of ps d xs) ys =
    (if 2 ^ d < length (xs @ ys) then Err (TreeFull d)
     else if \<not> distinct (xs @ ys) then Err DuplicateLeaf else Ok ())"
  using assms by (auto simp: indexed_check_insert_many_def check_incoming_eq guard_def)

lemma indexed_insert_many_eq:
  assumes "d < 64" and "length xs \<le> 2 ^ d" and "distinct xs"
  shows "indexed_insert_many ps ys (indexed_of ps d xs) =
    (if 2 ^ d < length (xs @ ys) then (Err (TreeFull d), indexed_of ps d xs)
     else if \<not> distinct (xs @ ys) then (Err DuplicateLeaf, indexed_of ps d xs)
     else (Ok (), indexed_of ps d (xs @ ys)))"
proof -
  have "indexed_insert_many ps ys (indexed_of ps d xs) = (Ok (), indexed_of ps d (xs @ ys))"
    if ok: "length (xs @ ys) \<le> 2 ^ d" "distinct (xs @ ys)"
  proof -
    have "indexed_check_insert_many (indexed_of ps d xs) ys = Ok ()"
      using assms ok by (simp add: indexed_check_insert_many_eq)
    moreover have "imt_insert_many ps ys (imt_of ps d 0 xs) = (Ok (), imt_of ps d 0 (xs @ ys))"
      using assms(1) ok(1) by (rule imt_insert_many_eq)
    ultimately show ?thesis
      using index_map_append [OF ok(2)]
      by (simp add: indexed_insert_many_def sm_simps Let_def indexed_of_def indexed_leaf_count_def)
  qed
  then show ?thesis
    using assms by (auto simp: indexed_insert_many_def sm_simps indexed_check_insert_many_eq)
qed

lemma indexed_truncate_eq:
  assumes "d < 64" and "length xs \<le> 2 ^ d" and "distinct xs" and "n \<le> length xs"
  shows "indexed_truncate ps n (indexed_of ps d xs) = (Ok (), indexed_of ps d (take n xs))"
  using assms index_map_take [of xs n]
  by (simp add: indexed_truncate_def sm_simps Let_def imt_truncate_eq indexed_of_def indexed_leaf_count_def)

lemma indexed_create_proof_eq:
  assumes "d < 64" and "length xs \<le> 2 ^ d" and "distinct xs" and "i < length xs"
  shows "indexed_create_proof (indexed_of ps d xs) (xs ! i) = Ok (proof_of ps d 0 xs i)"
proof -
  have "index_map xs (xs ! i) = Some i" using assms by (simp add: index_map_Some_iff)
  then show ?thesis
    using assms by (simp add: indexed_create_proof_def indexed_get_index_def imt_create_proof_eq)
qed

lemma indexed_create_proof_missing:
  "x \<notin> set xs \<Longrightarrow> indexed_create_proof (indexed_of ps d xs) x = Err LeafNotFound"
  using index_map_None_iff [of xs x] by (simp add: indexed_create_proof_def indexed_get_index_def)

lemma indexed_create_proof_at_eq:
  assumes "d < 64" and "length xs \<le> 2 ^ d"
  shows "indexed_create_proof_at (indexed_of ps d xs) i =
    (if i < length xs then Ok (proof_of ps d 0 xs i) else Err (LeafIndexOutOfRange i (length xs)))"
  using assms by (simp add: indexed_create_proof_at_def imt_create_proof_eq guard_def)

lemma indexed_truncate_out_of_range:
  "length xs < n \<Longrightarrow> indexed_truncate ps n (indexed_of ps d xs) =
    (Err (LeafIndexOutOfRange n (length xs)), indexed_of ps d xs)"
  by (simp add: indexed_truncate_def sm_simps)

lemma indexed_inserts_eq:
  assumes "d < 64" and "length (xs @ ys) \<le> 2 ^ d" and "distinct (xs @ ys)"
  shows "sfold ys (\<lambda>y _. sbind (indexed_insert ps y) (\<lambda>_. sret ())) () (indexed_of ps d xs) =
    (Ok (), indexed_of ps d (xs @ ys))"
  using assms(2,3)
proof (induction ys arbitrary: xs)
  case Nil
  then show ?case by (simp add: sret_def)
next
  case (Cons y ys)
  have "indexed_insert ps y (indexed_of ps d xs) = (Ok (length xs), indexed_of ps d (xs @ [y]))"
    using assms(1) Cons.prems by (intro indexed_insert_Ok) simp_all
  then show ?case using Cons.IH [of "xs @ [y]"] Cons.prems by (simp add: sbind_def sret_def)
qed

section \<open>The ordered tree on canonical states\<close>

lemma ordered_of_simps [simp]: "ot_tree (ordered_of ps d xs) = imt_of ps d 0 xs"
  by (simp add: ordered_of_def)

lemma ordered_insert_eq:
  assumes "d < 64" and "length xs \<le> 2 ^ d"
  shows "ordered_insert ps x (ordered_of ps d xs) =
    (if length xs = 2 ^ d then (Err (TreeFull d), ordered_of ps d xs)
     else (Ok (length xs), ordered_of ps d (xs @ [x])))"
  using assms by (auto simp: ordered_insert_def sm_simps Let_def imt_insert_eq ordered_of_def guard_def)

lemma ordered_insert_many_eq:
  assumes "d < 64" and "length xs \<le> 2 ^ d"
  shows "ordered_insert_many ps ys (ordered_of ps d xs) =
    (if length (xs @ ys) \<le> 2 ^ d then (Ok (), ordered_of ps d (xs @ ys))
     else (Err (TreeFull d), ordered_of ps d xs))"
  using assms imt_insert_many_full [of d xs ys ps 0]
  by (auto simp: ordered_insert_many_def sm_simps imt_insert_many_eq ordered_of_def)

lemma ordered_create_proof_at_eq:
  assumes "d < 64" and "length xs \<le> 2 ^ d"
  shows "ordered_create_proof_at (ordered_of ps d xs) i =
    (if i < length xs then Ok (proof_of ps d 0 xs i) else Err (LeafIndexOutOfRange i (length xs)))"
  using assms by (simp add: ordered_create_proof_at_def imt_create_proof_eq guard_def)

lemma ordered_from_leaves_eq:
  "d < 64 \<Longrightarrow> ordered_from_leaves ps d xs =
    (if length xs \<le> 2 ^ d then Ok (ordered_of ps d xs) else Err (TreeFull d))"
  by (simp add: ordered_from_leaves_def imt_from_leaves_def imt_of_ops ordered_of_def guard_def)

section \<open>Properties\<close>

text \<open>
  C5: A batch into the indexed tree is all or nothing: \<open>insert_many\<close> refuses a batch that does
  not fit (\<open>TreeFull\<close>) or repeats a leaf of the tree or of the batch (\<open>DuplicateLeaf\<close>) and then
  leaves tree and index untouched; otherwise it ends in the very tree that bulk construction
  over the extended log builds, and that inserting one by one builds.
  \<open>check_insert_many\<close> predicts the outcome without touching the tree.
\<close>

theorem indexed_batch_all_or_nothing:
  assumes "indexed_wf ps s"
  shows "(let log = imt_leaves (it_tree s) @ ys; d = indexed_depth s in
    indexed_insert_many ps ys s =
      (if 2 ^ d < length log then (Err (TreeFull d), s)
       else if \<not> distinct log then (Err DuplicateLeaf, s) else (Ok (), indexed_of ps d log)) \<and>
    indexed_check_insert_many s ys = fst (indexed_insert_many ps ys s) \<and>
    (fst (indexed_insert_many ps ys s) = Ok () \<longrightarrow>
       indexed_from_leaves ps d log = Ok (snd (indexed_insert_many ps ys s)) \<and>
       sfold ys (\<lambda>y _. sbind (indexed_insert ps y) (\<lambda>_. sret ())) () s = indexed_insert_many ps ys s \<and>
       indexed_wf ps (snd (indexed_insert_many ps ys s))))"
proof -
  from assms obtain d xs where s: "s = indexed_of ps d xs" "d < 64" "length xs \<le> 2 ^ d" "distinct xs"
    by (rule indexed_wfE) blast
  show ?thesis
    using s indexed_inserts_eq [of d xs ys ps]
    by (auto simp: indexed_insert_many_eq indexed_check_insert_many_eq indexed_from_leaves_eq indexed_wf_of Let_def)
qed

theorem indexed_batch_all_or_nothing_witness:
  "indexed_insert_many sum_list [7, 9] (indexed_of sum_list 2 [5 :: nat]) = (Ok (), indexed_of sum_list 2 [5, 7, 9]) \<and>
   indexed_insert_many sum_list [7, 5] (indexed_of sum_list 2 [5 :: nat]) = (Err DuplicateLeaf, indexed_of sum_list 2 [5])"
  using indexed_batch_all_or_nothing [of sum_list "indexed_of sum_list 2 [5 :: nat]" "[7, 9]"]
    indexed_batch_all_or_nothing [of sum_list "indexed_of sum_list 2 [5 :: nat]" "[7, 5]"]
  by (simp add: indexed_wf_of Let_def)

text \<open>
  The reverse index is exact: in a well-formed indexed tree a leaf is found at the one
  index that holds it, its proof is verified by the depth-pinned verifier against the tree's
  root, and an absent leaf is \<open>LeafNotFound\<close>.  \<open>truncate\<close> keeps this: it forgets exactly the
  removed leaves, so they can be inserted again.
\<close>

theorem indexed_lookup_exact:
  assumes "indexed_wf ps s" and "n \<le> indexed_leaf_count s"
  shows "(\<forall>i x. indexed_get_index s x = Some i \<longleftrightarrow> i < indexed_leaf_count s \<and> imt_leaves (it_tree s) ! i = x) \<and>
    (\<forall>x \<in> set (imt_leaves (it_tree s)). \<exists>p. indexed_create_proof s x = Ok p \<and> ip_leaf p = x \<and>
       indexed_root s = Ok (ip_root p) \<and> verify_proof_at_depth ps p (indexed_depth s)) \<and>
    (\<forall>x. x \<notin> set (imt_leaves (it_tree s)) \<longrightarrow> indexed_create_proof s x = Err LeafNotFound) \<and>
    (\<exists>s'. indexed_truncate ps n s = (Ok (), s') \<and> indexed_wf ps s' \<and>
       imt_leaves (it_tree s') = take n (imt_leaves (it_tree s)) \<and>
       (\<forall>x \<in> set (drop n (imt_leaves (it_tree s))). indexed_get_index s' x = None))"
proof -
  from assms(1) obtain d xs where s: "s = indexed_of ps d xs" "d < 64" "length xs \<le> 2 ^ d" "distinct xs"
    by (rule indexed_wfE) blast
  have found: "\<exists>p. indexed_create_proof s x = Ok p \<and> ip_leaf p = x \<and>
      indexed_root s = Ok (ip_root p) \<and> verify_proof_at_depth ps p d" if x: "x \<in> set xs" for x
  proof -
    from x obtain i where i: "i < length xs" "xs ! i = x" by (auto simp: in_set_conv_nth)
    then have "indexed_create_proof s x = Ok (proof_of ps d 0 xs i)" using s indexed_create_proof_eq by blast
    then show ?thesis
      using s i proof_of_verifies [of d i ps 0 xs] by (simp add: indexed_root_def imt_root_eq) (simp add: proof_of_def)
  qed
  have trunc: "indexed_truncate ps n s = (Ok (), indexed_of ps d (take n xs))"
    using s assms(2) by (simp add: indexed_truncate_eq)
  have wf: "indexed_wf ps (indexed_of ps d (take n xs))" using s by (intro indexed_wf_of) simp_all
  have "\<forall>x \<in> set (drop n xs). x \<notin> set (take n xs)"
    using set_take_disj_set_drop_if_distinct [OF s(4), of n n] by blast
  then show ?thesis
    using s found trunc wf
    by (simp add: indexed_get_index_def index_map_Some_iff index_map_None_iff indexed_create_proof_missing)
qed

theorem indexed_lookup_exact_witness:
  "indexed_create_proof (indexed_of sum_list 2 [5, 7 :: nat]) 9 = Err LeafNotFound"
  using indexed_lookup_exact [of sum_list "indexed_of sum_list 2 [5, 7 :: nat]" 1] by (simp add: indexed_wf_of)

text \<open>
  The ordered tree keeps duplicates: from the empty tree any leaf list that fits is
  accepted, appended in one batch or leaf by leaf, each append returns the position it used,
  and the proof at a position is of the leaf appended there; a full tree refuses with
  \<open>TreeFull\<close> and is unchanged.
\<close>

theorem ordered_tree_appends:
  assumes "d < 64" and "length xs \<le> 2 ^ d"
  shows "\<exists>s. ordered_from_leaves ps d xs = Ok s \<and>
    ordered_insert_many ps ys s = (if length (xs @ ys) \<le> 2 ^ d then (Ok (), ordered_of ps d (xs @ ys))
      else (Err (TreeFull d), s)) \<and>
    ordered_insert ps x s = (if length xs < 2 ^ d then (Ok (length xs), ordered_of ps d (xs @ [x]))
      else (Err (TreeFull d), s)) \<and>
    (\<forall>i < length xs. \<exists>p. ordered_create_proof_at s i = Ok p \<and> ip_leaf p = xs ! i \<and> verify_proof_at_depth ps p d)"
proof -
  have "\<exists>p. ordered_create_proof_at (ordered_of ps d xs) i = Ok p \<and> ip_leaf p = xs ! i \<and> verify_proof_at_depth ps p d"
    if "i < length xs" for i
    using that assms proof_of_verifies [of d i ps 0 xs]
    by (simp add: ordered_create_proof_at_eq) (simp add: proof_of_def)
  then show ?thesis
    using assms by (simp add: ordered_from_leaves_eq ordered_insert_many_eq ordered_insert_eq)
qed

theorem ordered_tree_appends_witness:
  "\<exists>s. ordered_from_leaves sum_list 1 [5 :: nat] = Ok s \<and> ordered_insert sum_list 5 s = (Ok 1, ordered_of sum_list 1 [5, 5])"
  using ordered_tree_appends [of 1 "[5 :: nat]" sum_list "[]" 5] by auto

end
