(* ===== verification/Sharded_Tree.thy ===== *)
theory Sharded_Tree
  imports Leaf_Trees "HOL-Library.AList"
begin

text \<open>
  The stateful sharded tree \<open>ShardedNotesTree\<close> of \<open>crates/core/src/imt.rs\<close>: its state and
  every operation.  The hash maps that the code iterates (\<open>owned_notes\<close>) and the ordered
  map \<open>owned_leaves\<close> are association lists with distinct keys; the set of dirty notes is a
  list without repetition.  \<open>index & (shard_size - 1)\<close> is \<open>index mod shard_size\<close>, the
  shard size being a power of two.
\<close>

record 'f owned_witness =
  ow_note_id :: 'f
  ow_leaf_index :: nat
  ow_siblings :: "'f list option"

record 'f sharded_snapshot =
  ss_depth :: nat
  ss_shard_height :: nat
  ss_completed_roots :: "'f list"
  ss_live_leaves :: "'f list"
  ss_owned_notes :: "'f owned_witness list"

record 'f sharded_tree =
  st_depth :: nat
  st_shard_height :: nat
  st_shard_size :: nat
  st_cap_depth :: nat
  st_completed_roots :: "'f list"
  st_live :: "'f imt"
  st_live_leaves :: "'f list"
  st_cap :: "'f imt"
  st_owned_notes :: "('f \<times> 'f owned_witness) list"
  st_owned_leaves :: "(nat \<times> 'f) list"
  st_dirty :: "'f list"

definition zoom_live :: "('f imt, 'a, 'e) sm \<Rightarrow> ('f sharded_tree, 'a, 'e) sm" where
  [sm_simps]: "zoom_live = szoom st_live (\<lambda>t. st_live_update (\<lambda>_. t))"

definition zoom_cap :: "('f imt, 'a, 'e) sm \<Rightarrow> ('f sharded_tree, 'a, 'e) sm" where
  [sm_simps]: "zoom_cap = szoom st_cap (\<lambda>t. st_cap_update (\<lambda>_. t))"

definition sharded_new :: "('f :: zero list \<Rightarrow> 'f) \<Rightarrow> nat \<Rightarrow> nat \<Rightarrow> ('f sharded_tree, tree_error) result" where
  "sharded_new ps depth shard_height =
     rbind (guard (shard_height = 0 \<or> depth \<le> shard_height) (InvalidGeometry depth shard_height)) (\<lambda>_.
     rbind (tree_capacity shard_height) (\<lambda>shard_size.
       let cap_depth = depth - shard_height in
     rbind (tree_capacity depth) (\<lambda>_.
     rbind (imt_new ps shard_height) (\<lambda>live.
     rbind (idx (zero_roots ps depth) shard_height) (\<lambda>cap_zero.
     rbind (imt_new_with_zero ps cap_depth cap_zero) (\<lambda>cap.
       Ok \<lparr>st_depth = depth, st_shard_height = shard_height, st_shard_size = shard_size,
           st_cap_depth = cap_depth, st_completed_roots = [], st_live = live, st_live_leaves = [],
           st_cap = cap, st_owned_notes = [], st_owned_leaves = [], st_dirty = []\<rparr>))))))"

definition sharded_leaf_count :: "'f sharded_tree \<Rightarrow> nat" where
  "sharded_leaf_count s = length (st_completed_roots s) * st_shard_size s + length (st_live_leaves s)"

definition sharded_tree_root :: "'f sharded_tree \<Rightarrow> ('f, tree_error) result" where
  "sharded_tree_root s = imt_root (st_cap s)"

definition sharded_completed_shard_root :: "'f sharded_tree \<Rightarrow> nat \<Rightarrow> ('f, tree_error) result" where
  "sharded_completed_shard_root s shard_index =
     ok_or (get (st_completed_roots s) shard_index) (ShardNotCompleted shard_index)"

definition sharded_owned_notes :: "'f sharded_tree \<Rightarrow> 'f owned_witness list" where
  "sharded_owned_notes s = sort_key ow_leaf_index (map snd (st_owned_notes s))"

section \<open>Private helpers\<close>

definition sharded_ensure_room :: "nat \<Rightarrow> 'f sharded_tree \<Rightarrow> (unit, tree_error) result" where
  "sharded_ensure_room additional s =
     rbind (tree_capacity (st_depth s)) (\<lambda>capacity.
       guard (capacity - sharded_leaf_count s < additional) (TreeFull (st_depth s)))"

text \<open>\<open>self.owned_leaves.get(&leaf_index).is_some_and(|id| *id != note_id)\<close>.\<close>

definition owned_by_other :: "'f sharded_tree \<Rightarrow> nat \<Rightarrow> 'f \<Rightarrow> bool" where
  "owned_by_other s leaf_index note_id =
     (case map_of (st_owned_leaves s) leaf_index of Some id' \<Rightarrow> id' \<noteq> note_id | None \<Rightarrow> False)"

definition sharded_validate_incoming :: "'f sharded_tree \<Rightarrow> nat \<Rightarrow> 'f \<Rightarrow> (unit, tree_error) result" where
  "sharded_validate_incoming s leaf_index note_id =
     guard (owned_by_other s leaf_index note_id) (OwnedLeafMismatch leaf_index)"

definition sharded_sync_live_root :: "('f list \<Rightarrow> 'f) \<Rightarrow> ('f sharded_tree, unit, tree_error) sm" where
  "sharded_sync_live_root ps = (\<lambda>s.
     (if st_live_leaves s = [] then sret ()
      else let shard_index = length (st_completed_roots s) in
        if imt_leaf_count (st_cap s) = shard_index
        then sbind (slift (imt_root (st_live s))) (\<lambda>r. zoom_cap (imt_insert ps r))
        else if imt_leaf_count (st_cap s) = shard_index + 1
        then sbind (slift (imt_root (st_live s))) (\<lambda>r. zoom_cap (imt_update ps shard_index r))
        else slift (Err (InvalidSnapshot ''cap/live shard index mismatch''))) s)"

text \<open>One owned note of the shard that has just been filled freezes its path.\<close>

definition sharded_freeze :: "nat \<Rightarrow> 'f \<Rightarrow> unit \<Rightarrow> ('f sharded_tree, unit, tree_error) sm" where
  "sharded_freeze completed_index key acc = (\<lambda>s.
     (case map_of (st_owned_notes s) key of
        None \<Rightarrow> sret ()
      | Some owned \<Rightarrow>
          if ow_leaf_index owned div 2 ^ st_shard_height s \<noteq> completed_index \<or> ow_siblings owned \<noteq> None
          then sret ()
          else let within_index = ow_leaf_index owned mod st_shard_size s in
            sbind (slift (guard (imt_leaf (st_live s) within_index \<noteq> Some (ow_note_id owned))
                     (OwnedLeafMismatch (ow_leaf_index owned)))) (\<lambda>_.
            sbind (slift (imt_create_proof (st_live s) within_index)) (\<lambda>proof.
            sbind (smodify (st_owned_notes_update
                     (AList.update key (owned\<lparr>ow_siblings := Some (ip_siblings proof)\<rparr>)))) (\<lambda>_.
              smodify (st_dirty_update (List.insert (ow_note_id owned))))))) s)"

definition sharded_roll_over :: "('f :: zero list \<Rightarrow> 'f) \<Rightarrow> ('f sharded_tree, unit, tree_error) sm" where
  "sharded_roll_over ps = (\<lambda>s.
     let completed_index = length (st_completed_roots s) in
     sbind (sfold (map fst (st_owned_notes s)) (sharded_freeze completed_index) ()) (\<lambda>_ s.
     sbind (slift (imt_root (st_live s))) (\<lambda>r.
     sbind (smodify (st_completed_roots_update (\<lambda>roots. roots @ [r]))) (\<lambda>_.
     sbind (slift (imt_new ps (st_shard_height s))) (\<lambda>live.
     sbind (smodify (st_live_update (\<lambda>_. live))) (\<lambda>_.
       smodify (st_live_leaves_update (\<lambda>_. [])))))) s) s)"

fun frozen_loop :: "('f list \<Rightarrow> 'f) \<Rightarrow> 'f list \<Rightarrow> 'f \<Rightarrow> nat \<Rightarrow> 'f" where
  "frozen_loop ps [] node index = node"
| "frozen_loop ps (sibling # siblings) node index =
     frozen_loop ps siblings (if even index then ps [node, sibling] else ps [sibling, node]) (index div 2)"

definition sharded_verify_frozen_path ::
    "('f list \<Rightarrow> 'f) \<Rightarrow> 'f sharded_tree \<Rightarrow> 'f \<Rightarrow> nat \<Rightarrow> 'f list \<Rightarrow> (unit, tree_error) result" where
  "sharded_verify_frozen_path ps s note_id leaf_index siblings =
     rbind (guard (length siblings \<noteq> st_shard_height s)
              (InvalidSiblingCount (st_shard_height s) (length siblings))) (\<lambda>_.
       let shard_index = leaf_index div 2 ^ st_shard_height s in
     rbind (ok_or (get (st_completed_roots s) shard_index) (ShardNotCompleted shard_index)) (\<lambda>root.
       let node = frozen_loop ps siblings note_id (leaf_index mod st_shard_size s) in
       guard (node \<noteq> root) (WitnessRootMismatch shard_index)))"

definition sharded_rebuild_cap :: "('f :: zero list \<Rightarrow> 'f) \<Rightarrow> ('f sharded_tree, unit, tree_error) sm" where
  "sharded_rebuild_cap ps = (\<lambda>s.
     sbind (slift (idx (zero_roots ps (st_depth s)) (st_shard_height s))) (\<lambda>cap_zero.
     sbind (slift (if st_live_leaves s \<noteq> []
                   then rbind (imt_root (st_live s)) (\<lambda>r. Ok (st_completed_roots s @ [r]))
                   else Ok (st_completed_roots s))) (\<lambda>roots.
     sbind (slift (imt_from_leaves_with_zero ps (st_cap_depth s) cap_zero roots)) (\<lambda>cap.
       smodify (st_cap_update (\<lambda>_. cap))))) s)"

section \<open>Appending\<close>

definition sharded_append :: "('f :: zero list \<Rightarrow> 'f) \<Rightarrow> 'f \<Rightarrow> ('f sharded_tree, unit, tree_error) sm" where
  "sharded_append ps note_id = (\<lambda>s.
     sbind (slift (sharded_ensure_room 1 s)) (\<lambda>_.
     sbind (slift (sharded_validate_incoming s (sharded_leaf_count s) note_id)) (\<lambda>_.
     sbind (zoom_live (imt_insert ps note_id)) (\<lambda>_.
     sbind (smodify (st_live_leaves_update (\<lambda>ls. ls @ [note_id]))) (\<lambda>_.
     sbind (sharded_sync_live_root ps) (\<lambda>_ s.
       (if length (st_live_leaves s) = st_shard_size s then sharded_roll_over ps else sret ()) s))))) s)"

text \<open>One segment of a batch: at most the room of the live shard, built or inserted.\<close>

definition sharded_append_segment ::
    "('f :: zero list \<Rightarrow> 'f) \<Rightarrow> 'f list \<Rightarrow> ('f sharded_tree, unit, tree_error) sm" where
  "sharded_append_segment ps segment = (\<lambda>s.
     let final_live_len = length (st_live_leaves s) + length segment;
         rebuild_cost = final_live_len - 1;
         incremental_cost = min (length segment * st_shard_height s) (2 ^ usize_bits - 1)
     in sbind (smodify (st_live_leaves_update (\<lambda>ls. ls @ segment))) (\<lambda>_ s.
        sbind (if rebuild_cost < incremental_cost
               then sbind (slift (imt_from_leaves ps (st_shard_height s) (st_live_leaves s))) (\<lambda>live.
                      smodify (st_live_update (\<lambda>_. live)))
               else sfold segment (\<lambda>note_id _. zoom_live (imt_insert ps note_id)) ()) (\<lambda>_.
        sbind (sharded_sync_live_root ps) (\<lambda>_ s.
          (if length (st_live_leaves s) = st_shard_size s then sharded_roll_over ps else sret ()) s)) s) s)"

text \<open>
  The \<open>while\<close> loop over the remaining ids; not returning would be \<open>None\<close>.
\<close>

partial_function (option) sharded_append_loop ::
    "('f :: zero list \<Rightarrow> 'f) \<Rightarrow> 'f list \<Rightarrow> 'f sharded_tree \<Rightarrow>
     ((unit, tree_error) result \<times> 'f sharded_tree) option" where
  "sharded_append_loop ps remaining s =
     (if remaining = [] then Some (Ok (), s)
      else let room = st_shard_size s - length (st_live_leaves s);
               n = min room (length remaining)
           in case sharded_append_segment ps (take n remaining) s of
                (r, s') \<Rightarrow> (case r of Ok _ \<Rightarrow> sharded_append_loop ps (drop n remaining) s'
                                   | Err e \<Rightarrow> Some (Err e, s') | Panic \<Rightarrow> Some (Panic, s')))"

definition sharded_append_many ::
    "('f :: zero list \<Rightarrow> 'f) \<Rightarrow> 'f list \<Rightarrow> 'f sharded_tree \<Rightarrow>
     ((unit, tree_error) result \<times> 'f sharded_tree) option" where
  "sharded_append_many ps note_ids s =
     (case rbind (sharded_ensure_room (length note_ids) s) (\<lambda>_.
           let first_index = sharded_leaf_count s in
           rfold (enumerate 0 note_ids) (\<lambda>(offset, note_id) _.
             sharded_validate_incoming s (first_index + offset) note_id) ()) of
        Ok _ \<Rightarrow> sharded_append_loop ps note_ids s
      | Err e \<Rightarrow> Some (Err e, s)
      | Panic \<Rightarrow> Some (Panic, s))"

section \<open>Owned notes\<close>

definition sharded_mark_owned :: "'f \<Rightarrow> nat \<Rightarrow> ('f sharded_tree, unit, tree_error) sm" where
  "sharded_mark_owned note_id leaf_index = (\<lambda>s.
     sbind (slift (tree_capacity (st_depth s))) (\<lambda>capacity.
     sbind (slift (guard (capacity \<le> leaf_index) (LeafIndexOutOfRange leaf_index capacity))) (\<lambda>_.
       let shard_index = leaf_index div 2 ^ st_shard_height s in
     sbind (slift (guard (shard_index < length (st_completed_roots s)) (NoteAlreadyCompleted shard_index))) (\<lambda>_.
       case map_of (st_owned_notes s) note_id of
         Some existing \<Rightarrow>
           if ow_leaf_index existing = leaf_index then sret ()
           else slift (Err (DuplicateOwnedLeaf (ow_leaf_index existing)))
       | None \<Rightarrow>
           sbind (slift (guard (owned_by_other s leaf_index note_id) (DuplicateOwnedLeaf leaf_index))) (\<lambda>_.
           sbind (slift (guard (leaf_index < sharded_leaf_count s \<and>
                      imt_leaf (st_live s) (leaf_index mod st_shard_size s) \<noteq> Some note_id)
                    (OwnedLeafMismatch leaf_index))) (\<lambda>_.
           sbind (smodify (st_owned_leaves_update (AList.update leaf_index note_id))) (\<lambda>_.
           sbind (smodify (st_owned_notes_update (AList.update note_id
                    \<lparr>ow_note_id = note_id, ow_leaf_index = leaf_index, ow_siblings = None\<rparr>))) (\<lambda>_.
             smodify (st_dirty_update (List.insert note_id)))))))))  s)"

definition sharded_unmark_owned :: "'f \<Rightarrow> 'f sharded_tree \<Rightarrow> bool \<times> 'f sharded_tree" where
  "sharded_unmark_owned note_id s =
     (let s = st_dirty_update (removeAll note_id) s in
      case map_of (st_owned_notes s) note_id of
        Some owned \<Rightarrow>
          (True, st_owned_leaves_update (AList.delete (ow_leaf_index owned))
                   (st_owned_notes_update (AList.delete note_id) s))
      | None \<Rightarrow> (False, s))"

definition sharded_adopt_frozen_witness ::
    "('f list \<Rightarrow> 'f) \<Rightarrow> 'f \<Rightarrow> nat \<Rightarrow> 'f list \<Rightarrow> ('f sharded_tree, unit, tree_error) sm" where
  "sharded_adopt_frozen_witness ps note_id leaf_index siblings = (\<lambda>s.
     let shard_index = leaf_index div 2 ^ st_shard_height s in
     sbind (slift (guard (length (st_completed_roots s) \<le> shard_index) (ShardNotCompleted shard_index))) (\<lambda>_.
     sbind (slift (case map_of (st_owned_notes s) note_id of
              Some existing \<Rightarrow> guard (ow_leaf_index existing \<noteq> leaf_index)
                                (DuplicateOwnedLeaf (ow_leaf_index existing))
            | None \<Rightarrow> Ok ())) (\<lambda>_.
     sbind (slift (guard (owned_by_other s leaf_index note_id) (DuplicateOwnedLeaf leaf_index))) (\<lambda>_.
     sbind (slift (sharded_verify_frozen_path ps s note_id leaf_index siblings)) (\<lambda>_.
     sbind (smodify (st_owned_leaves_update (AList.update leaf_index note_id))) (\<lambda>_.
     sbind (smodify (st_owned_notes_update (AList.update note_id
              \<lparr>ow_note_id = note_id, ow_leaf_index = leaf_index, ow_siblings = Some siblings\<rparr>))) (\<lambda>_.
       smodify (st_dirty_update (List.insert note_id)))))))) s)"

definition sharded_tree_witness :: "'f sharded_tree \<Rightarrow> 'f \<Rightarrow> ('f inclusion_proof, tree_error) result" where
  "sharded_tree_witness s note_id =
     rbind (ok_or (map_of (st_owned_notes s) note_id) NoteNotMarked) (\<lambda>owned.
       let shard_index = ow_leaf_index owned div 2 ^ st_shard_height s;
           within_index = ow_leaf_index owned mod st_shard_size s
       in rbind (case ow_siblings owned of
                   Some frozen \<Rightarrow> Ok frozen
                 | None \<Rightarrow>
                     rbind (guard (shard_index \<noteq> length (st_completed_roots s) \<or>
                                   imt_leaf (st_live s) within_index \<noteq> Some note_id)
                              (OwnedLeafMismatch (ow_leaf_index owned))) (\<lambda>_.
                     rbind (imt_create_proof (st_live s) within_index) (\<lambda>proof. Ok (ip_siblings proof))))
            (\<lambda>siblings.
          rbind (imt_create_proof (st_cap s) shard_index) (\<lambda>cap_proof.
          rbind (sharded_tree_root s) (\<lambda>root.
            Ok \<lparr>ip_leaf = note_id, ip_index = ow_leaf_index owned,
                ip_siblings = siblings @ ip_siblings cap_proof, ip_root = root\<rparr>))))"

section \<open>Rewinding, draining and snapshots\<close>

text \<open>The owned leaves from an index on, in ascending order (\<open>BTreeMap::range\<close>).\<close>

definition owned_range :: "(nat \<times> 'f) list \<Rightarrow> nat \<Rightarrow> 'f list" where
  "owned_range leaves from = map snd (sort_key fst (filter (\<lambda>(i, _). from \<le> i) leaves))"

definition sharded_rewind_live_to ::
    "('f :: zero list \<Rightarrow> 'f) \<Rightarrow> nat \<Rightarrow> ('f sharded_tree, 'f list, tree_error) sm" where
  "sharded_rewind_live_to ps leaf_count = (\<lambda>s.
     let completed_leaf_count = length (st_completed_roots s) * st_shard_size s in
     sbind (slift (guard (leaf_count < completed_leaf_count)
              (RewindBeforeCompleted completed_leaf_count leaf_count))) (\<lambda>_.
       let current = sharded_leaf_count s in
     sbind (slift (guard (current < leaf_count) (LeafIndexOutOfRange leaf_count current))) (\<lambda>_.
       let removed = owned_range (st_owned_leaves s) leaf_count in
     sbind (smodify (fold (\<lambda>note_id s. snd (sharded_unmark_owned note_id s)) removed)) (\<lambda>_.
     sbind (smodify (st_live_leaves_update (take (leaf_count - completed_leaf_count)))) (\<lambda>_ s.
     sbind (slift (imt_from_leaves ps (st_shard_height s) (st_live_leaves s))) (\<lambda>live.
     sbind (smodify (st_live_update (\<lambda>_. live))) (\<lambda>_.
     sbind (sharded_rebuild_cap ps) (\<lambda>_. sret removed))) s)))) s)"

definition sharded_drain_dirty :: "'f sharded_tree \<Rightarrow> 'f owned_witness list \<times> 'f sharded_tree" where
  "sharded_drain_dirty s =
     (sort_key ow_leaf_index (List.map_filter (map_of (st_owned_notes s)) (st_dirty s)),
      st_dirty_update (\<lambda>_. []) s)"

definition sharded_take_snapshot :: "'f sharded_tree \<Rightarrow> 'f sharded_snapshot" where
  "sharded_take_snapshot s = \<lparr>ss_depth = st_depth s, ss_shard_height = st_shard_height s,
     ss_completed_roots = st_completed_roots s, ss_live_leaves = st_live_leaves s,
     ss_owned_notes = sharded_owned_notes s\<rparr>"

definition restore_owned ::
    "('f list \<Rightarrow> 'f) \<Rightarrow> nat \<Rightarrow> 'f owned_witness \<Rightarrow> 'f sharded_tree \<Rightarrow> ('f sharded_tree, tree_error) result" where
  "restore_owned ps capacity owned tree =
     rbind (guard (capacity \<le> ow_leaf_index owned)
              (InvalidSnapshot (''owned leaf '' @ show_nat (ow_leaf_index owned) @
                 '' exceeds capacity '' @ show_nat capacity))) (\<lambda>_.
     rbind (guard (map_of (st_owned_notes tree) (ow_note_id owned) \<noteq> None \<or>
                   map_of (st_owned_leaves tree) (ow_leaf_index owned) \<noteq> None)
              (InvalidSnapshot (''duplicate owned note or leaf '' @ show_nat (ow_leaf_index owned)))) (\<lambda>_.
       let shard_index = ow_leaf_index owned div 2 ^ st_shard_height tree in
     rbind (if shard_index < length (st_completed_roots tree)
            then rbind (ok_or (ow_siblings owned)
                          (InvalidSnapshot (''owned leaf '' @ show_nat (ow_leaf_index owned) @
                             '' is completed but has no frozen path''))) (\<lambda>siblings.
                 sharded_verify_frozen_path ps tree (ow_note_id owned) (ow_leaf_index owned) siblings)
            else rbind (guard (ow_siblings owned \<noteq> None)
                          (InvalidSnapshot (''owned leaf '' @ show_nat (ow_leaf_index owned) @
                             '' is not completed but has a frozen path''))) (\<lambda>_.
                 guard (ow_leaf_index owned < sharded_leaf_count tree \<and>
                        imt_leaf (st_live tree) (ow_leaf_index owned mod st_shard_size tree)
                          \<noteq> Some (ow_note_id owned))
                   (OwnedLeafMismatch (ow_leaf_index owned)))) (\<lambda>_.
       Ok (st_owned_notes_update (AList.update (ow_note_id owned) owned)
            (st_owned_leaves_update (AList.update (ow_leaf_index owned) (ow_note_id owned)) tree)))))"

definition sharded_from_snapshot ::
    "('f :: zero list \<Rightarrow> 'f) \<Rightarrow> 'f sharded_snapshot \<Rightarrow> ('f sharded_tree, tree_error) result" where
  "sharded_from_snapshot ps snapshot =
     rbind (sharded_new ps (ss_depth snapshot) (ss_shard_height snapshot)) (\<lambda>tree.
     rbind (tree_capacity (st_cap_depth tree)) (\<lambda>max_shards.
     rbind (guard (max_shards < length (ss_completed_roots snapshot))
              (InvalidSnapshot ''too many completed shard roots'')) (\<lambda>_.
     rbind (guard (st_shard_size tree \<le> length (ss_live_leaves snapshot))
              (InvalidSnapshot ''the live shard must contain fewer than one complete shard'')) (\<lambda>_.
     rbind (guard (length (ss_completed_roots snapshot) = max_shards \<and> ss_live_leaves snapshot \<noteq> [])
              (InvalidSnapshot ''live leaves exceed the tree capacity'')) (\<lambda>_.
       let tree = tree\<lparr>st_completed_roots := ss_completed_roots snapshot,
                       st_live_leaves := ss_live_leaves snapshot\<rparr> in
     rbind (imt_from_leaves ps (st_shard_height tree) (st_live_leaves tree)) (\<lambda>live.
       case sharded_rebuild_cap ps (tree\<lparr>st_live := live\<rparr>) of
         (r, tree) \<Rightarrow>
           rbind r (\<lambda>_.
           rbind (tree_capacity (st_depth tree)) (\<lambda>capacity.
             rfold (ss_owned_notes snapshot) (restore_owned ps capacity) tree))))))))"

definition sharded_from_parts ::
    "('f :: zero list \<Rightarrow> 'f) \<Rightarrow> nat \<Rightarrow> nat \<Rightarrow> 'f list \<Rightarrow> 'f list \<Rightarrow> ('f sharded_tree, tree_error) result" where
  "sharded_from_parts ps depth shard_height completed_roots live_leaves =
     sharded_from_snapshot ps \<lparr>ss_depth = depth, ss_shard_height = shard_height,
       ss_completed_roots = completed_roots, ss_live_leaves = live_leaves, ss_owned_notes = []\<rparr>"

end
