(* ===== verification/Sharded_Refine.thy ===== *)
theory Sharded_Refine
  imports Sharded_Tree Inclusion_Proof
begin

text \<open>
  The sharded tree refines the flat tree.  \<open>sharded_rep ps d sh xs s\<close> says that \<open>s\<close> is a
  sharded tree over the log \<open>xs\<close>: its completed roots, live shard and cap are those of
  \<open>xs\<close>, and its owned notes are consistent with it.  Every operation preserves it; the
  root and the witnesses are those of the flat tree of the same depth.
\<close>

section \<open>Shards of a log\<close>

definition shard_log_roots :: "('f :: zero list \<Rightarrow> 'f) \<Rightarrow> nat \<Rightarrow> 'f list \<Rightarrow> nat \<Rightarrow> 'f list" where
  "shard_log_roots ps sh xs n = map (subtree_root ps (padded 0 xs) sh) [0..<n]"

lemma length_shard_log_roots [simp]: "length (shard_log_roots ps sh xs n) = n"
  by (simp add: shard_log_roots_def)

lemma nth_shard_log_roots [simp]:
  "i < n \<Longrightarrow> shard_log_roots ps sh xs n ! i = subtree_root ps (padded 0 xs) sh i"
  by (simp add: shard_log_roots_def)

lemma shard_log_roots_Suc:
  "shard_log_roots ps sh xs (Suc n) = shard_log_roots ps sh xs n @ [subtree_root ps (padded 0 xs) sh n]"
  by (simp add: shard_log_roots_def)

lemma shard_log_roots_append:
  "n * 2 ^ sh \<le> length xs \<Longrightarrow> shard_log_roots ps sh (xs @ ys) n = shard_log_roots ps sh xs n"
proof (rule nth_equalityI)
  fix i assume n: "n * 2 ^ sh \<le> length xs" and "i < length (shard_log_roots ps sh (xs @ ys) n)"
  then have i: "i < n" by simp
  then have "(i + 1) * 2 ^ sh \<le> n * 2 ^ sh" by (intro mult_le_mono1) simp
  then have "(i + 1) * 2 ^ sh \<le> length xs" using n by simp
  with i show "shard_log_roots ps sh (xs @ ys) n ! i = shard_log_roots ps sh xs n ! i"
    by (simp add: subtree_root_append)
qed simp

lemma padded_drop: "padded z (drop k xs) = (\<lambda>j. padded z xs (j + k))"
  by (rule ext) (auto simp: padded_def add.commute)

lemma live_subtree:
  "subtree_root ps (padded z (drop (q * 2 ^ sh) xs)) sh 0 = subtree_root ps (padded z xs) sh q"
  using subtree_root_shift [of ps "padded z xs" q sh 0] by (simp add: padded_drop)

lemma live_merkle_root: "merkle_root ps z sh (drop (q * 2 ^ sh) xs) = subtree_root ps (padded z xs) sh q"
  by (simp add: merkle_root_def live_subtree)

lemma cap_padded:
  "padded (zroot ps 0 sh) (shard_log_roots ps sh xs (ceil_len (length xs) sh)) =
    subtree_root ps (padded 0 xs) sh"
proof (rule ext)
  fix j
  show "padded (zroot ps 0 sh) (shard_log_roots ps sh xs (ceil_len (length xs) sh)) j =
      subtree_root ps (padded 0 xs) sh j"
  proof (cases "j < ceil_len (length xs) sh")
    case False
    then have "length xs \<le> j * 2 ^ sh" by (intro ceil_len_covers) simp
    with False show ?thesis by (simp add: padded_def subtree_root_padding)
  qed simp
qed

text \<open>The cap over the shard roots is the top of the flat tree.\<close>

lemma cap_subtree:
  "subtree_root ps (padded (zroot ps 0 sh) (shard_log_roots ps sh xs (ceil_len (length xs) sh))) k i =
    subtree_root ps (padded 0 xs) (k + sh) i"
  by (simp add: cap_padded subtree_root_stack)

lemma cap_merkle_root:
  "merkle_root ps (zroot ps 0 sh) k (shard_log_roots ps sh xs (ceil_len (length xs) sh)) =
    merkle_root ps 0 (k + sh) xs"
  by (simp add: merkle_root_def cap_subtree)

lemma ceil_len_full: "ceil_len (q * 2 ^ sh) sh = q"
proof -
  have "1 \<le> (2 :: nat) ^ sh" by simp
  then have "q * 2 ^ sh \<le> q * 2 ^ sh + 2 ^ sh - 1" "q * 2 ^ sh + 2 ^ sh - 1 < 2 ^ sh + q * 2 ^ sh" by arith+
  then show ?thesis unfolding ceil_len_def by (intro div_nat_eqI) (simp_all add: mult.commute)
qed

lemma ceil_len_partial:
  assumes "q * 2 ^ sh < n" and "n \<le> (q + 1) * 2 ^ sh"
  shows "ceil_len n sh = q + 1"
  unfolding ceil_len_def
  by (intro div_nat_eqI) (use assms in \<open>simp_all add: algebra_simps\<close>)

section \<open>States\<close>

definition st_mk ::
    "('f :: zero list \<Rightarrow> 'f) \<Rightarrow> nat \<Rightarrow> nat \<Rightarrow> nat \<Rightarrow> 'f list \<Rightarrow> ('f \<times> 'f owned_witness) list \<Rightarrow>
     (nat \<times> 'f) list \<Rightarrow> 'f list \<Rightarrow> 'f sharded_tree" where
  "st_mk ps d sh q xs on ol dirty = \<lparr>st_depth = d, st_shard_height = sh, st_shard_size = 2 ^ sh,
     st_cap_depth = d - sh, st_completed_roots = shard_log_roots ps sh xs q,
     st_live = imt_of ps sh 0 (drop (q * 2 ^ sh) xs), st_live_leaves = drop (q * 2 ^ sh) xs,
     st_cap = imt_of ps (d - sh) (zroot ps 0 sh) (shard_log_roots ps sh xs (ceil_len (length xs) sh)),
     st_owned_notes = on, st_owned_leaves = ol, st_dirty = dirty\<rparr>"

lemma st_mk_simps [simp]:
  "st_depth (st_mk ps d sh q xs on ol dirty) = d"
  "st_shard_height (st_mk ps d sh q xs on ol dirty) = sh"
  "st_shard_size (st_mk ps d sh q xs on ol dirty) = 2 ^ sh"
  "st_cap_depth (st_mk ps d sh q xs on ol dirty) = d - sh"
  "st_completed_roots (st_mk ps d sh q xs on ol dirty) = shard_log_roots ps sh xs q"
  "st_live (st_mk ps d sh q xs on ol dirty) = imt_of ps sh 0 (drop (q * 2 ^ sh) xs)"
  "st_live_leaves (st_mk ps d sh q xs on ol dirty) = drop (q * 2 ^ sh) xs"
  "st_cap (st_mk ps d sh q xs on ol dirty) =
     imt_of ps (d - sh) (zroot ps 0 sh) (shard_log_roots ps sh xs (ceil_len (length xs) sh))"
  "st_owned_notes (st_mk ps d sh q xs on ol dirty) = on"
  "st_owned_leaves (st_mk ps d sh q xs on ol dirty) = ol"
  "st_dirty (st_mk ps d sh q xs on ol dirty) = dirty"
  "st_owned_notes_update (\<lambda>x. f x) (st_mk ps d sh q xs on ol dirty) = st_mk ps d sh q xs (f on) ol dirty"
  "st_owned_leaves_update (\<lambda>x. g x) (st_mk ps d sh q xs on ol dirty) = st_mk ps d sh q xs on (g ol) dirty"
  "st_dirty_update (\<lambda>x. h x) (st_mk ps d sh q xs on ol dirty) = st_mk ps d sh q xs on ol (h dirty)"
  by (simp_all add: st_mk_def)

text \<open>
  An owned note before the log reaches it, in the live shard, or frozen: a frozen path must
  hash to the completed root.
\<close>

definition witness_ok :: "('f :: zero list \<Rightarrow> 'f) \<Rightarrow> nat \<Rightarrow> nat \<Rightarrow> 'f list \<Rightarrow> 'f owned_witness \<Rightarrow> bool" where
  "witness_ok ps sh q xs w \<longleftrightarrow>
     (case ow_siblings w of
        Some ss \<Rightarrow> ow_leaf_index w < q * 2 ^ sh \<and> length ss = sh \<and>
          path_node ps (ow_note_id w) (ow_leaf_index w mod 2 ^ sh) ss sh =
            subtree_root ps (padded 0 xs) sh (ow_leaf_index w div 2 ^ sh)
      | None \<Rightarrow> q * 2 ^ sh \<le> ow_leaf_index w \<and>
          (ow_leaf_index w < length xs \<longrightarrow> xs ! ow_leaf_index w = ow_note_id w))"

definition owned_ok ::
    "('f :: zero list \<Rightarrow> 'f) \<Rightarrow> nat \<Rightarrow> nat \<Rightarrow> nat \<Rightarrow> 'f list \<Rightarrow> ('f \<times> 'f owned_witness) list \<Rightarrow>
     (nat \<times> 'f) list \<Rightarrow> bool" where
  "owned_ok ps d sh q xs on ol \<longleftrightarrow> distinct (map fst on) \<and> distinct (map fst ol) \<and>
     (\<forall>k w. map_of on k = Some w \<longrightarrow> ow_note_id w = k \<and> ow_leaf_index w < 2 ^ d \<and>
        map_of ol (ow_leaf_index w) = Some k \<and> witness_ok ps sh q xs w) \<and>
     (\<forall>i k. map_of ol i = Some k \<longrightarrow> (\<exists>w. map_of on k = Some w \<and> ow_leaf_index w = i))"

definition sharded_fits :: "nat \<Rightarrow> nat \<Rightarrow> 'f list \<Rightarrow> bool" where
  "sharded_fits d sh xs \<longleftrightarrow> 0 < sh \<and> sh < d \<and> d < 64 \<and> length xs \<le> 2 ^ d"

definition sharded_rep :: "('f :: zero list \<Rightarrow> 'f) \<Rightarrow> nat \<Rightarrow> nat \<Rightarrow> 'f list \<Rightarrow> 'f sharded_tree \<Rightarrow> bool" where
  "sharded_rep ps d sh xs s \<longleftrightarrow> sharded_fits d sh xs \<and>
     (\<exists>on ol dirty. s = st_mk ps d sh (length xs div 2 ^ sh) xs on ol dirty \<and>
        owned_ok ps d sh (length xs div 2 ^ sh) xs on ol)"

lemma sharded_repE:
  assumes "sharded_rep ps d sh xs s"
  obtains q on ol dirty where "q = length xs div 2 ^ sh" "s = st_mk ps d sh q xs on ol dirty"
    "owned_ok ps d sh q xs on ol" "0 < sh" "sh < d" "d < 64" "length xs \<le> 2 ^ d"
  using assms by (auto simp: sharded_rep_def sharded_fits_def)

lemma sharded_repI:
  "sharded_fits d sh xs \<Longrightarrow> owned_ok ps d sh (length xs div 2 ^ sh) xs on ol \<Longrightarrow>
    sharded_rep ps d sh xs (st_mk ps d sh (length xs div 2 ^ sh) xs on ol dirty)"
  by (auto simp: sharded_rep_def)

lemma sharded_new_eq:
  assumes "0 < sh" and "sh < d" and "d < 64"
  shows "sharded_new ps d sh = Ok (st_mk ps d sh 0 [] [] [] [])"
  using assms
  by (simp add: sharded_new_def imt_new_eq imt_new_with_zero_eq st_mk_def shard_log_roots_def Let_def)

lemma owned_ok_Nil: "owned_ok ps d sh q xs [] []"
  by (simp add: owned_ok_def)

lemma sharded_new_rep:
  "0 < sh \<Longrightarrow> sh < d \<Longrightarrow> d < 64 \<Longrightarrow> \<exists>s. sharded_new ps d sh = Ok s \<and> sharded_rep ps d sh [] s"
  using sharded_repI [of d sh "[]" ps "[]" "[]" "[]"]
  by (simp add: sharded_new_eq sharded_fits_def owned_ok_Nil)

lemma sharded_leaf_count_eq:
  "q * 2 ^ sh \<le> length xs \<Longrightarrow> sharded_leaf_count (st_mk ps d sh q xs on ol dirty) = length xs"
  by (simp add: sharded_leaf_count_def)

lemma shards_in_cap:
  assumes "length xs \<le> 2 ^ d" and "sh < d"
  shows "ceil_len (length xs) sh \<le> 2 ^ (d - sh)"
proof (rule ccontr)
  assume "\<not> ceil_len (length xs) sh \<le> 2 ^ (d - sh)"
  then have "2 ^ (d - sh) * 2 ^ sh < length xs" using ceil_len_less [of "2 ^ (d - sh)" "length xs" sh] by simp
  with assms show False by (simp flip: power_add)
qed

lemma sharded_tree_root_eq:
  assumes "sharded_fits d sh xs"
  shows "sharded_tree_root (st_mk ps d sh q xs on ol dirty) = Ok (merkle_root ps 0 d xs)"
proof -
  have fits: "sh < d" "length xs \<le> 2 ^ d" using assms by (simp_all add: sharded_fits_def)
  have "imt_root (imt_of ps (d - sh) (zroot ps 0 sh) (shard_log_roots ps sh xs (ceil_len (length xs) sh))) =
      Ok (merkle_root ps (zroot ps 0 sh) (d - sh) (shard_log_roots ps sh xs (ceil_len (length xs) sh)))"
    using shards_in_cap [OF fits(2,1)] by (intro imt_root_eq) simp
  then show ?thesis using fits by (simp add: sharded_tree_root_def cap_merkle_root)
qed

section \<open>Keeping the cap in step\<close>

text \<open>The state of a batch after its leaves are in the live shard and before the cap knows.\<close>

definition st_stale ::
    "('f :: zero list \<Rightarrow> 'f) \<Rightarrow> nat \<Rightarrow> nat \<Rightarrow> nat \<Rightarrow> 'f list \<Rightarrow> 'f list \<Rightarrow> ('f \<times> 'f owned_witness) list \<Rightarrow>
     (nat \<times> 'f) list \<Rightarrow> 'f list \<Rightarrow> 'f sharded_tree" where
  "st_stale ps d sh q xs ys on ol dirty = (st_mk ps d sh q (xs @ ys) on ol dirty)\<lparr>st_cap :=
     imt_of ps (d - sh) (zroot ps 0 sh) (shard_log_roots ps sh xs (ceil_len (length xs) sh))\<rparr>"

lemma st_stale_simps [simp]:
  "st_live (st_stale ps d sh q xs ys on ol dirty) = imt_of ps sh 0 (drop (q * 2 ^ sh) (xs @ ys))"
  "st_live_leaves (st_stale ps d sh q xs ys on ol dirty) = drop (q * 2 ^ sh) (xs @ ys)"
  "st_completed_roots (st_stale ps d sh q xs ys on ol dirty) = shard_log_roots ps sh (xs @ ys) q"
  "st_cap (st_stale ps d sh q xs ys on ol dirty) =
     imt_of ps (d - sh) (zroot ps 0 sh) (shard_log_roots ps sh xs (ceil_len (length xs) sh))"
  "st_cap_update (\<lambda>_. imt_of ps (d - sh) (zroot ps 0 sh)
       (shard_log_roots ps sh (xs @ ys) (ceil_len (length xs + length ys) sh))) (st_stale ps d sh q xs ys on ol dirty) =
     st_mk ps d sh q (xs @ ys) on ol dirty"
  by (simp_all add: st_stale_def st_mk_def)

lemma shard_log_roots_snoc_update:
  assumes "q * 2 ^ sh \<le> length xs"
  shows "(shard_log_roots ps sh xs (Suc q))[q := subtree_root ps (padded 0 (xs @ ys)) sh q] =
    shard_log_roots ps sh (xs @ ys) (Suc q)"
  using assms by (simp add: shard_log_roots_Suc shard_log_roots_append list_update_append)

lemma sync_live_root_eq:
  assumes "q * 2 ^ sh \<le> length xs" and "length (xs @ ys) \<le> (q + 1) * 2 ^ sh" and "ys \<noteq> []"
    and "sharded_fits d sh (xs @ ys)"
  shows "sharded_sync_live_root ps (st_stale ps d sh q xs ys on ol dirty) =
    (Ok (), st_mk ps d sh q (xs @ ys) on ol dirty)"
proof -
  let ?s = "st_stale ps d sh q xs ys on ol dirty" and ?n = "length (xs @ ys)"
  let ?r = "subtree_root ps (padded 0 (xs @ ys)) sh q"
  have d: "sh < d" "d < 64" "?n \<le> 2 ^ d" using assms(4) by (simp_all add: sharded_fits_def)
  have lt: "q * 2 ^ sh < ?n" using assms(1,3) by (cases ys) auto
  then have ceil: "ceil_len ?n sh = Suc q" using ceil_len_partial [OF lt assms(2)] by simp
  then have cap: "Suc q \<le> 2 ^ (d - sh)" using shards_in_cap [OF d(3,1)] by simp
  have live: "drop (q * 2 ^ sh) (xs @ ys) \<noteq> []" using lt by (simp only: drop_eq_Nil not_le)
  have root: "imt_root (imt_of ps sh 0 (drop (q * 2 ^ sh) (xs @ ys))) = Ok ?r"
    using assms(2) by (subst imt_root_eq) (auto simp: live_merkle_root simp del: drop_append)
  show ?thesis
  proof (cases "length xs = q * 2 ^ sh")
    case True
    then have c: "ceil_len (length xs) sh = q" by (simp add: ceil_len_full)
    have "imt_insert ps ?r (imt_of ps (d - sh) (zroot ps 0 sh) (shard_log_roots ps sh xs q)) =
        (Ok (), imt_of ps (d - sh) (zroot ps 0 sh) (shard_log_roots ps sh (xs @ ys) (ceil_len ?n sh)))"
      using d cap True imt_insert_eq [of "d - sh" "shard_log_roots ps sh xs q" ps ?r "zroot ps 0 sh"]
      unfolding ceil shard_log_roots_Suc by (simp add: shard_log_roots_append)
    then show ?thesis
      using live root c by (simp add: sharded_sync_live_root_def sm_simps del: drop_append)
  next
    case False
    then have c: "ceil_len (length xs) sh = Suc q"
      using ceil_len_partial [of q sh "length xs"] assms(1,2) by simp
    have "imt_update ps q ?r (imt_of ps (d - sh) (zroot ps 0 sh) (shard_log_roots ps sh xs (Suc q))) =
        (Ok (), imt_of ps (d - sh) (zroot ps 0 sh) (shard_log_roots ps sh (xs @ ys) (ceil_len ?n sh)))"
      using d cap assms(1) unfolding ceil
      by (simp add: imt_update_eq shard_log_roots_snoc_update)
    then show ?thesis
      using live root c by (simp add: sharded_sync_live_root_def sm_simps del: drop_append)
  qed
qed

section \<open>Rolling a full shard over\<close>

definition freeze_owned ::
    "('f :: zero list \<Rightarrow> 'f) \<Rightarrow> nat \<Rightarrow> nat \<Rightarrow> 'f list \<Rightarrow> 'f owned_witness \<Rightarrow> 'f owned_witness" where
  "freeze_owned ps sh q xs w =
     (if ow_leaf_index w div 2 ^ sh = q \<and> ow_siblings w = None
      then w\<lparr>ow_siblings := Some (tree_siblings ps (padded 0 (drop (q * 2 ^ sh) xs)) sh (ow_leaf_index w mod 2 ^ sh))\<rparr>
      else w)"

lemma live_leaf:
  assumes "i div 2 ^ sh = q" and "i < length xs"
  shows "i mod 2 ^ sh < length (drop (q * 2 ^ sh) xs)" "drop (q * 2 ^ sh) xs ! (i mod 2 ^ sh) = xs ! i"
proof -
  have i: "i = q * 2 ^ sh + i mod 2 ^ sh" using assms(1) by (metis div_mult_mod_eq)
  then have le: "q * 2 ^ sh \<le> i" by linarith
  show "i mod 2 ^ sh < length (drop (q * 2 ^ sh) xs)" unfolding length_drop using i assms(2) by linarith
  have "drop (q * 2 ^ sh) xs ! (i mod 2 ^ sh) = xs ! (q * 2 ^ sh + i mod 2 ^ sh)"
    using le assms(2) by (intro nth_drop) simp
  then show "drop (q * 2 ^ sh) xs ! (i mod 2 ^ sh) = xs ! i" using i by simp
qed

lemma map_fst_update: "k \<in> set (map fst al) \<Longrightarrow> map fst (AList.update k v al) = map fst al"
  by (simp add: update_keys)

lemma sharded_freeze_eq:
  assumes "map_of on k = Some w" and "witness_ok ps sh q xs w" and "length xs = (q + 1) * 2 ^ sh"
  shows "\<exists>on' dirty'. sharded_freeze q k () (st_mk ps d sh q xs on ol dirty) =
      (Ok (), st_mk ps d sh q xs on' ol dirty') \<and>
    map fst on' = map fst on \<and> map_of on' = (map_of on)(k \<mapsto> freeze_owned ps sh q xs w)"
proof (cases "ow_leaf_index w div 2 ^ sh = q \<and> ow_siblings w = None")
  case False
  then have "freeze_owned ps sh q xs w = w" by (auto simp: freeze_owned_def)
  moreover have "sharded_freeze q k () (st_mk ps d sh q xs on ol dirty) = (Ok (), st_mk ps d sh q xs on ol dirty)"
    using False assms(1) by (auto simp: sharded_freeze_def sret_def)
  ultimately show ?thesis using assms(1) by (metis fun_upd_triv)
next
  case True
  let ?i = "ow_leaf_index w"
  have lt: "?i < length xs"
    using True assms(3) dividend_less_div_times [of "2 ^ sh" ?i] by (simp add: algebra_simps)
  then have leaf: "xs ! ?i = ow_note_id w" using True assms(2) by (simp add: witness_ok_def)
  note at = live_leaf [OF conjunct1 [OF True] lt]
  have "length (drop (q * 2 ^ sh) xs) \<le> 2 ^ sh" using assms(3) by simp
  then have proof_eq: "imt_create_proof (imt_of ps sh 0 (drop (q * 2 ^ sh) xs)) (?i mod 2 ^ sh) =
      Ok (proof_of ps sh 0 (drop (q * 2 ^ sh) xs) (?i mod 2 ^ sh))"
    using at(1) by (rule imt_create_proof_eq)
  let ?on = "AList.update k (freeze_owned ps sh q xs w) on"
  have "sharded_freeze q k () (st_mk ps d sh q xs on ol dirty) =
      (Ok (), st_mk ps d sh q xs ?on ol (List.insert (ow_note_id w) dirty))"
    using True assms(1) at leaf proof_eq
    by (simp add: sharded_freeze_def sm_simps Let_def imt_leaf_eq freeze_owned_def proof_of_def)
  moreover have "k \<in> set (map fst on)" using assms(1) by (metis domI dom_map_of_conv_image_fst set_map)
  ultimately show ?thesis using map_fst_update update_conv' by metis
qed

lemma sharded_freeze_loop:
  assumes "length xs = (q + 1) * 2 ^ sh" and "distinct ks"
    and "\<forall>k \<in> set ks. \<exists>w. map_of on k = Some w \<and> witness_ok ps sh q xs w"
  shows "\<exists>on' dirty'. sfold ks (sharded_freeze q) () (st_mk ps d sh q xs on ol dirty) =
      (Ok (), st_mk ps d sh q xs on' ol dirty') \<and> map fst on' = map fst on \<and>
    (\<forall>k. map_of on' k = (if k \<in> set ks then map_option (freeze_owned ps sh q xs) (map_of on k) else map_of on k))"
  using assms(2,3)
proof (induction ks arbitrary: on dirty)
  case Nil
  then show ?case by (auto simp: sret_def)
next
  case (Cons k ks)
  then obtain w where w: "map_of on k = Some w" "witness_ok ps sh q xs w" by auto
  obtain on1 dirty1 where 1: "sharded_freeze q k () (st_mk ps d sh q xs on ol dirty) =
        (Ok (), st_mk ps d sh q xs on1 ol dirty1)"
      "map fst on1 = map fst on" "map_of on1 = (map_of on)(k \<mapsto> freeze_owned ps sh q xs w)"
    using sharded_freeze_eq [OF w assms(1)] by blast
  have "\<forall>k' \<in> set ks. \<exists>w. map_of on1 k' = Some w \<and> witness_ok ps sh q xs w"
    using Cons.prems 1(3) by auto
  from Cons.IH [of on1 dirty1, OF _ this] obtain on' dirty' where 2: "sfold ks (sharded_freeze q) () (st_mk ps d sh q xs on1 ol dirty1) =
        (Ok (), st_mk ps d sh q xs on' ol dirty')" "map fst on' = map fst on1"
      "\<forall>k. map_of on' k = (if k \<in> set ks then map_option (freeze_owned ps sh q xs) (map_of on1 k) else map_of on1 k)"
    using Cons.prems(1) by auto
  have "sfold (k # ks) (sharded_freeze q) () (st_mk ps d sh q xs on ol dirty) = (Ok (), st_mk ps d sh q xs on' ol dirty')"
    using 1(1) 2(1) by simp
  moreover have "map_of on' k' = (if k' \<in> set (k # ks) then map_option (freeze_owned ps sh q xs) (map_of on k') else map_of on k')" for k'
    using 2(3) 1(3) w(1) Cons.prems(1) by auto
  ultimately show ?case using 1(2) 2(2) by metis
qed

lemma witness_ok_freeze:
  assumes "witness_ok ps sh q xs w" and "length xs = (q + 1) * 2 ^ sh"
  shows "witness_ok ps sh (q + 1) xs (freeze_owned ps sh q xs w)"
proof (cases "ow_leaf_index w div 2 ^ sh = q \<and> ow_siblings w = None")
  case True
  let ?i = "ow_leaf_index w" and ?f = "padded 0 (drop (q * 2 ^ sh) xs)"
  have lt: "?i < length xs" "?i < (q + 1) * 2 ^ sh"
    using True assms(2) dividend_less_div_times [of "2 ^ sh" ?i] by (simp_all add: algebra_simps)
  have "?f (?i mod 2 ^ sh) = ow_note_id w"
    using live_leaf [OF conjunct1 [OF True] lt(1)] True assms(1) lt(1) by (simp add: witness_ok_def)
  then have "path_node ps (ow_note_id w) (?i mod 2 ^ sh) (tree_siblings ps ?f sh (?i mod 2 ^ sh)) sh =
      subtree_root ps ?f sh 0"
    using path_node_tree_siblings [of sh sh ps ?f "?i mod 2 ^ sh"] by simp
  then show ?thesis using True lt by (simp add: witness_ok_def freeze_owned_def live_subtree)
next
  case False
  then have w: "freeze_owned ps sh q xs w = w" by (auto simp: freeze_owned_def)
  show ?thesis
  proof (cases "ow_siblings w")
    case None
    with False have "ow_leaf_index w div 2 ^ sh \<noteq> q" by simp
    moreover have "q \<le> ow_leaf_index w div 2 ^ sh"
      using None assms(1) div_le_mono [of "q * 2 ^ sh" "ow_leaf_index w" "2 ^ sh"] by (simp add: witness_ok_def)
    ultimately have "q + 1 \<le> ow_leaf_index w div 2 ^ sh" by simp
    then have "(q + 1) * 2 ^ sh \<le> ow_leaf_index w" by (simp add: less_eq_div_iff_mult_less_eq del: mult_Suc)
    then show ?thesis using None assms w by (simp add: witness_ok_def)
  next
    case (Some ss)
    then show ?thesis using assms(1) w by (auto simp: witness_ok_def)
  qed
qed

lemma freeze_owned_simps [simp]:
  "ow_note_id (freeze_owned ps sh q xs w) = ow_note_id w"
  "ow_leaf_index (freeze_owned ps sh q xs w) = ow_leaf_index w"
  by (simp_all add: freeze_owned_def)

lemma sharded_roll_over_eq:
  assumes "owned_ok ps d sh q xs on ol" and "length xs = (q + 1) * 2 ^ sh" and "sharded_fits d sh xs"
  shows "\<exists>on' dirty'. sharded_roll_over ps (st_mk ps d sh q xs on ol dirty) =
      (Ok (), st_mk ps d sh (q + 1) xs on' ol dirty') \<and> owned_ok ps d sh (q + 1) xs on' ol"
proof -
  have keys: "\<forall>k \<in> set (map fst on). \<exists>w. map_of on k = Some w \<and> witness_ok ps sh q xs w"
  proof
    fix k assume "k \<in> set (map fst on)"
    then obtain w where "map_of on k = Some w" by (metis domD dom_map_of_conv_image_fst set_map)
    then show "\<exists>w. map_of on k = Some w \<and> witness_ok ps sh q xs w" using assms(1) by (auto simp: owned_ok_def)
  qed
  have "distinct (map fst on)" using assms(1) by (simp add: owned_ok_def)
  from sharded_freeze_loop [OF assms(2) this keys, of d ol dirty] obtain on' dirty' where
      loop: "sfold (map fst on) (sharded_freeze q) () (st_mk ps d sh q xs on ol dirty) =
        (Ok (), st_mk ps d sh q xs on' ol dirty')" "map fst on' = map fst on"
      "\<forall>k. map_of on' k = (if k \<in> set (map fst on) then map_option (freeze_owned ps sh q xs) (map_of on k) else map_of on k)"
    by blast
  have M: "map_of on' k = map_option (freeze_owned ps sh q xs) (map_of on k)" for k
  proof (cases "k \<in> set (map fst on)")
    case False
    then have "map_of on k = None" by (simp add: map_of_eq_None_iff)
    with False loop(3) show ?thesis by simp
  qed (use loop(3) in simp)
  have "drop ((q + 1) * 2 ^ sh) xs = []" using assms(2) by simp
  moreover have "imt_root (imt_of ps sh 0 (drop (q * 2 ^ sh) xs)) = Ok (subtree_root ps (padded 0 xs) sh q)"
    using assms(2) by (subst imt_root_eq) (auto simp: live_merkle_root)
  ultimately have "sharded_roll_over ps (st_mk ps d sh q xs on ol dirty) = (Ok (), st_mk ps d sh (q + 1) xs on' ol dirty')"
    using loop(1) assms(3)
    by (simp add: sharded_roll_over_def sm_simps Let_def sharded_fits_def imt_new_eq)
      (simp add: st_mk_def shard_log_roots_Suc)
  moreover have "owned_ok ps d sh (q + 1) xs on' ol"
    using assms(1) witness_ok_freeze [OF _ assms(2)] unfolding owned_ok_def loop(2) M
    by (fastforce simp del: map_of_eq_Some_iff Some_eq_map_of_iff)
  ultimately show ?thesis by blast
qed

section \<open>Appending\<close>

text \<open>The owned notes at the appended positions must be the appended ids.\<close>

definition incoming_ok :: "(nat \<times> 'f) list \<Rightarrow> nat \<Rightarrow> 'f list \<Rightarrow> bool" where
  "incoming_ok ol n ys \<longleftrightarrow> (\<forall>j < length ys. map_of ol (n + j) \<in> {None, Some (ys ! j)})"

lemma owned_by_other_mk:
  "owned_by_other (st_mk ps d sh q xs on ol dirty) i k \<longleftrightarrow> map_of ol i \<notin> {None, Some k}"
  by (auto simp: owned_by_other_def split: option.splits)

lemma owned_ok_extend:
  assumes "owned_ok ps d sh q xs on ol" and "incoming_ok ol (length xs) ys" and "q * 2 ^ sh \<le> length xs"
  shows "owned_ok ps d sh q (xs @ ys) on ol"
proof -
  have "witness_ok ps sh q (xs @ ys) w" if w: "map_of on k = Some w" for k w
  proof -
    let ?i = "ow_leaf_index w"
    have ok: "witness_ok ps sh q xs w" "map_of ol ?i = Some (ow_note_id w)"
      using assms(1) w by (auto simp: owned_ok_def simp del: map_of_eq_Some_iff)
    show ?thesis
    proof (cases "ow_siblings w")
      case None
      have "(xs @ ys) ! ?i = ow_note_id w" if "?i < length (xs @ ys)"
      proof (cases "?i < length xs")
        case True
        then show ?thesis using ok(1) None by (simp add: witness_ok_def nth_append)
      next
        case False
        then have "?i = length xs + (?i - length xs)" "?i - length xs < length ys" using that by simp_all
        then show ?thesis using assms(2) ok(2) False by (auto simp: incoming_ok_def nth_append)
      qed
      then show ?thesis using None ok(1) by (simp add: witness_ok_def)
    next
      case (Some ss)
      then have lt: "?i < q * 2 ^ sh" using ok(1) by (simp add: witness_ok_def)
      then have "?i div 2 ^ sh + 1 \<le> q" by (simp add: div_less_iff_less_mult less_eq_Suc_le [symmetric])
      then have "(?i div 2 ^ sh + 1) * 2 ^ sh \<le> q * 2 ^ sh" by (rule mult_le_mono1)
      then have "(?i div 2 ^ sh + 1) * 2 ^ sh \<le> length xs" using assms(3) by simp
      then show ?thesis using Some ok(1) by (simp add: witness_ok_def subtree_root_append)
    qed
  qed
  then show ?thesis using assms(1) unfolding owned_ok_def by blast
qed

definition finish_append :: "('f :: zero list \<Rightarrow> 'f) \<Rightarrow> ('f sharded_tree, unit, tree_error) sm" where
  "finish_append ps = sbind (sharded_sync_live_root ps) (\<lambda>_ s.
     (if length (st_live_leaves s) = st_shard_size s then sharded_roll_over ps else sret ()) s)"

text \<open>What every append does once its leaves are in the live shard.\<close>

lemma finish_append_rep:
  assumes "owned_ok ps d sh q xs on ol" and "incoming_ok ol (length xs) ys"
    and "q * 2 ^ sh \<le> length xs" and "length (xs @ ys) \<le> (q + 1) * 2 ^ sh" and "ys \<noteq> []"
    and "sharded_fits d sh (xs @ ys)"
  shows "\<exists>s'. finish_append ps (st_stale ps d sh q xs ys on ol dirty) = (Ok (), s') \<and>
    sharded_rep ps d sh (xs @ ys) s' \<and> st_owned_leaves s' = ol"
proof -
  let ?n = "length (xs @ ys)" and ?mk = "st_mk ps d sh q (xs @ ys) on ol dirty"
  note sync = sync_live_root_eq [OF assms(3-6), of ps on ol dirty]
  have own: "owned_ok ps d sh q (xs @ ys) on ol" using assms(1-3) by (rule owned_ok_extend)
  have le: "q * 2 ^ sh \<le> ?n" using assms(3) by simp
  show ?thesis
  proof (cases "?n = (q + 1) * 2 ^ sh")
    case True
    then have "?n div 2 ^ sh = q + 1" by simp
    moreover obtain on' dirty' where "sharded_roll_over ps ?mk = (Ok (), st_mk ps d sh (q + 1) (xs @ ys) on' ol dirty')"
        "owned_ok ps d sh (q + 1) (xs @ ys) on' ol"
      using sharded_roll_over_eq [OF own True assms(6)] by blast
    moreover have "length (drop (q * 2 ^ sh) (xs @ ys)) = 2 ^ sh" using True unfolding length_drop by simp
    ultimately show ?thesis
      using sync assms(6) sharded_repI [of d sh "xs @ ys" ps on' ol dirty']
      by (simp add: finish_append_def del: drop_append length_drop length_append)
  next
    case False
    then have lt: "?n < (q + 1) * 2 ^ sh" using assms(4) by simp
    then have q: "?n div 2 ^ sh = q" using le by (intro div_nat_eqI) (simp_all add: mult.commute)
    have "length (drop (q * 2 ^ sh) (xs @ ys)) \<noteq> 2 ^ sh" using lt le unfolding length_drop by simp
    then show ?thesis
      using sync assms(6) own q sharded_repI [of d sh "xs @ ys" ps on ol dirty]
      by (simp add: finish_append_def sret_def del: drop_append length_drop length_append)
  qed
qed

lemma shard_bounds:
  fixes n :: nat
  shows "n div 2 ^ sh * 2 ^ sh \<le> n" "n < (n div 2 ^ sh + 1) * 2 ^ sh"
  using dividend_less_div_times [of "2 ^ sh" n] by simp_all

lemma stale_of_live:
  assumes "q * 2 ^ sh \<le> length xs"
  shows "st_live_leaves_update (\<lambda>ls. ls @ ys) (st_live_update (\<lambda>_. imt_of ps sh 0 (drop (q * 2 ^ sh) (xs @ ys)))
      (st_mk ps d sh q xs on ol dirty)) = st_stale ps d sh q xs ys on ol dirty"
  using assms by (simp add: st_stale_def st_mk_def shard_log_roots_append)

lemma sharded_append_cases:
  assumes "sharded_rep ps d sh xs s"
  shows "length xs = 2 ^ d \<longrightarrow> sharded_append ps x s = (Err (TreeFull d), s)"
    and "length xs \<noteq> 2 ^ d \<longrightarrow> owned_by_other s (length xs) x \<longrightarrow>
      sharded_append ps x s = (Err (OwnedLeafMismatch (length xs)), s)"
    and "length xs \<noteq> 2 ^ d \<longrightarrow> \<not> owned_by_other s (length xs) x \<longrightarrow>
      (\<exists>s'. sharded_append ps x s = (Ok (), s') \<and> sharded_rep ps d sh (xs @ [x]) s')"
proof -
  from assms obtain q on ol dirty where s: "q = length xs div 2 ^ sh" "s = st_mk ps d sh q xs on ol dirty"
      "owned_ok ps d sh q xs on ol" "0 < sh" "sh < d" "d < 64" "length xs \<le> 2 ^ d" by (rule sharded_repE)
  have q: "q * 2 ^ sh \<le> length xs" "length xs < (q + 1) * 2 ^ sh" using s(1) shard_bounds by blast+
  have count: "sharded_leaf_count s = length xs" using s(2) q(1) by (simp add: sharded_leaf_count_eq)
  have room: "sharded_ensure_room 1 s = (if length xs = 2 ^ d then Err (TreeFull d) else Ok ())"
    using s count by (auto simp: sharded_ensure_room_def guard_def)
  have "\<exists>s'. sharded_append ps x s = (Ok (), s') \<and> sharded_rep ps d sh (xs @ [x]) s'"
    if "length xs < 2 ^ d" "\<not> owned_by_other s (length xs) x"
  proof -
    have fits: "sharded_fits d sh (xs @ [x])" using s that by (simp add: sharded_fits_def)
    have inc: "incoming_ok ol (length xs) [x]" using that(2) s(2) by (simp add: incoming_ok_def owned_by_other_mk)
    have "length (drop (q * 2 ^ sh) xs) < 2 ^ sh" using q unfolding length_drop by simp
    then have live: "imt_insert ps x (st_live s) = (Ok (), imt_of ps sh 0 (drop (q * 2 ^ sh) (xs @ [x])))"
      using s q(1) by (simp add: imt_insert_eq)
    have "sharded_append ps x s = finish_append ps (st_stale ps d sh q xs [x] on ol dirty)"
      using that room count live s(2) stale_of_live [OF q(1), of "[x]" ps d on ol dirty]
      by (simp add: sharded_append_def sbind_def slift_def smodify_def zoom_live_def szoom_def finish_append_def
          sharded_validate_incoming_def)
    then show ?thesis
      using finish_append_rep [OF s(3) inc q(1) _ _ fits, of dirty] q(2) by auto
  qed
  then show "length xs \<noteq> 2 ^ d \<longrightarrow> \<not> owned_by_other s (length xs) x \<longrightarrow>
      (\<exists>s'. sharded_append ps x s = (Ok (), s') \<and> sharded_rep ps d sh (xs @ [x]) s')"
    using s by simp
  show "length xs = 2 ^ d \<longrightarrow> sharded_append ps x s = (Err (TreeFull d), s)"
    using room by (simp add: sharded_append_def sm_simps)
  show "length xs \<noteq> 2 ^ d \<longrightarrow> owned_by_other s (length xs) x \<longrightarrow>
      sharded_append ps x s = (Err (OwnedLeafMismatch (length xs)), s)"
    using room count by (simp add: sharded_append_def sm_simps sharded_validate_incoming_def)
qed

section \<open>Appending a batch\<close>

lemma incoming_ok_take: "incoming_ok ol n ys \<Longrightarrow> incoming_ok ol n (take k ys)"
  by (simp add: incoming_ok_def)

lemma incoming_ok_drop:
  "incoming_ok ol n ys \<Longrightarrow> k \<le> length ys \<Longrightarrow> incoming_ok ol (n + k) (drop k ys)"
  unfolding incoming_ok_def
proof (intro allI impI)
  fix j assume all: "\<forall>j<length ys. map_of ol (n + j) \<in> {None, Some (ys ! j)}"
    and "k \<le> length ys" and "j < length (drop k ys)"
  then have "k + j < length ys" by simp
  with all have "map_of ol (n + (k + j)) \<in> {None, Some (ys ! (k + j))}" by blast
  then show "map_of ol (n + k + j) \<in> {None, Some (drop k ys ! j)}"
    using \<open>k \<le> length ys\<close> by (simp only: add.assoc nth_drop)
qed

lemma live_inserts_eq:
  assumes "length (ls @ segment) \<le> 2 ^ sh" and "sh < 64" and "st_live s = imt_of ps sh 0 ls"
  shows "sfold segment (\<lambda>note_id _. zoom_live (imt_insert ps note_id)) () s =
    (Ok (), st_live_update (\<lambda>_. imt_of ps sh 0 (ls @ segment)) s)"
  using assms
proof (induction segment arbitrary: ls s)
  case Nil
  then show ?case by (cases s) (simp add: sret_def)
next
  case (Cons y segment)
  let ?s = "st_live_update (\<lambda>_. imt_of ps sh 0 (ls @ [y])) s"
  have "zoom_live (imt_insert ps y) s = (Ok (), ?s)"
    using Cons.prems by (simp add: zoom_live_def szoom_def imt_insert_eq)
  moreover have "sfold segment (\<lambda>note_id _. zoom_live (imt_insert ps note_id)) () ?s =
      (Ok (), st_live_update (\<lambda>_. imt_of ps sh 0 ((ls @ [y]) @ segment)) ?s)"
    using Cons.prems by (intro Cons.IH) simp_all
  ultimately show ?case by simp
qed

text \<open>Rebuilding and inserting reach the same live shard, whichever is cheaper.\<close>

lemma sharded_append_segment_eq:
  assumes "q * 2 ^ sh \<le> length xs" and "length (xs @ ys) \<le> (q + 1) * 2 ^ sh" and "sh < 64"
  shows "sharded_append_segment ps ys (st_mk ps d sh q xs on ol dirty) =
    finish_append ps (st_stale ps d sh q xs ys on ol dirty)"
proof -
  let ?s = "st_mk ps d sh q xs on ol dirty" and ?ls = "drop (q * 2 ^ sh) xs"
  let ?s1 = "st_live_leaves_update (\<lambda>ls. ls @ ys) ?s"
  have app: "drop (q * 2 ^ sh) (xs @ ys) = ?ls @ ys" using assms(1) by simp
  have len: "length (?ls @ ys) \<le> 2 ^ sh" using assms(1,2) by simp
  have "imt_from_leaves ps sh (?ls @ ys) = Ok (imt_of ps sh 0 (?ls @ ys))"
    unfolding imt_from_leaves_def using assms(3) len by (rule imt_from_leaves_with_zero_eq)
  moreover have "sfold ys (\<lambda>note_id _. zoom_live (imt_insert ps note_id)) () ?s1 =
      (Ok (), st_live_update (\<lambda>_. imt_of ps sh 0 (?ls @ ys)) ?s1)"
    using len assms(3) by (rule live_inserts_eq) simp
  moreover have "st_live_update (\<lambda>_. imt_of ps sh 0 (?ls @ ys)) ?s1 = st_stale ps d sh q xs ys on ol dirty"
    using assms(1) by (simp add: st_stale_def st_mk_def shard_log_roots_append)
  ultimately show ?thesis
    unfolding sharded_append_segment_def Let_def finish_append_def
    by (simp add: sbind_def slift_def smodify_def)
qed

lemma sharded_append_loop_rep:
  assumes "sharded_rep ps d sh xs s" and "length (xs @ ys) \<le> 2 ^ d"
    and "incoming_ok (st_owned_leaves s) (length xs) ys"
  shows "\<exists>s'. sharded_append_loop ps ys s = Some (Ok (), s') \<and> sharded_rep ps d sh (xs @ ys) s'"
  using assms
proof (induction "length ys" arbitrary: xs ys s rule: less_induct)
  case less
  show ?case
  proof (cases "ys = []")
    case True
    then show ?thesis using less.prems by (simp add: sharded_append_loop.simps)
  next
    case False
    from less.prems(1) obtain q on ol dirty where s: "q = length xs div 2 ^ sh" "s = st_mk ps d sh q xs on ol dirty"
      "owned_ok ps d sh q xs on ol" "0 < sh" "sh < d" "d < 64" "length xs \<le> 2 ^ d" by (rule sharded_repE)
    have q: "q * 2 ^ sh \<le> length xs" "length xs < (q + 1) * 2 ^ sh" using s(1) shard_bounds by blast+
    define n where "n = min (st_shard_size s - length (st_live_leaves s)) (length ys)"
    have room: "st_shard_size s - length (st_live_leaves s) = (q + 1) * 2 ^ sh - length xs"
      using s(2) q by simp
    have n: "0 < n" "n \<le> length ys" "length xs + n \<le> (q + 1) * 2 ^ sh"
      using False q(2) unfolding n_def room by (cases ys, simp_all)
    have inc: "incoming_ok ol (length xs) ys" using less.prems(3) s(2) by simp
    have fits: "sharded_fits d sh (xs @ take n ys)" using s n less.prems(2) by (simp add: sharded_fits_def)
    have seg: "length (xs @ take n ys) \<le> (q + 1) * 2 ^ sh" "take n ys \<noteq> []" "sh < 64"
      using n s False by simp_all
    obtain s1 where s1: "sharded_append_segment ps (take n ys) s = (Ok (), s1)" "sharded_rep ps d sh (xs @ take n ys) s1"
        and ol: "st_owned_leaves s1 = ol"
      using finish_append_rep [OF s(3) incoming_ok_take [OF inc, of n] q(1) seg(1,2) fits, of dirty]
        sharded_append_segment_eq [OF q(1) seg(1,3), of ps d on ol dirty] s(2) by auto
    have "\<exists>s'. sharded_append_loop ps (drop n ys) s1 = Some (Ok (), s') \<and>
        sharded_rep ps d sh ((xs @ take n ys) @ drop n ys) s'"
    proof (rule less.hyps)
      show "length (drop n ys) < length ys" using n by simp
      show "length ((xs @ take n ys) @ drop n ys) \<le> 2 ^ d" using less.prems(2) by simp
      show "incoming_ok (st_owned_leaves s1) (length (xs @ take n ys)) (drop n ys)"
        using incoming_ok_drop [OF inc n(2)] ol n(2) by (simp add: min_absorb2)
    qed (rule s1(2))
    then show ?thesis
      using False s1(1) by (subst sharded_append_loop.simps) (simp add: Let_def flip: n_def)
  qed
qed

lemma validate_batch:
  "rfold (enumerate k ys) (\<lambda>(offset, note_id) _. sharded_validate_incoming s (n + offset) note_id) () =
    (case List.find (\<lambda>(offset, note_id). owned_by_other s (n + offset) note_id) (enumerate k ys) of
       None \<Rightarrow> Ok () | Some (offset, _) \<Rightarrow> Err (OwnedLeafMismatch (n + offset)))"
  by (induction ys arbitrary: k) (auto simp: sharded_validate_incoming_def guard_def)

lemma incoming_ok_iff:
  "incoming_ok (st_owned_leaves s) n ys \<longleftrightarrow>
    List.find (\<lambda>(offset, note_id). owned_by_other s (n + offset) note_id) (enumerate 0 ys) = None"
  unfolding find_None_iff incoming_ok_def owned_by_other_def
  by (auto simp: in_set_enumerate_eq split: option.splits) (metis not_None_eq option.inject)+

lemma sharded_append_many_cases:
  assumes "sharded_rep ps d sh xs s"
  shows "2 ^ d < length (xs @ ys) \<longrightarrow> sharded_append_many ps ys s = Some (Err (TreeFull d), s)"
    and "length (xs @ ys) \<le> 2 ^ d \<longrightarrow> \<not> incoming_ok (st_owned_leaves s) (length xs) ys \<longrightarrow>
      (\<exists>i. sharded_append_many ps ys s = Some (Err (OwnedLeafMismatch i), s))"
    and "length (xs @ ys) \<le> 2 ^ d \<longrightarrow> incoming_ok (st_owned_leaves s) (length xs) ys \<longrightarrow>
      (\<exists>s'. sharded_append_many ps ys s = Some (Ok (), s') \<and> sharded_rep ps d sh (xs @ ys) s')"
proof -
  from assms obtain q on ol dirty where s: "q = length xs div 2 ^ sh" "s = st_mk ps d sh q xs on ol dirty"
      "owned_ok ps d sh q xs on ol" "0 < sh" "sh < d" "d < 64" "length xs \<le> 2 ^ d" by (rule sharded_repE)
  have q: "q * 2 ^ sh \<le> length xs" using s(1) shard_bounds by blast
  have count: "sharded_leaf_count s = length xs" using s(2) q by (simp add: sharded_leaf_count_eq)
  have room: "sharded_ensure_room (length ys) s = (if 2 ^ d < length (xs @ ys) then Err (TreeFull d) else Ok ())"
    using s count by (auto simp: sharded_ensure_room_def guard_def)
  show "2 ^ d < length (xs @ ys) \<longrightarrow> sharded_append_many ps ys s = Some (Err (TreeFull d), s)"
    using room by (simp add: sharded_append_many_def)
  show "length (xs @ ys) \<le> 2 ^ d \<longrightarrow> \<not> incoming_ok (st_owned_leaves s) (length xs) ys \<longrightarrow>
      (\<exists>i. sharded_append_many ps ys s = Some (Err (OwnedLeafMismatch i), s))"
    using room count by (auto simp: sharded_append_many_def validate_batch incoming_ok_iff)
  show "length (xs @ ys) \<le> 2 ^ d \<longrightarrow> incoming_ok (st_owned_leaves s) (length xs) ys \<longrightarrow>
      (\<exists>s'. sharded_append_many ps ys s = Some (Ok (), s') \<and> sharded_rep ps d sh (xs @ ys) s')"
  proof (intro impI)
    assume fits: "length (xs @ ys) \<le> 2 ^ d" and inc: "incoming_ok (st_owned_leaves s) (length xs) ys"
    have "sharded_append_many ps ys s = sharded_append_loop ps ys s"
      using room count fits inc by (simp add: sharded_append_many_def validate_batch incoming_ok_iff)
    then show "\<exists>s'. sharded_append_many ps ys s = Some (Ok (), s') \<and> sharded_rep ps d sh (xs @ ys) s'"
      using sharded_append_loop_rep [OF assms fits inc] by simp
  qed
qed

section \<open>Owned notes\<close>

lemma map_of_update_iff [simp]: "map_of (AList.update k v al) = (map_of al)(k \<mapsto> v)"
  by (rule update_conv')

lemma owned_ok_replace:
  assumes "owned_ok ps d sh q xs on ol" and "\<forall>v. map_of on k = Some v \<longrightarrow> ow_leaf_index v = i"
    and "map_of ol i \<in> {None, Some k}"
    and "ow_note_id w = k" and "ow_leaf_index w = i" and "i < 2 ^ d" and "witness_ok ps sh q xs w"
  shows "owned_ok ps d sh q xs (AList.update k w on) (AList.update i k ol)"
proof -
  have "map_of ol j \<noteq> Some k" if "j \<noteq> i" for j
    using assms(1,2) that unfolding owned_ok_def by metis
  moreover have "ow_leaf_index v \<noteq> i" if "map_of on k' = Some v" "k' \<noteq> k" for k' v
    using assms(1,3) that unfolding owned_ok_def by (metis insertE option.distinct(1) option.inject singletonD)
  ultimately show ?thesis
    using assms(1,4-7) unfolding owned_ok_def map_of_update_iff
    by (auto simp: distinct_update simp del: map_of_eq_Some_iff Some_eq_map_of_iff)
qed

lemma sharded_mark_owned_rep:
  assumes "sharded_rep ps d sh xs s"
  shows "sharded_rep ps d sh xs (snd (sharded_mark_owned note i s)) \<and>
    fst (sharded_mark_owned note i s) \<noteq> Panic \<and>
    (\<forall>e. fst (sharded_mark_owned note i s) = Err e \<longrightarrow> snd (sharded_mark_owned note i s) = s)"
proof -
  from assms obtain q on ol dirty where s: "q = length xs div 2 ^ sh" "s = st_mk ps d sh q xs on ol dirty"
      "owned_ok ps d sh q xs on ol" "0 < sh" "sh < d" "d < 64" "length xs \<le> 2 ^ d" by (rule sharded_repE)
  have q: "q * 2 ^ sh \<le> length xs" using s(1) shard_bounds by blast
  have count: "sharded_leaf_count s = length xs" using s(2) q by (simp add: sharded_leaf_count_eq)
  let ?w = "\<lparr>ow_note_id = note, ow_leaf_index = i, ow_siblings = None\<rparr>"
  let ?go = "i < 2 ^ d \<and> q \<le> i div 2 ^ sh \<and> map_of on note = None \<and> map_of ol i \<in> {None, Some note} \<and>
    (i < length xs \<longrightarrow> imt_leaf (st_live s) (i mod 2 ^ sh) = Some note)"
  have run: "sharded_mark_owned note i s =
      (if ?go then (Ok (), st_mk ps d sh q xs (AList.update note ?w on) (AList.update i note ol) (List.insert note dirty))
       else (fst (sharded_mark_owned note i s), s)) \<and> fst (sharded_mark_owned note i s) \<noteq> Panic"
    using s count
    by (auto simp: sharded_mark_owned_def sm_simps Let_def guard_def owned_by_other_mk split: option.splits)
  have "owned_ok ps d sh q xs (AList.update note ?w on) (AList.update i note ol)" if go: ?go
  proof (rule owned_ok_replace [OF s(3)])
    have "xs ! i = note" if "i < length xs"
    proof -
      have "i div 2 ^ sh = q" using go that s(1) by (simp add: div_le_mono le_antisym)
      from live_leaf [OF this that] show ?thesis using go that s(2) by (simp add: imt_leaf_eq)
    qed
    moreover have "q * 2 ^ sh \<le> i" using go by (simp add: less_eq_div_iff_mult_less_eq)
    ultimately show "witness_ok ps sh q xs ?w" by (simp add: witness_ok_def)
  qed (use go in auto)
  then have own: "owned_ok ps d sh q xs (AList.update note ?w on) (AList.update i note ol)" if ?go using that .
  show ?thesis
  proof (cases ?go)
    case True
    have "sharded_mark_owned note i s =
        (Ok (), st_mk ps d sh q xs (AList.update note ?w on) (AList.update i note ol) (List.insert note dirty))"
      using run unfolding if_P [OF True] by blast
    moreover have "sharded_rep ps d sh xs
        (st_mk ps d sh q xs (AList.update note ?w on) (AList.update i note ol) (List.insert note dirty))"
      using sharded_repI [of d sh xs ps] own [OF True] s by (simp add: sharded_fits_def)
    ultimately show ?thesis by simp
  next
    case False
    have "sharded_mark_owned note i s = (fst (sharded_mark_owned note i s), s)"
      using run unfolding if_not_P [OF False] by blast
    then have "snd (sharded_mark_owned note i s) = s" by (metis snd_conv)
    then show ?thesis using assms run by metis
  qed
qed

lemma sharded_unmark_owned_rep:
  assumes "sharded_rep ps d sh xs s"
  shows "sharded_rep ps d sh xs (snd (sharded_unmark_owned note s))"
    and "map_of (st_owned_notes (snd (sharded_unmark_owned note s))) = (map_of (st_owned_notes s))(note := None)"
    and "st_live_leaves (snd (sharded_unmark_owned note s)) = st_live_leaves s"
proof -
  from assms obtain q on ol dirty where s: "q = length xs div 2 ^ sh" "s = st_mk ps d sh q xs on ol dirty"
      "owned_ok ps d sh q xs on ol" "0 < sh" "sh < d" "d < 64" "length xs \<le> 2 ^ d" by (rule sharded_repE)
  have own: "owned_ok ps d sh q xs (AList.delete note on) (AList.delete (ow_leaf_index w) ol)"
    if "map_of on note = Some w" for w
  proof -
    let ?i = "ow_leaf_index w"
    have at_i: "map_of ol ?i = Some note" using s(3) that unfolding owned_ok_def by blast
    have "ow_leaf_index v \<noteq> ?i" if "map_of on k = Some v" "k \<noteq> note" for k v
      using s(3) that at_i unfolding owned_ok_def by (metis option.inject)
    moreover have "k \<noteq> note" if "map_of ol j = Some k" "j \<noteq> ?i" for j k
      using s(3) that \<open>map_of on note = Some w\<close> unfolding owned_ok_def by (metis option.inject)
    ultimately show ?thesis
      using s(3) unfolding owned_ok_def delete_conv'
      by (auto simp: distinct_delete simp del: map_of_eq_Some_iff Some_eq_map_of_iff)
  qed
  show "sharded_rep ps d sh xs (snd (sharded_unmark_owned note s))"
    using s own sharded_repI [of d sh xs ps]
    by (auto simp: sharded_unmark_owned_def Let_def sharded_fits_def split: option.splits)
  show "map_of (st_owned_notes (snd (sharded_unmark_owned note s))) = (map_of (st_owned_notes s))(note := None)"
    using s(2) by (auto simp: sharded_unmark_owned_def Let_def delete_conv' split: option.splits)
  show "st_live_leaves (snd (sharded_unmark_owned note s)) = st_live_leaves s"
    using s(2) by (auto simp: sharded_unmark_owned_def Let_def split: option.splits)
qed

lemma frozen_loop_eq: "frozen_loop ps sibs node i = fst (verify_loop ps sibs node i)"
  by (induction sibs arbitrary: node i) simp_all

lemma verify_frozen_path_Ok_iff:
  "sharded_verify_frozen_path ps (st_mk ps d sh q xs on ol dirty) note i ss = Ok () \<longleftrightarrow>
    length ss = sh \<and> i div 2 ^ sh < q \<and>
    path_node ps note (i mod 2 ^ sh) ss sh = subtree_root ps (padded 0 xs) sh (i div 2 ^ sh)"
  by (auto simp: sharded_verify_frozen_path_def rbind_Ok_iff Let_def get_Some_iff frozen_loop_eq verify_loop_eq)

lemma verify_frozen_path_no_Panic: "sharded_verify_frozen_path ps s note i ss \<noteq> Panic"
  by (simp add: sharded_verify_frozen_path_def rbind_Panic_iff Let_def)

lemma sharded_adopt_rep:
  assumes "sharded_rep ps d sh xs s"
  shows "sharded_rep ps d sh xs (snd (sharded_adopt_frozen_witness ps note i ss s)) \<and>
    fst (sharded_adopt_frozen_witness ps note i ss s) \<noteq> Panic \<and>
    (\<forall>e. fst (sharded_adopt_frozen_witness ps note i ss s) = Err e \<longrightarrow>
       snd (sharded_adopt_frozen_witness ps note i ss s) = s)"
proof -
  from assms obtain q on ol dirty where s: "q = length xs div 2 ^ sh" "s = st_mk ps d sh q xs on ol dirty"
      "owned_ok ps d sh q xs on ol" "0 < sh" "sh < d" "d < 64" "length xs \<le> 2 ^ d" by (rule sharded_repE)
  let ?w = "\<lparr>ow_note_id = note, ow_leaf_index = i, ow_siblings = Some ss\<rparr>"
  let ?go = "i div 2 ^ sh < q \<and> (\<forall>w. map_of on note = Some w \<longrightarrow> ow_leaf_index w = i) \<and>
    map_of ol i \<in> {None, Some note} \<and> sharded_verify_frozen_path ps s note i ss = Ok ()"
  let ?s' = "st_mk ps d sh q xs (AList.update note ?w on) (AList.update i note ol) (List.insert note dirty)"
  have run: "sharded_adopt_frozen_witness ps note i ss s =
      (if ?go then (Ok (), ?s') else (fst (sharded_adopt_frozen_witness ps note i ss s), s)) \<and>
    fst (sharded_adopt_frozen_witness ps note i ss s) \<noteq> Panic"
    using s(2) verify_frozen_path_no_Panic [of ps s "note" i ss]
    by (cases "sharded_verify_frozen_path ps s note i ss")
      (auto simp: sharded_adopt_frozen_witness_def sm_simps Let_def guard_def owned_by_other_mk split: option.splits)
  show ?thesis
  proof (cases ?go)
    case True
    have lt: "i < q * 2 ^ sh" using True by (simp add: div_less_iff_less_mult)
    also have "\<dots> \<le> length xs" unfolding s(1) by (rule shard_bounds)
    also have "\<dots> \<le> 2 ^ d" by (rule s(7))
    finally have "i < 2 ^ d" .
    moreover have "witness_ok ps sh q xs ?w"
      using True lt s(2) by (simp add: witness_ok_def verify_frozen_path_Ok_iff)
    ultimately have "owned_ok ps d sh q xs (AList.update note ?w on) (AList.update i note ol)"
      using True owned_ok_replace [OF s(3), of "note" i ?w] by simp
    then have "sharded_rep ps d sh xs ?s'" using sharded_repI [of d sh xs ps] s by (simp add: sharded_fits_def)
    moreover have "sharded_adopt_frozen_witness ps note i ss s = (Ok (), ?s')"
      using run unfolding if_P [OF True] by blast
    ultimately show ?thesis by simp
  next
    case False
    have "sharded_adopt_frozen_witness ps note i ss s = (fst (sharded_adopt_frozen_witness ps note i ss s), s)"
      using run unfolding if_not_P [OF False] by blast
    then have "snd (sharded_adopt_frozen_witness ps note i ss s) = s" by (metis snd_conv)
    then show ?thesis using assms run by metis
  qed
qed

section \<open>Witnesses\<close>

lemma path_node_mod: "l \<le> sh \<Longrightarrow> path_node ps leaf (i mod 2 ^ sh) sibs l = path_node ps leaf i sibs l"
proof (induction l)
  case 0
  then show ?case by simp
next
  case (Suc l)
  have "2 ^ sh = (2 :: nat) ^ l * (2 * 2 ^ (sh - Suc l))"
    using Suc.prems by (simp flip: power_Suc power_add)
  then have "i mod 2 ^ sh div 2 ^ l = i div 2 ^ l mod (2 * 2 ^ (sh - Suc l))"
    by (simp add: mod_mult2_eq)
  then have "even (i mod 2 ^ sh div 2 ^ l) \<longleftrightarrow> even (i div 2 ^ l)" by (simp add: dvd_mod_iff)
  then show ?case using Suc by (simp add: Let_def)
qed

text \<open>A path through a shard and then through the cap is a path of the whole tree.\<close>

lemma glued_path:
  assumes "length ss = sh" and "sh \<le> d"
    and "path_node ps leaf (i mod 2 ^ sh) ss sh = subtree_root ps f sh (i div 2 ^ sh)"
  shows "path_node ps leaf i (ss @ tree_siblings ps (subtree_root ps f sh) (d - sh) (i div 2 ^ sh)) d =
    subtree_root ps f d (i div 2 ^ d)"
proof -
  let ?T = "tree_siblings ps (subtree_root ps f sh) (d - sh) (i div 2 ^ sh)"
  have "path_node ps leaf i (ss @ ?T) sh = path_node ps leaf i ss sh"
    using assms(1) by (intro path_node_cong) (simp add: nth_append)
  also have "\<dots> = subtree_root ps f sh (i div 2 ^ sh)" using assms(3) path_node_mod [of sh sh ps leaf i ss] by simp
  finally have inner: "path_node ps leaf i (ss @ ?T) sh = subtree_root ps f sh (i div 2 ^ sh)" .
  have "path_node ps leaf i (ss @ ?T) d =
      path_node ps (path_node ps leaf i (ss @ ?T) sh) (i div 2 ^ sh) (drop sh (ss @ ?T)) (d - sh)"
    using path_node_drop [where l = sh and k = "d - sh" and sibs = "ss @ ?T"] assms(1,2) by simp
  also have "\<dots> = subtree_root ps (subtree_root ps f sh) (d - sh) (i div 2 ^ sh div 2 ^ (d - sh))"
    using path_node_tree_siblings [of "d - sh" "d - sh" ps "subtree_root ps f sh" "i div 2 ^ sh"] assms(1) inner
    by simp
  also have "\<dots> = subtree_root ps f d (i div 2 ^ d)"
    using assms(2) subtree_root_stack [of ps f "d - sh" sh "i div 2 ^ d"]
    by (simp flip: div_mult2_eq power_add)
  finally show ?thesis .
qed

lemma sibling_index_shift: "even c \<Longrightarrow> sibling_index (k + c) = sibling_index k + c"
  by (auto simp: sibling_index_def elim: oddE)

lemma tree_siblings_split:
  assumes "sh \<le> d"
  shows "tree_siblings ps f d i =
    tree_siblings ps (\<lambda>j. f (j + i div 2 ^ sh * 2 ^ sh)) sh (i mod 2 ^ sh) @
    tree_siblings ps (subtree_root ps f sh) (d - sh) (i div 2 ^ sh)"
proof (rule nth_equalityI)
  show "length (tree_siblings ps f d i) = length (tree_siblings ps (\<lambda>j. f (j + i div 2 ^ sh * 2 ^ sh)) sh (i mod 2 ^ sh) @
    tree_siblings ps (subtree_root ps f sh) (d - sh) (i div 2 ^ sh))" using assms by simp
  fix l assume "l < length (tree_siblings ps f d i)"
  then have l: "l < d" by simp
  show "tree_siblings ps f d i ! l = (tree_siblings ps (\<lambda>j. f (j + i div 2 ^ sh * 2 ^ sh)) sh (i mod 2 ^ sh) @
    tree_siblings ps (subtree_root ps f sh) (d - sh) (i div 2 ^ sh)) ! l"
  proof (cases "l < sh")
    case True
    let ?c = "i div 2 ^ sh * 2 ^ (sh - l)"
    have p: "i div 2 ^ sh * 2 ^ sh = ?c * 2 ^ l" using True by (simp flip: power_add)
    have "i = i mod 2 ^ sh + ?c * 2 ^ l" using p by (metis mod_div_mult_eq)
    then have "i div 2 ^ l = (i mod 2 ^ sh + ?c * 2 ^ l) div 2 ^ l" by simp
    also have "\<dots> = i mod 2 ^ sh div 2 ^ l + ?c" by simp
    finally have "sibling_index (i div 2 ^ l) = sibling_index (i mod 2 ^ sh div 2 ^ l) + ?c"
      using True by (simp add: sibling_index_shift)
    then show ?thesis
      using True l by (simp add: tree_siblings_def nth_append p subtree_root_shift)
  next
    case False
    then have "i div 2 ^ l = i div 2 ^ sh div 2 ^ (l - sh)" by (simp flip: div_mult2_eq power_add)
    then show ?thesis
      using False l assms subtree_root_stack [of ps f "l - sh" sh]
      by (simp add: tree_siblings_def nth_append)
  qed
qed

lemma shard_index_in_cap: "i < n \<Longrightarrow> i div 2 ^ sh < ceil_len n sh"
proof (rule ccontr)
  assume "i < n" and "\<not> i div 2 ^ sh < ceil_len n sh"
  then have "n \<le> i div 2 ^ sh * 2 ^ sh" by (intro ceil_len_covers) simp
  also have "\<dots> \<le> i" by simp
  finally show False using \<open>i < n\<close> by simp
qed

lemma sharded_witness_ok:
  assumes "sharded_rep ps d sh xs s" and "map_of (st_owned_notes s) key = Some w" and "ow_leaf_index w < length xs"
  shows "\<exists>p. sharded_tree_witness s key = Ok p \<and> ip_leaf p = key \<and> ip_index p = ow_leaf_index w \<and>
    ip_root p = merkle_root ps 0 d xs \<and> verify_proof_at_depth ps p d \<and>
    (ow_siblings w = None \<longrightarrow> p = proof_of ps d 0 xs (ow_leaf_index w))"
proof -
  from assms(1) obtain q on ol dirty where s: "q = length xs div 2 ^ sh" "s = st_mk ps d sh q xs on ol dirty"
      "owned_ok ps d sh q xs on ol" "0 < sh" "sh < d" "d < 64" "length xs \<le> 2 ^ d" by (rule sharded_repE)
  let ?i = "ow_leaf_index w" and ?f = "padded 0 xs"
  let ?T = "tree_siblings ps (subtree_root ps ?f sh) (d - sh) (?i div 2 ^ sh)"
  have w: "ow_note_id w = key" "?i < 2 ^ d" "witness_ok ps sh q xs w"
    using s(2,3) assms(2) by (auto simp: owned_ok_def simp del: map_of_eq_Some_iff)
  define ss where "ss = (case ow_siblings w of Some ss \<Rightarrow> ss
    | None \<Rightarrow> tree_siblings ps (padded 0 (drop (q * 2 ^ sh) xs)) sh (?i mod 2 ^ sh))"
  have live: "?i div 2 ^ sh = q" if "ow_siblings w = None"
  proof (rule le_antisym)
    show "?i div 2 ^ sh \<le> q" using assms(3) s(1) by (simp add: div_le_mono)
    show "q \<le> ?i div 2 ^ sh"
      using that w(3) by (simp add: witness_ok_def less_eq_div_iff_mult_less_eq)
  qed
  have inner: "length ss = sh \<and> path_node ps key (?i mod 2 ^ sh) ss sh = subtree_root ps ?f sh (?i div 2 ^ sh)"
  proof (cases "ow_siblings w")
    case None
    let ?g = "padded 0 (drop (q * 2 ^ sh) xs)"
    have "?g (?i mod 2 ^ sh) = key"
      using live_leaf [OF live [OF None] assms(3)] None w assms(3) by (simp add: witness_ok_def)
    then show ?thesis
      using path_node_tree_siblings [of sh sh ps ?g "?i mod 2 ^ sh"] None live [OF None]
      by (simp add: ss_def live_subtree)
  next
    case (Some fs)
    then show ?thesis using w by (simp add: witness_ok_def ss_def)
  qed
  have cap: "imt_create_proof (st_cap s) (?i div 2 ^ sh) =
      Ok (proof_of ps (d - sh) (zroot ps 0 sh) (shard_log_roots ps sh xs (ceil_len (length xs) sh)) (?i div 2 ^ sh))"
    using s shards_in_cap [OF s(7,5)] shard_index_in_cap [OF assms(3)] by (simp add: imt_create_proof_eq)
  let ?p = "\<lparr>ip_leaf = key, ip_index = ?i, ip_siblings = ss @ ?T, ip_root = merkle_root ps 0 d xs\<rparr>"
  have run: "sharded_tree_witness s key = Ok ?p"
  proof -
    have "(case ow_siblings w of Some frozen \<Rightarrow> Ok frozen | None \<Rightarrow>
        rbind (guard (?i div 2 ^ sh \<noteq> length (st_completed_roots s) \<or> imt_leaf (st_live s) (?i mod 2 ^ sh) \<noteq> Some key) (OwnedLeafMismatch ?i))
          (\<lambda>_. rbind (imt_create_proof (st_live s) (?i mod 2 ^ sh)) (\<lambda>proof. Ok (ip_siblings proof)))) = Ok ss"
    proof (cases "ow_siblings w")
      case None
      note at = live_leaf [OF live [OF None] assms(3)]
      have "length (drop (q * 2 ^ sh) xs) \<le> 2 ^ sh"
        using shard_bounds(2) [of "length xs" sh] unfolding length_drop s(1) by simp
      then show ?thesis
        using at None live [OF None] w assms(3) s(2)
        by (simp add: imt_leaf_eq imt_create_proof_eq witness_ok_def proof_of_def ss_def)
    qed (simp add: ss_def)
    moreover have "sharded_tree_root s = Ok (merkle_root ps 0 d xs)"
      using sharded_tree_root_eq [of d sh xs ps] s by (simp add: sharded_fits_def)
    moreover have "st_shard_height s = sh" "st_shard_size s = 2 ^ sh" using s(2) by simp_all
    ultimately show ?thesis
      using cap assms(2) by (simp add: sharded_tree_witness_def Let_def proof_of_def cap_padded)
  qed
  have "verify_proof_at_depth ps ?p d"
    using glued_path [of ss sh d ps key ?i ?f] inner s(5,6) w(2)
    by (simp add: verify_proof_at_depth_iff merkle_root_def)
  moreover have "?p = proof_of ps d 0 xs ?i" if "ow_siblings w = None"
    using that live [OF that] tree_siblings_split [of sh d ps ?f ?i] s(5) w(1,3) assms(3)
    by (simp add: proof_of_def ss_def padded_drop witness_ok_def)
  ultimately show ?thesis using run by auto
qed

lemma sharded_witness_unmarked: "map_of (st_owned_notes s) key = None \<Longrightarrow> sharded_tree_witness s key = Err NoteNotMarked"
  by (simp add: sharded_tree_witness_def)

lemma sharded_witness_early:
  assumes "sharded_rep ps d sh xs s" and "map_of (st_owned_notes s) key = Some w" and "length xs \<le> ow_leaf_index w"
  shows "sharded_tree_witness s key = Err (OwnedLeafMismatch (ow_leaf_index w))"
proof -
  from assms(1) obtain q on ol dirty where s: "q = length xs div 2 ^ sh" "s = st_mk ps d sh q xs on ol dirty"
      "owned_ok ps d sh q xs on ol" "0 < sh" "sh < d" "d < 64" "length xs \<le> 2 ^ d" by (rule sharded_repE)
  let ?i = "ow_leaf_index w"
  have q: "q * 2 ^ sh \<le> length xs" using s(1) shard_bounds by blast
  have "witness_ok ps sh q xs w" using s(2,3) assms(2) by (auto simp: owned_ok_def simp del: map_of_eq_Some_iff)
  then have none: "ow_siblings w = None" using q assms(3) by (auto simp: witness_ok_def split: option.splits)
  have "length (drop (q * 2 ^ sh) xs) \<le> ?i mod 2 ^ sh" if "?i div 2 ^ sh = q"
  proof -
    have "?i = q * 2 ^ sh + ?i mod 2 ^ sh" using that by (metis div_mult_mod_eq)
    then show ?thesis using assms(3) unfolding length_drop by linarith
  qed
  then show ?thesis
    using none s(2) assms(2) by (auto simp: sharded_tree_witness_def Let_def imt_leaf_eq guard_def)
qed

section \<open>Rewinding\<close>

lemma rebuild_cap_eq:
  assumes "sharded_fits d sh xs" and "q * 2 ^ sh \<le> length xs" and "length xs \<le> (q + 1) * 2 ^ sh"
    and "st_depth s = d" and "st_shard_height s = sh" and "st_cap_depth s = d - sh"
    and "st_completed_roots s = shard_log_roots ps sh xs q" and "st_live_leaves s = drop (q * 2 ^ sh) xs"
    and "st_live s = imt_of ps sh 0 (drop (q * 2 ^ sh) xs)"
  shows "sharded_rebuild_cap ps s = (Ok (), s\<lparr>st_cap :=
    imt_of ps (d - sh) (zroot ps 0 sh) (shard_log_roots ps sh xs (ceil_len (length xs) sh))\<rparr>)"
proof -
  have d: "0 < sh" "sh < d" "d < 64" "length xs \<le> 2 ^ d" using assms(1) by (simp_all add: sharded_fits_def)
  let ?R = "shard_log_roots ps sh xs (ceil_len (length xs) sh)"
  have roots: "(if st_live_leaves s \<noteq> [] then rbind (imt_root (st_live s)) (\<lambda>r. Ok (st_completed_roots s @ [r]))
      else Ok (st_completed_roots s)) = Ok ?R"
  proof (cases "length xs = q * 2 ^ sh")
    case True
    then show ?thesis using assms(7,8) by (simp add: ceil_len_full)
  next
    case False
    then have lt: "q * 2 ^ sh < length xs" using assms(2) by simp
    have "imt_root (st_live s) = Ok (subtree_root ps (padded 0 xs) sh q)"
      using assms(3,9) by (simp add: imt_root_eq live_merkle_root)
    then show ?thesis
      using assms(7,8) ceil_len_partial [OF lt assms(3)] lt by (simp add: shard_log_roots_Suc)
  qed
  have "imt_from_leaves_with_zero ps (d - sh) (zroot ps 0 sh) ?R = Ok (imt_of ps (d - sh) (zroot ps 0 sh) ?R)"
    using d shards_in_cap [OF d(4,2)] by (intro imt_from_leaves_with_zero_eq) simp_all
  then show ?thesis
    unfolding sharded_rebuild_cap_def using assms(4-6) d roots
    by (simp only: sbind_def slift_def) (simp add: smodify_def)
qed

lemma unmark_fold:
  assumes "sharded_rep ps d sh xs s"
  shows "sharded_rep ps d sh xs (fold (\<lambda>k s. snd (sharded_unmark_owned k s)) ks s) \<and>
    map_of (st_owned_notes (fold (\<lambda>k s. snd (sharded_unmark_owned k s)) ks s)) =
      (\<lambda>k. if k \<in> set ks then None else map_of (st_owned_notes s) k)"
  using assms
proof (induction ks arbitrary: s)
  case Nil
  then show ?case by simp
next
  case (Cons k ks)
  from Cons.IH [OF sharded_unmark_owned_rep(1) [OF Cons.prems, of k]] show ?case
    using sharded_unmark_owned_rep(2) [OF Cons.prems, of k] by auto
qed

lemma set_owned_range:
  "distinct (map fst ol) \<Longrightarrow> set (owned_range ol n) = {k. \<exists>i \<ge> n. map_of ol i = Some k}"
  by (force simp: owned_range_def)

lemma owned_ok_take:
  assumes "owned_ok ps d sh q xs on ol" and "q * 2 ^ sh \<le> n"
    and "\<forall>k w. map_of on k = Some w \<longrightarrow> ow_leaf_index w < n"
  shows "owned_ok ps d sh q (take n xs) on ol"
proof -
  have "witness_ok ps sh q (take n xs) w" if "witness_ok ps sh q xs w" for w
  proof (cases "ow_siblings w")
    case None
    then show ?thesis using that by (simp add: witness_ok_def)
  next
    case (Some ss)
    then have "ow_leaf_index w div 2 ^ sh + 1 \<le> q"
      using that by (simp add: witness_ok_def div_less_iff_less_mult less_eq_Suc_le [symmetric])
    then have "(ow_leaf_index w div 2 ^ sh + 1) * 2 ^ sh \<le> q * 2 ^ sh" by (rule mult_le_mono1)
    then have "(ow_leaf_index w div 2 ^ sh + 1) * 2 ^ sh \<le> n" using assms(2) by simp
    then show ?thesis using Some that by (simp add: witness_ok_def subtree_root_take)
  qed
  then show ?thesis using assms(1) unfolding owned_ok_def by blast
qed

lemma sharded_rewind_rep:
  assumes "sharded_rep ps d sh xs s" and "length xs div 2 ^ sh * 2 ^ sh \<le> n" and "n \<le> length xs"
  shows "\<exists>s'. sharded_rewind_live_to ps n s = (Ok (owned_range (st_owned_leaves s) n), s') \<and>
    sharded_rep ps d sh (take n xs) s' \<and>
    (\<forall>k. map_of (st_owned_notes s') k = (case map_of (st_owned_notes s) k of
       Some w \<Rightarrow> if n \<le> ow_leaf_index w then None else Some w | None \<Rightarrow> None))"
proof -
  from assms(1) obtain q on ol dirty where s: "q = length xs div 2 ^ sh" "s = st_mk ps d sh q xs on ol dirty"
      "owned_ok ps d sh q xs on ol" "0 < sh" "sh < d" "d < 64" "length xs \<le> 2 ^ d" by (rule sharded_repE)
  let ?rem = "owned_range ol n"
  define s1 where "s1 = fold (\<lambda>k s. snd (sharded_unmark_owned k s)) ?rem s"
  have s1: "sharded_rep ps d sh xs s1"
      "map_of (st_owned_notes s1) = (\<lambda>k. if k \<in> set ?rem then None else map_of on k)"
    using unmark_fold [OF assms(1), of ?rem] unfolding s1_def by (simp_all add: s(2) cong: if_cong)
  then obtain on1 ol1 dirty1 where s1': "s1 = st_mk ps d sh q xs on1 ol1 dirty1" "owned_ok ps d sh q xs on1 ol1"
    using s(1) by (auto simp: sharded_rep_def)
  have q: "q * 2 ^ sh \<le> n" "length xs < (q + 1) * 2 ^ sh" using assms(2) s(1) shard_bounds by blast+
  have keep: "map_of on1 k = (case map_of on k of Some w \<Rightarrow> if n \<le> ow_leaf_index w then None else Some w | None \<Rightarrow> None)" for k
  proof -
    have "distinct (map fst ol)" using s(3) by (simp add: owned_ok_def)
    then have "k \<in> set ?rem \<longleftrightarrow> (\<exists>i \<ge> n. map_of ol i = Some k)" by (simp only: set_owned_range) simp
    also have "\<dots> \<longleftrightarrow> (\<exists>w. map_of on k = Some w \<and> n \<le> ow_leaf_index w)"
      using s(3) unfolding owned_ok_def by metis
    finally show ?thesis using s1(2) s1'(1) by (auto split: option.splits)
  qed
  have own: "owned_ok ps d sh q (take n xs) on1 ol1"
    using s1'(2) q(1) keep by (intro owned_ok_take) (auto split: option.splits if_splits)
  have fits: "sharded_fits d sh (take n xs)" using s by (simp add: sharded_fits_def)
  have nq: "length (take n xs) div 2 ^ sh = q"
    using q assms(3) by (intro div_nat_eqI) (simp_all add: mult.commute)
  let ?s2 = "st_live_update (\<lambda>_. imt_of ps sh 0 (drop (q * 2 ^ sh) (take n xs)))
    (st_live_leaves_update (take (n - q * 2 ^ sh)) s1)"
  have leaves: "take (n - q * 2 ^ sh) (drop (q * 2 ^ sh) xs) = drop (q * 2 ^ sh) (take n xs)"
    by (simp add: drop_take)
  have roots: "shard_log_roots ps sh xs q = shard_log_roots ps sh (take n xs) q"
    using q(1) assms(3) shard_log_roots_append [of q sh "take n xs" ps "drop n xs"] by simp
  have "sharded_rebuild_cap ps ?s2 = (Ok (), ?s2\<lparr>st_cap := imt_of ps (d - sh) (zroot ps 0 sh)
      (shard_log_roots ps sh (take n xs) (ceil_len (length (take n xs)) sh))\<rparr>)"
    using q assms(3) by (intro rebuild_cap_eq [OF fits]) (simp_all add: s1'(1) leaves roots)
  moreover have "?s2\<lparr>st_cap := imt_of ps (d - sh) (zroot ps 0 sh)
      (shard_log_roots ps sh (take n xs) (ceil_len (length (take n xs)) sh))\<rparr> =
    st_mk ps d sh q (take n xs) on1 ol1 dirty1"
    by (simp add: s1'(1) st_mk_def leaves roots)
  moreover have "imt_from_leaves ps sh (drop (q * 2 ^ sh) (take n xs)) =
      Ok (imt_of ps sh 0 (drop (q * 2 ^ sh) (take n xs)))"
    unfolding imt_from_leaves_def using q assms(3) s(5,6) by (intro imt_from_leaves_with_zero_eq) simp_all
  moreover have "st_live_leaves (st_live_leaves_update (take (n - q * 2 ^ sh)) s1) = drop (q * 2 ^ sh) (take n xs)"
    "st_shard_height (st_live_leaves_update (take (n - q * 2 ^ sh)) s1) = sh"
    by (simp_all add: s1'(1) leaves)
  moreover have "sharded_leaf_count s = length xs" "length (st_completed_roots s) * st_shard_size s = q * 2 ^ sh"
      "st_owned_leaves s = ol"
    using s(2) q assms(3) by (simp_all add: sharded_leaf_count_eq)
  ultimately have "sharded_rewind_live_to ps n s = (Ok ?rem, st_mk ps d sh q (take n xs) on1 ol1 dirty1)"
    using q assms(3)
    by (simp add: sharded_rewind_live_to_def sbind_def slift_def smodify_def sret_def Let_def flip: s1_def)
  then show ?thesis
    using own fits nq keep s(2) sharded_repI [of d sh "take n xs" ps on1 ol1 dirty1] by auto
qed

lemma sharded_rewind_refused:
  assumes "sharded_rep ps d sh xs s"
  shows "n < length xs div 2 ^ sh * 2 ^ sh \<Longrightarrow>
      sharded_rewind_live_to ps n s = (Err (RewindBeforeCompleted (length xs div 2 ^ sh * 2 ^ sh) n), s)"
    and "length xs < n \<Longrightarrow> sharded_rewind_live_to ps n s = (Err (LeafIndexOutOfRange n (length xs)), s)"
proof -
  from assms obtain q on ol dirty where s: "q = length xs div 2 ^ sh" "s = st_mk ps d sh q xs on ol dirty"
    by (rule sharded_repE)
  have q: "q * 2 ^ sh \<le> length xs" using s(1) shard_bounds by blast
  have count: "length (st_completed_roots s) * st_shard_size s = q * 2 ^ sh" "sharded_leaf_count s = length xs"
    using s(2) q by (simp_all add: sharded_leaf_count_eq)
  show "n < length xs div 2 ^ sh * 2 ^ sh \<Longrightarrow>
      sharded_rewind_live_to ps n s = (Err (RewindBeforeCompleted (length xs div 2 ^ sh * 2 ^ sh) n), s)"
    using count s(1) by (simp add: sharded_rewind_live_to_def sbind_def slift_def Let_def)
  assume "length xs < n"
  then have "\<not> n < q * 2 ^ sh" using q by simp
  with \<open>length xs < n\<close> show "sharded_rewind_live_to ps n s = (Err (LeafIndexOutOfRange n (length xs)), s)"
    using count by (simp add: sharded_rewind_live_to_def sbind_def slift_def Let_def)
qed

section \<open>Restoring a snapshot\<close>

text \<open>The owned notes restored so far: the prefix of the snapshot's list.\<close>

definition restored :: "'f owned_witness list \<Rightarrow> ('f \<times> 'f owned_witness) list \<Rightarrow> (nat \<times> 'f) list \<Rightarrow> bool" where
  "restored ws on ol \<longleftrightarrow> distinct (map fst on) \<and> distinct (map fst ol) \<and>
     map_of on = map_of (map (\<lambda>w. (ow_note_id w, w)) ws) \<and>
     map_of ol = map_of (map (\<lambda>w. (ow_leaf_index w, ow_note_id w)) ws)"

lemma map_of_snoc: "k \<notin> set (map fst al) \<Longrightarrow> map_of (al @ [(k, v)]) = (map_of al)(k \<mapsto> v)"
  by (induction al) auto

lemma restored_step:
  assumes "restored ws on ol" and "distinct (map ow_note_id (ws @ [w]))" and "distinct (map ow_leaf_index (ws @ [w]))"
  shows "restored (ws @ [w]) (AList.update (ow_note_id w) w on) (AList.update (ow_leaf_index w) (ow_note_id w) ol)"
proof -
  have "map_of (map (\<lambda>w. (ow_note_id w, w)) ws @ [(ow_note_id w, w)]) =
      (map_of (map (\<lambda>w. (ow_note_id w, w)) ws))(ow_note_id w \<mapsto> w)"
    using assms(2) by (intro map_of_snoc) (simp add: image_image)
  moreover have "map_of (map (\<lambda>w. (ow_leaf_index w, ow_note_id w)) ws @ [(ow_leaf_index w, ow_note_id w)]) =
      (map_of (map (\<lambda>w. (ow_leaf_index w, ow_note_id w)) ws))(ow_leaf_index w \<mapsto> ow_note_id w)"
    using assms(3) by (intro map_of_snoc) (simp add: image_image)
  ultimately show ?thesis
    using assms(1) by (simp add: restored_def distinct_update del: map_of_append)
qed

lemma restore_owned_eq:
  assumes "restored ws on ol" and "ow_note_id w \<notin> set (map ow_note_id ws)"
    and "ow_leaf_index w \<notin> set (map ow_leaf_index ws)"
    and "witness_ok ps sh (length xs div 2 ^ sh) xs w" and "ow_leaf_index w < 2 ^ d"
  shows "restore_owned ps (2 ^ d) w (st_mk ps d sh (length xs div 2 ^ sh) xs on ol dirty) =
    Ok (st_mk ps d sh (length xs div 2 ^ sh) xs (AList.update (ow_note_id w) w on)
          (AList.update (ow_leaf_index w) (ow_note_id w) ol) dirty)"
proof -
  let ?q = "length xs div 2 ^ sh" and ?i = "ow_leaf_index w"
  let ?s = "st_mk ps d sh ?q xs on ol dirty"
  have fresh: "map_of on (ow_note_id w) = None" "map_of ol ?i = None"
    using assms(1-3) by (auto simp: restored_def map_of_eq_None_iff)
  have count: "sharded_leaf_count ?s = length xs" by (simp add: sharded_leaf_count_eq)
  show ?thesis
  proof (cases "ow_siblings w")
    case (Some ss)
    then have "?i div 2 ^ sh < ?q" "sharded_verify_frozen_path ps ?s (ow_note_id w) ?i ss = Ok ()"
      using assms(4) unfolding verify_frozen_path_Ok_iff
      by (auto simp: witness_ok_def div_less_iff_less_mult)
    then show ?thesis using Some fresh assms(5) by (simp add: restore_owned_def Let_def)
  next
    case None
    then have ge: "?q * 2 ^ sh \<le> ?i" and leaf: "?i < length xs \<longrightarrow> xs ! ?i = ow_note_id w"
      using assms(4) by (simp_all add: witness_ok_def)
    from ge have "\<not> ?i div 2 ^ sh < ?q" by (simp add: not_less less_eq_div_iff_mult_less_eq)
    moreover have "imt_leaf (imt_of ps sh 0 (drop (?q * 2 ^ sh) xs)) (?i mod 2 ^ sh) = Some (ow_note_id w)"
      if "?i < length xs"
    proof -
      have "?i div 2 ^ sh = ?q" using \<open>\<not> ?i div 2 ^ sh < ?q\<close> that by (simp add: div_le_mono le_antisym not_less)
      from live_leaf [OF this that] leaf that show ?thesis by (simp add: imt_leaf_eq)
    qed
    ultimately show ?thesis using None fresh count assms(5) by (auto simp: restore_owned_def Let_def guard_def)
  qed
qed

lemma restore_loop:
  assumes "restored ws on ol" and "distinct (map ow_note_id (ws @ us))" and "distinct (map ow_leaf_index (ws @ us))"
    and "\<forall>w \<in> set us. witness_ok ps sh (length xs div 2 ^ sh) xs w \<and> ow_leaf_index w < 2 ^ d"
  shows "\<exists>on' ol'. rfold us (restore_owned ps (2 ^ d)) (st_mk ps d sh (length xs div 2 ^ sh) xs on ol dirty) =
    Ok (st_mk ps d sh (length xs div 2 ^ sh) xs on' ol' dirty) \<and> restored (ws @ us) on' ol'"
  using assms
proof (induction us arbitrary: ws on ol)
  case Nil
  then show ?case by auto
next
  case (Cons u us)
  have "restored (ws @ [u]) (AList.update (ow_note_id u) u on) (AList.update (ow_leaf_index u) (ow_note_id u) ol)"
    using Cons.prems by (intro restored_step) auto
  from Cons.IH [OF this] Cons.prems show ?case
    using restore_owned_eq [OF Cons.prems(1), of u ps sh xs d dirty] by auto
qed

lemma sharded_restore_rep:
  assumes "sharded_rep ps d sh xs s"
  shows "\<exists>s'. sharded_from_snapshot ps (sharded_take_snapshot s) = Ok s' \<and> sharded_rep ps d sh xs s' \<and>
    map_of (st_owned_notes s') = map_of (st_owned_notes s) \<and> st_dirty s' = []"
proof -
  from assms obtain q on ol dirty where s: "q = length xs div 2 ^ sh" "s = st_mk ps d sh q xs on ol dirty"
      "owned_ok ps d sh q xs on ol" "0 < sh" "sh < d" "d < 64" "length xs \<le> 2 ^ d" by (rule sharded_repE)
  have q: "q * 2 ^ sh \<le> length xs" "length xs < (q + 1) * 2 ^ sh" using s(1) shard_bounds by blast+
  let ?ws = "sharded_owned_notes s"
  have M: "map_of on k = Some w \<Longrightarrow> ow_note_id w = k \<and> ow_leaf_index w < 2 ^ d \<and>
      map_of ol (ow_leaf_index w) = Some k \<and> witness_ok ps sh q xs w" for k w
    using s(3) by (auto simp: owned_ok_def simp del: map_of_eq_Some_iff)
  have keys: "distinct (map fst on)" using s(3) by (simp add: owned_ok_def)
  have on_iff: "(k, w) \<in> set on \<longleftrightarrow> map_of on k = Some w" for k w using keys by simp
  have ids: "map ow_note_id (map snd on) = map fst on"
    using M on_iff by (auto simp del: map_of_eq_Some_iff)
  have inj: "inj_on ow_leaf_index (snd ` set on)"
  proof (rule inj_onI)
    fix w w' assume "w \<in> snd ` set on" "w' \<in> snd ` set on" "ow_leaf_index w = ow_leaf_index w'"
    moreover from this(1,2) obtain k k' where "map_of on k = Some w" "map_of on k' = Some w'"
      using keys by (auto simp: image_iff)
    ultimately show "w = w'" using M by (metis option.inject)
  qed
  have set_ws: "set ?ws = snd ` set on" using s(2) by (simp add: sharded_owned_notes_def)
  have dist_ws: "distinct (map ow_note_id ?ws)" "distinct (map ow_leaf_index ?ws)"
  proof -
    have d: "distinct (map snd on)" using keys ids by (metis distinct_map)
    then have "distinct ?ws" using s(2) by (simp add: sharded_owned_notes_def)
    moreover have "inj_on ow_note_id (set ?ws)"
      using keys ids unfolding set_ws by (metis distinct_map list.set_map)
    ultimately show "distinct (map ow_note_id ?ws)" "distinct (map ow_leaf_index ?ws)"
      using inj by (simp_all add: distinct_map set_ws)
  qed
  have ok: "\<forall>w \<in> set ?ws. witness_ok ps sh (length xs div 2 ^ sh) xs w \<and> ow_leaf_index w < 2 ^ d"
    using M on_iff s(1) unfolding set_ws by (auto simp del: map_of_eq_Some_iff)
  have pow: "2 ^ (d - sh) * 2 ^ sh = (2 :: nat) ^ d" using s(5) by (simp flip: power_add)
  have "q * 2 ^ sh \<le> 2 ^ (d - sh) * 2 ^ sh" using q(1) s(7) pow by simp
  then have max: "q \<le> 2 ^ (d - sh)" by simp
  have full: "drop (q * 2 ^ sh) xs = []" if "q = 2 ^ (d - sh)" using that s(7) pow by simp
  have live: "length (drop (q * 2 ^ sh) xs) < 2 ^ sh" using q unfolding length_drop by simp
  have fits: "sharded_fits d sh xs" using s by (simp add: sharded_fits_def)
  let ?t0 = "(st_mk ps d sh 0 [] [] [] [])\<lparr>st_completed_roots := shard_log_roots ps sh xs q,
    st_live_leaves := drop (q * 2 ^ sh) xs, st_live := imt_of ps sh 0 (drop (q * 2 ^ sh) xs)\<rparr>"
  have cap: "sharded_rebuild_cap ps ?t0 = (Ok (), st_mk ps d sh q xs [] [] [])"
    using rebuild_cap_eq [OF fits q(1), of ?t0 ps] q(2) by (simp add: st_mk_def)
  have from_leaves: "imt_from_leaves ps sh (drop (q * 2 ^ sh) xs) = Ok (imt_of ps sh 0 (drop (q * 2 ^ sh) xs))"
    unfolding imt_from_leaves_def using live s(5,6) by (intro imt_from_leaves_with_zero_eq) simp_all
  have "restored [] [] []" by (simp add: restored_def)
  from restore_loop [OF this _ _ ok, of "[]"] dist_ws obtain on' ol' where loop:
      "rfold ?ws (restore_owned ps (2 ^ d)) (st_mk ps d sh q xs [] [] []) = Ok (st_mk ps d sh q xs on' ol' [])"
      "restored ?ws on' ol'"
    using s(1) by auto
  have "sharded_from_snapshot ps (sharded_take_snapshot s) = Ok (st_mk ps d sh q xs on' ol' [])"
    using s(4-6) max full live cap from_leaves loop(1)
    by (simp add: sharded_from_snapshot_def sharded_take_snapshot_def sharded_new_eq s(2) guard_def Let_def)
  moreover have M': "map_of on' k = map_of on k" for k
  proof -
    have "map_of on' k = Some w \<longleftrightarrow> map_of on k = Some w" for w
    proof -
      have "map_of on' k = Some w \<longleftrightarrow> w \<in> set ?ws \<and> ow_note_id w = k"
        using loop(2) dist_ws(1) by (auto simp: restored_def comp_def)
      also have "\<dots> \<longleftrightarrow> map_of on k = Some w"
        using M keys unfolding set_ws by (force simp: image_iff)
      finally show ?thesis .
    qed
    then show ?thesis by (metis not_None_eq)
  qed
  moreover have L': "map_of ol' i = map_of ol i" for i
  proof -
    have "map_of ol' i = Some k \<longleftrightarrow> map_of ol i = Some k" for k
    proof -
      have "map_of ol' i = Some k \<longleftrightarrow> (\<exists>w \<in> set ?ws. ow_leaf_index w = i \<and> ow_note_id w = k)"
        using loop(2) dist_ws(2) by (auto simp: restored_def comp_def)
      also have "\<dots> \<longleftrightarrow> (\<exists>w. map_of on k = Some w \<and> ow_leaf_index w = i)"
        using M keys unfolding set_ws by (force simp: image_iff)
      also have "\<dots> \<longleftrightarrow> map_of ol i = Some k"
        using s(3) unfolding owned_ok_def by blast
      finally show ?thesis .
    qed
    then show ?thesis by (metis not_None_eq)
  qed
  moreover have "owned_ok ps d sh q xs on' ol'"
    using s(3) loop(2) unfolding owned_ok_def M' L' restored_def by blast
  ultimately show ?thesis
    using fits s(1,2) sharded_repI [of d sh xs ps on' ol' "[]"] by (auto simp: fun_eq_iff)
qed

end
