(* ===== verification/Notes_Frontier.thy ===== *)
theory Notes_Frontier
  imports Inclusion_Proof
begin

text \<open>
  The constant-space append frontier \<open>NotesFrontier\<close> of \<open>crates/core/src/imt.rs\<close>.  Slot
  \<open>l\<close> of a frontier of \<open>n\<close> leaves holds a completed height-\<open>l\<close> subtree exactly when bit
  \<open>l\<close> of \<open>n\<close> is set.  \<open>frontier_of\<close> is the canonical state of a leaf log; every operation
  maps canonical states to canonical states, and its answers are those of the flat tree over
  the same log.
\<close>

record 'f completed_shard =
  cs_shard_index :: nat
  cs_root :: 'f

record 'f frontier_append =
  fa_leaf_index :: nat
  fa_completed_shard :: "'f completed_shard option"

record 'f notes_frontier =
  nf_depth :: nat
  nf_shard_height :: nat
  nf_shard_size :: nat
  nf_leaf_count :: nat
  nf_frontier :: "'f option list"
  nf_zeroes :: "'f list"

definition notes_tree_depth :: nat where
  "notes_tree_depth = 30"

definition notes_shard_height :: nat where
  "notes_shard_height = 14"

definition frontier_new :: "('f :: zero list \<Rightarrow> 'f) \<Rightarrow> nat \<Rightarrow> nat \<Rightarrow> ('f notes_frontier, tree_error) result" where
  "frontier_new ps depth shard_height =
     rbind (guard (shard_height = 0 \<or> depth \<le> shard_height) (InvalidGeometry depth shard_height)) (\<lambda>_.
     rbind (tree_capacity shard_height) (\<lambda>shard_size.
     rbind (tree_capacity depth) (\<lambda>_.
       Ok \<lparr>nf_depth = depth, nf_shard_height = shard_height, nf_shard_size = shard_size,
           nf_leaf_count = 0, nf_frontier = replicate (depth + 1) None,
           nf_zeroes = zero_roots ps depth\<rparr>)))"

definition frontier_production :: "('f :: zero list \<Rightarrow> 'f) \<Rightarrow> ('f notes_frontier, tree_error) result" where
  "frontier_production ps = expect (frontier_new ps notes_tree_depth notes_shard_height)"

definition frontier_shard_count :: "'f notes_frontier \<Rightarrow> nat" where
  "frontier_shard_count t = nf_leaf_count t div 2 ^ nf_shard_height t"

definition usize_max :: nat where
  "usize_max = 2 ^ usize_bits - 1"

definition frontier_root_level ::
    "('f list \<Rightarrow> 'f) \<Rightarrow> 'f notes_frontier \<Rightarrow> nat \<Rightarrow> 'f \<times> nat \<Rightarrow> ('f \<times> nat, tree_error) result" where
  "frontier_root_level ps t level = (\<lambda>(node, occupied).
     rbind (if odd occupied
            then rbind (idx (nf_frontier t) level) (\<lambda>slot.
                 rbind (idx (nf_zeroes t) level) (\<lambda>zero.
                   Ok (ps [unwrap_or slot zero, node])))
            else rbind (idx (nf_zeroes t) level) (\<lambda>zero. Ok (ps [node, zero])))
       (\<lambda>node. Ok (node, occupied div 2)))"

definition frontier_root :: "('f list \<Rightarrow> 'f) \<Rightarrow> 'f notes_frontier \<Rightarrow> ('f, tree_error) result" where
  "frontier_root ps t =
     (let capacity = (case tree_capacity (nf_depth t) of Ok c \<Rightarrow> c | _ \<Rightarrow> usize_max)
      in if nf_leaf_count t = capacity
         then rbind (idx (nf_frontier t) (nf_depth t)) (\<lambda>slot.
              rbind (idx (nf_zeroes t) (nf_depth t)) (\<lambda>zero. Ok (unwrap_or slot zero)))
         else rbind (idx (nf_zeroes t) 0) (\<lambda>node.
              rbind (rfold [0..<nf_depth t] (frontier_root_level ps t) (node, nf_leaf_count t))
                (\<lambda>(node, _). Ok node)))"

definition empty_level_error :: "nat \<Rightarrow> tree_error" where
  "empty_level_error level = InvalidSnapshot
     (''frontier level '' @ show_nat level @ '' is empty for occupied leaf-count bit'')"

text \<open>
  The loop of \<open>append\<close> over the levels: it stops at the first clear bit of the leaf count;
  \<open>take\<close> empties a slot before the missing value is reported.
\<close>

primrec frontier_append_loop ::
    "('f list \<Rightarrow> 'f) \<Rightarrow> nat \<Rightarrow> nat list \<Rightarrow> nat \<times> 'f \<times> 'f completed_shard option \<Rightarrow>
     ('f notes_frontier, 'f completed_shard option, tree_error) sm" where
  "frontier_append_loop ps leaf_index [] acc = sret (snd (snd acc))"
| "frontier_append_loop ps leaf_index (level # levels) acc =
     (case acc of (cursor, node, completed) \<Rightarrow> (\<lambda>t.
        sbind (slift (idx (nf_frontier t) level)) (\<lambda>slot.
        if even cursor
        then sbind (smodify (nf_frontier_update (\<lambda>slots. slots[level := Some node]))) (\<lambda>_. sret completed)
        else sbind (smodify (nf_frontier_update (\<lambda>slots. slots[level := None]))) (\<lambda>_.
             sbind (slift (ok_or slot (empty_level_error level))) (\<lambda>left.
               let node = ps [left, node];
                   cursor = cursor div 2;
                   completed = (if level + 1 = nf_shard_height t
                                then Some \<lparr>cs_shard_index = leaf_index div 2 ^ nf_shard_height t,
                                           cs_root = node\<rparr>
                                else completed)
               in frontier_append_loop ps leaf_index levels (cursor, node, completed)))) t))"

definition frontier_append ::
    "('f list \<Rightarrow> 'f) \<Rightarrow> 'f \<Rightarrow> ('f notes_frontier, 'f frontier_append, tree_error) sm" where
  "frontier_append ps leaf = (\<lambda>t.
     sbind (slift (tree_capacity (nf_depth t))) (\<lambda>capacity.
     sbind (slift (guard (capacity \<le> nf_leaf_count t) (TreeFull (nf_depth t)))) (\<lambda>_.
       let leaf_index = nf_leaf_count t in
       sbind (frontier_append_loop ps leaf_index [0..<nf_depth t + 1] (leaf_index, leaf, None)) (\<lambda>completed.
       sbind (smodify (nf_leaf_count_update (\<lambda>n. n + 1))) (\<lambda>_.
         sret \<lparr>fa_leaf_index = leaf_index, fa_completed_shard = completed\<rparr>)))) t)"

definition frontier_append_step ::
    "('f list \<Rightarrow> 'f) \<Rightarrow> 'f \<Rightarrow> 'f completed_shard list \<Rightarrow>
     ('f notes_frontier, 'f completed_shard list, tree_error) sm" where
  "frontier_append_step ps leaf completed =
     sbind (frontier_append ps leaf) (\<lambda>appended.
       sret (case fa_completed_shard appended of
               Some shard \<Rightarrow> completed @ [shard] | None \<Rightarrow> completed))"

definition frontier_append_many ::
    "('f list \<Rightarrow> 'f) \<Rightarrow> 'f list \<Rightarrow> ('f notes_frontier, 'f completed_shard list, tree_error) sm" where
  "frontier_append_many ps leaves = (\<lambda>t.
     sbind (slift (tree_capacity (nf_depth t))) (\<lambda>capacity.
     sbind (slift (guard (capacity - nf_leaf_count t < length leaves) (TreeFull (nf_depth t)))) (\<lambda>_.
       sfold leaves (frontier_append_step ps) [])) t)"

definition frontier_append_with_siblings ::
    "('f list \<Rightarrow> 'f) \<Rightarrow> 'f \<Rightarrow> ('f notes_frontier, 'f frontier_append \<times> 'f list, tree_error) sm" where
  "frontier_append_with_siblings ps leaf = (\<lambda>t.
     let leaf_index = nf_leaf_count t in
     sbind (slift (rmap (\<lambda>level.
              if \<not> test_bit leaf_index level then idx (nf_zeroes t) level
              else rbind (idx (nf_frontier t) level) (\<lambda>slot. ok_or slot (empty_level_error level)))
            [0..<nf_depth t])) (\<lambda>siblings.
     sbind (frontier_append ps leaf) (\<lambda>appended. sret (appended, siblings))) t)"

definition frontier_next_leaf_frontier :: "'f :: zero notes_frontier \<Rightarrow> ('f list, tree_error) result" where
  "frontier_next_leaf_frontier t =
     rbind (tree_capacity (nf_depth t)) (\<lambda>capacity.
     rbind (guard (capacity \<le> nf_leaf_count t) (TreeFull (nf_depth t))) (\<lambda>_.
       rmap (\<lambda>level.
         if \<not> test_bit (nf_leaf_count t) level then Ok 0
         else rbind (idx (nf_frontier t) level) (\<lambda>slot. ok_or slot (empty_level_error level)))
       [0..<nf_depth t]))"

section \<open>Canonical states\<close>

definition frontier_slot :: "('f list \<Rightarrow> 'f) \<Rightarrow> (nat \<Rightarrow> 'f) \<Rightarrow> nat \<Rightarrow> nat \<Rightarrow> 'f option" where
  "frontier_slot ps f n l =
     (if test_bit n l then Some (subtree_root ps f l (n div 2 ^ l - 1)) else None)"

definition frontier_mk ::
    "('f :: zero list \<Rightarrow> 'f) \<Rightarrow> nat \<Rightarrow> nat \<Rightarrow> nat \<Rightarrow> (nat \<Rightarrow> 'f option) \<Rightarrow> 'f notes_frontier" where
  "frontier_mk ps d sh n S = \<lparr>nf_depth = d, nf_shard_height = sh, nf_shard_size = 2 ^ sh,
     nf_leaf_count = n, nf_frontier = map S [0..<Suc d], nf_zeroes = map (zroot ps 0) [0..<Suc d]\<rparr>"

definition frontier_of ::
    "('f :: zero list \<Rightarrow> 'f) \<Rightarrow> nat \<Rightarrow> nat \<Rightarrow> 'f list \<Rightarrow> 'f notes_frontier" where
  "frontier_of ps d sh xs =
     frontier_mk ps d sh (length xs) (frontier_slot ps (padded 0 xs) (length xs))"

text \<open>The geometry and occupancy under which a state is canonical.\<close>

definition frontier_fits :: "nat \<Rightarrow> nat \<Rightarrow> 'f list \<Rightarrow> bool" where
  "frontier_fits d sh xs \<longleftrightarrow> 0 < sh \<and> sh < d \<and> d < 64 \<and> length xs \<le> 2 ^ d"

lemma frontier_mk_simps [simp]:
  "nf_depth (frontier_mk ps d sh n S) = d"
  "nf_shard_height (frontier_mk ps d sh n S) = sh"
  "nf_leaf_count (frontier_mk ps d sh n S) = n"
  "length (nf_frontier (frontier_mk ps d sh n S)) = Suc d"
  "l \<le> d \<Longrightarrow> nf_frontier (frontier_mk ps d sh n S) ! l = S l"
  "length (nf_zeroes (frontier_mk ps d sh n S)) = Suc d"
  "l \<le> d \<Longrightarrow> nf_zeroes (frontier_mk ps d sh n S) ! l = zroot ps 0 l"
  "nf_leaf_count_update (\<lambda>n. Suc n) (frontier_mk ps d sh n S) = frontier_mk ps d sh (Suc n) S"
  by (simp_all add: frontier_mk_def nth_append)

lemma frontier_mk_update [simp]:
  "nf_frontier_update (\<lambda>slots. slots[l := v]) (frontier_mk ps d sh n S) =
    frontier_mk ps d sh n (S(l := v))"
  by (simp add: frontier_mk_def list_update_map_upt fun_upd_def del: upt_Suc)

lemma frontier_mk_cong:
  "(\<And>l. l \<le> d \<Longrightarrow> S l = S' l) \<Longrightarrow> frontier_mk ps d sh n S = frontier_mk ps d sh n S'"
  by (simp add: frontier_mk_def del: upt_Suc)

lemma frontier_of_simps [simp]:
  "nf_depth (frontier_of ps d sh xs) = d"
  "nf_shard_height (frontier_of ps d sh xs) = sh"
  "nf_leaf_count (frontier_of ps d sh xs) = length xs"
  "length (nf_frontier (frontier_of ps d sh xs)) = Suc d"
  "l \<le> d \<Longrightarrow> nf_frontier (frontier_of ps d sh xs) ! l = frontier_slot ps (padded 0 xs) (length xs) l"
  "length (nf_zeroes (frontier_of ps d sh xs)) = Suc d"
  "l \<le> d \<Longrightarrow> nf_zeroes (frontier_of ps d sh xs) ! l = zroot ps 0 l"
  by (simp_all add: frontier_of_def)

lemma frontier_new_eq:
  assumes "0 < sh" and "sh < d" and "d < 64"
  shows "frontier_new ps d sh = Ok (frontier_of ps d sh [])"
proof -
  have "replicate (Suc d) None = map (frontier_slot ps (padded 0 []) 0) [0..<Suc d]"
    by (rule nth_equalityI) (simp_all add: frontier_slot_def test_bit_def del: upt_Suc replicate_Suc)
  then show ?thesis
    using assms
    by (simp add: frontier_new_def frontier_of_def frontier_mk_def zero_roots_eq del: upt_Suc replicate_Suc)
qed

lemma frontier_production_eq: "frontier_production ps = Ok (frontier_of ps 30 14 [])"
  by (simp add: frontier_production_def notes_tree_depth_def notes_shard_height_def frontier_new_eq)

section \<open>The root\<close>

lemma subtree_left:
  "odd (n div 2 ^ l) \<Longrightarrow>
    subtree_root ps f (Suc l) (n div 2 ^ Suc l) =
      ps [subtree_root ps f l (n div 2 ^ l - 1), subtree_root ps f l (n div 2 ^ l)]"
  by (simp add: subtree_root_pair tree_pair_odd del: subtree_root.simps power_Suc)

lemma subtree_right:
  "even (n div 2 ^ l) \<Longrightarrow>
    subtree_root ps f (Suc l) (n div 2 ^ Suc l) =
      ps [subtree_root ps f l (n div 2 ^ l), subtree_root ps f l (n div 2 ^ l + 1)]"
  by (simp add: subtree_root_pair tree_pair_even del: subtree_root.simps power_Suc)

lemma next_subtree_empty:
  "subtree_root ps (padded z xs) l (length xs div 2 ^ l + 1) = zroot ps z l"
  using dividend_less_div_times [of "2 ^ l" "length xs"]
  by (intro subtree_root_padding) simp

lemma frontier_root_level_eq:
  assumes "l < d"
  shows "frontier_root_level ps (frontier_of ps d sh xs) l
      (subtree_root ps (padded 0 xs) l (length xs div 2 ^ l), length xs div 2 ^ l) =
    Ok (subtree_root ps (padded 0 xs) (Suc l) (length xs div 2 ^ Suc l), length xs div 2 ^ Suc l)"
  using assms next_subtree_empty [of ps 0 xs l]
  by (cases "even (length xs div 2 ^ l)")
    (simp_all add: frontier_root_level_def subtree_left subtree_right frontier_slot_def test_bit_def
      del: subtree_root.simps power_Suc flip: half_div_pow)

lemma frontier_root_eq:
  assumes "d < 64" and "length xs \<le> 2 ^ d"
  shows "frontier_root ps (frontier_of ps d sh xs) = Ok (merkle_root ps 0 d xs)"
proof (cases "length xs = 2 ^ d")
  case True
  then show ?thesis
    using assms by (simp add: frontier_root_def frontier_slot_def test_bit_def merkle_root_def)
next
  case False
  let ?A = "\<lambda>l. (subtree_root ps (padded 0 xs) l (length xs div 2 ^ l), length xs div 2 ^ l)"
  have "rfold [0..<d] (frontier_root_level ps (frontier_of ps d sh xs)) (?A 0) = Ok (?A d)"
    by (rule rfold_upt) (simp_all add: frontier_root_level_eq del: subtree_root.simps power_Suc)
  moreover have "padded 0 xs (length xs) = 0" by (simp add: padded_def)
  ultimately show ?thesis
    using False assms by (simp add: frontier_root_def merkle_root_def)
qed

section \<open>Appending\<close>

definition completed_of :: "('f :: zero list \<Rightarrow> 'f) \<Rightarrow> nat \<Rightarrow> 'f list \<Rightarrow> 'f \<Rightarrow> 'f completed_shard option" where
  "completed_of ps sh xs x =
     (if 2 ^ sh dvd Suc (length xs)
      then Some \<lparr>cs_shard_index = length xs div 2 ^ sh,
                 cs_root = subtree_root ps (padded 0 (xs @ [x])) sh (length xs div 2 ^ sh)\<rparr>
      else None)"

lemma dvd_Suc_div: "2 ^ l dvd Suc n \<Longrightarrow> Suc n div 2 ^ l = Suc (n div 2 ^ l)"
  by (simp add: div_Suc dvd_eq_mod_eq_0)

lemma dvd_Suc_Suc: "2 ^ l dvd Suc n \<Longrightarrow> 2 ^ Suc l dvd Suc n \<longleftrightarrow> odd (n div 2 ^ l)"
proof -
  assume dvd: "2 ^ l dvd Suc n"
  then obtain k where k: "Suc n = 2 ^ l * k" by (auto simp: dvd_def)
  then have "k = Suc (n div 2 ^ l)" using dvd_Suc_div [OF dvd] by (metis nonzero_mult_div_cancel_left power_not_zero zero_neq_numeral)
  moreover have "2 ^ Suc l dvd Suc n \<longleftrightarrow> 2 dvd k" unfolding k by (simp add: mult.commute [of 2])
  ultimately show ?thesis by simp
qed

lemma not_dvd_Suc_div: "\<not> 2 ^ l dvd Suc n \<Longrightarrow> Suc n div 2 ^ l = n div 2 ^ l"
  by (simp add: div_Suc dvd_eq_mod_eq_0)

lemma pow_dvd_mono: "2 ^ l dvd (n :: nat) \<Longrightarrow> k \<le> l \<Longrightarrow> 2 ^ k dvd n"
  by (meson dvd_trans le_imp_power_dvd)

lemma frontier_slot_append:
  assumes "test_bit (length xs) l"
  shows "frontier_slot ps (padded z (xs @ ys)) (length xs) l = frontier_slot ps (padded z xs) (length xs) l"
proof -
  have "0 < length xs div 2 ^ l" using assms by (cases "length xs div 2 ^ l") (auto simp: test_bit_def)
  then have "(length xs div 2 ^ l - 1 + 1) * 2 ^ l \<le> length xs" by simp
  then show ?thesis by (simp add: frontier_slot_def subtree_root_append)
qed

text \<open>The slots when the loop stops at level \<open>l\<close>, the first clear bit.\<close>

lemma frontier_slots_Suc:
  assumes "2 ^ l dvd Suc (length xs)" and "even (length xs div 2 ^ l)"
  shows "(\<lambda>j. if j < l then None else frontier_slot ps (padded z xs) (length xs) j)
      (l := Some (subtree_root ps (padded z (xs @ [x])) l (length xs div 2 ^ l))) =
    frontier_slot ps (padded z (xs @ [x])) (Suc (length xs))"
proof (rule ext)
  fix j
  consider "j < l" | "j = l" | "l < j" by linarith
  then show "((\<lambda>j. if j < l then None else frontier_slot ps (padded z xs) (length xs) j)
      (l := Some (subtree_root ps (padded z (xs @ [x])) l (length xs div 2 ^ l)))) j =
    frontier_slot ps (padded z (xs @ [x])) (Suc (length xs)) j"
  proof cases
    case 1
    then have "2 ^ Suc j dvd Suc (length xs)" using pow_dvd_mono [OF assms(1), of "Suc j"] by simp
    then obtain k where "Suc (length xs) = 2 ^ Suc j * k" by (rule dvdE)
    then have "Suc (length xs) = 2 ^ j * (2 * k)" by simp
    then have "Suc (length xs) div 2 ^ j = 2 * k"
      by (metis nonzero_mult_div_cancel_left power_not_zero zero_neq_numeral)
    then have "even (Suc (length xs) div 2 ^ j)" by (metis dvd_triv_left)
    with 1 show ?thesis by (simp add: frontier_slot_def test_bit_def)
  next
    case 2
    then show ?thesis using assms by (simp add: frontier_slot_def test_bit_def dvd_Suc_div)
  next
    case 3
    have "\<not> 2 ^ Suc l dvd Suc (length xs)" using assms dvd_Suc_Suc by blast
    then have "\<not> 2 ^ j dvd Suc (length xs)" using 3 pow_dvd_mono [of j _ "Suc l"] by auto
    then have div: "Suc (length xs) div 2 ^ j = length xs div 2 ^ j" by (rule not_dvd_Suc_div)
    have "frontier_slot ps (padded z (xs @ [x])) (length xs) j = frontier_slot ps (padded z xs) (length xs) j"
      by (cases "test_bit (length xs) j") (rule frontier_slot_append, simp_all add: frontier_slot_def)
    then show ?thesis using 3 div by (auto simp: frontier_slot_def test_bit_def simp del: One_nat_def)
  qed
qed

text \<open>One level at a set bit joins the stored left half with the carried node.\<close>

lemma frontier_join:
  assumes "2 ^ l dvd Suc (length xs)" and "odd (length xs div 2 ^ l)"
  shows "frontier_slot ps (padded z xs) (length xs) l = Some left \<Longrightarrow>
    ps [left, subtree_root ps (padded z (xs @ [x])) l (length xs div 2 ^ l)] =
      subtree_root ps (padded z (xs @ [x])) (Suc l) (length xs div 2 ^ Suc l)"
proof -
  assume "frontier_slot ps (padded z xs) (length xs) l = Some left"
  then have "frontier_slot ps (padded z (xs @ [x])) (length xs) l = Some left"
    using assms(2) by (simp add: frontier_slot_append test_bit_def)
  then show ?thesis
    using assms(2) by (simp add: frontier_slot_def test_bit_def subtree_left del: subtree_root.simps power_Suc)
qed

lemma frontier_append_loop_eq:
  fixes xs :: "'f :: zero list" and ps :: "'f list \<Rightarrow> 'f"
  assumes "l + k = d" and "length xs < 2 ^ d" and "2 ^ l dvd Suc (length xs)" and "0 < sh" and "sh < d"
  shows "frontier_append_loop ps (length xs) [l..<d + 1]
      (length xs div 2 ^ l, subtree_root ps (padded 0 (xs @ [x])) l (length xs div 2 ^ l),
       if sh \<le> l then completed_of ps sh xs x else None)
      (frontier_mk ps d sh (length xs)
        (\<lambda>j. if j < l then None else frontier_slot ps (padded 0 xs) (length xs) j)) =
    (Ok (completed_of ps sh xs x),
     frontier_mk ps d sh (length xs) (frontier_slot ps (padded 0 (xs @ [x])) (Suc (length xs))))"
    (is "frontier_append_loop ps ?n _ (?cur l, ?node l, ?done l) (?st l) = ?res")
  using assms
proof (induction k arbitrary: l)
  case 0
  then have l: "l = d" by simp
  have "even (?cur d)" using 0 by simp
  then show ?case
    using 0 frontier_slots_Suc [of l xs ps 0 x] by (simp add: l sm_simps del: upt_Suc)
      (simp add: upt_rec [of d] sm_simps)
next
  case (Suc k)
  then have lt: "l < d" by simp
  have upt: "[l..<d + 1] = l # [Suc l..<d + 1]" using lt by (simp add: upt_conv_Cons del: upt_Suc)
  show ?case
  proof (cases "even (?cur l)")
    case True
    have "\<not> 2 ^ Suc l dvd Suc ?n" using dvd_Suc_Suc [OF Suc.prems(3)] True by simp
    then have "?done l = completed_of ps sh xs x"
      using pow_dvd_mono [of sh "Suc ?n" "Suc l"] by (auto simp: completed_of_def)
    then show ?thesis
      using True lt frontier_slots_Suc [OF Suc.prems(3) True, of ps 0 x]
      by (simp only: upt) (simp add: sm_simps)
  next
    case False
    then obtain left where left: "frontier_slot ps (padded 0 xs) ?n l = Some left"
      by (simp add: frontier_slot_def test_bit_def)
    have dvd: "2 ^ Suc l dvd Suc ?n" using dvd_Suc_Suc [OF Suc.prems(3)] False by simp
    have slots: "(\<lambda>j. if j < l then None else frontier_slot ps (padded 0 xs) ?n j)(l := None) =
        (\<lambda>j. if j < Suc l then None else frontier_slot ps (padded 0 xs) ?n j)" by auto
    have shard: "(if l + 1 = sh then Some \<lparr>cs_shard_index = ?n div 2 ^ sh, cs_root = ?node (Suc l)\<rparr> else ?done l) =
        ?done (Suc l)"
      using dvd by (auto simp: completed_of_def)
    have "frontier_append_loop ps ?n [l..<d + 1] (?cur l, ?node l, ?done l) (?st l) =
        frontier_append_loop ps ?n [Suc l..<d + 1] (?cur (Suc l), ?node (Suc l), ?done (Suc l)) (?st (Suc l))"
      using False lt left frontier_join [OF Suc.prems(3) False left, of x]
      by (simp only: upt) (simp add: sm_simps Let_def slots shard half_div_pow [symmetric]
          del: subtree_root.simps power_Suc flip: shard)
    also have "\<dots> = ?res"
      by (rule Suc.IH) (use Suc.prems dvd in simp_all)
    finally show ?thesis .
  qed
qed

lemma frontier_append_eq:
  fixes xs :: "'f :: zero list" and ps :: "'f list \<Rightarrow> 'f"
  assumes "frontier_fits d sh xs" and "length xs < 2 ^ d"
  shows "frontier_append ps x (frontier_of ps d sh xs) =
    (Ok \<lparr>fa_leaf_index = length xs, fa_completed_shard = completed_of ps sh xs x\<rparr>,
     frontier_of ps d sh (xs @ [x]))"
  using assms frontier_append_loop_eq [of 0 d d xs sh ps x]
  by (simp add: frontier_append_def sm_simps frontier_fits_def Let_def frontier_of_def del: upt_Suc)

lemma frontier_append_full:
  assumes "frontier_fits d sh xs" and "length xs = 2 ^ d"
  shows "frontier_append ps x (frontier_of ps d sh xs) = (Err (TreeFull d), frontier_of ps d sh xs)"
  using assms by (simp add: frontier_append_def sm_simps frontier_fits_def)

text \<open>The shards a batch completes: those that end inside it.\<close>

fun completed_list :: "('f :: zero list \<Rightarrow> 'f) \<Rightarrow> nat \<Rightarrow> 'f list \<Rightarrow> 'f list \<Rightarrow> 'f completed_shard list" where
  "completed_list ps sh xs [] = []"
| "completed_list ps sh xs (y # ys) =
     (case completed_of ps sh xs y of Some c \<Rightarrow> [c] | None \<Rightarrow> []) @ completed_list ps sh (xs @ [y]) ys"

lemma frontier_append_steps_eq:
  "frontier_fits d sh (xs @ ys) \<Longrightarrow>
    sfold ys (frontier_append_step ps) acc (frontier_of ps d sh xs) =
      (Ok (acc @ completed_list ps sh xs ys), frontier_of ps d sh (xs @ ys))"
proof (induction ys arbitrary: xs acc)
  case Nil
  then show ?case by (simp add: sret_def)
next
  case (Cons y ys)
  then have "frontier_fits d sh xs" "length xs < 2 ^ d" "frontier_fits d sh ((xs @ [y]) @ ys)"
    by (simp_all add: frontier_fits_def)
  then show ?case
    using Cons.IH [of "xs @ [y]"]
    by (cases "completed_of ps sh xs y")
      (simp_all add: frontier_append_step_def sbind_def frontier_append_eq sret_def)
qed

lemma frontier_append_many_eq:
  assumes "frontier_fits d sh xs"
  shows "frontier_append_many ps ys (frontier_of ps d sh xs) =
    (if length (xs @ ys) \<le> 2 ^ d
     then (Ok (completed_list ps sh xs ys), frontier_of ps d sh (xs @ ys))
     else (Err (TreeFull d), frontier_of ps d sh xs))"
proof -
  have "frontier_fits d sh (xs @ ys)" if "length (xs @ ys) \<le> 2 ^ d"
    using assms that by (simp add: frontier_fits_def)
  from frontier_append_steps_eq [OF this, of ps "[]"] show ?thesis
    using assms by (auto simp: frontier_append_many_def sm_simps frontier_fits_def guard_def)
qed

text \<open>Every completed shard is reported once, in order, with its root in the final tree.\<close>

lemma completed_list_eq:
  "0 < sh \<Longrightarrow> completed_list ps sh xs ys =
    map (\<lambda>s. \<lparr>cs_shard_index = s, cs_root = subtree_root ps (padded 0 (xs @ ys)) sh s\<rparr>)
      [length xs div 2 ^ sh..<length (xs @ ys) div 2 ^ sh]"
proof (induction ys arbitrary: xs)
  case Nil
  then show ?case by simp
next
  case (Cons y ys)
  let ?n = "length xs" and ?q = "length xs div 2 ^ sh"
  note IH = Cons.IH [OF Cons.prems, of "xs @ [y]"]
  show ?case
  proof (cases "2 ^ sh dvd Suc ?n")
    case True
    then have div: "Suc ?n div 2 ^ sh = Suc ?q" by (rule dvd_Suc_div)
    have le: "Suc ?q \<le> length (xs @ y # ys) div 2 ^ sh"
      unfolding div [symmetric] by (rule div_le_mono) simp
    have "(?q + 1) * 2 ^ sh \<le> length (xs @ [y])"
      using div div_times_less_eq_dividend [of "Suc ?n" "2 ^ sh"] by simp
    then have "subtree_root ps (padded 0 ((xs @ [y]) @ ys)) sh ?q = subtree_root ps (padded 0 (xs @ [y])) sh ?q"
      by (rule subtree_root_append)
    then show ?thesis
      using True IH div le by (simp add: completed_of_def upt_conv_Cons)
  next
    case False
    then show ?thesis using IH by (simp add: completed_of_def not_dvd_Suc_div)
  qed
qed

section \<open>Siblings and the next leaf's frontier\<close>

lemma new_leaf_sibling:
  assumes "l < d"
  shows "(if \<not> test_bit (length xs) l then Ok (zroot ps 0 l)
      else ok_or (frontier_slot ps (padded 0 xs) (length xs) l) e) =
    Ok (subtree_root ps (padded 0 (xs @ [x])) l (sibling_index (length xs div 2 ^ l)))"
proof (cases "test_bit (length xs) l")
  case True
  then show ?thesis
    using frontier_slot_append [OF True, of ps 0 "[x]"]
    by (auto simp: frontier_slot_def sibling_index_def test_bit_def)
next
  case False
  have "Suc (length xs) \<le> (length xs div 2 ^ l + 1) * 2 ^ l"
    using dividend_less_div_times [of "2 ^ l" "length xs"] by simp
  then have "subtree_root ps (padded 0 (xs @ [x])) l (length xs div 2 ^ l + 1) = zroot ps 0 l"
    by (intro subtree_root_padding) simp
  with False show ?thesis by (simp add: sibling_index_def test_bit_def)
qed

lemma frontier_append_with_siblings_eq:
  assumes "frontier_fits d sh xs" and "length xs < 2 ^ d"
  shows "frontier_append_with_siblings ps x (frontier_of ps d sh xs) =
    (Ok (\<lparr>fa_leaf_index = length xs, fa_completed_shard = completed_of ps sh xs x\<rparr>,
         tree_siblings ps (padded 0 (xs @ [x])) d (length xs)),
     frontier_of ps d sh (xs @ [x]))"
proof -
  let ?t = "frontier_of ps d sh xs"
  have "rmap (\<lambda>level. if \<not> test_bit (length xs) level then idx (nf_zeroes ?t) level
        else rbind (idx (nf_frontier ?t) level) (\<lambda>slot. ok_or slot (empty_level_error level))) [0..<d] =
      Ok (tree_siblings ps (padded 0 (xs @ [x])) d (length xs))"
    unfolding tree_siblings_def
  proof (rule rmap_Ok)
    fix l assume "l \<in> set [0..<d]"
    then have l: "l < d" by simp
    then show "(if \<not> test_bit (length xs) l then idx (nf_zeroes ?t) l
        else rbind (idx (nf_frontier ?t) l) (\<lambda>slot. ok_or slot (empty_level_error l))) =
      Ok (subtree_root ps (padded 0 (xs @ [x])) l (sibling_index (length xs div 2 ^ l)))"
      using new_leaf_sibling [OF l, of xs ps "empty_level_error l" x] by (auto split: if_splits)
  qed
  then show ?thesis
    using frontier_append_eq [OF assms, of ps x]
    by (simp add: frontier_append_with_siblings_def sm_simps Let_def)
qed

lemma frontier_next_leaf_frontier_eq:
  assumes "d < 64" and "length xs < 2 ^ d"
  shows "frontier_next_leaf_frontier (frontier_of ps d sh xs) =
    Ok (next_frontier ps (padded 0 xs) d (length xs))"
  using assms
  by (auto simp: frontier_next_leaf_frontier_def next_frontier_def frontier_slot_def test_bit_def
      intro!: rmap_Ok)

lemma frontier_next_leaf_frontier_full:
  "d < 64 \<Longrightarrow> length xs = 2 ^ d \<Longrightarrow>
    frontier_next_leaf_frontier (frontier_of ps d sh xs) = Err (TreeFull d)"
  by (simp add: frontier_next_leaf_frontier_def)

lemma frontier_shard_count_eq [simp]: "frontier_shard_count (frontier_of ps d sh xs) = length xs div 2 ^ sh"
  by (simp add: frontier_shard_count_def)

lemmas frontier_of_ops = frontier_new_eq frontier_root_eq frontier_append_eq frontier_append_many_eq
  frontier_append_with_siblings_eq frontier_next_leaf_frontier_eq

section \<open>Folding a leaf into the frontier\<close>

text \<open>
  What a circuit does with the next-leaf frontier: walk up from the new leaf, taking the
  left neighbour from the frontier where the path turns right and an empty subtree where it
  turns left.
\<close>

definition fold_frontier :: "('f :: zero list \<Rightarrow> 'f) \<Rightarrow> 'f list \<Rightarrow> nat \<Rightarrow> 'f \<Rightarrow> 'f" where
  "fold_frontier ps lefts n x = fold (\<lambda>l node.
     if odd (n div 2 ^ l) then ps [lefts ! l, node] else ps [node, zroot ps 0 l]) [0..<length lefts] x"

lemma fold_frontier_eq:
  fixes ps :: "'f :: zero list \<Rightarrow> 'f" and xs :: "'f list"
  assumes "length xs < 2 ^ d"
  shows "fold_frontier ps (next_frontier ps (padded 0 xs) d (length xs)) (length xs) x = merkle_root ps 0 d (xs @ [x])"
proof -
  let ?n = "length xs" and ?f = "padded 0 (xs @ [x])"
  let ?step = "\<lambda>l node. if odd (?n div 2 ^ l)
      then ps [next_frontier ps (padded 0 xs) d ?n ! l, node] else ps [node, zroot ps 0 l]"
  have "k \<le> d \<Longrightarrow> fold ?step [0..<k] x = subtree_root ps ?f k (?n div 2 ^ k)" for k
  proof (induction k)
    case 0
    then show ?case by (simp add: padded_def)
  next
    case (Suc k)
    then have IH: "fold ?step [0..<k] x = subtree_root ps ?f k (?n div 2 ^ k)" by simp
    show ?case
    proof (cases "odd (?n div 2 ^ k)")
      case True
      then have "0 < ?n div 2 ^ k" by (cases "?n div 2 ^ k") auto
      then have "(?n div 2 ^ k - 1 + 1) * 2 ^ k \<le> ?n" by simp
      then have "subtree_root ps (padded 0 xs) k (?n div 2 ^ k - 1) = subtree_root ps ?f k (?n div 2 ^ k - 1)"
        by (simp add: subtree_root_append)
      then show ?thesis using True IH Suc.prems
        by (simp add: next_frontier_def subtree_left del: subtree_root.simps power_Suc)
    next
      case False
      have "?n < (?n div 2 ^ k + 1) * 2 ^ k"
        using dividend_less_div_times [of "2 ^ k" ?n] by simp
      then have "subtree_root ps ?f k (?n div 2 ^ k + 1) = zroot ps 0 k" by (intro subtree_root_padding) simp
      then show ?thesis using False IH by (simp add: subtree_right del: subtree_root.simps power_Suc)
    qed
  qed
  moreover have "length (next_frontier ps (padded 0 xs) d ?n) = d" by (simp add: next_frontier_def)
  ultimately show ?thesis using assms by (simp add: fold_frontier_def merkle_root_def)
qed

lemma shard_merkle_root:
  assumes "(s + 1) * 2 ^ sh \<le> length xs"
  shows "merkle_root ps z sh (take (2 ^ sh) (drop (s * 2 ^ sh) xs)) = subtree_root ps (padded z xs) sh s"
proof -
  have "subtree_root ps (padded z (take (2 ^ sh) (drop (s * 2 ^ sh) xs))) sh 0 =
      subtree_root ps (\<lambda>j. padded z xs (j + s * 2 ^ sh)) sh 0"
    by (rule subtree_root_cong) (use assms in \<open>auto simp: padded_def add.commute\<close>)
  then show ?thesis using subtree_root_shift [of ps "padded z xs" s sh 0] by (simp add: merkle_root_def)
qed

section \<open>Properties\<close>

text \<open>
  C6: \<open>NotesFrontier\<close> is the fixed-depth tree without its leaves: from a new frontier, a log
  of any length up to the capacity is accepted by \<open>append_many\<close>, the root is that of the
  \<open>Imt\<close> bulk-built from the same log, and the completed shards reported are exactly the full
  shards of the log, in order, each with the root of the \<open>Imt\<close> over its own leaves.  A batch
  that does not fit is \<open>TreeFull\<close> and leaves the frontier untouched.
\<close>

theorem frontier_is_the_tree:
  fixes ps :: "'f :: zero list \<Rightarrow> 'f"
  assumes "0 < sh" and "sh < d" and "d < 64"
  shows "\<exists>t. frontier_new ps d sh = Ok t \<and>
    (\<forall>xs. if length xs \<le> 2 ^ d then
        (\<exists>shards t'. frontier_append_many ps xs t = (Ok shards, t') \<and> nf_leaf_count t' = length xs \<and>
          frontier_root ps t' = rbind (imt_from_leaves ps d xs) imt_root \<and>
          map cs_shard_index shards = [0..<length xs div 2 ^ sh] \<and>
          (\<forall>c \<in> set shards. Ok (cs_root c) =
             rbind (imt_from_leaves ps sh (take (2 ^ sh) (drop (cs_shard_index c * 2 ^ sh) xs))) imt_root))
      else frontier_append_many ps xs t = (Err (TreeFull d), t))"
proof -
  have new: "frontier_new ps d sh = Ok (frontier_of ps d sh [])" using assms by (rule frontier_new_eq)
  have fits: "frontier_fits d sh ([] :: 'f list)" using assms by (simp add: frontier_fits_def)
  have shard: "Ok (subtree_root ps (padded 0 xs) sh s) =
      rbind (imt_from_leaves ps sh (take (2 ^ sh) (drop (s * 2 ^ sh) xs))) imt_root"
    if "s < length xs div 2 ^ sh" for s and xs :: "'f list"
  proof -
    have "(s + 1) * 2 ^ sh \<le> length xs" using that by (rule less_div_mult)
    then show ?thesis
      using assms by (simp add: imt_from_leaves_def imt_from_leaves_with_zero_eq imt_root_eq shard_merkle_root)
  qed
  have many: "frontier_append_many ps xs (frontier_of ps d sh []) =
      (if length xs \<le> 2 ^ d then (Ok (completed_list ps sh [] xs), frontier_of ps d sh xs)
       else (Err (TreeFull d), frontier_of ps d sh []))" for xs
    using frontier_append_many_eq [OF fits, of ps xs] by simp
  show ?thesis
    using assms shard
    by (auto simp: new many completed_list_eq comp_def frontier_root_eq imt_from_leaves_def
        imt_from_leaves_with_zero_eq imt_root_eq)
qed

theorem frontier_is_the_tree_witness:
  "\<exists>t. frontier_new sum_list 3 1 = Ok t \<and> frontier_append_many sum_list (replicate 9 (1 :: nat)) t = (Err (TreeFull 3), t)"
  using frontier_is_the_tree [of 1 3 "sum_list :: nat list \<Rightarrow> nat"] by (force simp: numeral_eq_Suc)

text \<open>
  One \<open>append\<close> to a frontier with room: it returns the position it used and the shard it
  completes, if any; \<open>append_with_siblings\<close> has the same effect and returns the siblings that
  prove the new leaf against the new root at the pinned depth - the siblings of the \<open>Imt\<close>'s own
  proof; a full frontier refuses with \<open>TreeFull\<close>.  Batches compose: appending one batch after
  another is appending their concatenation.
\<close>

theorem frontier_append_proves_the_leaf:
  assumes "frontier_fits d sh xs" and "length xs < 2 ^ d"
  shows "\<exists>t' siblings root. frontier_append_with_siblings ps x (frontier_of ps d sh xs) =
      (Ok (\<lparr>fa_leaf_index = length xs, fa_completed_shard = completed_of ps sh xs x\<rparr>, siblings), t') \<and>
    frontier_append ps x (frontier_of ps d sh xs) =
      (Ok \<lparr>fa_leaf_index = length xs, fa_completed_shard = completed_of ps sh xs x\<rparr>, t') \<and>
    frontier_root ps t' = Ok root \<and>
    verify_proof_at_depth ps \<lparr>ip_leaf = x, ip_index = length xs, ip_siblings = siblings, ip_root = root\<rparr> d \<and>
    imt_create_proof (imt_of ps d 0 (xs @ [x])) (length xs) =
      Ok \<lparr>ip_leaf = x, ip_index = length xs, ip_siblings = siblings, ip_root = root\<rparr> \<and>
    (\<forall>ys. length (xs @ x # ys) \<le> 2 ^ d \<longrightarrow>
       snd (frontier_append_many ps ys t') = snd (frontier_append_many ps (x # ys) (frontier_of ps d sh xs)))"
proof -
  have d: "d < 64" and fits: "frontier_fits d sh (xs @ [x])" using assms by (simp_all add: frontier_fits_def)
  let ?p = "\<lparr>ip_leaf = x, ip_index = length xs,
      ip_siblings = tree_siblings ps (padded 0 (xs @ [x])) d (length xs), ip_root = merkle_root ps 0 d (xs @ [x])\<rparr>"
  have p: "?p = proof_of ps d 0 (xs @ [x]) (length xs)" by (simp add: proof_of_def)
  have "verify_proof_at_depth ps ?p d" unfolding p using d assms(2) by (rule proof_of_verifies)
  moreover have "imt_create_proof (imt_of ps d 0 (xs @ [x])) (length xs) = Ok ?p"
    unfolding p using assms(2) by (intro imt_create_proof_eq) simp_all
  moreover have "snd (frontier_append_many ps ys (frontier_of ps d sh (xs @ [x]))) =
      snd (frontier_append_many ps (x # ys) (frontier_of ps d sh xs))" if "length (xs @ x # ys) \<le> 2 ^ d" for ys
    using that frontier_append_many_eq [OF fits, of ps ys] frontier_append_many_eq [OF assms(1), of ps "x # ys"] by simp
  ultimately show ?thesis
    using assms d by (simp add: frontier_append_with_siblings_eq frontier_append_eq frontier_root_eq)
qed

theorem frontier_append_proves_the_leaf_witness:
  "fst (frontier_append sum_list 7 (frontier_of sum_list 3 1 [5 :: nat])) =
    Ok \<lparr>fa_leaf_index = 1, fa_completed_shard = Some \<lparr>cs_shard_index = 0, cs_root = 12\<rparr>\<rparr>"
  using frontier_append_proves_the_leaf [of 3 1 "[5 :: nat]" sum_list 7]
  by (auto simp: frontier_fits_def completed_of_def padded_def)

text \<open>
  The next-leaf frontier is sufficient: \<open>Imt\<close> and \<open>NotesFrontier\<close> over the same log with
  room return the same list, and folding any leaf into it gives the root after that leaf is
  appended; both refuse with \<open>TreeFull\<close> when there is no next leaf.
\<close>

theorem next_leaf_frontier_suffices:
  assumes "frontier_fits d sh xs"
  shows "if length xs < 2 ^ d
    then \<exists>lefts. imt_next_leaf_frontier (imt_of ps d 0 xs) = Ok lefts \<and>
      frontier_next_leaf_frontier (frontier_of ps d sh xs) = Ok lefts \<and>
      (\<forall>x. imt_root (snd (imt_insert ps x (imt_of ps d 0 xs))) = Ok (fold_frontier ps lefts (length xs) x))
    else imt_next_leaf_frontier (imt_of ps d 0 xs) = Err (TreeFull d) \<and>
      frontier_next_leaf_frontier (frontier_of ps d sh xs) = Err (TreeFull d)"
  using assms
  by (simp add: frontier_fits_def imt_next_leaf_frontier_eq frontier_next_leaf_frontier_eq imt_insert_eq
      imt_root_eq fold_frontier_eq imt_next_leaf_frontier_full frontier_next_leaf_frontier_full)

theorem next_leaf_frontier_suffices_witness:
  "\<exists>lefts. imt_next_leaf_frontier (imt_of sum_list 3 0 [5 :: nat]) = Ok lefts \<and>
    frontier_next_leaf_frontier (frontier_of sum_list 3 1 [5 :: nat]) = Ok lefts"
  using next_leaf_frontier_suffices [of 3 1 "[5 :: nat]" sum_list] by (auto simp: frontier_fits_def)

end
