(* ===== verification/Field_Codec.thy ===== *)
theory Field_Codec
  imports Prelude
begin

text \<open>
  The BN254 scalar field and its encodings: \<open>crates/core/src/field.rs\<close>,
  \<open>crates/core/src/secret_field.rs\<close> and \<open>crates/core/src/encoding.rs\<close>.  A field element is
  its canonical representative below the modulus; the Montgomery residues that
  \<open>secret_field\<close> computes on are 256-bit words.  Strings are their bytes, as the parsers
  read them.
\<close>

section \<open>The field\<close>

definition fr_modulus :: nat where
  "fr_modulus = 21888242871839275222246405745257275088548364400416034343698204186575808495617"

lemma fr_modulus_gt [simp]: "0 < fr_modulus" "1 < fr_modulus" "fr_modulus \<noteq> 0" "Suc 0 < fr_modulus"
  by (simp_all add: fr_modulus_def)

lemma fr_modulus_lt: "2 * fr_modulus < 2 ^ 256" "fr_modulus < 256 ^ 32" "fr_modulus < 10 ^ 77"
  by (simp_all add: fr_modulus_def)

typedef fr = "{n :: nat. n < fr_modulus}"
  morphisms fr_rep fr_abs
  by (rule exI [of _ 0]) simp

setup_lifting type_definition_fr

instantiation fr :: comm_ring_1
begin

lift_definition zero_fr :: fr is 0 by simp

lift_definition one_fr :: fr is 1 by simp

lift_definition plus_fr :: "fr \<Rightarrow> fr \<Rightarrow> fr" is "\<lambda>a b. (a + b) mod fr_modulus" by simp

lift_definition times_fr :: "fr \<Rightarrow> fr \<Rightarrow> fr" is "\<lambda>a b. (a * b) mod fr_modulus" by simp

lift_definition uminus_fr :: "fr \<Rightarrow> fr" is "\<lambda>a. (fr_modulus - a) mod fr_modulus" by simp

lift_definition minus_fr :: "fr \<Rightarrow> fr \<Rightarrow> fr" is "\<lambda>a b. (a + (fr_modulus - b)) mod fr_modulus" by simp

instance
proof
  fix a b c :: fr
  show "a + b + c = a + (b + c)" by transfer (simp add: mod_simps add.assoc)
  show "a + b = b + a" by transfer (simp add: add.commute)
  show "0 + a = a" by transfer simp
  show "- a + a = 0" by transfer (simp add: mod_simps)
  show "a - b = a + - b" by transfer (simp add: mod_simps)
  show "a * b * c = a * (b * c)" by transfer (simp add: mod_simps mult.assoc)
  show "a * b = b * a" by transfer (simp add: mult.commute)
  show "1 * a = a" by transfer simp
  show "(a + b) * c = a * c + b * c" by transfer (simp add: mod_simps algebra_simps)
  show "(0 :: fr) \<noteq> 1" by transfer simp
qed

end

instantiation fr :: equal
begin

definition equal_fr :: "fr \<Rightarrow> fr \<Rightarrow> bool" where
  "equal_fr x y = (fr_rep x = fr_rep y)"

instance
  by standard (simp add: equal_fr_def fr_rep_inject)

end

text \<open>An unsigned integer reduced into the field (\<open>from_be_bytes_mod_order\<close>, \<open>Element::new\<close>).\<close>

lift_definition fr_of_nat :: "nat \<Rightarrow> fr" is "\<lambda>n. n mod fr_modulus" by simp

lemma fr_rep_less [simp]: "fr_rep x < fr_modulus"
  using fr_rep [of x] by simp

lemma fr_rep_less_be_32 [simp]: "fr_rep x < 256 ^ 32"
  using fr_rep_less [of x] fr_modulus_lt(2) by (rule less_trans)

lemma fr_rep_of_nat [simp]: "fr_rep (fr_of_nat n) = n mod fr_modulus"
  by transfer simp

lemma fr_of_nat_rep [simp]: "fr_of_nat (fr_rep x) = x"
  by (simp add: fr_rep_inject [symmetric])

lemma fr_rep_simps [simp]:
  "fr_rep 0 = 0" "fr_rep 1 = 1"
  "fr_rep (x + y) = (fr_rep x + fr_rep y) mod fr_modulus"
  "fr_rep (x * y) = (fr_rep x * fr_rep y) mod fr_modulus"
  "fr_rep (- x) = (fr_modulus - fr_rep x) mod fr_modulus"
  by (transfer, simp)+

lemma fr_eqI: "fr_rep x = fr_rep y \<Longrightarrow> x = y"
  by (simp add: fr_rep_inject)

lemma fr_of_nat_add: "fr_of_nat (m + n) = fr_of_nat m + fr_of_nat n"
  by (rule fr_eqI) (simp add: mod_simps)

lemma fr_of_nat_mult: "fr_of_nat (m * n) = fr_of_nat m * fr_of_nat n"
  by (rule fr_eqI) (simp add: mod_simps)

lemma fr_of_nat_0 [simp]: "fr_of_nat 0 = 0"
  by (rule fr_eqI) simp

text \<open>Literals.\<close>

lemma of_nat_fr: "of_nat n = fr_of_nat n"
proof (induction n)
  case (Suc n)
  have "fr_of_nat 1 = 1" by (rule fr_eqI) (simp add: fr_modulus_def)
  then show ?case using Suc fr_of_nat_add [of 1 n] by simp
qed simp

lemma fr_rep_numeral [simp]: "fr_rep (numeral k) = numeral k mod fr_modulus"
  using arg_cong [OF of_nat_fr [of "numeral k"], of fr_rep] by simp

lemma fr_eq_iff: "x = y \<longleftrightarrow> fr_rep x = fr_rep y"
  by (simp add: fr_rep_inject)

lemma fr_literal_eq [simp]:
  "(numeral j :: fr) = numeral k \<longleftrightarrow> numeral j mod fr_modulus = (numeral k mod fr_modulus :: nat)"
  "(0 :: fr) = numeral k \<longleftrightarrow> numeral k mod fr_modulus = (0 :: nat)"
  "(numeral k :: fr) = 0 \<longleftrightarrow> numeral k mod fr_modulus = (0 :: nat)"
  "(1 :: fr) = numeral k \<longleftrightarrow> numeral k mod fr_modulus = (1 :: nat)"
  "(numeral k :: fr) = 1 \<longleftrightarrow> numeral k mod fr_modulus = (1 :: nat)"
  by (auto simp: fr_eq_iff)

section \<open>Arithmetic on Montgomery residues\<close>

type_synonym u256 = "256 word"

definition modulus_word :: u256 where
  "modulus_word = of_nat fr_modulus"

text \<open>\<open>wrapping_add\<close>, \<open>wrapping_sub\<close>, then the constant-time choice of the reduced sum.\<close>

definition secret_add :: "u256 \<Rightarrow> u256 \<Rightarrow> u256" where
  "secret_add left right =
     (let sum = left + right;
          reduced = sum - modulus_word
      in if \<not> sum < modulus_word then reduced else sum)"

text \<open>\<open>borrowing_sub\<close> from zero borrows exactly when the value is not zero.\<close>

definition secret_negate :: "u256 \<Rightarrow> u256" where
  "secret_negate v =
     (let difference = 0 - v;
          borrow = (0 < v);
          corrected = difference + modulus_word
      in if borrow then corrected else difference)"

lemma unat_modulus_word [simp]: "unat modulus_word = fr_modulus"
  by (simp add: modulus_word_def fr_modulus_def unat_of_nat take_bit_eq_mod)

lemma secret_add_unat:
  assumes "unat l < fr_modulus" and "unat r < fr_modulus"
  shows "unat (secret_add l r) = (unat l + unat r) mod fr_modulus"
proof -
  have "unat l + unat r < 2 ^ LENGTH(256)" using assms fr_modulus_lt(1) by simp
  then have sum: "unat (l + r) = unat l + unat r" by (simp add: unat_plus_if_size word_size)
  show ?thesis
  proof (cases "l + r < modulus_word")
    case True
    then have "unat l + unat r < fr_modulus" using sum by (simp add: word_less_nat_alt)
    then show ?thesis using True sum by (simp add: secret_add_def Let_def)
  next
    case False
    then have ge: "fr_modulus \<le> unat l + unat r" using sum by (simp add: word_less_nat_alt)
    then have "unat (l + r - modulus_word) = unat l + unat r - fr_modulus"
      using sum by (simp add: unat_sub_if_size)
    moreover have "(unat l + unat r) mod fr_modulus = unat l + unat r - fr_modulus"
      using ge assms by (simp add: le_mod_geq)
    ultimately show ?thesis using False by (simp add: secret_add_def Let_def)
  qed
qed

lemma secret_negate_unat:
  assumes "unat v < fr_modulus"
  shows "unat (secret_negate v) = (fr_modulus - unat v) mod fr_modulus"
proof (cases "v = 0")
  case True
  then show ?thesis by (simp add: secret_negate_def)
next
  case False
  then have pos: "0 < v" "0 < unat v" by (simp_all add: word_greater_zero_iff unat_gt_0)
  have "unat (- v + modulus_word) = unat (modulus_word - v)" by simp
  also have "\<dots> = fr_modulus - unat v" using assms by (simp add: unat_sub_if_size)
  finally show ?thesis using pos by (simp add: secret_negate_def Let_def)
qed

text \<open>
  Both libraries keep \<open>x\<close> as the residue \<open>x * 2 ^ 256\<close>; the words computed on residues are
  the residues of the field operations.
\<close>

definition mont :: "fr \<Rightarrow> u256" where
  "mont x = of_nat ((fr_rep x * 2 ^ 256) mod fr_modulus)"

lemma unat_mont [simp]: "unat (mont x) = (fr_rep x * 2 ^ 256) mod fr_modulus"
proof -
  have "(fr_rep x * 2 ^ 256) mod fr_modulus < fr_modulus" by simp
  also have "fr_modulus < 2 ^ LENGTH(256)" by (simp add: fr_modulus_def)
  finally have "(fr_rep x * 2 ^ 256) mod fr_modulus < 2 ^ LENGTH(256)" .
  then show ?thesis unfolding mont_def unat_of_nat take_bit_eq_mod by (rule mod_less)
qed

lemma secret_add_mont: "secret_add (mont x) (mont y) = mont (x + y)"
proof (rule word_unat_eq_iff [THEN iffD2])
  show "unat (secret_add (mont x) (mont y)) = unat (mont (x + y))"
    by (simp add: secret_add_unat mod_simps distrib_right)
qed

lemma mod_neg_unique:
  fixes a b p :: nat
  assumes "(a + b) mod p = 0" and "a < p" and "b < p"
  shows "b = (p - a) mod p"
proof (cases "a = 0")
  case True
  with assms show ?thesis by simp
next
  case False
  have "a + b = p"
  proof -
    have "p \<le> a + b"
    proof (rule ccontr)
      assume "\<not> p \<le> a + b"
      with assms(1) have "a + b = 0" by simp
      with False show False by simp
    qed
    with assms show ?thesis by (simp add: le_mod_geq)
  qed
  with False assms show ?thesis by auto
qed

lemma secret_negate_mont: "secret_negate (mont x) = mont (- x)"
proof (rule word_unat_eq_iff [THEN iffD2])
  let ?a = "fr_rep x * 2 ^ 256" and ?b = "(fr_modulus - fr_rep x) * 2 ^ 256"
  have "?a + ?b = fr_modulus * 2 ^ 256"
    using less_imp_le [OF fr_rep_less [of x]] by (simp flip: distrib_right)
  then have "(?a mod fr_modulus + ?b mod fr_modulus) mod fr_modulus = 0" by (simp add: mod_simps)
  then have "?b mod fr_modulus = (fr_modulus - ?a mod fr_modulus) mod fr_modulus"
    by (rule mod_neg_unique) simp_all
  then show "unat (secret_negate (mont x)) = unat (mont (- x))"
    by (simp add: secret_negate_unat mod_simps)
qed

section \<open>Canonical bytes\<close>

definition sf_from_le_bytes :: "byte list \<Rightarrow> fr option" where
  "sf_from_le_bytes bytes =
     (let integer = nat_of_le bytes
      in if integer < fr_modulus then Some (fr_of_nat integer) else None)"

definition sf_to_le_bytes :: "fr \<Rightarrow> byte list" where
  "sf_to_le_bytes x = nat_to_le 32 (fr_rep x)"

definition fr_to_be_32 :: "fr \<Rightarrow> byte list" where
  "fr_to_be_32 x = rev (sf_to_le_bytes x)"

definition fr_from_be_bytes_mod :: "byte list \<Rightarrow> fr" where
  "fr_from_be_bytes_mod bytes = fr_of_nat (nat_of_be bytes)"

definition fr_from_be_32_checked :: "byte list \<Rightarrow> fr option" where
  "fr_from_be_32_checked bytes =
     (if length bytes \<noteq> 32 then None else sf_from_le_bytes (rev bytes))"

datatype packed_fields_error = PackedLength nat | PackedNonCanonical nat

text \<open>\<open>as_chunks::<32>\<close>: the whole chunks, and what is left over.\<close>

definition chunks_32 :: "byte list \<Rightarrow> byte list list" where
  "chunks_32 bytes = map (\<lambda>i. take 32 (drop (32 * i) bytes)) [0..<length bytes div 32]"

definition fr_from_be_32_packed :: "byte list \<Rightarrow> (fr list, packed_fields_error) result" where
  "fr_from_be_32_packed bytes =
     (if length bytes mod 32 \<noteq> 0 then Err (PackedLength (length bytes))
      else rmap (\<lambda>(index, element). ok_or (fr_from_be_32_checked element) (PackedNonCanonical index))
             (enumerate 0 (chunks_32 bytes)))"

definition fr_to_be_32_packed :: "fr list \<Rightarrow> byte list" where
  "fr_to_be_32_packed fields = fold (\<lambda>field packed. packed @ fr_to_be_32 field) fields []"

lemma length_fr_to_be_32 [simp]: "length (fr_to_be_32 x) = 32"
  by (simp add: fr_to_be_32_def sf_to_le_bytes_def)

lemma fr_to_be_32_eq: "fr_to_be_32 x = nat_to_be 32 (fr_rep x)"
  by (simp add: fr_to_be_32_def sf_to_le_bytes_def nat_to_be_def)

lemma nat_of_be_fr [simp]: "nat_of_be (fr_to_be_32 x) = fr_rep x"
  unfolding fr_to_be_32_eq by (rule nat_of_be_to_be) (rule fr_rep_less_be_32)

lemma fr_from_be_32_checked_eq:
  "fr_from_be_32_checked bs =
    (if length bs = 32 \<and> nat_of_be bs < fr_modulus then Some (fr_of_nat (nat_of_be bs)) else None)"
  by (simp add: fr_from_be_32_checked_def sf_from_le_bytes_def nat_of_be_def Let_def)

lemma fr_be_32_roundtrip [simp]: "fr_from_be_32_checked (fr_to_be_32 x) = Some x"
  by (simp add: fr_from_be_32_checked_eq)

lemma fr_from_be_32_checked_Some:
  assumes "fr_from_be_32_checked bs = Some x"
  shows "bs = fr_to_be_32 x"
proof -
  from assms have "length bs = 32" "nat_of_be bs < fr_modulus" "x = fr_of_nat (nat_of_be bs)"
    by (auto simp: fr_from_be_32_checked_eq split: if_splits)
  then have "fr_to_be_32 x = nat_to_be (length bs) (nat_of_be bs)" by (simp add: fr_to_be_32_eq)
  then show ?thesis by simp
qed

lemma fr_from_be_32_checked_iff: "fr_from_be_32_checked bs = Some x \<longleftrightarrow> bs = fr_to_be_32 x"
  using fr_from_be_32_checked_Some by auto

lemma fr_to_be_32_inj [simp]: "fr_to_be_32 x = fr_to_be_32 y \<longleftrightarrow> x = y"
  by (metis fr_be_32_roundtrip option.inject)

lemma fr_to_be_32_packed_eq: "fr_to_be_32_packed fs = concat (map fr_to_be_32 fs)"
proof -
  have "fold (\<lambda>field packed. packed @ fr_to_be_32 field) fs acc = acc @ concat (map fr_to_be_32 fs)" for acc
    by (induction fs arbitrary: acc) auto
  then show ?thesis by (simp add: fr_to_be_32_packed_def)
qed

lemma length_concat_be_32 [simp]: "length (concat (map fr_to_be_32 fs)) = 32 * length fs"
  by (induction fs) auto

lemma length_fr_to_be_32_packed [simp]: "length (fr_to_be_32_packed fs) = 32 * length fs"
  by (simp add: fr_to_be_32_packed_eq)

lemma drop_concat_be_32: "drop (32 * i) (concat (map fr_to_be_32 fs)) = concat (map fr_to_be_32 (drop i fs))"
proof (induction fs arbitrary: i)
  case Nil
  then show ?case by simp
next
  case (Cons x fs)
  then show ?case by (cases i) simp_all
qed

lemma chunks_32_packed: "chunks_32 (concat (map fr_to_be_32 fs)) = map fr_to_be_32 fs"
proof (rule nth_equalityI)
  show "length (chunks_32 (concat (map fr_to_be_32 fs))) = length (map fr_to_be_32 fs)"
    by (simp add: chunks_32_def)
  fix i assume "i < length (chunks_32 (concat (map fr_to_be_32 fs)))"
  then have i: "i < length fs" by (simp add: chunks_32_def)
  then have "drop i fs = fs ! i # drop (Suc i) fs" by (simp add: Cons_nth_drop_Suc)
  then show "chunks_32 (concat (map fr_to_be_32 fs)) ! i = map fr_to_be_32 fs ! i"
    using i by (simp add: chunks_32_def drop_concat_be_32)
qed

lemma chunks_32_concat:
  assumes "length bs mod 32 = 0"
  shows "concat (chunks_32 bs) = bs"
proof -
  have "concat (map (\<lambda>i. take 32 (drop (32 * i) bs)) [0..<k]) = take (32 * k) bs" for k
    by (induction k) (simp_all add: add.commute [of 32] flip: take_add)
  moreover have "32 * (length bs div 32) = length bs" using assms by auto
  ultimately show ?thesis by (simp add: chunks_32_def)
qed

lemma packed_roundtrip: "fr_from_be_32_packed (fr_to_be_32_packed fs) = Ok fs"
proof -
  have "list_all2 (\<lambda>(index, element) y. fr_from_be_32_checked element = Some y)
      (enumerate 0 (map fr_to_be_32 fs)) fs"
    by (auto simp: list_all2_conv_all_nth nth_enumerate_eq)
  then have "rmap (\<lambda>(index, element). ok_or (fr_from_be_32_checked element) (PackedNonCanonical index))
      (enumerate 0 (map fr_to_be_32 fs)) = Ok fs"
    by (simp add: rmap_Ok_iff case_prod_unfold)
  then show ?thesis
    by (simp add: fr_from_be_32_packed_def fr_to_be_32_packed_eq chunks_32_packed)
qed

lemma packed_no_Panic: "fr_from_be_32_packed bs \<noteq> Panic"
  unfolding fr_from_be_32_packed_def by (auto intro!: rmap_no_Panic)

lemma packed_Ok_iff: "fr_from_be_32_packed bs = Ok fs \<longleftrightarrow> bs = fr_to_be_32_packed fs"
proof
  assume ok: "fr_from_be_32_packed bs = Ok fs"
  then have len: "length bs mod 32 = 0" by (auto simp: fr_from_be_32_packed_def split: if_splits)
  with ok have "list_all2 (\<lambda>(index, element) y. fr_from_be_32_checked element = Some y)
      (enumerate 0 (chunks_32 bs)) fs"
    by (simp add: fr_from_be_32_packed_def rmap_Ok_iff case_prod_unfold)
  then have "length fs = length (chunks_32 bs)"
    and "\<And>i. i < length fs \<Longrightarrow> chunks_32 bs ! i = fr_to_be_32 (fs ! i)"
    by (auto simp: list_all2_conv_all_nth nth_enumerate_eq fr_from_be_32_checked_iff)
  then have "chunks_32 bs = map fr_to_be_32 fs" by (intro nth_equalityI) simp_all
  then show "bs = fr_to_be_32_packed fs"
    using chunks_32_concat [OF len] by (simp add: fr_to_be_32_packed_eq)
qed (simp add: packed_roundtrip)

section \<open>Reducing decimal parser\<close>

datatype bn254_fr_error = InvalidDecimal | NonCanonicalDecimal | OutOfRange

definition ascii_digit :: "byte \<Rightarrow> byte" where
  "ascii_digit character = character - 48"

text \<open>One chunk of at most 19 digits: a 64-bit word and the accumulated validity flag.\<close>

definition decimal_chunk :: "byte list \<Rightarrow> 64 word \<times> bool \<Rightarrow> 64 word \<times> bool" where
  "decimal_chunk chunk = fold (\<lambda>character (word, invalid).
     let digit = ascii_digit character
     in (word * 10 + ucast digit, invalid \<or> 9 < digit)) chunk"

definition decimal_step :: "byte list \<Rightarrow> fr \<times> bool \<Rightarrow> fr \<times> bool" where
  "decimal_step chunk = (\<lambda>(v, invalid).
     let (word, invalid) = decimal_chunk chunk (0, invalid);
         scale = fr_of_nat (10 ^ length chunk)
     in (v * scale + fr_of_nat (unat word), invalid))"

definition try_fr_from_decimal_bytes :: "byte list \<Rightarrow> (fr, bn254_fr_error) result" where
  "try_fr_from_decimal_bytes s =
     (let negative = (s \<noteq> [] \<and> hd s = 45);
          digits = drop (if negative then 1 else 0) s
      in if digits = [] then Err InvalidDecimal
         else (let (v, invalid) = fold decimal_step (chunks 19 digits) (0, False);
                   negated = - v
               in if invalid then Err InvalidDecimal
                  else Ok (if negative then negated else v)))"

definition digit_vals :: "byte list \<Rightarrow> nat list" where
  "digit_vals = map (\<lambda>c. unat (ascii_digit c))"

definition all_digits :: "byte list \<Rightarrow> bool" where
  "all_digits bs \<longleftrightarrow> (\<forall>c \<in> set bs. ascii_digit c \<le> 9)"

lemma ascii_digit_le [simp]: "ascii_digit c \<le> 9 \<longleftrightarrow> unat (ascii_digit c) < 10"
  by (auto simp: word_le_nat_alt)

lemma digit_vals_simps [simp]:
  "digit_vals [] = []" "digit_vals (c # cs) = unat (ascii_digit c) # digit_vals cs"
  "digit_vals (cs @ ds) = digit_vals cs @ digit_vals ds" "length (digit_vals cs) = length cs"
  by (simp_all add: digit_vals_def)

lemma all_digits_simps [simp]:
  "all_digits []" "all_digits (c # cs) \<longleftrightarrow> unat (ascii_digit c) < 10 \<and> all_digits cs"
  "all_digits (cs @ ds) \<longleftrightarrow> all_digits cs \<and> all_digits ds"
  by (auto simp: all_digits_def)

lemma decimal_chunk_invalid: "snd (decimal_chunk cs (w, bad)) \<longleftrightarrow> bad \<or> \<not> all_digits cs"
  by (induction cs arbitrary: w bad)
    (auto simp: decimal_chunk_def Let_def not_le [symmetric])

lemma decimal_chunk_word:
  "unat w = v \<Longrightarrow> all_digits cs \<Longrightarrow> (v + 1) * 10 ^ length cs \<le> 2 ^ 64 \<Longrightarrow>
    unat (fst (decimal_chunk cs (w, bad))) = horner10 v (digit_vals cs)"
proof (induction cs arbitrary: w v bad)
  case Nil
  then show ?case by (simp add: decimal_chunk_def)
next
  case (Cons c cs)
  let ?d = "unat (ascii_digit c)"
  have d: "?d < 10" using Cons.prems by simp
  have "(10 * v + ?d + 1) * 10 ^ length cs \<le> (v + 1) * 10 ^ length (c # cs)"
    using d by (simp add: algebra_simps)
  also note Cons.prems(3)
  finally have le: "(10 * v + ?d + 1) * 10 ^ length cs \<le> 2 ^ 64" .
  then have "(10 * v + ?d + 1) * 1 \<le> (2 ^ 64 :: nat)"
    by (rule order_trans [rotated]) (rule mult_le_mono2, simp)
  then have small: "v * 10 + ?d < 2 ^ LENGTH(64)" by simp
  have "unat (w * 10 + ucast (ascii_digit c)) = (v * 10 + ?d) mod 2 ^ LENGTH(64)"
    using Cons.prems(1) by (simp add: unat_word_ariths unat_ucast_byte_64 mod_simps)
  also have "\<dots> = 10 * v + ?d" using small by simp
  finally have "unat (w * 10 + ucast (ascii_digit c)) = 10 * v + ?d" .
  from Cons.IH [OF this _ le] Cons.prems(2) show ?case
    by (simp add: decimal_chunk_def Let_def)
qed

lemma decimal_chunk_value:
  assumes "all_digits cs" and "length cs \<le> 19"
  shows "unat (fst (decimal_chunk cs (0, bad))) = horner10 0 (digit_vals cs)"
proof (rule decimal_chunk_word)
  have "(10 :: nat) ^ length cs \<le> 10 ^ 19" using assms(2) by (rule power_increasing) simp
  then show "(0 + 1) * 10 ^ length cs \<le> (2 ^ 64 :: nat)" by simp
qed (use assms in simp_all)

lemma decimal_step_eq:
  "decimal_step cs (v, bad) =
    (v * fr_of_nat (10 ^ length cs) + fr_of_nat (unat (fst (decimal_chunk cs (0, bad)))),
     bad \<or> \<not> all_digits cs)"
  using decimal_chunk_invalid [of cs 0 bad]
  by (simp add: decimal_step_def Let_def case_prod_unfold)

lemma decimal_steps_invalid: "snd (fold decimal_step css (v, bad)) \<longleftrightarrow> bad \<or> \<not> all_digits (concat css)"
  by (induction css arbitrary: v bad) (auto simp: decimal_step_eq)

lemma decimal_steps_value:
  "all_digits (concat css) \<Longrightarrow> \<forall>cs \<in> set css. length cs \<le> 19 \<Longrightarrow>
    fst (fold decimal_step css (fr_of_nat v, bad)) = fr_of_nat (horner10 v (digit_vals (concat css)))"
proof (induction css arbitrary: v bad)
  case Nil
  then show ?case by simp
next
  case (Cons cs css)
  then have "unat (fst (decimal_chunk cs (0, bad))) = horner10 0 (digit_vals cs)"
    by (intro decimal_chunk_value) simp_all
  then have "decimal_step cs (fr_of_nat v, bad) = (fr_of_nat (horner10 v (digit_vals cs)), bad)"
    using Cons.prems(1) horner10_shift [of v "digit_vals cs"]
    by (simp add: decimal_step_eq fr_of_nat_add fr_of_nat_mult)
  then show ?case using Cons.IH [of "horner10 v (digit_vals cs)" bad] Cons.prems by simp
qed

text \<open>The parser reads the integer exactly and reduces it, whatever its length.\<close>

lemma try_fr_from_decimal_bytes_eq:
  "try_fr_from_decimal_bytes s =
    (let negative = (s \<noteq> [] \<and> hd s = 45); digits = if negative then tl s else s
     in if digits = [] \<or> \<not> all_digits digits then Err InvalidDecimal
        else Ok ((if negative then uminus else id) (fr_of_nat (horner10 0 (digit_vals digits)))))"
proof -
  have "fold decimal_step (chunks 19 ds) (0, False) =
      (fr_of_nat (horner10 0 (digit_vals ds)), \<not> all_digits ds)" if "all_digits ds" for ds
    using decimal_steps_value [of "chunks 19 ds" 0 False] decimal_steps_invalid [of "chunks 19 ds" 0 False]
      that chunks_length [of 19 ds] by (simp add: prod_eq_iff)
  moreover have "snd (fold decimal_step (chunks 19 ds) (0, False))" if "\<not> all_digits ds" for ds
    using decimal_steps_invalid [of "chunks 19 ds" 0 False] that by simp
  ultimately have run: "(if snd (fold decimal_step (chunks 19 ds) (0, False)) then Err InvalidDecimal
      else Ok (f (fst (fold decimal_step (chunks 19 ds) (0, False))))) =
    (if all_digits ds then Ok (f (fr_of_nat (horner10 0 (digit_vals ds)))) else Err InvalidDecimal)"
    for f :: "fr \<Rightarrow> fr" and ds
    by simp
  show ?thesis
  proof (cases "s \<noteq> [] \<and> hd s = 45")
    case True
    then obtain ds where "s = 45 # ds" by (cases s) auto
    then show ?thesis using run [of ds uminus]
      by (auto simp: try_fr_from_decimal_bytes_def Let_def case_prod_unfold split: if_splits)
  next
    case False
    then show ?thesis using run [of s id]
      by (cases "all_digits s") (auto simp: try_fr_from_decimal_bytes_def Let_def case_prod_unfold split: if_splits)
  qed
qed

definition fr_to_biguint :: "fr \<Rightarrow> nat" where
  "fr_to_biguint x = fr_rep x"

definition fr_to_dec :: "fr \<Rightarrow> byte list" where
  "fr_to_dec x = map (\<lambda>d. of_nat (48 + d)) (dec_digits (fr_to_biguint x))"

lemma unat_ascii_of_digit: "d < 10 \<Longrightarrow> unat (ascii_digit (of_nat (48 + d))) = d"
  by (simp add: ascii_digit_def unat_of_nat take_bit_eq_mod)

lemma digit_vals_render:
  "\<forall>d \<in> set ds. d < 10 \<Longrightarrow> digit_vals (map (\<lambda>d. of_nat (48 + d)) ds) = ds"
  using unat_ascii_of_digit by (induction ds) (auto simp del: of_nat_add)

lemma all_digits_render:
  "\<forall>d \<in> set ds. d < 10 \<Longrightarrow> all_digits (map (\<lambda>d. of_nat (48 + d)) ds)"
  using unat_ascii_of_digit by (induction ds) (auto simp del: of_nat_add)

lemma render_not_minus: "d < 10 \<Longrightarrow> (of_nat (48 + d) :: byte) \<noteq> 45"
proof
  assume d: "d < 10" and eq: "(of_nat (48 + d) :: byte) = 45"
  from eq have "unat (of_nat (48 + d) :: byte) = unat (45 :: byte)" by (rule arg_cong)
  with d show False by (simp add: unat_of_nat take_bit_eq_mod del: of_nat_add)
qed

lemma fr_to_dec_facts:
  "all_digits (fr_to_dec x)" "horner10 0 (digit_vals (fr_to_dec x)) = fr_rep x"
  "fr_to_dec x \<noteq> []" "length (fr_to_dec x) \<le> 77" "hd (fr_to_dec x) \<noteq> 45"
proof -
  show "all_digits (fr_to_dec x)"
    unfolding fr_to_dec_def by (rule all_digits_render) (rule dec_digits_less)
  show "horner10 0 (digit_vals (fr_to_dec x)) = fr_rep x"
    unfolding fr_to_dec_def fr_to_biguint_def digit_vals_render [OF dec_digits_less] by simp
  show "fr_to_dec x \<noteq> []" by (simp add: fr_to_dec_def)
  show "length (fr_to_dec x) \<le> 77"
    using length_dec_digits [of "fr_rep x" 77] less_trans [OF fr_rep_less fr_modulus_lt(3)]
    by (simp add: fr_to_dec_def fr_to_biguint_def)
  have "hd (dec_digits (fr_rep x)) < 10" using dec_digits_less [of "fr_rep x"] by simp
  then show "hd (fr_to_dec x) \<noteq> 45"
    using render_not_minus by (simp add: fr_to_dec_def fr_to_biguint_def hd_map del: of_nat_add)
qed

section \<open>Exact 256-bit decimal parser\<close>

datatype decimal_u256_error = DecInvalid | DecOutOfRange

text \<open>One digit: multiply the little-endian accumulator by ten and add, with a 16-bit carry.\<close>

primrec mul10_add :: "byte list \<Rightarrow> 16 word \<Rightarrow> byte list \<times> 16 word" where
  "mul10_add [] carry = ([], carry)"
| "mul10_add (b # bs) carry =
     (let carry = carry + ucast b * 10;
          (rest, out) = mul10_add bs (drop_bit 8 carry)
      in (ucast carry # rest, out))"

definition dec_round ::
    "byte \<Rightarrow> byte list \<times> bool \<times> 16 word \<Rightarrow> byte list \<times> bool \<times> 16 word" where
  "dec_round character = (\<lambda>(bytes, invalid, overflow).
     let digit = ascii_digit character;
         (bytes, carry) = mul10_add bytes (ucast digit)
     in (bytes, invalid \<or> 9 < digit, or overflow carry))"

definition try_decimal_bytes_to_le_32 :: "byte list \<Rightarrow> (byte list, decimal_u256_error) result" where
  "try_decimal_bytes_to_le_32 s =
     (if s = [] then Err DecInvalid
      else if 78 < length s then Err DecOutOfRange
      else (let padded = replicate (78 - length s) 48 @ s;
                (bytes, invalid, overflow) = fold dec_round padded (replicate 32 0, False, 0)
            in if invalid then Err DecInvalid
               else if overflow \<noteq> 0 then Err DecOutOfRange
               else Ok bytes))"

lemma mul10_add_eq:
  assumes "unat carry < 256"
  shows "nat_of_le (fst (mul10_add bs carry)) + 256 ^ length bs * unat (snd (mul10_add bs carry)) =
      10 * nat_of_le bs + unat carry \<and>
    length (fst (mul10_add bs carry)) = length bs \<and> unat (snd (mul10_add bs carry)) < 256"
  using assms
proof (induction bs arbitrary: carry)
  case Nil
  then show ?case by simp
next
  case (Cons b bs)
  let ?c = "carry + ucast b * 10"
  have "unat carry + unat b * 10 < 2 ^ LENGTH(16)"
    using Cons.prems unat_byte_less [of b] by simp
  then have c: "unat ?c = unat carry + unat b * 10"
    by (simp add: unat_word_ariths)
  have d: "unat (drop_bit 8 ?c) = unat ?c div 256"
    by (subst unat_drop_bit_eq) (simp add: drop_bit_eq_div)
  then have "unat (drop_bit 8 ?c) < 256"
    using Cons.prems c unat_byte_less [of b] by simp
  note IH = Cons.IH [OF this]
  then have "256 * (nat_of_le (fst (mul10_add bs (drop_bit 8 ?c))) +
      256 ^ length bs * unat (snd (mul10_add bs (drop_bit 8 ?c)))) =
    256 * (10 * nat_of_le bs + unat (drop_bit 8 ?c))" by simp
  then have "unat ?c mod 256 + 256 * nat_of_le (fst (mul10_add bs (drop_bit 8 ?c))) +
      256 ^ length (b # bs) * unat (snd (mul10_add bs (drop_bit 8 ?c))) =
    unat ?c mod 256 + 256 * (10 * nat_of_le bs + unat ?c div 256)"
    by (simp add: d algebra_simps)
  also have "\<dots> = 10 * nat_of_le (b # bs) + unat carry" by (simp add: c)
  finally show ?case using IH by (simp add: Let_def case_prod_unfold)
qed

text \<open>Reading a prefix of value \<open>v\<close>: exact while it fits, sticky once it does not.\<close>

definition dec_inv :: "nat \<Rightarrow> byte list \<times> bool \<times> 16 word \<Rightarrow> bool" where
  "dec_inv v = (\<lambda>(bytes, invalid, overflow). length bytes = 32 \<and>
     (if overflow = 0 then nat_of_le bytes = v else 2 ^ 256 \<le> v))"

lemma dec_round_inv:
  assumes "dec_inv v st" and "unat (ascii_digit c) < 10"
  shows "dec_inv (10 * v + unat (ascii_digit c)) (dec_round c st)"
proof -
  obtain bytes invalid overflow where st: "st = (bytes, invalid, overflow)" by (cases st)
  let ?m = "mul10_add bytes (ucast (ascii_digit c))"
  have len: "length bytes = 32" using assms(1) by (simp add: dec_inv_def st)
  have m: "nat_of_le (fst ?m) + 256 ^ 32 * unat (snd ?m) = 10 * nat_of_le bytes + unat (ascii_digit c)"
      "length (fst ?m) = 32"
    using mul10_add_eq [of "ucast (ascii_digit c)" bytes] assms(2) len by auto
  show ?thesis
  proof (cases "overflow = 0")
    case False
    then have "or overflow (snd ?m) \<noteq> 0" by (simp add: or_eq_0_iff)
    with False assms(1) m(2) show ?thesis
      by (simp add: dec_inv_def dec_round_def st Let_def case_prod_unfold)
  next
    case True
    then have v: "nat_of_le bytes = v" using assms(1) by (simp add: dec_inv_def st)
    show ?thesis
    proof (cases "snd ?m = 0")
      case True
      with \<open>overflow = 0\<close> v m show ?thesis
        by (simp add: dec_inv_def dec_round_def st Let_def case_prod_unfold)
    next
      case False
      then have "1 \<le> unat (snd ?m)" by (simp add: Suc_le_eq unat_gt_0)
      then have "256 ^ 32 * 1 \<le> 256 ^ 32 * unat (snd ?m)" by (rule mult_le_mono2)
      then have "2 ^ 256 \<le> 10 * v + unat (ascii_digit c)" using m(1) v by simp
      with False \<open>overflow = 0\<close> m(2) show ?thesis
        by (simp add: dec_inv_def dec_round_def st Let_def case_prod_unfold)
    qed
  qed
qed

lemma dec_rounds_inv:
  "dec_inv v st \<Longrightarrow> all_digits cs \<Longrightarrow> dec_inv (horner10 v (digit_vals cs)) (fold dec_round cs st)"
  by (induction cs arbitrary: v st) (simp_all add: dec_round_inv)

lemma dec_rounds_invalid:
  "fst (snd (fold dec_round cs st)) \<longleftrightarrow> fst (snd st) \<or> \<not> all_digits cs"
  by (induction cs arbitrary: st)
    (auto simp: dec_round_def Let_def case_prod_unfold not_le [symmetric])

lemma pad_zero_digits [simp]:
  "all_digits (replicate k 48)" "digit_vals (replicate k 48) = replicate k 0"
  by (simp_all add: all_digits_def digit_vals_def ascii_digit_def)

lemma nat_of_le_zeros [simp]: "nat_of_le (replicate k 0) = 0"
  by (induction k) auto

text \<open>
  The parser accepts exactly the digit strings of at most 78 characters whose value fits
  256 bits, and returns that value.
\<close>

lemma try_decimal_bytes_to_le_32_eq:
  "try_decimal_bytes_to_le_32 s =
    (if s = [] then Err DecInvalid else if 78 < length s then Err DecOutOfRange
     else if \<not> all_digits s then Err DecInvalid
     else if 2 ^ 256 \<le> horner10 0 (digit_vals s) then Err DecOutOfRange
     else Ok (nat_to_le 32 (horner10 0 (digit_vals s))))"
proof -
  let ?p = "replicate (78 - length s) 48 @ s" and ?i = "(replicate 32 (0 :: byte), False, 0 :: 16 word)"
  let ?r = "fold dec_round ?p ?i" and ?v = "horner10 0 (digit_vals s)"
  have bad: "fst (snd ?r) \<longleftrightarrow> \<not> all_digits s" by (simp only: dec_rounds_invalid) simp
  have "dec_inv 0 ?i" unfolding dec_inv_def split_conv nat_of_le_zeros length_replicate by simp
  then have inv: "dec_inv ?v ?r" if "all_digits s"
    using dec_rounds_inv [of 0 ?i ?p] that by simp
  have "snd (snd ?r) = 0 \<longleftrightarrow> ?v < 2 ^ 256" and "?v < 2 ^ 256 \<longrightarrow> fst ?r = nat_to_le 32 ?v"
    if "all_digits s"
  proof -
    have len: "length (fst ?r) = 32" using inv [OF that] by (simp add: dec_inv_def case_prod_unfold)
    have "nat_of_le (fst ?r) < 2 ^ 256" using nat_of_le_bound [of "fst ?r"] len by simp
    then show "snd (snd ?r) = 0 \<longleftrightarrow> ?v < 2 ^ 256"
      using inv [OF that] by (auto simp: dec_inv_def case_prod_unfold split: if_splits)
    then show "?v < 2 ^ 256 \<longrightarrow> fst ?r = nat_to_le 32 ?v"
      using inv [OF that] nat_to_le_of_le [of "fst ?r"] len
      by (auto simp: dec_inv_def case_prod_unfold)
  qed
  with bad show ?thesis
    unfolding try_decimal_bytes_to_le_32_def Let_def case_prod_unfold
    by (auto simp del: fold_append replicate.simps simp flip: not_less)
qed

text \<open>\<open>Bn254Fr::try_from_dec\<close>: the canonical parser of untrusted boundaries.\<close>

definition bn254_try_from_dec :: "byte list \<Rightarrow> (fr, bn254_fr_error) result" where
  "bn254_try_from_dec s =
     rbind (guard (77 < length s) OutOfRange) (\<lambda>_.
     rbind (map_err (\<lambda>e. case e of DecInvalid \<Rightarrow> InvalidDecimal | DecOutOfRange \<Rightarrow> OutOfRange)
              (try_decimal_bytes_to_le_32 s)) (\<lambda>bytes.
     rbind (guard (1 < length s \<and> hd s = 48) NonCanonicalDecimal) (\<lambda>_.
       ok_or (sf_from_le_bytes bytes) OutOfRange)))"

lemma bn254_try_from_dec_eq:
  "bn254_try_from_dec s =
    (if 77 < length s then Err OutOfRange
     else if s = [] \<or> \<not> all_digits s then Err InvalidDecimal
     else if 1 < length s \<and> hd s = 48 then Err NonCanonicalDecimal
     else if fr_modulus \<le> horner10 0 (digit_vals s) then Err OutOfRange
     else Ok (fr_of_nat (horner10 0 (digit_vals s))))"
proof -
  have fits: "\<not> 2 ^ 256 \<le> horner10 0 (digit_vals s)" if "all_digits s" "\<not> 77 < length s"
  proof -
    have "horner10 0 (digit_vals s) < 10 ^ length (digit_vals s)"
      using that(1) by (intro horner10_bound) (auto simp: digit_vals_def all_digits_def)
    also have "(10 :: nat) ^ length (digit_vals s) \<le> 10 ^ 77" using that(2) by (intro power_increasing) simp_all
    also have "(10 :: nat) ^ 77 < 2 ^ 256" by simp
    finally show ?thesis by simp
  qed
  have reduce: "sf_from_le_bytes (nat_to_le 32 n) =
      (if fr_modulus \<le> n then None else Some (fr_of_nat n))" if "\<not> 2 ^ 256 \<le> n" for n
    using that by (simp add: sf_from_le_bytes_def Let_def)
  show ?thesis
  proof (cases "all_digits s \<and> \<not> 77 < length s")
    case True
    then show ?thesis using fits reduce [OF fits]
      by (auto simp: bn254_try_from_dec_def try_decimal_bytes_to_le_32_eq guard_def)
  next
    case False
    then show ?thesis
      by (auto simp: bn254_try_from_dec_def try_decimal_bytes_to_le_32_eq guard_def)
  qed
qed

lemma bn254_dec_roundtrip: "bn254_try_from_dec (fr_to_dec x) = Ok x"
proof -
  have "\<not> (1 < length (fr_to_dec x) \<and> hd (fr_to_dec x) = 48)"
  proof
    assume a: "1 < length (fr_to_dec x) \<and> hd (fr_to_dec x) = 48"
    have "hd (dec_digits (fr_rep x)) = unat (ascii_digit (hd (fr_to_dec x)))"
      using unat_ascii_of_digit [of "hd (dec_digits (fr_rep x))"] dec_digits_less [of "fr_rep x"]
      by (simp add: fr_to_dec_def fr_to_biguint_def hd_map del: of_nat_add)
    with a have "hd (dec_digits (fr_rep x)) = 0" by (simp add: ascii_digit_def)
    then have "fr_rep x = 0" using hd_dec_digits [of "fr_rep x"] by auto
    with a show False by (simp add: fr_to_dec_def fr_to_biguint_def dec_digits.simps [of 0])
  qed
  then show ?thesis
    using fr_to_dec_facts [of x] not_le [of fr_modulus "fr_rep x"] by (auto simp: bn254_try_from_dec_eq)
qed

section \<open>Hexadecimal\<close>

definition hex_nibble :: "byte \<Rightarrow> byte option" where
  "hex_nibble b =
     (if 48 \<le> b \<and> b \<le> 57 then Some (b - 48)
      else if 97 \<le> b \<and> b \<le> 102 then Some (b - 97 + 10)
      else if 65 \<le> b \<and> b \<le> 70 then Some (b - 65 + 10)
      else None)"

fun from_hex_lossy :: "byte list \<Rightarrow> byte list" where
  "from_hex_lossy (a # b # rest) =
     (case (hex_nibble a, hex_nibble b) of
        (Some hi, Some lo) \<Rightarrow> or (push_bit 4 hi) lo # from_hex_lossy rest
      | _ \<Rightarrow> [])"
| "from_hex_lossy _ = []"

datatype hex_decode_error =
    OddLength nat
  | InvalidCharacter byte nat
  | WrongLength nat nat

fun hex_pairs :: "nat \<Rightarrow> byte list \<Rightarrow> (byte list, hex_decode_error) result" where
  "hex_pairs index (a # b # rest) =
     rbind (ok_or (hex_nibble a) (InvalidCharacter a index)) (\<lambda>hi.
     rbind (ok_or (hex_nibble b) (InvalidCharacter b (index + 1))) (\<lambda>lo.
     rbind (hex_pairs (index + 2) rest) (\<lambda>decoded.
       Ok (or (push_bit 4 hi) lo # decoded))))"
| "hex_pairs index _ = Ok []"

definition from_hex_exact :: "nat \<Rightarrow> byte list \<Rightarrow> (byte list, hex_decode_error) result" where
  "from_hex_exact n s =
     rbind (guard (length s mod 2 \<noteq> 0) (OddLength (length s))) (\<lambda>_.
     rbind (guard (take 2 s = [48, 120] \<or> take 2 s = [48, 88]) (InvalidCharacter 120 1)) (\<lambda>_.
     rbind (guard (length s \<noteq> n * 2) (WrongLength n (length s div 2))) (\<lambda>_.
       hex_pairs 0 s)))"

lemma hex_pairs_lossy: "hex_pairs i s = Ok bs \<Longrightarrow> from_hex_lossy s = bs"
  by (induction i s arbitrary: bs rule: hex_pairs.induct) (auto simp: rbind_Ok_iff)

lemma length_hex_pairs: "hex_pairs i s = Ok bs \<Longrightarrow> length bs = length s div 2"
  by (induction i s arbitrary: bs rule: hex_pairs.induct) (auto simp: rbind_Ok_iff)

lemma hex_pairs_Ok: "\<forall>c \<in> set s. hex_nibble c \<noteq> None \<Longrightarrow> hex_pairs i s = Ok (from_hex_lossy s)"
  by (induction i s rule: hex_pairs.induct) auto

lemma hex_pairs_Ok_chars:
  "hex_pairs i s = Ok bs \<Longrightarrow> even (length s) \<Longrightarrow> \<forall>c \<in> set s. hex_nibble c \<noteq> None"
  by (induction i s arbitrary: bs rule: hex_pairs.induct) (auto simp: rbind_Ok_iff)

text \<open>The lower-case rendering that every parser above accepts.\<close>

definition hex_digit :: "byte \<Rightarrow> byte" where
  "hex_digit d = (if d < 10 then d + 48 else d - 10 + 97)"

definition to_hex :: "byte list \<Rightarrow> byte list" where
  "to_hex bs = concat (map (\<lambda>b. [hex_digit (drop_bit 4 b), hex_digit (take_bit 4 b)]) bs)"

lemma hex_nibble_digit:
  assumes "d < 16"
  shows "hex_nibble (hex_digit d) = Some d"
proof -
  have "d = of_nat (unat d)" by simp
  moreover have "unat d < 16" using assms by (simp add: word_less_nat_alt)
  moreover have "\<forall>n \<in> set [0..<16]. hex_nibble (hex_digit (of_nat n)) = Some (of_nat n :: byte)"
    by (simp add: upt_rec hex_nibble_def hex_digit_def)
  ultimately show ?thesis by (metis atLeastLessThan_iff le0 set_upt)
qed

lemma nibbles_less: "drop_bit 4 (b :: byte) < 16" "take_bit 4 (b :: byte) < 16"
proof -
  have "unat (drop_bit 4 b) = unat b div 16" by (subst unat_drop_bit_eq) (simp add: drop_bit_eq_div)
  then show "drop_bit 4 b < 16" using unat_byte_less [of b] by (simp add: word_less_nat_alt)
  have "unat (take_bit 4 b) = unat b mod 16" by (subst unsigned_take_bit_eq) (simp add: take_bit_eq_mod)
  then show "take_bit 4 b < 16" by (simp add: word_less_nat_alt)
qed

lemma nibbles_join: "or (push_bit 4 (drop_bit 4 b)) (take_bit 4 b) = (b :: byte)"
  by (rule bit_word_eqI) (auto simp: bit_or_iff bit_push_bit_iff bit_drop_bit_eq bit_take_bit_iff not_less)

lemma hex_roundtrip_pairs: "hex_pairs i (to_hex bs) = Ok bs"
  by (induction bs arbitrary: i)
    (simp_all add: to_hex_def hex_nibble_digit nibbles_less nibbles_join)

lemma length_to_hex [simp]: "length (to_hex bs) = 2 * length bs"
  by (induction bs) (simp_all add: to_hex_def)

lemma to_hex_not_prefixed: "take 2 (to_hex bs) \<noteq> [48, 120] \<and> take 2 (to_hex bs) \<noteq> [48, 88]"
proof (cases bs)
  case Nil
  then show ?thesis by (simp add: to_hex_def)
next
  case (Cons b bs')
  have "hex_nibble (hex_digit (take_bit 4 b)) \<noteq> None" by (simp add: hex_nibble_digit nibbles_less)
  then have "hex_digit (take_bit 4 b) \<noteq> 120" and "hex_digit (take_bit 4 b) \<noteq> 88"
    by (auto simp: hex_nibble_def)
  then show ?thesis by (simp add: Cons to_hex_def)
qed

lemma hex_exact_roundtrip: "from_hex_exact (length bs) (to_hex bs) = Ok bs"
  using to_hex_not_prefixed [of bs] by (simp add: from_hex_exact_def hex_roundtrip_pairs)

section \<open>Raw integers\<close>

text \<open>\<open>to_bytes_be\<close> and \<open>to_bytes_le\<close> are minimal, with a single zero byte for zero.\<close>

fun to_bytes_le :: "nat \<Rightarrow> byte list" where
  "to_bytes_le n = (if n < 256 then [of_nat n] else of_nat (n mod 256) # to_bytes_le (n div 256))"

declare to_bytes_le.simps [simp del]

definition biguint_to_be_32 :: "nat \<Rightarrow> (byte list, 'e) result" where
  "biguint_to_be_32 v =
     (let be = rev (to_bytes_le v)
      in rbind (rassert (length be \<le> 32)) (\<lambda>_. Ok (replicate (32 - length be) 0 @ be)))"

definition biguint_to_le_bytes :: "nat \<Rightarrow> nat \<Rightarrow> (byte list, 'e) result" where
  "biguint_to_le_bytes v len =
     (let out = to_bytes_le v
      in rbind (rassert (length out \<le> len)) (\<lambda>_. Ok (resize out len 0)))"

lemma nat_of_to_bytes_le [simp]: "nat_of_le (to_bytes_le n) = n"
proof (induction n rule: to_bytes_le.induct)
  case (1 n)
  then show ?case by (subst to_bytes_le.simps) (auto simp: unat_of_nat take_bit_eq_mod)
qed

lemma length_to_bytes_le: "0 < k \<Longrightarrow> length (to_bytes_le n) \<le> k \<longleftrightarrow> n < 256 ^ k"
proof (induction n arbitrary: k rule: to_bytes_le.induct)
  case (1 n)
  show ?case
  proof (cases "n < 256")
    case True
    moreover have "(256 :: nat) ^ 1 \<le> 256 ^ k" using 1(2) by (intro power_increasing) simp_all
    ultimately show ?thesis using 1(2) by (subst to_bytes_le.simps) auto
  next
    case False
    obtain k' where k: "k = Suc k'" using 1(2) by (cases k) auto
    show ?thesis
    proof (cases "k' = 0")
      case True
      have "to_bytes_le (n div 256) \<noteq> []" by (subst to_bytes_le.simps) simp
      with True k False show ?thesis by (subst to_bytes_le.simps) auto
    next
      case False
      have "n div 256 < 256 ^ k' \<longleftrightarrow> n < 256 ^ k"
        by (simp add: k div_less_iff_less_mult mult.commute)
      then show ?thesis
        using 1(1) [of k'] \<open>\<not> n < 256\<close> False k by (subst to_bytes_le.simps) simp
    qed
  qed
qed

lemma nat_of_le_pad [simp]: "nat_of_le (bs @ replicate k 0) = nat_of_le bs"
  by (induction bs) simp_all

lemma le_pad_eq:
  assumes "length (to_bytes_le n) \<le> k"
  shows "to_bytes_le n @ replicate (k - length (to_bytes_le n)) 0 = nat_to_le k n"
proof -
  let ?bs = "to_bytes_le n @ replicate (k - length (to_bytes_le n)) 0"
  have "nat_to_le (length ?bs) (nat_of_le ?bs) = ?bs" by (rule nat_to_le_of_le)
  then show ?thesis using assms by simp
qed

lemma biguint_to_be_32_eq: "biguint_to_be_32 v = (if v < 2 ^ 256 then Ok (nat_to_be 32 v) else Panic)"
proof -
  have "length (to_bytes_le v) \<le> 32 \<longleftrightarrow> v < 2 ^ 256" using length_to_bytes_le [of 32 v] by simp
  moreover have "replicate k 0 @ rev (to_bytes_le v) = rev (to_bytes_le v @ replicate k 0)" for k by simp
  ultimately show ?thesis
    by (auto simp: biguint_to_be_32_def Let_def rassert_def nat_to_be_def simp flip: le_pad_eq)
qed

lemma biguint_to_le_bytes_eq:
  "0 < len \<Longrightarrow> biguint_to_le_bytes v len = (if v < 256 ^ len then Ok (nat_to_le len v) else Panic)"
  using length_to_bytes_le [of len v]
  by (auto simp: biguint_to_le_bytes_def Let_def rassert_def resize_def le_pad_eq)

section \<open>What the field layer promises\<close>

text \<open>
  The constant-time additions on Montgomery residues are the field operations: \<open>add\<close> of two
  reduced residues is the residue of the sum, \<open>negate\<close> of the negation, and the canonical bytes
  read back (anything at or above the modulus is refused).
\<close>

theorem montgomery_layer:
  "secret_add (mont x) (mont y) = mont (x + y) \<and> secret_negate (mont x) = mont (- x) \<and>
    sf_from_le_bytes (sf_to_le_bytes x) = Some x \<and>
    (sf_from_le_bytes bytes = None) = (fr_modulus \<le> nat_of_le bytes)"
  using nat_of_le_to_le_small [OF fr_rep_less_be_32 [of x]]
  by (simp add: secret_add_mont secret_negate_mont sf_from_le_bytes_def sf_to_le_bytes_def Let_def not_less)

text \<open>
  Private keys are read exactly: \<open>from_hex_exact\<close> accepts a string exactly when it is
  \<open>2 * n\<close> hexadecimal digits, then decodes what the lenient decoder decodes, and every byte
  string is read back from its rendering.
\<close>

theorem hex_keys_exact:
  "(from_hex_exact n s = Ok bytes) =
      (length s = 2 * n \<and> list_all (\<lambda>c. hex_nibble c \<noteq> None) s \<and> bytes = from_hex_lossy s) \<and>
    from_hex_exact (length bytes) (to_hex bytes) = Ok bytes"
proof -
  have no_x: "take 2 s \<noteq> [48, 120] \<and> take 2 s \<noteq> [48, 88]" if "list_all (\<lambda>c. hex_nibble c \<noteq> None) s" for s
  proof -
    have "list_all (\<lambda>c. hex_nibble c \<noteq> None) (take 2 s)"
      using that by (metis append_take_drop_id list_all_append)
    then show ?thesis by (auto simp: hex_nibble_def)
  qed
  have "(from_hex_exact n s = Ok bytes) =
      (length s = 2 * n \<and> list_all (\<lambda>c. hex_nibble c \<noteq> None) s \<and> bytes = from_hex_lossy s)"
    using no_x [of s] hex_pairs_Ok [of s 0] hex_pairs_Ok_chars [of 0 s bytes] hex_pairs_lossy [of 0 s bytes]
    by (auto simp: from_hex_exact_def rbind_Ok_iff list_all_iff)
  then show ?thesis by (simp only: hex_exact_roundtrip)
qed

end
