(* ===== verification/Snapshot_Frontier.thy ===== *)
theory Snapshot_Frontier
  imports Notes_Frontier Field_Codec
begin

text \<open>
  The byte snapshots of \<open>crates/core/src/imt.rs\<close>: the cursor primitives shared by both
  formats (\<open>read_u32\<close>, \<open>read_field\<close>, \<open>read_fields\<close>), and the frontier snapshot
  \<open>NotesFrontier::encode_snapshot\<close> / \<open>from_snapshot_bytes\<close>.  Each reader has an exact
  characterisation: it succeeds precisely when the bytes at the cursor are the encoding of
  what it returns, so decoding is both complete and canonical.
\<close>

section \<open>Cursor primitives\<close>

definition get_range :: "'a list \<Rightarrow> nat \<Rightarrow> nat \<Rightarrow> 'a list option" where
  "get_range bytes a b = (if a \<le> b \<and> b \<le> length bytes then Some (take (b - a) (drop a bytes)) else None)"

definition append_fields :: "byte list \<Rightarrow> fr list \<Rightarrow> byte list" where
  "append_fields bytes fs = fold (\<lambda>field bytes. bytes @ fr_to_be_32 field) fs bytes"

definition read_u32 :: "byte list \<Rightarrow> nat \<Rightarrow> (nat, tree_error) result" where
  "read_u32 bytes offset =
     rbind (ok_or (get_range bytes offset (offset + 4)) (InvalidSnapshot ''truncated u32'')) (\<lambda>raw.
     rbind (guard (length raw \<noteq> 4) (InvalidSnapshot ''invalid u32'')) (\<lambda>_. Ok (nat_of_be raw)))"

definition read_u32_at_cursor :: "byte list \<Rightarrow> (nat, nat, tree_error) sm" where
  "read_u32_at_cursor bytes = (\<lambda>cursor.
     sbind (slift (read_u32 bytes cursor)) (\<lambda>v.
     sbind (smodify (\<lambda>cursor. cursor + 4)) (\<lambda>_. sret v)) cursor)"

definition read_field :: "byte list \<Rightarrow> (nat, fr, tree_error) sm" where
  "read_field bytes = (\<lambda>cursor.
     sbind (slift (ok_or (get_range bytes cursor (cursor + 32))
                     (InvalidSnapshot ''truncated field element''))) (\<lambda>raw.
     sbind (slift (ok_or (fr_from_be_32_checked raw)
                     (InvalidSnapshot ''non-canonical field element''))) (\<lambda>field.
     sbind (smodify (\<lambda>cursor. cursor + 32)) (\<lambda>_. sret field))) cursor)"

definition read_fields :: "byte list \<Rightarrow> nat \<Rightarrow> (nat, fr list, tree_error) sm" where
  "read_fields bytes count =
     sfold [0..<count] (\<lambda>_ fs. sbind (read_field bytes) (\<lambda>field. sret (fs @ [field]))) []"

lemma append_fields_eq: "append_fields bytes fs = bytes @ concat (map fr_to_be_32 fs)"
  by (induction fs arbitrary: bytes) (simp_all add: append_fields_def)

lemma get_range_Some_iff:
  "get_range bytes c (c + k) = Some raw \<longleftrightarrow>
    c + k \<le> length bytes \<and> raw = take k (drop c bytes)"
  by (auto simp: get_range_def)

lemma drop_prefix_iff:
  assumes "0 < length raw"
  shows "drop c bytes = raw @ drop (c + length raw) bytes \<longleftrightarrow>
    c + length raw \<le> length bytes \<and> raw = take (length raw) (drop c bytes)"
proof
  assume eq: "drop c bytes = raw @ drop (c + length raw) bytes"
  then have "length (drop c bytes) = length raw + length (drop (c + length raw) bytes)"
    by (metis length_append)
  then have "c + length raw \<le> length bytes" using assms unfolding length_drop by arith
  moreover have "take (length raw) (drop c bytes) = raw" by (subst eq) simp
  ultimately show "c + length raw \<le> length bytes \<and> raw = take (length raw) (drop c bytes)" by simp
next
  assume a: "c + length raw \<le> length bytes \<and> raw = take (length raw) (drop c bytes)"
  have "drop c bytes = take (length raw) (drop c bytes) @ drop (length raw) (drop c bytes)"
    by (rule append_take_drop_id [symmetric])
  moreover have "drop (length raw) (drop c bytes) = drop (c + length raw) bytes" by (simp add: add.commute)
  ultimately show "drop c bytes = raw @ drop (c + length raw) bytes" using a by metis
qed

lemma sbind_Ok_iff: "sbind m f s = (Ok b, s'') \<longleftrightarrow> (\<exists>a s'. m s = (Ok a, s') \<and> f a s' = (Ok b, s''))"
  by (auto simp: sbind_def split: prod.splits result.splits)

text \<open>Running a reader to its end and going on with the cursor it left.\<close>

lemma case_rbind_Ok_iff:
  "(case m of (r, c) \<Rightarrow> rbind r (\<lambda>t. f t c)) = Ok x \<longleftrightarrow> (\<exists>t c. m = (Ok t, c) \<and> f t c = Ok x)"
  by (cases m) (auto simp: rbind_Ok_iff)

lemma slift_Ok_iff [simp]: "slift r s = (Ok a, s') \<longleftrightarrow> r = Ok a \<and> s' = s"
  by (auto simp: slift_def)

lemma sret_Ok_iff [simp]: "sret a s = (Ok b, s') \<longleftrightarrow> b = a \<and> s' = s"
  by (auto simp: sret_def)

lemma smodify_Ok_iff [simp]: "smodify f s = (Ok b, s') \<longleftrightarrow> s' = f s"
  by (auto simp: smodify_def)

lemma read_u32_Ok_iff:
  "read_u32 bytes c = Ok n \<longleftrightarrow> n < 2 ^ 32 \<and> drop c bytes = nat_to_be 4 n @ drop (c + 4) bytes"
proof -
  have "read_u32 bytes c = Ok n \<longleftrightarrow> c + 4 \<le> length bytes \<and> n = nat_of_be (take 4 (drop c bytes))"
    by (auto simp: read_u32_def rbind_Ok_iff get_range_Some_iff)
  also have "\<dots> \<longleftrightarrow> n < 2 ^ 32 \<and> c + 4 \<le> length bytes \<and> nat_to_be 4 n = take 4 (drop c bytes)"
  proof (cases "c + 4 \<le> length bytes")
    case True
    let ?r = "take 4 (drop c bytes)"
    have len: "length ?r = 4" using True by simp
    have "nat_of_be ?r < 2 ^ 32" using nat_of_be_bound [of ?r] len by simp
    moreover have "nat_to_be 4 (nat_of_be ?r) = ?r" using nat_to_be_of_be [of ?r] len by simp
    moreover have "n = nat_of_be ?r" if "n < 2 ^ 32" "nat_to_be 4 n = ?r"
      using that nat_of_be_to_be [of n 4] by simp
    ultimately show ?thesis using True by auto
  qed simp
  also have "\<dots> \<longleftrightarrow> n < 2 ^ 32 \<and> drop c bytes = nat_to_be 4 n @ drop (c + 4) bytes"
    using drop_prefix_iff [of "nat_to_be 4 n" c bytes] by auto
  finally show ?thesis .
qed

lemma read_u32_at_cursor_Ok_iff:
  "read_u32_at_cursor bytes c = (Ok n, c') \<longleftrightarrow>
    c' = c + 4 \<and> n < 2 ^ 32 \<and> drop c bytes = nat_to_be 4 n @ drop c' bytes"
  by (auto simp: read_u32_at_cursor_def sbind_Ok_iff read_u32_Ok_iff)

lemma read_field_Ok_iff:
  "read_field bytes c = (Ok x, c') \<longleftrightarrow> c' = c + 32 \<and> drop c bytes = fr_to_be_32 x @ drop c' bytes"
proof -
  have "read_field bytes c = (Ok x, c') \<longleftrightarrow>
      c' = c + 32 \<and> c + 32 \<le> length bytes \<and> fr_from_be_32_checked (take 32 (drop c bytes)) = Some x"
    by (auto simp: read_field_def sbind_Ok_iff get_range_Some_iff)
  also have "\<dots> \<longleftrightarrow> c' = c + 32 \<and> c + 32 \<le> length bytes \<and> fr_to_be_32 x = take 32 (drop c bytes)"
    unfolding fr_from_be_32_checked_iff by (rule iffI) simp_all
  also have "\<dots> \<longleftrightarrow> c' = c + 32 \<and> drop c bytes = fr_to_be_32 x @ drop c' bytes"
    using drop_prefix_iff [of "fr_to_be_32 x" c bytes, unfolded length_fr_to_be_32, OF zero_less_numeral]
    by blast
  finally show ?thesis .
qed

lemma read_fields_loop_Ok_iff:
  "sfold js (\<lambda>_ fs. sbind (read_field bytes) (\<lambda>field. sret (fs @ [field]))) acc c = (Ok ys, c') \<longleftrightarrow>
    (\<exists>xs. ys = acc @ xs \<and> length xs = length js \<and> c' = c + 32 * length xs \<and>
      drop c bytes = concat (map fr_to_be_32 xs) @ drop c' bytes)"
proof (induction js arbitrary: acc c)
  case Nil
  then show ?case by auto
next
  case (Cons j js)
  have "sfold (j # js) (\<lambda>_ fs. sbind (read_field bytes) (\<lambda>field. sret (fs @ [field]))) acc c = (Ok ys, c') \<longleftrightarrow>
    (\<exists>x c1. read_field bytes c = (Ok x, c1) \<and>
      sfold js (\<lambda>_ fs. sbind (read_field bytes) (\<lambda>field. sret (fs @ [field]))) (acc @ [x]) c1 = (Ok ys, c'))"
    by (simp add: sbind_Ok_iff) blast
  also have "\<dots> \<longleftrightarrow> (\<exists>x. drop c bytes = fr_to_be_32 x @ drop (c + 32) bytes \<and>
      (\<exists>xs. ys = (acc @ [x]) @ xs \<and> length xs = length js \<and> c' = c + 32 + 32 * length xs \<and>
        drop (c + 32) bytes = concat (map fr_to_be_32 xs) @ drop c' bytes))"
    by (simp add: read_field_Ok_iff Cons.IH)
  also have "\<dots> \<longleftrightarrow> (\<exists>xs. ys = acc @ xs \<and> length xs = length (j # js) \<and> c' = c + 32 * length xs \<and>
      drop c bytes = concat (map fr_to_be_32 xs) @ drop c' bytes)" (is "?l \<longleftrightarrow> ?r")
  proof
    assume ?l
    then obtain x xs where "drop c bytes = fr_to_be_32 x @ drop (c + 32) bytes"
        "ys = (acc @ [x]) @ xs" "length xs = length js" "c' = c + 32 + 32 * length xs"
        "drop (c + 32) bytes = concat (map fr_to_be_32 xs) @ drop c' bytes" by blast
    then show ?r by (intro exI [of _ "x # xs"]) simp
  next
    assume ?r
    then obtain xs where r: "ys = acc @ xs" "length xs = length (j # js)" "c' = c + 32 * length xs"
        "drop c bytes = concat (map fr_to_be_32 xs) @ drop c' bytes" by blast
    then obtain x zs where xs: "xs = x # zs" by (cases xs) auto
    have "drop (c + 32) bytes = drop 32 (drop c bytes)" by (simp add: add.commute)
    also have "\<dots> = concat (map fr_to_be_32 zs) @ drop c' bytes" unfolding r(4) xs by simp
    finally show ?l using r xs by (intro exI [of _ x] conjI exI [of _ zs]) simp_all
  qed
  finally show ?case .
qed

lemma read_fields_Ok_iff:
  "read_fields bytes k c = (Ok xs, c') \<longleftrightarrow> length xs = k \<and> c' = c + 32 * k \<and>
    drop c bytes = concat (map fr_to_be_32 xs) @ drop c' bytes"
  by (auto simp: read_fields_def read_fields_loop_Ok_iff)

section \<open>The frontier snapshot\<close>

text \<open>\<open>b"CVYFRONT"\<close>.\<close>

definition frontier_snapshot_magic :: "byte list" where
  "frontier_snapshot_magic = [67, 86, 89, 70, 82, 79, 78, 84]"

definition frontier_snapshot_version :: byte where
  "frontier_snapshot_version = 1"

definition frontier_snapshot_header_len :: nat where
  "frontier_snapshot_header_len = 24"

definition encode_slot :: "byte list \<Rightarrow> fr option \<Rightarrow> byte list" where
  "encode_slot bytes slot =
     (case slot of Some field \<Rightarrow> (bytes @ [1]) @ fr_to_be_32 field | None \<Rightarrow> bytes @ [0])"

definition frontier_encode_snapshot :: "fr notes_frontier \<Rightarrow> byte list" where
  "frontier_encode_snapshot t =
     (let bytes = frontier_snapshot_magic @ [frontier_snapshot_version] @
            [of_nat (nf_depth t)] @ [of_nat (nf_shard_height t)] @ [0] @
            nat_to_be 8 (nf_leaf_count t) @ nat_to_be 4 (length (nf_frontier t))
      in fold (\<lambda>slot bytes. encode_slot bytes slot) (nf_frontier t) bytes)"

definition read_slot :: "byte list \<Rightarrow> (nat, fr option, tree_error) sm" where
  "read_slot bytes = (\<lambda>cursor.
     sbind (slift (ok_or (get bytes cursor) (InvalidSnapshot ''truncated frontier slot flag''))) (\<lambda>flag.
     sbind (smodify (\<lambda>cursor. cursor + 1)) (\<lambda>_.
       if flag = 0 then sret None
       else if flag = 1 then sbind (read_field bytes) (\<lambda>field. sret (Some field))
       else slift (Err (InvalidSnapshot (''invalid frontier slot flag '' @ show_nat (unat flag)))))) cursor)"

definition read_level ::
    "byte list \<Rightarrow> nat \<Rightarrow> nat \<Rightarrow> fr notes_frontier \<Rightarrow> (nat, fr notes_frontier, tree_error) sm" where
  "read_level bytes leaf_count level t =
     sbind (read_slot bytes) (\<lambda>slot.
     sbind (slift (rassert (level < length (nf_frontier t)))) (\<lambda>_.
       let t = t\<lparr>nf_frontier := (nf_frontier t)[level := slot]\<rparr>;
           should_be_present = test_bit leaf_count level
       in sbind (slift (guard ((slot \<noteq> None) \<noteq> should_be_present)
                  (InvalidSnapshot (''frontier slot '' @ show_nat level @
                     '' does not match leaf count '' @ show_nat leaf_count)))) (\<lambda>_. sret t)))"

definition frontier_from_snapshot_bytes ::
    "(fr list \<Rightarrow> fr) \<Rightarrow> byte list \<Rightarrow> (fr notes_frontier, tree_error) result" where
  "frontier_from_snapshot_bytes ps bytes =
     rbind (guard (length bytes < frontier_snapshot_header_len)
              (InvalidSnapshot ''frontier snapshot header is truncated'')) (\<lambda>_.
     rbind (guard (get_range bytes 0 8 \<noteq> Some frontier_snapshot_magic)
              (InvalidSnapshot ''invalid frontier snapshot magic'')) (\<lambda>_.
     rbind (idx bytes 8) (\<lambda>version.
     rbind (guard (version \<noteq> frontier_snapshot_version)
              (InvalidSnapshot (''unsupported frontier snapshot version '' @ show_nat (unat version)))) (\<lambda>_.
     rbind (idx bytes 11) (\<lambda>reserved.
     rbind (guard (reserved \<noteq> 0)
              (InvalidSnapshot ''frontier snapshot reserved byte is non-zero'')) (\<lambda>_.
     rbind (idx bytes 9) (\<lambda>b9.
     rbind (idx bytes 10) (\<lambda>b10.
       let depth = unat b9; shard_height = unat b10;
           leaf_count = nat_of_be (take 8 (drop 12 bytes));
           slot_count = nat_of_be (take 4 (drop 20 bytes))
       in rbind (frontier_new ps depth shard_height) (\<lambda>t.
          rbind (tree_capacity depth) (\<lambda>capacity.
          rbind (guard (capacity < leaf_count)
                   (InvalidSnapshot (''frontier leaf count '' @ show_nat leaf_count @
                      '' exceeds capacity '' @ show_nat capacity))) (\<lambda>_.
          rbind (guard (slot_count \<noteq> depth + 1)
                   (InvalidSnapshot (''frontier snapshot has '' @ show_nat slot_count @
                      '' slots; expected '' @ show_nat (depth + 1)))) (\<lambda>_.
            case sfold [0..<slot_count] (read_level bytes leaf_count) t frontier_snapshot_header_len of
              (r, cursor) \<Rightarrow>
                rbind r (\<lambda>t.
                rbind (guard (cursor \<noteq> length bytes)
                         (InvalidSnapshot ''trailing frontier snapshot bytes'')) (\<lambda>_.
                  Ok (t\<lparr>nf_leaf_count := leaf_count\<rparr>)))))))))))))))"

text \<open>Exactly the states a snapshot can hold: a valid geometry and slots that match the count.\<close>

definition frontier_valid :: "(fr list \<Rightarrow> fr) \<Rightarrow> fr notes_frontier \<Rightarrow> bool" where
  "frontier_valid ps t \<longleftrightarrow> 0 < nf_shard_height t \<and> nf_shard_height t < nf_depth t \<and> nf_depth t < 64 \<and>
     nf_shard_size t = 2 ^ nf_shard_height t \<and> nf_leaf_count t \<le> 2 ^ nf_depth t \<and>
     length (nf_frontier t) = nf_depth t + 1 \<and> nf_zeroes t = zero_roots ps (nf_depth t) \<and>
     (\<forall>l \<le> nf_depth t. (nf_frontier t ! l \<noteq> None) = test_bit (nf_leaf_count t) l)"

definition slot_bytes :: "fr option \<Rightarrow> byte list" where
  "slot_bytes slot = (case slot of Some x \<Rightarrow> 1 # fr_to_be_32 x | None \<Rightarrow> [0])"

lemma slot_bytes_simps [simp]:
  "slot_bytes (Some x) = 1 # fr_to_be_32 x" "slot_bytes None = [0]"
  by (simp_all add: slot_bytes_def)

definition frontier_header :: "fr notes_frontier \<Rightarrow> byte list" where
  "frontier_header t = frontier_snapshot_magic @ [frontier_snapshot_version] @
     [of_nat (nf_depth t)] @ [of_nat (nf_shard_height t)] @ [0] @
     nat_to_be 8 (nf_leaf_count t) @ nat_to_be 4 (length (nf_frontier t))"

lemma encode_slots_eq:
  "fold (\<lambda>slot bytes. encode_slot bytes slot) slots bytes = bytes @ concat (map slot_bytes slots)"
  by (induction slots arbitrary: bytes) (auto simp: encode_slot_def slot_bytes_def split: option.splits)

lemma frontier_encode_eq:
  "frontier_encode_snapshot t = frontier_header t @ concat (map slot_bytes (nf_frontier t))"
  by (simp add: frontier_encode_snapshot_def frontier_header_def encode_slots_eq Let_def)

lemma drop_get:
  "(\<exists>b. get bytes c = Some b \<and> P b) \<longleftrightarrow> (\<exists>b. drop c bytes = b # drop (Suc c) bytes \<and> P b)"
proof (cases "c < length bytes")
  case True
  then have "drop c bytes = bytes ! c # drop (Suc c) bytes" by (simp add: Cons_nth_drop_Suc)
  with True show ?thesis by simp
next
  case False
  then show ?thesis by simp
qed

lemma read_slot_Ok_iff:
  "read_slot bytes c = (Ok slot, c') \<longleftrightarrow>
    c' = c + length (slot_bytes slot) \<and> drop c bytes = slot_bytes slot @ drop c' bytes"
proof -
  have "read_slot bytes c = (Ok slot, c') \<longleftrightarrow> (\<exists>flag. get bytes c = Some flag \<and>
      (flag = 0 \<and> slot = None \<and> c' = Suc c \<or>
       flag = 1 \<and> (\<exists>x. read_field bytes (Suc c) = (Ok x, c') \<and> slot = Some x)))"
  proof (cases "get bytes c")
    case None
    then show ?thesis by (simp add: read_slot_def sbind_def slift_def)
  next
    case (Some flag)
    then have "read_slot bytes c = (if flag = 0 then (Ok None, Suc c)
        else if flag = 1 then sbind (read_field bytes) (\<lambda>field. sret (Some field)) (Suc c)
        else (Err (InvalidSnapshot (''invalid frontier slot flag '' @ show_nat (unat flag))), Suc c))"
      by (simp add: read_slot_def sm_simps)
    with Some show ?thesis by (cases "flag = 0"; cases "flag = 1") (auto simp: sbind_Ok_iff)
  qed
  also have "\<dots> \<longleftrightarrow> (\<exists>flag. drop c bytes = flag # drop (Suc c) bytes \<and>
      (flag = 0 \<and> slot = None \<and> c' = Suc c \<or>
       flag = 1 \<and> (\<exists>x. read_field bytes (Suc c) = (Ok x, c') \<and> slot = Some x)))"
    by (rule drop_get)
  also have "\<dots> \<longleftrightarrow> c' = c + length (slot_bytes slot) \<and> drop c bytes = slot_bytes slot @ drop c' bytes"
  proof (cases slot)
    case None
    then show ?thesis by auto
  next
    case (Some x)
    have "(drop c bytes = 1 # drop (Suc c) bytes \<and> c' = Suc c + 32 \<and>
        drop (Suc c) bytes = fr_to_be_32 x @ drop c' bytes) \<longleftrightarrow>
      (c' = Suc c + 32 \<and> drop c bytes = 1 # fr_to_be_32 x @ drop c' bytes)" (is "?l \<longleftrightarrow> ?r")
    proof
      assume r: ?r
      have "drop (Suc c) bytes = tl (drop c bytes)" by (simp add: drop_Suc tl_drop)
      also have "\<dots> = fr_to_be_32 x @ drop c' bytes" using r by simp
      finally have s: "drop (Suc c) bytes = fr_to_be_32 x @ drop c' bytes" .
      then have "drop c bytes = 1 # drop (Suc c) bytes" using r by metis
      with r s show ?l by blast
    next
      assume ?l
      then show ?r by metis
    qed
    with Some show ?thesis by (simp add: read_field_Ok_iff add.commute [of c])
  qed
  finally show ?thesis .
qed

lemma read_level_Ok_iff:
  "l < length (nf_frontier t) \<Longrightarrow> read_level bytes n l t c = (Ok t', c') \<longleftrightarrow>
    (\<exists>slot. read_slot bytes c = (Ok slot, c') \<and> (slot \<noteq> None) = test_bit n l \<and>
       t' = t\<lparr>nf_frontier := (nf_frontier t)[l := slot]\<rparr>)"
  by (cases "read_slot bytes c"; cases "fst (read_slot bytes c)")
    (auto simp: read_level_def sbind_def slift_def sret_def Let_def guard_def)

definition slots_match :: "nat \<Rightarrow> nat \<Rightarrow> fr option list \<Rightarrow> bool" where
  "slots_match n a slots \<longleftrightarrow> (\<forall>i < length slots. (slots ! i \<noteq> None) = test_bit n (a + i))"

lemma slots_match_simps [simp]:
  "slots_match n a []"
  "slots_match n a (s # ss) \<longleftrightarrow> (s \<noteq> None) = test_bit n a \<and> slots_match n (Suc a) ss"
proof -
  show "slots_match n a []" by (simp add: slots_match_def)
  show "slots_match n a (s # ss) \<longleftrightarrow> (s \<noteq> None) = test_bit n a \<and> slots_match n (Suc a) ss"
    unfolding slots_match_def by (simp add: All_less_Suc2)
qed

definition slots_at :: "byte list \<Rightarrow> nat \<Rightarrow> fr option list \<Rightarrow> nat \<Rightarrow> bool" where
  "slots_at bytes c slots c' \<longleftrightarrow> c' = c + length (concat (map slot_bytes slots)) \<and>
     drop c bytes = concat (map slot_bytes slots) @ drop c' bytes"

lemma slots_at_Cons:
  "slots_at bytes c (s # ss) c' \<longleftrightarrow> (\<exists>c1. read_slot bytes c = (Ok s, c1) \<and> slots_at bytes c1 ss c')"
proof -
  let ?c1 = "c + length (slot_bytes s)"
  have "drop ?c1 bytes = drop (length (slot_bytes s)) (drop c bytes)" by (simp add: add.commute)
  then have "drop c bytes = slot_bytes s @ rest \<Longrightarrow> drop ?c1 bytes = rest" for rest by simp
  then show ?thesis
    unfolding slots_at_def read_slot_Ok_iff list.map concat.simps length_append append_assoc add.assoc [symmetric]
    by metis
qed

lemma read_levels_Ok_iff:
  assumes "a + k \<le> length (nf_frontier t)"
  shows "sfold [a..<a + k] (read_level bytes n) t c = (Ok t', c') \<longleftrightarrow>
    (\<exists>slots. length slots = k \<and> slots_match n a slots \<and> slots_at bytes c slots c' \<and>
       t' = t\<lparr>nf_frontier := take a (nf_frontier t) @ slots @ drop (a + k) (nf_frontier t)\<rparr>)"
  using assms
proof (induction k arbitrary: a t c)
  case 0
  then show ?case by (auto simp: slots_at_def)
next
  case (Suc k)
  let ?F = "nf_frontier t"
  have a: "a < length ?F" using Suc.prems by simp
  have upd: "take (Suc a) (?F[a := s]) = take a ?F @ [s]" for s
    using a by (simp add: take_Suc_conv_app_nth)
  have "sfold [a..<a + Suc k] (read_level bytes n) t c = (Ok t', c') \<longleftrightarrow>
      (\<exists>t1 c1. read_level bytes n a t c = (Ok t1, c1) \<and> sfold [Suc a..<Suc a + k] (read_level bytes n) t1 c1 = (Ok t', c'))"
    by (simp add: upt_conv_Cons sbind_Ok_iff del: upt_Suc)
  also have "\<dots> \<longleftrightarrow> (\<exists>s c1. read_slot bytes c = (Ok s, c1) \<and> (s \<noteq> None) = test_bit n a \<and>
      sfold [Suc a..<Suc a + k] (read_level bytes n) (t\<lparr>nf_frontier := ?F[a := s]\<rparr>) c1 = (Ok t', c'))"
    unfolding read_level_Ok_iff [OF a] by blast
  also have "\<dots> \<longleftrightarrow> (\<exists>s c1. read_slot bytes c = (Ok s, c1) \<and> (s \<noteq> None) = test_bit n a \<and>
      (\<exists>ss. length ss = k \<and> slots_match n (Suc a) ss \<and> slots_at bytes c1 ss c' \<and>
        t' = t\<lparr>nf_frontier := take a ?F @ (s # ss) @ drop (a + Suc k) ?F\<rparr>))"
    using Suc.IH [of "Suc a" "t\<lparr>nf_frontier := ?F[a := s]\<rparr>" for s] Suc.prems
    by (simp add: upd del: upt_Suc)
  also have "\<dots> \<longleftrightarrow> (\<exists>slots. length slots = Suc k \<and> slots_match n a slots \<and> slots_at bytes c slots c' \<and>
       t' = t\<lparr>nf_frontier := take a ?F @ slots @ drop (a + Suc k) ?F\<rparr>)" (is "?l \<longleftrightarrow> ?r")
  proof
    assume ?l
    then obtain s c1 ss where "read_slot bytes c = (Ok s, c1)" "(s \<noteq> None) = test_bit n a"
        "length ss = k" "slots_match n (Suc a) ss" "slots_at bytes c1 ss c'"
        "t' = t\<lparr>nf_frontier := take a ?F @ (s # ss) @ drop (a + Suc k) ?F\<rparr>" by blast
    then show ?r by (intro exI [of _ "s # ss"]) (auto simp: slots_at_Cons)
  next
    assume ?r
    then obtain slots where r: "length slots = Suc k" "slots_match n a slots" "slots_at bytes c slots c'"
        "t' = t\<lparr>nf_frontier := take a ?F @ slots @ drop (a + Suc k) ?F\<rparr>" by blast
    then obtain s ss where s: "slots = s # ss" by (cases slots) auto
    with r obtain c1 where "read_slot bytes c = (Ok s, c1)" "slots_at bytes c1 ss c'"
      by (auto simp: slots_at_Cons)
    moreover have "length ss = k" "(s \<noteq> None) = test_bit n a" "slots_match n (Suc a) ss" using r s by simp_all
    ultimately show ?l using r(4) s by blast
  qed
  finally show ?case .
qed

lemma header_split:
  assumes "24 \<le> length bytes"
  shows "bytes = take 8 bytes @ [bytes ! 8, bytes ! 9, bytes ! 10, bytes ! 11] @
    take 8 (drop 12 bytes) @ take 4 (drop 20 bytes) @ drop 24 bytes"
proof -
  have "drop 8 bytes = [bytes ! 8, bytes ! 9, bytes ! 10, bytes ! 11] @ drop 12 bytes"
    using assms by (simp add: Cons_nth_drop_Suc eval_nat_numeral)
  moreover have "drop 12 bytes = take 8 (drop 12 bytes) @ drop 20 bytes"
    using append_take_drop_id [of 8 "drop 12 bytes"] by simp
  moreover have "drop 20 bytes = take 4 (drop 20 bytes) @ drop 24 bytes"
    using append_take_drop_id [of 4 "drop 20 bytes"] by simp
  moreover have "bytes = take 8 bytes @ drop 8 bytes" by simp
  ultimately show ?thesis by metis
qed

text \<open>
  Decoding is complete and canonical: it succeeds exactly on the encodings of valid states.
\<close>

lemma frontier_new_Ok_iff:
  "frontier_new ps d sh = Ok t \<longleftrightarrow> 0 < sh \<and> sh < d \<and> d < 64 \<and>
    t = \<lparr>nf_depth = d, nf_shard_height = sh, nf_shard_size = 2 ^ sh, nf_leaf_count = 0,
         nf_frontier = replicate (d + 1) None, nf_zeroes = zero_roots ps d\<rparr>"
  by (auto simp: frontier_new_def rbind_Ok_iff tree_capacity_Ok_iff)

definition frontier_decoded ::
    "(fr list \<Rightarrow> fr) \<Rightarrow> nat \<Rightarrow> nat \<Rightarrow> nat \<Rightarrow> fr option list \<Rightarrow> fr notes_frontier" where
  "frontier_decoded ps d sh n slots = \<lparr>nf_depth = d, nf_shard_height = sh, nf_shard_size = 2 ^ sh,
     nf_leaf_count = n, nf_frontier = slots, nf_zeroes = zero_roots ps d\<rparr>"

lemma frontier_valid_iff:
  "frontier_valid ps t \<longleftrightarrow> (\<exists>d sh n slots. t = frontier_decoded ps d sh n slots \<and>
     0 < sh \<and> sh < d \<and> d < 64 \<and> n \<le> 2 ^ d \<and> length slots = d + 1 \<and> slots_match n 0 slots)"
  by (cases t) (auto simp: frontier_valid_def frontier_decoded_def slots_match_def less_Suc_eq_le)

lemma frontier_levels_Ok_iff:
  assumes "frontier_new ps d sh = Ok t0"
  shows "(\<exists>t c'. sfold [0..<d + 1] (read_level bytes n) t0 24 = (Ok t, c') \<and> c' = length bytes \<and>
      t' = t\<lparr>nf_leaf_count := n\<rparr>) \<longleftrightarrow>
    (\<exists>slots. length slots = d + 1 \<and> slots_match n 0 slots \<and>
       drop 24 bytes = concat (map slot_bytes slots) \<and> 24 \<le> length bytes \<and>
       t' = frontier_decoded ps d sh n slots)"
proof -
  have t0: "nf_frontier t0 = replicate (d + 1) None"
    "t0\<lparr>nf_frontier := slots, nf_leaf_count := n\<rparr> = frontier_decoded ps d sh n slots" for slots
    using assms by (auto simp: frontier_new_Ok_iff frontier_decoded_def)
  have at: "slots_at bytes 24 slots (length bytes) \<longleftrightarrow>
      drop 24 bytes = concat (map slot_bytes slots) \<and> 24 \<le> length bytes" if "slots \<noteq> []" for slots
  proof -
    have "slots_at bytes 24 slots (length bytes) \<longleftrightarrow>
        length bytes = 24 + length (concat (map slot_bytes slots)) \<and> drop 24 bytes = concat (map slot_bytes slots)"
      by (simp add: slots_at_def)
    also have "\<dots> \<longleftrightarrow> drop 24 bytes = concat (map slot_bytes slots) \<and> 24 \<le> length bytes"
      by (metis le_add1 le_add_diff_inverse length_drop)
    finally show ?thesis .
  qed
  have "sfold [0..<0 + (d + 1)] (read_level bytes n) t0 24 = (Ok t, c') \<longleftrightarrow>
      (\<exists>slots. length slots = d + 1 \<and> slots_match n 0 slots \<and> slots_at bytes 24 slots c' \<and>
         t = t0\<lparr>nf_frontier := slots\<rparr>)" for t c'
    using t0(1) by (subst read_levels_Ok_iff) (simp_all del: replicate_Suc)
  then have "(\<exists>t c'. sfold [0..<d + 1] (read_level bytes n) t0 24 = (Ok t, c') \<and> c' = length bytes \<and>
      t' = t\<lparr>nf_leaf_count := n\<rparr>) \<longleftrightarrow>
    (\<exists>slots. length slots = d + 1 \<and> slots_match n 0 slots \<and> slots_at bytes 24 slots (length bytes) \<and>
       t' = t0\<lparr>nf_frontier := slots, nf_leaf_count := n\<rparr>)"
    by (simp del: upt_Suc) blast
  also have "\<dots> \<longleftrightarrow> (\<exists>slots. length slots = d + 1 \<and> slots_match n 0 slots \<and>
       drop 24 bytes = concat (map slot_bytes slots) \<and> 24 \<le> length bytes \<and>
       t' = frontier_decoded ps d sh n slots)"
    unfolding t0(2) using at by (metis Suc_eq_plus1 length_0_conv nat.simps(3))
  finally show ?thesis .
qed

lemma frontier_from_snapshot_bytes_Ok_iff:
  "frontier_from_snapshot_bytes ps bytes = Ok t' \<longleftrightarrow>
    24 \<le> length bytes \<and> take 8 bytes = frontier_snapshot_magic \<and> bytes ! 8 = 1 \<and> bytes ! 11 = 0 \<and>
    (let d = unat (bytes ! 9); sh = unat (bytes ! 10); n = nat_of_be (take 8 (drop 12 bytes)) in
      0 < sh \<and> sh < d \<and> d < 64 \<and> n \<le> 2 ^ d \<and> nat_of_be (take 4 (drop 20 bytes)) = d + 1 \<and>
      (\<exists>slots. length slots = d + 1 \<and> slots_match n 0 slots \<and>
         drop 24 bytes = concat (map slot_bytes slots) \<and> t' = frontier_decoded ps d sh n slots))"
    (is "_ \<longleftrightarrow> ?head \<and> ?body")
proof (cases "24 \<le> length bytes")
  case False
  then show ?thesis
    by (simp add: frontier_from_snapshot_bytes_def frontier_snapshot_header_len_def)
next
  case True
  let ?d = "unat (bytes ! 9)" and ?sh = "unat (bytes ! 10)" and ?n = "nat_of_be (take 8 (drop 12 bytes))"
  let ?k = "nat_of_be (take 4 (drop 20 bytes))"
  let ?ok = "take 8 bytes = frontier_snapshot_magic \<and> bytes ! 8 = 1 \<and> bytes ! 11 = 0"
  have "get_range bytes 0 8 = Some (take 8 bytes)" using True by (simp add: get_range_def)
  then have "frontier_from_snapshot_bytes ps bytes = Ok t' \<longleftrightarrow> ?ok \<and>
      (\<exists>t0. frontier_new ps ?d ?sh = Ok t0 \<and> ?d < 64 \<and> ?n \<le> 2 ^ ?d \<and> ?k = ?d + 1 \<and>
        (\<exists>t c'. sfold [0..<?k] (read_level bytes ?n) t0 24 = (Ok t, c') \<and> c' = length bytes \<and>
           t\<lparr>nf_leaf_count := ?n\<rparr> = t'))"
    using True unfolding frontier_from_snapshot_bytes_def Let_def
    by (simp add: rbind_Ok_iff tree_capacity_Ok_iff frontier_snapshot_header_len_def idx_def
        frontier_snapshot_version_def not_less case_rbind_Ok_iff del: upt_Suc)
  also have "\<dots> \<longleftrightarrow> ?ok \<and>
      (\<exists>t0. frontier_new ps ?d ?sh = Ok t0 \<and> ?d < 64 \<and> ?n \<le> 2 ^ ?d \<and> ?k = ?d + 1 \<and>
        (\<exists>t c'. sfold [0..<?d + 1] (read_level bytes ?n) t0 24 = (Ok t, c') \<and> c' = length bytes \<and>
           t' = t\<lparr>nf_leaf_count := ?n\<rparr>))"
  proof (cases "?k = ?d + 1")
    case True
    show ?thesis unfolding True by blast
  next
    case False
    then show ?thesis by blast
  qed
  also have "\<dots> \<longleftrightarrow> ?ok \<and> 0 < ?sh \<and> ?sh < ?d \<and> ?d < 64 \<and> ?n \<le> 2 ^ ?d \<and> ?k = ?d + 1 \<and>
      (\<exists>slots. length slots = ?d + 1 \<and> slots_match ?n 0 slots \<and>
         drop 24 bytes = concat (map slot_bytes slots) \<and> t' = frontier_decoded ps ?d ?sh ?n slots)"
  proof (cases "0 < ?sh \<and> ?sh < ?d \<and> ?d < 64")
    case ok: True
    then obtain t0 where t0: "frontier_new ps ?d ?sh = Ok t0" using frontier_new_Ok_iff by blast
    have "(\<exists>t c'. sfold [0..<?d + 1] (read_level bytes ?n) t0 24 = (Ok t, c') \<and> c' = length bytes \<and>
        t' = t\<lparr>nf_leaf_count := ?n\<rparr>) \<longleftrightarrow> (\<exists>slots. length slots = ?d + 1 \<and> slots_match ?n 0 slots \<and>
         drop 24 bytes = concat (map slot_bytes slots) \<and> t' = frontier_decoded ps ?d ?sh ?n slots)"
      unfolding frontier_levels_Ok_iff [OF t0] using True by blast
    with ok show ?thesis unfolding t0 result.inject by blast
  next
    case False
    then show ?thesis unfolding frontier_new_Ok_iff by blast
  qed
  finally show ?thesis using True by (simp only: Let_def simp_thms conj_assoc)
qed

lemma length_frontier_magic [simp]: "length frontier_snapshot_magic = 8"
  by (simp add: frontier_snapshot_magic_def)

text \<open>What decoding reads back from an encoding's header.\<close>

lemma frontier_header_reads:
  assumes "bytes = frontier_header t @ rest" and "nf_depth t < 64" and "nf_shard_height t < nf_depth t"
    and "nf_leaf_count t \<le> 2 ^ nf_depth t" and "length (nf_frontier t) = nf_depth t + 1"
  shows "take 8 bytes = frontier_snapshot_magic" "bytes ! 8 = 1" "bytes ! 11 = 0"
    "unat (bytes ! 9) = nf_depth t" "unat (bytes ! 10) = nf_shard_height t"
    "nat_of_be (take 8 (drop 12 bytes)) = nf_leaf_count t"
    "nat_of_be (take 4 (drop 20 bytes)) = nf_depth t + 1"
    "drop 24 bytes = rest" "24 \<le> length bytes"
proof -
  have small: "nf_leaf_count t < 256 ^ 8"
  proof -
    have "(2 :: nat) ^ nf_depth t \<le> 2 ^ 63" using assms(2) by (intro power_increasing) simp_all
    with assms(4) show ?thesis by simp
  qed
  show "take 8 bytes = frontier_snapshot_magic" "bytes ! 8 = 1" "bytes ! 11 = 0"
    "unat (bytes ! 9) = nf_depth t" "unat (bytes ! 10) = nf_shard_height t"
    "drop 24 bytes = rest" "24 \<le> length bytes"
    using assms
    by (simp_all add: frontier_header_def frontier_snapshot_version_def nth_append unat_of_nat take_bit_eq_mod)
  show "nat_of_be (take 8 (drop 12 bytes)) = nf_leaf_count t"
    using small by (simp add: assms(1) frontier_header_def)
  show "nat_of_be (take 4 (drop 20 bytes)) = nf_depth t + 1"
    using assms(2,5) by (simp add: assms(1) frontier_header_def)
qed

theorem frontier_decode_iff:
  "frontier_from_snapshot_bytes ps bytes = Ok t \<longleftrightarrow>
    frontier_valid ps t \<and> bytes = frontier_encode_snapshot t"
proof
  assume "frontier_from_snapshot_bytes ps bytes = Ok t"
  then obtain d sh n slots where dec: "24 \<le> length bytes" "take 8 bytes = frontier_snapshot_magic"
      "bytes ! 8 = 1" "bytes ! 11 = 0" "d = unat (bytes ! 9)" "sh = unat (bytes ! 10)"
      "n = nat_of_be (take 8 (drop 12 bytes))" "0 < sh" "sh < d" "d < 64" "n \<le> 2 ^ d"
      "nat_of_be (take 4 (drop 20 bytes)) = d + 1" "length slots = d + 1" "slots_match n 0 slots"
      "drop 24 bytes = concat (map slot_bytes slots)" "t = frontier_decoded ps d sh n slots"
    unfolding frontier_from_snapshot_bytes_Ok_iff Let_def by blast
  have "nat_to_be 8 n = take 8 (drop 12 bytes)"
    using nat_to_be_of_be [of "take 8 (drop 12 bytes)"] dec(1,7) by simp
  moreover have "nat_to_be 4 (d + 1) = take 4 (drop 20 bytes)"
    using nat_to_be_of_be [of "take 4 (drop 20 bytes)"] dec(1,12) by simp
  ultimately have "frontier_encode_snapshot t = take 8 bytes @ [bytes ! 8, bytes ! 9, bytes ! 10, bytes ! 11] @
      take 8 (drop 12 bytes) @ take 4 (drop 20 bytes) @ drop 24 bytes"
    using dec by (simp add: frontier_encode_eq frontier_header_def frontier_decoded_def
        frontier_snapshot_version_def)
  then have "bytes = frontier_encode_snapshot t" using header_split [OF dec(1)] by simp
  moreover have "frontier_valid ps t" unfolding frontier_valid_iff using dec by blast
  ultimately show "frontier_valid ps t \<and> bytes = frontier_encode_snapshot t" by simp
next
  assume a: "frontier_valid ps t \<and> bytes = frontier_encode_snapshot t"
  then obtain d sh n slots where t: "t = frontier_decoded ps d sh n slots"
      "0 < sh" "sh < d" "d < 64" "n \<le> 2 ^ d" "length slots = d + 1" "slots_match n 0 slots"
    unfolding frontier_valid_iff by blast
  have "bytes = frontier_header t @ concat (map slot_bytes slots)"
    using a t(1) by (simp add: frontier_encode_eq frontier_decoded_def)
  from frontier_header_reads [OF this] t show "frontier_from_snapshot_bytes ps bytes = Ok t"
    unfolding frontier_from_snapshot_bytes_Ok_iff Let_def by (auto simp: frontier_decoded_def)
qed

lemma frontier_of_valid: "frontier_fits d sh xs \<Longrightarrow> frontier_valid ps (frontier_of ps d sh xs)"
proof -
  have "nf_shard_size (frontier_of ps d sh xs) = 2 ^ sh" "nf_zeroes (frontier_of ps d sh xs) = zero_roots ps d"
    by (simp_all add: frontier_of_def frontier_mk_def zero_roots_eq)
  then show "frontier_fits d sh xs \<Longrightarrow> frontier_valid ps (frontier_of ps d sh xs)"
    by (simp add: frontier_valid_def frontier_fits_def frontier_slot_def)
qed

text \<open>The size bound the documentation of the type gives, for any depth.\<close>

lemma length_slot_bytes: "length (slot_bytes s) \<le> 33"
  by (cases s) simp_all

lemma frontier_encode_length:
  assumes "frontier_valid ps t"
  shows "length (frontier_encode_snapshot t) \<le> 24 + (nf_depth t + 1) + 32 * nf_depth t"
proof -
  let ?n = "nf_leaf_count t" and ?d = "nf_depth t"
  have len: "length (frontier_header t) = 24" by (simp add: frontier_header_def)
  have "length (concat (map slot_bytes slots)) = length slots + 32 * length (filter (\<lambda>s. s \<noteq> None) slots)" for slots
    by (induction slots) (auto simp: slot_bytes_def split: option.splits)
  moreover have "length (filter (\<lambda>s. s \<noteq> None) (nf_frontier t)) \<le> ?d"
  proof (rule ccontr)
    assume "\<not> length (filter (\<lambda>s. s \<noteq> None) (nf_frontier t)) \<le> ?d"
    moreover have "length (filter (\<lambda>s. s \<noteq> None) (nf_frontier t)) \<le> ?d + 1"
      using assms length_filter_le [of _ "nf_frontier t"] by (simp add: frontier_valid_def)
    ultimately have "length (filter (\<lambda>s. s \<noteq> None) (nf_frontier t)) = length (nf_frontier t)"
      using assms by (simp add: frontier_valid_def)
    then have "\<forall>s \<in> set (nf_frontier t). s \<noteq> None"
      using length_filter_less [of _ "nf_frontier t" "\<lambda>s. s \<noteq> None"] by (metis less_irrefl)
    then have "\<forall>l \<le> ?d. test_bit ?n l"
      using assms by (auto simp: frontier_valid_def in_set_conv_nth less_Suc_eq_le)
    then have "test_bit ?n 0" and "test_bit ?n ?d" by simp_all
    moreover have "?n \<le> 2 ^ ?d" "0 < ?d" using assms by (auto simp: frontier_valid_def)
    ultimately show False
      by (cases "?n = 2 ^ ?d") (auto simp: test_bit_def)
  qed
  ultimately show ?thesis
    using assms len by (simp add: frontier_encode_eq frontier_valid_def)
qed

section \<open>The byte boundary\<close>

definition frontier_append_be_32 ::
    "(fr list \<Rightarrow> fr) \<Rightarrow> byte list \<Rightarrow> (fr notes_frontier, fr frontier_append, tree_error) sm" where
  "frontier_append_be_32 ps leaf =
     sbind (slift (ok_or (fr_from_be_32_checked leaf) NonCanonicalField)) (\<lambda>leaf. frontier_append ps leaf)"

definition frontier_root_be_32 ::
    "(fr list \<Rightarrow> fr) \<Rightarrow> fr notes_frontier \<Rightarrow> (byte list, tree_error) result" where
  "frontier_root_be_32 ps t = rbind (frontier_root ps t) (\<lambda>r. Ok (fr_to_be_32 r))"

lemma frontier_append_be_32_eq:
  "frontier_append_be_32 ps bs t =
    (case fr_from_be_32_checked bs of Some x \<Rightarrow> frontier_append ps x t | None \<Rightarrow> (Err NonCanonicalField, t))"
  by (simp add: frontier_append_be_32_def sbind_def slift_def split: option.splits)

section \<open>Arbitrary bytes\<close>

lemma read_field_no_panic: "no_panic (read_field bytes)"
  unfolding read_field_def by (intro no_panic_reader no_panic_sbind no_panic_simps ok_or_Panic)

lemma read_slot_no_panic: "no_panic (read_slot bytes)"
  unfolding read_slot_def
  by (intro no_panic_reader no_panic_sbind no_panic_simps ok_or_Panic)
    (auto intro: read_field_no_panic no_panic_sbind)

lemma read_level_no_panic:
  "level < length (nf_frontier t) \<Longrightarrow> no_panic (read_level bytes n level t)"
  unfolding read_level_def Let_def by (intro no_panic_sbind no_panic_simps read_slot_no_panic) simp_all

lemma read_level_length:
  "read_level bytes n level t c = (Ok t', c') \<Longrightarrow> length (nf_frontier t') = length (nf_frontier t)"
  by (auto simp: read_level_def sbind_Ok_iff Let_def)

lemma frontier_levels_no_Panic:
  assumes "frontier_new ps d sh = Ok t" and "sfold [0..<d + 1] (read_level bytes n) t 24 = (r, c)"
  shows "r \<noteq> Panic"
proof -
  have "length (nf_frontier t) = d + 1" using assms(1) unfolding frontier_new_Ok_iff by auto
  then have "no_panic (sfold [0..<d + 1] (read_level bytes n) t)"
    using read_level_no_panic read_level_length
    by (intro no_panic_sfold [where P = "\<lambda>t. length (nf_frontier t) = d + 1"]) (auto simp del: upt_Suc)
  then show ?thesis using assms(2) by (rule no_panicD)
qed

lemma frontier_from_snapshot_bytes_no_Panic: "frontier_from_snapshot_bytes ps bytes \<noteq> Panic"
proof -
  have new: "frontier_new ps d sh \<noteq> Panic" for d sh
    by (simp add: frontier_new_def rbind_Panic_iff Let_def)
  show ?thesis
    by (auto simp: frontier_from_snapshot_bytes_def rbind_Panic_iff Let_def new idx_def
        frontier_snapshot_header_len_def dest: frontier_levels_no_Panic
        split: prod.splits if_splits simp del: upt_Suc)
qed

section \<open>Properties\<close>

text \<open>
  C7: The frontier snapshot is a total, canonical codec: on any bytes whatsoever
  \<open>from_snapshot_bytes\<close> returns without a panic, either a valid frontier whose encoding is
  exactly these bytes, or an error, and then the bytes are the encoding of no valid frontier.
\<close>

theorem frontier_snapshot_canonical:
  "case frontier_from_snapshot_bytes ps bytes of
     Ok t \<Rightarrow> frontier_valid ps t \<and> frontier_encode_snapshot t = bytes
   | Err e \<Rightarrow> (\<nexists>t. frontier_valid ps t \<and> frontier_encode_snapshot t = bytes)
   | Panic \<Rightarrow> False"
proof (cases "frontier_from_snapshot_bytes ps bytes")
  case (Ok t)
  then have "frontier_valid ps t \<and> bytes = frontier_encode_snapshot t" by (simp only: frontier_decode_iff)
  then show ?thesis unfolding Ok by simp
next
  case (Err e)
  have "frontier_from_snapshot_bytes ps (frontier_encode_snapshot t) = Ok t" if "frontier_valid ps t" for t
    using that frontier_decode_iff by blast
  then show ?thesis using Err by auto
next
  case Panic
  then show ?thesis using frontier_from_snapshot_bytes_no_Panic by blast
qed

text \<open>
  A restart is invisible: the frontier reached by appending any log that fits, written
  out and read back, is the same frontier - so every later append and root is the same - and
  the snapshot is never longer than \<open>25 + 33 * depth\<close> bytes (1,015 at the production depth).
\<close>

theorem frontier_restart:
  assumes "0 < sh" and "sh < d" and "d < 64" and "length xs \<le> 2 ^ d"
  shows "\<exists>t0 shards t. frontier_new ps d sh = Ok t0 \<and> frontier_append_many ps xs t0 = (Ok shards, t) \<and>
    frontier_from_snapshot_bytes ps (frontier_encode_snapshot t) = Ok t \<and>
    length (frontier_encode_snapshot t) \<le> 25 + 33 * d"
proof -
  have fits: "frontier_fits d sh xs" "frontier_fits d sh ([] :: fr list)" using assms by (simp_all add: frontier_fits_def)
  have valid: "frontier_valid ps (frontier_of ps d sh xs)" using fits(1) by (rule frontier_of_valid)
  have "frontier_from_snapshot_bytes ps (frontier_encode_snapshot (frontier_of ps d sh xs)) = Ok (frontier_of ps d sh xs)"
    using valid frontier_decode_iff by blast
  moreover have "length (frontier_encode_snapshot (frontier_of ps d sh xs)) \<le> 25 + 33 * d"
    using frontier_encode_length [OF valid] by (simp add: frontier_of_def frontier_mk_def)
  ultimately show ?thesis
    using assms frontier_append_many_eq [OF fits(2), of ps xs] by (auto simp: frontier_new_eq)
qed

theorem frontier_restart_witness:
  "\<exists>t. frontier_from_snapshot_bytes sum_list (frontier_encode_snapshot t) = Ok t \<and>
    length (frontier_encode_snapshot t) \<le> 1015"
proof -
  obtain t where "frontier_from_snapshot_bytes sum_list (frontier_encode_snapshot t) = Ok t"
    "length (frontier_encode_snapshot t) \<le> 25 + 33 * 30"
    using frontier_restart [of 14 30 "[7, 7, 9 :: fr]" sum_list] by auto
  then show ?thesis by auto
qed

end
