(* ===== verification/Snapshot_Sharded.thy ===== *)
theory Snapshot_Sharded
  imports Snapshot_Frontier Sharded_Refine
begin

text \<open>
  The snapshot of the sharded tree, \<open>ShardedTreeSnapshot::encode\<close> and \<open>decode\<close> of
  \<open>crates/core/src/imt.rs\<close>.  \<open>reads bytes c e c'\<close> says that the encoding \<open>e\<close> stands at
  the cursor \<open>c\<close> and ends at \<open>c'\<close>; every reader is characterised by it, so that decoding
  accepts exactly what encoding produces.
\<close>

section \<open>Encoding\<close>

text \<open>\<open>b"CYST"\<close>.\<close>

definition snapshot_magic :: "byte list" where
  "snapshot_magic = [67, 89, 83, 84]"

definition snapshot_version :: byte where
  "snapshot_version = 1"

definition snapshot_header_len :: nat where
  "snapshot_header_len = 20"

definition encode_owned :: "nat \<Rightarrow> fr owned_witness \<Rightarrow> byte list \<Rightarrow> (byte list, tree_error) result" where
  "encode_owned shard_height owned bytes =
     (let bytes = bytes @ fr_to_be_32 (ow_note_id owned) in
      rbind (guard (2 ^ 32 \<le> ow_leaf_index owned) (InvalidSnapshot ''leaf index does not fit u32'')) (\<lambda>_.
        let bytes = bytes @ nat_to_be 4 (ow_leaf_index owned);
            bytes = bytes @ [if ow_siblings owned \<noteq> None then 1 else 0];
            bytes = bytes @ [0, 0, 0]
        in case ow_siblings owned of
             None \<Rightarrow> Ok bytes
           | Some siblings \<Rightarrow>
               rbind (guard (length siblings \<noteq> shard_height)
                        (InvalidSiblingCount shard_height (length siblings))) (\<lambda>_.
                 Ok (append_fields bytes siblings))))"

definition snapshot_bytes :: "fr sharded_snapshot \<Rightarrow> (nat, tree_error) result" where
  "snapshot_bytes s =
     (let siblings_count = sum_list (map (\<lambda>owned. case ow_siblings owned of Some ss \<Rightarrow> length ss | None \<Rightarrow> 0)
            (ss_owned_notes s));
          overflow = InvalidSnapshot ''snapshot size overflow''
      in rbind (ok_or (Option.bind (checked_add (length (ss_completed_roots s)) (length (ss_live_leaves s))) (\<lambda>count.
                       Option.bind (checked_add count (length (ss_owned_notes s))) (\<lambda>count.
                         checked_add count siblings_count))) overflow) (\<lambda>fields_count.
         rbind (ok_or (checked_mul (length (ss_owned_notes s)) 8) overflow) (\<lambda>owned_metadata_bytes.
         rbind (ok_or (checked_mul fields_count 32) overflow) (\<lambda>field_bytes.
           ok_or (Option.bind (checked_add snapshot_header_len field_bytes) (\<lambda>size.
                    checked_add size owned_metadata_bytes)) overflow))))"

definition snapshot_encode :: "fr sharded_snapshot \<Rightarrow> (byte list, tree_error) result" where
  "snapshot_encode s =
     rbind (guard (ss_shard_height s = 0 \<or> ss_depth s \<le> ss_shard_height s)
              (InvalidGeometry (ss_depth s) (ss_shard_height s))) (\<lambda>_.
     rbind (tree_capacity (ss_shard_height s)) (\<lambda>shard_size.
     rbind (tree_capacity (ss_depth s - ss_shard_height s)) (\<lambda>max_shards.
     rbind (guard (max_shards < length (ss_completed_roots s))
              (InvalidSnapshot ''too many completed shard roots'')) (\<lambda>_.
     rbind (guard (shard_size \<le> length (ss_live_leaves s))
              (InvalidSnapshot ''the live shard must contain fewer than one complete shard'')) (\<lambda>_.
     rbind (guard (length (ss_completed_roots s) = max_shards \<and> ss_live_leaves s \<noteq> [])
              (InvalidSnapshot ''live leaves exceed the tree capacity'')) (\<lambda>_.
     rbind (guard (256 \<le> ss_depth s) (InvalidSnapshot ''depth does not fit the snapshot format'')) (\<lambda>_.
     rbind (guard (256 \<le> ss_shard_height s)
              (InvalidSnapshot ''shard height does not fit the snapshot format'')) (\<lambda>_.
     rbind (guard (2 ^ 32 \<le> length (ss_completed_roots s)) (InvalidSnapshot ''too many completed roots'')) (\<lambda>_.
     rbind (guard (2 ^ 32 \<le> length (ss_live_leaves s)) (InvalidSnapshot ''too many live leaves'')) (\<lambda>_.
     rbind (guard (2 ^ 32 \<le> length (ss_owned_notes s)) (InvalidSnapshot ''too many owned notes'')) (\<lambda>_.
     rbind (snapshot_bytes s) (\<lambda>_.
       let bytes = snapshot_magic @ [snapshot_version, of_nat (ss_depth s), of_nat (ss_shard_height s), 0] @
             nat_to_be 4 (length (ss_completed_roots s)) @ nat_to_be 4 (length (ss_live_leaves s)) @
             nat_to_be 4 (length (ss_owned_notes s));
           bytes = append_fields (append_fields bytes (ss_completed_roots s)) (ss_live_leaves s)
       in rfold (ss_owned_notes s) (encode_owned (ss_shard_height s)) bytes))))))))))))"

section \<open>Decoding\<close>

definition read_siblings :: "byte list \<Rightarrow> nat \<Rightarrow> (nat, fr list option, tree_error) sm" where
  "read_siblings bytes shard_height = (\<lambda>cursor.
     sbind (slift (ok_or (get bytes cursor) (InvalidSnapshot ''truncated owned-note flag''))) (\<lambda>flag.
     sbind (smodify (\<lambda>cursor. cursor + 1)) (\<lambda>_ cursor.
     sbind (slift (ok_or (get_range bytes cursor (cursor + 3))
                     (InvalidSnapshot ''truncated owned-note padding''))) (\<lambda>reserved.
     sbind (slift (guard (reserved \<noteq> [0, 0, 0]) (InvalidSnapshot ''owned-note padding is non-zero''))) (\<lambda>_.
     sbind (smodify (\<lambda>cursor. cursor + 3)) (\<lambda>_.
       if flag = 0 then sret None
       else if flag = 1 then sbind (read_fields bytes shard_height) (\<lambda>ss. sret (Some ss))
       else slift (Err (InvalidSnapshot (''invalid frozen-path flag '' @ show_nat (unat flag))))))) cursor)) cursor)"

definition read_owned :: "byte list \<Rightarrow> nat \<Rightarrow> (nat, fr owned_witness, tree_error) sm" where
  "read_owned bytes shard_height =
     sbind (read_field bytes) (\<lambda>note_id.
     sbind (read_u32_at_cursor bytes) (\<lambda>leaf_index.
     sbind (read_siblings bytes shard_height) (\<lambda>siblings.
       sret \<lparr>ow_note_id = note_id, ow_leaf_index = leaf_index, ow_siblings = siblings\<rparr>)))"

definition read_body ::
    "byte list \<Rightarrow> nat \<Rightarrow> nat \<Rightarrow> nat \<Rightarrow> nat \<Rightarrow> nat \<Rightarrow> (nat, fr sharded_snapshot, tree_error) sm" where
  "read_body bytes depth shard_height completed_count live_count owned_count =
     sbind (read_fields bytes completed_count) (\<lambda>completed_roots.
     sbind (read_fields bytes live_count) (\<lambda>live_leaves.
     sbind (sfold [0..<owned_count] (\<lambda>_ owned_notes.
              sbind (read_owned bytes shard_height) (\<lambda>owned. sret (owned_notes @ [owned]))) []) (\<lambda>owned_notes.
       sret \<lparr>ss_depth = depth, ss_shard_height = shard_height, ss_completed_roots = completed_roots,
             ss_live_leaves = live_leaves, ss_owned_notes = owned_notes\<rparr>)))"

definition snapshot_decode :: "byte list \<Rightarrow> (fr sharded_snapshot, tree_error) result" where
  "snapshot_decode bytes =
     rbind (guard (length bytes < snapshot_header_len) (InvalidSnapshot ''truncated header'')) (\<lambda>_.
     rbind (slice_to bytes 4) (\<lambda>magic.
     rbind (guard (magic \<noteq> snapshot_magic) (InvalidSnapshot ''bad magic'')) (\<lambda>_.
     rbind (idx bytes 4) (\<lambda>version.
     rbind (guard (version \<noteq> snapshot_version)
              (InvalidSnapshot (''unsupported version '' @ show_nat (unat version)))) (\<lambda>_.
     rbind (idx bytes 7) (\<lambda>reserved.
     rbind (guard (reserved \<noteq> 0) (InvalidSnapshot ''reserved header byte is non-zero'')) (\<lambda>_.
     rbind (idx bytes 5) (\<lambda>b5.
     rbind (idx bytes 6) (\<lambda>b6.
       let depth = unat b5; shard_height = unat b6 in
     rbind (guard (shard_height = 0 \<or> depth \<le> shard_height) (InvalidGeometry depth shard_height)) (\<lambda>_.
     rbind (read_u32 bytes 8) (\<lambda>completed_count.
     rbind (read_u32 bytes 12) (\<lambda>live_count.
     rbind (read_u32 bytes 16) (\<lambda>owned_count.
     rbind (tree_capacity shard_height) (\<lambda>shard_size.
     rbind (tree_capacity (depth - shard_height)) (\<lambda>max_shards.
     rbind (guard (max_shards < completed_count) (InvalidSnapshot ''too many completed shard roots'')) (\<lambda>_.
     rbind (guard (shard_size \<le> live_count)
              (InvalidSnapshot ''the live shard must contain fewer than one complete shard'')) (\<lambda>_.
     rbind (guard (completed_count = max_shards \<and> live_count \<noteq> 0)
              (InvalidSnapshot ''live leaves exceed the tree capacity'')) (\<lambda>_.
     rbind (ok_or (checked_add completed_count live_count) (InvalidSnapshot ''field count overflow'')) (\<lambda>fixed_field_count.
     rbind (ok_or (checked_mul fixed_field_count 32) (InvalidSnapshot ''field byte count overflow'')) (\<lambda>fixed_bytes.
     rbind (guard (length bytes - snapshot_header_len < fixed_bytes)
              (InvalidSnapshot ''truncated root/leaf fields'')) (\<lambda>_.
     rbind (ok_or (checked_mul owned_count 40) (InvalidSnapshot ''owned-note byte count overflow'')) (\<lambda>minimum_owned_bytes.
     rbind (guard (length bytes - snapshot_header_len - fixed_bytes < minimum_owned_bytes)
              (InvalidSnapshot ''truncated owned-note records'')) (\<lambda>_.
       case read_body bytes depth shard_height completed_count live_count owned_count snapshot_header_len of
         (r, cursor) \<Rightarrow>
           rbind r (\<lambda>s.
           rbind (guard (cursor \<noteq> length bytes) (InvalidSnapshot ''trailing bytes'')) (\<lambda>_. Ok s)))))))))))))))))))))))))"

definition sharded_encode_snapshot :: "fr sharded_tree \<Rightarrow> (byte list, tree_error) result" where
  "sharded_encode_snapshot s = snapshot_encode (sharded_take_snapshot s)"

definition sharded_from_snapshot_bytes ::
    "(fr list \<Rightarrow> fr) \<Rightarrow> byte list \<Rightarrow> (fr sharded_tree, tree_error) result" where
  "sharded_from_snapshot_bytes ps bytes =
     rbind (snapshot_decode bytes) (\<lambda>snapshot. sharded_from_snapshot ps snapshot)"

section \<open>What stands at the cursor\<close>

definition reads :: "byte list \<Rightarrow> nat \<Rightarrow> byte list \<Rightarrow> nat \<Rightarrow> bool" where
  "reads bytes c e c' \<longleftrightarrow> c' = c + length e \<and> drop c bytes = e @ drop c' bytes"

lemma reads_Nil [simp]: "reads bytes c [] c' \<longleftrightarrow> c' = c"
  by (auto simp: reads_def)

lemma reads_append: "reads bytes c (e1 @ e2) c' \<longleftrightarrow> (\<exists>c1. reads bytes c e1 c1 \<and> reads bytes c1 e2 c')"
proof -
  let ?c1 = "c + length e1"
  have "drop ?c1 bytes = drop (length e1) (drop c bytes)" by (simp add: add.commute)
  then have "drop c bytes = e1 @ rest \<Longrightarrow> drop ?c1 bytes = rest" for rest by simp
  then show ?thesis
    unfolding reads_def length_append append_assoc add.assoc [symmetric] by metis
qed

lemma get_reads: "get bytes c = Some b \<longleftrightarrow> reads bytes c [b] (Suc c)"
proof -
  have "get bytes c = Some b \<longleftrightarrow> (\<exists>b'. get bytes c = Some b' \<and> b' = b)" by simp
  also have "\<dots> \<longleftrightarrow> (\<exists>b'. drop c bytes = b' # drop (Suc c) bytes \<and> b' = b)" by (rule drop_get)
  finally show ?thesis by (simp add: reads_def)
qed

lemma get_range_reads:
  "0 < length raw \<Longrightarrow> get_range bytes c (c + length raw) = Some raw \<longleftrightarrow> reads bytes c raw (c + length raw)"
  using drop_prefix_iff [of raw c bytes] by (simp add: get_range_Some_iff reads_def)

lemma read_field_reads: "read_field bytes c = (Ok x, c') \<longleftrightarrow> reads bytes c (fr_to_be_32 x) c'"
  unfolding read_field_Ok_iff reads_def by simp

lemma read_fields_reads:
  "read_fields bytes k c = (Ok xs, c') \<longleftrightarrow> length xs = k \<and> reads bytes c (concat (map fr_to_be_32 xs)) c'"
  unfolding read_fields_Ok_iff reads_def by auto

lemma read_u32_at_cursor_reads:
  "read_u32_at_cursor bytes c = (Ok n, c') \<longleftrightarrow> n < 2 ^ 32 \<and> reads bytes c (nat_to_be 4 n) c'"
  unfolding read_u32_at_cursor_Ok_iff reads_def by auto

definition siblings_bytes :: "fr list option \<Rightarrow> byte list" where
  "siblings_bytes ss = (case ss of Some fs \<Rightarrow> [1, 0, 0, 0] @ concat (map fr_to_be_32 fs) | None \<Rightarrow> [0, 0, 0, 0])"

definition siblings_fit :: "nat \<Rightarrow> fr list option \<Rightarrow> bool" where
  "siblings_fit sh ss \<longleftrightarrow> (case ss of Some fs \<Rightarrow> length fs = sh | None \<Rightarrow> True)"

lemma read_siblings_reads:
  "read_siblings bytes sh c = (Ok ss, c') \<longleftrightarrow> siblings_fit sh ss \<and> reads bytes c (siblings_bytes ss) c'"
proof -
  have pad: "get_range bytes (Suc c) (Suc c + 3) = Some [0, 0, 0] \<longleftrightarrow> reads bytes (Suc c) [0, 0, 0] (Suc c + 3)"
    using get_range_reads [of "[0, 0, 0]" bytes "Suc c"] by (simp add: eval_nat_numeral)
  have flag: "reads bytes c [b, 0, 0, 0] c1 \<longleftrightarrow>
      reads bytes c [b] (Suc c) \<and> reads bytes (Suc c) [0, 0, 0] (Suc c + 3) \<and> c1 = Suc c + 3" for b c1
    using reads_append [of bytes c "[b]" "[0, 0, 0]" c1] by (auto simp: reads_def eval_nat_numeral)
  have "read_siblings bytes sh c = (Ok ss, c') \<longleftrightarrow> (\<exists>b. get bytes c = Some b \<and>
      get_range bytes (Suc c) (Suc c + 3) = Some [0, 0, 0] \<and>
      (b = 0 \<and> ss = None \<and> c' = Suc c + 3 \<or>
       b = 1 \<and> (\<exists>fs. read_fields bytes sh (Suc c + 3) = (Ok fs, c') \<and> ss = Some fs)))"
  proof (cases "get bytes c")
    case None
    then show ?thesis by (simp add: read_siblings_def sbind_def slift_def)
  next
    case (Some b)
    show ?thesis
    proof (cases "get_range bytes (Suc c) (Suc c + 3)")
      case None
      with Some show ?thesis by (simp add: read_siblings_def sbind_def slift_def smodify_def)
    next
      case (Some reserved)
      have "read_siblings bytes sh c = (if reserved \<noteq> [0, 0, 0] then (Err (InvalidSnapshot ''owned-note padding is non-zero''), Suc c)
          else if b = 0 then (Ok None, Suc c + 3)
          else if b = 1 then sbind (read_fields bytes sh) (\<lambda>ss. sret (Some ss)) (Suc c + 3)
          else (Err (InvalidSnapshot (''invalid frozen-path flag '' @ show_nat (unat b))), Suc c + 3))"
        using Some \<open>get bytes c = Some b\<close> by (simp add: read_siblings_def sm_simps)
      then show ?thesis
        using Some \<open>get bytes c = Some b\<close>
        by (cases "b = 0"; cases "b = 1") (auto simp: sbind_Ok_iff)
    qed
  qed
  then show ?thesis
    unfolding get_reads pad read_fields_reads
    by (cases ss) (auto simp: siblings_bytes_def siblings_fit_def flag reads_append [of bytes c "[1, 0, 0, 0]", simplified])
qed

definition owned_bytes :: "fr owned_witness \<Rightarrow> byte list" where
  "owned_bytes w = fr_to_be_32 (ow_note_id w) @ nat_to_be 4 (ow_leaf_index w) @ siblings_bytes (ow_siblings w)"

definition owned_fits :: "nat \<Rightarrow> fr owned_witness \<Rightarrow> bool" where
  "owned_fits sh w \<longleftrightarrow> ow_leaf_index w < 2 ^ 32 \<and> siblings_fit sh (ow_siblings w)"

lemma read_owned_reads:
  "read_owned bytes sh c = (Ok w, c') \<longleftrightarrow> owned_fits sh w \<and> reads bytes c (owned_bytes w) c'"
  by (cases w) (auto simp: read_owned_def sbind_Ok_iff read_field_reads read_u32_at_cursor_reads
      read_siblings_reads owned_fits_def owned_bytes_def reads_append)

lemma read_owned_loop_reads:
  "sfold js (\<lambda>_ ws. sbind (read_owned bytes sh) (\<lambda>w. sret (ws @ [w]))) acc c = (Ok ys, c') \<longleftrightarrow>
    (\<exists>ws. ys = acc @ ws \<and> length ws = length js \<and> (\<forall>w \<in> set ws. owned_fits sh w) \<and>
      reads bytes c (concat (map owned_bytes ws)) c')"
proof (induction js arbitrary: acc c)
  case Nil
  then show ?case by auto
next
  case (Cons j js)
  have "sfold (j # js) (\<lambda>_ ws. sbind (read_owned bytes sh) (\<lambda>w. sret (ws @ [w]))) acc c = (Ok ys, c') \<longleftrightarrow>
    (\<exists>w c1. read_owned bytes sh c = (Ok w, c1) \<and>
      sfold js (\<lambda>_ ws. sbind (read_owned bytes sh) (\<lambda>w. sret (ws @ [w]))) (acc @ [w]) c1 = (Ok ys, c'))"
    by (simp add: sbind_Ok_iff) blast
  also have "\<dots> \<longleftrightarrow> (\<exists>w ws. ys = (acc @ [w]) @ ws \<and> length ws = length js \<and>
      (\<forall>w \<in> set (w # ws). owned_fits sh w) \<and> reads bytes c (owned_bytes w @ concat (map owned_bytes ws)) c')"
    unfolding read_owned_reads Cons.IH reads_append by auto
  also have "\<dots> \<longleftrightarrow> (\<exists>ws. ys = acc @ ws \<and> length ws = length (j # js) \<and> (\<forall>w \<in> set ws. owned_fits sh w) \<and>
      reads bytes c (concat (map owned_bytes ws)) c')" (is "?l \<longleftrightarrow> ?r")
  proof
    assume ?l
    then obtain w ws where "ys = (acc @ [w]) @ ws" "length ws = length js"
      "\<forall>w \<in> set (w # ws). owned_fits sh w" "reads bytes c (owned_bytes w @ concat (map owned_bytes ws)) c'" by blast
    then show ?r by (intro exI [of _ "w # ws"]) simp
  next
    assume ?r
    then obtain ws where r: "ys = acc @ ws" "length ws = length (j # js)" "\<forall>w \<in> set ws. owned_fits sh w"
      "reads bytes c (concat (map owned_bytes ws)) c'" by blast
    then obtain w vs where "ws = w # vs" by (cases ws) auto
    with r show ?l by (intro exI [of _ w] exI [of _ vs]) simp
  qed
  finally show ?case .
qed

definition body_bytes :: "fr sharded_snapshot \<Rightarrow> byte list" where
  "body_bytes s = concat (map fr_to_be_32 (ss_completed_roots s)) @ concat (map fr_to_be_32 (ss_live_leaves s)) @
     concat (map owned_bytes (ss_owned_notes s))"

lemma read_body_reads:
  "read_body bytes d sh a b n c = (Ok s, c') \<longleftrightarrow> ss_depth s = d \<and> ss_shard_height s = sh \<and>
    length (ss_completed_roots s) = a \<and> length (ss_live_leaves s) = b \<and> length (ss_owned_notes s) = n \<and>
    (\<forall>w \<in> set (ss_owned_notes s). owned_fits sh w) \<and> reads bytes c (body_bytes s) c'"
  by (cases s) (auto simp: read_body_def sbind_Ok_iff read_fields_reads read_owned_loop_reads body_bytes_def
      reads_append)

section \<open>What encoding writes\<close>

lemma encode_owned_Ok_iff:
  "encode_owned sh w bytes = Ok out \<longleftrightarrow> owned_fits sh w \<and> out = bytes @ owned_bytes w"
  by (auto simp: encode_owned_def rbind_Ok_iff Let_def owned_fits_def owned_bytes_def siblings_bytes_def
      siblings_fit_def append_fields_eq not_le split: option.splits)

lemma encode_owned_loop_Ok_iff:
  "rfold ws (encode_owned sh) bytes = Ok out \<longleftrightarrow>
    (\<forall>w \<in> set ws. owned_fits sh w) \<and> out = bytes @ concat (map owned_bytes ws)"
  by (induction ws arbitrary: bytes) (auto simp: rbind_Ok_iff encode_owned_Ok_iff)

definition snapshot_header :: "fr sharded_snapshot \<Rightarrow> byte list" where
  "snapshot_header s = snapshot_magic @ [snapshot_version, of_nat (ss_depth s), of_nat (ss_shard_height s), 0] @
     nat_to_be 4 (length (ss_completed_roots s)) @ nat_to_be 4 (length (ss_live_leaves s)) @
     nat_to_be 4 (length (ss_owned_notes s))"

text \<open>The shape every encodable snapshot has: geometry, counts, and owned records that fit.\<close>

definition snapshot_shape :: "nat \<Rightarrow> nat \<Rightarrow> nat \<Rightarrow> nat \<Rightarrow> nat \<Rightarrow> bool" where
  "snapshot_shape d sh a b n \<longleftrightarrow> 0 < sh \<and> sh < d \<and> sh < 64 \<and> d - sh < 64 \<and> a \<le> 2 ^ (d - sh) \<and> b < 2 ^ sh \<and>
     (a = 2 ^ (d - sh) \<longrightarrow> b = 0) \<and> d < 256 \<and> a < 2 ^ 32 \<and> b < 2 ^ 32 \<and> n < 2 ^ 32"

definition snapshot_fits :: "fr sharded_snapshot \<Rightarrow> bool" where
  "snapshot_fits s \<longleftrightarrow>
     snapshot_shape (ss_depth s) (ss_shard_height s) (length (ss_completed_roots s))
       (length (ss_live_leaves s)) (length (ss_owned_notes s)) \<and>
     (\<forall>w \<in> set (ss_owned_notes s). owned_fits (ss_shard_height s) w)"

lemma length_snapshot_header [simp]: "length (snapshot_header s) = 20"
  by (simp add: snapshot_header_def snapshot_magic_def)

lemma length_owned_bytes:
  "length (owned_bytes w) = 40 + 32 * (case ow_siblings w of Some ss \<Rightarrow> length ss | None \<Rightarrow> 0)"
  by (simp add: owned_bytes_def siblings_bytes_def split: option.splits)

lemma length_owned_records:
  "length (concat (map owned_bytes ws)) =
    40 * length ws + 32 * sum_list (map (\<lambda>w. case ow_siblings w of Some ss \<Rightarrow> length ss | None \<Rightarrow> 0) ws)"
  by (induction ws) (simp_all add: length_owned_bytes)

text \<open>The precomputed size is the exact size, so the overflow checks bound the output.\<close>

lemma snapshot_bytes_Ok_iff:
  "(\<exists>n. snapshot_bytes s = Ok n) \<longleftrightarrow> length (snapshot_header s @ body_bytes s) < 2 ^ 64"
  unfolding length_append body_bytes_def length_owned_records length_snapshot_header length_concat_be_32
  by (auto simp: snapshot_bytes_def Let_def rbind_Ok_iff snapshot_header_len_def bind_eq_Some_conv)

lemma snapshot_encode_Ok_iff:
  "snapshot_encode s = Ok bytes \<longleftrightarrow>
    snapshot_fits s \<and> bytes = snapshot_header s @ body_bytes s \<and> length bytes < 2 ^ 64"
proof -
  have "snapshot_encode s = Ok bytes \<longleftrightarrow> snapshot_fits s \<and> (\<exists>n. snapshot_bytes s = Ok n) \<and>
      bytes = snapshot_header s @ body_bytes s"
    unfolding snapshot_encode_def snapshot_fits_def snapshot_shape_def
    by (auto simp: rbind_Ok_iff tree_capacity_Ok_iff Let_def encode_owned_loop_Ok_iff append_fields_eq
        snapshot_header_def body_bytes_def)
  then show ?thesis unfolding snapshot_bytes_Ok_iff by blast
qed

section \<open>Decoding is the inverse\<close>

lemma snapshot_header_split:
  assumes "20 \<le> length bytes"
  shows "bytes = take 4 bytes @ [bytes ! 4, bytes ! 5, bytes ! 6, bytes ! 7] @ take 4 (drop 8 bytes) @
    take 4 (drop 12 bytes) @ take 4 (drop 16 bytes) @ drop 20 bytes"
proof -
  have "drop 4 bytes = [bytes ! 4, bytes ! 5, bytes ! 6, bytes ! 7] @ drop 8 bytes"
    using assms by (simp add: Cons_nth_drop_Suc eval_nat_numeral)
  moreover have "drop 8 bytes = take 4 (drop 8 bytes) @ drop 12 bytes"
    using append_take_drop_id [of 4 "drop 8 bytes"] by simp
  moreover have "drop 12 bytes = take 4 (drop 12 bytes) @ drop 16 bytes"
    using append_take_drop_id [of 4 "drop 12 bytes"] by simp
  moreover have "drop 16 bytes = take 4 (drop 16 bytes) @ drop 20 bytes"
    using append_take_drop_id [of 4 "drop 16 bytes"] by simp
  moreover have "bytes = take 4 bytes @ drop 4 bytes" by simp
  ultimately show ?thesis by metis
qed

lemma read_u32_take: "c + 4 \<le> length bytes \<Longrightarrow> read_u32 bytes c = Ok n \<longleftrightarrow> n < 2 ^ 32 \<and> take 4 (drop c bytes) = nat_to_be 4 n"
  unfolding read_u32_Ok_iff using drop_prefix_iff [of "nat_to_be 4 n" c bytes] by auto

definition header_reads :: "byte list \<Rightarrow> nat \<Rightarrow> nat \<Rightarrow> nat \<Rightarrow> nat \<Rightarrow> nat \<Rightarrow> bool" where
  "header_reads bytes d sh a b n \<longleftrightarrow> 20 \<le> length bytes \<and> take 4 bytes = snapshot_magic \<and> bytes ! 4 = 1 \<and>
     bytes ! 7 = 0 \<and> unat (bytes ! 5) = d \<and> unat (bytes ! 6) = sh \<and>
     read_u32 bytes 8 = Ok a \<and> read_u32 bytes 12 = Ok b \<and> read_u32 bytes 16 = Ok n"

lemma header_reads_iff:
  assumes "ss_depth s = d" and "ss_shard_height s = sh" and "length (ss_completed_roots s) = a"
    and "length (ss_live_leaves s) = b" and "length (ss_owned_notes s) = n"
    and "a < 2 ^ 32" and "b < 2 ^ 32" and "n < 2 ^ 32" and "d < 256" and "sh < 256"
  shows "header_reads bytes d sh a b n \<longleftrightarrow> bytes = snapshot_header s @ drop 20 bytes"
proof
  assume h: "header_reads bytes d sh a b n"
  then have len: "20 \<le> length bytes" by (simp add: header_reads_def)
  have "take 4 (drop 8 bytes) = nat_to_be 4 a" "take 4 (drop 12 bytes) = nat_to_be 4 b"
    "take 4 (drop 16 bytes) = nat_to_be 4 n"
    using h len read_u32_take [of 8 bytes] read_u32_take [of 12 bytes] read_u32_take [of 16 bytes]
    by (auto simp: header_reads_def)
  moreover have "bytes ! 5 = of_nat d" "bytes ! 6 = of_nat sh" using h by (auto simp: header_reads_def)
  ultimately show "bytes = snapshot_header s @ drop 20 bytes"
    using h assms snapshot_header_split [OF len] by (simp add: header_reads_def snapshot_header_def snapshot_version_def)
next
  assume b: "bytes = snapshot_header s @ drop 20 bytes"
  then obtain rest where rest: "bytes = snapshot_header s @ rest" by blast
  have len: "20 \<le> length bytes" using rest by simp
  show "header_reads bytes d sh a b n"
    using assms len unfolding header_reads_def
    by (simp add: read_u32_take) (simp add: rest snapshot_header_def snapshot_magic_def snapshot_version_def
        unat_of_nat take_bit_eq_mod)
qed

lemma snapshot_decode_reads:
  "snapshot_decode bytes = Ok s \<longleftrightarrow> (\<exists>d sh a b n. header_reads bytes d sh a b n \<and> snapshot_shape d sh a b n \<and>
     32 * (a + b) + 40 * n \<le> length bytes - 20 \<and> read_body bytes d sh a b n 20 = (Ok s, length bytes))"
    (is "_ \<longleftrightarrow> (\<exists>d sh a b n. ?P d sh a b n)")
proof
  assume d: "snapshot_decode bytes = Ok s"
  define dd where "dd = unat (bytes ! 5)"
  define sh where "sh = unat (bytes ! 6)"
  have small: "dd < 256" "sh < 256" using unat_byte_less by (simp_all add: dd_def sh_def)
  from d obtain a b n where r: "20 \<le> length bytes" "take 4 bytes = snapshot_magic" "bytes ! 4 = 1" "bytes ! 7 = 0"
      "read_u32 bytes 8 = Ok a" "read_u32 bytes 12 = Ok b" "read_u32 bytes 16 = Ok n"
      "0 < sh" "sh < dd" "sh < 64" "dd - sh < 64" "a \<le> 2 ^ (dd - sh)" "b < 2 ^ sh"
      "a = 2 ^ (dd - sh) \<longrightarrow> b = 0" "(a + b) * 32 \<le> length bytes - 20"
      "n * 40 \<le> length bytes - 20 - (a + b) * 32" "read_body bytes dd sh a b n 20 = (Ok s, length bytes)"
    unfolding snapshot_decode_def Let_def rbind_Ok_iff case_rbind_Ok_iff
    by (clarsimp simp: tree_capacity_Ok_iff snapshot_header_len_def snapshot_version_def idx_def
        slice_to_def not_less not_le dd_def sh_def split: if_splits)
  moreover have "a < 2 ^ 32" "b < 2 ^ 32" "n < 2 ^ 32" using r(5-7) by (simp_all add: read_u32_Ok_iff)
  ultimately have "?P dd sh a b n"
    using small by (simp add: header_reads_def snapshot_shape_def dd_def sh_def)
  then show "\<exists>d sh a b n. ?P d sh a b n" by blast
next
  assume "\<exists>d sh a b n. ?P d sh a b n"
  then obtain d sh a b n where p: "?P d sh a b n" by blast
  then have "32 * (a + b) + 40 * n \<le> length bytes - 20" by blast
  then have "\<not> length bytes - 20 < (a + b) * 32" "\<not> length bytes - 20 - (a + b) * 32 < n * 40" by linarith+
  moreover have "a + b < 2 ^ 64" "(a + b) * 32 < 2 ^ 64" "n * 40 < 2 ^ 64"
    using p by (simp_all add: snapshot_shape_def)
  ultimately show "snapshot_decode bytes = Ok s"
    using p unfolding snapshot_decode_def Let_def header_reads_def snapshot_shape_def
    by (auto simp: tree_capacity_Ok_iff snapshot_header_len_def snapshot_version_def slice_to_def
        checked_add_def checked_mul_def usize_bits_def)
qed

lemma snapshot_decode_Ok_iff:
  "snapshot_decode bytes = Ok s \<longleftrightarrow> snapshot_fits s \<and> bytes = snapshot_header s @ body_bytes s"
proof
  assume "snapshot_decode bytes = Ok s"
  then obtain d sh a b n where p: "header_reads bytes d sh a b n" "snapshot_shape d sh a b n"
      "read_body bytes d sh a b n 20 = (Ok s, length bytes)"
    unfolding snapshot_decode_reads by blast
  from p(3) have f: "ss_depth s = d" "ss_shard_height s = sh" "length (ss_completed_roots s) = a"
      "length (ss_live_leaves s) = b" "length (ss_owned_notes s) = n"
      "\<forall>w \<in> set (ss_owned_notes s). owned_fits sh w" "drop 20 bytes = body_bytes s"
    unfolding read_body_reads by (auto simp: reads_def)
  then have "bytes = snapshot_header s @ drop 20 bytes"
    using p(1,2) header_reads_iff [OF f(1-5), of bytes] by (simp add: snapshot_shape_def)
  then show "snapshot_fits s \<and> bytes = snapshot_header s @ body_bytes s"
    using f p(2) by (simp add: snapshot_fits_def)
next
  assume a: "snapshot_fits s \<and> bytes = snapshot_header s @ body_bytes s"
  let ?P = "\<lambda>f. f (ss_depth s) (ss_shard_height s) (length (ss_completed_roots s))
       (length (ss_live_leaves s)) (length (ss_owned_notes s))"
  have shape: "?P snapshot_shape" and own: "\<forall>w \<in> set (ss_owned_notes s). owned_fits (ss_shard_height s) w"
    using a by (simp_all add: snapshot_fits_def)
  have drop: "drop 20 bytes = body_bytes s" using a by simp
  then have "?P (header_reads bytes)"
    using shape a by (subst header_reads_iff) (simp_all add: snapshot_shape_def)
  moreover have "?P (read_body bytes) 20 = (Ok s, length bytes)"
    unfolding read_body_reads reads_def using own a drop by simp
  moreover have "length bytes - 20 = length (body_bytes s)" using a by simp
  ultimately show "snapshot_decode bytes = Ok s"
    unfolding snapshot_decode_reads using shape
    by (intro exI conjI) (assumption, assumption, simp add: body_bytes_def length_owned_records, assumption)
qed

lemma snapshot_encode_decode:
  "snapshot_encode s = Ok bytes \<longleftrightarrow> snapshot_decode bytes = Ok s \<and> length bytes < 2 ^ 64"
  unfolding snapshot_encode_Ok_iff snapshot_decode_Ok_iff by blast

end
