(* ===== verification/Sharded_Stateless.thy ===== *)
theory Sharded_Stateless
  imports Sharded_Refine
begin

text \<open>
  The stateless decomposition at the end of \<open>crates/core/src/imt.rs\<close>: \<open>shard_roots\<close>,
  \<open>cap_levels\<close>, \<open>sharded_root\<close> and \<open>sharded_witness\<close>.  They rebuild the shards and the cap
  from a leaf log and agree with the flat tree.  \<open>1usize << shard_height\<close> and
  \<open>depth - shard_height\<close> panic out of range, as a build with overflow checks does.
\<close>

definition shard_roots :: "('f :: zero list \<Rightarrow> 'f) \<Rightarrow> 'f list \<Rightarrow> nat \<Rightarrow> ('f list, tree_error) result" where
  "shard_roots ps leaves shard_height =
     rbind (rassert (shard_height < usize_bits)) (\<lambda>_.
       let shard_size = 2 ^ shard_height in
       rmap (\<lambda>chunk. rbind (imt_from_leaves ps shard_height chunk) imt_root) (chunks shard_size leaves))"

text \<open>The loop \<open>while i < level.len()\<close> over pairs; the level's zero is read only when needed.\<close>

fun cap_next_level :: "('f list \<Rightarrow> 'f) \<Rightarrow> 'f list \<Rightarrow> nat \<Rightarrow> 'f list \<Rightarrow> ('f list, tree_error) result" where
  "cap_next_level ps z h [] = Ok []"
| "cap_next_level ps z h [left] = rbind (idx z h) (\<lambda>right. Ok [ps [left, right]])"
| "cap_next_level ps z h (left # right # level) =
     rbind (cap_next_level ps z h level) (\<lambda>parents. Ok (ps [left, right] # parents))"

definition cap_levels ::
    "('f list \<Rightarrow> 'f) \<Rightarrow> 'f list \<Rightarrow> 'f list \<Rightarrow> nat \<Rightarrow> nat \<Rightarrow> ('f list list, tree_error) result" where
  "cap_levels ps roots z shard_height cap_depth =
     rfold [0..<cap_depth] (\<lambda>k levels.
       let h = shard_height + k in
       rbind (idx levels k) (\<lambda>level.
       rbind (cap_next_level ps z h level) (\<lambda>parents. Ok (levels @ [parents])))) [roots]"

definition cap_top :: "'f list list \<Rightarrow> 'f list \<Rightarrow> nat \<Rightarrow> nat \<Rightarrow> ('f, tree_error) result" where
  "cap_top levels z depth cap_depth =
     rbind (idx levels cap_depth) (\<lambda>top. if top = [] then idx z depth else idx top 0)"

definition sharded_root :: "('f :: zero list \<Rightarrow> 'f) \<Rightarrow> 'f list \<Rightarrow> nat \<Rightarrow> nat \<Rightarrow> ('f, tree_error) result" where
  "sharded_root ps leaves depth shard_height =
     (let z = zero_roots ps depth in
      rbind (rassert (shard_height \<le> depth)) (\<lambda>_.
        let cap_depth = depth - shard_height in
      rbind (shard_roots ps leaves shard_height) (\<lambda>roots.
      rbind (cap_levels ps roots z shard_height cap_depth) (\<lambda>levels.
        cap_top levels z depth cap_depth))))"

definition cap_sibling ::
    "'f list list \<Rightarrow> 'f list \<Rightarrow> nat \<Rightarrow> nat \<Rightarrow> 'f list \<times> nat \<Rightarrow> ('f list \<times> nat, tree_error) result" where
  "cap_sibling levels z shard_height k = (\<lambda>(siblings, i).
     rbind (idx levels k) (\<lambda>row.
       let sib = (if even i then i + 1 else i - 1) in
       rbind (if sib < length row then idx row sib else idx z (shard_height + k)) (\<lambda>s.
         Ok (siblings @ [s], i div 2))))"

definition sharded_witness ::
    "('f :: zero list \<Rightarrow> 'f) \<Rightarrow> 'f list \<Rightarrow> nat \<Rightarrow> nat \<Rightarrow> nat \<Rightarrow> ('f inclusion_proof, tree_error) result" where
  "sharded_witness ps leaves leaf_index depth shard_height =
     (let z = zero_roots ps depth in
      rbind (rassert (shard_height < usize_bits)) (\<lambda>_.
      rbind (rassert (shard_height \<le> depth)) (\<lambda>_.
        let shard_size = 2 ^ shard_height;
            cap_depth = depth - shard_height;
            shard_index = leaf_index div 2 ^ shard_height;
            within_index = leaf_index mod shard_size;
            shard_start = shard_index * shard_size;
            shard_end = min (shard_start + shard_size) (length leaves)
        in
      rbind (slice_to leaves shard_end) (\<lambda>prefix.
      rbind (slice_from prefix shard_start) (\<lambda>shard_leaves.
      rbind (imt_from_leaves ps shard_height shard_leaves) (\<lambda>shard.
      rbind (imt_create_proof shard within_index) (\<lambda>shard_proof.
      rbind (shard_roots ps leaves shard_height) (\<lambda>roots.
      rbind (cap_levels ps roots z shard_height cap_depth) (\<lambda>levels.
      rbind (rfold [0..<cap_depth] (cap_sibling levels z shard_height)
               (ip_siblings shard_proof, shard_index)) (\<lambda>(siblings, i).
      rbind (idx leaves leaf_index) (\<lambda>leaf.
      rbind (cap_top levels z depth cap_depth) (\<lambda>root.
        Ok \<lparr>ip_leaf = leaf, ip_index = leaf_index, ip_siblings = siblings, ip_root = root\<rparr>))))))))))))"

section \<open>Shards of the log\<close>

lemma ceil_len_step: "0 < n \<Longrightarrow> ceil_len n l = Suc (ceil_len (n - 2 ^ l) l)"
proof (cases "2 ^ l \<le> n")
  case True
  assume "0 < n"
  have one: "1 \<le> (2 :: nat) ^ l" by simp
  have "n + 2 ^ l - 1 = (n - 2 ^ l + 2 ^ l - 1) + 2 ^ l" using True one by linarith
  then show ?thesis unfolding ceil_len_def by (metis div_add_self2 Suc_eq_plus1 power_not_zero zero_neq_numeral)
next
  case False
  assume "0 < n"
  then obtain m where "n = Suc m" by (cases n) auto
  with False show ?thesis by simp
qed

lemma chunks_shards:
  "chunks (2 ^ sh) xs = map (\<lambda>q. take (2 ^ sh) (drop (q * 2 ^ sh) xs)) [0..<ceil_len (length xs) sh]"
proof (induction "length xs" arbitrary: xs rule: less_induct)
  case less
  show ?case
  proof (cases "xs = []")
    case False
    let ?p = "2 ^ sh :: nat"
    let ?g = "\<lambda>ys q. take ?p (drop (q * ?p) ys)"
    have "chunks ?p xs = take ?p xs # chunks ?p (drop ?p xs)" using False by (simp add: chunks_step)
    also have "chunks ?p (drop ?p xs) = map (?g (drop ?p xs)) [0..<ceil_len (length xs - ?p) sh]"
      using less [of "drop ?p xs"] False by simp
    also have "\<dots> = map (\<lambda>q. ?g xs (Suc q)) [0..<ceil_len (length xs - ?p) sh]"
      by (simp add: add.commute)
    also have "take ?p xs # \<dots> = map (?g xs) [0..<Suc (ceil_len (length xs - ?p) sh)]"
      by (simp add: map_upt_Suc del: upt_Suc)
    finally show ?thesis using False by (simp add: ceil_len_step)
  qed simp
qed

lemma shard_roots_eq:
  "sh < 64 \<Longrightarrow> shard_roots ps xs sh = Ok (shard_log_roots ps sh xs (ceil_len (length xs) sh))"
  by (simp add: shard_roots_def usize_bits_def Let_def chunks_shards shard_log_roots_def)
    (subst rmap_Ok [where g = "\<lambda>c. merkle_root ps 0 sh c"];
      auto simp: imt_from_leaves_def imt_from_leaves_with_zero_eq imt_root_eq merkle_root_def subtree_root_take live_subtree)

section \<open>The cap\<close>

definition cap_row :: "('f :: zero list \<Rightarrow> 'f) \<Rightarrow> 'f list \<Rightarrow> nat \<Rightarrow> 'f list" where
  "cap_row ps xs h = map (subtree_root ps (padded 0 xs) h) [0..<ceil_len (length xs) h]"

lemma cap_next_level_eq:
  "h < length z \<Longrightarrow> cap_next_level ps z h level = Ok (build_parent_level ps level (z ! h))"
  by (induction ps level "z ! h" rule: build_parent_level.induct) simp_all

lemma cap_next_row: "build_parent_level ps (cap_row ps xs h) (zroot ps 0 h) = cap_row ps xs (Suc h)"
  using build_parent_row [of 0 xs h ps 0] by (simp add: cap_row_def del: subtree_root.simps)

lemma cap_levels_eq:
  assumes "sh + cap_depth = d"
  shows "cap_levels ps (cap_row ps xs sh) (zero_roots ps d) sh cap_depth =
    Ok (map (\<lambda>k. cap_row ps xs (sh + k)) [0..<Suc cap_depth])"
proof -
  let ?A = "\<lambda>i. map (\<lambda>k. cap_row ps xs (sh + k)) [0..<Suc i]"
  have "cap_levels ps (cap_row ps xs sh) (zero_roots ps d) sh cap_depth =
    rfold [0..<cap_depth] (\<lambda>k levels.
       let h = sh + k in
       rbind (idx levels k) (\<lambda>level.
       rbind (cap_next_level ps (zero_roots ps d) h level) (\<lambda>parents. Ok (levels @ [parents])))) (?A 0)"
    by (simp add: cap_levels_def)
  also have "\<dots> = Ok (?A cap_depth)"
  proof (rule rfold_upt)
    fix i assume "i < cap_depth"
    then show "(let h = sh + i in rbind (idx (?A i) i) (\<lambda>level.
       rbind (cap_next_level ps (zero_roots ps d) h level) (\<lambda>parents. Ok (?A i @ [parents])))) = Ok (?A (Suc i))"
      using assms by (simp add: Let_def cap_next_level_eq zero_roots_eq cap_next_row nth_append del: upt_Suc)
        (simp add: nth_append)
  qed simp
  finally show ?thesis .
qed

lemma cap_top_eq:
  assumes "sh + cap_depth = d" and "length xs \<le> 2 ^ d"
  shows "cap_top (map (\<lambda>k. cap_row ps xs (sh + k)) [0..<Suc cap_depth]) (zero_roots ps d) d cap_depth =
    Ok (merkle_root ps 0 d xs)"
proof (cases "xs = []")
  case True
  with assms show ?thesis by (simp add: cap_top_def cap_row_def del: upt_Suc)
next
  case False
  then have "cap_row ps xs d = [merkle_root ps 0 d xs]"
    using assms by (simp add: cap_row_def ceil_len_top merkle_root_def)
  with assms show ?thesis by (simp add: cap_top_def del: upt_Suc)
qed

lemma shard_roots_row: "sh < 64 \<Longrightarrow> shard_roots ps xs sh = Ok (cap_row ps xs sh)"
  by (simp add: shard_roots_eq cap_row_def shard_log_roots_def)

lemma sharded_root_eq:
  assumes "sh < 64" and "sh \<le> d" and "length xs \<le> 2 ^ d"
  shows "sharded_root ps xs d sh = Ok (merkle_root ps 0 d xs)"
  using assms by (simp add: sharded_root_def Let_def shard_roots_row cap_levels_eq [of _ _ d] cap_top_eq [of _ _ d] del: upt_Suc)

lemma cap_siblings_eq:
  assumes "sh + cap_depth = d"
  shows "rfold [0..<cap_depth] (cap_sibling (map (\<lambda>k. cap_row ps xs (sh + k)) [0..<Suc cap_depth]) (zero_roots ps d) sh)
      (ss, i) = Ok (ss @ tree_siblings ps (subtree_root ps (padded 0 xs) sh) cap_depth i, i div 2 ^ cap_depth)"
proof -
  let ?A = "\<lambda>k. (ss @ tree_siblings ps (subtree_root ps (padded 0 xs) sh) k i, i div 2 ^ k)"
  let ?L = "map (\<lambda>k. cap_row ps xs (sh + k)) [0..<Suc cap_depth]"
  have "rfold [0..<cap_depth] (cap_sibling ?L (zero_roots ps d) sh) (?A 0) = Ok (?A cap_depth)"
  proof (rule rfold_upt)
    fix k assume k: "k < cap_depth"
    have val: "(if j < length (cap_row ps xs (sh + k)) then idx (cap_row ps xs (sh + k)) j
        else idx (zero_roots ps d) (sh + k)) = Ok (subtree_root ps (subtree_root ps (padded 0 xs) sh) k j)" for j
      using k assms by (auto simp: cap_row_def idx_def add.commute subtree_root_stack [symmetric]
          intro!: subtree_root_padding [symmetric] ceil_len_covers)
    show "cap_sibling ?L (zero_roots ps d) sh k (?A k) = Ok (?A (Suc k))"
      using k by (simp add: cap_sibling_def Let_def val tree_siblings_def sibling_index_def half_div_pow
          del: upt_Suc power_Suc) simp
  qed simp
  then show ?thesis by (simp add: tree_siblings_def del: upt_Suc)
qed

lemma sibling_index_less: "i < n \<Longrightarrow> even n \<Longrightarrow> sibling_index i < n"
  by (cases "even i") (auto simp: sibling_index_def elim!: evenE)

lemma sharded_witness_eq:
  assumes "sh < 64" and "sh \<le> d" and "length xs \<le> 2 ^ d" and "j < length xs"
  shows "sharded_witness ps xs j d sh = Ok (proof_of ps d 0 xs j)"
proof -
  let ?q = "j div 2 ^ sh"
  let ?e = "min (?q * 2 ^ sh + 2 ^ sh) (length xs)"
  let ?shard = "drop (?q * 2 ^ sh) (take ?e xs)"
  have start: "?q * 2 ^ sh \<le> j" by simp
  have inside: "j mod 2 ^ sh < length ?shard"
  proof -
    have "j < ?q * 2 ^ sh + 2 ^ sh" using shard_bounds(2) [of j sh] by simp
    then have "j - ?q * 2 ^ sh < ?e - ?q * 2 ^ sh" using assms(4) start by (intro diff_less_mono) simp_all
    then show ?thesis unfolding length_drop length_take minus_div_mult_eq_mod by simp
  qed
  have pad: "subtree_root ps (padded 0 ?shard) l i = subtree_root ps (\<lambda>k. padded 0 xs (k + ?q * 2 ^ sh)) l i"
    if "(i + 1) * 2 ^ l \<le> 2 ^ sh" for l i
    by (rule subtree_root_cong) (use that start assms(4) in \<open>auto simp: padded_def add.commute min_def\<close>)
  have "tree_siblings ps (padded 0 ?shard) sh (j mod 2 ^ sh) =
      tree_siblings ps (\<lambda>k. padded 0 xs (k + ?q * 2 ^ sh)) sh (j mod 2 ^ sh)"
    unfolding tree_siblings_def
  proof (rule map_cong [OF refl])
    fix l assume "l \<in> set [0..<sh]"
    then have l: "l < sh" by simp
    have "j mod 2 ^ sh div 2 ^ l < 2 ^ (sh - l)"
      using l by (simp add: div_less_iff_less_mult flip: power_add)
    moreover have "even (2 ^ (sh - l) :: nat)" using l by simp
    ultimately have "sibling_index (j mod 2 ^ sh div 2 ^ l) + 1 \<le> 2 ^ (sh - l)"
      by (metis sibling_index_less Suc_leI Suc_eq_plus1)
    then have "(sibling_index (j mod 2 ^ sh div 2 ^ l) + 1) * 2 ^ l \<le> 2 ^ (sh - l) * 2 ^ l" by (rule mult_le_mono1)
    then have "(sibling_index (j mod 2 ^ sh div 2 ^ l) + 1) * 2 ^ l \<le> 2 ^ sh" using l by (simp flip: power_add)
    then show "subtree_root ps (padded 0 ?shard) l (sibling_index (j mod 2 ^ sh div 2 ^ l)) =
        subtree_root ps (\<lambda>k. padded 0 xs (k + ?q * 2 ^ sh)) l (sibling_index (j mod 2 ^ sh div 2 ^ l))" by (rule pad)
  qed
  then have glue: "tree_siblings ps (padded 0 ?shard) sh (j mod 2 ^ sh) @
      tree_siblings ps (subtree_root ps (padded 0 xs) sh) (d - sh) ?q = tree_siblings ps (padded 0 xs) d j"
    using tree_siblings_split [OF assms(2), of ps "padded 0 xs" j] by simp
  have len: "length ?shard \<le> 2 ^ sh" by auto
  have "imt_from_leaves ps sh ?shard = Ok (imt_of ps sh 0 ?shard)"
    using assms(1) len by (simp only: imt_from_leaves_def imt_from_leaves_with_zero_eq)
  moreover have "imt_create_proof (imt_of ps sh 0 ?shard) (j mod 2 ^ sh) = Ok (proof_of ps sh 0 ?shard (j mod 2 ^ sh))"
    using len inside by (rule imt_create_proof_eq)
  moreover have "(slice_to xs ?e :: (_, tree_error) result) = Ok (take ?e xs)" by (simp add: slice_to_def)
  moreover have "(slice_from (take ?e xs) (?q * 2 ^ sh) :: (_, tree_error) result) = Ok ?shard"
    using le_trans [OF start less_imp_le [OF assms(4)]] by (simp add: slice_from_def)
  ultimately show ?thesis
    using assms unfolding sharded_witness_def Let_def
    by (simp add: usize_bits_def shard_roots_row cap_levels_eq [of _ _ d] cap_top_eq [of _ _ d]
        cap_siblings_eq [of _ _ d] glue proof_of_def del: upt_Suc power_Suc drop_take take_take length_drop)
qed

end
