(* ===== verification/Sharded_Machine.thy ===== *)
theory Sharded_Machine
  imports Sharded_Refine Snapshot_Sharded Sharded_Stateless
begin

text \<open>
  The sharded tree as a state machine: every mutating method of \<open>ShardedNotesTree\<close>, in any
  order, from \<open>ShardedNotesTree::new\<close>.  The reachable states carry the leaf log that was
  appended, and the properties say what a caller observes of a reachable state.
\<close>

section \<open>Operations\<close>

datatype 'f sharded_op =
    ShAppend 'f
  | ShAppendMany "'f list"
  | ShMark 'f nat
  | ShUnmark 'f
  | ShAdopt 'f nat "'f list"
  | ShRewind nat
  | ShDrain
  | ShReload

text \<open>\<open>ShReload\<close> is \<open>from_snapshot(self.snapshot())\<close>; only \<open>append_many\<close> has a loop to leave.\<close>

fun sharded_exec ::
    "('f :: zero list \<Rightarrow> 'f) \<Rightarrow> 'f sharded_op \<Rightarrow> 'f sharded_tree \<Rightarrow>
     ((unit, tree_error) result \<times> 'f sharded_tree) option" where
  "sharded_exec ps (ShAppend x) s = Some (sharded_append ps x s)"
| "sharded_exec ps (ShAppendMany ys) s = sharded_append_many ps ys s"
| "sharded_exec ps (ShMark note i) s = Some (sharded_mark_owned note i s)"
| "sharded_exec ps (ShUnmark note) s = Some (Ok (), snd (sharded_unmark_owned note s))"
| "sharded_exec ps (ShAdopt note i ss) s = Some (sharded_adopt_frozen_witness ps note i ss s)"
| "sharded_exec ps (ShRewind n) s =
     Some (case sharded_rewind_live_to ps n s of (r, s') \<Rightarrow> (rbind r (\<lambda>_. Ok ()), s'))"
| "sharded_exec ps ShDrain s = Some (Ok (), snd (sharded_drain_dirty s))"
| "sharded_exec ps ShReload s =
     Some (case sharded_from_snapshot ps (sharded_take_snapshot s) of
             Ok s' \<Rightarrow> (Ok (), s') | Err e \<Rightarrow> (Err e, s) | Panic \<Rightarrow> (Panic, s))"

text \<open>What an operation that succeeds does to the log.\<close>

fun log_after :: "'f sharded_op \<Rightarrow> 'f list \<Rightarrow> 'f list" where
  "log_after (ShAppend x) xs = xs @ [x]"
| "log_after (ShAppendMany ys) xs = xs @ ys"
| "log_after (ShRewind n) xs = take n xs"
| "log_after _ xs = xs"

inductive sharded_reach ::
    "('f :: zero list \<Rightarrow> 'f) \<Rightarrow> nat \<Rightarrow> nat \<Rightarrow> 'f list \<Rightarrow> 'f sharded_tree \<Rightarrow> bool" for ps d sh where
  start: "sharded_new ps d sh = Ok s \<Longrightarrow> sharded_reach ps d sh [] s"
| step: "sharded_reach ps d sh xs s \<Longrightarrow> sharded_exec ps op s = Some (Ok (), s') \<Longrightarrow>
    sharded_reach ps d sh (log_after op xs) s'"
| refused: "sharded_reach ps d sh xs s \<Longrightarrow> sharded_exec ps op s = Some (Err e, s') \<Longrightarrow>
    sharded_reach ps d sh xs s'"

inductive_cases sharded_reachE: "sharded_reach ps d sh xs s"

section \<open>Every operation from every represented state\<close>

lemma sharded_new_Ok_iff:
  "sharded_new ps d sh = Ok s \<longleftrightarrow> 0 < sh \<and> sh < d \<and> d < 64 \<and> s = st_mk ps d sh 0 [] [] [] []"
proof
  assume a: "sharded_new ps d sh = Ok s"
  then have "0 < sh" "sh < d" "d < 64"
    by (auto simp: sharded_new_def rbind_Ok_iff Let_def tree_capacity_Ok_iff)
  with a show "0 < sh \<and> sh < d \<and> d < 64 \<and> s = st_mk ps d sh 0 [] [] [] []" by (simp add: sharded_new_eq)
qed (simp add: sharded_new_eq)

lemma sharded_drain_rep: "sharded_rep ps d sh xs s \<Longrightarrow> sharded_rep ps d sh xs (snd (sharded_drain_dirty s))"
  unfolding sharded_rep_def sharded_drain_dirty_def by (elim conjE exE, hypsubst) auto

text \<open>
  An operation returns, does not panic, leaves the state alone when it is refused, and
  otherwise represents the new log.
\<close>

definition step_ok ::
    "('f :: zero list \<Rightarrow> 'f) \<Rightarrow> nat \<Rightarrow> nat \<Rightarrow> 'f list \<Rightarrow> 'f sharded_tree \<Rightarrow> 'f sharded_op \<Rightarrow> bool" where
  "step_ok ps d sh xs s op \<longleftrightarrow>
     (\<exists>s'. sharded_exec ps op s = Some (Ok (), s') \<and> sharded_rep ps d sh (log_after op xs) s') \<or>
     (\<exists>e. sharded_exec ps op s = Some (Err e, s))"

lemma step_okI:
  assumes "sharded_exec ps op s = Some (r, s')" and "r \<noteq> Panic"
    and "r = Ok () \<Longrightarrow> sharded_rep ps d sh (log_after op xs) s'" and "\<And>e. r = Err e \<Longrightarrow> s' = s"
  shows "step_ok ps d sh xs s op"
  using assms by (cases r) (auto simp: step_ok_def)

lemma sharded_step_ok:
  assumes "sharded_rep ps d sh xs s"
  shows "step_ok ps d sh xs s op"
proof (cases op)
  case (ShAppend x)
  then show ?thesis using sharded_append_cases [OF assms, of x] by (auto simp: step_ok_def)
next
  case (ShAppendMany ys)
  then show ?thesis
    using sharded_append_many_cases [OF assms, of ys] by (auto simp: step_ok_def not_less [symmetric])
next
  case (ShMark k i)
  then show ?thesis
    using sharded_mark_owned_rep [OF assms, of k i]
    by (intro step_okI [of _ _ _ "fst (sharded_mark_owned k i s)" "snd (sharded_mark_owned k i s)"]) auto
next
  case (ShUnmark k)
  then show ?thesis using sharded_unmark_owned_rep(1) [OF assms, of k] by (auto simp: step_ok_def)
next
  case (ShAdopt k i ss)
  then show ?thesis
    using sharded_adopt_rep [OF assms, of k i ss]
    by (intro step_okI [of _ _ _ "fst (sharded_adopt_frozen_witness ps k i ss s)"
          "snd (sharded_adopt_frozen_witness ps k i ss s)"]) auto
next
  case (ShRewind n)
  consider "n < length xs div 2 ^ sh * 2 ^ sh" | "length xs < n"
    | "length xs div 2 ^ sh * 2 ^ sh \<le> n" "n \<le> length xs" by linarith
  then show ?thesis
  proof cases
    case 1
    then show ?thesis using sharded_rewind_refused(1) [OF assms] ShRewind by (simp add: step_ok_def)
  next
    case 2
    then show ?thesis using sharded_rewind_refused(2) [OF assms] ShRewind by (simp add: step_ok_def)
  next
    case 3
    then show ?thesis using sharded_rewind_rep [OF assms 3] ShRewind by (auto simp: step_ok_def)
  qed
next
  case ShDrain
  then show ?thesis using sharded_drain_rep [OF assms] by (simp add: step_ok_def)
next
  case ShReload
  then show ?thesis using sharded_restore_rep [OF assms] by (auto simp: step_ok_def)
qed

lemma sharded_reach_rep: "sharded_reach ps d sh xs s \<Longrightarrow> sharded_rep ps d sh xs s"
proof (induction rule: sharded_reach.induct)
  case (start s)
  then show ?case unfolding sharded_new_Ok_iff using sharded_new_rep [of sh d ps] by (auto simp: sharded_new_eq)
next
  case (step xs s op s')
  then show ?case using sharded_step_ok [OF step.IH, of op] by (auto simp: step_ok_def)
next
  case (refused xs s op e s')
  then show ?case using sharded_step_ok [OF refused.IH, of op] by (auto simp: step_ok_def)
qed

section \<open>Observations of a represented state\<close>

lemma sharded_rep_root: "sharded_rep ps d sh xs s \<Longrightarrow> sharded_tree_root s = Ok (merkle_root ps 0 d xs)"
  by (auto simp: sharded_rep_def sharded_tree_root_eq)

lemma sharded_rep_count: "sharded_rep ps d sh xs s \<Longrightarrow> sharded_leaf_count s = length xs"
  by (auto simp: sharded_rep_def sharded_leaf_count_eq)

lemma sharded_rep_fits: "sharded_rep ps d sh xs s \<Longrightarrow> 0 < sh \<and> sh < d \<and> d < 64 \<and> length xs \<le> 2 ^ d"
  by (auto simp: sharded_rep_def sharded_fits_def)

lemma sharded_rep_shard_root:
  assumes "sharded_rep ps d sh xs s"
  shows "sharded_completed_shard_root s i =
    (if i < length xs div 2 ^ sh then rbind (imt_from_leaves ps sh (take (2 ^ sh) (drop (i * 2 ^ sh) xs))) imt_root
     else Err (ShardNotCompleted i))"
proof -
  have "(i + 1) * 2 ^ sh \<le> length xs" if "i < length xs div 2 ^ sh" using that by (rule less_div_mult)
  then show ?thesis
    using assms sharded_rep_fits [OF assms]
    by (auto simp: sharded_rep_def sharded_completed_shard_root_def imt_from_leaves_def
        imt_from_leaves_with_zero_eq imt_root_eq shard_merkle_root)
qed

text \<open>Two states over the same log differ in the owned notes only.\<close>

lemma sharded_rep_public:
  assumes "sharded_rep ps d sh xs s" and "sharded_rep ps d sh xs t"
  shows "st_completed_roots s = st_completed_roots t \<and> st_live_leaves s = st_live_leaves t \<and>
    st_live s = st_live t \<and> st_cap s = st_cap t"
  using assms by (auto simp: sharded_rep_def)

lemma sharded_witness_cong:
  assumes "sharded_rep ps d sh xs s" and "sharded_rep ps d sh xs t"
    and "map_of (st_owned_notes s) k = map_of (st_owned_notes t) k"
  shows "sharded_tree_witness s k = sharded_tree_witness t k"
proof -
  obtain on ol dirty where s: "s = st_mk ps d sh (length xs div 2 ^ sh) xs on ol dirty"
    using assms(1) by (auto simp: sharded_rep_def)
  obtain on' ol' dirty' where t: "t = st_mk ps d sh (length xs div 2 ^ sh) xs on' ol' dirty'"
    using assms(2) by (auto simp: sharded_rep_def)
  show ?thesis using assms(3) unfolding sharded_tree_witness_def sharded_tree_root_def s t st_mk_simps by simp
qed

lemma sharded_appends_rep:
  assumes "sharded_rep ps d sh xs s" and "sfold ys (\<lambda>y _. sharded_append ps y) () s = (Ok (), u)"
  shows "sharded_rep ps d sh (xs @ ys) u"
  using assms
proof (induction ys arbitrary: xs s)
  case Nil
  then show ?case by (simp add: sret_def)
next
  case (Cons y ys)
  then obtain s1 where s1: "sharded_append ps y s = (Ok (), s1)" "sfold ys (\<lambda>y _. sharded_append ps y) () s1 = (Ok (), u)"
    by (auto simp: sbind_Ok_iff)
  have "sharded_rep ps d sh (xs @ [y]) s1" using sharded_append_cases [OF Cons.prems(1), of y] s1(1) by auto
  from Cons.IH [OF this s1(2)] show ?case by simp
qed

text \<open>What marking decides, and what it records.\<close>

lemma sharded_mark_owned_run:
  assumes "sharded_rep ps d sh xs s"
  shows "fst (sharded_mark_owned k i s) = Ok () \<longleftrightarrow> i < 2 ^ d \<and> length xs div 2 ^ sh \<le> i div 2 ^ sh \<and>
      (case map_of (st_owned_notes s) k of Some w \<Rightarrow> ow_leaf_index w = i
       | None \<Rightarrow> \<not> owned_by_other s i k \<and> (i < length xs \<longrightarrow> xs ! i = k))"
    and "fst (sharded_mark_owned k i s) = Ok () \<Longrightarrow> map_of (st_owned_notes (snd (sharded_mark_owned k i s))) =
      (case map_of (st_owned_notes s) k of Some w \<Rightarrow> map_of (st_owned_notes s)
       | None \<Rightarrow> (map_of (st_owned_notes s))(k \<mapsto> \<lparr>ow_note_id = k, ow_leaf_index = i, ow_siblings = None\<rparr>))"
proof -
  from assms obtain q on ol dirty where s: "q = length xs div 2 ^ sh" "s = st_mk ps d sh q xs on ol dirty"
      "d < 64" "length xs \<le> 2 ^ d" by (rule sharded_repE)
  have q: "q * 2 ^ sh \<le> length xs" using s(1) shard_bounds by blast
  have count: "sharded_leaf_count s = length xs" using s(2) q by (simp add: sharded_leaf_count_eq)
  have leaf: "imt_leaf (st_live s) (i mod 2 ^ sh) = Some (xs ! i)" if "i < length xs" "q \<le> i div 2 ^ sh"
  proof -
    have "i div 2 ^ sh = q" using that s(1) by (simp add: div_le_mono le_antisym)
    from live_leaf [OF this that(1)] show ?thesis using s(2) by (simp add: imt_leaf_eq)
  qed
  note run = sharded_mark_owned_def sm_simps Let_def guard_def count
  have geo: "st_depth s = d" "st_shard_height s = sh" "st_shard_size s = 2 ^ sh" "length (st_completed_roots s) = q"
    using s(2) by simp_all
  show "fst (sharded_mark_owned k i s) = Ok () \<longleftrightarrow> i < 2 ^ d \<and> length xs div 2 ^ sh \<le> i div 2 ^ sh \<and>
      (case map_of (st_owned_notes s) k of Some w \<Rightarrow> ow_leaf_index w = i
       | None \<Rightarrow> \<not> owned_by_other s i k \<and> (i < length xs \<longrightarrow> xs ! i = k))"
    using s(1,3) leaf by (auto simp: run geo not_le not_less split: option.splits)
  show "map_of (st_owned_notes (snd (sharded_mark_owned k i s))) =
      (case map_of (st_owned_notes s) k of Some w \<Rightarrow> map_of (st_owned_notes s)
       | None \<Rightarrow> (map_of (st_owned_notes s))(k \<mapsto> \<lparr>ow_note_id = k, ow_leaf_index = i, ow_siblings = None\<rparr>))"
    if "fst (sharded_mark_owned k i s) = Ok ()"
    using that s(1,3) by (auto simp: run geo update_conv' split: option.splits if_splits)
qed

lemma sharded_rep_owned:
  assumes "sharded_rep ps d sh xs s" and "map_of (st_owned_notes s) k = Some w"
  shows "ow_note_id w = k" "ow_leaf_index w < 2 ^ d" "witness_ok ps sh (length xs div 2 ^ sh) xs w"
    "map_of (st_owned_leaves s) (ow_leaf_index w) = Some k"
  using assms by (auto simp: sharded_rep_def owned_ok_def simp del: map_of_eq_Some_iff Some_eq_map_of_iff)

lemma sharded_rep_owned_leaf:
  assumes "sharded_rep ps d sh xs s" and "map_of (st_owned_leaves s) i = Some k"
  shows "\<exists>w. map_of (st_owned_notes s) k = Some w \<and> ow_leaf_index w = i"
  using assms by (auto simp: sharded_rep_def owned_ok_def simp del: map_of_eq_Some_iff Some_eq_map_of_iff)

section \<open>Properties\<close>

text \<open>
  C11: A reachable sharded tree is the flat tree over the log: whatever appends, batches, marks,
  adoptions, rewinds, drains, reloads and refused calls led to it, its leaf count is the length
  of the log, its root is the root of the \<open>Imt\<close> bulk-built from the log and that of the
  stateless \<open>sharded_root\<close>, and it knows exactly the roots of the completed shards.
\<close>

theorem sharded_reachable_is_flat:
  assumes "sharded_reach ps d sh xs s"
  shows "sharded_leaf_count s = length xs \<and> length xs \<le> 2 ^ d \<and>
    sharded_tree_root s = rbind (imt_from_leaves ps d xs) imt_root \<and>
    sharded_tree_root s = sharded_root ps xs d sh \<and>
    (\<forall>i. sharded_completed_shard_root s i =
      (if i < length xs div 2 ^ sh
       then rbind (imt_from_leaves ps sh (take (2 ^ sh) (drop (i * 2 ^ sh) xs))) imt_root
       else Err (ShardNotCompleted i)))"
proof -
  have rep: "sharded_rep ps d sh xs s" using assms by (rule sharded_reach_rep)
  note fits = sharded_rep_fits [OF rep]
  then have "sharded_root ps xs d sh = Ok (merkle_root ps 0 d xs)" by (intro sharded_root_eq) auto
  moreover have "rbind (imt_from_leaves ps d xs) imt_root = Ok (merkle_root ps 0 d xs)"
    using fits by (simp add: imt_from_leaves_def imt_from_leaves_with_zero_eq imt_root_eq)
  ultimately show ?thesis
    using fits by (simp add: sharded_rep_root [OF rep] sharded_rep_count [OF rep] sharded_rep_shard_root [OF rep])
qed

lemma reach_example: "\<exists>s. sharded_reach sum_list 3 1 [5, 6, 7 :: nat] s"
proof -
  obtain s where s: "sharded_new (sum_list :: nat list \<Rightarrow> nat) 3 1 = Ok s" "sharded_rep sum_list 3 1 [] s"
    using sharded_new_rep [of 1 3 "sum_list :: nat list \<Rightarrow> nat"] by auto
  have "st_owned_leaves s = []" using s(1) by (auto simp: sharded_new_Ok_iff)
  then have "incoming_ok (st_owned_leaves s) (length ([] :: nat list)) [5, 6, 7]" by (simp add: incoming_ok_def)
  then obtain s' where "sharded_append_many sum_list [5, 6, 7] s = Some (Ok (), s')"
    using sharded_append_many_cases(3) [OF s(2), of "[5, 6, 7]"] by auto
  then show ?thesis
    using sharded_reach.step [OF sharded_reach.start [OF s(1)], of "ShAppendMany [5, 6, 7]" s'] by auto
qed

theorem sharded_reachable_is_flat_witness:
  "\<exists>s. sharded_reach sum_list 3 1 [5, 6, 7 :: nat] s \<and> sharded_leaf_count s = 3 \<and>
    sharded_completed_shard_root s 1 = Err (ShardNotCompleted 1)"
proof -
  obtain s where "sharded_reach sum_list 3 1 [5, 6, 7 :: nat] s" using reach_example by blast
  then show ?thesis using sharded_reachable_is_flat [of sum_list 3 1 "[5, 6, 7]" s] by auto
qed

text \<open>
  C12: No call on a reachable sharded tree hangs or panics: every mutating method, with any
  argument, returns - the loop of \<open>append_many\<close> included - and either succeeds, and then the
  tree is reachable over the log the method is documented to leave, or is refused with the
  whole state unchanged.
\<close>

theorem sharded_operations_total:
  assumes "sharded_reach ps d sh xs s"
  shows "\<exists>r s'. sharded_exec ps op s = Some (r, s') \<and>
    (case r of Ok _ \<Rightarrow> sharded_reach ps d sh (log_after op xs) s' | Err e \<Rightarrow> s' = s | Panic \<Rightarrow> False)"
  using sharded_step_ok [OF sharded_reach_rep [OF assms], of op] sharded_reach.step [OF assms, of op]
  by (auto simp: step_ok_def)

theorem sharded_operations_total_witness:
  "\<exists>s r s'. sharded_reach sum_list 3 1 [5, 6, 7 :: nat] s \<and> sharded_exec sum_list (ShRewind 2) s = Some (r, s') \<and> r \<noteq> Panic"
proof -
  obtain s where s: "sharded_reach sum_list 3 1 [5, 6, 7 :: nat] s" using reach_example by blast
  obtain r s' where "sharded_exec sum_list (ShRewind 2) s = Some (r, s')"
      "case r of Ok _ \<Rightarrow> sharded_reach sum_list 3 1 (log_after (ShRewind 2) [5, 6, 7]) s' | Err e \<Rightarrow> s' = s | Panic \<Rightarrow> False"
    using sharded_operations_total [OF s, of "ShRewind 2"] by blast
  moreover then have "r \<noteq> Panic" by (cases r) simp_all
  ultimately show ?thesis using s by blast
qed

text \<open>
  What appending decides: one leaf is refused exactly when the tree is full or the position
  was marked for another note; a batch exactly when it does not fit or one of its positions was
  marked for another note, and then as a whole; an accepted batch leaves the same shards, live
  tree and cap as appending its leaves one at a time does.
\<close>

theorem sharded_append_decides:
  assumes "sharded_reach ps d sh xs s"
  shows "fst (sharded_append ps x s) =
      (if length xs = 2 ^ d then Err (TreeFull d)
       else if owned_by_other s (length xs) x then Err (OwnedLeafMismatch (length xs)) else Ok ()) \<and>
    (\<exists>r t. sharded_append_many ps ys s = Some (r, t) \<and>
      (r = Ok ()) = (length (xs @ ys) \<le> 2 ^ d \<and>
        (\<forall>j < length ys. \<not> owned_by_other s (length xs + j) (ys ! j))) \<and>
      (\<forall>u. r = Ok () \<and> sfold ys (\<lambda>y _. sharded_append ps y) () s = (Ok (), u) \<longrightarrow>
        st_completed_roots t = st_completed_roots u \<and> st_live_leaves t = st_live_leaves u \<and>
        st_live t = st_live u \<and> st_cap t = st_cap u))"
proof -
  have rep: "sharded_rep ps d sh xs s" using assms by (rule sharded_reach_rep)
  have one: "fst (sharded_append ps x s) =
      (if length xs = 2 ^ d then Err (TreeFull d)
       else if owned_by_other s (length xs) x then Err (OwnedLeafMismatch (length xs)) else Ok ())"
    using sharded_append_cases [OF rep, of x] by auto
  have inc: "incoming_ok (st_owned_leaves s) (length xs) ys \<longleftrightarrow>
      (\<forall>j < length ys. \<not> owned_by_other s (length xs + j) (ys ! j))"
    by (auto simp: incoming_ok_def owned_by_other_def split: option.splits) (metis not_None_eq)
  have seq: "sharded_rep ps d sh (xs @ ys) u" if "sfold ys (\<lambda>y _. sharded_append ps y) () s = (Ok (), u)" for u
    using sharded_appends_rep [OF rep that] .
  obtain r t where rt: "sharded_append_many ps ys s = Some (r, t)"
      "r = Ok () \<longleftrightarrow> length (xs @ ys) \<le> 2 ^ d \<and> incoming_ok (st_owned_leaves s) (length xs) ys"
      "r = Ok () \<Longrightarrow> sharded_rep ps d sh (xs @ ys) t"
    using sharded_append_many_cases [OF rep, of ys] by (metis not_less result.distinct(1) option.inject prod.inject)
  show ?thesis
    using one rt inc sharded_rep_public [OF rt(3) seq] by blast
qed

theorem sharded_append_decides_witness:
  "\<exists>s. sharded_reach sum_list 3 1 [5, 6, 7 :: nat] s \<and>
    fst (sharded_append sum_list 9 s) =
      (if owned_by_other s (length [5 :: nat, 6, 7]) 9 then Err (OwnedLeafMismatch (length [5 :: nat, 6, 7])) else Ok ())"
proof -
  obtain s where s: "sharded_reach sum_list 3 1 [5, 6, 7 :: nat] s" using reach_example by blast
  show ?thesis using sharded_append_decides [OF s, of 9] s by (intro exI [of _ s]) simp
qed


lemma reach_marked_example:
  "\<exists>s w. sharded_reach sum_list 3 1 [5, 6, 7 :: nat] s \<and> map_of (st_owned_notes s) 7 = Some w \<and> ow_leaf_index w = 2"
proof -
  obtain s0 where s0: "sharded_reach sum_list 3 1 [5, 6, 7 :: nat] s0" using reach_example by blast
  define s where "s = snd (sharded_unmark_owned 7 s0)"
  have reach: "sharded_reach sum_list 3 1 [5, 6, 7] s"
    using sharded_reach.step [OF s0, of "ShUnmark 7" s] by (simp add: s_def)
  then have rep: "sharded_rep sum_list 3 1 [5, 6, 7] s" by (rule sharded_reach_rep)
  have free: "map_of (st_owned_notes s) 7 = None"
    using sharded_unmark_owned_rep(2) [OF sharded_reach_rep [OF s0], of 7] by (simp add: s_def)
  have "\<not> owned_by_other s 2 7"
  proof
    assume "owned_by_other s 2 7"
    then obtain k where k: "map_of (st_owned_leaves s) 2 = Some k" "k \<noteq> 7"
      by (auto simp: owned_by_other_def split: option.splits)
    then obtain w where w: "map_of (st_owned_notes s) k = Some w" "ow_leaf_index w = 2"
      using sharded_rep_owned_leaf [OF rep] by blast
    show False using sharded_rep_owned(1,3) [OF rep w(1)] w(2) k(2) by (auto simp: witness_ok_def split: option.splits)
  qed
  then have ok: "fst (sharded_mark_owned 7 2 s) = Ok ()"
    using free unfolding sharded_mark_owned_run(1) [OF rep] by simp
  have "sharded_reach sum_list 3 1 [5, 6, 7] (snd (sharded_mark_owned 7 2 s))"
    using sharded_reach.step [OF reach, of "ShMark 7 2" "snd (sharded_mark_owned 7 2 s)"] ok
    by (metis log_after.simps(4) prod.collapse sharded_exec.simps(3))
  then show ?thesis using sharded_mark_owned_run(2) [OF rep ok] free by auto
qed


text \<open>
  What \<open>mark_owned\<close> decides: it accepts a position below the capacity whose shard is not
  completed, when the note is already marked there, or is unmarked, nobody else holds the
  position, and the log - if it has reached the position - has this very note there.  An
  accepted mark makes the note provable as soon as the log holds it.
\<close>

theorem sharded_mark_decides:
  assumes "sharded_reach ps d sh xs s"
  shows "(fst (sharded_mark_owned k i s) = Ok () \<longleftrightarrow> i < 2 ^ d \<and> length xs div 2 ^ sh \<le> i div 2 ^ sh \<and>
      (case map_of (st_owned_notes s) k of Some w \<Rightarrow> ow_leaf_index w = i
       | None \<Rightarrow> \<not> owned_by_other s i k \<and> (i < length xs \<longrightarrow> xs ! i = k))) \<and>
    (fst (sharded_mark_owned k i s) = Ok () \<and> i < length xs \<longrightarrow>
      sharded_tree_witness (snd (sharded_mark_owned k i s)) k = sharded_witness ps xs i d sh)"
proof -
  have rep: "sharded_rep ps d sh xs s" using assms by (rule sharded_reach_rep)
  note fits = sharded_rep_fits [OF rep]
  let ?t = "snd (sharded_mark_owned k i s)"
  have run: "fst (sharded_mark_owned k i s) = Ok () \<longleftrightarrow> i < 2 ^ d \<and> length xs div 2 ^ sh \<le> i div 2 ^ sh \<and>
      (case map_of (st_owned_notes s) k of Some w \<Rightarrow> ow_leaf_index w = i
       | None \<Rightarrow> \<not> owned_by_other s i k \<and> (i < length xs \<longrightarrow> xs ! i = k))"
    by (rule sharded_mark_owned_run(1) [OF rep])
  have "sharded_tree_witness ?t k = sharded_witness ps xs i d sh"
    if ok: "fst (sharded_mark_owned k i s) = Ok ()" and i: "i < length xs"
  proof -
    have rep': "sharded_rep ps d sh xs ?t" using sharded_mark_owned_rep [OF rep] by blast
    obtain w where w: "map_of (st_owned_notes ?t) k = Some w" "ow_leaf_index w = i"
      using sharded_mark_owned_run(2) [OF rep ok] ok run
      by (cases "map_of (st_owned_notes s) k") auto
    have "ow_siblings w = None"
      using sharded_rep_owned(3) [OF rep' w(1)] w(2) ok run
      by (auto simp: witness_ok_def less_mult_imp_div_less not_less [symmetric] split: option.splits)
    then show ?thesis
      using sharded_witness_ok [OF rep' w(1)] w(2) i fits by (auto simp: sharded_witness_eq)
  qed
  with run show ?thesis by blast
qed

theorem sharded_mark_decides_witness:
  "\<exists>s. sharded_reach sum_list 3 1 [5, 6, 7 :: nat] s \<and> fst (sharded_mark_owned 7 1 s) \<noteq> Ok ()"
proof -
  obtain s where s: "sharded_reach sum_list 3 1 [5, 6, 7 :: nat] s" using reach_example by blast
  then show ?thesis using sharded_mark_decides [OF s, of 7 1] by auto
qed

end
