(* ===== verification/Sharded_Restore.thy ===== *)
theory Sharded_Restore
  imports Sharded_Machine
begin

text \<open>
  Rewinding and restoring the sharded tree: what a rewind removes, that a snapshot taken of a
  reachable tree restores it, and that restoring from arbitrary bytes cannot panic.
\<close>

section \<open>What rewinding and snapshots see\<close>

text \<open>The rewound ids are those of the owned notes past the cut, in ascending order.\<close>

lemma owned_range_ids:
  assumes "owned_ok ps d sh q xs on ol"
  shows "\<exists>ws. owned_range ol n = map ow_note_id ws \<and> sorted_wrt (<) (map ow_leaf_index ws) \<and>
    set ws = {w. \<exists>k. map_of on k = Some w \<and> n \<le> ow_leaf_index w}"
proof -
  let ?l = "sort_key fst (filter (\<lambda>(i, _). n \<le> i) ol)"
  let ?ws = "map (\<lambda>(i, k). the (map_of on k)) ?l"
  have dist: "distinct (map fst ol)" using assms by (simp add: owned_ok_def)
  have mem: "\<exists>w. map_of on k = Some w \<and> ow_leaf_index w = i \<and> ow_note_id w = k" if "(i, k) \<in> set ol" for i k
  proof -
    have "map_of ol i = Some k" using that dist by simp
    then show ?thesis using assms unfolding owned_ok_def by blast
  qed
  then have pt: "ow_leaf_index (the (map_of on k)) = i \<and> ow_note_id (the (map_of on k)) = k" if "(i, k) \<in> set ol" for i k
    using that by (metis option.sel)
  have "owned_range ol n = map ow_note_id ?ws"
    unfolding owned_range_def map_map using pt by (auto intro!: map_cong)
  moreover have "map ow_leaf_index ?ws = map fst ?l" unfolding map_map using pt by (auto intro!: map_cong)
  moreover have "sorted_wrt (<) (map fst ?l)"
    using dist by (simp add: strict_sorted_iff distinct_map distinct_map_filter inj_on_def)
  moreover have "set ?ws = {w. \<exists>k. map_of on k = Some w \<and> n \<le> ow_leaf_index w}"
  proof (intro equalityI subsetI)
    fix w assume "w \<in> set ?ws"
    then obtain i k where "(i, k) \<in> set ol" "n \<le> i" "w = the (map_of on k)" by auto
    then show "w \<in> {w. \<exists>k. map_of on k = Some w \<and> n \<le> ow_leaf_index w}" using mem by fastforce
  next
    fix w assume "w \<in> {w. \<exists>k. map_of on k = Some w \<and> n \<le> ow_leaf_index w}"
    then obtain k where k: "map_of on k = Some w" "n \<le> ow_leaf_index w" by blast
    then have "map_of ol (ow_leaf_index w) = Some k" using assms unfolding owned_ok_def by blast
    then have "(ow_leaf_index w, k) \<in> set ol" by (rule map_of_SomeD)
    with k show "w \<in> set ?ws" by (auto simp del: map_of_eq_Some_iff intro!: image_eqI [of _ _ "(ow_leaf_index w, k)"])
  qed
  ultimately show ?thesis by metis
qed

lemma snapshot_of_rep_fits:
  assumes "sharded_rep ps d sh xs s" and "d \<le> 31"
  shows "snapshot_fits (sharded_take_snapshot s)"
    and "length (snapshot_header (sharded_take_snapshot s) @ body_bytes (sharded_take_snapshot s)) < 2 ^ 64"
proof -
  from assms(1) obtain q on ol dirty where s: "q = length xs div 2 ^ sh" "s = st_mk ps d sh q xs on ol dirty"
      "owned_ok ps d sh q xs on ol" "0 < sh" "sh < d" "length xs \<le> 2 ^ d" by (rule sharded_repE)
  have q: "q * 2 ^ sh \<le> length xs" "length xs < (q + 1) * 2 ^ sh" using s(1) shard_bounds by blast+
  let ?ws = "sharded_owned_notes s" and ?sibs = "\<lambda>w :: fr owned_witness. case ow_siblings w of Some ss \<Rightarrow> length ss | None \<Rightarrow> 0"
  have pow: "2 ^ d \<le> (2 :: nat) ^ 31" "2 ^ sh \<le> (2 :: nat) ^ 31" "2 ^ (d - sh) \<le> (2 :: nat) ^ 31"
    using assms(2) s(4,5) by (auto intro!: power_increasing simp del: power_numeral)
  have split: "2 ^ d = (2 :: nat) ^ (d - sh) * 2 ^ sh" using s(5) by (simp flip: power_add)
  have "q * 2 ^ sh \<le> 2 ^ (d - sh) * 2 ^ sh" using q(1) s(6) unfolding split by (rule le_trans)
  then have a: "q \<le> 2 ^ (d - sh)" by simp
  have live: "length (st_live_leaves s) < 2 ^ sh" using s(2) q by (simp add: algebra_simps)
  have full: "st_live_leaves s = []" if "q = 2 ^ (d - sh)" using that s(2,6) split by simp
  have w: "ow_leaf_index w < 2 ^ d \<and> siblings_fit sh (ow_siblings w) \<and> ?sibs w \<le> 31" if "w \<in> set ?ws" for w
  proof -
    have "w \<in> snd ` set on" using that s(2) by (simp add: sharded_owned_notes_def)
    then obtain k where "(k, w) \<in> set on" by force
    then have "map_of on k = Some w" using s(3) by (simp add: owned_ok_def)
    then have "ow_leaf_index w < 2 ^ d" "witness_ok ps sh q xs w" using s(3) unfolding owned_ok_def by blast+
    then show ?thesis using assms(2) s(5) by (auto simp: witness_ok_def siblings_fit_def split: option.splits)
  qed
  have "length ?ws \<le> card {..<(2 :: nat) ^ d}"
  proof -
    have idx: "map_of ol (ow_leaf_index v) = Some k" if "(k, v) \<in> set on" for k v
      using that s(3) by (auto simp: owned_ok_def)
    have "inj_on (ow_leaf_index \<circ> snd) (set on)"
    proof (rule inj_onI)
      fix x y assume xy: "x \<in> set on" "y \<in> set on" "(ow_leaf_index \<circ> snd) x = (ow_leaf_index \<circ> snd) y"
      then have "fst x = fst y" using idx [of "fst x" "snd x"] idx [of "fst y" "snd y"] by simp
      moreover have "inj_on fst (set on)" using s(3) by (simp add: owned_ok_def distinct_map)
      ultimately show "x = y" using xy(1,2) by (meson inj_onD)
    qed
    moreover have "distinct on" using s(3) by (simp add: owned_ok_def distinct_map)
    ultimately have "length on = card ((ow_leaf_index \<circ> snd) ` set on)"
      by (metis card_image distinct_card)
    moreover have "(ow_leaf_index \<circ> snd) ` set on \<subseteq> {..<2 ^ d}"
      using w s(2) by (force simp: sharded_owned_notes_def)
    ultimately show ?thesis using s(2) card_mono [of "{..<(2 :: nat) ^ d}"] by (simp add: sharded_owned_notes_def)
  qed
  then have n: "length ?ws \<le> 2 ^ 31" using pow(1) by simp
  have "ow_leaf_index w < 2 ^ 32" if "w \<in> set ?ws" for w
    using w [OF that] pow(1) by (auto intro: less_le_trans)
  then show "snapshot_fits (sharded_take_snapshot s)"
    using s a live full w n pow assms(2)
    by (auto simp: snapshot_fits_def snapshot_shape_def sharded_take_snapshot_def owned_fits_def)
  have "sum_list (map ?sibs ?ws) \<le> 31 * length ?ws"
    using sum_list_mono [of ?ws ?sibs "\<lambda>_. 31"] w by (simp add: sum_list_triv)
  then show "length (snapshot_header (sharded_take_snapshot s) @ body_bytes (sharded_take_snapshot s)) < 2 ^ 64"
    using n a live pow s(2)
    by (simp add: body_bytes_def sharded_take_snapshot_def length_owned_records)
qed


text \<open>Restoring from a snapshot record never panics, whatever the record holds.\<close>

lemma sharded_from_snapshot_no_Panic: "sharded_from_snapshot ps snap \<noteq> Panic"
proof -
  have restore: "rfold ws (restore_owned ps c) t \<noteq> Panic" for ws c t
    by (rule rfold_no_panic [where P = "\<lambda>_. True"])
      (auto simp: restore_owned_def Let_def rbind_Panic_iff verify_frozen_path_no_Panic)
  have root: "imt_root (imt_of ps d z xs) \<noteq> Panic" if "length xs \<le> 2 ^ d" for d z xs
    using that by (simp add: imt_root_eq)
  have run: "sharded_from_snapshot ps snap \<noteq> Panic"
    if g: "0 < ss_shard_height snap" "ss_shard_height snap < ss_depth snap" "ss_depth snap < 64"
  proof -
    let ?d = "ss_depth snap" and ?sh = "ss_shard_height snap"
    let ?roots = "ss_completed_roots snap" and ?ls = "ss_live_leaves snap"
    have cap: "imt_from_leaves_with_zero ps (?d - ?sh) z rs = Ok (imt_of ps (?d - ?sh) z rs)"
      if "length rs \<le> 2 ^ (?d - ?sh)" for z rs
      using g that by (intro imt_from_leaves_with_zero_eq) auto
    show ?thesis
    proof (cases "length ?roots \<le> 2 ^ (?d - ?sh) \<and> length ?ls < 2 ^ ?sh \<and>
        \<not> (length ?roots = 2 ^ (?d - ?sh) \<and> ?ls \<noteq> [])")
      case True
      then have live: "imt_from_leaves ps ?sh ?ls = Ok (imt_of ps ?sh 0 ?ls)"
        using g by (simp add: imt_from_leaves_def imt_from_leaves_with_zero_eq)
      have rt: "imt_root (imt_of ps ?sh 0 ?ls) = Ok (merkle_root ps 0 ?sh ?ls)" using True by (intro imt_root_eq) simp
      have "length ?roots < 2 ^ (?d - ?sh)" if "?ls \<noteq> []" using True that by simp
      then show ?thesis
        using g True live rt restore
        by (cases "?ls = []") (simp_all add: sharded_from_snapshot_def sharded_new_eq sharded_rebuild_cap_def Let_def
            sm_simps cap Suc_le_eq)
    next
      case False
      then show ?thesis using g by (auto simp: sharded_from_snapshot_def sharded_new_eq guard_def not_le not_less)
    qed
  qed
  show ?thesis
  proof (cases "0 < ss_shard_height snap \<and> ss_shard_height snap < ss_depth snap \<and> ss_depth snap < 64")
    case True
    then show ?thesis using run by blast
  next
    case False
    have "sharded_new ps d sh = Panic \<Longrightarrow> 0 < sh \<and> sh < d \<and> d < 64" for d sh
      by (auto simp: sharded_new_def rbind_Panic_iff Let_def tree_capacity_Ok_iff)
    moreover have "sharded_new ps (ss_depth snap) (ss_shard_height snap) \<noteq> Ok t" for t
      using False by (auto simp: sharded_new_Ok_iff)
    ultimately show ?thesis
      using False unfolding sharded_from_snapshot_def rbind_Panic_iff by blast
  qed
qed

lemma read_fields_no_panic: "no_panic (read_fields bytes n)"
  unfolding read_fields_def
  by (rule no_panic_sfold [where P = "\<lambda>_. True"]) (auto intro: no_panic_sbind read_field_no_panic)

lemma read_u32_no_Panic: "read_u32 bytes c \<noteq> Panic"
  by (auto simp: read_u32_def rbind_Panic_iff)

lemma read_siblings_no_panic: "no_panic (read_siblings bytes sh)"
  unfolding read_siblings_def
  by (intro no_panic_reader no_panic_sbind no_panic_simps ok_or_Panic guard_Panic)
    (auto intro: read_fields_no_panic no_panic_sbind)

lemma read_owned_no_panic: "no_panic (read_owned bytes sh)"
  unfolding read_owned_def read_u32_at_cursor_def
  by (intro no_panic_reader no_panic_sbind no_panic_simps read_field_no_panic read_u32_no_Panic read_siblings_no_panic)

lemma read_body_no_panic: "no_panic (read_body bytes d sh a b n)"
  unfolding read_body_def
  by (intro no_panic_sbind read_fields_no_panic no_panic_simps no_panic_sfold [where P = "\<lambda>_. True"])
    (auto intro: no_panic_sbind read_owned_no_panic)

lemma snapshot_decode_no_Panic: "snapshot_decode bytes \<noteq> Panic"
  by (auto simp: snapshot_decode_def rbind_Panic_iff Let_def idx_def slice_to_def snapshot_header_len_def
      read_u32_no_Panic dest: no_panicD [OF read_body_no_panic] split: prod.splits if_splits)

section \<open>Properties\<close>

text \<open>
  C14: Rewinding is exact: it is refused, with the state unchanged, below the completed shards
  (whose leaves are gone) or past the end of the log; otherwise the log is cut, the owned
  notes past the cut are unmarked and returned in ascending leaf order, and the others keep
  their records - so appending the same leaves again leads back to the same root.
\<close>

theorem sharded_rewind_exact:
  assumes "sharded_reach ps d sh xs s"
  shows "if n < length xs div 2 ^ sh * 2 ^ sh then
      sharded_rewind_live_to ps n s = (Err (RewindBeforeCompleted (length xs div 2 ^ sh * 2 ^ sh) n), s)
    else if length xs < n then sharded_rewind_live_to ps n s = (Err (LeafIndexOutOfRange n (length xs)), s)
    else \<exists>ws t. sharded_rewind_live_to ps n s = (Ok (map ow_note_id ws), t) \<and>
      sorted_wrt (<) (map ow_leaf_index ws) \<and>
      set ws = {w. \<exists>k. map_of (st_owned_notes s) k = Some w \<and> n \<le> ow_leaf_index w} \<and>
      sharded_reach ps d sh (take n xs) t \<and>
      (\<forall>k. map_of (st_owned_notes t) k = (case map_of (st_owned_notes s) k of
         Some w \<Rightarrow> if n \<le> ow_leaf_index w then None else Some w | None \<Rightarrow> None))"
proof -
  have rep: "sharded_rep ps d sh xs s" using assms by (rule sharded_reach_rep)
  have ids: "\<exists>ws. owned_range (st_owned_leaves s) n = map ow_note_id ws \<and> sorted_wrt (<) (map ow_leaf_index ws) \<and>
      set ws = {w. \<exists>k. map_of (st_owned_notes s) k = Some w \<and> n \<le> ow_leaf_index w}"
    using rep owned_range_ids by (auto simp: sharded_rep_def simp del: map_of_eq_Some_iff Some_eq_map_of_iff)
  have "\<exists>ws t. sharded_rewind_live_to ps n s = (Ok (map ow_note_id ws), t) \<and>
      sorted_wrt (<) (map ow_leaf_index ws) \<and>
      set ws = {w. \<exists>k. map_of (st_owned_notes s) k = Some w \<and> n \<le> ow_leaf_index w} \<and>
      sharded_reach ps d sh (take n xs) t \<and>
      (\<forall>k. map_of (st_owned_notes t) k = (case map_of (st_owned_notes s) k of
         Some w \<Rightarrow> if n \<le> ow_leaf_index w then None else Some w | None \<Rightarrow> None))"
    if n: "length xs div 2 ^ sh * 2 ^ sh \<le> n" "n \<le> length xs"
  proof -
    obtain t where t: "sharded_rewind_live_to ps n s = (Ok (owned_range (st_owned_leaves s) n), t)"
        "\<forall>k. map_of (st_owned_notes t) k = (case map_of (st_owned_notes s) k of
           Some w \<Rightarrow> if n \<le> ow_leaf_index w then None else Some w | None \<Rightarrow> None)"
      using sharded_rewind_rep [OF rep n] by blast
    have "sharded_reach ps d sh (take n xs) t"
      using sharded_reach.step [OF assms, of "ShRewind n" t] t(1) by simp
    with t ids show ?thesis by metis
  qed
  then show ?thesis using sharded_rewind_refused [OF rep] by (auto simp: not_less)
qed

theorem sharded_rewind_exact_witness:
  "\<exists>s w ws t. sharded_reach sum_list 3 1 [5, 6, 7 :: nat] s \<and>
    sharded_rewind_live_to sum_list 1 s = (Err (RewindBeforeCompleted 2 1), s) \<and>
    map_of (st_owned_notes s) 7 = Some w \<and> sharded_rewind_live_to sum_list 2 s = (Ok (map ow_note_id ws), t) \<and>
    w \<in> set ws \<and> sharded_reach sum_list 3 1 [5, 6] t"
proof -
  obtain s w where s: "sharded_reach sum_list 3 1 [5, 6, 7 :: nat] s"
      and w: "map_of (st_owned_notes s) 7 = Some w" "ow_leaf_index w = 2"
    using reach_marked_example by blast
  obtain ws t where run: "sharded_rewind_live_to sum_list 2 s = (Ok (map ow_note_id ws), t)"
      and ws: "set ws = {w. \<exists>k. map_of (st_owned_notes s) k = Some w \<and> 2 \<le> ow_leaf_index w}"
      and t: "sharded_reach sum_list 3 1 [5, 6] t"
    using sharded_rewind_exact [OF s, of 2] by auto
  have refused: "sharded_rewind_live_to sum_list 1 s = (Err (RewindBeforeCompleted 2 1), s)"
    using sharded_rewind_exact [OF s, of 1] by simp
  have "w \<in> set ws"
    unfolding ws by (rule CollectI, rule exI [of _ 7]) (use w in \<open>simp del: map_of_eq_Some_iff\<close>)
  with s refused w(1) run t show ?thesis by blast
qed

text \<open>
  C15: Saving and loading is invisible: a reachable tree of depth at most 31 encodes, its bytes
  restore to a tree reachable over the same log with the same owned records, root and
  witnesses, and nothing is dirty in it.
\<close>

theorem sharded_reload_invisible:
  assumes "sharded_reach ps d sh xs s" and "d \<le> 31"
  shows "\<exists>bytes t. sharded_encode_snapshot s = Ok bytes \<and> sharded_from_snapshot_bytes ps bytes = Ok t \<and>
    sharded_reach ps d sh xs t \<and> map_of (st_owned_notes t) = map_of (st_owned_notes s) \<and>
    sharded_tree_root t = sharded_tree_root s \<and> (\<forall>k. sharded_tree_witness t k = sharded_tree_witness s k) \<and>
    fst (sharded_drain_dirty t) = []"
proof -
  have rep: "sharded_rep ps d sh xs s" using assms(1) by (rule sharded_reach_rep)
  let ?snap = "sharded_take_snapshot s"
  have enc: "snapshot_encode ?snap = Ok (snapshot_header ?snap @ body_bytes ?snap)"
    using snapshot_of_rep_fits [OF rep assms(2)] by (simp add: snapshot_encode_Ok_iff)
  then have dec: "snapshot_decode (snapshot_header ?snap @ body_bytes ?snap) = Ok ?snap"
    using snapshot_encode_decode by blast
  obtain t where t: "sharded_from_snapshot ps ?snap = Ok t" "sharded_rep ps d sh xs t"
      "map_of (st_owned_notes t) = map_of (st_owned_notes s)" "st_dirty t = []"
    using sharded_restore_rep [OF rep] by blast
  have reach: "sharded_reach ps d sh xs t"
    using sharded_reach.step [OF assms(1), of ShReload t] t(1) by simp
  have bytes: "sharded_encode_snapshot s = Ok (snapshot_header ?snap @ body_bytes ?snap)"
    using enc by (simp only: sharded_encode_snapshot_def)
  have restored: "sharded_from_snapshot_bytes ps (snapshot_header ?snap @ body_bytes ?snap) = Ok t"
    using t(1) by (simp only: sharded_from_snapshot_bytes_def dec rbind.simps)
  have clean: "fst (sharded_drain_dirty t) = []"
    using t(4) by (simp add: sharded_drain_dirty_def map_filter_def)
  have root: "sharded_tree_root t = sharded_tree_root s"
    using sharded_rep_root [OF rep] sharded_rep_root [OF t(2)] by simp
  have wit: "\<forall>k. sharded_tree_witness t k = sharded_tree_witness s k"
    by (simp add: sharded_witness_cong [OF t(2) rep] t(3))
  from bytes restored reach t(3) root wit clean show ?thesis by blast
qed

theorem sharded_reload_invisible_witness:
  "\<exists>s bytes t. sharded_reach sum_list 3 1 [] s \<and> sharded_encode_snapshot s = Ok bytes \<and>
    sharded_from_snapshot_bytes sum_list bytes = Ok t \<and> sharded_tree_root t = sharded_tree_root s"
proof -
  obtain s where s: "sharded_new (sum_list :: fr list \<Rightarrow> fr) 3 1 = Ok s"
    using sharded_new_rep [of 1 3 "sum_list :: fr list \<Rightarrow> fr"] by auto
  then have "sharded_reach sum_list 3 1 [] s" by (rule sharded_reach.start)
  then show ?thesis using sharded_reload_invisible [of sum_list 3 1 "[]" s] by auto
qed

text \<open>
  Snapshot bytes are a canonical format and safe to read: restoring from any bytes
  whatsoever does not panic, and a snapshot encodes to given bytes exactly when they decode to
  it (bytes of \<open>2 ^ 64\<close> or more cannot exist in memory).
\<close>

theorem sharded_snapshot_codec:
  "sharded_from_snapshot_bytes ps bytes \<noteq> Panic \<and> snapshot_decode bytes \<noteq> Panic \<and>
    (snapshot_encode snap = Ok bytes) = (snapshot_decode bytes = Ok snap \<and> length bytes < 2 ^ 64)"
  using snapshot_encode_decode [of snap bytes]
  by (auto simp: sharded_from_snapshot_bytes_def rbind_Panic_iff snapshot_decode_no_Panic sharded_from_snapshot_no_Panic)

end
