(* ===== verification/Sharded_Dirty.thy ===== *)
theory Sharded_Dirty
  imports Sharded_Machine
begin

text \<open>
  The dirty set of the sharded tree: every change of an owned note's record is reported by the
  next drain, so an adapter that stores what it drains stores what the tree holds.
\<close>

section \<open>What a storage adapter must persist\<close>

text \<open>
  From \<open>s\<close> to \<open>t\<close> every owned note whose record changed is dirty or gone, and no dirty note
  is forgotten while it is owned.
\<close>

definition keyed :: "'f sharded_tree \<Rightarrow> bool" where
  "keyed s \<longleftrightarrow> (\<forall>k w. map_of (st_owned_notes s) k = Some w \<longrightarrow> ow_note_id w = k)"

definition tracks :: "'f sharded_tree \<Rightarrow> 'f sharded_tree \<Rightarrow> bool" where
  "tracks s t \<longleftrightarrow> keyed t \<and>
     (\<forall>k w. map_of (st_owned_notes t) k = Some w \<longrightarrow> map_of (st_owned_notes s) k = Some w \<or> k \<in> set (st_dirty t)) \<and>
     (\<forall>k \<in> set (st_dirty s). map_of (st_owned_notes t) k = None \<or> k \<in> set (st_dirty t))"

lemma tracks_refl: "keyed s \<Longrightarrow> tracks s s"
  by (simp add: tracks_def)

lemma tracks_trans:
  assumes "tracks s t" and "tracks t u"
  shows "tracks s u"
  unfolding tracks_def
proof (intro conjI allI impI ballI)
  show "keyed u" using assms(2) by (simp add: tracks_def)
next
  fix k w assume w: "map_of (st_owned_notes u) k = Some w"
  then have "map_of (st_owned_notes t) k = Some w \<or> k \<in> set (st_dirty u)" using assms(2) unfolding tracks_def by blast
  moreover have "map_of (st_owned_notes s) k = Some w \<or> k \<in> set (st_dirty t)" if "map_of (st_owned_notes t) k = Some w"
    using that assms(1) unfolding tracks_def by blast
  moreover have "k \<in> set (st_dirty u)" if "k \<in> set (st_dirty t)"
    using that w assms(2) unfolding tracks_def by force
  ultimately show "map_of (st_owned_notes s) k = Some w \<or> k \<in> set (st_dirty u)" by blast
next
  fix k assume "k \<in> set (st_dirty s)"
  then have "map_of (st_owned_notes t) k = None \<or> k \<in> set (st_dirty t)" using assms(1) unfolding tracks_def by blast
  then show "map_of (st_owned_notes u) k = None \<or> k \<in> set (st_dirty u)"
  proof
    assume "map_of (st_owned_notes t) k = None"
    then show ?thesis using assms(2) unfolding tracks_def by (metis option.distinct(1) option.exhaust)
  next
    assume "k \<in> set (st_dirty t)"
    then show ?thesis using assms(2) unfolding tracks_def by blast
  qed
qed

lemma tracks_frame:
  "keyed s \<Longrightarrow> st_owned_notes t = st_owned_notes s \<Longrightarrow> st_dirty t = st_dirty s \<Longrightarrow> tracks s t"
  by (simp add: tracks_def keyed_def)

text \<open>A method whose every outcome is tracked.\<close>

definition tracked :: "('f sharded_tree, 'a, 'e) sm \<Rightarrow> bool" where
  "tracked m \<longleftrightarrow> (\<forall>s. keyed s \<longrightarrow> tracks s (snd (m s)))"

lemma tracked_frame: "(\<And>s. st_owned_notes (snd (m s)) = st_owned_notes s \<and> st_dirty (snd (m s)) = st_dirty s) \<Longrightarrow> tracked m"
  by (auto simp: tracked_def intro: tracks_frame)

lemma tracked_simple [simp, intro]: "tracked (sret a)" "tracked (slift r)"
  "tracked (zoom_live m)" "tracked (zoom_cap m')"
  "tracked (smodify (st_live_leaves_update f))" "tracked (smodify (st_live_update g))"
  "tracked (smodify (st_completed_roots_update h))" "tracked (smodify (st_cap_update c))"
  by (auto simp: sm_simps split: prod.splits intro!: tracked_frame)

lemma tracked_sbind:
  fixes m :: "('f sharded_tree, 'a, 'e) sm"
  assumes "tracked m" and "\<And>a. tracked (f a)"
  shows "tracked (sbind m f)"
  unfolding tracked_def
proof (intro allI impI)
  fix s :: "'f sharded_tree" assume s: "keyed s"
  obtain r t where m: "m s = (r, t)" by force
  have t: "tracks s t" "keyed t" using assms(1) s m unfolding tracked_def tracks_def by (metis snd_conv)+
  show "tracks s (snd (sbind m f s))"
  proof (cases r)
    case (Ok a)
    have "tracks t (snd (f a t))" using assms(2) t(2) by (simp add: tracked_def)
    then show ?thesis using tracks_trans [OF t(1)] m Ok by simp
  qed (use t m in \<open>simp_all add: sbind_def\<close>)
qed

text \<open>Methods that read their own state first.\<close>

lemma tracked_reader:
  assumes "\<And>c. tracked (m c)" and "\<And>c a. tracked (f c a)"
  shows "tracked (\<lambda>c. sbind (m c) (f c) c)"
proof -
  have "tracked (sbind (m c) (f c))" for c using assms by (intro tracked_sbind)
  then show ?thesis by (simp add: tracked_def)
qed

lemma tracked_if: "tracked m \<Longrightarrow> tracked m' \<Longrightarrow> tracked (if b then m else m')"
  by simp

lemma tracked_if_reader:
  assumes "\<And>c. tracked (m c)" and "\<And>c. tracked (m' c)"
  shows "tracked (\<lambda>c. (if b c then m c else m' c) c)"
  using assms by (simp add: tracked_def)

lemma tracked_sfold: "(\<And>x acc. tracked (body x acc)) \<Longrightarrow> tracked (sfold xs body acc)"
  by (induction xs arbitrary: acc) (simp_all add: tracked_sbind)

lemmas tracked_rules = tracked_sbind tracked_reader tracked_if tracked_if_reader tracked_sfold tracked_simple

lemma tracked_owned_update:
  "tracks s (st_dirty_update (List.insert k) (st_owned_notes_update (AList.update k w) s))"
  if "keyed s" "ow_note_id w = k"
  using that by (auto simp: tracks_def keyed_def update_conv')

lemma tracked_sync: "tracked (sharded_sync_live_root ps)"
  unfolding sharded_sync_live_root_def Let_def by (intro tracked_rules)

lemma tracked_freeze: "tracked (sharded_freeze q k acc)"
  unfolding tracked_def
proof (intro allI impI)
  fix s :: "'a sharded_tree" assume s: "keyed s"
  show "tracks s (snd (sharded_freeze q k acc s))"
  proof (cases "map_of (st_owned_notes s) k")
    case None
    then show ?thesis using s by (simp add: sharded_freeze_def sret_def tracks_refl)
  next
    case (Some w)
    then have "ow_note_id w = k" using s by (simp add: keyed_def)
    then show ?thesis
      using Some s tracked_owned_update [OF s, of "w\<lparr>ow_siblings := Some ss\<rparr>" k for ss]
      by (auto simp: sharded_freeze_def sm_simps Let_def tracks_refl split: result.splits)
  qed
qed

lemma tracked_roll_over: "tracked (sharded_roll_over ps)"
  unfolding sharded_roll_over_def Let_def by (intro tracked_rules tracked_freeze)

lemma tracked_append: "tracked (sharded_append ps x)"
  unfolding sharded_append_def by (intro tracked_rules tracked_sync tracked_roll_over)

lemma tracked_segment: "tracked (sharded_append_segment ps seg)"
  unfolding sharded_append_segment_def Let_def by (intro tracked_rules tracked_sync tracked_roll_over)

lemma tracked_loop:
  assumes "sharded_append_loop ps ys s = Some (r, t)" and "keyed s"
  shows "tracks s t"
proof -
  have "case y of (r, t) \<Rightarrow> keyed s \<longrightarrow> tracks s t" if "sharded_append_loop ps ys s = Some y" for y
  proof (rule sharded_append_loop.raw_induct [OF _ that], goal_cases)
    case (1 loop ps ys s y)
    show ?case
    proof (cases "ys = []")
      case True
      then show ?thesis using 1 by (auto simp: tracks_refl)
    next
      case False
      let ?n = "min (st_shard_size s - length (st_live_leaves s)) (length ys)"
      obtain r1 s1 where seg: "sharded_append_segment ps (take ?n ys) s = (r1, s1)" by force
      have step: "keyed s \<Longrightarrow> tracks s s1"
        using tracked_segment [of ps "take ?n ys"] seg unfolding tracked_def by (metis snd_conv)
      show ?thesis
      proof (cases r1)
        case (Ok u)
        have "loop ps (drop ?n ys) s1 = Some y"
          using 1(2) unfolding if_not_P [OF False] Let_def seg Ok by (simp only: prod.case result.case option.inject)
        then have "case y of (r, t) \<Rightarrow> keyed s1 \<longrightarrow> tracks s1 t" by (rule 1(1))
        moreover have "keyed s1" if "tracks s s1" using that by (simp add: tracks_def)
        moreover obtain r t where "y = (r, t)" by force
        ultimately show ?thesis using step tracks_trans [of s s1 t] by auto
      next
        case (Err e)
        have "y = (Err e, s1)" using 1(2) unfolding if_not_P [OF False] Let_def seg Err by (simp only: prod.case result.case option.inject)
        then show ?thesis using step by simp
      next
        case Panic
        have "y = (Panic, s1)" using 1(2) unfolding if_not_P [OF False] Let_def seg Panic by (simp only: prod.case result.case option.inject)
        then show ?thesis using step by simp
      qed
    qed
  qed
  with assms show ?thesis by blast
qed

lemma tracked_append_many:
  "sharded_append_many ps ys s = Some (r, t) \<Longrightarrow> keyed s \<Longrightarrow> tracks s t"
  by (auto simp: sharded_append_many_def tracks_refl dest: tracked_loop split: result.splits)

lemma tracked_mark: "tracked (sharded_mark_owned k i)"
  unfolding tracked_def
  using tracked_owned_update [of "st_owned_leaves_update f s" for f s]
  by (auto simp: sharded_mark_owned_def sm_simps Let_def guard_def tracks_def keyed_def update_conv'
      split: result.splits option.splits)

lemma tracked_adopt: "tracked (sharded_adopt_frozen_witness ps k i ss)"
  unfolding tracked_def
  by (auto simp: sharded_adopt_frozen_witness_def sm_simps Let_def guard_def tracks_def keyed_def update_conv'
      split: result.splits option.splits)

lemma tracks_unmark: "keyed s \<Longrightarrow> tracks s (snd (sharded_unmark_owned k s))"
  by (auto simp: sharded_unmark_owned_def tracks_def keyed_def delete_conv' Let_def
      simp del: map_of_eq_Some_iff Some_eq_map_of_iff split: option.splits)

lemma tracks_unmarks: "keyed s \<Longrightarrow> tracks s (fold (\<lambda>k s. snd (sharded_unmark_owned k s)) ks s)"
proof (induction ks arbitrary: s)
  case (Cons k ks)
  have "tracks s (snd (sharded_unmark_owned k s))" using Cons.prems by (rule tracks_unmark)
  moreover then have "keyed (snd (sharded_unmark_owned k s))" by (simp add: tracks_def)
  ultimately show ?case using Cons.IH tracks_trans by fastforce
qed (simp add: tracks_refl)

lemma tracked_rebuild: "tracked (sharded_rebuild_cap ps)"
  unfolding sharded_rebuild_cap_def by (intro tracked_rules)

lemma tracked_rewind: "tracked (sharded_rewind_live_to ps n)"
proof -
  have "tracked (smodify (fold (\<lambda>k s. snd (sharded_unmark_owned k s)) ks))" for ks
    by (simp add: tracked_def smodify_def tracks_unmarks)
  then show ?thesis unfolding sharded_rewind_live_to_def Let_def by (intro tracked_rules tracked_rebuild)
qed

text \<open>Every operation but the two that report or reset the dirty set.\<close>

lemma exec_tracks:
  assumes "sharded_exec ps op s = Some (r, t)" and "keyed s" and "op \<noteq> ShDrain" and "op \<noteq> ShReload"
  shows "tracks s t"
proof (cases op)
  case (ShAppend x)
  then show ?thesis using assms tracked_append [of ps x] by (auto simp: tracked_def)
next
  case (ShAppendMany ys)
  then show ?thesis using assms tracked_append_many by auto
next
  case (ShMark k i)
  then show ?thesis using assms tracked_mark [of k i] by (auto simp: tracked_def)
next
  case (ShUnmark k)
  then show ?thesis using assms tracks_unmark by auto
next
  case (ShAdopt k i ss)
  then show ?thesis using assms tracked_adopt [of ps k i ss] by (auto simp: tracked_def)
next
  case (ShRewind n)
  then show ?thesis using assms tracked_rewind [of ps n] by (auto simp: tracked_def split: prod.splits)
qed (use assms in simp_all)

lemma drained: "w \<in> set (fst (sharded_drain_dirty s)) \<longleftrightarrow> (\<exists>k \<in> set (st_dirty s). map_of (st_owned_notes s) k = Some w)"
  by (force simp: sharded_drain_dirty_def map_filter_def)

section \<open>Properties\<close>

text \<open>A run of operations between two drains.\<close>

fun sharded_run ::
    "('f :: zero list \<Rightarrow> 'f) \<Rightarrow> 'f sharded_op list \<Rightarrow> 'f sharded_tree \<Rightarrow> 'f sharded_tree option" where
  "sharded_run ps [] s = Some s"
| "sharded_run ps (op # ops) s =
     (case sharded_exec ps op s of None \<Rightarrow> None | Some (r, s') \<Rightarrow> sharded_run ps ops s')"

lemma run_tracks:
  "sharded_run ps ops s = Some t \<Longrightarrow> keyed s \<Longrightarrow> ShDrain \<notin> set ops \<Longrightarrow> ShReload \<notin> set ops \<Longrightarrow> tracks s t"
proof (induction ops arbitrary: s)
  case Nil
  then show ?case by (simp add: tracks_refl)
next
  case (Cons op ops)
  then obtain r s1 where s1: "sharded_exec ps op s = Some (r, s1)" "sharded_run ps ops s1 = Some t"
    by (auto split: option.splits)
  have "tracks s s1" using exec_tracks [OF s1(1) Cons.prems(2)] Cons.prems(3,4) by auto
  moreover then have "tracks s1 t" using Cons.IH [OF s1(2)] Cons.prems(3,4) by (simp add: tracks_def)
  ultimately show ?case by (rule tracks_trans)
qed

lemma reach_keyed: "sharded_reach ps d sh xs s \<Longrightarrow> keyed s"
  using sharded_rep_owned(1) [OF sharded_reach_rep] by (auto simp: keyed_def simp del: map_of_eq_Some_iff)

text \<open>
  C16: Draining is enough to persist: take the owned records of a reachable tree as stored, run
  any operations that neither drain nor reload - appends that complete shards, marks,
  adoptions, rewinds, refused calls - and write what the drain returns over the stored records:
  for every note still owned the stored record is then the tree's own.  A second drain is empty.
\<close>

theorem sharded_drain_persists:
  assumes "sharded_reach ps d sh xs s" and "sharded_run ps ops s = Some t"
    and "ShDrain \<notin> set ops" and "ShReload \<notin> set ops"
  shows "(\<forall>k \<in> dom (map_of (st_owned_notes t)).
      (map_of (st_owned_notes s) ++ map_of (map (\<lambda>w. (ow_note_id w, w)) (fst (sharded_drain_dirty t)))) k =
      map_of (st_owned_notes t) k) \<and>
    fst (sharded_drain_dirty (snd (sharded_drain_dirty t))) = []"
proof -
  let ?drained = "map (\<lambda>w. (ow_note_id w, w)) (fst (sharded_drain_dirty t))"
  have tr: "tracks s t" using assms(2) reach_keyed [OF assms(1)] assms(3,4) by (rule run_tracks)
  have mem: "map_of (st_owned_notes t) k = Some w" if "(k, w) \<in> set ?drained" for k w
    using that tr drained [of w t] by (auto simp: tracks_def keyed_def simp del: map_of_eq_Some_iff)
  have "(map_of (st_owned_notes s) ++ map_of ?drained) k = Some w" if w: "map_of (st_owned_notes t) k = Some w" for k w
  proof (cases "map_of ?drained k")
    case (Some v)
    then have "v = w" using mem [OF map_of_SomeD [OF Some]] w by simp
    with Some show ?thesis by (simp add: map_add_def)
  next
    case None
    have "k \<notin> set (st_dirty t)"
    proof
      assume "k \<in> set (st_dirty t)"
      then have "w \<in> set (fst (sharded_drain_dirty t))" using w drained by fast
      moreover have "ow_note_id w = k" using tr w by (simp add: tracks_def keyed_def)
      ultimately show False using None by (force simp: map_of_eq_None_iff)
    qed
    then have "map_of (st_owned_notes s) k = Some w" using tr w unfolding tracks_def by blast
    then show ?thesis using None by (simp add: map_add_def)
  qed
  then show ?thesis by (auto simp: sharded_drain_dirty_def map_filter_def simp del: map_of_eq_Some_iff)
qed

theorem sharded_drain_persists_witness:
  "\<exists>s t. sharded_reach sum_list 3 1 [5, 6, 7 :: nat] s \<and> sharded_run sum_list [ShUnmark 7, ShAppend 7] s = Some t \<and>
    fst (sharded_drain_dirty (snd (sharded_drain_dirty t))) = []"
proof -
  obtain s where s: "sharded_reach sum_list 3 1 [5, 6, 7 :: nat] s" using reach_example by blast
  obtain r t where "sharded_append sum_list 7 (snd (sharded_unmark_owned 7 s)) = (r, t)" by (cases rule: prod.exhaust)
  then have t: "sharded_run sum_list [ShUnmark 7, ShAppend 7] s = Some t" by simp
  show ?thesis using sharded_drain_persists [OF s t] s t by auto
qed

end
