(* ===== verification/Notes_Tree.thy ===== *)
theory Notes_Tree
  imports Leaf_Trees Notes_Frontier
begin

text \<open>
  The trait \<open>AppendableNotesTree\<close> of \<open>crates/core/src/imt.rs\<close> and its two implementations.
  A record of operations is the trait's vtable; the locale \<open>notes_tree\<close> is its contract,
  stated against the abstract leaf log, with what a client proves from it; the two
  interpretations discharge the contract for \<open>IndexedMerkleTree\<close> and \<open>NotesFrontier\<close>.
\<close>

record ('s, 'f) notes_tree_ops =
  nt_depth :: "'s \<Rightarrow> nat"
  nt_leaf_count :: "'s \<Rightarrow> nat"
  nt_root :: "'s \<Rightarrow> ('f, tree_error) result"
  nt_next_leaf_frontier :: "'s \<Rightarrow> ('f list, tree_error) result"
  nt_append_all :: "'f list \<Rightarrow> ('s, unit, tree_error) sm"

definition indexed_ops :: "('f :: zero list \<Rightarrow> 'f) \<Rightarrow> ('f indexed_tree, 'f) notes_tree_ops" where
  "indexed_ops ps = \<lparr>nt_depth = indexed_depth, nt_leaf_count = indexed_leaf_count,
     nt_root = indexed_root, nt_next_leaf_frontier = indexed_next_leaf_frontier,
     nt_append_all = indexed_insert_many ps\<rparr>"

text \<open>The frontier appends to a copy and swaps it in on success.\<close>

definition frontier_append_all ::
    "('f list \<Rightarrow> 'f) \<Rightarrow> 'f list \<Rightarrow> ('f notes_frontier, unit, tree_error) sm" where
  "frontier_append_all ps leaves = (\<lambda>t.
     let (r, work) = frontier_append_many ps leaves t
     in sbind (slift r) (\<lambda>_. smodify (\<lambda>_. work)) t)"

definition frontier_ops :: "('f :: zero list \<Rightarrow> 'f) \<Rightarrow> ('f notes_frontier, 'f) notes_tree_ops" where
  "frontier_ops ps = \<lparr>nt_depth = nf_depth, nt_leaf_count = nf_leaf_count,
     nt_root = frontier_root ps, nt_next_leaf_frontier = frontier_next_leaf_frontier,
     nt_append_all = frontier_append_all ps\<rparr>"

section \<open>The contract\<close>

text \<open>
  \<open>rep s d xs\<close>: the state \<open>s\<close> is a depth-\<open>d\<close> tree over the log \<open>xs\<close>.  \<open>admits xs ys\<close>: the
  implementation accepts \<open>ys\<close> on top of \<open>xs\<close>, capacity aside.
\<close>

locale notes_tree =
  fixes ps :: "'f :: zero list \<Rightarrow> 'f"
    and ops :: "('s, 'f) notes_tree_ops"
    and rep :: "'s \<Rightarrow> nat \<Rightarrow> 'f list \<Rightarrow> bool"
    and admits :: "'f list \<Rightarrow> 'f list \<Rightarrow> bool"
  assumes rep_fits: "rep s d xs \<Longrightarrow> d < 64 \<and> length xs \<le> 2 ^ d"
    and depth: "rep s d xs \<Longrightarrow> nt_depth ops s = d"
    and leaf_count: "rep s d xs \<Longrightarrow> nt_leaf_count ops s = length xs"
    and root: "rep s d xs \<Longrightarrow> nt_root ops s = Ok (merkle_root ps 0 d xs)"
    and next_frontier: "rep s d xs \<Longrightarrow> length xs < 2 ^ d \<Longrightarrow>
          nt_next_leaf_frontier ops s = Ok (next_frontier ps (padded 0 xs) d (length xs))"
    and next_frontier_full: "rep s d xs \<Longrightarrow> length xs = 2 ^ d \<Longrightarrow>
          nt_next_leaf_frontier ops s = Err (TreeFull d)"
    and append_ok: "rep s d xs \<Longrightarrow> length (xs @ ys) \<le> 2 ^ d \<Longrightarrow> admits xs ys \<Longrightarrow>
          \<exists>s'. nt_append_all ops ys s = (Ok (), s') \<and> rep s' d (xs @ ys)"
    and append_full: "rep s d xs \<Longrightarrow> 2 ^ d < length (xs @ ys) \<Longrightarrow>
          nt_append_all ops ys s = (Err (TreeFull d), s)"
    and append_dup: "rep s d xs \<Longrightarrow> length (xs @ ys) \<le> 2 ^ d \<Longrightarrow> \<not> admits xs ys \<Longrightarrow>
          nt_append_all ops ys s = (Err DuplicateLeaf, s)"
begin

lemma append_cases:
  assumes "rep s d xs"
  shows "(\<exists>s'. nt_append_all ops ys s = (Ok (), s') \<and> rep s' d (xs @ ys)) \<or>
    (\<exists>e. nt_append_all ops ys s = (Err e, s))"
  using append_ok [OF assms] append_full [OF assms] append_dup [OF assms] not_less by blast

text \<open>All or none: a refused batch leaves the tree as it was.\<close>

lemma append_all_or_none:
  assumes "rep s d xs"
  shows "case nt_append_all ops ys s of (r, s') \<Rightarrow>
    (if r = Ok () then rep s' d (xs @ ys) else s' = s \<and> r \<noteq> Panic)"
  using append_cases [OF assms, of ys] by auto

text \<open>Batches compose: two accepted batches are their concatenation.\<close>

lemma append_append:
  assumes "rep s d xs" and "nt_append_all ops ys s = (Ok (), s1)" and "nt_append_all ops zs s1 = (Ok (), s2)"
  shows "rep s2 d (xs @ ys @ zs)"
proof -
  have "rep s1 d (xs @ ys)" using append_cases [OF assms(1), of ys] assms(2) by auto
  then show ?thesis using append_cases [of s1 d "xs @ ys" zs] assms(3) by auto
qed

end

section \<open>The implementations\<close>

definition indexed_rep :: "('f :: zero list \<Rightarrow> 'f) \<Rightarrow> 'f indexed_tree \<Rightarrow> nat \<Rightarrow> 'f list \<Rightarrow> bool" where
  "indexed_rep ps s d xs \<longleftrightarrow> s = indexed_of ps d xs \<and> d < 64 \<and> length xs \<le> 2 ^ d \<and> distinct xs"

definition frontier_rep ::
    "('f :: zero list \<Rightarrow> 'f) \<Rightarrow> nat \<Rightarrow> 'f notes_frontier \<Rightarrow> nat \<Rightarrow> 'f list \<Rightarrow> bool" where
  "frontier_rep ps sh s d xs \<longleftrightarrow> s = frontier_of ps d sh xs \<and> frontier_fits d sh xs"

definition indexed_admits :: "'f list \<Rightarrow> 'f list \<Rightarrow> bool" where
  "indexed_admits xs ys \<longleftrightarrow> distinct (xs @ ys)"

definition frontier_admits :: "'f list \<Rightarrow> 'f list \<Rightarrow> bool" where
  "frontier_admits xs ys \<longleftrightarrow> True"

lemma indexed_ops_simps [simp]:
  "nt_depth (indexed_ops ps) = indexed_depth" "nt_leaf_count (indexed_ops ps) = indexed_leaf_count"
  "nt_root (indexed_ops ps) = indexed_root"
  "nt_next_leaf_frontier (indexed_ops ps) = indexed_next_leaf_frontier"
  "nt_append_all (indexed_ops ps) = indexed_insert_many ps"
  by (simp_all add: indexed_ops_def)

lemma frontier_ops_simps [simp]:
  "nt_depth (frontier_ops ps) = nf_depth" "nt_leaf_count (frontier_ops ps) = nf_leaf_count"
  "nt_root (frontier_ops ps) = frontier_root ps"
  "nt_next_leaf_frontier (frontier_ops ps) = frontier_next_leaf_frontier"
  "nt_append_all (frontier_ops ps) = frontier_append_all ps"
  by (simp_all add: frontier_ops_def)

lemma frontier_append_all_eq:
  assumes "frontier_fits d sh xs"
  shows "frontier_append_all ps ys (frontier_of ps d sh xs) =
    (if length (xs @ ys) \<le> 2 ^ d then (Ok (), frontier_of ps d sh (xs @ ys))
     else (Err (TreeFull d), frontier_of ps d sh xs))"
  using assms by (simp add: frontier_append_all_def frontier_append_many_eq sm_simps)

interpretation indexed: notes_tree ps "indexed_ops ps" "indexed_rep ps" indexed_admits for ps :: "'f :: zero list \<Rightarrow> 'f"
proof
  fix s d and xs ys :: "'f list"
  assume rep: "indexed_rep ps s d xs"
  then have s: "s = indexed_of ps d xs" "d < 64" "length xs \<le> 2 ^ d" "distinct xs"
    by (simp_all add: indexed_rep_def)
  show "d < 64 \<and> length xs \<le> 2 ^ d" using s by simp
  show "nt_depth (indexed_ops ps) s = d" "nt_leaf_count (indexed_ops ps) s = length xs" using s by simp_all
  show "nt_root (indexed_ops ps) s = Ok (merkle_root ps 0 d xs)"
    using s by (simp add: indexed_root_def imt_root_eq)
  show "length xs < 2 ^ d \<Longrightarrow>
      nt_next_leaf_frontier (indexed_ops ps) s = Ok (next_frontier ps (padded 0 xs) d (length xs))"
    using s by (simp add: indexed_next_leaf_frontier_def imt_next_leaf_frontier_eq)
  show "length xs = 2 ^ d \<Longrightarrow> nt_next_leaf_frontier (indexed_ops ps) s = Err (TreeFull d)"
    using s by (simp add: indexed_next_leaf_frontier_def imt_next_leaf_frontier_full)
  show "length (xs @ ys) \<le> 2 ^ d \<Longrightarrow> indexed_admits xs ys \<Longrightarrow>
      \<exists>s'. nt_append_all (indexed_ops ps) ys s = (Ok (), s') \<and> indexed_rep ps s' d (xs @ ys)"
    using s by (simp add: indexed_insert_many_eq indexed_rep_def indexed_admits_def)
  show "2 ^ d < length (xs @ ys) \<Longrightarrow> nt_append_all (indexed_ops ps) ys s = (Err (TreeFull d), s)"
    using s by (simp add: indexed_insert_many_eq)
  show "length (xs @ ys) \<le> 2 ^ d \<Longrightarrow> \<not> indexed_admits xs ys \<Longrightarrow>
      nt_append_all (indexed_ops ps) ys s = (Err DuplicateLeaf, s)"
    using s by (auto simp: indexed_insert_many_eq indexed_admits_def)
qed

interpretation frontier: notes_tree ps "frontier_ops ps" "frontier_rep ps sh" frontier_admits
  for ps :: "'f :: zero list \<Rightarrow> 'f" and sh
proof
  fix s d and xs ys :: "'f list"
  assume "frontier_rep ps sh s d xs"
  then have s: "s = frontier_of ps d sh xs" "frontier_fits d sh xs" by (simp_all add: frontier_rep_def)
  then have d: "d < 64" "length xs \<le> 2 ^ d" by (simp_all add: frontier_fits_def)
  then show "d < 64 \<and> length xs \<le> 2 ^ d" by simp
  show "nt_depth (frontier_ops ps) s = d" "nt_leaf_count (frontier_ops ps) s = length xs" using s by simp_all
  show "nt_root (frontier_ops ps) s = Ok (merkle_root ps 0 d xs)" using s d by (simp add: frontier_root_eq)
  show "length xs < 2 ^ d \<Longrightarrow>
      nt_next_leaf_frontier (frontier_ops ps) s = Ok (next_frontier ps (padded 0 xs) d (length xs))"
    using s d by (simp add: frontier_next_leaf_frontier_eq)
  show "length xs = 2 ^ d \<Longrightarrow> nt_next_leaf_frontier (frontier_ops ps) s = Err (TreeFull d)"
    using s d by (simp add: frontier_next_leaf_frontier_full)
  show "length (xs @ ys) \<le> 2 ^ d \<Longrightarrow> frontier_admits xs ys \<Longrightarrow>
      \<exists>s'. nt_append_all (frontier_ops ps) ys s = (Ok (), s') \<and> frontier_rep ps sh s' d (xs @ ys)"
    using s by (auto simp: frontier_append_all_eq frontier_rep_def frontier_fits_def)
  show "2 ^ d < length (xs @ ys) \<Longrightarrow> nt_append_all (frontier_ops ps) ys s = (Err (TreeFull d), s)"
    using s by (simp add: frontier_append_all_eq)
  show "length (xs @ ys) \<le> 2 ^ d \<Longrightarrow> \<not> frontier_admits xs ys \<Longrightarrow>
      nt_append_all (frontier_ops ps) ys s = (Err DuplicateLeaf, s)"
    by (simp add: frontier_admits_def)
qed

end
