(* ===== verification/Calldata.thy ===== *)
theory Calldata
  imports Field_Codec
begin

text \<open>
  The calldata binding of \<open>crates/core/src/calldata.rs\<close>: the chained commitment, the
  contract's challenge and the polynomial evaluation.  \<open>ps\<close> is \<open>poseidon\<close>; \<open>sha\<close> and
  \<open>keccak\<close> are SHA-256 and Keccak-256 on bytes.
\<close>

text \<open>\<open>b"curvy.calldata.commitment.v1"\<close>.\<close>

definition calldata_commitment_tag :: "byte list" where
  "calldata_commitment_tag = [99, 117, 114, 118, 121, 46, 99, 97, 108, 108, 100, 97, 116, 97, 46,
     99, 111, 109, 109, 105, 116, 109, 101, 110, 116, 46, 118, 49]"

definition calldata_words_per_hash :: nat where
  "calldata_words_per_hash = 15"

definition max_calldata_words :: nat where
  "max_calldata_words = 8192"

record calldata_binding =
  cb_commitment :: fr
  cb_y :: fr
  cb_x :: fr

definition public_signals :: "calldata_binding \<Rightarrow> fr list" where
  "public_signals b = [cb_commitment b, cb_y b, cb_x b]"

datatype calldata_error = NoWords | TooManyWords nat | PackedWords packed_fields_error

definition check_word_count :: "fr list \<Rightarrow> (unit, calldata_error) result" where
  "check_word_count ws =
     (if length ws = 0 then Err NoWords
      else if max_calldata_words < length ws then Err (TooManyWords (length ws))
      else Ok ())"

definition calldata_commitment_domain :: "(byte list \<Rightarrow> byte list) \<Rightarrow> fr" where
  "calldata_commitment_domain sha = fr_from_be_bytes_mod (sha calldata_commitment_tag)"

text \<open>One absorption: the chained state first, then the chunk, then zeros.\<close>

definition absorb :: "(fr list \<Rightarrow> fr) \<Rightarrow> fr list \<Rightarrow> fr \<Rightarrow> fr" where
  "absorb ps chunk state =
     ps (state # chunk @ replicate (calldata_words_per_hash - length chunk) 0)"

definition calldata_commitment ::
    "(fr list \<Rightarrow> fr) \<Rightarrow> (byte list \<Rightarrow> byte list) \<Rightarrow> fr list \<Rightarrow> (fr, calldata_error) result" where
  "calldata_commitment ps sha ws =
     rbind (check_word_count ws) (\<lambda>_.
       Ok (fold (absorb ps) (chunks calldata_words_per_hash ws)
             (calldata_commitment_domain sha + fr_of_nat (length ws))))"

definition calldata_challenge ::
    "(byte list \<Rightarrow> byte list) \<Rightarrow> fr list \<Rightarrow> fr \<Rightarrow> (fr, calldata_error) result" where
  "calldata_challenge keccak ws commitment =
     rbind (check_word_count ws) (\<lambda>_.
       Ok (fr_from_be_bytes_mod (keccak
             (fold (\<lambda>word hashed. hashed @ fr_to_be_32 word) ws [] @ fr_to_be_32 commitment))))"

definition calldata_evaluation :: "fr list \<Rightarrow> fr \<Rightarrow> fr" where
  "calldata_evaluation ws x = fold (\<lambda>word accumulator. accumulator * x + word) (rev ws) 0"

definition bind_calldata ::
    "(fr list \<Rightarrow> fr) \<Rightarrow> (byte list \<Rightarrow> byte list) \<Rightarrow> (byte list \<Rightarrow> byte list) \<Rightarrow> fr list \<Rightarrow>
     (calldata_binding, calldata_error) result" where
  "bind_calldata ps sha keccak ws =
     rbind (calldata_commitment ps sha ws) (\<lambda>commitment.
     rbind (calldata_challenge keccak ws commitment) (\<lambda>x.
       Ok \<lparr>cb_commitment = commitment, cb_y = calldata_evaluation ws x, cb_x = x\<rparr>))"

definition div_ceil :: "nat \<Rightarrow> nat \<Rightarrow> nat" where
  "div_ceil a b = a div b + (if a mod b = 0 then 0 else 1)"

definition bind_calldata_packed ::
    "(fr list \<Rightarrow> fr) \<Rightarrow> (byte list \<Rightarrow> byte list) \<Rightarrow> (byte list \<Rightarrow> byte list) \<Rightarrow> byte list \<Rightarrow>
     (calldata_binding, calldata_error) result" where
  "bind_calldata_packed ps sha keccak bytes =
     rbind (guard (max_calldata_words * 32 < length bytes) (TooManyWords (div_ceil (length bytes) 32))) (\<lambda>_.
     rbind (map_err PackedWords (fr_from_be_32_packed bytes)) (\<lambda>ws.
       bind_calldata ps sha keccak ws))"

section \<open>Evaluation\<close>

lemma calldata_evaluation_simps [simp]:
  "calldata_evaluation [] x = 0"
  "calldata_evaluation (w # ws) x = calldata_evaluation ws x * x + w"
  by (simp_all add: calldata_evaluation_def)

lemma calldata_evaluation_eq: "calldata_evaluation ws x = (\<Sum>i<length ws. ws ! i * x ^ i)"
proof (induction ws)
  case Nil
  then show ?case by simp
next
  case (Cons w ws)
  have "(\<Sum>i<length (w # ws). (w # ws) ! i * x ^ i) = w + (\<Sum>i<length ws. ws ! i * x ^ i) * x"
    by (simp add: sum.lessThan_Suc_shift sum_distrib_right mult.assoc mult.commute [of x] del: sum.lessThan_Suc)
  then show ?case using Cons.IH by simp
qed

section \<open>The binding\<close>

lemma check_word_count_Ok_iff: "check_word_count ws = Ok u \<longleftrightarrow> ws \<noteq> [] \<and> length ws \<le> 8192"
  by (auto simp: check_word_count_def max_calldata_words_def)

definition commitment_chain :: "(fr list \<Rightarrow> fr) \<Rightarrow> (byte list \<Rightarrow> byte list) \<Rightarrow> fr list \<Rightarrow> fr" where
  "commitment_chain ps sha ws =
     fold (absorb ps) (chunks 15 ws) (calldata_commitment_domain sha + fr_of_nat (length ws))"

lemma hashed_words: "fold (\<lambda>word hashed. hashed @ fr_to_be_32 word) ws acc = acc @ fr_to_be_32_packed ws"
  by (induction ws arbitrary: acc) (simp_all add: fr_to_be_32_packed_eq)

lemma bind_calldata_eq:
  "bind_calldata ps sha keccak ws =
    (if ws = [] then Err NoWords else if 8192 < length ws then Err (TooManyWords (length ws))
     else let c = commitment_chain ps sha ws;
              x = fr_from_be_bytes_mod (keccak (fr_to_be_32_packed (ws @ [c])))
          in Ok \<lparr>cb_commitment = c, cb_y = calldata_evaluation ws x, cb_x = x\<rparr>)"
  by (simp add: bind_calldata_def calldata_commitment_def calldata_challenge_def check_word_count_def
      hashed_words commitment_chain_def calldata_words_per_hash_def max_calldata_words_def Let_def
      fr_to_be_32_packed_eq)

lemma bind_calldata_no_Panic: "bind_calldata ps sha keccak ws \<noteq> Panic"
  by (simp add: bind_calldata_eq Let_def)

lemma bind_calldata_packed_roundtrip:
  "length ws \<le> 8192 \<Longrightarrow>
    bind_calldata_packed ps sha keccak (fr_to_be_32_packed ws) = bind_calldata ps sha keccak ws"
  by (simp add: bind_calldata_packed_def packed_roundtrip max_calldata_words_def)

text \<open>
  Equal commitments of equally long word lists are equal words, or one of the hash calls the
  two computations make in step is a collision.
\<close>

definition absorb_input :: "fr list \<Rightarrow> fr \<Rightarrow> fr list" where
  "absorb_input chunk state = state # chunk @ replicate (calldata_words_per_hash - length chunk) 0"

primrec absorb_inputs :: "(fr list \<Rightarrow> fr) \<Rightarrow> fr list list \<Rightarrow> fr \<Rightarrow> fr list list" where
  "absorb_inputs ps [] state = []"
| "absorb_inputs ps (chunk # rest) state =
     absorb_input chunk state # absorb_inputs ps rest (absorb ps chunk state)"

definition commitment_inputs :: "(fr list \<Rightarrow> fr) \<Rightarrow> (byte list \<Rightarrow> byte list) \<Rightarrow> fr list \<Rightarrow> fr list list" where
  "commitment_inputs ps sha ws =
     absorb_inputs ps (chunks 15 ws) (calldata_commitment_domain sha + fr_of_nat (length ws))"

lemma absorb_eq: "absorb ps chunk state = ps (absorb_input chunk state)"
  by (simp add: absorb_def absorb_input_def)

lemma absorb_input_inj:
  "length a = length b \<Longrightarrow> absorb_input a s = absorb_input b t \<longleftrightarrow> s = t \<and> a = b"
  by (auto simp: absorb_input_def)

lemma length_absorb_inputs [simp]: "length (absorb_inputs ps as s) = length as"
  by (induction as arbitrary: s) simp_all

lemma absorb_chain_binding:
  assumes "map length as = map length bs" and "fold (absorb ps) as s = fold (absorb ps) bs t"
  shows "(s = t \<and> as = bs) \<or> (\<exists>i < length as. absorb_inputs ps as s ! i \<noteq> absorb_inputs ps bs t ! i \<and>
    ps (absorb_inputs ps as s ! i) = ps (absorb_inputs ps bs t ! i))"
  using assms
proof (induction as arbitrary: bs s t)
  case Nil
  then show ?case by simp
next
  case (Cons a as)
  from Cons.prems(1) obtain b bs' where bs: "bs = b # bs'" and len: "length a = length b" "map length as = map length bs'"
    by (cases bs) auto
  have "fold (absorb ps) as (absorb ps a s) = fold (absorb ps) bs' (absorb ps b t)"
    using Cons.prems(2) bs by simp
  from Cons.IH [OF len(2) this] show ?case
  proof
    assume eq: "absorb ps a s = absorb ps b t \<and> as = bs'"
    then show ?thesis
      using absorb_input_inj [OF len(1), of s t] bs by (auto simp: absorb_eq intro!: exI [of _ 0])
  next
    assume "\<exists>i<length as. absorb_inputs ps as (absorb ps a s) ! i \<noteq> absorb_inputs ps bs' (absorb ps b t) ! i \<and>
      ps (absorb_inputs ps as (absorb ps a s) ! i) = ps (absorb_inputs ps bs' (absorb ps b t) ! i)"
    then obtain i where "i < length as" "absorb_inputs ps as (absorb ps a s) ! i \<noteq> absorb_inputs ps bs' (absorb ps b t) ! i"
      "ps (absorb_inputs ps as (absorb ps a s) ! i) = ps (absorb_inputs ps bs' (absorb ps b t) ! i)" by blast
    then show ?thesis using bs by (intro disjI2 exI [of _ "Suc i"]) simp
  qed
qed

lemma commitment_binding:
  assumes "length ws = length vs" and "commitment_chain ps sha ws = commitment_chain ps sha vs"
  shows "ws = vs \<or> (\<exists>i < length (commitment_inputs ps sha ws).
    commitment_inputs ps sha ws ! i \<noteq> commitment_inputs ps sha vs ! i \<and>
    ps (commitment_inputs ps sha ws ! i) = ps (commitment_inputs ps sha vs ! i))"
  using absorb_chain_binding [OF chunks_lengths_eq [OF assms(1), of 15], of ps] assms
  unfolding commitment_chain_def commitment_inputs_def length_absorb_inputs
  by (metis (no_types, lifting) concat_chunks zero_less_numeral)

lemma absorb_inputs_16:
  "\<forall>a \<in> set as. length a \<le> 15 \<Longrightarrow> i < length as \<Longrightarrow> length (absorb_inputs ps as s ! i) = 16"
proof (induction as arbitrary: i s)
  case (Cons a as)
  then show ?case by (cases i) (auto simp: absorb_input_def calldata_words_per_hash_def)
qed simp

lemma commitment_inputs_16:
  "i < length (commitment_inputs ps sha ws) \<Longrightarrow> length (commitment_inputs ps sha ws ! i) = 16"
  unfolding commitment_inputs_def length_absorb_inputs by (intro absorb_inputs_16 chunks_length)

section \<open>Properties\<close>

text \<open>
  What a proof is bound to: a list of 1 to 8192 words binds to its commitment, to the
  challenge - the Keccak digest of the words and the commitment, reduced - and to the value of
  the polynomial with the words as coefficients at that challenge; an empty or longer list is
  refused.  Nothing panics.
\<close>

theorem calldata_binding_values:
  "case bind_calldata ps sha keccak ws of
     Ok b \<Rightarrow> ws \<noteq> [] \<and> length ws \<le> 8192 \<and>
       Ok (cb_commitment b) = calldata_commitment ps sha ws \<and>
       cb_x b = fr_from_be_bytes_mod (keccak (concat (map fr_to_be_32 ws) @ fr_to_be_32 (cb_commitment b))) \<and>
       cb_y b = (\<Sum>i<length ws. ws ! i * cb_x b ^ i) \<and>
       public_signals b = [cb_commitment b, cb_y b, cb_x b]
   | Err e \<Rightarrow> e = (if ws = [] then NoWords else TooManyWords (length ws)) \<and> length ws \<notin> {1..8192}
   | Panic \<Rightarrow> False"
proof (cases "ws = [] \<or> 8192 < length ws")
  case True
  then show ?thesis by (auto simp: bind_calldata_eq)
next
  case False
  then show ?thesis
    by (simp add: bind_calldata_eq Let_def public_signals_def calldata_commitment_def check_word_count_def
        max_calldata_words_def commitment_chain_def calldata_words_per_hash_def fr_to_be_32_packed_eq
        calldata_evaluation_eq)
qed



text \<open>
  The packed entry is the same function on bytes: it accepts exactly the packed canonical
  encodings of 1 to 8192 words, and then binds these words; every other byte string is an
  error - too long before anything is decoded, a partial or non-canonical word, or no words.
\<close>

theorem calldata_packed_exact:
  "case bind_calldata_packed ps sha keccak bytes of
     Ok b \<Rightarrow> (\<exists>ws. bytes = fr_to_be_32_packed ws \<and> bind_calldata ps sha keccak ws = Ok b)
   | Err e \<Rightarrow> (\<nexists>ws b. bytes = fr_to_be_32_packed ws \<and> bind_calldata ps sha keccak ws = Ok b)
   | Panic \<Rightarrow> False"
proof -
  have len: "length ws \<le> 8192" if "bind_calldata ps sha keccak ws = Ok b" for ws b
    using that by (simp add: bind_calldata_eq split: if_splits)
  have "bind_calldata_packed ps sha keccak bytes = Ok b \<longleftrightarrow>
      (\<exists>ws. bytes = fr_to_be_32_packed ws \<and> bind_calldata ps sha keccak ws = Ok b)" for b
    by (auto simp: bind_calldata_packed_def rbind_Ok_iff packed_Ok_iff max_calldata_words_def dest: len)
  moreover have "bind_calldata_packed ps sha keccak bytes \<noteq> Panic"
    by (auto simp: bind_calldata_packed_def rbind_Panic_iff packed_no_Panic bind_calldata_no_Panic)
  ultimately show ?thesis by (cases "bind_calldata_packed ps sha keccak bytes") auto
qed

end
