(* ===== verification/Bound_Pending.thy ===== *)
theory Bound_Pending
  imports Notes_Tree Calldata
begin

text \<open>
  The calldata-bound pending commitment of
  \<open>crates/core/src/witness/bound_pending.rs\<close>: the generic builder over any
  \<open>AppendableNotesTree\<close>.  The builder takes the trait's operations as a record; what it
  guarantees is proved once in the locale \<open>notes_tree\<close> and instantiated for both trees.
\<close>

definition max_pending_batch_size :: nat where
  "max_pending_batch_size = 4096"

datatype pending_commitment_error =
    InvalidBatchSize nat
  | NoNotes
  | BatchTooLarge nat nat
  | ZeroNoteId
  | DuplicateNoteId
  | PackedNoteIds packed_fields_error
  | PendingTree tree_error
  | PendingBinding calldata_error

fun is_caller_error :: "pending_commitment_error \<Rightarrow> bool" where
  "is_caller_error (InvalidBatchSize _) = True"
| "is_caller_error NoNotes = True"
| "is_caller_error (BatchTooLarge _ _) = True"
| "is_caller_error ZeroNoteId = True"
| "is_caller_error DuplicateNoteId = True"
| "is_caller_error (PackedNoteIds _) = True"
| "is_caller_error (PendingTree e) = (e = DuplicateLeaf)"
| "is_caller_error (PendingBinding _) = False"

record bound_pending_commitment =
  bp_current_note_index :: nat
  bp_current_notes_root :: fr
  bp_pending_note_ids :: "fr list"
  bp_frontier :: "fr list"
  bp_new_notes_root :: fr
  bp_new_note_index :: nat
  bp_binding :: calldata_binding

text \<open>
  \<open>new_note_index - current_note_index\<close> is on \<open>u64\<close>: when it goes below zero it panics, or wraps
  to a bound past the end of the slice, which panics.
\<close>

definition bp_note_ids :: "bound_pending_commitment \<Rightarrow> (fr list, 'e) result" where
  "bp_note_ids b =
     rbind (rassert (bp_current_note_index b \<le> bp_new_note_index b)) (\<lambda>_.
       slice_to (bp_pending_note_ids b) (bp_new_note_index b - bp_current_note_index b))"

definition bound_pending_commitment_words ::
    "fr list \<Rightarrow> fr \<Rightarrow> fr \<Rightarrow> nat \<Rightarrow> nat \<Rightarrow> fr list" where
  "bound_pending_commitment_words pending_note_ids current_root new_root current_index new_index =
     pending_note_ids @ [current_root] @ [new_root] @ [fr_of_nat current_index] @ [fr_of_nat new_index]"

definition bp_words :: "bound_pending_commitment \<Rightarrow> fr list" where
  "bp_words b = bound_pending_commitment_words (bp_pending_note_ids b) (bp_current_notes_root b)
     (bp_new_notes_root b) (bp_current_note_index b) (bp_new_note_index b)"

text \<open>The circuit input: decimal strings in the field order of the circuit.\<close>

record bound_pending_input =
  bi_current_note_index :: "byte list"
  bi_current_notes_root :: "byte list"
  bi_pending_note_ids :: "byte list list"
  bi_frontier :: "byte list list"
  bi_x :: "byte list"

definition nat_to_dec :: "nat \<Rightarrow> byte list" where
  "nat_to_dec n = map (\<lambda>d. of_nat (48 + d)) (dec_digits n)"

definition bp_circuit_input :: "bound_pending_commitment \<Rightarrow> bound_pending_input" where
  "bp_circuit_input b = \<lparr>bi_current_note_index = nat_to_dec (bp_current_note_index b),
     bi_current_notes_root = fr_to_dec (bp_current_notes_root b),
     bi_pending_note_ids = map fr_to_dec (bp_pending_note_ids b),
     bi_frontier = map fr_to_dec (bp_frontier b),
     bi_x = fr_to_dec (cb_x (bp_binding b))\<rparr>"

definition check_batch_size :: "nat \<Rightarrow> (unit, pending_commitment_error) result" where
  "check_batch_size batch_size =
     (if 1 \<le> batch_size \<and> batch_size \<le> max_pending_batch_size then Ok ()
      else Err (InvalidBatchSize batch_size))"

text \<open>\<open>note_ids.iter().all(|note_id| seen.insert(*note_id))\<close>.\<close>

fun all_fresh :: "'a list \<Rightarrow> 'a set \<Rightarrow> bool" where
  "all_fresh [] seen = True"
| "all_fresh (x # xs) seen = (if x \<in> seen then False else all_fresh xs (insert x seen))"

definition build_bound_pending_commitment ::
    "(fr list \<Rightarrow> fr) \<Rightarrow> (byte list \<Rightarrow> byte list) \<Rightarrow> (byte list \<Rightarrow> byte list) \<Rightarrow>
     ('s, fr) notes_tree_ops \<Rightarrow> nat \<Rightarrow> fr list \<Rightarrow>
     ('s, bound_pending_commitment, pending_commitment_error) sm" where
  "build_bound_pending_commitment ps sha keccak ops batch_size note_ids =
     sbind (slift (check_batch_size batch_size)) (\<lambda>_.
     sbind (slift (guard (note_ids = []) NoNotes)) (\<lambda>_.
     sbind (slift (guard (batch_size < length note_ids) (BatchTooLarge (length note_ids) batch_size))) (\<lambda>_.
     sbind (slift (guard (0 \<in> set note_ids) ZeroNoteId)) (\<lambda>_.
     sbind (slift (guard (\<not> all_fresh note_ids {}) DuplicateNoteId)) (\<lambda>_.
       let pending_note_ids = resize note_ids batch_size 0 in
     (\<lambda>tree.
     sbind (slift (map_err PendingTree (nt_root ops tree))) (\<lambda>current_notes_root.
       let current_note_index = nt_leaf_count ops tree in
     sbind (slift (map_err PendingTree (nt_next_leaf_frontier ops tree))) (\<lambda>frontier.
     sbind (smap_err PendingTree (nt_append_all ops note_ids)) (\<lambda>_.
     (\<lambda>tree.
     sbind (slift (map_err PendingTree (nt_root ops tree))) (\<lambda>new_notes_root.
       let new_note_index = nt_leaf_count ops tree in
     sbind (slift (map_err PendingBinding (bind_calldata ps sha keccak
              (bound_pending_commitment_words pending_note_ids current_notes_root new_notes_root
                 current_note_index new_note_index)))) (\<lambda>binding.
       sret \<lparr>bp_current_note_index = current_note_index, bp_current_notes_root = current_notes_root,
             bp_pending_note_ids = pending_note_ids, bp_frontier = frontier,
             bp_new_notes_root = new_notes_root, bp_new_note_index = new_note_index,
             bp_binding = binding\<rparr>)) tree)))) tree))))))"

definition build_bound_pending_commitment_packed ::
    "(fr list \<Rightarrow> fr) \<Rightarrow> (byte list \<Rightarrow> byte list) \<Rightarrow> (byte list \<Rightarrow> byte list) \<Rightarrow>
     ('s, fr) notes_tree_ops \<Rightarrow> nat \<Rightarrow> byte list \<Rightarrow>
     ('s, bound_pending_commitment, pending_commitment_error) sm" where
  "build_bound_pending_commitment_packed ps sha keccak ops batch_size packed_note_ids =
     sbind (slift (check_batch_size batch_size)) (\<lambda>_.
     sbind (slift (guard (batch_size * 32 < length packed_note_ids)
              (BatchTooLarge (div_ceil (length packed_note_ids) 32) batch_size))) (\<lambda>_.
     sbind (slift (map_err PackedNoteIds (fr_from_be_32_packed packed_note_ids))) (\<lambda>note_ids.
       build_bound_pending_commitment ps sha keccak ops batch_size note_ids)))"

section \<open>The request\<close>

lemma all_fresh_iff: "all_fresh xs seen \<longleftrightarrow> distinct xs \<and> set xs \<inter> seen = {}"
  by (induction xs arbitrary: seen) auto

text \<open>What the checks before the tree is touched refuse.\<close>

definition request_error :: "nat \<Rightarrow> fr list \<Rightarrow> pending_commitment_error option" where
  "request_error batch_size ids =
     (if \<not> (1 \<le> batch_size \<and> batch_size \<le> 4096) then Some (InvalidBatchSize batch_size)
      else if ids = [] then Some NoNotes
      else if batch_size < length ids then Some (BatchTooLarge (length ids) batch_size)
      else if 0 \<in> set ids then Some ZeroNoteId
      else if \<not> distinct ids then Some DuplicateNoteId
      else None)"

text \<open>The commitment for a batch on top of a log.\<close>

definition pending_of ::
    "(fr list \<Rightarrow> fr) \<Rightarrow> (byte list \<Rightarrow> byte list) \<Rightarrow> (byte list \<Rightarrow> byte list) \<Rightarrow>
     nat \<Rightarrow> nat \<Rightarrow> fr list \<Rightarrow> fr list \<Rightarrow> (bound_pending_commitment, calldata_error) result" where
  "pending_of ps sha keccak batch_size d xs ids =
     (let padded_ids = resize ids batch_size 0;
          old_root = merkle_root ps 0 d xs; new_root = merkle_root ps 0 d (xs @ ids);
          n = length xs; n' = length (xs @ ids)
      in rbind (bind_calldata ps sha keccak
                  (bound_pending_commitment_words padded_ids old_root new_root n n')) (\<lambda>binding.
           Ok \<lparr>bp_current_note_index = n, bp_current_notes_root = old_root,
               bp_pending_note_ids = padded_ids, bp_frontier = next_frontier ps (padded 0 xs) d n,
               bp_new_notes_root = new_root, bp_new_note_index = n', bp_binding = binding\<rparr>))"

lemma words_bind:
  assumes "batch_size \<le> 4096"
  shows "\<exists>b. bind_calldata ps sha keccak
    (bound_pending_commitment_words (resize ids batch_size 0) r r' n n') = Ok b"
  using assms by (simp add: bind_calldata_eq bound_pending_commitment_words_def Let_def)

lemma pending_of_Ok: "batch_size \<le> 4096 \<Longrightarrow> \<exists>b. pending_of ps sha keccak batch_size d xs ids = Ok b"
  using words_bind [of batch_size ps sha keccak ids "merkle_root ps 0 d xs"
      "merkle_root ps 0 d (xs @ ids)" "length xs" "length (xs @ ids)"]
  by (auto simp: pending_of_def Let_def)

section \<open>The builder over the trait's contract\<close>

lemma pending_refused:
  "request_error batch_size ids = Some e \<Longrightarrow>
    build_bound_pending_commitment ps sha keccak ops batch_size ids s = (Err e, s)"
  by (auto simp: request_error_def build_bound_pending_commitment_def sm_simps check_batch_size_def
      max_pending_batch_size_def all_fresh_iff guard_def split: if_splits)

lemma pending_accepted:
  assumes "request_error batch_size ids = None"
  shows "1 \<le> batch_size" "batch_size \<le> 4096" "ids \<noteq> []" "length ids \<le> batch_size" "0 \<notin> set ids" "distinct ids"
  using assms by (auto simp: request_error_def split: if_splits)

locale fr_notes_tree = notes_tree ps ops rep admits
  for ps :: "fr list \<Rightarrow> fr" and ops :: "('s, fr) notes_tree_ops"
    and rep :: "'s \<Rightarrow> nat \<Rightarrow> fr list \<Rightarrow> bool" and admits :: "fr list \<Rightarrow> fr list \<Rightarrow> bool"
begin

lemma pending_root_err: "map_err f (nt_root ops s) = Ok r \<longleftrightarrow> nt_root ops s = Ok r"
  by simp

text \<open>A request that passes the checks meets the tree: it is full, or refuses, or accepts.\<close>

lemma pending_tree_error:
  assumes "request_error batch_size ids = None" and "rep s d xs"
    and "\<not> (length (xs @ ids) \<le> 2 ^ d \<and> admits xs ids)"
  shows "build_bound_pending_commitment ps sha keccak ops batch_size ids s =
    (Err (PendingTree (if length (xs @ ids) \<le> 2 ^ d then DuplicateLeaf else TreeFull d)), s)"
proof -
  note req = pending_accepted [OF assms(1)]
  have head: "build_bound_pending_commitment ps sha keccak ops batch_size ids s = (Err (PendingTree e), s)"
    if "nt_next_leaf_frontier ops s = Err e \<or>
      (\<exists>fr. nt_next_leaf_frontier ops s = Ok fr) \<and> nt_append_all ops ids s = (Err e, s)" for e
    using that req root [OF assms(2)]
    by (auto simp: build_bound_pending_commitment_def sm_simps check_batch_size_def
        max_pending_batch_size_def all_fresh_iff Let_def)
  show ?thesis
  proof (cases "length xs = 2 ^ d")
    case True
    then show ?thesis using head [of "TreeFull d"] next_frontier_full [OF assms(2)] req by simp
  next
    case False
    then have "nt_next_leaf_frontier ops s = Ok (next_frontier ps (padded 0 xs) d (length xs))"
      using next_frontier [OF assms(2)] rep_fits [OF assms(2)] by simp
    then show ?thesis
      using head append_full [OF assms(2), of ids] append_dup [OF assms(2), of ids] assms(3) by auto
  qed
qed

lemma pending_ok:
  assumes "request_error batch_size ids = None" and "rep s d xs"
    and "length (xs @ ids) \<le> 2 ^ d" and "admits xs ids"
  shows "\<exists>s' b. build_bound_pending_commitment ps sha keccak ops batch_size ids s = (Ok b, s') \<and>
    rep s' d (xs @ ids) \<and> pending_of ps sha keccak batch_size d xs ids = Ok b"
proof -
  note req = pending_accepted [OF assms(1)]
  have "length xs < 2 ^ d" using req assms(3) by (cases ids) auto
  note front = next_frontier [OF assms(2) this]
  obtain s' where s': "nt_append_all ops ids s = (Ok (), s')" "rep s' d (xs @ ids)"
    using append_ok [OF assms(2-4)] by blast
  obtain b where b: "pending_of ps sha keccak batch_size d xs ids = Ok b"
    using pending_of_Ok [OF req(2)] by blast
  then obtain bd where bd: "bind_calldata ps sha keccak (bound_pending_commitment_words (resize ids batch_size 0)
      (merkle_root ps 0 d xs) (merkle_root ps 0 d (xs @ ids)) (length xs) (length (xs @ ids))) = Ok bd"
    by (auto simp: pending_of_def Let_def rbind_Ok_iff)
  have "build_bound_pending_commitment ps sha keccak ops batch_size ids s = (Ok b, s')"
    using req front s' b bd root [OF assms(2)] root [OF s'(2)] leaf_count [OF assms(2)] leaf_count [OF s'(2)]
    by (simp add: build_bound_pending_commitment_def sm_simps check_batch_size_def
        max_pending_batch_size_def all_fresh_iff Let_def pending_of_def)
  then show ?thesis using s'(2) b by blast
qed

text \<open>Every error leaves the tree unchanged, and nothing panics.\<close>

lemma pending_all_or_none:
  assumes "rep s d xs"
  shows "(\<exists>b s'. build_bound_pending_commitment ps sha keccak ops batch_size ids s = (Ok b, s') \<and>
      rep s' d (xs @ ids) \<and> pending_of ps sha keccak batch_size d xs ids = Ok b) \<or>
    (\<exists>e. build_bound_pending_commitment ps sha keccak ops batch_size ids s = (Err e, s))"
proof (cases "request_error batch_size ids")
  case None
  then show ?thesis
    using pending_ok [OF None assms] pending_tree_error [OF None assms] by blast
next
  case (Some e)
  then show ?thesis using pending_refused [OF Some, of ps sha keccak ops s] by blast
qed

end

interpretation indexed_fr: fr_notes_tree ps "indexed_ops ps" "indexed_rep ps" indexed_admits
  for ps :: "fr list \<Rightarrow> fr"
  by unfold_locales

interpretation frontier_fr: fr_notes_tree ps "frontier_ops ps" "frontier_rep ps sh" frontier_admits
  for ps :: "fr list \<Rightarrow> fr" and sh
  by unfold_locales

section \<open>What the contract is sent\<close>

lemma pending_of_note_ids:
  assumes "pending_of ps sha keccak batch_size d xs ids = Ok b" and "length ids \<le> batch_size"
  shows "bp_note_ids b = Ok ids"
  using assms by (auto simp: pending_of_def Let_def rbind_Ok_iff bp_note_ids_def slice_to_def resize_def)

lemma pending_of_binding:
  assumes "pending_of ps sha keccak batch_size d xs ids = Ok b"
  shows "bind_calldata ps sha keccak (bp_words b) = Ok (bp_binding b)"
  using assms by (auto simp: pending_of_def Let_def rbind_Ok_iff bp_words_def)

lemma pending_packed_eq:
  assumes "check_batch_size batch_size = Ok ()" and "length ids \<le> batch_size"
  shows "build_bound_pending_commitment_packed ps sha keccak ops batch_size (fr_to_be_32_packed ids) =
    build_bound_pending_commitment ps sha keccak ops batch_size ids"
  using assms
  by (intro ext) (simp add: build_bound_pending_commitment_packed_def sm_simps packed_roundtrip)

lemma pending_of_fields:
  assumes "pending_of ps sha keccak batch_size d xs ids = Ok b"
  shows "bp_current_note_index b = length xs" "bp_new_note_index b = length xs + length ids"
    "bp_current_notes_root b = merkle_root ps 0 d xs" "bp_new_notes_root b = merkle_root ps 0 d (xs @ ids)"
    "bp_pending_note_ids b = resize ids batch_size 0" "bp_frontier b = next_frontier ps (padded 0 xs) d (length xs)"
  using assms by (auto simp: pending_of_def Let_def rbind_Ok_iff)

section \<open>Properties\<close>



text \<open>
  C9: A commitment that is returned is bound to the batch: the contract is sent exactly the
  ids requested, the words bound are the padded batch, the roots before and after and the two
  indices, the binding is that of these words, packed input gives the same result, and every
  decimal field of the circuit input parses back to the value it stands for.
\<close>

theorem pending_commitment_binds_the_batch:
  assumes "frontier_fits d sh xs"
    and "build_bound_pending_commitment ps sha keccak (frontier_ops ps) batch_size ids (frontier_of ps d sh xs) = (Ok b, t)"
  shows "bp_note_ids b = Ok ids \<and> t = frontier_of ps d sh (xs @ ids) \<and>
    Ok (bp_current_notes_root b) = frontier_root ps (frontier_of ps d sh xs) \<and>
    Ok (bp_new_notes_root b) = frontier_root ps t \<and>
    Ok (bp_frontier b) = frontier_next_leaf_frontier (frontier_of ps d sh xs) \<and>
    bp_words b = ids @ replicate (batch_size - length ids) 0 @ [bp_current_notes_root b, bp_new_notes_root b,
      fr_of_nat (length xs), fr_of_nat (length (xs @ ids))] \<and>
    bind_calldata ps sha keccak (bp_words b) = Ok (bp_binding b) \<and>
    build_bound_pending_commitment_packed ps sha keccak (frontier_ops ps) batch_size (fr_to_be_32_packed ids)
      (frontier_of ps d sh xs) = (Ok b, t) \<and>
    map bn254_try_from_dec (bi_current_notes_root (bp_circuit_input b) # bi_x (bp_circuit_input b) #
      bi_pending_note_ids (bp_circuit_input b) @ bi_frontier (bp_circuit_input b)) =
    map Ok (bp_current_notes_root b # cb_x (bp_binding b) # bp_pending_note_ids b @ bp_frontier b)"
proof -
  have F: "frontier_rep ps sh (frontier_of ps d sh xs) d xs" using assms(1) by (simp add: frontier_rep_def)
  have req: "request_error batch_size ids = None"
    using pending_refused [of batch_size ids _ ps sha keccak "frontier_ops ps"] assms(2)
    by (cases "request_error batch_size ids") simp_all
  have fit: "length (xs @ ids) \<le> 2 ^ d"
    using frontier_fr.pending_tree_error [OF req F, of sha keccak] assms(2) by fastforce
  have b: "pending_of ps sha keccak batch_size d xs ids = Ok b" "t = frontier_of ps d sh (xs @ ids)"
    using frontier_fr.pending_ok [OF req F fit, of sha keccak] assms(2)
    by (auto simp: frontier_admits_def frontier_rep_def)
  note r = pending_accepted [OF req]
  have "length xs < 2 ^ d" using r(3) fit by (cases ids) auto
  then show ?thesis
    using assms b r fit pending_of_binding [OF b(1)] pending_of_note_ids [OF b(1) r(4)]
      pending_packed_eq [of batch_size ids ps sha keccak "frontier_ops ps"]
    by (simp add: pending_of_fields [OF b(1)] bp_words_def bound_pending_commitment_words_def resize_def
        check_batch_size_def max_pending_batch_size_def frontier_root_eq frontier_next_leaf_frontier_eq
        frontier_fits_def bp_circuit_input_def bn254_dec_roundtrip comp_def)
qed

theorem pending_commitment_binds_the_batch_witness:
  "\<exists>b t. build_bound_pending_commitment sum_list id id (frontier_ops sum_list) 2 [7] (frontier_of sum_list 2 1 [5 :: fr]) =
    (Ok b, t) \<and> bp_note_ids b = Ok [7]"
proof -
  have F: "frontier_rep sum_list 1 (frontier_of sum_list 2 1 [5 :: fr]) 2 [5]"
    by (simp add: frontier_rep_def frontier_fits_def)
  have "request_error 2 [7 :: fr] = None" by (simp add: request_error_def fr_modulus_def)
  from frontier_fr.pending_ok [OF this F, of id id] obtain b t where
    "build_bound_pending_commitment sum_list id id (frontier_ops sum_list) 2 [7] (frontier_of sum_list 2 1 [5 :: fr]) = (Ok b, t)"
    by (auto simp: frontier_admits_def)
  then show ?thesis using pending_commitment_binds_the_batch [of 2 1 "[5 :: fr]" sum_list id id 2 "[7]" b t]
    by (auto simp: frontier_fits_def)
qed

end
