(* ===== verification/Scalars.thy ===== *)
theory Scalars
  imports Field_Codec "HOL-Library.FuncSet"
begin

text \<open>
  Scalars of the BabyJubJub subgroup: the checked imports of \<open>crates/core/src/babyjubjub.rs\<close>
  (\<open>BabyJubScalar\<close>, \<open>BabyJubSecretScalar\<close>), the fixed-width arithmetic of
  \<open>crates/core/src/secret_arithmetic.rs\<close> and the key clamping of \<open>crates/core/src/eddsa.rs\<close>.
  A \<open>BabyJubScalar\<close> is a natural number, a \<open>BabyJubSecretScalar\<close> its 32 little-endian
  bytes.  crypto-bigint's Montgomery forms are residues: \<open>S::new(n)\<close> followed by \<open>retrieve\<close>
  is \<open>n mod order\<close>.  The lemmas show that every import accepts exactly the canonical
  scalars, that nonces are drawn without bias, and that the byte-wise shift of the clamped
  key is the division by eight.
\<close>

section \<open>Constants\<close>

text \<open>\<open>SUB_ORDER\<close> is written in decimal, \<open>ORDER\<close> and \<open>NONCE_LIMIT\<close> in hexadecimal.\<close>

definition sub_order :: nat where
  "sub_order = 2736030358979909402780800718157159386076813972158567259200215660948447373041"

definition order :: nat where
  "order = 0x060c89ce5c263405370a08b6d0302b0bab3eedb83920ee0a677297dc392126f1"

definition nonce_limit :: nat where
  "nonce_limit = 0xfffffffffffffffffffffffffffffffffffffffffffffffffffffffffffffffffbba4adb0e45af571b8d20dfc055ea708b9b93530a07b13bca1bb54118134de2"

lemma order_eq: "order = sub_order"
  by (simp add: order_def sub_order_def)

lemma sub_order_bounds [simp]: "0 < sub_order" "1 < sub_order" "sub_order < 256 ^ 32" "sub_order < 10 ^ 76"
  by (simp_all add: sub_order_def)

lemma nonce_limit_eq: "nonce_limit = 2 ^ 512 div sub_order * sub_order"
  by (simp add: nonce_limit_def sub_order_def)

section \<open>Checked scalars\<close>

datatype baby_jub_error =
    InvalidScalarDecimal
  | NonCanonicalScalarDecimal
  | ScalarOutOfRange
  | ZeroSecretScalar
  | InvalidCoordinate bn254_fr_error
  | PointNotOnCurve
  | PointNotInSubgroup
  | IdentityPoint

text \<open>The errors of \<open>crates/core/src/eddsa.rs\<close>.\<close>

datatype scalar_signature_error =
    InvalidKey baby_jub_error
  | InvalidSeedKey hex_decode_error
  | PublicKeyMismatch
  | NonceCounterExhausted
  | InternalVerificationFailed
  | UnsupportedNoteCount nat nat nat

definition is_ascii_digit :: "byte \<Rightarrow> bool" where
  "is_ascii_digit b \<longleftrightarrow> 48 \<le> b \<and> b \<le> 57"

text \<open>\<open>BigUint::parse_bytes(s, 10)\<close> of a non-empty string of digits is its value.\<close>

definition parse_scalar_decimal :: "byte list \<Rightarrow> (nat, baby_jub_error) result" where
  "parse_scalar_decimal s =
     rbind (guard (s = [] \<or> \<not> list_all is_ascii_digit s) InvalidScalarDecimal) (\<lambda>_.
     rbind (guard (1 < length s \<and> hd s = 48) NonCanonicalScalarDecimal) (\<lambda>_.
     rbind (guard (76 < length s) ScalarOutOfRange) (\<lambda>_.
       Ok (horner10 0 (digit_vals s)))))"

definition scalar_from_biguint :: "nat \<Rightarrow> (nat, baby_jub_error) result" where
  "scalar_from_biguint v = (if sub_order \<le> v then Err ScalarOutOfRange else Ok v)"

definition scalar_try_from_dec :: "byte list \<Rightarrow> (nat, baby_jub_error) result" where
  "scalar_try_from_dec s = rbind (parse_scalar_decimal s) scalar_from_biguint"

definition scalar_try_from_le_bytes :: "byte list \<Rightarrow> (nat, baby_jub_error) result" where
  "scalar_try_from_le_bytes bytes = scalar_from_biguint (nat_of_le bytes)"

definition scalar_to_le_32 :: "nat \<Rightarrow> (byte list, baby_jub_error) result" where
  "scalar_to_le_32 v =
     (let bytes = to_bytes_le v
      in rbind (rassert (length bytes \<le> 32)) (\<lambda>_. Ok (bytes @ replicate (32 - length bytes) 0)))"

definition scalar_to_dec :: "nat \<Rightarrow> byte list" where
  "scalar_to_dec v = map (\<lambda>d. of_nat (48 + d)) (dec_digits v)"

section \<open>Fixed-width arithmetic\<close>

definition valid_secret :: "byte list \<Rightarrow> bool" where
  "valid_secret bytes = (let n = nat_of_le bytes in n < order \<and> n \<noteq> 0)"

definition reduce_wide :: "byte list \<Rightarrow> byte list" where
  "reduce_wide bytes =
     (let n = nat_of_le bytes;
          v = n mod order;
          reduced = nat_to_le 64 v
      in take 32 reduced)"

definition nonce_candidate :: "byte list \<Rightarrow> byte list option" where
  "nonce_candidate bytes =
     (let n = nat_of_le bytes
      in if \<not> n < nonce_limit then None
         else let reduced = reduce_wide bytes
              in if \<not> valid_secret reduced then None else Some reduced)"

text \<open>Each operand is reduced on entry to the Montgomery domain, each operation inside it.\<close>

definition scalar_response :: "byte list \<Rightarrow> fr \<Rightarrow> byte list \<Rightarrow> nat \<Rightarrow> byte list" where
  "scalar_response nonce challenge secret cofactor =
     (let r = nat_of_le nonce mod order;
          key = nat_of_le secret mod order;
          h = fr_rep challenge mod order;
          result = (r + (h * (cofactor mod order) mod order) * key mod order) mod order
      in nat_to_le 32 result)"

section \<open>Secret scalars\<close>

definition secret_from_biguint :: "nat \<Rightarrow> (byte list, baby_jub_error) result" where
  "secret_from_biguint v =
     rbind (scalar_from_biguint v) (\<lambda>scalar.
     rbind (guard (scalar = 0) ZeroSecretScalar) (\<lambda>_. scalar_to_le_32 scalar))"

definition secret_try_from_dec :: "byte list \<Rightarrow> (byte list, baby_jub_error) result" where
  "secret_try_from_dec s =
     rbind (map_err (\<lambda>e. case e of DecInvalid \<Rightarrow> InvalidScalarDecimal | DecOutOfRange \<Rightarrow> ScalarOutOfRange)
              (try_decimal_bytes_to_le_32 s)) (\<lambda>bytes.
     rbind (guard (1 < length s \<and> hd s = 48) NonCanonicalScalarDecimal) (\<lambda>_.
       if \<not> valid_secret bytes
       then Err (if bytes = replicate 32 0 then ZeroSecretScalar else ScalarOutOfRange)
       else Ok bytes))"

definition secret_try_from_le_bytes :: "byte list \<Rightarrow> (byte list, baby_jub_error) result" where
  "secret_try_from_le_bytes bytes =
     (if \<not> valid_secret bytes
      then (let zero = (fold or bytes 0 = 0)
            in Err (if zero then ZeroSecretScalar else ScalarOutOfRange))
      else Ok bytes)"

definition secret_to_biguint :: "byte list \<Rightarrow> nat" where
  "secret_to_biguint bytes = nat_of_le bytes"

definition secret_to_dec :: "byte list \<Rightarrow> byte list" where
  "secret_to_dec bytes = scalar_to_dec (secret_to_biguint bytes)"

section \<open>Key clamping\<close>

definition prune_buffer :: "byte list \<Rightarrow> byte list" where
  "prune_buffer b =
     (let b = b[0 := and (b ! 0) 0xf8];
          b = b[31 := and (b ! 31) 0x7f];
          b = b[31 := or (b ! 31) 0x40]
      in b)"

text \<open>
  The loop \<open>scalar[i] = (scalar[i] >> 3) | (scalar[i + 1] << 5)\<close> for the first 31 bytes, then
  \<open>scalar[31] >>= 3\<close>.
\<close>

definition shift_step :: "nat \<Rightarrow> byte list \<Rightarrow> byte list" where
  "shift_step i scalar = scalar[i := or (drop_bit 3 (scalar ! i)) (push_bit 5 (scalar ! (i + 1)))]"

definition shift_right_3 :: "byte list \<Rightarrow> byte list" where
  "shift_right_3 scalar =
     (let scalar = fold shift_step [0..<31] scalar
      in scalar[31 := drop_bit 3 (scalar ! 31)])"

definition pruned_scalar_buffer :: "(byte list \<Rightarrow> byte list) \<Rightarrow> byte list \<Rightarrow> byte list" where
  "pruned_scalar_buffer blake private_key = prune_buffer (take 32 (blake private_key))"

definition derive_secret_scalar :: "(byte list \<Rightarrow> byte list) \<Rightarrow> byte list \<Rightarrow> nat" where
  "derive_secret_scalar blake private_key =
     (let pruned = pruned_scalar_buffer blake private_key
      in (nat_of_le pruned div 2 ^ 3) mod sub_order)"

section \<open>Imports accept the canonical scalars\<close>

lemma is_ascii_digit_iff: "is_ascii_digit b \<longleftrightarrow> unat (ascii_digit b) < 10"
proof -
  have "unat (ascii_digit b) = (if 48 \<le> unat b then unat b - 48 else unat b + 208)"
    by (simp add: ascii_digit_def unat_sub_if_size word_le_nat_alt word_size)
  then show ?thesis
    using unat_byte_less [of b] by (auto simp: is_ascii_digit_def word_le_nat_alt)
qed

lemma list_all_ascii: "list_all is_ascii_digit s \<longleftrightarrow> all_digits s"
  by (induction s) (simp_all add: is_ascii_digit_iff)

lemma scalar_try_from_le_bytes_Ok_iff:
  "scalar_try_from_le_bytes bytes = Ok v \<longleftrightarrow> v = nat_of_le bytes \<and> v < sub_order"
  by (auto simp: scalar_try_from_le_bytes_def scalar_from_biguint_def)

lemma scalar_to_le_32_eq: "v < sub_order \<Longrightarrow> scalar_to_le_32 v = Ok (nat_to_le 32 v)"
proof -
  assume "v < sub_order"
  then have "v < 256 ^ 32" using sub_order_bounds(3) by (rule less_trans)
  then have "length (to_bytes_le v) \<le> 32" by (simp only: length_to_bytes_le)
  then show ?thesis by (simp add: scalar_to_le_32_def Let_def le_pad_eq)
qed

lemma scalar_le_roundtrip:
  "v < sub_order \<Longrightarrow> rbind (scalar_to_le_32 v) scalar_try_from_le_bytes = Ok v"
  using less_trans [OF _ sub_order_bounds(3), of v]
  by (simp add: scalar_to_le_32_eq scalar_try_from_le_bytes_Ok_iff)

lemma all_digits_dec: "all_digits (scalar_to_dec v)" "digit_vals (scalar_to_dec v) = dec_digits v"
  unfolding scalar_to_dec_def using dec_digits_less [of v] all_digits_render digit_vals_render by blast+

text \<open>The digits of a canonical decimal: no sign, no leading zero.\<close>

lemma dec_digits_unique:
  "\<forall>d \<in> set ds. d < 10 \<Longrightarrow> ds \<noteq> [] \<Longrightarrow> (1 < length ds \<longrightarrow> hd ds \<noteq> 0) \<Longrightarrow> dec_digits (horner10 0 ds) = ds"
proof (induction ds rule: rev_induct)
  case Nil
  then show ?case by simp
next
  case (snoc d ds)
  show ?case
  proof (cases "ds = []")
    case True
    with snoc.prems show ?thesis by (simp add: dec_digits.simps)
  next
    case False
    have hd: "hd ds \<noteq> 0" using snoc.prems False by (cases ds) auto
    have IH: "dec_digits (horner10 0 ds) = ds" using snoc hd False by auto
    have "0 < horner10 0 ds"
      using hd False horner10_mono [of "hd ds" "tl ds"] by (cases ds) auto
    then have "\<not> horner10 0 (ds @ [d]) < 10" using snoc.prems by simp
    moreover have "horner10 0 (ds @ [d]) div 10 = horner10 0 ds" "horner10 0 (ds @ [d]) mod 10 = d"
      using snoc.prems by simp_all
    ultimately show ?thesis using IH by (subst dec_digits.simps) simp
  qed
qed

lemma render_digit_vals:
  "all_digits s \<Longrightarrow> map (\<lambda>d. of_nat (48 + d)) (digit_vals s) = s"
  by (induction s) (simp_all add: ascii_digit_def)

lemma canonical_decimal:
  assumes "all_digits s" and "s \<noteq> []" and "\<not> (1 < length s \<and> hd s = 48)"
  shows "scalar_to_dec (horner10 0 (digit_vals s)) = s"
proof -
  have "1 < length (digit_vals s) \<longrightarrow> hd (digit_vals s) \<noteq> 0"
  proof (intro impI notI)
    assume "1 < length (digit_vals s)" and z: "hd (digit_vals s) = 0"
    then obtain c cs where s: "s = c # cs" using assms(2) by (cases s) auto
    then have "ascii_digit c = 0" using z by (simp add: unat_eq_0)
    then have "c = 48" by (simp add: ascii_digit_def)
    with s assms(3) \<open>1 < length (digit_vals s)\<close> show False by simp
  qed
  moreover have "\<forall>d \<in> set (digit_vals s). d < 10" using assms(1) by (induction s) auto
  moreover have "digit_vals s \<noteq> []" using assms(2) by (cases s) auto
  ultimately have "dec_digits (horner10 0 (digit_vals s)) = digit_vals s" by (intro dec_digits_unique) auto
  then show ?thesis using assms(1) by (simp add: scalar_to_dec_def render_digit_vals del: of_nat_add)
qed

lemma scalar_to_dec_facts:
  "all_digits (scalar_to_dec v)" "scalar_to_dec v \<noteq> []" "\<not> (1 < length (scalar_to_dec v) \<and> hd (scalar_to_dec v) = 48)"
  "horner10 0 (digit_vals (scalar_to_dec v)) = v"
proof -
  show "all_digits (scalar_to_dec v)" "scalar_to_dec v \<noteq> []" "horner10 0 (digit_vals (scalar_to_dec v)) = v"
    by (simp_all add: all_digits_dec) (simp add: scalar_to_dec_def)
  show "\<not> (1 < length (scalar_to_dec v) \<and> hd (scalar_to_dec v) = 48)"
  proof (intro notI, elim conjE)
    assume len: "1 < length (scalar_to_dec v)" and hd: "hd (scalar_to_dec v) = 48"
    have "hd (digit_vals (scalar_to_dec v)) = unat (ascii_digit (hd (scalar_to_dec v)))"
      using len by (cases "scalar_to_dec v") auto
    then have "hd (dec_digits v) = 0" using hd by (simp add: all_digits_dec ascii_digit_def)
    then have "v = 0" using hd_dec_digits [of v] by auto
    then show False using len by (simp add: scalar_to_dec_def dec_digits.simps)
  qed
qed

lemma length_scalar_to_dec: "v < sub_order \<Longrightarrow> length (scalar_to_dec v) \<le> 76"
  using length_dec_digits [of v 76] less_trans [OF _ sub_order_bounds(4), of v] by (simp add: scalar_to_dec_def)

lemma scalar_try_from_dec_Ok_iff:
  "scalar_try_from_dec s = Ok v \<longleftrightarrow> s = scalar_to_dec v \<and> v < sub_order"
proof
  assume "scalar_try_from_dec s = Ok v"
  then show "s = scalar_to_dec v \<and> v < sub_order"
    using canonical_decimal [of s]
    by (auto simp: scalar_try_from_dec_def parse_scalar_decimal_def rbind_Ok_iff list_all_ascii
        scalar_from_biguint_def split: if_splits)
next
  assume "s = scalar_to_dec v \<and> v < sub_order"
  then show "scalar_try_from_dec s = Ok v"
    using scalar_to_dec_facts [of v] length_scalar_to_dec [of v]
    by (simp add: scalar_try_from_dec_def parse_scalar_decimal_def rbind_Ok_iff list_all_ascii
        scalar_from_biguint_def)
qed

lemma le_32_unique: "length bytes = 32 \<Longrightarrow> nat_to_le 32 (nat_of_le bytes) = bytes"
  using nat_to_le_of_le [of bytes] by simp

lemma valid_secret_iff: "valid_secret bytes \<longleftrightarrow> 0 < nat_of_le bytes \<and> nat_of_le bytes < sub_order"
  by (auto simp: valid_secret_def order_eq Let_def)

lemma less_order_256: "v < sub_order \<Longrightarrow> v < 256 ^ 32"
  by (erule less_trans) (rule sub_order_bounds(3))

lemma secret_from_biguint_Ok_iff:
  "secret_from_biguint v = Ok bytes \<longleftrightarrow> 0 < v \<and> v < sub_order \<and> bytes = nat_to_le 32 v"
  by (auto simp: secret_from_biguint_def rbind_Ok_iff scalar_from_biguint_def scalar_to_le_32_eq)

lemma secret_try_from_le_bytes_Ok_iff:
  "secret_try_from_le_bytes bytes = Ok b \<longleftrightarrow> b = bytes \<and> 0 < nat_of_le bytes \<and> nat_of_le bytes < sub_order"
  by (auto simp: secret_try_from_le_bytes_def valid_secret_iff Let_def)

lemma fold_or_zero: "fold or bs a = (0 :: byte) \<longleftrightarrow> a = 0 \<and> nat_of_le bs = 0"
proof (induction bs arbitrary: a)
  case Nil
  then show ?case by simp
next
  case (Cons b bs)
  have "or b a = 0 \<longleftrightarrow> b = 0 \<and> a = 0"
    by (auto simp: bit_eq_iff bit_or_iff)
  then show ?case using Cons by (auto simp: unat_eq_0)
qed

text \<open>Rejected bytes are classified as the decimal import classifies them.\<close>

lemma secret_try_from_le_bytes_error:
  "secret_try_from_le_bytes bytes =
    (if nat_of_le bytes = 0 then Err ZeroSecretScalar
     else if sub_order \<le> nat_of_le bytes then Err ScalarOutOfRange else Ok bytes)"
  by (auto simp: secret_try_from_le_bytes_def valid_secret_iff Let_def fold_or_zero)

lemma zero_bytes_iff: "length bytes = 32 \<Longrightarrow> bytes = replicate 32 0 \<longleftrightarrow> nat_of_le bytes = 0"
  using nat_of_le_inj [of bytes "replicate 32 0"] by auto

lemma secret_try_from_dec_Ok_iff:
  "secret_try_from_dec s = Ok bytes \<longleftrightarrow>
    (\<exists>v. 0 < v \<and> v < sub_order \<and> s = scalar_to_dec v \<and> bytes = nat_to_le 32 v)"
proof
  assume ok: "secret_try_from_dec s = Ok bytes"
  then have s: "s \<noteq> []" "all_digits s" "\<not> (1 < length s \<and> hd s = 48)"
    "bytes = nat_to_le 32 (horner10 0 (digit_vals s))" "horner10 0 (digit_vals s) < 2 ^ 256" "valid_secret bytes"
    by (auto simp: secret_try_from_dec_def rbind_Ok_iff try_decimal_bytes_to_le_32_eq Let_def split: if_splits)
  moreover have "nat_of_le bytes = horner10 0 (digit_vals s)" using s(4,5) by simp
  ultimately show "\<exists>v. 0 < v \<and> v < sub_order \<and> s = scalar_to_dec v \<and> bytes = nat_to_le 32 v"
    using canonical_decimal [OF s(2,1,3)] by (intro exI [of _ "nat_of_le bytes"]) (simp add: valid_secret_iff)
next
  assume "\<exists>v. 0 < v \<and> v < sub_order \<and> s = scalar_to_dec v \<and> bytes = nat_to_le 32 v"
  then obtain v where v: "0 < v" "v < sub_order" "s = scalar_to_dec v" "bytes = nat_to_le 32 v" by blast
  have "v < 2 ^ 256" using less_order_256 [OF v(2)] by simp
  then show "secret_try_from_dec s = Ok bytes"
    using v scalar_to_dec_facts [of v] length_scalar_to_dec [OF v(2)] less_order_256 [OF v(2)]
    by (auto simp: secret_try_from_dec_def try_decimal_bytes_to_le_32_eq valid_secret_iff rbind_Ok_iff)
qed

section \<open>Nonces\<close>

lemma take_nat_to_le: "k \<le> m \<Longrightarrow> take k (nat_to_le m n) = nat_to_le k n"
proof (induction m arbitrary: k n)
  case 0
  then show ?case by simp
next
  case (Suc m)
  then show ?case by (cases k) auto
qed

lemma reduce_wide_eq: "reduce_wide bytes = nat_to_le 32 (nat_of_le bytes mod sub_order)"
  by (simp add: reduce_wide_def order_eq Let_def take_nat_to_le)

lemma nat_of_le_reduced [simp]: "nat_of_le (nat_to_le 32 (n mod sub_order)) = n mod sub_order"
  by (rule nat_of_le_to_le_small) (rule less_order_256, simp)

lemma nonce_candidate_eq:
  "nonce_candidate bytes =
    (let n = nat_of_le bytes
     in if n < nonce_limit \<and> n mod sub_order \<noteq> 0 then Some (nat_to_le 32 (n mod sub_order)) else None)"
  by (simp add: nonce_candidate_def Let_def reduce_wide_eq valid_secret_iff)

lemma nonce_candidate_valid: "nonce_candidate bytes = Some nonce \<Longrightarrow> secret_try_from_le_bytes nonce = Ok nonce"
  by (auto simp: nonce_candidate_eq Let_def secret_try_from_le_bytes_Ok_iff split: if_splits)

lemma residue_class:
  assumes "r < (l :: nat)"
  shows "{n. n < q * l \<and> n mod l = r} = (\<lambda>k. k * l + r) ` {..<q}"
proof (intro equalityI subsetI)
  fix n assume n: "n \<in> {n. n < q * l \<and> n mod l = r}"
  then have "n = n div l * l + r" using div_mult_mod_eq [of n l] by simp
  moreover have "n div l < q" using n assms by (simp add: div_less_iff_less_mult)
  ultimately show "n \<in> (\<lambda>k. k * l + r) ` {..<q}" by blast
next
  fix n assume "n \<in> (\<lambda>k. k * l + r) ` {..<q}"
  then obtain k where k: "n = k * l + r" "k < q" by blast
  then have "Suc k * l \<le> q * l" by (intro mult_le_mono1) simp
  then show "n \<in> {n. n < q * l \<and> n mod l = r}" using k assms by simp
qed

text \<open>Every nonzero scalar is the nonce of equally many digests.\<close>

lemma nonce_digests:
  assumes "0 < r" and "r < sub_order"
  shows "{bytes. length bytes = 64 \<and> nonce_candidate bytes = Some (nat_to_le 32 r)} =
    nat_to_le 64 ` {n. n < nonce_limit \<and> n mod sub_order = r}"
proof (intro equalityI subsetI)
  fix bytes assume a: "bytes \<in> {bytes. length bytes = 64 \<and> nonce_candidate bytes = Some (nat_to_le 32 r)}"
  then have lim: "nat_of_le bytes < nonce_limit" and eq: "nat_to_le 32 (nat_of_le bytes mod sub_order) = nat_to_le 32 r"
    by (auto simp: nonce_candidate_eq Let_def split: if_splits)
  have "nat_of_le bytes mod sub_order = r"
    using arg_cong [OF eq, of nat_of_le] less_order_256 [OF assms(2)] by simp
  moreover have "bytes = nat_to_le 64 (nat_of_le bytes)" using a nat_to_le_of_le [of bytes] by simp
  ultimately show "bytes \<in> nat_to_le 64 ` {n. n < nonce_limit \<and> n mod sub_order = r}" using lim by blast
next
  fix bytes assume "bytes \<in> nat_to_le 64 ` {n. n < nonce_limit \<and> n mod sub_order = r}"
  then obtain n where n: "bytes = nat_to_le 64 n" "n < nonce_limit" "n mod sub_order = r" by blast
  have "nonce_limit < 256 ^ 64" by (simp add: nonce_limit_def)
  with n(2) have "n < 256 ^ 64" by (rule less_trans)
  then show "bytes \<in> {bytes. length bytes = 64 \<and> nonce_candidate bytes = Some (nat_to_le 32 r)}"
    using n assms by (simp add: nonce_candidate_eq)
qed

lemma nonce_unbiased:
  assumes "0 < r" and "r < sub_order"
  shows "card {bytes. length bytes = 64 \<and> nonce_candidate bytes = Some (nat_to_le 32 r)} = 2 ^ 512 div sub_order"
proof -
  have "inj_on (nat_to_le 64) {n. n < nonce_limit \<and> n mod sub_order = r}"
  proof (rule inj_on_inverseI)
    fix n assume "n \<in> {n. n < nonce_limit \<and> n mod sub_order = r}"
    moreover have "nonce_limit < 256 ^ 64" by (simp add: nonce_limit_def)
    ultimately show "nat_of_le (nat_to_le 64 n) = n" by (intro nat_of_le_to_le_small) simp
  qed
  then have "card (nat_to_le 64 ` {n. n < nonce_limit \<and> n mod sub_order = r}) =
      card {n. n < nonce_limit \<and> n mod sub_order = r}" by (rule card_image)
  also have "card {n. n < nonce_limit \<and> n mod sub_order = r} = card ((\<lambda>k. k * sub_order + r) ` {..<2 ^ 512 div sub_order})"
    unfolding nonce_limit_eq residue_class [OF assms(2)] ..
  also have "\<dots> = card {..<2 ^ 512 div sub_order}"
    by (rule card_image) (simp add: inj_on_def)
  finally show ?thesis by (simp only: nonce_digests [OF assms] card_lessThan)
qed

section \<open>Responses\<close>

lemma scalar_response_eq:
  "scalar_response nonce challenge secret cofactor =
    nat_to_le 32 ((nat_of_le nonce + cofactor * fr_rep challenge * nat_of_le secret) mod sub_order)"
proof -
  let ?l = sub_order and ?r = "nat_of_le nonce" and ?h = "fr_rep challenge" and ?k = "nat_of_le secret"
  have "(?h mod ?l * (cofactor mod ?l) mod ?l) * (?k mod ?l) mod ?l = ?h * cofactor * ?k mod ?l"
    by (simp add: mod_simps)
  then have "(?r mod ?l + (?h mod ?l * (cofactor mod ?l) mod ?l) * (?k mod ?l) mod ?l) mod ?l =
      (?r + ?h * cofactor * ?k) mod ?l"
    by (simp only: mod_add_eq)
  then show ?thesis
    by (simp only: scalar_response_def order_eq Let_def mult.commute [of cofactor])
qed

section \<open>Clamping\<close>

lemma byte_eqI: "(\<And>n. n \<in> {0, 1, 2, 3, 4, 5, 6, 7} \<Longrightarrow> bit a n = bit b n) \<Longrightarrow> a = (b :: byte)"
  by (rule bit_word_eqI) (auto simp: less_Suc_eq numeral_eq_Suc)

lemma unat_clear_low_3: "unat (and b 0xf8 :: byte) = 8 * (unat b div 8)"
proof -
  have "and b 0xf8 = push_bit 3 (drop_bit 3 b)"
    by (rule byte_eqI) (auto simp: bit_and_iff bit_push_bit_iff bit_drop_bit_eq)
  then have "unat (and b 0xf8) = take_bit 8 (push_bit 3 (drop_bit 3 (unat b)))"
    using unat_byte_less [of b] by (simp only: unsigned_push_bit_eq unsigned_drop_bit_eq) (simp add: take_bit_nat_eq_self)
  then show ?thesis
    using unat_byte_less [of b] by (simp add: push_bit_eq_mult drop_bit_eq_div take_bit_eq_mod)
qed

lemma unat_set_high_2: "unat (or (and b 0x7f) 0x40 :: byte) = 64 + unat b mod 64"
proof -
  have "or (and b 0x7f) 0x40 = or (take_bit 6 b) 0x40"
    by (rule byte_eqI) (auto simp: bit_and_iff bit_or_iff bit_take_bit_iff)
  also have "\<dots> = take_bit 6 b + 0x40"
  proof (rule disjunctive_add [symmetric])
    fix n
    have "(0x40 :: byte) = 2 ^ 6" by simp
    then have "bit (0x40 :: byte) n \<longleftrightarrow> n = 6" by (simp only: bit_exp_iff) auto
    then show "\<not> bit (take_bit 6 b) n \<or> \<not> bit (0x40 :: byte) n" by (auto simp: bit_take_bit_iff)
  qed
  finally have "unat (or (and b 0x7f) 0x40) = unat (take_bit 6 b + 0x40)" by simp
  also have "unat (take_bit 6 b) = unat b mod 64" by (simp add: take_bit_eq_mod unat_mod)
  then have "unat (take_bit 6 b + 0x40) = unat b mod 64 + 64" by (simp add: unat_word_ariths)
  finally show ?thesis by simp
qed

lemma list_ends:
  assumes "length b = 32"
  obtains lo mid hi where "b = lo # mid @ [hi]" "length mid = 30"
proof -
  obtain lo rest where b: "b = lo # rest" "length rest = 31" using assms by (cases b) auto
  then have "rest \<noteq> []" by auto
  then have "rest = butlast rest @ [last rest]" by simp
  then have "b = lo # butlast rest @ [last rest]" using b(1) by simp
  moreover have "length (butlast rest) = 30" using b(2) by simp
  ultimately show thesis by (rule that)
qed

lemma nat_of_le_append: "nat_of_le (as @ bs) = nat_of_le as + 256 ^ length as * nat_of_le bs"
  by (induction as) (simp_all add: algebra_simps)

text \<open>The clamped key: the high bit pattern \<open>01\<close>, the low three bits clear, the rest kept.\<close>

lemma prune_buffer_value:
  assumes "length b = 32"
  shows "nat_of_le (prune_buffer b) = 2 ^ 254 + 8 * (nat_of_le b mod 2 ^ 254 div 8)"
proof -
  obtain lo mid hi where b: "b = lo # mid @ [hi]" "length mid = 30" using assms by (rule list_ends)
  let ?m = "nat_of_le mid"
  have m: "?m < 256 ^ 30" using nat_of_le_bound [of mid] b(2) by simp
  have pruned: "prune_buffer b = and lo 0xf8 # mid @ [or (and hi 0x7f) 0x40]"
    using b by (simp add: prune_buffer_def nth_append list_update_append)
  have hi: "nat_of_le b = unat lo + 256 * ?m + 256 ^ 31 * unat hi"
    using b by (simp add: nat_of_le_append)
  have "nat_of_le b mod 2 ^ 254 = unat lo + 256 * ?m + 256 ^ 31 * (unat hi mod 64)"
  proof -
    have "256 ^ 31 * unat hi = 256 ^ 31 * (unat hi mod 64) + 2 ^ 254 * (unat hi div 64)"
    proof -
      have "unat hi = unat hi div 64 * 64 + unat hi mod 64" by simp
      then obtain q r where q: "unat hi = q * 64 + r" "r < 64" by (metis mod_less_divisor zero_less_numeral)
      then show ?thesis by simp
    qed
    then have "nat_of_le b = (unat lo + 256 * ?m + 256 ^ 31 * (unat hi mod 64)) + 2 ^ 254 * (unat hi div 64)"
      using hi by simp
    moreover have "unat lo + 256 * ?m + 256 ^ 31 * (unat hi mod 64) < 2 ^ 254"
      using m unat_byte_less [of lo] mod_less_divisor [of 64 "unat hi"] by simp
    ultimately show ?thesis by simp
  qed
  moreover have "8 * ((unat lo + 256 * ?m + 256 ^ 31 * (unat hi mod 64)) div 8) =
      8 * (unat lo div 8) + 256 * ?m + 256 ^ 31 * (unat hi mod 64)"
  proof -
    have "(unat lo + 8 * (32 * ?m + 2 ^ 245 * (unat hi mod 64))) div 8 =
        unat lo div 8 + (32 * ?m + 2 ^ 245 * (unat hi mod 64))" by simp
    moreover have "unat lo + 256 * ?m + 256 ^ 31 * (unat hi mod 64) =
        unat lo + 8 * (32 * ?m + 2 ^ 245 * (unat hi mod 64))" by simp
    ultimately show ?thesis by (simp add: add.assoc)
  qed
  ultimately show ?thesis
    using b(2) by (simp add: pruned nat_of_le_append unat_clear_low_3 unat_set_high_2)
qed

lemma length_prune_buffer [simp]: "length (prune_buffer b) = length b"
  by (simp add: prune_buffer_def Let_def)

section \<open>The shift by three\<close>

fun shr3 :: "byte list \<Rightarrow> byte list" where
  "shr3 [] = []"
| "shr3 [b] = [drop_bit 3 b]"
| "shr3 (b # c # bs) = or (drop_bit 3 b) (push_bit 5 c) # shr3 (c # bs)"

lemma length_shr3 [simp]: "length (shr3 bs) = length bs"
  by (induction bs rule: shr3.induct) auto

lemma nth_shr3:
  "i < length bs \<Longrightarrow> shr3 bs ! i =
    (if Suc i < length bs then or (drop_bit 3 (bs ! i)) (push_bit 5 (bs ! Suc i)) else drop_bit 3 (bs ! i))"
  by (induction bs arbitrary: i rule: shr3.induct) (auto simp: nth_Cons less_Suc_eq_0_disj split: nat.splits)

lemma unat_shift_pair: "unat (or (drop_bit 3 b) (push_bit 5 c) :: byte) = unat b div 8 + 32 * (unat c mod 8)"
proof -
  have "or (drop_bit 3 b) (push_bit 5 c) = drop_bit 3 b + push_bit 5 c"
  proof (rule disjunctive_add [symmetric])
    fix n show "\<not> bit (drop_bit 3 b) n \<or> \<not> bit (push_bit 5 c) n"
      by (auto simp: bit_drop_bit_eq bit_push_bit_iff dest: bit_imp_le_length)
  qed
  then have "unat (or (drop_bit 3 b) (push_bit 5 c)) = unat (drop_bit 3 b + push_bit 5 c)" by (rule arg_cong)
  moreover have "unat (drop_bit 3 b) = unat b div 8"
    using unat_byte_less [of b] by (simp only: unsigned_drop_bit_eq) (simp add: take_bit_nat_eq_self drop_bit_eq_div)
  moreover have "unat (push_bit 5 c) = 32 * (unat c mod 8)"
    by (simp only: unsigned_push_bit_eq) (simp add: push_bit_eq_mult take_bit_eq_mod mult_mod_right mult.commute)
  moreover have "unat b div 8 < 32" using unat_byte_less [of b] by auto
  moreover have "32 * (unat c mod 8) \<le> 32 * 7" by (intro mult_le_mono2) auto
  ultimately show ?thesis by (simp add: unat_word_ariths)
qed

lemma nat_of_shr3: "nat_of_le (shr3 bs) = nat_of_le bs div 8"
proof (induction bs rule: shr3.induct)
  case (2 b)
  then show ?case
    using unat_byte_less [of b] by (simp only: shr3.simps nat_of_le.simps unsigned_drop_bit_eq)
      (simp add: take_bit_nat_eq_self drop_bit_eq_div)
next
  case (3 b c bs)
  define R where "R = nat_of_le bs"
  have IH: "nat_of_le (shr3 (c # bs)) = (unat c + 256 * R) div 8" using 3 by (simp add: R_def)
  have "(unat b + 256 * (unat c + 256 * R)) div 8 = unat b div 8 + 32 * (unat c + 256 * R)" by simp
  also have "\<dots> = unat b div 8 + 32 * (unat c mod 8) + 256 * ((unat c + 256 * R) div 8)"
  proof -
    have "(unat c + 8 * (32 * R)) mod 8 = unat c mod 8" by (rule mod_mult_self2)
    then have "(unat c + 256 * R) mod 8 = unat c mod 8" by simp
    then obtain q where "q = (unat c + 256 * R) div 8" "unat c + 256 * R = q * 8 + unat c mod 8"
      using div_mult_mod_eq [of "unat c + 256 * R" 8] by metis
    then show ?thesis by (simp only:) simp
  qed
  finally show ?case by (simp add: IH unat_shift_pair R_def)
qed simp

lemma length_shift_steps [simp]: "length (fold shift_step js bs) = length bs"
  by (induction js arbitrary: bs) (simp_all add: shift_step_def)

lemma nth_shift_steps:
  "k < length bs \<Longrightarrow> i < length bs \<Longrightarrow> fold shift_step [0..<k] bs ! i = (if i < k then shr3 bs ! i else bs ! i)"
proof (induction k arbitrary: i)
  case 0
  then show ?case by simp
next
  case (Suc k)
  define F where "F = fold shift_step [0..<k] bs"
  have len: "length F = length bs" by (simp add: F_def)
  have nth: "F ! j = (if j < k then shr3 bs ! j else bs ! j)" if "j < length bs" for j
    using Suc that by (simp add: F_def)
  have "fold shift_step [0..<Suc k] bs = F[k := or (drop_bit 3 (F ! k)) (push_bit 5 (F ! (k + 1)))]"
    by (simp add: F_def) (simp add: shift_step_def)
  then show ?case
    using Suc.prems len nth by (simp add: nth_list_update nth_shr3 less_Suc_eq)
qed

lemma shift_right_3_eq: "length bs = 32 \<Longrightarrow> shift_right_3 bs = shr3 bs"
proof (rule nth_equalityI)
  fix i assume len: "length bs = 32" and "i < length (shift_right_3 bs)"
  then have "i < 31 \<or> i = 31" by (auto simp: shift_right_3_def Let_def simp del: upt_Suc)
  then show "shift_right_3 bs ! i = shr3 bs ! i"
    using len by (auto simp: shift_right_3_def Let_def nth_list_update nth_shift_steps nth_shr3 simp del: upt_Suc)
qed (simp add: shift_right_3_def Let_def del: upt_Suc)

lemma shift_right_3_value: "length bs = 32 \<Longrightarrow> nat_of_le (shift_right_3 bs) = nat_of_le bs div 8"
  by (simp add: shift_right_3_eq nat_of_shr3)

lemma length_shift_right_3 [simp]: "length (shift_right_3 bs) = length bs"
  by (simp add: shift_right_3_def Let_def)

section \<open>What the parsers accept\<close>

lemma bn254_try_from_dec_Ok_iff: "bn254_try_from_dec s = Ok x \<longleftrightarrow> s = fr_to_dec x"
proof
  assume ok: "bn254_try_from_dec s = Ok x"
  then have s: "s \<noteq> []" "all_digits s" "\<not> (1 < length s \<and> hd s = 48)" "horner10 0 (digit_vals s) < fr_modulus"
      "x = fr_of_nat (horner10 0 (digit_vals s))"
    by (auto simp: bn254_try_from_dec_eq split: if_splits)
  then have "fr_rep x = horner10 0 (digit_vals s)" by simp
  then show "s = fr_to_dec x"
    using canonical_decimal [OF s(2,1,3)] by (simp add: fr_to_dec_def fr_to_biguint_def scalar_to_dec_def)
qed (simp add: bn254_dec_roundtrip)

text \<open>
  C18: The decimal parsers accept exactly the canonical decimals: a field element, a scalar or a
  secret scalar is read from a string exactly when the string is what the value prints as (no
  leading zero, no sign, below the modulus or the subgroup order, and nonzero for a secret).
\<close>

theorem decimal_imports_exact:
  "(bn254_try_from_dec s = Ok x) = (s = fr_to_dec x) \<and>
    (scalar_try_from_dec s = Ok v) = (s = scalar_to_dec v \<and> v < sub_order) \<and>
    (secret_try_from_dec s = Ok bytes) =
      (\<exists>k. 0 < k \<and> k < sub_order \<and> s = scalar_to_dec k \<and> bytes = nat_to_le 32 k)"
  by (simp only: bn254_try_from_dec_Ok_iff scalar_try_from_dec_Ok_iff secret_try_from_dec_Ok_iff)

text \<open>
  Deterministic nonces are unbiased: among the 64-byte digests, every scalar from 1 below
  the subgroup order is the candidate of equally many, and no other value is ever a candidate.
\<close>

theorem nonces_are_unbiased:
  assumes "0 < r" and "r < sub_order"
  shows "card {bytes. length bytes = 64 \<and> nonce_candidate bytes = Some (nat_to_le 32 r)} = 2 ^ 512 div sub_order \<and>
    (nonce_candidate bytes = Some nonce) = (nat_of_le bytes < nonce_limit \<and> nonce = nat_to_le 32 (nat_of_le nonce) \<and>
      nat_of_le nonce = nat_of_le bytes mod sub_order \<and> nat_of_le nonce \<noteq> 0)"
  using nonce_unbiased [OF assms] by (auto simp: nonce_candidate_eq Let_def)

theorem nonces_are_unbiased_witness:
  "card {bytes. length bytes = 64 \<and> nonce_candidate bytes = Some (nat_to_le 32 1)} = 2 ^ 512 div sub_order"
  by (rule nonces_are_unbiased [THEN conjunct1]) (simp_all only: sub_order_bounds zero_less_one)

text \<open>
  Seed clamping: of a 32-byte hash, the pruned buffer is bit 254 plus the hash modulo
  \<open>2 ^ 254\<close> with its low three bits cleared - so every secret is a multiple of the cofactor of
  fixed length - and the byte-wise shift that derives the public scalar divides it by 8.
\<close>

theorem clamped_secrets:
  assumes "length hash = 32"
  shows "nat_of_le (prune_buffer hash) = 2 ^ 254 + 8 * (nat_of_le hash mod 2 ^ 254 div 8) \<and>
    nat_of_le (prune_buffer hash) = 8 * nat_of_le (shift_right_3 (prune_buffer hash)) \<and>
    2 ^ 251 \<le> nat_of_le (shift_right_3 (prune_buffer hash)) \<and> nat_of_le (shift_right_3 (prune_buffer hash)) < 2 ^ 252"
proof -
  define k where "k = nat_of_le hash mod 2 ^ 254 div 8"
  have "nat_of_le hash mod 2 ^ 254 < 2 ^ 251 * 8" by simp
  then have "k < 2 ^ 251" unfolding k_def by (rule less_mult_imp_div_less)
  moreover have pruned: "nat_of_le (prune_buffer hash) = 2 ^ 254 + 8 * k"
    using prune_buffer_value [OF assms] by (simp add: k_def)
  moreover have "nat_of_le (shift_right_3 (prune_buffer hash)) = 2 ^ 251 + k"
    using assms by (simp add: shift_right_3_value pruned)
  ultimately show ?thesis unfolding k_def [symmetric] by simp
qed

theorem clamped_secrets_witness:
  "nat_of_le (prune_buffer (replicate 32 0)) = 2 ^ 254"
  using clamped_secrets [of "replicate 32 0"] by simp

end
