(* ===== verification/Babyjubjub.thy ===== *)
theory Babyjubjub
  imports Scalars
begin

text \<open>
  The curve of \<open>crates/core/src/babyjubjub.rs\<close> and the secret scalar multiplication of
  \<open>crates/core/src/secret_arithmetic.rs\<close>: affine twisted Edwards points over the BN254 scalar
  field with the variable-time double-and-add of verification, and projective points with
  the 256-step ladder of signing.  Both panic when a denominator has no inverse.
\<close>

section \<open>Affine points\<close>

type_synonym point = "fr \<times> fr"

text \<open>\<open>Field::inverse\<close>: nothing for zero, otherwise the power \<open>p - 2\<close>.\<close>

definition fr_inverse :: "fr \<Rightarrow> fr option" where
  "fr_inverse x = (if x = 0 then None else Some (x ^ (fr_modulus - 2)))"

definition coeff_a :: fr where
  "coeff_a = fr_of_nat 168700"

definition coeff_d :: fr where
  "coeff_d = fr_of_nat 168696"

definition base8 :: point where
  "base8 =
     (fr_of_nat 5299619240641551281634865583518297030282874472190772894086521144482721001553,
      fr_of_nat 16950150798460657717958625567821834550301663161624707787222815936182638968203)"

definition identity :: point where
  "identity = (0, 1)"

definition is_on_curve :: "point \<Rightarrow> bool" where
  "is_on_curve p =
     (case p of (x, y) \<Rightarrow>
        let x2 = x * x; y2 = y * y
        in coeff_a * x2 + y2 = 1 + coeff_d * x2 * y2)"

text \<open>\<open>x.inverse().expect(..)\<close>.\<close>

definition inverse_or_panic :: "fr \<Rightarrow> (fr, 'e) result" where
  "inverse_or_panic x = (case fr_inverse x of Some y \<Rightarrow> Ok y | None \<Rightarrow> Panic)"

definition add_point :: "point \<Rightarrow> point \<Rightarrow> (point, 'e) result" where
  "add_point p1 p2 =
     (case (p1, p2) of ((x1, y1), (x2, y2)) \<Rightarrow>
        let a = coeff_a; d = coeff_d;
            beta = x1 * y2;
            gamma = y1 * x2;
            delta = (y1 - a * x1) * (x2 + y2);
            dtau = d * (beta * gamma)
        in rbind (inverse_or_panic (1 + dtau)) (\<lambda>i.
           let x3 = (beta + gamma) * i in
           rbind (inverse_or_panic (1 - dtau)) (\<lambda>j.
           let y3 = (delta + a * beta - gamma) * j in
           Ok (x3, y3))))"

text \<open>\<open>BigUint::bits\<close>, and the loop over the bits from the least significant one.\<close>

fun biguint_bits :: "nat \<Rightarrow> nat" where
  "biguint_bits n = (if n = 0 then 0 else Suc (biguint_bits (n div 2)))"

declare biguint_bits.simps [simp del]

definition mul_point_step :: "nat \<Rightarrow> nat \<Rightarrow> point \<times> point \<Rightarrow> (point \<times> point, 'e) result" where
  "mul_point_step e i acc =
     (case acc of (res, exp) \<Rightarrow>
        rbind (if test_bit e i then add_point res exp else Ok res) (\<lambda>res.
        rbind (add_point exp exp) (\<lambda>exp. Ok (res, exp))))"

definition mul_point_escalar :: "point \<Rightarrow> nat \<Rightarrow> (point, 'e) result" where
  "mul_point_escalar base e =
     rbind (rfold [0..<biguint_bits e] (mul_point_step e) (identity, base)) (\<lambda>(res, exp). Ok res)"

definition is_in_subgroup :: "point \<Rightarrow> (bool, 'e) result" where
  "is_in_subgroup p =
     (if is_on_curve p then rbind (mul_point_escalar p sub_order) (\<lambda>q. Ok (q = identity)) else Ok False)"

section \<open>Checked points\<close>

text \<open>A \<open>BabyJubPoint\<close> is the pair of its coordinates.\<close>

definition point_try_from_xy :: "fr \<Rightarrow> fr \<Rightarrow> (point, baby_jub_error) result" where
  "point_try_from_xy x y =
     (let p = (x, y) in
      rbind (guard (\<not> is_on_curve p) PointNotOnCurve) (\<lambda>_.
      rbind (is_in_subgroup p) (\<lambda>ok.
      rbind (guard (\<not> ok) PointNotInSubgroup) (\<lambda>_. Ok p))))"

definition is_identity :: "point \<Rightarrow> bool" where
  "is_identity p \<longleftrightarrow> p = identity"

definition point_try_from_xy_non_identity :: "fr \<Rightarrow> fr \<Rightarrow> (point, baby_jub_error) result" where
  "point_try_from_xy_non_identity x y =
     rbind (point_try_from_xy x y) (\<lambda>p.
     rbind (guard (is_identity p) IdentityPoint) (\<lambda>_. Ok p))"

definition point_try_from_dec :: "byte list \<Rightarrow> byte list \<Rightarrow> (point, baby_jub_error) result" where
  "point_try_from_dec x y =
     rbind (map_err InvalidCoordinate (bn254_try_from_dec x)) (\<lambda>x.
     rbind (map_err InvalidCoordinate (bn254_try_from_dec y)) (\<lambda>y.
     point_try_from_xy_non_identity x y))"

section \<open>The secret ladder\<close>

text \<open>An \<open>Element\<close> stands for the residue it represents.\<close>

record projective =
  pj_x :: fr
  pj_y :: fr
  pj_z :: fr

definition projective_identity :: projective where
  "projective_identity = \<lparr>pj_x = 0, pj_y = 1, pj_z = 1\<rparr>"

definition projective_add :: "projective \<Rightarrow> projective \<Rightarrow> projective" where
  "projective_add p q =
     (let a = pj_z p * pj_z q;
          b = a * a;
          c = pj_x p * pj_x q;
          d = pj_y p * pj_y q;
          e = fr_of_nat 168696 * c * d;
          f = b - e;
          g = b + e
      in \<lparr>pj_x = a * f * ((pj_x p + pj_y p) * (pj_x q + pj_y q) - c - d),
          pj_y = a * g * (d - fr_of_nat 168700 * c),
          pj_z = f * g\<rparr>)"

definition projective_select :: "projective \<Rightarrow> projective \<Rightarrow> bool \<Rightarrow> projective" where
  "projective_select p q b =
     (let select = (\<lambda>x y :: fr. if b then y else x)
      in \<lparr>pj_x = select (pj_x p) (pj_x q), pj_y = select (pj_y p) (pj_y q), pj_z = select (pj_z p) (pj_z q)\<rparr>)"

definition ladder_step :: "nat \<Rightarrow> projective \<Rightarrow> nat \<Rightarrow> projective \<Rightarrow> projective" where
  "ladder_step scalar base i p =
     (let doubled = projective_add p p;
          added = projective_add doubled base
      in projective_select doubled added (test_bit scalar i))"

text \<open>
  The result leaves through its canonical little-endian bytes; \<open>field\<close> converts the base
  point the same way.
\<close>

definition base_mul :: "byte list \<Rightarrow> (point, 'e) result" where
  "base_mul bytes =
     (let scalar = nat_of_le bytes;
          field = (\<lambda>x. fr_of_nat (nat_of_le (nat_to_le 32 (fr_rep x))));
          base = \<lparr>pj_x = field (fst base8), pj_y = field (snd base8), pj_z = 1\<rparr>;
          p = fold (ladder_step scalar base) (rev [0..<256]) projective_identity;
          inverse = fr_inverse (pj_z p)
      in rbind (rassert (inverse \<noteq> None)) (\<lambda>_.
           let inverse = unwrap_or inverse 0;
               x = pj_x p * inverse;
               y = pj_y p * inverse;
               coordinates = nat_to_le 32 (fr_rep x) @ nat_to_le 32 (fr_rep y)
           in Ok (fr_of_nat (nat_of_le (take 32 coordinates)), fr_of_nat (nat_of_le (drop 32 coordinates)))))"

definition public_key_from_scalar :: "byte list \<Rightarrow> (point, 'e) result" where
  "public_key_from_scalar scalar = base_mul scalar"

end
