(* ===== verification/Blake512.thy ===== *)
theory Blake512
  imports Prelude
begin

text \<open>
  The incremental BLAKE-512 of \<open>crates/core/src/blake512.rs\<close>: the constants, the mixing
  function, the 128-bit message counter kept as four \<open>i64\<close> limbs that go negative while the
  padding is fed through \<open>update\<close>, compression, buffering, padding and the digest.  The limbs
  are unbounded integers here; \<open>limbs\<close> keeps the lower three below \<open>2 ^ 32\<close> and padding
  subtracts less than 1200 from the first, so none of them leaves the range of an \<open>i64\<close>.
  Against it stands the hash as the BLAKE document states it: padded blocks, each compressed
  with the number of message bits hashed so far, ten message permutations used cyclically.
\<close>

unbundle bit_operations_syntax

type_synonym u64 = "64 word"

section \<open>The code\<close>

definition blake_iv :: "u64 list" where
  "blake_iv = [0x6a09e667f3bcc908, 0xbb67ae8584caa73b, 0x3c6ef372fe94f82b, 0xa54ff53a5f1d36f1,
     0x510e527fade682d1, 0x9b05688c2b3e6c1f, 0x1f83d9abfb41bd6b, 0x5be0cd19137e2179]"

definition blake_c :: "u64 list" where
  "blake_c = [0x243f6a8885a308d3, 0x13198a2e03707344, 0xa4093822299f31d0, 0x082efa98ec4e6c89,
     0x452821e638d01377, 0xbe5466cf34e90c6c, 0xc0ac29b7c97c50dd, 0x3f84d5b5b5470917,
     0x9216d5d98979fb1b, 0xd1310ba698dfb5ac, 0x2ffd72dbd01adfb7, 0xb8e1afed6a267e96,
     0xba7c9045f12c7f99, 0x24a19947b3916cf7, 0x0801f2e2858efc16, 0x636920d871574e69]"

definition blake_sigma :: "nat list list" where
  "blake_sigma = [
     [0, 1, 2, 3, 4, 5, 6, 7, 8, 9, 10, 11, 12, 13, 14, 15],
     [14, 10, 4, 8, 9, 15, 13, 6, 1, 12, 0, 2, 11, 7, 5, 3],
     [11, 8, 12, 0, 5, 2, 15, 13, 10, 14, 3, 6, 7, 1, 9, 4],
     [7, 9, 3, 1, 13, 12, 11, 14, 2, 6, 5, 10, 4, 0, 15, 8],
     [9, 0, 5, 7, 2, 4, 10, 15, 14, 1, 11, 12, 6, 8, 3, 13],
     [2, 12, 6, 10, 0, 11, 8, 3, 4, 13, 7, 5, 15, 14, 1, 9],
     [12, 5, 1, 15, 14, 13, 4, 10, 0, 7, 6, 3, 9, 2, 8, 11],
     [13, 11, 7, 14, 12, 1, 3, 9, 5, 0, 15, 4, 8, 6, 2, 10],
     [6, 15, 14, 9, 11, 3, 0, 8, 12, 2, 13, 7, 1, 4, 10, 5],
     [10, 2, 8, 4, 7, 6, 1, 5, 15, 11, 9, 14, 3, 12, 13, 0],
     [0, 1, 2, 3, 4, 5, 6, 7, 8, 9, 10, 11, 12, 13, 14, 15],
     [14, 10, 4, 8, 9, 15, 13, 6, 1, 12, 0, 2, 11, 7, 5, 3],
     [11, 8, 12, 0, 5, 2, 15, 13, 10, 14, 3, 6, 7, 1, 9, 4],
     [7, 9, 3, 1, 13, 12, 11, 14, 2, 6, 5, 10, 4, 0, 15, 8],
     [9, 0, 5, 7, 2, 4, 10, 15, 14, 1, 11, 12, 6, 8, 3, 13],
     [2, 12, 6, 10, 0, 11, 8, 3, 4, 13, 7, 5, 15, 14, 1, 9]]"

definition block_bytes :: nat where
  "block_bytes = 128"

definition blake_zero_padding :: "byte list" where
  "blake_zero_padding = (replicate block_bytes 0)[0 := 0x80]"

text \<open>
  The three kinds of statement of \<open>g\<close> on the working vector, \<open>v[a] += v[b] + x\<close>,
  \<open>v[c] += v[d]\<close> and \<open>v[d] = (v[d] ^ v[a]).rotate_right(n)\<close>, and \<open>g\<close> itself.
\<close>

definition mix_add :: "nat \<Rightarrow> nat \<Rightarrow> u64 \<Rightarrow> u64 list \<Rightarrow> u64 list" where
  "mix_add a b x v = v[a := v ! a + v ! b + x]"

definition mix_sum :: "nat \<Rightarrow> nat \<Rightarrow> u64 list \<Rightarrow> u64 list" where
  "mix_sum c d v = v[c := v ! c + v ! d]"

definition mix_xor :: "nat \<Rightarrow> nat \<Rightarrow> nat \<Rightarrow> u64 list \<Rightarrow> u64 list" where
  "mix_xor d a n v = v[d := word_rotr n (v ! d XOR v ! a)]"

definition blake_g ::
    "u64 list \<Rightarrow> nat \<Rightarrow> nat \<Rightarrow> nat \<Rightarrow> nat \<Rightarrow> nat \<Rightarrow> nat \<Rightarrow> u64 list \<Rightarrow> u64 list" where
  "blake_g m round a b c d e v =
     (let se = blake_sigma ! round ! e; se1 = blake_sigma ! round ! (e + 1);
        v = mix_add a b (m ! se XOR blake_c ! se1) v; v = mix_xor d a 32 v;
        v = mix_sum c d v; v = mix_xor b c 25 v;
        v = mix_add a b (m ! se1 XOR blake_c ! se) v; v = mix_xor d a 16 v;
        v = mix_sum c d v
      in mix_xor b c 11 v)"

text \<open>The carry loop over limbs \<open>0..3\<close>, which breaks at the first limb below \<open>2 ^ 32\<close>.\<close>

function length_carry_from :: "nat \<Rightarrow> int list \<Rightarrow> int list" where
  "length_carry_from j arr =
     (if j < 3 \<and> \<not> arr ! j < 2 ^ 32
      then length_carry_from (j + 1) (arr[j := arr ! j - 2 ^ 32, j + 1 := arr ! (j + 1) + 1]) else arr)"
  by pat_completeness auto
termination by (relation "measure (\<lambda>(j, arr). 3 - j)") auto

declare length_carry_from.simps [simp del]

definition length_carry :: "int list \<Rightarrow> int list" where
  "length_carry arr = length_carry_from 0 arr"

record blake512_state =
  bl_h :: "u64 list"
  bl_block :: "byte list"
  bl_block_offset :: nat
  bl_length :: "int list"
  bl_nullt :: bool

definition blake_new :: blake512_state where
  "blake_new = \<lparr>bl_h = blake_iv, bl_block = replicate block_bytes 0, bl_block_offset = 0,
     bl_length = replicate 4 0, bl_nullt = False\<rparr>"

text \<open>The sixteen big-endian words of a block, and one double round.\<close>

definition block_words :: "byte list \<Rightarrow> u64 list" where
  "block_words block = map (\<lambda>i. of_nat (nat_of_be (take 8 (drop (i * 8) block)))) [0..<16]"

definition blake_round :: "u64 list \<Rightarrow> nat \<Rightarrow> u64 list \<Rightarrow> u64 list" where
  "blake_round m round v =
     (let v = blake_g m round 0 4 8 12 0 v; v = blake_g m round 1 5 9 13 2 v;
        v = blake_g m round 2 6 10 14 4 v; v = blake_g m round 3 7 11 15 6 v;
        v = blake_g m round 0 5 10 15 8 v; v = blake_g m round 1 6 11 12 10 v;
        v = blake_g m round 2 7 8 13 12 v
      in blake_g m round 3 4 9 14 14 v)"

definition blake_compress :: "blake512_state \<Rightarrow> blake512_state" where
  "blake_compress s =
     (let m = block_words (bl_block s);
        v = bl_h s @ take 8 blake_c;
        v = (if bl_nullt s then v
             else let t0 = push_bit 32 (word_of_int (bl_length s ! 1)) OR
                        (word_of_int (bl_length s ! 0) AND 0xffffffff);
                    t1 = push_bit 32 (word_of_int (bl_length s ! 3)) OR
                        (word_of_int (bl_length s ! 2) AND 0xffffffff)
                  in v[12 := v ! 12 XOR t0, 13 := v ! 13 XOR t0, 14 := v ! 14 XOR t1, 15 := v ! 15 XOR t1]);
        v = fold (blake_round m) [0..<16] v
      in s\<lparr>bl_h := map (\<lambda>i. bl_h s ! i XOR (v ! i XOR v ! (i + 8))) [0..<8]\<rparr>)"

text \<open>The byte loops of \<open>update\<close>: write at the offset and step it.\<close>

primrec put_bytes :: "byte list \<Rightarrow> blake512_state \<Rightarrow> blake512_state" where
  "put_bytes [] s = s"
| "put_bytes (x # xs) s =
     put_bytes xs (s\<lparr>bl_block := (bl_block s)[bl_block_offset s := x],
       bl_block_offset := bl_block_offset s + 1\<rparr>)"

text \<open>\<open>self.length[0] += bits\<close>.\<close>

definition add_bits :: "int \<Rightarrow> blake512_state \<Rightarrow> blake512_state" where
  "add_bits bits s = s\<lparr>bl_length := (bl_length s)[0 := bl_length s ! 0 + bits]\<rparr>"

text \<open>The body of the block loop once the block is full.\<close>

definition blake_finish_block :: "blake512_state \<Rightarrow> blake512_state" where
  "blake_finish_block s =
     (let s = add_bits (int block_bytes * 8) s;
        s = s\<lparr>bl_length := length_carry (bl_length s)\<rparr>;
        s = blake_compress s
      in s\<lparr>bl_block_offset := 0\<rparr>)"

lemma bl_block_offset_finish [simp]: "bl_block_offset (blake_finish_block s) = 0"
  by (simp add: blake_finish_block_def Let_def)

function blake_update :: "byte list \<Rightarrow> blake512_state \<Rightarrow> blake512_state" where
  "blake_update data s =
     (if block_bytes \<le> bl_block_offset s + length data
      then blake_update (drop (block_bytes - bl_block_offset s) data)
             (blake_finish_block (put_bytes (take (block_bytes - bl_block_offset s) data) s))
      else put_bytes data s)"
  by pat_completeness auto
termination
  by (relation "measure (\<lambda>(data, s). bl_block_offset s + length data)") (auto simp: block_bytes_def)

declare blake_update.simps [simp del]

definition blake_padding :: "blake512_state \<Rightarrow> blake512_state" where
  "blake_padding s =
     (let len = length_carry (bl_length (add_bits (int (bl_block_offset s) * 8) s));
        msglen = concat (map (\<lambda>i. nat_to_be 4 (unat (word_of_int (len ! (3 - i)) :: 32 word))) [0..<4]);
        off = bl_block_offset s;
        s = (if off = 111 then blake_update [0x81] (add_bits (- 8) s)
             else
               let s = (if off < 111
                 then
                   let s = (if off = 0 then s\<lparr>bl_nullt := True\<rparr> else s)
                   in blake_update (take (111 - off) blake_zero_padding) (add_bits (- (int (111 - off) * 8)) s)
                 else
                   let s = blake_update (take (128 - off) blake_zero_padding) (add_bits (- (int (128 - off) * 8)) s);
                     s = blake_update (take 111 (drop 1 blake_zero_padding)) (add_bits (- (111 * 8)) s)
                   in s\<lparr>bl_nullt := True\<rparr>)
               in add_bits (- 8) (blake_update [0x01] s))
      in blake_update msglen (add_bits (- 128) s))"

definition blake_digest :: "blake512_state \<Rightarrow> byte list" where
  "blake_digest s =
     (let s = blake_padding s in concat (map (\<lambda>i. nat_to_be 8 (unat (bl_h s ! i))) [0..<8]))"

definition blake512 :: "byte list \<Rightarrow> byte list" where
  "blake512 data = blake_digest (blake_update data blake_new)"

section \<open>The hash\<close>

text \<open>One application of \<open>G\<^sub>i\<close> in round \<open>r\<close>, on its four words.\<close>

definition spec_G :: "u64 list \<Rightarrow> nat \<Rightarrow> nat \<Rightarrow> u64 \<Rightarrow> u64 \<Rightarrow> u64 \<Rightarrow> u64 \<Rightarrow> u64 \<times> u64 \<times> u64 \<times> u64" where
  "spec_G m r i a b c d =
     (let p = blake_sigma ! (r mod 10) ! (2 * i); q = blake_sigma ! (r mod 10) ! (2 * i + 1);
        a1 = a + b + (m ! p XOR blake_c ! q); d1 = word_rotr 32 (d XOR a1);
        c1 = c + d1; b1 = word_rotr 25 (b XOR c1);
        a2 = a1 + b1 + (m ! q XOR blake_c ! p); d2 = word_rotr 16 (d1 XOR a2);
        c2 = c1 + d2; b2 = word_rotr 11 (b1 XOR c2)
      in (a2, b2, c2, d2))"

text \<open>A round on the 4 by 4 matrix: its columns, then its diagonals.\<close>

definition spec_round :: "u64 list \<Rightarrow> nat \<Rightarrow> u64 list \<Rightarrow> u64 list" where
  "spec_round m r v =
     (let (a0, b0, c0, d0) = spec_G m r 0 (v ! 0) (v ! 4) (v ! 8) (v ! 12);
        (a1, b1, c1, d1) = spec_G m r 1 (v ! 1) (v ! 5) (v ! 9) (v ! 13);
        (a2, b2, c2, d2) = spec_G m r 2 (v ! 2) (v ! 6) (v ! 10) (v ! 14);
        (a3, b3, c3, d3) = spec_G m r 3 (v ! 3) (v ! 7) (v ! 11) (v ! 15);
        (w0, w5, w10, w15) = spec_G m r 4 a0 b1 c2 d3;
        (w1, w6, w11, w12) = spec_G m r 5 a1 b2 c3 d0;
        (w2, w7, w8, w13) = spec_G m r 6 a2 b3 c0 d1;
        (w3, w4, w9, w14) = spec_G m r 7 a3 b0 c1 d2
      in [w0, w1, w2, w3, w4, w5, w6, w7, w8, w9, w10, w11, w12, w13, w14, w15])"

definition spec_compress :: "u64 list \<Rightarrow> byte list \<Rightarrow> nat \<Rightarrow> u64 list" where
  "spec_compress h block t =
     (let t0 = of_nat (t mod 2 ^ 64); t1 = of_nat (t div 2 ^ 64);
        v = h @ take 4 blake_c @ [blake_c ! 4 XOR t0, blake_c ! 5 XOR t0, blake_c ! 6 XOR t1, blake_c ! 7 XOR t1];
        v = fold (spec_round (block_words block)) [0..<16] v
      in map (\<lambda>i. h ! i XOR (v ! i XOR v ! (i + 8))) [0..<8])"

text \<open>
  Padding: a one bit, zero bits, a one bit, up to 112 modulo 128 bytes, and the bit length;
  the counter of block \<open>i\<close> of a message of \<open>l\<close> bytes is the message bits up to its end, and 0
  for a block that holds none.
\<close>

definition spec_pad :: "nat \<Rightarrow> byte list" where
  "spec_pad l = (let z = (111 + (128 - l mod 128)) mod 128 in
     (if z = 0 then [0x81] else 0x80 # replicate (z - 1) 0 @ [0x01]) @ nat_to_be 16 (8 * l))"

definition spec_counter :: "nat \<Rightarrow> nat \<Rightarrow> nat" where
  "spec_counter l i = (if 128 * i < l then 8 * min l (128 * (i + 1)) else 0)"

primrec hash_blocks :: "(nat \<Rightarrow> nat) \<Rightarrow> nat \<Rightarrow> byte list list \<Rightarrow> u64 list \<Rightarrow> u64 list" where
  "hash_blocks t i [] h = h"
| "hash_blocks t i (b # bs) h = hash_blocks t (i + 1) bs (spec_compress h b (t i))"

definition blake512_spec :: "byte list \<Rightarrow> byte list" where
  "blake512_spec msg = concat (map (\<lambda>w. nat_to_be 8 (unat w))
     (hash_blocks (spec_counter (length msg)) 0 (chunks 128 (msg @ spec_pad (length msg))) blake_iv))"


section \<open>Compression\<close>

lemma blake_sigma_cyclic:
  assumes "r < 16"
  shows "blake_sigma ! r = blake_sigma ! (r mod 10)"
proof -
  consider "r < 10" | "r = 10" | "r = 11" | "r = 12" | "r = 13" | "r = 14" | "r = 15"
    using assms by linarith
  then show ?thesis by cases (simp_all add: blake_sigma_def)
qed

lemma mix_simps:
  assumes "distinct [a, b, c, d]" and "\<forall>k \<in> {a, b, c, d}. k < length v"
  shows "mix_add a b x (v[a := A, b := B, c := C, d := D]) = v[a := A + B + x, b := B, c := C, d := D]"
    and "mix_xor d a n (v[a := A, b := B, c := C, d := D]) = v[a := A, b := B, c := C, d := word_rotr n (D XOR A)]"
    and "mix_sum c d (v[a := A, b := B, c := C, d := D]) = v[a := A, b := B, c := C + D, d := D]"
    and "mix_xor b c n (v[a := A, b := B, c := C, d := D]) = v[a := A, b := word_rotr n (B XOR C), c := C, d := D]"
proof -
  have read: "v[a := A, b := B, c := C, d := D] ! a = A" "v[a := A, b := B, c := C, d := D] ! b = B"
      "v[a := A, b := B, c := C, d := D] ! c = C" "v[a := A, b := B, c := C, d := D] ! d = D"
    using assms by simp_all
  have stores: "v[a := A, b := B, c := C, d := D, a := X] = v[a := X, b := B, c := C, d := D]"
      "v[a := A, b := B, c := C, d := D, b := X] = v[a := A, b := X, c := C, d := D]"
      "v[a := A, b := B, c := C, d := D, c := X] = v[a := A, b := B, c := X, d := D]"
      "v[a := A, b := B, c := C, d := D, d := X] = v[a := A, b := B, c := C, d := X]" for X
    using assms(1) by (simp_all add: list_update_swap [of b a] list_update_swap [of c a] list_update_swap [of d a]
      list_update_swap [of c b] list_update_swap [of d b] list_update_swap [of d c])
  show "mix_add a b x (v[a := A, b := B, c := C, d := D]) = v[a := A + B + x, b := B, c := C, d := D]"
    and "mix_xor d a n (v[a := A, b := B, c := C, d := D]) = v[a := A, b := B, c := C, d := word_rotr n (D XOR A)]"
    and "mix_sum c d (v[a := A, b := B, c := C, d := D]) = v[a := A, b := B, c := C + D, d := D]"
    and "mix_xor b c n (v[a := A, b := B, c := C, d := D]) = v[a := A, b := word_rotr n (B XOR C), c := C, d := D]"
    by (simp_all only: mix_add_def mix_xor_def mix_sum_def read stores)
qed

lemma blake_g_spec:
  assumes "distinct [a, b, c, d]" and "\<forall>k \<in> {a, b, c, d}. k < length v" and "r < 16"
    and "spec_G m r i (v ! a) (v ! b) (v ! c) (v ! d) = (a', b', c', d')"
  shows "blake_g m r a b c d (2 * i) v = v[a := a', b := b', c := c', d := d']"
proof -
  let ?p = "blake_sigma ! (r mod 10) ! (2 * i)" and ?q = "blake_sigma ! (r mod 10) ! (2 * i + 1)"
  let ?v = "v[a := v ! a, b := v ! b, c := v ! c, d := v ! d]"
  define a1 where "a1 = v ! a + v ! b + (m ! ?p XOR blake_c ! ?q)"
  define d1 where "d1 = word_rotr 32 (v ! d XOR a1)"
  define c1 where "c1 = v ! c + d1"
  define b1 where "b1 = word_rotr 25 (v ! b XOR c1)"
  have G: "a' = a1 + b1 + (m ! ?q XOR blake_c ! ?p)" "d' = word_rotr 16 (d1 XOR a')" "c' = c1 + d'"
      "b' = word_rotr 11 (b1 XOR c')"
    using assms(4) by (simp_all only: spec_G_def Let_def prod.inject a1_def [symmetric] d1_def [symmetric]
        c1_def [symmetric] b1_def [symmetric], auto)
  have "blake_g m r a b c d (2 * i) ?v = v[a := a', b := b', c := c', d := d']"
    by (simp only: blake_g_def Let_def blake_sigma_cyclic [OF assms(3)] mix_simps [OF assms(1,2)]
        a1_def [symmetric] d1_def [symmetric] c1_def [symmetric] b1_def [symmetric] G [symmetric])
  then show ?thesis by (simp only: list_update_id)
qed

lemma blake_round_spec:
  assumes "length v = 16" and "r < 16"
  shows "blake_round m r v = spec_round m r v"
proof -
  obtain v0 v1 v2 v3 v4 v5 v6 v7 v8 v9 v10 v11 v12 v13 v14 v15
    where v: "v = [v0, v1, v2, v3, v4, v5, v6, v7, v8, v9, v10, v11, v12, v13, v14, v15]"
    using assms(1) by (auto simp: length_Suc_conv numeral_eq_Suc)
  obtain a0 b0 c0 d0 where g0: "spec_G m r 0 v0 v4 v8 v12 = (a0, b0, c0, d0)" by (metis surj_pair)
  obtain a1 b1 c1 d1 where g1: "spec_G m r 1 v1 v5 v9 v13 = (a1, b1, c1, d1)" by (metis surj_pair)
  obtain a2 b2 c2 d2 where g2: "spec_G m r 2 v2 v6 v10 v14 = (a2, b2, c2, d2)" by (metis surj_pair)
  obtain a3 b3 c3 d3 where g3: "spec_G m r 3 v3 v7 v11 v15 = (a3, b3, c3, d3)" by (metis surj_pair)
  obtain w0 w5 w10 w15 where g4: "spec_G m r 4 a0 b1 c2 d3 = (w0, w5, w10, w15)" by (metis surj_pair)
  obtain w1 w6 w11 w12 where g5: "spec_G m r 5 a1 b2 c3 d0 = (w1, w6, w11, w12)" by (metis surj_pair)
  obtain w2 w7 w8 w13 where g6: "spec_G m r 6 a2 b3 c0 d1 = (w2, w7, w8, w13)" by (metis surj_pair)
  obtain w3 w4 w9 w14 where g7: "spec_G m r 7 a3 b0 c1 d2 = (w3, w4, w9, w14)" by (metis surj_pair)
  note G = blake_g_spec [where r = r and m = m, OF _ _ assms(2)]
  show ?thesis
    unfolding v blake_round_def spec_round_def Let_def
    using g0 g1 g2 g3 g4 g5 g6 g7
    by (simp add: G [where i = 0, simplified] G [where i = 1, simplified] G [where i = 2, simplified]
        G [where i = 3, simplified] G [where i = 4, simplified] G [where i = 5, simplified]
        G [where i = 6, simplified] G [where i = 7, simplified])
qed

lemma length_spec_round [simp]: "length (spec_round m r v) = 16"
  by (simp add: spec_round_def Let_def split: prod.splits)

lemma fold_round_spec:
  "length v = 16 \<Longrightarrow> \<forall>r \<in> set rs. r < 16 \<Longrightarrow> fold (blake_round m) rs v = fold (spec_round m) rs v"
  by (induction rs arbitrary: v) (simp_all add: blake_round_spec)

section \<open>The counter\<close>

text \<open>\<open>limbs arr n\<close>: the four limbs hold \<open>n\<close>, the lower three reduced.\<close>

definition limbs :: "int list \<Rightarrow> nat \<Rightarrow> bool" where
  "limbs arr n \<longleftrightarrow> (\<exists>a0 a1 a2 a3. arr = [a0, a1, a2, a3] \<and> 0 \<le> a0 \<and> a0 < 2 ^ 32 \<and> 0 \<le> a1 \<and> a1 < 2 ^ 32 \<and>
     0 \<le> a2 \<and> a2 < 2 ^ 32 \<and> 0 \<le> a3 \<and> int n = a0 + 2 ^ 32 * (a1 + 2 ^ 32 * (a2 + 2 ^ 32 * a3)))"

lemma limbs_zero: "limbs [0, 0, 0, 0] 0"
  by (simp add: limbs_def)

lemma length_limbs: "limbs arr n \<Longrightarrow> length arr = 4"
  by (auto simp: limbs_def)

lemma limbs_carry:
  assumes "limbs arr n" and "0 \<le> k" and "k < 2 ^ 32"
  shows "limbs (length_carry (arr[0 := arr ! 0 + k])) (n + nat k)"
proof -
  obtain a0 a1 a2 a3 where arr: "arr = [a0, a1, a2, a3]"
      and a: "0 \<le> a0" "a0 < 2 ^ 32" "0 \<le> a1" "a1 < 2 ^ 32" "0 \<le> a2" "a2 < 2 ^ 32" "0 \<le> a3"
      and n: "int n = a0 + 2 ^ 32 * (a1 + 2 ^ 32 * (a2 + 2 ^ 32 * a3))"
    using assms(1) by (auto simp: limbs_def)
  have carry: "length_carry [x, a1, a2, a3] =
      (if x < 2 ^ 32 then [x, a1, a2, a3]
       else if a1 + 1 < 2 ^ 32 then [x - 2 ^ 32, a1 + 1, a2, a3]
       else if a2 + 1 < 2 ^ 32 then [x - 2 ^ 32, a1 + 1 - 2 ^ 32, a2 + 1, a3]
       else [x - 2 ^ 32, a1 + 1 - 2 ^ 32, a2 + 1 - 2 ^ 32, a3 + 1])" for x
    by (simp add: length_carry_def length_carry_from.simps [of 0] length_carry_from.simps [of 1]
        length_carry_from.simps [of 2] length_carry_from.simps [of "Suc 0"]
        length_carry_from.simps [of "Suc (Suc 0)"] length_carry_from.simps [of "Suc (Suc (Suc 0))"] numeral_2_eq_2
        del: power_Suc)
  show ?thesis using a n assms(2,3) by (simp add: arr carry) (auto simp: limbs_def)
qed

lemma two_halves:
  assumes "0 \<le> x" "x < 2 ^ 32" "0 \<le> (y :: int)"
  shows "(push_bit 32 (word_of_int y) OR (word_of_int x AND 0xffffffff) :: u64) = word_of_int (x + 2 ^ 32 * y)"
proof -
  have "(word_of_int x AND 0xffffffff :: u64) = word_of_int (take_bit 32 x)"
    by (simp add: take_bit_eq_mask mask_eq_exp_minus_1 of_int_and_eq)
  moreover have "(push_bit 32 (word_of_int y) :: u64) = word_of_int (push_bit 32 y)"
    by (simp add: push_bit_eq_mult)
  ultimately have "(push_bit 32 (word_of_int y) OR (word_of_int x AND 0xffffffff) :: u64) =
      word_of_int (concat_bit 32 x y)"
    by (simp add: concat_bit_def or.commute of_int_or_eq)
  also have "concat_bit 32 x y = x + 2 ^ 32 * y"
    using assms by (simp add: concat_bit_eq push_bit_eq_mult take_bit_int_eq_self)
  finally show ?thesis .
qed

lemma limbs_halves:
  assumes "limbs arr n"
  shows "push_bit 32 (word_of_int (arr ! 1)) OR (word_of_int (arr ! 0) AND 0xffffffff) = (of_nat (n mod 2 ^ 64) :: u64)"
    and "push_bit 32 (word_of_int (arr ! 3)) OR (word_of_int (arr ! 2) AND 0xffffffff) = (of_nat (n div 2 ^ 64) :: u64)"
proof -
  obtain a0 a1 a2 a3 where arr: "arr = [a0, a1, a2, a3]"
      and a: "0 \<le> a0" "a0 < 2 ^ 32" "0 \<le> a1" "a1 < 2 ^ 32" "0 \<le> a2" "a2 < 2 ^ 32" "0 \<le> a3"
      and n: "int n = a0 + 2 ^ 32 * (a1 + 2 ^ 32 * (a2 + 2 ^ 32 * a3))"
    using assms by (auto simp: limbs_def)
  have "int n = 2 ^ 64 * (a2 + 2 ^ 32 * a3) + (a0 + 2 ^ 32 * a1)" using n by simp
  moreover have "0 \<le> a0 + 2 ^ 32 * a1" "a0 + 2 ^ 32 * a1 < 2 ^ 64" using a by simp_all
  ultimately have halves: "int n mod 2 ^ 64 = a0 + 2 ^ 32 * a1" "int n div 2 ^ 64 = a2 + 2 ^ 32 * a3"
    by (rule int_mod_pos_eq, rule int_div_pos_eq)
  have words: "(of_nat (n mod m) :: u64) = word_of_int (int n mod int m)"
      "(of_nat (n div m) :: u64) = word_of_int (int n div int m)" for m
    by (simp_all only: of_int_of_nat_eq flip: zmod_int zdiv_int)
  have pow: "int (2 ^ 64) = 2 ^ 64" by simp
  show "push_bit 32 (word_of_int (arr ! 1)) OR (word_of_int (arr ! 0) AND 0xffffffff) = (of_nat (n mod 2 ^ 64) :: u64)"
    using two_halves [OF a(1,2,3)] by (simp only: arr words pow halves) simp
  show "push_bit 32 (word_of_int (arr ! 3)) OR (word_of_int (arr ! 2) AND 0xffffffff) = (of_nat (n div 2 ^ 64) :: u64)"
    using two_halves [OF a(5,6,7)] by (simp only: arr words pow halves) (simp add: numeral_3_eq_3 numeral_2_eq_2)
qed

lemma nat_to_le_add: "nat_to_le (j + k) n = nat_to_le j n @ nat_to_le k (n div 256 ^ j)"
  by (induction j arbitrary: n) (simp_all add: div_mult2_eq)

lemma nat_to_le_low: "nat_to_le k (n + 256 ^ k * m) = nat_to_le k n"
proof (induction k arbitrary: n)
  case (Suc k)
  have "n + 256 ^ Suc k * m = n + 256 * (256 ^ k * m)" by simp
  then have "(n + 256 ^ Suc k * m) mod 256 = n mod 256" "(n + 256 ^ Suc k * m) div 256 = n div 256 + 256 ^ k * m"
    by (simp_all only: mod_mult_self2 div_mult_self2)
  then show ?case using Suc.IH [of "n div 256"] by (simp only: nat_to_le.simps)
qed simp

lemma limbs_bytes:
  assumes "limbs arr n" and "n < 2 ^ 128"
  shows "concat (map (\<lambda>i. nat_to_be 4 (unat (word_of_int (arr ! (3 - i)) :: 32 word))) [0..<4]) = nat_to_be 16 n"
proof -
  obtain a0 a1 a2 a3 where arr: "arr = [a0, a1, a2, a3]"
      and a: "0 \<le> a0" "a0 < 2 ^ 32" "0 \<le> a1" "a1 < 2 ^ 32" "0 \<le> a2" "a2 < 2 ^ 32" "0 \<le> a3"
      and n: "int n = a0 + 2 ^ 32 * (a1 + 2 ^ 32 * (a2 + 2 ^ 32 * a3))"
    using assms by (auto simp: limbs_def)
  have a3: "a3 < 2 ^ 32"
  proof (rule ccontr)
    assume "\<not> ?thesis"
    then have "2 ^ 128 \<le> int n" using n a by simp
    then show False using assms(2) by simp
  qed
  have u: "unat (word_of_int x :: 32 word) = nat x" if "0 \<le> x" "x < 2 ^ 32" for x
    using that by (simp add: unsigned_of_int take_bit_int_eq_self)
  define b0 b1 b2 b3 where b: "b0 = nat a0" "b1 = nat a1" "b2 = nat a2" "b3 = nat a3"
  have n': "n = b0 + 256 ^ 4 * (b1 + 256 ^ 4 * (b2 + 256 ^ 4 * b3))" "b0 < 256 ^ 4" "b1 < 256 ^ 4" "b2 < 256 ^ 4"
    using n a unfolding b by (simp_all add: nat_less_iff)
  have step: "nat_to_le (4 + k) (x + 256 ^ 4 * y) = nat_to_le 4 x @ nat_to_le k y" if "x < 256 ^ 4" for x y k
    using that by (simp add: nat_to_le_add nat_to_le_low del: power_numeral)
  have "nat_to_le (4 + (4 + (4 + (4 + 0)))) n = nat_to_le 4 b0 @ nat_to_le 4 b1 @ nat_to_le 4 b2 @ nat_to_le 4 b3 @ []"
    using step [of b3 0 0] n'(2-4) a a3 by (simp only: n'(1) step) (simp add: b nat_to_le_add)
  then have "nat_to_be 16 n = nat_to_be 4 b3 @ nat_to_be 4 b2 @ nat_to_be 4 b1 @ nat_to_be 4 b0"
    by (simp add: nat_to_be_def)
  then show ?thesis using a a3 by (simp add: arr u b upt_rec numeral_3_eq_3 numeral_2_eq_2)
qed

section \<open>Compression and buffering\<close>

lemma length_block_words [simp]: "length (block_words b) = 16"
  by (simp add: block_words_def)

lemma length_blake_c [simp]: "length blake_c = 16"
  by (simp add: blake_c_def)

lemma length_blake_iv [simp]: "length blake_iv = 8"
  by (simp add: blake_iv_def)

lemma length_spec_compress [simp]: "length (spec_compress h b t) = 8"
  by (simp add: spec_compress_def Let_def)

lemma take_blake_c: "take 8 blake_c = take 4 blake_c @ [blake_c ! 4, blake_c ! 5, blake_c ! 6, blake_c ! 7]"
  by (simp add: blake_c_def)

lemma compress_spec:
  assumes "length (bl_h s) = 8" and "limbs (bl_length s) n" and "n < 2 ^ 128"
  shows "blake_compress s = s\<lparr>bl_h := spec_compress (bl_h s) (bl_block s) (if bl_nullt s then 0 else n)\<rparr>"
proof -
  obtain c0 c1 c2 c3 where c: "take 4 blake_c = [c0, c1, c2, c3]"
    by (simp add: blake_c_def)
  obtain h0 h1 h2 h3 h4 h5 h6 h7 where h: "bl_h s = [h0, h1, h2, h3, h4, h5, h6, h7]"
    using assms(1) by (auto simp: length_Suc_conv numeral_eq_Suc)
  note rounds = fold_round_spec [where rs = "[0..<16]" and m = "block_words (bl_block s)"]
  show ?thesis
  proof (cases "bl_nullt s")
    case True
    then show ?thesis
      by (simp add: blake_compress_def spec_compress_def Let_def rounds take_blake_c assms(1) c)
  next
    case False
    then show ?thesis
      by (simp add: blake_compress_def spec_compress_def Let_def rounds take_blake_c assms(1)
          limbs_halves [OF assms(2), unfolded One_nat_def] h c)
  qed
qed

lemma put_bytes_eq:
  "bl_block_offset s + length xs \<le> length (bl_block s) \<Longrightarrow>
   put_bytes xs s = s\<lparr>bl_block := take (bl_block_offset s) (bl_block s) @ xs @ drop (bl_block_offset s + length xs) (bl_block s),
     bl_block_offset := bl_block_offset s + length xs\<rparr>"
proof (induction xs arbitrary: s)
  case Nil
  then show ?case by simp
next
  case (Cons x xs)
  let ?s = "s\<lparr>bl_block := (bl_block s)[bl_block_offset s := x], bl_block_offset := bl_block_offset s + 1\<rparr>"
  have "take (bl_block_offset s + 1) ((bl_block s)[bl_block_offset s := x]) = take (bl_block_offset s) (bl_block s) @ [x]"
    using Cons.prems by (simp add: take_Suc_conv_app_nth)
  then show ?case using Cons.IH [of ?s] Cons.prems by simp
qed

lemma update_short: "bl_block_offset s + length d < 128 \<Longrightarrow> blake_update d s = put_bytes d s"
  by (simp add: blake_update.simps [of d] block_bytes_def)

lemma update_full:
  "bl_block_offset s + length d = 128 \<Longrightarrow> blake_update d s = blake_finish_block (put_bytes d s)"
  by (simp add: blake_update.simps [of d] blake_update.simps [of "[]"] block_bytes_def)

lemma update_split:
  assumes "length d1 = 128 - bl_block_offset s" and "bl_block_offset s \<le> 128"
  shows "blake_update (d1 @ d2) s = blake_update d2 (blake_update d1 s)"
  using assms by (simp add: blake_update.simps [of "d1 @ d2"] update_full block_bytes_def)

text \<open>
  \<open>blake_at h buf n c nl s\<close>: the chain value is \<open>h\<close>, the buffer holds \<open>buf\<close>, the counter is
  \<open>n\<close> with \<open>c\<close> added to its first limb without a carry.
\<close>

definition blake_at :: "u64 list \<Rightarrow> byte list \<Rightarrow> nat \<Rightarrow> int \<Rightarrow> bool \<Rightarrow> blake512_state \<Rightarrow> bool" where
  "blake_at h buf n c nl s \<longleftrightarrow> bl_h s = h \<and> length h = 8 \<and> length (bl_block s) = 128 \<and>
     bl_block_offset s = length buf \<and> length buf < 128 \<and> take (length buf) (bl_block s) = buf \<and>
     (\<exists>arr. limbs arr n \<and> bl_length s = arr[0 := arr ! 0 + c]) \<and> bl_nullt s = nl"

lemma at_new: "blake_at blake_iv [] 0 0 False blake_new"
  using limbs_zero by (auto simp: blake_at_def blake_new_def blake_iv_def block_bytes_def numeral_eq_Suc intro!: exI [of _ "[0, 0, 0, 0]"])

lemma at_add_bits:
  assumes "blake_at h buf n c nl s"
  shows "blake_at h buf n (c + k) nl (add_bits k s)"
proof -
  obtain arr where arr: "limbs arr n" "bl_length s = arr[0 := arr ! 0 + c]"
    using assms by (auto simp: blake_at_def)
  then have "bl_length (add_bits k s) = arr[0 := arr ! 0 + (c + k)]"
    by (simp add: add_bits_def length_limbs add.assoc)
  with arr(1) assms show ?thesis unfolding blake_at_def by (auto simp: add_bits_def)
qed

lemma at_nullt: "blake_at h buf n c nl s \<Longrightarrow> blake_at h buf n c True (s\<lparr>bl_nullt := True\<rparr>)"
  by (simp add: blake_at_def)

lemma at_put:
  assumes "blake_at h buf n c nl s" and "length buf + length d < 128"
  shows "blake_at h (buf @ d) n c nl (blake_update d s)"
proof -
  have "bl_block_offset s + length d \<le> length (bl_block s)" "bl_block_offset s + length d < 128"
    using assms by (simp_all add: blake_at_def)
  then show ?thesis using assms by (simp add: update_short put_bytes_eq blake_at_def)
qed

lemma at_fill:
  assumes "blake_at h buf n c nl s" and "length buf + length d = 128"
    and "0 \<le> c + 1024" and "c + 1024 < 2 ^ 32" and "int m = int n + c + 1024" and "m < 2 ^ 128"
  shows "blake_at (spec_compress h (buf @ d) (if nl then 0 else m)) [] m 0 nl (blake_update d s)"
proof -
  have m: "n + nat (c + 1024) = m" using assms(3,5) by linarith
  obtain arr where arr: "limbs arr n" "bl_length s = arr[0 := arr ! 0 + c]"
    using assms(1) by (auto simp: blake_at_def)
  have len: "length arr = 4" using arr(1) by (rule length_limbs)
  let ?arr = "length_carry (arr[0 := arr ! 0 + (c + 1024)])"
  have l: "limbs ?arr m" using limbs_carry [OF arr(1) assms(3,4)] by (simp only: m)
  have "blake_update d s = blake_finish_block (put_bytes d s)"
    using assms(1,2) by (intro update_full) (simp add: blake_at_def)
  also have "put_bytes d s = s\<lparr>bl_block := buf @ d, bl_block_offset := 128\<rparr>"
    using assms(1,2) by (simp add: put_bytes_eq blake_at_def)
  also have "blake_finish_block \<dots> = s\<lparr>bl_block := buf @ d, bl_block_offset := 0, bl_length := ?arr,
      bl_h := spec_compress h (buf @ d) (if nl then 0 else m)\<rparr>"
    using assms(1,6) l arr(2) len
    by (simp add: blake_finish_block_def add_bits_def block_bytes_def compress_spec blake_at_def add.assoc)
  finally show ?thesis using assms(1,2) l limbs_carry [of ?arr _ 0] length_limbs [OF l]
    by (auto simp: blake_at_def intro!: exI [of _ ?arr])
qed

section \<open>The whole message\<close>

text \<open>
  A state that has absorbed \<open>msg\<close>: the full blocks are compressed with the counters
  \<open>1024 * (i + 1)\<close>, the rest is buffered.
\<close>

definition blake_rep :: "byte list \<Rightarrow> blake512_state \<Rightarrow> bool" where
  "blake_rep msg s \<longleftrightarrow> (let q = length msg div 128 in
     blake_at (hash_blocks (\<lambda>i. 1024 * (i + 1)) 0 (chunks 128 (take (128 * q) msg)) blake_iv)
       (drop (128 * q) msg) (1024 * q) 0 False s)"

lemma hash_blocks_append:
  "hash_blocks t i (bs @ cs) h = hash_blocks t (i + length bs) cs (hash_blocks t i bs h)"
  by (induction bs arbitrary: i h) simp_all

lemma hash_blocks_cong:
  "(\<And>j. i \<le> j \<Longrightarrow> j < i + length bs \<Longrightarrow> t j = u j) \<Longrightarrow> hash_blocks t i bs h = hash_blocks u i bs h"
  by (induction bs arbitrary: i h) simp_all

lemma chunks_append:
  "length xs = n * q \<Longrightarrow> 0 < n \<Longrightarrow> chunks n (xs @ ys) = chunks n xs @ chunks n ys \<and> length (chunks n xs) = q"
proof (induction q arbitrary: xs)
  case (Suc q)
  then have "xs \<noteq> []" by auto
  then show ?case using Suc.IH [of "drop n xs"] Suc.prems by (simp add: chunks_step)
qed simp

lemma chunks_single: "length xs = n \<Longrightarrow> 0 < n \<Longrightarrow> chunks n xs = [xs]"
  by (cases xs) (simp_all add: chunks_step)

lemma div_add_small:
  assumes "(a :: nat) mod n + b < n"
  shows "(a + b) div n = a div n"
proof -
  have "a + b = (a mod n + b) + n * (a div n)" using mod_mult_div_eq [of a n] by linarith
  then have "(a + b) div n = ((a mod n + b) + n * (a div n)) div n" by (rule arg_cong)
  also have "\<dots> = a div n + (a mod n + b) div n" using assms by (intro div_mult_self2) auto
  finally show ?thesis using assms by simp
qed

lemma fill_up: "(r :: nat) < 128 \<Longrightarrow> r + 128 * q = l \<Longrightarrow> l + (128 - r) = 128 * (q + 1)"
  by simp

lemma rep_new: "blake_rep [] blake_new"
  using at_new by (simp add: blake_rep_def)

lemma update_rep:
  "blake_rep msg s \<Longrightarrow> 8 * (length msg + length data) < 2 ^ 128 \<Longrightarrow> blake_rep (msg @ data) (blake_update data s)"
proof (induction "length data" arbitrary: msg data s rule: less_induct)
  case less
  let ?q = "length msg div 128" and ?r = "length msg mod 128" and ?buf = "drop (128 * (length msg div 128)) msg"
  let ?h = "hash_blocks (\<lambda>i. 1024 * (i + 1)) 0 (chunks 128 (take (128 * ?q) msg)) blake_iv"
  have at: "blake_at ?h ?buf (1024 * ?q) 0 False s" using less.prems(1) by (simp add: blake_rep_def Let_def)
  have le: "128 * ?q \<le> length msg" by simp
  then have lens: "length ?buf = ?r" "length (take (128 * ?q) msg) = 128 * ?q"
    by (simp_all only: length_drop length_take minus_mult_div_eq_mod min_absorb2)
  show ?case
  proof (cases "?r + length data < 128")
    case True
    have "(length msg + length data) div 128 = ?q" using True by (rule div_add_small)
    then show ?thesis 
      using at_put [OF at, of data] lens(1) le by (simp only: blake_rep_def Let_def length_append) simp
  next
    case False
    define d1 d2 where d: "d1 = take (128 - ?r) data" "d2 = drop (128 - ?r) data"
    have len1: "length d1 = 128 - ?r" using False by (simp add: d)
    have data: "data = d1 @ d2" by (simp add: d)
    have r: "?r < 128" by simp
    have l: "length (msg @ d1) = 128 * (?q + 1)" 
      using fill_up [OF r mod_mult_div_eq] len1 by (simp only: length_append)
    have count: "1024 * ?q + 1024 < 2 ^ 128" using less.prems(2) l data by simp
    have full: "blake_at (spec_compress ?h (?buf @ d1) (1024 * ?q + 1024)) [] (1024 * ?q + 1024) 0 False (blake_update d1 s)"
      using at_fill [OF at, of d1 "1024 * ?q + 1024"] len1 lens(1) count r by simp
    have "take (128 * (?q + 1)) (msg @ d1) = take (128 * ?q) msg @ (?buf @ d1)"
      using l by simp
    moreover have "chunks 128 (?buf @ d1) = [?buf @ d1]" using len1 lens(1) r by (intro chunks_single) auto
    ultimately have chain: "hash_blocks (\<lambda>i. 1024 * (i + 1)) 0 (chunks 128 (take (128 * (?q + 1)) (msg @ d1))) blake_iv =
        spec_compress ?h (?buf @ d1) (1024 * ?q + 1024)"
      using chunks_append [OF lens(2), of "?buf @ d1"] by (simp add: hash_blocks_append add.commute del: take_append)
    have "length (msg @ d1) div 128 = ?q + 1" "drop (128 * (?q + 1)) (msg @ d1) = []"
        "1024 * (?q + 1) = 1024 * ?q + (1024 :: nat)"
      using l by simp_all
    then have rep: "blake_rep (msg @ d1) (blake_update d1 s)"
      using full by (simp only: blake_rep_def Let_def chain)
    have "blake_rep ((msg @ d1) @ d2) (blake_update d2 (blake_update d1 s))"
      using less.hyps [OF _ rep, of d2] less.prems(2) r False by (simp add: d)
    moreover have "blake_update data s = blake_update d2 (blake_update d1 s)"
      unfolding data using at len1 lens(1) r by (intro update_split) (auto simp: blake_at_def)
    ultimately show ?thesis by (simp add: data)
  qed
qed

section \<open>Padding\<close>

definition pad_bits :: "nat \<Rightarrow> byte list" where
  "pad_bits r =
     (if r = 111 then [0x81] else if r < 111 then 0x80 # replicate (110 - r) 0 @ [0x01]
      else 0x80 # replicate (238 - r) 0 @ [0x01])"

lemma spec_pad_eq: "spec_pad l = pad_bits (l mod 128) @ nat_to_be 16 (8 * l)"
proof -
  define r where "r = l mod 128"
  have r: "r < 128" by (simp add: r_def)
  consider "r = 111" | "r < 111" | "111 < r" by linarith
  then show ?thesis
  proof cases
    case 2
    then have "(111 + (128 - r)) mod 128 = 111 - r" by (simp add: mod_if)
    with 2 show ?thesis by (simp add: spec_pad_def pad_bits_def r_def [symmetric])
  next
    case 3
    then have "(111 + (128 - r)) mod 128 = 239 - r" using r by simp
    with 3 r show ?thesis by (simp add: spec_pad_def pad_bits_def r_def [symmetric])
  qed (simp add: spec_pad_def pad_bits_def r_def [symmetric])
qed

lemma zero_padding: "blake_zero_padding = 0x80 # replicate 127 0"
  by (simp add: blake_zero_padding_def block_bytes_def numeral_eq_Suc)

lemma length_zero_padding [simp]: "length blake_zero_padding = 128"
  by (simp add: zero_padding)

text \<open>The last blocks: what is buffered, the padding and the length.\<close>

definition tail_counter :: "nat \<Rightarrow> nat \<Rightarrow> nat \<Rightarrow> nat" where
  "tail_counter r t i = (if i = 0 \<and> 0 < r then t else 0)"

lemma padding_at:
  assumes "blake_at h buf n 0 False s" and "n + 8 * length buf < 2 ^ 128"
  shows "bl_h (blake_padding s) = hash_blocks (tail_counter (length buf) (n + 8 * length buf)) 0
    (chunks 128 (buf @ pad_bits (length buf) @ nat_to_be 16 (n + 8 * length buf))) h"
proof -
  define r where "r = length buf"
  let ?t = "n + 8 * r" and ?len = "nat_to_be 16 (n + 8 * r)"
  have r: "r < 128" "bl_block_offset s = r" using assms(1) by (simp_all add: blake_at_def r_def)
  have t: "?t < 2 ^ 128" using assms(2) by (simp add: r_def)
  obtain arr where arr: "limbs arr n" "bl_length s = arr[0 := arr ! 0 + 0]"
    using assms(1) by (auto simp: blake_at_def)
  have "limbs (length_carry (bl_length (add_bits (int r * 8) s))) (n + nat (int r * 8))"
    using limbs_carry [OF arr(1), of "int r * 8"] r(1) arr(2) length_limbs [OF arr(1)] by (simp add: add_bits_def)
  then have len: "concat (map (\<lambda>i. nat_to_be 4 (unat (word_of_int
        (length_carry (bl_length (add_bits (int r * 8) s)) ! (3 - i)) :: 32 word))) [0..<4]) = ?len"
    using limbs_bytes [OF _ t] by (simp add: nat_mult_distrib mult.commute)
  note pad = blake_padding_def [of s, unfolded r(2), unfolded Let_def len]
  have finish: "bl_h (blake_update ?len (add_bits (- 128) s')) = spec_compress g (b @ ?len) (if nl then 0 else m)"
    if "blake_at g b k c nl s'" "length b = 112" "0 \<le> c + 896" "c + 896 < 2 ^ 32" "int m = int k + c + 896" "m < 2 ^ 128"
    for g b k c nl s' m
    using at_fill [OF at_add_bits [OF that(1), of "- 128"], of ?len m] that(2-6) by (simp add: blake_at_def)
  consider "r = 111" | "r < 111" | "111 < r" by linarith
  then have "bl_h (blake_padding s) = hash_blocks (tail_counter r ?t) 0 (chunks 128 (buf @ pad_bits r @ ?len)) h"
  proof cases
    case 1
    have "blake_at h (buf @ [0x81]) n (- 8) False (blake_update [0x81] (add_bits (- 8) s))"
      using at_put [OF at_add_bits [OF assms(1), of "- 8"], of "[0x81]"] 1 by (simp add: r_def)
    from finish [OF this, of ?t] show ?thesis using 1 t
      by (simp add: pad pad_bits_def chunks_single r_def tail_counter_def)
  next
    case 2
    define s0 where "s0 = (if r = 0 then s\<lparr>bl_nullt := True\<rparr> else s)"
    let ?d = "take (111 - r) blake_zero_padding" and ?c = "- (int (111 - r) * 8)"
    have "blake_at h buf n 0 (r = 0) s0" using assms(1) at_nullt [OF assms(1)] by (simp add: s0_def)
    from at_put [OF at_add_bits [OF this, of ?c], of ?d]
    have "blake_at h (buf @ ?d) n ?c (r = 0) (blake_update ?d (add_bits ?c s0))"
      using 2 by (simp add: r_def zero_padding)
    from at_add_bits [OF at_put [OF this, of "[0x01]"], of "- 8"]
    have at: "blake_at h (buf @ ?d @ [0x01]) n (?c + - 8) (r = 0) (add_bits (- 8) (blake_update [0x01] (blake_update ?d (add_bits ?c s0))))"
      using 2 by (simp add: r_def zero_padding)
    have d: "?d @ [0x01] = pad_bits r" using 2 by (simp add: pad_bits_def zero_padding take_Cons')
    from finish [OF at, of ?t]
    have "bl_h (blake_padding s) = spec_compress h ((buf @ ?d @ [0x01]) @ ?len) (if r = 0 then 0 else ?t)"
      using 2 t by (simp add: pad s0_def [symmetric] of_nat_diff r_def [symmetric] zero_padding)
    moreover have "chunks 128 (buf @ pad_bits r @ ?len) = [(buf @ ?d @ [0x01]) @ ?len]"
      unfolding d [symmetric] append_assoc using 2 by (intro chunks_single) (simp_all add: zero_padding r_def)
    ultimately show ?thesis using 2 by (simp add: tail_counter_def)
  next
    case 3
    let ?d = "take (128 - r) blake_zero_padding" and ?c = "- (int (128 - r) * 8)"
      and ?e = "take 111 (drop 1 blake_zero_padding)"
    define s1 where "s1 = blake_update ?d (add_bits ?c s)"
    define g where "g = spec_compress h (buf @ ?d) ?t"
    from at_fill [OF at_add_bits [OF assms(1), of ?c], of ?d ?t]
    have "blake_at g [] ?t 0 False s1"
      using 3 r t by (simp add: r_def zero_padding g_def s1_def)
    from at_nullt [OF at_put [OF at_add_bits [OF this, of "- 888"], of ?e]]
    have "blake_at g ?e ?t (- 888) True ((blake_update ?e (add_bits (- 888) s1))\<lparr>bl_nullt := True\<rparr>)"
      by (simp add: zero_padding)
    from at_add_bits [OF at_put [OF this, of "[0x01]"], of "- 8"]
    have at: "blake_at g (?e @ [0x01]) ?t (- 896) True
        (add_bits (- 8) (blake_update [0x01] ((blake_update ?e (add_bits (- 888) s1))\<lparr>bl_nullt := True\<rparr>)))"
      by (simp add: zero_padding)
    have d: "pad_bits r = ?d @ ?e @ [0x01]"
      using 3 r by (simp add: pad_bits_def zero_padding take_Cons' replicate_add [symmetric])
    from finish [OF at, of ?t]
    have "bl_h (blake_padding s) = spec_compress g ((?e @ [0x01]) @ ?len) 0"
      using 3 t by (simp add: pad s1_def)
    moreover have "chunks 128 (buf @ pad_bits r @ ?len) = [buf @ ?d, (?e @ [0x01]) @ ?len]"
      using 3 r chunks_append [of "buf @ ?d" 128 1 "(?e @ [0x01]) @ ?len"]
      unfolding d by (simp add: chunks_single zero_padding r_def)
    ultimately show ?thesis using 3 by (simp add: tail_counter_def g_def)
  qed
  then show ?thesis by (simp only: r_def)
qed


lemma update_pieces:
  "blake_rep msg s \<Longrightarrow> 8 * (length msg + length (concat pieces)) < 2 ^ 128 \<Longrightarrow>
   blake_rep (msg @ concat pieces) (fold blake_update pieces s)"
proof (induction pieces arbitrary: msg s)
  case (Cons d pieces)
  have "blake_rep (msg @ d) (blake_update d s)" using Cons.prems by (intro update_rep) simp_all
  from Cons.IH [OF this] Cons.prems(2) show ?case by simp
qed simp

lemma digest_rep:
  assumes "blake_rep msg s" and "8 * length msg < 2 ^ 128"
  shows "blake_digest s = blake512_spec msg"
proof -
  define l q where "l = length msg" and "q = length msg div 128"
  let ?full = "take (128 * q) msg" and ?buf = "drop (128 * q) msg"
  let ?h = "hash_blocks (\<lambda>i. 1024 * (i + 1)) 0 (chunks 128 ?full) blake_iv"
  have le: "128 * q \<le> l" by (simp add: q_def l_def)
  have buf: "length ?buf = l mod 128" unfolding l_def q_def length_drop by (rule minus_mult_div_eq_mod)
  have count: "1024 * q + 8 * length ?buf = 8 * l" using le by (simp add: l_def diff_mult_distrib2)
  have full: "length ?full = 128 * q" using le by (simp add: l_def)
  have at: "blake_at ?h ?buf (1024 * q) 0 False s" using assms(1) by (simp add: blake_rep_def Let_def q_def)
  have "bl_h (blake_padding s) = hash_blocks (tail_counter (l mod 128) (8 * l)) 0 (chunks 128 (?buf @ spec_pad l)) ?h"
    using padding_at [OF at, unfolded count, unfolded buf] assms(2) by (simp only: spec_pad_eq l_def)
  also have "\<dots> = hash_blocks (spec_counter l) q (chunks 128 (?buf @ spec_pad l)) ?h"
  proof -
    have shift: "hash_blocks t (i + k) bs h = hash_blocks (\<lambda>j. t (j + k)) i bs h" for t i k bs h
      by (induction bs arbitrary: i h) (simp_all, metis add_Suc)
    have split: "l = 128 * q + l mod 128" "l mod 128 < 128" unfolding q_def l_def by simp_all
    have tail: "tail_counter r (8 * l) j = spec_counter l (j + q)" if "l = 128 * q + r" "r < 128" for j r
    proof (cases "j = 0 \<and> 0 < r")
      case True
      then have "128 * (j + q) < l" "l \<le> 128 * (j + q + 1)" using that by simp_all
      then show ?thesis using True by (simp add: tail_counter_def spec_counter_def)
    next
      case False
      then have "\<not> 128 * (j + q) < l" using that by (cases j) simp_all
      then show ?thesis using False by (auto simp: tail_counter_def spec_counter_def)
    qed
    show ?thesis unfolding tail [OF split] using shift [of "spec_counter l" 0 q] by simp
  qed
  also have "?h = hash_blocks (spec_counter l) 0 (chunks 128 ?full) blake_iv"
  proof (rule hash_blocks_cong)
    fix j
    assume "j < 0 + length (chunks 128 ?full)"
    then have "j < q" using chunks_append [OF full, of "[]"] by simp
    then have "128 * (j + 1) \<le> l" using le by simp
    then show "1024 * (j + 1) = spec_counter l j" by (simp add: spec_counter_def)
  qed
  also have "hash_blocks (spec_counter l) q (chunks 128 (?buf @ spec_pad l)) \<dots> =
      hash_blocks (spec_counter l) 0 (chunks 128 (msg @ spec_pad l)) blake_iv"
    using chunks_append [OF full, of "?buf @ spec_pad l"] by (simp add: hash_blocks_append flip: append_assoc)
  finally have h: "bl_h (blake_padding s) = \<dots>" .
  have "length (hash_blocks t i bs g) = 8" if "length g = 8" for t i bs and g :: "u64 list"
    using that by (induction bs arbitrary: i g) simp_all
  then have "map ((!) (bl_h (blake_padding s))) [0..<8] = bl_h (blake_padding s)"
    unfolding h by (metis length_blake_iv map_nth)
  then have "map (\<lambda>i. nat_to_be 8 (unat (bl_h (blake_padding s) ! i))) [0..<8] =
      map (\<lambda>w. nat_to_be 8 (unat w)) (bl_h (blake_padding s))"
    by (metis (no_types, lifting) map_map comp_def map_cong)
  then show ?thesis by (simp add: blake_digest_def Let_def blake512_spec_def h l_def)
qed

text \<open>
  C17: The incremental hash is BLAKE-512: however the message is cut into \<open>update\<close> calls, and
  in one call, the digest is the hash of the whole message - padded to whole blocks, each
  compressed with the number of message bits up to its end, 0 when it holds none.
\<close>

theorem blake512_is_blake:
  assumes "8 * length (concat pieces) < 2 ^ 128"
  shows "blake_digest (fold blake_update pieces blake_new) = blake512_spec (concat pieces) \<and>
    blake512 (concat pieces) = blake512_spec (concat pieces)"
  using assms digest_rep [OF update_pieces [OF rep_new, of pieces]]
    digest_rep [OF update_rep [OF rep_new, of "concat pieces"]]
  by (simp add: blake512_def)

theorem blake512_is_blake_witness:
  "blake_digest (blake_update [2, 3] (blake_update [1] blake_new)) = blake512_spec [1, 2, 3]"
  using blake512_is_blake [of "[[1], [2, 3]]"] by simp

end
