(* ===== verification/Note_Cipher.thy ===== *)
theory Note_Cipher
  imports Babyjubjub
begin

text \<open>
  Note commitments (\<open>crates/core/src/note.rs\<close>), the note cipher
  (\<open>crates/core/src/cipher.rs\<close>) and the SHA-256 input digest
  (\<open>crates/core/src/hash_utils.rs\<close>).  HKDF-SHA-256, SHA-256 and the AES-256-CTR keystream
  are third-party: the record \<open>primitives\<close> carries them.
\<close>

section \<open>Poseidon calls\<close>

text \<open>\<open>poseidon\<close> asserts between 1 and 16 inputs before it hashes.\<close>

definition poseidon :: "(fr list \<Rightarrow> fr) \<Rightarrow> fr list \<Rightarrow> (fr, 'e) result" where
  "poseidon ps inputs =
     (let arity = length inputs in
      rbind (rassert (1 \<le> arity)) (\<lambda>_.
      rbind (rassert (arity \<le> 16)) (\<lambda>_. Ok (ps inputs))))"

lemma poseidon_Ok [simp]: "1 \<le> length xs \<Longrightarrow> length xs \<le> 16 \<Longrightarrow> poseidon ps xs = Ok (ps xs)"
  by (simp add: poseidon_def Let_def)

lemma poseidon_Panic_iff: "poseidon ps xs = Panic \<longleftrightarrow> xs = [] \<or> 16 < length xs"
  by (auto simp: poseidon_def Let_def rassert_def not_less Suc_le_eq)

lemma poseidon_Ok_iff: "poseidon ps xs = Ok h \<longleftrightarrow> xs \<noteq> [] \<and> length xs \<le> 16 \<and> h = ps xs"
  by (auto simp: poseidon_def Let_def rassert_def Suc_le_eq)

section \<open>Note commitments\<close>

definition owner_hash :: "(fr list \<Rightarrow> fr) \<Rightarrow> point \<Rightarrow> fr \<Rightarrow> (fr, 'e) result" where
  "owner_hash ps public_key shared_secret = poseidon ps [fst public_key, snd public_key, shared_secret]"

definition note_id :: "(fr list \<Rightarrow> fr) \<Rightarrow> fr \<Rightarrow> fr \<Rightarrow> fr \<Rightarrow> (fr, 'e) result" where
  "note_id ps owner amount token = poseidon ps [owner, amount, token]"

definition nullifier :: "(fr list \<Rightarrow> fr) \<Rightarrow> fr \<Rightarrow> point \<Rightarrow> (fr, 'e) result" where
  "nullifier ps shared_secret public_key = poseidon ps [shared_secret, fst public_key, snd public_key]"

section \<open>The cipher\<close>

text \<open>
  \<open>pr_hkdf salt ikm info n\<close> expands to \<open>n\<close> bytes, \<open>pr_aes_ctr key counter n\<close> is the first \<open>n\<close>
  bytes of the keystream, \<open>pr_sha256\<close> the digest.
\<close>

record primitives =
  pr_sha256 :: "byte list \<Rightarrow> byte list"
  pr_hkdf :: "byte list \<Rightarrow> byte list \<Rightarrow> byte list \<Rightarrow> nat \<Rightarrow> byte list"
  pr_aes_ctr :: "byte list \<Rightarrow> byte list \<Rightarrow> nat \<Rightarrow> byte list"

text \<open>The documented output sizes.\<close>

definition sized :: "primitives \<Rightarrow> bool" where
  "sized pr \<longleftrightarrow> (\<forall>x. length (pr_sha256 pr x) = 32) \<and> (\<forall>s k i n. length (pr_hkdf pr s k i n) = n) \<and>
     (\<forall>k c n. length (pr_aes_ctr pr k c n) = n)"

definition bytes_of_string :: "string \<Rightarrow> byte list" where
  "bytes_of_string s = map (\<lambda>c. of_nat (of_char c)) s"

definition note_key_salt :: "byte list" where
  "note_key_salt = bytes_of_string ''curvy/agg-note/v1''"

definition note_key_info :: "byte list" where
  "note_key_info = bytes_of_string ''curvy/agg-note/v1:amount+token''"

definition keystream_bytes :: nat where
  "keystream_bytes = 64"

definition derive_note_key :: "primitives \<Rightarrow> nat \<Rightarrow> (byte list, 'e) result" where
  "derive_note_key pr shared_secret =
     rbind (biguint_to_be_32 shared_secret) (\<lambda>input.
       Ok (pr_hkdf pr note_key_salt input note_key_info 32))"

definition derive_counter_block :: "primitives \<Rightarrow> nat \<times> nat \<Rightarrow> (byte list, 'e) result" where
  "derive_counter_block pr ephemeral_key =
     rbind (biguint_to_be_32 (fst ephemeral_key)) (\<lambda>x.
     rbind (biguint_to_be_32 (snd ephemeral_key)) (\<lambda>y.
       slice_to (pr_sha256 pr (x @ y)) 16))"

definition ctr_keystream_fields :: "primitives \<Rightarrow> nat \<Rightarrow> nat \<times> nat \<Rightarrow> (fr \<times> fr, 'e) result" where
  "ctr_keystream_fields pr shared_secret ephemeral_key =
     rbind (derive_note_key pr shared_secret) (\<lambda>key.
     rbind (derive_counter_block pr ephemeral_key) (\<lambda>counter.
       let ks = pr_aes_ctr pr key counter keystream_bytes in
     rbind (slice_to ks 64) (\<lambda>ks.
       Ok (fr_from_be_bytes_mod (take 32 ks), fr_from_be_bytes_mod (drop 32 ks)))))"

definition encrypt_amount_token :: "primitives \<Rightarrow> fr \<Rightarrow> fr \<Rightarrow> nat \<Rightarrow> nat \<times> nat \<Rightarrow> (fr \<times> fr, 'e) result" where
  "encrypt_amount_token pr amount token shared_secret ephemeral_key =
     rbind (ctr_keystream_fields pr shared_secret ephemeral_key) (\<lambda>(ks_amount, ks_token).
       Ok (amount + ks_amount, token + ks_token))"

definition decrypt_amount_token :: "primitives \<Rightarrow> fr \<Rightarrow> fr \<Rightarrow> nat \<Rightarrow> nat \<times> nat \<Rightarrow> (fr \<times> fr, 'e) result" where
  "decrypt_amount_token pr encrypted_amount encrypted_token shared_secret ephemeral_key =
     rbind (ctr_keystream_fields pr shared_secret ephemeral_key) (\<lambda>(ks_amount, ks_token).
       Ok (encrypted_amount - ks_amount, encrypted_token - ks_token))"

text \<open>Key material below \<open>2 ^ 256\<close> is packed; anything larger panics.\<close>

definition key_material :: "nat \<Rightarrow> nat \<times> nat \<Rightarrow> bool" where
  "key_material shared_secret ephemeral_key \<longleftrightarrow>
     shared_secret < 2 ^ 256 \<and> fst ephemeral_key < 2 ^ 256 \<and> snd ephemeral_key < 2 ^ 256"

lemma ctr_keystream_fields_cases:
  fixes ks :: "(fr \<times> fr, 'e) result"
  assumes "sized pr" and "ks = ctr_keystream_fields pr ss eph"
  shows "if key_material ss eph then \<exists>ka kt. ks = Ok (ka, kt) else ks = Panic"
  using assms
  by (simp add: ctr_keystream_fields_def derive_note_key_def derive_counter_block_def biguint_to_be_32_eq
      slice_to_def sized_def key_material_def keystream_bytes_def Let_def)

lemma encrypt_Ok_iff:
  fixes r :: "(fr \<times> fr, 'e) result"
  assumes "sized pr" and "r = encrypt_amount_token pr a t ss eph"
  shows "if key_material ss eph then \<exists>c. r = Ok c else r = Panic"
  using ctr_keystream_fields_cases [OF assms(1) refl, of ss eph, where 'e = 'e] assms(2)
  by (auto simp: encrypt_amount_token_def split: if_splits)

lemma decrypt_encrypt:
  assumes "(encrypt_amount_token pr a t ss eph :: (fr \<times> fr, 'e) result) = Ok (ea, et)"
  shows "(decrypt_amount_token pr ea et ss eph :: (fr \<times> fr, 'e) result) = Ok (a, t)"
  using assms by (auto simp: encrypt_amount_token_def decrypt_amount_token_def rbind_Ok_iff)

lemma encrypt_decrypt:
  assumes "(decrypt_amount_token pr ea et ss eph :: (fr \<times> fr, 'e) result) = Ok (a, t)"
  shows "(encrypt_amount_token pr a t ss eph :: (fr \<times> fr, 'e) result) = Ok (ea, et)"
  using assms by (auto simp: encrypt_amount_token_def decrypt_amount_token_def rbind_Ok_iff)

section \<open>The SHA-256 digest of packed integers\<close>

definition sha256_bigint :: "(byte list \<Rightarrow> byte list) \<Rightarrow> nat list \<Rightarrow> (nat, 'e) result" where
  "sha256_bigint sha inputs =
     rbind (rfold inputs (\<lambda>x h. rbind (biguint_to_be_32 x) (\<lambda>bs. Ok (h @ bs))) []) (\<lambda>h.
       Ok (nat_of_be (sha h)))"

definition packed_256 :: "nat list \<Rightarrow> byte list" where
  "packed_256 ns = concat (map (nat_to_be 32) ns)"

lemma sha256_bigint_absorb:
  "rfold ns (\<lambda>x h. rbind (biguint_to_be_32 x) (\<lambda>bs. Ok (h @ bs))) acc =
    (if \<forall>n \<in> set ns. n < 2 ^ 256 then Ok (acc @ packed_256 ns) else Panic)"
  by (induction ns arbitrary: acc) (auto simp: biguint_to_be_32_eq packed_256_def)

lemma sha256_bigint_eq:
  "sha256_bigint sha ns =
    (if \<forall>n \<in> set ns. n < 2 ^ 256 then Ok (nat_of_be (sha (packed_256 ns))) else Panic)"
  by (simp add: sha256_bigint_def sha256_bigint_absorb)

lemma packed_256_inj:
  assumes "length ms = length ns" and "\<forall>n \<in> set ms. n < 2 ^ 256" and "\<forall>n \<in> set ns. n < 2 ^ 256"
    and "packed_256 ms = packed_256 ns"
  shows "ms = ns"
  using assms
proof (induction ms ns rule: list_induct2)
  case (Cons m ms n ns)
  then have "nat_to_be 32 m = nat_to_be 32 n" "packed_256 ms = packed_256 ns"
    by (simp_all add: packed_256_def)
  moreover have "m = n"
  proof -
    have "m < 256 ^ 32" "n < 256 ^ 32" using Cons.prems by simp_all
    then show "m = n" using \<open>nat_to_be 32 m = nat_to_be 32 n\<close> by (metis nat_of_be_to_be)
  qed
  ultimately show ?case using Cons by simp
qed simp

section \<open>What the cipher promises\<close>

text \<open>
  The note cipher is a one-time pad in the field: with key material below \<open>2 ^ 256\<close> it
  encrypts, and decryption under the same material is its two-sided inverse; larger material
  panics instead of being truncated.
\<close>

theorem note_cipher_inverts:
  assumes "sized pr"
  shows "if key_material ss eph
    then (\<exists>ea et. (encrypt_amount_token pr amount token ss eph :: (fr \<times> fr, 'e) result) = Ok (ea, et) \<and>
        (decrypt_amount_token pr ea et ss eph :: (fr \<times> fr, 'e) result) = Ok (amount, token)) \<and>
      (\<exists>a t. (decrypt_amount_token pr amount token ss eph :: (fr \<times> fr, 'e) result) = Ok (a, t) \<and>
        (encrypt_amount_token pr a t ss eph :: (fr \<times> fr, 'e) result) = Ok (amount, token))
    else (encrypt_amount_token pr amount token ss eph :: (fr \<times> fr, 'e) result) = Panic"
  using ctr_keystream_fields_cases [OF assms refl, of ss eph, where 'e = 'e]
  by (auto simp: encrypt_amount_token_def decrypt_amount_token_def split: if_splits)

theorem note_cipher_inverts_witness:
  "\<exists>ea et. (encrypt_amount_token \<lparr>pr_sha256 = \<lambda>x. replicate 32 1, pr_hkdf = \<lambda>s k i n. replicate n 2,
      pr_aes_ctr = \<lambda>k c n. replicate n 3\<rparr> 5 6 7 (8, 9) :: (fr \<times> fr, unit) result) = Ok (ea, et)"
  using note_cipher_inverts [of "\<lparr>pr_sha256 = \<lambda>x. replicate 32 1, pr_hkdf = \<lambda>s k i n. replicate n 2,
      pr_aes_ctr = \<lambda>k c n. replicate n 3\<rparr>" 7 "(8, 9)" 5 6, where 'e = unit]
  by (auto simp: sized_def key_material_def)

end
