(* ===== verification/Eddsa.thy ===== *)
theory Eddsa
  imports Babyjubjub Blake512 Note_Cipher
begin

text \<open>
  EdDSA-Poseidon of \<open>crates/core/src/eddsa.rs\<close>: seed keys hashed with BLAKE-512 and clamped,
  scalar-native keys, the deterministic nonce, signing and verification.  The Poseidon
  permutation \<open>ps\<close> and HMAC-SHA-512 (\<open>hmac key message\<close>, 64 bytes) are third-party.
\<close>

section \<open>Signatures and keys\<close>

record signature =
  sg_r8 :: point
  sg_s :: nat

record scalar_signature =
  ss_r8 :: point
  ss_s :: nat

definition to_signature :: "scalar_signature \<Rightarrow> signature" where
  "to_signature sig = \<lparr>sg_r8 = ss_r8 sig, sg_s = ss_s sig\<rparr>"

record scalar_signing_key =
  sk_secret :: "byte list"
  sk_public :: point

definition signing_key_from_secret :: "byte list \<Rightarrow> (scalar_signing_key, 'e) result" where
  "signing_key_from_secret secret =
     rbind (public_key_from_scalar secret) (\<lambda>public. Ok \<lparr>sk_secret = secret, sk_public = public\<rparr>)"

definition signing_key_from_decimal :: "byte list \<Rightarrow> (scalar_signing_key, scalar_signature_error) result" where
  "signing_key_from_decimal value =
     rbind (map_err InvalidKey (secret_try_from_dec value)) signing_key_from_secret"

definition signing_key_from_le_bytes :: "byte list \<Rightarrow> (scalar_signing_key, scalar_signature_error) result" where
  "signing_key_from_le_bytes bytes =
     rbind (map_err InvalidKey (secret_try_from_le_bytes bytes)) signing_key_from_secret"

section \<open>Seed keys\<close>

definition derive_public_key :: "byte list \<Rightarrow> (point, 'e) result" where
  "derive_public_key private_key = base_mul (shift_right_3 (pruned_scalar_buffer blake512 private_key))"

definition pub_from_private_key_hex :: "byte list \<Rightarrow> (point, hex_decode_error) result" where
  "pub_from_private_key_hex hex = rbind (from_hex_exact 32 hex) derive_public_key"

definition ephemeral_pub_key_bytes :: "byte list \<Rightarrow> (point, 'e) result" where
  "ephemeral_pub_key_bytes scalar = base_mul scalar"

text \<open>The four 64-bit digits of the scalar, missing ones zero.\<close>

definition ephemeral_pub_key :: "nat \<Rightarrow> (point, 'e) result" where
  "ephemeral_pub_key scalar =
     rbind (rassert (biguint_bits scalar \<le> 256)) (\<lambda>_.
       let bytes = concat (map (\<lambda>i. nat_to_le 8 (scalar div 2 ^ (64 * i) mod 2 ^ 64)) [0..<4])
       in ephemeral_pub_key_bytes bytes)"

definition eddsa_sign :: "(fr list \<Rightarrow> fr) \<Rightarrow> nat \<Rightarrow> byte list \<Rightarrow> (signature, 'e) result" where
  "eddsa_sign ps message private_key =
     (let hash = blake512 private_key;
          seed_scalar = prune_buffer (take 32 hash);
          public_scalar = shift_right_3 seed_scalar
      in rbind (base_mul public_scalar) (\<lambda>a.
         rbind (biguint_to_le_bytes message 32) (\<lambda>msg_buff.
           let compose = drop 32 hash @ msg_buff;
               nonce_hash = blake512 compose;
               r = reduce_wide nonce_hash
           in rbind (base_mul r) (\<lambda>r8.
              rbind (poseidon ps [fst r8, snd r8, fst a, snd a, fr_of_nat message]) (\<lambda>hm.
                let response = scalar_response r hm seed_scalar 1
                in Ok \<lparr>sg_r8 = r8, sg_s = nat_of_le response\<rparr>)))))"

definition sign_hex :: "(fr list \<Rightarrow> fr) \<Rightarrow> nat \<Rightarrow> byte list \<Rightarrow> (signature, hex_decode_error) result" where
  "sign_hex ps message hex = rbind (from_hex_exact 32 hex) (eddsa_sign ps message)"

section \<open>Scalar keys\<close>

definition scalar_nonce_label :: "byte list" where
  "scalar_nonce_label = bytes_of_string ''CURVY_BABYJUB_SCALAR_NONCE_V1''"

definition nonce_mac ::
    "(byte list \<Rightarrow> byte list \<Rightarrow> byte list) \<Rightarrow> byte list \<Rightarrow> point \<Rightarrow> fr \<Rightarrow> nat \<Rightarrow> byte list" where
  "nonce_mac hmac secret public message counter =
     hmac secret (scalar_nonce_label @ sf_to_le_bytes (fst public) @ sf_to_le_bytes (snd public) @
       sf_to_le_bytes message @ nat_to_be 4 counter)"

text \<open>The counter loop \<open>for counter in 0..=u32::MAX\<close>.\<close>

function deterministic_scalar_nonce_from ::
    "(byte list \<Rightarrow> byte list \<Rightarrow> byte list) \<Rightarrow> byte list \<Rightarrow> point \<Rightarrow> fr \<Rightarrow> nat \<Rightarrow>
     (byte list, scalar_signature_error) result" where
  "deterministic_scalar_nonce_from hmac secret public message counter =
     (if counter \<le> 2 ^ 32 - 1
      then (case nonce_candidate (nonce_mac hmac secret public message counter) of
              Some reduced \<Rightarrow> expect (secret_try_from_le_bytes reduced)
            | None \<Rightarrow> deterministic_scalar_nonce_from hmac secret public message (counter + 1))
      else Err NonceCounterExhausted)"
  by pat_completeness auto
termination by (relation "measure (\<lambda>(hmac, secret, public, message, counter). 2 ^ 32 - counter)") auto

declare deterministic_scalar_nonce_from.simps [simp del]

definition deterministic_scalar_nonce ::
    "(byte list \<Rightarrow> byte list \<Rightarrow> byte list) \<Rightarrow> byte list \<Rightarrow> point \<Rightarrow> fr \<Rightarrow>
     (byte list, scalar_signature_error) result" where
  "deterministic_scalar_nonce hmac secret public message =
     deterministic_scalar_nonce_from hmac secret public message 0"

definition verify_scalar_compat ::
    "(fr list \<Rightarrow> fr) \<Rightarrow> fr \<Rightarrow> point \<Rightarrow> scalar_signature \<Rightarrow> (bool, 'e) result" where
  "verify_scalar_compat ps message public sig =
     (if is_identity public \<or> is_identity (ss_r8 sig) then Ok False
      else
        rbind (poseidon ps [fst (ss_r8 sig), snd (ss_r8 sig), fst public, snd public, message]) (\<lambda>h.
          let e = (8 * fr_rep h) mod sub_order in
        rbind (mul_point_escalar base8 (ss_s sig)) (\<lambda>left.
        rbind (mul_point_escalar public e) (\<lambda>ea.
        rbind (add_point (ss_r8 sig) ea) (\<lambda>right.
          Ok (left = right))))))"

definition sign_scalar_compat ::
    "(fr list \<Rightarrow> fr) \<Rightarrow> (byte list \<Rightarrow> byte list \<Rightarrow> byte list) \<Rightarrow> fr \<Rightarrow> byte list \<Rightarrow> point \<Rightarrow>
     (scalar_signature, scalar_signature_error) result" where
  "sign_scalar_compat ps hmac message secret public =
     rbind (public_key_from_scalar secret) (\<lambda>expected_public.
     rbind (guard (expected_public \<noteq> public) InternalVerificationFailed) (\<lambda>_.
     rbind (deterministic_scalar_nonce hmac secret public message) (\<lambda>r.
     rbind (public_key_from_scalar r) (\<lambda>r8.
     rbind (poseidon ps [fst r8, snd r8, fst public, snd public, message]) (\<lambda>h.
       let response = scalar_response r h secret 8 in
     rbind (expect (scalar_try_from_le_bytes response)) (\<lambda>s.
       let sig = \<lparr>ss_r8 = r8, ss_s = s\<rparr> in
     rbind (verify_scalar_compat ps message public sig) (\<lambda>ok.
     rbind (guard (\<not> ok) InternalVerificationFailed) (\<lambda>_. Ok sig))))))))"

definition sign_curvy_v1 ::
    "(fr list \<Rightarrow> fr) \<Rightarrow> (byte list \<Rightarrow> byte list \<Rightarrow> byte list) \<Rightarrow> scalar_signing_key \<Rightarrow> fr \<Rightarrow>
     (scalar_signature, scalar_signature_error) result" where
  "sign_curvy_v1 ps hmac key message = sign_scalar_compat ps hmac message (sk_secret key) (sk_public key)"

end
