(* ===== verification/Circuit_Inputs.thy ===== *)
theory Circuit_Inputs
  imports Bound_Pending Eddsa
begin

text \<open>
  The circuit witness builders of \<open>crates/core/src/witness.rs\<close>: withdrawal, aggregation and
  the SHA-256 pending commitment.  A \<open>NoteSigner\<close> is a record of its two methods.  The
  lemmas say that the signature of a witness is over the message a circuit recomputes from
  the decimal fields of the witness alone, that the note-count bounds are the arity bounds
  of Poseidon, and that a pending batch comes with a verifiable chain of roots.
\<close>

section \<open>Notes\<close>

record wnote =
  wn_amount :: fr
  wn_token :: fr
  wn_owner_pub :: point
  wn_shared_secret :: fr
  wn_ephemeral_key :: point
  wn_view_tag :: fr

record known_owner =
  ko_owner :: point
  ko_shared_secret :: fr

definition known_owner_note :: "known_owner \<Rightarrow> fr \<Rightarrow> fr \<Rightarrow> point \<Rightarrow> fr \<Rightarrow> wnote" where
  "known_owner_note k amount token ephemeral_key view_tag = \<lparr>wn_amount = amount, wn_token = token,
     wn_owner_pub = ko_owner k, wn_shared_secret = ko_shared_secret k,
     wn_ephemeral_key = ephemeral_key, wn_view_tag = view_tag\<rparr>"

definition wn_owner_hash :: "(fr list \<Rightarrow> fr) \<Rightarrow> wnote \<Rightarrow> (fr, 'e) result" where
  "wn_owner_hash ps n = owner_hash ps (wn_owner_pub n) (wn_shared_secret n)"

definition wn_id :: "(fr list \<Rightarrow> fr) \<Rightarrow> wnote \<Rightarrow> (fr, 'e) result" where
  "wn_id ps n = rbind (wn_owner_hash ps n) (\<lambda>h. note_id ps h (wn_amount n) (wn_token n))"

definition wn_nullifier :: "(fr list \<Rightarrow> fr) \<Rightarrow> wnote \<Rightarrow> (fr, 'e) result" where
  "wn_nullifier ps n = nullifier ps (wn_shared_secret n) (wn_owner_pub n)"

definition wn_flat :: "wnote \<Rightarrow> byte list list" where
  "wn_flat n = [fr_to_dec (fst (wn_owner_pub n)), fr_to_dec (snd (wn_owner_pub n)),
     fr_to_dec (wn_shared_secret n), fr_to_dec (wn_amount n), fr_to_dec (wn_token n)]"

definition wn_encrypted :: "primitives \<Rightarrow> wnote \<Rightarrow> (fr \<times> fr, 'e) result" where
  "wn_encrypted pr n = encrypt_amount_token pr (wn_amount n) (wn_token n)
     (fr_to_biguint (wn_shared_secret n))
     (fr_to_biguint (fst (wn_ephemeral_key n)), fr_to_biguint (snd (wn_ephemeral_key n)))"

definition wn_flat_encrypted :: "primitives \<Rightarrow> wnote \<Rightarrow> (byte list list, 'e) result" where
  "wn_flat_encrypted pr n = rbind (wn_encrypted pr n) (\<lambda>(ea, et).
     Ok [fr_to_dec ea, fr_to_dec et, fr_to_dec (fst (wn_ephemeral_key n)),
         fr_to_dec (snd (wn_ephemeral_key n)), fr_to_dec (wn_view_tag n)])"

record inclusion_input =
  ii_leaf_index :: nat
  ii_siblings :: "fr list"

definition ii_flat :: "inclusion_input \<Rightarrow> byte list list" where
  "ii_flat p = nat_to_dec (ii_leaf_index p) # map fr_to_dec (ii_siblings p)"

section \<open>Signers\<close>

definition flat_signature :: "point \<Rightarrow> nat \<Rightarrow> byte list list" where
  "flat_signature r8 s = [nat_to_dec s, fr_to_dec (fst r8), fr_to_dec (snd r8)]"

record note_signer =
  ns_public_key :: point
  ns_sign :: "fr \<Rightarrow> (signature, scalar_signature_error) result"

section \<open>Withdrawal\<close>

record withdrawal_witness =
  ww_input_notes :: "byte list list list"
  ww_public_key :: "byte list list"
  ww_input_note_inclusion_proofs :: "byte list list list"
  ww_signature :: "byte list list"
  ww_notes_root :: "byte list"
  ww_destination_address :: "byte list"
  ww_token_id :: "byte list"

definition max_withdrawal_input_notes :: nat where
  "max_withdrawal_input_notes = 13"

definition min_aggregation_output_notes :: nat where
  "min_aggregation_output_notes = 1"

definition max_aggregation_output_notes :: nat where
  "max_aggregation_output_notes = 7"

definition point_dec :: "point \<Rightarrow> byte list list" where
  "point_dec p = [fr_to_dec (fst p), fr_to_dec (snd p)]"

definition build_withdrawal_with_signer ::
    "(fr list \<Rightarrow> fr) \<Rightarrow> wnote list \<Rightarrow> note_signer \<Rightarrow> inclusion_input list \<Rightarrow> fr \<Rightarrow> fr \<Rightarrow> fr \<Rightarrow>
     (withdrawal_witness, scalar_signature_error) result" where
  "build_withdrawal_with_signer ps notes signer proofs notes_root destination_address token_id =
     rbind (guard (max_withdrawal_input_notes < length notes)
              (UnsupportedNoteCount (length notes) 0 max_withdrawal_input_notes)) (\<lambda>_.
       let total = foldl (\<lambda>a n. a + wn_amount n) 0 notes in
     rbind (rmap (wn_nullifier ps) notes) (\<lambda>msg.
       let msg = msg @ [destination_address] @ [total] @ [token_id] in
     rbind (poseidon ps msg) (\<lambda>m.
     rbind (ns_sign signer m) (\<lambda>sig.
       let public_key = ns_public_key signer in
       Ok \<lparr>ww_input_notes = map wn_flat notes, ww_public_key = point_dec public_key,
           ww_input_note_inclusion_proofs = map ii_flat proofs,
           ww_signature = flat_signature (sg_r8 sig) (sg_s sig),
           ww_notes_root = fr_to_dec notes_root,
           ww_destination_address = fr_to_dec destination_address,
           ww_token_id = fr_to_dec token_id\<rparr>))))"

section \<open>Aggregation\<close>

record aggregation_witness =
  aw_input_notes :: "byte list list list"
  aw_input_note_inclusion_proofs :: "byte list list list"
  aw_output_notes :: "byte list list list"
  aw_public_key :: "byte list list"
  aw_signature :: "byte list list"
  aw_fee_note :: "byte list list"
  aw_encrypted_note_data :: "byte list list list"
  aw_notes_root :: "byte list"
  aw_protocol_fee_per_thousand :: "byte list"
  aw_gas_fee :: "byte list"
  aw_fee_note_public_key :: "byte list list"

definition build_aggregation_with_signer ::
    "(fr list \<Rightarrow> fr) \<Rightarrow> primitives \<Rightarrow> wnote list \<Rightarrow> inclusion_input list \<Rightarrow> wnote list \<Rightarrow> wnote \<Rightarrow>
     note_signer \<Rightarrow> fr \<Rightarrow> fr \<Rightarrow> fr \<Rightarrow> point \<Rightarrow> (aggregation_witness, scalar_signature_error) result" where
  "build_aggregation_with_signer ps pr input_notes input_proofs output_notes fee_note signer notes_root
       protocol_fee_per_thousand gas_fee fee_note_public_key =
     rbind (guard (\<not> (min_aggregation_output_notes \<le> length output_notes \<and>
                      length output_notes \<le> max_aggregation_output_notes))
              (UnsupportedNoteCount (length output_notes) min_aggregation_output_notes
                 max_aggregation_output_notes)) (\<lambda>_.
       let enc_notes = output_notes @ [fee_note] in
     rbind (rmap (wn_encrypted pr) enc_notes) (\<lambda>encrypted.
     rbind (rmap (wn_id ps) output_notes) (\<lambda>ids.
     rbind (poseidon ps ids) (\<lambda>output_note_hash.
       let enc_flat = fold (\<lambda>(ea, et) enc_flat. enc_flat @ [ea] @ [et]) encrypted [] in
     rbind (poseidon ps enc_flat) (\<lambda>encrypted_note_data_hash.
     rbind (poseidon ps [output_note_hash, encrypted_note_data_hash]) (\<lambda>signing_hash.
     rbind (ns_sign signer signing_hash) (\<lambda>sig.
       let public_key = ns_public_key signer in
     rbind (rmap (wn_flat_encrypted pr) enc_notes) (\<lambda>encrypted_note_data.
       Ok \<lparr>aw_input_notes = map wn_flat input_notes,
           aw_input_note_inclusion_proofs = map ii_flat input_proofs,
           aw_output_notes = map wn_flat output_notes,
           aw_public_key = point_dec public_key,
           aw_signature = flat_signature (sg_r8 sig) (sg_s sig),
           aw_fee_note = wn_flat fee_note,
           aw_encrypted_note_data = encrypted_note_data,
           aw_notes_root = fr_to_dec notes_root,
           aw_protocol_fee_per_thousand = fr_to_dec protocol_fee_per_thousand,
           aw_gas_fee = fr_to_dec gas_fee,
           aw_fee_note_public_key = point_dec fee_note_public_key\<rparr>))))))))"

section \<open>The SHA-256 pending commitment\<close>

record pending_commitment_witness =
  pw_current_note_index :: "byte list"
  pw_input_hash :: "byte list"
  pw_current_notes_root :: "byte list"
  pw_pending_note_ids :: "byte list list"
  pw_siblings :: "byte list list list"
  pw_new_notes_root :: "byte list"

definition pending_slot ::
    "(fr list \<Rightarrow> fr) \<Rightarrow> nat \<Rightarrow> fr \<Rightarrow> fr imt \<times> fr list list \<Rightarrow> (fr imt \<times> fr list list, tree_error) result" where
  "pending_slot ps tree_depth id' = (\<lambda>(work, siblings).
     if id' = 0 then Ok (work, siblings @ [replicate tree_depth 0])
     else (case imt_insert ps id' work of (r, work) \<Rightarrow>
       rbind r (\<lambda>_.
         let i = imt_leaf_count work - 1 in
       rbind (imt_create_proof work i) (\<lambda>proof.
         Ok (work, siblings @ [ip_siblings proof])))))"

definition build_pending_commitment ::
    "(fr list \<Rightarrow> fr) \<Rightarrow> (byte list \<Rightarrow> byte list) \<Rightarrow> fr imt \<Rightarrow> nat \<Rightarrow> nat \<Rightarrow> fr list \<Rightarrow>
     (pending_commitment_witness, tree_error) result" where
  "build_pending_commitment ps sha tree tree_depth batch_size pending_note_ids =
     rbind (rassert (batch_size \<le> max_pending_batch_size)) (\<lambda>_.
     rbind (rassert (length pending_note_ids \<le> batch_size)) (\<lambda>_.
     rbind (rassert (tree_depth = imt_depth tree)) (\<lambda>_.
       let inserted = length (filter (\<lambda>id'. id' \<noteq> 0) pending_note_ids) in
     rbind (expect (imt_capacity tree)) (\<lambda>capacity.
     rbind (rassert (inserted \<le> capacity - imt_leaf_count tree)) (\<lambda>_.
     rbind (imt_root tree) (\<lambda>current_notes_root.
       let current_note_index = imt_leaf_count tree;
           padded = resize pending_note_ids batch_size 0 in
     rbind (rfold padded (pending_slot ps tree_depth) (tree, [])) (\<lambda>(work, siblings).
     rbind (imt_root work) (\<lambda>new_notes_root.
       let new_note_index = imt_leaf_count work;
           hash_inputs = map fr_to_biguint padded @ [fr_to_biguint current_notes_root] @
             [fr_to_biguint new_notes_root] @ [current_note_index] @ [new_note_index] in
     rbind (sha256_bigint sha hash_inputs) (\<lambda>input_hash.
       Ok \<lparr>pw_current_note_index = nat_to_dec current_note_index,
           pw_input_hash = nat_to_dec input_hash,
           pw_current_notes_root = fr_to_dec current_notes_root,
           pw_pending_note_ids = map fr_to_dec padded,
           pw_siblings = map (map fr_to_dec) siblings,
           pw_new_notes_root = fr_to_dec new_notes_root\<rparr>)))))))))"

section \<open>What a circuit recomputes from the decimal fields\<close>

definition dec_fr :: "byte list \<Rightarrow> fr" where
  "dec_fr s = (case bn254_try_from_dec s of Ok x \<Rightarrow> x | Err e \<Rightarrow> 0 | Panic \<Rightarrow> 0)"

lemma dec_fr_to_dec [simp]: "dec_fr (fr_to_dec x) = x"
  by (simp add: dec_fr_def bn254_dec_roundtrip)

lemma dec_fr_map [simp]: "map (dec_fr \<circ> fr_to_dec) xs = xs" "dec_fr \<circ> fr_to_dec = id"
  by (simp_all add: fun_eq_iff map_idI)

text \<open>A row \<open>[owner.x, owner.y, sharedSecret, amount, token]\<close>.\<close>

definition row_nullifier :: "(fr list \<Rightarrow> fr) \<Rightarrow> byte list list \<Rightarrow> fr" where
  "row_nullifier ps row = ps [dec_fr (row ! 2), dec_fr (row ! 0), dec_fr (row ! 1)]"

definition row_id :: "(fr list \<Rightarrow> fr) \<Rightarrow> byte list list \<Rightarrow> fr" where
  "row_id ps row = ps [ps [dec_fr (row ! 0), dec_fr (row ! 1), dec_fr (row ! 2)], dec_fr (row ! 3), dec_fr (row ! 4)]"

definition row_amount :: "byte list list \<Rightarrow> fr" where
  "row_amount row = dec_fr (row ! 3)"

definition withdrawal_message :: "(fr list \<Rightarrow> fr) \<Rightarrow> withdrawal_witness \<Rightarrow> fr" where
  "withdrawal_message ps w = ps (map (row_nullifier ps) (ww_input_notes w) @
     [dec_fr (ww_destination_address w), sum_list (map row_amount (ww_input_notes w)), dec_fr (ww_token_id w)])"

definition aggregation_message :: "(fr list \<Rightarrow> fr) \<Rightarrow> aggregation_witness \<Rightarrow> fr" where
  "aggregation_message ps w = ps [ps (map (row_id ps) (aw_output_notes w)),
     ps (concat (map (\<lambda>row. [dec_fr (row ! 0), dec_fr (row ! 1)]) (aw_encrypted_note_data w)))]"

lemma wn_id_eq: "wn_id ps n = Ok (row_id ps (wn_flat n))"
  by (simp add: wn_id_def wn_owner_hash_def owner_hash_def note_id_def row_id_def wn_flat_def eval_nat_numeral)

lemma wn_nullifier_eq: "wn_nullifier ps n = Ok (row_nullifier ps (wn_flat n))"
  by (simp add: wn_nullifier_def nullifier_def row_nullifier_def wn_flat_def eval_nat_numeral)

lemma row_amount_flat [simp]: "row_amount (wn_flat n) = wn_amount n"
  by (simp add: row_amount_def wn_flat_def eval_nat_numeral)

lemma rmap_total: "(\<And>x. f x = Ok (g x)) \<Longrightarrow> rmap f xs = Ok (map g xs)"
  by (simp add: rmap_Ok)

lemma foldl_sum: "foldl (\<lambda>a n. a + wn_amount n) s ns = s + sum_list (map wn_amount ns)"
  by (induction ns arbitrary: s) (simp_all add: add.assoc)

section \<open>Withdrawal\<close>

definition withdrawal_preimage :: "(fr list \<Rightarrow> fr) \<Rightarrow> wnote list \<Rightarrow> fr \<Rightarrow> fr \<Rightarrow> fr list" where
  "withdrawal_preimage ps notes destination token_id =
     map (\<lambda>n. row_nullifier ps (wn_flat n)) notes @ [destination, sum_list (map wn_amount notes), token_id]"

lemma withdrawal_arity:
  "poseidon ps (withdrawal_preimage ps notes dest token) \<noteq> (Panic :: (fr, 'e) result) \<longleftrightarrow>
    length notes \<le> max_withdrawal_input_notes"
  by (auto simp: poseidon_Panic_iff withdrawal_preimage_def max_withdrawal_input_notes_def)

lemma build_withdrawal_eq:
  "build_withdrawal_with_signer ps notes signer proofs root dest token =
    (if max_withdrawal_input_notes < length notes
     then Err (UnsupportedNoteCount (length notes) 0 max_withdrawal_input_notes)
     else rbind (ns_sign signer (ps (withdrawal_preimage ps notes dest token))) (\<lambda>sig.
       Ok \<lparr>ww_input_notes = map wn_flat notes, ww_public_key = point_dec (ns_public_key signer),
           ww_input_note_inclusion_proofs = map ii_flat proofs,
           ww_signature = flat_signature (sg_r8 sig) (sg_s sig),
           ww_notes_root = fr_to_dec root, ww_destination_address = fr_to_dec dest,
           ww_token_id = fr_to_dec token\<rparr>))"
  by (simp add: build_withdrawal_with_signer_def max_withdrawal_input_notes_def Let_def
      rmap_total [OF wn_nullifier_eq] foldl_sum withdrawal_preimage_def guard_def comp_def)

lemma build_withdrawal_signs:
  assumes "build_withdrawal_with_signer ps notes signer proofs root dest token = Ok w"
  shows "\<exists>sig. ns_sign signer (withdrawal_message ps w) = Ok sig \<and>
    ww_signature w = flat_signature (sg_r8 sig) (sg_s sig) \<and>
    ww_public_key w = point_dec (ns_public_key signer)"
  using assms
  by (auto simp: build_withdrawal_eq rbind_Ok_iff withdrawal_message_def withdrawal_preimage_def comp_def
      split: if_splits)

section \<open>Aggregation\<close>

definition wn_keystream :: "primitives \<Rightarrow> wnote \<Rightarrow> fr \<times> fr" where
  "wn_keystream pr n =
     (let eph = wn_ephemeral_key n;
          key = pr_hkdf pr note_key_salt (nat_to_be 32 (fr_rep (wn_shared_secret n))) note_key_info 32;
          counter = take 16 (pr_sha256 pr (nat_to_be 32 (fr_rep (fst eph)) @ nat_to_be 32 (fr_rep (snd eph))));
          ks = pr_aes_ctr pr key counter keystream_bytes
      in (fr_from_be_bytes_mod (take 32 ks), fr_from_be_bytes_mod (drop 32 ks)))"

definition wn_cipher :: "primitives \<Rightarrow> wnote \<Rightarrow> fr \<times> fr" where
  "wn_cipher pr n = (wn_amount n + fst (wn_keystream pr n), wn_token n + snd (wn_keystream pr n))"

lemma fr_rep_less_256 [simp]: "fr_rep x < 2 ^ 256"
  using fr_rep_less_be_32 [of x] by simp

lemma keystream_of_note:
  assumes "sized pr"
  shows "ctr_keystream_fields pr (fr_rep (wn_shared_secret n))
    (fr_rep (fst (wn_ephemeral_key n)), fr_rep (snd (wn_ephemeral_key n))) = Ok (wn_keystream pr n)"
  using assms fr_rep_less_256
  by (simp add: ctr_keystream_fields_def derive_note_key_def derive_counter_block_def biguint_to_be_32_eq
      slice_to_def sized_def keystream_bytes_def wn_keystream_def Let_def)

lemma wn_encrypted_eq: "sized pr \<Longrightarrow> wn_encrypted pr n = Ok (wn_cipher pr n)"
  by (simp add: wn_encrypted_def encrypt_amount_token_def fr_to_biguint_def keystream_of_note wn_cipher_def
      case_prod_unfold)

definition encrypted_row :: "primitives \<Rightarrow> wnote \<Rightarrow> byte list list" where
  "encrypted_row pr n = [fr_to_dec (fst (wn_cipher pr n)), fr_to_dec (snd (wn_cipher pr n)),
     fr_to_dec (fst (wn_ephemeral_key n)), fr_to_dec (snd (wn_ephemeral_key n)), fr_to_dec (wn_view_tag n)]"

lemma wn_flat_encrypted_eq: "sized pr \<Longrightarrow> wn_flat_encrypted pr n = Ok (encrypted_row pr n)"
  by (simp add: wn_flat_encrypted_def wn_encrypted_eq case_prod_unfold encrypted_row_def)

lemma enc_flat_eq:
  "fold (\<lambda>(ea, et) enc_flat. enc_flat @ [ea] @ [et]) cs acc = acc @ concat (map (\<lambda>c. [fst c, snd c]) cs)"
  by (induction cs arbitrary: acc) (auto simp: case_prod_unfold)

lemma length_enc_flat: "length (concat (map (\<lambda>c. [f c, g c]) cs)) = 2 * length cs"
  by (induction cs) auto

definition enc_preimage :: "primitives \<Rightarrow> wnote list \<Rightarrow> fr list" where
  "enc_preimage pr ns = concat (map (\<lambda>n. [fst (wn_cipher pr n), snd (wn_cipher pr n)]) ns)"

text \<open>The bounds on the output notes are those of the two hashes.\<close>

lemma aggregation_arity:
  "poseidon ps (map f outs) \<noteq> (Panic :: (fr, 'e) result) \<and>
   poseidon ps (enc_preimage pr (outs @ [fee])) \<noteq> (Panic :: (fr, 'e) result) \<longleftrightarrow>
    min_aggregation_output_notes \<le> length outs \<and> length outs \<le> max_aggregation_output_notes"
  by (auto simp: poseidon_Panic_iff enc_preimage_def length_enc_flat min_aggregation_output_notes_def
      max_aggregation_output_notes_def Suc_le_eq)

lemma build_aggregation_eq:
  assumes "sized pr"
  shows "build_aggregation_with_signer ps pr ins proofs outs fee signer root fee_rate gas fee_key =
    (if \<not> (min_aggregation_output_notes \<le> length outs \<and> length outs \<le> max_aggregation_output_notes)
     then Err (UnsupportedNoteCount (length outs) min_aggregation_output_notes max_aggregation_output_notes)
     else rbind (ns_sign signer (ps [ps (map (\<lambda>n. row_id ps (wn_flat n)) outs),
                                     ps (enc_preimage pr (outs @ [fee]))])) (\<lambda>sig.
       Ok \<lparr>aw_input_notes = map wn_flat ins, aw_input_note_inclusion_proofs = map ii_flat proofs,
           aw_output_notes = map wn_flat outs, aw_public_key = point_dec (ns_public_key signer),
           aw_signature = flat_signature (sg_r8 sig) (sg_s sig), aw_fee_note = wn_flat fee,
           aw_encrypted_note_data = map (encrypted_row pr) (outs @ [fee]),
           aw_notes_root = fr_to_dec root, aw_protocol_fee_per_thousand = fr_to_dec fee_rate,
           aw_gas_fee = fr_to_dec gas, aw_fee_note_public_key = point_dec fee_key\<rparr>))"
proof (cases "min_aggregation_output_notes \<le> length outs \<and> length outs \<le> max_aggregation_output_notes")
  case True
  let ?f = "\<lambda>n. row_id ps (wn_flat n)"
  have "(poseidon ps (map ?f outs) :: (fr, scalar_signature_error) result) = Ok (ps (map ?f outs))"
    using True by (intro poseidon_Ok) (simp_all add: min_aggregation_output_notes_def max_aggregation_output_notes_def)
  moreover have "(poseidon ps (enc_preimage pr (outs @ [fee])) :: (fr, scalar_signature_error) result) = Ok (ps (enc_preimage pr (outs @ [fee])))"
    using True by (intro poseidon_Ok)
      (simp_all add: enc_preimage_def length_enc_flat max_aggregation_output_notes_def del: map_append)
  moreover have "fold (\<lambda>(ea, et) enc_flat. enc_flat @ [ea] @ [et]) (map (wn_cipher pr) (outs @ [fee])) [] =
      enc_preimage pr (outs @ [fee])"
    by (simp only: enc_flat_eq enc_preimage_def append_Nil map_map comp_def)
  ultimately show ?thesis
    using True
    by (simp only: build_aggregation_with_signer_def Let_def rmap_total [OF wn_encrypted_eq [OF assms]]
        rmap_total [OF wn_id_eq] rmap_total [OF wn_flat_encrypted_eq [OF assms]] rbind.simps) simp
next
  case False
  then show ?thesis by (simp only: build_aggregation_with_signer_def) simp
qed

lemma build_aggregation_signs:
  assumes "sized pr"
    and "build_aggregation_with_signer ps pr ins proofs outs fee signer root fee_rate gas fee_key = Ok w"
  shows "\<exists>sig. ns_sign signer (aggregation_message ps w) = Ok sig \<and>
    aw_signature w = flat_signature (sg_r8 sig) (sg_s sig) \<and> aw_public_key w = point_dec (ns_public_key signer)"
  using assms(2)
  by (auto simp: build_aggregation_eq [OF assms(1)] rbind_Ok_iff aggregation_message_def enc_preimage_def
      encrypted_row_def comp_def split: if_splits)

text \<open>Whoever knows the shared secret of a row reads its amount and token back.\<close>

lemma encrypted_row_opens:
  assumes "sized pr"
  shows "decrypt_amount_token pr (dec_fr (encrypted_row pr n ! 0)) (dec_fr (encrypted_row pr n ! 1))
    (fr_to_biguint (wn_shared_secret n))
    (fr_to_biguint (dec_fr (encrypted_row pr n ! 2)), fr_to_biguint (dec_fr (encrypted_row pr n ! 3))) =
    Ok (wn_amount n, wn_token n)"
  by (simp add: decrypt_amount_token_def encrypted_row_def eval_nat_numeral fr_to_biguint_def case_prod_unfold
      wn_cipher_def keystream_of_note [OF assms])

section \<open>Pending slots\<close>

primrec slot_siblings :: "(fr list \<Rightarrow> fr) \<Rightarrow> nat \<Rightarrow> fr \<Rightarrow> fr list \<Rightarrow> fr list \<Rightarrow> fr list list" where
  "slot_siblings ps d z [] xs = []"
| "slot_siblings ps d z (y # ys) xs =
     (if y = 0 then replicate d 0 # slot_siblings ps d z ys xs
      else tree_siblings ps (padded z (xs @ [y])) d (length xs) # slot_siblings ps d z ys (xs @ [y]))"

abbreviation nonzero :: "fr list \<Rightarrow> fr list" where
  "nonzero \<equiv> filter (\<lambda>x. x \<noteq> 0)"

lemma pending_slots_eq:
  assumes "d < 64" and "length (xs @ nonzero ys) \<le> 2 ^ d"
  shows "rfold ys (pending_slot ps d) (imt_of ps d z xs, acc) =
    Ok (imt_of ps d z (xs @ nonzero ys), acc @ slot_siblings ps d z ys xs)"
  using assms(2)
proof (induction ys arbitrary: xs acc)
  case Nil
  then show ?case by simp
next
  case (Cons y ys)
  show ?case
  proof (cases "y = 0")
    case True
    then show ?thesis using Cons by (simp add: pending_slot_def)
  next
    case False
    then have room: "length xs < 2 ^ d" "length (xs @ [y]) \<le> 2 ^ d" using Cons.prems by simp_all
    have "pending_slot ps d y (imt_of ps d z xs, acc) =
        Ok (imt_of ps d z (xs @ [y]), acc @ [tree_siblings ps (padded z (xs @ [y])) d (length xs)])"
      using False room assms(1)
      by (simp add: pending_slot_def imt_insert_eq imt_create_proof_eq [OF room(2)] Let_def proof_of_def
          del: length_append) simp
    then show ?thesis using Cons.IH [of "xs @ [y]"] Cons.prems False by simp
  qed
qed

lemma sibling_index_neq: "sibling_index k \<noteq> k"
  by (auto simp: sibling_index_def elim!: oddE)

lemma tree_siblings_except:
  assumes "\<And>j. j \<noteq> i \<Longrightarrow> f j = g j"
  shows "tree_siblings ps f d i = tree_siblings ps g d i"
  unfolding tree_siblings_def
proof (rule map_cong [OF refl])
  fix l
  let ?s = "sibling_index (i div 2 ^ l)"
  show "subtree_root ps f l ?s = subtree_root ps g l ?s"
  proof (rule subtree_root_cong, rule assms)
    fix j assume "?s * 2 ^ l \<le> j" "j < (?s + 1) * 2 ^ l"
    then have "j div 2 ^ l = ?s" by (intro div_nat_eqI) (simp_all add: mult.commute)
    then show "j \<noteq> i" using sibling_index_neq [of "i div 2 ^ l"] by metis
  qed
qed

text \<open>A slot's siblings open both the empty position before and the id after.\<close>

lemma slot_opens:
  assumes "length xs < 2 ^ d"
  shows "path_node ps z (length xs) (tree_siblings ps (padded z (xs @ [y])) d (length xs)) d = merkle_root ps z d xs"
    and "path_node ps y (length xs) (tree_siblings ps (padded z (xs @ [y])) d (length xs)) d =
      merkle_root ps z d (xs @ [y])"
proof -
  have same: "tree_siblings ps (padded z (xs @ [y])) d (length xs) = tree_siblings ps (padded z xs) d (length xs)"
    by (rule tree_siblings_except) (auto simp: padded_def nth_append)
  have "padded z xs (length xs) = z" by (simp add: padded_def)
  then show "path_node ps z (length xs) (tree_siblings ps (padded z (xs @ [y])) d (length xs)) d = merkle_root ps z d xs"
    using path_node_tree_siblings [of d d ps "padded z xs" "length xs"] assms
    by (simp add: same merkle_root_def)
  have "padded z (xs @ [y]) (length xs) = y" by (simp add: padded_def)
  then show "path_node ps y (length xs) (tree_siblings ps (padded z (xs @ [y])) d (length xs)) d =
      merkle_root ps z d (xs @ [y])"
    using path_node_tree_siblings [of d d ps "padded z (xs @ [y])" "length xs"] assms
    by (simp add: merkle_root_def)
qed

text \<open>
  The check a circuit makes slot by slot: a zero id is a skip with zero siblings; any other
  id must replace the zero leaf at the current index under the current root.
\<close>

fun slot_chain :: "(fr list \<Rightarrow> fr) \<Rightarrow> nat \<Rightarrow> fr \<Rightarrow> fr list \<Rightarrow> fr list list \<Rightarrow> fr \<times> nat \<Rightarrow> (fr \<times> nat) option" where
  "slot_chain ps d z [] [] st = Some st"
| "slot_chain ps d z (y # ys) (row # rows) (root, n) =
     (if y = 0 then (if row = replicate d 0 then slot_chain ps d z ys rows (root, n) else None)
      else if n < 2 ^ d \<and> length row = d \<and> path_node ps z n row d = root
      then slot_chain ps d z ys rows (path_node ps y n row d, n + 1) else None)"
| "slot_chain ps d z _ _ st = None"

lemma slot_chain_eq:
  assumes "length (xs @ nonzero ys) \<le> 2 ^ d"
  shows "slot_chain ps d z ys (slot_siblings ps d z ys xs) (merkle_root ps z d xs, length xs) =
    Some (merkle_root ps z d (xs @ nonzero ys), length (xs @ nonzero ys))"
  using assms
proof (induction ys arbitrary: xs)
  case Nil
  then show ?case by simp
next
  case (Cons y ys)
  show ?case
  proof (cases "y = 0")
    case True
    then show ?thesis using Cons by simp
  next
    case False
    then have "length xs < 2 ^ d" using Cons.prems by simp
    then show ?thesis using Cons.IH [of "xs @ [y]"] Cons.prems False by (simp add: slot_opens)
  qed
qed

definition pending_refused_by :: "nat \<Rightarrow> nat \<Rightarrow> nat \<Rightarrow> nat \<Rightarrow> fr list \<Rightarrow> bool" where
  "pending_refused_by d n tree_depth batch_size ids \<longleftrightarrow>
     max_pending_batch_size < batch_size \<or> batch_size < length ids \<or> tree_depth \<noteq> d \<or>
     2 ^ d < n + length (nonzero ids)"

lemma nonzero_resize: "length ids \<le> k \<Longrightarrow> nonzero (resize ids k 0) = nonzero ids"
  by (simp add: resize_def)

definition pending_witness_of ::
    "(fr list \<Rightarrow> fr) \<Rightarrow> (byte list \<Rightarrow> byte list) \<Rightarrow> nat \<Rightarrow> fr \<Rightarrow> fr list \<Rightarrow> fr list \<Rightarrow> pending_commitment_witness" where
  "pending_witness_of ps sha d z xs ids =
     (let before = merkle_root ps z d xs; after = merkle_root ps z d (xs @ nonzero ids) in
      \<lparr>pw_current_note_index = nat_to_dec (length xs),
       pw_input_hash = nat_to_dec (nat_of_be (sha (packed_256 (map fr_rep ids @
         [fr_rep before, fr_rep after, length xs, length (xs @ nonzero ids)])))),
       pw_current_notes_root = fr_to_dec before, pw_pending_note_ids = map fr_to_dec ids,
       pw_siblings = map (map fr_to_dec) (slot_siblings ps d z ids xs),
       pw_new_notes_root = fr_to_dec after\<rparr>)"

lemma build_pending_commitment_eq:
  assumes "d < 64" and "length xs \<le> 2 ^ d"
  shows "build_pending_commitment ps sha (imt_of ps d z xs) tree_depth batch_size ids =
    (if pending_refused_by d (length xs) tree_depth batch_size ids then Panic
     else Ok (pending_witness_of ps sha d z xs (resize ids batch_size 0)))"
proof (cases "pending_refused_by d (length xs) tree_depth batch_size ids")
  case True
  then show ?thesis
    using assms unfolding pending_refused_by_def
    by (auto simp: build_pending_commitment_def rassert_def Let_def)
next
  case False
  let ?p = "resize ids batch_size 0"
  have len: "length ids \<le> batch_size" using False by (simp add: pending_refused_by_def)
  have fits: "length (xs @ nonzero ?p) \<le> 2 ^ d"
    using False by (simp add: pending_refused_by_def nonzero_resize [OF len])
  have "(2 :: nat) ^ d < 2 ^ 64" using assms(1) by (intro power_strict_increasing) simp_all
  then have small: "length xs < 2 ^ 256" "length (xs @ nonzero ids) < 2 ^ 256"
    using assms(2) fits by (simp_all add: nonzero_resize [OF len])
  have rep: "fr_to_biguint = fr_rep" by (simp add: fr_to_biguint_def fun_eq_iff)
  have room: "length (nonzero ids) \<le> 2 ^ d - length xs"
    using fits by (simp add: nonzero_resize [OF len])
  show ?thesis
    using False assms fits small room fr_rep_less_256 len
    by (simp add: build_pending_commitment_def pending_refused_by_def Let_def imt_root_eq pending_slots_eq
        nonzero_resize sha256_bigint_eq rep pending_witness_of_def
        del: length_append of_nat_add)
qed

text \<open>The chain of roots, read back from the decimal fields.\<close>

definition dec_nat :: "byte list \<Rightarrow> nat" where
  "dec_nat s = horner10 0 (digit_vals s)"

lemma dec_nat_to_dec [simp]: "dec_nat (nat_to_dec n) = n"
  using scalar_to_dec_facts(4) [of n] by (simp add: dec_nat_def nat_to_dec_def scalar_to_dec_def)

definition witness_chain :: "(fr list \<Rightarrow> fr) \<Rightarrow> nat \<Rightarrow> fr \<Rightarrow> pending_commitment_witness \<Rightarrow> (fr \<times> nat) option" where
  "witness_chain ps d z w = slot_chain ps d z (map dec_fr (pw_pending_note_ids w)) (map (map dec_fr) (pw_siblings w))
     (dec_fr (pw_current_notes_root w), dec_nat (pw_current_note_index w))"

lemma map_map_dec [simp]: "map (map dec_fr \<circ> map fr_to_dec) rows = rows"
  by (induction rows) simp_all

lemma witness_chain_of:
  assumes "length (xs @ nonzero ids) \<le> 2 ^ d"
  shows "witness_chain ps d z (pending_witness_of ps sha d z xs ids) =
    Some (dec_fr (pw_new_notes_root (pending_witness_of ps sha d z xs ids)), length (xs @ nonzero ids))"
  using slot_chain_eq [OF assms] by (simp add: witness_chain_def pending_witness_of_def Let_def)

section \<open>What the builders promise\<close>

text \<open>
  A withdrawal witness is signed over what its circuit recomputes: more than 13 notes are
  refused before anything is signed - exactly the lists whose message Poseidon would not take -
  and any witness returned carries the signer's signature of the message computed from its own
  decimal fields, with the signer's public key.
\<close>

theorem withdrawal_signs_its_fields:
  assumes "build_withdrawal_with_signer ps notes signer proofs root dest token = r"
  shows "(length notes > max_withdrawal_input_notes) =
      (r = Err (UnsupportedNoteCount (length notes) 0 max_withdrawal_input_notes) \<and>
       poseidon ps (withdrawal_preimage ps notes dest token) = (Panic :: (fr, unit) result)) \<and>
    (case r of Ok w \<Rightarrow>
        \<exists>sig. ns_sign signer (withdrawal_message ps w) = Ok sig \<and>
          ww_signature w = flat_signature (sg_r8 sig) (sg_s sig) \<and> ww_public_key w = point_dec (ns_public_key signer)
     | Err e \<Rightarrow> length notes \<le> max_withdrawal_input_notes \<longrightarrow>
        ns_sign signer (ps (withdrawal_preimage ps notes dest token)) = Err e
     | Panic \<Rightarrow> ns_sign signer (ps (withdrawal_preimage ps notes dest token)) = Panic)"
proof -
  have "(length notes > max_withdrawal_input_notes) =
      (r = Err (UnsupportedNoteCount (length notes) 0 max_withdrawal_input_notes) \<and>
       poseidon ps (withdrawal_preimage ps notes dest token) = (Panic :: (fr, unit) result))"
    using assms
    by (auto simp: build_withdrawal_eq not_le poseidon_Panic_iff withdrawal_preimage_def max_withdrawal_input_notes_def)
  moreover have "r = Err e \<longrightarrow> length notes \<le> max_withdrawal_input_notes \<longrightarrow>
      ns_sign signer (ps (withdrawal_preimage ps notes dest token)) = Err e" for e
    using assms by (auto simp: build_withdrawal_eq rbind_Err_iff not_less split: if_splits)
  moreover have "r = Panic \<longrightarrow> ns_sign signer (ps (withdrawal_preimage ps notes dest token)) = Panic"
    using assms by (auto simp: build_withdrawal_eq rbind_Panic_iff split: if_splits)
  moreover have "r = Ok w \<longrightarrow> (\<exists>sig. ns_sign signer (withdrawal_message ps w) = Ok sig \<and>
          ww_signature w = flat_signature (sg_r8 sig) (sg_s sig) \<and> ww_public_key w = point_dec (ns_public_key signer))" for w
    using assms build_withdrawal_signs by blast
  ultimately show ?thesis by (cases r) simp_all
qed

theorem withdrawal_signs_its_fields_witness:
  "\<exists>w. build_withdrawal_with_signer sum_list [] \<lparr>ns_public_key = (1, 2), ns_sign = \<lambda>m. Ok \<lparr>sg_r8 = (m, m), sg_s = 3\<rparr>\<rparr> [] 5 6 7 = Ok w \<and>
    ww_signature w = flat_signature (withdrawal_message sum_list w, withdrawal_message sum_list w) 3"
proof -
  let ?signer = "\<lparr>ns_public_key = (1, 2), ns_sign = \<lambda>m. Ok \<lparr>sg_r8 = (m, m), sg_s = 3\<rparr>\<rparr> :: note_signer"
  obtain w where "build_withdrawal_with_signer sum_list [] ?signer [] 5 6 7 = Ok w"
    by (simp add: build_withdrawal_eq)
  with withdrawal_signs_its_fields [OF this] show ?thesis by auto
qed

text \<open>
  C19: An aggregation witness is signed over what its circuit recomputes: 1 to 7 output notes
  are accepted - exactly the counts both hashes take - and any witness returned carries the
  signer's signature of the message computed from its own decimal fields; whoever knows the
  shared secret of an output or fee note reads amount and token back from its encrypted row.
\<close>

theorem aggregation_signs_its_fields:
  assumes "sized pr"
    and "build_aggregation_with_signer ps pr ins proofs outs fee signer root fee_rate gas fee_key = r"
  shows "(min_aggregation_output_notes \<le> length outs \<and> length outs \<le> max_aggregation_output_notes) =
      (poseidon ps (map (\<lambda>n. row_id ps (wn_flat n)) outs) \<noteq> (Panic :: (fr, unit) result) \<and>
       poseidon ps (enc_preimage pr (outs @ [fee])) \<noteq> (Panic :: (fr, unit) result)) \<and>
    (case r of Ok w \<Rightarrow>
        (\<exists>sig. ns_sign signer (aggregation_message ps w) = Ok sig \<and>
          aw_signature w = flat_signature (sg_r8 sig) (sg_s sig) \<and> aw_public_key w = point_dec (ns_public_key signer)) \<and>
        list_all2 (\<lambda>n row. (decrypt_amount_token pr (dec_fr (row ! 0)) (dec_fr (row ! 1)) (fr_to_biguint (wn_shared_secret n))
            (fr_to_biguint (dec_fr (row ! 2)), fr_to_biguint (dec_fr (row ! 3))) :: (fr \<times> fr, unit) result) =
            Ok (wn_amount n, wn_token n)) (outs @ [fee]) (aw_encrypted_note_data w)
     | Err e \<Rightarrow> True
     | Panic \<Rightarrow> \<exists>m. ns_sign signer m = Panic)"
proof -
  have "r = Panic \<longrightarrow> (\<exists>m. ns_sign signer m = Panic)"
    using assms(2) by (auto simp: build_aggregation_eq [OF assms(1)] rbind_Panic_iff split: if_splits)
  moreover have "(\<exists>sig. ns_sign signer (aggregation_message ps w) = Ok sig \<and>
      aw_signature w = flat_signature (sg_r8 sig) (sg_s sig) \<and> aw_public_key w = point_dec (ns_public_key signer)) \<and>
      aw_encrypted_note_data w = map (encrypted_row pr) (outs @ [fee])" if "r = Ok w" for w
    using build_aggregation_signs [OF assms(1)] assms(2) that
    by (auto simp: build_aggregation_eq [OF assms(1)] rbind_Ok_iff split: if_splits)
  moreover have "list_all2 (\<lambda>n row. (decrypt_amount_token pr (dec_fr (row ! 0)) (dec_fr (row ! 1)) (fr_to_biguint (wn_shared_secret n))
      (fr_to_biguint (dec_fr (row ! 2)), fr_to_biguint (dec_fr (row ! 3))) :: (fr \<times> fr, unit) result) =
      Ok (wn_amount n, wn_token n)) (outs @ [fee]) (map (encrypted_row pr) (outs @ [fee]))"
    by (simp only: list_all2_map2 encrypted_row_opens [OF assms(1)] list_all2_same) simp
  ultimately show ?thesis by (cases r) (simp_all only: aggregation_arity, auto)
qed

theorem aggregation_signs_its_fields_witness:
  "\<exists>w. build_aggregation_with_signer sum_list \<lparr>pr_sha256 = \<lambda>x. replicate 32 1, pr_hkdf = \<lambda>s k i n. replicate n 2,
        pr_aes_ctr = \<lambda>k c n. replicate n 3\<rparr> [] []
        [\<lparr>wn_amount = 1, wn_token = 2, wn_owner_pub = (3, 4), wn_shared_secret = 5, wn_ephemeral_key = (6, 7), wn_view_tag = 8\<rparr>]
        \<lparr>wn_amount = 1, wn_token = 2, wn_owner_pub = (3, 4), wn_shared_secret = 5, wn_ephemeral_key = (6, 7), wn_view_tag = 9\<rparr>
        \<lparr>ns_public_key = (1, 2), ns_sign = \<lambda>m. Ok \<lparr>sg_r8 = (m, m), sg_s = 3\<rparr>\<rparr> 5 6 7 (8, 9) = Ok w \<and>
    aw_signature w = flat_signature (aggregation_message sum_list w, aggregation_message sum_list w) 3"
proof -
  let ?pr = "\<lparr>pr_sha256 = \<lambda>x. replicate 32 1, pr_hkdf = \<lambda>s k i n. replicate n 2,
    pr_aes_ctr = \<lambda>k c n. replicate n 3\<rparr> :: primitives"
  let ?n = "\<lparr>wn_amount = 1, wn_token = 2, wn_owner_pub = (3, 4), wn_shared_secret = 5, wn_ephemeral_key = (6, 7), wn_view_tag = 8\<rparr> :: wnote"
  let ?fee = "\<lparr>wn_amount = 1, wn_token = 2, wn_owner_pub = (3, 4), wn_shared_secret = 5, wn_ephemeral_key = (6, 7), wn_view_tag = 9\<rparr> :: wnote"
  let ?signer = "\<lparr>ns_public_key = (1, 2), ns_sign = \<lambda>m. Ok \<lparr>sg_r8 = (m, m), sg_s = 3\<rparr>\<rparr> :: note_signer"
  have sized: "sized ?pr" by (simp add: sized_def)
  obtain w where w: "build_aggregation_with_signer sum_list ?pr [] [] [?n] ?fee ?signer 5 6 7 (8, 9) = Ok w"
    using build_aggregation_eq [OF sized, of sum_list "[]" "[]" "[?n]" ?fee ?signer 5 6 7 "(8, 9)"]
    by (simp add: min_aggregation_output_notes_def max_aggregation_output_notes_def del: One_nat_def)
  from aggregation_signs_its_fields [OF sized w] show ?thesis using w by (intro exI [of _ w]) auto
qed

text \<open>
  The SHA-256 pending commitment on a tree over \<open>xs\<close>: it panics exactly when the batch
  exceeds its ceiling, the ids the batch, the depth differs from the tree's or the nonzero ids
  do not fit; otherwise its decimal fields hold the roots before and after appending the nonzero
  ids, sibling rows that lead slot by slot from one root to the other, and the digest of exactly
  the padded ids, the two roots and the two indices.
\<close>

theorem pending_commitment_chains_roots:
  assumes "d < 64" and "length xs \<le> 2 ^ d"
    and "build_pending_commitment ps sha (imt_of ps d z xs) tree_depth batch_size ids = r"
  shows "if pending_refused_by d (length xs) tree_depth batch_size ids then r = Panic
    else \<exists>w. r = Ok w \<and> map dec_fr (pw_pending_note_ids w) = resize ids batch_size 0 \<and>
      dec_nat (pw_current_note_index w) = length xs \<and>
      dec_fr (pw_current_notes_root w) = merkle_root ps z d xs \<and>
      dec_fr (pw_new_notes_root w) = merkle_root ps z d (xs @ nonzero ids) \<and>
      witness_chain ps d z w = Some (dec_fr (pw_new_notes_root w), length (xs @ nonzero ids)) \<and>
      dec_nat (pw_input_hash w) = nat_of_be (sha (packed_256 (map (fr_rep \<circ> dec_fr) (pw_pending_note_ids w) @
        [fr_rep (dec_fr (pw_current_notes_root w)), fr_rep (dec_fr (pw_new_notes_root w)),
         dec_nat (pw_current_note_index w), length (xs @ nonzero ids)])))"
proof (cases "pending_refused_by d (length xs) tree_depth batch_size ids")
  case False
  let ?p = "resize ids batch_size 0"
  let ?w = "pending_witness_of ps sha d z xs ?p"
  have len: "length ids \<le> batch_size" and fits: "length (xs @ nonzero ?p) \<le> 2 ^ d"
    using False by (simp_all add: pending_refused_by_def nonzero_resize)
  have "r = Ok ?w" using False assms build_pending_commitment_eq [OF assms(1,2)] by simp
  moreover have "witness_chain ps d z ?w = Some (dec_fr (pw_new_notes_root ?w), length (xs @ nonzero ids))"
    using witness_chain_of [OF fits] by (simp only: nonzero_resize [OF len])
  moreover have "map dec_fr (pw_pending_note_ids ?w) = ?p" "dec_nat (pw_current_note_index ?w) = length xs"
      "dec_fr (pw_current_notes_root ?w) = merkle_root ps z d xs"
      "dec_fr (pw_new_notes_root ?w) = merkle_root ps z d (xs @ nonzero ids)"
    by (simp_all add: pending_witness_of_def Let_def nonzero_resize [OF len])
  moreover have "dec_nat (pw_input_hash ?w) = nat_of_be (sha (packed_256 (map (fr_rep \<circ> dec_fr) (pw_pending_note_ids ?w) @
        [fr_rep (dec_fr (pw_current_notes_root ?w)), fr_rep (dec_fr (pw_new_notes_root ?w)),
         dec_nat (pw_current_note_index ?w), length (xs @ nonzero ids)])))"
    by (simp add: pending_witness_of_def Let_def nonzero_resize [OF len] comp_def)
  ultimately show ?thesis using False by auto
qed (use assms build_pending_commitment_eq [OF assms(1,2)] in simp)

theorem pending_commitment_chains_roots_witness:
  "\<exists>w. build_pending_commitment sum_list (\<lambda>x. []) (imt_of sum_list 2 0 [1]) 2 2 [5] = Ok w \<and>
    witness_chain sum_list 2 0 w = Some (merkle_root sum_list 0 2 [1, 5], 2)"
  using pending_commitment_chains_roots [of 2 "[1]" sum_list "\<lambda>x. []" 0 2 2 "[5]", OF _ _ refl]
  by (auto simp: pending_refused_by_def max_pending_batch_size_def fr_modulus_def)

end
