(* ===== verification/Note_Signers.thy ===== *)
theory Note_Signers
  imports Circuit_Inputs
begin

text \<open>
  The two signers of \<open>crates/core/src/witness.rs\<close> - a 32-byte seed and a scalar key - and the
  seed-based entry points of the witness builders, which check the caller's public key
  against the seed before anything is signed.
\<close>

section \<open>Seed signers\<close>

record seed_note_signer =
  sn_private_key :: "byte list"
  sn_public_key :: point

definition seed_signer_from_bytes :: "byte list \<Rightarrow> (seed_note_signer, 'e) result" where
  "seed_signer_from_bytes private_key =
     rbind (derive_public_key private_key) (\<lambda>public_key.
       Ok \<lparr>sn_private_key = private_key, sn_public_key = public_key\<rparr>)"

definition seed_signer_new :: "byte list \<Rightarrow> (seed_note_signer, hex_decode_error) result" where
  "seed_signer_new private_key_hex = rbind (from_hex_exact 32 private_key_hex) seed_signer_from_bytes"

definition seed_sign_raw :: "(fr list \<Rightarrow> fr) \<Rightarrow> seed_note_signer \<Rightarrow> nat \<Rightarrow> (signature, 'e) result" where
  "seed_sign_raw ps signer message = eddsa_sign ps message (sn_private_key signer)"

definition seed_signer_from_parts :: "byte list \<Rightarrow> point \<Rightarrow> (seed_note_signer, scalar_signature_error) result" where
  "seed_signer_from_parts private_key_hex public_key =
     rbind (map_err InvalidSeedKey (seed_signer_new private_key_hex)) (\<lambda>signer.
     rbind (guard (sn_public_key signer \<noteq> public_key) PublicKeyMismatch) (\<lambda>_. Ok signer))"

section \<open>The trait implementations\<close>

definition seed_as_signer :: "(fr list \<Rightarrow> fr) \<Rightarrow> seed_note_signer \<Rightarrow> note_signer" where
  "seed_as_signer ps signer =
     \<lparr>ns_public_key = sn_public_key signer, ns_sign = (\<lambda>message. seed_sign_raw ps signer (fr_to_biguint message))\<rparr>"

definition scalar_key_as_signer ::
    "(fr list \<Rightarrow> fr) \<Rightarrow> (byte list \<Rightarrow> byte list \<Rightarrow> byte list) \<Rightarrow> scalar_signing_key \<Rightarrow> note_signer" where
  "scalar_key_as_signer ps hmac key =
     \<lparr>ns_public_key = sk_public key,
      ns_sign = (\<lambda>message. rbind (sign_curvy_v1 ps hmac key message) (\<lambda>sig. Ok (to_signature sig)))\<rparr>"

section \<open>The entry points\<close>

definition build_withdrawal ::
    "(fr list \<Rightarrow> fr) \<Rightarrow> wnote list \<Rightarrow> byte list \<Rightarrow> point \<Rightarrow> inclusion_input list \<Rightarrow> fr \<Rightarrow> fr \<Rightarrow> fr \<Rightarrow>
     (withdrawal_witness, scalar_signature_error) result" where
  "build_withdrawal ps notes owner_key_hex public_key proofs notes_root destination_address token_id =
     rbind (seed_signer_from_parts owner_key_hex public_key) (\<lambda>signer.
       build_withdrawal_with_signer ps notes (seed_as_signer ps signer) proofs notes_root
         destination_address token_id)"

definition build_aggregation ::
    "(fr list \<Rightarrow> fr) \<Rightarrow> primitives \<Rightarrow> wnote list \<Rightarrow> inclusion_input list \<Rightarrow> wnote list \<Rightarrow> wnote \<Rightarrow>
     byte list \<Rightarrow> point \<Rightarrow> fr \<Rightarrow> fr \<Rightarrow> fr \<Rightarrow> point \<Rightarrow> (aggregation_witness, scalar_signature_error) result" where
  "build_aggregation ps pr input_notes input_proofs output_notes fee_note owner_key_hex public_key
       notes_root protocol_fee_per_thousand gas_fee fee_note_public_key =
     rbind (seed_signer_from_parts owner_key_hex public_key) (\<lambda>signer.
       build_aggregation_with_signer ps pr input_notes input_proofs output_notes fee_note
         (seed_as_signer ps signer) notes_root protocol_fee_per_thousand gas_fee fee_note_public_key)"

end
