(* ===== verification/Fr_Prime.thy ===== *)
theory Fr_Prime
  imports Field_Codec
begin

text \<open>
  The BN254 scalar modulus is prime.  The proof is Pocklington's with the cube-root bound:
  every prime divisor is 1 modulo a factor of the modulus minus one that exceeds the cube root
  of the modulus, and a product of two such divisors would leave a perfect square.  The
  certificates are elements of prime-power order with the quotients of each modular
  squaring, so that the kernel checks products of numerals only.
\<close>

section \<open>Primes\<close>

definition is_prime :: "nat \<Rightarrow> bool" where
  "is_prime r \<longleftrightarrow> 1 < r \<and> (\<forall>d. d dvd r \<longrightarrow> d = 1 \<or> d = r)"

lemma is_prime_gt: "is_prime r \<Longrightarrow> 1 < r"
  by (simp add: is_prime_def)

lemma prime_coprime: "is_prime r \<Longrightarrow> \<not> r dvd x \<Longrightarrow> coprime r x"
  by (metis coprime_iff_gcd_eq_1 gcd_dvd1 gcd_dvd2 is_prime_def)

lemma prime_dvd_mult: "is_prime r \<Longrightarrow> r dvd x * y \<longleftrightarrow> r dvd x \<or> r dvd y"
  by (metis coprime_dvd_mult_right_iff dvd_mult dvd_mult2 prime_coprime)

lemma prime_divisor: "1 < n \<Longrightarrow> \<exists>r. is_prime r \<and> r dvd n"
proof (induction n rule: less_induct)
  case (less n)
  show ?case
  proof (cases "is_prime n")
    case False
    then obtain d where d: "d dvd n" "d \<noteq> 1" "d \<noteq> n" using less.prems by (auto simp: is_prime_def)
    have "d \<le> n" using d(1) less.prems by (intro dvd_imp_le) simp_all
    moreover have "d \<noteq> 0" using d(1) less.prems by (intro notI) simp
    ultimately obtain r where "is_prime r" "r dvd d" using less.IH [of d] d by auto
    then show ?thesis using d(1) dvd_trans by blast
  qed auto
qed

lemma small_prime:
  assumes "1 < n" and "list_all (\<lambda>d. n mod d \<noteq> 0) [2..<k]" and "n < k * k"
  shows "is_prime n"
proof (rule ccontr)
  assume "\<not> is_prime n"
  then obtain d where d: "d dvd n" "d \<noteq> 1" "d \<noteq> n" using assms(1) by (auto simp: is_prime_def)
  then obtain e where e: "n = d * e" by blast
  have small: "\<not> x dvd n" if "1 < x" "x < k" for x
    using assms(2) that by (auto simp: list_all_iff dvd_eq_mod_eq_0)
  have "1 < d" "1 < e" using d e assms(1) by (auto intro!: Suc_lessI Nat.gr0I)
  then have "k \<le> d" "k \<le> e" using small [of d] small [of e] e by (metis dvd_triv_left not_less, metis dvd_triv_right not_less)
  then have "k * k \<le> n" unfolding e by (rule mult_le_mono)
  then show False using assms(3) by simp
qed

section \<open>Fermat and orders\<close>

lemma fermat:
  assumes "is_prime r" and "\<not> r dvd b"
  shows "b ^ (r - 1) mod r = 1"
proof -
  let ?S = "{1..<r}" and ?f = "\<lambda>x. b * x mod r"
  have r: "1 < r" using assms(1) by (rule is_prime_gt)
  have range: "?f x \<in> ?S" if "x \<in> ?S" for x
  proof -
    have "\<not> r dvd x" using that by (auto dest: dvd_imp_le)
    then have "\<not> r dvd b * x" using assms by (simp add: prime_dvd_mult)
    then show ?thesis using r by (auto simp: dvd_eq_mod_eq_0)
  qed
  have inj: "inj_on ?f ?S"
  proof (rule inj_onI)
    have le: "x = y" if "x \<in> ?S" "y \<in> ?S" "x \<le> y" "b * x mod r = b * y mod r" for x y
    proof -
      have "r dvd b * y - b * x" using that(4) by (metis mod_eq_dvd_iff_nat mult_le_mono2 that(3))
      then have "r dvd b * (y - x)" by (simp add: diff_mult_distrib2)
      then have "r dvd y - x" using assms by (simp add: prime_dvd_mult)
      then show ?thesis using that(1-3) by (auto dest!: dvd_imp_le)
    qed
    fix x y assume "x \<in> ?S" "y \<in> ?S" "?f x = ?f y"
    then show "x = y" using le [of x y] le [of y x] by (cases "x \<le> y") auto
  qed
  then have "?f ` ?S = ?S" using range by (intro endo_inj_surj) auto
  then have "\<Prod>?S = (\<Prod>x \<in> ?S. ?f x)" using prod.reindex [OF inj, of "\<lambda>x. x"] by (simp add: comp_def)
  then have "\<Prod>?S mod r = (\<Prod>x \<in> ?S. ?f x) mod r" by (rule arg_cong)
  also have "\<dots> = (\<Prod>x \<in> ?S. b * x) mod r" by (rule mod_prod_eq)
  also have "(\<Prod>x \<in> ?S. b * x) = b ^ (r - 1) * \<Prod>?S" by (simp add: prod.distrib)
  finally have eq: "\<Prod>?S mod r = b ^ (r - 1) * \<Prod>?S mod r" .
  have cop: "coprime r (\<Prod>?S)"
  proof (rule prod_coprime_right)
    fix x assume "x \<in> ?S"
    then have "\<not> r dvd x" by (auto dest: dvd_imp_le)
    then show "coprime r x" by (rule prime_coprime [OF assms(1)])
  qed
  have pos: "0 < b ^ (r - 1)" using assms(2) by (auto intro: Nat.gr0I)
  have "r dvd b ^ (r - 1) * \<Prod>?S - \<Prod>?S"
    using eq pos by (metis mod_eq_dvd_iff_nat mult_le_mono1 mult_1 Suc_leI One_nat_def)
  also have "b ^ (r - 1) * \<Prod>?S - \<Prod>?S = (b ^ (r - 1) - 1) * \<Prod>?S" by (simp add: diff_mult_distrib)
  finally have "r dvd b ^ (r - 1) - 1" using cop by (simp add: coprime_dvd_mult_left_iff)
  then show ?thesis using pos r by (metis One_nat_def Suc_leI mod_eq_dvd_iff_nat mod_less)
qed

lemma pow_gcd:
  assumes "b ^ m mod r = 1" and "b ^ k mod r = 1" and "0 < m" and "1 < (r :: nat)"
  shows "b ^ gcd m k mod r = 1"
proof -
  obtain x y where xy: "m * x = k * y + gcd m k" using bezout_nat [of m k] assms(3) by auto
  have one: "(b ^ j) ^ i mod r = 1" if "b ^ j mod r = 1" for i j
    using that assms(4) by (metis mod_less power_mod power_one)
  have "1 = b ^ (m * x) mod r" using one [OF assms(1)] by (simp add: power_mult)
  also have "\<dots> = (b ^ (k * y) mod r) * b ^ gcd m k mod r" by (simp add: xy power_add mod_simps)
  also have "\<dots> = b ^ gcd m k mod r" using one [OF assms(2), of y] by (simp add: power_mult)
  finally show ?thesis by simp
qed

lemma order_prime:
  assumes "is_prime q" and "is_prime r" and "b ^ q mod r = 1" and "b mod r \<noteq> 1"
  shows "q dvd r - 1"
proof -
  have r: "1 < r" using assms(2) by (rule is_prime_gt)
  have "\<not> r dvd b"
  proof
    assume "r dvd b"
    then have "b ^ q mod r = 0" using is_prime_gt [OF assms(1)] by (auto simp: dvd_power dvd_eq_mod_eq_0 [symmetric] intro: dvd_trans)
    then show False using assms(3) by simp
  qed
  then have "b ^ gcd q (r - 1) mod r = 1"
    using assms(1,3) fermat [OF assms(2)] r by (intro pow_gcd) (auto dest: is_prime_gt)
  then have "gcd q (r - 1) \<noteq> 1" using assms(4) by auto
  then have "gcd q (r - 1) = q" using assms(1) unfolding is_prime_def by blast
  then show ?thesis by (metis gcd_dvd2)
qed

lemma dvd_pow2: "d dvd 2 ^ Suc e \<Longrightarrow> d = 2 ^ Suc e \<or> d dvd (2 :: nat) ^ e"
proof (induction e arbitrary: d)
  case 0
  then show ?case using dvd_imp_le [of d 2] by (cases "d = 0") (auto simp: le_Suc_eq numeral_2_eq_2)
next
  case (Suc e)
  show ?case
  proof (cases "even d")
    case True
    then obtain h where h: "d = 2 * h" by blast
    then have "h dvd 2 ^ Suc e" using Suc.prems by simp
    then show ?thesis using Suc.IH [of h] h by auto
  next
    case False
    then have "coprime d (2 ^ Suc (Suc e))" by (simp only: coprime_power_right_iff coprime_right_2_iff_odd) simp
    then have "d = 1" using Suc.prems by (metis coprime_absorb_left nat_dvd_1_iff_1)
    then show ?thesis by simp
  qed
qed

lemma order_pow2:
  assumes "is_prime r" and "b ^ 2 ^ e mod r = r - 1" and "2 < r"
  shows "2 ^ Suc e dvd r - 1"
proof -
  have sq: "b ^ 2 ^ Suc e mod r = 1"
  proof -
    have "b ^ 2 ^ Suc e = (b ^ 2 ^ e) ^ 2" by (simp add: power_mult [symmetric] mult.commute)
    then have "b ^ 2 ^ Suc e mod r = (r - 1) ^ 2 mod r" using assms(2) by (metis power_mod)
    also have "(r - 1) ^ 2 = 1 + r * (r - 2)" using assms(3) by (auto simp: power2_eq_square algebra_simps less_eq_Suc_le dest!: le_Suc_ex)
    also have "(1 + r * (r - 2)) mod r = 1 mod r" by (rule mod_mult_self2)
    finally show ?thesis using assms(3) by simp
  qed
  have "\<not> r dvd b"
  proof
    assume "r dvd b"
    then have "b ^ 2 ^ Suc e mod r = 0" by (auto simp: dvd_power dvd_eq_mod_eq_0 [symmetric] intro: dvd_trans)
    then show False using sq by simp
  qed
  then have g: "b ^ gcd (2 ^ Suc e) (r - 1) mod r = 1"
    using sq fermat [OF assms(1)] assms(3) by (intro pow_gcd) auto
  have "gcd (2 ^ Suc e) (r - 1) = 2 ^ Suc e"
  proof (rule ccontr)
    assume "gcd (2 ^ Suc e) (r - 1) \<noteq> 2 ^ Suc e"
    then have "gcd (2 ^ Suc e) (r - 1) dvd 2 ^ e" using dvd_pow2 by blast
    then obtain k where "2 ^ e = gcd (2 ^ Suc e) (r - 1) * k" by blast
    then have "b ^ 2 ^ e mod r = 1" using g assms(3) by (metis mod_less power_mod power_mult power_one numeral_2_eq_2 Suc_lessD One_nat_def)
    then show False using assms(2,3) by simp
  qed
  then show ?thesis by (metis gcd_dvd2)
qed

lemma pocklington:
  assumes "1 < n" and "\<And>r. is_prime r \<Longrightarrow> r dvd n \<Longrightarrow> F dvd r - 1" and "n - 1 = F * (a * F + c)" and "0 < c" and "c < F"
    and "n < F * F * F" and "s * s + 4 * a < c * c \<and> c * c < (s + 1) * (s + 1) + 4 * a"
  shows "is_prime n"
proof (rule ccontr)
  assume not: "\<not> is_prime n"
  obtain r where r: "is_prime r" "r dvd n" using prime_divisor [OF assms(1)] by blast
  then obtain t where t: "n = r * t" by blast
  have F: "0 < F" using assms(5) by simp
  obtain u where "r - 1 = F * u" using assms(2) [OF r] by blast
  then have ru: "r = F * u + 1" and u: "0 < u" using is_prime_gt [OF r(1)] by (auto intro: Nat.gr0I)
  have "t \<noteq> 0" using t assms(1) by (intro notI) simp
  moreover have "t \<noteq> 1" using t r not by auto
  ultimately have "1 < t" by simp
  have "n - 1 = F * (u * t) + (t - 1)" using \<open>1 < t\<close> by (simp add: t ru algebra_simps)
  then have "F dvd t - 1" using assms(3) by (metis dvd_add_right_iff dvd_triv_left)
  then obtain v where "t - 1 = F * v" by blast
  then have tv: "t = F * v + 1" and v: "0 < v" using \<open>1 < t\<close> by (auto intro: Nat.gr0I)
  have "F * (u * v * F + (u + v)) = F * (a * F + c)"
    using assms(3) by (simp add: t ru tv algebra_simps)
  then have R: "u * v * F + (u + v) = a * F + c" using F by simp
  have "u * v * (F * F) \<le> n" by (simp add: t ru tv algebra_simps)
  moreover have "n < F * (F * F)" using assms(6) by (simp only: mult.assoc)
  ultimately have "u * v * (F * F) < F * (F * F)" by (rule le_less_trans)
  then have uv: "u * v < F" by (simp only: mult_less_cancel2)
  have sum: "u + v \<le> u * v + 1"
  proof -
    obtain u' v' where "u = Suc u'" "v = Suc v'" using u v by (auto simp: gr0_conv_Suc)
    then show ?thesis by simp
  qed
  have "u + v \<noteq> F"
  proof
    assume "u + v = F"
    then have "(u * v * F + (u + v)) mod F = 0" by simp
    then show False using assms(4,5) by (simp add: R)
  qed
  then have "u + v < F" using sum uv by simp
  then have "(u * v * F + (u + v)) div F = u * v" "(u * v * F + (u + v)) mod F = u + v" using F by simp_all
  then have ac: "a = u * v" "c = u + v" using assms(5) F by (simp_all add: R)
  obtain w where w: "c * c = w * w + 4 * a"
  proof (cases "u \<le> v")
    case True
    then obtain k where "v = u + k" using le_Suc_ex by blast
    then show ?thesis using that [of k] by (simp add: ac algebra_simps)
  next
    case False
    then obtain k where "u = v + k" using le_Suc_ex nat_le_linear by blast
    then show ?thesis using that [of k] by (simp add: ac algebra_simps)
  qed
  then have "s * s < w * w" "w * w < (s + 1) * (s + 1)" using assms(7) by auto
  then have "s < w" "w < s + 1" by (metis mult_le_mono not_less)+
  then show False by simp
qed

section \<open>Power chains\<close>

text \<open>
  A chain multiplies by itself or by the base; each step carries the quotient by the modulus
  and the remainder.
\<close>

fun chain_ok :: "nat \<Rightarrow> nat \<Rightarrow> nat \<Rightarrow> (bool \<times> nat \<times> nat) list \<Rightarrow> bool" where
  "chain_ok n b x [] = True"
| "chain_ok n b x ((m, k, y) # steps) = ((if m then x * b else x * x) = k * n + y \<and> chain_ok n b y steps)"

fun chain_end :: "nat \<Rightarrow> (bool \<times> nat \<times> nat) list \<Rightarrow> nat" where
  "chain_end x [] = x"
| "chain_end x ((m, k, y) # steps) = chain_end y steps"

fun chain_exp :: "nat \<Rightarrow> (bool \<times> nat \<times> nat) list \<Rightarrow> nat" where
  "chain_exp e [] = e"
| "chain_exp e ((m, k, y) # steps) = chain_exp (if m then e + 1 else 2 * e) steps"

lemma chain_power:
  "chain_ok n b x steps \<Longrightarrow> b ^ e mod n = x mod n \<Longrightarrow> b ^ chain_exp e steps mod n = chain_end x steps mod n"
proof (induction steps arbitrary: x e)
  case (Cons step steps)
  obtain m k y where step: "step = (m, k, y)" by (cases step)
  have "b ^ (if m then e + 1 else 2 * e) mod n = (if m then (b ^ e mod n) * b else (b ^ e mod n) * (b ^ e mod n)) mod n"
    by (simp add: mod_simps mult_2 power_add mult.commute [of b])
  also have "\<dots> = (if m then x * b else x * x) mod n"
    using Cons.prems(2) by (simp add: mod_simps)
  also have "\<dots> = y mod n" using Cons.prems(1) by (simp add: step)
  finally have "b ^ (if m then e + 1 else 2 * e) mod n = y mod n" .
  moreover have "chain_ok n b y steps" using Cons.prems(1) by (simp add: step)
  ultimately show ?case using Cons.IH [of y "if m then e + 1 else 2 * e"] by (simp add: step)
qed simp

lemma chain_powerI:
  assumes "chain_ok n b b steps" and "chain_exp 1 steps = e" and "chain_end b steps = y" and "y < n"
  shows "b ^ e mod n = y"
  using chain_power [OF assms(1), of 1] assms(2-4) by simp
lemma chain_powerI2:
  assumes "b ^ e mod n = x" and "chain_ok n b x steps" and "chain_exp e steps = e'" and "chain_end x steps = y" and "y < n"
  shows "b ^ e' mod n = y"
proof -
  have "b ^ e mod n = x mod n" using assms(1) by (metis mod_mod_trivial)
  from chain_power [OF assms(2) this] show ?thesis using assms(3-5) by simp
qed

section \<open>What a certificate gives\<close>

lemma order_divides:
  assumes "is_prime q" and "b ^ q mod n = 1" and "b = b1 + 1" and "b1 * c = k * n + 1" and "1 < n"
    and "is_prime r" and "r dvd n"
  shows "q dvd r - 1"
proof (rule order_prime [OF assms(1,6)])
  have r: "1 < r" using assms(6) by (rule is_prime_gt)
  show "b ^ q mod r = 1" using assms(2,7) r by (metis mod_mod_cancel mod_less)
  show "b mod r \<noteq> 1"
  proof
    assume "b mod r = 1"
    then have "r dvd b1" using r by (metis assms(3) add_diff_cancel_right' le_add2 mod_eq_dvd_iff_nat mod_less)
    then have "r dvd k * n + 1" using assms(4) by (metis dvd_mult2)
    then show False using assms(7) r by (metis dvd_add_right_iff dvd_mult nat_dvd_1_iff_1 less_irrefl)
  qed
qed

lemma mod_minus_one_dvd:
  assumes "x mod n = n - 1" and "r dvd n" and "1 < r" and "1 < (n :: nat)"
  shows "x mod r = r - 1"
proof -
  obtain t where t: "n = r * t" using assms(2) by blast
  then obtain t' where "t = Suc t'" using assms(4) by (cases t) auto
  then have "n - 1 = (r - 1) + r * t'" using t assms(3) by simp
  then have "(n - 1) mod r = r - 1" using assms(3) by (simp only: mod_mult_self2) simp
  then show ?thesis using assms(1,2) by (metis mod_mod_cancel)
qed

lemma pocklington_square:
  assumes "1 < n" and "\<And>r. is_prime r \<Longrightarrow> r dvd n \<Longrightarrow> F dvd r - 1" and "n < F * F"
  shows "is_prime n"
proof (rule ccontr)
  assume not: "\<not> is_prime n"
  have big: "F < r" if "is_prime r" "r dvd n" for r
    using assms(2) [OF that] is_prime_gt [OF that(1)] by (auto dest: dvd_imp_le)
  obtain r where r: "is_prime r" "r dvd n" using prime_divisor [OF assms(1)] by blast
  then obtain t where t: "n = r * t" by blast
  have "t \<noteq> 0" using t assms(1) by (intro notI) simp
  moreover have "t \<noteq> 1" using t r not by auto
  ultimately have "1 < t" by simp
  then obtain r' where r': "is_prime r'" "r' dvd t" using prime_divisor by blast
  then have "F < r'" using big t by simp
  also have "r' \<le> t" using r'(2) \<open>1 < t\<close> by (auto intro: dvd_imp_le)
  finally have "F * F \<le> r * t" using big [OF r] by (intro mult_le_mono) simp_all
  then show False using assms(3) t by simp
qed

section \<open>The certificate\<close>

lemmas chain_eval = chain_ok.simps chain_exp.simps chain_end.simps if_True if_False arith_simps rel_simps
  simp_thms mult_1_right numeral_plus_one

lemma prime_29: "is_prime 29"
  by (rule small_prime [of _ 6]) (simp_all add: upt_rec)

lemma prime_983: "is_prime 983"
  by (rule small_prime [of _ 32]) (simp_all add: upt_rec)

lemma prime_11003: "is_prime 11003"
  by (rule small_prime [of _ 105]) (simp_all add: upt_rec)

lemma prime_11: "is_prime 11"
  by (rule small_prime [of _ 4]) (simp_all add: upt_rec)

lemma prime_4999: "is_prime 4999"
  by (rule small_prime [of _ 71]) (simp_all add: upt_rec)

lemma chain_4999_1: "(357727241 :: nat) ^ 38 mod 405928799 = 183179109"
  by (rule chain_powerI [where steps = "[(False, 315249322, 288447803),
      (False, 204967312, 261108521),
      (False, 167954724, 339110965),
      (True, 298843615, 176529180),
      (False, 76768515, 296508915),
      (True, 261300297, 355300212),
      (False, 310986165, 183179109)]"])
    (simp_all only: chain_eval)

lemma chain_4999_2: "(357727241 :: nat) ^ 1249 mod 405928799 = 183336204"
  by (rule chain_powerI2 [OF chain_4999_1, where steps = "[(True, 161427712, 13930381),
      (False, 478053, 34656814),
      (False, 2958880, 151845476),
      (False, 56800721, 123802497),
      (False, 37757996, 294508205),
      (False, 213670680, 298408705),
      (True, 262974499, 183336204)]"])
    (simp_all only: chain_eval)

lemma chain_4999: "(357727241 :: nat) ^ 4999 mod 405928799 = 1"
  by (rule chain_powerI2 [OF chain_4999_2, where steps = "[(False, 82803101, 354723917),
      (True, 312602625, 14625622),
      (False, 526961, 173037045),
      (True, 152489956, 1)]"])
    (simp_all only: chain_eval)

lemma chain_11: "(215859951 :: nat) ^ 11 mod 405928799 = 1"
  by (rule chain_powerI [where steps = "[(False, 114787417, 122600218),
      (False, 37028201, 292586925),
      (True, 155588367, 339059442),
      (False, 283205590, 190564954),
      (True, 101336347, 1)]"])
    (simp_all only: chain_eval)

lemma prime_405928799: "is_prime 405928799"
proof (rule pocklington_square)
  fix r :: nat assume r: "is_prime r" "r dvd 405928799"
  have "4999 dvd r - 1"
    by (rule order_divides [OF prime_4999 chain_4999 _ _ _ r, of 357727240 173101550 152546801]) simp_all
  moreover have "11 dvd r - 1"
    by (rule order_divides [OF prime_11 chain_11 _ _ _ r, of 215859950 206638701 109883851]) simp_all
  ultimately have "4999 * 11 dvd r - 1" by (rule divides_mult) (simp add: coprime_iff_gcd_eq_1 gcd_non_0_nat)
  then show "54989 dvd r - 1" by simp
qed simp_all

lemma order_405928799_1: "(14222862425608002768327293780974001985325119916805696672186700023306367139382 :: nat) ^ 96 mod fr_modulus = 15416422292512675024978122924509440457546293118848069962023560190804819743059"
  unfolding fr_modulus_def
  by (rule chain_powerI [where steps = "[(False, 9241939463218935390999996053957072212464739742668329086032133508319902541083, 10584763409437840528536238318324647995371688604507548528221026866052047408713),
      (True, 6877922301096685784926359356952328297166971251246434798411071679654369759285, 2573147749842245002874275377187798594309865714750402216606388306493324681521),
      (False, 302495242824479709514470573306638307208881312001835331092866966097480862384, 17807744150587399245971988009897647632046247334622665034882492083017234702513),
      (False, 14487949242411362525691784523465872435384249481546221606382927824891321022038, 3303046970436181948662814810789340838844487022053947552171028841203925107723),
      (False, 498446556573266834683556108831033280740841627503468139630800923096971246159, 4886300591768137783329633989405368045244913786020295030782984211917574659626),
      (False, 1090810880202342713989773785190287081796964159804839731357180086348012783472, 7235382889264460648266560920553555066159646672917336894596171999272672417652),
      (False, 2391729928290122487307003694248431600149289695922431062589939809968885037885, 15416422292512675024978122924509440457546293118848069962023560190804819743059)]"])
    (simp_all only: chain_eval)

lemma order_405928799_2: "(14222862425608002768327293780974001985325119916805696672186700023306367139382 :: nat) ^ 3096 mod fr_modulus = 3151192795990056420466865972605965399134362832114738252397862853205214208091"
  unfolding fr_modulus_def
  by (rule chain_powerI2 [OF order_405928799_1 [unfolded fr_modulus_def], where steps = "[(False, 10858161511304110232792769700084852822861336022765068632019646459480961234675, 8188346972890365598092712806714546640239052193393551187431276496248132758006),
      (True, 5320743797045463791828817309232933809698923291893839734460319793157358667063, 9441845328481669865421219756396472034455321106882432396571692514421880629421),
      (False, 4072891722234438249979322264747703719442168923032186247867665181699543748651, 18658360041416004908163224026460906985162046955850313629245675976650047632574),
      (True, 12124101944151258143531907013354262069363144408996423531356353649908553017840, 17403680525409329953063323430500650520312512217043697072523788624002018621988),
      (False, 13837935626171174651524906076705205954214097205138983607295517415081370248108, 11766880935368026926937542086316979253434940692302077124452873564680916529508),
      (False, 6325747012121523601489400652904004620825821208846398064090816671685180804225, 11868194923447406154491309019261056675557016130061130017517128217775587140239),
      (False, 6435146556335098689404946087191892372578447997237040547637355711484371315590, 3151192795990056420466865972605965399134362832114738252397862853205214208091)]"])
    (simp_all only: chain_eval)

lemma order_405928799_3: "(14222862425608002768327293780974001985325119916805696672186700023306367139382 :: nat) ^ 49550 mod fr_modulus = 11357104816759870663695910151165535117072581353483562019947102499555737346435"
  unfolding fr_modulus_def
  by (rule chain_powerI2 [OF order_405928799_2 [unfolded fr_modulus_def], where steps = "[(False, 453668944357122225917572278392338576727041648699214809821879202436131600523, 1134420304183342993362665891020093744837899243408761712867630748233209456590),
      (True, 737140208727054678160277235455251087357367585028752693761392050631325927122, 5227698462601000433332186069309560302511577298615062026565323516182410003106),
      (False, 1248562133374409790208735140973927960088369308119463621378212404335563714258, 13659557207975185502753626763585705900035919627999628984390135878579096240050),
      (True, 8875906764252200086705036790134610455187322315320118143419527081666452212136, 6762308724886334865387049737445485763489845470897335988844176093338570441188),
      (False, 2089195535631921767818652317574675896855151910931592616530637117872950196143, 15430382000797063540125351946848592382780707994076234298846370637571061046113),
      (True, 10026579184858658843518968747666029409041635827805218364102097456048713827950, 4986138361157514007871290062974220857303476404312677702760141003497333227016),
      (False, 1135841552114384701722140291382242652308498702049787171778958871934823284413, 11357104816759870663695910151165535117072581353483562019947102499555737346435)]"])
    (simp_all only: chain_eval)

lemma order_405928799_4: "(14222862425608002768327293780974001985325119916805696672186700023306367139382 :: nat) ^ 792828 mod fr_modulus = 10785941694586649498806603448636402306768745158313359897728456157243504650489"
  unfolding fr_modulus_def
  by (rule chain_powerI2 [OF order_405928799_3 [unfolded fr_modulus_def], where steps = "[(True, 7379785591186295581156150586408816672652873526142594885742421369468458250152, 10100200149356344024004716574117101390726633802510866158899228473639084219386),
      (False, 4660677590904566078491824511202623868762663750176859514661582095952117194956, 3285890172433254707572068963891121356986895877804464293980561514520717709144),
      (True, 2135153750888931183188370957223456122974473613913800613020910932102245490296, 12001913743523593157561013923815707782642691417080589730453063585033251876376),
      (False, 6580972915478084214738303222473659491642548438319474496295467471339764686057, 19232804892939135043928867899025292588519052744977138779998221251261321381207),
      (True, 12497373117271503554370809735868795036078242565813894810419818021470768530122, 9693475945566381804326939525091782483137102490943932422754234900366554918800),
      (False, 4292874327896119622765385261919155914156138195862636418947123165810653554843, 6329613893984300333923749508008285334775273239070178674008704012753558816869),
      (False, 1830389596894696159514948493546952075308313842186232576152595856600465608416, 10785941694586649498806603448636402306768745158313359897728456157243504650489)]"])
    (simp_all only: chain_eval)

lemma order_405928799_5: "(14222862425608002768327293780974001985325119916805696672186700023306367139382 :: nat) ^ 12685274 mod fr_modulus = 17657843873118605059270873081591673238688030877001425139032821217697517410539"
  unfolding fr_modulus_def
  by (rule chain_powerI2 [OF order_405928799_4 [unfolded fr_modulus_def], where steps = "[(True, 7008646868136854465856354009943182093069164495173111783155225266859571806595, 5298757986959443512193566374503607641054458811887016048431344795274828263683),
      (False, 1282735958695399366066641751095615232739989706766290216941512582103752910310, 21064396724538364484356778768366782650154033401492005364866016533525947613219),
      (True, 13687531632655072665114295058852429616686118049937877969193712619765493755370, 18126940718629126583734539384272640132196413991151366426251994942888083477368),
      (False, 15011985280894476091651049826864380290005461185880806494750924776546923678089, 19797363386404965399190537984205835914018662676570196371434920442295492771511),
      (False, 17906215649572304867282756387615218287527372749037365615132521171929620616428, 2432175581036112028789778465464303602370688603090206148927609984297177027045),
      (True, 1580414603700576190071753173677032330665824175053642928110676222141701207441, 14430447745575620511062166945023329711646571015017451904134761505109242300093),
      (False, 9513683823643091068638336364515289801624744868371520246214197705747097308830, 17657843873118605059270873081591673238688030877001425139032821217697517410539)]"])
    (simp_all only: chain_eval)

lemma order_405928799_6: "(14222862425608002768327293780974001985325119916805696672186700023306367139382 :: nat) ^ 202964398 mod fr_modulus = 9768822166239747600185694048353210784299066323721298319305147359600906541302"
  unfolding fr_modulus_def
  by (rule chain_powerI2 [OF order_405928799_5 [unfolded fr_modulus_def], where steps = "[(False, 14245065356460550988846985886113838041385956672112944636995436210700919868035, 13214875632174451444383473270468210295026968125725650617699449089732352367926),
      (True, 8586955069369761327357597708734444819917387841458295559815844253991556271834, 19874977034712346193586061742094500359546474907566998503828923847785938710154),
      (False, 18046890033304439844019583431132577118003033431396530087686700210102652667164, 9380754606630985518706811003242196037983048052103948027787135069757768883528),
      (True, 6095563860457548229425538798678062285640271379332711628575304082078369704611, 12998044165125778467240076131482959873930362194917816854451741707156721709709),
      (False, 7718716989198112386608235066553052134787704032080463379592324099335504531852, 6364810838968926515376155413694258843825843987486351136257894506726085971997),
      (True, 4135819830660842002521720274473603170923091890882889815836491114472694860145, 12880937463851639338942300097690900988356590158795615030386442795139187401389),
      (False, 7580258996537464861887124314819658815793739360457901598149232571865746821107, 9768822166239747600185694048353210784299066323721298319305147359600906541302)]"])
    (simp_all only: chain_eval)

lemma order_405928799: "(14222862425608002768327293780974001985325119916805696672186700023306367139382 :: nat) ^ 405928799 mod fr_modulus = 1"
  unfolding fr_modulus_def
  by (rule chain_powerI2 [OF order_405928799_6 [unfolded fr_modulus_def], where steps = "[(True, 6347728072289187900609967215126093251497278116418043938465110409248716587679, 13450617718345474024330463110477674766023181991230250201409534345186706052421),
      (False, 8265584316858711882443070662051867123100454087681602399488727643646403624298, 4428481230977041414328263716281962326178145612193385066487097873225352259375),
      (True, 2877603271828138885234744155755163551569303676939512528483232313021909624297, 1)]"])
    (simp_all only: chain_eval)

lemma order_11003_1: "(2359631316250983314861130673654602926021363809688312583465277785189831415697 :: nat) ^ 42 mod fr_modulus = 15424565725901271089112154921763749157798943927209100214243038222099939899335"
  unfolding fr_modulus_def
  by (rule chain_powerI [where steps = "[(False, 254376743772145433673488249297941481607867787003500812094018493130096169653, 20337520617895788776587308537522891646589000225510167669156056303099279084908),
      (False, 18896662802269981502589436384680603585238725742619042196161566619344683310196, 4764858681414210534757642474687729125798542638928929615817219260923355957532),
      (True, 513668905631553780423255614547497743632819838152836267252816856332975522939, 14519645670575377802185775057056859937010265793883746254721041703769105721441),
      (False, 9631659865684916862790332256976573909305593906386911874680685651989145843121, 14087363075804987013635177607335605271304382065931275716719742752968989015824),
      (False, 9066684776459519230100025080729671204671946004232741461739449417138647422083, 6762627210115246930487594652051991827243201430338704870882819825776667888765),
      (True, 729035539241440179485379589497906571707580819956666388241588515207085210898, 15427355108460504079721085272433195461807915866787689665356461865953517310139),
      (False, 10873567468896735993423558923998413828780857083216962234785430818898325352658, 15424565725901271089112154921763749157798943927209100214243038222099939899335)]"])
    (simp_all only: chain_eval)

lemma order_11003_2: "(2359631316250983314861130673654602926021363809688312583465277785189831415697 :: nat) ^ 686 mod fr_modulus = 449818792420556077086762770481329212362835827476950707282433112751694826933"
  unfolding fr_modulus_def
  by (rule chain_powerI2 [OF order_11003_1 [unfolded fr_modulus_def], where steps = "[(False, 10869635777787582369099967941604499102632409245914419400004530323593347408560, 1698846608621292442442195866873250581670997735243363170674943066910865160705),
      (True, 183141775366856172647293869136885374500903564362305587111367158350548654867, 20457826408235367008087252040217079097264721244063571122277655045175349368446),
      (False, 19120888953948444559221564243617579243868903653499067448035019129672824839007, 7782022924898226264980454176797287830050016004071713196749421897040170322597),
      (True, 838930064185179860326745098086395847289400632889639894164827746031956069837, 15030751829529000929926283395417513799819585604261508157231210598918939200680),
      (False, 10321682826882165034930170634287291194151960374627657519283925344713196805996, 10854691800654048763894861518191674312088418120147942748097771382991147142868),
      (True, 1170174821754606916057654339003056285545173222770979082849293075099119250602, 10779368485694960882682983631203016778568451621056619016305557105847115187562),
      (False, 5308547864291392228451831392803408787984292387846497752445414474759048987183, 449818792420556077086762770481329212362835827476950707282433112751694826933)]"])
    (simp_all only: chain_eval)

lemma order_11003_3: "(2359631316250983314861130673654602926021363809688312583465277785189831415697 :: nat) ^ 11002 mod fr_modulus = 19530970506026845029361403781049381943542222957580336670003445769660490171992"
  unfolding fr_modulus_def
  by (rule chain_powerI2 [OF order_11003_2 [unfolded fr_modulus_def], where steps = "[(True, 48492083875737544979499716527860772541042058170333488915915834130211999947, 2856375627885263144214374898001703490771244408934439512974982117039840835002),
      (False, 372751790783256149705667291257216677741718572660693622739040412250576722883, 522044975631490178164064426669164005482270184019767903937942319758459236193),
      (True, 56278326232225069770733218502255402277366025060540882087013979198048288175, 12827389261378327111447404553429045876284579901485722227951026936413650292546),
      (False, 7517365200411700330539126527966209880359021239287369404462526087011010430345, 12336786982785834338569681688583711190288672092685075141190618453341166864251),
      (False, 6953336270516488054961873104031875046310656712563469536434410946829662956722, 8555667716262714747666093047631042289119709364466631171186035715613264103527),
      (True, 922331755588502024936685434652395153019783179257122593469254389459427785528, 12374179059401076365289809068579154223625117431666549340456903768154576832543),
      (False, 6995550455588186023407411877075949705349444576367649125083547128644298255721, 19530970506026845029361403781049381943542222957580336670003445769660490171992)]"])
    (simp_all only: chain_eval)

lemma order_11003: "(2359631316250983314861130673654602926021363809688312583465277785189831415697 :: nat) ^ 11003 mod fr_modulus = 1"
  unfolding fr_modulus_def
  by (rule chain_powerI2 [OF order_11003_3 [unfolded fr_modulus_def], where steps = "[(True, 2105508875821544997435385642706366124825217117358018782495205718546683740119, 1)]"])
    (simp_all only: chain_eval)

lemma order_983_1: "(7126879685284399999585885404354813824736962529068896379753601470480697959896 :: nat) ^ 30 mod fr_modulus = 6226383957937982120630846056253608051144915203746188416957507271016907562599"
  unfolding fr_modulus_def
  by (rule chain_powerI [where steps = "[(False, 2320534103441779267189205448584516757432609592131405284845458919794375772318, 17220885855708295163879080308318869225369890667818302302139923304156331400610),
      (True, 5607173782119851551856564024841781523651220869821872538663051161381311815562, 12532736653322041403031823800947290170858299540793716677984711676169100544806),
      (False, 7175975200074302228321049301834347750448216259458760858623563879140840157410, 15950098779401143601917472049673441520327034002759245483704808201972438505666),
      (True, 5193401573382734493361892821041732049137847846212447348881352831835244427974, 21832481537251580834307027886137792562527536792110600393162863478770385580778),
      (False, 21776862257302680735517442873576628401564662718381054039889293069078741398880, 2380616466274694592746822603045354104058562035411630793237338153785434376324),
      (True, 775136096181345379464633019775765403583373207946440396696786974789244682824, 7249221378789401769321777601573864319812223381010051231566422986530164719896),
      (False, 2400887586381273655868841831749460412710044432819301111353589741298810147801, 6226383957937982120630846056253608051144915203746188416957507271016907562599)]"])
    (simp_all only: chain_eval)

lemma order_983_2: "(7126879685284399999585885404354813824736962529068896379753601470480697959896 :: nat) ^ 491 mod fr_modulus = 18461884860251744140630512176589252781963960611170717194080736600659006477485"
  unfolding fr_modulus_def
  by (rule chain_powerI2 [OF order_983_1 [unfolded fr_modulus_def], where steps = "[(False, 1771172652764418888734089374797329327525916336346635524384357293129985978123, 11795430665033025305549194241185472481488820626816352334763642157730200247910),
      (True, 3840628764858937946141692310250547058087218797792084615293160519656524883375, 47300138777278911846974798303656751144948814055659021518774453605314149985),
      (False, 102214834760824406959095366435834019246163906208460754936243108681342565, 13279855601662629869005754916472028643173572139037074474519322197074597462620),
      (False, 8057045320339649782670469202201148926358230595930575624141900210798941659987, 6560461398207119196278213258585363602399513219006577292866453234479103487421),
      (True, 2136106554497762687859656916683346869236317293740982963884711083673895682342, 18370665677803591186506447379051267611256425066146377791525315641194867173202),
      (False, 15418385085621641072881413255540314011738392936847226261145542861499434263093, 18832721460929705603484680625703972975916361003081486415765980929572951569423),
      (True, 6131992448384279294177982683893580554592657428513539364418777866600715207419, 18461884860251744140630512176589252781963960611170717194080736600659006477485)]"])
    (simp_all only: chain_eval)

lemma order_983: "(7126879685284399999585885404354813824736962529068896379753601470480697959896 :: nat) ^ 983 mod fr_modulus = 1"
  unfolding fr_modulus_def
  by (rule chain_powerI2 [OF order_983_2 [unfolded fr_modulus_def], where steps = "[(False, 15571884622666907603027370729154338162729864772438078122790545187007165256504, 4671733440282693871272265945040251663728707340731702275808152675909647182257),
      (True, 1521130880425796109533257176340718986053067881816691289549320211825818354263, 1)]"])
    (simp_all only: chain_eval)

lemma order_29: "(2311681098533763473416896062848657696496278469729448718376354367453537275826 :: nat) ^ 29 mod fr_modulus = 1"
  unfolding fr_modulus_def
  by (rule chain_powerI [where steps = "[(False, 244143375629001351967190250228183284899094390607387194424625017714176225758, 6697053768623682724825840966562332528203044295843519341234913211528258479590),
      (True, 707295359588211873748678973405681780245637131952905772502746282817911973203, 15219464871279583790653102558308688104765138325122828787264981992081774440089),
      (False, 10582489984434696944850215016991914048151586878465457235749598042035009000822, 14876143967269748452066407396236536682424961905759823387397710725499313930747),
      (True, 1571112904291108197241149951769125203823979540667298005734261164374018041828, 19544625139443929342213099353819109293932067034285041377287159737369540554146),
      (False, 17451943222580146184907992637300555511291166956988364156587276187310731168960, 1445321314310548449450855625847692606302934491728603551734574483363311340996),
      (False, 95437249752375203491585762385387367205445172747351284032345316256770311462, 13392482854871659709907742963461621063928292497923271792982753966269038409962),
      (True, 1414419131737403143621941076786158816170319111816514406086233913554229807283, 1)]"])
    (simp_all only: chain_eval)

lemma order_two_1: "(19103219067921713944291392827692070036145651957329286315305642004821462161904 :: nat) ^ 128 mod fr_modulus = 13536764371732269273912573961853310557438878140379554347802702086337840854307"
  unfolding fr_modulus_def
  by (rule chain_powerI [where steps = "[(False, 16672557084356874012651953139829525463057504866793717780751343799479068144828, 2082940218526944230311718225077035922214683169814847712455127909555749686340),
      (False, 198217827687714114126275464786318396108164869989857940457871390719981903870, 7419588552507395652481651088034484897579724952953562618697845598160172257810),
      (False, 2515062292155245027069864333963322505919293137084736079961582785656570533418, 19200870435978225707111062059747084165650991997241425080699860725083300967194),
      (False, 16843445481571583430227885364460874020001252829742532869269498935021226449481, 5709868443893258075976348696661355716898495876243883251619397131511003808859),
      (False, 1489502736124766463390393674700237947022058754416888917930396911647706067644, 934650972362265999028062457054462628285482693704334323590406443310927365533),
      (False, 39910578718113555993165701453307131754816696752738973614033766035366198731, 12143866164239048021030917283424216263377309185099704096317235600302831912062),
      (False, 6737566202935584050794569747950519725015498739685143347432835735052917569761, 13536764371732269273912573961853310557438878140379554347802702086337840854307)]"])
    (simp_all only: chain_eval)

lemma order_two_2: "(19103219067921713944291392827692070036145651957329286315305642004821462161904 :: nat) ^ 16384 mod fr_modulus = 20619701001583904760601357484951574588621083236087856586626117568842480512645"
  unfolding fr_modulus_def
  by (rule chain_powerI2 [OF order_two_1 [unfolded fr_modulus_def], where steps = "[(False, 8371799907774053986441269690360542829230568067858398985743985845792998361714, 17220337697351015657950521176323262483320249231368149235373741788599650842711),
      (False, 13547913925622945070431920400596411406900026260347035540648758368232353317076, 15549849457946371566896172786938980432421851627449396898353380550861104573629),
      (False, 11046926863000251731949665838047889186531977171501126998425904394322351506089, 11699596668367776675346610687704220591435078791727316319397053191800576917728),
      (False, 6253611265369711584577570298389666242657110490156066321537873852415837563675, 12650941915662020058015862023665998998969191525479888727406889100124684769509),
      (False, 7311977132680887666919112337312485366035861344977569222884081406616502008098, 421743594562400382753388642386256516545992082196004333756405989743524594615),
      (False, 8126173516799436175753176591810588407911105611305434511656385899525726166, 20402931748843538985151001264530049874871572933694634836567070693966133783803),
      (False, 19018412139584760463302058803488828214798745105558745409486914808582576230292, 20619701001583904760601357484951574588621083236087856586626117568842480512645)]"])
    (simp_all only: chain_eval)

lemma order_two_3: "(19103219067921713944291392827692070036145651957329286315305642004821462161904 :: nat) ^ 2097152 mod fr_modulus = 10359452186428527605436343203440067497552205259388878191021578220384701716497"
  unfolding fr_modulus_def
  by (rule chain_powerI2 [OF order_two_2 [unfolded fr_modulus_def], where steps = "[(False, 19424677982796567728361873563865850263252824252129332680410457715389974494729, 197302210312744933010843010704445784068657690384188106020011018676818793232),
      (False, 1778496447715242687608028032830735818407159063530376256336898723078507718, 4158865282786404163413953114870269622875596290766033564087307867933865333818),
      (False, 790203240234451776713197109817938542187136886744547052794430954663220997698, 1120550406532664055539694724667294622065367841900378087843176726913374367458),
      (False, 57365646979181544077046827509516816920958182236918040098956763040731604594, 3161067157621608152362653341354432744960400845131437947728257924963983317266),
      (False, 456516570722531153192819861264884875902520782487157749003120722497387113846, 6837567842312086091520287814181175430087169027974246751610506942214842701774),
      (False, 2135956470876446593359947062647111995017670062556736186509066251312223760206, 3478517300119284901893091970156912948790432420133812234316178878452092729974),
      (False, 552811967505931911077480175926022109607232560434870357042358802337152341587, 10359452186428527605436343203440067497552205259388878191021578220384701716497)]"])
    (simp_all only: chain_eval)

lemma order_two: "(19103219067921713944291392827692070036145651957329286315305642004821462161904 :: nat) ^ 134217728 mod fr_modulus = 21888242871839275222246405745257275088548364400416034343698204186575808495616"
  unfolding fr_modulus_def
  by (rule chain_powerI2 [OF order_two_3 [unfolded fr_modulus_def], where steps = "[(False, 4903008899858795211276705245240256617044142993777020929384679199057145376487, 9088801421649573101014283686030284801466796108869023335878462724291607593530),
      (False, 3774003777546619915214788881498883203705823661196401766653898994770377433684, 4419234939496763621076330863786513495701855246241724391626358375488475697872),
      (False, 892243272555933727136496954981132583515142470848341894421126000032742089461, 14940766826517323942636479241147756311199852622225275649687664389641784935947),
      (False, 10198466577303779716174263455274497776553713679034007698197024499811553945081, 19540430494807482326159819597004422086093766032135589407132600596362845576832),
      (False, 17444452995066617625487937660570427516240463878249347913698484080455254673866, 21888242871839275217838484774961031246007050428528088939761107053157389710902),
      (False, 21888242871839275213430563804664787404353416997930879449828600104561791390564, 21888242871839275222246405745257275088548364400416034343698204186575808495616)]"])
    (simp_all only: chain_eval)

lemma divides_405928799:
  assumes "is_prime r" and "r dvd fr_modulus"
  shows "405928799 dvd r - 1"
  by (rule order_divides [OF prime_405928799 order_405928799 _ _ _ assms,
      of 14222862425608002768327293780974001985325119916805696672186700023306367139381
        11867785311923627686151832346040282841447401680872518887358118101719435550735
        7711623028694825417506845074318203452747374779481014847127216627349116421402])
    (simp_all only: fr_modulus_def arith_simps rel_simps simp_thms numeral_plus_one one_less_numeral_iff)

lemma divides_11003:
  assumes "is_prime r" and "r dvd fr_modulus"
  shows "11003 dvd r - 1"
  by (rule order_divides [OF prime_11003 order_11003 _ _ _ assms,
      of 2359631316250983314861130673654602926021363809688312583465277785189831415696
        16630704802727952925674427942468677774696084044157581070592138391231389425326
        1792849800398115061521113377061044119666256817982433045513507110502422995935])
    (simp_all only: fr_modulus_def arith_simps rel_simps simp_thms numeral_plus_one one_less_numeral_iff)

lemma divides_983:
  assumes "is_prime r" and "r dvd fr_modulus"
  shows "983 dvd r - 1"
  by (rule order_divides [OF prime_983 order_983 _ _ _ assms,
      of 7126879685284399999585885404354813824736962529068896379753601470480697959895
        2182979773476594597816621090240490251929741808593388263240661821959304335301
        710784976759980282178454411707012067581443694152988473245121839271926298482])
    (simp_all only: fr_modulus_def arith_simps rel_simps simp_thms numeral_plus_one one_less_numeral_iff)

lemma divides_29:
  assumes "is_prime r" and "r dvd fr_modulus"
  shows "29 dvd r - 1"
  by (rule order_divides [OF prime_29 order_29 _ _ _ assms,
      of 2311681098533763473416896062848657696496278469729448718376354367453537275825
        15964009029282740200819581168847542769910529790789654768730896341736599633483
        1686005502858083728080911571616528080391658040413191035096969255930063189722])
    (simp_all only: fr_modulus_def arith_simps rel_simps simp_thms numeral_plus_one one_less_numeral_iff)

lemma pow_27: "(2 :: nat) ^ 27 = 134217728"
  by simp

lemma modulus_pred: "fr_modulus - 1 = 21888242871839275222246405745257275088548364400416034343698204186575808495616"
  by (simp add: fr_modulus_def)

lemma divides_two:
  assumes "is_prime r" and "r dvd fr_modulus"
  shows "2 ^ 28 dvd r - 1"
proof -
  have "r \<noteq> 2" using assms(2) by (intro notI) (simp add: fr_modulus_def)
  then have r: "2 < r" using is_prime_gt [OF assms(1)] by simp
  have "19103219067921713944291392827692070036145651957329286315305642004821462161904 ^ 2 ^ 27 mod fr_modulus = fr_modulus - 1"
    using order_two by (simp only: pow_27 modulus_pred)
  then have "19103219067921713944291392827692070036145651957329286315305642004821462161904 ^ 2 ^ 27 mod r = r - 1"
    using assms(2) by (rule mod_minus_one_dvd) (use r in \<open>simp_all add: fr_modulus_def\<close>)
  from order_pow2 [OF assms(1) this r] show ?thesis by simp
qed

text \<open>The factor 34178450601128098187444224 of the modulus minus one exceeds its cube root.\<close>

theorem modulus_prime: "is_prime fr_modulus"
proof (rule pocklington)
  fix r assume r: "is_prime r" "r dvd fr_modulus"
  have "2 ^ 28 * 405928799 dvd r - 1"
    using divides_two [OF r] divides_405928799 [OF r] by (rule divides_mult) (simp add: coprime_iff_gcd_eq_1 gcd_non_0_nat)
  then have "2 ^ 28 * 405928799 * 11003 dvd r - 1"
    using divides_11003 [OF r] by (rule divides_mult) (simp add: coprime_iff_gcd_eq_1 gcd_non_0_nat)
  then have "2 ^ 28 * 405928799 * 11003 * 983 dvd r - 1"
    using divides_983 [OF r] by (rule divides_mult) (simp add: coprime_iff_gcd_eq_1 gcd_non_0_nat)
  then have "2 ^ 28 * 405928799 * 11003 * 983 * 29 dvd r - 1"
    using divides_29 [OF r] by (rule divides_mult) (simp add: coprime_iff_gcd_eq_1 gcd_non_0_nat)
  then show "34178450601128098187444224 dvd r - 1" by simp
next
  show "fr_modulus - 1 = 34178450601128098187444224 * (18737263175794401445537598 * 34178450601128098187444224 + 8566075531839381903708457)" by (simp add: fr_modulus_def)
  show "(8566075531839381903708452 :: nat) * 8566075531839381903708452 + 4 * 18737263175794401445537598 < 8566075531839381903708457 * 8566075531839381903708457 \<and> (8566075531839381903708457 :: nat) * 8566075531839381903708457 < (8566075531839381903708452 + 1) * (8566075531839381903708452 + 1) + 4 * 18737263175794401445537598" by simp
qed (simp_all add: fr_modulus_def)

end
