(* ===== verification/Fr_Field.thy ===== *)
theory Fr_Field
  imports Fr_Prime
begin

text \<open>
  The scalar field of BN254 is a field: inverses are the powers \<open>p - 2\<close>, by Fermat's theorem
  for the prime of \<open>Fr_Prime\<close>.  Products of constants are settled by certificates, the
  quotient and the remainder of the product of the representatives.
\<close>

section \<open>The field\<close>

lemma fr_rep_power: "fr_rep (x ^ n) = fr_rep x ^ n mod fr_modulus"
proof (induction n)
  case 0
  show ?case by (simp add: fr_modulus_def)
next
  case (Suc n)
  then show ?case by (simp add: mod_simps)
qed

lemma fr_rep_0_iff: "fr_rep x = 0 \<longleftrightarrow> x = 0"
  by (metis fr_rep_inject fr_rep_simps(1))

lemma fr_fermat:
  assumes "x \<noteq> 0"
  shows "x ^ (fr_modulus - 1) = (1 :: fr)"
proof (rule fr_eqI)
  have "\<not> fr_modulus dvd fr_rep x"
    by (metis assms dvd_imp_le fr_rep_0_iff fr_rep_less neq0_conv not_le)
  then show "fr_rep (x ^ (fr_modulus - 1)) = fr_rep 1"
    unfolding fr_rep_power fr_rep_simps by (rule fermat [OF modulus_prime])
qed

lemma fr_modulus_pred: "fr_modulus - 1 = Suc (fr_modulus - 2)"
  by (simp add: fr_modulus_def)

instantiation fr :: field
begin

definition inverse_fr :: "fr \<Rightarrow> fr" where
  "inverse_fr x = x ^ (fr_modulus - 2)"

definition divide_fr :: "fr \<Rightarrow> fr \<Rightarrow> fr" where
  "divide_fr x y = x * inverse y"

instance
proof
  fix x y :: fr
  show "inverse x * x = 1" if "x \<noteq> 0"
    using fr_fermat [OF that] unfolding fr_modulus_pred inverse_fr_def power_Suc by (simp only: mult.commute)
  show "x div y = x * inverse y" by (fact divide_fr_def)
  have "0 < fr_modulus - 2" by (simp add: fr_modulus_def)
  then show "inverse (0 :: fr) = 0" unfolding inverse_fr_def by (rule zero_power)
qed

end

section \<open>Certificates\<close>

lemma fr_mult_cert:
  assumes "m * n = k * fr_modulus + r"
  shows "fr_of_nat m * fr_of_nat n = fr_of_nat r"
  unfolding fr_of_nat_mult [symmetric] assms by (rule fr_eqI) simp

lemma fr_of_nat_nonzero: "0 < n \<Longrightarrow> n < fr_modulus \<Longrightarrow> fr_of_nat n \<noteq> 0"
  by (auto simp: fr_eq_iff)

lemmas cert_eval = fr_modulus_def arith_simps rel_simps simp_thms numeral_plus_one

lemma fr_two_nonzero: "(2 :: fr) \<noteq> 0"
  by (simp add: fr_eq_iff fr_modulus_def)

definition coeff_root :: nat where
  "coeff_root = 7214280148105020021932206872019688659210616427216992810330019057549499971851"

definition twist_root :: nat where
  "twist_root = 12177842742051496464880380261998167945567164108673407972641379910330421622660"

definition two_generator :: nat where
  "two_generator = 19103219067921713944291392827692070036145651957329286315305642004821462161904"

lemma coeff_a_square: "fr_of_nat coeff_root * fr_of_nat coeff_root = fr_of_nat 168700"
  unfolding coeff_root_def
  by (rule fr_mult_cert [where k = 2377798819214617165433476951344251911883635150415111281305020607251752899453])
    (simp only: cert_eval)

lemma coeff_d_square:
  "fr_of_nat 168696 * (fr_of_nat twist_root * fr_of_nat twist_root) = fr_of_nat two_generator"
proof -
  have "fr_of_nat twist_root * fr_of_nat twist_root =
      fr_of_nat 4455196391535906457444141408581006600692564054302664464548873977997532733246"
    unfolding twist_root_def
    by (rule fr_mult_cert [where k = 6775320189860202867813452794990952200850553228235977740991002351663663537362])
      (simp only: cert_eval)
  moreover have "fr_of_nat 168696 *
      fr_of_nat 4455196391535906457444141408581006600692564054302664464548873977997532733246 =
      fr_of_nat two_generator"
    unfolding two_generator_def by (rule fr_mult_cert [where k = 34336]) (simp only: cert_eval)
  ultimately show ?thesis by simp
qed

text \<open>
  A square root of \<open>two_generator\<close> would have order \<open>2 ^ 29\<close>, which does not divide the
  modulus minus one.
\<close>

lemma two_generator_order: "fr_rep (fr_of_nat two_generator) ^ 2 ^ 27 mod fr_modulus = fr_modulus - 1"
  using order_two unfolding fr_rep_of_nat power_mod pow_27 modulus_pred two_generator_def .

lemma two_generator_nonsquare: "fr_of_nat two_generator \<noteq> c * c"
proof
  assume sq: "fr_of_nat two_generator = c * c"
  have "fr_rep c ^ 2 ^ Suc 27 mod fr_modulus = (fr_rep c * fr_rep c) ^ 2 ^ 27 mod fr_modulus"
    unfolding power_Suc power_mult power2_eq_square ..
  also have "\<dots> = fr_rep (c * c) ^ 2 ^ 27 mod fr_modulus"
    unfolding fr_rep_simps power_mod ..
  also have "\<dots> = fr_modulus - 1"
    unfolding sq [symmetric] by (rule two_generator_order)
  finally have "2 ^ Suc (Suc 27) dvd fr_modulus - 1"
    by (rule order_pow2 [OF modulus_prime]) (simp add: fr_modulus_def)
  then show False by (simp add: fr_modulus_def)
qed

lemma coeff_d_nonsquare: "fr_of_nat 168696 \<noteq> c * c"
proof
  assume "fr_of_nat 168696 = c * c"
  then have "fr_of_nat two_generator = (c * fr_of_nat twist_root) * (c * fr_of_nat twist_root)"
    unfolding coeff_d_square [symmetric] by (simp add: ac_simps)
  then show False by (simp add: two_generator_nonsquare)
qed

end
