(* ===== verification/Edwards.thy ===== *)
theory Edwards
  imports Main
begin

text \<open>
  The group law of twisted Edwards curves over a field in which \<open>a\<close> is a nonzero square, \<open>d\<close>
  is not a square and two is not zero.  Then no denominator of the addition is zero, the
  points of the curve form a group, and multiples by naturals behave as in any group.  The
  projective addition computes the affine one.
\<close>

section \<open>Points, sums and multiples\<close>

definition ed_on :: "'f :: field \<Rightarrow> 'f \<Rightarrow> 'f \<times> 'f \<Rightarrow> bool" where
  "ed_on a d p = (case p of (x, y) \<Rightarrow> a * (x * x) + y * y = 1 + d * (x * x) * (y * y))"

definition ed_slope :: "'f :: field \<Rightarrow> 'f \<times> 'f \<Rightarrow> 'f \<times> 'f \<Rightarrow> 'f" where
  "ed_slope d p q = (case p of (x1, y1) \<Rightarrow> case q of (x2, y2) \<Rightarrow> d * x1 * x2 * y1 * y2)"

definition ed_add :: "'f :: field \<Rightarrow> 'f \<Rightarrow> 'f \<times> 'f \<Rightarrow> 'f \<times> 'f \<Rightarrow> 'f \<times> 'f" where
  "ed_add a d p q =
     (case p of (x1, y1) \<Rightarrow> case q of (x2, y2) \<Rightarrow>
        ((x1 * y2 + y1 * x2) / (1 + ed_slope d p q), (y1 * y2 - a * x1 * x2) / (1 - ed_slope d p q)))"

definition ed_zero :: "'f :: field \<times> 'f" where
  "ed_zero = (0, 1)"

definition ed_neg :: "'f :: field \<times> 'f \<Rightarrow> 'f \<times> 'f" where
  "ed_neg p = (- fst p, snd p)"

primrec ed_mul :: "'f :: field \<Rightarrow> 'f \<Rightarrow> nat \<Rightarrow> 'f \<times> 'f \<Rightarrow> 'f \<times> 'f" where
  "ed_mul a d 0 p = ed_zero" |
  "ed_mul a d (Suc n) p = ed_add a d (ed_mul a d n p) p"

section \<open>Polynomial identities\<close>

lemma ed_closed_poly:
  fixes a d x1 y1 x2 y2 :: "'f :: field"
  assumes "a * (x1 * x1) + y1 * y1 = 1 + d * (x1 * x1) * (y1 * y1)"
    and "a * (x2 * x2) + y2 * y2 = 1 + d * (x2 * x2) * (y2 * y2)"
  defines "e \<equiv> d * x1 * x2 * y1 * y2"
  shows "a * ((x1 * y2 + y1 * x2) * (1 - e) * ((x1 * y2 + y1 * x2) * (1 - e))) +
      (y1 * y2 - a * x1 * x2) * (1 + e) * ((y1 * y2 - a * x1 * x2) * (1 + e)) =
    (1 + e) * (1 - e) * ((1 + e) * (1 - e)) +
      d * (x1 * y2 + y1 * x2) * (x1 * y2 + y1 * x2) * ((y1 * y2 - a * x1 * x2) * (y1 * y2 - a * x1 * x2))"
  using assms(1,2) unfolding e_def by algebra

lemma ed_assoc_poly_x:
  fixes a d x1 y1 x2 y2 x3 y3 :: "'f :: field"
  assumes "a * (x1 * x1) + y1 * y1 = 1 + d * (x1 * x1) * (y1 * y1)"
    and "a * (x2 * x2) + y2 * y2 = 1 + d * (x2 * x2) * (y2 * y2)"
    and "a * (x3 * x3) + y3 * y3 = 1 + d * (x3 * x3) * (y3 * y3)"
  defines "e \<equiv> d * x1 * x2 * y1 * y2" and "f \<equiv> d * x2 * x3 * y2 * y3"
  shows "((x1 * y2 + y1 * x2) * (1 - e) * y3 + (y1 * y2 - a * x1 * x2) * (1 + e) * x3) *
      ((1 + f) * (1 - f) + d * x1 * (x2 * y3 + y2 * x3) * y1 * (y2 * y3 - a * x2 * x3)) =
    (x1 * ((y2 * y3 - a * x2 * x3) * (1 + f)) + y1 * ((x2 * y3 + y2 * x3) * (1 - f))) *
      ((1 + e) * (1 - e) + d * (x1 * y2 + y1 * x2) * x3 * (y1 * y2 - a * x1 * x2) * y3)"
  using assms(1-3) unfolding e_def f_def by algebra

lemma ed_assoc_poly_y:
  fixes a d x1 y1 x2 y2 x3 y3 :: "'f :: field"
  assumes "a * (x1 * x1) + y1 * y1 = 1 + d * (x1 * x1) * (y1 * y1)"
    and "a * (x2 * x2) + y2 * y2 = 1 + d * (x2 * x2) * (y2 * y2)"
    and "a * (x3 * x3) + y3 * y3 = 1 + d * (x3 * x3) * (y3 * y3)"
  defines "e \<equiv> d * x1 * x2 * y1 * y2" and "f \<equiv> d * x2 * x3 * y2 * y3"
  shows "((y1 * y2 - a * x1 * x2) * (1 + e) * y3 - a * ((x1 * y2 + y1 * x2) * (1 - e)) * x3) *
      ((1 + f) * (1 - f) - d * x1 * (x2 * y3 + y2 * x3) * y1 * (y2 * y3 - a * x2 * x3)) =
    (y1 * ((y2 * y3 - a * x2 * x3) * (1 + f)) - a * x1 * ((x2 * y3 + y2 * x3) * (1 - f))) *
      ((1 + e) * (1 - e) - d * (x1 * y2 + y1 * x2) * x3 * (y1 * y2 - a * x1 * x2) * y3)"
  using assms(1-3) unfolding e_def f_def by algebra

text \<open>An exceptional pair of points would make \<open>d\<close> a square times squares of the coordinates.\<close>

lemma ed_exception_poly:
  fixes a d s x1 y1 x2 y2 :: "'f :: field"
  assumes "a * (x1 * x1) + y1 * y1 = 1 + d * (x1 * x1) * (y1 * y1)"
    and "a * (x2 * x2) + y2 * y2 = 1 + d * (x2 * x2) * (y2 * y2)"
    and "s * s = a" and "d * x1 * x2 * y1 * y2 = e" and "e * e = 1"
  shows "d * ((x1 * y1 * (s * x2 + y2)) * (x1 * y1 * (s * x2 + y2))) = (s * x1 + e * y1) * (s * x1 + e * y1)"
    and "d * ((x1 * y1 * (s * x2 - y2)) * (x1 * y1 * (s * x2 - y2))) = (s * x1 - e * y1) * (s * x1 - e * y1)"
  using assms by algebra+

text \<open>A sum of a sum, with the inner denominators multiplied out.\<close>

lemma ed_scaled_sum:
  fixes a d x1 y1 x2 y2 x3 y3 :: "'f :: field"
  defines "e \<equiv> d * x1 * x2 * y1 * y2" and "n \<equiv> x1 * y2 + y1 * x2" and "m \<equiv> y1 * y2 - a * x1 * x2"
  defines "x \<equiv> n / (1 + e)" and "y \<equiv> m / (1 - e)"
  assumes "1 + e \<noteq> 0" and "1 - e \<noteq> 0"
  shows "(x * y3 + y * x3) / (1 + d * x * x3 * y * y3) =
      (n * (1 - e) * y3 + m * (1 + e) * x3) / ((1 + e) * (1 - e) + d * n * x3 * m * y3)"
    and "(y * y3 - a * x * x3) / (1 - d * x * x3 * y * y3) =
      (m * (1 + e) * y3 - a * (n * (1 - e)) * x3) / ((1 + e) * (1 - e) - d * n * x3 * m * y3)"
    and "(1 + e) * (1 - e) + d * n * x3 * m * y3 = (1 + e) * (1 - e) * (1 + d * x * x3 * y * y3)"
    and "(1 + e) * (1 - e) - d * n * x3 * m * y3 = (1 + e) * (1 - e) * (1 - d * x * x3 * y * y3)"
proof -
  define c where "c = (1 + e) * (1 - e)"
  have c: "c \<noteq> 0" using assms by (simp add: c_def)
  have x: "c * x = n * (1 - e)" and y: "c * y = m * (1 + e)"
    using assms(6,7) by (simp_all add: c_def x_def y_def)
  have xy: "c * (x * y) = n * m"
    using assms(6,7) by (simp add: c_def x_def y_def)
  show plus: "(1 + e) * (1 - e) + d * n * x3 * m * y3 = (1 + e) * (1 - e) * (1 + d * x * x3 * y * y3)"
    and minus: "(1 + e) * (1 - e) - d * n * x3 * m * y3 = (1 + e) * (1 - e) * (1 - d * x * x3 * y * y3)"
    unfolding c_def [symmetric] using xy by algebra+
  have "(x * y3 + y * x3) / (1 + d * x * x3 * y * y3) =
      (c * (x * y3 + y * x3)) / (c * (1 + d * x * x3 * y * y3))" using c by simp
  moreover have "c * (x * y3 + y * x3) = n * (1 - e) * y3 + m * (1 + e) * x3" using x y by algebra
  ultimately show "(x * y3 + y * x3) / (1 + d * x * x3 * y * y3) =
      (n * (1 - e) * y3 + m * (1 + e) * x3) / ((1 + e) * (1 - e) + d * n * x3 * m * y3)"
    unfolding plus by (simp only: c_def)
  have "(y * y3 - a * x * x3) / (1 - d * x * x3 * y * y3) =
      (c * (y * y3 - a * x * x3)) / (c * (1 - d * x * x3 * y * y3))" using c by simp
  moreover have "c * (y * y3 - a * x * x3) = m * (1 + e) * y3 - a * (n * (1 - e)) * x3" using x y by algebra
  ultimately show "(y * y3 - a * x * x3) / (1 - d * x * x3 * y * y3) =
      (m * (1 + e) * y3 - a * (n * (1 - e)) * x3) / ((1 + e) * (1 - e) - d * n * x3 * m * y3)"
    unfolding minus by (simp only: c_def)
qed

section \<open>The group\<close>

locale edwards =
  fixes a d s :: "'f :: field"
  assumes coeff_square: "s * s = a" and coeff_nonzero: "a \<noteq> 0"
    and coeff_nonsquare: "d \<noteq> c * c" and two_nonzero: "(2 :: 'f) \<noteq> 0"
begin

lemma not_square_ratio:
  assumes "d * (u * u) = v * v"
  shows "u = 0"
proof (rule ccontr)
  assume u: "u \<noteq> 0"
  then have "d = (v / u) * (v / u)" using assms by (simp add: field_simps)
  then show False using coeff_nonsquare by blast
qed

lemma slope_not_unit:
  assumes "ed_on a d p" and "ed_on a d q"
  shows "ed_slope d p q * ed_slope d p q \<noteq> 1"
proof
  assume unit: "ed_slope d p q * ed_slope d p q = 1"
  obtain x1 y1 x2 y2 where pq: "p = (x1, y1)" "q = (x2, y2)" by (metis surj_pair)
  define e where "e = d * x1 * x2 * y1 * y2"
  have ee: "e * e = 1" using unit by (simp add: e_def ed_slope_def pq)
  then have nz: "x1 \<noteq> 0" "y1 \<noteq> 0" "x2 \<noteq> 0" by (auto simp: e_def)
  have on: "a * (x1 * x1) + y1 * y1 = 1 + d * (x1 * x1) * (y1 * y1)"
      "a * (x2 * x2) + y2 * y2 = 1 + d * (x2 * x2) * (y2 * y2)"
    using assms by (simp_all add: ed_on_def pq)
  note sq = ed_exception_poly [OF on coeff_square e_def [symmetric] ee]
  have "s * x2 + y2 = 0" "s * x2 - y2 = 0"
    using not_square_ratio [OF sq(1)] not_square_ratio [OF sq(2)] nz by simp_all
  then have "2 * (s * x2) = 0" by algebra
  then have "s = 0" using two_nonzero nz by simp
  then show False using coeff_square coeff_nonzero by simp
qed

lemma denominators:
  assumes "ed_on a d p" and "ed_on a d q"
  shows "1 + ed_slope d p q \<noteq> 0" and "1 - ed_slope d p q \<noteq> 0"
proof -
  have "(1 + ed_slope d p q) * (1 - ed_slope d p q) = 1 - ed_slope d p q * ed_slope d p q" by algebra
  then show "1 + ed_slope d p q \<noteq> 0" and "1 - ed_slope d p q \<noteq> 0"
    using slope_not_unit [OF assms] by auto
qed

lemma on_zero: "ed_on a d ed_zero"
  by (simp add: ed_on_def ed_zero_def)

lemma on_neg: "ed_on a d (ed_neg p) \<longleftrightarrow> ed_on a d p"
  by (simp add: ed_on_def ed_neg_def split: prod.splits)

lemma on_add:
  assumes "ed_on a d p" and "ed_on a d q"
  shows "ed_on a d (ed_add a d p q)"
proof -
  obtain x1 y1 x2 y2 where pq: "p = (x1, y1)" "q = (x2, y2)" by (metis surj_pair)
  define e where "e = d * x1 * x2 * y1 * y2"
  define n m where "n = x1 * y2 + y1 * x2" and "m = y1 * y2 - a * x1 * x2"
  have nz: "1 + e \<noteq> 0" "1 - e \<noteq> 0"
    using denominators [OF assms] by (simp_all add: pq ed_slope_def e_def)
  have poly: "a * (n * (1 - e) * (n * (1 - e))) + m * (1 + e) * (m * (1 + e)) =
      (1 + e) * (1 - e) * ((1 + e) * (1 - e)) + d * n * n * (m * m)"
    using assms unfolding e_def n_def m_def by (intro ed_closed_poly) (simp_all add: ed_on_def pq)
  define x y where "x = n / (1 + e)" and "y = m / (1 - e)"
  have "n = x * (1 + e)" "m = y * (1 - e)" using nz by (simp_all add: x_def y_def)
  then have "((1 + e) * (1 - e)) * ((1 + e) * (1 - e)) * (a * (x * x) + y * y) =
      ((1 + e) * (1 - e)) * ((1 + e) * (1 - e)) * (1 + d * (x * x) * (y * y))"
    using poly by algebra
  then have "a * (x * x) + y * y = 1 + d * (x * x) * (y * y)" using nz by simp
  then show ?thesis by (simp add: ed_on_def ed_add_def ed_slope_def pq x_def y_def n_def m_def e_def)
qed

lemma add_commute: "ed_add a d p q = ed_add a d q p"
  by (simp add: ed_add_def ed_slope_def ac_simps split: prod.splits)

lemma add_zero: "ed_add a d p ed_zero = p" "ed_add a d ed_zero p = p"
  by (simp_all add: ed_add_def ed_slope_def ed_zero_def split: prod.splits)

lemma add_neg:
  assumes "ed_on a d p"
  shows "ed_add a d p (ed_neg p) = ed_zero"
proof -
  obtain x y where p: "p = (x, y)" by (cases p)
  have "1 - ed_slope d p (ed_neg p) \<noteq> 0" using assms by (intro denominators) (simp_all add: on_neg)
  moreover have "y * y + a * x * x = 1 - ed_slope d p (ed_neg p)"
    using assms by (simp add: ed_on_def p ed_slope_def ed_neg_def algebra_simps)
  ultimately show ?thesis by (simp add: ed_add_def ed_zero_def ed_neg_def p)
qed

lemma add_assoc:
  assumes p: "ed_on a d p" and q: "ed_on a d q" and r: "ed_on a d r"
  shows "ed_add a d (ed_add a d p q) r = ed_add a d p (ed_add a d q r)"
proof -
  obtain x1 y1 x2 y2 x3 y3 where pqr: "p = (x1, y1)" "q = (x2, y2)" "r = (x3, y3)" by (metis surj_pair)
  define e f where "e = d * x1 * x2 * y1 * y2" and "f = d * x2 * x3 * y2 * y3"
  define n m where "n = x1 * y2 + y1 * x2" and "m = y1 * y2 - a * x1 * x2"
  define n' m' where "n' = x2 * y3 + y2 * x3" and "m' = y2 * y3 - a * x2 * x3"
  define x y where "x = n / (1 + e)" and "y = m / (1 - e)"
  define x' y' where "x' = n' / (1 + f)" and "y' = m' / (1 - f)"
  have nz: "1 + e \<noteq> 0" "1 - e \<noteq> 0" "1 + f \<noteq> 0" "1 - f \<noteq> 0"
    using denominators [OF p q] denominators [OF q r] by (simp_all add: pqr ed_slope_def e_def f_def)
  have pq: "ed_add a d p q = (x, y)" and qr: "ed_add a d q r = (x', y')"
    by (simp_all add: ed_add_def ed_slope_def pqr x_def y_def x'_def y'_def n_def m_def n'_def m'_def e_def f_def)
  have "1 + d * x * x3 * y * y3 \<noteq> 0" "1 - d * x * x3 * y * y3 \<noteq> 0"
    using denominators [OF on_add [OF p q] r] unfolding pq by (simp_all add: pqr ed_slope_def)
  then have left: "(1 + e) * (1 - e) + d * n * x3 * m * y3 \<noteq> 0" "(1 + e) * (1 - e) - d * n * x3 * m * y3 \<noteq> 0"
    using nz unfolding x_def y_def n_def m_def e_def by (simp_all add: ed_scaled_sum(3,4))
  have "1 + d * x1 * x' * y1 * y' \<noteq> 0" "1 - d * x1 * x' * y1 * y' \<noteq> 0"
    using denominators [OF p on_add [OF q r]] unfolding qr by (simp_all add: pqr ed_slope_def)
  then have "1 + d * x' * x1 * y' * y1 \<noteq> 0" "1 - d * x' * x1 * y' * y1 \<noteq> 0" by (simp_all add: ac_simps)
  then have right: "(1 + f) * (1 - f) + d * n' * x1 * m' * y1 \<noteq> 0" "(1 + f) * (1 - f) - d * n' * x1 * m' * y1 \<noteq> 0"
    using nz unfolding x'_def y'_def n'_def m'_def f_def by (simp_all add: ed_scaled_sum(3,4))
  have polyx: "(n * (1 - e) * y3 + m * (1 + e) * x3) * ((1 + f) * (1 - f) + d * x1 * n' * y1 * m') =
      (x1 * (m' * (1 + f)) + y1 * (n' * (1 - f))) * ((1 + e) * (1 - e) + d * n * x3 * m * y3)"
    unfolding n_def m_def n'_def m'_def e_def f_def
    by (rule ed_assoc_poly_x) (use p q r in \<open>simp_all add: ed_on_def pqr\<close>)
  have polyy: "(m * (1 + e) * y3 - a * (n * (1 - e)) * x3) * ((1 + f) * (1 - f) - d * x1 * n' * y1 * m') =
      (y1 * (m' * (1 + f)) - a * x1 * (n' * (1 - f))) * ((1 + e) * (1 - e) - d * n * x3 * m * y3)"
    unfolding n_def m_def n'_def m'_def e_def f_def
    by (rule ed_assoc_poly_y) (use p q r in \<open>simp_all add: ed_on_def pqr\<close>)
  have x: "(x * y3 + y * x3) / (1 + d * x * x3 * y * y3) =
      (x1 * y' + y1 * x') / (1 + d * x1 * x' * y1 * y')"
  proof -
    have "(x * y3 + y * x3) / (1 + d * x * x3 * y * y3) =
        (n * (1 - e) * y3 + m * (1 + e) * x3) / ((1 + e) * (1 - e) + d * n * x3 * m * y3)"
      unfolding x_def y_def n_def m_def e_def by (rule ed_scaled_sum(1)) (use nz in \<open>simp_all add: e_def\<close>)
    moreover have "(x' * y1 + y' * x1) / (1 + d * x' * x1 * y' * y1) =
        (n' * (1 - f) * y1 + m' * (1 + f) * x1) / ((1 + f) * (1 - f) + d * n' * x1 * m' * y1)"
      unfolding x'_def y'_def n'_def m'_def f_def by (rule ed_scaled_sum(1)) (use nz in \<open>simp_all add: f_def\<close>)
    moreover have "\<dots> = (n * (1 - e) * y3 + m * (1 + e) * x3) / ((1 + e) * (1 - e) + d * n * x3 * m * y3)"
      using left right polyx by (subst frac_eq_eq) (simp_all add: ac_simps)
    ultimately show ?thesis by (simp add: ac_simps)
  qed
  have y: "(y * y3 - a * x * x3) / (1 - d * x * x3 * y * y3) =
      (y1 * y' - a * x1 * x') / (1 - d * x1 * x' * y1 * y')"
  proof -
    have "(y * y3 - a * x * x3) / (1 - d * x * x3 * y * y3) =
        (m * (1 + e) * y3 - a * (n * (1 - e)) * x3) / ((1 + e) * (1 - e) - d * n * x3 * m * y3)"
      unfolding x_def y_def n_def m_def e_def by (rule ed_scaled_sum(2)) (use nz in \<open>simp_all add: e_def\<close>)
    moreover have "(y' * y1 - a * x' * x1) / (1 - d * x' * x1 * y' * y1) =
        (m' * (1 + f) * y1 - a * (n' * (1 - f)) * x1) / ((1 + f) * (1 - f) - d * n' * x1 * m' * y1)"
      unfolding x'_def y'_def n'_def m'_def f_def by (rule ed_scaled_sum(2)) (use nz in \<open>simp_all add: f_def\<close>)
    moreover have "\<dots> = (m * (1 + e) * y3 - a * (n * (1 - e)) * x3) / ((1 + e) * (1 - e) - d * n * x3 * m * y3)"
      using left right polyy by (subst frac_eq_eq) (simp_all add: ac_simps)
    ultimately show ?thesis by (simp add: ac_simps)
  qed
  show ?thesis
    unfolding pq qr using x y by (simp add: ed_add_def ed_slope_def pqr)
qed

lemma add_cancel:
  assumes "ed_on a d p" and "ed_on a d q" and "ed_on a d r"
  shows "ed_add a d p q = ed_add a d p r \<longleftrightarrow> q = r"
proof -
  have "ed_add a d (ed_neg p) (ed_add a d p t) = t" if "ed_on a d t" for t
    using add_assoc [of "ed_neg p" p t] assms(1) that add_neg [of p]
    by (simp add: on_neg add_commute [of "ed_neg p" p] add_zero)
  then show ?thesis using assms by metis
qed

lemma on_mul: "ed_on a d p \<Longrightarrow> ed_on a d (ed_mul a d n p)"
  by (induction n) (simp_all add: on_zero on_add)

lemma mul_add:
  assumes "ed_on a d p"
  shows "ed_mul a d (m + n) p = ed_add a d (ed_mul a d m p) (ed_mul a d n p)"
  by (induction n) (simp_all add: add_zero add_assoc on_mul assms)

lemma mul_mult:
  assumes "ed_on a d p"
  shows "ed_mul a d (m * n) p = ed_mul a d m (ed_mul a d n p)"
proof (induction m)
  case (Suc m)
  then show ?case using assms by (simp add: mul_add add_commute)
qed simp

lemma mul_zero: "ed_mul a d n ed_zero = ed_zero"
  by (induction n) (simp_all add: add_zero)

lemma mul_add_distrib:
  assumes "ed_on a d p" and "ed_on a d q"
  shows "ed_mul a d n (ed_add a d p q) = ed_add a d (ed_mul a d n p) (ed_mul a d n q)"
proof (induction n)
  case 0
  show ?case by (simp add: add_zero)
next
  case (Suc n)
  have "ed_add a d (ed_add a d t u) (ed_add a d p q) = ed_add a d (ed_add a d t p) (ed_add a d u q)"
    if "ed_on a d t" "ed_on a d u" for t u
    using that assms by (metis add_assoc add_commute on_add)
  then show ?case using Suc assms by (simp add: on_mul)
qed

text \<open>Coordinates over a common denominator.\<close>

lemma projective_sum:
  fixes x1 y1 z1 x2 y2 z2 :: 'f
  assumes "ed_on a d (x1 / z1, y1 / z1)" and "ed_on a d (x2 / z2, y2 / z2)" and "z1 \<noteq> 0" and "z2 \<noteq> 0"
  defines "b \<equiv> z1 * z2 * (z1 * z2)" and "e \<equiv> d * (x1 * x2) * (y1 * y2)"
  shows "b - e \<noteq> 0" and "b + e \<noteq> 0"
    and "(z1 * z2 * (b - e) * (x1 * y2 + y1 * x2) / ((b - e) * (b + e)),
        z1 * z2 * (b + e) * (y1 * y2 - a * (x1 * x2)) / ((b - e) * (b + e))) =
      ed_add a d (x1 / z1, y1 / z1) (x2 / z2, y2 / z2)"
proof -
  define t where "t = ed_slope d (x1 / z1, y1 / z1) (x2 / z2, y2 / z2)"
  have b: "b \<noteq> 0" using assms(3,4) by (simp add: b_def)
  have e: "e = b * t" using assms(3,4) by (simp add: e_def b_def t_def ed_slope_def)
  have nz: "1 + t \<noteq> 0" "1 - t \<noteq> 0" using denominators [OF assms(1,2)] by (simp_all add: t_def)
  have minus: "b - e = b * (1 - t)" and plus: "b + e = b * (1 + t)" unfolding e by algebra+
  show "b - e \<noteq> 0" and "b + e \<noteq> 0" unfolding minus plus using b nz by simp_all
  define w where "w = z1 * z2"
  have w: "w \<noteq> 0" "b = w * w" using assms(3,4) by (simp_all add: w_def b_def)
  have x: "w * (b - e) * (x1 * y2 + y1 * x2) / ((b - e) * (b + e)) =
      (x1 / z1 * (y2 / z2) + y1 / z1 * (x2 / z2)) / (1 + t)"
    unfolding minus plus unfolding w(2) using w(1) nz by (simp add: w_def add_divide_distrib [symmetric])
  have y: "w * (b + e) * (y1 * y2 - a * (x1 * x2)) / ((b - e) * (b + e)) =
      (y1 / z1 * (y2 / z2) - a * (x1 / z1) * (x2 / z2)) / (1 - t)"
    unfolding minus plus unfolding w(2) using w(1) nz by (simp add: w_def diff_divide_distrib [symmetric] ac_simps)
  show "(z1 * z2 * (b - e) * (x1 * y2 + y1 * x2) / ((b - e) * (b + e)),
        z1 * z2 * (b + e) * (y1 * y2 - a * (x1 * x2)) / ((b - e) * (b + e))) =
      ed_add a d (x1 / z1, y1 / z1) (x2 / z2, y2 / z2)"
    using x y by (simp add: ed_add_def t_def w_def)
qed

end

end
