(* ===== verification/Babyjubjub_Group.thy ===== *)
theory Babyjubjub_Group
  imports Babyjubjub Fr_Field Edwards
begin

text \<open>
  The code of \<open>Babyjubjub\<close> against the group law of \<open>Edwards\<close>: the coefficients of the curve
  satisfy the laws, so the additions of \<open>crates/core/src/babyjubjub.rs\<close> never panic on the curve,
  the variable-time loop and the secret ladder compute multiples, and the checked
  points are exactly the points killed by the subgroup order.
\<close>

section \<open>The curve\<close>

interpretation bjj: edwards coeff_a coeff_d "fr_of_nat coeff_root"
proof
  show "fr_of_nat coeff_root * fr_of_nat coeff_root = coeff_a" unfolding coeff_a_def by (rule coeff_a_square)
  show "coeff_a \<noteq> 0" unfolding coeff_a_def by (rule fr_of_nat_nonzero) (simp_all add: fr_modulus_def)
  show "coeff_d \<noteq> c * c" for c unfolding coeff_d_def by (rule coeff_d_nonsquare)
  show "(2 :: fr) \<noteq> 0" by (rule fr_two_nonzero)
qed

abbreviation psum :: "point \<Rightarrow> point \<Rightarrow> point" where
  "psum \<equiv> ed_add coeff_a coeff_d"

abbreviation pmul :: "nat \<Rightarrow> point \<Rightarrow> point" where
  "pmul \<equiv> ed_mul coeff_a coeff_d"

lemma identity_eq: "identity = ed_zero"
  by (simp add: identity_def ed_zero_def)

lemma is_on_curve_eq: "is_on_curve p = ed_on coeff_a coeff_d p"
  by (simp add: is_on_curve_def ed_on_def Let_def)

lemma fr_inverse_eq: "fr_inverse x = (if x = 0 then None else Some (inverse x))"
  by (simp add: fr_inverse_def inverse_fr_def)

lemma add_point_eq:
  assumes "is_on_curve p" and "is_on_curve q"
  shows "add_point p q = Ok (psum p q)"
proof -
  obtain x1 y1 x2 y2 where pq: "p = (x1, y1)" "q = (x2, y2)" by (metis surj_pair)
  define e where "e = coeff_d * (x1 * y2 * (y1 * x2))"
  have slope: "ed_slope coeff_d p q = e" by (simp add: pq ed_slope_def e_def ac_simps)
  have nz: "1 + e \<noteq> 0" "1 - e \<noteq> 0"
    using bjj.denominators [of p q] assms by (simp_all add: is_on_curve_eq slope)
  have "(y1 - coeff_a * x1) * (x2 + y2) + coeff_a * (x1 * y2) - y1 * x2 = y1 * y2 - coeff_a * x1 * x2"
    by algebra
  then show ?thesis
    using nz unfolding pq add_point_def Let_def prod.case e_def [symmetric]
    by (simp add: inverse_or_panic_def fr_inverse_eq ed_add_def slope [unfolded pq] divide_fr_def)
qed

lemma is_on_curve_sum [simp]: "is_on_curve p \<Longrightarrow> is_on_curve q \<Longrightarrow> is_on_curve (psum p q)"
  by (simp add: is_on_curve_eq bjj.on_add)

lemma is_on_curve_mul [simp]: "is_on_curve p \<Longrightarrow> is_on_curve (pmul n p)"
  by (simp add: is_on_curve_eq bjj.on_mul)

lemma is_on_curve_identity [simp]: "is_on_curve identity" "is_on_curve ed_zero"
  by (simp_all add: is_on_curve_eq identity_eq bjj.on_zero)

section \<open>The variable-time loop\<close>

lemma less_two_pow_bits: "n < 2 ^ biguint_bits n"
proof (induction n rule: biguint_bits.induct)
  case (1 n)
  show ?case
  proof (cases "n = 0")
    case False
    then have "n div 2 < 2 ^ biguint_bits (n div 2)" by (rule 1)
    then show ?thesis using False by (simp add: biguint_bits.simps [of n])
  qed simp
qed

lemma mod_two_pow_Suc: "n mod 2 ^ Suc i = n mod 2 ^ i + (if test_bit n i then 2 ^ i else 0)"
proof -
  have "n mod (2 ^ i * 2) = 2 ^ i * (n div 2 ^ i mod 2) + n mod 2 ^ i" by (rule mod_mult2_eq)
  then show ?thesis by (simp add: test_bit_def mult.commute [of 2] odd_iff_mod_2_eq_one)
qed

lemma mul_point_step_eq:
  assumes "is_on_curve p"
  shows "mul_point_step e i (pmul (e mod 2 ^ i) p, pmul (2 ^ i) p) =
    Ok (pmul (e mod 2 ^ Suc i) p, pmul (2 ^ Suc i) p)"
proof -
  have "psum (pmul m p) (pmul n p) = pmul (m + n) p" for m n
    using assms by (simp add: is_on_curve_eq bjj.mul_add)
  then show ?thesis
    using assms by (simp add: mul_point_step_def add_point_eq mod_two_pow_Suc mult_2 del: power_Suc)
      (simp add: mult_2 [symmetric])
qed

lemma mul_point_escalar_eq:
  assumes "is_on_curve p"
  shows "mul_point_escalar p e = (Ok (pmul e p) :: (point, 'e) result)"
proof -
  let ?A = "\<lambda>i. (pmul (e mod 2 ^ i) p, pmul (2 ^ i) p)"
  have "rfold [0..<biguint_bits e] (mul_point_step e) (?A 0) = (Ok (?A (biguint_bits e)) :: (_, 'e) result)"
    by (rule rfold_upt) (simp_all add: mul_point_step_eq assms del: power_Suc)
  moreover have "?A 0 = (identity, p)"
    by (simp add: identity_eq bjj.add_zero)
  ultimately have "rfold [0..<biguint_bits e] (mul_point_step e) (identity, p) = (Ok (?A (biguint_bits e)) :: (_, 'e) result)"
    by (simp only:)
  then show ?thesis
    by (simp add: mul_point_escalar_def less_two_pow_bits)
qed

section \<open>Checked points\<close>

definition subgroup_point :: "point \<Rightarrow> bool" where
  "subgroup_point p \<longleftrightarrow> is_on_curve p \<and> pmul sub_order p = identity"

lemma is_in_subgroup_eq: "is_in_subgroup p = Ok (subgroup_point p)"
  by (simp add: is_in_subgroup_def subgroup_point_def mul_point_escalar_eq)

lemma point_try_from_xy_eq:
  "point_try_from_xy x y =
    (if \<not> is_on_curve (x, y) then Err PointNotOnCurve
     else if pmul sub_order (x, y) \<noteq> identity then Err PointNotInSubgroup else Ok (x, y))"
  by (simp add: point_try_from_xy_def is_in_subgroup_eq subgroup_point_def guard_def)

lemma subgroup_sum: "subgroup_point p \<Longrightarrow> subgroup_point q \<Longrightarrow> subgroup_point (psum p q)"
  by (simp add: subgroup_point_def)
    (simp add: is_on_curve_eq bjj.mul_add_distrib identity_eq bjj.add_zero)

lemma subgroup_mul: "subgroup_point p \<Longrightarrow> subgroup_point (pmul n p)"
  by (simp add: subgroup_point_def)
    (metis bjj.mul_mult bjj.mul_zero identity_eq is_on_curve_eq mult.commute)

lemma subgroup_mul_mod:
  assumes "subgroup_point p"
  shows "pmul (n mod sub_order) p = pmul n p"
proof -
  have on: "ed_on coeff_a coeff_d p" using assms by (simp add: subgroup_point_def is_on_curve_eq)
  have "pmul n p = pmul (n div sub_order * sub_order + n mod sub_order) p" by simp
  also have "\<dots> = psum (pmul (n div sub_order) (pmul sub_order p)) (pmul (n mod sub_order) p)"
    by (simp only: bjj.mul_add [OF on] bjj.mul_mult [OF on])
  finally show ?thesis
    using assms by (simp add: subgroup_point_def identity_eq bjj.mul_zero bjj.add_zero)
qed

section \<open>The secret ladder\<close>

definition pj_point :: "projective \<Rightarrow> point" where
  "pj_point p = (pj_x p / pj_z p, pj_y p / pj_z p)"

lemma projective_add_eq:
  assumes "is_on_curve (pj_point p)" and "is_on_curve (pj_point q)" and "pj_z p \<noteq> 0" and "pj_z q \<noteq> 0"
  shows "pj_z (projective_add p q) \<noteq> 0" and "pj_point (projective_add p q) = psum (pj_point p) (pj_point q)"
proof -
  obtain x1 y1 z1 x2 y2 z2 where pq: "p = \<lparr>pj_x = x1, pj_y = y1, pj_z = z1\<rparr>" "q = \<lparr>pj_x = x2, pj_y = y2, pj_z = z2\<rparr>"
    by (metis projective.surjective unit.exhaust)
  define b where "b = z1 * z2 * (z1 * z2)"
  define e where "e = coeff_d * (x1 * x2) * (y1 * y2)"
  note sum = bjj.projective_sum [where ?x1.0 = x1 and ?y1.0 = y1 and ?z1.0 = z1
      and ?x2.0 = x2 and ?y2.0 = y2 and ?z2.0 = z2, folded b_def e_def]
  have "(x1 + y1) * (x2 + y2) - x1 * x2 - y1 * y2 = x1 * y2 + y1 * x2" by algebra
  then have "projective_add p q =
      \<lparr>pj_x = z1 * z2 * (b - e) * (x1 * y2 + y1 * x2), pj_y = z1 * z2 * (b + e) * (y1 * y2 - coeff_a * (x1 * x2)),
       pj_z = (b - e) * (b + e)\<rparr>"
    by (simp add: projective_add_def pq Let_def b_def e_def coeff_a_def coeff_d_def)
  then show "pj_z (projective_add p q) \<noteq> 0" and "pj_point (projective_add p q) = psum (pj_point p) (pj_point q)"
    using assms sum by (simp_all add: pj_point_def pq is_on_curve_eq)
qed

definition represents :: "projective \<Rightarrow> point \<Rightarrow> bool" where
  "represents v p \<longleftrightarrow> pj_z v \<noteq> 0 \<and> pj_point v = p"

lemma represents_add:
  assumes "represents v p" and "represents w q" and "is_on_curve p" and "is_on_curve q"
  shows "represents (projective_add v w) (psum p q)"
  using assms projective_add_eq [of v w] by (auto simp: represents_def)

lemma represents_identity: "represents projective_identity identity"
  by (simp add: represents_def projective_identity_def pj_point_def identity_def)

lemma projective_select_eq: "projective_select p q b = (if b then q else p)"
  by (simp add: projective_select_def)

lemma div_two_pow_Suc: "n div 2 ^ i = 2 * (n div 2 ^ Suc i) + (if test_bit n i then 1 else 0)"
proof -
  have "n div 2 ^ Suc i = n div 2 ^ i div 2" by (simp add: div_mult2_eq mult.commute [of 2])
  then show ?thesis by (simp add: test_bit_def)
qed

lemma ladder_step_represents:
  assumes "represents v (pmul (k div 2 ^ Suc i) p)" and "represents b p" and "is_on_curve p"
  shows "represents (ladder_step k b i v) (pmul (k div 2 ^ i) p)"
proof -
  have "represents (projective_add v v) (pmul (2 * (k div 2 ^ Suc i)) p)"
    using represents_add [OF assms(1,1)] assms(3)
    by (simp add: mult_2 bjj.mul_add [unfolded is_on_curve_eq [symmetric]])
  moreover from this have "represents (projective_add (projective_add v v) b) (pmul (Suc (2 * (k div 2 ^ Suc i))) p)"
    using represents_add [OF _ assms(2)] assms(3) by simp
  ultimately show ?thesis
    by (simp add: ladder_step_def Let_def projective_select_eq div_two_pow_Suc [of k i])
qed

lemma ladder_represents:
  assumes "represents v (pmul (k div 2 ^ n) p)" and "represents b p" and "is_on_curve p"
  shows "represents (fold (ladder_step k b) (rev [0..<n]) v) (pmul k p)"
  using assms(1)
proof (induction n arbitrary: v)
  case (Suc n)
  then show ?case using ladder_step_represents [OF Suc.prems assms(2,3)] by simp
qed simp

lemma base8_x_square:
  "fr_of_nat 5299619240641551281634865583518297030282874472190772894086521144482721001553 *
    fr_of_nat 5299619240641551281634865583518297030282874472190772894086521144482721001553 =
    fr_of_nat 607742042888016619569620746324513481149123972252924884615094806956300595521"
  by (rule fr_mult_cert [where k = 1283152981270719112173590965168703648169485001952648533879912510875365050464])
    (simp only: cert_eval)

lemma base8_y_square:
  "fr_of_nat 16950150798460657717958625567821834550301663161624707787222815936182638968203 *
    fr_of_nat 16950150798460657717958625567821834550301663161624707787222815936182638968203 =
    fr_of_nat 11976306643719063753190278949402960726252923955722022258665135291130529546895"
  by (rule fr_mult_cert [where k = 13126115868359511340460820844889397414038424881599594996385915013151266539242])
    (simp only: cert_eval)

lemma base8_xy_square:
  "fr_of_nat 607742042888016619569620746324513481149123972252924884615094806956300595521 *
    fr_of_nat 11976306643719063753190278949402960726252923955722022258665135291130529546895 =
    fr_of_nat 5691677284264348914871762697957067030339103956111141981502870225181583259053"
  by (rule fr_mult_cert [where k = 332530350130180860275572862025344439381961240422396513786344160457981726626])
    (simp only: cert_eval)

lemma base8_on_curve: "is_on_curve base8"
proof -
  have "fr_of_nat (168700 * 607742042888016619569620746324513481149123972252924884615094806956300595521 +
      11976306643719063753190278949402960726252923955722022258665135291130529546895) =
    fr_of_nat (1 + 168696 * 5691677284264348914871762697957067030339103956111141981502870225181583259053)"
    by (rule fr_eqI) (simp add: fr_modulus_def)
  then show ?thesis
    unfolding is_on_curve_def base8_def prod.case Let_def base8_x_square base8_y_square coeff_a_def coeff_d_def
    unfolding mult.assoc base8_xy_square
    by (simp only: of_nat_fr [symmetric] of_nat_add of_nat_mult of_nat_1)
qed

lemma fr_le_bytes [simp]: "fr_of_nat (nat_of_le (nat_to_le 32 (fr_rep x))) = x"
  using fr_rep_less_be_32 [of x] by (simp only: nat_of_le_to_le_small fr_of_nat_rep)

lemma base_mul_eq:
  assumes "length bytes = 32"
  shows "base_mul bytes = Ok (pmul (nat_of_le bytes) base8)"
proof -
  let ?k = "nat_of_le bytes"
  let ?b = "\<lparr>pj_x = fst base8, pj_y = snd base8, pj_z = 1\<rparr>"
  let ?p = "fold (ladder_step ?k ?b) (rev [0..<256]) projective_identity"
  have "?k < 2 ^ 256" using nat_of_le_bound [of bytes] assms by simp
  then have "represents projective_identity (pmul (?k div 2 ^ 256) base8)"
    using represents_identity by (simp add: identity_eq)
  moreover have "represents ?b base8" by (simp add: represents_def pj_point_def)
  ultimately have "represents ?p (pmul ?k base8)"
    by (rule ladder_represents) (rule base8_on_curve)
  then have z: "pj_z ?p \<noteq> 0" and p: "pmul ?k base8 = (pj_x ?p / pj_z ?p, pj_y ?p / pj_z ?p)"
    by (simp_all add: represents_def pj_point_def)
  show ?thesis
    unfolding p base_mul_def Let_def using z by (simp add: fr_inverse_eq rassert_def divide_fr_def del: fr_rep_simps)
qed

lemma length_nat_to_le_32 [simp]: "length (nat_to_le 32 n) = 32"
  by simp

text \<open>A secret scalar has the public point of its multiple of the base point.\<close>

lemma public_key_from_scalar_eq:
  "length bytes = 32 \<Longrightarrow> public_key_from_scalar bytes = Ok (pmul (nat_of_le bytes) base8)"
  by (simp add: public_key_from_scalar_def base_mul_eq)

text \<open>The two points of order two, where reducing a scalar by the subgroup order changes the multiple.\<close>

lemma order_two_point: "is_on_curve (0, -1)"
  by (simp add: is_on_curve_def Let_def)

lemma pmul_order_two: "pmul n (0, -1) = (if even n then (0, 1) else (0, -1))"
  by (induction n) (simp_all add: ed_zero_def ed_add_def ed_slope_def)

section \<open>Properties\<close>

text \<open>
  C20: The addition law is complete on the curve.  Adding two points of the curve never meets a
  zero denominator, stays on the curve, is commutative and associative, has the identity
  \<open>(0, 1)\<close>, and negating \<open>x\<close> gives inverses.
\<close>

theorem curve_points_form_a_group:
  assumes "is_on_curve p" and "is_on_curve q" and "is_on_curve r"
  shows "(\<exists>s. (add_point p q :: (point, 'e) result) = Ok s \<and> is_on_curve s) \<and>
    (add_point p q :: (point, 'e) result) = add_point q p \<and>
    rbind (add_point p q) (\<lambda>s. add_point s r) = (rbind (add_point q r) (add_point p) :: (point, 'e) result) \<and>
    (add_point p identity :: (point, 'e) result) = Ok p \<and>
    is_on_curve (- fst p, snd p) \<and> (add_point p (- fst p, snd p) :: (point, 'e) result) = Ok identity"
proof (intro conjI)
  show neg: "is_on_curve (- fst p, snd p)"
    using assms(1) bjj.on_neg [of p] by (simp add: is_on_curve_eq ed_neg_def)
  show "(add_point p (- fst p, snd p) :: (point, 'e) result) = Ok identity"
    using bjj.add_neg [of p] assms(1) neg
    by (simp add: add_point_eq) (simp add: is_on_curve_eq ed_neg_def identity_eq)
  show "rbind (add_point p q) (\<lambda>s. add_point s r) = (rbind (add_point q r) (add_point p) :: (point, 'e) result)"
    using bjj.add_assoc [of p q r] assms by (simp add: add_point_eq is_on_curve_eq bjj.on_add)
qed (use assms in \<open>simp_all add: add_point_eq bjj.add_commute [of p q] identity_eq bjj.add_zero\<close>)

theorem curve_points_form_a_group_witness:
  "(\<exists>s. (add_point base8 base8 :: (point, unit) result) = Ok s \<and> is_on_curve s) \<and>
    (add_point base8 (- fst base8, snd base8) :: (point, unit) result) = Ok identity"
  using curve_points_form_a_group [where 'e = unit, OF base8_on_curve base8_on_curve base8_on_curve] by blast

text \<open>
  C21: Scalar multiplication.  The variable-time loop never panics on the curve and computes the
  multiples of the group: it turns sums of scalars into sums of points and products into
  iterated multiples; and the constant-schedule ladder of signing gives, for every 32
  bytes, the point the variable-time loop gives for their value.
\<close>

theorem scalar_multiplications_agree:
  assumes "is_on_curve p" and "length bytes = 32"
  shows "(\<exists>s. (mul_point_escalar p n :: (point, 'e) result) = Ok s \<and> is_on_curve s) \<and>
    (mul_point_escalar p 0 :: (point, 'e) result) = Ok identity \<and>
    (mul_point_escalar p 1 :: (point, 'e) result) = Ok p \<and>
    (mul_point_escalar p (m + n) :: (point, 'e) result) =
      rbind (mul_point_escalar p m) (\<lambda>a. rbind (mul_point_escalar p n) (add_point a)) \<and>
    (mul_point_escalar p (m * n) :: (point, 'e) result) =
      rbind (mul_point_escalar p n) (\<lambda>a. mul_point_escalar a m) \<and>
    (base_mul bytes :: (point, 'e) result) = mul_point_escalar base8 (nat_of_le bytes)"
  using assms base8_on_curve
  by (simp add: mul_point_escalar_eq base_mul_eq add_point_eq identity_eq bjj.add_zero)
    (simp add: is_on_curve_eq bjj.mul_add bjj.mul_mult)

theorem scalar_multiplications_agree_witness:
  "(base_mul (nat_to_le 32 (sub_order - 1)) :: (point, unit) result) = mul_point_escalar base8 (sub_order - 1)"
proof -
  have "sub_order - 1 < 256 ^ 32" by (simp add: sub_order_def)
  then have "nat_of_le (nat_to_le 32 (sub_order - 1)) = sub_order - 1" by (rule nat_of_le_to_le_small)
  then show ?thesis
    using scalar_multiplications_agree [where bytes = "nat_to_le 32 (sub_order - 1)" and 'e = unit,
        OF base8_on_curve length_nat_to_le_32] by simp
qed



end
