(* ===== verification/Eddsa_Correct.thy ===== *)
theory Eddsa_Correct
  imports Eddsa Babyjubjub_Group
begin

text \<open>
  What the signatures of \<open>crates/core/src/eddsa.rs\<close> satisfy: the seed-based signer computes the
  response of the equation that verification checks, the scalar signer returns the
  signature of its first accepted nonce, and verification decides that equation.  That
  the base point has the subgroup order is not evaluated here; where the last check of
  the signer rests on it, the statement says so.
\<close>

section \<open>The nonce loop\<close>

lemma nonce_loop_exhausted:
  assumes "\<And>c. counter \<le> c \<Longrightarrow> c < 2 ^ 32 \<Longrightarrow> nonce_candidate (nonce_mac hmac secret public message c) = None"
  shows "deterministic_scalar_nonce_from hmac secret public message counter = Err NonceCounterExhausted"
  using assms
proof (induction hmac secret public message counter rule: deterministic_scalar_nonce_from.induct)
  case (1 hmac secret public message counter)
  show ?case
  proof (cases "counter \<le> 2 ^ 32 - 1")
    case True
    moreover have "nonce_candidate (nonce_mac hmac secret public message counter) = None"
      using 1(2) [of counter] True by simp
    ultimately show ?thesis
      using 1 by (subst deterministic_scalar_nonce_from.simps) simp
  next
    case False
    then show ?thesis by (subst deterministic_scalar_nonce_from.simps) simp
  qed
qed

lemma nonce_loop_found:
  assumes "counter \<le> c" and "c < 2 ^ 32" and "nonce_candidate (nonce_mac hmac secret public message c) = Some r"
    and "\<And>c'. counter \<le> c' \<Longrightarrow> c' < c \<Longrightarrow> nonce_candidate (nonce_mac hmac secret public message c') = None"
  shows "deterministic_scalar_nonce_from hmac secret public message counter = Ok r"
  using assms
proof (induction hmac secret public message counter rule: deterministic_scalar_nonce_from.induct)
  case (1 hmac secret public message counter)
  have le: "counter \<le> 2 ^ 32 - 1" using 1(2,3) by simp
  show ?case
  proof (cases "counter = c")
    case True
    then show ?thesis
      using 1(4) le nonce_candidate_valid by (subst deterministic_scalar_nonce_from.simps) simp
  next
    case False
    then have "counter < c" using 1(2) by simp
    moreover from this have "nonce_candidate (nonce_mac hmac secret public message counter) = None"
      using 1(5) [of counter] by simp
    ultimately show ?thesis
      using 1 le by (subst deterministic_scalar_nonce_from.simps) simp
  qed
qed

section \<open>Properties\<close>

lemma identity_pmul [simp]: "pmul 0 p = identity"
  by (simp add: identity_eq)

lemma pmul_div_mod: "pmul n base8 = psum (pmul (n div sub_order * sub_order) base8) (pmul (n mod sub_order) base8)"
proof -
  have "n = n div sub_order * sub_order + n mod sub_order" by simp
  then show ?thesis
    using bjj.mul_add [of base8 "n div sub_order * sub_order" "n mod sub_order"] base8_on_curve
    by (simp only: is_on_curve_eq)
qed

lemma pmul_reduced_iff:
  "pmul (n mod sub_order) base8 = pmul n base8 \<longleftrightarrow> pmul (n div sub_order * sub_order) base8 = identity"
proof -
  have "pmul (n mod sub_order) base8 = pmul n base8 \<longleftrightarrow>
      psum (pmul (n mod sub_order) base8) ed_zero =
      psum (pmul (n mod sub_order) base8) (pmul (n div sub_order * sub_order) base8)"
    by (subst (2) pmul_div_mod) (simp add: bjj.add_zero bjj.add_commute)
  then show ?thesis
    using bjj.add_cancel [of "pmul (n mod sub_order) base8" ed_zero "pmul (n div sub_order * sub_order) base8"]
      is_on_curve_mul [OF base8_on_curve] is_on_curve_identity
    by (auto simp: is_on_curve_eq identity_eq)
qed

lemma length_blake512 [simp]: "length (blake512 data) = 64"
  by (simp add: blake512_def blake_digest_def Let_def length_concat o_def upt_rec)

text \<open>
  C23: For a checked public key and a nonce point of the curve, verification never panics and
  accepts exactly when neither is the identity and \<open>S * Base8 = R8 + h * (8 * A)\<close>, \<open>h\<close> the
  Poseidon hash of both points and the message: the reduction of \<open>8 * h\<close> does not
  change the equation.
\<close>

theorem verification_decides_the_equation:
  fixes ps :: "fr list \<Rightarrow> fr" and message :: fr
  assumes "point_try_from_xy (fst A) (snd A) = Ok A" and "is_on_curve (ss_r8 sig)"
  defines "h \<equiv> ps [fst (ss_r8 sig), snd (ss_r8 sig), fst A, snd A, message]"
  shows "(verify_scalar_compat ps message A sig :: (bool, 'e) result) =
    Ok (A \<noteq> identity \<and> ss_r8 sig \<noteq> identity \<and>
      (mul_point_escalar base8 (ss_s sig) :: (point, 'e) result) =
      rbind (mul_point_escalar A 8) (\<lambda>A8. rbind (mul_point_escalar A8 (fr_rep h)) (add_point (ss_r8 sig))))"
proof -
  have A: "subgroup_point A" "is_on_curve A"
    using assms(1) by (auto simp: point_try_from_xy_eq subgroup_point_def split: if_splits)
  have "pmul (8 * fr_rep h mod sub_order) A = pmul (fr_rep h) (pmul 8 A)"
    using subgroup_mul_mod [OF A(1), of "8 * fr_rep h"] bjj.mul_mult [of A "fr_rep h" 8] A(2)
    by (simp only: is_on_curve_eq mult.commute)
  then show ?thesis
    using A(2) assms(2) base8_on_curve
    by (simp add: verify_scalar_compat_def is_identity_def h_def [symmetric] mul_point_escalar_eq add_point_eq Let_def)
qed

theorem verification_decides_the_equation_witness:
  "(verify_scalar_compat (\<lambda>_. 0) 7 identity \<lparr>ss_r8 = base8, ss_s = 1\<rparr> :: (bool, unit) result) = Ok False"
proof -
  have "point_try_from_xy (fst identity) (snd identity) = Ok identity"
    using is_on_curve_identity(1) by (simp add: point_try_from_xy_eq identity_eq bjj.mul_zero)
  then show ?thesis
    using verification_decides_the_equation [of identity "\<lparr>ss_r8 = base8, ss_s = 1\<rparr>" "\<lambda>_. 0" 7]
      base8_on_curve by simp
qed

text \<open>
  C24: Seed signatures.  The clamped hash of the seed is \<open>8 * k\<close> with \<open>2 ^ 251 \<le> k < 2 ^ 252\<close>, the
  public key is \<open>k * Base8\<close> and the published secret scalar is \<open>k\<close> reduced.  Signing panics
  exactly for messages of more than 256 bits; otherwise its nonce \<open>r\<close> depends on the upper half
  of the hash and the unreduced message, and it returns \<open>R8 = r * Base8\<close> with
  \<open>S = r + 8 * h * k\<close> modulo the subgroup order.
\<close>

theorem seed_signature_answers_its_challenge:
  fixes key :: "byte list" and message :: nat
  defines "k \<equiv> nat_of_le (prune_buffer (take 32 (blake512 key))) div 8"
  defines "r \<equiv> nat_of_le (blake512 (drop 32 (blake512 key) @ nat_to_le 32 message)) mod sub_order"
  shows "2 ^ 251 \<le> k \<and> k < 2 ^ 252 \<and> derive_secret_scalar blake512 key = k mod sub_order \<and>
    (derive_public_key key :: (point, 'e) result) = mul_point_escalar base8 k \<and>
    (eddsa_sign ps message key :: (signature, 'e) result) =
      (if 2 ^ 256 \<le> message then Panic
       else rbind (mul_point_escalar base8 k) (\<lambda>A. rbind (mul_point_escalar base8 r) (\<lambda>R.
         Ok \<lparr>sg_r8 = R,
             sg_s = (r + 8 * fr_rep (ps [fst R, snd R, fst A, snd A, fr_of_nat message]) * k) mod sub_order\<rparr>)))"
proof -
  define hash seed where "hash = blake512 key" and "seed = prune_buffer (take 32 hash)"
  have len: "length hash = 64" "length seed = 32" by (simp_all add: hash_def seed_def)
  have "length (take 32 hash) = 32" using len by simp
  note clamped = clamped_secrets [OF this, folded seed_def]
  have k: "k = nat_of_le (shift_right_3 seed)" "nat_of_le seed = 8 * k"
    using clamped by (simp_all add: k_def seed_def hash_def)
  have pub: "(derive_public_key key :: (point, 'e) result) = Ok (pmul k base8)"
    using len by (simp add: derive_public_key_def pruned_scalar_buffer_def base_mul_eq k(1) seed_def hash_def)
  have sec: "derive_secret_scalar blake512 key = k mod sub_order"
    by (simp add: derive_secret_scalar_def pruned_scalar_buffer_def k_def Let_def)
  have msg: "biguint_to_le_bytes message 32 = (if 2 ^ 256 \<le> message then Panic else Ok (nat_to_le 32 message) :: (_, 'e) result)"
    by (simp add: biguint_to_le_bytes_eq)
  have "(eddsa_sign ps message key :: (signature, 'e) result) =
      (if 2 ^ 256 \<le> message then Panic
       else let A = pmul k base8; R = pmul r base8 in
         Ok \<lparr>sg_r8 = R,
             sg_s = (r + 8 * fr_rep (ps [fst R, snd R, fst A, snd A, fr_of_nat message]) * k) mod sub_order\<rparr>)"
    using len
    by (simp add: eddsa_sign_def hash_def [symmetric] seed_def [symmetric] base_mul_eq msg k(1) [symmetric] Let_def
        reduce_wide_eq r_def scalar_response_eq k(2) ac_simps)
  then show ?thesis
    using clamped pub sec base8_on_curve by (simp add: mul_point_escalar_eq k(1) Let_def)
qed

text \<open>
  Scalar signatures.  For a valid secret and its public point, signing returns an error when
  all \<open>2 ^ 32\<close> nonce digests are refused; otherwise the first accepted digest is the nonce \<open>r\<close> and,
  with \<open>u = r + (8 * h mod l) * k\<close>, the signature \<open>(r * Base8, u mod l)\<close> is returned exactly when its
  verification accepts it, which is when no point is the identity and the multiple
  \<open>(u div l) * l\<close> of the base point is - always, if the base point is in the subgroup.
\<close>

theorem scalar_signature_outcome:
  fixes secret :: "byte list" and message :: fr and hmac :: "byte list \<Rightarrow> byte list \<Rightarrow> byte list"
  assumes "length secret = 32" and "0 < nat_of_le secret" and "nat_of_le secret < sub_order"
    and "(public_key_from_scalar secret :: (point, scalar_signature_error) result) = Ok A"
  defines "candidate \<equiv> \<lambda>c. nonce_candidate (nonce_mac hmac secret A message c)"
  shows "((\<forall>c < 2 ^ 32. candidate c = None) \<longrightarrow>
      sign_scalar_compat ps hmac message secret A = Err NonceCounterExhausted) \<and>
    (\<forall>c r. c < 2 ^ 32 \<longrightarrow> candidate c = Some r \<longrightarrow> (\<forall>c' < c. candidate c' = None) \<longrightarrow>
      (\<exists>R. (public_key_from_scalar r :: (point, scalar_signature_error) result) = Ok R \<and>
        (let h = ps [fst R, snd R, fst A, snd A, message];
             u = nat_of_le r + (8 * fr_rep h mod sub_order) * nat_of_le secret;
             accepted = (A \<noteq> identity \<and> R \<noteq> identity \<and>
               (mul_point_escalar base8 (u div sub_order * sub_order) :: (point, unit) result) = Ok identity)
         in sign_scalar_compat ps hmac message secret A =
              (if accepted then Ok \<lparr>ss_r8 = R, ss_s = u mod sub_order\<rparr> else Err InternalVerificationFailed) \<and>
            ((is_in_subgroup base8 :: (bool, unit) result) = Ok True \<longrightarrow>
              (mul_point_escalar base8 (u div sub_order * sub_order) :: (point, unit) result) = Ok identity))))"
proof -
  let ?k = "nat_of_le secret"
  have A: "A = pmul ?k base8" using assms(1,4) by (simp add: public_key_from_scalar_eq)
  have "sign_scalar_compat ps hmac message secret A = Err NonceCounterExhausted" if none: "\<forall>c < 2 ^ 32. candidate c = None"
  proof -
    have "deterministic_scalar_nonce hmac secret A message = Err NonceCounterExhausted"
      unfolding deterministic_scalar_nonce_def
      by (rule nonce_loop_exhausted) (use none in \<open>simp add: candidate_def\<close>)
    then show ?thesis using assms(4) by (simp add: sign_scalar_compat_def)
  qed
  moreover have "\<exists>R. (public_key_from_scalar r :: (point, scalar_signature_error) result) = Ok R \<and>
      (let h = ps [fst R, snd R, fst A, snd A, message];
           u = nat_of_le r + (8 * fr_rep h mod sub_order) * ?k;
           accepted = (A \<noteq> identity \<and> R \<noteq> identity \<and>
             (mul_point_escalar base8 (u div sub_order * sub_order) :: (point, unit) result) = Ok identity)
       in sign_scalar_compat ps hmac message secret A =
            (if accepted then Ok \<lparr>ss_r8 = R, ss_s = u mod sub_order\<rparr> else Err InternalVerificationFailed) \<and>
          ((is_in_subgroup base8 :: (bool, unit) result) = Ok True \<longrightarrow>
            (mul_point_escalar base8 (u div sub_order * sub_order) :: (point, unit) result) = Ok identity))"
    if c: "c < 2 ^ 32" "candidate c = Some r" "\<forall>c' < c. candidate c' = None" for c r
  proof -
    define R h where "R = pmul (nat_of_le r) base8" and "h = ps [fst R, snd R, fst A, snd A, message]"
    define e u where "e = 8 * fr_rep h mod sub_order" and "u = nat_of_le r + e * ?k"
    have "deterministic_scalar_nonce hmac secret A message = Ok r"
      unfolding deterministic_scalar_nonce_def
      by (rule nonce_loop_found [of 0 c]) (use c in \<open>simp_all add: candidate_def\<close>)
    moreover have r: "length r = 32" "nat_of_le r < sub_order"
      using c(2) by (auto simp: candidate_def nonce_candidate_eq Let_def split: if_splits)
    moreover have "(nat_of_le r + 8 * fr_rep h * ?k) mod sub_order = u mod sub_order"
      unfolding u_def e_def by (metis mod_add_right_eq mod_mult_left_eq)
    moreover have "(verify_scalar_compat ps message A \<lparr>ss_r8 = R, ss_s = u mod sub_order\<rparr> ::
        (bool, scalar_signature_error) result) =
      Ok (A \<noteq> identity \<and> R \<noteq> identity \<and> pmul (u div sub_order * sub_order) base8 = identity)"
    proof -
      have "pmul e A = pmul (e * ?k) base8"
        using base8_on_curve by (simp add: A bjj.mul_mult is_on_curve_eq)
      then have "psum R (pmul e A) = pmul u base8"
        using base8_on_curve by (simp add: R_def u_def bjj.mul_add is_on_curve_eq)
      moreover have "is_on_curve A" "is_on_curve R" using base8_on_curve by (simp_all add: A R_def)
      ultimately show ?thesis
        using base8_on_curve pmul_reduced_iff [of u]
        by (simp add: verify_scalar_compat_def is_identity_def h_def [symmetric] e_def [symmetric] Let_def
            mul_point_escalar_eq add_point_eq)
    qed
    moreover have "pmul (u div sub_order * sub_order) base8 = identity" if "subgroup_point base8"
      using that base8_on_curve
      by (simp add: subgroup_point_def bjj.mul_mult is_on_curve_eq identity_eq bjj.mul_zero)
    moreover from calculation have "sign_scalar_compat ps hmac message secret A =
        rbind (verify_scalar_compat ps message A \<lparr>ss_r8 = R, ss_s = u mod sub_order\<rparr>) (\<lambda>ok.
          rbind (guard (\<not> ok) InternalVerificationFailed) (\<lambda>_. Ok \<lparr>ss_r8 = R, ss_s = u mod sub_order\<rparr>))"
      using assms(4) mod_less_divisor [OF sub_order_bounds(1), of u]
      by (simp add: sign_scalar_compat_def Let_def not_le [symmetric] public_key_from_scalar_eq R_def [symmetric] h_def [symmetric]
          scalar_response_eq scalar_try_from_le_bytes_def scalar_from_biguint_def)
    ultimately show ?thesis
      using base8_on_curve
      by (intro exI [of _ R]) (simp add: Let_def h_def [symmetric] e_def [symmetric] u_def [symmetric]
          public_key_from_scalar_eq R_def [symmetric] mul_point_escalar_eq is_in_subgroup_eq)
  qed
  ultimately show ?thesis by blast
qed

theorem scalar_signature_outcome_witness:
  "sign_scalar_compat (\<lambda>_. 0) (\<lambda>_ _. nat_to_le 64 1) 7 (nat_to_le 32 1) base8 = Ok \<lparr>ss_r8 = base8, ss_s = 1\<rparr>"
proof -
  have one: "pmul 1 base8 = base8" by (simp add: bjj.add_zero)
  have key: "(public_key_from_scalar (nat_to_le 32 1) :: (point, scalar_signature_error) result) = Ok base8"
    by (simp add: public_key_from_scalar_eq bjj.add_zero)
  have cand: "nonce_candidate (nonce_mac (\<lambda>_ _. nat_to_le 64 1) (nat_to_le 32 1) base8 7 0) = Some (nat_to_le 32 1)"
    by (simp add: nonce_mac_def nonce_candidate_eq nonce_limit_def sub_order_def)
  have base: "base8 \<noteq> identity"
    unfolding base8_def identity_def by (simp add: fr_eq_iff fr_modulus_def)
  have "(0 :: nat) < nat_of_le (nat_to_le 32 1)" "nat_of_le (nat_to_le 32 1) < sub_order"
    by (simp_all add: sub_order_def)
  note outcome = scalar_signature_outcome [OF length_nat_to_le_32 this key,
      where hmac = "\<lambda>_ _. nat_to_le 64 1" and message = 7 and ps = "\<lambda>_. 0"]
  show ?thesis
    using conjunct2 [OF outcome, rule_format, of 0 "nat_to_le 32 1"] key cand base
    by (auto simp: Let_def mul_point_escalar_eq base8_on_curve sub_order_def identity_eq split: if_splits)
qed

end
