(* ===== verification/Graph_Wire.thy ===== *)
theory Graph_Wire
  imports Field_Codec "HOL-Library.Product_Lexorder"
begin

unbundle bit_operations_syntax

text \<open>
  The witness-graph artifact of \<open>crates/witness/src/lib.rs\<close>: limits, authentication, the
  byte reader with its canonical variable-length integers, the header, the node
  records of both body versions, output references, input mappings and the evaluation
  cost meter, and the parser that puts them together.  The build is the one with the
  features \<open>signet-v2\<close> and \<open>sage\<close>.  SHA-256 (\<open>sha\<close>) and the zstd decoder (\<open>zstd\<close>) are
  third-party; reserving memory is taken to succeed.
\<close>

section \<open>Errors and limits\<close>

datatype (plugins only: code) witness_error =
    InvalidExpectedHash
  | HashMismatch "byte list" "byte list"
  | GraphTooLarge nat
  | CompressedGraphTooLarge nat
  | InvalidZstd
  | ZstdWindowTooLarge nat nat
  | ZstdOutputTooLarge nat
  | ZstdDictionaryUnsupported
  | ZstdTrailingData
  | ZstdChecksumMismatch
  | InputTooLarge nat
  | GraphTruncated
  | InvalidMagic
  | UnsupportedVersion nat
  | UnsupportedField nat
  | InvalidHeaderSize nat
  | CountLimit string nat nat
  | EmptyGraph
  | EvaluationCostLimit nat
  | InvalidNodeTag nat nat
  | InvalidOperation nat nat
  | InvalidVarint
  | NonCanonicalVarint
  | InvalidBackwardReference nat nat
  | ForwardReference nat nat
  | InputReference nat nat nat
  | NonCanonicalConstant nat
  | OutputReference nat nat
  | OutputDelta nat
  | DuplicateInputHash nat
  | InputMappingRange nat
  | InputMappingOverlap nat
  | GraphTrailingBytes
  | AllocationFailed string
  | InvalidInputJson
  | InputNotObject
  | UnknownInput "byte list"
  | InputHashCollision nat
  | InputLength "byte list" nat nat
  | InvalidInputValue "byte list"
  | InvalidFieldValue
  | DivisionByZero nat
  | InvalidShift nat
  | InvalidAssignmentOne
  | SlotOverflow
  | SageProgramTooLarge nat
  | InvalidSageProgram string
  | SageSourceHashMismatch "byte list" "byte list"
  | CompiledIndex string
  | SageInvariant string

record limits =
  lm_graph_bytes :: nat
  lm_compressed_graph_bytes :: nat
  lm_zstd_window_bytes :: nat
  lm_sage_program_bytes :: nat
  lm_input_json_bytes :: nat
  lm_nodes :: nat
  lm_signals :: nat
  lm_input_mappings :: nat
  lm_input_values :: nat
  lm_evaluation_cost :: nat

definition limits_client :: limits where
  "limits_client =
     \<lparr>lm_graph_bytes = 64 * 1024 * 1024, lm_compressed_graph_bytes = 32 * 1024 * 1024,
      lm_zstd_window_bytes = 8 * 1024 * 1024, lm_sage_program_bytes = 64 * 1024 * 1024,
      lm_input_json_bytes = 16 * 1024 * 1024, lm_nodes = 2000000, lm_signals = 2000000,
      lm_input_mappings = 4096, lm_input_values = 2000000, lm_evaluation_cost = 32000000\<rparr>"

definition limits_batch_prover :: limits where
  "limits_batch_prover = limits_client
     \<lparr>lm_graph_bytes := 96 * 1024 * 1024, lm_sage_program_bytes := 256 * 1024 * 1024,
      lm_nodes := 8000000, lm_evaluation_cost := 128000000\<rparr>"

section \<open>The reader\<close>

text \<open>A read either fails, and the reader is dropped with it, or leaves the bytes that remain.\<close>

type_synonym 'a rd = "byte list \<Rightarrow> ('a \<times> byte list, witness_error) result"

definition rd_take :: "nat \<Rightarrow> byte list rd" where
  "rd_take n bs = (if length bs < n then Err GraphTruncated else Ok (take n bs, drop n bs))"

definition rd_u8 :: "nat rd" where
  "rd_u8 bs = rbind (rd_take 1 bs) (\<lambda>(v, bs). rbind (idx v 0) (\<lambda>b. Ok (unat b, bs)))"

definition rd_uint :: "nat \<Rightarrow> nat rd" where
  "rd_uint n bs = rbind (rd_take n bs) (\<lambda>(v, bs). Ok (nat_of_le v, bs))"

definition rd_u16 :: "nat rd" where "rd_u16 = rd_uint 2"

definition rd_u32 :: "nat rd" where "rd_u32 = rd_uint 4"

definition rd_u64 :: "nat rd" where "rd_u64 = rd_uint 8"

text \<open>The loop \<open>for index in 0..10\<close> of \<open>var_u64\<close>.\<close>

function rd_var_loop :: "nat \<Rightarrow> 64 word \<Rightarrow> (64 word) rd" where
  "rd_var_loop index value bs =
     (if index < 10
      then rbind (rd_u8 bs) (\<lambda>(byte, bs).
           let byte = (of_nat byte :: byte);
               payload = byte AND 0x7f
           in rbind (guard (index = 9 \<and> byte AND 0xfe \<noteq> 0) InvalidVarint) (\<lambda>_.
              let value = value OR push_bit (index * 7) (ucast payload)
              in if byte AND 0x80 = 0
                 then rbind (guard (index \<noteq> 0 \<and> payload = 0) NonCanonicalVarint) (\<lambda>_. Ok (value, bs))
                 else rd_var_loop (index + 1) value bs))
      else Err InvalidVarint)"
  by pat_completeness auto
termination by (relation "measure (\<lambda>(index, value, bs). 10 - index)") auto

declare rd_var_loop.simps [simp del]

definition rd_var_u64 :: "nat rd" where
  "rd_var_u64 bs = rbind (rd_var_loop 0 0 bs) (\<lambda>(v, bs). Ok (unat v, bs))"

definition rd_var_u32 :: "nat rd" where
  "rd_var_u32 bs = rbind (rd_var_u64 bs) (\<lambda>(v, bs). rbind (guard (2 ^ 32 \<le> v) InvalidVarint) (\<lambda>_. Ok (v, bs)))"

section \<open>Operations\<close>

datatype operation =
    OpMul | OpMontgomeryMul | OpAdd | OpSub | OpEq | OpNeq | OpLt | OpGt | OpLeq | OpGeq
  | OpLogicalOr | OpShl | OpShr | OpBitAnd | OpNeg | OpInv | OpDiv | OpMod | OpPow
  | OpLogicalAnd | OpIntegerDiv | OpBitXor | OpBitOr

definition wire_operations :: "(nat \<times> operation) list" where
  "wire_operations =
     [(0, OpMul), (1, OpMontgomeryMul), (2, OpAdd), (3, OpSub), (4, OpEq), (5, OpNeq), (6, OpLt),
      (7, OpGt), (8, OpLeq), (9, OpGeq), (10, OpLogicalOr), (11, OpShl), (12, OpShr), (13, OpBitAnd),
      (14, OpNeg), (15, OpInv), (16, OpDiv), (17, OpMod), (18, OpPow), (19, OpLogicalAnd),
      (20, OpIntegerDiv), (21, OpBitXor), (22, OpBitOr)]"

definition operation_from_tag :: "nat \<Rightarrow> nat \<Rightarrow> (operation, witness_error) result" where
  "operation_from_tag tag index = ok_or (map_of wire_operations tag) (InvalidOperation index tag)"

fun operation_cost :: "operation \<Rightarrow> nat" where
  "operation_cost OpLt = 3" | "operation_cost OpGt = 3" | "operation_cost OpLeq = 3" | "operation_cost OpGeq = 3"
| "operation_cost OpShl = 24" | "operation_cost OpShr = 24"
| "operation_cost OpBitAnd = 24" | "operation_cost OpBitOr = 24" | "operation_cost OpBitXor = 24"
| "operation_cost OpMod = 48" | "operation_cost OpIntegerDiv = 48"
| "operation_cost OpInv = 256" | "operation_cost OpDiv = 256"
| "operation_cost OpPow = 768"
| "operation_cost _ = 1"

section \<open>Records, header and tables\<close>

datatype node =
    GInput nat
  | GConstant fr
  | GOperation operation nat nat
  | GInverse nat

datatype node_record =
    RInput nat
  | RConstant "byte list"
  | ROperation operation nat nat
  | RInverse nat

datatype format_version = V1 | V2

record header =
  hd_magic :: "byte list"
  hd_version :: format_version
  hd_r1cs_sha256 :: "byte list"
  hd_node_count :: nat
  hd_signal_count :: nat
  hd_input_mapping_count :: nat
  hd_input_buffer_len :: nat

record input_mapping =
  im_hash :: nat
  im_signal_id :: nat
  im_signal_size :: nat

record witness_graph =
  wg_limits :: limits
  wg_nodes :: "node list"
  wg_signals :: "nat list"
  wg_input_mapping :: "input_mapping list"
  wg_input_buffer_len :: nat
  wg_r1cs_sha256 :: "byte list"
  wg_magic :: "byte list"
  wg_format_version :: nat

definition legacy_magic :: "byte list" where
  "legacy_magic = [67, 86, 89, 87, 73, 84, 48, 49]"

definition signet_magic :: "byte list" where
  "signet_magic = [83, 73, 71, 78, 69, 84, 48, 49]"

definition format_version_v1 :: nat where "format_version_v1 = 1"
definition format_version_v2 :: nat where "format_version_v2 = 2"
definition field_bn254_fr :: nat where "field_bn254_fr = 1"
definition header_size :: nat where "header_size = 64"
definition v2_input_tag :: nat where "v2_input_tag = 0x80"
definition v2_constant_tag :: nat where "v2_constant_tag = 0x81"
definition v2_inverse_tag :: nat where "v2_inverse_tag = 0x82"

definition checked_count :: "string \<Rightarrow> nat \<Rightarrow> nat \<Rightarrow> (nat, witness_error) result" where
  "checked_count section actual maximum =
     rbind (guard (maximum < actual) (CountLimit section actual maximum)) (\<lambda>_. Ok actual)"

definition read_version :: "nat \<Rightarrow> (format_version, witness_error) result" where
  "read_version v =
     (if v = format_version_v1 then Ok V1
      else if v = format_version_v2 then Ok V2 else Err (UnsupportedVersion v))"

definition read_header :: "limits \<Rightarrow> header rd" where
  "read_header limits bs =
     rbind (rd_take 8 bs) (\<lambda>(magic, bs).
     rbind (guard (\<not> (magic = legacy_magic \<or> magic = signet_magic)) InvalidMagic) (\<lambda>_.
     rbind (rd_u16 bs) (\<lambda>(version, bs).
     rbind (read_version version) (\<lambda>version.
     rbind (rd_u16 bs) (\<lambda>(field, bs).
     rbind (guard (field \<noteq> field_bn254_fr) (UnsupportedField field)) (\<lambda>_.
     rbind (rd_u32 bs) (\<lambda>(size, bs).
     rbind (guard (size \<noteq> header_size) (InvalidHeaderSize size)) (\<lambda>_.
     rbind (rd_take 32 bs) (\<lambda>(r1cs, bs).
     rbind (rd_u32 bs) (\<lambda>(n, bs). rbind (checked_count ''node'' n (lm_nodes limits)) (\<lambda>node_count.
     rbind (rd_u32 bs) (\<lambda>(n, bs). rbind (checked_count ''signal'' n (lm_signals limits)) (\<lambda>signal_count.
     rbind (rd_u32 bs) (\<lambda>(n, bs). rbind (checked_count ''input mapping'' n (lm_input_mappings limits)) (\<lambda>mapping_count.
     rbind (rd_u32 bs) (\<lambda>(n, bs). rbind (checked_count ''input value'' n (lm_input_values limits)) (\<lambda>buffer_len.
     rbind (guard (node_count = 0 \<or> signal_count = 0 \<or> buffer_len = 0) EmptyGraph) (\<lambda>_.
       Ok (\<lparr>hd_magic = magic, hd_version = version, hd_r1cs_sha256 = r1cs, hd_node_count = node_count,
            hd_signal_count = signal_count, hd_input_mapping_count = mapping_count,
            hd_input_buffer_len = buffer_len\<rparr>, bs)))))))))))))))))))"

definition preflight_body_size :: "header \<Rightarrow> nat \<Rightarrow> (unit, witness_error) result" where
  "preflight_body_size header available =
     (let (minimum_node_bytes, minimum_signal_bytes) = (case hd_version header of V1 \<Rightarrow> (5, 4) | V2 \<Rightarrow> (2, 1));
          minimum =
            Option.bind (checked_mul (hd_node_count header) minimum_node_bytes) (\<lambda>size.
            Option.bind (Option.bind (checked_mul (hd_signal_count header) minimum_signal_bytes) (checked_add size)) (\<lambda>size.
            Option.bind (checked_mul (hd_input_mapping_count header) 16) (checked_add size)))
      in rbind (ok_or minimum GraphTruncated) (\<lambda>minimum. guard (available < minimum) GraphTruncated))"

definition checked_input :: "nat \<Rightarrow> nat \<Rightarrow> nat \<Rightarrow> (node_record, witness_error) result" where
  "checked_input input index len = rbind (guard (len \<le> input) (InputReference index input len)) (\<lambda>_. Ok (RInput input))"

definition constant_from_bytes :: "byte list \<Rightarrow> nat \<Rightarrow> (fr, witness_error) result" where
  "constant_from_bytes encoded index = ok_or (sf_from_le_bytes encoded) (NonCanonicalConstant index)"

definition validate_reference :: "nat \<Rightarrow> nat \<Rightarrow> (unit, witness_error) result" where
  "validate_reference index reference = guard (index \<le> reference) (ForwardReference index reference)"

definition decode_backward_reference :: "nat \<Rightarrow> nat rd" where
  "decode_backward_reference index bs =
     rbind (rd_var_u64 bs) (\<lambda>(distance, bs).
     rbind (guard (distance = 0 \<or> index < distance) (InvalidBackwardReference index distance)) (\<lambda>_.
       Ok (index - distance, bs)))"

text \<open>The reference \<open>previous + delta\<close> of a ZigZag-encoded \<open>delta\<close>, in 128-bit signed arithmetic.\<close>

definition decode_output_delta :: "nat \<Rightarrow> nat \<Rightarrow> nat \<Rightarrow> nat rd" where
  "decode_output_delta previous node_count index bs =
     rbind (rd_var_u64 bs) (\<lambda>(encoded, bs).
       let magnitude = int (encoded div 2);
           delta = (if even encoded then magnitude else - magnitude - 1);
           reference = int previous + delta
       in rbind (guard (reference < 0 \<or> int node_count \<le> reference) (OutputDelta index)) (\<lambda>_.
            Ok (nat reference, bs)))"

definition read_node_record :: "format_version \<Rightarrow> nat \<Rightarrow> nat \<Rightarrow> node_record rd" where
  "read_node_record version index input_buffer_len bs =
     rbind (rd_u8 bs) (\<lambda>(tag, bs).
     case version of
       V1 \<Rightarrow>
         if tag = 0 then rbind (rd_u32 bs) (\<lambda>(input, bs).
           rbind (checked_input input index input_buffer_len) (\<lambda>record. Ok (record, bs)))
         else if tag = 1 then rbind (rd_take 32 bs) (\<lambda>(encoded, bs). Ok (RConstant encoded, bs))
         else if tag = 2 then
           rbind (rd_u8 bs) (\<lambda>(op, bs).
           rbind (operation_from_tag op index) (\<lambda>op.
           rbind (rd_u32 bs) (\<lambda>(left, bs).
           rbind (rd_u32 bs) (\<lambda>(right, bs).
           rbind (validate_reference index left) (\<lambda>_.
           rbind (validate_reference index right) (\<lambda>_. Ok (ROperation op left right, bs)))))))
         else if tag = 3 then
           rbind (rd_u32 bs) (\<lambda>(source, bs).
           rbind (validate_reference index source) (\<lambda>_. Ok (RInverse source, bs)))
         else Err (InvalidNodeTag index tag)
     | V2 \<Rightarrow>
         if tag = v2_input_tag then rbind (rd_var_u32 bs) (\<lambda>(input, bs).
           rbind (checked_input input index input_buffer_len) (\<lambda>record. Ok (record, bs)))
         else if tag = v2_constant_tag then rbind (rd_take 32 bs) (\<lambda>(encoded, bs). Ok (RConstant encoded, bs))
         else if tag = v2_inverse_tag then
           rbind (decode_backward_reference index bs) (\<lambda>(source, bs). Ok (RInverse source, bs))
         else if tag \<le> 0x7f then
           rbind (operation_from_tag tag index) (\<lambda>op.
           rbind (decode_backward_reference index bs) (\<lambda>(left, bs).
           rbind (decode_backward_reference index bs) (\<lambda>(right, bs). Ok (ROperation op left right, bs))))
         else Err (InvalidNodeTag index tag))"

text \<open>The two output tables; version 2 carries the previous reference through the loop.\<close>

definition read_output_v1 :: "nat \<Rightarrow> nat \<Rightarrow> byte list \<times> nat list \<Rightarrow> (byte list \<times> nat list, witness_error) result" where
  "read_output_v1 node_count index = (\<lambda>(bs, signals).
     rbind (rd_u32 bs) (\<lambda>(reference, bs).
     rbind (guard (node_count \<le> reference) (OutputReference index reference)) (\<lambda>_.
       Ok (bs, signals @ [reference]))))"

definition read_output_v2 ::
    "nat \<Rightarrow> nat \<Rightarrow> byte list \<times> nat list \<times> nat \<Rightarrow> (byte list \<times> nat list \<times> nat, witness_error) result" where
  "read_output_v2 node_count index = (\<lambda>(bs, signals, previous).
     rbind (decode_output_delta previous node_count index bs) (\<lambda>(reference, bs).
       Ok (bs, signals @ [reference], reference)))"

definition read_output_references :: "header \<Rightarrow> (nat list) rd" where
  "read_output_references header bs =
     (case hd_version header of
        V1 \<Rightarrow> rbind (rfold [0..<hd_signal_count header] (read_output_v1 (hd_node_count header)) (bs, []))
                (\<lambda>(bs, signals). Ok (signals, bs))
      | V2 \<Rightarrow> rbind (rfold [0..<hd_signal_count header] (read_output_v2 (hd_node_count header)) (bs, [], 0))
                (\<lambda>(bs, signals, previous). Ok (signals, bs)))"

text \<open>
  Input ranges may nest but not partially overlap.  The stack of enclosing ends is kept
  with its last element first.  The unstable sort leaves the order of equal ranges open;
  with the stable one only the index of a refusal is fixed further.
\<close>

definition check_input_range ::
    "(nat \<times> nat) list \<Rightarrow> nat \<Rightarrow> nat list \<Rightarrow> (nat list, witness_error) result" where
  "check_input_range ranges index enclosing =
     rbind (idx ranges index) (\<lambda>(start, size).
       let end = start + size;
           enclosing = dropWhile (\<lambda>outer_end. outer_end \<le> start) enclosing
       in rbind (guard (enclosing \<noteq> [] \<and> hd enclosing < end) (InputMappingOverlap index)) (\<lambda>_.
            Ok (end # enclosing)))"

definition check_input_ranges :: "(nat \<times> nat) list \<Rightarrow> (unit, witness_error) result" where
  "check_input_ranges ranges =
     (let order = sort_key (\<lambda>index. (fst (ranges ! index), - int (snd (ranges ! index)))) [0..<length ranges]
      in rbind (rfold order (check_input_range ranges) []) (\<lambda>_. Ok ()))"

definition read_input_mapping ::
    "nat \<Rightarrow> nat \<Rightarrow> byte list \<times> input_mapping list \<times> nat set \<Rightarrow>
     (byte list \<times> input_mapping list \<times> nat set, witness_error) result" where
  "read_input_mapping input_buffer_len index = (\<lambda>(bs, mappings, hashes).
     rbind (rd_u64 bs) (\<lambda>(hash, bs).
     rbind (rd_u32 bs) (\<lambda>(signal_id, bs).
     rbind (rd_u32 bs) (\<lambda>(signal_size, bs).
     rbind (guard (hash \<in> hashes) (DuplicateInputHash hash)) (\<lambda>_.
     rbind (guard (signal_id = 0 \<or> signal_size = 0 \<or>
         (case checked_add signal_id signal_size of None \<Rightarrow> True | Some e \<Rightarrow> input_buffer_len < e))
         (InputMappingRange index)) (\<lambda>_.
       Ok (bs, mappings @ [\<lparr>im_hash = hash, im_signal_id = signal_id, im_signal_size = signal_size\<rparr>],
           insert hash hashes)))))))"

definition read_input_mappings :: "header \<Rightarrow> (input_mapping list) rd" where
  "read_input_mappings header bs =
     rbind (rfold [0..<hd_input_mapping_count header] (read_input_mapping (hd_input_buffer_len header)) (bs, [], {}))
       (\<lambda>(bs, mappings, hashes).
     rbind (check_input_ranges (map (\<lambda>m. (im_signal_id m, im_signal_size m)) mappings)) (\<lambda>_.
       Ok (mappings, bs)))"

section \<open>The cost meter and the parser\<close>

definition cost_charge :: "limits \<Rightarrow> nat \<Rightarrow> nat \<Rightarrow> (nat, witness_error) result" where
  "cost_charge limits cost spent =
     (let spent = min (spent + cost) (2 ^ 64 - 1)
      in rbind (guard (lm_evaluation_cost limits < spent) (EvaluationCostLimit (lm_evaluation_cost limits))) (\<lambda>_.
           Ok spent))"

definition inverse_cost :: nat where "inverse_cost = 256"

definition load_cost :: nat where "load_cost = 1"

fun record_cost :: "node_record \<Rightarrow> nat" where
  "record_cost (RInput _) = load_cost"
| "record_cost (RConstant _) = load_cost"
| "record_cost (ROperation operation _ _) = operation_cost operation"
| "record_cost (RInverse _) = inverse_cost"

fun materialize :: "nat \<Rightarrow> node_record \<Rightarrow> (node, witness_error) result" where
  "materialize index (RInput input) = Ok (GInput input)"
| "materialize index (RConstant encoded) = rbind (constant_from_bytes encoded index) (\<lambda>v. Ok (GConstant v))"
| "materialize index (ROperation operation left right) = Ok (GOperation operation left right)"
| "materialize index (RInverse source) = Ok (GInverse source)"

definition parse_node ::
    "limits \<Rightarrow> header \<Rightarrow> nat \<Rightarrow> byte list \<times> nat \<times> node list \<Rightarrow> (byte list \<times> nat \<times> node list, witness_error) result" where
  "parse_node limits header index = (\<lambda>(bs, spent, nodes).
     rbind (read_node_record (hd_version header) index (hd_input_buffer_len header) bs) (\<lambda>(record, bs).
     rbind (cost_charge limits (record_cost record) spent) (\<lambda>spent.
     rbind (materialize index record) (\<lambda>node. Ok (bs, spent, nodes @ [node])))))"

definition parse_graph :: "byte list \<Rightarrow> limits \<Rightarrow> (witness_graph, witness_error) result" where
  "parse_graph bytes limits =
     rbind (read_header limits bytes) (\<lambda>(header, bs).
     rbind (preflight_body_size header (length bs)) (\<lambda>_.
     rbind (rfold [0..<hd_node_count header] (parse_node limits header) (bs, 0, [])) (\<lambda>(bs, spent, nodes).
     rbind (read_output_references header bs) (\<lambda>(signals, bs).
     rbind (read_input_mappings header bs) (\<lambda>(input_mapping, bs).
     rbind (guard (bs \<noteq> []) GraphTrailingBytes) (\<lambda>_.
       Ok \<lparr>wg_limits = limits, wg_nodes = nodes, wg_signals = signals, wg_input_mapping = input_mapping,
           wg_input_buffer_len = hd_input_buffer_len header, wg_r1cs_sha256 = hd_r1cs_sha256 header,
           wg_magic = hd_magic header,
           wg_format_version = (case hd_version header of V1 \<Rightarrow> format_version_v1 | V2 \<Rightarrow> format_version_v2)\<rparr>))))))"

section \<open>Authentication\<close>

definition is_ascii_hexdigit :: "byte \<Rightarrow> bool" where
  "is_ascii_hexdigit b \<longleftrightarrow> (48 \<le> b \<and> b \<le> 57) \<or> (65 \<le> b \<and> b \<le> 70) \<or> (97 \<le> b \<and> b \<le> 102)"

definition to_ascii_lowercase :: "byte list \<Rightarrow> byte list" where
  "to_ascii_lowercase = map (\<lambda>b. if 65 \<le> b \<and> b \<le> 90 then b + 32 else b)"

definition verify_sha256 :: "(byte list \<Rightarrow> byte list) \<Rightarrow> byte list \<Rightarrow> byte list \<Rightarrow> (unit, witness_error) result" where
  "verify_sha256 sha bytes expected_sha256 =
     rbind (guard (length expected_sha256 \<noteq> 64 \<or> \<not> list_all is_ascii_hexdigit expected_sha256) InvalidExpectedHash) (\<lambda>_.
       let expected = to_ascii_lowercase expected_sha256;
           actual = to_hex (sha bytes)
       in guard (actual \<noteq> expected) (HashMismatch expected actual))"

definition zstd_magic :: "byte list" where
  "zstd_magic = [0x28, 0xb5, 0x2f, 0xfd]"

definition is_zstd_artifact :: "byte list \<Rightarrow> bool" where
  "is_zstd_artifact bytes \<longleftrightarrow> 4 \<le> length bytes \<and> nat_of_le (take 4 bytes) = nat_of_le zstd_magic"

datatype artifact = ArtifactRaw | ArtifactZstd

definition authenticate ::
    "(byte list \<Rightarrow> byte list) \<Rightarrow> byte list \<Rightarrow> byte list \<Rightarrow> limits \<Rightarrow> (artifact, witness_error) result" where
  "authenticate sha bytes expected_sha256 limits =
     (if is_zstd_artifact bytes
      then rbind (guard (lm_compressed_graph_bytes limits < length bytes)
               (CompressedGraphTooLarge (lm_compressed_graph_bytes limits))) (\<lambda>_.
           rbind (verify_sha256 sha bytes expected_sha256) (\<lambda>_. Ok ArtifactZstd))
      else rbind (guard (lm_graph_bytes limits < length bytes) (GraphTooLarge (lm_graph_bytes limits))) (\<lambda>_.
           rbind (verify_sha256 sha bytes expected_sha256) (\<lambda>_. Ok ArtifactRaw)))"

text \<open>
  What the streaming decoder reports: the declared size, the outcome of each read until
  the first empty one, the checksums, and the position it reached in the source.
\<close>

record zstd_stream =
  zs_content_size :: nat
  zs_reads :: "byte list option list"
  zs_checksum :: "nat option"
  zs_calculated :: "nat option"
  zs_position :: nat

datatype zstd_open = ZstdOpen zstd_stream | ZstdWindow nat | ZstdNoDictionary | ZstdFailed

definition open_zstd ::
    "(byte list \<Rightarrow> nat \<Rightarrow> zstd_open) \<Rightarrow> byte list \<Rightarrow> nat \<Rightarrow> (zstd_stream, witness_error) result" where
  "open_zstd zstd bytes maximum_window =
     (case zstd bytes maximum_window of
        ZstdOpen stream \<Rightarrow> Ok stream
      | ZstdWindow requested \<Rightarrow> Err (ZstdWindowTooLarge requested maximum_window)
      | ZstdNoDictionary \<Rightarrow> Err ZstdDictionaryUnsupported
      | ZstdFailed \<Rightarrow> Err InvalidZstd)"

fun decompress_loop :: "nat \<Rightarrow> nat \<Rightarrow> byte list option list \<Rightarrow> byte list \<Rightarrow> (byte list, witness_error) result" where
  "decompress_loop maximum_output declared_size [] decoded = Ok decoded"
| "decompress_loop maximum_output declared_size (r # rs) decoded =
     rbind (ok_or r InvalidZstd) (\<lambda>chunk.
       if length chunk = 0 then Ok decoded
       else
         rbind (ok_or (case checked_add (length decoded) (length chunk) of
               Some len \<Rightarrow> if len \<le> maximum_output then Some len else None | None \<Rightarrow> None)
             (ZstdOutputTooLarge maximum_output)) (\<lambda>required.
         rbind (guard (declared_size \<noteq> 0 \<and> declared_size < required) InvalidZstd) (\<lambda>_.
           decompress_loop maximum_output declared_size rs (decoded @ chunk))))"

definition finish_zstd :: "zstd_stream \<Rightarrow> byte list \<Rightarrow> (unit, witness_error) result" where
  "finish_zstd stream bytes =
     rbind (guard (case zs_checksum stream of
           Some expected \<Rightarrow> zs_calculated stream \<noteq> Some expected | None \<Rightarrow> False) ZstdChecksumMismatch) (\<lambda>_.
     guard (zs_position stream \<noteq> length bytes) ZstdTrailingData)"

definition decompress_graph_with_limits ::
    "(byte list \<Rightarrow> nat \<Rightarrow> zstd_open) \<Rightarrow> byte list \<Rightarrow> nat \<Rightarrow> nat \<Rightarrow> (byte list, witness_error) result" where
  "decompress_graph_with_limits zstd bytes maximum_output maximum_window =
     rbind (open_zstd zstd bytes maximum_window) (\<lambda>stream.
       let declared_size = zs_content_size stream in
     rbind (guard (maximum_output < declared_size) (ZstdOutputTooLarge maximum_output)) (\<lambda>_.
     rbind (decompress_loop maximum_output declared_size (zs_reads stream) []) (\<lambda>decoded.
     rbind (guard (declared_size \<noteq> 0 \<and> length decoded \<noteq> declared_size) InvalidZstd) (\<lambda>_.
     rbind (finish_zstd stream bytes) (\<lambda>_. Ok decoded)))))"

definition decompress_graph ::
    "(byte list \<Rightarrow> nat \<Rightarrow> zstd_open) \<Rightarrow> byte list \<Rightarrow> limits \<Rightarrow> (byte list, witness_error) result" where
  "decompress_graph zstd bytes limits =
     decompress_graph_with_limits zstd bytes (lm_graph_bytes limits) (lm_zstd_window_bytes limits)"

definition graph_from_bytes ::
    "(byte list \<Rightarrow> byte list) \<Rightarrow> (byte list \<Rightarrow> nat \<Rightarrow> zstd_open) \<Rightarrow> byte list \<Rightarrow> byte list \<Rightarrow> limits \<Rightarrow>
     (witness_graph, witness_error) result" where
  "graph_from_bytes sha zstd bytes expected_sha256 limits =
     rbind (authenticate sha bytes expected_sha256 limits) (\<lambda>artifact.
       case artifact of
         ArtifactRaw \<Rightarrow> parse_graph bytes limits
       | ArtifactZstd \<Rightarrow> rbind (decompress_graph zstd bytes limits) (\<lambda>bytes. parse_graph bytes limits))"

end
