(* ===== verification/Graph_Eval.thy ===== *)
theory Graph_Eval
  imports Graph_Wire Babyjubjub
begin

text \<open>
  Evaluation of a parsed graph (\<open>crates/witness/src/lib.rs\<close>): the 23 field operations, the
  decoding of circuit inputs from JSON (\<open>crates/witness/src/input.rs\<close>) and the run over the
  nodes.  The JSON decoder is third-party: \<open>decode\<close> gives the values it reports in order,
  with a malformed or unclosed part where it stops with a syntax error.
\<close>

section \<open>Operations\<close>

datatype ordering = Less | Equal | Greater

definition cmp_nat :: "nat \<Rightarrow> nat \<Rightarrow> ordering" where
  "cmp_nat a b = (if a < b then Less else if a = b then Equal else Greater)"

definition compare_balanced :: "fr \<Rightarrow> fr \<Rightarrow> ordering" where
  "compare_balanced left right =
     (let left_integer = fr_rep left; right_integer = fr_rep right; half = drop_bit 1 fr_modulus
      in case (half < left_integer, half < right_integer) of
           (False, True) \<Rightarrow> Greater
         | (True, False) \<Rightarrow> Less
         | (False, False) \<Rightarrow> cmp_nat left_integer right_integer
         | (True, True) \<Rightarrow> cmp_nat (fr_rep (- right)) (fr_rep (- left)))"

text \<open>A \<open>BigInt<4>\<close> is 256 bits wide; reading it back into the field reduces it.\<close>

type_synonym bigint = "256 word"

definition into_bigint :: "fr \<Rightarrow> bigint" where
  "into_bigint x = of_nat (fr_rep x)"

definition bigint_to_field :: "bigint \<Rightarrow> fr" where
  "bigint_to_field v = fr_of_nat (unat v)"

definition limb :: "bigint \<Rightarrow> nat \<Rightarrow> nat" where
  "limb v i = unat v div 2 ^ (64 * i) mod 2 ^ 64"

definition shift_field :: "nat \<Rightarrow> fr \<Rightarrow> fr \<Rightarrow> bool \<Rightarrow> (fr, witness_error) result" where
  "shift_field index left right is_left =
     (let shift = into_bigint right
      in rbind (guard (list_ex (\<lambda>i. limb shift i \<noteq> 0) [1, 2, 3] \<or> 256 \<le> limb shift 0) (InvalidShift index)) (\<lambda>_.
         let shift = limb shift 0;
             value = (if is_left then push_bit shift (into_bigint left) AND mask 254
                      else drop_bit shift (into_bigint left))
         in Ok (bigint_to_field value)))"

definition bool_field :: "bool \<Rightarrow> fr" where
  "bool_field b = (if b then 1 else 0)"

definition integer_division :: "nat \<Rightarrow> fr \<Rightarrow> fr \<Rightarrow> bool \<Rightarrow> (fr, witness_error) result" where
  "integer_division index left right is_mod =
     (let left = fr_rep left; right = fr_rep right
      in rbind (guard (right = 0) (DivisionByZero index)) (\<lambda>_.
           Ok (fr_of_nat (if is_mod then left mod right else left div right))))"

fun operation_evaluate :: "operation \<Rightarrow> nat \<Rightarrow> fr \<Rightarrow> fr \<Rightarrow> (fr, witness_error) result" where
  "operation_evaluate OpMul index left right = Ok (left * right)"
| "operation_evaluate OpMontgomeryMul index left right = Ok (left * right)"
| "operation_evaluate OpAdd index left right = Ok (left + right)"
| "operation_evaluate OpSub index left right = Ok (left - right)"
| "operation_evaluate OpEq index left right = Ok (bool_field (left = right))"
| "operation_evaluate OpNeq index left right = Ok (bool_field (left \<noteq> right))"
| "operation_evaluate OpLt index left right = Ok (bool_field (compare_balanced left right = Less))"
| "operation_evaluate OpGt index left right = Ok (bool_field (compare_balanced left right = Greater))"
| "operation_evaluate OpLeq index left right = Ok (bool_field (compare_balanced left right \<noteq> Greater))"
| "operation_evaluate OpGeq index left right = Ok (bool_field (compare_balanced left right \<noteq> Less))"
| "operation_evaluate OpLogicalOr index left right = Ok (bool_field (left \<noteq> 0 \<or> right \<noteq> 0))"
| "operation_evaluate OpLogicalAnd index left right = Ok (bool_field (left \<noteq> 0 \<and> right \<noteq> 0))"
| "operation_evaluate OpNeg index left right = Ok (- left)"
| "operation_evaluate OpInv index left right = ok_or (fr_inverse left) (DivisionByZero index)"
| "operation_evaluate OpDiv index left right =
     rbind (ok_or (fr_inverse right) (DivisionByZero index)) (\<lambda>i. Ok (left * i))"
| "operation_evaluate OpPow index left right = Ok (left ^ unat (into_bigint right))"
| "operation_evaluate OpShl index left right = shift_field index left right True"
| "operation_evaluate OpShr index left right = shift_field index left right False"
| "operation_evaluate OpBitAnd index left right = Ok (bigint_to_field (into_bigint left AND into_bigint right))"
| "operation_evaluate OpBitXor index left right = Ok (bigint_to_field (into_bigint left XOR into_bigint right))"
| "operation_evaluate OpBitOr index left right = Ok (bigint_to_field (into_bigint left OR into_bigint right))"
| "operation_evaluate OpMod index left right = integer_division index left right True"
| "operation_evaluate OpIntegerDiv index left right = integer_division index left right False"

section \<open>Circuit inputs\<close>

text \<open>
  The events of the JSON decoder: an unsigned or negative 64-bit integer, any other number
  (and whether it is zero), a string, an array or an object with a flag that says
  whether it was closed, and a malformed value.
\<close>

datatype json =
    JUnsigned nat
  | JSigned int
  | JFloat bool
  | JString "byte list"
  | JBool
  | JNull
  | JArray "json list" bool
  | JObject "(byte list \<times> json) list" bool
  | JMalformed

definition fnv1a :: "byte list \<Rightarrow> 64 word" where
  "fnv1a value = fold (\<lambda>byte hash. (hash XOR ucast byte) * 0x100000001B3) value 0xCBF29CE484222325"

definition max_echoed_name_bytes :: nat where
  "max_echoed_name_bytes = 128"

definition bounded_name :: "byte list \<Rightarrow> byte list" where
  "bounded_name name =
     (if length name \<le> max_echoed_name_bytes then name else map (\<lambda>c. of_nat (of_char c)) ''<oversized signal name>'')"

definition parse_chunk :: "byte list \<Rightarrow> fr \<Rightarrow> fr" where
  "parse_chunk chunk field =
     (let word = fold (\<lambda>b n. n * 10 + ucast (b - 48)) chunk (0 :: 64 word);
          scale = (if length chunk = 19 then fr_of_nat 10000000000000000000 else fr_of_nat (10 ^ length chunk))
      in field * scale + fr_of_nat (unat word))"

definition parse_field :: "byte list \<Rightarrow> fr option" where
  "parse_field value =
     (let (negative, digits) = (case value of c # d \<Rightarrow> if c = 45 then (True, d) else (False, value) | [] \<Rightarrow> (False, value))
      in if digits = [] \<or> \<not> list_all is_ascii_digit digits then None
         else let field = fold parse_chunk (chunks 19 digits) (fr_of_nat 0)
              in Some (if negative then - field else field))"

text \<open>The decoder of one signal: the slice it fills and the number of values pushed.\<close>

type_synonym fields = "fr list \<times> nat"

definition fields_push :: "fr \<Rightarrow> fields \<Rightarrow> (fields, witness_error) result" where
  "fields_push value = (\<lambda>(output, count).
     rbind (ok_or (get output count) InvalidInputJson) (\<lambda>_. Ok (output[count := value], count + 1)))"

fun visit_fields :: "json \<Rightarrow> fields \<Rightarrow> (fields, witness_error) result"
  and visit_seq :: "json list \<Rightarrow> bool \<Rightarrow> fields \<Rightarrow> (fields, witness_error) result" where
  "visit_fields (JString value) st = rbind (ok_or (parse_field value) InvalidInputJson) (\<lambda>v. fields_push v st)"
| "visit_fields (JUnsigned value) st = fields_push (fr_of_nat value) st"
| "visit_fields (JSigned value) st =
     (let field = fr_of_nat (nat \<bar>value\<bar>) in fields_push (if value < 0 then - field else field) st)"
| "visit_fields (JFloat is_zero) st = (if is_zero then fields_push (fr_of_nat 0) st else Err InvalidInputJson)"
| "visit_fields JBool st = Err InvalidInputJson"
| "visit_fields JNull st = Err InvalidInputJson"
| "visit_fields (JArray values closed) st = visit_seq values closed st"
| "visit_fields (JObject entries closed) st = Err InvalidInputJson"
| "visit_fields JMalformed st = Err InvalidInputJson"
| "visit_seq [] closed st = (if closed then Ok st else Err InvalidInputJson)"
| "visit_seq (value # values) closed st = rbind (visit_fields value st) (visit_seq values closed)"

definition visit_entry ::
    "input_mapping list \<Rightarrow> byte list \<times> json \<Rightarrow> fr list \<times> bool list \<Rightarrow> (fr list \<times> bool list, witness_error) result" where
  "visit_entry mappings = (\<lambda>(name, value) (values, matched).
     let hash = unat (fnv1a name) in
     rbind (ok_or (find (\<lambda>(index, m). im_hash m = hash) (enumerate 0 mappings)) (UnknownInput (bounded_name name)))
       (\<lambda>(index, mapping).
     rbind (idx matched index) (\<lambda>already.
     rbind (guard already InvalidInputJson) (\<lambda>_.
       let matched = matched[index := True];
           a = im_signal_id mapping; size = im_signal_size mapping
       in rbind (rassert (a + size \<le> length values)) (\<lambda>_.
          rbind (visit_fields value (take size (drop a values), 0)) (\<lambda>(output, count).
          rbind (guard (count \<noteq> size) (InputLength (bounded_name name) size count)) (\<lambda>_.
            Ok (take a values @ output @ drop (a + size) values, matched))))))))"

definition visit_input :: "input_mapping list \<Rightarrow> json \<Rightarrow> fr list \<times> bool list \<Rightarrow> (fr list \<times> bool list, witness_error) result" where
  "visit_input mappings json st =
     (case json of
        JObject entries closed \<Rightarrow>
          rbind (rfold entries (visit_entry mappings) st) (\<lambda>st. if closed then Ok st else Err InvalidInputJson)
      | _ \<Rightarrow> Err InvalidInputJson)"

text \<open>\<open>decode\<close> also says whether anything but white space follows the value.\<close>

definition build_input_buffer ::
    "(byte list \<Rightarrow> json \<times> bool) \<Rightarrow> input_mapping list \<Rightarrow> nat \<Rightarrow> byte list \<Rightarrow> limits \<Rightarrow> (fr list, witness_error) result" where
  "build_input_buffer decode mappings len json limits =
     rbind (guard (lm_input_json_bytes limits < length json) (InputTooLarge (lm_input_json_bytes limits))) (\<lambda>_.
       let values = replicate len (fr_of_nat 0) in
     rbind (idx values 0) (\<lambda>_.
       let values = values[0 := fr_of_nat 1];
           matched = replicate (length mappings) False;
           (value, ended) = decode json
       in rbind (visit_input mappings value (values, matched)) (\<lambda>(values, matched).
          rbind (guard (\<not> ended) InvalidInputJson) (\<lambda>_. Ok values))))"

section \<open>Evaluation\<close>

definition node_value :: "fr list \<Rightarrow> nat \<Rightarrow> node \<Rightarrow> fr list \<Rightarrow> (fr, witness_error) result" where
  "node_value inputs index node values =
     (case node of
        GInput input \<Rightarrow> idx inputs input
      | GConstant value \<Rightarrow> Ok value
      | GOperation operation left right \<Rightarrow>
          rbind (idx values left) (\<lambda>left. rbind (idx values right) (\<lambda>right. operation_evaluate operation index left right))
      | GInverse source \<Rightarrow> rbind (idx values source) (\<lambda>v. Ok (unwrap_or (fr_inverse v) 0)))"

definition evaluate_node :: "fr list \<Rightarrow> nat \<times> node \<Rightarrow> fr list \<Rightarrow> (fr list, witness_error) result" where
  "evaluate_node inputs = (\<lambda>(index, node) values.
     rbind (node_value inputs index node values) (\<lambda>value. Ok (values @ [value])))"

definition calculate_json_into ::
    "(byte list \<Rightarrow> json \<times> bool) \<Rightarrow> witness_graph \<Rightarrow> byte list \<Rightarrow> fr list \<Rightarrow> fr list \<Rightarrow>
     (fr list \<times> fr list, witness_error) result" where
  "calculate_json_into decode g input_json values assignment =
     rbind (build_input_buffer decode (wg_input_mapping g) (wg_input_buffer_len g) input_json (wg_limits g)) (\<lambda>inputs.
     rbind (rfold (enumerate 0 (wg_nodes g)) (evaluate_node inputs) values) (\<lambda>values.
     rbind (rmap (idx values) (wg_signals g)) (\<lambda>written.
       let assignment = assignment @ written
       in rbind (guard (get assignment 0 \<noteq> Some (fr_of_nat 1)) InvalidAssignmentOne) (\<lambda>_.
            Ok (values, assignment)))))"

definition calculate_json :: "(byte list \<Rightarrow> json \<times> bool) \<Rightarrow> witness_graph \<Rightarrow> byte list \<Rightarrow> (fr list, witness_error) result" where
  "calculate_json decode g input_json =
     rbind (calculate_json_into decode g input_json [] []) (\<lambda>(values, assignment). Ok assignment)"

record graph_metadata =
  gm_magic :: "byte list"
  gm_format_version :: nat
  gm_field_identifier :: nat
  gm_r1cs_sha256 :: "byte list"
  gm_node_count :: nat
  gm_signal_count :: nat
  gm_input_mapping_count :: nat
  gm_input_buffer_len :: nat

definition graph_metadata :: "witness_graph \<Rightarrow> graph_metadata" where
  "graph_metadata g =
     \<lparr>gm_magic = wg_magic g, gm_format_version = wg_format_version g, gm_field_identifier = field_bn254_fr,
      gm_r1cs_sha256 = wg_r1cs_sha256 g, gm_node_count = length (wg_nodes g), gm_signal_count = length (wg_signals g),
      gm_input_mapping_count = length (wg_input_mapping g), gm_input_buffer_len = wg_input_buffer_len g\<rparr>"

text \<open>
  A workspace (\<open>crates/witness/src/workspace.rs\<close>) lends its buffers to one calculation and is
  cleared when the lease ends, whatever the outcome.
\<close>

record witness_workspace =
  ww_values :: "fr list"
  ww_assignment :: "fr list"
  ww_limit :: nat

definition workspace_new :: "nat \<Rightarrow> witness_workspace" where
  "workspace_new max_retained_bytes = \<lparr>ww_values = [], ww_assignment = [], ww_limit = max_retained_bytes\<rparr>"

definition workspace_clear :: "witness_workspace \<Rightarrow> witness_workspace" where
  "workspace_clear w = w\<lparr>ww_values := [], ww_assignment := []\<rparr>"

definition with_lease ::
    "(fr list \<Rightarrow> fr list \<Rightarrow> (fr list \<times> fr list, 'e) result) \<Rightarrow> (fr list \<Rightarrow> 'a) \<Rightarrow> (witness_workspace, 'a, 'e) sm" where
  "with_lease calculate_into consume w =
     (rbind (calculate_into (ww_values w) (ww_assignment w)) (\<lambda>(values, assignment). Ok (consume assignment)),
      workspace_clear w)"

definition with_witness_json ::
    "(byte list \<Rightarrow> json \<times> bool) \<Rightarrow> witness_graph \<Rightarrow> byte list \<Rightarrow> (fr list \<Rightarrow> 'a) \<Rightarrow>
     (witness_workspace, 'a, witness_error) sm" where
  "with_witness_json decode g input_json consume = with_lease (calculate_json_into decode g input_json) consume"

end
