(* ===== verification/Sage.thy ===== *)
theory Sage
  imports Graph_Eval
begin

text \<open>
  SAGE, the slot-allocated evaluator (\<open>crates/witness/src/sage.rs\<close>): a graph is compiled into
  fixed-width instructions over value slots that are recycled as soon as the last
  reader of their content has run.  This theory holds the two-pass compiler and the
  evaluator.
\<close>

section \<open>Compiled graphs\<close>

datatype sage_kind = KInput | KConstant | KInverse | KOperation operation

record instruction =
  in_left :: nat
  in_right :: nat
  in_destination :: nat
  in_kind :: sage_kind

record output_write =
  ow_node :: nat
  ow_signal :: nat

record sage_graph =
  sg_limits :: limits
  sg_instructions :: "instruction list"
  sg_constants :: "fr list"
  sg_outputs :: "output_write list"
  sg_input_mapping :: "input_mapping list"
  sg_input_buffer_len :: nat
  sg_signal_count :: nat
  sg_slots :: nat
  sg_r1cs_sha256 :: "byte list"
  sg_source_graph_sha256 :: "byte list"

text \<open>The checked accesses \<open>at\<close>/\<open>slot\<close> and \<open>at_mut\<close>/\<open>slot_mut\<close>, and the cast \<open>as u32\<close>.\<close>

definition as_u32 :: "nat \<Rightarrow> nat" where
  "as_u32 n = n mod 2 ^ 32"

definition index_u32 :: "nat \<Rightarrow> string \<Rightarrow> (nat, witness_error) result" where
  "index_u32 n what = (if n < 2 ^ 32 then Ok n else Err (CompiledIndex what))"

definition sage_at :: "'a list \<Rightarrow> nat \<Rightarrow> string \<Rightarrow> ('a, witness_error) result" where
  "sage_at xs i what = ok_or (get xs i) (CompiledIndex what)"

definition sage_put :: "'a list \<Rightarrow> nat \<Rightarrow> string \<Rightarrow> 'a \<Rightarrow> ('a list, witness_error) result" where
  "sage_put xs i what x = (if i < length xs then Ok (xs[i := x]) else Err (CompiledIndex what))"

section \<open>Pass one: liveness\<close>

definition mark_use :: "nat \<Rightarrow> nat \<Rightarrow> nat list \<Rightarrow> (nat list, witness_error) result" where
  "mark_use index reference last_use = sage_put last_use reference ''node liveness'' (as_u32 index)"

definition mark_record :: "nat \<Rightarrow> node_record \<Rightarrow> nat list \<Rightarrow> (nat list, witness_error) result" where
  "mark_record index record last_use =
     (case record of
        ROperation operation left right \<Rightarrow> rbind (mark_use index left last_use) (mark_use index right)
      | RInverse source \<Rightarrow> mark_use index source last_use
      | _ \<Rightarrow> Ok last_use)"

definition liveness_node ::
    "limits \<Rightarrow> header \<Rightarrow> nat \<Rightarrow> byte list \<times> nat \<times> nat list \<Rightarrow> (byte list \<times> nat \<times> nat list, witness_error) result" where
  "liveness_node limits header index = (\<lambda>(bs, spent, last_use).
     rbind (read_node_record (hd_version header) index (hd_input_buffer_len header) bs) (\<lambda>(record, bs).
     rbind (cost_charge limits (record_cost record) spent) (\<lambda>spent.
     rbind (mark_record index record last_use) (\<lambda>last_use. Ok (bs, spent, last_use)))))"

definition sage_output :: "nat \<times> nat \<Rightarrow> (output_write, witness_error) result" where
  "sage_output = (\<lambda>(signal, node).
     rbind (index_u32 node ''output reference'') (\<lambda>node.
     rbind (index_u32 signal ''output signal'') (\<lambda>signal. Ok \<lparr>ow_node = node, ow_signal = signal\<rparr>)))"

definition output_key :: "output_write \<Rightarrow> nat \<times> nat" where
  "output_key w = (ow_node w, ow_signal w)"

section \<open>Pass two: slots\<close>

text \<open>The vector \<open>free_slots\<close> is used as a stack and kept with its last element first.\<close>

record allocation =
  al_instructions :: "instruction list"
  al_constants :: "fr list"
  al_node_slots :: "nat list"
  al_free_slots :: "nat list"
  al_slot_owner :: "nat list"

text \<open>The operands, the kind and the one or two references an instruction may release.\<close>

definition sage_operands ::
    "nat \<Rightarrow> node_record \<Rightarrow> allocation \<Rightarrow> ((nat \<times> nat \<times> sage_kind \<times> nat list) \<times> allocation, witness_error) result" where
  "sage_operands index record al =
     (case record of
        ROperation operation left right \<Rightarrow>
          rbind (sage_at (al_node_slots al) left ''left operand slot'') (\<lambda>l.
          rbind (sage_at (al_node_slots al) right ''right operand slot'') (\<lambda>r.
            Ok ((l, r, KOperation operation, left # (if left \<noteq> right then [right] else [])), al)))
      | RInput input \<Rightarrow> rbind (index_u32 input ''input index'') (\<lambda>input. Ok ((input, 0, KInput, []), al))
      | RConstant encoded \<Rightarrow>
          rbind (index_u32 (length (al_constants al)) ''constant index'') (\<lambda>constant_index.
          rbind (constant_from_bytes encoded index) (\<lambda>value.
            Ok ((constant_index, 0, KConstant, []), al\<lparr>al_constants := al_constants al @ [value]\<rparr>)))
      | RInverse source \<Rightarrow>
          rbind (sage_at (al_node_slots al) source ''inverse operand slot'') (\<lambda>s.
            Ok ((s, 0, KInverse, [source]), al)))"

definition release_operand :: "nat list \<Rightarrow> nat \<Rightarrow> nat \<Rightarrow> allocation \<Rightarrow> (allocation, witness_error) result" where
  "release_operand last_use index reference al =
     rbind (sage_at last_use reference ''operand liveness'') (\<lambda>last.
       if last = index
       then rbind (sage_at (al_node_slots al) reference ''released slot'') (\<lambda>slot.
              Ok (al\<lparr>al_free_slots := slot # al_free_slots al\<rparr>))
       else Ok al)"

definition choose_destination :: "nat list \<Rightarrow> nat \<Rightarrow> allocation \<Rightarrow> (nat \<times> allocation, witness_error) result" where
  "choose_destination last_use index al =
     (case al_free_slots al of
        slot # free \<Rightarrow>
          rbind (sage_at (al_slot_owner al) slot ''recycled slot owner'') (\<lambda>owner.
          rbind (sage_at last_use owner ''recycled slot liveness'') (\<lambda>last.
          rbind (guard (index < last) (SageInvariant ''recycled a slot that is still live'')) (\<lambda>_.
          rbind (sage_put (al_slot_owner al) slot ''recycled slot owner'' (as_u32 index)) (\<lambda>owners.
            Ok (slot, al\<lparr>al_free_slots := free, al_slot_owner := owners\<rparr>)))))
      | [] \<Rightarrow>
          rbind (index_u32 (length (al_slot_owner al)) ''slot count'') (\<lambda>slot.
            Ok (slot, al\<lparr>al_slot_owner := al_slot_owner al @ [as_u32 index]\<rparr>)))"

definition allocate_node ::
    "header \<Rightarrow> nat list \<Rightarrow> nat \<Rightarrow> byte list \<times> allocation \<Rightarrow> (byte list \<times> allocation, witness_error) result" where
  "allocate_node header last_use index = (\<lambda>(bs, al).
     rbind (read_node_record (hd_version header) index (hd_input_buffer_len header) bs) (\<lambda>(record, bs).
     rbind (sage_operands index record al) (\<lambda>((left, right, kind, released), al).
     rbind (rfold released (release_operand last_use index) al) (\<lambda>al.
     rbind (choose_destination last_use index al) (\<lambda>(destination, al).
     rbind (sage_put (al_node_slots al) index ''destination slot'' destination) (\<lambda>node_slots.
       let al = al\<lparr>al_node_slots := node_slots,
             al_instructions := al_instructions al @
               [\<lparr>in_left = left, in_right = right, in_destination = destination, in_kind = kind\<rparr>]\<rparr>
       in rbind (sage_at last_use index ''node liveness'') (\<lambda>last.
            Ok (bs, if last = index then al\<lparr>al_free_slots := destination # al_free_slots al\<rparr> else al))))))))"

definition compile :: "byte list \<Rightarrow> limits \<Rightarrow> byte list \<Rightarrow> (sage_graph, witness_error) result" where
  "compile bytes limits source_graph_sha256 =
     rbind (read_header limits bytes) (\<lambda>(header, bs).
     rbind (preflight_body_size header (length bs)) (\<lambda>_.
       let last_use = map as_u32 [0..<hd_node_count header] in
     rbind (rfold [0..<hd_node_count header] (liveness_node limits header) (bs, 0, last_use)) (\<lambda>(bs, spent, last_use).
       let node_section_end = length bs in
     rbind (read_output_references header bs) (\<lambda>(signals, bs).
     rbind (read_input_mappings header bs) (\<lambda>(input_mapping, bs).
     rbind (guard (bs \<noteq> []) GraphTrailingBytes) (\<lambda>_.
     rbind (rmap sage_output (enumerate 0 signals)) (\<lambda>outputs.
       let outputs = sort_key output_key outputs in
     rbind (read_header limits bytes) (\<lambda>(_, bs).
     rbind (rfold [0..<hd_node_count header] (allocate_node header last_use)
         (bs, \<lparr>al_instructions = [], al_constants = [], al_node_slots = replicate (hd_node_count header) 0,
               al_free_slots = [], al_slot_owner = []\<rparr>)) (\<lambda>(bs, al).
     rbind (guard (length bs \<noteq> node_section_end)
         (SageInvariant ''the two decode passes disagreed on the node section'')) (\<lambda>_.
       Ok \<lparr>sg_limits = limits, sg_instructions = al_instructions al, sg_constants = al_constants al,
           sg_outputs = outputs, sg_input_mapping = input_mapping,
           sg_input_buffer_len = hd_input_buffer_len header, sg_signal_count = hd_signal_count header,
           sg_slots = length (al_slot_owner al), sg_r1cs_sha256 = hd_r1cs_sha256 header,
           sg_source_graph_sha256 = source_graph_sha256\<rparr>))))))))))"

section \<open>Evaluation\<close>

definition instruction_value ::
    "sage_graph \<Rightarrow> fr list \<Rightarrow> nat \<Rightarrow> instruction \<Rightarrow> fr list \<Rightarrow> (fr, witness_error) result" where
  "instruction_value g inputs index instr values =
     (case in_kind instr of
        KInput \<Rightarrow> sage_at inputs (in_left instr) ''input''
      | KConstant \<Rightarrow> sage_at (sg_constants g) (in_left instr) ''constant''
      | KInverse \<Rightarrow> rbind (sage_at values (in_left instr) ''inverse source'') (\<lambda>v. Ok (unwrap_or (fr_inverse v) 0))
      | KOperation operation \<Rightarrow>
          rbind (sage_at values (in_left instr) ''left source'') (\<lambda>left.
          rbind (sage_at values (in_right instr) ''right source'') (\<lambda>right.
            operation_evaluate operation index left right)))"

function write_outputs ::
    "output_write list \<Rightarrow> nat \<Rightarrow> fr \<Rightarrow> fr list \<Rightarrow> nat \<Rightarrow> (fr list \<times> nat, witness_error) result" where
  "write_outputs outputs index value assignment output_index =
     (case get outputs output_index of
        Some output \<Rightarrow>
          if ow_node output = index
          then rbind (sage_put assignment (ow_signal output) ''output signal'' value) (\<lambda>assignment.
                 write_outputs outputs index value assignment (output_index + 1))
          else Ok (assignment, output_index)
      | None \<Rightarrow> Ok (assignment, output_index))"
  by pat_completeness auto
termination
  by (relation "measure (\<lambda>(outputs, index, value, assignment, output_index). length outputs - output_index)")
    (auto simp: get_Some_iff)

declare write_outputs.simps [simp del]

definition run_instruction ::
    "sage_graph \<Rightarrow> fr list \<Rightarrow> nat \<times> instruction \<Rightarrow> fr list \<times> fr list \<times> nat \<Rightarrow>
     (fr list \<times> fr list \<times> nat, witness_error) result" where
  "run_instruction g inputs = (\<lambda>(index, instr) (values, assignment, output_index).
     rbind (instruction_value g inputs index instr values) (\<lambda>value.
     rbind (sage_put values (in_destination instr) ''destination'' value) (\<lambda>values.
     rbind (write_outputs (sg_outputs g) index value assignment output_index) (\<lambda>(assignment, output_index).
       Ok (values, assignment, output_index)))))"

definition sage_calculate_json_into ::
    "(byte list \<Rightarrow> json \<times> bool) \<Rightarrow> sage_graph \<Rightarrow> byte list \<Rightarrow> fr list \<Rightarrow> fr list \<Rightarrow>
     (fr list \<times> fr list, witness_error) result" where
  "sage_calculate_json_into decode g input_json values assignment =
     rbind (build_input_buffer decode (sg_input_mapping g) (sg_input_buffer_len g) input_json (sg_limits g)) (\<lambda>inputs.
       let values = resize values (sg_slots g) (fr_of_nat 0);
           assignment = resize assignment (sg_signal_count g) (fr_of_nat 0) in
     rbind (rfold (enumerate 0 (sg_instructions g)) (run_instruction g inputs) (values, assignment, 0))
         (\<lambda>(values, assignment, output_index).
     rbind (guard (output_index \<noteq> length (sg_outputs g)) (CompiledIndex ''output write'')) (\<lambda>_.
     rbind (guard (get assignment 0 \<noteq> Some (fr_of_nat 1)) InvalidAssignmentOne) (\<lambda>_. Ok (values, assignment)))))"

definition sage_calculate_json ::
    "(byte list \<Rightarrow> json \<times> bool) \<Rightarrow> sage_graph \<Rightarrow> byte list \<Rightarrow> (fr list, witness_error) result" where
  "sage_calculate_json decode g input_json =
     rbind (sage_calculate_json_into decode g input_json [] []) (\<lambda>(values, assignment). Ok assignment)"

definition sage_with_witness_json ::
    "(byte list \<Rightarrow> json \<times> bool) \<Rightarrow> sage_graph \<Rightarrow> byte list \<Rightarrow> (fr list \<Rightarrow> 'a) \<Rightarrow>
     (witness_workspace, 'a, witness_error) sm" where
  "sage_with_witness_json decode g input_json consume = with_lease (sage_calculate_json_into decode g input_json) consume"

end
