(* ===== verification/Sage_Program.thy ===== *)
theory Sage_Program
  imports Sage
begin

text \<open>
  The serialized form \<open>SAGEPC01\<close> of a compiled program (\<open>crates/witness/src/sage.rs\<close>): the encoder,
  the decoder with its validation, and the authenticated entry points.  A reader of
  program bytes keeps the bytes that remain; a compressed program is the stream of what its
  decoder yields, which may end with an error.
\<close>

definition program_magic :: "byte list" where
  "program_magic = [83, 65, 71, 69, 80, 67, 48, 49]"

definition program_version :: nat where "program_version = 1"
definition program_header_bytes :: nat where "program_header_bytes = 108"
definition program_instruction_bytes :: nat where "program_instruction_bytes = 16"
definition program_constant_bytes :: nat where "program_constant_bytes = 32"
definition program_output_bytes :: nat where "program_output_bytes = 8"
definition program_input_mapping_bytes :: nat where "program_input_mapping_bytes = 16"

fun operation_tag :: "operation \<Rightarrow> nat" where
  "operation_tag OpMul = 0" | "operation_tag OpMontgomeryMul = 1" | "operation_tag OpAdd = 2"
| "operation_tag OpSub = 3" | "operation_tag OpEq = 4" | "operation_tag OpNeq = 5" | "operation_tag OpLt = 6"
| "operation_tag OpGt = 7" | "operation_tag OpLeq = 8" | "operation_tag OpGeq = 9"
| "operation_tag OpLogicalOr = 10" | "operation_tag OpShl = 11" | "operation_tag OpShr = 12"
| "operation_tag OpBitAnd = 13" | "operation_tag OpNeg = 14" | "operation_tag OpInv = 15"
| "operation_tag OpDiv = 16" | "operation_tag OpMod = 17" | "operation_tag OpPow = 18"
| "operation_tag OpLogicalAnd = 19" | "operation_tag OpIntegerDiv = 20" | "operation_tag OpBitXor = 21"
| "operation_tag OpBitOr = 22"

definition program_size :: "nat \<Rightarrow> nat \<Rightarrow> nat \<Rightarrow> nat \<Rightarrow> (nat, witness_error) result" where
  "program_size instructions constants outputs mappings =
     rbind (ok_or (checked_mul instructions program_instruction_bytes) (InvalidSageProgram ''size overflow'')) (\<lambda>i.
     ok_or (Option.bind (checked_add program_header_bytes i) (\<lambda>size.
            Option.bind (Option.bind (checked_mul constants program_constant_bytes) (checked_add size)) (\<lambda>size.
            Option.bind (Option.bind (checked_mul outputs program_output_bytes) (checked_add size)) (\<lambda>size.
            Option.bind (checked_mul mappings program_input_mapping_bytes) (checked_add size)))))
       (InvalidSageProgram ''size overflow''))"

definition check_count :: "string \<Rightarrow> nat \<Rightarrow> nat \<Rightarrow> (unit, witness_error) result" where
  "check_count section actual maximum = guard (maximum < actual) (CountLimit section actual maximum)"

text \<open>\<open>u8::from_str_radix\<close> on two hexadecimal digits.\<close>

definition hex_digit_value :: "byte \<Rightarrow> byte" where
  "hex_digit_value b = (if b \<le> 57 then b - 48 else if b \<le> 70 then b - 55 else b - 87)"

definition decode_sha256 :: "byte list \<Rightarrow> (byte list, witness_error) result" where
  "decode_sha256 value =
     rbind (guard (length value \<noteq> 64 \<or> \<not> list_all is_ascii_hexdigit value) InvalidExpectedHash) (\<lambda>_.
       Ok (map (\<lambda>i. 16 * hex_digit_value (value ! (2 * i)) + hex_digit_value (value ! (2 * i + 1))) [0..<32]))"

section \<open>The encoder\<close>

definition encode_kind :: "sage_kind \<Rightarrow> nat \<times> nat" where
  "encode_kind kind =
     (case kind of KInput \<Rightarrow> (0, 0) | KConstant \<Rightarrow> (1, 0) | KInverse \<Rightarrow> (2, 0)
      | KOperation operation \<Rightarrow> (3, operation_tag operation))"

definition encode_instruction :: "instruction \<Rightarrow> byte list" where
  "encode_instruction instr =
     (let (kind, operation) = encode_kind (in_kind instr)
      in nat_to_le 4 (in_left instr) @ nat_to_le 4 (in_right instr) @ nat_to_le 4 (in_destination instr) @
         [of_nat kind, of_nat operation] @ nat_to_le 2 0)"

definition encode_constant :: "fr \<Rightarrow> (byte list, witness_error) result" where
  "encode_constant c =
     (let encoded = sf_to_le_bytes c
      in rbind (guard (length encoded \<noteq> program_constant_bytes) (SageInvariant ''BN254 scalar serialization changed width''))
           (\<lambda>_. Ok encoded))"

definition encode_output :: "output_write \<Rightarrow> byte list" where
  "encode_output w = nat_to_le 4 (ow_node w) @ nat_to_le 4 (ow_signal w)"

definition encode_mapping :: "input_mapping \<Rightarrow> (byte list, witness_error) result" where
  "encode_mapping m =
     rbind (index_u32 (im_signal_id m) ''input signal id'') (\<lambda>signal_id.
     rbind (index_u32 (im_signal_size m) ''input signal size'') (\<lambda>signal_size.
       Ok (nat_to_le 8 (im_hash m) @ nat_to_le 4 signal_id @ nat_to_le 4 signal_size)))"

definition encode_program :: "sage_graph \<Rightarrow> (byte list, witness_error) result" where
  "encode_program g =
     rbind (index_u32 (length (sg_instructions g)) ''instruction count'') (\<lambda>instruction_count.
     rbind (index_u32 (length (sg_constants g)) ''constant count'') (\<lambda>constant_count.
     rbind (index_u32 (length (sg_outputs g)) ''output count'') (\<lambda>output_count.
     rbind (index_u32 (length (sg_input_mapping g)) ''input mapping count'') (\<lambda>mapping_count.
     rbind (index_u32 (sg_input_buffer_len g) ''input buffer length'') (\<lambda>input_buffer_len.
     rbind (index_u32 (sg_signal_count g) ''signal count'') (\<lambda>signal_count.
     rbind (index_u32 (sg_slots g) ''slot count'') (\<lambda>slots.
     rbind (program_size (length (sg_instructions g)) (length (sg_constants g)) (length (sg_outputs g))
         (length (sg_input_mapping g))) (\<lambda>size.
     rbind (guard (lm_sage_program_bytes (sg_limits g) < size) (SageProgramTooLarge (lm_sage_program_bytes (sg_limits g)))) (\<lambda>_.
       let bytes = program_magic @ nat_to_le 4 program_version @ nat_to_le 4 program_header_bytes @
             sg_source_graph_sha256 g @ sg_r1cs_sha256 g @
             concat (map (nat_to_le 4) [instruction_count, constant_count, output_count, mapping_count,
                input_buffer_len, signal_count, slots]) @
             concat (map encode_instruction (sg_instructions g)) in
     rbind (rmap encode_constant (sg_constants g)) (\<lambda>constants.
     rbind (rmap encode_mapping (sg_input_mapping g)) (\<lambda>mappings.
       let bytes = bytes @ concat constants @ concat (map encode_output (sg_outputs g)) @ concat mappings
       in rbind (guard (length bytes \<noteq> size) (SageInvariant ''compiled SAGE size calculation disagreed with encoder''))
            (\<lambda>_. Ok bytes))))))))))))"

section \<open>The reader\<close>

definition pr_array :: "nat \<Rightarrow> byte list rd" where
  "pr_array n bs = (if length bs < n then Err (InvalidSageProgram ''truncated'') else Ok (take n bs, drop n bs))"

definition pr_uint :: "nat \<Rightarrow> nat rd" where
  "pr_uint n bs = rbind (pr_array n bs) (\<lambda>(v, bs). Ok (nat_of_le v, bs))"

text \<open>Whether the source is at its end; \<open>sound\<close> says that it ends without an error.\<close>

definition pr_is_empty :: "bool \<Rightarrow> byte list \<Rightarrow> (bool, witness_error) result" where
  "pr_is_empty sound bs =
     (if bs \<noteq> [] then Ok False else if sound then Ok True else Err (InvalidSageProgram ''could not finish decoding''))"

fun stream_bytes :: "byte list option list \<Rightarrow> byte list \<times> bool" where
  "stream_bytes [] = ([], True)"
| "stream_bytes (None # rs) = ([], False)"
| "stream_bytes (Some chunk # rs) =
     (if chunk = [] then ([], True) else case stream_bytes rs of (bs, sound) \<Rightarrow> (chunk @ bs, sound))"

section \<open>The decoder\<close>

record program_header =
  ph_source_graph_sha256 :: "byte list"
  ph_r1cs_sha256 :: "byte list"
  ph_instruction_count :: nat
  ph_constant_count :: nat
  ph_output_count :: nat
  ph_input_mapping_count :: nat
  ph_input_buffer_len :: nat
  ph_signal_count :: nat
  ph_slots :: nat

definition read_program_header :: "byte list \<Rightarrow> program_header rd" where
  "read_program_header expected_source_graph_sha256 bs =
     rbind (pr_array 8 bs) (\<lambda>(magic, bs).
     rbind (guard (magic \<noteq> program_magic) (InvalidSageProgram ''invalid header'')) (\<lambda>_.
     rbind (pr_uint 4 bs) (\<lambda>(version, bs).
     rbind (guard (version \<noteq> program_version) (InvalidSageProgram ''unsupported version'')) (\<lambda>_.
     rbind (pr_uint 4 bs) (\<lambda>(size, bs).
     rbind (guard (size \<noteq> program_header_bytes) (InvalidSageProgram ''unsupported version'')) (\<lambda>_.
     rbind (pr_array 32 bs) (\<lambda>(source, bs).
     rbind (decode_sha256 expected_source_graph_sha256) (\<lambda>expected_source.
     rbind (guard (source \<noteq> expected_source) (SageSourceHashMismatch (to_hex expected_source) (to_hex source))) (\<lambda>_.
     rbind (pr_array 32 bs) (\<lambda>(r1cs, bs).
     rbind (pr_uint 4 bs) (\<lambda>(instruction_count, bs).
     rbind (pr_uint 4 bs) (\<lambda>(constant_count, bs).
     rbind (pr_uint 4 bs) (\<lambda>(output_count, bs).
     rbind (pr_uint 4 bs) (\<lambda>(input_mapping_count, bs).
     rbind (pr_uint 4 bs) (\<lambda>(input_buffer_len, bs).
     rbind (pr_uint 4 bs) (\<lambda>(signal_count, bs).
     rbind (pr_uint 4 bs) (\<lambda>(slots, bs).
       Ok (\<lparr>ph_source_graph_sha256 = source, ph_r1cs_sha256 = r1cs, ph_instruction_count = instruction_count,
            ph_constant_count = constant_count, ph_output_count = output_count,
            ph_input_mapping_count = input_mapping_count, ph_input_buffer_len = input_buffer_len,
            ph_signal_count = signal_count, ph_slots = slots\<rparr>, bs))))))))))))))))))"

definition check_dimensions :: "limits \<Rightarrow> program_header \<Rightarrow> (unit, witness_error) result" where
  "check_dimensions limits h =
     rbind (check_count ''instructions'' (ph_instruction_count h) (lm_nodes limits)) (\<lambda>_.
     rbind (check_count ''constants'' (ph_constant_count h) (lm_nodes limits)) (\<lambda>_.
     rbind (check_count ''outputs'' (ph_output_count h) (lm_signals limits)) (\<lambda>_.
     rbind (check_count ''input mappings'' (ph_input_mapping_count h) (lm_input_mappings limits)) (\<lambda>_.
     rbind (check_count ''input buffer'' (ph_input_buffer_len h) (lm_input_values limits)) (\<lambda>_.
     rbind (check_count ''signals'' (ph_signal_count h) (lm_signals limits)) (\<lambda>_.
       guard (ph_instruction_count h = 0 \<or> ph_input_buffer_len h = 0 \<or> ph_signal_count h = 0 \<or> ph_slots h = 0 \<or>
           ph_instruction_count h < ph_slots h \<or> ph_instruction_count h < ph_constant_count h \<or>
           ph_output_count h \<noteq> ph_signal_count h)
         (InvalidSageProgram ''invalid dimensions'')))))))"

text \<open>One instruction as it is on the wire, and the checks of its fields.\<close>

record raw_instruction =
  ri_left :: nat
  ri_right :: nat
  ri_destination :: nat
  ri_kind :: nat
  ri_operation :: nat
  ri_reserved :: nat

definition read_raw_instruction :: "nat \<Rightarrow> raw_instruction rd" where
  "read_raw_instruction index bs =
     rbind (pr_uint 4 bs) (\<lambda>(left, bs).
     rbind (pr_uint 4 bs) (\<lambda>(right, bs).
     rbind (pr_uint 4 bs) (\<lambda>(destination, bs).
     rbind (pr_uint 1 bs) (\<lambda>(kind, bs).
     rbind (pr_uint 1 bs) (\<lambda>(operation, bs).
     rbind (pr_uint 2 bs) (\<lambda>(reserved, bs).
       Ok (\<lparr>ri_left = left, ri_right = right, ri_destination = destination, ri_kind = kind,
            ri_operation = operation, ri_reserved = reserved\<rparr>, bs)))))))"

definition decode_kind :: "program_header \<Rightarrow> nat \<Rightarrow> raw_instruction \<Rightarrow> (sage_kind, witness_error) result" where
  "decode_kind h index r =
     (if ri_kind r = 0 \<and> ri_operation r = 0 \<and> ri_left r < ph_input_buffer_len h \<and> ri_right r = 0 then Ok KInput
      else if ri_kind r = 1 \<and> ri_operation r = 0 \<and> ri_left r < ph_constant_count h \<and> ri_right r = 0 then Ok KConstant
      else if ri_kind r = 2 \<and> ri_operation r = 0 \<and> ri_left r < ph_slots h \<and> ri_right r = 0 then Ok KInverse
      else if ri_kind r = 3 \<and> ri_left r < ph_slots h \<and> ri_right r < ph_slots h
      then rbind (operation_from_tag (ri_operation r) index) (\<lambda>operation. Ok (KOperation operation))
      else Err (InvalidSageProgram ''instruction operand is out of bounds''))"

definition kind_cost :: "sage_kind \<Rightarrow> nat" where
  "kind_cost kind =
     (case kind of KInput \<Rightarrow> load_cost | KConstant \<Rightarrow> load_cost | KInverse \<Rightarrow> inverse_cost
      | KOperation operation \<Rightarrow> operation_cost operation)"

definition reads_undefined_slot :: "bool list \<Rightarrow> instruction \<Rightarrow> (bool, witness_error) result" where
  "reads_undefined_slot defined_slots instr =
     (case in_kind instr of
        KInverse \<Rightarrow> rbind (idx defined_slots (in_left instr)) (\<lambda>d. Ok (\<not> d))
      | KOperation _ \<Rightarrow> rbind (idx defined_slots (in_left instr)) (\<lambda>d.
          if \<not> d then Ok True else rbind (idx defined_slots (in_right instr)) (\<lambda>d. Ok (\<not> d)))
      | _ \<Rightarrow> Ok False)"

definition check_instruction ::
    "limits \<Rightarrow> program_header \<Rightarrow> nat \<Rightarrow> raw_instruction \<Rightarrow> nat \<times> bool list \<times> instruction list \<Rightarrow>
     (nat \<times> bool list \<times> instruction list, witness_error) result" where
  "check_instruction limits h index r = (\<lambda>(spent, defined_slots, instructions).
     rbind (guard (ri_reserved r \<noteq> 0 \<or> ph_slots h \<le> ri_destination r) (InvalidSageProgram ''invalid instruction encoding'')) (\<lambda>_.
     rbind (decode_kind h index r) (\<lambda>kind.
     rbind (cost_charge limits (kind_cost kind) spent) (\<lambda>spent.
       let instr = \<lparr>in_left = ri_left r, in_right = ri_right r, in_destination = ri_destination r, in_kind = kind\<rparr> in
     rbind (reads_undefined_slot defined_slots instr) (\<lambda>undefined_slot.
     rbind (guard undefined_slot (InvalidSageProgram ''instruction reads a slot before it is written'')) (\<lambda>_.
     rbind (rassert (in_destination instr < length defined_slots)) (\<lambda>_.
       Ok (spent, defined_slots[in_destination instr := True], instructions @ [instr]))))))))"

definition decode_instruction ::
    "limits \<Rightarrow> program_header \<Rightarrow> nat \<Rightarrow> byte list \<times> nat \<times> bool list \<times> instruction list \<Rightarrow>
     (byte list \<times> nat \<times> bool list \<times> instruction list, witness_error) result" where
  "decode_instruction limits h index = (\<lambda>(bs, acc).
     rbind (read_raw_instruction index bs) (\<lambda>(r, bs). rbind (check_instruction limits h index r acc) (\<lambda>acc. Ok (bs, acc))))"

definition decode_constant :: "nat \<Rightarrow> byte list \<times> fr list \<Rightarrow> (byte list \<times> fr list, witness_error) result" where
  "decode_constant index = (\<lambda>(bs, constants).
     rbind (pr_array 32 bs) (\<lambda>(encoded, bs). rbind (constant_from_bytes encoded index) (\<lambda>c. Ok (bs, constants @ [c]))))"

definition read_output :: "nat \<Rightarrow> output_write rd" where
  "read_output index bs =
     rbind (pr_uint 4 bs) (\<lambda>(node, bs). rbind (pr_uint 4 bs) (\<lambda>(signal, bs). Ok (\<lparr>ow_node = node, ow_signal = signal\<rparr>, bs)))"

definition check_output ::
    "program_header \<Rightarrow> output_write \<Rightarrow> output_write list \<times> bool list \<times> (nat \<times> nat) option \<Rightarrow>
     (output_write list \<times> bool list \<times> (nat \<times> nat) option, witness_error) result" where
  "check_output h w = (\<lambda>(outputs, seen_signals, previous).
     rbind (if ph_instruction_count h \<le> ow_node w \<or> ph_signal_count h \<le> ow_signal w then Ok True
            else rbind (idx seen_signals (ow_signal w)) (\<lambda>seen.
              Ok (seen \<or> (case previous of Some p \<Rightarrow> output_key w < p | None \<Rightarrow> False)))) (\<lambda>invalid.
     rbind (guard invalid (InvalidSageProgram ''invalid output table'')) (\<lambda>_.
     rbind (rassert (ow_signal w < length seen_signals)) (\<lambda>_.
       Ok (outputs @ [w], seen_signals[ow_signal w := True], Some (output_key w))))))"

definition decode_output ::
    "program_header \<Rightarrow> nat \<Rightarrow> byte list \<times> output_write list \<times> bool list \<times> (nat \<times> nat) option \<Rightarrow>
     (byte list \<times> output_write list \<times> bool list \<times> (nat \<times> nat) option, witness_error) result" where
  "decode_output h index = (\<lambda>(bs, acc).
     rbind (read_output index bs) (\<lambda>(w, bs). rbind (check_output h w acc) (\<lambda>acc. Ok (bs, acc))))"

definition read_mapping :: "nat \<Rightarrow> input_mapping rd" where
  "read_mapping index bs =
     rbind (pr_uint 8 bs) (\<lambda>(hash, bs). rbind (pr_uint 4 bs) (\<lambda>(signal_id, bs). rbind (pr_uint 4 bs) (\<lambda>(signal_size, bs).
       Ok (\<lparr>im_hash = hash, im_signal_id = signal_id, im_signal_size = signal_size\<rparr>, bs))))"

definition check_mapping ::
    "nat \<Rightarrow> nat \<Rightarrow> input_mapping \<Rightarrow> input_mapping list \<times> nat set \<Rightarrow> (input_mapping list \<times> nat set, witness_error) result" where
  "check_mapping input_buffer_len index m = (\<lambda>(mappings, hashes).
     rbind (guard (im_hash m \<in> hashes) (DuplicateInputHash (im_hash m))) (\<lambda>_.
     rbind (guard (im_signal_id m = 0 \<or> im_signal_size m = 0 \<or>
         (case checked_add (im_signal_id m) (im_signal_size m) of None \<Rightarrow> True | Some e \<Rightarrow> input_buffer_len < e))
         (InputMappingRange index)) (\<lambda>_.
       Ok (mappings @ [m], insert (im_hash m) hashes))))"

definition decode_mapping ::
    "nat \<Rightarrow> nat \<Rightarrow> byte list \<times> input_mapping list \<times> nat set \<Rightarrow> (byte list \<times> input_mapping list \<times> nat set, witness_error) result" where
  "decode_mapping input_buffer_len index = (\<lambda>(bs, acc).
     rbind (read_mapping index bs) (\<lambda>(m, bs). rbind (check_mapping input_buffer_len index m acc) (\<lambda>acc. Ok (bs, acc))))"

definition decode_program ::
    "byte list \<times> bool \<Rightarrow> nat option \<Rightarrow> byte list \<Rightarrow> limits \<Rightarrow> (sage_graph, witness_error) result" where
  "decode_program source declared_size expected_source_graph_sha256 limits =
     (let (bs, sound) = source in
     rbind (read_program_header expected_source_graph_sha256 bs) (\<lambda>(h, bs).
     rbind (check_dimensions limits h) (\<lambda>_.
     rbind (program_size (ph_instruction_count h) (ph_constant_count h) (ph_output_count h) (ph_input_mapping_count h)) (\<lambda>expected_size.
     rbind (guard (lm_sage_program_bytes limits < expected_size) (SageProgramTooLarge (lm_sage_program_bytes limits))) (\<lambda>_.
     rbind (guard (case declared_size of Some declared \<Rightarrow> expected_size \<noteq> declared | None \<Rightarrow> False)
         (InvalidSageProgram ''size mismatch'')) (\<lambda>_.
     rbind (rfold [0..<ph_instruction_count h] (decode_instruction limits h) (bs, 0, replicate (ph_slots h) False, []))
         (\<lambda>(bs, spent, defined_slots, instructions).
     rbind (rfold [0..<ph_constant_count h] decode_constant (bs, [])) (\<lambda>(bs, constants).
     rbind (rfold [0..<ph_output_count h] (decode_output h) (bs, [], replicate (ph_signal_count h) False, None))
         (\<lambda>(bs, outputs, seen_signals, previous).
     rbind (guard (\<not> list_all id seen_signals) (InvalidSageProgram ''output table omits a signal'')) (\<lambda>_.
     rbind (rfold [0..<ph_input_mapping_count h] (decode_mapping (ph_input_buffer_len h)) (bs, [], {}))
         (\<lambda>(bs, mappings, hashes).
     rbind (check_input_ranges (map (\<lambda>m. (im_signal_id m, im_signal_size m)) mappings)) (\<lambda>_.
     rbind (pr_is_empty sound bs) (\<lambda>at_end.
     rbind (guard (\<not> at_end) (InvalidSageProgram ''trailing bytes'')) (\<lambda>_.
       Ok \<lparr>sg_limits = limits, sg_instructions = instructions, sg_constants = constants, sg_outputs = outputs,
           sg_input_mapping = mappings, sg_input_buffer_len = ph_input_buffer_len h,
           sg_signal_count = ph_signal_count h, sg_slots = ph_slots h, sg_r1cs_sha256 = ph_r1cs_sha256 h,
           sg_source_graph_sha256 = ph_source_graph_sha256 h\<rparr>))))))))))))))"

section \<open>Entry points\<close>

definition decode_compressed_program ::
    "(byte list \<Rightarrow> nat \<Rightarrow> zstd_open) \<Rightarrow> byte list \<Rightarrow> byte list \<Rightarrow> limits \<Rightarrow> (sage_graph, witness_error) result" where
  "decode_compressed_program zstd bytes expected_source_graph_sha256 limits =
     rbind (open_zstd zstd bytes (lm_zstd_window_bytes limits)) (\<lambda>stream.
     rbind (guard (lm_sage_program_bytes limits < zs_content_size stream) (ZstdOutputTooLarge (lm_sage_program_bytes limits))) (\<lambda>_.
       let declared_size = (if zs_content_size stream \<noteq> 0 then Some (zs_content_size stream) else None) in
     rbind (decode_program (stream_bytes (zs_reads stream)) declared_size expected_source_graph_sha256 limits) (\<lambda>graph.
     rbind (finish_zstd stream bytes) (\<lambda>_. Ok graph))))"

definition sage_from_compiled_bytes ::
    "(byte list \<Rightarrow> byte list) \<Rightarrow> (byte list \<Rightarrow> nat \<Rightarrow> zstd_open) \<Rightarrow> byte list \<Rightarrow> byte list \<Rightarrow> byte list \<Rightarrow> limits \<Rightarrow>
     (sage_graph, witness_error) result" where
  "sage_from_compiled_bytes sha zstd bytes expected_program_sha256 expected_source_graph_sha256 limits =
     rbind (guard (lm_sage_program_bytes limits < length bytes) (SageProgramTooLarge (lm_sage_program_bytes limits))) (\<lambda>_.
     rbind (verify_sha256 sha bytes expected_program_sha256) (\<lambda>_.
       if take 4 bytes = zstd_magic
       then decode_compressed_program zstd bytes expected_source_graph_sha256 limits
       else decode_program (bytes, True) (Some (length bytes)) expected_source_graph_sha256 limits))"

definition sage_from_bytes ::
    "(byte list \<Rightarrow> byte list) \<Rightarrow> (byte list \<Rightarrow> nat \<Rightarrow> zstd_open) \<Rightarrow> byte list \<Rightarrow> byte list \<Rightarrow> limits \<Rightarrow>
     (sage_graph, witness_error) result" where
  "sage_from_bytes sha zstd bytes expected_sha256 limits =
     rbind (decode_sha256 expected_sha256) (\<lambda>source_graph_sha256.
     rbind (authenticate sha bytes expected_sha256 limits) (\<lambda>artifact.
       case artifact of
         ArtifactRaw \<Rightarrow> compile bytes limits source_graph_sha256
       | ArtifactZstd \<Rightarrow> rbind (decompress_graph zstd bytes limits) (\<lambda>bytes. compile bytes limits source_graph_sha256)))"

end
