(* ===== verification/Graph_Parse.thy ===== *)
theory Graph_Parse
  imports Graph_Eval
begin

text \<open>
  What the parser of \<open>Graph_Wire\<close> guarantees: it never panics, and an accepted graph refers
  only to earlier nodes and existing inputs, has distinct input names whose ranges nest or
  are disjoint, and stays within its limits.  The loops over node records are factored
  through one relation, \<open>reads\<close>, that the compiler of \<open>Sage\<close> shares.
\<close>

section \<open>Reads do not panic\<close>

named_theorems rd_safe \<open>reads that never panic\<close>

lemma rd_take_eq: "rd_take n bs = (if length bs < n then Err GraphTruncated else Ok (take n bs, drop n bs))"
  by (simp add: rd_take_def)

lemma rd_take_safe [rd_safe]: "rd_take n bs \<noteq> Panic"
  by (simp add: rd_take_def)

lemma rd_u8_eq: "rd_u8 bs = (case bs of [] \<Rightarrow> Err GraphTruncated | b # bs \<Rightarrow> Ok (unat b, bs))"
  by (auto simp: rd_u8_def rd_take_def split: list.splits)

lemma rd_u8_safe [rd_safe]: "rd_u8 bs \<noteq> Panic"
  by (simp add: rd_u8_eq split: list.splits)

lemma rd_uint_safe [rd_safe]: "rd_uint n bs \<noteq> Panic" "rd_u16 bs \<noteq> Panic" "rd_u32 bs \<noteq> Panic" "rd_u64 bs \<noteq> Panic"
  by (simp_all add: rd_uint_def rd_take_def rd_u16_def rd_u32_def rd_u64_def)

lemma rd_var_loop_safe [rd_safe]: "rd_var_loop index v bs \<noteq> Panic"
proof (induction index v bs rule: rd_var_loop.induct)
  case (1 index v bs)
  then show ?case
    by (subst rd_var_loop.simps) (auto simp: rbind_Panic_iff rd_safe Let_def guard_def split: if_splits)
qed

lemma rd_var_safe [rd_safe]: "rd_var_u64 bs \<noteq> Panic" "rd_var_u32 bs \<noteq> Panic"
  by (auto simp: rd_var_u64_def rd_var_u32_def rbind_Panic_iff rd_safe)

lemma operation_from_tag_safe [rd_safe]: "operation_from_tag tag index \<noteq> Panic"
  by (simp add: operation_from_tag_def)

lemma read_header_safe [rd_safe]: "read_header limits bs \<noteq> Panic"
  by (auto simp: read_header_def rbind_Panic_iff rd_safe checked_count_def read_version_def)

lemma preflight_safe [rd_safe]: "preflight_body_size header n \<noteq> Panic"
  by (auto simp: preflight_body_size_def Let_def rbind_Panic_iff split: prod.splits)

lemma backward_safe [rd_safe]: "decode_backward_reference index bs \<noteq> Panic" "decode_output_delta p n index bs \<noteq> Panic"
  by (auto simp: decode_backward_reference_def decode_output_delta_def rbind_Panic_iff rd_safe Let_def)

lemma read_node_record_safe [rd_safe]: "read_node_record version index len bs \<noteq> Panic"
  by (auto simp: read_node_record_def rbind_Panic_iff rd_safe checked_input_def validate_reference_def
      split: format_version.splits)

lemma materialize_safe [rd_safe]: "materialize index r \<noteq> Panic"
  by (cases r) (auto simp: rbind_Panic_iff constant_from_bytes_def)

lemma cost_charge_safe [rd_safe]: "cost_charge limits cost spent \<noteq> Panic"
  by (simp add: cost_charge_def rbind_Panic_iff Let_def)

section \<open>Sizes of what is read\<close>

lemma rd_uint_bound: "rd_uint n bs = Ok (v, bs') \<Longrightarrow> v < 256 ^ n"
  using nat_of_le_bound [of "take n bs"] by (auto simp: rd_uint_def rd_take_def min_def split: if_splits)

lemma rd_u32_bound: "rd_u32 bs = Ok (v, bs') \<Longrightarrow> v < 2 ^ 32"
  using rd_uint_bound [of 4 bs v bs'] by (simp add: rd_u32_def)

lemma rd_u64_bound: "rd_u64 bs = Ok (v, bs') \<Longrightarrow> v < 2 ^ 64"
  using rd_uint_bound [of 8 bs v bs'] by (simp add: rd_u64_def)

lemma rd_u64_less: "rd_u64 bs = Ok (v, bs') \<Longrightarrow> v < 18446744073709551616"
  using rd_u64_bound [of bs v bs'] by simp

lemma rd_var_u64_bound: "rd_var_u64 bs = Ok (v, bs') \<Longrightarrow> v < 2 ^ 64"
  by (auto simp: rd_var_u64_def rbind_Ok_iff intro: order.strict_trans2 [OF unsigned_less])

text \<open>Every reference of a record is to a prior node and every input is in the buffer.\<close>

fun record_ok :: "nat \<Rightarrow> nat \<Rightarrow> node_record \<Rightarrow> bool" where
  "record_ok len index (RInput input) \<longleftrightarrow> input < len \<and> input < 2 ^ 32"
| "record_ok len index (RConstant encoded) \<longleftrightarrow> length encoded = 32"
| "record_ok len index (ROperation operation left right) \<longleftrightarrow> left < index \<and> right < index"
| "record_ok len index (RInverse source) \<longleftrightarrow> source < index"

lemma decode_backward_reference_less: "decode_backward_reference index bs = Ok (r, bs') \<Longrightarrow> r < index"
  by (auto simp: decode_backward_reference_def rbind_Ok_iff)

lemma rd_var_u32_bound: "rd_var_u32 bs = Ok (v, bs') \<Longrightarrow> v < 2 ^ 32"
  by (auto simp: rd_var_u32_def rbind_Ok_iff)

lemma checked_input_Ok_iff: "checked_input input index len = Ok r \<longleftrightarrow> input < len \<and> r = RInput input"
  by (auto simp: checked_input_def rbind_Ok_iff)

lemma rd_take_length: "rd_take n bs = Ok (v, bs') \<Longrightarrow> length v = n"
  by (auto simp: rd_take_def split: if_splits)

lemma read_node_record_ok:
  assumes "read_node_record version index len bs = Ok (r, bs')"
  shows "record_ok len index r"
proof (cases version)
  case V1
  with assms show ?thesis
    by (auto simp: read_node_record_def rbind_Ok_iff checked_input_Ok_iff validate_reference_def
        dest: rd_u32_bound rd_take_length split: if_splits)
next
  case V2
  with assms show ?thesis
    by (auto simp: read_node_record_def rbind_Ok_iff checked_input_Ok_iff
        dest: rd_var_u32_bound rd_take_length decode_backward_reference_less split: if_splits)
qed

section \<open>Loops over records\<close>

definition reads :: "format_version \<Rightarrow> nat \<Rightarrow> nat \<Rightarrow> byte list \<Rightarrow> node_record list \<Rightarrow> byte list \<Rightarrow> bool" where
  "reads version len n bs records bs' \<longleftrightarrow>
     rfold [0..<n] (\<lambda>i (bs, records). rbind (read_node_record version i len bs) (\<lambda>(r, bs). Ok (bs, records @ [r])))
       (bs, []) = Ok (bs', records)"

lemma reads_0: "reads version len 0 bs records bs' \<longleftrightarrow> records = [] \<and> bs' = bs"
  by (auto simp: reads_def)

lemma reads_Suc:
  "reads version len (Suc n) bs records bs' \<longleftrightarrow>
    (\<exists>rs r b. reads version len n bs rs b \<and> read_node_record version n len b = Ok (r, bs') \<and> records = rs @ [r])"
  by (auto simp: reads_def rfold_append rbind_Ok_iff split: prod.splits)

lemma reads_ok:
  "reads version len n bs records bs' \<Longrightarrow> length records = n \<and> (\<forall>i < n. record_ok len i (records ! i))"
proof (induction n arbitrary: records bs')
  case (Suc n)
  then obtain rs r b where rs: "reads version len n bs rs b" "read_node_record version n len b = Ok (r, bs')"
      "records = rs @ [r]"
    by (auto simp: reads_Suc)
  then show ?case
    using Suc.IH [OF rs(1)] read_node_record_ok [OF rs(2)] by (auto simp: nth_append less_Suc_eq)
qed (simp add: reads_0)

lemma reads_unique: "reads version len n bs records bs' \<Longrightarrow> reads version len n bs records' bs'' \<Longrightarrow> records' = records \<and> bs'' = bs'"
  by (simp add: reads_def)

text \<open>A loop that decodes a record and then works on it is a loop over the decoded records.\<close>

lemma reading_loop_Ok_iff:
  assumes "\<And>i bs acc. body i (bs, acc) =
      rbind (read_node_record version i len bs) (\<lambda>(r, bs). rbind (f i r acc) (\<lambda>acc. Ok (bs, acc)))"
  shows "rfold [0..<n] body (bs, a) = Ok (bs', a') \<longleftrightarrow>
    (\<exists>records. reads version len n bs records bs' \<and> rfold (enumerate 0 records) (\<lambda>(i, r). f i r) a = Ok a')"
proof (induction n arbitrary: bs' a')
  case 0
  then show ?case by (auto simp: reads_0)
next
  case (Suc n)
  have "rfold [0..<Suc n] body (bs, a) = Ok (bs', a') \<longleftrightarrow>
      (\<exists>b acc r. rfold [0..<n] body (bs, a) = Ok (b, acc) \<and> read_node_record version n len b = Ok (r, bs') \<and>
        f n r acc = Ok a')"
    by (auto simp: rfold_append rbind_Ok_iff assms split: prod.splits)
  also have "\<dots> \<longleftrightarrow> (\<exists>b acc r rs. reads version len n bs rs b \<and> rfold (enumerate 0 rs) (\<lambda>(i, r). f i r) a = Ok acc \<and>
        read_node_record version n len b = Ok (r, bs') \<and> f n r acc = Ok a')"
    unfolding Suc.IH by blast
  also have "\<dots> \<longleftrightarrow> (\<exists>records. reads version len (Suc n) bs records bs' \<and>
        rfold (enumerate 0 records) (\<lambda>(i, r). f i r) a = Ok a')"
  proof
    assume "\<exists>b acc r rs. reads version len n bs rs b \<and> rfold (enumerate 0 rs) (\<lambda>(i, r). f i r) a = Ok acc \<and>
        read_node_record version n len b = Ok (r, bs') \<and> f n r acc = Ok a'"
    then obtain b acc r rs where h: "reads version len n bs rs b" "rfold (enumerate 0 rs) (\<lambda>(i, r). f i r) a = Ok acc"
        "read_node_record version n len b = Ok (r, bs')" "f n r acc = Ok a'" by blast
    then have "reads version len (Suc n) bs (rs @ [r]) bs'" by (auto simp: reads_Suc)
    moreover have "rfold (enumerate 0 (rs @ [r])) (\<lambda>(i, r). f i r) a = Ok a'"
      using h reads_ok [OF h(1)] by (simp add: enumerate_append_eq rfold_append)
    ultimately show "\<exists>records. reads version len (Suc n) bs records bs' \<and>
        rfold (enumerate 0 records) (\<lambda>(i, r). f i r) a = Ok a'" by blast
  next
    assume "\<exists>records. reads version len (Suc n) bs records bs' \<and>
        rfold (enumerate 0 records) (\<lambda>(i, r). f i r) a = Ok a'"
    then obtain rs r b where h: "reads version len n bs rs b" "read_node_record version n len b = Ok (r, bs')"
        "rfold (enumerate 0 (rs @ [r])) (\<lambda>(i, r). f i r) a = Ok a'"
      by (auto simp: reads_Suc)
    then show "\<exists>b acc r rs. reads version len n bs rs b \<and> rfold (enumerate 0 rs) (\<lambda>(i, r). f i r) a = Ok acc \<and>
        read_node_record version n len b = Ok (r, bs') \<and> f n r acc = Ok a'"
      using reads_ok [OF h(1)] by (auto simp: enumerate_append_eq rfold_append rbind_Ok_iff)
  qed
  finally show ?case .
qed

section \<open>Ranges that nest\<close>

definition nested_or_disjoint :: "nat \<times> nat \<Rightarrow> nat \<times> nat \<Rightarrow> bool" where
  "nested_or_disjoint r q \<longleftrightarrow>
     fst r + snd r \<le> fst q \<or> fst q + snd q \<le> fst r \<or>
     (fst r \<le> fst q \<and> fst q + snd q \<le> fst r + snd r) \<or> (fst q \<le> fst r \<and> fst r + snd r \<le> fst q + snd q)"

text \<open>
  The stack after the ranges of \<open>is\<close>, for starts from \<open>c\<close> on: ascending, each entry above
  \<open>c\<close> the end of a range that was processed and each such end on the stack.
\<close>

definition stack_ok :: "(nat \<times> nat) list \<Rightarrow> nat set \<Rightarrow> nat list \<Rightarrow> bool" where
  "stack_ok ranges I stack \<longleftrightarrow> sorted stack \<and>
     (\<forall>e \<in> set stack. \<exists>i \<in> I. e = fst (ranges ! i) + snd (ranges ! i)) \<and>
     (\<forall>i \<in> I. \<forall>e. e = fst (ranges ! i) + snd (ranges ! i) \<longrightarrow> e \<in> set stack \<or>
        (\<exists>j \<in> I. e \<le> fst (ranges ! j)))"

lemma dropWhile_sorted: "sorted xs \<Longrightarrow> set (dropWhile (\<lambda>e. e \<le> c) xs) = {e \<in> set xs. (c :: nat) < e}"
  by (induction xs) auto

lemma check_input_range_Ok_iff:
  assumes "k < length ranges" and "stack_ok ranges I stack" and "k \<notin> I"
    and "\<And>i. i \<in> I \<Longrightarrow> fst (ranges ! i) < fst (ranges ! k) \<or>
      fst (ranges ! i) = fst (ranges ! k) \<and> snd (ranges ! k) \<le> snd (ranges ! i)"
    and "0 < snd (ranges ! k)" and "\<And>i. i \<in> I \<Longrightarrow> 0 < snd (ranges ! i)"
  shows "(\<exists>stack'. check_input_range ranges k stack = Ok stack') \<longleftrightarrow>
      (\<forall>i \<in> I. nested_or_disjoint (ranges ! i) (ranges ! k))"
    and "check_input_range ranges k stack = Ok stack' \<Longrightarrow> stack_ok ranges (insert k I) stack'"
proof -
  obtain c n where k: "ranges ! k = (c, n)" by fastforce
  define inner where "inner = dropWhile (\<lambda>e. e \<le> c) stack"
  have stack: "sorted stack" using assms(2) by (simp add: stack_ok_def)
  then have inner: "sorted inner" "set inner = {e \<in> set stack. c < e}"
    by (simp_all add: inner_def dropWhile_sorted sorted_dropWhile)
  have run: "check_input_range ranges k stack =
      (if inner \<noteq> [] \<and> hd inner < c + n then Err (InputMappingOverlap k) else Ok ((c + n) # inner))"
    unfolding check_input_range_def idx_Ok [OF assms(1)] rbind.simps k prod.case Let_def inner_def [symmetric] by simp
  have open_ends: "(\<exists>i \<in> I. e = fst (ranges ! i) + snd (ranges ! i)) \<and> c < e \<longleftrightarrow> e \<in> set inner" for e
  proof -
    have "\<not> (\<exists>j \<in> I. e \<le> fst (ranges ! j))" if "c < e"
      using assms(4) that by (force simp: k)
    then show ?thesis using assms(2) by (auto simp: inner(2) stack_ok_def)
  qed
  have nested: "nested_or_disjoint (ranges ! i) (ranges ! k) \<longleftrightarrow>
      fst (ranges ! i) + snd (ranges ! i) \<le> c \<or> c + n \<le> fst (ranges ! i) + snd (ranges ! i)" if "i \<in> I" for i
    using assms(4) [OF that] assms(5) assms(6) [OF that] by (auto simp: nested_or_disjoint_def k)
  have "\<not> (inner \<noteq> [] \<and> hd inner < c + n) \<longleftrightarrow> (\<forall>e \<in> set inner. c + n \<le> e)"
    using inner(1) by (cases inner) auto
  also have "\<dots> \<longleftrightarrow> (\<forall>i \<in> I. nested_or_disjoint (ranges ! i) (ranges ! k))"
    using open_ends nested by (metis not_le)
  finally show "(\<exists>stack'. check_input_range ranges k stack = Ok stack') \<longleftrightarrow>
      (\<forall>i \<in> I. nested_or_disjoint (ranges ! i) (ranges ! k))"
    by (auto simp: run)
  show "stack_ok ranges (insert k I) stack'" if "check_input_range ranges k stack = Ok stack'"
  proof -
    have st: "stack' = (c + n) # inner" and le: "\<forall>e \<in> set inner. c + n \<le> e"
      using that inner(1) by (auto simp: run split: if_splits) (cases inner; force)+
    have "e \<in> set stack' \<or> (\<exists>j \<in> insert k I. e \<le> fst (ranges ! j))"
      if "i \<in> insert k I" "e = fst (ranges ! i) + snd (ranges ! i)" for i e
      using that open_ends [of e] by (cases "c < e") (auto simp: st k)
    moreover have "\<exists>i \<in> insert k I. e = fst (ranges ! i) + snd (ranges ! i)" if "e \<in> set stack'" for e
      using that open_ends [of e] by (auto simp: st k)
    ultimately show ?thesis using inner(1) le by (auto simp: stack_ok_def st)
  qed
qed

definition range_before :: "(nat \<times> nat) list \<Rightarrow> nat \<Rightarrow> nat \<Rightarrow> bool" where
  "range_before ranges i k \<longleftrightarrow> fst (ranges ! i) < fst (ranges ! k) \<or>
     fst (ranges ! i) = fst (ranges ! k) \<and> snd (ranges ! k) \<le> snd (ranges ! i)"

lemma check_ranges_loop:
  assumes "stack_ok ranges I stack" and "distinct ks" and "set ks \<inter> I = {}" and "\<forall>k \<in> set ks. k < length ranges"
    and "sorted_wrt (range_before ranges) ks" and "\<forall>i \<in> I. \<forall>k \<in> set ks. range_before ranges i k"
    and "\<forall>i \<in> I \<union> set ks. 0 < snd (ranges ! i)"
  shows "(\<exists>stack'. rfold ks (check_input_range ranges) stack = Ok stack') \<longleftrightarrow>
      (\<forall>i \<in> I. \<forall>k \<in> set ks. nested_or_disjoint (ranges ! i) (ranges ! k)) \<and>
      sorted_wrt (\<lambda>i k. nested_or_disjoint (ranges ! i) (ranges ! k)) ks"
  using assms
proof (induction ks arbitrary: I stack)
  case (Cons k ks)
  have before: "fst (ranges ! i) < fst (ranges ! k) \<or>
      fst (ranges ! i) = fst (ranges ! k) \<and> snd (ranges ! k) \<le> snd (ranges ! i)" if "i \<in> I" for i
    using Cons.prems(6) that by (simp add: range_before_def)
  note step = check_input_range_Ok_iff [of k ranges I stack, OF _ Cons.prems(1) _ before]
  have accept: "(\<exists>stack'. check_input_range ranges k stack = Ok stack') \<longleftrightarrow>
      (\<forall>i \<in> I. nested_or_disjoint (ranges ! i) (ranges ! k))"
    using Cons.prems by (intro step(1)) auto
  show ?case
  proof (cases "\<exists>stack'. check_input_range ranges k stack = Ok stack'")
    case True
    then obtain stack' where run: "check_input_range ranges k stack = Ok stack'" by blast
    have "stack_ok ranges (insert k I) stack'"
      using Cons.prems run by (intro step(2)) auto
    from Cons.IH [OF this] Cons.prems accept True show ?thesis
      by (auto simp: run)
  next
    case False
    then have "\<not> (\<exists>stack'. rfold (k # ks) (check_input_range ranges) stack = Ok stack')"
      by (auto simp: rbind_Ok_iff)
    then show ?thesis using accept False by auto
  qed
qed simp

lemma nested_or_disjoint_sym: "nested_or_disjoint r q \<longleftrightarrow> nested_or_disjoint q r"
  by (auto simp: nested_or_disjoint_def)

lemma check_input_ranges_Ok_iff:
  assumes "\<forall>r \<in> set ranges. 0 < snd r"
  shows "check_input_ranges ranges = Ok () \<longleftrightarrow>
    (\<forall>i < length ranges. \<forall>j < length ranges. nested_or_disjoint (ranges ! i) (ranges ! j))"
proof -
  define key where "key = (\<lambda>i. (fst (ranges ! i), - int (snd (ranges ! i))))"
  define order where "order = sort_key key [0..<length ranges]"
  have order: "set order = {..<length ranges}" "distinct order"
    by (auto simp: order_def)
  have "sorted (map key order)" by (simp add: order_def)
  then have "sorted_wrt (\<lambda>i j. key i \<le> key j) order" by (simp add: sorted_map)
  then have "sorted_wrt (range_before ranges) order"
    by (rule sorted_wrt_mono_rel [rotated]) (auto simp: key_def range_before_def less_eq_prod_def)
  then have "(\<exists>stack. rfold order (check_input_range ranges) [] = Ok stack) \<longleftrightarrow>
      sorted_wrt (\<lambda>i k. nested_or_disjoint (ranges ! i) (ranges ! k)) order"
    using check_ranges_loop [of ranges "{}" "[]" order] order assms by (auto simp: stack_ok_def)
  also have "\<dots> \<longleftrightarrow> (\<forall>i < length ranges. \<forall>j < length ranges. nested_or_disjoint (ranges ! i) (ranges ! j))"
  proof -
    have refl: "nested_or_disjoint r r" for r by (simp add: nested_or_disjoint_def)
    have "sorted_wrt P xs \<longleftrightarrow> (\<forall>x \<in> set xs. \<forall>y \<in> set xs. P x y)" if "\<And>x y. P x y = P y x" "\<And>x. P x x" for P and xs :: "nat list"
      using that by (induction xs) auto
    from this [of "\<lambda>i k. nested_or_disjoint (ranges ! i) (ranges ! k)" order, OF nested_or_disjoint_sym refl]
    show ?thesis using order(1) by auto
  qed
  finally show ?thesis
    by (simp add: check_input_ranges_def Let_def order_def [symmetric, unfolded key_def] rbind_Ok_iff)
qed

section \<open>Tables\<close>

lemma rfold_upt_invariant:
  assumes "rfold [0..<n] body a = Ok b" and "P 0 a"
    and "\<And>i x y. i < n \<Longrightarrow> P i x \<Longrightarrow> body i x = Ok y \<Longrightarrow> P (Suc i) y"
  shows "P n b"
  using assms
proof (induction n arbitrary: b)
  case (Suc n)
  then obtain x where x: "rfold [0..<n] body a = Ok x" "body n x = Ok b"
    by (auto simp: rfold_append rbind_Ok_iff)
  have "P n x" by (rule Suc.IH [OF x(1) Suc.prems(2)]) (use Suc.prems(3) in simp)
  then show ?case using Suc.prems(3) [of n x b] x(2) by simp
qed simp

lemma decode_output_delta_bound: "decode_output_delta p n index bs = Ok (r, bs') \<Longrightarrow> r < n"
  by (auto simp: decode_output_delta_def rbind_Ok_iff Let_def nat_less_iff)

lemma read_output_references_ok:
  assumes "read_output_references header bs = Ok (signals, bs')"
  shows "length signals = hd_signal_count header \<and> (\<forall>s \<in> set signals. s < hd_node_count header)"
proof (cases "hd_version header")
  case V1
  then have run: "rfold [0..<hd_signal_count header] (read_output_v1 (hd_node_count header)) (bs, []) = Ok (bs', signals)"
    using assms by (auto simp: read_output_references_def rbind_Ok_iff)
  have "(\<lambda>i (b, ss). length ss = i \<and> (\<forall>s \<in> set ss. s < hd_node_count header)) (hd_signal_count header) (bs', signals)"
    by (rule rfold_upt_invariant [OF run]) (auto simp: read_output_v1_def rbind_Ok_iff)
  then show ?thesis by simp
next
  case V2
  then obtain p where run: "rfold [0..<hd_signal_count header] (read_output_v2 (hd_node_count header)) (bs, [], 0) = Ok (bs', signals, p)"
    using assms by (auto simp: read_output_references_def rbind_Ok_iff)
  have "(\<lambda>i (b, ss, p). length ss = i \<and> (\<forall>s \<in> set ss. s < hd_node_count header)) (hd_signal_count header) (bs', signals, p)"
    by (rule rfold_upt_invariant [OF run]) (auto simp: read_output_v2_def rbind_Ok_iff dest: decode_output_delta_bound)
  then show ?thesis by simp
qed

definition mapping_range :: "input_mapping \<Rightarrow> nat \<times> nat" where
  "mapping_range m = (im_signal_id m, im_signal_size m)"

text \<open>
  Distinct name hashes, nonempty ranges that leave the constant one at position 0 alone
  and nest or are disjoint.
\<close>

definition mappings_ok :: "nat \<Rightarrow> input_mapping list \<Rightarrow> bool" where
  "mappings_ok len mappings \<longleftrightarrow> distinct (map im_hash mappings) \<and>
     (\<forall>m \<in> set mappings. im_hash m < 2 ^ 64 \<and> 0 < im_signal_id m \<and> 0 < im_signal_size m \<and> im_signal_id m + im_signal_size m \<le> len) \<and>
     (\<forall>m \<in> set mappings. \<forall>m' \<in> set mappings. nested_or_disjoint (mapping_range m) (mapping_range m'))"

lemma read_input_mappings_ok:
  assumes "read_input_mappings header bs = Ok (mappings, bs')"
  shows "length mappings = hd_input_mapping_count header \<and> mappings_ok (hd_input_buffer_len header) mappings"
proof -
  let ?len = "hd_input_buffer_len header"
  from assms obtain H where run: "rfold [0..<hd_input_mapping_count header] (read_input_mapping ?len) (bs, [], {}) = Ok (bs', mappings, H)"
      and ranges: "check_input_ranges (map mapping_range mappings) = Ok ()"
    by (auto simp: read_input_mappings_def rbind_Ok_iff mapping_range_def [abs_def])
  have "(\<lambda>i (b, ms, H). length ms = i \<and> H = im_hash ` set ms \<and> distinct (map im_hash ms) \<and>
      (\<forall>m \<in> set ms. im_hash m < 2 ^ 64 \<and> 0 < im_signal_id m \<and> 0 < im_signal_size m \<and> im_signal_id m + im_signal_size m \<le> ?len))
      (hd_input_mapping_count header) (bs', mappings, H)"
    by (rule rfold_upt_invariant [OF run])
      (auto simp: read_input_mapping_def rbind_Ok_iff split: option.splits dest!: rd_u64_less)
  then have m: "length mappings = hd_input_mapping_count header" "distinct (map im_hash mappings)"
      "\<forall>m \<in> set mappings. im_hash m < 2 ^ 64 \<and> 0 < im_signal_id m \<and> 0 < im_signal_size m \<and> im_signal_id m + im_signal_size m \<le> ?len"
    by auto
  have "\<forall>r \<in> set (map mapping_range mappings). 0 < snd r" using m(3) by (auto simp: mapping_range_def)
  from check_input_ranges_Ok_iff [OF this] ranges
  have "\<forall>i < length mappings. \<forall>j < length mappings. nested_or_disjoint (mapping_range (mappings ! i)) (mapping_range (mappings ! j))"
    by simp
  then have "\<forall>m \<in> set mappings. \<forall>m' \<in> set mappings. nested_or_disjoint (mapping_range m) (mapping_range m')"
    by (metis in_set_conv_nth)
  then show ?thesis using m by (simp add: mappings_ok_def)
qed

lemma read_output_references_safe [rd_safe]: "read_output_references header bs \<noteq> Panic"
proof (cases "hd_version header")
  case V1
  have "rfold [0..<hd_signal_count header] (read_output_v1 (hd_node_count header)) (bs, []) \<noteq> Panic"
    by (rule rfold_no_panic [where P = "\<lambda>_. True"]) (auto simp: read_output_v1_def rbind_Panic_iff rd_safe)
  then show ?thesis by (auto simp: read_output_references_def V1 rbind_Panic_iff)
next
  case V2
  have "rfold [0..<hd_signal_count header] (read_output_v2 (hd_node_count header)) (bs, [], 0) \<noteq> Panic"
    by (rule rfold_no_panic [where P = "\<lambda>_. True"]) (auto simp: read_output_v2_def rbind_Panic_iff rd_safe)
  then show ?thesis by (auto simp: read_output_references_def V2 rbind_Panic_iff)
qed

lemma check_input_ranges_safe [rd_safe]: "check_input_ranges ranges \<noteq> Panic"
proof -
  have "rfold (sort_key key [0..<length ranges]) (check_input_range ranges) [] \<noteq> Panic" for key :: "nat \<Rightarrow> nat \<times> int"
    by (rule rfold_no_panic [where P = "\<lambda>_. True"]) (auto simp: check_input_range_def rbind_Panic_iff idx_def Let_def split: prod.splits)
  then show ?thesis by (auto simp: check_input_ranges_def rbind_Panic_iff Let_def)
qed

lemma read_input_mappings_safe [rd_safe]: "read_input_mappings header bs \<noteq> Panic"
proof -
  have "rfold [0..<n] (read_input_mapping len) (bs, [], {}) \<noteq> Panic" for n len
    by (rule rfold_no_panic [where P = "\<lambda>_. True"]) (auto simp: read_input_mapping_def rbind_Panic_iff rd_safe)
  then show ?thesis by (auto simp: read_input_mappings_def rbind_Panic_iff rd_safe)
qed

section \<open>The cost and the graph\<close>

fun node_ok :: "nat \<Rightarrow> nat \<Rightarrow> node \<Rightarrow> bool" where
  "node_ok len index (GInput input) \<longleftrightarrow> input < len"
| "node_ok len index (GConstant c) \<longleftrightarrow> True"
| "node_ok len index (GOperation operation left right) \<longleftrightarrow> left < index \<and> right < index"
| "node_ok len index (GInverse source) \<longleftrightarrow> source < index"

fun node_cost :: "node \<Rightarrow> nat" where
  "node_cost (GInput _) = load_cost"
| "node_cost (GConstant _) = load_cost"
| "node_cost (GOperation operation _ _) = operation_cost operation"
| "node_cost (GInverse _) = inverse_cost"

fun node_of :: "node_record \<Rightarrow> node" where
  "node_of (RInput input) = GInput input"
| "node_of (RConstant encoded) = GConstant (fr_of_nat (nat_of_le encoded))"
| "node_of (ROperation operation left right) = GOperation operation left right"
| "node_of (RInverse source) = GInverse source"

fun canonical_record :: "node_record \<Rightarrow> bool" where
  "canonical_record (RConstant encoded) \<longleftrightarrow> nat_of_le encoded < fr_modulus"
| "canonical_record _ \<longleftrightarrow> True"

lemma materialize_Ok_iff:
  "record_ok len i r \<Longrightarrow> materialize i r = Ok node \<longleftrightarrow> canonical_record r \<and> node = node_of r"
  by (cases r) (auto simp: rbind_Ok_iff constant_from_bytes_def sf_from_le_bytes_def Let_def split: if_splits)

lemma node_of_ok: "record_ok len i r \<Longrightarrow> node_ok len i (node_of r)"
  by (cases r) auto

lemma node_of_cost: "node_cost (node_of r) = record_cost r"
  by (cases r) auto

lemma record_cost_pos: "0 < record_cost r"
proof (cases r)
  case (ROperation operation left right)
  then show ?thesis by (cases operation) simp_all
qed (simp_all add: load_cost_def inverse_cost_def)

text \<open>The meter accepts a list of costs exactly when their sum, saturated, is within the limit.\<close>

definition saturate :: "nat \<Rightarrow> nat" where
  "saturate n = min n (2 ^ 64 - 1)"

lemma cost_charge_Ok_iff:
  "cost_charge limits cost (saturate spent) = Ok s \<longleftrightarrow> s = saturate (spent + cost) \<and> s \<le> lm_evaluation_cost limits"
  by (auto simp: cost_charge_def saturate_def Let_def rbind_Ok_iff)

lemma charges_Ok_iff:
  "rfold (enumerate k records) (\<lambda>(i, r). cost_charge limits (record_cost r)) (saturate spent) = Ok s \<longleftrightarrow>
    s = saturate (spent + (\<Sum>r\<leftarrow>records. record_cost r)) \<and> (records = [] \<or> s \<le> lm_evaluation_cost limits)"
proof (induction records arbitrary: k spent)
  case (Cons r records)
  have "saturate (spent + record_cost r) \<le> saturate (spent + record_cost r + (\<Sum>r\<leftarrow>records. record_cost r))"
    by (simp add: saturate_def)
  with Cons show ?case by (auto simp: rbind_Ok_iff cost_charge_Ok_iff add.assoc)
qed auto

definition graph_ok :: "witness_graph \<Rightarrow> bool" where
  "graph_ok g \<longleftrightarrow>
     0 < length (wg_nodes g) \<and> length (wg_nodes g) \<le> lm_nodes (wg_limits g) \<and>
     0 < length (wg_signals g) \<and> length (wg_signals g) \<le> lm_signals (wg_limits g) \<and>
     0 < wg_input_buffer_len g \<and> wg_input_buffer_len g \<le> lm_input_values (wg_limits g) \<and>
     length (wg_input_mapping g) \<le> lm_input_mappings (wg_limits g) \<and>
     (\<forall>i < length (wg_nodes g). node_ok (wg_input_buffer_len g) i (wg_nodes g ! i)) \<and>
     (\<forall>s \<in> set (wg_signals g). s < length (wg_nodes g)) \<and>
     mappings_ok (wg_input_buffer_len g) (wg_input_mapping g) \<and>
     saturate (\<Sum>n\<leftarrow>wg_nodes g. node_cost n) \<le> lm_evaluation_cost (wg_limits g)"

lemma read_header_ok:
  assumes "read_header limits bs = Ok (header, bs')"
  shows "0 < hd_node_count header \<and> hd_node_count header \<le> lm_nodes limits \<and> hd_node_count header < 2 ^ 32 \<and>
    0 < hd_signal_count header \<and> hd_signal_count header \<le> lm_signals limits \<and> hd_signal_count header < 2 ^ 32 \<and>
    0 < hd_input_buffer_len header \<and> hd_input_buffer_len header \<le> lm_input_values limits \<and>
    hd_input_mapping_count header \<le> lm_input_mappings limits"
  using assms by (auto simp: read_header_def rbind_Ok_iff checked_count_def dest: rd_u32_bound)

lemma nodes_loop_Ok_iff:
  assumes "\<forall>i < length records. record_ok len (k + i) (records ! i)"
  shows "rfold (enumerate k records) (\<lambda>(i, r) (spent, nodes). rbind (cost_charge limits (record_cost r) spent) (\<lambda>spent.
      rbind (materialize i r) (\<lambda>node. Ok (spent, nodes @ [node])))) (saturate spent, nodes) = Ok (spent', nodes') \<longleftrightarrow>
    (\<forall>r \<in> set records. canonical_record r) \<and> nodes' = nodes @ map node_of records \<and>
    rfold (enumerate k records) (\<lambda>(i, r). cost_charge limits (record_cost r)) (saturate spent) = Ok spent'"
  using assms
proof (induction records arbitrary: k spent nodes)
  case (Cons r records)
  have "record_ok len k r" using Cons.prems [rule_format, of 0] by simp
  moreover have "\<forall>i < length records. record_ok len (Suc k + i) (records ! i)"
    using Cons.prems by (auto dest: spec [of _ "Suc _"])
  ultimately show ?case
    using Cons.IH [of "Suc k"] by (auto simp: rbind_Ok_iff cost_charge_Ok_iff materialize_Ok_iff)
qed auto

section \<open>The parser\<close>

text \<open>What a byte string decodes to, before constants are checked; the compiler shares it.\<close>

definition decodes ::
    "limits \<Rightarrow> byte list \<Rightarrow> header \<Rightarrow> node_record list \<Rightarrow> nat list \<Rightarrow> input_mapping list \<Rightarrow> bool" where
  "decodes limits bytes h records signals mappings \<longleftrightarrow>
     (\<exists>bs bs' bs''. read_header limits bytes = Ok (h, bs) \<and> preflight_body_size h (length bs) = Ok () \<and>
        reads (hd_version h) (hd_input_buffer_len h) (hd_node_count h) bs records bs' \<and>
        saturate (\<Sum>r\<leftarrow>records. record_cost r) \<le> lm_evaluation_cost limits \<and>
        read_output_references h bs' = Ok (signals, bs'') \<and> read_input_mappings h bs'' = Ok (mappings, []))"

definition graph_of :: "limits \<Rightarrow> header \<Rightarrow> node_record list \<Rightarrow> nat list \<Rightarrow> input_mapping list \<Rightarrow> witness_graph" where
  "graph_of limits h records signals mappings =
     \<lparr>wg_limits = limits, wg_nodes = map node_of records, wg_signals = signals, wg_input_mapping = mappings,
      wg_input_buffer_len = hd_input_buffer_len h, wg_r1cs_sha256 = hd_r1cs_sha256 h, wg_magic = hd_magic h,
      wg_format_version = (case hd_version h of V1 \<Rightarrow> format_version_v1 | V2 \<Rightarrow> format_version_v2)\<rparr>"

lemma decodes_ok:
  assumes "decodes limits bytes h records signals mappings"
  shows "length records = hd_node_count h \<and> 0 < hd_node_count h \<and> hd_node_count h \<le> lm_nodes limits \<and>
    hd_node_count h < 2 ^ 32 \<and> (\<forall>i < length records. record_ok (hd_input_buffer_len h) i (records ! i)) \<and>
    length signals = hd_signal_count h \<and> 0 < hd_signal_count h \<and> hd_signal_count h \<le> lm_signals limits \<and>
    hd_signal_count h < 2 ^ 32 \<and> (\<forall>s \<in> set signals. s < length records) \<and>
    0 < hd_input_buffer_len h \<and> hd_input_buffer_len h \<le> lm_input_values limits \<and>
    length mappings \<le> lm_input_mappings limits \<and> mappings_ok (hd_input_buffer_len h) mappings"
  using assms unfolding decodes_def
  by (auto dest!: read_header_ok reads_ok read_output_references_ok read_input_mappings_ok)

lemma nodes_Ok_iff:
  "rfold [0..<n] (parse_node limits h) (bs, 0, []) = Ok (bs', spent, nodes) \<longleftrightarrow>
    (\<exists>records. reads (hd_version h) (hd_input_buffer_len h) n bs records bs' \<and>
      (\<forall>r \<in> set records. canonical_record r) \<and> nodes = map node_of records \<and>
      rfold (enumerate 0 records) (\<lambda>(i, r). cost_charge limits (record_cost r)) 0 = Ok spent)"
proof -
  let ?f = "\<lambda>i r (spent, nodes). rbind (cost_charge limits (record_cost r) spent) (\<lambda>spent.
      rbind (materialize i r) (\<lambda>node. Ok (spent, nodes @ [node])))"
  have body: "parse_node limits h i (b, acc) =
      rbind (read_node_record (hd_version h) i (hd_input_buffer_len h) b) (\<lambda>(r, b). rbind (?f i r acc) (\<lambda>acc. Ok (b, acc)))"
    for i b acc
    by (cases acc) (simp add: parse_node_def split_def)
  have zero: "saturate 0 = 0" by (simp add: saturate_def)
  have "rfold (enumerate 0 records) (\<lambda>(i, r). ?f i r) (0, []) = Ok (spent, nodes) \<longleftrightarrow>
      (\<forall>r \<in> set records. canonical_record r) \<and> nodes = map node_of records \<and>
      rfold (enumerate 0 records) (\<lambda>(i, r). cost_charge limits (record_cost r)) 0 = Ok spent"
    if "reads (hd_version h) (hd_input_buffer_len h) n bs records bs'" for records
    using nodes_loop_Ok_iff [of records "hd_input_buffer_len h" 0 limits 0 "[]" spent nodes] reads_ok [OF that] by (simp add: zero split_def)
  then show ?thesis
    unfolding reading_loop_Ok_iff [of "parse_node limits h", OF body] by blast
qed

lemma charges_accept_iff:
  "records \<noteq> [] \<Longrightarrow> (\<exists>s. rfold (enumerate 0 records) (\<lambda>(i, r). cost_charge limits (record_cost r)) 0 = Ok s) \<longleftrightarrow>
    saturate (\<Sum>r\<leftarrow>records. record_cost r) \<le> lm_evaluation_cost limits"
  using charges_Ok_iff [of 0 records limits 0] by (simp add: saturate_def)

lemma parse_graph_Ok_iff:
  "parse_graph bytes limits = Ok g \<longleftrightarrow>
    (\<exists>h records signals mappings. decodes limits bytes h records signals mappings \<and>
      (\<forall>r \<in> set records. canonical_record r) \<and> g = graph_of limits h records signals mappings)"
    (is "?parse \<longleftrightarrow> ?spec")
proof
  assume ?parse
  then obtain h bs bs' bs'' spent nodes signals mappings where h: "read_header limits bytes = Ok (h, bs)"
      "preflight_body_size h (length bs) = Ok ()"
      "rfold [0..<hd_node_count h] (parse_node limits h) (bs, 0, []) = Ok (bs', spent, nodes)"
      "read_output_references h bs' = Ok (signals, bs'')" "read_input_mappings h bs'' = Ok (mappings, [])"
      and g: "g = \<lparr>wg_limits = limits, wg_nodes = nodes, wg_signals = signals, wg_input_mapping = mappings,
        wg_input_buffer_len = hd_input_buffer_len h, wg_r1cs_sha256 = hd_r1cs_sha256 h, wg_magic = hd_magic h,
        wg_format_version = (case hd_version h of V1 \<Rightarrow> format_version_v1 | V2 \<Rightarrow> format_version_v2)\<rparr>"
    by (auto simp: parse_graph_def rbind_Ok_iff)
  from h(3) obtain records where r: "reads (hd_version h) (hd_input_buffer_len h) (hd_node_count h) bs records bs'"
      "\<forall>r \<in> set records. canonical_record r" "nodes = map node_of records"
      "rfold (enumerate 0 records) (\<lambda>(i, r). cost_charge limits (record_cost r)) 0 = Ok spent"
    by (auto simp: nodes_Ok_iff)
  have "records \<noteq> []" using reads_ok [OF r(1)] read_header_ok [OF h(1)] by auto
  then have "decodes limits bytes h records signals mappings"
    unfolding decodes_def using h(1,2,4,5) r(1) charges_accept_iff [of records limits] r(4) by blast
  then show ?spec using r(2,3) g by (auto simp: graph_of_def)
next
  assume ?spec
  then obtain h records signals mappings where d: "decodes limits bytes h records signals mappings"
      "\<forall>r \<in> set records. canonical_record r" "g = graph_of limits h records signals mappings" by blast
  then obtain bs bs' bs'' where h: "read_header limits bytes = Ok (h, bs)" "preflight_body_size h (length bs) = Ok ()"
      "reads (hd_version h) (hd_input_buffer_len h) (hd_node_count h) bs records bs'"
      "saturate (\<Sum>r\<leftarrow>records. record_cost r) \<le> lm_evaluation_cost limits"
      "read_output_references h bs' = Ok (signals, bs'')" "read_input_mappings h bs'' = Ok (mappings, [])"
    by (auto simp: decodes_def)
  have "records \<noteq> []" using decodes_ok [OF d(1)] by auto
  then obtain s where "rfold (enumerate 0 records) (\<lambda>(i, r). cost_charge limits (record_cost r)) 0 = Ok s"
    using h(4) charges_accept_iff by blast
  then have "rfold [0..<hd_node_count h] (parse_node limits h) (bs, 0, []) = Ok (bs', s, map node_of records)"
    using h(3) d(2) by (auto simp: nodes_Ok_iff)
  then show ?parse using h d(3) by (simp add: parse_graph_def graph_of_def)
qed

lemma parse_graph_safe: "parse_graph bytes limits \<noteq> Panic"
proof -
  have "rfold [0..<n] (parse_node limits h) (bs, 0, []) \<noteq> Panic" for n h bs
    by (rule rfold_no_panic [where P = "\<lambda>_. True"]) (auto simp: parse_node_def rbind_Panic_iff rd_safe)
  then show ?thesis by (auto simp: parse_graph_def rbind_Panic_iff rd_safe)
qed

lemma graph_of_ok:
  assumes "decodes limits bytes h records signals mappings"
  shows "graph_ok (graph_of limits h records signals mappings)"
  using decodes_ok [OF assms] assms
  by (auto simp: graph_ok_def graph_of_def node_of_ok node_of_cost o_def decodes_def)

lemma parsed_graph_ok: "parse_graph bytes limits = Ok g \<Longrightarrow> graph_ok g \<and> wg_limits g = limits"
  using graph_of_ok by (auto simp: parse_graph_Ok_iff) (simp add: graph_of_def)

end
