(* ===== verification/Graph_Run.thy ===== *)
theory Graph_Run
  imports Graph_Parse Babyjubjub_Group
begin

text \<open>
  Evaluation of an accepted graph: the input buffer holds exactly the values the JSON gives
  to each named range, no run panics, and the values computed are the one solution of
  the node equations.
\<close>

section \<open>Circuit inputs\<close>

text \<open>The values of a JSON value in order, arrays flattened; nothing for what is no field value.\<close>

fun flatten :: "json \<Rightarrow> fr list option" and flatten_all :: "json list \<Rightarrow> fr list option" where
  "flatten (JString s) = map_option (\<lambda>v. [v]) (parse_field s)"
| "flatten (JUnsigned n) = Some [fr_of_nat n]"
| "flatten (JSigned i) = Some [if i < 0 then - fr_of_nat (nat \<bar>i\<bar>) else fr_of_nat (nat \<bar>i\<bar>)]"
| "flatten (JFloat is_zero) = (if is_zero then Some [0] else None)"
| "flatten JBool = None"
| "flatten JNull = None"
| "flatten (JArray vs closed) = (if closed then flatten_all vs else None)"
| "flatten (JObject entries closed) = None"
| "flatten JMalformed = None"
| "flatten_all [] = Some []"
| "flatten_all (v # vs) = (case (flatten v, flatten_all vs) of (Some x, Some y) \<Rightarrow> Some (x @ y) | _ \<Rightarrow> None)"

definition put_values :: "fr list \<Rightarrow> fields \<Rightarrow> fields" where
  "put_values xs = (\<lambda>(output, count). (take count output @ xs @ drop (count + length xs) output, count + length xs))"

lemma put_values_Nil [simp]: "snd st \<le> length (fst st) \<Longrightarrow> put_values [] st = st"
  by (cases st) (simp add: put_values_def)

lemma put_values_append:
  "snd st + length xs \<le> length (fst st) \<Longrightarrow> put_values ys (put_values xs st) = put_values (xs @ ys) st"
  by (cases st) (simp add: put_values_def add.commute add.left_commute)

lemma put_values_fits [simp]:
  "snd st + length xs \<le> length (fst st) \<Longrightarrow> length (fst (put_values xs st)) = length (fst st)"
  "snd (put_values xs st) = snd st + length xs"
  by (cases st, simp add: put_values_def)+

lemma fields_push_eq:
  "fields_push v st = (if snd st < length (fst st) then Ok (put_values [v] st) else Err InvalidInputJson)"
proof (cases st)
  case (Pair out count)
  have "count < length out \<Longrightarrow> out[count := v] = take count out @ v # drop (Suc count) out"
    by (rule upd_conv_take_nth_drop)
  then show ?thesis using Pair by (simp add: fields_push_def put_values_def get_def)
qed

lemma visit_fields_safe: "visit_fields v st \<noteq> Panic" "visit_seq vs closed st \<noteq> Panic"
  by (induction v st and vs closed st rule: visit_fields_visit_seq.induct)
    (auto simp: rbind_Panic_iff fields_push_eq Let_def)

lemma visit_fields_eq:
  shows "snd st \<le> length (fst st) \<Longrightarrow> visit_fields v st = Ok st' \<longleftrightarrow>
      (\<exists>xs. flatten v = Some xs \<and> snd st + length xs \<le> length (fst st) \<and> st' = put_values xs st)"
    and "snd st \<le> length (fst st) \<Longrightarrow> visit_seq vs closed st = Ok st' \<longleftrightarrow>
      (\<exists>xs. closed \<and> flatten_all vs = Some xs \<and> snd st + length xs \<le> length (fst st) \<and> st' = put_values xs st)"
proof (induction v st and vs closed st arbitrary: st' and st' rule: visit_fields_visit_seq.induct)
  case (11 v vs closed st)
  show ?case
  proof
    assume "visit_seq (v # vs) closed st = Ok st'"
    then obtain s where s: "visit_fields v st = Ok s" "visit_seq vs closed s = Ok st'" by (auto simp: rbind_Ok_iff)
    then obtain xs where xs: "flatten v = Some xs" "snd st + length xs \<le> length (fst st)" "s = put_values xs st"
      using 11(1,3) by blast
    then have "snd s \<le> length (fst s)" by simp
    with 11(2) [OF s(1)] s(2) obtain ys where "closed" "flatten_all vs = Some ys"
        "snd s + length ys \<le> length (fst s)" "st' = put_values ys s" by blast
    then show "\<exists>xs. closed \<and> flatten_all (v # vs) = Some xs \<and> snd st + length xs \<le> length (fst st) \<and> st' = put_values xs st"
      using xs by (auto simp: put_values_append)
  next
    assume "\<exists>xs. closed \<and> flatten_all (v # vs) = Some xs \<and> snd st + length xs \<le> length (fst st) \<and> st' = put_values xs st"
    then obtain xs ys where xs: "closed" "flatten v = Some xs" "flatten_all vs = Some ys"
        "snd st + length xs + length ys \<le> length (fst st)" "st' = put_values (xs @ ys) st"
      by (auto split: option.splits)
    then have s: "visit_fields v st = Ok (put_values xs st)" using 11(1,3) by simp
    moreover have "visit_seq vs closed (put_values xs st) = Ok st'"
      using 11(2) [OF s] xs by (simp add: put_values_append)
    ultimately show "visit_seq (v # vs) closed st = Ok st'" by simp
  qed
qed (auto simp: rbind_Ok_iff fields_push_eq Let_def Suc_le_eq)

text \<open>The decimal strings of the inputs are read as the core crate reads its field elements.\<close>

lemma parse_chunk_eq: "parse_chunk cs v = fst (decimal_step cs (v, bad))"
proof -
  have "fold (\<lambda>b n. n * 10 + ucast (b - 48)) cs w = fst (fold (\<lambda>c (word, invalid).
      let digit = ascii_digit c in (word * 10 + ucast digit, invalid \<or> 9 < digit)) cs (w, bad))" for w :: "64 word" and bad
    by (induction cs arbitrary: w bad) (simp_all add: ascii_digit_def Let_def)
  moreover have "fr_of_nat 10000000000000000000 = fr_of_nat (10 ^ 19)" by simp
  ultimately show ?thesis
    by (simp add: parse_chunk_def decimal_step_eq decimal_chunk_def Let_def)
qed

lemma parse_chunks_eq: "fold parse_chunk css v = fst (fold decimal_step css (v, bad))"
proof (induction css arbitrary: v bad)
  case (Cons cs css)
  show ?case using Cons [of "fst (decimal_step cs (v, bad))" "snd (decimal_step cs (v, bad))"]
    by (simp add: parse_chunk_eq [of cs v bad])
qed simp

lemma parse_field_eq:
  "parse_field s = (case try_fr_from_decimal_bytes s of Ok v \<Rightarrow> Some v | _ \<Rightarrow> None)"
proof -
  have digits: "list_all is_ascii_digit ds \<longleftrightarrow> all_digits ds" for ds by (rule list_all_ascii)
  have chunks: "fold parse_chunk (chunks 19 ds) 0 = fr_of_nat (horner10 0 (digit_vals ds))"
    if "all_digits ds" for ds
    using decimal_steps_value [of "chunks 19 ds" 0 False] that chunks_length [of 19 ds]
    by (simp add: parse_chunks_eq [where bad = False])
  define ds where "ds = (if s \<noteq> [] \<and> hd s = 45 then tl s else s)"
  have "parse_field s = (if ds = [] \<or> \<not> all_digits ds then None
      else Some ((if s \<noteq> [] \<and> hd s = 45 then uminus else id) (fold parse_chunk (chunks 19 ds) 0)))"
    by (cases s) (simp_all add: parse_field_def Let_def digits ds_def)
  then show ?thesis
    by (auto simp: try_fr_from_decimal_bytes_eq Let_def chunks ds_def [symmetric])
qed

section \<open>The input buffer\<close>

definition splice :: "nat \<Rightarrow> 'a list \<Rightarrow> 'a list \<Rightarrow> 'a list" where
  "splice a xs vals = take a vals @ xs @ drop (a + length xs) vals"

lemma length_splice [simp]: "a + length xs \<le> length vals \<Longrightarrow> length (splice a xs vals) = length vals"
  by (simp add: splice_def)

definition mapping_of :: "input_mapping list \<Rightarrow> byte list \<Rightarrow> input_mapping option" where
  "mapping_of mappings name = find (\<lambda>m. im_hash m = unat (fnv1a name)) mappings"

text \<open>One entry: the range of its name takes the flattened values, if there are exactly as many.\<close>

definition entry_values :: "input_mapping list \<Rightarrow> byte list \<times> json \<Rightarrow> (nat \<times> fr list) option" where
  "entry_values mappings = (\<lambda>(name, json).
     case (mapping_of mappings name, flatten json) of
       (Some m, Some xs) \<Rightarrow> if length xs = im_signal_size m then Some (im_signal_id m, xs) else None
     | _ \<Rightarrow> None)"

lemma find_enumerate:
  "find (\<lambda>(i, m). P m) (enumerate k xs) = (case find P xs of None \<Rightarrow> None
     | Some m \<Rightarrow> Some (k + length (takeWhile (\<lambda>x. \<not> P x) xs), m))"
  by (induction xs arbitrary: k) (auto split: option.splits)

lemma take_while_less: "find P xs = Some m \<Longrightarrow> length (takeWhile (\<lambda>x. \<not> P x) xs) < length xs"
  by (induction xs) auto

lemma takeWhile_position:
  "find P xs = Some m \<Longrightarrow> xs ! length (takeWhile (\<lambda>x. \<not> P x) xs) = m"
  by (induction xs) auto

definition position_of :: "input_mapping list \<Rightarrow> byte list \<Rightarrow> nat" where
  "position_of mappings name = length (takeWhile (\<lambda>m. im_hash m \<noteq> unat (fnv1a name)) mappings)"

lemma visit_entry_eq:
  assumes "mappings_ok (length vals) mappings" and "length matched = length mappings"
  shows "visit_entry mappings (name, json) (vals, matched) \<noteq> Panic"
    and "visit_entry mappings (name, json) (vals, matched) = Ok st \<longleftrightarrow>
      (\<exists>a xs. entry_values mappings (name, json) = Some (a, xs) \<and> \<not> matched ! position_of mappings name \<and>
        st = (splice a xs vals, matched[position_of mappings name := True]))"
proof -
  have found: "find (\<lambda>(index, m). im_hash m = unat (fnv1a name)) (enumerate 0 mappings) =
      (case mapping_of mappings name of None \<Rightarrow> None | Some m \<Rightarrow> Some (position_of mappings name, m))"
    using find_enumerate [of "\<lambda>m. im_hash m = unat (fnv1a name)" 0 mappings]
    by (simp add: mapping_of_def position_of_def split: option.splits)
  have fits: "im_signal_id m + im_signal_size m \<le> length vals" if "mapping_of mappings name = Some m" for m
  proof -
    have "m \<in> set mappings" using that by (auto simp: mapping_of_def find_Some_iff)
    then show ?thesis using assms(1) by (simp add: mappings_ok_def)
  qed
  have pos: "position_of mappings name < length matched" if "mapping_of mappings name = Some m" for m
    using take_while_less that assms(2) by (fastforce simp: mapping_of_def position_of_def)
  show "visit_entry mappings (name, json) (vals, matched) \<noteq> Panic"
    using fits pos by (cases "mapping_of mappings name")
      (auto simp: visit_entry_def Let_def found rbind_Panic_iff visit_fields_safe)
  show "visit_entry mappings (name, json) (vals, matched) = Ok st \<longleftrightarrow>
      (\<exists>a xs. entry_values mappings (name, json) = Some (a, xs) \<and> \<not> matched ! position_of mappings name \<and>
        st = (splice a xs vals, matched[position_of mappings name := True]))"
  proof (cases "mapping_of mappings name")
    case None
    then show ?thesis by (simp add: visit_entry_def Let_def found entry_values_def)
  next
    case (Some m)
    let ?st = "(take (im_signal_size m) (drop (im_signal_id m) vals), 0)"
    have len: "length (fst ?st) = im_signal_size m" using fits [OF Some] by simp
    have "visit_fields json ?st = Ok (out, im_signal_size m) \<longleftrightarrow>
        flatten json = Some out \<and> length out = im_signal_size m" for out
      using visit_fields_eq(1) [of ?st json "(out, im_signal_size m)"] len by (auto simp: put_values_def)
    then show ?thesis
      using fits [OF Some] pos [OF Some]
      by (auto simp: visit_entry_def Let_def found Some rbind_Ok_iff entry_values_def splice_def split: option.splits)
  qed
qed

definition place_entry :: "input_mapping list \<Rightarrow> byte list \<times> json \<Rightarrow> fr list \<Rightarrow> fr list" where
  "place_entry mappings e vals = (case entry_values mappings e of Some (a, xs) \<Rightarrow> splice a xs vals | None \<Rightarrow> vals)"

lemma entry_values_fits:
  assumes "entry_values mappings e = Some (a, xs)" and "mappings_ok len mappings"
  shows "0 < a \<and> a + length xs \<le> len \<and> position_of mappings (fst e) < length mappings \<and>
    im_hash (mappings ! position_of mappings (fst e)) = unat (fnv1a (fst e))"
proof -
  from assms(1) obtain m where m: "mapping_of mappings (fst e) = Some m" "length xs = im_signal_size m" "a = im_signal_id m"
    by (cases e) (auto simp: entry_values_def split: option.splits if_splits)
  then have "m \<in> set mappings" "im_hash m = unat (fnv1a (fst e))" by (auto simp: mapping_of_def find_Some_iff)
  moreover have "mappings ! position_of mappings (fst e) = m" "position_of mappings (fst e) < length mappings"
    using takeWhile_position take_while_less m(1) by (fastforce simp: mapping_of_def position_of_def)+
  ultimately show ?thesis using assms(2) m by (auto simp: mappings_ok_def)
qed

lemma length_place_entry [simp]: "mappings_ok (length vals) mappings \<Longrightarrow> length (place_entry mappings e vals) = length vals"
  by (auto simp: place_entry_def dest: entry_values_fits split: option.splits)

lemma length_place_entries [simp]:
  "mappings_ok (length vals) mappings \<Longrightarrow> length (fold (place_entry mappings) entries vals) = length vals"
  by (induction entries arbitrary: vals) simp_all

lemma place_entry_hd:
  assumes "mappings_ok (length vals) mappings"
  shows "place_entry mappings e vals ! 0 = vals ! 0"
proof (cases "entry_values mappings e")
  case (Some ax)
  obtain a xs where ax: "ax = (a, xs)" by (cases ax)
  have "0 < a" "a + length xs \<le> length vals" using entry_values_fits [OF Some [unfolded ax] assms] by simp_all
  then show ?thesis by (simp add: place_entry_def Some ax splice_def nth_append)
qed (simp add: place_entry_def)

lemma place_entries_hd:
  "mappings_ok (length vals) mappings \<Longrightarrow> fold (place_entry mappings) entries vals ! 0 = vals ! 0"
  by (induction entries arbitrary: vals) (simp_all add: place_entry_hd)

lemma visit_entries_safe:
  assumes "mappings_ok (length vals) mappings" and "length matched = length mappings"
  shows "rfold entries (visit_entry mappings) (vals, matched) \<noteq> Panic"
  using assms
proof (induction entries arbitrary: vals matched)
  case (Cons e entries)
  obtain name json where e: "e = (name, json)" by (cases e)
  show ?case
  proof (cases "visit_entry mappings e (vals, matched)")
    case (Ok st)
    then obtain a xs where st: "entry_values mappings e = Some (a, xs)"
        "st = (splice a xs vals, matched[position_of mappings name := True])"
      using visit_entry_eq(2) [OF Cons.prems] by (auto simp: e)
    then have "length (splice a xs vals) = length vals" using entry_values_fits [OF st(1) Cons.prems(1)] by simp
    then show ?thesis using Cons.IH [of "splice a xs vals"] Cons.prems st(2) Ok by simp
  qed (use visit_entry_eq(1) [OF Cons.prems, of name json] in \<open>simp_all add: e\<close>)
qed simp

lemma visit_entries_Ok_iff:
  assumes "mappings_ok (length vals) mappings" and "length matched = length mappings"
  shows "(\<exists>matched'. rfold entries (visit_entry mappings) (vals, matched) = Ok (vals', matched')) \<longleftrightarrow>
    (\<forall>e \<in> set entries. entry_values mappings e \<noteq> None \<and> \<not> matched ! position_of mappings (fst e)) \<and>
    distinct (map (\<lambda>e. fnv1a (fst e)) entries) \<and> vals' = fold (place_entry mappings) entries vals"
  using assms
proof (induction entries arbitrary: vals matched)
  case (Cons e entries)
  let ?p = "position_of mappings (fst e)"
  obtain name json where e: "e = (name, json)" by (cases e)
  show ?case
  proof (cases "entry_values mappings e = None \<or> matched ! ?p")
    case True
    then have "visit_entry mappings e (vals, matched) \<noteq> Ok st" for st
      using visit_entry_eq(2) [OF Cons.prems] by (auto simp: e)
    then show ?thesis using True by (auto simp: rbind_Ok_iff)
  next
    case False
    then obtain a xs where ax: "entry_values mappings e = Some (a, xs)" "\<not> matched ! ?p" by auto
    note fits = entry_values_fits [OF ax(1) Cons.prems(1)]
    have run: "visit_entry mappings e (vals, matched) = Ok (place_entry mappings e vals, matched[?p := True])"
      using visit_entry_eq(2) [OF Cons.prems, of name json] ax by (auto simp: e place_entry_def)
    have other: "(\<not> matched[?p := True] ! position_of mappings (fst e')) \<longleftrightarrow>
        \<not> matched ! position_of mappings (fst e') \<and> fnv1a (fst e') \<noteq> fnv1a (fst e)"
      if "entry_values mappings e' \<noteq> None" for e'
    proof -
      from that obtain b ys where "entry_values mappings e' = Some (b, ys)" by auto
      from entry_values_fits [OF this Cons.prems(1)] fits ax(2) Cons.prems(2) show ?thesis
        by (auto simp: nth_list_update position_of_def word_unat_eq_iff [symmetric])
    qed
    have rest: "(\<forall>e' \<in> set entries. entry_values mappings e' \<noteq> None \<and> \<not> matched[?p := True] ! position_of mappings (fst e')) \<longleftrightarrow>
        (\<forall>e' \<in> set entries. entry_values mappings e' \<noteq> None \<and> \<not> matched ! position_of mappings (fst e')) \<and>
        fnv1a (fst e) \<notin> set (map (\<lambda>e. fnv1a (fst e)) entries)"
      using other by (metis (no_types, lifting) in_set_conv_nth length_map nth_map)
    have "(\<exists>matched'. rfold (e # entries) (visit_entry mappings) (vals, matched) = Ok (vals', matched')) \<longleftrightarrow>
        (\<forall>e' \<in> set entries. entry_values mappings e' \<noteq> None \<and> \<not> matched[?p := True] ! position_of mappings (fst e')) \<and>
        distinct (map (\<lambda>e. fnv1a (fst e)) entries) \<and> vals' = fold (place_entry mappings) entries (place_entry mappings e vals)"
      unfolding rfold.simps run rbind.simps
      by (rule Cons.IH) (use Cons.prems in simp_all)
    then show ?thesis unfolding rest using ax by simp
  qed
qed auto

lemma build_input_buffer_safe:
  assumes "mappings_ok len mappings" and "0 < len"
  shows "build_input_buffer decode mappings len json limits \<noteq> Panic"
  using visit_entries_safe [of "(replicate len (fr_of_nat 0))[0 := fr_of_nat 1]" mappings "replicate (length mappings) False"] assms
  by (auto simp: build_input_buffer_def visit_input_def rbind_Panic_iff Let_def split: prod.splits json.splits)

lemma build_input_buffer_Ok_iff:
  assumes "mappings_ok len mappings" and "0 < len"
  shows "build_input_buffer decode mappings len json limits = Ok vals \<longleftrightarrow>
    length json \<le> lm_input_json_bytes limits \<and>
    (\<exists>entries. decode json = (JObject entries True, True) \<and> (\<forall>e \<in> set entries. entry_values mappings e \<noteq> None) \<and>
      distinct (map (\<lambda>e. fnv1a (fst e)) entries) \<and>
      vals = fold (place_entry mappings) entries (1 # replicate (len - 1) 0))"
proof -
  have one: "fr_of_nat (Suc 0) = 1" by (rule fr_eqI) (simp add: fr_modulus_def)
  have init: "(replicate len (fr_of_nat 0))[0 := fr_of_nat 1] = 1 # replicate (len - 1) 0"
    using assms(2) by (cases len) (simp_all add: one)
  have "length (1 # replicate (len - 1) (0 :: fr)) = len" using assms(2) by simp
  then have ok: "mappings_ok (length (1 # replicate (len - 1) (0 :: fr))) mappings" using assms(1) by simp
  have unmatched: "\<not> replicate (length mappings) False ! position_of mappings (fst e)" if "entry_values mappings e \<noteq> None" for e
    using that entry_values_fits [OF _ assms(1), of e] by auto
  note visit = visit_entries_Ok_iff [OF ok, of "replicate (length mappings) False" _ vals]
  have "build_input_buffer decode mappings len json limits = Ok vals \<longleftrightarrow>
      length json \<le> lm_input_json_bytes limits \<and> (\<exists>entries. decode json = (JObject entries True, True) \<and>
        (\<exists>matched'. rfold entries (visit_entry mappings) (1 # replicate (len - 1) 0, replicate (length mappings) False) = Ok (vals, matched')))"
  proof (cases "decode json")
    case (Pair v ended)
    have "idx (replicate len (fr_of_nat 0)) 0 = Ok 0" using assms(2) by simp
    then show ?thesis
      unfolding build_input_buffer_def Let_def init Pair
      by (cases v) (auto simp: visit_input_def rbind_Ok_iff)
  qed
  also have "\<dots> \<longleftrightarrow> length json \<le> lm_input_json_bytes limits \<and> (\<exists>entries. decode json = (JObject entries True, True) \<and>
      (\<forall>e \<in> set entries. entry_values mappings e \<noteq> None) \<and> distinct (map (\<lambda>e. fnv1a (fst e)) entries) \<and>
      vals = fold (place_entry mappings) entries (1 # replicate (len - 1) 0))"
  proof -
    have "(\<forall>e \<in> set entries. entry_values mappings e \<noteq> None \<and> \<not> replicate (length mappings) False ! position_of mappings (fst e)) \<longleftrightarrow>
        (\<forall>e \<in> set entries. entry_values mappings e \<noteq> None)" for entries
      using unmatched by blast
    then show ?thesis unfolding visit [OF length_replicate] by (simp only:)
  qed
  finally show ?thesis .
qed

lemma build_input_buffer_length:
  assumes "build_input_buffer decode mappings len json limits = Ok vals" and "mappings_ok len mappings" and "0 < len"
  shows "length vals = len"
proof -
  have "mappings_ok (length (1 # replicate (len - 1) (0 :: fr))) mappings" using assms(2,3) by simp
  then show ?thesis using assms(1,3) by (auto simp: build_input_buffer_Ok_iff [OF assms(2,3)])
qed

section \<open>Operations as integers\<close>

text \<open>Field elements above half the modulus stand for negative integers.\<close>

definition balanced :: "fr \<Rightarrow> int" where
  "balanced x = (if fr_modulus div 2 < fr_rep x then int (fr_rep x) - int fr_modulus else int (fr_rep x))"

lemma fr_rep_uminus: "x \<noteq> 0 \<Longrightarrow> fr_rep (- x) = fr_modulus - fr_rep x"
  using fr_rep_less [of x] by (simp add: fr_eq_iff)

lemma compare_balanced_eq:
  "compare_balanced l r = (if balanced l < balanced r then Less else if balanced l = balanced r then Equal else Greater)"
proof -
  have half: "drop_bit (Suc 0) fr_modulus = fr_modulus div 2" by (simp add: drop_bit_eq_div)
  have neg: "fr_rep (- x) = fr_modulus - fr_rep x" if "fr_modulus div 2 < fr_rep x" for x
    using that by (intro fr_rep_uminus) auto
  have le: "fr_rep l < fr_modulus" "fr_rep r < fr_modulus" by simp_all
  show ?thesis
    using le neg [of l] neg [of r]
    by (auto simp: compare_balanced_def Let_def half cmp_nat_def balanced_def simp del: fr_rep_simps fr_rep_less
        split: bool.splits)
qed

lemma unat_into_bigint [simp]: "unat (into_bigint x) = fr_rep x"
proof -
  have "fr_rep x < 2 ^ LENGTH(256)" using less_trans [OF fr_rep_less, of "2 ^ 256" x] fr_modulus_lt(1) by simp
  then show ?thesis unfolding into_bigint_def by (simp add: unat_of_nat take_bit_nat_eq_self)
qed

lemma div_mod_0_iff: "n < b * a \<Longrightarrow> n div a mod b = 0 \<longleftrightarrow> n < a" for a b n :: nat
  by (cases "a = 0") (auto simp: less_mult_imp_div_less div_eq_0_iff)

lemma shift_limbs: "(list_ex (\<lambda>i. limb (into_bigint r) i \<noteq> 0) [1, 2, 3] \<or> 256 \<le> limb (into_bigint r) 0) \<longleftrightarrow> 256 \<le> fr_rep r"
proof -
  let ?n = "fr_rep r"
  have "?n < 2 ^ 64 * 2 ^ 192" using less_trans [OF fr_rep_less, of "2 ^ 256" r] fr_modulus_lt(1) by simp
  note top = div_mod_0_iff [OF this]
  have middle: "?n div 2 ^ 128 mod 2 ^ 64 = 0 \<longleftrightarrow> ?n < 2 ^ 128" if "?n < 2 ^ 192"
    using div_mod_0_iff [of ?n "2 ^ 64" "2 ^ 128"] that by simp
  have bottom: "?n div 2 ^ 64 mod 2 ^ 64 = 0 \<longleftrightarrow> ?n < 2 ^ 64" if "?n < 2 ^ 128"
    using div_mod_0_iff [of ?n "2 ^ 64" "2 ^ 64"] that by simp
  have limb: "limb (into_bigint r) i = ?n div 2 ^ (64 * i) mod 2 ^ 64" for i by (simp add: limb_def)
  show ?thesis
  proof (cases "?n < 2 ^ 64")
    case True
    then show ?thesis by (auto simp: limb)
  next
    case False
    have "list_ex (\<lambda>i. limb (into_bigint r) i \<noteq> 0) [1, 2, 3]"
    proof (rule ccontr)
      assume "\<not> ?thesis"
      then have "?n div 2 ^ 64 mod 2 ^ 64 = 0" "?n div 2 ^ 128 mod 2 ^ 64 = 0" "?n div 2 ^ 192 mod 2 ^ 64 = 0"
        by (simp_all add: limb)
      with False top middle bottom show False by blast
    qed
    with False show ?thesis by simp
  qed
qed

lemma shift_field_eq:
  "shift_field index l r is_left =
    (if 256 \<le> fr_rep r then Err (InvalidShift index)
     else Ok (fr_of_nat (if is_left then fr_rep l * 2 ^ fr_rep r mod 2 ^ 254 else fr_rep l div 2 ^ fr_rep r)))"
proof (cases "256 \<le> fr_rep r")
  case True
  then show ?thesis unfolding shift_field_def Let_def shift_limbs by simp
next
  case False
  then have k: "limb (into_bigint r) 0 = fr_rep r" by (simp add: limb_def)
  have left: "unat (push_bit k (into_bigint l) AND mask 254) = fr_rep l * 2 ^ k mod 2 ^ 254" for k
  proof -
    have "unat (push_bit k (into_bigint l) AND mask 254) = take_bit 254 (take_bit 256 (push_bit k (unat (into_bigint l))))"
      by (simp only: take_bit_eq_mask [symmetric] unsigned_take_bit_eq unsigned_push_bit_eq) simp
    then show ?thesis by (simp only: take_bit_take_bit unat_into_bigint) (simp add: take_bit_eq_mod push_bit_eq_mult)
  qed
  have "fr_rep l < 2 ^ 256" using less_trans [OF fr_rep_less, of "2 ^ 256" l] fr_modulus_lt(1) by simp
  then have fits: "take_bit 256 (fr_rep l) = fr_rep l" by (rule take_bit_nat_eq_self)
  have right: "unat (drop_bit k (into_bigint l)) = fr_rep l div 2 ^ k" for k
    by (simp only: unsigned_drop_bit_eq) (simp add: drop_bit_eq_div fits)
  show ?thesis
    using False left right shift_limbs [of r] unfolding shift_field_def Let_def by (auto simp: bigint_to_field_def k)
qed

lemma bigint_bitwise:
  "bigint_to_field (into_bigint l AND into_bigint r) = fr_of_nat (fr_rep l AND fr_rep r)"
  "bigint_to_field (into_bigint l OR into_bigint r) = fr_of_nat (fr_rep l OR fr_rep r)"
  "bigint_to_field (into_bigint l XOR into_bigint r) = fr_of_nat (fr_rep l XOR fr_rep r)"
  by (simp_all add: bigint_to_field_def unsigned_and_eq unsigned_or_eq unsigned_xor_eq)

section \<open>Evaluation\<close>

definition node_equation :: "fr list \<Rightarrow> fr list \<Rightarrow> nat \<Rightarrow> node \<Rightarrow> bool" where
  "node_equation inputs vals i node =
     (case node of
        GInput k \<Rightarrow> vals ! i = inputs ! k
      | GConstant c \<Rightarrow> vals ! i = c
      | GOperation operation l r \<Rightarrow> operation_evaluate operation i (vals ! l) (vals ! r) = Ok (vals ! i)
      | GInverse s \<Rightarrow> vals ! i = inverse (vals ! s))"

definition graph_solution :: "fr list \<Rightarrow> node list \<Rightarrow> fr list \<Rightarrow> bool" where
  "graph_solution inputs nodes vals \<longleftrightarrow>
     length vals = length nodes \<and> (\<forall>i < length nodes. node_equation inputs vals i (nodes ! i))"

lemma graph_solution_length: "graph_solution inputs nodes vals \<Longrightarrow> length vals = length nodes"
  by (simp add: graph_solution_def)

lemma fr_inverse_or_zero: "unwrap_or (fr_inverse x) 0 = inverse x"
  by (simp add: fr_inverse_eq)

lemma node_value_eq:
  assumes "node_ok len i node" and "length inputs = len" and "length vals = i"
  shows "node_value inputs i node vals \<noteq> Panic"
    and "node_value inputs i node vals = Ok v \<longleftrightarrow> node_equation inputs (vals @ [v]) i node"
proof -
  have safe: "operation_evaluate operation i l r \<noteq> Panic" for operation l r
    by (cases operation) (auto simp: rbind_Panic_iff shift_field_def integer_division_def Let_def)
  show "node_value inputs i node vals \<noteq> Panic"
    using assms safe by (cases node) (auto simp: node_value_def)
  show "node_value inputs i node vals = Ok v \<longleftrightarrow> node_equation inputs (vals @ [v]) i node"
    using assms by (cases node) (auto simp: node_value_def node_equation_def nth_append fr_inverse_or_zero)
qed

lemma node_equation_take:
  "node_ok len i node \<Longrightarrow> i < length vals \<Longrightarrow> node_equation inputs (vals @ xs) i node \<longleftrightarrow> node_equation inputs vals i node"
  by (cases node) (auto simp: node_equation_def nth_append)

lemma rfold_single: "rfold [x] f = f x"
proof
  show "rfold [x] f s = f x s" for s by (cases "f x s") auto
qed

lemma evaluation_Ok_iff:
  assumes "\<forall>i < length nodes. node_ok len i (nodes ! i)" and "length inputs = len"
  shows "rfold (enumerate 0 nodes) (evaluate_node inputs) [] \<noteq> Panic \<and>
    (rfold (enumerate 0 nodes) (evaluate_node inputs) [] = Ok vals \<longleftrightarrow> graph_solution inputs nodes vals)"
  using assms(1)
proof (induction nodes arbitrary: vals rule: rev_induct)
  case Nil
  show ?case by (auto simp: graph_solution_def)
next
  case (snoc node nodes)
  let ?run = "rfold (enumerate 0 nodes) (evaluate_node inputs) []"
  have prefix: "\<forall>i < length nodes. node_ok len i (nodes ! i)" and last: "node_ok len (length nodes) node"
    using snoc.prems by (auto simp: nth_append split: if_splits)
  note IH = snoc.IH [OF prefix]
  have run: "rfold (enumerate 0 (nodes @ [node])) (evaluate_node inputs) [] =
      rbind ?run (\<lambda>vs. rbind (node_value inputs (length nodes) node vs) (\<lambda>v. Ok (vs @ [v])))"
    by (simp add: enumerate_append_eq rfold_append evaluate_node_def rfold_single)
  have len: "length vs = length nodes" if "?run = Ok vs" for vs using IH [of vs] that by (simp add: graph_solution_def)
  have "graph_solution inputs (nodes @ [node]) (vs @ [v]) \<longleftrightarrow>
      graph_solution inputs nodes vs \<and> node_equation inputs (vs @ [v]) (length nodes) node"
    if "length vs = length nodes" for vs v
    using that prefix node_equation_take [of len]
    by (auto simp: graph_solution_def nth_append less_Suc_eq)
  then have sol: "graph_solution inputs (nodes @ [node]) vals \<longleftrightarrow>
      (\<exists>vs v. vals = vs @ [v] \<and> graph_solution inputs nodes vs \<and> node_equation inputs (vs @ [v]) (length nodes) node)"
    using graph_solution_length [of inputs "nodes @ [node]"] graph_solution_length [of inputs nodes]
    by (cases vals rule: rev_cases) fastforce+
  have "rfold (enumerate 0 (nodes @ [node])) (evaluate_node inputs) [] \<noteq> Panic"
    using IH node_value_eq(1) [OF last assms(2) len] by (auto simp: run rbind_Panic_iff)
  moreover have "rfold (enumerate 0 (nodes @ [node])) (evaluate_node inputs) [] = Ok vals \<longleftrightarrow>
      (\<exists>vs v. vals = vs @ [v] \<and> graph_solution inputs nodes vs \<and> node_equation inputs (vs @ [v]) (length nodes) node)"
    using IH node_value_eq(2) [OF last assms(2) len] by (auto simp: run rbind_Ok_iff)
  ultimately show ?case using sol by blast
qed

end
