(* ===== verification/Sage_Compile.thy ===== *)
theory Sage_Compile
  imports Sage Graph_Run
begin

text \<open>
  Correctness of the SAGE compiler: it accepts exactly the graphs the parser accepts, never
  hands out a slot that is still read, uses as few slots as the largest number of values
  alive at once, and its programs compute what the default evaluator computes.
\<close>

section \<open>Pass one\<close>

fun uses :: "node_record \<Rightarrow> nat list" where
  "uses (ROperation operation left right) = left # (if left \<noteq> right then [right] else [])"
| "uses (RInverse source) = [source]"
| "uses _ = []"

text \<open>\<open>L ! j\<close> is the last instruction that reads \<open>j\<close>, and \<open>j\<close> itself when there is none.\<close>

definition liveness :: "node_record list \<Rightarrow> nat \<Rightarrow> nat list \<Rightarrow> bool" where
  "liveness records n L \<longleftrightarrow> length L = n \<and>
     (\<forall>j < n. (L ! j = j \<or> L ! j < length records \<and> j \<in> set (uses (records ! (L ! j)))) \<and>
        (\<forall>i < length records. j \<in> set (uses (records ! i)) \<longrightarrow> i \<le> L ! j))"

fun operands :: "node \<Rightarrow> nat list" where
  "operands (GOperation operation left right) = [left, right]"
| "operands (GInverse source) = [source]"
| "operands _ = []"

lemma operands_of: "set (operands (node_of r)) = set (uses r)"
  by (cases r) auto

lemma uses_less: "record_ok len i r \<Longrightarrow> j \<in> set (uses r) \<Longrightarrow> j < i"
  by (cases r) (auto split: if_splits)

lemma distinct_uses [simp]: "distinct (uses r)"
  by (cases r) auto

lemma as_u32_small [simp]: "n < 2 ^ 32 \<Longrightarrow> as_u32 n = n"
  by (simp add: as_u32_def)

lemma mark_record_eq:
  assumes "record_ok len i r" and "i < length L" and "length L \<le> 2 ^ 32"
  shows "\<exists>L'. mark_record i r L = Ok L' \<and> length L' = length L \<and>
    (\<forall>j < length L. L' ! j = (if j \<in> set (uses r) then i else L ! j))"
proof -
  have "as_u32 i = i" using assms(2,3) by (intro as_u32_small) linarith
  then show ?thesis
    using assms(1,2) by (cases r) (auto simp: mark_record_def mark_use_def sage_put_def nth_list_update split: if_splits)
qed

lemma liveness_ok:
  assumes "\<forall>i < length records. record_ok len i (records ! i)" and "length records \<le> n" and "n \<le> 2 ^ 32"
  shows "\<exists>L. rfold (enumerate 0 records) (\<lambda>(i, r). mark_record i r) (map as_u32 [0..<n]) = Ok L \<and> liveness records n L"
  using assms(1,2)
proof (induction records rule: rev_induct)
  case Nil
  have "map as_u32 [0..<n] = [0..<n]" using assms(3) by (intro map_idI as_u32_small) auto
  then show ?case by (simp add: liveness_def)
next
  case (snoc r records)
  let ?k = "length records"
  have rs: "\<forall>i < ?k. record_ok len i (records ! i)" and r: "record_ok len ?k r"
    using snoc.prems(1) by (auto simp: nth_append split: if_splits)
  obtain L where L: "rfold (enumerate 0 records) (\<lambda>(i, r). mark_record i r) (map as_u32 [0..<n]) = Ok L" "liveness records n L"
    using snoc.IH [OF rs] snoc.prems(2) by auto
  then have len: "length L = n" by (simp add: liveness_def)
  obtain L' where L': "mark_record ?k r L = Ok L'" "length L' = length L"
      "\<forall>j < length L. L' ! j = (if j \<in> set (uses r) then ?k else L ! j)"
    using mark_record_eq [OF r, of L] len snoc.prems(2) assms(3) by auto
  have "liveness (records @ [r]) n L'"
    unfolding liveness_def
  proof (intro conjI allI impI)
    show "length L' = n" using L' len by simp
    fix j assume j: "j < n"
    show "L' ! j = j \<or> L' ! j < length (records @ [r]) \<and> j \<in> set (uses ((records @ [r]) ! (L' ! j)))"
      using L(2) L'(3) j len by (auto simp: liveness_def nth_append)
    fix i assume "i < length (records @ [r])" "j \<in> set (uses ((records @ [r]) ! i))"
    then show "i \<le> L' ! j"
      using L(2) L'(3) j len by (auto simp: liveness_def nth_append less_Suc_eq split: if_splits)
  qed
  then show ?case using L(1) L'(1) by (auto simp: enumerate_append_eq rfold_append rfold_single)
qed

lemma live_bounds:
  assumes "\<forall>i < length records. record_ok len i (records ! i)" and "liveness records (length records) L" and "j < length records"
  shows "j \<le> L ! j" and "L ! j < length records" and "L ! j = i \<Longrightarrow> j < i \<Longrightarrow> j \<in> set (uses (records ! i))"
proof -
  have L: "L ! j = j \<or> L ! j < length records \<and> j \<in> set (uses (records ! (L ! j)))"
    using assms(2,3) by (simp add: liveness_def)
  show "j \<le> L ! j" "L ! j < length records" using L uses_less assms(1,3) by (fastforce dest: spec)+
  show "L ! j = i \<Longrightarrow> j < i \<Longrightarrow> j \<in> set (uses (records ! i))" using L by auto
qed

lemma live_uses:
  assumes "\<forall>i < length records. record_ok len i (records ! i)" and "liveness records (length records) L"
  shows "\<forall>i < length records. \<forall>j \<in> set (uses (records ! i)). i \<le> L ! j"
  using assms uses_less unfolding liveness_def by (meson less_trans)

section \<open>Pass two\<close>

text \<open>
  The state before node \<open>i\<close>: every slot remembers its latest owner, it is free exactly when
  that owner is dead, and a live node still owns its slot.  Slots never clash: while \<open>j\<close> is
  read after \<open>k\<close>, node \<open>k\<close> is not written into the slot of \<open>j\<close>.
\<close>

definition slots_ok :: "nat list \<Rightarrow> nat \<Rightarrow> nat list \<Rightarrow> nat list \<Rightarrow> nat list \<Rightarrow> bool" where
  "slots_ok L i slots free owner \<longleftrightarrow>
     distinct free \<and> set free \<subseteq> {..<length owner} \<and>
     (\<forall>s < length owner. owner ! s < i \<and> slots ! (owner ! s) = s \<and> (s \<in> set free \<longleftrightarrow> L ! (owner ! s) < i)) \<and>
     (\<forall>j < i. slots ! j < length owner \<and> (i \<le> L ! j \<longrightarrow> owner ! (slots ! j) = j))"

definition no_clash :: "nat list \<Rightarrow> nat \<Rightarrow> nat list \<Rightarrow> bool" where
  "no_clash L i slots \<longleftrightarrow> (\<forall>k < i. \<forall>j < k. k < L ! j \<longrightarrow> slots ! j \<noteq> slots ! k)"

text \<open>After the operands of node \<open>i\<close> are released, the free slots are those of owners dead after \<open>i\<close>.\<close>

definition released_ok :: "nat list \<Rightarrow> nat \<Rightarrow> nat list \<Rightarrow> nat list \<Rightarrow> nat list \<Rightarrow> bool" where
  "released_ok L i slots free owner \<longleftrightarrow>
     distinct free \<and> set free \<subseteq> {..<length owner} \<and>
     (\<forall>s < length owner. owner ! s < i \<and> slots ! (owner ! s) = s \<and> (s \<in> set free \<longleftrightarrow> L ! (owner ! s) \<le> i)) \<and>
     (\<forall>j < i. slots ! j < length owner \<and> (i < L ! j \<longrightarrow> owner ! (slots ! j) = j))"

lemma release_eq:
  assumes "\<forall>j \<in> set refs. j < length L \<and> j < length (al_node_slots al)"
  shows "rfold refs (release_operand L i) al =
    Ok (al\<lparr>al_free_slots := rev (map ((!) (al_node_slots al)) (filter (\<lambda>j. L ! j = i) refs)) @ al_free_slots al\<rparr>)"
  using assms
  by (induction refs arbitrary: al) (auto simp: release_operand_def sage_at_def)

lemma released_ok_step:
  assumes "slots_ok L i slots free owner"
    and dead: "\<And>j. j < i \<Longrightarrow> L ! j = i \<longleftrightarrow> j \<in> set refs \<and> L ! j = i" and "distinct refs" and "\<forall>j \<in> set refs. j < i"
  shows "released_ok L i slots (rev (map ((!) slots) (filter (\<lambda>j. L ! j = i) refs)) @ free) owner"
    (is "released_ok L i slots (rev ?new @ free) owner")
proof -
  let ?live = "filter (\<lambda>j. L ! j = i) refs"
  have live: "owner ! (slots ! j) = j" "slots ! j < length owner" "slots ! j \<notin> set free" if "j \<in> set ?live" for j
    using assms(1,4) that by (auto simp: slots_ok_def)
  have "inj_on ((!) slots) (set ?live)" by (rule inj_on_inverseI [where g = "(!) owner"]) (rule live(1))
  then have "distinct ?new" using assms(3) by (simp add: distinct_map)
  moreover have "set ?new \<inter> set free = {}" "set ?new \<subseteq> {..<length owner}" using live by auto
  moreover have "s \<in> set ?new \<union> set free \<longleftrightarrow> L ! (owner ! s) \<le> i" if s: "s < length owner" for s
  proof -
    have o: "owner ! s < i" "slots ! (owner ! s) = s" "s \<in> set free \<longleftrightarrow> L ! (owner ! s) < i"
      using assms(1) s by (auto simp: slots_ok_def)
    have "s \<in> set ?new \<longleftrightarrow> L ! (owner ! s) = i"
      using live o dead [OF o(1)] by (auto simp: image_iff)
    then show ?thesis using o(3) by auto
  qed
  ultimately show ?thesis using assms(1) by (auto simp: slots_ok_def released_ok_def)
qed

lemma choose_destination_eq:
  assumes rel: "released_ok L i (al_node_slots al) (al_free_slots al) (al_slot_owner al)"
    and live_i: "i \<le> L ! i" and "i < length L" and "length L = length (al_node_slots al)" and "i < 2 ^ 32" and "length (al_slot_owner al) \<le> i"
  shows "\<exists>d free owner. choose_destination L i al = Ok (d, al\<lparr>al_free_slots := free, al_slot_owner := owner\<rparr>) \<and>
    (let slots = (al_node_slots al)[i := d]; free' = (if L ! i = i then d # free else free)
     in slots_ok L (Suc i) slots free' owner \<and> (\<forall>j < i. i < L ! j \<longrightarrow> slots ! j \<noteq> d)) \<and>
    length owner = (if al_free_slots al = [] then Suc (length (al_slot_owner al)) else length (al_slot_owner al)) \<and>
    length owner \<le> Suc i"
proof -
  let ?owner = "al_slot_owner al" and ?slots = "al_node_slots al"
  have u32: "as_u32 i = i" "length ?owner < 2 ^ 32" using assms(5,6) by auto
  show ?thesis
  proof (cases "al_free_slots al")
    case Nil
    let ?d = "length ?owner"
    have "choose_destination L i al = Ok (?d, al\<lparr>al_free_slots := [], al_slot_owner := ?owner @ [i]\<rparr>)"
      using Nil u32 by (simp add: choose_destination_def index_u32_def)
    moreover have "slots_ok L (Suc i) (?slots[i := ?d]) (if L ! i = i then [?d] else []) (?owner @ [i])"
      using rel assms(3,4) Nil live_i unfolding slots_ok_def released_ok_def
      by (auto simp: nth_append nth_list_update less_Suc_eq)
    moreover have "\<forall>j < i. i < L ! j \<longrightarrow> ?slots[i := ?d] ! j \<noteq> ?d"
      using rel by (auto simp: released_ok_def)
    ultimately show ?thesis using Nil assms(6)
      by (intro exI [of _ ?d] exI [of _ "[]"] exI [of _ "?owner @ [i]"]) (auto simp: Let_def)
  next
    case (Cons d free)
    have d: "d < length ?owner" "L ! (?owner ! d) \<le> i" "?owner ! d < i" "d \<notin> set free"
      using rel Cons by (auto simp: released_ok_def)
    have "choose_destination L i al = Ok (d, al\<lparr>al_free_slots := free, al_slot_owner := ?owner[d := i]\<rparr>)"
      using Cons d u32 assms(3,4) by (simp add: choose_destination_def sage_at_def sage_put_def)
    moreover have apart: "?slots ! j \<noteq> d" if "j < i" "i < L ! j" for j
      using rel that d(2) by (auto simp: released_ok_def)
    moreover have "slots_ok L (Suc i) (?slots[i := d]) (if L ! i = i then d # free else free) (?owner[d := i])"
      using rel assms(3,4) Cons apart live_i unfolding slots_ok_def released_ok_def
      by (auto simp: nth_list_update less_Suc_eq)
    ultimately show ?thesis using Cons assms(6)
      by (intro exI [of _ d] exI [of _ free] exI [of _ "?owner[d := i]"]) (auto simp: Let_def)
  qed
qed

text \<open>The largest number of values that must be kept at once: those read after \<open>i\<close>, and the new one.\<close>

primrec peak :: "nat list \<Rightarrow> nat \<Rightarrow> nat" where
  "peak L 0 = 0"
| "peak L (Suc i) = max (peak L i) (Suc (card {j. j < i \<and> i < L ! j}))"

text \<open>With every free slot known, the slots in use are exactly those of the live nodes.\<close>

lemma live_slots:
  assumes "released_ok L i slots free owner"
  shows "length owner = length free + card {j. j < i \<and> i < L ! j}"
proof -
  have "bij_betw ((!) slots) {j. j < i \<and> i < L ! j} ({..<length owner} - set free)"
    by (rule bij_betw_byWitness [where f' = "(!) owner"]) (use assms in \<open>auto simp: released_ok_def not_le\<close>)
  then have "card {j. j < i \<and> i < L ! j} = card ({..<length owner} - set free)" by (rule bij_betw_same_card)
  also have "\<dots> = length owner - length free"
    using assms by (subst card_Diff_subset) (auto simp: released_ok_def distinct_card)
  finally show ?thesis
    using card_mono [of "{..<length owner}" "set free"] assms by (auto simp: released_ok_def distinct_card)
qed

fun implements :: "nat list \<Rightarrow> fr list \<Rightarrow> nat \<Rightarrow> node \<Rightarrow> instruction \<Rightarrow> bool" where
  "implements slots constants i (GInput input) instr \<longleftrightarrow>
     instr = \<lparr>in_left = input, in_right = 0, in_destination = slots ! i, in_kind = KInput\<rparr>"
| "implements slots constants i (GConstant c) instr \<longleftrightarrow>
     in_left instr < length constants \<and> constants ! in_left instr = c \<and>
     instr = \<lparr>in_left = in_left instr, in_right = 0, in_destination = slots ! i, in_kind = KConstant\<rparr>"
| "implements slots constants i (GOperation operation l r) instr \<longleftrightarrow>
     instr = \<lparr>in_left = slots ! l, in_right = slots ! r, in_destination = slots ! i, in_kind = KOperation operation\<rparr>"
| "implements slots constants i (GInverse s) instr \<longleftrightarrow>
     instr = \<lparr>in_left = slots ! s, in_right = 0, in_destination = slots ! i, in_kind = KInverse\<rparr>"

lemma implements_extend:
  "implements slots constants i node instr \<Longrightarrow> node_ok len i node \<Longrightarrow> i < k \<Longrightarrow>
    implements (slots[k := d]) (constants @ cs) i node instr"
  by (cases node) (auto simp: nth_append)

definition allocation_ok :: "nat list \<Rightarrow> node_record list \<Rightarrow> allocation \<Rightarrow> bool" where
  "allocation_ok L records al \<longleftrightarrow>
     length (al_instructions al) = length records \<and> length (al_node_slots al) = length L \<and>
     length (al_constants al) \<le> length records \<and>
     slots_ok L (length records) (al_node_slots al) (al_free_slots al) (al_slot_owner al) \<and>
     no_clash L (length records) (al_node_slots al) \<and> length (al_slot_owner al) = peak L (length records) \<and>
     length (al_slot_owner al) \<le> length records \<and>
     (\<forall>i < length records. implements (al_node_slots al) (al_constants al) i (node_of (records ! i)) (al_instructions al ! i))"

definition allocate_record :: "nat list \<Rightarrow> nat \<Rightarrow> node_record \<Rightarrow> allocation \<Rightarrow> (allocation, witness_error) result" where
  "allocate_record L index record al =
     rbind (sage_operands index record al) (\<lambda>((left, right, kind, released), al).
     rbind (rfold released (release_operand L index) al) (\<lambda>al.
     rbind (choose_destination L index al) (\<lambda>(destination, al).
     rbind (sage_put (al_node_slots al) index ''destination slot'' destination) (\<lambda>node_slots.
       let al = al\<lparr>al_node_slots := node_slots,
             al_instructions := al_instructions al @
               [\<lparr>in_left = left, in_right = right, in_destination = destination, in_kind = kind\<rparr>]\<rparr>
       in rbind (sage_at L index ''node liveness'') (\<lambda>last.
            Ok (if last = index then al\<lparr>al_free_slots := destination # al_free_slots al\<rparr> else al))))))"

lemma allocate_node_eq:
  "allocate_node h L i (bs, al) =
    rbind (read_node_record (hd_version h) i (hd_input_buffer_len h) bs) (\<lambda>(r, bs).
      rbind (allocate_record L i r al) (\<lambda>al. Ok (bs, al)))"
  by (simp add: allocate_node_def allocate_record_def Let_def split_def)

lemma sage_operands_ok:
  assumes "record_ok len i r" and "i < length (al_node_slots al)" and "length (al_constants al) < 2 ^ 32"
  shows "\<not> canonical_record r \<Longrightarrow> sage_operands i r al = Err (NonCanonicalConstant i)"
    and "canonical_record r \<Longrightarrow> \<exists>l ri kind cs. sage_operands i r al = Ok ((l, ri, kind, uses r), al\<lparr>al_constants := al_constants al @ cs\<rparr>) \<and>
      length cs \<le> 1 \<and> (\<forall>d. implements ((al_node_slots al)[i := d]) (al_constants al @ cs) i (node_of r)
        \<lparr>in_left = l, in_right = ri, in_destination = d, in_kind = kind\<rparr>)"
proof -
  note defs = sage_operands_def sage_at_def index_u32_def constant_from_bytes_def sf_from_le_bytes_def Let_def
  show "\<not> canonical_record r \<Longrightarrow> sage_operands i r al = Err (NonCanonicalConstant i)"
    using assms by (cases r) (auto simp: defs)
  assume canonical: "canonical_record r"
  let ?goal = "\<lambda>l ri kind cs. sage_operands i r al = Ok ((l, ri, kind, uses r), al\<lparr>al_constants := al_constants al @ cs\<rparr>) \<and>
      length cs \<le> 1 \<and> (\<forall>d. implements ((al_node_slots al)[i := d]) (al_constants al @ cs) i (node_of r)
        \<lparr>in_left = l, in_right = ri, in_destination = d, in_kind = kind\<rparr>)"
  have "case r of RInput k \<Rightarrow> ?goal k 0 KInput []
      | RConstant e \<Rightarrow> ?goal (length (al_constants al)) 0 KConstant [fr_of_nat (nat_of_le e)]
      | ROperation operation l ri \<Rightarrow> ?goal (al_node_slots al ! l) (al_node_slots al ! ri) (KOperation operation) []
      | RInverse s \<Rightarrow> ?goal (al_node_slots al ! s) 0 KInverse []"
    using assms canonical by (cases r) (auto simp: defs)
  then show "\<exists>l ri kind cs. ?goal l ri kind cs" by (cases r) (simp only: node_record.case, blast)+
qed

lemma allocate_record_ok:
  assumes al: "allocation_ok L records al" and r: "record_ok len (length records) r" and rs: "\<forall>i < length records. record_ok len i (records ! i)"
    and n: "length records < length L" "length L \<le> 2 ^ 32" and live: "length records \<le> L ! length records"
    and dead: "\<And>j. j < length records \<Longrightarrow> L ! j = length records \<Longrightarrow> j \<in> set (uses r)"
  shows "\<not> canonical_record r \<Longrightarrow> allocate_record L (length records) r al = Err (NonCanonicalConstant (length records))"
    and "canonical_record r \<Longrightarrow> \<exists>al'. allocate_record L (length records) r al = Ok al' \<and> allocation_ok L (records @ [r]) al'"
proof -
  let ?i = "length records" and ?slots = "al_node_slots al"
  have len: "?i < length ?slots" "length (al_constants al) < 2 ^ 32" "length ?slots = length L"
    using al n by (auto simp: allocation_ok_def)
  note operands = sage_operands_ok [OF r len(1,2)]
  show "\<not> canonical_record r \<Longrightarrow> allocate_record L ?i r al = Err (NonCanonicalConstant ?i)"
    using operands(1) by (simp add: allocate_record_def)
  assume "canonical_record r"
  from operands(2) [OF this] obtain l ri kind cs where ops:
      "sage_operands ?i r al = Ok ((l, ri, kind, uses r), al\<lparr>al_constants := al_constants al @ cs\<rparr>)" "length cs \<le> 1"
      "\<And>d. implements (?slots[?i := d]) (al_constants al @ cs) ?i (node_of r)
        \<lparr>in_left = l, in_right = ri, in_destination = d, in_kind = kind\<rparr>"
    by blast
  define al1 where "al1 = al\<lparr>al_constants := al_constants al @ cs,
      al_free_slots := rev (map ((!) ?slots) (filter (\<lambda>j. L ! j = ?i) (uses r))) @ al_free_slots al\<rparr>"
  have u: "\<forall>j \<in> set (uses r). j < ?i" using uses_less [OF r] by blast
  then have release: "rfold (uses r) (release_operand L ?i) (al\<lparr>al_constants := al_constants al @ cs\<rparr>) = Ok al1"
    using n len by (subst release_eq) (auto simp: al1_def)
  have rel: "released_ok L ?i (al_node_slots al1) (al_free_slots al1) (al_slot_owner al1)"
    unfolding al1_def
    using released_ok_step [of L ?i ?slots "al_free_slots al" "al_slot_owner al" "uses r"] al dead u
    by (auto simp: allocation_ok_def)
  have small: "?i < 2 ^ 32" using n by linarith
  obtain d free owner where d: "choose_destination L ?i al1 = Ok (d, al1\<lparr>al_free_slots := free, al_slot_owner := owner\<rparr>)"
      "slots_ok L (Suc ?i) (?slots[?i := d]) (if L ! ?i = ?i then d # free else free) owner"
      "\<forall>j < ?i. ?i < L ! j \<longrightarrow> ?slots ! j \<noteq> d"
      "length owner = (if al_free_slots al1 = [] then Suc (length (al_slot_owner al)) else length (al_slot_owner al))"
      "length owner \<le> Suc ?i"
    using choose_destination_eq [OF rel live n(1) _ small] al len(3) by (auto simp: al1_def Let_def allocation_ok_def)
  have count: "length owner = peak L (Suc ?i)"
  proof -
    have "al_slot_owner al1 = al_slot_owner al" by (simp add: al1_def)
    then have "length (al_slot_owner al) = length (al_free_slots al1) + card {j. j < ?i \<and> ?i < L ! j}"
      using live_slots [OF rel] by simp
    moreover have "length (al_slot_owner al) = peak L ?i" using al by (simp add: allocation_ok_def)
    ultimately show ?thesis using d(4) by (cases "al_free_slots al1") auto
  qed
  let ?al = "al1\<lparr>al_slot_owner := owner, al_node_slots := ?slots[?i := d],
      al_free_slots := (if L ! ?i = ?i then d # free else free),
      al_instructions := al_instructions al @ [\<lparr>in_left = l, in_right = ri, in_destination = d, in_kind = kind\<rparr>]\<rparr>"
  have "allocate_record L ?i r al = Ok ?al"
    using ops(1) release d(1) n len by (simp add: allocate_record_def sage_put_def sage_at_def Let_def al1_def)
  moreover have "no_clash L (Suc ?i) (?slots[?i := d])"
    using al d(3) n(1) by (auto simp: no_clash_def allocation_ok_def less_Suc_eq)
  moreover have "implements (?slots[?i := d]) (al_constants al @ cs) i (node_of (records ! i)) (al_instructions al ! i)" if "i < ?i" for i
    using implements_extend [of ?slots "al_constants al" i _ _ len ?i] node_of_ok rs al that by (auto simp: allocation_ok_def)
  ultimately show "\<exists>al'. allocate_record L ?i r al = Ok al' \<and> allocation_ok L (records @ [r]) al'"
    using d(2,5) count ops(2,3) al by (auto simp: allocation_ok_def al1_def nth_append less_Suc_eq)
qed

definition allocation_init :: "nat \<Rightarrow> allocation" where
  "allocation_init n = \<lparr>al_instructions = [], al_constants = [], al_node_slots = replicate n 0,
     al_free_slots = [], al_slot_owner = []\<rparr>"

lemma allocations_ok:
  assumes rs: "\<forall>i < length records. record_ok len i (records ! i)" and L: "liveness records (length records) L"
    and n: "length records \<le> 2 ^ 32" and "k \<le> length records"
  shows "if \<forall>r \<in> set (take k records). canonical_record r
    then \<exists>al. rfold (enumerate 0 (take k records)) (\<lambda>(i, r). allocate_record L i r) (allocation_init (length records)) = Ok al \<and>
      allocation_ok L (take k records) al
    else \<exists>i. rfold (enumerate 0 (take k records)) (\<lambda>(i, r). allocate_record L i r) (allocation_init (length records)) =
      Err (NonCanonicalConstant i)"
  using assms(4)
proof (induction k)
  case 0
  have "length L = length records" using L by (simp add: liveness_def)
  then show ?case by (simp add: allocation_ok_def allocation_init_def slots_ok_def no_clash_def)
next
  case (Suc k)
  let ?run = "\<lambda>rs. rfold (enumerate 0 rs) (\<lambda>(i, r). allocate_record L i r) (allocation_init (length records))"
  have k: "k < length records" "length (take k records) = k" using Suc.prems by auto
  have split: "take (Suc k) records = take k records @ [records ! k]" using k by (simp add: take_Suc_conv_app_nth)
  have run: "?run (take (Suc k) records) = rbind (?run (take k records)) (allocate_record L k (records ! k))"
    unfolding split by (simp add: enumerate_append_eq rfold_append rfold_single k)
  show ?case
  proof (cases "\<forall>r \<in> set (take k records). canonical_record r")
    case False
    then obtain i where "?run (take k records) = Err (NonCanonicalConstant i)" using Suc.IH k by (auto simp: if_not_P)
    then show ?thesis using False run by (auto simp: split)
  next
    case True
    then obtain al where al: "?run (take k records) = Ok al" "allocation_ok L (take k records) al"
      using Suc.IH k by auto
    have "length L = length records" using L by (simp add: liveness_def)
    then have step:
        "\<not> canonical_record (records ! k) \<Longrightarrow> allocate_record L k (records ! k) al = Err (NonCanonicalConstant k)"
        "canonical_record (records ! k) \<Longrightarrow> \<exists>al'. allocate_record L k (records ! k) al = Ok al' \<and> allocation_ok L (take (Suc k) records) al'"
      using allocate_record_ok [OF al(2), of len "records ! k"] rs k n live_bounds [OF rs L] unfolding split by auto
    then show ?thesis using True al(1) run by (auto simp: split)
  qed
qed

section \<open>The compiler accepts what the parser accepts\<close>

text \<open>What a compiled program promises about the graph it was made from.\<close>

definition program_of :: "sage_graph \<Rightarrow> witness_graph \<Rightarrow> nat list \<Rightarrow> nat list \<Rightarrow> bool" where
  "program_of s g L slots \<longleftrightarrow>
     length (sg_instructions s) = length (wg_nodes g) \<and> length L = length (wg_nodes g) \<and> length slots = length (wg_nodes g) \<and>
     (\<forall>i < length (wg_nodes g). implements slots (sg_constants s) i (wg_nodes g ! i) (sg_instructions s ! i) \<and>
        slots ! i < sg_slots s \<and> (\<forall>j \<in> set (operands (wg_nodes g ! i)). i \<le> L ! j)) \<and>
     no_clash L (length (wg_nodes g)) slots \<and>
     sg_outputs s = sort_key output_key (map (\<lambda>(signal, node). \<lparr>ow_node = node, ow_signal = signal\<rparr>) (enumerate 0 (wg_signals g))) \<and>
     sg_signal_count s = length (wg_signals g) \<and> sg_limits s = wg_limits g \<and> sg_input_mapping s = wg_input_mapping g \<and>
     sg_input_buffer_len s = wg_input_buffer_len g \<and> sg_r1cs_sha256 s = wg_r1cs_sha256 g \<and>
     length (sg_constants s) \<le> length (wg_nodes g)"

lemma rfold_pair:
  "rfold xs (\<lambda>x (a, b). rbind (f x a) (\<lambda>a. rbind (g x b) (\<lambda>b. Ok (a, b)))) (a, b) = Ok (a', b') \<longleftrightarrow>
    rfold xs f a = Ok a' \<and> rfold xs g b = Ok b'"
  by (induction xs arbitrary: a b) (auto simp: rbind_Ok_iff)

lemma liveness_loop_Ok_iff:
  "rfold [0..<n] (liveness_node limits h) (bs, 0, L0) = Ok (bs', spent, L) \<longleftrightarrow>
    (\<exists>records. reads (hd_version h) (hd_input_buffer_len h) n bs records bs' \<and>
      rfold (enumerate 0 records) (\<lambda>(i, r). cost_charge limits (record_cost r)) 0 = Ok spent \<and>
      rfold (enumerate 0 records) (\<lambda>(i, r). mark_record i r) L0 = Ok L)"
proof -
  let ?f = "\<lambda>i r (spent, L). rbind (cost_charge limits (record_cost r) spent) (\<lambda>spent.
      rbind (mark_record i r L) (\<lambda>L. Ok (spent, L)))"
  have body: "liveness_node limits h i (b, acc) =
      rbind (read_node_record (hd_version h) i (hd_input_buffer_len h) b) (\<lambda>(r, b). rbind (?f i r acc) (\<lambda>acc. Ok (b, acc)))"
    for i b acc
    by (cases acc) (simp add: liveness_node_def split_def)
  have "(\<lambda>(i, r). ?f i r) = (\<lambda>x (spent, L). rbind ((\<lambda>(i, r). cost_charge limits (record_cost r)) x spent)
      (\<lambda>spent. rbind ((\<lambda>(i, r). mark_record i r) x L) (\<lambda>L. Ok (spent, L))))"
    by (simp add: fun_eq_iff split_def)
  then show ?thesis
    unfolding reading_loop_Ok_iff [of "liveness_node limits h", OF body] by (simp only: rfold_pair)
qed

lemma allocation_loop_Ok_iff:
  "rfold [0..<n] (allocate_node h L) (bs, al) = Ok (bs', al') \<longleftrightarrow>
    (\<exists>records. reads (hd_version h) (hd_input_buffer_len h) n bs records bs' \<and>
      rfold (enumerate 0 records) (\<lambda>(i, r). allocate_record L i r) al = Ok al')"
  by (rule reading_loop_Ok_iff [OF allocate_node_eq])

lemma sage_outputs_ok:
  assumes "length signals < 2 ^ 32" and "\<forall>s \<in> set signals. s < 2 ^ 32"
  shows "rmap sage_output (enumerate 0 signals) =
    Ok (map (\<lambda>(signal, node). \<lparr>ow_node = node, ow_signal = signal\<rparr>) (enumerate 0 signals))"
  using assms by (intro rmap_Ok) (auto simp: sage_output_def index_u32_def in_set_enumerate_eq)

lemma compile_decoded:
  assumes d: "decodes limits bytes h records signals mappings" and canonical: "\<forall>r \<in> set records. canonical_record r"
  shows "\<exists>s L slots. compile bytes limits sha = Ok s \<and> program_of s (graph_of limits h records signals mappings) L slots \<and>
    sg_source_graph_sha256 s = sha \<and> sg_slots s = peak L (length records) \<and> liveness records (length records) L"
proof -
  obtain bs bs' bs'' where h: "read_header limits bytes = Ok (h, bs)" "preflight_body_size h (length bs) = Ok ()"
      "reads (hd_version h) (hd_input_buffer_len h) (hd_node_count h) bs records bs'"
      "saturate (\<Sum>r\<leftarrow>records. record_cost r) \<le> lm_evaluation_cost limits"
      "read_output_references h bs' = Ok (signals, bs'')" "read_input_mappings h bs'' = Ok (mappings, [])"
    using d by (auto simp: decodes_def)
  note ok = decodes_ok [OF d]
  have n: "hd_node_count h = length records" "length records \<le> 2 ^ 32" "records \<noteq> []" using ok by auto
  have rs: "\<forall>i < length records. record_ok (hd_input_buffer_len h) i (records ! i)" using ok by auto
  obtain spent where spent: "rfold (enumerate 0 records) (\<lambda>(i, r). cost_charge limits (record_cost r)) 0 = Ok spent"
    using h(4) n(3) charges_accept_iff by blast
  obtain L where L: "rfold (enumerate 0 records) (\<lambda>(i, r). mark_record i r) (map as_u32 [0..<length records]) = Ok L"
      "liveness records (length records) L"
    using liveness_ok [OF rs _ n(2)] by auto
  obtain al where al: "rfold (enumerate 0 records) (\<lambda>(i, r). allocate_record L i r) (allocation_init (length records)) = Ok al"
      "allocation_ok L records al"
    using allocations_ok [OF rs L(2) n(2), of "length records"] canonical by auto
  have pass1: "rfold [0..<length records] (liveness_node limits h) (bs, 0, map as_u32 [0..<length records]) = Ok (bs', spent, L)"
    using h(3) spent L(1) n(1) liveness_loop_Ok_iff by metis
  have pass2: "rfold [0..<length records] (allocate_node h L) (bs, allocation_init (length records)) = Ok (bs', al)"
    using h(3) al(1) n(1) allocation_loop_Ok_iff by metis
  have outputs: "rmap sage_output (enumerate 0 signals) =
      Ok (map (\<lambda>(signal, node). \<lparr>ow_node = node, ow_signal = signal\<rparr>) (enumerate 0 signals))"
    using ok by (intro sage_outputs_ok) auto
  let ?s = "\<lparr>sg_limits = limits, sg_instructions = al_instructions al, sg_constants = al_constants al,
      sg_outputs = sort_key output_key (map (\<lambda>(signal, node). \<lparr>ow_node = node, ow_signal = signal\<rparr>) (enumerate 0 signals)),
      sg_input_mapping = mappings, sg_input_buffer_len = hd_input_buffer_len h, sg_signal_count = hd_signal_count h,
      sg_slots = length (al_slot_owner al), sg_r1cs_sha256 = hd_r1cs_sha256 h, sg_source_graph_sha256 = sha\<rparr>"
  have "compile bytes limits sha = Ok ?s"
    using h pass1 pass2 outputs n(1) by (simp add: compile_def Let_def allocation_init_def)
  moreover have "program_of ?s (graph_of limits h records signals mappings) L (al_node_slots al)"
  proof -
    have "length L = length records" "length signals = hd_signal_count h" using L(2) ok by (auto simp: liveness_def)
    moreover have "length (al_instructions al) = length records" "length (al_node_slots al) = length L"
        "length (al_constants al) \<le> length records" "no_clash L (length records) (al_node_slots al)"
        "\<forall>i < length records. implements (al_node_slots al) (al_constants al) i (node_of (records ! i)) (al_instructions al ! i)"
      using al(2) by (simp_all add: allocation_ok_def)
    moreover have "\<forall>i < length records. al_node_slots al ! i < length (al_slot_owner al)"
      using al(2) unfolding allocation_ok_def slots_ok_def by blast
    ultimately show ?thesis
      using live_uses [OF rs L(2)] by (simp add: program_of_def graph_of_def operands_of)
  qed
  ultimately show ?thesis using al(2) L(2) by (auto simp: allocation_ok_def)
qed

lemma compile_OkD:
  assumes "compile bytes limits sha = Ok s"
  shows "\<exists>h records signals mappings. decodes limits bytes h records signals mappings \<and> (\<forall>r \<in> set records. canonical_record r)"
proof -
  from assms obtain h bs bs' spent L signals bs'' mappings b2 al where c:
      "read_header limits bytes = Ok (h, bs)" "preflight_body_size h (length bs) = Ok ()"
      "rfold [0..<hd_node_count h] (liveness_node limits h) (bs, 0, map as_u32 [0..<hd_node_count h]) = Ok (bs', spent, L)"
      "read_output_references h bs' = Ok (signals, bs'')" "read_input_mappings h bs'' = Ok (mappings, [])"
      "rfold [0..<hd_node_count h] (allocate_node h L) (bs, allocation_init (hd_node_count h)) = Ok (b2, al)"
    by (auto simp: compile_def Let_def rbind_Ok_iff allocation_init_def)
  from c(3) obtain records where r: "reads (hd_version h) (hd_input_buffer_len h) (hd_node_count h) bs records bs'"
      "rfold (enumerate 0 records) (\<lambda>(i, r). cost_charge limits (record_cost r)) 0 = Ok spent"
      "rfold (enumerate 0 records) (\<lambda>(i, r). mark_record i r) (map as_u32 [0..<hd_node_count h]) = Ok L"
    by (auto simp: liveness_loop_Ok_iff)
  have "records \<noteq> []" using reads_ok [OF r(1)] read_header_ok [OF c(1)] by auto
  then have "saturate (\<Sum>r\<leftarrow>records. record_cost r) \<le> lm_evaluation_cost limits"
    using charges_accept_iff r(2) by blast
  then have d: "decodes limits bytes h records signals mappings" using c(1,2,4,5) r(1) by (auto simp: decodes_def)
  note ok = decodes_ok [OF d]
  have n: "hd_node_count h = length records" "length records \<le> 2 ^ 32" using ok by auto
  have rs: "\<forall>i < length records. record_ok (hd_input_buffer_len h) i (records ! i)" using ok by auto
  have "liveness records (length records) L" using liveness_ok [OF rs _ n(2)] r(3) n(1) by auto
  moreover obtain records2 where "reads (hd_version h) (hd_input_buffer_len h) (hd_node_count h) bs records2 b2"
      and second: "rfold (enumerate 0 records2) (\<lambda>(i, r). allocate_record L i r) (allocation_init (length records)) = Ok al"
    using c(6) n(1) by (auto simp: allocation_loop_Ok_iff)
  then have "records2 = records" using reads_unique [OF r(1)] by blast
  ultimately have "\<forall>r \<in> set records. canonical_record r"
    using allocations_ok [OF rs _ n(2), of L "length records"] second by (auto split: if_splits)
  then show ?thesis using d by blast
qed

end
