(* ===== verification/Graph_Correct.thy ===== *)
theory Graph_Correct
  imports Graph_Run
begin

text \<open>
  What the graph parser and the evaluator promise, stated on the operations of
  \<open>crates/witness/src/lib.rs\<close>, with the five-node graph \<open>a * a + 1\<close> of the crate's own tests
  as the concrete instance.
\<close>

section \<open>Reading what was written\<close>

lemma rd_take_append: "length v = n \<Longrightarrow> rd_take n (v @ bs) = Ok (v, bs)"
  by (auto simp: rd_take_def)

lemma rd_u8_Cons: "rd_u8 (b # bs) = Ok (unat b, bs)"
  by (simp add: rd_u8_def rd_take_def)

lemma rd_uint_append: "n < 256 ^ k \<Longrightarrow> rd_uint k (nat_to_le k n @ bs) = Ok (n, bs)"
  by (simp add: rd_uint_def rd_take_append)

lemma rd_uints_append:
  "n < 2 ^ 16 \<Longrightarrow> rd_u16 (nat_to_le 2 n @ bs) = Ok (n, bs)"
  "n < 2 ^ 32 \<Longrightarrow> rd_u32 (nat_to_le 4 n @ bs) = Ok (n, bs)"
  "n < 2 ^ 64 \<Longrightarrow> rd_u64 (nat_to_le 8 n @ bs) = Ok (n, bs)"
  by (simp_all add: rd_u16_def rd_u32_def rd_u64_def rd_uint_append)

lemma rd_uints_end:
  "n < 2 ^ 32 \<Longrightarrow> rd_u32 (nat_to_le 4 n) = Ok (n, [])"
  using rd_uints_append(2) [of n "[]"] by simp

lemma fr_one: "fr_of_nat (Suc 0) = 1"
  by (rule fr_eqI) (simp add: fr_modulus_def)

section \<open>A concrete graph\<close>

definition sample_graph :: "byte list" where
  "sample_graph =
     legacy_magic @ nat_to_le 2 1 @ nat_to_le 2 1 @ nat_to_le 4 64 @ replicate 32 7 @
     nat_to_le 4 5 @ nat_to_le 4 2 @ nat_to_le 4 1 @ nat_to_le 4 2 @
     1 # nat_to_le 32 1 @
     0 # nat_to_le 4 1 @
     2 # 0 # nat_to_le 4 1 @ nat_to_le 4 1 @
     1 # nat_to_le 32 1 @
     2 # 2 # nat_to_le 4 2 @ nat_to_le 4 3 @
     nat_to_le 4 0 @ nat_to_le 4 4 @
     nat_to_le 8 (unat (fnv1a [97])) @ nat_to_le 4 1 @ nat_to_le 4 1"

definition sample_nodes :: "node list" where
  "sample_nodes = [GConstant 1, GInput 1, GOperation OpMul 1 1, GConstant 1, GOperation OpAdd 2 3]"

lemma sample_constant: "constant_from_bytes (nat_to_le 32 (Suc 0)) i = Ok 1"
  by (simp add: constant_from_bytes_def sf_from_le_bytes_def Let_def fr_modulus_def fr_one)

lemma length_legacy [simp]: "length legacy_magic = 8"
  by (simp add: legacy_magic_def)

lemmas rd_eval = rd_take_append rd_uints_append rd_uints_append [of "Suc 0"] rd_uints_end rd_u8_Cons

definition sample_header :: header where
  "sample_header = \<lparr>hd_magic = legacy_magic, hd_version = V1, hd_r1cs_sha256 = replicate 32 7, hd_node_count = 5,
     hd_signal_count = 2, hd_input_mapping_count = 1, hd_input_buffer_len = 2\<rparr>"

definition sample_body :: "byte list" where
  "sample_body = 
     1 # nat_to_le 32 1 @
     0 # nat_to_le 4 1 @
     2 # 0 # nat_to_le 4 1 @ nat_to_le 4 1 @
     1 # nat_to_le 32 1 @
     2 # 2 # nat_to_le 4 2 @ nat_to_le 4 3 @
     nat_to_le 4 0 @ nat_to_le 4 4 @
     nat_to_le 8 (unat (fnv1a [97])) @ nat_to_le 4 1 @ nat_to_le 4 1"

lemma sample_read_header:
  "read_header limits_client sample_graph = Ok (sample_header, sample_body)"
  by (simp add: sample_graph_def sample_header_def sample_body_def read_header_def rd_eval length_legacy read_version_def
    format_version_v1_def format_version_v2_def field_bn254_fr_def header_size_def checked_count_def limits_client_def)

lemma sample_hash_bound: "unat (fnv1a [97]) < 18446744073709551616"
  using unsigned_less [of "fnv1a [97]"] by simp

definition sample_parsed :: witness_graph where
  "sample_parsed = \<lparr>wg_limits = limits_client, wg_nodes = sample_nodes, wg_signals = [0, 4],
     wg_input_mapping = [\<lparr>im_hash = unat (fnv1a [97]), im_signal_id = 1, im_signal_size = 1\<rparr>], wg_input_buffer_len = 2,
     wg_r1cs_sha256 = replicate 32 7, wg_magic = legacy_magic, wg_format_version = 1\<rparr>"

lemma sample_parse: "parse_graph sample_graph limits_client = Ok sample_parsed"
proof -
  have u: "[0..<5] = [0, 1, 2, 3, 4::nat]" "[0..<2] = [0, 1::nat]" "[0..<1] = [0::nat]" by (simp_all add: upt_rec)
  have "rfold [0..<5] (parse_node limits_client sample_header) (sample_body, 0, []) = Ok (drop 91 sample_body, 5, sample_nodes)"
    unfolding u
    by (simp add: parse_node_def sample_header_def sample_body_def read_node_record_def rd_eval sample_constant
      checked_input_def validate_reference_def operation_from_tag_def wire_operations_def cost_charge_def limits_client_def load_cost_def sample_nodes_def)
  moreover have tail: "drop 91 sample_body = nat_to_le 4 0 @ nat_to_le 4 4 @
     nat_to_le 8 (unat (fnv1a [97])) @ nat_to_le 4 1 @ nat_to_le 4 1" by (simp add: sample_body_def)
  moreover have "preflight_body_size sample_header (length sample_body) = Ok ()"
    by (simp add: preflight_body_size_def sample_header_def sample_body_def checked_mul_def checked_add_def usize_bits_def)
  moreover have "read_output_references sample_header (drop 91 sample_body) =
      Ok ([0, 4], nat_to_le 8 (unat (fnv1a [97])) @ nat_to_le 4 1 @ nat_to_le 4 1)"
    unfolding tail by (simp add: sample_header_def u read_output_references_def rd_eval read_output_v1_def)
  moreover have "read_input_mappings sample_header (nat_to_le 8 (unat (fnv1a [97])) @ nat_to_le 4 1 @ nat_to_le 4 1) =
      Ok ([\<lparr>im_hash = unat (fnv1a [97]), im_signal_id = 1, im_signal_size = 1\<rparr>], [])"
    by (simp add: sample_header_def u rd_eval read_input_mappings_def read_input_mapping_def sample_hash_bound check_input_ranges_def
      check_input_range_def checked_add_def usize_bits_def)
  moreover have "hd_node_count sample_header = 5" by (simp add: sample_header_def)
  ultimately show ?thesis
    by (simp only: parse_graph_def sample_read_header rbind.simps split) (simp add: sample_parsed_def sample_header_def format_version_v1_def)
qed


section \<open>Evaluation\<close>

lemma evaluation_of_ok_graph:
  assumes g: "graph_ok g" and inputs: "length inputs = wg_input_buffer_len g"
  shows "rfold (enumerate 0 (wg_nodes g)) (evaluate_node inputs) [] \<noteq> Panic"
    and "rfold (enumerate 0 (wg_nodes g)) (evaluate_node inputs) [] = Ok vals \<longleftrightarrow> graph_solution inputs (wg_nodes g) vals"
  using evaluation_Ok_iff [of "wg_nodes g" "wg_input_buffer_len g" inputs vals] g inputs by (simp_all add: graph_ok_def)

lemma signals_of_ok_graph:
  assumes "graph_ok g" and "length vals = length (wg_nodes g)"
  shows "rmap (idx vals) (wg_signals g) = Ok (map ((!) vals) (wg_signals g))"
  using assms by (intro rmap_Ok) (auto simp: graph_ok_def)

lemma graph_inputs_ok:
  assumes "graph_ok g"
  shows "build_input_buffer decode (wg_input_mapping g) (wg_input_buffer_len g) json limits \<noteq> Panic"
    and "build_input_buffer decode (wg_input_mapping g) (wg_input_buffer_len g) json limits = Ok inputs \<Longrightarrow>
      length inputs = wg_input_buffer_len g"
  using assms build_input_buffer_safe build_input_buffer_length by (auto simp: graph_ok_def)

lemma calculate_json_safe:
  assumes "graph_ok g"
  shows "calculate_json decode g json \<noteq> Panic"
proof -
  have "rmap (idx vals) (wg_signals g) \<noteq> (Panic :: (_, witness_error) result)"
    if "rfold (enumerate 0 (wg_nodes g)) (evaluate_node inputs) [] = Ok vals" "length inputs = wg_input_buffer_len g" for inputs vals
  proof -
    have "length vals = length (wg_nodes g)"
      using that evaluation_of_ok_graph(2) [OF assms that(2)] graph_solution_length by blast
    then have "rmap (idx vals) (wg_signals g) = (Ok (map ((!) vals) (wg_signals g)) :: (_, witness_error) result)"
      by (rule signals_of_ok_graph [OF assms])
    then show ?thesis by simp
  qed
  then show ?thesis
    using graph_inputs_ok [OF assms] evaluation_of_ok_graph(1) [OF assms]
    by (fastforce simp: calculate_json_def calculate_json_into_def rbind_Panic_iff Let_def)
qed

lemma calculate_json_Ok_iff:
  assumes g: "graph_ok g"
  shows "calculate_json decode g json = Ok assignment \<longleftrightarrow>
    (\<exists>inputs vals. build_input_buffer decode (wg_input_mapping g) (wg_input_buffer_len g) json (wg_limits g) = Ok inputs \<and>
      graph_solution inputs (wg_nodes g) vals \<and> assignment = map ((!) vals) (wg_signals g) \<and> hd assignment = 1)"
proof (cases "build_input_buffer decode (wg_input_mapping g) (wg_input_buffer_len g) json (wg_limits g)")
  case (Ok inputs)
  have len: "length inputs = wg_input_buffer_len g" by (rule graph_inputs_ok(2) [OF g Ok])
  have signals: "wg_signals g \<noteq> []" using g by (auto simp: graph_ok_def)
  show ?thesis
  proof (cases "rfold (enumerate 0 (wg_nodes g)) (evaluate_node inputs) []")
    case eval: (Ok vals)
    then have solution: "graph_solution inputs (wg_nodes g) vs \<longleftrightarrow> vs = vals" for vs
      using evaluation_of_ok_graph(2) [OF g len, of vs] by auto
    then have "length vals = length (wg_nodes g)" using graph_solution_length by blast
    then have "rmap (idx vals) (wg_signals g) = (Ok (map ((!) vals) (wg_signals g)) :: (_, witness_error) result)"
      by (rule signals_of_ok_graph [OF g])
    moreover have "get (map ((!) vals) (wg_signals g)) 0 = Some (hd (map ((!) vals) (wg_signals g)))"
      using signals by (simp add: hd_map hd_conv_nth)
    ultimately have "calculate_json decode g json =
        (if hd (map ((!) vals) (wg_signals g)) = 1 then Ok (map ((!) vals) (wg_signals g)) else Err InvalidAssignmentOne)"
      using Ok eval by (simp add: calculate_json_def calculate_json_into_def Let_def fr_one guard_def)
    then show ?thesis using Ok solution by auto
  qed (use Ok evaluation_of_ok_graph(2) [OF g len] in \<open>auto simp: calculate_json_def calculate_json_into_def\<close>)
qed (simp_all add: calculate_json_def calculate_json_into_def)

section \<open>Decompression\<close>

lemma decompress_loop_bound:
  "decompress_loop maximum declared rs decoded = Ok out \<Longrightarrow> length decoded \<le> maximum \<Longrightarrow> length out \<le> maximum"
  by (induction maximum declared rs decoded rule: decompress_loop.induct)
    (auto simp: rbind_Ok_iff split: if_splits option.splits)

lemma decompress_loop_safe: "decompress_loop maximum declared rs decoded \<noteq> Panic"
  by (induction rs arbitrary: decoded) (auto simp: rbind_Panic_iff)

lemma open_zstd_safe: "open_zstd zstd bytes window \<noteq> Panic"
  by (simp add: open_zstd_def split: zstd_open.splits)

lemma finish_zstd_safe: "finish_zstd stream bytes \<noteq> Panic"
  by (simp add: finish_zstd_def rbind_Panic_iff)

lemma decompress_graph_safe: "decompress_graph zstd bytes limits \<noteq> Panic"
  using open_zstd_safe finish_zstd_safe decompress_loop_safe
  by (simp add: decompress_graph_def decompress_graph_with_limits_def rbind_Panic_iff Let_def)

lemma decompress_graph_bound: "decompress_graph zstd bytes limits = Ok raw \<Longrightarrow> length raw \<le> lm_graph_bytes limits"
  by (auto simp: decompress_graph_def decompress_graph_with_limits_def rbind_Ok_iff Let_def dest: decompress_loop_bound)

section \<open>Properties\<close>

text \<open>C25: The parser of witness graphs never panics, whatever bytes it is given, and a graph it
  accepts is well formed: counts are within the caller's limits and not zero, every
  operand is an earlier node and every input read is inside the buffer, every output names
  a node, input signals have distinct hashes, lie inside the buffer, leave position 0 to the
  constant one and pairwise nest or are disjoint, and the total evaluation cost is
  within the limit.\<close>

theorem accepted_graphs_are_wellformed:
  "case parse_graph bytes limits of
     Ok g \<Rightarrow> graph_ok g \<and> wg_limits g = limits
   | Err e \<Rightarrow> True
   | Panic \<Rightarrow> False"
  using parse_graph_safe [of bytes limits] parsed_graph_ok [of bytes limits]
  by (simp split: result.splits)

text \<open>C26: Evaluation of an accepted graph never panics, and it returns an assignment exactly when
  the JSON text is within its limit and decodes to one object whose every entry names an
  input signal, once each by its hash, with exactly the declared number of field values, the
  node equations over these inputs have a solution (it is unique), and output 0 is the constant
  one; the assignment lists the solution at the output nodes.\<close>

theorem evaluation_solves_the_graph:
  assumes "parse_graph bytes limits = Ok g"
  shows "calculate_json decode g json \<noteq> Panic \<and>
    (calculate_json decode g json = Ok assignment \<longleftrightarrow>
      (\<exists>entries vals. length json \<le> lm_input_json_bytes limits \<and> decode json = (JObject entries True, True) \<and>
        (\<forall>e \<in> set entries. entry_values (wg_input_mapping g) e \<noteq> None) \<and>
        distinct (map (\<lambda>e. fnv1a (fst e)) entries) \<and>
        graph_solution (fold (place_entry (wg_input_mapping g)) entries (1 # replicate (wg_input_buffer_len g - 1) 0))
          (wg_nodes g) vals \<and>
        assignment = map ((!) vals) (wg_signals g) \<and> hd assignment = 1)) \<and>
    (length inputs = wg_input_buffer_len g \<longrightarrow> graph_solution inputs (wg_nodes g) v \<longrightarrow>
      graph_solution inputs (wg_nodes g) w \<longrightarrow> v = w)"
proof -
  have g: "graph_ok g" "wg_limits g = limits" using parsed_graph_ok [OF assms] by auto
  then have m: "mappings_ok (wg_input_buffer_len g) (wg_input_mapping g)" "0 < wg_input_buffer_len g"
    by (simp_all add: graph_ok_def)
  have "length inputs = wg_input_buffer_len g \<Longrightarrow> graph_solution inputs (wg_nodes g) v \<Longrightarrow>
      graph_solution inputs (wg_nodes g) w \<Longrightarrow> v = w"
    using evaluation_of_ok_graph(2) [OF g(1), of inputs v] evaluation_of_ok_graph(2) [OF g(1), of inputs w] by auto
  then show ?thesis
    using calculate_json_safe [OF g(1), of decode json] calculate_json_Ok_iff [OF g(1), of decode json assignment]
      build_input_buffer_Ok_iff [OF m, of decode json limits] g(2)
    by auto
qed

definition sample_input :: "byte list \<Rightarrow> json \<times> bool" where
  "sample_input json = (JObject [([97], JUnsigned 5)] True, True)"

theorem evaluation_solves_the_graph_witness:
  "calculate_json sample_input sample_parsed [] = Ok [1, 26]"
proof -
  have "\<exists>entries vals. sample_input [] = (JObject entries True, True) \<and>
      (\<forall>e \<in> set entries. entry_values (wg_input_mapping sample_parsed) e \<noteq> None) \<and>
      distinct (map (\<lambda>e. fnv1a (fst e)) entries) \<and>
      graph_solution (fold (place_entry (wg_input_mapping sample_parsed)) entries (1 # replicate (wg_input_buffer_len sample_parsed - 1) 0))
        (wg_nodes sample_parsed) vals \<and>
      [1, 26] = map ((!) vals) (wg_signals sample_parsed) \<and> hd [1, 26] = (1 :: fr)"
    by (intro exI [of _ "[([97], JUnsigned 5)]"] exI [of _ "[1, 5, 25, 1, 26]"])
      (simp add: sample_input_def sample_parsed_def entry_values_def mapping_of_def place_entry_def splice_def of_nat_fr [symmetric]
        graph_solution_def sample_nodes_def node_equation_def less_Suc_eq eval_nat_numeral)
  then show ?thesis
    using evaluation_solves_the_graph [OF sample_parse, of sample_input "[]" "[1, 26]"] by simp
qed

text \<open>The graph operations, read as operations on integers: comparisons order field elements
  as integers balanced around zero, shifts and bitwise operations work on canonical
  representatives (a left shift keeps 254 bits, a shift by 256 or more is an error), integer
  division and remainder are those of the representatives, and only a zero divisor is an
  error.\<close>

theorem operations_on_integers:
  "operation_evaluate OpLt i l r = Ok (bool_field (balanced l < balanced r)) \<and>
   operation_evaluate OpGt i l r = Ok (bool_field (balanced r < balanced l)) \<and>
   operation_evaluate OpLeq i l r = Ok (bool_field (balanced l \<le> balanced r)) \<and>
   operation_evaluate OpGeq i l r = Ok (bool_field (balanced r \<le> balanced l)) \<and>
   operation_evaluate OpShl i l r =
     (if 256 \<le> fr_rep r then Err (InvalidShift i) else Ok (fr_of_nat (fr_rep l * 2 ^ fr_rep r mod 2 ^ 254))) \<and>
   operation_evaluate OpShr i l r =
     (if 256 \<le> fr_rep r then Err (InvalidShift i) else Ok (fr_of_nat (fr_rep l div 2 ^ fr_rep r))) \<and>
   operation_evaluate OpBitAnd i l r = Ok (fr_of_nat (fr_rep l AND fr_rep r)) \<and>
   operation_evaluate OpBitOr i l r = Ok (fr_of_nat (fr_rep l OR fr_rep r)) \<and>
   operation_evaluate OpBitXor i l r = Ok (fr_of_nat (fr_rep l XOR fr_rep r)) \<and>
   operation_evaluate OpMod i l r = (if r = 0 then Err (DivisionByZero i) else Ok (fr_of_nat (fr_rep l mod fr_rep r))) \<and>
   operation_evaluate OpIntegerDiv i l r =
     (if r = 0 then Err (DivisionByZero i) else Ok (fr_of_nat (fr_rep l div fr_rep r))) \<and>
   operation_evaluate OpInv i l r = (if l = 0 then Err (DivisionByZero i) else Ok (inverse l)) \<and>
   operation_evaluate OpDiv i l r = (if r = 0 then Err (DivisionByZero i) else Ok (l / r)) \<and>
   operation_evaluate OpPow i l r = Ok (l ^ fr_rep r)"
proof -
  have zero: "fr_rep r = 0 \<longleftrightarrow> r = 0" by (simp add: fr_eq_iff)
  have cmp: "compare_balanced l r = Less \<longleftrightarrow> balanced l < balanced r" "compare_balanced l r = Greater \<longleftrightarrow> balanced r < balanced l"
    by (simp_all add: compare_balanced_eq)
  show ?thesis
    by (simp add: cmp shift_field_eq bigint_bitwise integer_division_def Let_def guard_def zero fr_inverse_eq
      divide_inverse not_less)
qed

text \<open>Declared input ranges of positive size are accepted exactly when any two of them nest
  or are disjoint.\<close>

theorem input_ranges_decided:
  assumes "\<forall>r \<in> set ranges. 0 < snd r"
  shows "check_input_ranges ranges \<noteq> Panic \<and>
    (check_input_ranges ranges = Ok () \<longleftrightarrow>
      (\<forall>i < length ranges. \<forall>j < length ranges. nested_or_disjoint (ranges ! i) (ranges ! j)))"
  using check_input_ranges_Ok_iff [OF assms] check_input_ranges_safe by blast

theorem input_ranges_decided_witness:
  "check_input_ranges [(1, 4), (2, 2), (7, 1)] = Ok () \<and> check_input_ranges [(1, 3), (2, 4)] \<noteq> Ok ()"
proof
  show "check_input_ranges [(1, 4), (2, 2), (7, 1)] = Ok ()"
    using input_ranges_decided [of "[(1, 4), (2, 2), (7, 1)]"] by (simp add: nested_or_disjoint_def less_Suc_eq)
  show "check_input_ranges [(1, 3), (2, 4)] \<noteq> Ok ()"
  proof
    assume "check_input_ranges [(1, 3), (2, 4)] = Ok ()"
    then have "nested_or_disjoint ([(1, 3), (2, 4)] ! 0) ([(1, 3), (2, 4)] ! 1)"
      using input_ranges_decided [of "[(1, 3), (2, 4)]"] by (simp add: nested_or_disjoint_def less_Suc_eq) blast
    then show False by (simp add: nested_or_disjoint_def)
  qed
qed

text \<open>C27: A graph is loaded only from bytes whose SHA-256 digest is the expected one (compared without
  regard to case), which are within the size limit of their kind; a compressed artifact is
  decompressed to at most the raw limit, and what is parsed is exactly the raw or the
  decompressed bytes.  Loading never panics.\<close>

theorem loaded_graphs_are_authentic:
  "case graph_from_bytes sha zstd bytes expected limits of
     Ok g \<Rightarrow> to_hex (sha bytes) = to_ascii_lowercase expected \<and>
       (if is_zstd_artifact bytes
        then length bytes \<le> lm_compressed_graph_bytes limits \<and>
          (\<exists>raw. decompress_graph zstd bytes limits = Ok raw \<and> length raw \<le> lm_graph_bytes limits \<and> parse_graph raw limits = Ok g)
        else length bytes \<le> lm_graph_bytes limits \<and> parse_graph bytes limits = Ok g)
   | Err e \<Rightarrow> True
   | Panic \<Rightarrow> False"
proof -
  have "graph_from_bytes sha zstd bytes expected limits \<noteq> Panic"
    using decompress_graph_safe parse_graph_safe
    by (auto simp: graph_from_bytes_def authenticate_def verify_sha256_def Let_def rbind_Panic_iff split: artifact.splits if_splits)
  moreover have "decompress_graph zstd bytes limits = Ok raw \<Longrightarrow> length raw \<le> lm_graph_bytes limits" for raw
    by (rule decompress_graph_bound)
  ultimately show ?thesis
    by (auto simp: graph_from_bytes_def authenticate_def verify_sha256_def Let_def rbind_Ok_iff split: result.splits artifact.splits if_splits)
qed

end
