(* ===== verification/Sage_Run.thy ===== *)
theory Sage_Run
  imports Sage_Compile Graph_Correct
begin

text \<open>
  A compiled program computes the assignment of the default evaluator: at every step the
  slot of a node that is still read holds its value, and the outputs of the nodes run so
  far are written.
\<close>

section \<open>Outputs\<close>

lemma write_outputs_eq:
  "write_outputs outputs i v assignment k =
    (let ws = takeWhile (\<lambda>w. ow_node w = i) (drop k outputs)
     in rbind (rfold ws (\<lambda>w a. sage_put a (ow_signal w) ''output signal'' v) assignment) (\<lambda>a. Ok (a, k + length ws)))"
proof (induction outputs i v assignment k rule: write_outputs.induct)
  case (1 outputs i v assignment k)
  show ?case
  proof (cases "k < length outputs")
    case False
    then show ?thesis by (simp add: write_outputs.simps)
  next
    case True
    have drop: "drop k outputs = outputs ! k # drop (Suc k) outputs" using True by (simp add: Cons_nth_drop_Suc)
    show ?thesis
    proof (cases "ow_node (outputs ! k) = i")
      case False
      then show ?thesis using True by (simp add: write_outputs.simps [of outputs i] drop)
    next
      case node: True
      have IH: "write_outputs outputs i v a (k + 1) =
          (let ws = takeWhile (\<lambda>w. ow_node w = i) (drop (k + 1) outputs)
           in rbind (rfold ws (\<lambda>w a. sage_put a (ow_signal w) ''output signal'' v) a) (\<lambda>a. Ok (a, k + 1 + length ws)))"
        if "sage_put assignment (ow_signal (outputs ! k)) ''output signal'' v = Ok a" for a
        using 1 [of "outputs ! k" a] True node that by simp
      show ?thesis
        using True node IH
        by (cases "sage_put assignment (ow_signal (outputs ! k)) ''output signal'' v")
          (simp_all add: write_outputs.simps [of outputs i v assignment] drop Let_def)
    qed
  qed
qed

lemma sorted_block:
  fixes f :: "'a \<Rightarrow> nat"
  shows "sorted (map f xs) \<Longrightarrow>
    takeWhile (\<lambda>x. f x = i) (drop (length (filter (\<lambda>x. f x < i) xs)) xs) = filter (\<lambda>x. f x = i) xs"
proof (induction xs)
  case (Cons x xs)
  show ?case
  proof (cases "f x < i")
    case True
    then show ?thesis using Cons by simp
  next
    case False
    then have none: "filter (\<lambda>x. f x < i) xs = []" using Cons.prems by (auto simp: filter_empty_conv)
    have above: "filter (\<lambda>x. f x = i) xs = []" if "i < f x" using Cons.prems that by (auto simp: filter_empty_conv)
    show ?thesis using Cons False none above by (cases "f x = i") auto
  qed
qed simp

lemma output_puts:
  assumes "\<forall>w \<in> set ws. ow_signal w < length a"
  shows "\<exists>a'. rfold ws (\<lambda>w a. sage_put a (ow_signal w) what v) a = Ok a' \<and> length a' = length a \<and>
    (\<forall>s < length a. a' ! s = (if s \<in> ow_signal ` set ws then v else a ! s))"
  using assms
proof (induction ws arbitrary: a)
  case (Cons w ws)
  then have "\<forall>w \<in> set ws. ow_signal w < length (a[ow_signal w0 := v])" for w0 by simp
  from Cons.IH [OF this, of w] obtain a' where "rfold ws (\<lambda>w a. sage_put a (ow_signal w) what v) (a[ow_signal w := v]) = Ok a'"
      "length a' = length a" "\<forall>s < length a. a' ! s = (if s \<in> ow_signal ` set ws then v else a[ow_signal w := v] ! s)" by auto
  then show ?case using Cons.prems by (auto simp: sage_put_def nth_list_update)
qed simp

lemma program_outputs:
  assumes "program_of s g L slots"
  shows "sorted (map ow_node (sg_outputs s))" "length (sg_outputs s) = length (wg_signals g)"
    and "set (sg_outputs s) = {\<lparr>ow_node = wg_signals g ! i, ow_signal = i\<rparr> | i. i < length (wg_signals g)}"
proof -
  let ?ws = "map (\<lambda>(signal, node). \<lparr>ow_node = node, ow_signal = signal\<rparr>) (enumerate 0 (wg_signals g))"
  have outs: "sg_outputs s = sort_key output_key ?ws" using assms by (simp add: program_of_def)
  have "sorted (map output_key (sg_outputs s))" by (simp add: outs)
  then show "sorted (map ow_node (sg_outputs s))"
    by (auto simp: sorted_map output_key_def less_eq_prod_def elim!: sorted_wrt_mono_rel [rotated])
  show "length (sg_outputs s) = length (wg_signals g)" by (simp add: outs)
  show "set (sg_outputs s) = {\<lparr>ow_node = wg_signals g ! i, ow_signal = i\<rparr> | i. i < length (wg_signals g)}"
    by (auto simp: outs in_set_enumerate_eq image_iff)
qed

section \<open>Simulation\<close>

definition simulates ::
    "sage_graph \<Rightarrow> witness_graph \<Rightarrow> nat list \<Rightarrow> nat list \<Rightarrow> nat \<Rightarrow> fr list \<Rightarrow> fr list \<times> fr list \<times> nat \<Rightarrow> bool" where
  "simulates s g L slots k vals = (\<lambda>(slot_values, assignment, output_index).
     length vals = k \<and> length slot_values = sg_slots s \<and> length assignment = length (wg_signals g) \<and>
     output_index = length (filter (\<lambda>w. ow_node w < k) (sg_outputs s)) \<and>
     (\<forall>j < k. k \<le> L ! j \<longrightarrow> slot_values ! (slots ! j) = vals ! j) \<and>
     (\<forall>i < length (wg_signals g). wg_signals g ! i < k \<longrightarrow> assignment ! i = vals ! (wg_signals g ! i)))"

lemma instruction_value_eq:
  assumes p: "program_of s g L slots" and ok: "node_ok (length inputs) k (wg_nodes g ! k)" and k: "k < length (wg_nodes g)"
    and sim: "simulates s g L slots k vals (slot_values, assignment, output_index)"
  shows "instruction_value s inputs k (sg_instructions s ! k) slot_values = node_value inputs k (wg_nodes g ! k) vals"
proof -
  have impl: "implements slots (sg_constants s) k (wg_nodes g ! k) (sg_instructions s ! k)"
      and live: "\<forall>j \<in> set (operands (wg_nodes g ! k)). k \<le> L ! j"
      and fits: "\<forall>j < length (wg_nodes g). slots ! j < sg_slots s"
    using p k by (simp_all add: program_of_def)
  have val: "sage_at slot_values (slots ! j) what = Ok (vals ! j)" if "j \<in> set (operands (wg_nodes g ! k))" "j < k" for j what
    using sim live fits that k by (simp add: simulates_def sage_at_def)
  have len: "length vals = k" using sim by (simp add: simulates_def)
  show ?thesis
  proof (cases "wg_nodes g ! k")
    case (GConstant c)
    then have "in_kind (sg_instructions s ! k) = KConstant" "in_left (sg_instructions s ! k) < length (sg_constants s)"
        "sg_constants s ! in_left (sg_instructions s ! k) = c"
      using impl by (auto dest!: arg_cong [where f = in_kind])
    then show ?thesis using GConstant by (simp add: instruction_value_def node_value_def sage_at_def)
  qed (use impl val ok len in \<open>auto simp: instruction_value_def node_value_def sage_at_def\<close>)
qed

lemma implements_destination: "implements slots constants i node instr \<Longrightarrow> in_destination instr = slots ! i"
  by (cases node) (auto dest: arg_cong [where f = in_destination])

lemma run_instruction_error:
  "instruction_value s inputs k instr slot_values = Err e \<Longrightarrow>
    run_instruction s inputs (k, instr) (slot_values, assignment, output_index) = Err e"
  by (simp add: run_instruction_def)

lemma simulates_step:
  assumes p: "program_of s g L slots" and g: "graph_ok g" and k: "k < length (wg_nodes g)"
    and sim: "simulates s g L slots k vals (slot_values, assignment, output_index)"
    and v: "instruction_value s inputs k (sg_instructions s ! k) slot_values = Ok v"
  shows "\<exists>st. run_instruction s inputs (k, sg_instructions s ! k) (slot_values, assignment, output_index) = Ok st \<and>
    simulates s g L slots (Suc k) (vals @ [v]) st"
proof -
  let ?d = "slots ! k" and ?block = "filter (\<lambda>w. ow_node w = k) (sg_outputs s)"
  note outs = program_outputs [OF p]
  have dest: "in_destination (sg_instructions s ! k) = ?d" "?d < sg_slots s"
    using p k implements_destination by (auto simp: program_of_def)
  have clash: "\<forall>j < k. k < L ! j \<longrightarrow> slots ! j \<noteq> ?d" using p k by (simp add: program_of_def no_clash_def)
  have len: "length vals = k" "length slot_values = sg_slots s" "length assignment = length (wg_signals g)"
      "output_index = length (filter (\<lambda>w. ow_node w < k) (sg_outputs s))"
    using sim by (simp_all add: simulates_def)
  have "\<forall>w \<in> set ?block. ow_signal w < length assignment" using outs(3) len by auto
  from output_puts [OF this, of "''output signal''" v] obtain a where
      a: "rfold ?block (\<lambda>w a. sage_put a (ow_signal w) ''output signal'' v) assignment = Ok a" "length a = length assignment"
        "\<forall>i < length assignment. a ! i = (if i \<in> ow_signal ` set ?block then v else assignment ! i)"
    by blast
  have block: "takeWhile (\<lambda>w. ow_node w = k) (drop output_index (sg_outputs s)) = ?block"
    unfolding len(4) by (rule sorted_block [OF outs(1)])
  have written: "i \<in> ow_signal ` set ?block \<longleftrightarrow> wg_signals g ! i = k" if "i < length (wg_signals g)" for i
    using outs(3) that by force
  have count: "length (filter (\<lambda>w. ow_node w < Suc k) ws) = length (filter (\<lambda>w. ow_node w < k) ws) + length (filter (\<lambda>w. ow_node w = k) ws)"
    for ws by (induction ws) auto
  have "run_instruction s inputs (k, sg_instructions s ! k) (slot_values, assignment, output_index) =
      Ok (slot_values[?d := v], a, output_index + length ?block)"
    using v dest len(2) a(1) block by (simp add: run_instruction_def sage_put_def write_outputs_eq Let_def)
  moreover have "simulates s g L slots (Suc k) (vals @ [v]) (slot_values[?d := v], a, output_index + length ?block)"
    using sim clash dest a(2,3) written len count [of "sg_outputs s"]
    by (auto simp: simulates_def nth_append less_Suc_eq nth_list_update Suc_le_eq)
  ultimately show ?thesis by blast
qed

lemma run_simulates:
  assumes p: "program_of s g L slots" and g: "graph_ok g" and inputs: "length inputs = wg_input_buffer_len g"
    and init: "simulates s g L slots 0 [] st0" and "k \<le> length (wg_nodes g)"
  shows "case rfold (enumerate 0 (take k (wg_nodes g))) (evaluate_node inputs) [] of
      Ok vals \<Rightarrow> \<exists>st. rfold (enumerate 0 (take k (sg_instructions s))) (run_instruction s inputs) st0 = Ok st \<and>
        simulates s g L slots k vals st
    | Err e \<Rightarrow> rfold (enumerate 0 (take k (sg_instructions s))) (run_instruction s inputs) st0 = Err e
    | Panic \<Rightarrow> False"
  using assms(5)
proof (induction k)
  case 0
  then show ?case using init by simp
next
  case (Suc k)
  let ?run = "rfold (enumerate 0 (take k (wg_nodes g))) (evaluate_node inputs) []"
  let ?sage = "rfold (enumerate 0 (take k (sg_instructions s))) (run_instruction s inputs) st0"
  have k: "k < length (wg_nodes g)" "length (sg_instructions s) = length (wg_nodes g)"
    using Suc.prems p by (simp_all add: program_of_def)
  have nodes: "\<forall>i < length (wg_nodes g). node_ok (wg_input_buffer_len g) i (wg_nodes g ! i)" using g by (simp add: graph_ok_def)
  then have ok: "node_ok (length inputs) k (wg_nodes g ! k)" using k inputs by simp
  have run: "rfold (enumerate 0 (take (Suc k) (wg_nodes g))) (evaluate_node inputs) [] =
      rbind ?run (\<lambda>vals. rbind (node_value inputs k (wg_nodes g ! k) vals) (\<lambda>v. Ok (vals @ [v])))"
    using k by (simp add: take_Suc_conv_app_nth enumerate_append_eq rfold_append rfold_single evaluate_node_def)
  have sage: "rfold (enumerate 0 (take (Suc k) (sg_instructions s))) (run_instruction s inputs) st0 =
      rbind ?sage (run_instruction s inputs (k, sg_instructions s ! k))"
    using k by (simp add: take_Suc_conv_app_nth enumerate_append_eq rfold_append rfold_single)
  show ?case
  proof (cases ?run)
    case (Ok vals)
    then obtain slot_values assignment output_index where st: "?sage = Ok (slot_values, assignment, output_index)"
        "simulates s g L slots k vals (slot_values, assignment, output_index)"
      using Suc by (auto simp: simulates_def)
    note value_eq = instruction_value_eq [OF p ok k(1) st(2)]
    have "length vals = k" using st(2) by (simp add: simulates_def)
    then have safe: "node_value inputs k (wg_nodes g ! k) vals \<noteq> Panic" using node_value_eq(1) [OF ok] by simp
    show ?thesis
    proof (cases "node_value inputs k (wg_nodes g ! k) vals")
      case (Ok v)
      then show ?thesis
        using simulates_step [OF p g k(1) st(2), of inputs v] value_eq \<open>?run = Ok vals\<close> st(1) by (simp add: run sage)
    next
      case (Err e)
      then show ?thesis
        using value_eq \<open>?run = Ok vals\<close> st(1) by (simp add: run sage run_instruction_error)
    qed (use safe in simp)
  qed (use Suc in \<open>auto simp: run sage\<close>)
qed

lemma sage_evaluates:
  assumes p: "program_of s g L slots" and g: "graph_ok g"
  shows "sage_calculate_json decode s json = calculate_json decode g json"
proof (cases "build_input_buffer decode (wg_input_mapping g) (wg_input_buffer_len g) json (wg_limits g)")
  case (Ok inputs)
  let ?n = "length (wg_nodes g)"
  have same: "sg_input_mapping s = wg_input_mapping g" "sg_input_buffer_len s = wg_input_buffer_len g"
      "sg_limits s = wg_limits g" "sg_signal_count s = length (wg_signals g)" "length (sg_instructions s) = ?n"
    using p by (simp_all add: program_of_def)
  have signals: "\<forall>i \<in> set (wg_signals g). i < ?n" "wg_signals g \<noteq> []" using g by (auto simp: graph_ok_def)
  have len: "length inputs = wg_input_buffer_len g" using build_input_buffer_length [OF Ok] g by (simp add: graph_ok_def)
  let ?st0 = "(resize [] (sg_slots s) (fr_of_nat 0), resize [] (length (wg_signals g)) (fr_of_nat 0), 0)"
  have "simulates s g L slots 0 [] ?st0" by (simp add: simulates_def)
  note run = run_simulates [OF p g len this order.refl]
  show ?thesis
  proof (cases "rfold (enumerate 0 (wg_nodes g)) (evaluate_node inputs) []")
    case eval: (Ok vals)
    then obtain slot_values assignment output_index where
        st: "rfold (enumerate 0 (sg_instructions s)) (run_instruction s inputs) ?st0 = Ok (slot_values, assignment, output_index)"
          "simulates s g L slots ?n vals (slot_values, assignment, output_index)"
      using run same(5) by auto
    have "\<forall>w \<in> set (sg_outputs s). ow_node w < ?n" using program_outputs(3) [OF p] signals by auto
    then have out: "output_index = length (sg_outputs s)" using st(2) by (simp add: simulates_def)
    have vals: "length vals = ?n" using st(2) by (simp add: simulates_def)
    have "rmap (idx vals) (wg_signals g) = (Ok (map ((!) vals) (wg_signals g)) :: (_, witness_error) result)"
      using signals vals by (intro rmap_Ok) auto
    moreover have "assignment = map ((!) vals) (wg_signals g)"
      using st(2) signals by (intro nth_equalityI) (auto simp: simulates_def)
    ultimately show ?thesis
      using Ok eval st(1) same out
      by (simp add: sage_calculate_json_def sage_calculate_json_into_def calculate_json_def calculate_json_into_def Let_def)
  next
    case (Err e)
    then show ?thesis
      using Ok run same
      by (simp add: sage_calculate_json_def sage_calculate_json_into_def calculate_json_def calculate_json_into_def Let_def)
  qed (use run in simp)
qed (use p in \<open>simp_all add: program_of_def sage_calculate_json_def sage_calculate_json_into_def calculate_json_def calculate_json_into_def\<close>)

section \<open>How many slots\<close>

definition last_read :: "node list \<Rightarrow> nat \<Rightarrow> nat" where
  "last_read nodes j = Max (insert j {i. i < length nodes \<and> j \<in> set (operands (nodes ! i))})"

definition live_after :: "node list \<Rightarrow> nat \<Rightarrow> nat set" where
  "live_after nodes i = {j. j < i \<and> i < last_read nodes j}"

lemma liveness_last_read:
  assumes L: "liveness records (length records) L" and j: "j < length records"
    and rs: "\<forall>i < length records. record_ok len i (records ! i)"
  shows "L ! j = last_read (map node_of records) j"
proof -
  have "{i. i < length records \<and> j \<in> set (operands (map node_of records ! i))} =
      {i. i < length records \<and> j \<in> set (uses (records ! i))}" (is "?S = ?U") by (auto simp: operands_of)
  moreover have "Max (insert j ?U) = L ! j"
  proof (rule Max_eqI)
    show "L ! j \<in> insert j ?U" using L j unfolding liveness_def by blast
    show "i \<le> L ! j" if "i \<in> insert j ?U" for i using that live_bounds [OF rs L j] L j unfolding liveness_def by blast
  qed simp
  ultimately show ?thesis by (simp add: last_read_def)
qed

lemma peak_Max: "peak L (Suc n) = Max ((\<lambda>i. Suc (card {j. j < i \<and> i < L ! j})) ` {..n})"
  by (induction n) (simp_all add: atMost_Suc max.commute)

lemma card_live_le: "card {j. j < i \<and> P j} \<le> (i :: nat)"
  using card_mono [of "{..<i}" "{j. j < i \<and> P j}"] by auto

lemma peak_le: "peak L n \<le> n"
  by (induction n) (simp_all add: card_live_le le_SucI)

lemma parse_and_compile:
  shows "(\<exists>s. compile bytes limits sha = Ok s) \<longleftrightarrow> (\<exists>g. parse_graph bytes limits = Ok g)"
    and "compile bytes limits sha = Ok s \<Longrightarrow> parse_graph bytes limits = Ok g \<Longrightarrow>
      \<exists>L slots. program_of s g L slots \<and> sg_source_graph_sha256 s = sha \<and> sg_slots s = peak L (length (wg_nodes g)) \<and>
        (\<forall>j < length (wg_nodes g). L ! j = last_read (wg_nodes g) j)"
proof -
  have promise: "\<exists>s L slots. compile bytes limits sha = Ok s \<and> program_of s g L slots \<and> sg_source_graph_sha256 s = sha \<and>
      sg_slots s = peak L (length (wg_nodes g)) \<and> (\<forall>j < length (wg_nodes g). L ! j = last_read (wg_nodes g) j)"
    if parsed: "parse_graph bytes limits = Ok g" for g
  proof -
    obtain h records signals mappings where d: "decodes limits bytes h records signals mappings"
        "\<forall>r \<in> set records. canonical_record r" and g: "g = graph_of limits h records signals mappings"
      using parsed unfolding parse_graph_Ok_iff by blast
    have nodes: "wg_nodes g = map node_of records" by (simp add: g graph_of_def)
    have rs: "\<forall>i < length records. record_ok (hd_input_buffer_len h) i (records ! i)" using decodes_ok [OF d(1)] by blast
    obtain s L slots where "compile bytes limits sha = Ok s" "program_of s g L slots" "sg_source_graph_sha256 s = sha"
        "sg_slots s = peak L (length records)" and L: "liveness records (length records) L"
      using compile_decoded [OF d, of sha] unfolding g by blast
    moreover have "\<forall>j < length (wg_nodes g). L ! j = last_read (wg_nodes g) j"
      using liveness_last_read [OF L _ rs] by (simp add: nodes)
    moreover have "length (wg_nodes g) = length records" by (simp add: nodes)
    ultimately show ?thesis by metis
  qed
  show "(\<exists>s. compile bytes limits sha = Ok s) \<longleftrightarrow> (\<exists>g. parse_graph bytes limits = Ok g)"
    using promise compile_OkD [of bytes limits sha] parse_graph_Ok_iff [of bytes limits] by blast
  show "compile bytes limits sha = Ok s \<Longrightarrow> parse_graph bytes limits = Ok g \<Longrightarrow>
      \<exists>L slots. program_of s g L slots \<and> sg_source_graph_sha256 s = sha \<and> sg_slots s = peak L (length (wg_nodes g)) \<and>
        (\<forall>j < length (wg_nodes g). L ! j = last_read (wg_nodes g) j)"
    using promise [of g] by auto
qed

lemma sage_access_safe [simp]: "sage_at xs i what \<noteq> Panic" "sage_put xs i what x \<noteq> Panic" "index_u32 n what \<noteq> Panic"
  by (simp_all add: sage_at_def sage_put_def index_u32_def)

lemma compile_steps_safe [simp]:
  "mark_record i r L \<noteq> Panic" "sage_operands i r al \<noteq> Panic" "release_operand L i j al \<noteq> Panic" "choose_destination L i al \<noteq> Panic"
  "sage_output p \<noteq> Panic"
  by (simp_all add: mark_record_def mark_use_def sage_operands_def release_operand_def choose_destination_def sage_output_def
      constant_from_bytes_def rbind_Panic_iff split: node_record.split list.split prod.split)

lemma compile_safe: "compile bytes limits sha \<noteq> Panic"
proof -
  have "rfold xs (liveness_node limits h) st \<noteq> Panic" for xs h st
    by (rule rfold_no_panic [where P = "\<lambda>_. True"]) (auto simp: liveness_node_def rbind_Panic_iff rd_safe)
  moreover have "rfold rs (release_operand L i) al \<noteq> Panic" for rs L i al
    by (rule rfold_no_panic [where P = "\<lambda>_. True"]) auto
  then have "rfold xs (allocate_node h L) st \<noteq> Panic" for xs h L st
    by (intro rfold_no_panic [where P = "\<lambda>_. True"]) (auto simp: allocate_node_def rbind_Panic_iff rd_safe Let_def)
  moreover have "rmap sage_output xs \<noteq> Panic" for xs by (rule rmap_no_Panic) simp
  ultimately show ?thesis by (auto simp: compile_def rbind_Panic_iff rd_safe Let_def)
qed

section \<open>Properties\<close>

text \<open>C28: The SAGE compiler accepts exactly the bytes the graph parser accepts, and the compiled
  program evaluates every JSON input to the very outcome of the default evaluator: the same
  assignment, or the same error at the same node.  Neither panics.\<close>

theorem sage_equals_the_default_evaluator:
  "case (compile bytes limits sha, parse_graph bytes limits) of
     (Ok s, Ok g) \<Rightarrow> sage_calculate_json decode s json = calculate_json decode g json
   | (Err e, Err e') \<Rightarrow> True
   | _ \<Rightarrow> False"
proof -
  have "sage_calculate_json decode s json = calculate_json decode g json"
    if "compile bytes limits sha = Ok s" "parse_graph bytes limits = Ok g" for s g
    using parse_and_compile(2) [OF that] parsed_graph_ok [OF that(2)] sage_evaluates by blast
  then show ?thesis
    using parse_and_compile(1) [of bytes limits sha] compile_safe [of bytes limits sha] parse_graph_safe [of bytes limits]
    by (auto split: result.splits)
qed

text \<open>C29: The number of slots of a compiled program is exactly the largest number of values that
  must be kept at once: over all nodes, the earlier nodes still read later, plus the node itself.
  It never exceeds the node count, and no instruction writes into the slot of a node that is
  still read.\<close>

theorem sage_slots_are_optimal:
  assumes "compile bytes limits sha = Ok s" and "parse_graph bytes limits = Ok g"
  shows "sg_slots s = Max ((\<lambda>i. Suc (card (live_after (wg_nodes g) i))) ` {..<length (wg_nodes g)}) \<and>
    sg_slots s \<le> length (wg_nodes g) \<and>
    (\<exists>slots. (\<forall>i < length (wg_nodes g). in_destination (sg_instructions s ! i) = slots ! i) \<and>
      (\<forall>i < length (wg_nodes g). \<forall>j \<in> live_after (wg_nodes g) i. slots ! j \<noteq> slots ! i))"
proof -
  obtain L slots where p: "program_of s g L slots" and count: "sg_slots s = peak L (length (wg_nodes g))"
      and L: "\<forall>j < length (wg_nodes g). L ! j = last_read (wg_nodes g) j"
    using parse_and_compile(2) [OF assms] by blast
  have "wg_nodes g \<noteq> []" using parsed_graph_ok [OF assms(2)] by (auto simp: graph_ok_def)
  then obtain n where n: "length (wg_nodes g) = Suc n" by (cases "wg_nodes g") auto
  have live: "live_after (wg_nodes g) i = {j. j < i \<and> i < L ! j}" if "i < length (wg_nodes g)" for i
    using L that by (auto simp: live_after_def)
  then have "(\<lambda>i. Suc (card (live_after (wg_nodes g) i))) ` {..<length (wg_nodes g)} =
      (\<lambda>i. Suc (card {j. j < i \<and> i < L ! j})) ` {..n}" by (intro image_cong) (auto simp: n)
  then have "sg_slots s = Max ((\<lambda>i. Suc (card (live_after (wg_nodes g) i))) ` {..<length (wg_nodes g)})"
    using count peak_Max [of L n] by (simp only: n)
  moreover have "sg_slots s \<le> length (wg_nodes g)" using count peak_le by simp
  moreover have "in_destination (sg_instructions s ! i) = slots ! i" if "i < length (wg_nodes g)" for i
    using p that by (auto simp: program_of_def intro: implements_destination)
  moreover have "slots ! j \<noteq> slots ! i" if "i < length (wg_nodes g)" "j \<in> live_after (wg_nodes g) i" for i j
    using p that live [OF that(1)] by (auto simp: program_of_def no_clash_def)
  ultimately show ?thesis by blast
qed

lemma sample_live:
  "live_after sample_nodes 0 = {}" "live_after sample_nodes 1 = {}" "live_after sample_nodes 2 = {}"
  "live_after sample_nodes 3 = {2}" "live_after sample_nodes 4 = {}"
proof -
  have last: "last_read nodes j = fold max (filter (\<lambda>i. j \<in> set (operands (nodes ! i))) [0..<length nodes]) j" for nodes j
    by (simp add: last_read_def Max.set_eq_fold [symmetric] set_filter)
  have upt: "[0..<5] = [0, 1, 2, 3, 4 :: nat]" by (simp add: upt_rec)
  have "last_read sample_nodes 0 = 0" "last_read sample_nodes 1 = 2" "last_read sample_nodes 2 = 4" "last_read sample_nodes 3 = 4"
    by (simp_all add: last sample_nodes_def upt)
  then show "live_after sample_nodes 0 = {}" "live_after sample_nodes 1 = {}" "live_after sample_nodes 2 = {}"
    "live_after sample_nodes 3 = {2}" "live_after sample_nodes 4 = {}"
    by (auto simp: live_after_def less_Suc_eq eval_nat_numeral intro!: gr0I)
qed

theorem sage_slots_are_optimal_witness:
  "\<exists>s. compile sample_graph limits_client [] = Ok s \<and> sg_slots s = 2"
proof -
  obtain s where s: "compile sample_graph limits_client [] = Ok s"
    using parse_and_compile(1) [of sample_graph limits_client "[]"] sample_parse by blast
  have "{..<length (wg_nodes sample_parsed)} = {0, 1, 2, 3, 4}" by (auto simp: sample_parsed_def sample_nodes_def)
  then have "sg_slots s = 2"
    using sage_slots_are_optimal [OF s sample_parse] sample_live by (simp add: sample_parsed_def)
  then show ?thesis using s by blast
qed

section \<open>Workspaces\<close>

text \<open>
  A calculation that fills buffers it is lent, seen by the workspace: only its result on empty
  buffers matters, because a workspace is empty between leases.
\<close>

locale leased =
  fixes calculate_into :: "'i \<Rightarrow> fr list \<Rightarrow> fr list \<Rightarrow> (fr list \<times> fr list, 'e) result"
    and calculate :: "'i \<Rightarrow> (fr list, 'e) result"
  assumes fresh: "calculate i = rbind (calculate_into i [] []) (\<lambda>(values, assignment). Ok assignment)"
begin

lemma lease_fresh:
  assumes "ww_values w = []" and "ww_assignment w = []"
  shows "with_lease (calculate_into i) consume w = (rbind (calculate i) (\<lambda>a. Ok (consume a)), w)"
  using assms by (cases "calculate_into i [] []") (auto simp: with_lease_def workspace_clear_def fresh)

text \<open>Any number of calculations in one workspace, failing ones included.\<close>

lemma leases:
  assumes "ww_values w = []" and "ww_assignment w = []"
  shows "fold (\<lambda>i (rs, w). case with_lease (calculate_into i) consume w of (r, w) \<Rightarrow> (rs @ [r], w)) is (rs, w) =
    (rs @ map (\<lambda>i. rbind (calculate i) (\<lambda>a. Ok (consume a))) is, w)"
  by (induction "is" arbitrary: rs) (simp_all add: lease_fresh [OF assms])

end

interpretation graph_lease: leased "calculate_json_into decode g" "calculate_json decode g" for decode g
  by unfold_locales (rule calculate_json_def)

interpretation sage_lease: leased "sage_calculate_json_into decode s" "sage_calculate_json decode s" for decode s
  by unfold_locales (rule sage_calculate_json_def)

text \<open>A workspace can be reused for any sequence of calculations: from a new workspace every
  calculation, by either evaluator, hands its consumer exactly the assignment a fresh
  calculation returns, failed calculations leave no trace, and the buffers are empty afterwards.\<close>

theorem workspace_reuse_is_invisible:
  "fold (\<lambda>json (rs, w). case with_witness_json decode g json consume w of (r, w) \<Rightarrow> (rs @ [r], w)) jsons ([], workspace_new n) =
     (map (\<lambda>json. rbind (calculate_json decode g json) (\<lambda>a. Ok (consume a))) jsons, workspace_new n) \<and>
   fold (\<lambda>json (rs, w). case sage_with_witness_json decode s json consume w of (r, w) \<Rightarrow> (rs @ [r], w)) jsons ([], workspace_new n) =
     (map (\<lambda>json. rbind (sage_calculate_json decode s json) (\<lambda>a. Ok (consume a))) jsons, workspace_new n)"
  unfolding with_witness_json_def sage_with_witness_json_def
  by (simp add: graph_lease.leases sage_lease.leases workspace_new_def)

end
