(* ===== verification/Wire_Table.thy ===== *)
theory Wire_Table
  imports Graph_Correct
begin

text \<open>
  The contract between a reader and a writer of one wire format: a read succeeds exactly on
  the bytes the writer emits for a valid value, and leaves the rest.  Fixed-width fields
  satisfy it, and a table of such records is read exactly from the concatenation of what
  is written for its entries, whatever checks the reading loop makes on the way.
\<close>

section \<open>Fixed-width fields\<close>

lemma rd_take_Ok_iff: "rd_take n bs = Ok (v, bs') \<longleftrightarrow> length v = n \<and> bs = v @ bs'"
  by (auto simp: rd_take_def)

lemma nat_to_le_exact: "length v = k \<and> n = nat_of_le v \<longleftrightarrow> n < 256 ^ k \<and> v = nat_to_le k n"
  using nat_of_le_bound [of v] by auto

lemma rd_uint_Ok_iff: "rd_uint k bs = Ok (n, bs') \<longleftrightarrow> n < 256 ^ k \<and> bs = nat_to_le k n @ bs'"
proof -
  have "rd_uint k bs = Ok (n, bs') \<longleftrightarrow> (\<exists>v. (length v = k \<and> n = nat_of_le v) \<and> bs = v @ bs')"
    by (auto simp: rd_uint_def rbind_Ok_iff rd_take_Ok_iff)
  then show ?thesis unfolding nat_to_le_exact by auto
qed

lemma rd_u8_Ok_iff: "rd_u8 bs = Ok (n, bs') \<longleftrightarrow> n < 256 \<and> bs = of_nat n # bs'"
proof (cases bs)
  case (Cons b bs)
  then show ?thesis
    using unat_byte_less [of b] by (auto simp: rd_u8_Cons unat_of_nat)
qed (simp add: rd_u8_def rd_take_def)

lemma rd_uints_Ok_iff:
  "rd_u16 bs = Ok (n, bs') \<longleftrightarrow> n < 2 ^ 16 \<and> bs = nat_to_le 2 n @ bs'"
  "rd_u32 bs = Ok (n, bs') \<longleftrightarrow> n < 2 ^ 32 \<and> bs = nat_to_le 4 n @ bs'"
  "rd_u64 bs = Ok (n, bs') \<longleftrightarrow> n < 2 ^ 64 \<and> bs = nat_to_le 8 n @ bs'"
  by (simp_all add: rd_u16_def rd_u32_def rd_u64_def rd_uint_Ok_iff)

section \<open>Tables\<close>

definition table_bytes :: "(nat \<Rightarrow> 'a \<Rightarrow> byte list) \<Rightarrow> 'a list \<Rightarrow> byte list" where
  "table_bytes enc xs = concat (map (\<lambda>(i, x). enc i x) (enumerate 0 xs))"

definition entries_ok :: "(nat \<Rightarrow> 'a \<Rightarrow> bool) \<Rightarrow> 'a list \<Rightarrow> bool" where
  "entries_ok ok xs \<longleftrightarrow> (\<forall>i < length xs. ok i (xs ! i))"

lemma table_Nil: "table_bytes enc [] = []"
  by (simp add: table_bytes_def)

lemma table_snoc: "table_bytes enc (xs @ [x]) = table_bytes enc xs @ enc (length xs) x"
  by (simp add: table_bytes_def enumerate_append_eq)

lemma entries_ok_snoc: "entries_ok ok (xs @ [x]) \<longleftrightarrow> entries_ok ok xs \<and> ok (length xs) x"
  by (auto simp: entries_ok_def nth_append less_Suc_eq)

lemma table_bytes_const: "table_bytes (\<lambda>i. enc) xs = concat (map enc xs)"
  by (induction xs rule: rev_induct) (simp_all add: table_Nil table_snoc)

lemma entries_ok_const: "entries_ok (\<lambda>i. ok) xs \<longleftrightarrow> (\<forall>x \<in> set xs. ok x)"
  by (auto simp: entries_ok_def all_set_conv_all_nth)

locale wire_table =
  fixes dec :: "nat \<Rightarrow> byte list \<Rightarrow> ('a \<times> byte list, 'e) result"
    and enc :: "nat \<Rightarrow> 'a \<Rightarrow> byte list"
    and ok :: "nat \<Rightarrow> 'a \<Rightarrow> bool"
  assumes dec_iff: "dec i bs = Ok (x, bs') \<longleftrightarrow> ok i x \<and> bs = enc i x @ bs'"
begin

abbreviation "table \<equiv> table_bytes enc"

abbreviation "table_ok \<equiv> entries_ok ok"

lemma loop_Ok_iff:
  assumes body: "\<And>i bs acc. body i (bs, acc) = rbind (dec i bs) (\<lambda>(x, bs). rbind (f i x acc) (\<lambda>acc. Ok (bs, acc)))"
  shows "rfold [0..<n] body (bs, a) = Ok (bs', a') \<longleftrightarrow>
    (\<exists>xs. length xs = n \<and> table_ok xs \<and> bs = table xs @ bs' \<and> rfold (enumerate 0 xs) (\<lambda>(i, x). f i x) a = Ok a')"
proof (induction n arbitrary: bs' a')
  case 0
  then show ?case by (auto simp: table_Nil entries_ok_def)
next
  case (Suc n)
  have "rfold [0..<Suc n] body (bs, a) = Ok (bs', a') \<longleftrightarrow>
      (\<exists>b acc x. rfold [0..<n] body (bs, a) = Ok (b, acc) \<and> ok n x \<and> b = enc n x @ bs' \<and> f n x acc = Ok a')"
    by (auto simp: rfold_append rbind_Ok_iff body dec_iff split: prod.splits)
  also have "\<dots> \<longleftrightarrow> (\<exists>xs x acc. length xs = n \<and> table_ok xs \<and> bs = table xs @ enc n x @ bs' \<and> ok n x \<and>
      rfold (enumerate 0 xs) (\<lambda>(i, x). f i x) a = Ok acc \<and> f n x acc = Ok a')"
    unfolding Suc.IH by blast
  also have "\<dots> \<longleftrightarrow> (\<exists>xs. length xs = Suc n \<and> table_ok xs \<and> bs = table xs @ bs' \<and> rfold (enumerate 0 xs) (\<lambda>(i, x). f i x) a = Ok a')"
    (is "?l \<longleftrightarrow> ?r")
  proof
    assume ?l
    then obtain xs x acc where "length xs = n" "table_ok xs" "bs = table xs @ enc n x @ bs'" "ok n x"
        "rfold (enumerate 0 xs) (\<lambda>(i, x). f i x) a = Ok acc" "f n x acc = Ok a'" by blast
    then show ?r
      by (intro exI [of _ "xs @ [x]"])
        (simp add: table_snoc entries_ok_snoc enumerate_append_eq rfold_append rfold_single)
  next
    assume ?r
    then obtain ys where ys: "length ys = Suc n" "table_ok ys" "bs = table ys @ bs'"
        "rfold (enumerate 0 ys) (\<lambda>(i, x). f i x) a = Ok a'" by blast
    obtain xs x where "ys = xs @ [x]" using ys(1) by (cases ys rule: rev_cases) auto
    then show ?l
      using ys by (intro exI [of _ xs] exI [of _ x])
        (auto simp: table_snoc entries_ok_snoc enumerate_append_eq rfold_append rfold_single rbind_Ok_iff)
  qed
  finally show ?case .
qed

text \<open>A loop that only collects what it reads.\<close>

lemma collect_Ok_iff:
  assumes body: "\<And>i bs xs. body i (bs, xs) = rbind (dec i bs) (\<lambda>(x, bs). Ok (bs, xs @ [x]))"
  shows "rfold [0..<n] body (bs, []) = Ok (bs', xs) \<longleftrightarrow> length xs = n \<and> table_ok xs \<and> bs = table xs @ bs'"
proof -
  have run: "rfold (enumerate k ys) (\<lambda>(i, x) acc. Ok (acc @ [x])) acc = (Ok (acc @ ys) :: (_, 'e) result)" for k ys acc
    by (induction ys arbitrary: k acc) auto
  have "rfold [0..<n] body (bs, []) = Ok (bs', xs) \<longleftrightarrow> (\<exists>ys. length ys = n \<and> table_ok ys \<and> bs = table ys @ bs' \<and>
      rfold (enumerate 0 ys) (\<lambda>(i, x) acc. Ok (acc @ [x])) [] = (Ok xs :: (_, 'e) result))"
    by (rule loop_Ok_iff) (simp add: body)
  then show ?thesis by (auto simp: run)
qed

end

end
