(* ===== verification/Sage_Codec.thy ===== *)
theory Sage_Codec
  imports Sage_Program Sage_Run Wire_Table
begin

text \<open>
  The program format is a bijection between well-formed programs and the bytes the decoder
  accepts; everything the compiler emits is well formed, and a well-formed program never
  indexes out of bounds when it runs.
\<close>

section \<open>Fields\<close>

lemma pr_array_Ok_iff: "pr_array n bs = Ok (v, bs') \<longleftrightarrow> length v = n \<and> bs = v @ bs'"
  by (auto simp: pr_array_def)

lemma pr_uint_Ok_iff: "pr_uint k bs = Ok (n, bs') \<longleftrightarrow> n < 256 ^ k \<and> bs = nat_to_le k n @ bs'"
proof -
  have "pr_uint k bs = Ok (n, bs') \<longleftrightarrow> (\<exists>v. (length v = k \<and> n = nat_of_le v) \<and> bs = v @ bs')"
    by (auto simp: pr_uint_def rbind_Ok_iff pr_array_Ok_iff)
  then show ?thesis unfolding nat_to_le_exact by auto
qed

definition raw_bytes :: "raw_instruction \<Rightarrow> byte list" where
  "raw_bytes r = nat_to_le 4 (ri_left r) @ nat_to_le 4 (ri_right r) @ nat_to_le 4 (ri_destination r) @
     nat_to_le 1 (ri_kind r) @ nat_to_le 1 (ri_operation r) @ nat_to_le 2 (ri_reserved r)"

definition raw_fits :: "raw_instruction \<Rightarrow> bool" where
  "raw_fits r \<longleftrightarrow> ri_left r < 2 ^ 32 \<and> ri_right r < 2 ^ 32 \<and> ri_destination r < 2 ^ 32 \<and> ri_kind r < 2 ^ 8 \<and>
     ri_operation r < 2 ^ 8 \<and> ri_reserved r < 2 ^ 16"

lemma read_raw_instruction_Ok_iff:
  "read_raw_instruction i bs = Ok (r, bs') \<longleftrightarrow> raw_fits r \<and> bs = raw_bytes r @ bs'"
  by (cases r) (auto simp: read_raw_instruction_def rbind_Ok_iff pr_uint_Ok_iff raw_fits_def raw_bytes_def)

definition output_fits :: "output_write \<Rightarrow> bool" where
  "output_fits w \<longleftrightarrow> ow_node w < 2 ^ 32 \<and> ow_signal w < 2 ^ 32"

lemma read_output_Ok_iff: "read_output i bs = Ok (w, bs') \<longleftrightarrow> output_fits w \<and> bs = encode_output w @ bs'"
  by (cases w) (auto simp: read_output_def rbind_Ok_iff pr_uint_Ok_iff output_fits_def encode_output_def)

definition mapping_bytes :: "input_mapping \<Rightarrow> byte list" where
  "mapping_bytes m = nat_to_le 8 (im_hash m) @ nat_to_le 4 (im_signal_id m) @ nat_to_le 4 (im_signal_size m)"

definition mapping_fits :: "input_mapping \<Rightarrow> bool" where
  "mapping_fits m \<longleftrightarrow> im_hash m < 2 ^ 64 \<and> im_signal_id m < 2 ^ 32 \<and> im_signal_size m < 2 ^ 32"

lemma read_mapping_Ok_iff: "read_mapping i bs = Ok (m, bs') \<longleftrightarrow> mapping_fits m \<and> bs = mapping_bytes m @ bs'"
  by (cases m) (auto simp: read_mapping_def rbind_Ok_iff pr_uint_Ok_iff mapping_fits_def mapping_bytes_def)

lemma encode_mapping_Ok_iff: "encode_mapping m = Ok bs \<longleftrightarrow> im_signal_id m < 2 ^ 32 \<and> im_signal_size m < 2 ^ 32 \<and> bs = mapping_bytes m"
  by (auto simp: encode_mapping_def rbind_Ok_iff index_u32_def mapping_bytes_def)

interpretation raw_table: wire_table read_raw_instruction "\<lambda>i. raw_bytes" "\<lambda>i. raw_fits"
  by unfold_locales (rule read_raw_instruction_Ok_iff)

interpretation constant_table: wire_table "\<lambda>i. pr_array 32" "\<lambda>i v. v" "\<lambda>i v. length v = 32"
  by unfold_locales (rule pr_array_Ok_iff)

interpretation output_table: wire_table read_output "\<lambda>i. encode_output" "\<lambda>i. output_fits"
  by unfold_locales (rule read_output_Ok_iff)

interpretation mapping_table: wire_table read_mapping "\<lambda>i. mapping_bytes" "\<lambda>i. mapping_fits"
  by unfold_locales (rule read_mapping_Ok_iff)

section \<open>Instructions\<close>

lemma operation_from_tag_Ok_iff: "operation_from_tag t i = Ok operation \<longleftrightarrow> t = operation_tag operation"
proof
  show "t = operation_tag operation \<Longrightarrow> operation_from_tag t i = Ok operation"
    by (cases operation) (simp_all add: operation_from_tag_def wire_operations_def)
  show "operation_from_tag t i = Ok operation \<Longrightarrow> t = operation_tag operation"
    by (auto simp: operation_from_tag_def wire_operations_def split: if_splits)
qed

lemma operation_tag_less: "operation_tag operation < 23"
  by (cases operation) simp_all

fun raw_of :: "instruction \<Rightarrow> raw_instruction" where
  "raw_of instr = \<lparr>ri_left = in_left instr, ri_right = in_right instr, ri_destination = in_destination instr,
     ri_kind = fst (encode_kind (in_kind instr)), ri_operation = snd (encode_kind (in_kind instr)), ri_reserved = 0\<rparr>"

declare raw_of.simps [simp del]

lemma raw_bytes_of: "raw_bytes (raw_of instr) = encode_instruction instr"
  using less_trans [OF operation_tag_less, of 256]
  by (simp add: raw_of.simps raw_bytes_def encode_instruction_def split_def encode_kind_def split: sage_kind.split)

text \<open>An instruction whose operands are in range and read only slots that are defined.\<close>

definition instruction_ok :: "nat \<Rightarrow> nat \<Rightarrow> nat \<Rightarrow> (nat \<Rightarrow> bool) \<Rightarrow> instruction \<Rightarrow> bool" where
  "instruction_ok buffer constants slots dfd instr \<longleftrightarrow> in_destination instr < slots \<and>
     (case in_kind instr of
        KInput \<Rightarrow> in_left instr < buffer \<and> in_right instr = 0
      | KConstant \<Rightarrow> in_left instr < constants \<and> in_right instr = 0
      | KInverse \<Rightarrow> in_left instr < slots \<and> in_right instr = 0 \<and> dfd (in_left instr)
      | KOperation operation \<Rightarrow> in_left instr < slots \<and> in_right instr < slots \<and> dfd (in_left instr) \<and> dfd (in_right instr))"

lemma decode_kind_Ok_iff:
  "decode_kind h i r = Ok kind \<longleftrightarrow> ri_kind r = fst (encode_kind kind) \<and> ri_operation r = snd (encode_kind kind) \<and>
    (case kind of
        KInput \<Rightarrow> ri_left r < ph_input_buffer_len h \<and> ri_right r = 0
      | KConstant \<Rightarrow> ri_left r < ph_constant_count h \<and> ri_right r = 0
      | KInverse \<Rightarrow> ri_left r < ph_slots h \<and> ri_right r = 0
      | KOperation operation \<Rightarrow> ri_left r < ph_slots h \<and> ri_right r < ph_slots h)"
  by (cases kind) (auto simp: decode_kind_def encode_kind_def rbind_Ok_iff operation_from_tag_Ok_iff)

lemma check_instruction_Ok_iff:
  assumes "length dfd = ph_slots h"
  shows "check_instruction limits h i r (spent, dfd, instrs) = Ok (spent', dfd', instrs') \<longleftrightarrow>
    (\<exists>instr. r = raw_of instr \<and>
      instruction_ok (ph_input_buffer_len h) (ph_constant_count h) (ph_slots h) ((!) dfd) instr \<and>
      cost_charge limits (kind_cost (in_kind instr)) spent = Ok spent' \<and>
      dfd' = dfd[in_destination instr := True] \<and> instrs' = instrs @ [instr])"
proof -
  have undefined_iff: "reads_undefined_slot dfd instr = Ok u \<longleftrightarrow>
      u = (case in_kind instr of KInverse \<Rightarrow> \<not> dfd ! in_left instr
        | KOperation _ \<Rightarrow> \<not> dfd ! in_left instr \<or> \<not> dfd ! in_right instr | _ \<Rightarrow> False)"
    if "case in_kind instr of KInverse \<Rightarrow> in_left instr < ph_slots h
        | KOperation _ \<Rightarrow> in_left instr < ph_slots h \<and> in_right instr < ph_slots h | _ \<Rightarrow> True" for instr u
    using that assms by (auto simp: reads_undefined_slot_def split: sage_kind.splits)
  show ?thesis
  proof
    assume "check_instruction limits h i r (spent, dfd, instrs) = Ok (spent', dfd', instrs')"
    then obtain kind u where k: "ri_reserved r = 0" "ri_destination r < ph_slots h" "decode_kind h i r = Ok kind"
        "cost_charge limits (kind_cost kind) spent = Ok spent'"
        "reads_undefined_slot dfd \<lparr>in_left = ri_left r, in_right = ri_right r, in_destination = ri_destination r, in_kind = kind\<rparr> = Ok False"
        "dfd' = dfd[ri_destination r := True]"
        "instrs' = instrs @ [\<lparr>in_left = ri_left r, in_right = ri_right r, in_destination = ri_destination r, in_kind = kind\<rparr>]"
      by (auto simp: check_instruction_def rbind_Ok_iff Let_def not_le)
    let ?instr = "\<lparr>in_left = ri_left r, in_right = ri_right r, in_destination = ri_destination r, in_kind = kind\<rparr>"
    have "r = raw_of ?instr" using k(1,3) by (cases r) (auto simp: raw_of.simps decode_kind_Ok_iff)
    moreover have "instruction_ok (ph_input_buffer_len h) (ph_constant_count h) (ph_slots h) ((!) dfd) ?instr"
      using k(2,3,5) undefined_iff [of ?instr False] by (auto simp: instruction_ok_def decode_kind_Ok_iff split: sage_kind.splits)
    ultimately show "\<exists>instr. r = raw_of instr \<and>
      instruction_ok (ph_input_buffer_len h) (ph_constant_count h) (ph_slots h) ((!) dfd) instr \<and>
      cost_charge limits (kind_cost (in_kind instr)) spent = Ok spent' \<and>
      dfd' = dfd[in_destination instr := True] \<and> instrs' = instrs @ [instr]"
      using k(4,6,7) by (intro exI [of _ ?instr]) simp
  next
    assume "\<exists>instr. r = raw_of instr \<and>
      instruction_ok (ph_input_buffer_len h) (ph_constant_count h) (ph_slots h) ((!) dfd) instr \<and>
      cost_charge limits (kind_cost (in_kind instr)) spent = Ok spent' \<and>
      dfd' = dfd[in_destination instr := True] \<and> instrs' = instrs @ [instr]"
    then obtain instr where instr: "r = raw_of instr"
        "instruction_ok (ph_input_buffer_len h) (ph_constant_count h) (ph_slots h) ((!) dfd) instr"
        "cost_charge limits (kind_cost (in_kind instr)) spent = Ok spent'"
        "dfd' = dfd[in_destination instr := True]" "instrs' = instrs @ [instr]" by blast
    have "decode_kind h i r = Ok (in_kind instr)"
      using instr(1,2) by (auto simp: decode_kind_Ok_iff raw_of.simps instruction_ok_def split: sage_kind.splits)
    moreover have "reads_undefined_slot dfd instr = Ok False"
      using instr(2) undefined_iff [of instr False] by (auto simp: instruction_ok_def split: sage_kind.splits)
    ultimately show "check_instruction limits h i r (spent, dfd, instrs) = Ok (spent', dfd', instrs')"
      using instr assms by (cases instr) (simp add: check_instruction_def raw_of.simps Let_def instruction_ok_def)
  qed
qed

text \<open>The slots written by a list of instructions.\<close>

definition written :: "instruction list \<Rightarrow> nat \<Rightarrow> bool" where
  "written instrs s \<longleftrightarrow> (\<exists>instr \<in> set instrs. in_destination instr = s)"

definition instructions_ok :: "nat \<Rightarrow> nat \<Rightarrow> nat \<Rightarrow> instruction list \<Rightarrow> bool" where
  "instructions_ok buffer constants slots instrs \<longleftrightarrow>
     (\<forall>i < length instrs. instruction_ok buffer constants slots (written (take i instrs)) (instrs ! i))"

lemma instructions_ok_snoc:
  "instructions_ok buffer constants slots (instrs @ [instr]) \<longleftrightarrow>
    instructions_ok buffer constants slots instrs \<and> instruction_ok buffer constants slots (written instrs) instr"
  by (auto simp: instructions_ok_def nth_append less_Suc_eq)

lemma instruction_ok_cong:
  "(\<And>s. s < slots \<Longrightarrow> p s = q s) \<Longrightarrow> instruction_ok buffer constants slots p instr = instruction_ok buffer constants slots q instr"
  by (auto simp: instruction_ok_def split: sage_kind.split)

lemma cost_charges_Ok_iff:
  "rfold xs (\<lambda>x. cost_charge limits (c x)) (saturate spent) = Ok s \<longleftrightarrow>
    s = saturate (spent + (\<Sum>x\<leftarrow>xs. c x)) \<and> (xs = [] \<or> s \<le> lm_evaluation_cost limits)"
proof (induction xs arbitrary: spent)
  case (Cons x xs)
  have "saturate (spent + c x) \<le> saturate (spent + c x + (\<Sum>x\<leftarrow>xs. c x))" by (simp add: saturate_def)
  with Cons show ?case by (auto simp: rbind_Ok_iff cost_charge_Ok_iff add.assoc)
qed auto

lemma set_flag: "(map f [0..<n])[k := True] = map (\<lambda>s. s = k \<or> f s) [0..<n]"
proof (cases "k < n")
  case True
  then show ?thesis by (intro nth_equalityI) (auto simp: nth_list_update)
next
  case False
  then show ?thesis by (intro nth_equalityI) auto
qed

lemma check_instructions_Ok_iff:
  "rfold (enumerate 0 raws) (\<lambda>(i, r). check_instruction limits h i r) (0, replicate (ph_slots h) False, []) = Ok (spent, dfd, instrs) \<longleftrightarrow>
    raws = map raw_of instrs \<and> instructions_ok (ph_input_buffer_len h) (ph_constant_count h) (ph_slots h) instrs \<and>
    rfold instrs (\<lambda>instr. cost_charge limits (kind_cost (in_kind instr))) 0 = Ok spent \<and>
    dfd = map (written instrs) [0..<ph_slots h]"
proof (induction raws arbitrary: spent dfd instrs rule: rev_induct)
  case Nil
  have "replicate (ph_slots h) False = map (written []) [0..<ph_slots h]"
    by (intro nth_equalityI) (simp_all add: written_def)
  then show ?case by (auto simp: instructions_ok_def)
next
  case (snoc r raws)
  let ?ok = "instruction_ok (ph_input_buffer_len h) (ph_constant_count h) (ph_slots h)"
  let ?cost = "\<lambda>instr. cost_charge limits (kind_cost (in_kind instr))"
  have step: "check_instruction limits h (length raws) r (s, map (written is) [0..<ph_slots h], is) = Ok (spent, dfd, instrs) \<longleftrightarrow>
      (\<exists>instr. r = raw_of instr \<and> ?ok (written is) instr \<and> ?cost instr s = Ok spent \<and>
        dfd = map (written (is @ [instr])) [0..<ph_slots h] \<and> instrs = is @ [instr])" for s "is"
  proof -
    have "?ok ((!) (map (written is) [0..<ph_slots h])) instr = ?ok (written is) instr" for instr
      by (rule instruction_ok_cong) simp
    moreover have "(map (written is) [0..<ph_slots h])[in_destination instr := True] = map (written (is @ [instr])) [0..<ph_slots h]" for instr
      unfolding set_flag by (rule map_cong) (auto simp: written_def)
    ultimately show ?thesis by (subst check_instruction_Ok_iff) simp_all
  qed
  have "rfold (enumerate 0 (raws @ [r])) (\<lambda>(i, r). check_instruction limits h i r) (0, replicate (ph_slots h) False, []) = Ok (spent, dfd, instrs) \<longleftrightarrow>
      (\<exists>s is. raws = map raw_of is \<and> instructions_ok (ph_input_buffer_len h) (ph_constant_count h) (ph_slots h) is \<and>
        rfold is ?cost 0 = Ok s \<and>
        check_instruction limits h (length raws) r (s, map (written is) [0..<ph_slots h], is) = Ok (spent, dfd, instrs))"
    using snoc.IH by (auto simp: enumerate_append_eq rfold_append rfold_single rbind_Ok_iff)
  also have "\<dots> \<longleftrightarrow> (\<exists>is instr. instrs = is @ [instr] \<and> raws @ [r] = map raw_of instrs \<and>
      instructions_ok (ph_input_buffer_len h) (ph_constant_count h) (ph_slots h) instrs \<and> rfold instrs ?cost 0 = Ok spent \<and>
      dfd = map (written instrs) [0..<ph_slots h])"
    unfolding step by (auto simp: instructions_ok_snoc rfold_append rfold_single rbind_Ok_iff)
  also have "\<dots> \<longleftrightarrow> raws @ [r] = map raw_of instrs \<and>
      instructions_ok (ph_input_buffer_len h) (ph_constant_count h) (ph_slots h) instrs \<and> rfold instrs ?cost 0 = Ok spent \<and>
      dfd = map (written instrs) [0..<ph_slots h]"
    by (cases instrs rule: rev_cases) auto
  finally show ?case .
qed

section \<open>Outputs\<close>

definition outputs_ok :: "nat \<Rightarrow> nat \<Rightarrow> output_write list \<Rightarrow> bool" where
  "outputs_ok nodes signals ws \<longleftrightarrow> (\<forall>w \<in> set ws. ow_node w < nodes \<and> ow_signal w < signals) \<and>
     distinct (map ow_signal ws) \<and> sorted (map output_key ws)"

lemma outputs_ok_snoc:
  "outputs_ok nodes signals (ws @ [w]) \<longleftrightarrow> outputs_ok nodes signals ws \<and> ow_node w < nodes \<and> ow_signal w < signals \<and>
    ow_signal w \<notin> ow_signal ` set ws \<and> (ws = [] \<or> output_key (last ws) \<le> output_key w)"
proof -
  have "(\<forall>v \<in> set ws. output_key v \<le> output_key w) \<longleftrightarrow> ws = [] \<or> output_key (last ws) \<le> output_key w" if "sorted (map output_key ws)"
    using that by (cases ws rule: rev_cases) (auto simp: sorted_append intro: order_trans)
  then show ?thesis by (auto simp: outputs_ok_def sorted_append)
qed

lemma check_outputs_Ok_iff:
  "rfold (enumerate 0 ws) (\<lambda>(i, w). check_output h w) ([], replicate (ph_signal_count h) False, None) = Ok (outputs, seen, previous) \<longleftrightarrow>
    outputs = ws \<and> outputs_ok (ph_instruction_count h) (ph_signal_count h) ws \<and>
    seen = map (\<lambda>s. s \<in> ow_signal ` set ws) [0..<ph_signal_count h] \<and>
    previous = (if ws = [] then None else Some (output_key (last ws)))"
proof (induction ws arbitrary: outputs seen previous rule: rev_induct)
  case Nil
  have "replicate (ph_signal_count h) False = map (\<lambda>s. False) [0..<ph_signal_count h]"
    by (intro nth_equalityI) simp_all
  then show ?case by (auto simp: outputs_ok_def)
next
  case (snoc w ws)
  let ?seen = "map (\<lambda>s. s \<in> ow_signal ` set ws) [0..<ph_signal_count h]"
  have upd: "?seen[ow_signal w := True] = map (\<lambda>s. s \<in> ow_signal ` set (ws @ [w])) [0..<ph_signal_count h]"
    unfolding set_flag by (rule map_cong) auto
  have "check_output h w (ws, ?seen, if ws = [] then None else Some (output_key (last ws))) = Ok (outputs, seen, previous) \<longleftrightarrow>
      ow_node w < ph_instruction_count h \<and> ow_signal w < ph_signal_count h \<and> ow_signal w \<notin> ow_signal ` set ws \<and>
      (ws = [] \<or> output_key (last ws) \<le> output_key w) \<and> outputs = ws @ [w] \<and>
      seen = map (\<lambda>s. s \<in> ow_signal ` set (ws @ [w])) [0..<ph_signal_count h] \<and> previous = Some (output_key w)"
    unfolding upd [symmetric] by (auto simp: check_output_def rbind_Ok_iff not_le not_less rassert_def split: if_splits)
  then show ?case
    using snoc.IH by (auto simp: enumerate_append_eq rfold_append rfold_single rbind_Ok_iff outputs_ok_snoc)
qed

section \<open>Input mappings\<close>

definition mapping_in_range :: "nat \<Rightarrow> input_mapping \<Rightarrow> bool" where
  "mapping_in_range len m \<longleftrightarrow> 0 < im_signal_id m \<and> 0 < im_signal_size m \<and> im_signal_id m + im_signal_size m \<le> len"

lemma check_mappings_Ok_iff:
  assumes "len < 2 ^ 64"
  shows "rfold (enumerate 0 ms) (\<lambda>(i, m). check_mapping len i m) ([], {}) = Ok (mappings, hashes) \<longleftrightarrow>
    mappings = ms \<and> distinct (map im_hash ms) \<and> (\<forall>m \<in> set ms. mapping_in_range len m) \<and> hashes = im_hash ` set ms"
proof (induction ms arbitrary: mappings hashes rule: rev_induct)
  case (snoc m ms)
  have "check_mapping len i m (ms, im_hash ` set ms) = Ok (mappings, hashes) \<longleftrightarrow>
      im_hash m \<notin> im_hash ` set ms \<and> mapping_in_range len m \<and> mappings = ms @ [m] \<and> hashes = im_hash ` set (ms @ [m])" for i
    using assms by (auto simp: check_mapping_def rbind_Ok_iff mapping_in_range_def split: option.splits)
      (auto simp: checked_add_def usize_bits_def split: if_splits)
  then show ?case
    using snoc.IH by (auto simp: enumerate_append_eq rfold_append rfold_single rbind_Ok_iff)
qed auto

lemma mappings_ok_iff:
  "mappings_ok len ms \<and> (\<forall>m \<in> set ms. mapping_fits m) \<longleftrightarrow>
    (\<forall>m \<in> set ms. mapping_fits m) \<and> distinct (map im_hash ms) \<and> (\<forall>m \<in> set ms. mapping_in_range len m) \<and>
    check_input_ranges (map mapping_range ms) = Ok ()" (is "?l \<longleftrightarrow> ?r")
proof -
  have "check_input_ranges (map mapping_range ms) = Ok () \<longleftrightarrow>
      (\<forall>m \<in> set ms. \<forall>m' \<in> set ms. nested_or_disjoint (mapping_range m) (mapping_range m'))" if "\<forall>m \<in> set ms. mapping_in_range len m"
  proof -
    have "\<forall>r \<in> set (map mapping_range ms). 0 < snd r" using that by (auto simp: mapping_range_def mapping_in_range_def)
    from check_input_ranges_Ok_iff [OF this] show ?thesis by (auto simp: all_set_conv_all_nth)
  qed
  then show ?thesis by (auto simp: mappings_ok_def mapping_in_range_def mapping_fits_def)
qed

section \<open>The loops of the decoder\<close>

lemma decode_instructions_Ok_iff:
  "rfold [0..<n] (decode_instruction limits h) (bs, 0, replicate (ph_slots h) False, []) = Ok (bs', spent, dfd, instrs) \<longleftrightarrow>
    length instrs = n \<and> (\<forall>instr \<in> set instrs. raw_fits (raw_of instr)) \<and> bs = concat (map encode_instruction instrs) @ bs' \<and>
    instructions_ok (ph_input_buffer_len h) (ph_constant_count h) (ph_slots h) instrs \<and>
    rfold instrs (\<lambda>instr. cost_charge limits (kind_cost (in_kind instr))) 0 = Ok spent \<and>
    dfd = map (written instrs) [0..<ph_slots h]"
proof -
  have "rfold [0..<n] (decode_instruction limits h) (bs, 0, replicate (ph_slots h) False, []) = Ok (bs', spent, dfd, instrs) \<longleftrightarrow>
      (\<exists>raws. length raws = n \<and> entries_ok (\<lambda>i. raw_fits) raws \<and> bs = table_bytes (\<lambda>i. raw_bytes) raws @ bs' \<and>
        rfold (enumerate 0 raws) (\<lambda>(i, r). check_instruction limits h i r) (0, replicate (ph_slots h) False, []) = Ok (spent, dfd, instrs))"
    by (rule raw_table.loop_Ok_iff) (simp add: decode_instruction_def)
  then show ?thesis
    by (auto simp: check_instructions_Ok_iff entries_ok_const table_bytes_const raw_bytes_of o_def)
qed

lemma constant_from_bytes_Ok_iff: "length v = 32 \<Longrightarrow> constant_from_bytes v i = Ok c \<longleftrightarrow> v = sf_to_le_bytes c"
proof -
  assume v: "length v = 32"
  have "fr_rep c < 256 ^ 32" using less_trans [OF fr_rep_less, of "2 ^ 256" c] fr_modulus_lt(1) by simp
  then have c: "nat_of_le (nat_to_le 32 (fr_rep c)) = fr_rep c" by simp
  have "nat_to_le 32 (nat_of_le v) = v" by (rule le_32_unique [OF v])
  then show ?thesis
    using c by (auto simp: constant_from_bytes_def sf_from_le_bytes_def sf_to_le_bytes_def Let_def split: if_splits)
qed

lemma length_sf_to_le_bytes [simp]: "length (sf_to_le_bytes c) = 32"
  by (simp add: sf_to_le_bytes_def)

lemma decode_constants_Ok_iff:
  "rfold [0..<n] decode_constant (bs, []) = Ok (bs', cs) \<longleftrightarrow> length cs = n \<and> bs = concat (map sf_to_le_bytes cs) @ bs'"
proof -
  let ?f = "\<lambda>i v cs. rbind (constant_from_bytes v i) (\<lambda>c. Ok (cs @ [c]))"
  have fold: "rfold (enumerate 0 vs) (\<lambda>(i, v). ?f i v) [] = Ok cs \<longleftrightarrow> vs = map sf_to_le_bytes cs" if "\<forall>v \<in> set vs. length v = 32" for vs
    using that
  proof (induction vs arbitrary: cs rule: rev_induct)
    case (snoc v vs)
    then have "rfold (enumerate 0 (vs @ [v])) (\<lambda>(i, v). ?f i v) [] = Ok cs \<longleftrightarrow>
        (\<exists>ds c. vs = map sf_to_le_bytes ds \<and> v = sf_to_le_bytes c \<and> cs = ds @ [c])"
      by (auto simp: enumerate_append_eq rfold_append rfold_single rbind_Ok_iff constant_from_bytes_Ok_iff)
    then show ?case by (cases cs rule: rev_cases) auto
  qed auto
  have "rfold [0..<n] decode_constant (bs, []) = Ok (bs', cs) \<longleftrightarrow>
      (\<exists>vs. length vs = n \<and> entries_ok (\<lambda>i v. length v = 32) vs \<and> bs = table_bytes (\<lambda>i v. v) vs @ bs' \<and>
        rfold (enumerate 0 vs) (\<lambda>(i, v). ?f i v) [] = Ok cs)"
    by (rule constant_table.loop_Ok_iff) (simp add: decode_constant_def)
  moreover have "length vs = n \<and> (\<forall>v \<in> set vs. length v = 32) \<and> bs = concat vs @ bs' \<and> rfold (enumerate 0 vs) (\<lambda>(i, v). ?f i v) [] = Ok cs \<longleftrightarrow>
      vs = map sf_to_le_bytes cs \<and> length vs = n \<and> bs = concat vs @ bs'" for vs
    using fold [of vs] by (cases "\<forall>v \<in> set vs. length v = 32") auto
  ultimately show ?thesis by (simp add: entries_ok_const table_bytes_const)
qed

lemma decode_outputs_Ok_iff:
  "rfold [0..<n] (decode_output h) (bs, [], replicate (ph_signal_count h) False, None) = Ok (bs', ws, seen, previous) \<longleftrightarrow>
    length ws = n \<and> (\<forall>w \<in> set ws. output_fits w) \<and> bs = concat (map encode_output ws) @ bs' \<and>
    outputs_ok (ph_instruction_count h) (ph_signal_count h) ws \<and>
    seen = map (\<lambda>s. s \<in> ow_signal ` set ws) [0..<ph_signal_count h] \<and>
    previous = (if ws = [] then None else Some (output_key (last ws)))"
proof -
  have "rfold [0..<n] (decode_output h) (bs, [], replicate (ph_signal_count h) False, None) = Ok (bs', ws, seen, previous) \<longleftrightarrow>
      (\<exists>vs. length vs = n \<and> entries_ok (\<lambda>i. output_fits) vs \<and> bs = table_bytes (\<lambda>i. encode_output) vs @ bs' \<and>
        rfold (enumerate 0 vs) (\<lambda>(i, w). check_output h w) ([], replicate (ph_signal_count h) False, None) = Ok (ws, seen, previous))"
    by (rule output_table.loop_Ok_iff) (simp add: decode_output_def)
  then show ?thesis by (auto simp: check_outputs_Ok_iff entries_ok_const table_bytes_const)
qed

lemma decode_mappings_Ok_iff:
  assumes "len < 2 ^ 64"
  shows "rfold [0..<n] (decode_mapping len) (bs, [], {}) = Ok (bs', ms, hashes) \<longleftrightarrow>
    length ms = n \<and> (\<forall>m \<in> set ms. mapping_fits m) \<and> bs = concat (map mapping_bytes ms) @ bs' \<and>
    distinct (map im_hash ms) \<and> (\<forall>m \<in> set ms. mapping_in_range len m) \<and> hashes = im_hash ` set ms"
proof -
  have "rfold [0..<n] (decode_mapping len) (bs, [], {}) = Ok (bs', ms, hashes) \<longleftrightarrow>
      (\<exists>vs. length vs = n \<and> entries_ok (\<lambda>i. mapping_fits) vs \<and> bs = table_bytes (\<lambda>i. mapping_bytes) vs @ bs' \<and>
        rfold (enumerate 0 vs) (\<lambda>(i, m). check_mapping len i m) ([], {}) = Ok (ms, hashes))"
    by (rule mapping_table.loop_Ok_iff) (simp add: decode_mapping_def)
  then show ?thesis using check_mappings_Ok_iff [OF assms] by (auto simp: entries_ok_const table_bytes_const)
qed

section \<open>Programs\<close>

definition header_bytes :: "program_header \<Rightarrow> byte list" where
  "header_bytes h = program_magic @ nat_to_le 4 program_version @ nat_to_le 4 program_header_bytes @
     ph_source_graph_sha256 h @ ph_r1cs_sha256 h @
     concat (map (nat_to_le 4) [ph_instruction_count h, ph_constant_count h, ph_output_count h, ph_input_mapping_count h,
       ph_input_buffer_len h, ph_signal_count h, ph_slots h])"

definition header_fits :: "program_header \<Rightarrow> bool" where
  "header_fits h \<longleftrightarrow> length (ph_source_graph_sha256 h) = 32 \<and> length (ph_r1cs_sha256 h) = 32 \<and>
     ph_instruction_count h < 2 ^ 32 \<and> ph_constant_count h < 2 ^ 32 \<and> ph_output_count h < 2 ^ 32 \<and>
     ph_input_mapping_count h < 2 ^ 32 \<and> ph_input_buffer_len h < 2 ^ 32 \<and> ph_signal_count h < 2 ^ 32 \<and> ph_slots h < 2 ^ 32"

lemma read_program_header_Ok_iff:
  "read_program_header expected bs = Ok (h, bs') \<longleftrightarrow>
    header_fits h \<and> decode_sha256 expected = Ok (ph_source_graph_sha256 h) \<and> bs = header_bytes h @ bs'"
proof -
  have magic: "length program_magic = 8" by (simp add: program_magic_def)
  show ?thesis
    by (cases h) (auto simp: read_program_header_def rbind_Ok_iff pr_array_Ok_iff pr_uint_Ok_iff header_fits_def header_bytes_def
      magic program_version_def program_header_bytes_def)
qed

definition header_of :: "sage_graph \<Rightarrow> program_header" where
  "header_of s = \<lparr>ph_source_graph_sha256 = sg_source_graph_sha256 s, ph_r1cs_sha256 = sg_r1cs_sha256 s,
     ph_instruction_count = length (sg_instructions s), ph_constant_count = length (sg_constants s),
     ph_output_count = length (sg_outputs s), ph_input_mapping_count = length (sg_input_mapping s),
     ph_input_buffer_len = sg_input_buffer_len s, ph_signal_count = sg_signal_count s, ph_slots = sg_slots s\<rparr>"

definition program_bytes :: "sage_graph \<Rightarrow> byte list" where
  "program_bytes s = header_bytes (header_of s) @ concat (map encode_instruction (sg_instructions s)) @
     concat (map sf_to_le_bytes (sg_constants s)) @ concat (map encode_output (sg_outputs s)) @
     concat (map mapping_bytes (sg_input_mapping s))"

definition program_length :: "sage_graph \<Rightarrow> nat" where
  "program_length s = 108 + 16 * length (sg_instructions s) + 32 * length (sg_constants s) +
     8 * length (sg_outputs s) + 16 * length (sg_input_mapping s)"

text \<open>What the decoder guarantees, and the compiler provides.\<close>

definition program_valid :: "sage_graph \<Rightarrow> bool" where
  "program_valid s \<longleftrightarrow> header_fits (header_of s) \<and>
     0 < length (sg_instructions s) \<and> length (sg_instructions s) \<le> lm_nodes (sg_limits s) \<and>
     0 < sg_slots s \<and> sg_slots s \<le> length (sg_instructions s) \<and> length (sg_constants s) \<le> length (sg_instructions s) \<and>
     0 < sg_signal_count s \<and> sg_signal_count s \<le> lm_signals (sg_limits s) \<and> length (sg_outputs s) = sg_signal_count s \<and>
     0 < sg_input_buffer_len s \<and> sg_input_buffer_len s \<le> lm_input_values (sg_limits s) \<and>
     length (sg_input_mapping s) \<le> lm_input_mappings (sg_limits s) \<and>
     program_length s \<le> lm_sage_program_bytes (sg_limits s) \<and>
     instructions_ok (sg_input_buffer_len s) (length (sg_constants s)) (sg_slots s) (sg_instructions s) \<and>
     saturate (\<Sum>instr\<leftarrow>sg_instructions s. kind_cost (in_kind instr)) \<le> lm_evaluation_cost (sg_limits s) \<and>
     outputs_ok (length (sg_instructions s)) (sg_signal_count s) (sg_outputs s) \<and>
     mappings_ok (sg_input_buffer_len s) (sg_input_mapping s)"

lemma program_size_Ok_iff:
  "i < 2 ^ 32 \<Longrightarrow> c < 2 ^ 32 \<Longrightarrow> w < 2 ^ 32 \<Longrightarrow> m < 2 ^ 32 \<Longrightarrow> program_size i c w m = Ok n \<longleftrightarrow>
    n = 108 + 16 * i + 32 * c + 8 * w + 16 * m"
  by (auto simp: program_size_def rbind_Ok_iff checked_mul_def checked_add_def usize_bits_def program_instruction_bytes_def
    program_constant_bytes_def program_output_bytes_def program_input_mapping_bytes_def program_header_bytes_def split: if_splits)

lemma all_signals_seen:
  assumes "outputs_ok n k ws" and "length ws = k"
  shows "list_all id (map (\<lambda>s. s \<in> ow_signal ` set ws) [0..<k])"
proof -
  have "ow_signal ` set ws \<subseteq> {..<k}" "card (ow_signal ` set ws) = k"
    using assms distinct_card [of "map ow_signal ws"] by (auto simp: outputs_ok_def)
  then have "ow_signal ` set ws = {..<k}" by (intro card_subset_eq) auto
  then show ?thesis by (auto simp: list_all_iff)
qed

lemma table_lengths:
  "length (encode_instruction instr) = 16" "length (encode_output w) = 8" "length (mapping_bytes m) = 16"
  by (simp_all add: encode_instruction_def encode_output_def mapping_bytes_def split: prod.split)

lemma length_concat_const: "(\<And>x. length (f x) = k) \<Longrightarrow> length (concat (map f xs)) = k * length xs"
  by (induction xs) simp_all

lemma length_program_bytes:
  assumes "header_fits (header_of s)"
  shows "length (program_bytes s) = program_length s"
proof -
  have "length (header_bytes (header_of s)) = 108"
    using assms by (simp add: header_bytes_def header_fits_def program_magic_def)
  then show ?thesis
    by (simp add: program_bytes_def program_length_def length_concat_const table_lengths length_concat_const [of encode_instruction 16]
      length_concat_const [of sf_to_le_bytes 32] length_concat_const [of encode_output 8] length_concat_const [of mapping_bytes 16])
qed

lemma mapping_fits_of: "mappings_ok len ms \<Longrightarrow> len < 2 ^ 32 \<Longrightarrow> \<forall>m \<in> set ms. mapping_fits m"
  by (fastforce simp: mappings_ok_def mapping_fits_def)

lemma instructions_fit:
  assumes "header_fits (header_of s)"
    and "instructions_ok (sg_input_buffer_len s) (length (sg_constants s)) (sg_slots s) (sg_instructions s)"
  shows "\<forall>instr \<in> set (sg_instructions s). raw_fits (raw_of instr)"
proof
  fix instr assume "instr \<in> set (sg_instructions s)"
  then obtain p where "instruction_ok (sg_input_buffer_len s) (length (sg_constants s)) (sg_slots s) p instr"
    using assms(2) by (auto simp: instructions_ok_def in_set_conv_nth)
  then show "raw_fits (raw_of instr)"
    using assms(1) less_trans [OF operation_tag_less, of 256]
    by (auto simp: instruction_ok_def header_fits_def header_of_def raw_fits_def raw_of.simps encode_kind_def split: sage_kind.splits)
qed

lemma outputs_fit:
  assumes "outputs_ok (length (sg_instructions s)) (sg_signal_count s) (sg_outputs s)" and "header_fits (header_of s)"
  shows "\<forall>w \<in> set (sg_outputs s). output_fits w"
  using assms by (fastforce simp: outputs_ok_def header_fits_def header_of_def output_fits_def)

lemma encode_program_cases:
  assumes "header_fits (header_of s)" and "\<forall>m \<in> set (sg_input_mapping s). mapping_fits m"
  shows "encode_program s = (if program_length s \<le> lm_sage_program_bytes (sg_limits s) then Ok (program_bytes s)
    else Err (SageProgramTooLarge (lm_sage_program_bytes (sg_limits s))))"
proof -
  have fits: "length (sg_instructions s) < 2 ^ 32" "length (sg_constants s) < 2 ^ 32" "length (sg_outputs s) < 2 ^ 32"
      "length (sg_input_mapping s) < 2 ^ 32" "sg_input_buffer_len s < 2 ^ 32" "sg_signal_count s < 2 ^ 32" "sg_slots s < 2 ^ 32"
    using assms(1) by (simp_all add: header_fits_def header_of_def)
  have constants: "rmap encode_constant (sg_constants s) = Ok (map sf_to_le_bytes (sg_constants s))"
    by (rule rmap_Ok) (simp add: encode_constant_def Let_def program_constant_bytes_def)
  have mappings: "rmap encode_mapping (sg_input_mapping s) = Ok (map mapping_bytes (sg_input_mapping s))"
    using assms(2) by (intro rmap_Ok) (simp add: encode_mapping_Ok_iff mapping_fits_def)
  have count: "program_size (length (sg_instructions s)) (length (sg_constants s)) (length (sg_outputs s)) (length (sg_input_mapping s)) =
      Ok (program_length s)"
    using program_size_Ok_iff [OF fits(1-4)] by (simp add: program_length_def)
  have "encode_program s =
      rbind (guard (lm_sage_program_bytes (sg_limits s) < program_length s) (SageProgramTooLarge (lm_sage_program_bytes (sg_limits s)))) (\<lambda>_.
        Ok (program_bytes s))"
    using length_program_bytes [OF assms(1)] fits
    by (simp add: encode_program_def index_u32_def count constants mappings Let_def program_bytes_def header_bytes_def header_of_def)
  then show ?thesis by simp
qed

lemma encode_program_Ok_iff:
  assumes "header_fits (header_of s)" and "\<forall>m \<in> set (sg_input_mapping s). mapping_fits m"
  shows "encode_program s = Ok bs \<longleftrightarrow> program_length s \<le> lm_sage_program_bytes (sg_limits s) \<and> bs = program_bytes s"
  using encode_program_cases [OF assms] by auto

lemma decode_program_Ok_iff:
  "decode_program (bs, sound) declared expected limits = Ok s \<longleftrightarrow>
    sound \<and> program_valid s \<and> sg_limits s = limits \<and> decode_sha256 expected = Ok (sg_source_graph_sha256 s) \<and>
    bs = program_bytes s \<and> (declared = None \<or> declared = Some (length bs))" (is "?decode \<longleftrightarrow> ?spec")
proof
  assume ?decode
  then obtain h b1 b2 b3 b4 b5 spent dfd instrs cs ws seen previous ms hashes n where d:
      "read_program_header expected bs = Ok (h, b1)" "check_dimensions limits h = Ok ()"
      "program_size (ph_instruction_count h) (ph_constant_count h) (ph_output_count h) (ph_input_mapping_count h) = Ok n"
      "n \<le> lm_sage_program_bytes limits" "\<not> (case declared of Some m \<Rightarrow> n \<noteq> m | None \<Rightarrow> False)"
      "rfold [0..<ph_instruction_count h] (decode_instruction limits h) (b1, 0, replicate (ph_slots h) False, []) = Ok (b2, spent, dfd, instrs)"
      "rfold [0..<ph_constant_count h] decode_constant (b2, []) = Ok (b3, cs)"
      "rfold [0..<ph_output_count h] (decode_output h) (b3, [], replicate (ph_signal_count h) False, None) = Ok (b4, ws, seen, previous)"
      "rfold [0..<ph_input_mapping_count h] (decode_mapping (ph_input_buffer_len h)) (b4, [], {}) = Ok (b5, ms, hashes)"
      "check_input_ranges (map mapping_range ms) = Ok ()" "pr_is_empty sound b5 = Ok True"
      and s: "s = \<lparr>sg_limits = limits, sg_instructions = instrs, sg_constants = cs, sg_outputs = ws,
           sg_input_mapping = ms, sg_input_buffer_len = ph_input_buffer_len h,
           sg_signal_count = ph_signal_count h, sg_slots = ph_slots h, sg_r1cs_sha256 = ph_r1cs_sha256 h,
           sg_source_graph_sha256 = ph_source_graph_sha256 h\<rparr>"
    by (auto simp: decode_program_def rbind_Ok_iff not_less mapping_range_def [abs_def])
  have declared: "declared = None \<or> declared = Some n" using d(5) by (cases declared) auto
  have h: "header_fits h" "decode_sha256 expected = Ok (ph_source_graph_sha256 h)" "bs = header_bytes h @ b1"
    using d(1) by (auto simp: read_program_header_Ok_iff)
  have dims: "ph_instruction_count h \<le> lm_nodes limits" "ph_input_mapping_count h \<le> lm_input_mappings limits"
      "ph_input_buffer_len h \<le> lm_input_values limits" "ph_signal_count h \<le> lm_signals limits" "0 < ph_instruction_count h"
      "0 < ph_input_buffer_len h" "0 < ph_signal_count h" "0 < ph_slots h" "ph_slots h \<le> ph_instruction_count h"
      "ph_constant_count h \<le> ph_instruction_count h" "ph_output_count h = ph_signal_count h"
    using d(2) by (auto simp: check_dimensions_def check_count_def rbind_Ok_iff not_less)
  note instrs = d(6) [unfolded decode_instructions_Ok_iff]
  note cs = d(7) [unfolded decode_constants_Ok_iff]
  note ws = d(8) [unfolded decode_outputs_Ok_iff]
  have len: "ph_input_buffer_len h < 2 ^ 64" using h(1) by (simp add: header_fits_def)
  note ms = d(9) [unfolded decode_mappings_Ok_iff [OF len]]
  have end_ok: "b5 = []" "sound" using d(11) by (auto simp: pr_is_empty_def split: if_splits)
  have head: "header_of s = h" using instrs cs ws ms by (cases h) (simp add: header_of_def s)
  have "bs = program_bytes s"
    using h(3) instrs cs ws ms end_ok head by (simp add: program_bytes_def s)
  moreover have n: "n = program_length s"
    using d(3) program_size_Ok_iff [of "ph_instruction_count h" "ph_constant_count h" "ph_output_count h" "ph_input_mapping_count h" n]
      h(1) instrs cs ws ms by (simp add: header_fits_def program_length_def s)
  moreover have "program_valid s"
  proof -
    have "mappings_ok (ph_input_buffer_len h) ms" using mappings_ok_iff [of "ph_input_buffer_len h" ms] ms d(10) by blast
    moreover have "saturate (\<Sum>instr\<leftarrow>instrs. kind_cost (in_kind instr)) \<le> lm_evaluation_cost limits"
      using cost_charges_Ok_iff [of instrs limits "\<lambda>instr. kind_cost (in_kind instr)" 0 spent] instrs dims(5)
      by (auto simp: saturate_def)
    ultimately show ?thesis
      using h(1) dims instrs cs ws ms d(4) n head by (simp add: program_valid_def s)
  qed
  moreover have "length bs = program_length s" using calculation(1) length_program_bytes [of s] head h(1) by simp
  ultimately show ?spec using end_ok(2) h(2) declared by (auto simp: s)
next
  assume spec: ?spec
  let ?h = "header_of s"
  have v: "program_valid s" "sg_limits s = limits" using spec by auto
  note v1 = v(1) [unfolded program_valid_def]
  have fits: "header_fits ?h" using v1 by blast
  have len: "sg_input_buffer_len s < 2 ^ 64" "sg_input_buffer_len s < 2 ^ 32" using fits by (simp_all add: header_fits_def header_of_def)
  have ms: "\<forall>m \<in> set (sg_input_mapping s). mapping_fits m" using mapping_fits_of [OF _ len(2)] v1 by blast
  note mcheck = mappings_ok_iff [of "sg_input_buffer_len s" "sg_input_mapping s"]
  define tail1 where "tail1 = concat (map sf_to_le_bytes (sg_constants s)) @ concat (map encode_output (sg_outputs s)) @
      concat (map mapping_bytes (sg_input_mapping s))"
  define tail2 where "tail2 = concat (map encode_output (sg_outputs s)) @ concat (map mapping_bytes (sg_input_mapping s))"
  define tail3 where "tail3 = concat (map mapping_bytes (sg_input_mapping s))"
  have 1: "read_program_header expected bs = Ok (?h, concat (map encode_instruction (sg_instructions s)) @ tail1)"
    using spec fits by (simp add: read_program_header_Ok_iff program_bytes_def header_of_def tail1_def)
  have 2: "check_dimensions limits ?h = Ok ()"
    using v1 v(2) by (simp add: check_dimensions_def check_count_def header_of_def)
  have 3: "program_size (ph_instruction_count ?h) (ph_constant_count ?h) (ph_output_count ?h) (ph_input_mapping_count ?h) = Ok (program_length s)"
    using fits by (simp add: program_size_Ok_iff header_fits_def header_of_def program_length_def)
  have "sg_instructions s \<noteq> []" using v1 by auto
  then obtain spent where spent: "rfold (sg_instructions s) (\<lambda>instr. cost_charge limits (kind_cost (in_kind instr))) 0 = Ok spent"
    using cost_charges_Ok_iff [of "sg_instructions s" limits "\<lambda>instr. kind_cost (in_kind instr)" 0] v1 v(2)
    by (simp add: saturate_def)
  have 4: "rfold [0..<ph_instruction_count ?h] (decode_instruction limits ?h)
        (concat (map encode_instruction (sg_instructions s)) @ tail1, 0, replicate (ph_slots ?h) False, []) =
      Ok (tail1, spent, map (written (sg_instructions s)) [0..<ph_slots ?h], sg_instructions s)"
    unfolding decode_instructions_Ok_iff using spent v1 instructions_fit [OF fits] by (simp add: header_of_def)
  have 5: "rfold [0..<ph_constant_count ?h] decode_constant (tail1, []) = Ok (tail2, sg_constants s)"
    unfolding decode_constants_Ok_iff by (simp add: header_of_def tail1_def tail2_def)
  have 6: "rfold [0..<ph_output_count ?h] (decode_output ?h) (tail2, [], replicate (ph_signal_count ?h) False, None) =
      Ok (tail3, sg_outputs s, map (\<lambda>i. i \<in> ow_signal ` set (sg_outputs s)) [0..<sg_signal_count s],
        if sg_outputs s = [] then None else Some (output_key (last (sg_outputs s))))"
    unfolding decode_outputs_Ok_iff using v1 outputs_fit [OF _ fits] by (simp add: header_of_def tail2_def tail3_def)
  have 7: "rfold [0..<ph_input_mapping_count ?h] (decode_mapping (ph_input_buffer_len ?h)) (tail3, [], {}) =
      Ok ([], sg_input_mapping s, im_hash ` set (sg_input_mapping s))"
    using v1 ms mcheck by (simp add: decode_mappings_Ok_iff [OF len(1)] header_of_def tail3_def)
  have 8: "check_input_ranges (map mapping_range (sg_input_mapping s)) = Ok ()" using v1 ms mcheck by blast
  have 9: "list_all id (map (\<lambda>i. i \<in> ow_signal ` set (sg_outputs s)) [0..<sg_signal_count s])"
    using v1 all_signals_seen by blast
  have 10: "length bs = program_length s" using spec length_program_bytes [OF fits] by simp
  have 11: "\<not> (case declared of Some m \<Rightarrow> program_length s \<noteq> m | None \<Rightarrow> False)" using spec 10 by auto
  have 12: "\<not> lm_sage_program_bytes limits < program_length s" using v1 v(2) by auto
  have 13: "pr_is_empty sound [] = Ok True" using spec by (simp add: pr_is_empty_def)
  have 14: "s = \<lparr>sg_limits = limits, sg_instructions = sg_instructions s, sg_constants = sg_constants s, sg_outputs = sg_outputs s,
      sg_input_mapping = sg_input_mapping s, sg_input_buffer_len = ph_input_buffer_len ?h, sg_signal_count = ph_signal_count ?h,
      sg_slots = ph_slots ?h, sg_r1cs_sha256 = ph_r1cs_sha256 ?h, sg_source_graph_sha256 = ph_source_graph_sha256 ?h\<rparr>"
    using v(2) by (simp add: header_of_def)
  show ?decode
    unfolding decode_program_def Let_def
    by (simp only: prod.case rbind.simps 1 2 3 4 5 6 7 8 9 mapping_range_def [abs_def, symmetric] guard_simps 11 12 13 not_not
      not_True_eq_False simp_thms if_False 14 [symmetric])
qed

end
