(* ===== verification/Sage_Cache.thy ===== *)
theory Sage_Cache
  imports Sage_Codec
begin

text \<open>
  The cached form of a compiled program: what the compiler emits is a valid program that comes
  back unchanged from its bytes, the digest of its source included, and a program loaded from
  any bytes at all runs without an out-of-range access.
\<close>

section \<open>Compiled programs are valid\<close>

lemma read_header_fits:
  assumes "read_header limits bs = Ok (h, bs')"
  shows "length (hd_r1cs_sha256 h) = 32 \<and> hd_input_buffer_len h < 2 ^ 32 \<and> hd_input_mapping_count h < 2 ^ 32"
  using assms by (auto simp: read_header_def rbind_Ok_iff checked_count_def rd_uints_Ok_iff rd_take_Ok_iff)

lemma decodes_fits:
  assumes "decodes limits bytes h records signals mappings"
  shows "length (hd_r1cs_sha256 h) = 32 \<and> hd_input_buffer_len h < 2 ^ 32 \<and> length mappings < 2 ^ 32"
  using assms unfolding decodes_def by (auto dest!: read_header_fits read_input_mappings_ok)

lemma parsed_graph_fits:
  assumes "parse_graph bytes limits = Ok g"
  shows "length (wg_r1cs_sha256 g) = 32 \<and> wg_input_buffer_len g < 2 ^ 32 \<and> length (wg_input_mapping g) < 2 ^ 32 \<and>
    length (wg_nodes g) < 2 ^ 32 \<and> length (wg_signals g) < 2 ^ 32"
proof -
  obtain h records signals mappings where d: "decodes limits bytes h records signals mappings"
      and g: "g = graph_of limits h records signals mappings"
    using assms unfolding parse_graph_Ok_iff by blast
  show ?thesis using decodes_ok [OF d] decodes_fits [OF d] by (simp add: g graph_of_def)
qed

lemma implements_ok:
  assumes "implements slots constants i node instr" and "node_ok buffer i node"
    and "\<forall>j \<in> set (operands node). slots ! j < n \<and> p (slots ! j)" and "slots ! i < n"
  shows "instruction_ok buffer (length constants) n p instr \<and> kind_cost (in_kind instr) = node_cost node"
proof (cases node)
  case (GConstant c)
  then have "in_kind instr = KConstant" "in_right instr = 0" "in_left instr < length constants" "in_destination instr = slots ! i"
    using assms(1) by (auto dest: arg_cong [where f = in_kind] arg_cong [where f = in_right] arg_cong [where f = in_destination])
  then show ?thesis using GConstant assms(4) by (simp add: instruction_ok_def kind_cost_def)
qed (use assms in \<open>auto simp: instruction_ok_def kind_cost_def\<close>)

lemma operands_before: "node_ok len i node \<Longrightarrow> j \<in> set (operands node) \<Longrightarrow> j < i"
  by (cases node) auto

lemma compiled_instructions:
  assumes p: "program_of s g L slots" and g: "graph_ok g"
  shows "instructions_ok (sg_input_buffer_len s) (length (sg_constants s)) (sg_slots s) (sg_instructions s)"
    and "map (\<lambda>instr. kind_cost (in_kind instr)) (sg_instructions s) = map node_cost (wg_nodes g)"
proof -
  have n: "length (sg_instructions s) = length (wg_nodes g)" and buffer: "sg_input_buffer_len s = wg_input_buffer_len g"
    using p by (simp_all add: program_of_def)
  have ok: "instruction_ok (sg_input_buffer_len s) (length (sg_constants s)) (sg_slots s) (written (take i (sg_instructions s)))
        (sg_instructions s ! i) \<and> kind_cost (in_kind (sg_instructions s ! i)) = node_cost (wg_nodes g ! i)"
    if i: "i < length (wg_nodes g)" for i
  proof (rule implements_ok)
    show "implements slots (sg_constants s) i (wg_nodes g ! i) (sg_instructions s ! i)" using p i by (simp add: program_of_def)
    show node: "node_ok (sg_input_buffer_len s) i (wg_nodes g ! i)" using g i buffer by (simp add: graph_ok_def)
    show "slots ! i < sg_slots s" using p i by (simp add: program_of_def)
    show "\<forall>j \<in> set (operands (wg_nodes g ! i)). slots ! j < sg_slots s \<and> written (take i (sg_instructions s)) (slots ! j)"
    proof
      fix j assume "j \<in> set (operands (wg_nodes g ! i))"
      then have j: "j < i" by (rule operands_before [OF node])
      then have impl: "implements slots (sg_constants s) j (wg_nodes g ! j) (sg_instructions s ! j)" and slot: "slots ! j < sg_slots s"
        using p i by (simp_all add: program_of_def)
      have "in_destination (sg_instructions s ! j) = slots ! j" using impl by (rule implements_destination)
      moreover have "sg_instructions s ! j \<in> set (take i (sg_instructions s))"
        using i j n by (auto simp: in_set_conv_nth intro!: exI [of _ j])
      ultimately show "slots ! j < sg_slots s \<and> written (take i (sg_instructions s)) (slots ! j)"
        using slot unfolding written_def by blast
    qed
  qed
  show "instructions_ok (sg_input_buffer_len s) (length (sg_constants s)) (sg_slots s) (sg_instructions s)"
    using ok n by (simp add: instructions_ok_def)
  show "map (\<lambda>instr. kind_cost (in_kind instr)) (sg_instructions s) = map node_cost (wg_nodes g)"
    using ok n by (intro nth_equalityI) simp_all
qed

lemma compiled_outputs:
  assumes p: "program_of s g L slots" and g: "graph_ok g"
  shows "outputs_ok (length (sg_instructions s)) (sg_signal_count s) (sg_outputs s)"
proof -
  let ?ws = "map (\<lambda>(signal, node). \<lparr>ow_node = node, ow_signal = signal\<rparr>) (enumerate 0 (wg_signals g))"
  have outs: "sg_outputs s = sort_key output_key ?ws" using p by (simp add: program_of_def)
  have "map ow_signal ?ws = [0..<length (wg_signals g)]" by (simp add: o_def split_def)
  then have "distinct (map ow_signal ?ws)" by simp
  then have "distinct ?ws" "inj_on ow_signal (set ?ws)" by (simp_all only: distinct_map)
  then have "distinct (map ow_signal (sg_outputs s))" by (simp only: outs distinct_map distinct_sort set_sort)
  moreover have "sorted (map output_key (sg_outputs s))" by (simp add: outs)
  ultimately show ?thesis
    using program_outputs(3) [OF p] p g by (auto simp: outputs_ok_def program_of_def graph_ok_def)
qed

lemma compiled_valid:
  assumes s: "compile bytes limits sha = Ok s" and sha: "length sha = 32"
  shows "header_fits (header_of s)" "sg_source_graph_sha256 s = sha" "sg_limits s = limits"
    and "\<forall>m \<in> set (sg_input_mapping s). mapping_fits m"
    and "program_length s \<le> lm_sage_program_bytes limits \<Longrightarrow> program_valid s"
proof -
  obtain g where parsed: "parse_graph bytes limits = Ok g" using parse_and_compile(1) [of bytes limits sha] s by blast
  obtain L slots where p: "program_of s g L slots" and src: "sg_source_graph_sha256 s = sha"
      and peak: "sg_slots s = peak L (length (wg_nodes g))"
    using parse_and_compile(2) [OF s parsed] by blast
  have g: "graph_ok g" "wg_limits g = limits" using parsed_graph_ok [OF parsed] by auto
  note fits = parsed_graph_fits [OF parsed]
  have slots: "sg_slots s \<le> length (wg_nodes g)" "0 < sg_slots s"
    using peak peak_le p g by (auto simp: program_of_def graph_ok_def)
  have same: "length (sg_instructions s) = length (wg_nodes g)" "length (sg_constants s) \<le> length (wg_nodes g)"
      "sg_signal_count s = length (wg_signals g)" "sg_limits s = limits" "sg_input_mapping s = wg_input_mapping g"
      "sg_input_buffer_len s = wg_input_buffer_len g" "sg_r1cs_sha256 s = wg_r1cs_sha256 g"
      "length (sg_outputs s) = length (wg_signals g)"
    using p g(2) program_outputs(2) [OF p] by (simp_all add: program_of_def)
  show head: "header_fits (header_of s)"
    using fits sha slots same src by (simp add: header_fits_def header_of_def)
  show "sg_source_graph_sha256 s = sha" "sg_limits s = limits" using src same by simp_all
  have maps: "mappings_ok (sg_input_buffer_len s) (sg_input_mapping s)" using g(1) same by (simp add: graph_ok_def)
  then show "\<forall>m \<in> set (sg_input_mapping s). mapping_fits m" using mapping_fits_of fits same by metis
  have cost: "(\<Sum>instr\<leftarrow>sg_instructions s. kind_cost (in_kind instr)) = (\<Sum>n\<leftarrow>wg_nodes g. node_cost n)"
    using compiled_instructions(2) [OF p g(1)] by (rule arg_cong)
  show "program_length s \<le> lm_sage_program_bytes limits \<Longrightarrow> program_valid s"
    using head slots same g maps cost compiled_instructions(1) [OF p g(1)] compiled_outputs [OF p g(1)]
    by (simp add: program_valid_def graph_ok_def)
qed

section \<open>The decoder never panics\<close>

lemma pr_safe [simp]: "pr_array n bs \<noteq> Panic" "pr_uint n bs \<noteq> Panic"
  by (auto simp: pr_array_def pr_uint_def rbind_Panic_iff)

lemma decode_sha256_safe [simp]: "decode_sha256 v \<noteq> Panic"
  by (auto simp: decode_sha256_def rbind_Panic_iff)

lemma check_instruction_safe:
  assumes "length dfd = ph_slots h"
  shows "check_instruction limits h i r (spent, dfd, instrs) \<noteq> Panic"
proof -
  have "reads_undefined_slot dfd \<lparr>in_left = ri_left r, in_right = ri_right r, in_destination = ri_destination r, in_kind = kind\<rparr> \<noteq> Panic"
    if "decode_kind h i r = Ok kind" for kind
    using that assms by (auto simp: decode_kind_Ok_iff reads_undefined_slot_def rbind_Panic_iff idx_def split: sage_kind.splits if_splits)
  moreover have "decode_kind h i r \<noteq> Panic" by (auto simp: decode_kind_def rbind_Panic_iff operation_from_tag_safe)
  ultimately show ?thesis
    using assms by (auto simp: check_instruction_def rbind_Panic_iff Let_def cost_charge_def rassert_def split: if_splits)
qed

lemma decode_instructions_safe:
  assumes "length dfd = ph_slots h"
  shows "rfold ns (decode_instruction limits h) (bs, spent, dfd, instrs) \<noteq> Panic"
proof (rule rfold_no_panic [where P = "\<lambda>(bs, spent, dfd, instrs). length dfd = ph_slots h"])
  fix i and acc :: "byte list \<times> nat \<times> bool list \<times> instruction list"
  assume acc: "case acc of (bs, spent, dfd, instrs) \<Rightarrow> length dfd = ph_slots h"
  obtain bs spent dfd instrs where a: "acc = (bs, spent, dfd, instrs)" by (cases acc) auto
  show "decode_instruction limits h i acc \<noteq> Panic"
    using acc check_instruction_safe [of dfd h]
    by (auto simp: a decode_instruction_def read_raw_instruction_def rbind_Panic_iff)
  fix acc' assume "decode_instruction limits h i acc = Ok acc'"
  then show "case acc' of (bs, spent, dfd, instrs) \<Rightarrow> length dfd = ph_slots h"
    using acc by (cases acc') (auto simp: a decode_instruction_def rbind_Ok_iff check_instruction_Ok_iff)
qed (simp add: assms)

lemma decode_outputs_safe:
  assumes "length seen = ph_signal_count h"
  shows "rfold ns (decode_output h) (bs, ws, seen, previous) \<noteq> Panic"
proof (rule rfold_no_panic [where P = "\<lambda>(bs, ws, seen, previous). length seen = ph_signal_count h"])
  fix i and acc :: "byte list \<times> output_write list \<times> bool list \<times> (nat \<times> nat) option"
  assume acc: "case acc of (bs, ws, seen, previous) \<Rightarrow> length seen = ph_signal_count h"
  obtain bs ws seen previous where a: "acc = (bs, ws, seen, previous)" by (cases acc) auto
  show "decode_output h i acc \<noteq> Panic"
    using acc by (auto simp: a decode_output_def read_output_def check_output_def rbind_Panic_iff rassert_def idx_def split: if_splits)
  fix acc' assume "decode_output h i acc = Ok acc'"
  then show "case acc' of (bs, ws, seen, previous) \<Rightarrow> length seen = ph_signal_count h"
    using acc by (cases acc') (auto simp: a decode_output_def check_output_def rbind_Ok_iff split: if_splits)
qed (simp add: assms)

lemma decode_program_safe: "decode_program source declared expected limits \<noteq> Panic"
proof -
  have "read_program_header expected bs \<noteq> Panic" for bs
    by (auto simp: read_program_header_def rbind_Panic_iff)
  moreover have "check_dimensions limits h \<noteq> Panic" for h
    by (auto simp: check_dimensions_def check_count_def rbind_Panic_iff)
  moreover have "program_size i c w m \<noteq> Panic" for i c w m by (auto simp: program_size_def rbind_Panic_iff)
  moreover have "rfold ns decode_constant acc \<noteq> Panic" for ns acc
    by (rule rfold_no_panic [where P = "\<lambda>_. True"]) (auto simp: decode_constant_def constant_from_bytes_def rbind_Panic_iff)
  moreover have "rfold ns (decode_mapping n) acc \<noteq> Panic" for ns n acc
    by (rule rfold_no_panic [where P = "\<lambda>_. True"])
      (auto simp: decode_mapping_def read_mapping_def check_mapping_def rbind_Panic_iff)
  ultimately show ?thesis
    by (auto simp: decode_program_def rbind_Panic_iff Let_def decode_instructions_safe decode_outputs_safe check_input_ranges_safe
      pr_is_empty_def split: prod.splits)
qed

section \<open>The digest of the source\<close>

lemma hex_digit_value_digit:
  assumes "d < 16"
  shows "hex_digit_value (hex_digit d) = d \<and> is_ascii_hexdigit (hex_digit d)"
proof -
  have "d = of_nat (unat d)" by simp
  moreover have "unat d < 16" using assms by (simp add: word_less_nat_alt)
  moreover have "\<forall>n \<in> set [0..<16]. hex_digit_value (hex_digit (of_nat n)) = (of_nat n :: byte) \<and>
      is_ascii_hexdigit (hex_digit (of_nat n))"
    by (simp add: upt_rec hex_digit_value_def hex_digit_def is_ascii_hexdigit_def)
  ultimately show ?thesis by (metis atLeastLessThan_iff le0 set_upt)
qed

lemma to_hex_nth: "i < length bs \<Longrightarrow> to_hex bs ! (2 * i) = hex_digit (drop_bit 4 (bs ! i)) \<and>
    to_hex bs ! (2 * i + 1) = hex_digit (take_bit 4 (bs ! i))"
proof (induction bs arbitrary: i)
  case (Cons b bs)
  then show ?case by (cases i) (simp_all add: to_hex_def)
qed simp

lemma nibbles_sum: "16 * drop_bit 4 b + take_bit 4 b = (b :: byte)"
proof -
  have "16 * drop_bit 4 b = push_bit 4 (drop_bit 4 b)" by (simp add: push_bit_eq_mult)
  then show ?thesis using bits_ident [of 4 b] by simp
qed

lemma to_hex_digits: "list_all is_ascii_hexdigit (to_hex bs)"
  by (induction bs) (simp_all add: to_hex_def hex_digit_value_digit nibbles_less)

lemma to_hex_lowercase: "to_ascii_lowercase (to_hex bs) = to_hex bs"
proof -
  have lower: "\<not> (65 \<le> hex_digit d \<and> hex_digit d \<le> 90)" if "d < 16" for d
  proof -
    have "d = of_nat (unat d)" by simp
    moreover have "unat d < 16" using that by (simp add: word_less_nat_alt)
    moreover have "\<forall>n \<in> set [0..<16]. \<not> (65 \<le> hex_digit (of_nat n) \<and> hex_digit (of_nat n) \<le> 90)"
      by (simp add: upt_rec hex_digit_def)
    ultimately show ?thesis by (metis atLeastLessThan_iff le0 set_upt)
  qed
  have "\<not> (65 \<le> hex_digit (drop_bit 4 b) \<and> hex_digit (drop_bit 4 b) \<le> 90)"
    "\<not> (65 \<le> hex_digit (take_bit 4 b) \<and> hex_digit (take_bit 4 b) \<le> 90)" for b
    by (rule lower, rule nibbles_less)+
  then show ?thesis by (induction bs) (simp_all add: to_hex_def to_ascii_lowercase_def)
qed

lemma decode_sha256_to_hex:
  assumes "length sha = 32"
  shows "decode_sha256 (to_hex sha) = Ok sha"
proof -
  have "map (\<lambda>i. 16 * hex_digit_value (to_hex sha ! (2 * i)) + hex_digit_value (to_hex sha ! (2 * i + 1))) [0..<32] = sha"
  proof (rule nth_equalityI)
    fix i assume "i < length (map (\<lambda>i. 16 * hex_digit_value (to_hex sha ! (2 * i)) + hex_digit_value (to_hex sha ! (2 * i + 1))) [0..<32])"
    then have "i < length sha" "i < 32" by (simp_all add: assms)
    then show "map (\<lambda>i. 16 * hex_digit_value (to_hex sha ! (2 * i)) + hex_digit_value (to_hex sha ! (2 * i + 1))) [0..<32] ! i = sha ! i"
      using to_hex_nth [of i sha] by (simp add: hex_digit_value_digit nibbles_less nibbles_sum)
  qed (simp add: assms)
  then show ?thesis by (simp add: decode_sha256_def assms to_hex_digits)
qed

section \<open>Running a valid program\<close>

text \<open>The errors of the slot machine's own accesses; no other step reports them.\<close>

abbreviation in_bounds :: "('a, witness_error) result \<Rightarrow> bool" where
  "in_bounds m \<equiv> \<forall>what. m \<noteq> Err (CompiledIndex what)"

lemma rfold_error: "rfold xs body acc = Err e \<Longrightarrow> \<exists>x acc'. x \<in> set xs \<and> body x acc' = Err e"
proof (induction xs arbitrary: acc)
  case (Cons x xs)
  then show ?case by (cases "body x acc") (simp_all, blast+)
qed simp

lemma Err_simps [simp]:
  "ok_or x e = Err e' \<longleftrightarrow> x = None \<and> e' = e" "guard b e = Err e' \<longleftrightarrow> b \<and> e' = e" "idx xs i \<noteq> Err e" "rassert b \<noteq> Err e"
  by (cases x; auto simp: rassert_def idx_def; cases b; auto)+

lemma visit_fields_in_bounds: "in_bounds (visit_fields v st)" "in_bounds (visit_seq vs closed st)"
  by (induction v st and vs closed st rule: visit_fields_visit_seq.induct)
    (auto simp: rbind_Err_iff fields_push_eq Let_def)

lemma build_input_buffer_in_bounds: "in_bounds (build_input_buffer decode mappings len json limits)"
proof -
  have entry: "in_bounds (visit_entry mappings e st)" for e st
    using visit_fields_in_bounds(1) by (cases e, cases st) (auto simp: visit_entry_def rbind_Err_iff Let_def)
  have "in_bounds (visit_input mappings v st)" for v st
    using entry by (auto simp: visit_input_def rbind_Err_iff dest!: rfold_error split: json.splits)
  then show ?thesis by (auto simp: build_input_buffer_def rbind_Err_iff Let_def split: prod.splits)
qed

lemma operation_in_bounds: "operation_evaluate operation i x y \<noteq> Panic" "in_bounds (operation_evaluate operation i x y)"
  by (cases operation; simp add: shift_field_def integer_division_def rbind_Panic_iff rbind_Err_iff Let_def)+

text \<open>
  A program without its slots: instruction \<open>k\<close> reads, for a slot, the value of the latest earlier
  instruction with that destination.
\<close>

definition latest :: "instruction list \<Rightarrow> nat \<Rightarrow> nat \<Rightarrow> nat" where
  "latest instrs k slot = Max {i. i < k \<and> in_destination (instrs ! i) = slot}"

definition instruction_result :: "sage_graph \<Rightarrow> fr list \<Rightarrow> fr list \<Rightarrow> nat \<Rightarrow> (fr, witness_error) result" where
  "instruction_result s inputs vals k =
     (let instr = sg_instructions s ! k; operand = (\<lambda>slot. vals ! latest (sg_instructions s) k slot) in
      case in_kind instr of
        KInput \<Rightarrow> Ok (inputs ! in_left instr)
      | KConstant \<Rightarrow> Ok (sg_constants s ! in_left instr)
      | KInverse \<Rightarrow> Ok (unwrap_or (fr_inverse (operand (in_left instr))) 0)
      | KOperation operation \<Rightarrow> operation_evaluate operation k (operand (in_left instr)) (operand (in_right instr)))"

definition program_solution :: "sage_graph \<Rightarrow> fr list \<Rightarrow> fr list \<Rightarrow> bool" where
  "program_solution s inputs vals \<longleftrightarrow> length vals = length (sg_instructions s) \<and>
     (\<forall>k < length vals. instruction_result s inputs vals k = Ok (vals ! k))"

lemma latest_Suc: "latest instrs (Suc k) slot = (if in_destination (instrs ! k) = slot then k else latest instrs k slot)"
proof (cases "in_destination (instrs ! k) = slot")
  case True
  then have "latest instrs (Suc k) slot = k" unfolding latest_def by (intro Max_eqI) (auto simp: less_Suc_eq_le)
  then show ?thesis using True by simp
next
  case False
  then have "{i. i < Suc k \<and> in_destination (instrs ! i) = slot} = {i. i < k \<and> in_destination (instrs ! i) = slot}"
    by (auto simp: less_Suc_eq)
  then show ?thesis using False by (simp add: latest_def)
qed

lemma latest_less:
  assumes "k \<le> length instrs" and "written (take k instrs) slot"
  shows "latest instrs k slot < k"
proof -
  obtain i where "i < k" "in_destination (instrs ! i) = slot"
    using assms by (auto simp: written_def in_set_conv_nth)
  then have "Max {i. i < k \<and> in_destination (instrs ! i) = slot} \<in> {i. i < k \<and> in_destination (instrs ! i) = slot}"
    by (intro Max_in) auto
  then show ?thesis by (simp add: latest_def)
qed

text \<open>The machine after \<open>k\<close> instructions.\<close>

definition runs_to :: "sage_graph \<Rightarrow> fr list \<Rightarrow> fr list \<Rightarrow> fr list \<times> fr list \<times> nat \<Rightarrow> bool" where
  "runs_to s inputs vals = (\<lambda>(slot_values, assignment, output_index).
     length slot_values = sg_slots s \<and> length assignment = sg_signal_count s \<and>
     output_index = length (filter (\<lambda>w. ow_node w < length vals) (sg_outputs s)) \<and>
     (\<forall>i < length vals. instruction_result s inputs vals i = Ok (vals ! i)) \<and>
     (\<forall>slot < sg_slots s. written (take (length vals) (sg_instructions s)) slot \<longrightarrow>
        slot_values ! slot = vals ! latest (sg_instructions s) (length vals) slot) \<and>
     (\<forall>w \<in> set (sg_outputs s). ow_node w < length vals \<longrightarrow> assignment ! ow_signal w = vals ! ow_node w))"

lemma instruction_valid:
  assumes "program_valid s" and "k < length (sg_instructions s)"
  shows "instruction_ok (sg_input_buffer_len s) (length (sg_constants s)) (sg_slots s) (written (take k (sg_instructions s)))
    (sg_instructions s ! k)"
  using assms by (simp add: program_valid_def instructions_ok_def)

lemma instruction_result_append:
  assumes "program_valid s" and k: "k < length (sg_instructions s)" "k \<le> length vals"
  shows "instruction_result s inputs (vals @ ws) k = instruction_result s inputs vals k"
proof -
  have "(vals @ ws) ! latest (sg_instructions s) k slot = vals ! latest (sg_instructions s) k slot"
    if "written (take k (sg_instructions s)) slot" for slot
    using latest_less [OF _ that] k by (simp add: nth_append)
  then show ?thesis
    using instruction_valid [OF assms(1,2)]
    by (auto simp: instruction_result_def instruction_ok_def Let_def split: sage_kind.splits)
qed

lemma instruction_value_result:
  assumes valid: "program_valid s" and inputs: "length inputs = sg_input_buffer_len s"
    and st: "runs_to s inputs vals (slot_values, assignment, output_index)" and k: "length vals < length (sg_instructions s)"
  shows "instruction_value s inputs (length vals) (sg_instructions s ! length vals) slot_values =
    instruction_result s inputs vals (length vals)"
proof -
  have read: "sage_at slot_values slot what = Ok (vals ! latest (sg_instructions s) (length vals) slot)"
    if "slot < sg_slots s" "written (take (length vals) (sg_instructions s)) slot" for slot what
    using st that by (simp add: runs_to_def sage_at_def)
  show ?thesis
    using instruction_valid [OF valid k] read inputs
    by (auto simp: instruction_ok_def instruction_value_def instruction_result_def Let_def sage_at_def [of inputs]
      sage_at_def [of "sg_constants s"] split: sage_kind.splits)
qed

lemma runs_to_step:
  assumes valid: "program_valid s" and inputs: "length inputs = sg_input_buffer_len s"
    and st: "runs_to s inputs vals (slot_values, assignment, output_index)" and k: "length vals < length (sg_instructions s)"
    and v: "instruction_result s inputs vals (length vals) = Ok v"
  shows "\<exists>st. run_instruction s inputs (length vals, sg_instructions s ! length vals) (slot_values, assignment, output_index) = Ok st \<and>
    runs_to s inputs (vals @ [v]) st"
proof -
  let ?k = "length vals" and ?block = "filter (\<lambda>w. ow_node w = length vals) (sg_outputs s)"
  let ?d = "in_destination (sg_instructions s ! length vals)"
  note lens = st [unfolded runs_to_def, simplified]
  have dest: "?d < sg_slots s" using instruction_valid [OF valid k] by (simp add: instruction_ok_def)
  have outs: "outputs_ok (length (sg_instructions s)) (sg_signal_count s) (sg_outputs s)" using valid by (simp add: program_valid_def)
  then have ordered: "sorted (map ow_node (sg_outputs s))"
    by (auto simp: outputs_ok_def sorted_map output_key_def less_eq_prod_def elim!: sorted_wrt_mono_rel [rotated])
  have "\<forall>w \<in> set ?block. ow_signal w < length assignment" using outs lens by (auto simp: outputs_ok_def)
  from output_puts [OF this, of "''output signal''" v] obtain a where
      a: "rfold ?block (\<lambda>w a. sage_put a (ow_signal w) ''output signal'' v) assignment = Ok a" "length a = length assignment"
        "\<forall>i < length assignment. a ! i = (if i \<in> ow_signal ` set ?block then v else assignment ! i)"
    by blast
  have block: "takeWhile (\<lambda>w. ow_node w = ?k) (drop output_index (sg_outputs s)) = ?block"
    using lens sorted_block [OF ordered] by simp
  have count: "length (filter (\<lambda>w. ow_node w < Suc n) ws) = length (filter (\<lambda>w. ow_node w < n) ws) + length (filter (\<lambda>w. ow_node w = n) ws)"
    for ws n by (induction ws) auto
  have "instruction_value s inputs ?k (sg_instructions s ! ?k) slot_values = Ok v"
    using instruction_value_result [OF valid inputs st k] v by simp
  then have "run_instruction s inputs (?k, sg_instructions s ! ?k) (slot_values, assignment, output_index) =
      Ok (slot_values[?d := v], a, output_index + length ?block)"
    using dest lens a(1) block by (simp add: run_instruction_def sage_put_def write_outputs_eq Let_def)
  moreover have "runs_to s inputs (vals @ [v]) (slot_values[?d := v], a, output_index + length ?block)"
  proof -
    have past: "instruction_result s inputs (vals @ [v]) i = Ok ((vals @ [v]) ! i)" if "i < Suc ?k" for i
      using that v lens instruction_result_append [OF valid _ , of i vals inputs "[v]"] k
      by (auto simp: less_Suc_eq nth_append)
    have slots: "slot_values[?d := v] ! slot = (vals @ [v]) ! latest (sg_instructions s) (Suc ?k) slot"
      if "slot < sg_slots s" "written (take (Suc ?k) (sg_instructions s)) slot" for slot
    proof (cases "slot = ?d")
      case True
      then show ?thesis using dest lens by (simp add: latest_Suc)
    next
      case False
      then have w: "written (take ?k (sg_instructions s)) slot"
        using that(2) k by (auto simp: written_def take_Suc_conv_app_nth)
      then show ?thesis using False that(1) lens latest_less [OF _ w] k by (simp add: latest_Suc nth_append)
    qed
    have signals: "a ! ow_signal w = (vals @ [v]) ! ow_node w" if w: "w \<in> set (sg_outputs s)" "ow_node w < Suc ?k" for w
    proof -
      have sig: "ow_signal w < length assignment" using outs w(1) lens by (simp add: outputs_ok_def)
      have inj: "inj_on ow_signal (set (sg_outputs s))" using outs by (simp add: outputs_ok_def distinct_map)
      have "ow_signal w \<in> ow_signal ` set ?block \<longleftrightarrow> ow_node w = ?k"
        using w(1) inj by (auto dest: inj_onD)
      then show ?thesis using a(3) sig w lens by (auto simp: nth_append)
    qed
    show ?thesis using lens a(2) past slots signals count [of ?k "sg_outputs s"] by (simp add: runs_to_def)
  qed
  ultimately show ?thesis by blast
qed

lemma runs_to_end:
  assumes valid: "program_valid s" and inputs: "length inputs = sg_input_buffer_len s" and init: "runs_to s inputs [] st0"
    and "k \<le> length (sg_instructions s)"
  shows "case rfold (enumerate 0 (take k (sg_instructions s))) (run_instruction s inputs) st0 of
      Ok st \<Rightarrow> \<exists>vals. length vals = k \<and> runs_to s inputs vals st
    | Err e \<Rightarrow> \<nexists>what. e = CompiledIndex what
    | Panic \<Rightarrow> False"
  using assms(4)
proof (induction k)
  case 0
  then show ?case using init by simp
next
  case (Suc k)
  let ?run = "rfold (enumerate 0 (take k (sg_instructions s))) (run_instruction s inputs) st0"
  have k: "k < length (sg_instructions s)" using Suc.prems by simp
  have run: "rfold (enumerate 0 (take (Suc k) (sg_instructions s))) (run_instruction s inputs) st0 =
      rbind ?run (run_instruction s inputs (k, sg_instructions s ! k))"
    using k by (simp add: take_Suc_conv_app_nth enumerate_append_eq rfold_append rfold_single)
  show ?case
  proof (cases ?run)
    case (Ok st)
    obtain slot_values assignment output_index where st: "st = (slot_values, assignment, output_index)" by (cases st) auto
    obtain vals where vals: "length vals = k" "runs_to s inputs vals (slot_values, assignment, output_index)"
      using Suc Ok by (auto simp: st)
    note eq = instruction_value_result [OF valid inputs vals(2), unfolded vals(1), OF k]
    have safe: "instruction_result s inputs vals k \<noteq> Panic" "in_bounds (instruction_result s inputs vals k)"
      using operation_in_bounds by (auto simp: instruction_result_def Let_def split: sage_kind.splits)
    show ?thesis
    proof (cases "instruction_result s inputs vals k")
      case (Ok v)
      then obtain st' where st': "run_instruction s inputs (k, sg_instructions s ! k) (slot_values, assignment, output_index) = Ok st'"
          "runs_to s inputs (vals @ [v]) st'"
        using runs_to_step [OF valid inputs vals(2), unfolded vals(1), OF k] by blast
      have "rfold (enumerate 0 (take (Suc k) (sg_instructions s))) (run_instruction s inputs) st0 = Ok st'"
        using \<open>?run = Ok st\<close> st'(1) by (simp add: run st)
      then show ?thesis using st'(2) vals(1) by (auto intro!: exI [of _ "vals @ [v]"])
    next
      case (Err e)
      then show ?thesis using eq \<open>?run = Ok st\<close> safe by (simp add: run st run_instruction_error)
    qed (use safe in simp)
  qed (use Suc in \<open>auto simp: run\<close>)
qed

lemma sage_run_safe:
  assumes valid: "program_valid s"
  shows "case sage_calculate_json decode s json of
      Ok a \<Rightarrow> length a = sg_signal_count s \<and> a ! 0 = 1 \<and>
        (\<exists>inputs vals. build_input_buffer decode (sg_input_mapping s) (sg_input_buffer_len s) json (sg_limits s) = Ok inputs \<and>
          program_solution s inputs vals \<and> map (\<lambda>w. a ! ow_signal w) (sg_outputs s) = map (\<lambda>w. vals ! ow_node w) (sg_outputs s))
    | Err e \<Rightarrow> \<nexists>what. e = CompiledIndex what
    | Panic \<Rightarrow> False"
proof (cases "build_input_buffer decode (sg_input_mapping s) (sg_input_buffer_len s) json (sg_limits s)")
  case (Ok inputs)
  have buffer: "mappings_ok (sg_input_buffer_len s) (sg_input_mapping s)" "0 < sg_input_buffer_len s"
    using valid by (simp_all add: program_valid_def)
  have inputs: "length inputs = sg_input_buffer_len s" using build_input_buffer_length [OF Ok] buffer by simp
  let ?st0 = "(resize [] (sg_slots s) (fr_of_nat 0), resize [] (sg_signal_count s) (fr_of_nat 0), 0)"
  have init: "runs_to s inputs [] ?st0" by (simp add: runs_to_def written_def)
  note run = runs_to_end [OF valid inputs init order.refl, simplified]
  have outs: "\<forall>w \<in> set (sg_outputs s). ow_node w < length (sg_instructions s)"
    using valid by (simp add: program_valid_def outputs_ok_def)
  show ?thesis
  proof (cases "rfold (enumerate 0 (sg_instructions s)) (run_instruction s inputs) ?st0")
    case st: (Ok st)
    obtain slot_values assignment output_index where s: "st = (slot_values, assignment, output_index)" by (cases st) auto
    obtain vals where vals: "length vals = length (sg_instructions s)" "runs_to s inputs vals (slot_values, assignment, output_index)"
      using run st s by auto
    have "filter (\<lambda>w. ow_node w < length vals) (sg_outputs s) = sg_outputs s" using outs vals(1) by simp
    then have len: "length assignment = sg_signal_count s" "output_index = length (sg_outputs s)"
      using vals(2) by (simp_all add: runs_to_def)
    have "program_solution s inputs vals" using vals by (simp add: runs_to_def program_solution_def)
    moreover have "map (\<lambda>w. assignment ! ow_signal w) (sg_outputs s) = map (\<lambda>w. vals ! ow_node w) (sg_outputs s)"
      using vals outs by (simp add: runs_to_def)
    moreover have "0 < sg_signal_count s" using valid by (simp add: program_valid_def)
    ultimately show ?thesis
      using Ok st s len by (auto simp: sage_calculate_json_def sage_calculate_json_into_def Let_def guard_def get_def fr_one)
  next
    case (Err e)
    then show ?thesis using Ok run by (simp add: sage_calculate_json_def sage_calculate_json_into_def Let_def)
  qed (use run in simp)
next
  case (Err e)
  then show ?thesis
    using build_input_buffer_in_bounds [of decode "sg_input_mapping s" "sg_input_buffer_len s" json "sg_limits s"]
    by (simp add: sage_calculate_json_def sage_calculate_json_into_def)
next
  case Panic
  then show ?thesis using build_input_buffer_safe [of "sg_input_buffer_len s"] valid by (auto simp: program_valid_def)
qed

section \<open>The cached form\<close>

text \<open>C30: Decoding a cached program never panics, and the format is canonical: given its own
  length as the declared size, the decoder accepts exactly the bytes the encoder writes for a
  valid program whose source digest is the expected one, and it returns that program.\<close>

theorem program_codec_exact:
  "decode_program (bytes, True) (Some (length bytes)) expected limits \<noteq> Panic \<and>
   (decode_program (bytes, True) (Some (length bytes)) expected limits = Ok s \<longleftrightarrow>
      program_valid s \<and> sg_limits s = limits \<and> decode_sha256 expected = Ok (sg_source_graph_sha256 s) \<and>
      encode_program s = Ok bytes)"
proof -
  have "encode_program s = Ok bytes \<longleftrightarrow> bytes = program_bytes s" if "program_valid s"
  proof -
    have fits: "header_fits (header_of s)" "mappings_ok (sg_input_buffer_len s) (sg_input_mapping s)"
        "program_length s \<le> lm_sage_program_bytes (sg_limits s)"
      using that by (simp_all add: program_valid_def)
    then have "\<forall>m \<in> set (sg_input_mapping s). mapping_fits m"
      by (intro mapping_fits_of) (auto simp: header_fits_def header_of_def)
    then show ?thesis using encode_program_Ok_iff [OF fits(1)] fits(3) by simp
  qed
  then show ?thesis using decode_program_safe by (auto simp: decode_program_Ok_iff)
qed

lemma decode_sha256_length: "decode_sha256 v = Ok d \<Longrightarrow> length d = 32"
  by (auto simp: decode_sha256_def rbind_Ok_iff)

lemma sage_from_bytes_compiles:
  assumes "sage_from_bytes sha zstd bytes expected limits = Ok s"
  obtains graph source where "decode_sha256 expected = Ok source" "compile graph limits source = Ok s" "length source = 32"
proof -
  obtain source artifact where "decode_sha256 expected = Ok source" and artifact:
      "(case artifact of ArtifactRaw \<Rightarrow> compile bytes limits source
        | ArtifactZstd \<Rightarrow> rbind (decompress_graph zstd bytes limits) (\<lambda>bytes. compile bytes limits source)) = Ok s"
    using assms by (auto simp: sage_from_bytes_def rbind_Ok_iff)
  then show thesis using that decode_sha256_length by (cases artifact) (auto simp: rbind_Ok_iff)
qed

lemma program_bytes_uncompressed: "take 4 (program_bytes s) \<noteq> zstd_magic"
  by (simp add: program_bytes_def header_bytes_def program_magic_def zstd_magic_def)

lemma length_program_bytes_ok: "encode_program s = Ok out \<Longrightarrow> length out \<le> lm_sage_program_bytes (sg_limits s)"
  by (auto simp: encode_program_def rbind_Ok_iff Let_def)

text \<open>C31: A program compiled from an authentic graph is written to its cached form unless it is over
  the size limit, and the cached form, named by its own digest and the digest of the graph, loads
  back as the same program (a SHA-256 digest is 32 bytes long).\<close>

theorem compiled_programs_reload:
  assumes "\<And>m. length (sha m) = 32" and "sage_from_bytes sha zstd bytes expected limits = Ok s"
  shows "case encode_program s of
      Ok out \<Rightarrow> sage_from_compiled_bytes sha zstd' out (to_hex (sha out)) expected limits = Ok s
    | Err e \<Rightarrow> e = SageProgramTooLarge (lm_sage_program_bytes limits) \<and> lm_sage_program_bytes limits < program_length s
    | Panic \<Rightarrow> False"
proof -
  obtain graph source where s: "decode_sha256 expected = Ok source" "compile graph limits source = Ok s" "length source = 32"
    using assms(2) by (rule sage_from_bytes_compiles)
  note valid = compiled_valid [OF s(2,3)]
  show ?thesis
  proof (cases "program_length s \<le> lm_sage_program_bytes limits")
    case True
    then have encoded: "encode_program s = Ok (program_bytes s)"
      using encode_program_cases [OF valid(1,4)] valid(3) by simp
    have "decode_program (program_bytes s, True) (Some (length (program_bytes s))) expected limits = Ok s"
      using valid(5) [OF True] valid(2,3) s(1) by (simp add: decode_program_Ok_iff)
    then show ?thesis
      using encoded length_program_bytes_ok [OF encoded] valid(3) assms(1)
      by (simp add: sage_from_compiled_bytes_def verify_sha256_def to_hex_digits to_hex_lowercase program_bytes_uncompressed not_less)
  next
    case False
    then show ?thesis using encode_program_cases [OF valid(1,4)] valid(3) by simp
  qed
qed

lemma decode_program_valid: "decode_program source declared expected limits = Ok s \<Longrightarrow> program_valid s \<and> sg_limits s = limits"
  by (cases source) (simp add: decode_program_Ok_iff)

theorem compiled_programs_reload_witness:
  "\<exists>s out. sage_from_bytes (\<lambda>m. replicate 32 0) (\<lambda>_ _. ZstdFailed) sample_graph (replicate 64 48) limits_client = Ok s \<and>
    encode_program s = Ok out \<and>
    sage_from_compiled_bytes (\<lambda>m. replicate 32 0) (\<lambda>_ _. ZstdFailed) out (replicate 64 48) (replicate 64 48) limits_client = Ok s"
proof -
  let ?sha = "\<lambda>m. replicate 32 (0 :: byte)" and ?hex = "replicate 64 (48 :: byte)"
  have hex: "to_hex (replicate 32 0) = ?hex" by code_simp
  obtain s where s: "compile sample_graph limits_client (replicate 32 0) = Ok s"
    using parse_and_compile(1) sample_parse by blast
  have "sage_from_bytes ?sha (\<lambda>_ _. ZstdFailed) sample_graph ?hex limits_client = Ok s"
  proof -
    have "decode_sha256 ?hex = Ok (replicate 32 0)" using decode_sha256_to_hex [of "replicate 32 0"] hex by simp
    moreover have "\<not> is_zstd_artifact sample_graph"
      by (simp add: is_zstd_artifact_def sample_graph_def legacy_magic_def zstd_magic_def)
    moreover have "length sample_graph \<le> lm_graph_bytes limits_client" by (simp add: sample_graph_def limits_client_def)
    moreover have "verify_sha256 ?sha sample_graph ?hex = Ok ()"
      using to_hex_lowercase [of "replicate 32 0"] to_hex_digits [of "replicate 32 0"] hex
      by (simp add: verify_sha256_def)
    ultimately show ?thesis using s by (simp add: sage_from_bytes_def authenticate_def)
  qed
  moreover have "program_length s \<le> lm_sage_program_bytes limits_client"
  proof -
    obtain L slots where p: "program_of s sample_parsed L slots" using parse_and_compile(2) [OF s sample_parse] by blast
    have "length (sg_instructions s) = 5" "length (sg_constants s) \<le> 5" "length (sg_outputs s) = 2" "length (sg_input_mapping s) = 1"
      using p program_outputs(2) [OF p] by (simp_all add: program_of_def sample_parsed_def sample_nodes_def)
    then show ?thesis by (simp add: program_length_def limits_client_def)
  qed
  ultimately show ?thesis
    using compiled_programs_reload [of ?sha "\<lambda>_ _. ZstdFailed" sample_graph ?hex limits_client s "\<lambda>_ _. ZstdFailed"] hex
    by (cases "encode_program s") auto
qed

text \<open>Whatever bytes a cached program is loaded from, running it never panics and never reports an
  access out of bounds; when it returns, signal 0 is one and every output holds the value of
  its instruction in the solution of the program in which each slot read stands for the latest
  earlier write.\<close>

theorem cached_programs_run_in_bounds:
  "case sage_from_compiled_bytes sha zstd bytes expected_program expected_source limits of
     Ok s \<Rightarrow>
       (case sage_calculate_json decode s json of
          Ok a \<Rightarrow> length a = sg_signal_count s \<and> a ! 0 = 1 \<and>
            (\<exists>inputs vals. build_input_buffer decode (sg_input_mapping s) (sg_input_buffer_len s) json limits = Ok inputs \<and>
              program_solution s inputs vals \<and>
              map (\<lambda>w. a ! ow_signal w) (sg_outputs s) = map (\<lambda>w. vals ! ow_node w) (sg_outputs s))
        | Err e \<Rightarrow> \<nexists>what. e = CompiledIndex what
        | Panic \<Rightarrow> False)
   | Err e \<Rightarrow> True
   | Panic \<Rightarrow> False"
proof -
  have "sage_from_compiled_bytes sha zstd bytes expected_program expected_source limits \<noteq> Panic"
    using decode_program_safe open_zstd_safe finish_zstd_safe
    by (auto simp: sage_from_compiled_bytes_def decode_compressed_program_def verify_sha256_def rbind_Panic_iff Let_def)
  moreover have "program_valid s \<and> sg_limits s = limits"
    if "sage_from_compiled_bytes sha zstd bytes expected_program expected_source limits = Ok s" for s
    using that by (auto simp: sage_from_compiled_bytes_def decode_compressed_program_def rbind_Ok_iff Let_def
      split: if_splits dest!: decode_program_valid)
  ultimately show ?thesis
    using sage_run_safe [of _ decode json]
    by (cases "sage_from_compiled_bytes sha zstd bytes expected_program expected_source limits") (fastforce)+
qed

end
