(* ===== verification/Signet.thy ===== *)
theory Signet
  imports Graph_Wire
begin

text \<open>
  The artifact tool of \<open>crates/signet/src\<close>: the upstream graph and its operation schemas
  (\<open>postcard.rs\<close>), the exporter (\<open>encode.rs\<close>), the re-enveloper (\<open>reseal.rs\<close>), the transcoder
  between the two body versions (\<open>transcode.rs\<close>) and the reader of reference witnesses
  (\<open>wtns.rs\<close>).  A function that appends to a byte vector returns what it appends; a reader
  returns the bytes that remain.  The postcard decoder is third-party and a parameter.
\<close>

section \<open>Errors and choices\<close>

text \<open>A malformed body is reported with the numbers of its message.\<close>

datatype (plugins only: code) malformed =
    HeaderSizeNot64
  | InputTableOverflow
  | BytesFollowTable
  | BodyTruncated
  | VarintExceeds64Bits
  | VarintNotCanonical
  | VarintExceedsTenBytes
  | UnknownNodeTag nat nat
  | InputIndexExceeds32Bits nat
  | InputOutsideBuffer nat nat nat
  | DistanceNotPrior nat nat
  | OutputNotANode nat nat
  | UnknownOperationTag nat nat
  | ReferenceNotPrior nat nat

datatype (plugins only: code) signet_error =
    SignetPostcard
  | SignetTooLarge string
  | NotAPriorNode string nat
  | SignetNonCanonicalConstant nat
  | UnsupportedBlackBox "byte list" nat
  | UnknownEnvelope "byte list"
  | UnknownSchema "byte list"
  | UnknownVersion "byte list"
  | UnknownCompression "byte list"
  | InvalidR1csDigest
  | InvalidWtns string
  | NotAnArtifact
  | SignetDecompress
  | MalformedBody malformed

datatype envelope = Cvywit | Signet

datatype compression = CompressionNone | CompressionZstd

datatype body_version = BodyV1 | BodyV2

fun envelope_magic :: "envelope \<Rightarrow> byte list" where
  "envelope_magic Cvywit = [67, 86, 89, 87, 73, 84, 48, 49]"
| "envelope_magic Signet = signet_magic"

definition envelope_parse :: "byte list \<Rightarrow> (envelope, signet_error) result" where
  "envelope_parse name =
     (if name = [99, 118, 121, 119, 105, 116] then Ok Cvywit
      else if name = [115, 105, 103, 110, 101, 116] then Ok Signet else Err (UnknownEnvelope name))"

definition compression_parse :: "byte list \<Rightarrow> (compression, signet_error) result" where
  "compression_parse name =
     (if name = [110, 111, 110, 101] then Ok CompressionNone
      else if name = [122, 115, 116, 100] then Ok CompressionZstd else Err (UnknownCompression name))"

fun version_tag :: "body_version \<Rightarrow> nat" where
  "version_tag BodyV1 = format_version_v1"
| "version_tag BodyV2 = format_version_v2"

definition version_parse :: "byte list \<Rightarrow> (body_version, signet_error) result" where
  "version_parse name =
     (if name = [49] then Ok BodyV1 else if name = [50] then Ok BodyV2 else Err (UnknownVersion name))"

definition signet_hex_nibble :: "byte \<Rightarrow> byte" where
  "signet_hex_nibble digit =
     (if 48 \<le> digit \<and> digit \<le> 57 then digit - 48
      else if 97 \<le> digit \<and> digit \<le> 102 then digit - 97 + 10 else digit - 65 + 10)"

definition signet_decode_sha256 :: "byte list \<Rightarrow> (byte list, signet_error) result" where
  "signet_decode_sha256 name =
     rbind (guard (length name \<noteq> 64 \<or> \<not> list_all is_ascii_hexdigit name) InvalidR1csDigest) (\<lambda>_.
       Ok (map (\<lambda>i. push_bit 4 (signet_hex_nibble (name ! (2 * i))) OR signet_hex_nibble (name ! (2 * i + 1))) [0..<32]))"

section \<open>The upstream graph\<close>

datatype operation_schema = SchemaOriginal | SchemaPatched

definition schema_parse :: "byte list \<Rightarrow> (operation_schema, signet_error) result" where
  "schema_parse name =
     (if name = [111, 114, 105, 103, 105, 110, 97, 108] then Ok SchemaOriginal
      else if name = [112, 97, 116, 99, 104, 101, 100] then Ok SchemaPatched else Err (UnknownSchema name))"

datatype (plugins only: code) upstream_operation =
    UMul | UMMul | UAdd | USub | UEq | UNeq | ULt | UGt | ULeq | UGeq | ULor | UShl | UShr
  | UBand | UBor | UBxor | UNeg | UInv | UDiv | UMod | UPow | ULand | UIDiv

definition all_upstream_operations :: "upstream_operation list" where
  "all_upstream_operations =
     [UMul, UMMul, UAdd, USub, UEq, UNeq, ULt, UGt, ULeq, UGeq, ULor, UShl, UShr,
      UBand, UBor, UBxor, UNeg, UInv, UDiv, UMod, UPow, ULand, UIDiv]"

datatype (plugins only: code) original_operation =
    OrigMul | OrigMMul | OrigAdd | OrigSub | OrigEq | OrigNeq | OrigLt | OrigGt | OrigLeq | OrigGeq
  | OrigLor | OrigShl | OrigShr | OrigBand | OrigNeg | OrigInv | OrigDiv | OrigMod | OrigPow
  | OrigLand | OrigIDiv

datatype (plugins only: code) patched_operation =
    PatMul | PatMMul | PatAdd | PatSub | PatEq | PatNeq | PatLt | PatGt | PatLeq | PatGeq
  | PatLor | PatShl | PatShr | PatBand | PatBor | PatBxor | PatNeg | PatInv | PatDiv | PatMod | PatPow
  | PatLand | PatIDiv

fun from_original :: "original_operation \<Rightarrow> upstream_operation" where
  "from_original OrigMul = UMul" | "from_original OrigMMul = UMMul" | "from_original OrigAdd = UAdd"
| "from_original OrigSub = USub" | "from_original OrigEq = UEq" | "from_original OrigNeq = UNeq"
| "from_original OrigLt = ULt" | "from_original OrigGt = UGt" | "from_original OrigLeq = ULeq"
| "from_original OrigGeq = UGeq" | "from_original OrigLor = ULor" | "from_original OrigShl = UShl"
| "from_original OrigShr = UShr" | "from_original OrigBand = UBand" | "from_original OrigNeg = UNeg"
| "from_original OrigInv = UInv" | "from_original OrigDiv = UDiv" | "from_original OrigMod = UMod"
| "from_original OrigPow = UPow" | "from_original OrigLand = ULand" | "from_original OrigIDiv = UIDiv"

fun from_patched :: "patched_operation \<Rightarrow> upstream_operation" where
  "from_patched PatMul = UMul" | "from_patched PatMMul = UMMul" | "from_patched PatAdd = UAdd"
| "from_patched PatSub = USub" | "from_patched PatEq = UEq" | "from_patched PatNeq = UNeq"
| "from_patched PatLt = ULt" | "from_patched PatGt = UGt" | "from_patched PatLeq = ULeq"
| "from_patched PatGeq = UGeq" | "from_patched PatLor = ULor" | "from_patched PatShl = UShl"
| "from_patched PatShr = UShr" | "from_patched PatBand = UBand" | "from_patched PatBor = UBor"
| "from_patched PatBxor = UBxor" | "from_patched PatNeg = UNeg"
| "from_patched PatInv = UInv" | "from_patched PatDiv = UDiv" | "from_patched PatMod = UMod"
| "from_patched PatPow = UPow" | "from_patched PatLand = ULand" | "from_patched PatIDiv = UIDiv"

datatype 'op wire_node =
    WireInput nat
  | WireConstant nat
  | WireMontConstant fr
  | WireOp 'op nat nat
  | WireBbf "byte list" "nat list"

datatype upstream_node =
    UpInput nat
  | UpConstant nat
  | UpMontConstant fr
  | UpOp upstream_operation nat nat
  | UpBbf "byte list" "nat list"

fun upstream_of_wire :: "('op \<Rightarrow> upstream_operation) \<Rightarrow> 'op wire_node \<Rightarrow> upstream_node" where
  "upstream_of_wire conv (WireInput index) = UpInput index"
| "upstream_of_wire conv (WireConstant v) = UpConstant v"
| "upstream_of_wire conv (WireMontConstant v) = UpMontConstant v"
| "upstream_of_wire conv (WireOp operation left right) = UpOp (conv operation) left right"
| "upstream_of_wire conv (WireBbf name parameters) = UpBbf name parameters"

text \<open>The input table of the upstream graph has the fields of the artifact's, 64 bits wide.\<close>

record upstream_graph =
  ug_nodes :: "upstream_node list"
  ug_signals :: "nat list"
  ug_input_mapping :: "input_mapping list"

type_synonym 'op postcard = "byte list \<Rightarrow> ('op wire_node list \<times> nat list \<times> input_mapping list) option"

definition upstream_decode :: "'op postcard \<Rightarrow> ('op \<Rightarrow> upstream_operation) \<Rightarrow> byte list \<Rightarrow> (upstream_graph, signet_error) result" where
  "upstream_decode postcard conv bytes =
     rbind (ok_or (postcard bytes) SignetPostcard) (\<lambda>(nodes, signals, input_mapping).
       Ok \<lparr>ug_nodes = map (upstream_of_wire conv) nodes, ug_signals = signals, ug_input_mapping = input_mapping\<rparr>)"

definition upstream_from_postcard ::
    "original_operation postcard \<Rightarrow> patched_operation postcard \<Rightarrow> byte list \<Rightarrow> operation_schema \<Rightarrow>
     (upstream_graph, signet_error) result" where
  "upstream_from_postcard original patched bytes schema =
     (case schema of
        SchemaOriginal \<Rightarrow> upstream_decode original from_original bytes
      | SchemaPatched \<Rightarrow> upstream_decode patched from_patched bytes)"

definition saturating_add :: "nat \<Rightarrow> nat \<Rightarrow> nat" where
  "saturating_add a b = min (a + b) (2 ^ 64 - 1)"

definition upstream_input_buffer_len :: "upstream_graph \<Rightarrow> nat" where
  "upstream_input_buffer_len g =
     (let named = map (\<lambda>m. saturating_add (im_signal_id m) (im_signal_size m)) (filter (\<lambda>m. im_hash m \<noteq> 0) (ug_input_mapping g));
          read = List.map_filter (\<lambda>n. case n of UpInput index \<Rightarrow> Some (saturating_add index 1) | _ \<Rightarrow> None) (ug_nodes g);
          ends = named @ read
      in max (if ends = [] then 1 else Max (set ends)) 1)"

section \<open>The exporter\<close>

definition signet_checked_u32 :: "nat \<Rightarrow> string \<Rightarrow> (nat, signet_error) result" where
  "signet_checked_u32 n what = (if n < 2 ^ 32 then Ok n else Err (SignetTooLarge what))"

datatype signet_record =
    SInput nat
  | SConstant "byte list"
  | SOperation nat nat nat
  | SInverse nat

text \<open>The prefix before the last \<open>_\<close>, when only digits follow it.\<close>

definition strip_suffix_number :: "byte list \<Rightarrow> byte list" where
  "strip_suffix_number name =
     (let suffix = rev (takeWhile (\<lambda>b. b \<noteq> 95) (rev name))
      in if 95 \<in> set name \<and> list_all (\<lambda>b. 48 \<le> b \<and> b \<le> 57) suffix
         then take (length name - length suffix - 1) name else name)"

definition bbf_inv :: "byte list" where
  "bbf_inv = [98, 98, 102, 95, 105, 110, 118]"

definition inverse_source :: "byte list \<Rightarrow> nat list \<Rightarrow> (nat, signet_error) result" where
  "inverse_source name parameters =
     rbind (guard (strip_suffix_number name \<noteq> bbf_inv \<or> parameters = []) (UnsupportedBlackBox name (length parameters))) (\<lambda>_.
       idx parameters 0)"

fun upstream_operation_tag :: "upstream_operation \<Rightarrow> nat" where
  "upstream_operation_tag UMul = 0" | "upstream_operation_tag UMMul = 1" | "upstream_operation_tag UAdd = 2"
| "upstream_operation_tag USub = 3" | "upstream_operation_tag UEq = 4" | "upstream_operation_tag UNeq = 5"
| "upstream_operation_tag ULt = 6" | "upstream_operation_tag UGt = 7" | "upstream_operation_tag ULeq = 8"
| "upstream_operation_tag UGeq = 9" | "upstream_operation_tag ULor = 10" | "upstream_operation_tag UShl = 11"
| "upstream_operation_tag UShr = 12" | "upstream_operation_tag UBand = 13" | "upstream_operation_tag UBor = 22"
| "upstream_operation_tag UBxor = 21" | "upstream_operation_tag UNeg = 14" | "upstream_operation_tag UInv = 15"
| "upstream_operation_tag UDiv = 16" | "upstream_operation_tag UMod = 17" | "upstream_operation_tag UPow = 18"
| "upstream_operation_tag ULand = 19" | "upstream_operation_tag UIDiv = 20"

text \<open>A \<open>U256\<close> has 32 little-endian bytes.\<close>

definition constant_bytes :: "nat \<Rightarrow> byte list" where
  "constant_bytes v = nat_to_le 32 v"

definition montgomery_bytes :: "fr \<Rightarrow> byte list" where
  "montgomery_bytes v = sf_to_le_bytes v"

fun signet_record_of :: "upstream_node \<Rightarrow> nat \<Rightarrow> (signet_record, signet_error) result" where
  "signet_record_of (UpInput input) index = rbind (signet_checked_u32 input ''input index'') (\<lambda>input. Ok (SInput input))"
| "signet_record_of (UpConstant v) index =
     (if fr_modulus \<le> v then Err (SignetNonCanonicalConstant index) else Ok (SConstant (constant_bytes v)))"
| "signet_record_of (UpMontConstant v) index = Ok (SConstant (montgomery_bytes v))"
| "signet_record_of (UpOp operation left right) index = Ok (SOperation (upstream_operation_tag operation) left right)"
| "signet_record_of (UpBbf name parameters) index = rbind (inverse_source name parameters) (\<lambda>source. Ok (SInverse source))"

definition backward_distance :: "nat \<Rightarrow> nat \<Rightarrow> string \<Rightarrow> (64 word, signet_error) result" where
  "backward_distance index reference what =
     (if reference < index then Ok (of_nat (index - reference)) else Err (NotAPriorNode what index))"

definition zigzag :: "64 word \<Rightarrow> 64 word" where
  "zigzag v = push_bit 1 v XOR signed_drop_bit 63 v"

function push_var_u64 :: "64 word \<Rightarrow> byte list" where
  "push_var_u64 v =
     (if 0x80 \<le> v then ((ucast v AND 0x7f) OR 0x80) # push_var_u64 (drop_bit 7 v) else [ucast v])"
  by pat_completeness auto
termination
proof (relation "measure unat")
  fix v :: "64 word"
  assume "0x80 \<le> v"
  then have "128 \<le> unat v" by (simp add: word_le_nat_alt)
  moreover have "unat (drop_bit 7 v) = unat v div 128"
    by (subst unat_drop_bit_eq) (simp add: drop_bit_eq_div)
  ultimately show "(drop_bit 7 v, v) \<in> measure unat" by simp
qed simp

declare push_var_u64.simps [simp del]

definition push_record :: "body_version \<Rightarrow> nat \<Rightarrow> signet_record \<Rightarrow> (byte list, signet_error) result" where
  "push_record version index r =
     (case version of
        BodyV1 \<Rightarrow>
          (case r of
             SInput input \<Rightarrow> Ok (0 # nat_to_le 4 input)
           | SConstant v \<Rightarrow> Ok (1 # v)
           | SOperation tag left right \<Rightarrow>
               rbind (signet_checked_u32 left ''left reference'') (\<lambda>left.
               rbind (signet_checked_u32 right ''right reference'') (\<lambda>right.
                 Ok (2 # of_nat tag # nat_to_le 4 left @ nat_to_le 4 right)))
           | SInverse source \<Rightarrow>
               rbind (signet_checked_u32 source ''inverse reference'') (\<lambda>source. Ok (3 # nat_to_le 4 source)))
      | BodyV2 \<Rightarrow>
          (case r of
             SInput input \<Rightarrow> Ok (of_nat v2_input_tag # push_var_u64 (of_nat input))
           | SConstant v \<Rightarrow> Ok (of_nat v2_constant_tag # v)
           | SOperation tag left right \<Rightarrow>
               rbind (backward_distance index left ''left reference'') (\<lambda>left.
               rbind (backward_distance index right ''right reference'') (\<lambda>right.
                 Ok (of_nat tag # push_var_u64 left @ push_var_u64 right)))
           | SInverse source \<Rightarrow>
               rbind (backward_distance index source ''inverse reference'') (\<lambda>distance.
                 Ok (of_nat v2_inverse_tag # push_var_u64 distance))))"

text \<open>The writer of the output table; its state is the previous reference.\<close>

definition signal_push :: "body_version \<Rightarrow> nat \<Rightarrow> int \<Rightarrow> (byte list \<times> int, signet_error) result" where
  "signal_push version signal previous =
     (case version of
        BodyV1 \<Rightarrow> rbind (signet_checked_u32 signal ''signal reference'') (\<lambda>signal. Ok (nat_to_le 4 signal, previous))
      | BodyV2 \<Rightarrow>
          if signal < 2 ^ 63
          then Ok (push_var_u64 (zigzag (of_int (int signal - previous))), int signal)
          else Err (SignetTooLarge ''signal reference''))"

definition push_node :: "body_version \<Rightarrow> nat \<times> upstream_node \<Rightarrow> byte list \<Rightarrow> (byte list, signet_error) result" where
  "push_node version = (\<lambda>(index, node) bytes.
     rbind (signet_record_of node index) (\<lambda>r. rbind (push_record version index r) (\<lambda>enc. Ok (bytes @ enc))))"

definition push_signal :: "body_version \<Rightarrow> nat \<Rightarrow> byte list \<times> int \<Rightarrow> (byte list \<times> int, signet_error) result" where
  "push_signal version signal = (\<lambda>(bytes, previous).
     rbind (signal_push version signal previous) (\<lambda>(enc, previous). Ok (bytes @ enc, previous)))"

definition push_mapping :: "input_mapping \<Rightarrow> byte list \<Rightarrow> (byte list, signet_error) result" where
  "push_mapping m bytes =
     rbind (signet_checked_u32 (im_signal_id m) ''input signal id'') (\<lambda>signal_id.
     rbind (signet_checked_u32 (im_signal_size m) ''input signal size'') (\<lambda>signal_size.
       Ok (bytes @ nat_to_le 8 (im_hash m) @ nat_to_le 4 signal_id @ nat_to_le 4 signal_size)))"

definition signet_encode :: "upstream_graph \<Rightarrow> byte list \<Rightarrow> envelope \<Rightarrow> body_version \<Rightarrow> (byte list, signet_error) result" where
  "signet_encode g r1cs_sha256 envelope version =
     (let input_mapping = filter (\<lambda>m. im_hash m \<noteq> 0) (ug_input_mapping g);
          bytes = envelope_magic envelope @ nat_to_le 2 (version_tag version) @ nat_to_le 2 field_bn254_fr @
            nat_to_le 4 header_size @ r1cs_sha256 in
      rbind (signet_checked_u32 (length (ug_nodes g)) ''nodes'') (\<lambda>nodes.
      rbind (signet_checked_u32 (length (ug_signals g)) ''signals'') (\<lambda>signals.
      rbind (signet_checked_u32 (length input_mapping) ''input mappings'') (\<lambda>mappings.
      rbind (signet_checked_u32 (upstream_input_buffer_len g) ''input buffer'') (\<lambda>buffer.
        let bytes = bytes @ nat_to_le 4 nodes @ nat_to_le 4 signals @ nat_to_le 4 mappings @ nat_to_le 4 buffer in
      rbind (rfold (enumerate 0 (ug_nodes g)) (push_node version) bytes) (\<lambda>bytes.
      rbind (rfold (ug_signals g) (push_signal version) (bytes, 0)) (\<lambda>(bytes, previous).
        rfold input_mapping push_mapping bytes)))))))"

section \<open>Artifacts\<close>

record artifact_header =
  ah_envelope :: envelope
  ah_version :: nat

definition describe :: "byte list \<Rightarrow> (artifact_header, signet_error) result" where
  "describe artifact =
     rbind (guard (length artifact < header_size) NotAnArtifact) (\<lambda>_.
       let magic = take 8 artifact in
     rbind (if magic = legacy_magic then Ok Cvywit
            else if magic = signet_magic then Ok Signet else Err NotAnArtifact) (\<lambda>envelope.
       let version = nat_of_le (take 2 (drop 8 artifact)); field = nat_of_le (take 2 (drop 10 artifact)) in
     rbind (guard (field \<noteq> field_bn254_fr) NotAnArtifact) (\<lambda>_.
     rbind (guard (version \<noteq> format_version_v1 \<and> version \<noteq> format_version_v2) NotAnArtifact) (\<lambda>_.
       Ok \<lparr>ah_envelope = envelope, ah_version = version\<rparr>))))"

definition reseal :: "byte list \<Rightarrow> envelope \<Rightarrow> (byte list, signet_error) result" where
  "reseal artifact envelope = rbind (describe artifact) (\<lambda>_. Ok (envelope_magic envelope @ drop 8 artifact))"

definition is_zstd :: "byte list \<Rightarrow> bool" where
  "is_zstd bytes \<longleftrightarrow> 4 \<le> length bytes \<and> take 4 bytes = zstd_magic"

definition maximum_artifact_bytes :: nat where
  "maximum_artifact_bytes = 96 * 1024 * 1024"

text \<open>The decoder yields chunks until the first empty one; opening it or a read may fail.\<close>

fun signet_decompress_loop :: "byte list option list \<Rightarrow> byte list \<Rightarrow> (byte list, signet_error) result" where
  "signet_decompress_loop [] decoded = Ok decoded"
| "signet_decompress_loop (None # rs) decoded = Err SignetDecompress"
| "signet_decompress_loop (Some chunk # rs) decoded =
     (if chunk = [] then Ok decoded
      else rbind (guard (maximum_artifact_bytes < length decoded + length chunk) SignetDecompress) (\<lambda>_.
        signet_decompress_loop rs (decoded @ chunk)))"

definition signet_decompress :: "(byte list \<Rightarrow> byte list option list option) \<Rightarrow> byte list \<Rightarrow> (byte list, signet_error) result" where
  "signet_decompress zstd bytes = rbind (ok_or (zstd bytes) SignetDecompress) (\<lambda>rs. signet_decompress_loop rs [])"

definition to_raw :: "(byte list \<Rightarrow> byte list option list option) \<Rightarrow> byte list \<Rightarrow> (byte list, signet_error) result" where
  "to_raw zstd bytes = (if is_zstd bytes then signet_decompress zstd bytes else Ok bytes)"

section \<open>The transcoder\<close>

type_synonym 'a body = "byte list \<Rightarrow> ('a \<times> byte list, signet_error) result"

definition body_take :: "nat \<Rightarrow> byte list body" where
  "body_take count bs = (if length bs < count then Err (MalformedBody BodyTruncated) else Ok (take count bs, drop count bs))"

definition body_u8 :: "nat body" where
  "body_u8 bs = rbind (body_take 1 bs) (\<lambda>(v, bs). rbind (idx v 0) (\<lambda>b. Ok (unat b, bs)))"

definition read_u32_at :: "byte list \<Rightarrow> nat \<Rightarrow> (nat, signet_error) result" where
  "read_u32_at bytes offset = rbind (rassert (offset + 4 \<le> length bytes)) (\<lambda>_. Ok (nat_of_le (take 4 (drop offset bytes))))"

definition body_u32 :: "nat body" where
  "body_u32 bs = rbind (body_take 4 bs) (\<lambda>(v, bs). rbind (read_u32_at v 0) (\<lambda>n. Ok (n, bs)))"

definition body_array32 :: "byte list body" where
  "body_array32 bs = body_take 32 bs"

function body_var_loop :: "nat \<Rightarrow> 64 word \<Rightarrow> (64 word) body" where
  "body_var_loop position v bs =
     (if position < 10
      then rbind (body_u8 bs) (\<lambda>(byte, bs).
           let byte = (of_nat byte :: byte);
               payload = byte AND 0x7f
           in rbind (guard (position = 9 \<and> byte AND 0xfe \<noteq> 0) (MalformedBody VarintExceeds64Bits)) (\<lambda>_.
              let v = v OR push_bit (position * 7) (ucast payload)
              in if byte AND 0x80 = 0
                 then rbind (guard (position \<noteq> 0 \<and> payload = 0) (MalformedBody VarintNotCanonical)) (\<lambda>_. Ok (v, bs))
                 else body_var_loop (position + 1) v bs))
      else Err (MalformedBody VarintExceedsTenBytes))"
  by pat_completeness auto
termination by (relation "measure (\<lambda>(position, v, bs). 10 - position)") auto

declare body_var_loop.simps [simp del]

definition body_var_u64 :: "nat body" where
  "body_var_u64 bs = rbind (body_var_loop 0 0 bs) (\<lambda>(v, bs). Ok (unat v, bs))"

definition all_operation_tags :: "nat list" where
  "all_operation_tags = [0, 1, 2, 3, 4, 5, 6, 7, 8, 9, 10, 11, 12, 13, 14, 15, 16, 17, 18, 19, 20, 21, 22]"

definition known_operation :: "nat \<Rightarrow> nat \<Rightarrow> (nat, signet_error) result" where
  "known_operation tag index =
     (if tag \<in> set all_operation_tags then Ok tag else Err (MalformedBody (UnknownOperationTag index tag)))"

definition prior :: "nat \<Rightarrow> nat \<Rightarrow> (nat, signet_error) result" where
  "prior reference index =
     (if reference < index then Ok reference else Err (MalformedBody (ReferenceNotPrior index reference)))"

definition body_distance :: "nat \<Rightarrow> nat body" where
  "body_distance index bs =
     rbind (body_var_u64 bs) (\<lambda>(distance, bs).
     rbind (guard (distance = 0 \<or> index < distance) (MalformedBody (DistanceNotPrior index distance))) (\<lambda>_.
       Ok (index - distance, bs)))"

definition body_record_of :: "body_version \<Rightarrow> nat \<Rightarrow> signet_record body" where
  "body_record_of version index bs =
     rbind (body_u8 bs) (\<lambda>(tag, bs).
     case version of
       BodyV1 \<Rightarrow>
         if tag = 0 then rbind (body_u32 bs) (\<lambda>(input, bs). Ok (SInput input, bs))
         else if tag = 1 then rbind (body_array32 bs) (\<lambda>(v, bs). Ok (SConstant v, bs))
         else if tag = 2 then
           rbind (body_u8 bs) (\<lambda>(op, bs). rbind (known_operation op index) (\<lambda>op.
           rbind (body_u32 bs) (\<lambda>(left, bs). rbind (prior left index) (\<lambda>left.
           rbind (body_u32 bs) (\<lambda>(right, bs). rbind (prior right index) (\<lambda>right.
             Ok (SOperation op left right, bs)))))))
         else if tag = 3 then
           rbind (body_u32 bs) (\<lambda>(source, bs). rbind (prior source index) (\<lambda>source. Ok (SInverse source, bs)))
         else Err (MalformedBody (UnknownNodeTag index tag))
     | BodyV2 \<Rightarrow>
         if tag = v2_input_tag then
           rbind (body_var_u64 bs) (\<lambda>(input, bs).
           rbind (guard (2 ^ 32 \<le> input) (MalformedBody (InputIndexExceeds32Bits index))) (\<lambda>_. Ok (SInput input, bs)))
         else if tag = v2_constant_tag then rbind (body_array32 bs) (\<lambda>(v, bs). Ok (SConstant v, bs))
         else if tag = v2_inverse_tag then
           rbind (body_distance index bs) (\<lambda>(source, bs). Ok (SInverse source, bs))
         else if tag \<le> 0x7f then
           rbind (known_operation tag index) (\<lambda>tag.
           rbind (body_distance index bs) (\<lambda>(left, bs).
           rbind (body_distance index bs) (\<lambda>(right, bs). Ok (SOperation tag left right, bs))))
         else Err (MalformedBody (UnknownNodeTag index tag)))"

definition body_record :: "body_version \<Rightarrow> nat \<Rightarrow> nat \<Rightarrow> signet_record body" where
  "body_record version index input_buffer_len bs =
     rbind (body_record_of version index bs) (\<lambda>(r, bs).
     rbind (guard (case r of SInput input \<Rightarrow> input_buffer_len \<le> input | _ \<Rightarrow> False)
         (MalformedBody (InputOutsideBuffer index (case r of SInput input \<Rightarrow> input | _ \<Rightarrow> 0) input_buffer_len))) (\<lambda>_.
       Ok (r, bs)))"

definition body_signal :: "body_version \<Rightarrow> nat \<Rightarrow> nat \<Rightarrow> nat \<Rightarrow> nat body" where
  "body_signal version previous node_count index bs =
     rbind (case version of
        BodyV1 \<Rightarrow> rbind (body_u32 bs) (\<lambda>(reference, bs). Ok (int reference, bs))
      | BodyV2 \<Rightarrow> rbind (body_var_u64 bs) (\<lambda>(encoded, bs).
          let magnitude = int (encoded div 2);
              delta = (if even encoded then magnitude else - magnitude - 1)
          in Ok (int previous + delta, bs))) (\<lambda>(reference, bs).
     rbind (guard (reference < 0 \<or> int node_count \<le> reference) (MalformedBody (OutputNotANode index node_count))) (\<lambda>_.
       Ok (nat reference, bs)))"

definition input_mapping_bytes :: nat where
  "input_mapping_bytes = 8 + 4 + 4"

definition transcode_node ::
    "body_version \<Rightarrow> body_version \<Rightarrow> nat \<Rightarrow> nat \<Rightarrow> byte list \<times> byte list \<Rightarrow> (byte list \<times> byte list, signet_error) result" where
  "transcode_node source target input_buffer_len index = (\<lambda>(bs, out).
     rbind (body_record source index input_buffer_len bs) (\<lambda>(r, bs).
     rbind (push_record target index r) (\<lambda>enc. Ok (bs, out @ enc))))"

definition transcode_signal ::
    "body_version \<Rightarrow> body_version \<Rightarrow> nat \<Rightarrow> nat \<Rightarrow> byte list \<times> (byte list \<times> int) \<times> nat \<Rightarrow>
     (byte list \<times> (byte list \<times> int) \<times> nat, signet_error) result" where
  "transcode_signal source target node_count index = (\<lambda>(bs, (out, written), previous).
     rbind (body_signal source previous node_count index bs) (\<lambda>(reference, bs).
     rbind (push_signal target reference (out, written)) (\<lambda>out. Ok (bs, out, reference))))"

definition transcode :: "byte list \<Rightarrow> body_version \<Rightarrow> (byte list, signet_error) result" where
  "transcode artifact target =
     rbind (describe artifact) (\<lambda>described.
     rbind (if ah_version described = format_version_v1 then Ok BodyV1
            else if ah_version described = format_version_v2 then Ok BodyV2 else Err NotAnArtifact) (\<lambda>source.
     rbind (body_take header_size artifact) (\<lambda>(header, bs).
     rbind (read_u32_at header 12) (\<lambda>size.
     rbind (guard (size \<noteq> header_size) (MalformedBody HeaderSizeNot64)) (\<lambda>_.
     rbind (read_u32_at header 48) (\<lambda>node_count.
     rbind (read_u32_at header 52) (\<lambda>signal_count.
     rbind (read_u32_at header 56) (\<lambda>mapping_count.
     rbind (read_u32_at header 60) (\<lambda>input_buffer_len.
       let out = take 8 header @ nat_to_le 2 (version_tag target) @ drop 10 header in
     rbind (rfold [0..<node_count] (transcode_node source target input_buffer_len) (bs, out)) (\<lambda>(bs, out).
     rbind (rfold [0..<signal_count] (transcode_signal source target node_count) (bs, (out, 0), 0)) (\<lambda>(bs, (out, written), previous).
     rbind (ok_or (checked_mul mapping_count input_mapping_bytes) (MalformedBody InputTableOverflow)) (\<lambda>table_bytes.
     rbind (body_take table_bytes bs) (\<lambda>(table, bs).
     rbind (guard (bs \<noteq> []) (MalformedBody BytesFollowTable)) (\<lambda>_.
       Ok (out @ table)))))))))))))))"

section \<open>Reference witnesses\<close>

text \<open>The reader keeps a position in the file.\<close>

definition wt_array :: "byte list \<Rightarrow> nat \<Rightarrow> nat \<Rightarrow> (byte list \<times> nat, signet_error) result" where
  "wt_array bytes n position =
     rbind (ok_or (checked_add position n) (InvalidWtns ''offset overflow'')) (\<lambda>e.
       if e \<le> length bytes then Ok (take n (drop position bytes), e) else Err (InvalidWtns ''truncated file''))"

definition wt_uint :: "byte list \<Rightarrow> nat \<Rightarrow> nat \<Rightarrow> (nat \<times> nat, signet_error) result" where
  "wt_uint bytes n position = rbind (wt_array bytes n position) (\<lambda>(v, position). Ok (nat_of_le v, position))"

definition wt_section ::
    "byte list \<Rightarrow> nat \<Rightarrow> nat \<times> nat option \<times> (nat \<times> nat) option \<Rightarrow>
     (nat \<times> nat option \<times> (nat \<times> nat) option, signet_error) result" where
  "wt_section bytes index = (\<lambda>(position, declared, data).
     rbind (wt_uint bytes 4 position) (\<lambda>(id, position).
     rbind (wt_uint bytes 8 position) (\<lambda>(section_size, start).
     rbind (if id = 1 then
              rbind (wt_uint bytes 4 start) (\<lambda>(width, position).
              rbind (guard (width \<noteq> 32) (InvalidWtns ''unexpected field width'')) (\<lambda>_.
              rbind (wt_array bytes 32 position) (\<lambda>(prime, position).
              rbind (wt_uint bytes 4 position) (\<lambda>(count, position). Ok (Some count, data)))))
            else if id = 2 then Ok (declared, Some (start, section_size))
            else Ok (declared, data)) (\<lambda>(declared, data).
     rbind (ok_or (checked_add start section_size) (InvalidWtns ''section overruns the file'')) (\<lambda>position.
       Ok (position, declared, data))))))"

definition wt_value :: "byte list \<Rightarrow> nat \<Rightarrow> nat \<Rightarrow> (fr, signet_error) result" where
  "wt_value bytes start index =
     (let offset = start + index * 32
      in if offset + 32 \<le> length bytes then Ok (fr_of_nat (nat_of_le (take 32 (drop offset bytes))))
         else Err (InvalidWtns ''truncated witness data''))"

definition wtns_read :: "byte list \<Rightarrow> (fr list, signet_error) result" where
  "wtns_read bytes =
     rbind (wt_array bytes 4 0) (\<lambda>(magic, position).
     rbind (guard (magic \<noteq> [119, 116, 110, 115]) (InvalidWtns ''not a wtns file'')) (\<lambda>_.
     rbind (wt_uint bytes 4 position) (\<lambda>(version, position).
     rbind (guard (version \<noteq> 2) (InvalidWtns ''unsupported wtns version'')) (\<lambda>_.
     rbind (wt_uint bytes 4 position) (\<lambda>(sections, position).
     rbind (rfold [0..<sections] (wt_section bytes) (position, None, None)) (\<lambda>(position, declared, data).
     rbind (ok_or declared (InvalidWtns ''missing header section'')) (\<lambda>declared.
     rbind (ok_or data (InvalidWtns ''missing data section'')) (\<lambda>(start, data_size).
     rbind (guard (data_size \<noteq> declared * 32) (InvalidWtns ''data size disagrees with the header'')) (\<lambda>_.
       rmap (wt_value bytes start) [0..<declared])))))))))"

definition first_difference :: "fr list \<Rightarrow> fr list \<Rightarrow> nat option" where
  "first_difference left right =
     (if length left \<noteq> length right then Some (min (length left) (length right))
      else map_option fst (find (\<lambda>(i, a, b). a \<noteq> b) (enumerate 0 (zip left right))))"

end
