(* ===== verification/Signet_Codec.thy ===== *)
theory Signet_Codec
  imports Signet Sage_Cache
begin

text \<open>
  The wire format of graph bodies, as an exact correspondence: variable-length integers, node
  records and output references of both body versions are read, by the transcoder and by
  the evaluator's parser, exactly from the bytes their writers emit.
\<close>

section \<open>Variable-length integers\<close>

lemma body_take_Ok_iff: "body_take n bs = Ok (v, bs') \<longleftrightarrow> length v = n \<and> bs = v @ bs'"
  by (auto simp: body_take_def)

lemma body_u8_Ok_iff: "body_u8 bs = Ok (n, bs') \<longleftrightarrow> n < 256 \<and> bs = of_nat n # bs'"
proof (cases bs)
  case (Cons b bs)
  then show ?thesis
    using unat_byte_less [of b] by (auto simp: body_u8_def body_take_def unat_of_nat)
qed (simp add: body_u8_def body_take_def)

lemma body_u32_Ok_iff: "body_u32 bs = Ok (n, bs') \<longleftrightarrow> n < 2 ^ 32 \<and> bs = nat_to_le 4 n @ bs'"
proof -
  have "body_u32 bs = Ok (n, bs') \<longleftrightarrow> (\<exists>v. (length v = 4 \<and> n = nat_of_le v) \<and> bs = v @ bs')"
    by (auto simp: body_u32_def read_u32_at_def rbind_Ok_iff body_take_Ok_iff)
  then show ?thesis unfolding nat_to_le_exact by auto
qed

text \<open>Groups of seven bits, the last one without the continuation bit and not redundant.\<close>

function varint :: "nat \<Rightarrow> byte list" where
  "varint n = (if 128 \<le> n then of_nat (128 + n mod 128) # varint (n div 128) else [of_nat n])"
  by pat_completeness auto
termination by (relation "measure id") auto

declare varint.simps [simp del]

lemma unat_low_bits: "unat ((ucast (v :: 64 word) :: byte) AND 0x7f) = unat v mod 128" "unat ((b :: byte) AND 0x7f) = unat b mod 128"
proof -
  have mask: "b AND 0x7f = take_bit 7 b" for b :: byte by (simp add: take_bit_eq_mask mask_eq_exp_minus_1)
  have "unat (take_bit 7 b) = unat b mod 128" for b :: byte by (subst unsigned_take_bit_eq) (simp add: take_bit_eq_mod)
  then show "unat (b AND 0x7f) = unat b mod 128" "unat ((ucast v :: byte) AND 0x7f) = unat v mod 128"
    by (simp_all add: mask unsigned_ucast_eq take_bit_eq_mod mod_mod_cancel)
qed

lemma byte_of_nat: "b = (of_nat (unat b) :: byte)"
  by simp

lemma continuation_bit:
  assumes "p < 128"
  shows "(of_nat p :: byte) OR 0x80 = of_nat (128 + p)"
proof -
  have "list_all (\<lambda>p. (of_nat p :: byte) OR 0x80 = of_nat (128 + p)) [0..<128]" by code_simp
  then show ?thesis using assms by (simp add: list_all_iff)
qed

lemma byte_tests:
  "(b :: byte) AND 0x80 = 0 \<longleftrightarrow> unat b < 128" "(b :: byte) AND 0xfe = 0 \<longleftrightarrow> unat b < 2"
proof -
  have "list_all (\<lambda>n. ((of_nat n :: byte) AND 0x80 = 0 \<longleftrightarrow> n < 128) \<and> ((of_nat n :: byte) AND 0xfe = 0 \<longleftrightarrow> n < 2)) [0..<256]"
    by code_simp
  then have tests: "((of_nat n :: byte) AND 0x80 = 0 \<longleftrightarrow> n < 128) \<and> ((of_nat n :: byte) AND 0xfe = 0 \<longleftrightarrow> n < 2)" if "n < 256" for n
    using that by (simp add: list_all_iff)
  show "b AND 0x80 = 0 \<longleftrightarrow> unat b < 128" "b AND 0xfe = 0 \<longleftrightarrow> unat b < 2"
    using tests [OF unat_byte_less, of b] by simp_all
qed

lemma varint_not_Nil [simp]: "varint n \<noteq> []"
  by (subst varint.simps) simp

lemma push_var_u64_eq: "push_var_u64 v = varint (unat v)"
proof (induction v rule: push_var_u64.induct)
  case (1 v)
  show ?case
  proof (cases "0x80 \<le> v")
    case True
    then have "128 \<le> unat v" by (simp add: word_le_nat_alt)
    moreover have "unat (drop_bit 7 v) = unat v div 128"
      by (subst unat_drop_bit_eq) (simp add: drop_bit_eq_div)
    moreover have "(ucast v AND 0x7f) OR 0x80 = (of_nat (128 + unat v mod 128) :: byte)"
    proof -
      have "ucast v AND 0x7f = (of_nat (unat v mod 128) :: byte)" by (metis byte_of_nat unat_low_bits(1))
      then show ?thesis using continuation_bit [of "unat v mod 128"] by simp
    qed
    ultimately show ?thesis
      using 1 True by (simp add: push_var_u64.simps [of v] varint.simps [of "unat v"])
  next
    case False
    then have "unat v < 128" by (simp add: word_le_nat_alt)
    then show ?thesis using False by (simp add: push_var_u64.simps [of v] varint.simps [of "unat v"] of_nat_unat)
  qed
qed

lemma unat_group:
  assumes "unat (v :: 64 word) < 2 ^ k" and "unat (p :: byte) * 2 ^ k < 2 ^ 64"
  shows "unat (v OR push_bit k (ucast p)) = unat v + unat p * 2 ^ k"
proof -
  have "unat (push_bit k (ucast p :: 64 word)) = push_bit k (unat p)"
    using assms(2) by (subst unsigned_push_bit_eq) (simp add: unsigned_ucast_eq push_bit_eq_mult take_bit_eq_mod unat_byte_less)
  moreover have "unat v OR push_bit k (unat p) = unat v + push_bit k (unat p)"
  proof (rule disjunctive_add [symmetric])
    fix n
    have "\<not> bit (unat v) n" if "k \<le> n"
    proof -
      have "unat v < 2 ^ n" using assms(1) that by (meson less_le_trans one_le_numeral power_increasing)
      then show ?thesis by (simp add: bit_iff_odd)
    qed
    then show "\<not> bit (unat v) n \<or> \<not> bit (push_bit k (unat p)) n" by (auto simp: bit_push_bit_iff_nat not_le)
  qed
  ultimately show ?thesis by (simp add: unsigned_or_eq push_bit_eq_mult)
qed

lemma varint_Cons:
  "(b :: byte) # rest = varint n @ bs' \<longleftrightarrow>
    (if 128 \<le> n then unat b = 128 + n mod 128 \<and> rest = varint (n div 128) @ bs' else unat b = n \<and> rest = bs')"
proof -
  have eq: "b = of_nat m \<longleftrightarrow> unat b = m" if "m < 256" for m using that by (auto simp: unat_of_nat)
  have "n mod 128 + 128 < 256" by simp
  then show ?thesis using eq [of "128 + n mod 128"] eq [of n] by (subst varint.simps) auto
qed

lemma group_bound:
  fixes n k :: nat
  assumes "k + 7 \<le> 64"
  shows "n div 128 * 2 ^ (k + 7) < 2 ^ 64 \<longleftrightarrow> n * 2 ^ k < (2 :: nat) ^ 64"
proof -
  have a: "(2 :: nat) ^ 64 = 2 ^ (57 - k) * 2 ^ (k + 7)" using assms by (simp flip: power_add)
  have b: "(2 :: nat) ^ 64 = (2 ^ (57 - k) * 128) * 2 ^ k" unfolding a by (simp add: power_add)
  have "n div 128 * 2 ^ (k + 7) < 2 ^ 64 \<longleftrightarrow> n div 128 < 2 ^ (57 - k)" unfolding a by simp
  also have "\<dots> \<longleftrightarrow> n < 2 ^ (57 - k) * 128" by (simp add: div_less_iff_less_mult)
  also have "\<dots> \<longleftrightarrow> n * 2 ^ k < 2 ^ 64" unfolding b by simp
  finally show ?thesis .
qed

lemma high_byte: "128 \<le> n \<Longrightarrow> n < 256 \<Longrightarrow> n = 128 + n mod (128 :: nat)"
  using mod_less [of "n - 128" 128] by (simp add: le_mod_geq)

lemma body_var_loop_Ok_iff:
  assumes "i < 10" and "unat v < 2 ^ (7 * i)"
  shows "body_var_loop i v bs = Ok (w, bs') \<longleftrightarrow>
    (\<exists>n. n * 2 ^ (7 * i) < 2 ^ 64 \<and> (i \<noteq> 0 \<longrightarrow> n \<noteq> 0) \<and> w = of_nat (unat v + n * 2 ^ (7 * i)) \<and> bs = varint n @ bs')"
  using assms
proof (induction "9 - i" arbitrary: i v bs rule: less_induct)
  case (less i v bs)
  show ?case
  proof (cases bs)
    case Nil
    then show ?thesis by (simp add: body_var_loop.simps [of i v] body_u8_def body_take_def)
  next
    case (Cons b rest)
    define p where "p = unat b mod 128"
    let ?k = "7 * i" and ?v = "v OR push_bit (7 * i) (ucast (b AND 0x7f))"
    have b: "unat b < 256" by (rule unat_byte_less)
    have u8: "body_u8 bs = Ok (unat b, rest)" by (simp add: Cons body_u8_Ok_iff b)
    have payload: "unat (b AND 0x7f) = p" by (simp add: p_def unat_low_bits)
    have p_zero: "b AND 0x7f = 0 \<longleftrightarrow> p = 0" using payload by (metis unat_eq_zero)
    have loop: "body_var_loop i v bs =
        rbind (guard (i = 9 \<and> 2 \<le> unat b) (MalformedBody VarintExceeds64Bits)) (\<lambda>_.
          if unat b < 128 then rbind (guard (i \<noteq> 0 \<and> p = 0) (MalformedBody VarintNotCanonical)) (\<lambda>_. Ok (?v, rest))
          else body_var_loop (i + 1) ?v rest)"
      using less(2) by (simp add: body_var_loop.simps [of i v] u8 byte_tests p_zero Let_def not_less mult.commute [of i])
    have i: "i \<le> 8 \<or> i = 9" using less(2) by auto
    have fits: "p * 2 ^ ?k < 2 ^ 64" if "i = 9 \<longrightarrow> unat b < 2"
    proof (cases "i = 9")
      case True
      then have "p < 2" using that p_def by simp
      then show ?thesis using True by (simp add: less_2_cases_iff)
    next
      case False
      then have "(2 :: nat) ^ ?k \<le> 2 ^ 56" using i by (intro power_increasing) auto
      moreover have "p < 128" by (simp add: p_def)
      ultimately have "p * 2 ^ ?k < 128 * 2 ^ 56" by (intro mult_less_le_imp_less) auto
      then show ?thesis by simp
    qed
    have v: "unat ?v = unat v + p * 2 ^ ?k" if "i = 9 \<longrightarrow> unat b < 2"
      using unat_group [OF less(3), of "b AND 0x7f"] fits [OF that] by (simp add: payload)
    show ?thesis
    proof (cases "i = 9 \<longrightarrow> unat b < 2")
      case False
      have "\<not> (n * 2 ^ ?k < 2 ^ 64 \<and> n \<noteq> 0 \<and> bs = varint n @ bs')" for n
        using False by (auto simp: Cons varint_Cons)
      then show ?thesis unfolding loop using False by auto
    next
      case ok: True
      show ?thesis
      proof (cases "unat b < 128")
        case True
        then have n: "bs = varint n @ bs' \<longleftrightarrow> n = p \<and> rest = bs'" for n by (auto simp: Cons varint_Cons p_def)
        have w: "of_nat (unat v + p * 2 ^ ?k) = ?v" by (metis v [OF ok] word_unat_eq_iff word_of_nat_eq_iff of_nat_unat ucast_id)
        have "body_var_loop i v bs = Ok (w, bs') \<longleftrightarrow> (i \<noteq> 0 \<longrightarrow> p \<noteq> 0) \<and> w = ?v \<and> rest = bs'"
          unfolding loop using True ok by (auto simp: rbind_Ok_iff)
        also have "\<dots> \<longleftrightarrow> (\<exists>n. n * 2 ^ ?k < 2 ^ 64 \<and> (i \<noteq> 0 \<longrightarrow> n \<noteq> 0) \<and> w = of_nat (unat v + n * 2 ^ ?k) \<and> bs = varint n @ bs')"
          unfolding n using fits [OF ok] w by metis
        finally show ?thesis .
      next
        case False
        then have i8: "i \<le> 8" using ok i by auto
        have bits: "unat ?v < 2 ^ (7 * (i + 1))"
        proof -
          have "p < 128" by (simp add: p_def)
          then have "unat v + p * 2 ^ ?k < 2 ^ ?k + 127 * 2 ^ ?k" using less(3) by (intro add_less_le_mono mult_le_mono1) auto
          then show ?thesis by (simp add: v [OF ok] power_add)
        qed
        have "body_var_loop i v bs = Ok (w, bs') \<longleftrightarrow> body_var_loop (i + 1) ?v rest = Ok (w, bs')"
          using False ok by (simp add: loop)
        also have "\<dots> \<longleftrightarrow> (\<exists>m. m * 2 ^ (7 * (i + 1)) < 2 ^ 64 \<and> (i + 1 \<noteq> 0 \<longrightarrow> m \<noteq> 0) \<and>
            w = of_nat (unat ?v + m * 2 ^ (7 * (i + 1))) \<and> rest = varint m @ bs')"
          by (rule less(1) [OF _ _ bits]) (use i8 in auto)
        also have "\<dots> \<longleftrightarrow> (\<exists>n. n * 2 ^ ?k < 2 ^ 64 \<and> (i \<noteq> 0 \<longrightarrow> n \<noteq> 0) \<and> w = of_nat (unat v + n * 2 ^ ?k) \<and> bs = varint n @ bs')"
          (is "(\<exists>m. ?L m) \<longleftrightarrow> (\<exists>n. ?R n)")
        proof
          assume "\<exists>m. ?L m"
          then obtain m where m: "?L m" by (rule exE)
          have n: "(p + 128 * m) div 128 = m" "(p + 128 * m) mod 128 = p"
            using mod_less_divisor [of 128 "unat b"] unfolding p_def [symmetric] by simp_all
          have k: "7 * (i + 1) = ?k + 7" "?k + 7 \<le> 64" using i8 by simp_all
          have m1: "m * 2 ^ (7 * (i + 1)) < 2 ^ 64" by (rule conjunct1 [OF m])
          have "(p + 128 * m) * 2 ^ ?k < 2 ^ 64"
            using group_bound [OF k(2), of "p + 128 * m"] m1 unfolding n k(1) by (rule iffD1)
          moreover have "unat v + (p + 128 * m) * 2 ^ ?k = unat ?v + m * 2 ^ (7 * (i + 1))"
            unfolding v [OF ok] k(1) by (simp only: power_add) (simp add: algebra_simps)
          moreover have "unat b = 128 + p"
            unfolding p_def using False b by (intro high_byte) auto
          ultimately have "?R (p + 128 * m)" using m n by (simp add: Cons varint_Cons)
          then show "\<exists>n. ?R n" by (rule exI)
        next
          assume "\<exists>n. ?R n"
          then obtain n where n: "?R n" by (rule exE)
          have big: "128 \<le> n" "unat b = 128 + n mod 128" "rest = varint (n div 128) @ bs'"
            using n False by (auto simp: Cons varint_Cons split: if_splits)
          have p: "p = n mod 128" by (simp add: p_def big(2))
          have k: "7 * (i + 1) = ?k + 7" "?k + 7 \<le> 64" using i8 by simp_all
          have n1: "n * 2 ^ ?k < 2 ^ 64" by (rule conjunct1 [OF n])
          have "n div 128 * 2 ^ (7 * (i + 1)) < 2 ^ 64"
            using group_bound [OF k(2), of n] n1 unfolding k(1) by (rule iffD2)
          moreover have "unat v + n * 2 ^ ?k = unat ?v + n div 128 * 2 ^ (7 * (i + 1))"
          proof -
            have "n * 2 ^ ?k = (n mod 128 + 128 * (n div 128)) * 2 ^ ?k" by simp
            also have "\<dots> = p * 2 ^ ?k + n div 128 * 2 ^ (7 * (i + 1))" unfolding p k(1) power_add add_mult_distrib by (simp add: ac_simps)
            finally show ?thesis unfolding v [OF ok] by simp
          qed
          ultimately have "?L (n div 128)" using n big by simp
          then show "\<exists>m. ?L m" by (rule exI)
        qed
        finally show ?thesis .
      qed
    qed
  qed
qed

lemma body_var_u64_Ok_iff: "body_var_u64 bs = Ok (n, bs') \<longleftrightarrow> n < 2 ^ 64 \<and> bs = varint n @ bs'"
proof -
  have loop: "body_var_loop 0 0 bs = Ok (w, bs') \<longleftrightarrow> (\<exists>m. m < 2 ^ 64 \<and> w = of_nat m \<and> bs = varint m @ bs')" for w
    using body_var_loop_Ok_iff [of 0 0 bs w bs'] by simp
  have small: "unat (of_nat m :: 64 word) = m" if "m < 2 ^ 64" for m using that by (simp add: unat_of_nat)
  have "body_var_u64 bs = Ok (n, bs') \<longleftrightarrow> (\<exists>w. body_var_loop 0 0 bs = Ok (w, bs') \<and> n = unat w)"
    by (auto simp: body_var_u64_def rbind_Ok_iff)
  also have "\<dots> \<longleftrightarrow> n < 2 ^ 64 \<and> bs = varint n @ bs'" unfolding loop using small by metis
  finally show ?thesis .
qed

lemma rd_var_loop_eq: "rd_var_loop i v bs = Ok r \<longleftrightarrow> body_var_loop i v bs = Ok r"
proof (induction "10 - i" arbitrary: i v bs rule: less_induct)
  case (less i v bs)
  show ?case
  proof (cases "i < 10 \<and> bs \<noteq> []")
    case False
    then show ?thesis
      by (cases "i < 10") (simp_all add: rd_var_loop.simps [of i v] body_var_loop.simps [of i v] rd_u8_eq body_u8_def body_take_def)
  next
    case True
    then obtain b rest where "bs = b # rest" by (cases bs) auto
    then have "rd_u8 bs = Ok (unat b, rest)" "body_u8 bs = Ok (unat b, rest)"
      by (simp_all add: rd_u8_eq body_u8_Ok_iff unat_byte_less)
    moreover have "rd_var_loop (i + 1) w rest = Ok r \<longleftrightarrow> body_var_loop (i + 1) w rest = Ok r" for w
      using True by (intro less) auto
    ultimately show ?thesis
      using True by (simp add: rd_var_loop.simps [of i v] body_var_loop.simps [of i v] rbind_Ok_iff Let_def)
  qed
qed

lemma rd_var_u64_Ok_iff: "rd_var_u64 bs = Ok (n, bs') \<longleftrightarrow> n < 2 ^ 64 \<and> bs = varint n @ bs'"
  unfolding body_var_u64_Ok_iff [symmetric] by (auto simp: rd_var_u64_def body_var_u64_def rbind_Ok_iff rd_var_loop_eq)

section \<open>Records\<close>

text \<open>What a record must satisfy at its index, and its bytes in each version.\<close>

fun signet_record_valid :: "nat \<Rightarrow> nat \<Rightarrow> signet_record \<Rightarrow> bool" where
  "signet_record_valid len i (SInput input) \<longleftrightarrow> input < len \<and> input < 2 ^ 32"
| "signet_record_valid len i (SConstant v) \<longleftrightarrow> length v = 32"
| "signet_record_valid len i (SOperation tag left right) \<longleftrightarrow> tag < 23 \<and> left < i \<and> right < i"
| "signet_record_valid len i (SInverse source) \<longleftrightarrow> source < i"

fun record_bytes :: "body_version \<Rightarrow> nat \<Rightarrow> signet_record \<Rightarrow> byte list" where
  "record_bytes BodyV1 i (SInput input) = 0 # nat_to_le 4 input"
| "record_bytes BodyV1 i (SConstant v) = 1 # v"
| "record_bytes BodyV1 i (SOperation tag left right) = 2 # of_nat tag # nat_to_le 4 left @ nat_to_le 4 right"
| "record_bytes BodyV1 i (SInverse source) = 3 # nat_to_le 4 source"
| "record_bytes BodyV2 i (SInput input) = of_nat v2_input_tag # varint input"
| "record_bytes BodyV2 i (SConstant v) = of_nat v2_constant_tag # v"
| "record_bytes BodyV2 i (SOperation tag left right) = of_nat tag # varint (i - left) @ varint (i - right)"
| "record_bytes BodyV2 i (SInverse source) = of_nat v2_inverse_tag # varint (i - source)"

text \<open>The references fit their fields; they always do in a graph of less than \<open>2 ^ 32\<close> nodes.\<close>

fun record_fits :: "body_version \<Rightarrow> nat \<Rightarrow> signet_record \<Rightarrow> bool" where
  "record_fits BodyV1 i (SOperation tag left right) \<longleftrightarrow> left < 2 ^ 32 \<and> right < 2 ^ 32"
| "record_fits BodyV1 i (SInverse source) \<longleftrightarrow> source < 2 ^ 32"
| "record_fits BodyV2 i (SOperation tag left right) \<longleftrightarrow> i - left < 2 ^ 64 \<and> i - right < 2 ^ 64"
| "record_fits BodyV2 i (SInverse source) \<longleftrightarrow> i - source < 2 ^ 64"
| "record_fits version i r \<longleftrightarrow> True"

lemma record_fits_small: "i < 2 ^ 32 \<Longrightarrow> signet_record_valid len i r \<Longrightarrow> record_fits version i r"
  by (cases version; cases r) auto

lemma known_operation_Ok_iff: "known_operation tag i = Ok t \<longleftrightarrow> t = tag \<and> tag < 23"
proof -
  have "set all_operation_tags = {..<23}" by (simp add: all_operation_tags_def lessThan_nat_numeral lessThan_Suc) blast
  then show ?thesis by (auto simp: known_operation_def)
qed

lemma prior_Ok_iff: "prior reference i = Ok r \<longleftrightarrow> r = reference \<and> reference < i"
  by (auto simp: prior_def)

lemma body_distance_Ok_iff:
  "body_distance i bs = Ok (r, bs') \<longleftrightarrow> r < i \<and> i - r < 2 ^ 64 \<and> bs = varint (i - r) @ bs'"
proof
  assume "body_distance i bs = Ok (r, bs')"
  then obtain d where "body_var_u64 bs = Ok (d, bs')" "d \<noteq> 0" "d \<le> i" "r = i - d"
    by (auto simp: body_distance_def rbind_Ok_iff not_less)
  then show "r < i \<and> i - r < 2 ^ 64 \<and> bs = varint (i - r) @ bs'" by (auto simp: body_var_u64_Ok_iff)
next
  assume r: "r < i \<and> i - r < 2 ^ 64 \<and> bs = varint (i - r) @ bs'"
  then have "body_var_u64 bs = Ok (i - r, bs')" by (simp add: body_var_u64_Ok_iff)
  then show "body_distance i bs = Ok (r, bs')" using r by (simp add: body_distance_def guard_def)
qed

lemmas body_Ok_iff = rbind_Ok_iff body_u8_Ok_iff body_u32_Ok_iff body_array32_def body_take_Ok_iff body_var_u64_Ok_iff
  known_operation_Ok_iff prior_Ok_iff

lemma byte_eq_iff: "m < 256 \<Longrightarrow> n < 256 \<Longrightarrow> (of_nat m :: byte) = of_nat n \<longleftrightarrow> m = n"
  by (simp add: word_of_nat_eq_iff take_bit_eq_mod)

lemma body_record_Ok_iff_of:
  "body_record version i len bs = Ok (r, bs') \<longleftrightarrow>
    body_record_of version i bs = Ok (r, bs') \<and> (case r of SInput input \<Rightarrow> input < len | _ \<Rightarrow> True)"
  by (auto simp: body_record_def rbind_Ok_iff not_le split: signet_record.splits)

text \<open>How the readers run on what is written.\<close>

lemma body_eval:
  "body_u8 (b # bs) = Ok (unat b, bs)"
  "n < 2 ^ 32 \<Longrightarrow> body_u32 (nat_to_le 4 n @ bs) = Ok (n, bs)"
  "length v = 32 \<Longrightarrow> body_array32 (v @ bs) = Ok (v, bs)"
  "n < 2 ^ 64 \<Longrightarrow> body_var_u64 (varint n @ bs) = Ok (n, bs)"
  "r < i \<Longrightarrow> i - r < 2 ^ 64 \<Longrightarrow> body_distance i (varint (i - r) @ bs) = Ok (r, bs)"
  "tag < 23 \<Longrightarrow> known_operation tag i = Ok tag"
  "r < i \<Longrightarrow> prior r i = Ok r"
  using unat_byte_less [of b]
  by (simp_all add: body_u8_Ok_iff body_u32_Ok_iff body_array32_def body_take_Ok_iff body_var_u64_Ok_iff body_distance_Ok_iff
    known_operation_Ok_iff prior_Ok_iff)

lemma body_record_Ok_iff:
  "body_record version i len bs = Ok (r, bs') \<longleftrightarrow>
    (signet_record_valid len i r \<and> record_fits version i r) \<and> bs = record_bytes version i r @ bs'"
proof
  assume "body_record version i len bs = Ok (r, bs')"
  then have "body_record_of version i bs = Ok (r, bs')" "case r of SInput input \<Rightarrow> input < len | _ \<Rightarrow> True"
    by (simp_all only: body_record_Ok_iff_of)
  then show "(signet_record_valid len i r \<and> record_fits version i r) \<and> bs = record_bytes version i r @ bs'"
    by (cases version) (auto simp: body_record_of_def body_Ok_iff body_distance_Ok_iff split: if_splits)
next
  assume "(signet_record_valid len i r \<and> record_fits version i r) \<and> bs = record_bytes version i r @ bs'"
  then show "body_record version i len bs = Ok (r, bs')"
    unfolding body_record_Ok_iff_of
    by (cases version; cases r)
      (simp_all add: body_record_of_def body_eval unat_of_nat v2_input_tag_def v2_constant_tag_def v2_inverse_tag_def)
qed

lemma backward_distance_eq:
  assumes "reference < i" and "i < 2 ^ 32"
  shows "\<exists>d. backward_distance i reference what = Ok d \<and> unat d = i - reference"
proof -
  have "i - reference < 2 ^ 64" using assms by simp
  then have "unat (of_nat (i - reference) :: 64 word) = i - reference" by (simp only: unat_of_nat) simp
  then show ?thesis using assms(1) by (simp only: backward_distance_def if_True) blast
qed

lemma push_record_eq:
  assumes "signet_record_valid len i r" and "i < 2 ^ 32"
  shows "push_record version i r = Ok (record_bytes version i r)"
proof (cases version)
  case BodyV1
  then show ?thesis using assms by (cases r) (auto simp: push_record_def signet_checked_u32_def)
next
  case BodyV2
  show ?thesis
  proof (cases r)
    case (SInput input)
    then show ?thesis using BodyV2 assms by (simp add: push_record_def push_var_u64_eq unat_of_nat)
  next
    case (SOperation tag left right)
    obtain d e where "backward_distance i left ''left reference'' = Ok d" "unat d = i - left"
        "backward_distance i right ''right reference'' = Ok e" "unat e = i - right"
      using assms SOperation backward_distance_eq [OF _ assms(2)] by (metis signet_record_valid.simps(3))
    then show ?thesis using SOperation BodyV2 by (simp add: push_record_def push_var_u64_eq)
  next
    case (SInverse source)
    obtain d where "backward_distance i source ''inverse reference'' = Ok d" "unat d = i - source"
      using assms SInverse backward_distance_eq [OF _ assms(2)] by (metis signet_record_valid.simps(4))
    then show ?thesis using SInverse BodyV2 by (simp add: push_record_def push_var_u64_eq)
  qed (simp add: BodyV2 push_record_def)
qed

interpretation record_table: wire_table "\<lambda>i. body_record version i len" "record_bytes version"
    "\<lambda>i r. signet_record_valid len i r \<and> record_fits version i r" for version len
  by unfold_locales (rule body_record_Ok_iff)

text \<open>The parser of the evaluator reads the same records.\<close>

fun node_record_of :: "signet_record \<Rightarrow> node_record" where
  "node_record_of (SInput input) = RInput input"
| "node_record_of (SConstant v) = RConstant v"
| "node_record_of (SOperation tag left right) = ROperation (the (map_of wire_operations tag)) left right"
| "node_record_of (SInverse source) = RInverse source"

fun parser_version :: "body_version \<Rightarrow> format_version" where
  "parser_version BodyV1 = V1"
| "parser_version BodyV2 = V2"

lemma operation_of_tag: "operation_from_tag tag i = Ok operation \<longleftrightarrow> tag < 23 \<and> operation = the (map_of wire_operations tag)"
proof
  assume "operation_from_tag tag i = Ok operation"
  then show "tag < 23 \<and> operation = the (map_of wire_operations tag)"
    using operation_tag_less by (auto simp: operation_from_tag_def wire_operations_def split: if_splits)
next
  assume tag: "tag < 23 \<and> operation = the (map_of wire_operations tag)"
  have "\<forall>t \<in> set [0..<23]. map_of wire_operations t \<noteq> None" by (simp add: upt_rec wire_operations_def)
  then have "map_of wire_operations tag \<noteq> None" using tag by simp
  then show "operation_from_tag tag i = Ok operation" using tag by (auto simp: operation_from_tag_def)
qed

lemma decode_backward_reference_Ok_iff:
  "decode_backward_reference i bs = Ok (r, bs') \<longleftrightarrow> r < i \<and> i - r < 2 ^ 64 \<and> bs = varint (i - r) @ bs'"
  unfolding body_distance_Ok_iff [symmetric]
  by (auto simp: decode_backward_reference_def body_distance_def rbind_Ok_iff rd_var_u64_Ok_iff body_var_u64_Ok_iff)

lemmas read_Ok_iff = rbind_Ok_iff rd_u8_Ok_iff rd_uints_Ok_iff rd_take_Ok_iff rd_var_u64_Ok_iff rd_var_u32_def
  checked_input_Ok_iff validate_reference_def decode_backward_reference_Ok_iff

lemma read_eval:
  "rd_u8 (b # bs) = Ok (unat b, bs)"
  "n < 2 ^ 32 \<Longrightarrow> rd_u32 (nat_to_le 4 n @ bs) = Ok (n, bs)"
  "length v = k \<Longrightarrow> rd_take k (v @ bs) = Ok (v, bs)"
  "n < 2 ^ 32 \<Longrightarrow> rd_var_u32 (varint n @ bs) = Ok (n, bs)"
  "r < i \<Longrightarrow> i - r < 2 ^ 64 \<Longrightarrow> decode_backward_reference i (varint (i - r) @ bs) = Ok (r, bs)"
  "tag < 23 \<Longrightarrow> operation_from_tag tag i = Ok (the (map_of wire_operations tag))"
  using unat_byte_less [of b]
  by (simp_all add: rd_u8_Cons rd_uints_Ok_iff rd_take_Ok_iff decode_backward_reference_Ok_iff operation_of_tag)
    (simp add: rd_var_u32_def rbind_Ok_iff rd_var_u64_Ok_iff)

lemma operation_tag_inverse: "the (map_of wire_operations (operation_tag operation)) = operation"
  using operation_of_tag [of "operation_tag operation" 0 operation] by (simp add: operation_from_tag_Ok_iff)

lemma read_node_record_Ok_iff:
  "read_node_record (parser_version version) i len bs = Ok (nr, bs') \<longleftrightarrow>
    (\<exists>r. (signet_record_valid len i r \<and> record_fits version i r) \<and> bs = record_bytes version i r @ bs' \<and> nr = node_record_of r)"
proof
  assume read: "read_node_record (parser_version version) i len bs = Ok (nr, bs')"
  show "\<exists>r. (signet_record_valid len i r \<and> record_fits version i r) \<and> bs = record_bytes version i r @ bs' \<and> nr = node_record_of r"
  proof (cases nr)
    case (RInput input)
    then show ?thesis using read
      by (cases version; intro exI [of _ "SInput input"])
        (auto simp: read_node_record_def read_Ok_iff v2_input_tag_def v2_constant_tag_def split: if_splits)
  next
    case (RConstant v)
    then show ?thesis using read
      by (cases version; intro exI [of _ "SConstant v"])
        (auto simp: read_node_record_def read_Ok_iff v2_input_tag_def v2_constant_tag_def split: if_splits)
  next
    case (ROperation operation left right)
    then show ?thesis using read operation_tag_less [of operation]
      by (cases version; intro exI [of _ "SOperation (operation_tag operation) left right"])
        (auto simp: read_node_record_def read_Ok_iff operation_from_tag_Ok_iff operation_tag_inverse
          v2_input_tag_def v2_constant_tag_def v2_inverse_tag_def split: if_splits)
  next
    case (RInverse source)
    then show ?thesis using read
      by (cases version; intro exI [of _ "SInverse source"])
        (auto simp: read_node_record_def read_Ok_iff v2_input_tag_def v2_constant_tag_def v2_inverse_tag_def split: if_splits)
  qed
next
  assume "\<exists>r. (signet_record_valid len i r \<and> record_fits version i r) \<and> bs = record_bytes version i r @ bs' \<and> nr = node_record_of r"
  then obtain r where "(signet_record_valid len i r \<and> record_fits version i r) \<and> bs = record_bytes version i r @ bs' \<and> nr = node_record_of r"
    by blast
  then show "read_node_record (parser_version version) i len bs = Ok (nr, bs')"
    by (cases version; cases r)
      (simp_all add: read_node_record_def read_eval unat_of_nat checked_input_def guard_def validate_reference_def
        v2_input_tag_def v2_constant_tag_def v2_inverse_tag_def)
qed

section \<open>Output references\<close>

text \<open>The ZigZag encoding of a signed difference.\<close>

definition zig :: "int \<Rightarrow> nat" where
  "zig d = nat (if 0 \<le> d then 2 * d else - 2 * d - 1)"

lemma zigzag_eq:
  assumes "- (2 ^ 63) \<le> d" and "d < 2 ^ 63"
  shows "unat (zigzag (of_int d)) = zig d"
proof -
  let ?v = "of_int d :: 64 word"
  have sint: "sint ?v = d" using assms by (simp add: sint_sbintrunc' signed_take_bit_int_eq_self signed_of_int)
  have sign: "signed_drop_bit 63 ?v = (if 0 \<le> d then 0 else - 1)"
  proof -
    have "d div 2 ^ 63 = (if 0 \<le> d then 0 else - 1)"
    proof (cases "0 \<le> d")
      case True
      then show ?thesis using assms by simp
    next
      case False
      then have "d div 2 ^ 63 = - 1" using assms by (intro int_div_pos_eq [of _ _ _ "d + 2 ^ 63"]) auto
      then show ?thesis using False by simp
    qed
    then have "sint (signed_drop_bit 63 ?v) = sint (if 0 \<le> d then 0 else - 1 :: 64 word)"
      by (simp add: sint_signed_drop_bit_eq sint drop_bit_eq_div)
    then show ?thesis by (rule signed_word_eqI)
  qed
  have small: "unat (of_int x :: 64 word) = nat x" if "0 \<le> x" "x < 2 ^ 64" for x
    using that by (simp add: unsigned_of_int take_bit_int_eq_self)
  have double: "push_bit 1 ?v = of_int (2 * d)" by (simp add: push_bit_eq_mult)
  show ?thesis
  proof (cases "0 \<le> d")
    case True
    have "zigzag ?v = of_int (2 * d)" using True by (simp only: zigzag_def sign double) simp
    then show ?thesis using True assms small [of "2 * d"] by (simp add: zig_def)
  next
    case False
    have "zigzag ?v = NOT (of_int (2 * d))" using False by (simp only: zigzag_def sign double if_False) simp
    also have "\<dots> = of_int (- 2 * d - 1)" by (simp add: not_eq_complement)
    finally show ?thesis using False assms small [of "- 2 * d - 1"] by (simp add: zig_def)
  qed
qed

end
