(* ===== verification/Signet_Artifact.thy ===== *)
theory Signet_Artifact
  imports Signet_Codec
begin

text \<open>
  Whole artifacts: the bytes of a graph in either body version, the transcoder as a map between
  them, and the evaluator's parser on them.
\<close>

section \<open>Output tables\<close>

fun signal_bytes :: "body_version \<Rightarrow> nat \<Rightarrow> nat \<Rightarrow> byte list" where
  "signal_bytes BodyV1 previous s = nat_to_le 4 s"
| "signal_bytes BodyV2 previous s = varint (zig (int s - int previous))"

definition signal_fits :: "body_version \<Rightarrow> nat \<Rightarrow> nat \<Rightarrow> bool" where
  "signal_fits version previous s \<longleftrightarrow> (case version of BodyV1 \<Rightarrow> s < 2 ^ 32 | BodyV2 \<Rightarrow> zig (int s - int previous) < 2 ^ 64)"

definition unzig :: "nat \<Rightarrow> int" where
  "unzig e = (if even e then int (e div 2) else - int (e div 2) - 1)"

lemma zig_inverse: "unzig e = d \<longleftrightarrow> e = zig d"
proof
  show "unzig e = d \<Longrightarrow> e = zig d" by (auto simp: unzig_def zig_def elim!: evenE oddE)
  have "d = int (nat d) \<or> d = - int (nat (- d - 1)) - 1" by auto
  then obtain k where "d = int k \<or> d = - int k - 1" by metis
  then show "e = zig d \<Longrightarrow> unzig e = d" by (auto simp: unzig_def zig_def nat_mult_distrib nat_add_distrib)
qed

lemma zig_bound: "s < 2 ^ 32 \<Longrightarrow> p < 2 ^ 32 \<Longrightarrow> zig (int s - int p) < 2 ^ 64"
  by (auto simp: zig_def)

text \<open>A table in which the meaning of an entry depends on the one before.\<close>

fun chain_bytes :: "(nat \<Rightarrow> nat \<Rightarrow> byte list) \<Rightarrow> nat \<Rightarrow> nat list \<Rightarrow> byte list" where
  "chain_bytes enc previous [] = []"
| "chain_bytes enc previous (x # xs) = enc previous x @ chain_bytes enc x xs"

fun chain_ok :: "(nat \<Rightarrow> nat \<Rightarrow> bool) \<Rightarrow> nat \<Rightarrow> nat list \<Rightarrow> bool" where
  "chain_ok ok previous [] \<longleftrightarrow> True"
| "chain_ok ok previous (x # xs) \<longleftrightarrow> ok previous x \<and> chain_ok ok x xs"

locale chained_table =
  fixes dec :: "nat \<Rightarrow> nat \<Rightarrow> byte list \<Rightarrow> (nat \<times> byte list, 'e) result"
    and enc :: "nat \<Rightarrow> nat \<Rightarrow> byte list"
    and ok :: "nat \<Rightarrow> nat \<Rightarrow> bool"
  assumes dec_iff: "dec i previous bs = Ok (x, bs') \<longleftrightarrow> ok previous x \<and> bs = enc previous x @ bs'"
begin

lemma loop_Ok_iff:
  assumes body: "\<And>i bs acc previous. body i (bs, acc, previous) =
      rbind (dec i previous bs) (\<lambda>(x, bs). rbind (f i x acc) (\<lambda>acc. Ok (bs, acc, x)))"
  shows "rfold [k..<k + n] body (bs, a, previous) = Ok (bs', a', last') \<longleftrightarrow>
    (\<exists>xs. length xs = n \<and> chain_ok ok previous xs \<and> bs = chain_bytes enc previous xs @ bs' \<and>
      rfold (enumerate k xs) (\<lambda>(i, x). f i x) a = Ok a' \<and> last' = last (previous # xs))"
proof (induction n arbitrary: k bs a previous)
  case 0
  then show ?case by auto
next
  case (Suc n)
  have upt: "[k..<k + Suc n] = k # [Suc k..<Suc k + n]" by (simp add: upt_conv_Cons)
  have "rfold [k..<k + Suc n] body (bs, a, previous) = Ok (bs', a', last') \<longleftrightarrow>
      (\<exists>x b acc. ok previous x \<and> bs = enc previous x @ b \<and> f k x a = Ok acc \<and>
        rfold [Suc k..<Suc k + n] body (b, acc, x) = Ok (bs', a', last'))"
    unfolding upt by (auto simp: rbind_Ok_iff body dec_iff)
  also have "\<dots> \<longleftrightarrow> (\<exists>x b acc xs. ok previous x \<and> bs = enc previous x @ b \<and> f k x a = Ok acc \<and>
      length xs = n \<and> chain_ok ok x xs \<and> b = chain_bytes enc x xs @ bs' \<and> rfold (enumerate (Suc k) xs) (\<lambda>(i, x). f i x) acc = Ok a' \<and>
      last' = last (x # xs))"
    unfolding Suc.IH by blast
  also have "\<dots> \<longleftrightarrow> (\<exists>ys. length ys = Suc n \<and> chain_ok ok previous ys \<and> bs = chain_bytes enc previous ys @ bs' \<and>
      rfold (enumerate k ys) (\<lambda>(i, x). f i x) a = Ok a' \<and> last' = last (previous # ys))" (is "?l \<longleftrightarrow> ?r")
  proof
    assume ?l
    then obtain x b acc xs where "ok previous x" "bs = enc previous x @ b" "f k x a = Ok acc" "length xs = n" "chain_ok ok x xs"
        "b = chain_bytes enc x xs @ bs'" "rfold (enumerate (Suc k) xs) (\<lambda>(i, x). f i x) acc = Ok a'" "last' = last (x # xs)" by blast
    then show ?r by (intro exI [of _ "x # xs"]) simp
  next
    assume ?r
    then obtain ys where ys: "length ys = Suc n" "chain_ok ok previous ys" "bs = chain_bytes enc previous ys @ bs'"
        "rfold (enumerate k ys) (\<lambda>(i, x). f i x) a = Ok a'" "last' = last (previous # ys)" by blast
    obtain x xs where "ys = x # xs" using ys(1) by (cases ys) auto
    then show ?l using ys by (intro exI [of _ x] exI [of _ "chain_bytes enc x xs @ bs'"]) (auto simp: rbind_Ok_iff)
  qed
  finally show ?case .
qed

end

lemma body_signal_eq:
  "body_signal version previous n i bs = Ok (s, bs') \<longleftrightarrow>
    (case version of BodyV1 \<Rightarrow> body_u32 bs = Ok (s, bs') \<and> s < n
     | BodyV2 \<Rightarrow> (\<exists>e. body_var_u64 bs = Ok (e, bs') \<and> 0 \<le> int previous + unzig e \<and> int previous + unzig e < int n \<and>
         s = nat (int previous + unzig e)))"
proof (cases version)
  case BodyV1
  then show ?thesis by (auto simp: body_signal_def rbind_Ok_iff)
next
  case BodyV2
  have "body_signal BodyV2 previous n i bs = rbind (body_var_u64 bs) (\<lambda>(e, bs).
      rbind (guard (int previous + unzig e < 0 \<or> int n \<le> int previous + unzig e) (MalformedBody (OutputNotANode i n))) (\<lambda>_.
        Ok (nat (int previous + unzig e), bs)))"
    by (simp add: body_signal_def unzig_def [symmetric] Let_def split_def)
  then show ?thesis using BodyV2 by (auto simp: rbind_Ok_iff not_less not_le)
qed

lemma body_signal_Ok_iff:
  "body_signal version previous n i bs = Ok (s, bs') \<longleftrightarrow>
    (s < n \<and> signal_fits version previous s) \<and> bs = signal_bytes version previous s @ bs'"
proof (cases version)
  case BodyV1
  then show ?thesis by (auto simp: body_signal_eq body_u32_Ok_iff signal_fits_def)
next
  case BodyV2
  have "0 \<le> int previous + unzig e \<and> int previous + unzig e < int n \<and> s = nat (int previous + unzig e) \<longleftrightarrow>
      s < n \<and> e = zig (int s - int previous)" for e
    unfolding zig_inverse [symmetric] by auto
  then have "body_signal version previous n i bs = Ok (s, bs') \<longleftrightarrow>
      (\<exists>e. body_var_u64 bs = Ok (e, bs') \<and> s < n \<and> e = zig (int s - int previous))"
    by (simp add: body_signal_eq BodyV2)
  then show ?thesis by (auto simp: body_var_u64_Ok_iff signal_fits_def BodyV2)
qed

lemma decode_output_delta_eq: "decode_output_delta previous n i bs = Ok (s, bs') \<longleftrightarrow> body_signal BodyV2 previous n i bs = Ok (s, bs')"
proof -
  have "decode_output_delta previous n i bs = rbind (rd_var_u64 bs) (\<lambda>(e, bs).
      rbind (guard (int previous + unzig e < 0 \<or> int n \<le> int previous + unzig e) (OutputDelta i)) (\<lambda>_.
        Ok (nat (int previous + unzig e), bs)))"
    by (simp add: decode_output_delta_def unzig_def [symmetric] Let_def split_def)
  then show ?thesis by (auto simp: body_signal_eq rbind_Ok_iff rd_var_u64_Ok_iff body_var_u64_Ok_iff not_less not_le)
qed

lemma decode_output_delta_Ok_iff:
  "decode_output_delta previous n i bs = Ok (s, bs') \<longleftrightarrow>
    (s < n \<and> signal_fits BodyV2 previous s) \<and> bs = signal_bytes BodyV2 previous s @ bs'"
  unfolding decode_output_delta_eq by (rule body_signal_Ok_iff)

interpretation signal_table: chained_table "\<lambda>i previous. body_signal version previous n i" "signal_bytes version"
    "\<lambda>previous s. s < n \<and> signal_fits version previous s" for version n
  by unfold_locales (rule body_signal_Ok_iff)

interpretation delta_table: chained_table "\<lambda>i previous. decode_output_delta previous n i" "signal_bytes BodyV2"
    "\<lambda>previous s. s < n \<and> signal_fits BodyV2 previous s" for n
  by unfold_locales (rule decode_output_delta_Ok_iff)

lemma signals_ok_iff:
  assumes "n \<le> 2 ^ 32" and "previous < 2 ^ 32"
  shows "chain_ok (\<lambda>previous s. s < n \<and> signal_fits version previous s) previous ss \<longleftrightarrow> (\<forall>s \<in> set ss. s < n)"
  using assms(2)
proof (induction ss arbitrary: previous)
  case (Cons s ss)
  have "s < n \<Longrightarrow> signal_fits version previous s"
    using assms(1) Cons.prems zig_bound [of s previous] by (auto simp: signal_fits_def split: body_version.split)
  then show ?case using Cons.IH [of s] assms(1) by auto
qed simp

section \<open>Writing\<close>

lemma push_records_eq:
  assumes "\<forall>i < length rs. signet_record_valid len (k + i) (rs ! i)" and "k + length rs \<le> 2 ^ 32"
  shows "rfold (enumerate k rs) (\<lambda>(i, r) out. rbind (push_record version i r) (\<lambda>enc. Ok (out @ enc))) out =
    Ok (out @ concat (map (\<lambda>(i, r). record_bytes version i r) (enumerate k rs)))"
  using assms
proof (induction rs arbitrary: k out)
  case (Cons r rs)
  have "signet_record_valid len k r" "k < 2 ^ 32" using Cons.prems by force+
  then have push: "push_record version k r = Ok (record_bytes version k r)" by (rule push_record_eq)
  have "\<forall>i < length rs. signet_record_valid len (Suc k + i) (rs ! i)" using Cons.prems(1) by force
  from Cons.IH [OF this, of "out @ record_bytes version k r"] show ?case using Cons.prems(2) push by simp
qed simp

text \<open>The state of the output writer is the previous reference in version 2 and stays 0 in version 1.\<close>

definition writer_state :: "body_version \<Rightarrow> nat \<Rightarrow> int" where
  "writer_state version previous = (case version of BodyV1 \<Rightarrow> 0 | BodyV2 \<Rightarrow> int previous)"

lemma push_signal_eq:
  assumes "s < 2 ^ 32" and "previous < 2 ^ 32"
  shows "push_signal version s (out, writer_state version previous) = Ok (out @ signal_bytes version previous s, writer_state version s)"
proof (cases version)
  case BodyV1
  then show ?thesis using assms by (simp add: push_signal_def signal_push_def writer_state_def signet_checked_u32_def)
next
  case BodyV2
  have "unat (zigzag (of_int (int s - int previous))) = zig (int s - int previous)"
    using assms by (intro zigzag_eq) auto
  then show ?thesis using BodyV2 assms by (simp add: push_signal_def signal_push_def writer_state_def push_var_u64_eq del: of_int_diff)
qed

lemma push_signals_eq:
  assumes "\<forall>s \<in> set ss. s < 2 ^ 32" and "previous < 2 ^ 32"
  shows "\<exists>w. rfold ss (push_signal version) (out, writer_state version previous) = Ok (out @ chain_bytes (signal_bytes version) previous ss, w)"
  using assms
proof (induction ss arbitrary: out previous)
  case (Cons s ss)
  then show ?case
    using push_signal_eq [of s previous version out] Cons.IH [of s "out @ signal_bytes version previous s"] by simp
qed simp

section \<open>Artifacts\<close>

record artifact_content =
  ac_magic :: "byte list"
  ac_r1cs :: "byte list"
  ac_buffer :: nat
  ac_records :: "signet_record list"
  ac_signals :: "nat list"
  ac_mappings :: "input_mapping list"

definition content_valid :: "artifact_content \<Rightarrow> bool" where
  "content_valid a \<longleftrightarrow> (ac_magic a = legacy_magic \<or> ac_magic a = signet_magic) \<and> length (ac_r1cs a) = 32 \<and> ac_buffer a < 2 ^ 32 \<and>
     length (ac_records a) < 2 ^ 32 \<and> length (ac_signals a) < 2 ^ 32 \<and> length (ac_mappings a) < 2 ^ 32 \<and>
     (\<forall>i < length (ac_records a). signet_record_valid (ac_buffer a) i (ac_records a ! i)) \<and>
     (\<forall>s \<in> set (ac_signals a). s < length (ac_records a)) \<and>
     (\<forall>m \<in> set (ac_mappings a). mapping_fits m)"

definition head_bytes :: "byte list \<Rightarrow> body_version \<Rightarrow> byte list \<Rightarrow> nat \<Rightarrow> nat \<Rightarrow> nat \<Rightarrow> nat \<Rightarrow> byte list" where
  "head_bytes magic version r1cs nodes signals mappings buffer =
     magic @ nat_to_le 2 (version_tag version) @ nat_to_le 2 field_bn254_fr @ nat_to_le 4 header_size @
     r1cs @ nat_to_le 4 nodes @ nat_to_le 4 signals @ nat_to_le 4 mappings @ nat_to_le 4 buffer"

definition artifact_head :: "body_version \<Rightarrow> artifact_content \<Rightarrow> byte list" where
  "artifact_head version a = head_bytes (ac_magic a) version (ac_r1cs a) (length (ac_records a)) (length (ac_signals a))
     (length (ac_mappings a)) (ac_buffer a)"

definition artifact_bytes :: "body_version \<Rightarrow> artifact_content \<Rightarrow> byte list" where
  "artifact_bytes version a = artifact_head version a @ table_bytes (record_bytes version) (ac_records a) @
     chain_bytes (signal_bytes version) 0 (ac_signals a) @ concat (map mapping_bytes (ac_mappings a))"

text \<open>Any sixteen bytes are an entry of the input table.\<close>

lemma mapping_table_bytes: "length t = 16 * n \<longleftrightarrow> (\<exists>ms. length ms = n \<and> (\<forall>m \<in> set ms. mapping_fits m) \<and> t = concat (map mapping_bytes ms))"
proof
  show "length t = 16 * n \<Longrightarrow> \<exists>ms. length ms = n \<and> (\<forall>m \<in> set ms. mapping_fits m) \<and> t = concat (map mapping_bytes ms)"
  proof (induction n arbitrary: t)
    case (Suc n)
    have "\<exists>m bs. read_mapping 0 t = Ok (m, bs)" using Suc.prems by (simp add: read_mapping_def pr_uint_def pr_array_def)
    then obtain m bs where m: "mapping_fits m" "t = mapping_bytes m @ bs" by (auto simp: read_mapping_Ok_iff)
    then have "length bs = 16 * n" using Suc.prems by (simp add: mapping_bytes_def)
    from Suc.IH [OF this] obtain ms where "length ms = n" "\<forall>m \<in> set ms. mapping_fits m" "bs = concat (map mapping_bytes ms)" by blast
    then show ?case using m by (intro exI [of _ "m # ms"]) simp
  qed simp
  assume "\<exists>ms. length ms = n \<and> (\<forall>m \<in> set ms. mapping_fits m) \<and> t = concat (map mapping_bytes ms)"
  then show "length t = 16 * n" by (auto simp: length_concat_const [of mapping_bytes 16] table_lengths)
qed

section \<open>The header\<close>

lemma header_slices:
  assumes "length h = 64"
  shows "h = take 8 h @ take 2 (drop 8 h) @ take 2 (drop 10 h) @ take 4 (drop 12 h) @ take 32 (drop 16 h) @ take 4 (drop 48 h) @
    take 4 (drop 52 h) @ take 4 (drop 56 h) @ take 4 (drop 60 h)"
proof -
  have split: "drop k h = take n (drop k h) @ drop (n + k) h" for k n by (simp flip: drop_drop)
  have "h = take 8 h @ drop 8 h" by simp
  also have "drop 8 h = take 2 (drop 8 h) @ take 2 (drop 10 h) @ take 4 (drop 12 h) @ take 32 (drop 16 h) @ take 4 (drop 48 h) @
      take 4 (drop 52 h) @ take 4 (drop 56 h) @ drop 60 h"
    using split [of 8 2] split [of 10 2] split [of 12 4] split [of 16 32] split [of 48 4] split [of 52 4] split [of 56 4] by simp
  finally show ?thesis using assms by simp
qed

lemma le_slice: "length v = k \<Longrightarrow> nat_to_le k (nat_of_le v) = v"
  by auto

lemma describe_Ok_iff:
  "describe bs = Ok d \<longleftrightarrow> 64 \<le> length bs \<and>
    (take 8 bs = legacy_magic \<and> ah_envelope d = Cvywit \<or> take 8 bs = signet_magic \<and> ah_envelope d = Signet) \<and>
    nat_of_le (take 2 (drop 10 bs)) = field_bn254_fr \<and> ah_version d = nat_of_le (take 2 (drop 8 bs)) \<and>
    (ah_version d = format_version_v1 \<or> ah_version d = format_version_v2)"
proof -
  have "legacy_magic \<noteq> signet_magic" by (simp add: legacy_magic_def signet_magic_def)
  then show ?thesis
    by (cases d) (auto simp: describe_def rbind_Ok_iff Let_def not_less header_size_def)
qed

definition magic_ok :: "byte list \<Rightarrow> bool" where
  "magic_ok magic \<longleftrightarrow> magic = legacy_magic \<or> magic = signet_magic"

lemma length_magic: "magic_ok magic \<Longrightarrow> length magic = 8"
  by (auto simp: magic_ok_def legacy_magic_def signet_magic_def)

lemma version_tag_values: "version_tag BodyV1 = 1" "version_tag BodyV2 = 2" "version_tag version < 256 ^ 2"
  by (simp_all add: format_version_v1_def format_version_v2_def) (cases version; simp add: format_version_v1_def format_version_v2_def)

text \<open>What the transcoder learns from the first 64 bytes.\<close>

definition head_read ::
    "byte list \<Rightarrow> body_version \<Rightarrow> byte list \<Rightarrow> byte list \<Rightarrow> nat \<Rightarrow> nat \<Rightarrow> nat \<Rightarrow> nat \<Rightarrow> bool" where
  "head_read bs version h rest nodes signals mappings buffer \<longleftrightarrow>
     (\<exists>d. describe bs = Ok d \<and> ah_version d = version_tag version) \<and> body_take header_size bs = Ok (h, rest) \<and>
     read_u32_at h 12 = Ok header_size \<and> read_u32_at h 48 = Ok nodes \<and> read_u32_at h 52 = Ok signals \<and>
     read_u32_at h 56 = Ok mappings \<and> read_u32_at h 60 = Ok buffer"

lemma read_u32_at_Ok_iff: "read_u32_at h k = Ok n \<longleftrightarrow> k + 4 \<le> length h \<and> n = nat_of_le (take 4 (drop k h))"
  by (auto simp: read_u32_at_def rassert_def)

lemma head_read_iff:
  "head_read bs version h rest nodes signals mappings buffer \<longleftrightarrow>
    (\<exists>magic r1cs. magic_ok magic \<and> length r1cs = 32 \<and> nodes < 2 ^ 32 \<and> signals < 2 ^ 32 \<and> mappings < 2 ^ 32 \<and> buffer < 2 ^ 32 \<and>
      h = head_bytes magic version r1cs nodes signals mappings buffer \<and> bs = h @ rest)" (is "?l \<longleftrightarrow> ?r")
proof
  assume ?l
  then obtain d where d: "describe bs = Ok d" "ah_version d = version_tag version" and h: "length h = 64" "bs = h @ rest"
      and u: "nat_of_le (take 4 (drop 12 h)) = header_size" "nodes = nat_of_le (take 4 (drop 48 h))"
        "signals = nat_of_le (take 4 (drop 52 h))" "mappings = nat_of_le (take 4 (drop 56 h))" "buffer = nat_of_le (take 4 (drop 60 h))"
    by (auto simp: head_read_def body_take_Ok_iff read_u32_at_Ok_iff header_size_def)
  have magic: "magic_ok (take 8 h)" and tag: "nat_of_le (take 2 (drop 8 h)) = version_tag version"
      and field: "nat_of_le (take 2 (drop 10 h)) = field_bn254_fr"
    using d h by (auto simp: describe_Ok_iff magic_ok_def)
  have small: "nat_of_le v < 2 ^ 32" if "length v = 4" for v :: "byte list" using nat_of_le_bound [of v] that by simp
  have le: "v = nat_to_le k n" if "nat_of_le v = n" "length v = k" for v :: "byte list" and k n using that by auto
  have "h = head_bytes (take 8 h) version (take 32 (drop 16 h)) nodes signals mappings buffer"
    using header_slices [OF h(1)] le [OF tag] le [OF field] le [OF u(1)] le [OF u(2) [symmetric]] le [OF u(3) [symmetric]]
      le [OF u(4) [symmetric]] le [OF u(5) [symmetric]] h(1)
    by (simp add: head_bytes_def)
  then show ?r using magic h u small by (intro exI [of _ "take 8 h"] exI [of _ "take 32 (drop 16 h)"]) simp
next
  assume ?r
  then obtain magic r1cs where m: "magic_ok magic" "length r1cs = 32" "nodes < 2 ^ 32" "signals < 2 ^ 32" "mappings < 2 ^ 32"
      "buffer < 2 ^ 32" "h = head_bytes magic version r1cs nodes signals mappings buffer" "bs = h @ rest" by blast
  note lens = length_magic [OF m(1)] m(2)
  have len: "length h = 64" by (simp add: m(7) head_bytes_def lens)
  have at: "nat_of_le (take 2 (drop 8 h)) = version_tag version" "nat_of_le (take 2 (drop 10 h)) = field_bn254_fr"
      "nat_of_le (take 4 (drop 12 h)) = header_size" "nat_of_le (take 4 (drop 48 h)) = nodes"
      "nat_of_le (take 4 (drop 52 h)) = signals" "nat_of_le (take 4 (drop 56 h)) = mappings" "nat_of_le (take 4 (drop 60 h)) = buffer"
    using m(3-6) version_tag_values(3) [of version]
    by (simp_all add: m(7) head_bytes_def lens field_bn254_fr_def header_size_def)
  have "take 8 h = magic" by (simp add: m(7) head_bytes_def lens)
  then have "\<exists>d. describe bs = Ok d \<and> ah_version d = version_tag version"
    using m(1) at(1,2) len version_tag_values
    by (cases version; intro exI [of _ "\<lparr>ah_envelope = if magic = legacy_magic then Cvywit else Signet, ah_version = version_tag version\<rparr>"])
      (auto simp: describe_Ok_iff m(8) magic_ok_def legacy_magic_def signet_magic_def)
  then show ?l using len at m(8) by (simp add: head_read_def body_take_Ok_iff read_u32_at_Ok_iff header_size_def)
qed

section \<open>The transcoder\<close>

definition transcode_body ::
    "body_version \<Rightarrow> body_version \<Rightarrow> byte list \<Rightarrow> byte list \<Rightarrow> nat \<Rightarrow> nat \<Rightarrow> nat \<Rightarrow> nat \<Rightarrow> (byte list, signet_error) result" where
  "transcode_body source target out bs nodes signals mappings buffer =
     rbind (rfold [0..<nodes] (transcode_node source target buffer) (bs, out)) (\<lambda>(bs, out).
     rbind (rfold [0..<signals] (transcode_signal source target nodes) (bs, (out, 0), 0)) (\<lambda>(bs, (out, written), previous).
     rbind (ok_or (checked_mul mappings input_mapping_bytes) (MalformedBody InputTableOverflow)) (\<lambda>table_bytes.
     rbind (body_take table_bytes bs) (\<lambda>(table, bs).
     rbind (guard (bs \<noteq> []) (MalformedBody BytesFollowTable)) (\<lambda>_. Ok (out @ table))))))"

lemma transcode_Ok_head:
  "transcode bs target = Ok out \<longleftrightarrow>
    (\<exists>source h rest nodes signals mappings buffer. head_read bs source h rest nodes signals mappings buffer \<and>
      transcode_body source target (take 8 h @ nat_to_le 2 (version_tag target) @ drop 10 h) rest nodes signals mappings buffer = Ok out)"
  (is "?l \<longleftrightarrow> ?r")
proof
  assume ?l
  then obtain d source h rest nodes signals mappings buffer where d: "describe bs = Ok d"
      and source: "(if ah_version d = format_version_v1 then Ok BodyV1
            else if ah_version d = format_version_v2 then Ok BodyV2 else Err NotAnArtifact) = Ok source"
      and h: "body_take header_size bs = Ok (h, rest)" "read_u32_at h 12 = Ok header_size"
        "read_u32_at h 48 = Ok nodes" "read_u32_at h 52 = Ok signals" "read_u32_at h 56 = Ok mappings" "read_u32_at h 60 = Ok buffer"
      and body: "transcode_body source target (take 8 h @ nat_to_le 2 (version_tag target) @ drop 10 h) rest nodes signals mappings buffer = Ok out"
    by (auto simp: transcode_def rbind_Ok_iff [of "describe bs"] rbind_Ok_iff [of "body_take n b" for n b] rbind_Ok_iff [of "read_u32_at h k" for h k]
      rbind_Ok_iff [of "guard b e" for b e] rbind_Ok_iff [of "if b then x else y" for b x y] Let_def transcode_body_def)
  have "ah_version d = version_tag source" using source by (auto split: if_splits)
  then have "head_read bs source h rest nodes signals mappings buffer" using d h by (auto simp: head_read_def)
  then show ?r using body by blast
next
  assume ?r
  then obtain source h rest nodes signals mappings buffer where head: "head_read bs source h rest nodes signals mappings buffer"
      and body: "transcode_body source target (take 8 h @ nat_to_le 2 (version_tag target) @ drop 10 h) rest nodes signals mappings buffer = Ok out"
    by blast
  then obtain d where d: "describe bs = Ok d" "ah_version d = version_tag source" by (auto simp: head_read_def)
  have "(if ah_version d = format_version_v1 then Ok BodyV1
      else if ah_version d = format_version_v2 then Ok BodyV2 else Err NotAnArtifact) = (Ok source :: (_, signet_error) result)"
    using d(2) by (cases source) (simp_all add: format_version_v1_def format_version_v2_def)
  then show ?l using head d(1) body by (simp add: transcode_def head_read_def transcode_body_def Let_def)
qed

lemma transcode_body_Ok_iff:
  assumes n: "nodes < 2 ^ 32" and m: "mappings < 2 ^ 32"
  shows "transcode_body source target out bs nodes signals mappings buffer = Ok out' \<longleftrightarrow>
    (\<exists>rs ss ms. length rs = nodes \<and> length ss = signals \<and> length ms = mappings \<and>
      (\<forall>i < length rs. signet_record_valid buffer i (rs ! i)) \<and> (\<forall>s \<in> set ss. s < nodes) \<and> (\<forall>m \<in> set ms. mapping_fits m) \<and>
      bs = table_bytes (record_bytes source) rs @ chain_bytes (signal_bytes source) 0 ss @ concat (map mapping_bytes ms) \<and>
      out' = out @ table_bytes (record_bytes target) rs @ chain_bytes (signal_bytes target) 0 ss @ concat (map mapping_bytes ms))"
proof -
  let ?rec = "\<lambda>i r. signet_record_valid buffer i r \<and> record_fits source i r"
  have nodes_loop: "rfold [0..<nodes] (transcode_node source target buffer) (bs, out) = Ok (bs', out') \<longleftrightarrow>
      (\<exists>rs. length rs = nodes \<and> (\<forall>i < length rs. signet_record_valid buffer i (rs ! i)) \<and>
        bs = table_bytes (record_bytes source) rs @ bs' \<and> out' = out @ table_bytes (record_bytes target) rs)" for bs' out'
  proof -
    have loop: "rfold [0..<nodes] (transcode_node source target buffer) (bs, out) = Ok (bs', out') \<longleftrightarrow>
        (\<exists>rs. length rs = nodes \<and> entries_ok ?rec rs \<and> bs = table_bytes (record_bytes source) rs @ bs' \<and>
          rfold (enumerate 0 rs) (\<lambda>(i, r) out. rbind (push_record target i r) (\<lambda>enc. Ok (out @ enc))) out = Ok out')"
      by (rule record_table.loop_Ok_iff) (simp add: transcode_node_def)
    have ok: "length rs = nodes \<Longrightarrow> entries_ok ?rec rs \<longleftrightarrow> (\<forall>i < length rs. signet_record_valid buffer i (rs ! i))" for rs
      using n record_fits_small [of _ buffer] by (auto simp: entries_ok_def)
    have push: "length rs = nodes \<Longrightarrow> \<forall>i < length rs. signet_record_valid buffer i (rs ! i) \<Longrightarrow>
        rfold (enumerate 0 rs) (\<lambda>(i, r) out. rbind (push_record target i r) (\<lambda>enc. Ok (out @ enc))) out =
          Ok (out @ table_bytes (record_bytes target) rs)" for rs
      using push_records_eq [of rs buffer 0 target out] n by (simp add: table_bytes_def)
    show ?thesis unfolding loop by (rule ex_cong1) (use ok push in auto)
  qed
  have signals_loop: "(\<exists>w p. rfold [0..<signals] (transcode_signal source target nodes) (bs, (out, 0), 0) = Ok (bs', (out', w), p)) \<longleftrightarrow>
      (\<exists>ss. length ss = signals \<and> (\<forall>s \<in> set ss. s < nodes) \<and> bs = chain_bytes (signal_bytes source) 0 ss @ bs' \<and>
        out' = out @ chain_bytes (signal_bytes target) 0 ss)" for bs out bs' out'
  proof -
    let ?ok = "\<lambda>previous s. s < nodes \<and> signal_fits source previous s"
    have loop: "rfold [0..<0 + signals] (transcode_signal source target nodes) (bs, (out, 0), 0) = Ok (bs', (out', w), p) \<longleftrightarrow>
        (\<exists>ss. length ss = signals \<and> chain_ok ?ok 0 ss \<and> bs = chain_bytes (signal_bytes source) 0 ss @ bs' \<and>
          rfold (enumerate 0 ss) (\<lambda>(i, s). push_signal target s) (out, 0) = Ok (out', w) \<and> p = last (0 # ss))" for w p
      by (rule signal_table.loop_Ok_iff [where f = "\<lambda>i. push_signal target"])
        (auto simp: transcode_signal_def intro!: rbind_cong split: prod.splits)
    have enumerated: "rfold (enumerate k ss) (\<lambda>(i, s). push_signal target s) st = rfold ss (push_signal target) st" for k ss st
      by (induction ss arbitrary: k st) (auto intro!: rbind_cong)
    have ok: "chain_ok ?ok 0 ss \<longleftrightarrow> (\<forall>s \<in> set ss. s < nodes)" for ss using n by (intro signals_ok_iff) auto
    have push: "\<exists>w. rfold ss (push_signal target) (out, 0) = Ok (out @ chain_bytes (signal_bytes target) 0 ss, w)"
      if "\<forall>s \<in> set ss. s < nodes" for ss
    proof -
      have "\<forall>s \<in> set ss. s < 2 ^ 32" using that n by auto
      from push_signals_eq [OF this, of 0 target out] show ?thesis by (simp add: writer_state_def split: body_version.splits)
    qed
    show ?thesis
    proof
      assume "\<exists>w p. rfold [0..<signals] (transcode_signal source target nodes) (bs, (out, 0), 0) = Ok (bs', (out', w), p)"
      then obtain w p where "rfold [0..<0 + signals] (transcode_signal source target nodes) (bs, (out, 0), 0) = Ok (bs', (out', w), p)"
        unfolding add_0 by blast
      then obtain ss where ss: "length ss = signals" "\<forall>s \<in> set ss. s < nodes" "bs = chain_bytes (signal_bytes source) 0 ss @ bs'"
          "rfold ss (push_signal target) (out, 0) = Ok (out', w)"
        unfolding loop enumerated ok by blast
      then show "\<exists>ss. length ss = signals \<and> (\<forall>s \<in> set ss. s < nodes) \<and> bs = chain_bytes (signal_bytes source) 0 ss @ bs' \<and>
          out' = out @ chain_bytes (signal_bytes target) 0 ss"
        using push [OF ss(2)] by (intro exI [of _ ss]) auto
    next
      assume "\<exists>ss. length ss = signals \<and> (\<forall>s \<in> set ss. s < nodes) \<and> bs = chain_bytes (signal_bytes source) 0 ss @ bs' \<and>
          out' = out @ chain_bytes (signal_bytes target) 0 ss"
      then obtain ss where ss: "length ss = signals" "\<forall>s \<in> set ss. s < nodes" "bs = chain_bytes (signal_bytes source) 0 ss @ bs'"
          "out' = out @ chain_bytes (signal_bytes target) 0 ss" by blast
      obtain w where "rfold ss (push_signal target) (out, 0) = Ok (out', w)" using push [OF ss(2)] ss(4) by blast
      then have "rfold [0..<0 + signals] (transcode_signal source target nodes) (bs, (out, 0), 0) = Ok (bs', (out', w), last (0 # ss))"
        unfolding loop enumerated ok using ss by blast
      then show "\<exists>w p. rfold [0..<signals] (transcode_signal source target nodes) (bs, (out, 0), 0) = Ok (bs', (out', w), p)"
        unfolding add_0 by blast
    qed
  qed
  have table: "(\<exists>tb t. checked_mul mappings input_mapping_bytes = Some tb \<and> body_take tb bs = Ok (t, []) \<and> out' = out @ t) \<longleftrightarrow>
      (\<exists>ms. length ms = mappings \<and> (\<forall>m \<in> set ms. mapping_fits m) \<and> bs = concat (map mapping_bytes ms) \<and> out' = out @ bs)" for bs out out'
    using mapping_table_bytes [of bs mappings] m
    by (auto simp: checked_mul_def usize_bits_def input_mapping_bytes_def body_take_Ok_iff mult.commute)
  have "transcode_body source target out bs nodes signals mappings buffer = Ok out' \<longleftrightarrow>
      (\<exists>b1 o1 b2 o2. rfold [0..<nodes] (transcode_node source target buffer) (bs, out) = Ok (b1, o1) \<and>
        (\<exists>w p. rfold [0..<signals] (transcode_signal source target nodes) (b1, (o1, 0), 0) = Ok (b2, (o2, w), p)) \<and>
        (\<exists>tb t. checked_mul mappings input_mapping_bytes = Some tb \<and> body_take tb b2 = Ok (t, []) \<and> out' = o2 @ t))"
    by (auto simp: transcode_body_def rbind_Ok_iff)
  also have "\<dots> \<longleftrightarrow> (\<exists>rs ss ms. length rs = nodes \<and> length ss = signals \<and> length ms = mappings \<and>
      (\<forall>i < length rs. signet_record_valid buffer i (rs ! i)) \<and> (\<forall>s \<in> set ss. s < nodes) \<and> (\<forall>m \<in> set ms. mapping_fits m) \<and>
      bs = table_bytes (record_bytes source) rs @ chain_bytes (signal_bytes source) 0 ss @ concat (map mapping_bytes ms) \<and>
      out' = out @ table_bytes (record_bytes target) rs @ chain_bytes (signal_bytes target) 0 ss @ concat (map mapping_bytes ms))"
    (is "?l \<longleftrightarrow> ?r")
    unfolding nodes_loop signals_loop table
  proof (intro iffI; elim exE conjE)
    fix b1 o1 b2 o2 rs ss ms
    assume "length rs = nodes" "\<forall>i < length rs. signet_record_valid buffer i (rs ! i)" "bs = table_bytes (record_bytes source) rs @ b1"
      "o1 = out @ table_bytes (record_bytes target) rs" "length ss = signals" "\<forall>s \<in> set ss. s < nodes"
      "b1 = chain_bytes (signal_bytes source) 0 ss @ b2" "o2 = o1 @ chain_bytes (signal_bytes target) 0 ss" "length ms = mappings"
      "\<forall>m \<in> set ms. mapping_fits m" "b2 = concat (map mapping_bytes ms)" "out' = o2 @ b2"
    then show ?r by (intro exI [of _ rs] exI [of _ ss] exI [of _ ms]) simp
  next
    fix rs ss ms
    assume a: "length rs = nodes" "length ss = signals" "length ms = mappings"
      "\<forall>i < length rs. signet_record_valid buffer i (rs ! i)" "\<forall>s \<in> set ss. s < nodes" "\<forall>m \<in> set ms. mapping_fits m"
      "bs = table_bytes (record_bytes source) rs @ chain_bytes (signal_bytes source) 0 ss @ concat (map mapping_bytes ms)"
      "out' = out @ table_bytes (record_bytes target) rs @ chain_bytes (signal_bytes target) 0 ss @ concat (map mapping_bytes ms)"
    show "\<exists>b1 o1 b2 o2.
        (\<exists>rs. length rs = nodes \<and> (\<forall>i < length rs. signet_record_valid buffer i (rs ! i)) \<and>
          bs = table_bytes (record_bytes source) rs @ b1 \<and> o1 = out @ table_bytes (record_bytes target) rs) \<and>
        (\<exists>ss. length ss = signals \<and> (\<forall>s \<in> set ss. s < nodes) \<and> b1 = chain_bytes (signal_bytes source) 0 ss @ b2 \<and>
          o2 = o1 @ chain_bytes (signal_bytes target) 0 ss) \<and>
        (\<exists>ms. length ms = mappings \<and> (\<forall>m \<in> set ms. mapping_fits m) \<and> b2 = concat (map mapping_bytes ms) \<and> out' = o2 @ b2)"
      by (intro exI [of _ "chain_bytes (signal_bytes source) 0 ss @ concat (map mapping_bytes ms)"]
          exI [of _ "out @ table_bytes (record_bytes target) rs"] exI [of _ "concat (map mapping_bytes ms)"]
          exI [of _ "out @ table_bytes (record_bytes target) rs @ chain_bytes (signal_bytes target) 0 ss"] conjI
          exI [of _ rs] exI [of _ ss] exI [of _ ms]) (simp_all add: a)
  qed
  finally show ?thesis .
qed

lemma head_bytes_retarget:
  assumes "magic_ok magic" and "length r1cs = 32"
  shows "take 8 (head_bytes magic version r1cs n s m b) @ nat_to_le 2 (version_tag target) @ drop 10 (head_bytes magic version r1cs n s m b) =
    head_bytes magic target r1cs n s m b"
  using assms length_magic [OF assms(1)] by (simp add: head_bytes_def)

lemma transcode_Ok_iff:
  "transcode bs target = Ok out \<longleftrightarrow>
    (\<exists>version a. content_valid a \<and> bs = artifact_bytes version a \<and> out = artifact_bytes target a)" (is "?l \<longleftrightarrow> ?r")
proof
  assume ?l
  then obtain source h rest nodes signals mappings buffer where head: "head_read bs source h rest nodes signals mappings buffer"
      and body: "transcode_body source target (take 8 h @ nat_to_le 2 (version_tag target) @ drop 10 h) rest nodes signals mappings buffer = Ok out"
    unfolding transcode_Ok_head by blast
  obtain magic r1cs where m: "magic_ok magic" "length r1cs = 32" "nodes < 2 ^ 32" "signals < 2 ^ 32" "mappings < 2 ^ 32" "buffer < 2 ^ 32"
      "h = head_bytes magic source r1cs nodes signals mappings buffer" "bs = h @ rest"
    using head unfolding head_read_iff by blast
  obtain rs ss ms where b: "length rs = nodes" "length ss = signals" "length ms = mappings"
      "\<forall>i < length rs. signet_record_valid buffer i (rs ! i)" "\<forall>s \<in> set ss. s < nodes" "\<forall>m \<in> set ms. mapping_fits m"
      "rest = table_bytes (record_bytes source) rs @ chain_bytes (signal_bytes source) 0 ss @ concat (map mapping_bytes ms)"
      "out = (take 8 h @ nat_to_le 2 (version_tag target) @ drop 10 h) @ table_bytes (record_bytes target) rs @
        chain_bytes (signal_bytes target) 0 ss @ concat (map mapping_bytes ms)"
    using body unfolding transcode_body_Ok_iff [OF m(3,5)] by blast
  let ?a = "\<lparr>ac_magic = magic, ac_r1cs = r1cs, ac_buffer = buffer, ac_records = rs, ac_signals = ss, ac_mappings = ms\<rparr>"
  have "content_valid ?a" using m b by (simp add: content_valid_def magic_ok_def)
  moreover have "bs = artifact_bytes source ?a" using m b by (simp add: artifact_bytes_def artifact_head_def)
  moreover have "out = artifact_bytes target ?a"
    using b head_bytes_retarget [OF m(1,2)] by (simp add: m(7) artifact_bytes_def artifact_head_def)
  ultimately show ?r by blast
next
  assume ?r
  then obtain source a where a: "content_valid a" "bs = artifact_bytes source a" "out = artifact_bytes target a" by blast
  have v: "magic_ok (ac_magic a)" "length (ac_r1cs a) = 32" "length (ac_records a) < 2 ^ 32" "length (ac_signals a) < 2 ^ 32"
      "length (ac_mappings a) < 2 ^ 32" "ac_buffer a < 2 ^ 32"
    using a(1) by (simp_all add: content_valid_def magic_ok_def)
  let ?rest = "table_bytes (record_bytes source) (ac_records a) @ chain_bytes (signal_bytes source) 0 (ac_signals a) @
      concat (map mapping_bytes (ac_mappings a))"
  have "head_read bs source (artifact_head source a) ?rest (length (ac_records a)) (length (ac_signals a)) (length (ac_mappings a)) (ac_buffer a)"
    unfolding head_read_iff using v by (intro exI [of _ "ac_magic a"] exI [of _ "ac_r1cs a"]) (simp add: a(2) artifact_bytes_def artifact_head_def)
  moreover have "transcode_body source target (take 8 (artifact_head source a) @ nat_to_le 2 (version_tag target) @ drop 10 (artifact_head source a))
      ?rest (length (ac_records a)) (length (ac_signals a)) (length (ac_mappings a)) (ac_buffer a) = Ok out"
    unfolding transcode_body_Ok_iff [OF v(3,5)] artifact_head_def head_bytes_retarget [OF v(1,2)]
    using a(1) by (intro exI [of _ "ac_records a"] exI [of _ "ac_signals a"] exI [of _ "ac_mappings a"])
      (simp add: content_valid_def a(3) artifact_bytes_def artifact_head_def)
  ultimately show ?l unfolding transcode_Ok_head by blast
qed

end
