(* ===== verification/Signet_Graph.thy ===== *)
theory Signet_Graph
  imports Signet_Artifact
begin

text \<open>
  The evaluator's parser accepts exactly the artifacts whose content is a well-formed graph
  within the limits, and reads that graph from either body version; so transcoding and
  exporting preserve what a graph computes.
\<close>

section \<open>Records\<close>

fun signet_of :: "node_record \<Rightarrow> signet_record" where
  "signet_of (RInput input) = SInput input"
| "signet_of (RConstant v) = SConstant v"
| "signet_of (ROperation operation left right) = SOperation (operation_tag operation) left right"
| "signet_of (RInverse source) = SInverse source"

lemma node_record_of_signet [simp]: "node_record_of (signet_of r) = r"
  by (cases r) (simp_all add: operation_tag_inverse)

lemma tag_of_operation: "tag < 23 \<Longrightarrow> operation_tag (the (map_of wire_operations tag)) = tag"
  using operation_of_tag [of tag 0 "the (map_of wire_operations tag)"]
    operation_from_tag_Ok_iff [of tag 0 "the (map_of wire_operations tag)"] by simp

lemma signet_of_node_record: "signet_record_valid len i r \<Longrightarrow> signet_of (node_record_of r) = r"
  by (cases r) (simp_all add: tag_of_operation)

lemma record_ok_signet: "signet_record_valid len i (signet_of r) \<longleftrightarrow> record_ok len i r"
  by (cases r) (auto simp: operation_tag_less)

lemma parser_record_Ok_iff:
  "read_node_record (parser_version version) i len bs = Ok (r, bs') \<longleftrightarrow>
    (signet_record_valid len i (signet_of r) \<and> record_fits version i (signet_of r)) \<and> bs = record_bytes version i (signet_of r) @ bs'"
  unfolding read_node_record_Ok_iff using signet_of_node_record by (metis node_record_of_signet)

interpretation node_table: wire_table "\<lambda>i. read_node_record (parser_version version) i len"
    "\<lambda>i r. record_bytes version i (signet_of r)"
    "\<lambda>i r. signet_record_valid len i (signet_of r) \<and> record_fits version i (signet_of r)" for version len
  by unfold_locales (rule parser_record_Ok_iff)

lemma table_bytes_map: "table_bytes enc (map f xs) = table_bytes (\<lambda>i x. enc i (f x)) xs"
  by (induction xs rule: rev_induct) (simp_all add: table_Nil table_snoc)

lemma reads_Ok_iff:
  assumes "n < 2 ^ 32"
  shows "reads (parser_version version) len n bs rs bs' \<longleftrightarrow>
    length rs = n \<and> (\<forall>i < length rs. record_ok len i (rs ! i)) \<and> bs = table_bytes (record_bytes version) (map signet_of rs) @ bs'"
proof -
  have "reads (parser_version version) len n bs rs bs' \<longleftrightarrow>
      length rs = n \<and> entries_ok (\<lambda>i r. signet_record_valid len i (signet_of r) \<and> record_fits version i (signet_of r)) rs \<and>
      bs = table_bytes (\<lambda>i r. record_bytes version i (signet_of r)) rs @ bs'"
    unfolding reads_def by (rule node_table.collect_Ok_iff) simp
  moreover have "entries_ok (\<lambda>i r. signet_record_valid len i (signet_of r) \<and> record_fits version i (signet_of r)) rs \<longleftrightarrow>
      (\<forall>i < length rs. record_ok len i (rs ! i))" if "length rs = n"
    using assms that record_fits_small [of _ len] by (auto simp: entries_ok_def record_ok_signet)
  ultimately show ?thesis by (auto simp: table_bytes_map)
qed

section \<open>Header and tables\<close>

lemma read_version_Ok_iff: "read_version n = Ok v \<longleftrightarrow> (\<exists>version. n = version_tag version \<and> v = parser_version version)"
proof
  show "read_version n = Ok v \<Longrightarrow> \<exists>version. n = version_tag version \<and> v = parser_version version"
    by (auto simp: read_version_def split: if_splits intro: exI [of _ BodyV1] exI [of _ BodyV2])
  assume "\<exists>version. n = version_tag version \<and> v = parser_version version"
  then obtain version where "n = version_tag version" "v = parser_version version" by blast
  then show "read_version n = Ok v" by (cases version) (simp_all add: read_version_def format_version_v1_def format_version_v2_def)
qed

definition header_ok :: "limits \<Rightarrow> header \<Rightarrow> bool" where
  "header_ok limits h \<longleftrightarrow> magic_ok (hd_magic h) \<and> length (hd_r1cs_sha256 h) = 32 \<and>
     0 < hd_node_count h \<and> hd_node_count h \<le> lm_nodes limits \<and> hd_node_count h < 2 ^ 32 \<and>
     0 < hd_signal_count h \<and> hd_signal_count h \<le> lm_signals limits \<and> hd_signal_count h < 2 ^ 32 \<and>
     hd_input_mapping_count h \<le> lm_input_mappings limits \<and> hd_input_mapping_count h < 2 ^ 32 \<and>
     0 < hd_input_buffer_len h \<and> hd_input_buffer_len h \<le> lm_input_values limits \<and> hd_input_buffer_len h < 2 ^ 32"

lemma read_header_Ok_iff:
  "read_header limits bs = Ok (h, bs') \<longleftrightarrow>
    (\<exists>version. hd_version h = parser_version version \<and> header_ok limits h \<and>
      bs = head_bytes (hd_magic h) version (hd_r1cs_sha256 h) (hd_node_count h) (hd_signal_count h) (hd_input_mapping_count h)
        (hd_input_buffer_len h) @ bs')" (is "?l \<longleftrightarrow> ?r")
proof
  assume ?l
  then obtain version where "hd_version h = parser_version version" and
      "header_ok limits h \<and> bs = head_bytes (hd_magic h) version (hd_r1cs_sha256 h) (hd_node_count h) (hd_signal_count h)
        (hd_input_mapping_count h) (hd_input_buffer_len h) @ bs'"
    by (cases h) (auto simp: read_header_def rbind_Ok_iff rd_take_Ok_iff rd_uints_Ok_iff checked_count_def read_version_Ok_iff
      header_ok_def magic_ok_def head_bytes_def field_bn254_fr_def header_size_def)
  then show ?r by blast
next
  assume ?r
  then obtain version where h: "hd_version h = parser_version version" "header_ok limits h"
      "bs = head_bytes (hd_magic h) version (hd_r1cs_sha256 h) (hd_node_count h) (hd_signal_count h) (hd_input_mapping_count h)
        (hd_input_buffer_len h) @ bs'" by blast
  have magic: "length (hd_magic h) = 8" "hd_magic h = legacy_magic \<or> hd_magic h = signet_magic"
    using h(2) length_magic by (auto simp: header_ok_def magic_ok_def)
  have version: "read_version (version_tag version) = Ok (parser_version version)" using read_version_Ok_iff by blast
  have u16: "rd_u16 (nat_to_le 2 n @ bs) = Ok (n, bs)" if "n < 2 ^ 16" for n bs using that by (simp add: rd_uints_Ok_iff)
  have take: "length v = k \<Longrightarrow> rd_take k (v @ bs) = Ok (v, bs)" for k v bs by (simp add: rd_take_Ok_iff)
  have "version_tag version < 2 ^ 16" using version_tag_values(3) [of version] by simp
  then show ?l
    using h(2) magic version unfolding h(3)
    by (cases h) (simp add: read_header_def head_bytes_def take u16 read_eval checked_count_def header_ok_def h(1) [symmetric]
      field_bn254_fr_def header_size_def guard_def h(1))
qed

lemma chain_v1: "chain_bytes (signal_bytes BodyV1) previous ss = concat (map (nat_to_le 4) ss)"
  by (induction ss arbitrary: previous) simp_all

lemma read_output_references_Ok_iff:
  assumes n: "hd_node_count h < 2 ^ 32" and version: "hd_version h = parser_version version"
  shows "read_output_references h bs = Ok (ss, bs') \<longleftrightarrow>
    length ss = hd_signal_count h \<and> (\<forall>s \<in> set ss. s < hd_node_count h) \<and> bs = chain_bytes (signal_bytes version) 0 ss @ bs'"
proof (cases version)
  case BodyV1
  let ?dec = "\<lambda>i bs. rbind (rd_u32 bs) (\<lambda>(reference, bs).
      rbind (guard (hd_node_count h \<le> reference) (OutputReference i reference)) (\<lambda>_. Ok (reference, bs)))"
  have "wire_table ?dec (\<lambda>i. nat_to_le 4) (\<lambda>i s. s < hd_node_count h)"
    using n by unfold_locales (auto simp: rbind_Ok_iff rd_uints_Ok_iff not_le)
  then have "rfold [0..<hd_signal_count h] (read_output_v1 (hd_node_count h)) (bs, []) = Ok (bs', ss) \<longleftrightarrow>
      length ss = hd_signal_count h \<and> entries_ok (\<lambda>i s. s < hd_node_count h) ss \<and> bs = table_bytes (\<lambda>i. nat_to_le 4) ss @ bs'"
    by (rule wire_table.collect_Ok_iff) (simp add: read_output_v1_def split_def)
  then show ?thesis
    using version BodyV1 by (auto simp: read_output_references_def rbind_Ok_iff entries_ok_const table_bytes_const chain_v1)
next
  case BodyV2
  let ?ok = "\<lambda>previous s. s < hd_node_count h \<and> signal_fits BodyV2 previous s"
  have run: "rfold (enumerate k xs) (\<lambda>(i, x) acc. Ok (acc @ [x])) acc = (Ok (acc @ xs) :: (_, witness_error) result)" for k and xs :: "nat list" and acc
    by (induction xs arbitrary: k acc) auto
  have "rfold [0..<0 + hd_signal_count h] (read_output_v2 (hd_node_count h)) (bs, [], 0) = Ok (bs', ss, p) \<longleftrightarrow>
      (\<exists>xs. length xs = hd_signal_count h \<and> chain_ok ?ok 0 xs \<and> bs = chain_bytes (signal_bytes BodyV2) 0 xs @ bs' \<and>
        rfold (enumerate 0 xs) (\<lambda>(i, x) acc. Ok (acc @ [x])) [] = (Ok ss :: (_, witness_error) result) \<and> p = last (0 # xs))" for p
    by (rule delta_table.loop_Ok_iff) (simp add: read_output_v2_def split_def)
  moreover have "chain_ok ?ok 0 xs \<longleftrightarrow> (\<forall>s \<in> set xs. s < hd_node_count h)" for xs using n by (intro signals_ok_iff) auto
  ultimately show ?thesis
    using version BodyV2 by (auto simp: read_output_references_def rbind_Ok_iff run)
qed

lemma read_input_mappings_Ok_iff:
  assumes len: "hd_input_buffer_len h < 2 ^ 32"
  shows "read_input_mappings h bs = Ok (ms, bs') \<longleftrightarrow>
    length ms = hd_input_mapping_count h \<and> mappings_ok (hd_input_buffer_len h) ms \<and> (\<forall>m \<in> set ms. mapping_fits m) \<and>
    bs = concat (map mapping_bytes ms) @ bs'"
proof -
  let ?dec = "\<lambda>(i :: nat) bs. rbind (rd_u64 bs) (\<lambda>(hash, bs). rbind (rd_u32 bs) (\<lambda>(signal_id, bs). rbind (rd_u32 bs) (\<lambda>(signal_size, bs).
      Ok (\<lparr>im_hash = hash, im_signal_id = signal_id, im_signal_size = signal_size\<rparr>, bs))))"
  have dec: "wire_table ?dec (\<lambda>i. mapping_bytes) (\<lambda>i. mapping_fits)"
  proof
    fix i :: nat and bs x bs'
    show "?dec i bs = Ok (x, bs') \<longleftrightarrow> mapping_fits x \<and> bs = mapping_bytes x @ bs'"
      by (cases x) (auto simp: rbind_Ok_iff rd_uints_Ok_iff mapping_fits_def mapping_bytes_def)
  qed
  have len64: "hd_input_buffer_len h < 2 ^ 64" using len by simp
  have loop: "rfold [0..<hd_input_mapping_count h] (read_input_mapping (hd_input_buffer_len h)) (bs, [], {}) = Ok (bs', ms, hashes) \<longleftrightarrow>
      (\<exists>vs. length vs = hd_input_mapping_count h \<and> entries_ok (\<lambda>i. mapping_fits) vs \<and> bs = table_bytes (\<lambda>i. mapping_bytes) vs @ bs' \<and>
        rfold (enumerate 0 vs) (\<lambda>(i, m). check_mapping (hd_input_buffer_len h) i m) ([], {}) = Ok (ms, hashes))" for ms hashes bs'
    using dec by (rule wire_table.loop_Ok_iff) (simp add: read_input_mapping_def check_mapping_def split_def)
  have "read_input_mappings h bs = Ok (ms, bs') \<longleftrightarrow>
      (\<exists>hashes. rfold [0..<hd_input_mapping_count h] (read_input_mapping (hd_input_buffer_len h)) (bs, [], {}) = Ok (bs', ms, hashes)) \<and>
      check_input_ranges (map mapping_range ms) = Ok ()"
    by (auto simp: read_input_mappings_def rbind_Ok_iff mapping_range_def [abs_def])
  then show ?thesis
    unfolding loop using check_mappings_Ok_iff [OF len64] mappings_ok_iff [of "hd_input_buffer_len h" ms]
    by (auto simp: entries_ok_const table_bytes_const)
qed

section \<open>The parser on artifacts\<close>

lemma record_bytes_minimum: "(case version of BodyV1 \<Rightarrow> 5 | BodyV2 \<Rightarrow> 2) \<le> length (record_bytes version i r)" if "signet_record_valid len i r"
proof -
  have "1 \<le> length (varint n)" for n by (simp add: Suc_le_eq)
  from this [of "i - s" for s] this show ?thesis using that
    by (cases r; cases version) (simp_all add: le_SucI Suc_le_eq)
qed

lemma signal_bytes_minimum: "(case version of BodyV1 \<Rightarrow> 4 | BodyV2 \<Rightarrow> 1) \<le> length (signal_bytes version previous s)"
  by (cases version) (simp_all add: Suc_le_eq)

lemma table_minimum:
  assumes "\<forall>i < length xs. k \<le> length (enc i (xs ! i))"
  shows "k * length xs \<le> length (table_bytes enc xs)"
  using assms
proof (induction xs rule: rev_induct)
  case (snoc x xs)
  have "k \<le> length (enc i (xs ! i))" if "i < length xs" for i
    using snoc.prems [rule_format, of i] that by (simp add: nth_append)
  then have "k * length xs \<le> length (table_bytes enc xs)" by (intro snoc.IH) simp
  moreover have "k \<le> length (enc (length xs) x)" using snoc.prems [rule_format, of "length xs"] by simp
  ultimately show ?case by (simp add: table_snoc)
qed simp

lemma chain_minimum: "(\<And>previous s. k \<le> length (enc previous s)) \<Longrightarrow> k * length ss \<le> length (chain_bytes enc previous ss)"
proof (induction ss arbitrary: previous)
  case (Cons s ss)
  show ?case using Cons.IH [OF Cons.prems, of s] Cons.prems [of previous s] by simp
qed simp

lemma preflight_Ok_iff:
  assumes "hd_node_count h < 2 ^ 32" and "hd_signal_count h < 2 ^ 32" and "hd_input_mapping_count h < 2 ^ 32"
    and "hd_version h = parser_version version"
  shows "preflight_body_size h n = Ok () \<longleftrightarrow>
    (case version of BodyV1 \<Rightarrow> 5 | BodyV2 \<Rightarrow> 2) * hd_node_count h + (case version of BodyV1 \<Rightarrow> 4 | BodyV2 \<Rightarrow> 1) * hd_signal_count h +
    16 * hd_input_mapping_count h \<le> n"
  using assms by (cases version)
    (auto simp: preflight_body_size_def checked_mul_def checked_add_def usize_bits_def not_less mult.commute)

definition content_graph :: "limits \<Rightarrow> body_version \<Rightarrow> artifact_content \<Rightarrow> witness_graph" where
  "content_graph limits version a =
     \<lparr>wg_limits = limits, wg_nodes = map (\<lambda>r. node_of (node_record_of r)) (ac_records a), wg_signals = ac_signals a,
      wg_input_mapping = ac_mappings a, wg_input_buffer_len = ac_buffer a, wg_r1cs_sha256 = ac_r1cs a, wg_magic = ac_magic a,
      wg_format_version = version_tag version\<rparr>"

definition loadable :: "limits \<Rightarrow> artifact_content \<Rightarrow> bool" where
  "loadable limits a \<longleftrightarrow> content_valid a \<and> (\<forall>r \<in> set (ac_records a). canonical_record (node_record_of r)) \<and>
     graph_ok (content_graph limits BodyV1 a)"

lemma content_graph_ok: "graph_ok (content_graph limits version a) \<longleftrightarrow> graph_ok (content_graph limits BodyV1 a)"
  by (simp add: graph_ok_def content_graph_def)

lemma parser_version_tag: "(case parser_version version of V1 \<Rightarrow> format_version_v1 | V2 \<Rightarrow> format_version_v2) = version_tag version"
  by (cases version) (simp_all add: format_version_v1_def format_version_v2_def)

definition content_of :: "header \<Rightarrow> node_record list \<Rightarrow> nat list \<Rightarrow> input_mapping list \<Rightarrow> artifact_content" where
  "content_of h rs ss ms = \<lparr>ac_magic = hd_magic h, ac_r1cs = hd_r1cs_sha256 h, ac_buffer = hd_input_buffer_len h,
     ac_records = map signet_of rs, ac_signals = ss, ac_mappings = ms\<rparr>"

lemma content_of_graph:
  assumes "hd_version h = parser_version version"
  shows "content_graph limits version (content_of h rs ss ms) = graph_of limits h rs ss ms"
  using assms by (simp add: content_graph_def content_of_def graph_of_def parser_version_tag o_def)

lemma decodes_artifact:
  assumes "decodes limits bytes h rs ss ms"
  obtains version where "hd_version h = parser_version version" "content_valid (content_of h rs ss ms)"
    "bytes = artifact_bytes version (content_of h rs ss ms)"
proof -
  obtain bs bs' bs'' where d: "read_header limits bytes = Ok (h, bs)" "reads (hd_version h) (hd_input_buffer_len h) (hd_node_count h) bs rs bs'"
      "read_output_references h bs' = Ok (ss, bs'')" "read_input_mappings h bs'' = Ok (ms, [])"
    using assms unfolding decodes_def by blast
  obtain version where v: "hd_version h = parser_version version" "header_ok limits h"
      "bytes = head_bytes (hd_magic h) version (hd_r1cs_sha256 h) (hd_node_count h) (hd_signal_count h) (hd_input_mapping_count h)
        (hd_input_buffer_len h) @ bs"
    using d(1) unfolding read_header_Ok_iff by blast
  have n: "hd_node_count h < 2 ^ 32" "hd_input_buffer_len h < 2 ^ 32" using v(2) by (simp_all add: header_ok_def)
  have r: "length rs = hd_node_count h" "\<forall>i < length rs. record_ok (hd_input_buffer_len h) i (rs ! i)"
      "bs = table_bytes (record_bytes version) (map signet_of rs) @ bs'"
    using d(2) unfolding v(1) reads_Ok_iff [OF n(1)] by blast+
  have s: "length ss = hd_signal_count h" "\<forall>s \<in> set ss. s < hd_node_count h" "bs' = chain_bytes (signal_bytes version) 0 ss @ bs''"
    using d(3) unfolding read_output_references_Ok_iff [OF n(1) v(1)] by blast+
  have m: "length ms = hd_input_mapping_count h" "\<forall>m \<in> set ms. mapping_fits m" "bs'' = concat (map mapping_bytes ms)"
    using d(4) unfolding read_input_mappings_Ok_iff [OF n(2)] by simp_all
  have "content_valid (content_of h rs ss ms)"
    using v(2) r(1,2) s(1,2) m(1,2) by (simp add: content_valid_def content_of_def header_ok_def magic_ok_def record_ok_signet)
  moreover have "bytes = artifact_bytes version (content_of h rs ss ms)"
    using v(3) r s m by (simp add: artifact_bytes_def artifact_head_def content_of_def)
  ultimately show ?thesis using that v(1) by blast
qed

lemma artifact_decodes:
  assumes a: "content_valid a" and g: "graph_ok (content_graph limits version a)"
  obtains h where "decodes limits (artifact_bytes version a) h (map node_record_of (ac_records a)) (ac_signals a) (ac_mappings a)"
    "content_graph limits version a = graph_of limits h (map node_record_of (ac_records a)) (ac_signals a) (ac_mappings a)"
proof -
  let ?rs = "map node_record_of (ac_records a)"
  define h where "h = \<lparr>hd_magic = ac_magic a, hd_version = parser_version version, hd_r1cs_sha256 = ac_r1cs a,
    hd_node_count = length (ac_records a), hd_signal_count = length (ac_signals a), hd_input_mapping_count = length (ac_mappings a),
    hd_input_buffer_len = ac_buffer a\<rparr>"
  define t where "t = table_bytes (record_bytes version) (ac_records a)"
  define c where "c = chain_bytes (signal_bytes version) 0 (ac_signals a)"
  define m where "m = concat (map mapping_bytes (ac_mappings a))"
  have sizes: "length (ac_records a) < 2 ^ 32" "length (ac_signals a) < 2 ^ 32" "length (ac_mappings a) < 2 ^ 32" "ac_buffer a < 2 ^ 32"
    using a by (simp_all add: content_valid_def)
  have ok: "graph_ok (content_graph limits version a)" by (rule g)
  have valid: "\<forall>i < length (ac_records a). signet_record_valid (ac_buffer a) i (ac_records a ! i)"
    using a by (simp add: content_valid_def)
  have signet: "map signet_of ?rs = ac_records a"
    using signet_of_node_record valid by (intro nth_equalityI) auto
  have "header_ok limits h"
    using a ok by (simp add: header_ok_def h_def content_valid_def magic_ok_def graph_ok_def content_graph_def)
  then have "read_header limits (artifact_bytes version a) = Ok (h, t @ c @ m)"
    unfolding read_header_Ok_iff by (intro exI [of _ version]) (simp add: h_def artifact_bytes_def artifact_head_def t_def c_def m_def)
  moreover have "reads (hd_version h) (hd_input_buffer_len h) (hd_node_count h) (t @ c @ m) ?rs (c @ m)"
    using sizes valid signet unfolding h_def
    by (simp add: reads_Ok_iff t_def) (metis nth_map record_ok_signet signet_of_node_record)
  moreover have "read_output_references h (c @ m) = Ok (ac_signals a, m)"
    using sizes a by (subst read_output_references_Ok_iff [of _ version]) (simp_all add: h_def c_def content_valid_def)
  moreover have "read_input_mappings h m = Ok (ac_mappings a, [])"
    using sizes a ok by (subst read_input_mappings_Ok_iff) (simp_all add: h_def m_def content_valid_def graph_ok_def content_graph_def)
  moreover have "saturate (\<Sum>r\<leftarrow>?rs. record_cost r) \<le> lm_evaluation_cost limits"
    using ok by (simp add: graph_ok_def content_graph_def node_of_cost o_def)
  moreover have "preflight_body_size h (length (t @ c @ m)) = Ok ()"
  proof -
    have "(case version of BodyV1 \<Rightarrow> 5 | BodyV2 \<Rightarrow> 2) * length (ac_records a) \<le> length t"
      unfolding t_def using valid record_bytes_minimum by (intro table_minimum) blast
    moreover have "(case version of BodyV1 \<Rightarrow> 4 | BodyV2 \<Rightarrow> 1) * length (ac_signals a) \<le> length c"
      unfolding c_def by (intro chain_minimum signal_bytes_minimum)
    moreover have "length m = 16 * length (ac_mappings a)"
      by (simp add: m_def length_concat_const [of mapping_bytes 16] table_lengths)
    ultimately show ?thesis
      using sizes by (subst preflight_Ok_iff [of _ version]) (simp_all add: h_def)
  qed
  ultimately have "decodes limits (artifact_bytes version a) h ?rs (ac_signals a) (ac_mappings a)"
    unfolding decodes_def by blast
  moreover have "content_graph limits version a = graph_of limits h ?rs (ac_signals a) (ac_mappings a)"
    by (simp add: content_graph_def graph_of_def h_def parser_version_tag o_def)
  ultimately show ?thesis using that by blast
qed

lemma parse_graph_artifact:
  "parse_graph bytes limits = Ok g \<longleftrightarrow> (\<exists>version a. loadable limits a \<and> bytes = artifact_bytes version a \<and> g = content_graph limits version a)"
proof
  assume parsed: "parse_graph bytes limits = Ok g"
  then obtain h rs ss ms where d: "decodes limits bytes h rs ss ms" "\<forall>r \<in> set rs. canonical_record r" "g = graph_of limits h rs ss ms"
    unfolding parse_graph_Ok_iff by blast
  obtain version where v: "hd_version h = parser_version version" "content_valid (content_of h rs ss ms)"
      "bytes = artifact_bytes version (content_of h rs ss ms)"
    using decodes_artifact [OF d(1)] by blast
  have graph: "content_graph limits version (content_of h rs ss ms) = g" using d(3) content_of_graph [OF v(1)] by simp
  have "graph_ok (content_graph limits BodyV1 (content_of h rs ss ms))"
    unfolding content_graph_ok [of limits version, symmetric] graph using parsed_graph_ok [OF parsed] by simp
  moreover have "\<forall>r \<in> set (ac_records (content_of h rs ss ms)). canonical_record (node_record_of r)"
    using d(2) by (simp add: content_of_def)
  ultimately have "loadable limits (content_of h rs ss ms)" using v(2) by (simp add: loadable_def)
  then show "\<exists>version a. loadable limits a \<and> bytes = artifact_bytes version a \<and> g = content_graph limits version a"
    using v(3) graph by blast
next
  assume "\<exists>version a. loadable limits a \<and> bytes = artifact_bytes version a \<and> g = content_graph limits version a"
  then obtain version a where a: "loadable limits a" "bytes = artifact_bytes version a" "g = content_graph limits version a" by blast
  have ok: "content_valid a" "graph_ok (content_graph limits version a)" "\<forall>r \<in> set (ac_records a). canonical_record (node_record_of r)"
    using a(1) content_graph_ok [of limits version a] by (simp_all add: loadable_def)
  from artifact_decodes [OF ok(1,2)] obtain h where
    h: "decodes limits bytes h (map node_record_of (ac_records a)) (ac_signals a) (ac_mappings a)"
      "g = graph_of limits h (map node_record_of (ac_records a)) (ac_signals a) (ac_mappings a)"
    unfolding a(2,3) by blast
  then show "parse_graph bytes limits = Ok g" unfolding parse_graph_Ok_iff using ok(3)
    by (intro exI [of _ h] exI [of _ "map node_record_of (ac_records a)"] exI [of _ "ac_signals a"] exI [of _ "ac_mappings a"]) simp
qed

section \<open>The transcoder is total\<close>

lemma body_take_safe: "body_take n bs \<noteq> Panic" "body_u8 bs \<noteq> Panic" "body_u32 bs \<noteq> Panic"
    "k + 4 \<le> length h \<Longrightarrow> read_u32_at h k \<noteq> Panic"
  by (auto simp: body_take_def body_u8_def body_u32_def read_u32_at_def rbind_Panic_iff rassert_def)

lemma body_var_safe: "body_var_loop i v bs \<noteq> Panic" "body_var_u64 bs \<noteq> Panic"
proof -
  show "body_var_loop i v bs \<noteq> Panic" for i v bs
  proof (induction i v bs rule: body_var_loop.induct)
    case (1 index v bs)
    then show ?case
      by (subst body_var_loop.simps) (auto simp: rbind_Panic_iff body_take_safe Let_def guard_def split: if_splits)
  qed
  then show "body_var_u64 bs \<noteq> Panic" by (auto simp: body_var_u64_def rbind_Panic_iff)
qed

lemmas body_safe = body_take_safe body_var_safe

lemma body_record_safe: "body_record version i len bs \<noteq> Panic"
  by (auto simp: body_record_def body_record_of_def rbind_Panic_iff body_safe known_operation_def prior_def body_distance_def
      body_array32_def Let_def split: body_version.splits signet_record.splits)

lemma push_safe: "push_record version i r \<noteq> Panic" "push_signal version s st \<noteq> Panic"
  by (auto simp: push_record_def push_signal_def signal_push_def signet_checked_u32_def backward_distance_def rbind_Panic_iff
      split: body_version.splits signet_record.splits prod.splits)

lemma transcode_safe: "transcode bs target \<noteq> Panic"
proof -
  have "rfold xs (transcode_node source target len) st \<noteq> Panic" for xs source len st
    by (rule rfold_no_panic [where P = "\<lambda>_. True"]) (auto simp: transcode_node_def rbind_Panic_iff body_record_safe push_safe)
  moreover have "rfold xs (transcode_signal source target n) st \<noteq> Panic" for xs source n st
    by (rule rfold_no_panic [where P = "\<lambda>_. True"])
      (auto simp: transcode_signal_def body_signal_def rbind_Panic_iff body_safe push_safe Let_def split: body_version.splits)
  moreover have "describe bs \<noteq> Panic" by (auto simp: describe_def rbind_Panic_iff Let_def)
  moreover have "body_take header_size bs = Ok (h, bs') \<Longrightarrow> k + 4 \<le> 64 \<Longrightarrow> read_u32_at h k \<noteq> Panic" for h bs' k
    using body_take_safe(4) [of k h] by (simp add: body_take_Ok_iff header_size_def)
  ultimately show ?thesis by (auto simp: transcode_def rbind_Panic_iff body_safe Let_def)
qed

end
