(* ===== verification/Signet_Correct.thy ===== *)
theory Signet_Correct
  imports Signet_Graph
begin

text \<open>
  What the exporter and the transcoder promise: artifacts move between the two body versions
  without loss, the evaluator loads the same graph from either, and an exported graph is the
  graph that was exported.
\<close>

section \<open>The transcoder\<close>

text \<open>C32: Transcoding never panics, and it succeeds exactly on artifacts: the bytes of a valid content in
  some body version, which it turns into the bytes of the same content in the wanted version. So a second
  run gives the original back when the versions are exchanged, and the same artifact when they are equal.\<close>

theorem transcode_exact:
  "transcode bs target \<noteq> Panic \<and>
   (transcode bs target = Ok out \<longleftrightarrow>
     (\<exists>version a. content_valid a \<and> bs = artifact_bytes version a \<and> out = artifact_bytes target a))"
  using transcode_safe transcode_Ok_iff by blast

text \<open>C33: A graph the evaluator accepts can be transcoded to either body version, and from the result the
  evaluator reads the same nodes, outputs and inputs under the same limits; only the version differs.\<close>

theorem transcode_preserves_graph:
  assumes "parse_graph bs limits = Ok g"
  shows "\<exists>out. transcode bs target = Ok out \<and> parse_graph out limits = Ok (g\<lparr>wg_format_version := version_tag target\<rparr>)"
proof -
  obtain version a where a: "loadable limits a" "bs = artifact_bytes version a" "g = content_graph limits version a"
    using assms unfolding parse_graph_artifact by blast
  have "transcode bs target = Ok (artifact_bytes target a)"
    unfolding transcode_Ok_iff using a by (auto simp: loadable_def)
  moreover have "parse_graph (artifact_bytes target a) limits = Ok (content_graph limits target a)"
    unfolding parse_graph_artifact using a(1) by blast
  moreover have "content_graph limits target a = g\<lparr>wg_format_version := version_tag target\<rparr>"
    by (simp add: a(3) content_graph_def)
  ultimately show ?thesis by auto
qed

lemma transcode_preserves_graph_witness:
  "\<exists>out. transcode sample_graph BodyV2 = Ok out \<and>
    parse_graph out limits_client = Ok (sample_parsed\<lparr>wg_format_version := 2\<rparr>)"
  using transcode_preserves_graph [OF sample_parse, of BodyV2] by (simp add: format_version_v2_def)

section \<open>Exporting\<close>

text \<open>What a node of the upstream graph means to the evaluator.\<close>

fun upstream_operation_meaning :: "upstream_operation \<Rightarrow> operation" where
  "upstream_operation_meaning UMul = OpMul" | "upstream_operation_meaning UMMul = OpMontgomeryMul"
| "upstream_operation_meaning UAdd = OpAdd" | "upstream_operation_meaning USub = OpSub"
| "upstream_operation_meaning UEq = OpEq" | "upstream_operation_meaning UNeq = OpNeq"
| "upstream_operation_meaning ULt = OpLt" | "upstream_operation_meaning UGt = OpGt"
| "upstream_operation_meaning ULeq = OpLeq" | "upstream_operation_meaning UGeq = OpGeq"
| "upstream_operation_meaning ULor = OpLogicalOr" | "upstream_operation_meaning UShl = OpShl"
| "upstream_operation_meaning UShr = OpShr" | "upstream_operation_meaning UBand = OpBitAnd"
| "upstream_operation_meaning UBor = OpBitOr" | "upstream_operation_meaning UBxor = OpBitXor"
| "upstream_operation_meaning UNeg = OpNeg" | "upstream_operation_meaning UInv = OpInv"
| "upstream_operation_meaning UDiv = OpDiv" | "upstream_operation_meaning UMod = OpMod"
| "upstream_operation_meaning UPow = OpPow" | "upstream_operation_meaning ULand = OpLogicalAnd"
| "upstream_operation_meaning UIDiv = OpIntegerDiv"

fun upstream_meaning :: "upstream_node \<Rightarrow> node option" where
  "upstream_meaning (UpInput input) = Some (GInput input)"
| "upstream_meaning (UpConstant v) = (if v < fr_modulus then Some (GConstant (fr_of_nat v)) else None)"
| "upstream_meaning (UpMontConstant v) = Some (GConstant v)"
| "upstream_meaning (UpOp operation left right) = Some (GOperation (upstream_operation_meaning operation) left right)"
| "upstream_meaning (UpBbf name parameters) =
    (if strip_suffix_number name = bbf_inv \<and> parameters \<noteq> [] then Some (GInverse (hd parameters)) else None)"

definition upstream_meanings :: "limits \<Rightarrow> byte list \<Rightarrow> envelope \<Rightarrow> body_version \<Rightarrow> upstream_graph \<Rightarrow> node list \<Rightarrow> witness_graph" where
  "upstream_meanings limits r1cs envelope version g nodes =
     \<lparr>wg_limits = limits, wg_nodes = nodes, wg_signals = ug_signals g,
      wg_input_mapping = filter (\<lambda>m. im_hash m \<noteq> 0) (ug_input_mapping g),
      wg_input_buffer_len = upstream_input_buffer_len g, wg_r1cs_sha256 = r1cs, wg_magic = envelope_magic envelope,
      wg_format_version = version_tag version\<rparr>"

definition exported :: "upstream_graph \<Rightarrow> byte list \<Rightarrow> envelope \<Rightarrow> signet_record list \<Rightarrow> artifact_content" where
  "exported g r1cs envelope rs =
     \<lparr>ac_magic = envelope_magic envelope, ac_r1cs = r1cs, ac_buffer = upstream_input_buffer_len g, ac_records = rs,
      ac_signals = ug_signals g, ac_mappings = filter (\<lambda>m. im_hash m \<noteq> 0) (ug_input_mapping g)\<rparr>"

lemma upstream_operation_wire:
  "upstream_operation_tag op < 23 \<and> the (map_of wire_operations (upstream_operation_tag op)) = upstream_operation_meaning op"
  by (cases op) (simp_all add: wire_operations_def)

lemma signet_record_of_meaning:
  assumes "upstream_meaning n = Some node" and "node_ok len i node" and "len < 2 ^ 32"
  shows "\<exists>r. signet_record_of n j = Ok r \<and> signet_record_valid len i r \<and> canonical_record (node_record_of r) \<and>
    node_of (node_record_of r) = node"
proof (cases n)
  case (UpConstant v)
  then have "v < fr_modulus" "node = GConstant (fr_of_nat v)" using assms(1) by (simp_all split: if_splits)
  moreover from this have "v < 256 ^ 32" by (simp add: fr_modulus_def)
  ultimately show ?thesis using UpConstant by (simp add: constant_bytes_def)
next
  case (UpMontConstant v)
  then show ?thesis using assms(1) fr_rep_less [of v] fr_rep_less_be_32 [of v]
    by (auto simp: montgomery_bytes_def sf_to_le_bytes_def)
next
  case (UpBbf name parameters)
  then have "strip_suffix_number name = bbf_inv" "parameters \<noteq> []" "node = GInverse (hd parameters)"
    using assms(1) by (simp_all split: if_splits)
  then show ?thesis using UpBbf assms(2) by (simp add: inverse_source_def idx_Ok hd_conv_nth)
next
  case (UpOp operation left right)
  then show ?thesis using assms(1,2) upstream_operation_wire [of operation] by auto
qed (use assms in \<open>auto simp: signet_checked_u32_def\<close>)

lemma signet_records_meaning:
  assumes "map upstream_meaning ns = map Some nodes" and "\<forall>i < length nodes. node_ok len (k + i) (nodes ! i)" and "len < 2 ^ 32"
  shows "\<exists>rs. length rs = length ns \<and> list_all2 (\<lambda>(i, n) r. signet_record_of n i = Ok r) (enumerate k ns) rs \<and>
    (\<forall>i < length rs. signet_record_valid len (k + i) (rs ! i)) \<and> (\<forall>r \<in> set rs. canonical_record (node_record_of r)) \<and>
    map (\<lambda>r. node_of (node_record_of r)) rs = nodes"
  using assms(1,2)
proof (induction ns arbitrary: k nodes)
  case (Cons n ns)
  then obtain node rest where nodes: "nodes = node # rest" "upstream_meaning n = Some node" "map upstream_meaning ns = map Some rest"
    by (cases nodes) auto
  have "node_ok len k node" "\<forall>i < length rest. node_ok len (Suc k + i) (rest ! i)"
    using Cons.prems(2) by (auto simp: nodes(1) dest: spec [of _ 0] spec [of _ "Suc _"])
  from signet_record_of_meaning [OF nodes(2) this(1) assms(3), of k] Cons.IH [OF nodes(3) this(2)]
  obtain r rs where "signet_record_of n k = Ok r" "signet_record_valid len k r" "canonical_record (node_record_of r)"
      "node_of (node_record_of r) = node" "length rs = length ns"
      "list_all2 (\<lambda>(i, n) r. signet_record_of n i = Ok r) (enumerate (Suc k) ns) rs"
      "\<forall>i < length rs. signet_record_valid len (Suc k + i) (rs ! i)" "\<forall>r \<in> set rs. canonical_record (node_record_of r)"
      "map (\<lambda>r. node_of (node_record_of r)) rs = rest" by blast
  then show ?case
    by (intro exI [of _ "r # rs"]) (auto simp: nodes(1) nth_Cons split: nat.split)
qed simp

lemma push_nodes_eq:
  assumes "list_all2 (\<lambda>(i, n) r. signet_record_of n i = Ok r) (enumerate k ns) rs"
    and "\<forall>i < length rs. signet_record_valid len (k + i) (rs ! i)" and "k + length rs \<le> 2 ^ 32"
  shows "rfold (enumerate k ns) (push_node version) out = Ok (out @ concat (map (\<lambda>(i, r). record_bytes version i r) (enumerate k rs)))"
proof -
  have "rfold (enumerate k ns) (push_node version) out =
      rfold (enumerate k rs) (\<lambda>(i, r) out. rbind (push_record version i r) (\<lambda>enc. Ok (out @ enc))) out"
    using assms(1)
  proof (induction ns arbitrary: k rs out)
    case (Cons n ns)
    then obtain r rest where "rs = r # rest" "signet_record_of n k = Ok r"
        "list_all2 (\<lambda>(i, n) r. signet_record_of n i = Ok r) (enumerate (Suc k) ns) rest"
      by (auto simp: list_all2_Cons1)
    then show ?case using Cons.IH [of "Suc k" rest] by (simp add: push_node_def)
  qed simp
  then show ?thesis using push_records_eq [OF assms(2,3), of version out] by simp
qed

lemma push_mappings_eq:
  assumes "\<forall>m \<in> set ms. mapping_fits m"
  shows "rfold ms push_mapping out = Ok (out @ concat (map mapping_bytes ms))"
  using assms
proof (induction ms arbitrary: out)
  case (Cons m ms)
  then have "push_mapping m out = Ok (out @ mapping_bytes m)"
    by (simp add: push_mapping_def signet_checked_u32_def mapping_fits_def mapping_bytes_def)
  then show ?case using Cons by simp
qed simp

lemma signet_encode_eq:
  assumes rs: "list_all2 (\<lambda>(i, n) r. signet_record_of n i = Ok r) (enumerate 0 (ug_nodes g)) rs"
    and valid: "content_valid (exported g r1cs envelope rs)"
  shows "signet_encode g r1cs envelope version = Ok (artifact_bytes version (exported g r1cs envelope rs))"
proof -
  have n: "length (ug_nodes g) = length rs" using list_all2_lengthD [OF rs] by simp
  have v: "length rs < 2 ^ 32" "length (ug_signals g) < 2 ^ 32" "length (filter (\<lambda>m. im_hash m \<noteq> 0) (ug_input_mapping g)) < 2 ^ 32"
      "upstream_input_buffer_len g < 2 ^ 32" "\<forall>i < length rs. signet_record_valid (upstream_input_buffer_len g) (0 + i) (rs ! i)"
      "\<forall>s \<in> set (ug_signals g). s < length rs" "\<forall>m \<in> set (filter (\<lambda>m. im_hash m \<noteq> 0) (ug_input_mapping g)). mapping_fits m"
    using valid by (simp_all add: content_valid_def exported_def)
  have checks: "signet_checked_u32 (length (ug_nodes g)) w = Ok (length rs)" "signet_checked_u32 (length (ug_signals g)) w = Ok (length (ug_signals g))"
      "signet_checked_u32 (length (filter (\<lambda>m. im_hash m \<noteq> 0) (ug_input_mapping g))) w = Ok (length (filter (\<lambda>m. im_hash m \<noteq> 0) (ug_input_mapping g)))"
      "signet_checked_u32 (upstream_input_buffer_len g) w = Ok (upstream_input_buffer_len g)" for w
    using v(1-4) n by (simp_all add: signet_checked_u32_def)
  have nodes: "rfold (enumerate 0 (ug_nodes g)) (push_node version) out = Ok (out @ table_bytes (record_bytes version) rs)" for out
    using push_nodes_eq [OF rs v(5), of version out] v(1) by (simp add: table_bytes_def)
  have "\<forall>s \<in> set (ug_signals g). s < 2 ^ 32" using v(1,6) by auto
  from push_signals_eq [OF this, of 0 version]
  have signals: "\<exists>w. rfold (ug_signals g) (push_signal version) (out, 0) = Ok (out @ chain_bytes (signal_bytes version) 0 (ug_signals g), w)" for out
    by (cases version) (simp_all add: writer_state_def)
  have "signet_encode g r1cs envelope version = Ok (artifact_head version (exported g r1cs envelope rs) @ table_bytes (record_bytes version) rs @
      chain_bytes (signal_bytes version) 0 (ug_signals g) @ concat (map mapping_bytes (filter (\<lambda>m. im_hash m \<noteq> 0) (ug_input_mapping g))))"
    using signals [of "artifact_head version (exported g r1cs envelope rs) @ table_bytes (record_bytes version) rs"]
    by (auto simp: signet_encode_def Let_def checks nodes rbind_Ok_iff push_mappings_eq [OF v(7)] artifact_head_def exported_def
      head_bytes_def simp del: neq0_conv)
  then show ?thesis by (simp add: artifact_bytes_def exported_def)
qed

text \<open>C34: An upstream graph whose nodes all mean something to the evaluator and form a graph within the limits is
  exported in either body version, and the evaluator loads exactly that graph from the artifact, with the
  unnamed inputs left out and the input buffer just long enough for the inputs.\<close>

theorem export_then_load:
  assumes "map upstream_meaning (ug_nodes g) = map Some nodes"
    and "graph_ok (upstream_meanings limits r1cs envelope version g nodes)"
    and "length r1cs = 32" and "length nodes < 2 ^ 32" and "length (ug_signals g) < 2 ^ 32"
    and "length (ug_input_mapping g) < 2 ^ 32" and "upstream_input_buffer_len g < 2 ^ 32"
  shows "\<exists>bytes. signet_encode g r1cs envelope version = Ok bytes \<and>
    parse_graph bytes limits = Ok (upstream_meanings limits r1cs envelope version g nodes)"
proof -
  let ?ms = "filter (\<lambda>m. im_hash m \<noteq> 0) (ug_input_mapping g)"
  have ok: "\<forall>i < length nodes. node_ok (upstream_input_buffer_len g) (0 + i) (nodes ! i)"
      "\<forall>s \<in> set (ug_signals g). s < length nodes" "mappings_ok (upstream_input_buffer_len g) ?ms"
    using assms(2) by (simp_all add: graph_ok_def upstream_meanings_def)
  obtain rs where rs: "length rs = length (ug_nodes g)" "list_all2 (\<lambda>(i, n) r. signet_record_of n i = Ok r) (enumerate 0 (ug_nodes g)) rs"
      "\<forall>i < length rs. signet_record_valid (upstream_input_buffer_len g) i (rs ! i)"
      "\<forall>r \<in> set rs. canonical_record (node_record_of r)" "map (\<lambda>r. node_of (node_record_of r)) rs = nodes"
    using signet_records_meaning [OF assms(1) ok(1) assms(7)] by auto
  have n: "length rs = length nodes" using rs(5) by auto
  have fits: "\<forall>m \<in> set ?ms. mapping_fits m"
    using ok(3) assms(7) by (fastforce simp: mappings_ok_def mapping_fits_def)
  have "length ?ms < 2 ^ 32" using le_less_trans [OF length_filter_le assms(6)] .
  moreover have "envelope_magic envelope = legacy_magic \<or> envelope_magic envelope = signet_magic" by (cases envelope) (simp_all add: legacy_magic_def signet_magic_def)
  ultimately have valid: "content_valid (exported g r1cs envelope rs)"
    using rs(3) ok(2) fits assms(3,4,5,7) n by (simp add: content_valid_def exported_def)
  have graph: "content_graph limits version (exported g r1cs envelope rs) = upstream_meanings limits r1cs envelope version g nodes"
    using rs(5) by (simp add: content_graph_def exported_def upstream_meanings_def)
  have "loadable limits (exported g r1cs envelope rs)"
    unfolding loadable_def content_graph_ok [of limits version, symmetric] graph using valid assms(2) rs(4) by (simp add: exported_def)
  then have "parse_graph (artifact_bytes version (exported g r1cs envelope rs)) limits = Ok (upstream_meanings limits r1cs envelope version g nodes)"
    unfolding parse_graph_artifact graph [symmetric] by blast
  then show ?thesis using signet_encode_eq [OF rs(2) valid] by blast
qed

definition sample_upstream :: upstream_graph where
  "sample_upstream = \<lparr>ug_nodes = [UpConstant 1, UpInput 1, UpOp UMul 1 1], ug_signals = [0, 2],
     ug_input_mapping = [\<lparr>im_hash = 7, im_signal_id = 1, im_signal_size = 1\<rparr>, \<lparr>im_hash = 0, im_signal_id = 9, im_signal_size = 9\<rparr>]\<rparr>"

lemma export_then_load_witness:
  "\<exists>bytes. signet_encode sample_upstream (replicate 32 0) Signet BodyV2 = Ok bytes \<and>
    parse_graph bytes limits_client = Ok (upstream_meanings limits_client (replicate 32 0) Signet BodyV2 sample_upstream
      [GConstant 1, GInput 1, GOperation OpMul 1 1])"
proof (rule export_then_load)
  have buffer: "upstream_input_buffer_len sample_upstream = 2"
    by (simp add: upstream_input_buffer_len_def sample_upstream_def saturating_add_def List.map_filter_def)
  show "upstream_input_buffer_len sample_upstream < 2 ^ 32" by (simp add: buffer)
  have nodes: "\<forall>i < 3. node_ok 2 i ([GConstant 1, GInput 1, GOperation OpMul 1 1] ! i)" by (simp add: nth_Cons less_Suc_eq split: nat.split)
  have fields: "ug_signals sample_upstream = [0, 2]"
      "filter (\<lambda>m. im_hash m \<noteq> 0) (ug_input_mapping sample_upstream) = [\<lparr>im_hash = 7, im_signal_id = 1, im_signal_size = 1\<rparr>]"
    by (simp_all add: sample_upstream_def)
  show "graph_ok (upstream_meanings limits_client (replicate 32 0) Signet BodyV2 sample_upstream [GConstant 1, GInput 1, GOperation OpMul 1 1])"
    unfolding upstream_meanings_def buffer fields using nodes
    by (simp add: graph_ok_def limits_client_def mappings_ok_def mapping_range_def nested_or_disjoint_def saturate_def load_cost_def)
  have "(1 :: nat) < fr_modulus" "fr_of_nat 1 = 1" by (simp add: fr_modulus_def) (simp flip: of_nat_fr)
  then show "map upstream_meaning (ug_nodes sample_upstream) = map Some [GConstant 1, GInput 1, GOperation OpMul 1 1]"
    by (simp add: sample_upstream_def)
qed (simp_all add: sample_upstream_def)

section \<open>Comparing assignments\<close>

lemma find_difference:
  assumes "find (\<lambda>(i, a, b). a \<noteq> b) (enumerate k (zip ls rs)) = Some (i, a, b)"
  shows "\<exists>d. i = k + d \<and> d < length ls \<and> d < length rs \<and> ls ! d \<noteq> rs ! d \<and> take d ls = take d rs"
  using assms
proof (induction ls arbitrary: rs k)
  case (Cons x ls)
  then obtain y ys where rs: "rs = y # ys" by (cases rs) auto
  show ?case
  proof (cases "x = y")
    case True
    then have "find (\<lambda>(i, a, b). a \<noteq> b) (enumerate (Suc k) (zip ls ys)) = Some (i, a, b)" using Cons.prems by (simp add: rs)
    from Cons.IH [OF this] obtain d where "i = Suc k + d" "d < length ls" "d < length ys" "ls ! d \<noteq> ys ! d" "take d ls = take d ys" by blast
    then show ?thesis using True by (intro exI [of _ "Suc d"]) (simp add: rs)
  next
    case False
    then show ?thesis using Cons.prems by (auto simp: rs)
  qed
qed simp

lemma find_difference_None: "length ls = length rs \<Longrightarrow>
    find (\<lambda>(i, a, b). a \<noteq> b) (enumerate k (zip ls rs)) = None \<longleftrightarrow> ls = rs"
  by (induction ls rs arbitrary: k rule: list_induct2) auto

text \<open>The parity check passes exactly when the assignments are equal; of two assignments of the same length
  it reports the first position at which they differ.\<close>

lemma first_difference_exact:
  "first_difference left right = None \<longleftrightarrow> left = right"
  "length left = length right \<Longrightarrow> first_difference left right = Some i \<Longrightarrow>
    i < length left \<and> left ! i \<noteq> right ! i \<and> take i left = take i right"
proof -
  show "first_difference left right = None \<longleftrightarrow> left = right"
    by (auto simp: first_difference_def find_difference_None)
  assume "length left = length right" "first_difference left right = Some i"
  then show "i < length left \<and> left ! i \<noteq> right ! i \<and> take i left = take i right"
    by (auto simp: first_difference_def dest!: find_difference)
qed

text \<open>Of assignments whose lengths differ it reports where the shorter one ends, also when they disagree before.\<close>

lemma first_difference_lengths: "first_difference [0, 1] [5] = Some 1 \<and> [0, 1] ! 0 \<noteq> ([5] ! 0 :: fr)"
  by (simp add: first_difference_def fr_modulus_def flip: of_nat_fr)

end
