(* ===== verification/Msm.thy ===== *)
theory Msm
  imports Prelude
begin

text \<open>
  The multi-scalar multiplication of \<open>crates/prover/src/msm.rs\<close>: signed digits of a scalar,
  buckets of one window, and the two ways of filling them.  The base field is any HOL field.
  The curve group of arkworks (its XYZZ buckets and projective points) is a parameter: an
  abelian group \<open>'g\<close> and the function \<open>pt\<close> that gives the group element of an affine point;
  \<open>curve_a\<close> is the curve's coefficient.  Work that the source spreads over a thread pool is done in
  order.
\<close>

unbundle bit_operations_syntax

section \<open>Digits of a scalar\<close>

text \<open>A big integer is its list of 64-bit limbs, the lowest first.\<close>

type_synonym limbs = "64 word list"

definition scalar_window :: "limbs \<Rightarrow> nat \<Rightarrow> nat \<Rightarrow> nat" where
  "scalar_window words start_bit width =
     (let limb = start_bit div 64; shift = start_bit mod 64;
          v = drop_bit shift (get_or words limb 0);
          v = (if shift \<noteq> 0 \<and> 64 < shift + width then v OR push_bit (64 - shift) (get_or words (limb + 1) 0) else v)
      in unat (v AND (push_bit width 1 - 1)))"

text \<open>\<open>as i16\<close>\<close>

definition as_i16 :: "int \<Rightarrow> int" where
  "as_i16 v = sint (word_of_int v :: 16 word)"

text \<open>The carry out of window \<open>prior\<close>, found by walking down over ambiguous digits.\<close>

fun window_carry :: "limbs \<Rightarrow> nat \<Rightarrow> nat \<Rightarrow> int" where
  "window_carry scalar width prior =
     (let midpoint = 2 ^ width div 2; digit = scalar_window scalar (prior * width) width
      in if digit \<noteq> midpoint - 1 then of_bool (midpoint \<le> digit)
         else case prior of 0 \<Rightarrow> 0 | Suc prior \<Rightarrow> window_carry scalar width prior)"

declare window_carry.simps [simp del]

definition signed_window_digit :: "limbs \<Rightarrow> nat \<Rightarrow> nat \<Rightarrow> int" where
  "signed_window_digit scalar width window =
     (let radix = 2 ^ width; midpoint = radix div 2;
          carry = (case window of 0 \<Rightarrow> 0 | Suc prior \<Rightarrow> window_carry scalar width prior);
          unsigned = int (scalar_window scalar (window * width) width) + carry
      in if midpoint \<le> unsigned then as_i16 (unsigned - radix) else as_i16 unsigned)"

text \<open>The digits in order, with the carry as the loop variable.\<close>

definition emit_digit :: "limbs \<Rightarrow> nat \<Rightarrow> nat \<Rightarrow> int \<times> int list \<Rightarrow> int \<times> int list" where
  "emit_digit scalar width window = (\<lambda>(carry, digits).
     let radix = 2 ^ width; midpoint = radix div 2;
         unsigned = int (scalar_window scalar (window * width) width) + carry
     in if midpoint \<le> unsigned then (1, digits @ [as_i16 (unsigned - radix)]) else (0, digits @ [as_i16 unsigned]))"

definition for_each_signed_window :: "limbs \<Rightarrow> nat \<Rightarrow> nat \<Rightarrow> int \<times> int list" where
  "for_each_signed_window scalar width windows = fold (emit_digit scalar width) [0..<windows] (0, [])"

section \<open>Window sums\<close>

definition buckets_put :: "'a list \<Rightarrow> nat \<Rightarrow> 'a \<Rightarrow> ('a list, 'e) result" where
  "buckets_put xs i x = (if i < length xs then Ok (xs[i := x]) else Panic)"

text \<open>An affine point as arkworks has it: coordinates and a flag for the identity.\<close>

record 'f affine =
  af_x :: 'f
  af_y :: 'f
  af_infinity :: bool

definition af_identity :: "'f :: field affine" where
  "af_identity = \<lparr>af_x = 0, af_y = 0, af_infinity = True\<rparr>"

definition af_neg :: "'f :: field affine \<Rightarrow> 'f affine" where
  "af_neg p = p\<lparr>af_y := - af_y p\<rparr>"

definition xyzz_digit :: "('f affine \<Rightarrow> 'g :: ab_group_add) \<Rightarrow> 'f affine \<times> int \<Rightarrow> 'g list \<Rightarrow> ('g list, 'e) result" where
  "xyzz_digit pt = (\<lambda>(base, digit) buckets.
     if 0 < digit then rbind (idx buckets (nat digit - 1)) (\<lambda>b. buckets_put buckets (nat digit - 1) (b + pt base))
     else if digit < 0 then rbind (idx buckets (nat (- digit) - 1)) (\<lambda>b. buckets_put buckets (nat (- digit) - 1) (b - pt base))
     else Ok buckets)"

definition xyzz_buckets :: "('f affine \<Rightarrow> 'g :: ab_group_add) \<Rightarrow> 'f affine list \<Rightarrow> int list \<Rightarrow> nat \<Rightarrow> ('g list, 'e) result" where
  "xyzz_buckets pt bases digits width = rfold (zip bases digits) (xyzz_digit pt) (replicate (2 ^ (width - 1)) 0)"

definition running_sum :: "'g :: ab_group_add \<Rightarrow> 'g \<times> 'g \<Rightarrow> 'g \<times> 'g" where
  "running_sum bucket = (\<lambda>(sum, running). let running = running + bucket in (sum + running, running))"

definition xyzz_window_sum :: "'g :: ab_group_add list \<Rightarrow> 'g" where
  "xyzz_window_sum buckets = fst (fold running_sum (rev buckets) (0, 0))"

definition signed_window_sum ::
    "('f affine \<Rightarrow> 'g :: ab_group_add) \<Rightarrow> 'f affine list \<Rightarrow> limbs list \<Rightarrow> nat \<Rightarrow> nat \<Rightarrow> ('g, 'e) result" where
  "signed_window_sum pt bases scalars width window =
     rbind (xyzz_buckets pt bases (map (\<lambda>s. signed_window_digit s width window) scalars) width) (\<lambda>buckets.
       Ok (xyzz_window_sum buckets))"

definition add_window :: "nat \<Rightarrow> 'g :: ab_group_add \<Rightarrow> 'g \<Rightarrow> 'g" where
  "add_window width window_sum acc = ((\<lambda>t. t + t) ^^ width) acc + window_sum"

definition reduce_msm_window_sums :: "'g :: ab_group_add list \<Rightarrow> nat \<Rightarrow> 'g" where
  "reduce_msm_window_sums window_sums width = fold (add_window width) (rev window_sums) 0"

section \<open>Affine buckets\<close>

datatype add_step = StepAdd | StepDouble | StepCancel

record 'f pending_add =
  pa_bucket :: nat
  pa_step :: add_step
  pa_prefix :: 'f
  pa_point :: "'f affine"

datatype slot_state = SlotFree | SlotScheduled | SlotHot

record ('f, 'g) affine_buckets =
  ab_buckets :: "'f affine list"
  ab_overflow :: "'g list"
  ab_batch :: "'f pending_add list"
  ab_deferred :: "(nat \<times> 'f affine) list"
  ab_state :: "slot_state list"
  ab_batch_size :: nat

definition min_retry_batch :: nat where
  "min_retry_batch = 8"

definition with_batch_size :: "nat \<Rightarrow> nat \<Rightarrow> ('f :: field, 'g) affine_buckets" where
  "with_batch_size width batch_size =
     \<lparr>ab_buckets = replicate (2 ^ (width - 1)) af_identity, ab_overflow = [], ab_batch = [], ab_deferred = [],
      ab_state = replicate (2 ^ (width - 1)) SlotFree, ab_batch_size = max batch_size 1\<rparr>"

definition schedule :: "nat \<Rightarrow> 'f :: field affine \<Rightarrow> ('f, 'g) affine_buckets \<Rightarrow> (('f, 'g) affine_buckets, 'e) result" where
  "schedule bucket point s =
     rbind (buckets_put (ab_state s) bucket SlotScheduled) (\<lambda>state.
       Ok (s\<lparr>ab_state := state,
             ab_batch := ab_batch s @ [\<lparr>pa_bucket = bucket, pa_step = StepAdd, pa_prefix = 1, pa_point = point\<rparr>]\<rparr>))"

definition add_overflow ::
    "('f affine \<Rightarrow> 'g :: ab_group_add) \<Rightarrow> nat \<Rightarrow> 'f affine \<Rightarrow> ('f, 'g) affine_buckets \<Rightarrow> (('f, 'g) affine_buckets, 'e) result" where
  "add_overflow pt bucket point s =
     rbind (idx (ab_overflow s) bucket) (\<lambda>b.
     rbind (buckets_put (ab_overflow s) bucket (b + pt point)) (\<lambda>overflow.
       Ok (s\<lparr>ab_overflow := overflow\<rparr>)))"

definition spill_point ::
    "('f affine \<Rightarrow> 'g :: ab_group_add) \<Rightarrow> nat \<times> 'f affine \<Rightarrow> ('f, 'g) affine_buckets \<Rightarrow> (('f, 'g) affine_buckets, 'e) result" where
  "spill_point pt = (\<lambda>(bucket, point) s.
     rbind (add_overflow pt bucket point s) (\<lambda>s.
     rbind (buckets_put (ab_state s) bucket SlotHot) (\<lambda>state. Ok (s\<lparr>ab_state := state\<rparr>))))"

definition spill_deferred ::
    "('f affine \<Rightarrow> 'g :: ab_group_add) \<Rightarrow> ('f, 'g) affine_buckets \<Rightarrow> (('f, 'g) affine_buckets, 'e) result" where
  "spill_deferred pt s =
     (if ab_deferred s = [] then Ok s
      else let s = (if ab_overflow s = [] then s\<lparr>ab_overflow := replicate (length (ab_buckets s)) 0\<rparr> else s)
           in rfold (ab_deferred s) (spill_point pt) (s\<lparr>ab_deferred := []\<rparr>))"

definition defer_point ::
    "('f affine \<Rightarrow> 'g :: ab_group_add) \<Rightarrow> nat \<Rightarrow> 'f affine \<Rightarrow> ('f, 'g) affine_buckets \<Rightarrow> (('f, 'g) affine_buckets, 'e) result" where
  "defer_point pt bucket point s =
     rbind (if length (ab_deferred s) = ab_batch_size s then spill_deferred pt s else Ok s) (\<lambda>s.
       Ok (s\<lparr>ab_deferred := ab_deferred s @ [(bucket, point)]\<rparr>))"

text \<open>One round of the retry loop; \<open>kept\<close> are the points that stay deferred.\<close>

definition retry_point ::
    "('f :: field affine \<Rightarrow> 'g :: ab_group_add) \<Rightarrow> nat \<times> 'f affine \<Rightarrow> ('f, 'g) affine_buckets \<times> (nat \<times> 'f affine) list \<Rightarrow>
     (('f, 'g) affine_buckets \<times> (nat \<times> 'f affine) list, 'e) result" where
  "retry_point pt = (\<lambda>(slot, point) (s, kept).
     rbind (idx (ab_state s) slot) (\<lambda>state.
       if state = SlotFree \<and> length (ab_batch s) < ab_batch_size s then
         rbind (idx (ab_buckets s) slot) (\<lambda>bucket.
           if af_infinity bucket then
             rbind (buckets_put (ab_buckets s) slot point) (\<lambda>buckets. Ok (s\<lparr>ab_buckets := buckets\<rparr>, kept))
           else rbind (schedule slot point s) (\<lambda>s. Ok (s, kept)))
       else if state = SlotFree \<or> state = SlotScheduled then Ok (s, kept @ [(slot, point)])
       else rbind (add_overflow pt slot point s) (\<lambda>s. Ok (s, kept))))"

definition retry_deferred ::
    "('f :: field affine \<Rightarrow> 'g :: ab_group_add) \<Rightarrow> ('f, 'g) affine_buckets \<Rightarrow> (('f, 'g) affine_buckets, 'e) result" where
  "retry_deferred pt s =
     rbind (rfold (ab_deferred s) (retry_point pt) (s, [])) (\<lambda>(s, kept). Ok (s\<lparr>ab_deferred := kept\<rparr>))"

text \<open>The forward pass: each addition is classified and the product of its predecessors' denominators kept.\<close>

definition classify ::
    "'f :: field affine list \<Rightarrow> 'f pending_add \<Rightarrow> 'f \<times> 'f pending_add list \<Rightarrow> ('f \<times> 'f pending_add list, 'e) result" where
  "classify buckets pending = (\<lambda>(product, done_adds).
     rbind (idx buckets (pa_bucket pending)) (\<lambda>bucket.
     let pending = pending\<lparr>pa_prefix := product\<rparr>; point = pa_point pending
     in if af_x bucket \<noteq> af_x point then
          Ok (product * (af_x point - af_x bucket), done_adds @ [pending\<lparr>pa_step := StepAdd\<rparr>])
        else if af_y bucket = af_y point \<and> af_y bucket \<noteq> 0 then
          Ok (product * (af_y bucket + af_y bucket), done_adds @ [pending\<lparr>pa_step := StepDouble\<rparr>])
        else Ok (product, done_adds @ [pending\<lparr>pa_step := StepCancel\<rparr>])))"

text \<open>The backward pass peels the inverse of each denominator off the inverse of the product.\<close>

definition chord_or_tangent :: "'f :: field \<Rightarrow> 'f affine \<Rightarrow> 'f affine \<Rightarrow> 'f affine" where
  "chord_or_tangent lambda bucket point =
     (let x = lambda * lambda - af_x bucket - af_x point; y = lambda * (af_x bucket - x) - af_y bucket
      in \<lparr>af_x = x, af_y = y, af_infinity = False\<rparr>)"

definition tangent_numerator :: "'f :: field \<Rightarrow> 'f affine \<Rightarrow> 'f" where
  "tangent_numerator curve_a bucket =
     (let square = af_x bucket * af_x bucket; numerator = square + square + square
      in if curve_a \<noteq> 0 then numerator + curve_a else numerator)"

definition apply_add ::
    "'f :: field \<Rightarrow> 'f pending_add \<Rightarrow> 'f \<times> 'f affine list \<times> slot_state list \<Rightarrow>
     ('f \<times> 'f affine list \<times> slot_state list, 'e) result" where
  "apply_add curve_a pending = (\<lambda>(inverse, buckets, states).
     let index = pa_bucket pending; point = pa_point pending in
     rbind (idx states index) (\<lambda>state.
     rbind (if state = SlotScheduled then buckets_put states index SlotFree else Ok states) (\<lambda>states.
     rbind (idx buckets index) (\<lambda>bucket.
     let add = (\<lambda>numerator denominator.
           let lambda = numerator * (inverse * pa_prefix pending) in
           rbind (buckets_put buckets index (chord_or_tangent lambda bucket point)) (\<lambda>buckets.
             Ok (inverse * denominator, buckets, states))) in
     case pa_step pending of
       StepAdd \<Rightarrow> add (af_y point - af_y bucket) (af_x point - af_x bucket)
     | StepDouble \<Rightarrow> add (tangent_numerator curve_a bucket) (af_y bucket + af_y bucket)
     | StepCancel \<Rightarrow> rbind (buckets_put buckets index af_identity) (\<lambda>buckets. Ok (inverse, buckets, states))))))"

definition apply_batch :: "'f :: field \<Rightarrow> ('f, 'g) affine_buckets \<Rightarrow> (('f, 'g) affine_buckets, 'e) result" where
  "apply_batch curve_a s =
     (if ab_batch s = [] then Ok s
      else rbind (rfold (ab_batch s) (classify (ab_buckets s)) (1, [])) (\<lambda>(product, batch).
           rbind (if product = 0 then Panic else Ok (inverse product)) (\<lambda>inverse.
           rbind (rfold (rev batch) (apply_add curve_a) (inverse, ab_buckets s, ab_state s)) (\<lambda>(inverse, buckets, state).
             Ok (s\<lparr>ab_buckets := buckets, ab_state := state, ab_batch := []\<rparr>)))))"

text \<open>
  The loop that empties full batches.  A round that fills the batch again takes its points from the
  deferred ones, so the number of those bounds the rounds; running out of fuel would be a panic.
\<close>

fun drain_full ::
    "('f :: field affine \<Rightarrow> 'g :: ab_group_add) \<Rightarrow> 'f \<Rightarrow> nat \<Rightarrow> ('f, 'g) affine_buckets \<Rightarrow> (('f, 'g) affine_buckets, 'e) result" where
  "drain_full pt curve_a 0 s = Panic"
| "drain_full pt curve_a (Suc fuel) s =
     (if length (ab_batch s) = ab_batch_size s then
        rbind (apply_batch curve_a s) (\<lambda>s. rbind (retry_deferred pt s) (drain_full pt curve_a fuel))
      else Ok s)"

definition ab_add ::
    "('f :: field affine \<Rightarrow> 'g :: ab_group_add) \<Rightarrow> 'f \<Rightarrow> nat \<Rightarrow> 'f affine \<Rightarrow> ('f, 'g) affine_buckets \<Rightarrow>
     (('f, 'g) affine_buckets, 'e) result" where
  "ab_add pt curve_a bucket point s =
     (if af_infinity point then Ok s
      else rbind (idx (ab_state s) bucket) (\<lambda>state.
        case state of
          SlotScheduled \<Rightarrow> defer_point pt bucket point s
        | SlotHot \<Rightarrow> add_overflow pt bucket point s
        | SlotFree \<Rightarrow>
            rbind (idx (ab_buckets s) bucket) (\<lambda>current.
              if af_infinity current then
                rbind (buckets_put (ab_buckets s) bucket point) (\<lambda>buckets. Ok (s\<lparr>ab_buckets := buckets\<rparr>))
              else rbind (schedule bucket point s) (\<lambda>s. drain_full pt curve_a (length (ab_deferred s) + 2) s))))"

definition add_digit ::
    "('f :: field affine \<Rightarrow> 'g :: ab_group_add) \<Rightarrow> 'f \<Rightarrow> int \<Rightarrow> 'f affine \<Rightarrow> ('f, 'g) affine_buckets \<Rightarrow>
     (('f, 'g) affine_buckets, 'e) result" where
  "add_digit pt curve_a digit base s =
     (if 0 < digit then ab_add pt curve_a (nat digit - 1) base s
      else if digit < 0 then ab_add pt curve_a (nat (- digit) - 1) (af_neg base) s
      else Ok s)"

text \<open>Each round but the last takes at least \<open>min_retry_batch\<close> deferred points.\<close>

fun finish_loop ::
    "('f :: field affine \<Rightarrow> 'g :: ab_group_add) \<Rightarrow> 'f \<Rightarrow> nat \<Rightarrow> ('f, 'g) affine_buckets \<Rightarrow> (('f, 'g) affine_buckets, 'e) result" where
  "finish_loop pt curve_a 0 s = Panic"
| "finish_loop pt curve_a (Suc fuel) s =
     rbind (apply_batch curve_a s) (\<lambda>s.
       if ab_deferred s = [] then Ok s
       else rbind (retry_deferred pt s) (\<lambda>s.
         if length (ab_batch s) < min_retry_batch then rbind (apply_batch curve_a s) (spill_deferred pt)
         else finish_loop pt curve_a fuel s))"

definition ab_finish ::
    "('f :: field affine \<Rightarrow> 'g :: ab_group_add) \<Rightarrow> 'f \<Rightarrow> ('f, 'g) affine_buckets \<Rightarrow> (('f, 'g) affine_buckets, 'e) result" where
  "ab_finish pt curve_a s = finish_loop pt curve_a (length (ab_deferred s) + 1) s"

definition ab_window_sum :: "('f affine \<Rightarrow> 'g :: ab_group_add) \<Rightarrow> ('f, 'g) affine_buckets \<Rightarrow> 'g" where
  "ab_window_sum pt s =
     (if ab_overflow s = [] then fst (fold (\<lambda>bucket. running_sum (pt bucket)) (rev (ab_buckets s)) (0, 0))
      else fst (fold (\<lambda>(bucket, overflow). running_sum (pt bucket + overflow)) (rev (zip (ab_buckets s) (ab_overflow s))) (0, 0)))"

definition release_scratch :: "('f, 'g) affine_buckets \<Rightarrow> ('f, 'g) affine_buckets" where
  "release_scratch s = s\<lparr>ab_batch := [], ab_deferred := []\<rparr>"

section \<open>The multiplication\<close>

datatype accumulation = Xyzz | BatchAffine

definition batch_affine_min_points :: nat where
  "batch_affine_min_points = 2 ^ 12"

definition modulus_bit_size :: nat where
  "modulus_bit_size = 254"

definition div_ceil :: "nat \<Rightarrow> nat \<Rightarrow> nat" where
  "div_ceil n d = (n + d - 1) div d"

definition batch_size :: "nat \<Rightarrow> nat" where
  "batch_size width = max 32 (min 1024 (2 ^ (width - 1) div 4))"

definition affine_window ::
    "('f :: field affine \<Rightarrow> 'g :: ab_group_add) \<Rightarrow> 'f \<Rightarrow> 'f affine list \<Rightarrow> limbs list \<Rightarrow> nat \<Rightarrow> nat \<Rightarrow> nat \<Rightarrow> ('g, 'e) result" where
  "affine_window pt curve_a bases scalars width batch window =
     rbind (rfold (zip bases scalars) (\<lambda>(base, scalar). add_digit pt curve_a (signed_window_digit scalar width window) base)
       (with_batch_size width batch)) (\<lambda>buckets.
     rbind (ab_finish pt curve_a buckets) (\<lambda>buckets. Ok (ab_window_sum pt buckets)))"

definition batch_affine_msm ::
    "('f :: field affine \<Rightarrow> 'g :: ab_group_add) \<Rightarrow> 'f \<Rightarrow> 'f affine list \<Rightarrow> limbs list \<Rightarrow> nat \<Rightarrow> nat \<Rightarrow> ('g, 'e) result" where
  "batch_affine_msm pt curve_a bases scalars width batch =
     rbind (rmap (affine_window pt curve_a bases scalars width batch) [0..<div_ceil modulus_bit_size width]) (\<lambda>window_sums.
       Ok (reduce_msm_window_sums window_sums width))"

definition msm_bigint_with_accumulation ::
    "('f :: field affine \<Rightarrow> 'g :: ab_group_add) \<Rightarrow> 'f \<Rightarrow> 'f affine list \<Rightarrow> limbs list \<Rightarrow> nat \<Rightarrow> accumulation \<Rightarrow> nat option \<Rightarrow>
     ('g, 'e) result" where
  "msm_bigint_with_accumulation pt curve_a bases scalars width accumulation batch =
     (let size = min (length bases) (length scalars) in
      if size = 0 then Ok 0
      else let bases = take size bases; scalars = take size scalars in
        case accumulation of
          BatchAffine \<Rightarrow> batch_affine_msm pt curve_a bases scalars width (case batch of Some b \<Rightarrow> b | None \<Rightarrow> batch_size width)
        | Xyzz \<Rightarrow> rbind (rmap (signed_window_sum pt bases scalars width) [0..<div_ceil modulus_bit_size width]) (\<lambda>window_sums.
            Ok (reduce_msm_window_sums window_sums width)))"

definition msm_bigint_with_window ::
    "('f :: field affine \<Rightarrow> 'g :: ab_group_add) \<Rightarrow> 'f \<Rightarrow> 'f affine list \<Rightarrow> limbs list \<Rightarrow> nat \<Rightarrow> ('g, 'e) result" where
  "msm_bigint_with_window pt curve_a bases scalars width =
     (let size = min (length bases) (length scalars);
          accumulation = (if batch_affine_min_points \<le> size then BatchAffine else Xyzz)
      in msm_bigint_with_accumulation pt curve_a bases scalars width accumulation None)"

text \<open>\<open>log2\<close> is the rounded-up binary logarithm of \<open>ark_std\<close>.\<close>

definition serial_window_bits :: "(nat \<Rightarrow> nat) \<Rightarrow> nat \<Rightarrow> nat" where
  "serial_window_bits log2 points = (if points < 32 then 3 else min (log2 points * 69 div 100 + 2) 16)"

definition adaptive_window_bits :: "nat \<Rightarrow> nat" where
  "adaptive_window_bits points =
     (if points \<le> 31 then 3 else if points \<le> 255 then 5 else if points \<le> 1023 then 7 else if points \<le> 4095 then 8
      else if points \<le> 16383 then 10 else if points \<le> 524288 then 12 else 14)"

definition resident_window_bits :: "(nat \<Rightarrow> nat) \<Rightarrow> bool \<Rightarrow> nat \<Rightarrow> nat" where
  "resident_window_bits log2 parallel points = (if parallel then adaptive_window_bits points else serial_window_bits log2 points)"

definition msm_bigint ::
    "(nat \<Rightarrow> nat) \<Rightarrow> bool \<Rightarrow> ('f :: field affine \<Rightarrow> 'g :: ab_group_add) \<Rightarrow> 'f \<Rightarrow> 'f affine list \<Rightarrow> limbs list \<Rightarrow> ('g, 'e) result" where
  "msm_bigint log2 parallel pt curve_a bases scalars =
     (let size = min (length bases) (length scalars) in
      if size = 0 then Ok 0
      else msm_bigint_with_window pt curve_a (take size bases) (take size scalars) (resident_window_bits log2 parallel size))"

definition trivial_scalar :: "limbs \<Rightarrow> bool" where
  "trivial_scalar s \<longleftrightarrow> s = [0, 0, 0, 0] \<or> s = [1, 0, 0, 0]"

definition split_trivial_scalars ::
    "(nat \<Rightarrow> nat) \<Rightarrow> bool \<Rightarrow> ('f :: field affine \<Rightarrow> 'g :: ab_group_add) \<Rightarrow> 'f \<Rightarrow> 'f affine list \<Rightarrow> limbs list \<Rightarrow> ('g, 'e) result option" where
  "split_trivial_scalars log2 parallel pt curve_a bases scalars =
     (let count = length (filter trivial_scalar scalars) in
      if count * 8 < length scalars then None
      else let rest = filter (\<lambda>(base, scalar). \<not> trivial_scalar scalar) (zip bases scalars);
               rest_bases = map fst rest; rest_scalars = map snd rest;
               ones = fold (\<lambda>(base, scalar) sum. if scalar = [1, 0, 0, 0] then sum + pt base else sum) (zip bases scalars) 0
           in Some (rbind (if length rest_scalars = 0 then Ok 0
                else msm_bigint_with_window pt curve_a rest_bases rest_scalars (resident_window_bits log2 parallel (length rest_scalars)))
              (\<lambda>rest. Ok (rest + ones))))"

end
