(* ===== verification/Msm_Digits.thy ===== *)
theory Msm_Digits
  imports Msm Field_Codec
begin

text \<open>
  The balanced digits of a scalar: the window read from the limbs is the window of the number,
  a carry found by walking down is the carry of the recoding in order, and the digits are small
  and sum up to the number.
\<close>

section \<open>Windows\<close>

fun limbs_nat :: "limbs \<Rightarrow> nat" where
  "limbs_nat [] = 0"
| "limbs_nat (w # ws) = unat w + 2 ^ 64 * limbs_nat ws"

lemma limbs_nat_bound: "limbs_nat ws < 2 ^ (64 * length ws)"
proof (induction ws)
  case (Cons w ws)
  have "unat w + 2 ^ 64 * limbs_nat ws < 2 ^ 64 * (1 + limbs_nat ws)"
    using unsigned_less [of w] by simp
  also have "\<dots> \<le> 2 ^ 64 * 2 ^ (64 * length ws)" using Cons by (intro mult_le_mono2) simp
  finally show ?case by (simp add: power_add)
qed simp

lemma bit_limbs_nat: "bit (limbs_nat ws) n \<longleftrightarrow> bit (get_or ws (n div 64) 0) (n mod 64)"
proof (induction ws arbitrary: n)
  case Nil
  then show ?case by (simp add: get_or_def get_def)
next
  case (Cons w ws)
  show ?case
  proof (cases "n < 64")
    case True
    have "(2 :: nat) ^ 64 = 2 ^ n * 2 ^ (64 - n)" using True by (simp flip: power_add)
    then have "(unat w + 2 ^ 64 * limbs_nat ws) div 2 ^ n = unat w div 2 ^ n + 2 ^ (64 - n) * limbs_nat ws"
      by (simp only: mult.assoc div_mult_self2 power_not_zero rel_simps not_False_eq_True)
    moreover have "even ((2 :: nat) ^ (64 - n) * limbs_nat ws)" using True by simp
    ultimately have "bit (limbs_nat (w # ws)) n \<longleftrightarrow> bit (unat w) n" by (simp add: bit_iff_odd)
    then show ?thesis using True by (simp add: get_or_def get_def bit_unsigned_iff)
  next
    case False
    then obtain m where m: "n = 64 + m" by (metis le_Suc_ex not_less)
    have "unat w < 2 ^ 64" by (rule order.strict_trans2 [OF unsigned_less]) simp
    then have "(unat w + 2 ^ 64 * limbs_nat ws) div 2 ^ 64 = limbs_nat ws" by simp
    then have "bit (limbs_nat (w # ws)) n \<longleftrightarrow> bit (limbs_nat ws) m"
      by (simp add: bit_iff_odd m power_add div_mult2_eq)
    moreover have "(64 + m) div 64 = Suc (m div 64)" "(64 + m) mod 64 = m mod 64" by (simp_all add: div_add_self1)
    ultimately show ?thesis using Cons.IH [of m] unfolding m by (simp add: get_or_def get_def)
  qed
qed

lemma scalar_window_eq:
  assumes "width < 64"
  shows "scalar_window ws start width = (limbs_nat ws div 2 ^ start) mod 2 ^ width"
proof -
  define q shift where "q = start div 64" and "shift = start mod 64"
  have start: "start = shift + q * 64" "shift < 64" by (simp_all add: q_def shift_def)
  define low where "low = drop_bit shift (get_or ws q 0)"
  define high where "high = push_bit (64 - shift) (get_or ws (q + 1) 0)"
  define v where "v = (if shift \<noteq> 0 \<and> 64 < shift + width then low OR high else low)"
  have low: "bit low k \<longleftrightarrow> bit (get_or ws q 0) (shift + k)" for k by (simp add: low_def bit_drop_bit_eq)
  have high: "bit high k \<longleftrightarrow> 64 - shift \<le> k \<and> k < 64 \<and> bit (get_or ws (q + 1) 0) (k - (64 - shift))" for k
    by (simp add: high_def bit_push_bit_iff)
  have bit_v: "bit v k \<longleftrightarrow> bit (limbs_nat ws) (start + k)" if k: "k < width" for k
  proof (cases "shift + k < 64")
    case True
    have "start + k = shift + k + q * 64" using start(1) by simp
    then have "(start + k) div 64 = q" "(start + k) mod 64 = shift + k" using True by (simp_all only: div_mult_self1 mod_mult_self1) simp_all
    moreover have "\<not> (64 - shift \<le> k)" using True by simp
    ultimately show ?thesis unfolding bit_limbs_nat by (simp add: v_def bit_or_iff low high)
  next
    case False
    define j where "j = shift + k - 64"
    have j: "start + k = j + Suc q * 64" "j < 64" "k - (64 - shift) = j" "64 - shift \<le> k" "shift \<noteq> 0" "64 < shift + width" "k < 64"
      using False start k assms by (simp_all add: j_def)
    have "(start + k) div 64 = Suc q" "(start + k) mod 64 = j" unfolding j(1) using j(2) by (simp_all only: div_mult_self1 mod_mult_self1) simp_all
    moreover have "\<not> bit (get_or ws q 0) (shift + k)" using False by (auto dest: bit_imp_possible_bit)
    ultimately show ?thesis unfolding bit_limbs_nat using j by (simp add: v_def bit_or_iff low high)
  qed
  have mask: "push_bit width 1 - 1 = (mask width :: 64 word)" by (simp add: mask_eq_exp_minus_1 push_bit_eq_mult)
  have "unat (v AND mask width) = take_bit width (drop_bit start (limbs_nat ws))"
  proof (rule bit_eqI)
    fix k
    show "bit (unat (v AND mask width)) k \<longleftrightarrow> bit (take_bit width (drop_bit start (limbs_nat ws))) k"
      using bit_v [of k] assms
      by (auto simp: bit_unsigned_iff bit_and_iff bit_mask_iff bit_take_bit_iff bit_drop_bit_eq)
  qed
  moreover have "scalar_window ws start width = unat (v AND mask width)"
    unfolding scalar_window_def v_def low_def high_def q_def shift_def Let_def mask ..
  ultimately show ?thesis by (simp add: take_bit_eq_mod drop_bit_eq_div)
qed

section \<open>The recoding\<close>

definition raw_digit :: "limbs \<Rightarrow> nat \<Rightarrow> nat \<Rightarrow> int" where
  "raw_digit s width w = int (scalar_window s (w * width) width)"

fun recode_carry :: "limbs \<Rightarrow> nat \<Rightarrow> nat \<Rightarrow> int" where
  "recode_carry s width 0 = 0"
| "recode_carry s width (Suc w) = of_bool (2 ^ (width - 1) \<le> raw_digit s width w + recode_carry s width w)"

lemma recode_carry_range: "recode_carry s width w = 0 \<or> recode_carry s width w = 1"
  by (cases w) simp_all

lemma raw_digit_range: "width < 64 \<Longrightarrow> 0 \<le> raw_digit s width w \<and> raw_digit s width w < 2 ^ width"
  by (simp add: raw_digit_def scalar_window_eq)

lemma half_radix: "0 < width \<Longrightarrow> 2 ^ width div 2 = (2 ^ (width - 1) :: int)" "0 < width \<Longrightarrow> 2 ^ width div 2 = (2 ^ (width - 1) :: nat)"
  by (cases width; simp)+

lemma carry_step:
  "0 < M \<Longrightarrow> c = 0 \<or> c = 1 \<Longrightarrow> (if d \<noteq> M - 1 then of_bool (M \<le> d) else c) = (of_bool (int M \<le> int d + c) :: int)" for d M :: nat
  by auto

lemma window_carry_eq: "0 < width \<Longrightarrow> window_carry s width w = recode_carry s width (Suc w)"
proof (induction w)
  case 0
  then show ?case
    using carry_step [of "2 ^ (width - 1)" 0 "scalar_window s 0 width"]
    by (subst window_carry.simps) (auto simp: Let_def half_radix raw_digit_def split: if_splits)
next
  case (Suc w)
  let ?d = "scalar_window s (Suc w * width) width"
  have "window_carry s width (Suc w) =
      (if ?d \<noteq> 2 ^ (width - 1) - 1 then of_bool (2 ^ (width - 1) \<le> ?d) else recode_carry s width (Suc w))"
    using Suc by (subst window_carry.simps) (simp add: Let_def half_radix del: recode_carry.simps)
  also have "\<dots> = of_bool (int (2 ^ (width - 1)) \<le> int ?d + recode_carry s width (Suc w))"
    by (rule carry_step) (simp, rule recode_carry_range)
  also have "\<dots> = recode_carry s width (Suc (Suc w))"
    unfolding recode_carry.simps(2) [of s width "Suc w"] raw_digit_def by (simp only: of_nat_power of_nat_numeral)
  finally show ?case .
qed

lemma as_i16_eq: "- 32768 \<le> v \<Longrightarrow> v < 32768 \<Longrightarrow> as_i16 v = v"
  by (simp add: as_i16_def signed_of_int signed_take_bit_int_eq_self)

lemma signed_window_digit_eq:
  assumes "0 < width" and "width \<le> 16"
  shows "signed_window_digit s width w = raw_digit s width w + recode_carry s width w - 2 ^ width * recode_carry s width (Suc w)" (is "_ = ?d")
    and "- (2 ^ (width - 1)) \<le> signed_window_digit s width w" and "signed_window_digit s width w < 2 ^ (width - 1)"
proof -
  have half: "(2 :: int) ^ width = 2 * 2 ^ (width - 1)" using assms(1) by (cases width) simp_all
  have "(2 :: int) ^ (width - 1) \<le> 2 ^ 15" using assms(2) by (intro power_increasing) auto
  then have small: "(2 :: int) ^ (width - 1) \<le> 32768" by simp
  have raw: "0 \<le> raw_digit s width w" "raw_digit s width w < 2 ^ width" using raw_digit_range assms by auto
  have carry: "(case w of 0 \<Rightarrow> 0 | Suc prior \<Rightarrow> window_carry s width prior) = recode_carry s width w"
    using window_carry_eq assms(1) by (cases w) auto
  have range: "- (2 ^ (width - 1)) \<le> ?d" "?d < 2 ^ (width - 1)"
    using raw half recode_carry_range [of s width w] by auto
  then have "as_i16 ?d = ?d" using small by (intro as_i16_eq) auto
  then show eq: "signed_window_digit s width w = ?d"
    unfolding signed_window_digit_def Let_def carry raw_digit_def [symmetric] half_radix(1) [OF assms(1)]
    by (cases "2 ^ (width - 1) \<le> raw_digit s width w + recode_carry s width w") simp_all
  show "- (2 ^ (width - 1)) \<le> signed_window_digit s width w" "signed_window_digit s width w < 2 ^ (width - 1)"
    unfolding eq by (rule range)+
qed

lemma digits_sum:
  assumes "0 < width" and "width \<le> 16"
  shows "(\<Sum>w < windows. signed_window_digit s width w * 2 ^ (w * width)) =
    int (limbs_nat s mod 2 ^ (windows * width)) - 2 ^ (windows * width) * recode_carry s width windows"
proof (induction windows)
  case (Suc w)
  have "limbs_nat s mod 2 ^ (Suc w * width) = limbs_nat s mod 2 ^ (w * width) + 2 ^ (w * width) * (limbs_nat s div 2 ^ (w * width) mod 2 ^ width)"
    by (simp only: mult_Suc add.commute [of width] power_add mod_mult2_eq add.commute [of "limbs_nat s mod 2 ^ (w * width)"])
  moreover have "raw_digit s width w = int (limbs_nat s div 2 ^ (w * width) mod 2 ^ width)"
    using assms by (simp add: raw_digit_def scalar_window_eq)
  ultimately show ?case
    using Suc by (simp add: signed_window_digit_eq(1) [OF assms] algebra_simps power_add del: recode_carry.simps)
qed simp

text \<open>A scalar of the field leaves no carry after the last window.\<close>

lemma window_count:
  assumes "3 \<le> width" and "width \<le> 16"
  shows "255 \<le> div_ceil modulus_bit_size width * width"
proof -
  have "width \<in> set [3..<17]" using assms by (simp del: upt_rec_numeral)
  moreover have "list_all (\<lambda>width. 255 \<le> div_ceil modulus_bit_size width * width) [3..<17]" by code_simp
  ultimately show ?thesis by (simp only: list_all_iff)
qed

lemma recode_fits:
  assumes "3 \<le> width" and "width \<le> 16" and "limbs_nat s < fr_modulus"
  defines "windows \<equiv> div_ceil modulus_bit_size width"
  shows "recode_carry s width windows = 0" and "limbs_nat s mod 2 ^ (windows * width) = limbs_nat s"
proof -
  let ?N = "int (limbs_nat s)"
  let ?R = "2 ^ width :: int"
  let ?T = "2 ^ (windows * width) :: int"
  have "(2 :: int) ^ 255 \<le> ?T"
    using window_count [OF assms(1,2)] by (intro power_increasing) (simp_all add: windows_def)
  then have T: "7 * int fr_modulus < 3 * ?T" by (simp add: fr_modulus_def)
  then have less: "?N < ?T" using assms(3) by linarith
  then have "limbs_nat s < 2 ^ (windows * width)" by (metis of_nat_less_iff of_nat_numeral of_nat_power)
  then show mod: "limbs_nat s mod 2 ^ (windows * width) = limbs_nat s" by simp
  have w: "0 < width" using assms(1) by simp
  have R: "8 \<le> ?R" using power_increasing [of 3 width "2 :: int"] assms(1) by simp
  have half: "?R = 2 * 2 ^ (width - 1)" using w by (cases width) simp_all
  let ?S = "\<Sum>v < windows. 2 ^ (v * width) :: int"
  have S: "(?R - 1) * ?S = ?T - 1"
  proof -
    have "(?R - 1) * (\<Sum>v < n. ?R ^ v) = ?R ^ n - 1" for n
      using power_diff_1_eq [of ?R n] by simp
    from this [of windows] show ?thesis by (simp add: power_mult [symmetric] mult.commute)
  qed
  have "- (2 ^ (width - 1)) * ?S = (\<Sum>v < windows. - (2 ^ (width - 1)) * 2 ^ (v * width))" by (simp add: sum_distrib_left sum_negf)
  also have "\<dots> \<le> (\<Sum>v < windows. signed_window_digit s width v * 2 ^ (v * width))"
    using signed_window_digit_eq(2) [OF w assms(2)] by (intro sum_mono mult_right_mono) auto
  also have "\<dots> = ?N - ?T * recode_carry s width windows" by (simp only: digits_sum [OF w assms(2)] mod)
  finally have low: "- (2 ^ (width - 1)) * ?S \<le> ?N - ?T * recode_carry s width windows" .
  show "recode_carry s width windows = 0"
  proof (rule ccontr)
    assume "recode_carry s width windows \<noteq> 0"
    then have "recode_carry s width windows = 1" using recode_carry_range by blast
    then have "- (2 ^ (width - 1)) * ?S \<le> ?N - ?T" using low by simp
    then have "(?R - 1) * (2 * (?T - ?N)) \<le> (?R - 1) * (?R * ?S)" using half R by (intro mult_left_mono) auto
    also have "\<dots> = ?R * (?T - 1)" unfolding S [symmetric] by (simp only: mult.left_commute)
    also have "\<dots> \<le> ?R * ?T" by simp
    finally have "(?R - 1) * (2 * (?T - ?N)) \<le> ?R * ?T" .
    moreover have "7 * ?R \<le> 8 * (?R - 1)" using R by simp
    then have "7 * (?R * ?T) \<le> (?R - 1) * (8 * ?T)" using mult_right_mono [of "7 * ?R" "8 * (?R - 1)" ?T] by (simp add: algebra_simps)
    moreover have "(?R - 1) * (14 * (?T - ?N)) = 7 * ((?R - 1) * (2 * (?T - ?N)))" by simp
    ultimately have "(?R - 1) * (14 * (?T - ?N)) \<le> (?R - 1) * (8 * ?T)" by linarith
    then have "14 * (?T - ?N) \<le> 8 * ?T" using R by (simp only: mult_le_cancel_left_pos)
    moreover have "?N < int fr_modulus" using assms(3) by (simp only: of_nat_less_iff)
    moreover have False if "14 * (t - n) \<le> 8 * t" "n < r" "7 * r < 3 * t" for t n r :: int using that by simp
    ultimately show False using T by blast
  qed
qed

lemma signed_digits_sum:
  assumes "3 \<le> width" and "width \<le> 16" and "limbs_nat s < fr_modulus"
  shows "(\<Sum>w < div_ceil modulus_bit_size width. signed_window_digit s width w * 2 ^ (w * width)) = int (limbs_nat s)"
  using digits_sum [of width s "div_ceil modulus_bit_size width"] recode_fits [OF assms] assms(1,2) by simp

lemma for_each_signed_window_eq:
  assumes "0 < width" and "width \<le> 16"
  shows "for_each_signed_window s width windows = (recode_carry s width windows, map (signed_window_digit s width) [0..<windows])"
proof (induction windows)
  case (Suc w)
  have "emit_digit s width w (recode_carry s width w, digits) = (recode_carry s width (Suc w), digits @ [signed_window_digit s width w])" for digits
  proof -
    have carry: "(case w of 0 \<Rightarrow> 0 | Suc prior \<Rightarrow> window_carry s width prior) = recode_carry s width w"
      using window_carry_eq assms(1) by (cases w) auto
    show ?thesis
      by (simp add: emit_digit_def Let_def signed_window_digit_def carry raw_digit_def half_radix(1) [OF assms(1)] del: power_strict_increasing_iff)
  qed
  then show ?case using Suc by (simp add: for_each_signed_window_def del: recode_carry.simps(2))
qed (simp add: for_each_signed_window_def)

end
