(* ===== verification/Msm_Buckets.thy ===== *)
theory Msm_Buckets
  imports Msm_Digits
begin

text \<open>
  The affine buckets of one window: what every operation leaves in a bucket, counted with its overflow,
  its pending and its deferred additions, is what was there plus the points added to it.
\<close>

section \<open>The curve group\<close>

text \<open>
  What arkworks documents of a short-Weierstrass group: on the points \<open>C\<close> of the curve, \<open>pt\<close> turns the
  chord-and-tangent construction into the addition of the group.
\<close>

definition line_sum :: "'f :: field \<Rightarrow> 'f affine \<Rightarrow> 'f affine \<Rightarrow> 'f affine" where
  "line_sum slope p q =
     \<lparr>af_x = slope\<^sup>2 - af_x p - af_x q, af_y = slope * (af_x p - (slope\<^sup>2 - af_x p - af_x q)) - af_y p, af_infinity = False\<rparr>"

definition chord_tangent_group :: "'f :: field \<Rightarrow> 'f affine set \<Rightarrow> ('f affine \<Rightarrow> 'g :: ab_group_add) \<Rightarrow> bool" where
  "chord_tangent_group a C pt \<longleftrightarrow>
     (2 :: 'f) \<noteq> 0 \<and> af_identity \<in> C \<and> (\<forall>p \<in> C. af_infinity p \<longrightarrow> pt p = 0) \<and>
     (\<forall>p \<in> C. af_neg p \<in> C \<and> pt (af_neg p) = - pt p) \<and>
     (\<forall>p \<in> C. \<forall>q \<in> C. \<not> af_infinity p \<longrightarrow> \<not> af_infinity q \<longrightarrow>
        (if af_x p \<noteq> af_x q
         then line_sum ((af_y q - af_y p) / (af_x q - af_x p)) p q \<in> C \<and>
           pt (line_sum ((af_y q - af_y p) / (af_x q - af_x p)) p q) = pt p + pt q
         else if af_y p = af_y q \<and> af_y p \<noteq> 0
         then line_sum ((3 * (af_x p)\<^sup>2 + a) / (2 * af_y p)) p q \<in> C \<and>
           pt (line_sum ((3 * (af_x p)\<^sup>2 + a) / (2 * af_y p)) p q) = pt p + pt q
         else pt p + pt q = 0))"

lemma line_sum_eq: "chord_or_tangent slope p q = line_sum slope p q"
  by (simp add: chord_or_tangent_def line_sum_def Let_def power2_eq_square)

section \<open>A batch\<close>

definition step_of :: "'f :: field affine \<Rightarrow> 'f affine \<Rightarrow> add_step" where
  "step_of b q = (if af_x b \<noteq> af_x q then StepAdd else if af_y b = af_y q \<and> af_y b \<noteq> 0 then StepDouble else StepCancel)"

definition den_of :: "'f :: field affine \<Rightarrow> 'f affine \<Rightarrow> 'f" where
  "den_of b q = (case step_of b q of StepAdd \<Rightarrow> af_x q - af_x b | StepDouble \<Rightarrow> af_y b + af_y b | StepCancel \<Rightarrow> 1)"

lemma den_of_nonzero: "(2 :: 'f :: field) \<noteq> 0 \<Longrightarrow> den_of b q \<noteq> (0 :: 'f)"
  by (auto simp: den_of_def step_of_def simp flip: mult_2)

definition batch_dens :: "'f :: field affine list \<Rightarrow> 'f pending_add list \<Rightarrow> 'f" where
  "batch_dens buckets ps = prod_list (map (\<lambda>p. den_of (buckets ! pa_bucket p) (pa_point p)) ps)"

fun classified :: "'f :: field affine list \<Rightarrow> 'f \<Rightarrow> 'f pending_add list \<Rightarrow> 'f pending_add list" where
  "classified buckets c [] = []"
| "classified buckets c (p # ps) =
     p\<lparr>pa_prefix := c, pa_step := step_of (buckets ! pa_bucket p) (pa_point p)\<rparr> #
     classified buckets (c * den_of (buckets ! pa_bucket p) (pa_point p)) ps"

lemma classify_one:
  "pa_bucket p < length buckets \<Longrightarrow>
    classify buckets p (c, acc) = Ok (c * den_of (buckets ! pa_bucket p) (pa_point p),
      acc @ [p\<lparr>pa_prefix := c, pa_step := step_of (buckets ! pa_bucket p) (pa_point p)\<rparr>])"
  by (auto simp: classify_def idx_Ok den_of_def step_of_def Let_def)

lemma classify_batch:
  assumes "\<forall>p \<in> set ps. pa_bucket p < length buckets"
  shows "rfold ps (classify buckets) (c, acc) = Ok (c * batch_dens buckets ps, acc @ classified buckets c ps)"
  using assms
proof (induction ps arbitrary: c acc)
  case (Cons p ps)
  then show ?case by (simp add: classify_one batch_dens_def mult.assoc)
qed (simp add: batch_dens_def)

lemma classified_snoc:
  "classified buckets c (ps @ [p]) = classified buckets c ps @
    [p\<lparr>pa_prefix := c * batch_dens buckets ps, pa_step := step_of (buckets ! pa_bucket p) (pa_point p)\<rparr>]"
  by (induction ps arbitrary: c) (simp_all add: batch_dens_def mult.assoc)

lemma batch_dens_nonzero: "(2 :: 'f :: field) \<noteq> 0 \<Longrightarrow> batch_dens buckets ps \<noteq> (0 :: 'f)"
  by (simp add: batch_dens_def prod_list_zero_iff den_of_nonzero image_iff)

lemma apply_one:
  assumes group: "chord_tangent_group a C pt" and i: "i < length B" "i < length S"
    and b: "B ! i \<in> C" "\<not> af_infinity (B ! i)" and q: "q \<in> C" "\<not> af_infinity q" and c: "c \<noteq> 0"
  shows "\<exists>b'. apply_add a \<lparr>pa_bucket = i, pa_step = step_of (B ! i) q, pa_prefix = c, pa_point = q\<rparr>
        (inverse (c * den_of (B ! i) q), B, S) =
      Ok (inverse c, B[i := b'], if S ! i = SlotScheduled then S[i := SlotFree] else S) \<and> b' \<in> C \<and> pt b' = pt (B ! i) + pt q"
proof -
  let ?b = "B ! i"
  have two: "(2 :: 'a) \<noteq> 0" and zero: "af_identity \<in> C" "pt af_identity = 0"
    using group by (auto simp: chord_tangent_group_def af_identity_def)
  have den: "den_of ?b q \<noteq> 0" using den_of_nonzero [OF two] .
  have inv: "inverse c * inverse d * c = inverse d" "d \<noteq> 0 \<Longrightarrow> inverse c * inverse d * d = inverse c" for d
    using c by (simp_all add: field_simps)
  have law: "if af_x ?b \<noteq> af_x q
         then line_sum ((af_y q - af_y ?b) / (af_x q - af_x ?b)) ?b q \<in> C \<and>
           pt (line_sum ((af_y q - af_y ?b) / (af_x q - af_x ?b)) ?b q) = pt ?b + pt q
         else if af_y ?b = af_y q \<and> af_y ?b \<noteq> 0
         then line_sum ((3 * (af_x ?b)\<^sup>2 + a) / (2 * af_y ?b)) ?b q \<in> C \<and>
           pt (line_sum ((3 * (af_x ?b)\<^sup>2 + a) / (2 * af_y ?b)) ?b q) = pt ?b + pt q
         else pt ?b + pt q = 0"
    using group b q unfolding chord_tangent_group_def by blast
  show ?thesis
  proof (cases "step_of ?b q")
    case StepAdd
    then have "af_x ?b \<noteq> af_x q" "den_of ?b q = af_x q - af_x ?b" by (auto simp: step_of_def den_of_def split: if_splits)
    then show ?thesis using law i den StepAdd
      by (intro exI [of _ "line_sum ((af_y q - af_y ?b) / (af_x q - af_x ?b)) ?b q"])
        (simp add: apply_add_def idx_Ok buckets_put_def Let_def line_sum_eq divide_inverse inv)
  next
    case StepDouble
    then have "af_x ?b = af_x q" "af_y ?b = af_y q" "af_y ?b \<noteq> 0" "den_of ?b q = af_y ?b + af_y ?b"
      by (auto simp: step_of_def den_of_def split: if_splits)
    note D = this
    have T: "tangent_numerator a ?b = 3 * (af_x ?b)\<^sup>2 + a" by (simp add: tangent_numerator_def Let_def power2_eq_square)
    define d where "d = af_y ?b + af_y ?b"
    have d2: "2 * af_y ?b = d" by (simp add: d_def)
    have "d \<noteq> 0" using den D(4) by (simp add: d_def)
    moreover have "line_sum ((3 * (af_x ?b)\<^sup>2 + a) / d) ?b q \<in> C \<and> pt (line_sum ((3 * (af_x ?b)\<^sup>2 + a) / d) ?b q) = pt ?b + pt q"
      using law D(1-3) unfolding d_def mult_2 by (simp only: if_False if_True simp_thms)
    ultimately show ?thesis using i StepDouble
      unfolding D(4) d_def [symmetric] apply_add_def Let_def
      by (intro exI [of _ "line_sum ((3 * (af_x ?b)\<^sup>2 + a) / d) ?b q"])
        (simp add: idx_Ok buckets_put_def line_sum_eq divide_inverse inv T d2)
  next
    case StepCancel
    then have "pt ?b + pt q = 0" "den_of ?b q = 1" using law by (auto simp: step_of_def den_of_def split: if_splits)
    then show ?thesis using i StepCancel zero
      by (intro exI [of _ af_identity]) (simp add: apply_add_def idx_Ok buckets_put_def Let_def)
  qed
qed

text \<open>What the backward pass does to the buckets and their states.\<close>

definition batch_ok :: "'f :: field affine set \<Rightarrow> 'f affine list \<Rightarrow> 'f pending_add list \<Rightarrow> bool" where
  "batch_ok C buckets ps \<longleftrightarrow> distinct (map pa_bucket ps) \<and>
     (\<forall>p \<in> set ps. pa_bucket p < length buckets \<and> buckets ! pa_bucket p \<in> C \<and> \<not> af_infinity (buckets ! pa_bucket p) \<and>
        pa_point p \<in> C \<and> \<not> af_infinity (pa_point p))"

lemma apply_all:
  assumes group: "chord_tangent_group a C pt" and ok: "batch_ok C B0 ps"
    and B: "length B = length B0" "\<forall>p \<in> set ps. B ! pa_bucket p = B0 ! pa_bucket p" and S: "length S = length B0"
  shows "\<exists>B' S'. rfold (rev (classified B0 1 ps)) (apply_add a) (inverse (batch_dens B0 ps), B, S) = (Ok (1, B', S') :: (_, 'e) result) \<and>
    length B' = length B \<and> length S' = length S \<and>
    (\<forall>i < length B. i \<notin> pa_bucket ` set ps \<longrightarrow> B' ! i = B ! i) \<and>
    (\<forall>p \<in> set ps. B' ! pa_bucket p \<in> C \<and> pt (B' ! pa_bucket p) = pt (B0 ! pa_bucket p) + pt (pa_point p)) \<and>
    (\<forall>i < length S. S' ! i = (if i \<in> pa_bucket ` set ps \<and> S ! i = SlotScheduled then SlotFree else S ! i))"
  using ok B S
proof (induction ps arbitrary: B S rule: rev_induct)
  case Nil
  then show ?case by (simp add: batch_dens_def)
next
  case (snoc p ps)
  let ?i = "pa_bucket p"
  let ?S = "if S ! ?i = SlotScheduled then S[?i := SlotFree] else S"
  have two: "(2 :: 'a) \<noteq> 0" using group by (simp add: chord_tangent_group_def)
  have i: "?i < length B" "?i < length S" and fresh: "?i \<notin> pa_bucket ` set ps" and old: "B ! ?i = B0 ! ?i"
      and C: "B ! ?i \<in> C" "\<not> af_infinity (B ! ?i)" "pa_point p \<in> C" "\<not> af_infinity (pa_point p)"
    using snoc.prems by (auto simp: batch_ok_def)
  obtain b' where run: "apply_add a \<lparr>pa_bucket = ?i, pa_step = step_of (B ! ?i) (pa_point p), pa_prefix = batch_dens B0 ps, pa_point = pa_point p\<rparr>
        (inverse (batch_dens B0 ps * den_of (B ! ?i) (pa_point p)), B, S) = (Ok (inverse (batch_dens B0 ps), B[?i := b'], ?S) :: (_, 'e) result)"
      and b': "b' \<in> C" "pt b' = pt (B ! ?i) + pt (pa_point p)"
    using apply_one [OF group i C batch_dens_nonzero [OF two, of B0 ps]] by blast
  have eq: "p\<lparr>pa_prefix := c, pa_step := st\<rparr> = \<lparr>pa_bucket = ?i, pa_step = st, pa_prefix = c, pa_point = pa_point p\<rparr>" for c st
    by (cases p) simp
  have dens: "batch_dens B0 (ps @ [p]) = batch_dens B0 ps * den_of (B ! ?i) (pa_point p)" by (simp add: batch_dens_def old)
  have "batch_ok C B0 ps" using snoc.prems(1) by (simp add: batch_ok_def)
  moreover have "length (B[?i := b']) = length B0" "length ?S = length B0" using snoc.prems by simp_all
  moreover have "\<forall>q \<in> set ps. B[?i := b'] ! pa_bucket q = B0 ! pa_bucket q"
  proof
    fix q
    assume "q \<in> set ps"
    then have "pa_bucket q \<in> pa_bucket ` set ps" by (rule imageI)
    then have "pa_bucket q \<noteq> ?i" using fresh by metis
    moreover have "B ! pa_bucket q = B0 ! pa_bucket q" using \<open>q \<in> set ps\<close> snoc.prems(3) by simp
    ultimately show "B[?i := b'] ! pa_bucket q = B0 ! pa_bucket q" by simp
  qed
  ultimately have "\<exists>B' S'. rfold (rev (classified B0 1 ps)) (apply_add a) (inverse (batch_dens B0 ps), B[?i := b'], ?S) = (Ok (1, B', S') :: (_, 'e) result) \<and>
    length B' = length (B[?i := b']) \<and> length S' = length ?S \<and>
    (\<forall>i < length (B[?i := b']). i \<notin> pa_bucket ` set ps \<longrightarrow> B' ! i = B[?i := b'] ! i) \<and>
    (\<forall>p \<in> set ps. B' ! pa_bucket p \<in> C \<and> pt (B' ! pa_bucket p) = pt (B0 ! pa_bucket p) + pt (pa_point p)) \<and>
    (\<forall>i < length ?S. S' ! i = (if i \<in> pa_bucket ` set ps \<and> ?S ! i = SlotScheduled then SlotFree else ?S ! i))"
    by (intro snoc.IH)
  then obtain B' S' where IH: "rfold (rev (classified B0 1 ps)) (apply_add a) (inverse (batch_dens B0 ps), B[?i := b'], ?S) = (Ok (1, B', S') :: (_, 'e) result)"
      "length B' = length (B[?i := b'])" "length S' = length ?S"
      "\<forall>i < length (B[?i := b']). i \<notin> pa_bucket ` set ps \<longrightarrow> B' ! i = B[?i := b'] ! i"
      "\<forall>p \<in> set ps. B' ! pa_bucket p \<in> C \<and> pt (B' ! pa_bucket p) = pt (B0 ! pa_bucket p) + pt (pa_point p)"
      "\<forall>i < length ?S. S' ! i = (if i \<in> pa_bucket ` set ps \<and> ?S ! i = SlotScheduled then SlotFree else ?S ! i)"
    by (elim exE conjE)
  have S: "length ?S = length S" by simp
  have "rfold (rev (classified B0 1 (ps @ [p]))) (apply_add a) (inverse (batch_dens B0 (ps @ [p])), B, S) = (Ok (1, B', S') :: (_, 'e) result)"
    unfolding classified_snoc dens rev_append old [symmetric] eq using run IH(1) by simp
  moreover have "\<forall>i < length B. i \<notin> pa_bucket ` set (ps @ [p]) \<longrightarrow> B' ! i = B ! i" using IH(4) by simp
  moreover have "\<forall>q \<in> set (ps @ [p]). B' ! pa_bucket q \<in> C \<and> pt (B' ! pa_bucket q) = pt (B0 ! pa_bucket q) + pt (pa_point q)"
    using IH(4,5) i fresh b' old by simp
  moreover have "\<forall>i < length S. S' ! i = (if i \<in> pa_bucket ` set (ps @ [p]) \<and> S ! i = SlotScheduled then SlotFree else S ! i)"
    using IH(6) i fresh by (auto simp: nth_list_update)
  ultimately show ?case using IH(2,3) S by (intro exI [of _ B'] exI [of _ S']) simp
qed

section \<open>What a bucket holds\<close>

definition pending_in :: "('f affine \<Rightarrow> 'g :: ab_group_add) \<Rightarrow> nat \<Rightarrow> 'f pending_add list \<Rightarrow> 'g" where
  "pending_in pt i ps = sum_list (map (\<lambda>p. if pa_bucket p = i then pt (pa_point p) else 0) ps)"

definition deferred_in :: "('f affine \<Rightarrow> 'g :: ab_group_add) \<Rightarrow> nat \<Rightarrow> (nat \<times> 'f affine) list \<Rightarrow> 'g" where
  "deferred_in pt i ds = sum_list (map (\<lambda>(j, p). if j = i then pt p else 0) ds)"

definition overflow_in :: "nat \<Rightarrow> 'g :: ab_group_add list \<Rightarrow> 'g" where
  "overflow_in i ov = (if ov = [] then 0 else ov ! i)"

definition ab_content :: "('f affine \<Rightarrow> 'g :: ab_group_add) \<Rightarrow> ('f, 'g) affine_buckets \<Rightarrow> nat \<Rightarrow> 'g" where
  "ab_content pt s i = pt (ab_buckets s ! i) + overflow_in i (ab_overflow s) + pending_in pt i (ab_batch s) + deferred_in pt i (ab_deferred s)"

definition deferred_ok :: "'f affine set \<Rightarrow> nat \<Rightarrow> (nat \<times> 'f affine) list \<Rightarrow> bool" where
  "deferred_ok C n ds \<longleftrightarrow> (\<forall>(i, p) \<in> set ds. i < n \<and> p \<in> C \<and> \<not> af_infinity p)"

definition ab_ok :: "'f :: field affine set \<Rightarrow> nat \<Rightarrow> ('f, 'g) affine_buckets \<Rightarrow> bool" where
  "ab_ok C n s \<longleftrightarrow> 0 < n \<and> length (ab_buckets s) = n \<and> length (ab_state s) = n \<and> (ab_overflow s = [] \<or> length (ab_overflow s) = n) \<and>
     set (ab_buckets s) \<subseteq> C \<and> batch_ok C (ab_buckets s) (ab_batch s) \<and>
     (\<forall>p \<in> set (ab_batch s). ab_state s ! pa_bucket p \<noteq> SlotFree) \<and>
     (\<forall>i < n. ab_state s ! i = SlotScheduled \<longrightarrow> i \<in> pa_bucket ` set (ab_batch s)) \<and>
     (\<forall>i < n. ab_state s ! i = SlotHot \<longrightarrow> ab_overflow s \<noteq> []) \<and>
     deferred_ok C n (ab_deferred s) \<and> 0 < ab_batch_size s"

text \<open>The outcome of an operation that adds \<open>g i\<close> to bucket \<open>i\<close>.\<close>

definition gives :: "'f :: field affine set \<Rightarrow> nat \<Rightarrow> ('f affine \<Rightarrow> 'g :: ab_group_add) \<Rightarrow> ('f, 'g) affine_buckets \<Rightarrow> (nat \<Rightarrow> 'g) \<Rightarrow>
    ('f, 'g) affine_buckets \<Rightarrow> bool" where
  "gives C n pt s g s' \<longleftrightarrow> ab_ok C n s' \<and> (\<forall>i < n. ab_content pt s' i = ab_content pt s i + g i) \<and> ab_batch_size s' = ab_batch_size s"

lemma gives_refl: "ab_ok C n s \<Longrightarrow> gives C n pt s (\<lambda>i. 0) s"
  by (simp add: gives_def)

lemma gives_trans: "gives C n pt s g s' \<Longrightarrow> gives C n pt s' h s'' \<Longrightarrow> gives C n pt s (\<lambda>i. g i + h i) s''"
  by (auto simp: gives_def algebra_simps)

lemma gives_cong: "gives C n pt s g s' \<Longrightarrow> (\<And>i. i < n \<Longrightarrow> g i = h i) \<Longrightarrow> gives C n pt s h s'"
  by (simp add: gives_def)

lemma pending_in_simps [simp]:
  "pending_in pt i [] = 0" "pending_in pt i (p # ps) = (if pa_bucket p = i then pt (pa_point p) else 0) + pending_in pt i ps"
  "pending_in pt i (ps @ qs) = pending_in pt i ps + pending_in pt i qs"
  by (simp_all add: pending_in_def)

lemma deferred_in_simps [simp]:
  "deferred_in pt i [] = 0" "deferred_in pt i ((j, p) # ds) = (if j = i then pt p else 0) + deferred_in pt i ds"
  "deferred_in pt i (ds @ es) = deferred_in pt i ds + deferred_in pt i es"
  by (simp_all add: deferred_in_def)

lemma pending_none: "i \<notin> pa_bucket ` set ps \<Longrightarrow> pending_in pt i ps = 0"
  by (induction ps) auto

lemma pending_one: "distinct (map pa_bucket ps) \<Longrightarrow> p \<in> set ps \<Longrightarrow> pending_in pt (pa_bucket p) ps = pt (pa_point p)"
proof (induction ps)
  case (Cons q ps)
  show ?case
  proof (cases "p = q")
    case True
    then have "pa_bucket p \<notin> pa_bucket ` set ps" using Cons.prems(1) by simp
    then show ?thesis using True by (simp add: pending_none)
  next
    case False
    then have "p \<in> set ps" using Cons.prems(2) by simp
    then have "pa_bucket p \<in> pa_bucket ` set ps" by (rule imageI)
    then have "pa_bucket q \<noteq> pa_bucket p" using Cons.prems(1) by auto
    then show ?thesis using Cons \<open>p \<in> set ps\<close> by simp
  qed
qed simp

lemma deferred_ok_simps [simp]:
  "deferred_ok C n []" "deferred_ok C n ((i, p) # ds) \<longleftrightarrow> i < n \<and> p \<in> C \<and> \<not> af_infinity p \<and> deferred_ok C n ds"
  "deferred_ok C n (ds @ es) \<longleftrightarrow> deferred_ok C n ds \<and> deferred_ok C n es"
  by (auto simp: deferred_ok_def)

section \<open>The operations\<close>

lemma apply_batch_gives:
  assumes group: "chord_tangent_group a C pt" and ok: "ab_ok C n s"
  shows "\<exists>s'. apply_batch a s = (Ok s' :: (_, 'e) result) \<and> gives C n pt s (\<lambda>i. 0) s' \<and> ab_batch s' = [] \<and> ab_deferred s' = ab_deferred s"
proof (cases "ab_batch s = []")
  case True
  then show ?thesis using ok by (auto simp: apply_batch_def gives_refl)
next
  case False
  let ?ps = "ab_batch s" and ?B = "ab_buckets s"
  have two: "(2 :: 'a) \<noteq> 0" using group by (simp add: chord_tangent_group_def)
  have b: "batch_ok C ?B ?ps" "length (ab_state s) = length ?B" "n = length ?B" using ok by (simp_all add: ab_ok_def)
  have "\<exists>B' S'. rfold (rev (classified ?B 1 ?ps)) (apply_add a) (inverse (batch_dens ?B ?ps), ?B, ab_state s) = (Ok (1, B', S') :: (_, 'e) result) \<and>
    length B' = length ?B \<and> length S' = length (ab_state s) \<and>
    (\<forall>i < length ?B. i \<notin> pa_bucket ` set ?ps \<longrightarrow> B' ! i = ?B ! i) \<and>
    (\<forall>p \<in> set ?ps. B' ! pa_bucket p \<in> C \<and> pt (B' ! pa_bucket p) = pt (?B ! pa_bucket p) + pt (pa_point p)) \<and>
    (\<forall>i < length (ab_state s). S' ! i = (if i \<in> pa_bucket ` set ?ps \<and> ab_state s ! i = SlotScheduled then SlotFree else ab_state s ! i))"
    by (rule apply_all [OF group b(1)]) (use b in auto)
  then obtain B' S' where run: "rfold (rev (classified ?B 1 ?ps)) (apply_add a) (inverse (batch_dens ?B ?ps), ?B, ab_state s) = (Ok (1, B', S') :: (_, 'e) result)"
      and len: "length B' = length ?B" "length S' = length (ab_state s)"
      and others: "\<forall>i < length ?B. i \<notin> pa_bucket ` set ?ps \<longrightarrow> B' ! i = ?B ! i"
      and added: "\<forall>p \<in> set ?ps. B' ! pa_bucket p \<in> C \<and> pt (B' ! pa_bucket p) = pt (?B ! pa_bucket p) + pt (pa_point p)"
      and states: "\<forall>i < length (ab_state s). S' ! i = (if i \<in> pa_bucket ` set ?ps \<and> ab_state s ! i = SlotScheduled then SlotFree else ab_state s ! i)"
    by (elim exE conjE)
  let ?s = "s\<lparr>ab_buckets := B', ab_state := S', ab_batch := []\<rparr>"
  have "\<forall>p \<in> set ?ps. pa_bucket p < length ?B" using b(1) by (simp add: batch_ok_def)
  then have "apply_batch a s = (Ok ?s :: (_, 'e) result)"
    using False run batch_dens_nonzero [OF two, of ?B ?ps] by (simp add: apply_batch_def classify_batch)
  moreover have "ab_content pt ?s i = ab_content pt s i" if "i < n" for i
  proof (cases "i \<in> pa_bucket ` set ?ps")
    case True
    then obtain p where "p \<in> set ?ps" "i = pa_bucket p" by blast
    then show ?thesis using added pending_one [of ?ps p pt] b(1) by (simp add: ab_content_def batch_ok_def)
  next
    case False
    then show ?thesis using others pending_none [of i ?ps pt] b(3) that by (simp add: ab_content_def)
  qed
  moreover have "ab_ok C n ?s"
  proof -
    have "B' ! i \<in> C" if "i < n" for i
    proof (cases "i \<in> pa_bucket ` set ?ps")
      case False
      then show ?thesis using others that b(3) ok by (auto simp: ab_ok_def)
    qed (use added in auto)
    then have "set B' \<subseteq> C" using len b(3) by (auto simp: in_set_conv_nth)
    moreover have "S' ! i \<noteq> SlotScheduled" if "i < n" for i using states ok that by (auto simp: ab_ok_def)
    moreover have "S' ! i = SlotHot \<Longrightarrow> ab_overflow s \<noteq> []" if "i < n" for i
      using states ok that by (auto simp: ab_ok_def split: if_splits)
    ultimately show ?thesis using ok len by (auto simp: ab_ok_def batch_ok_def)
  qed
  ultimately show ?thesis by (intro exI [of _ ?s]) (simp add: gives_def)
qed

lemma batch_ok_set: "batch_ok C B ps \<Longrightarrow> p \<in> set ps \<Longrightarrow> pa_bucket p < length B"
  by (simp add: batch_ok_def)

lemma group_infinity: "chord_tangent_group a C pt \<Longrightarrow> p \<in> C \<Longrightarrow> af_infinity p \<Longrightarrow> pt p = 0"
  unfolding chord_tangent_group_def by blast

lemma group_negate: "chord_tangent_group a C pt \<Longrightarrow> p \<in> C \<Longrightarrow> af_neg p \<in> C \<and> pt (af_neg p) = - pt p"
  unfolding chord_tangent_group_def by blast

lemma bucket_on_curve: "ab_ok C n s \<Longrightarrow> i < n \<Longrightarrow> ab_buckets s ! i \<in> C"
  by (auto simp: ab_ok_def)

lemma put_bucket_gives:
  assumes ok: "ab_ok C n s" and i: "i < n" "ab_state s ! i = SlotFree" "af_infinity (ab_buckets s ! i)" and p: "p \<in> C" "\<not> af_infinity p"
    and group: "chord_tangent_group a C pt"
  shows "gives C n pt s (\<lambda>j. if j = i then pt p else 0) (s\<lparr>ab_buckets := (ab_buckets s)[i := p]\<rparr>)"
proof -
  have zero: "pt (ab_buckets s ! i) = 0" by (rule group_infinity [OF group bucket_on_curve [OF ok i(1)] i(3)])
  have fresh: "i \<notin> pa_bucket ` set (ab_batch s)" using ok i(2) by (auto simp: ab_ok_def)
  have "batch_ok C ((ab_buckets s)[i := p]) (ab_batch s)"
    using ok fresh by (auto simp: ab_ok_def batch_ok_def nth_list_update image_iff)
  then have "ab_ok C n (s\<lparr>ab_buckets := (ab_buckets s)[i := p]\<rparr>)"
    using ok p set_update_subset_insert [of "ab_buckets s" i p] by (auto simp: ab_ok_def)
  then show ?thesis using ok i zero by (auto simp: gives_def ab_content_def ab_ok_def nth_list_update)
qed

lemma schedule_gives:
  assumes ok: "ab_ok C n s" and i: "i < n" "ab_state s ! i = SlotFree" "\<not> af_infinity (ab_buckets s ! i)" and p: "p \<in> C" "\<not> af_infinity p"
  shows "\<exists>s'. schedule i p s = (Ok s' :: (_, 'e) result) \<and> gives C n pt s (\<lambda>j. if j = i then pt p else 0) s' \<and>
    length (ab_batch s') = Suc (length (ab_batch s)) \<and> ab_deferred s' = ab_deferred s"
proof -
  let ?q = "\<lparr>pa_bucket = i, pa_step = StepAdd, pa_prefix = 1, pa_point = p\<rparr>"
  let ?s = "s\<lparr>ab_state := (ab_state s)[i := SlotScheduled], ab_batch := ab_batch s @ [?q]\<rparr>"
  have fresh: "i \<notin> pa_bucket ` set (ab_batch s)" using ok i(2) by (auto simp: ab_ok_def)
  have run: "schedule i p s = (Ok ?s :: (_, 'e) result)" using ok i by (simp add: schedule_def buckets_put_def ab_ok_def)
  have "batch_ok C (ab_buckets s) (ab_batch s @ [?q])" using ok i p fresh by (auto simp: ab_ok_def batch_ok_def)
  moreover have "\<forall>q \<in> set (ab_batch s @ [?q]). (ab_state s)[i := SlotScheduled] ! pa_bucket q \<noteq> SlotFree"
    using ok i fresh batch_ok_set [of C "ab_buckets s" "ab_batch s"] by (auto simp: ab_ok_def nth_list_update)
  moreover have "\<forall>j < n. (ab_state s)[i := SlotScheduled] ! j = SlotScheduled \<longrightarrow> j \<in> pa_bucket ` set (ab_batch s @ [?q])"
    using ok i by (auto simp: ab_ok_def nth_list_update)
  moreover have "\<forall>j < n. (ab_state s)[i := SlotScheduled] ! j = SlotHot \<longrightarrow> ab_overflow s \<noteq> []"
    using ok i by (auto simp: ab_ok_def nth_list_update)
  ultimately have "ab_ok C n ?s" using ok by (simp add: ab_ok_def)
  then have "gives C n pt s (\<lambda>j. if j = i then pt p else 0) ?s" by (auto simp: gives_def ab_content_def)
  then show ?thesis using run by (intro exI [of _ ?s]) simp
qed

lemma overflow_gives:
  assumes ok: "ab_ok C n s" and i: "i < n" "ab_overflow s \<noteq> []"
  shows "\<exists>s'. add_overflow pt i p s = (Ok s' :: (_, 'e) result) \<and> gives C n pt s (\<lambda>j. if j = i then pt p else 0) s' \<and>
    ab_batch s' = ab_batch s \<and> ab_deferred s' = ab_deferred s \<and> ab_state s' = ab_state s \<and> ab_overflow s' \<noteq> []"
proof -
  let ?s = "s\<lparr>ab_overflow := (ab_overflow s)[i := ab_overflow s ! i + pt p]\<rparr>"
  have run: "add_overflow pt i p s = (Ok ?s :: (_, 'e) result)" using ok i by (auto simp: add_overflow_def idx_Ok buckets_put_def ab_ok_def)
  have "ab_ok C n ?s" using ok i by (auto simp: ab_ok_def)
  then have "gives C n pt s (\<lambda>j. if j = i then pt p else 0) ?s"
    using ok i by (auto simp: gives_def ab_content_def ab_ok_def overflow_in_def nth_list_update algebra_simps)
  then show ?thesis using run i by (intro exI [of _ ?s]) simp
qed

lemma nth_update_noteq: "xs ! k \<noteq> c \<Longrightarrow> d \<noteq> c \<Longrightarrow> xs[i := d] ! k \<noteq> c"
  by (cases "k = i"; cases "i < length xs") (simp_all add: list_update_beyond)

text \<open>Moving deferred points to the overflow: the points of the list are taken from the state before.\<close>

lemma spill_points_gives:
  assumes "ab_ok C n s" and "ab_overflow s \<noteq> []" and "deferred_ok C n ds"
  shows "\<exists>s'. rfold ds (spill_point pt) s = (Ok s' :: (_, 'e) result) \<and> gives C n pt s (\<lambda>i. deferred_in pt i ds) s' \<and>
    ab_batch s' = ab_batch s \<and> ab_deferred s' = ab_deferred s"
  using assms
proof (induction ds arbitrary: s)
  case (Cons d ds)
  obtain i p where d: "d = (i, p)" by fastforce
  have i: "i < n" using Cons.prems(3) by (simp add: d)
  obtain s1 where s1: "add_overflow pt i p s = (Ok s1 :: (_, 'e) result)" "gives C n pt s (\<lambda>j. if j = i then pt p else 0) s1"
      "ab_batch s1 = ab_batch s" "ab_deferred s1 = ab_deferred s" "ab_overflow s1 \<noteq> []"
    using overflow_gives [OF Cons.prems(1) i Cons.prems(2)] by metis
  have ok1: "ab_ok C n s1" using s1(2) by (simp add: gives_def)
  let ?s = "s1\<lparr>ab_state := (ab_state s1)[i := SlotHot]\<rparr>"
  have "\<forall>q \<in> set (ab_batch s1). (ab_state s1)[i := SlotHot] ! pa_bucket q \<noteq> SlotFree"
    using ok1 nth_update_noteq [of "ab_state s1" _ SlotFree SlotHot i] by (simp add: ab_ok_def)
  moreover have "\<forall>j < n. (ab_state s1)[i := SlotHot] ! j = SlotScheduled \<longrightarrow> j \<in> pa_bucket ` set (ab_batch s1)"
    using ok1 i by (auto simp: ab_ok_def nth_list_update split: if_splits)
  ultimately have ok2: "ab_ok C n ?s" using ok1 s1(5) by (simp add: ab_ok_def)
  then have step: "gives C n pt s1 (\<lambda>i. 0) ?s" by (simp add: gives_def ab_content_def)
  obtain s' where s': "rfold ds (spill_point pt) ?s = (Ok s' :: (_, 'e) result)" "gives C n pt ?s (\<lambda>i. deferred_in pt i ds) s'"
      "ab_batch s' = ab_batch ?s" "ab_deferred s' = ab_deferred ?s"
    using Cons.IH [OF ok2] Cons.prems(3) s1(5) by (auto simp: d)
  have "spill_point pt d s = (Ok ?s :: (_, 'e) result)"
    using s1(1) i ok1 by (simp add: d spill_point_def buckets_put_def ab_ok_def)
  moreover have "gives C n pt s (\<lambda>j. deferred_in pt j (d # ds)) s'"
    by (rule gives_cong [OF gives_trans [OF gives_trans [OF s1(2) step] s'(2)]]) (auto simp: d)
  ultimately show ?case using s' s1(3,4) by (intro exI [of _ s']) simp
qed (simp add: gives_refl)

lemma spill_gives:
  assumes ok: "ab_ok C n s"
  shows "\<exists>s'. spill_deferred pt s = (Ok s' :: (_, 'e) result) \<and> gives C n pt s (\<lambda>i. 0) s' \<and> ab_batch s' = ab_batch s \<and> ab_deferred s' = []"
proof (cases "ab_deferred s = []")
  case True
  then show ?thesis using ok by (auto simp: spill_deferred_def gives_refl)
next
  case False
  let ?s = "(if ab_overflow s = [] then s\<lparr>ab_overflow := replicate (length (ab_buckets s)) 0\<rparr> else s)\<lparr>ab_deferred := []\<rparr>"
  have n: "0 < n" "length (ab_buckets s) = n" using ok by (auto simp: ab_ok_def)
  have ok1: "ab_ok C n ?s" using ok n by (auto simp: ab_ok_def)
  have "ab_overflow ?s \<noteq> []" "deferred_ok C n (ab_deferred s)" using n ok by (auto simp: ab_ok_def)
  from spill_points_gives [OF ok1 this, of pt] obtain s' where
    s': "rfold (ab_deferred s) (spill_point pt) ?s = (Ok s' :: (_, 'e) result)" "gives C n pt ?s (\<lambda>i. deferred_in pt i (ab_deferred s)) s'"
      "ab_batch s' = ab_batch ?s" "ab_deferred s' = ab_deferred ?s" by blast
  have "ab_content pt ?s i + deferred_in pt i (ab_deferred s) = ab_content pt s i" if "i < n" for i
    using that n by (simp add: ab_content_def overflow_in_def)
  then have "gives C n pt s (\<lambda>i. 0) s'" using s'(2) by (simp add: gives_def)
  moreover have "spill_deferred pt s = (Ok s' :: (_, 'e) result)" using False s'(1) by (cases "ab_overflow s = []") (simp_all add: spill_deferred_def)
  ultimately show ?thesis using s'(3,4) by (intro exI [of _ s']) simp
qed

lemma defer_gives:
  assumes ok: "ab_ok C n s" and i: "i < n" and p: "p \<in> C" "\<not> af_infinity p"
  shows "\<exists>s'. defer_point pt i p s = (Ok s' :: (_, 'e) result) \<and> gives C n pt s (\<lambda>j. if j = i then pt p else 0) s' \<and>
    ab_batch s' = ab_batch s"
proof -
  obtain s1 where s1: "(if length (ab_deferred s) = ab_batch_size s then spill_deferred pt s else Ok s) = (Ok s1 :: (_, 'e) result)"
      "gives C n pt s (\<lambda>i. 0) s1" "ab_batch s1 = ab_batch s"
    using spill_gives [OF ok, of pt] gives_refl [OF ok, of pt] by (cases "length (ab_deferred s) = ab_batch_size s") force+
  let ?s = "s1\<lparr>ab_deferred := ab_deferred s1 @ [(i, p)]\<rparr>"
  have "ab_ok C n ?s" using s1(2) i p by (simp add: gives_def ab_ok_def)
  then have "gives C n pt s (\<lambda>j. if j = i then pt p else 0) ?s"
    using s1(2) by (auto simp: gives_def ab_content_def add.assoc [symmetric])
  then show ?thesis using s1 by (intro exI [of _ ?s]) (simp add: defer_point_def)
qed

text \<open>
  One retried point either enters the state or stays deferred; together the batch and the deferred points
  do not grow.
\<close>

lemma retry_point_gives:
  assumes group: "chord_tangent_group a C pt" and ok: "ab_ok C n s" and i: "i < n" and p: "p \<in> C" "\<not> af_infinity p"
  shows "\<exists>s' more. retry_point pt (i, p) (s, kept) = (Ok (s', kept @ more) :: (_, 'e) result) \<and>
    gives C n pt s (\<lambda>j. (if j = i then pt p else 0) - deferred_in pt j more) s' \<and> deferred_ok C n more \<and>
    length (ab_batch s') + length more \<le> Suc (length (ab_batch s)) \<and> length (ab_batch s') \<le> max (length (ab_batch s)) (ab_batch_size s) \<and>
    ab_deferred s' = ab_deferred s"
proof -
  have len: "i < length (ab_state s)" "i < length (ab_buckets s)" using ok i by (simp_all add: ab_ok_def)
  consider "ab_state s ! i = SlotFree" "length (ab_batch s) < ab_batch_size s" "af_infinity (ab_buckets s ! i)"
    | "ab_state s ! i = SlotFree" "length (ab_batch s) < ab_batch_size s" "\<not> af_infinity (ab_buckets s ! i)"
    | "ab_state s ! i = SlotHot"
    | "ab_state s ! i = SlotFree \<and> \<not> length (ab_batch s) < ab_batch_size s \<or> ab_state s ! i = SlotScheduled"
    by (cases "ab_state s ! i") auto
  then show ?thesis
  proof cases
    case 1
    show ?thesis
      using put_bucket_gives [OF ok i 1(1,3) p group] len 1
      by (intro exI [of _ "s\<lparr>ab_buckets := (ab_buckets s)[i := p]\<rparr>"] exI [of _ "[]"])
        (simp add: retry_point_def idx_Ok buckets_put_def)
  next
    case 2
    obtain s' where s': "schedule i p s = (Ok s' :: (_, 'e) result)" "gives C n pt s (\<lambda>j. if j = i then pt p else 0) s'"
        "length (ab_batch s') = Suc (length (ab_batch s))" "ab_deferred s' = ab_deferred s"
      using schedule_gives [OF ok i 2(1,3) p] by blast
    show ?thesis using s' len 2 by (intro exI [of _ s'] exI [of _ "[]"]) (simp add: retry_point_def idx_Ok)
  next
    case 3
    have "ab_overflow s \<noteq> []" using ok i 3 by (simp add: ab_ok_def)
    from overflow_gives [OF ok i this, of pt p] obtain s' where
      s': "add_overflow pt i p s = (Ok s' :: (_, 'e) result)" "gives C n pt s (\<lambda>j. if j = i then pt p else 0) s'" "ab_batch s' = ab_batch s" "ab_deferred s' = ab_deferred s"
      by blast
    show ?thesis using s' len 3 by (intro exI [of _ s'] exI [of _ "[]"]) (simp add: retry_point_def idx_Ok)
  next
    case 4
    have "gives C n pt s (\<lambda>j. (if j = i then pt p else 0) - deferred_in pt j [(i, p)]) s"
      by (rule gives_cong [OF gives_refl [OF ok]]) auto
    then show ?thesis using len 4 i p
      by (intro exI [of _ s] exI [of _ "[(i, p)]"]) (auto simp: retry_point_def idx_Ok)
  qed
qed

lemma retry_points_gives:
  assumes group: "chord_tangent_group a C pt" and "ab_ok C n s" and "deferred_ok C n ds"
  shows "\<exists>s' more. rfold ds (retry_point pt) (s, kept) = (Ok (s', kept @ more) :: (_, 'e) result) \<and>
    gives C n pt s (\<lambda>j. deferred_in pt j ds - deferred_in pt j more) s' \<and> deferred_ok C n more \<and>
    length (ab_batch s') + length more \<le> length (ab_batch s) + length ds \<and> length (ab_batch s') \<le> max (length (ab_batch s)) (ab_batch_size s) \<and>
    ab_deferred s' = ab_deferred s"
  using assms(2,3)
proof (induction ds arbitrary: s kept)
  case Nil
  then show ?case by (intro exI [of _ s] exI [of _ "[]"]) (simp add: gives_refl)
next
  case (Cons d ds)
  obtain i p where d: "d = (i, p)" by fastforce
  have "i < n" "p \<in> C" "\<not> af_infinity p" using Cons.prems(2) by (simp_all add: d)
  from retry_point_gives [OF group Cons.prems(1) this, of kept] obtain s1 more where
    s1: "retry_point pt d (s, kept) = (Ok (s1, kept @ more) :: (_, 'e) result)"
      "gives C n pt s (\<lambda>j. (if j = i then pt p else 0) - deferred_in pt j more) s1" "deferred_ok C n more"
      "length (ab_batch s1) + length more \<le> Suc (length (ab_batch s))" "length (ab_batch s1) \<le> max (length (ab_batch s)) (ab_batch_size s)" "ab_deferred s1 = ab_deferred s"
    unfolding d by (elim exE conjE)
  have "ab_ok C n s1" "deferred_ok C n ds" using s1(2) Cons.prems(2) by (simp_all add: gives_def d)
  from Cons.IH [OF this, of "kept @ more"] obtain s' rest where
    s': "rfold ds (retry_point pt) (s1, kept @ more) = (Ok (s', (kept @ more) @ rest) :: (_, 'e) result)"
      "gives C n pt s1 (\<lambda>j. deferred_in pt j ds - deferred_in pt j rest) s'" "deferred_ok C n rest"
      "length (ab_batch s') + length rest \<le> length (ab_batch s1) + length ds" "length (ab_batch s') \<le> max (length (ab_batch s1)) (ab_batch_size s1)"
      "ab_deferred s' = ab_deferred s1"
    by (elim exE conjE)
  have "gives C n pt s (\<lambda>j. deferred_in pt j (d # ds) - deferred_in pt j (more @ rest)) s'"
    by (rule gives_cong [OF gives_trans [OF s1(2) s'(2)]]) (simp add: d)
  moreover have "ab_batch_size s1 = ab_batch_size s" using s1(2) by (simp add: gives_def)
  ultimately show ?case using s1 s' by (intro exI [of _ s'] exI [of _ "more @ rest"]) auto
qed

lemma retry_gives:
  assumes group: "chord_tangent_group a C pt" and ok: "ab_ok C n s"
  shows "\<exists>s'. retry_deferred pt s = (Ok s' :: (_, 'e) result) \<and> gives C n pt s (\<lambda>j. 0) s' \<and>
    length (ab_batch s') + length (ab_deferred s') \<le> length (ab_batch s) + length (ab_deferred s) \<and>
    length (ab_batch s') \<le> max (length (ab_batch s)) (ab_batch_size s)"
proof -
  have "deferred_ok C n (ab_deferred s)" using ok by (simp add: ab_ok_def)
  from retry_points_gives [OF group ok this, of "[]"] obtain s1 more where
    s1: "rfold (ab_deferred s) (retry_point pt) (s, []) = (Ok (s1, more) :: (_, 'e) result)"
      "gives C n pt s (\<lambda>j. deferred_in pt j (ab_deferred s) - deferred_in pt j more) s1" "deferred_ok C n more"
      "length (ab_batch s1) + length more \<le> length (ab_batch s) + length (ab_deferred s)"
      "length (ab_batch s1) \<le> max (length (ab_batch s)) (ab_batch_size s)" "ab_deferred s1 = ab_deferred s"
    by auto
  let ?s = "s1\<lparr>ab_deferred := more\<rparr>"
  have "ab_ok C n ?s" using s1(2,3) by (simp add: gives_def ab_ok_def)
  moreover have "ab_content pt ?s i = ab_content pt s i" if "i < n" for i
  proof -
    have "ab_content pt s1 i = ab_content pt s i + (deferred_in pt i (ab_deferred s) - deferred_in pt i more)"
      using s1(2) that by (simp add: gives_def)
    then show ?thesis using s1(6) by (simp add: ab_content_def algebra_simps)
  qed
  moreover have "ab_batch_size s1 = ab_batch_size s" using s1(2) by (simp add: gives_def)
  ultimately show ?thesis using s1 by (intro exI [of _ ?s]) (simp add: retry_deferred_def gives_def)
qed

text \<open>Emptying full batches ends within the fuel, and leaves room in the batch.\<close>

lemma drain_gives:
  assumes group: "chord_tangent_group a C pt"
  shows "ab_ok C n s \<Longrightarrow> length (ab_batch s) \<le> ab_batch_size s \<Longrightarrow> length (ab_deferred s) + 1 < fuel \<Longrightarrow>
    \<exists>s'. drain_full pt a fuel s = (Ok s' :: (_, 'e) result) \<and> gives C n pt s (\<lambda>i. 0) s' \<and> length (ab_batch s') < ab_batch_size s"
proof (induction fuel arbitrary: s)
  case (Suc fuel)
  show ?case
  proof (cases "length (ab_batch s) = ab_batch_size s")
    case False
    then show ?thesis using Suc.prems gives_refl [OF Suc.prems(1), of pt] by (intro exI [of _ s]) simp
  next
    case True
    obtain s1 where s1: "apply_batch a s = (Ok s1 :: (_, 'e) result)" "gives C n pt s (\<lambda>i. 0) s1" "ab_batch s1 = []" "ab_deferred s1 = ab_deferred s"
      using apply_batch_gives [OF group Suc.prems(1)] by blast
    then have ok1: "ab_ok C n s1" and size1: "ab_batch_size s1 = ab_batch_size s" by (simp_all add: gives_def)
    obtain s2 where s2: "retry_deferred pt s1 = (Ok s2 :: (_, 'e) result)" "gives C n pt s1 (\<lambda>i. 0) s2"
        "length (ab_batch s2) + length (ab_deferred s2) \<le> length (ab_deferred s)" "length (ab_batch s2) \<le> ab_batch_size s"
      using retry_gives [OF group ok1] s1(3,4) size1 by (auto simp: max_def)
    then have ok2: "ab_ok C n s2" and size2: "ab_batch_size s2 = ab_batch_size s" using size1 by (simp_all add: gives_def)
    have both: "gives C n pt s (\<lambda>i. 0) s2" by (rule gives_cong [OF gives_trans [OF s1(2) s2(2)]]) simp
    show ?thesis
    proof (cases "length (ab_batch s2) = ab_batch_size s")
      case True
      have "0 < ab_batch_size s" using Suc.prems(1) by (simp add: ab_ok_def)
      then have "length (ab_deferred s2) + 1 < fuel" using s2(3) True Suc.prems(3) by simp
      from Suc.IH [OF ok2 _ this] obtain s' where
        s': "drain_full pt a fuel s2 = (Ok s' :: (_, 'e) result)" "gives C n pt s2 (\<lambda>i. 0) s'" "length (ab_batch s') < ab_batch_size s"
        using s2(4) size2 by auto
      have "gives C n pt s (\<lambda>i. 0) s'" by (rule gives_cong [OF gives_trans [OF both s'(2)]]) simp
      then show ?thesis using s' s1(1) s2(1) \<open>length (ab_batch s) = ab_batch_size s\<close> by (intro exI [of _ s']) simp
    next
      case False
      moreover obtain f where "fuel = Suc f" using Suc.prems(3) by (cases fuel) auto
      ultimately show ?thesis
        using s1(1) s2(1,4) both size2 \<open>length (ab_batch s) = ab_batch_size s\<close> by (intro exI [of _ s2]) simp
    qed
  qed
qed simp

lemma add_gives:
  assumes group: "chord_tangent_group a C pt" and ok: "ab_ok C n s" and room: "length (ab_batch s) < ab_batch_size s"
    and i: "i < n" and p: "p \<in> C"
  shows "\<exists>s'. ab_add pt a i p s = (Ok s' :: (_, 'e) result) \<and> gives C n pt s (\<lambda>j. if j = i then pt p else 0) s' \<and>
    length (ab_batch s') < ab_batch_size s'"
proof (cases "af_infinity p")
  case True
  then have "pt p = 0" by (rule group_infinity [OF group p])
  then show ?thesis using True ok room by (intro exI [of _ s]) (simp add: ab_add_def gives_def)
next
  case False
  have len: "i < length (ab_state s)" "i < length (ab_buckets s)" using ok i by (simp_all add: ab_ok_def)
  have size: "gives C n pt s g s' \<Longrightarrow> ab_batch_size s' = ab_batch_size s" for g s' by (simp add: gives_def)
  show ?thesis
  proof (cases "ab_state s ! i")
    case SlotScheduled
    obtain s' where "defer_point pt i p s = (Ok s' :: (_, 'e) result)" "gives C n pt s (\<lambda>j. if j = i then pt p else 0) s'" "ab_batch s' = ab_batch s"
      using defer_gives [OF ok i p False] by blast
    then show ?thesis using size room False len SlotScheduled by (intro exI [of _ s']) (simp add: ab_add_def idx_Ok)
  next
    case SlotHot
    then have "ab_overflow s \<noteq> []" using ok i by (simp add: ab_ok_def)
    from overflow_gives [OF ok i this, of pt p] obtain s' where
      "add_overflow pt i p s = (Ok s' :: (_, 'e) result)" "gives C n pt s (\<lambda>j. if j = i then pt p else 0) s'" "ab_batch s' = ab_batch s" by blast
    then show ?thesis using size room False len SlotHot by (intro exI [of _ s']) (simp add: ab_add_def idx_Ok)
  next
    case SlotFree
    show ?thesis
    proof (cases "af_infinity (ab_buckets s ! i)")
      case True
      then show ?thesis
        using put_bucket_gives [OF ok i SlotFree True p False group] len room False SlotFree
        by (intro exI [of _ "s\<lparr>ab_buckets := (ab_buckets s)[i := p]\<rparr>"]) (simp add: ab_add_def idx_Ok buckets_put_def)
    next
      case occupied: False
      obtain s1 where s1: "schedule i p s = (Ok s1 :: (_, 'e) result)" "gives C n pt s (\<lambda>j. if j = i then pt p else 0) s1"
          "length (ab_batch s1) = Suc (length (ab_batch s))"
        using schedule_gives [OF ok i SlotFree occupied p False] by blast
      have "ab_ok C n s1" "length (ab_batch s1) \<le> ab_batch_size s1" using s1 room by (simp_all add: gives_def)
      from drain_gives [OF group this, of "length (ab_deferred s1) + 2"] obtain s' where
        s': "drain_full pt a (length (ab_deferred s1) + 2) s1 = (Ok s' :: (_, 'e) result)" "gives C n pt s1 (\<lambda>i. 0) s'"
          "length (ab_batch s') < ab_batch_size s1" by auto
      have "gives C n pt s (\<lambda>j. if j = i then pt p else 0) s'" by (rule gives_cong [OF gives_trans [OF s1(2) s'(2)]]) simp
      then show ?thesis using s1(1) s' size [OF s1(2)] size False len SlotFree occupied
        by (intro exI [of _ s']) (simp add: ab_add_def idx_Ok)
    qed
  qed
qed

end
