(* ===== verification/Msm_Sum.thy ===== *)
theory Msm_Sum
  imports Msm_Buckets
begin

text \<open>
  From buckets to the product: multiples in an abelian group, the window sum as a weighted sum of the
  buckets, and the combination of the windows.
\<close>

section \<open>Multiples\<close>

primrec nmul :: "nat \<Rightarrow> 'g :: monoid_add \<Rightarrow> 'g" where
  "nmul 0 g = 0"
| "nmul (Suc k) g = g + nmul k g"

definition gmul :: "int \<Rightarrow> 'g :: ab_group_add \<Rightarrow> 'g" where
  "gmul k g = (if 0 \<le> k then nmul (nat k) g else - nmul (nat (- k)) g)"

lemma nmul_add: "nmul (m + n) g = nmul m g + nmul n g"
  by (induction m) (simp_all add: add.assoc)

lemma nmul_zero [simp]: "nmul k 0 = 0"
  by (induction k) simp_all

lemma nmul_plus: "nmul k (g + h) = nmul k g + nmul k (h :: 'g :: ab_group_add)"
  by (induction k) (simp_all add: algebra_simps)

lemma nmul_uminus: "nmul k (- g) = - nmul k (g :: 'g :: ab_group_add)"
  by (induction k) simp_all

lemma gmul_of_diff: "gmul (int m - int n) g = nmul m g - nmul n g"
proof (cases "n \<le> m")
  case True
  then obtain d where "m = n + d" by (metis le_Suc_ex)
  then show ?thesis by (simp add: gmul_def nmul_add)
next
  case False
  then obtain d where "n = m + d" "0 < d" by (metis less_imp_add_positive not_le)
  then show ?thesis by (simp add: gmul_def nmul_add)
qed

lemma gmul_add: "gmul (k + l) g = gmul k g + gmul l g"
proof -
  obtain m n m' n' where kl: "k = int m - int n" "l = int m' - int n'" by (metis int_diff_cases)
  then have "k + l = int (m + m') - int (n + n')" by simp
  then have "gmul (k + l) g = nmul (m + m') g - nmul (n + n') g" by (simp only: gmul_of_diff)
  then show ?thesis by (simp add: kl gmul_of_diff nmul_add algebra_simps)
qed

lemma gmul_simps [simp]: "gmul 0 g = 0" "gmul 1 g = g" "gmul (int n) g = nmul n g"
  using gmul_of_diff [of n 0 g] by (simp_all add: gmul_def)

lemma gmul_plus: "gmul k (g + h) = gmul k g + gmul k h"
  by (simp add: gmul_def nmul_plus)

lemma gmul_zero [simp]: "gmul k 0 = 0"
  by (simp add: gmul_def)

lemma gmul_nat_mult: "gmul (int m * k) g = nmul m (gmul k g)"
  by (induction m) (simp_all add: distrib_right gmul_add)

lemma gmul_sum: "finite A \<Longrightarrow> gmul (\<Sum>x \<in> A. f x) g = (\<Sum>x \<in> A. gmul (f x) g)"
  by (induction rule: finite_induct) (simp_all add: gmul_add)

lemma nmul_sum_list: "nmul k (sum_list xs) = sum_list (map (nmul k) xs)" for xs :: "'g :: ab_group_add list"
  by (induction xs) (simp_all add: nmul_plus)

lemma sum_nmul: "nmul k (\<Sum>x \<in> A. f x) = (\<Sum>x \<in> A. nmul k (f x))" for f :: "'a \<Rightarrow> 'g :: ab_group_add"
  by (induction A rule: infinite_finite_induct) (simp_all add: nmul_plus)

lemma nmul_mult: "nmul (m * n) g = nmul m (nmul n g)"
  by (induction m) (simp_all add: nmul_add)

section \<open>Sums of buckets\<close>

definition weighted_sum :: "nat \<Rightarrow> (nat \<Rightarrow> 'g :: ab_group_add) \<Rightarrow> 'g" where
  "weighted_sum n f = (\<Sum>i < n. nmul (Suc i) (f i))"

lemma weighted_sum_add: "weighted_sum n (\<lambda>i. f i + g i) = weighted_sum n f + weighted_sum n g"
  by (simp add: weighted_sum_def nmul_plus sum.distrib del: nmul.simps)

lemma weighted_sum_zero [simp]: "weighted_sum n (\<lambda>i. 0) = 0"
  by (simp add: weighted_sum_def)

lemma weighted_sum_cong: "(\<And>i. i < n \<Longrightarrow> f i = g i) \<Longrightarrow> weighted_sum n f = weighted_sum n g"
  by (simp add: weighted_sum_def)

lemma weighted_sum_single: "i < n \<Longrightarrow> weighted_sum n (\<lambda>j. if j = i then g else 0) = nmul (Suc i) g"
proof -
  assume "i < n"
  have "weighted_sum n (\<lambda>j. if j = i then g else 0) = (\<Sum>j < n. if j = i then nmul (Suc i) g else 0)"
    unfolding weighted_sum_def by (rule sum.cong) auto
  then show ?thesis using \<open>i < n\<close> by simp
qed

lemma running_sums: "fold running_sum (rev xs) (0, 0) = (weighted_sum (length xs) ((!) xs), sum_list xs)"
proof (induction xs)
  case (Cons x xs)
  have "weighted_sum (Suc (length xs)) ((!) (x # xs)) = x + (\<Sum>i < length xs. xs ! i + nmul (Suc i) (xs ! i))"
    unfolding weighted_sum_def by (subst sum.lessThan_Suc_shift) simp
  also have "\<dots> = x + (sum_list xs + weighted_sum (length xs) ((!) xs))"
    by (simp add: weighted_sum_def sum.distrib sum_list_sum_nth atLeast0LessThan del: nmul.simps)
  finally show ?case using Cons by (simp add: running_sum_def Let_def algebra_simps)
qed (simp add: weighted_sum_def)

lemma xyzz_window_sum_eq: "xyzz_window_sum xs = weighted_sum (length xs) ((!) xs)"
  by (simp add: xyzz_window_sum_def running_sums)

definition digit_part :: "int \<Rightarrow> 'g :: ab_group_add \<Rightarrow> nat \<Rightarrow> 'g" where
  "digit_part d g i = (if 0 < d \<and> i = nat d - 1 then g else if d < 0 \<and> i = nat (- d) - 1 then - g else 0)"

lemma digit_part_sum:
  assumes "- int n \<le> d" and "d < int n"
  shows "weighted_sum n (digit_part d g) = gmul d g"
proof -
  consider "d = 0" | "0 < d" | "d < 0" by linarith
  then show ?thesis
  proof cases
    case 1
    then show ?thesis by (simp add: digit_part_def [abs_def])
  next
    case 2
    then have "digit_part d g = (\<lambda>i. if i = nat d - 1 then g else 0)" "nat d - 1 < n" "Suc (nat d - 1) = nat d"
      using assms by (auto simp: digit_part_def fun_eq_iff)
    then show ?thesis using 2 weighted_sum_single [of "nat d - 1" n g] by (simp add: gmul_def)
  next
    case 3
    then have "digit_part d g = (\<lambda>i. if i = nat (- d) - 1 then - g else 0)" "nat (- d) - 1 < n" "Suc (nat (- d) - 1) = nat (- d)"
      using assms by (auto simp: digit_part_def fun_eq_iff)
    then show ?thesis using 3 weighted_sum_single [of "nat (- d) - 1" n "- g"] by (simp add: gmul_def nmul_uminus)
  qed
qed

section \<open>Both accumulators\<close>

lemma digit_index: "- int n \<le> d \<Longrightarrow> d < int n \<Longrightarrow> d \<noteq> 0 \<Longrightarrow> nat \<bar>d\<bar> - 1 < n"
  by auto

lemma xyzz_digits_eq:
  assumes "\<forall>(b, d) \<in> set ps. - int (length buckets) \<le> d \<and> d < int (length buckets)"
  shows "\<exists>out. rfold ps (xyzz_digit pt) buckets = (Ok out :: (_, 'e) result) \<and> length out = length buckets \<and>
    (\<forall>i < length buckets. out ! i = buckets ! i + sum_list (map (\<lambda>(b, d). digit_part d (pt b) i) ps))"
  using assms
proof (induction ps arbitrary: buckets)
  case (Cons p ps)
  obtain b d where p: "p = (b, d)" by fastforce
  have d: "- int (length buckets) \<le> d" "d < int (length buckets)" using Cons.prems by (auto simp: p)
  have "\<exists>out. xyzz_digit pt p buckets = (Ok out :: (_, 'e) result) \<and> length out = length buckets \<and>
      (\<forall>i < length buckets. out ! i = buckets ! i + digit_part d (pt b) i)"
    using digit_index [OF d] d
    by (auto simp: xyzz_digit_def p idx_Ok buckets_put_def digit_part_def nth_list_update)
  then obtain out where out: "xyzz_digit pt p buckets = (Ok out :: (_, 'e) result)" "length out = length buckets"
      "\<forall>i < length buckets. out ! i = buckets ! i + digit_part d (pt b) i" by blast
  have "\<forall>(b, d) \<in> set ps. - int (length out) \<le> d \<and> d < int (length out)" using Cons.prems out(2) by auto
  from Cons.IH [OF this] obtain out' where
    "rfold ps (xyzz_digit pt) out = (Ok out' :: (_, 'e) result)" "length out' = length out"
      "\<forall>i < length out. out' ! i = out ! i + sum_list (map (\<lambda>(b, d). digit_part d (pt b) i) ps)" by blast
  then show ?case using out by (intro exI [of _ out']) (simp add: p add.assoc)
qed simp

lemma weighted_digit_sum:
  assumes "\<forall>(b, d) \<in> set ps. - int n \<le> d \<and> d < int n"
  shows "weighted_sum n (\<lambda>i. sum_list (map (\<lambda>(b, d). digit_part d (pt b) i) ps)) = sum_list (map (\<lambda>(b, d). gmul d (pt b)) ps)"
  using assms by (induction ps) (auto simp: weighted_sum_add digit_part_sum split: prod.splits)

lemma add_digit_gives:
  assumes group: "chord_tangent_group a C pt" and ok: "ab_ok C n s" and room: "length (ab_batch s) < ab_batch_size s"
    and d: "- int n \<le> d" "d < int n" and p: "p \<in> C"
  shows "\<exists>s'. add_digit pt a d p s = (Ok s' :: (_, 'e) result) \<and> gives C n pt s (digit_part d (pt p)) s' \<and>
    length (ab_batch s') < ab_batch_size s'"
proof -
  consider "d = 0" | "0 < d" | "d < 0" by linarith
  then show ?thesis
  proof cases
    case 1
    then show ?thesis using gives_refl [OF ok, of pt] room by (intro exI [of _ s]) (simp add: add_digit_def digit_part_def [abs_def])
  next
    case 2
    then have "nat d - 1 < n" "digit_part d (pt p) = (\<lambda>j. if j = nat d - 1 then pt p else 0)"
      using d by (auto simp: digit_part_def fun_eq_iff)
    then show ?thesis using add_gives [OF group ok room _ p, of "nat d - 1"] 2 by (simp add: add_digit_def)
  next
    case 3
    have neg: "af_neg p \<in> C" "pt (af_neg p) = - pt p" using group_negate [OF group p] by auto
    have "nat (- d) - 1 < n" "digit_part d (pt p) = (\<lambda>j. if j = nat (- d) - 1 then - pt p else 0)"
      using d 3 by (auto simp: digit_part_def fun_eq_iff)
    then show ?thesis using add_gives [OF group ok room _ neg(1), of "nat (- d) - 1", unfolded neg(2)] 3 by (simp add: add_digit_def)
  qed
qed

lemma add_digits_gives:
  assumes group: "chord_tangent_group a C pt" and "ab_ok C n s" and "length (ab_batch s) < ab_batch_size s"
    and "\<forall>(b, d) \<in> set ps. b \<in> C \<and> - int n \<le> d \<and> d < int n"
  shows "\<exists>s'. rfold ps (\<lambda>(b, d). add_digit pt a d b) s = (Ok s' :: (_, 'e) result) \<and>
    gives C n pt s (\<lambda>i. sum_list (map (\<lambda>(b, d). digit_part d (pt b) i) ps)) s'"
  using assms(2-4)
proof (induction ps arbitrary: s)
  case Nil
  then show ?case by (simp add: gives_refl)
next
  case (Cons p ps)
  obtain b d where p: "p = (b, d)" by fastforce
  have d: "- int n \<le> d" "d < int n" "b \<in> C" using Cons.prems(3) by (auto simp: p)
  obtain s1 where s1: "add_digit pt a d b s = (Ok s1 :: (_, 'e) result)" "gives C n pt s (digit_part d (pt b)) s1"
      "length (ab_batch s1) < ab_batch_size s1"
    using add_digit_gives [OF group Cons.prems(1,2) d] by blast
  have "ab_ok C n s1" using s1(2) by (simp add: gives_def)
  from Cons.IH [OF this s1(3)] Cons.prems(3) obtain s' where
    s': "rfold ps (\<lambda>(b, d). add_digit pt a d b) s1 = (Ok s' :: (_, 'e) result)"
      "gives C n pt s1 (\<lambda>i. sum_list (map (\<lambda>(b, d). digit_part d (pt b) i) ps)) s'" by auto
  have "gives C n pt s (\<lambda>i. sum_list (map (\<lambda>(b, d). digit_part d (pt b) i) (p # ps))) s'"
    by (rule gives_cong [OF gives_trans [OF s1(2) s'(2)]]) (simp add: p)
  then show ?case using s1(1) s'(1) by (intro exI [of _ s']) (simp add: p)
qed

lemma finish_gives:
  assumes group: "chord_tangent_group a C pt"
  shows "ab_ok C n s \<Longrightarrow> length (ab_deferred s) < fuel \<Longrightarrow>
    \<exists>s'. finish_loop pt a fuel s = (Ok s' :: (_, 'e) result) \<and> gives C n pt s (\<lambda>i. 0) s' \<and> ab_batch s' = [] \<and> ab_deferred s' = []"
proof (induction fuel arbitrary: s)
  case (Suc fuel)
  obtain s1 where s1: "apply_batch a s = (Ok s1 :: (_, 'e) result)" "gives C n pt s (\<lambda>i. 0) s1" "ab_batch s1 = []" "ab_deferred s1 = ab_deferred s"
    using apply_batch_gives [OF group Suc.prems(1)] by blast
  show ?case
  proof (cases "ab_deferred s = []")
    case True
    then show ?thesis using s1 by (intro exI [of _ s1]) simp
  next
    case False
    have "ab_ok C n s1" using s1(2) by (simp add: gives_def)
    from retry_gives [OF group this] obtain s2 where
      s2: "retry_deferred pt s1 = (Ok s2 :: (_, 'e) result)" "gives C n pt s1 (\<lambda>i. 0) s2"
        "length (ab_batch s2) + length (ab_deferred s2) \<le> length (ab_deferred s)"
      using s1(3,4) by auto
    have both: "gives C n pt s (\<lambda>i. 0) s2" by (rule gives_cong [OF gives_trans [OF s1(2) s2(2)]]) simp
    then have ok2: "ab_ok C n s2" by (simp add: gives_def)
    show ?thesis
    proof (cases "length (ab_batch s2) < min_retry_batch")
      case True
      obtain s3 where s3: "apply_batch a s2 = (Ok s3 :: (_, 'e) result)" "gives C n pt s2 (\<lambda>i. 0) s3" "ab_batch s3 = []"
        using apply_batch_gives [OF group ok2] by blast
      have "ab_ok C n s3" using s3(2) by (simp add: gives_def)
      from spill_gives [OF this] obtain s4 where
        s4: "spill_deferred pt s3 = (Ok s4 :: (_, 'e) result)" "gives C n pt s3 (\<lambda>i. 0) s4" "ab_batch s4 = []" "ab_deferred s4 = []"
        using s3(3) by auto
      have "gives C n pt s (\<lambda>i. 0) s4"
        by (rule gives_cong [OF gives_trans [OF gives_trans [OF both s3(2)] s4(2)]]) simp
      then show ?thesis using s1(1,4) s2(1) s3(1) s4 True False by (intro exI [of _ s4]) simp
    next
      case retry: False
      have "length (ab_deferred s2) < fuel" using s2(3) retry Suc.prems(2) by (simp add: min_retry_batch_def)
      from Suc.IH [OF ok2 this] obtain s' where
        s': "finish_loop pt a fuel s2 = (Ok s' :: (_, 'e) result)" "gives C n pt s2 (\<lambda>i. 0) s'" "ab_batch s' = []" "ab_deferred s' = []" by blast
      have "gives C n pt s (\<lambda>i. 0) s'" by (rule gives_cong [OF gives_trans [OF both s'(2)]]) simp
      then show ?thesis using s1(1,4) s2(1) s' retry False by (intro exI [of _ s']) simp
    qed
  qed
qed simp

lemma ab_window_sum_eq:
  assumes "ab_ok C n s" and "ab_batch s = []" and "ab_deferred s = []"
  shows "ab_window_sum pt s = weighted_sum n (ab_content pt s)"
proof -
  let ?B = "ab_buckets s" and ?O = "ab_overflow s"
  have n: "length ?B = n" "?O = [] \<or> length ?O = n" using assms(1) by (auto simp: ab_ok_def)
  have plain: "fold (\<lambda>bucket. running_sum (pt bucket)) bs st = fold running_sum (map pt bs) st" for bs st
    by (induction bs arbitrary: st) simp_all
  have pairs: "fold (\<lambda>(bucket, overflow). running_sum (pt bucket + overflow)) bs st = fold running_sum (map (\<lambda>(b, v). pt b + v) bs) st" for bs st
    by (induction bs arbitrary: st) (auto split: prod.splits)
  show ?thesis
  proof (cases "?O = []")
    case True
    then have "ab_window_sum pt s = weighted_sum n ((!) (map pt ?B))"
      using n(1) by (simp add: ab_window_sum_def plain rev_map [symmetric] running_sums)
    then show ?thesis using True n(1) assms(2,3) by (simp add: ab_content_def overflow_in_def cong: weighted_sum_cong)
  next
    case False
    then have "ab_window_sum pt s = weighted_sum n ((!) (map (\<lambda>(b, v). pt b + v) (zip ?B ?O)))"
      using n by (simp add: ab_window_sum_def pairs rev_map [symmetric] running_sums)
    then show ?thesis using False n assms(2,3) by (simp add: ab_content_def overflow_in_def cong: weighted_sum_cong)
  qed
qed

lemma with_batch_size_ok:
  assumes "chord_tangent_group a C pt"
  shows "ab_ok C (2 ^ (width - 1)) (with_batch_size width batch)" "i < 2 ^ (width - 1) \<Longrightarrow> ab_content pt (with_batch_size width batch) i = 0"
    "length (ab_batch (with_batch_size width batch)) < ab_batch_size (with_batch_size width batch)"
proof -
  have zero: "af_identity \<in> C" "pt af_identity = 0" using assms by (auto simp: chord_tangent_group_def af_identity_def)
  show "ab_ok C (2 ^ (width - 1)) (with_batch_size width batch)"
    using zero(1) by (auto simp: ab_ok_def with_batch_size_def batch_ok_def)
  show "i < 2 ^ (width - 1) \<Longrightarrow> ab_content pt (with_batch_size width batch) i = 0"
    by (simp add: ab_content_def with_batch_size_def overflow_in_def zero(2))
qed (simp add: with_batch_size_def)

end
