(* ===== verification/Msm_Correct.thy ===== *)
theory Msm_Correct
  imports Complex_Main "HOL-Library.Numeral_Type" Msm_Sum
begin

text \<open>
  What the multi-scalar multiplication promises: the signed digits of a scalar sum up to it, and every
  way of accumulating them, at every window width, gives the sum of the multiples.
\<close>

section \<open>Digits\<close>

text \<open>At every allowed width the balanced digits of a canonical scalar lie in
  \<open>-2^(width-1) .. 2^(width-1) - 1\<close> and sum up to the scalar as an integer, with no carry left after the
  last window, and the digit that is computed for one window alone is the digit of the recoding in order.\<close>

theorem signed_digits_exact:
  assumes "3 \<le> width" and "width \<le> 16" and "limbs_nat s < fr_modulus"
  shows "- (2 ^ (width - 1)) \<le> signed_window_digit s width w \<and> signed_window_digit s width w < 2 ^ (width - 1) \<and>
    (\<Sum>w < div_ceil modulus_bit_size width. signed_window_digit s width w * 2 ^ (w * width)) = int (limbs_nat s) \<and>
    for_each_signed_window s width (div_ceil modulus_bit_size width) =
      (0, map (signed_window_digit s width) [0..<div_ceil modulus_bit_size width])"
  using assms signed_window_digit_eq [of width s w] signed_digits_sum [OF assms] recode_fits(1) [OF assms]
    for_each_signed_window_eq [of width s "div_ceil modulus_bit_size width"] by simp

lemma signed_digits_exact_witness:
  "- (2 ^ (4 - 1)) \<le> signed_window_digit [0x77, 0, 0, 0] 4 1 \<and> signed_window_digit [0x77, 0, 0, 0] 4 1 < 2 ^ (4 - 1) \<and>
    (\<Sum>w < div_ceil modulus_bit_size 4. signed_window_digit [0x77, 0, 0, 0] 4 w * 2 ^ (w * 4)) = int (limbs_nat [0x77, 0, 0, 0]) \<and>
    for_each_signed_window [0x77, 0, 0, 0] 4 (div_ceil modulus_bit_size 4) =
      (0, map (signed_window_digit [0x77, 0, 0, 0] 4) [0..<div_ceil modulus_bit_size 4])"
  by (rule signed_digits_exact) (simp_all add: fr_modulus_def)

section \<open>Windows\<close>

definition msm_reference :: "('f affine \<Rightarrow> 'g :: ab_group_add) \<Rightarrow> ('f affine \<times> limbs) list \<Rightarrow> 'g" where
  "msm_reference pt ps = sum_list (map (\<lambda>(base, scalar). nmul (limbs_nat scalar) (pt base)) ps)"

definition window_value :: "('f affine \<Rightarrow> 'g :: ab_group_add) \<Rightarrow> nat \<Rightarrow> ('f affine \<times> limbs) list \<Rightarrow> nat \<Rightarrow> 'g" where
  "window_value pt width ps w = sum_list (map (\<lambda>(base, scalar). gmul (signed_window_digit scalar width w) (pt base)) ps)"

lemma rfold_map: "rfold (map f xs) g acc = rfold xs (\<lambda>x. g (f x)) acc"
  by (induction xs arbitrary: acc) (auto intro!: rbind_cong)

lemma doubling: "((\<lambda>t. t + t) ^^ k) g = nmul (2 ^ k) (g :: 'g :: ab_group_add)"
  by (induction k) (simp_all add: mult_2 nmul_add)

lemma reduce_eq: "reduce_msm_window_sums ws width = (\<Sum>w < length ws. nmul (2 ^ (w * width)) (ws ! w))"
proof (induction ws)
  case (Cons x ws)
  have "reduce_msm_window_sums (x # ws) width = nmul (2 ^ width) (reduce_msm_window_sums ws width) + x"
    by (simp add: reduce_msm_window_sums_def add_window_def doubling)
  also have "nmul (2 ^ width) (reduce_msm_window_sums ws width) = (\<Sum>w < length ws. nmul (2 ^ width * 2 ^ (w * width)) (ws ! w))"
    unfolding Cons by (simp add: sum_nmul nmul_mult)
  also have "\<dots> + x = (\<Sum>w < length (x # ws). nmul (2 ^ (w * width)) ((x # ws) ! w))"
    by (simp add: sum.lessThan_Suc_shift power_add add.commute del: sum.lessThan_Suc)
  finally show ?case .
qed (simp add: reduce_msm_window_sums_def)

lemma windows_combine:
  assumes width: "3 \<le> width" "width \<le> 16" and scalars: "\<forall>(b, s) \<in> set ps. limbs_nat s < fr_modulus"
  shows "reduce_msm_window_sums (map (window_value pt width ps) [0..<div_ceil modulus_bit_size width]) width = msm_reference pt ps"
proof -
  let ?W = "div_ceil modulus_bit_size width"
  have "(\<Sum>w < ?W. nmul (2 ^ (w * width)) (window_value pt width ps w)) = msm_reference pt ps"
    using scalars
  proof (induction ps)
    case (Cons p ps)
    obtain b s where p: "p = (b, s)" by fastforce
    have "(\<Sum>w < ?W. nmul (2 ^ (w * width)) (gmul (signed_window_digit s width w) (pt b))) =
        gmul (\<Sum>w < ?W. int (2 ^ (w * width)) * signed_window_digit s width w) (pt b)"
      by (simp only: gmul_sum finite_lessThan gmul_nat_mult)
    also have "(\<Sum>w < ?W. int (2 ^ (w * width)) * signed_window_digit s width w) = int (limbs_nat s)"
      using signed_digits_sum [OF width, of s] Cons.prems by (simp add: p mult.commute)
    finally show ?case using Cons by (simp add: p window_value_def msm_reference_def nmul_plus sum.distrib)
  qed (simp add: window_value_def msm_reference_def)
  then show ?thesis by (simp add: reduce_eq)
qed

lemma digits_in_range:
  assumes "3 \<le> width" and "width \<le> 16"
  shows "- int (2 ^ (width - 1)) \<le> signed_window_digit s width w" "signed_window_digit s width w < int (2 ^ (width - 1))"
  using signed_window_digit_eq(2,3) [of width s w] assms by simp_all

lemma affine_window_eq:
  assumes group: "chord_tangent_group a C pt" and width: "3 \<le> width" "width \<le> 16" and bases: "set bases \<subseteq> C"
  shows "affine_window pt a bases scalars width batch w = (Ok (window_value pt width (zip bases scalars) w) :: (_, 'e) result)"
proof -
  let ?n = "2 ^ (width - 1) :: nat"
  let ?s = "with_batch_size width batch"
  let ?ps = "map (\<lambda>(b, s). (b, signed_window_digit s width w)) (zip bases scalars)"
  have ps: "\<forall>(b, d) \<in> set ?ps. b \<in> C \<and> - int ?n \<le> d \<and> d < int ?n"
    using digits_in_range [OF width] bases by (auto dest: set_zip_leftD)
  from add_digits_gives [OF group with_batch_size_ok(1,3) [OF group] ps] obtain s1 where
    s1: "rfold ?ps (\<lambda>(b, d). add_digit pt a d b) ?s = (Ok s1 :: (_, 'e) result)"
      "gives C ?n pt ?s (\<lambda>i. sum_list (map (\<lambda>(b, d). digit_part d (pt b) i) ?ps)) s1" by blast
  have run: "rfold (zip bases scalars) (\<lambda>(base, scalar). add_digit pt a (signed_window_digit scalar width w) base) ?s =
      (Ok s1 :: (_, 'e) result)"
    using s1(1) by (simp add: rfold_map split_def)
  have "ab_ok C ?n s1" using s1(2) by (simp add: gives_def)
  from finish_gives [OF group this, of "length (ab_deferred s1) + 1"] obtain s2 where
    s2: "ab_finish pt a s1 = (Ok s2 :: (_, 'e) result)" "gives C ?n pt s1 (\<lambda>i. 0) s2" "ab_batch s2 = []" "ab_deferred s2 = []"
    by (auto simp: ab_finish_def)
  have content: "ab_content pt s2 i = sum_list (map (\<lambda>(b, d). digit_part d (pt b) i) ?ps)" if "i < ?n" for i
    using s1(2) s2(2) with_batch_size_ok(2) [OF group that] that by (simp add: gives_def)
  have "ab_ok C ?n s2" using s2(2) by (simp add: gives_def)
  then have "ab_window_sum pt s2 = weighted_sum ?n (ab_content pt s2)" by (rule ab_window_sum_eq [OF _ s2(3,4)])
  also have "\<dots> = weighted_sum ?n (\<lambda>i. sum_list (map (\<lambda>(b, d). digit_part d (pt b) i) ?ps))"
    by (rule weighted_sum_cong) (rule content)
  also have "\<dots> = sum_list (map (\<lambda>(b, d). gmul d (pt b)) ?ps)"
    by (rule weighted_digit_sum) (use ps in blast)
  also have "\<dots> = window_value pt width (zip bases scalars) w" by (simp add: window_value_def o_def split_def)
  finally show ?thesis by (simp only: affine_window_def run s2(1) rbind.simps)
qed

lemma signed_window_sum_eq:
  fixes pt :: "'f affine \<Rightarrow> 'g :: ab_group_add"
  assumes width: "3 \<le> width" "width \<le> 16"
  shows "signed_window_sum pt bases scalars width w = (Ok (window_value pt width (zip bases scalars) w) :: (_, 'e) result)"
proof -
  let ?n = "2 ^ (width - 1) :: nat"
  let ?ps = "zip bases (map (\<lambda>s. signed_window_digit s width w) scalars)"
  have ps: "\<forall>(b, d) \<in> set ?ps. - int ?n \<le> d \<and> d < int ?n"
    using digits_in_range [OF width] by (auto dest!: set_zip_rightD)
  then have "\<forall>(b, d) \<in> set ?ps. - int (length (replicate ?n (0 :: 'g))) \<le> d \<and> d < int (length (replicate ?n (0 :: 'g)))" by simp
  from xyzz_digits_eq [OF this, of pt] obtain out where
    out: "rfold ?ps (xyzz_digit pt) (replicate ?n 0) = (Ok out :: (_, 'e) result)" "length out = ?n"
      "\<forall>i < ?n. out ! i = sum_list (map (\<lambda>(b, d). digit_part d (pt b) i) ?ps)" by auto
  have "xyzz_window_sum out = weighted_sum ?n (\<lambda>i. sum_list (map (\<lambda>(b, d). digit_part d (pt b) i) ?ps))"
    unfolding xyzz_window_sum_eq out(2) by (rule weighted_sum_cong) (use out(3) in blast)
  also have "\<dots> = sum_list (map (\<lambda>(b, d). gmul d (pt b)) ?ps)" by (rule weighted_digit_sum [OF ps])
  also have "\<dots> = window_value pt width (zip bases scalars) w" by (simp add: window_value_def zip_map2 o_def split_def)
  finally show ?thesis using out(1) by (simp add: signed_window_sum_def xyzz_buckets_def)
qed

lemma msm_accumulation_eq:
  assumes group: "chord_tangent_group a C pt" and width: "3 \<le> width" "width \<le> 16" and bases: "set bases \<subseteq> C"
    and scalars: "\<forall>s \<in> set scalars. limbs_nat s < fr_modulus"
  shows "msm_bigint_with_accumulation pt a bases scalars width accumulation batch = (Ok (msm_reference pt (zip bases scalars)) :: (_, 'e) result)"
proof (cases "min (length bases) (length scalars) = 0")
  case True
  then have "bases = [] \<or> scalars = []" by (simp add: min_def split: if_splits)
  then have "zip bases scalars = []" by auto
  then have "msm_reference pt (zip bases scalars) = 0" by (simp only: msm_reference_def list.map sum_list.Nil)
  then show ?thesis using True by (simp add: msm_bigint_with_accumulation_def Let_def)
next
  case False
  let ?k = "min (length bases) (length scalars)"
  have zip: "zip (take ?k bases) (take ?k scalars) = zip bases scalars" by (simp flip: take_zip)
  have bases': "set (take ?k bases) \<subseteq> C" using bases set_take_subset by fast
  have windows: "rmap (affine_window pt a (take ?k bases) (take ?k scalars) width b) ws = (Ok (map (window_value pt width (zip bases scalars)) ws) :: (_, 'e) result)" for b ws
    by (intro rmap_Ok) (simp only: affine_window_eq [OF group width bases'] zip)
  have windows': "rmap (signed_window_sum pt (take ?k bases) (take ?k scalars) width) ws = (Ok (map (window_value pt width (zip bases scalars)) ws) :: (_, 'e) result)" for ws
    by (intro rmap_Ok) (simp only: signed_window_sum_eq [OF width] zip)
  have "\<forall>(b, s) \<in> set (zip bases scalars). limbs_nat s < fr_modulus" using scalars by (auto dest: set_zip_rightD)
  from windows_combine [OF width this, of pt] show ?thesis
    unfolding msm_bigint_with_accumulation_def Let_def if_not_P [OF False] batch_affine_msm_def
    by (cases accumulation) (simp_all only: accumulation.case windows windows' rbind.simps)
qed

lemma resident_width:
  assumes "\<forall>n. n \<le> 2 ^ log2 n"
  shows "3 \<le> resident_window_bits log2 parallel points" "resident_window_bits log2 parallel points \<le> 16"
proof -
  have "5 \<le> log2 points" if "32 \<le> points"
  proof (rule ccontr)
    assume "\<not> 5 \<le> log2 points"
    then have "(2 :: nat) ^ log2 points \<le> 2 ^ 4" by (intro power_increasing) auto
    then show False using assms [rule_format, of points] that by simp
  qed
  then have "3 \<le> log2 points * 69 div 100 + 2" if "32 \<le> points" using that div_le_mono [of 345 "log2 points * 69" 100] by simp
  then show "3 \<le> resident_window_bits log2 parallel points" "resident_window_bits log2 parallel points \<le> 16"
    by (auto simp: resident_window_bits_def adaptive_window_bits_def serial_window_bits_def)
qed

lemma msm_bigint_eq:
  assumes group: "chord_tangent_group a C pt" and log2: "\<forall>n. n \<le> 2 ^ log2 n" and bases: "set bases \<subseteq> C"
    and scalars: "\<forall>s \<in> set scalars. limbs_nat s < fr_modulus"
  shows "msm_bigint log2 parallel pt a bases scalars = (Ok (msm_reference pt (zip bases scalars)) :: (_, 'e) result)"
    and "length bases = length scalars \<Longrightarrow>
      msm_bigint_with_window pt a bases scalars (resident_window_bits log2 parallel n) = (Ok (msm_reference pt (zip bases scalars)) :: (_, 'e) result)"
proof -
  let ?k = "min (length bases) (length scalars)"
  have window: "msm_bigint_with_window pt a bs ss (resident_window_bits log2 parallel n) = (Ok (msm_reference pt (zip bs ss)) :: (_, 'e) result)"
    if "set bs \<subseteq> C" "\<forall>s \<in> set ss. limbs_nat s < fr_modulus" for bs ss n
    unfolding msm_bigint_with_window_def Let_def by (rule msm_accumulation_eq [OF group resident_width [OF log2] that])
  have "zip (take ?k bases) (take ?k scalars) = zip bases scalars" by (simp flip: take_zip)
  moreover have "set (take ?k bases) \<subseteq> C" using bases set_take_subset by fast
  moreover have "\<forall>s \<in> set (take ?k scalars). limbs_nat s < fr_modulus" using scalars by (auto dest: in_set_takeD)
  ultimately have "msm_bigint_with_window pt a (take ?k bases) (take ?k scalars) (resident_window_bits log2 parallel n) =
      (Ok (msm_reference pt (zip bases scalars)) :: (_, 'e) result)" for n
    using window by metis
  moreover have "zip bases scalars = []" if "?k = 0"
  proof -
    have "bases = [] \<or> scalars = []" using that by (simp add: min_def split: if_splits)
    then show ?thesis by auto
  qed
  ultimately show "msm_bigint log2 parallel pt a bases scalars = (Ok (msm_reference pt (zip bases scalars)) :: (_, 'e) result)"
    by (auto simp: msm_bigint_def Let_def msm_reference_def)
  show "msm_bigint_with_window pt a bases scalars (resident_window_bits log2 parallel n) = (Ok (msm_reference pt (zip bases scalars)) :: (_, 'e) result)"
    using window [OF bases scalars] .
qed

lemma ones_sum:
  "fold (\<lambda>(base, scalar) sum. if scalar = [1, 0, 0, 0] then sum + pt base else sum) ps g +
    msm_reference pt (filter (\<lambda>(base, scalar). \<not> trivial_scalar scalar) ps) = g + msm_reference pt ps"
proof (induction ps arbitrary: g)
  case (Cons p ps)
  then show ?case by (cases p) (auto simp: msm_reference_def trivial_scalar_def algebra_simps)
qed (simp add: msm_reference_def)

lemma split_trivial_eq:
  assumes group: "chord_tangent_group a C pt" and log2: "\<forall>n. n \<le> 2 ^ log2 n" and bases: "set bases \<subseteq> C"
    and scalars: "\<forall>s \<in> set scalars. limbs_nat s < fr_modulus"
    and split: "split_trivial_scalars log2 parallel pt a bases scalars = Some r"
  shows "r = (Ok (msm_reference pt (zip bases scalars)) :: (_, 'e) result)"
proof -
  let ?rest = "filter (\<lambda>(base, scalar). \<not> trivial_scalar scalar) (zip bases scalars)"
  let ?ones = "fold (\<lambda>(base, scalar) sum. if scalar = [1, 0, 0, 0] then sum + pt base else sum) (zip bases scalars) 0"
  have "set (map fst ?rest) \<subseteq> C" using bases by (auto dest: set_zip_leftD)
  moreover have "\<forall>s \<in> set (map snd ?rest). limbs_nat s < fr_modulus" using scalars by (auto dest: set_zip_rightD)
  ultimately have whole: "msm_bigint_with_window pt a (map fst ?rest) (map snd ?rest) (resident_window_bits log2 parallel (length (map snd ?rest))) =
      (Ok (msm_reference pt (zip (map fst ?rest) (map snd ?rest))) :: (_, 'e) result)"
    by (intro msm_bigint_eq(2) [OF group log2]) (simp_all only: length_map)
  have "msm_reference pt ?rest = 0" if "length (map snd ?rest) = 0"
    using that by (simp only: length_map length_0_conv msm_reference_def list.map sum_list.Nil)
  then have "r = Ok (msm_reference pt ?rest + ?ones)"
    using split whole [unfolded zip_map_fst_snd] unfolding split_trivial_scalars_def Let_def
    by (cases "length (map snd ?rest) = 0") (simp_all only: rbind.simps if_True if_False add_0 option.inject simp_thms split: if_splits, simp_all)
  also have "msm_reference pt ?rest + ?ones = msm_reference pt (zip bases scalars)"
    using ones_sum [of pt "zip bases scalars" 0] by (simp only: add_0 add.commute)
  finally show ?thesis .
qed

section \<open>The multiplication\<close>

text \<open>C35: Both accumulators, XYZZ buckets and batch-affine buckets with any batch size, at every window
  width from 3 to 16, return the sum of the scalar multiples: no point is lost or counted twice on its way
  through pending, deferred and overflow additions, and no panic is reached.\<close>

theorem msm_accumulators_exact:
  assumes "chord_tangent_group a C pt" and "3 \<le> width" and "width \<le> 16" and "set bases \<subseteq> C"
    and "\<forall>s \<in> set scalars. limbs_nat s < fr_modulus"
  shows "msm_bigint_with_accumulation pt a bases scalars width accumulation batch = Ok (msm_reference pt (zip bases scalars))"
  using assms by (rule msm_accumulation_eq)

text \<open>C36: The multiplication the prover calls, with its choice of width and accumulator from the number of
  points, returns the sum of the scalar multiples over the shorter of the two lists, and the variant that
  takes zeros and ones out first returns the same whenever it applies.\<close>

theorem msm_exact:
  assumes "chord_tangent_group a C pt" and "\<forall>n. n \<le> 2 ^ log2 n" and "set bases \<subseteq> C"
    and "\<forall>s \<in> set scalars. limbs_nat s < fr_modulus"
  shows "msm_bigint log2 parallel pt a bases scalars = (Ok (msm_reference pt (zip bases scalars)) :: (_, 'e) result) \<and>
    (case split_trivial_scalars log2 parallel pt a bases scalars of
       None \<Rightarrow> length (filter trivial_scalar scalars) * 8 < length scalars
     | Some r \<Rightarrow> r = (Ok (msm_reference pt (zip bases scalars)) :: (_, 'e) result))"
proof
  show "msm_bigint log2 parallel pt a bases scalars = (Ok (msm_reference pt (zip bases scalars)) :: (_, 'e) result)"
    by (rule msm_bigint_eq(1) [OF assms])
  show "case split_trivial_scalars log2 parallel pt a bases scalars of
       None \<Rightarrow> length (filter trivial_scalar scalars) * 8 < length scalars
     | Some r \<Rightarrow> r = (Ok (msm_reference pt (zip bases scalars)) :: (_, 'e) result)"
  proof (cases "split_trivial_scalars log2 parallel pt a bases scalars :: (_, 'e) result option")
    case None
    then show ?thesis by (auto simp: split_trivial_scalars_def Let_def split: if_splits)
  next
    case (Some r)
    then show ?thesis using split_trivial_eq [OF assms Some] by simp
  qed
qed

subsection \<open>A curve of six points\<close>

text \<open>The rational points of \<open>y\<^sup>2 = x\<^sup>3 + 1\<close>, a cyclic group of order six.\<close>

definition six_pt :: "rat affine \<Rightarrow> 6" where
  "six_pt p =
     (if af_infinity p then 0
      else if af_x p = 2 then (if af_y p = 3 then 1 else 5)
      else if af_x p = 0 then (if af_y p = 1 then 2 else 4)
      else 3)"

definition on_curve :: "rat \<Rightarrow> rat \<Rightarrow> rat affine" where
  "on_curve x y = \<lparr>af_x = x, af_y = y, af_infinity = False\<rparr>"

definition six_points :: "rat affine set" where
  "six_points = {af_identity, on_curve 2 3, on_curve 0 1, on_curve (- 1) 0, on_curve 0 (- 1), on_curve 2 (- 3)}"

lemma six_group: "chord_tangent_group 0 six_points six_pt"
  unfolding chord_tangent_group_def six_points_def
  by (simp add: af_identity_def on_curve_def six_pt_def af_neg_def line_sum_def power2_eq_square)

lemma log2_self: "n \<le> 2 ^ n" for n :: nat
  by (simp add: less_imp_le)

lemma msm_accumulators_exact_witness:
  "msm_bigint_with_accumulation six_pt 0 [on_curve 2 3, on_curve 0 1] [[5, 0, 0, 0], [0x77, 0, 0, 0]] 4 BatchAffine (Some 1) =
    (Ok (msm_reference six_pt (zip [on_curve 2 3, on_curve 0 1] [[5, 0, 0, 0], [0x77, 0, 0, 0]])) :: (_, unit) result)"
  by (rule msm_accumulators_exact [OF six_group]) (simp_all add: six_points_def fr_modulus_def)

lemma msm_exact_witness:
  "msm_bigint (\<lambda>n. n) False six_pt 0 [on_curve 2 3, on_curve 0 1] [[5, 0, 0, 0], [1, 0, 0, 0]] =
    (Ok (msm_reference six_pt (zip [on_curve 2 3, on_curve 0 1] [[5, 0, 0, 0], [1, 0, 0, 0]])) :: (_, unit) result)"
  by (rule conjunct1 [OF msm_exact [OF six_group]]) (simp_all add: six_points_def fr_modulus_def log2_self)

end
