(* ===== verification/Pinned.thy ===== *)
theory Pinned
  imports Sage_Program
begin

text \<open>
  Artifact readers of the prover (\<open>crates/prover/src/authenticated_reader.rs\<close>,
  \<open>crates/prover/src/artifacts/mod.rs\<close> and \<open>crates/prover/src/artifacts/manifest.rs\<close>): the seekable
  reader pinned by a whole-file digest, the chunk manifest with the forward reader pinned by it, and the
  bounded readers.  The source behind a reader is not trusted: it is the list of replies that its calls
  will get.  SHA-256 is a parameter; memory is taken to be available.
\<close>

section \<open>Sources\<close>

datatype (plugins only: code) io_error =
    Interrupted
  | UnexpectedEof
  | ZkeyChanged nat
  | ChunkChanged nat "byte list" "byte list"
  | InvalidSeek
  | ByteLimit
  | SeekLimit
  | LengthOverflow
  | OtherIo nat

text \<open>
  A reply to a read is a segment, of which the call takes what fits its buffer and leaves the rest to the
  next call (an empty one reports the end), or an error.  After the last reply the source is at its end.
\<close>

datatype reply = Got "byte list" | Fails io_error

record source =
  src_replies :: "reply list"
  src_seeks :: "(nat + io_error) list"

datatype seek_target = SeekStart nat | SeekCurrent int | SeekEnd int

fun src_read :: "nat \<Rightarrow> reply list \<Rightarrow> (byte list, io_error) result \<times> reply list" where
  "src_read n [] = (Ok [], [])"
| "src_read n (Got bs # rs) = (Ok (take n bs), if length bs \<le> n then rs else Got (drop n bs) # rs)"
| "src_read n (Fails e # rs) = (Err e, rs)"

definition src_seek :: "seek_target \<Rightarrow> source \<Rightarrow> (nat, io_error) result \<times> source" where
  "src_seek target s =
     (case src_seeks s of
        [] \<Rightarrow> (Err (OtherIo 0), s)
      | r # rs \<Rightarrow> (case r of Inl position \<Rightarrow> Ok position | Inr e \<Rightarrow> Err e, s\<lparr>src_seeks := rs\<rparr>))"

fun reply_size :: "reply \<Rightarrow> nat" where
  "reply_size (Got bs) = Suc (length bs)"
| "reply_size (Fails e) = 1"

definition replies_size :: "reply list \<Rightarrow> nat" where
  "replies_size rs = sum_list (map reply_size rs)"

lemma src_read_size:
  "src_read n rs = (Ok bs, rs') \<Longrightarrow> replies_size rs' + length bs \<le> replies_size rs"
  "src_read n rs = (Err e, rs') \<Longrightarrow> replies_size rs' < replies_size rs"
  by (cases "(n, rs)" rule: src_read.cases; force simp: replies_size_def)+

text \<open>
  Reading until \<open>n\<close> bytes are there or the source ends; errors that \<open>retry\<close> names are tried again.  What
  was read is kept also when the loop fails.
\<close>

function fill :: "(io_error \<Rightarrow> bool) \<Rightarrow> nat \<Rightarrow> byte list \<Rightarrow> reply list \<Rightarrow> (unit, io_error) result \<times> byte list \<times> reply list" where
  "fill retry n got rs =
     (if n \<le> length got then (Ok (), got, rs)
      else case src_read (n - length got) rs of
        (Ok bs, rs) \<Rightarrow> if bs = [] then (Ok (), got, rs) else fill retry n (got @ bs) rs
      | (Err e, rs) \<Rightarrow> if retry e then fill retry n got rs else (Err e, got, rs)
      | (Panic, rs) \<Rightarrow> (Panic, got, rs))"
  by pat_completeness auto

termination
proof (relation "measure (\<lambda>(retry, n, got, rs). replies_size rs)", goal_cases)
  case (2 retry n got rs x rs' bs)
  then have "replies_size rs' + length bs \<le> replies_size rs" "bs \<noteq> []"
    using src_read_size(1) by (metis prod.collapse fst_conv snd_conv prod.inject)+
  then show ?case by (cases bs) auto
next
  case (3 retry n got rs x rs' e)
  then have "src_read (n - length got) rs = (Err e, rs')" by simp
  then show ?case by (auto dest: src_read_size(2))
qed simp

declare fill.simps [simp del]

definition interrupted :: "io_error \<Rightarrow> bool" where
  "interrupted e \<longleftrightarrow> e = Interrupted"

text \<open>\<open>Read::read_exact\<close>\<close>

definition read_exact :: "nat \<Rightarrow> reply list \<Rightarrow> (unit, io_error) result \<times> byte list \<times> reply list" where
  "read_exact n rs =
     (case fill interrupted n [] rs of
        (Ok _, got, rs) \<Rightarrow> (if length got < n then Err UnexpectedEof else Ok (), got, rs)
      | (Err e, got, rs) \<Rightarrow> (Err e, got, rs)
      | (Panic, got, rs) \<Rightarrow> (Panic, got, rs))"

lemma fill_size: "fill retry n got rs = (r, got', rs') \<Longrightarrow> replies_size rs' + length got' \<le> replies_size rs + length got"
proof (induction retry n got rs arbitrary: r got' rs' rule: fill.induct)
  case (1 retry n got rs)
  obtain q rest where read: "src_read (n - length got) rs = (q, rest)" by fastforce
  show ?case
  proof (cases "n \<le> length got")
    case True
    then show ?thesis using 1(3) by (simp add: fill.simps)
  next
    case False
    show ?thesis
    proof (cases q)
      case (Ok bs)
      show ?thesis
      proof (cases "bs = []")
        case True
        then show ?thesis using 1(3) False Ok read src_read_size(1) [of "n - length got" rs bs rest]
          by (subst (asm) fill.simps) simp
      next
        case more: False
        have "fill retry n (got @ bs) rest = (r, got', rs')"
          using 1(3) False Ok read more by (subst (asm) fill.simps) simp
        from 1(1) [OF False read [symmetric, unfolded Ok] _ more this] Ok read
        show ?thesis using src_read_size(1) [of "n - length got" rs bs rest] by simp
      qed
    next
      case (Err e)
      show ?thesis
      proof (cases "retry e")
        case True
        have "fill retry n got rest = (r, got', rs')"
          using 1(3) False Err read True by (subst (asm) fill.simps) simp
        from 1(2) [OF False read [symmetric, unfolded Err] _ True this]
        show ?thesis using src_read_size(2) [of "n - length got" rs e rest] read Err by simp
      next
        case no: False
        then show ?thesis using 1(3) False Err read src_read_size(2) [of "n - length got" rs e rest]
          by (subst (asm) fill.simps) simp
      qed
    next
      case Panic
      then show ?thesis using read by (cases "(n - length got, rs)" rule: src_read.cases) simp_all
    qed
  qed
qed

text \<open>
  The pass over a whole source in chunks of \<open>n\<close> bytes, with the bytes hashed so far, the digests of the
  chunks and the length.
\<close>

type_synonym digest = "byte list \<Rightarrow> byte list"

function chunk_pass ::
    "(io_error \<Rightarrow> bool) \<Rightarrow> (io_error \<Rightarrow> 'e) \<Rightarrow> 'e \<Rightarrow> digest \<Rightarrow> nat \<Rightarrow> byte list \<times> byte list list \<times> nat \<Rightarrow> reply list \<Rightarrow>
     (byte list \<times> byte list list \<times> nat, 'e) result \<times> reply list" where
  "chunk_pass retry into overflow sha n (whole, hashes, len) rs =
     (case fill retry n [] rs of
        (Ok _, bs, rs) \<Rightarrow>
          if bs = [] then (Ok (whole, hashes, len), rs)
          else (case checked_add len (length bs) of
              None \<Rightarrow> (Err overflow, rs)
            | Some len \<Rightarrow>
                let acc = (whole @ bs, hashes @ [sha bs], len)
                in if length bs < n then (Ok acc, rs) else chunk_pass retry into overflow sha n acc rs)
      | (Err e, bs, rs) \<Rightarrow> (Err (into e), rs)
      | (Panic, bs, rs) \<Rightarrow> (Panic, rs))"
  by pat_completeness auto

termination
proof (relation "measure (\<lambda>(retry, into, overflow, sha, n, acc, rs). replies_size rs)", goal_cases)
  case 2
  then show ?case by (auto dest!: sym [THEN fill_size] simp: neq_Nil_conv)
qed simp

declare chunk_pass.simps [simp del]

section \<open>The authenticated reader\<close>

datatype (plugins only: code) prover_error =
    ProverInvalidExpectedHash
  | ProverZkeyHashMismatch "byte list" "byte list"
  | ProverZkeyIo io_error

definition prover_decode_sha256 :: "byte list \<Rightarrow> (byte list, prover_error) result" where
  "prover_decode_sha256 value =
     rbind (guard (length value \<noteq> 64 \<or> \<not> list_all is_ascii_hexdigit value) ProverInvalidExpectedHash) (\<lambda>_.
       Ok (map (\<lambda>i. 16 * hex_digit_value (value ! (2 * i)) + hex_digit_value (value ! (2 * i + 1))) [0..<32]))"

definition verify_digest :: "byte list \<Rightarrow> byte list \<Rightarrow> (unit, prover_error) result" where
  "verify_digest actual expected_sha256 =
     rbind (prover_decode_sha256 expected_sha256) (\<lambda>expected_bytes.
       guard (actual \<noteq> expected_bytes) (ProverZkeyHashMismatch (to_hex expected_bytes) (to_hex actual)))"

definition auth_chunk_bytes :: nat where
  "auth_chunk_bytes = 64 * 1024"

record auth_reader =
  ar_source :: source
  ar_length :: nat
  ar_position :: nat
  ar_hashes :: "byte list list"
  ar_buffer :: "byte list"
  ar_cached :: "nat option"

definition auth_new :: "digest \<Rightarrow> source \<Rightarrow> byte list \<Rightarrow> (auth_reader, prover_error) result" where
  "auth_new sha source expected_sha256 =
     rbind (prover_decode_sha256 expected_sha256) (\<lambda>_.
     case src_seek (SeekStart 0) source of (sought, source) \<Rightarrow>
     rbind (map_err ProverZkeyIo sought) (\<lambda>_.
     case chunk_pass interrupted ProverZkeyIo (ProverZkeyIo LengthOverflow) sha auth_chunk_bytes ([], [], 0) (src_replies source) of
       (passed, replies) \<Rightarrow>
     rbind passed (\<lambda>(whole, hashes, len).
     rbind (verify_digest (sha whole) expected_sha256) (\<lambda>_.
       Ok \<lparr>ar_source = source\<lparr>src_replies := replies\<rparr>, ar_length = len, ar_position = 0, ar_hashes = hashes,
           ar_buffer = replicate auth_chunk_bytes 0, ar_cached = None\<rparr>))))"

definition load_chunk :: "digest \<Rightarrow> nat \<Rightarrow> nat \<Rightarrow> (auth_reader, unit, io_error) sm" where
  "load_chunk sha index count r =
     (case read_exact count (src_replies (ar_source r)) of (filled, got, replies) \<Rightarrow>
        sbind (slift filled) (\<lambda>_.
        sbind (\<lambda>r. (idx (ar_hashes r) index, r)) (\<lambda>expected.
        sbind (\<lambda>r. (guard (sha (take count (ar_buffer r)) \<noteq> expected) (ZkeyChanged index), r)) (\<lambda>_.
          smodify (ar_cached_update (\<lambda>_. Some index)))))
          (r\<lparr>ar_source := (ar_source r)\<lparr>src_replies := replies\<rparr>, ar_buffer := got @ drop (length got) (ar_buffer r)\<rparr>))"

definition cache_chunk :: "digest \<Rightarrow> nat \<Rightarrow> (auth_reader, unit, io_error) sm" where
  "cache_chunk sha index r =
     (if ar_cached r = Some index then (Ok (), r)
      else let r = r\<lparr>ar_cached := None\<rparr>;
               start = index * auth_chunk_bytes;
               count = min (ar_length r - start) auth_chunk_bytes
           in sbind (slift (rassert (start \<le> ar_length r))) (\<lambda>_.
              sbind (szoom ar_source (\<lambda>source. ar_source_update (\<lambda>_. source)) (src_seek (SeekStart start))) (\<lambda>_.
                load_chunk sha index count)) r)"

text \<open>A read into a buffer of \<open>n\<close> bytes returns the bytes it wrote.\<close>

definition auth_read :: "digest \<Rightarrow> nat \<Rightarrow> (auth_reader, byte list, io_error) sm" where
  "auth_read sha n r =
     (if n = 0 \<or> ar_length r \<le> ar_position r then (Ok [], r)
      else let index = ar_position r div auth_chunk_bytes
           in sbind (cache_chunk sha index) (\<lambda>_ r.
                let offset = ar_position r mod auth_chunk_bytes;
                    count = min (min n (auth_chunk_bytes - offset)) (min (ar_length r - ar_position r) auth_chunk_bytes)
                in (Ok (take count (drop offset (ar_buffer r))), r\<lparr>ar_position := ar_position r + count\<rparr>)) r)"

definition checked_add_signed :: "nat \<Rightarrow> int \<Rightarrow> nat option" where
  "checked_add_signed a d = (if 0 \<le> int a + d \<and> int a + d < 2 ^ 64 then Some (nat (int a + d)) else None)"

definition auth_seek :: "seek_target \<Rightarrow> (auth_reader, nat, io_error) sm" where
  "auth_seek target r =
     (case (case target of
              SeekStart position \<Rightarrow> Some position
            | SeekCurrent offset \<Rightarrow> checked_add_signed (ar_position r) offset
            | SeekEnd offset \<Rightarrow> checked_add_signed (ar_length r) offset) of
        None \<Rightarrow> (Err InvalidSeek, r)
      | Some position \<Rightarrow> (Ok position, r\<lparr>ar_position := position\<rparr>))"

end
