(* ===== verification/Manifest.thy ===== *)
theory Manifest
  imports Pinned
begin

text \<open>
  Bounded readers (\<open>crates/prover/src/artifacts/mod.rs\<close>) and the chunk manifest of a proving key
  (\<open>crates/prover/src/artifacts/manifest.rs\<close>): its encoding, its generator, its verifier and the
  forward-only reader that is pinned by it.
\<close>

section \<open>Bounded readers\<close>

record bounded_reader =
  br_inner :: source
  br_limit :: nat
  br_position :: nat

definition bounded_new :: "source \<Rightarrow> nat \<Rightarrow> (bounded_reader, io_error) result" where
  "bounded_new inner limit =
     (case src_seek (SeekEnd 0) inner of (end_position, inner) \<Rightarrow>
      rbind end_position (\<lambda>end_position.
      rbind (guard (limit < end_position) ByteLimit) (\<lambda>_.
        case src_seek (SeekStart 0) inner of (sought, inner) \<Rightarrow>
        rbind sought (\<lambda>_. Ok \<lparr>br_inner = inner, br_limit = limit, br_position = 0\<rparr>))))"

definition u64_max :: nat where
  "u64_max = 2 ^ 64 - 1"

definition bounded_read :: "nat \<Rightarrow> (bounded_reader, byte list, io_error) sm" where
  "bounded_read n r =
     (if br_limit r < br_position r then (Panic, r)
      else let remaining = br_limit r - br_position r;
               wanted = min n (min (remaining + 1) u64_max)
           in case src_read wanted (src_replies (br_inner r)) of (got, replies) \<Rightarrow>
             sbind (slift got) (\<lambda>bytes.
             sbind (slift (guard (remaining < length bytes) ByteLimit)) (\<lambda>_.
             sbind (smodify (\<lambda>r. r\<lparr>br_position := br_position r + length bytes\<rparr>)) (\<lambda>_. sret bytes)))
               (r\<lparr>br_inner := (br_inner r)\<lparr>src_replies := replies\<rparr>\<rparr>))"

definition bounded_seek :: "seek_target \<Rightarrow> (bounded_reader, nat, io_error) sm" where
  "bounded_seek target r =
     (let inner = (\<lambda>target. szoom br_inner (\<lambda>inner. br_inner_update (\<lambda>_. inner)) (src_seek target)) in
      sbind (case target of
               SeekStart position \<Rightarrow> sret (Some position)
             | SeekCurrent offset \<Rightarrow> sret (checked_add_signed (br_position r) offset)
             | SeekEnd offset \<Rightarrow>
                 sbind (inner (SeekEnd 0)) (\<lambda>len.
                 sbind (inner (SeekStart (br_position r))) (\<lambda>_.
                   sret (if br_limit r < len then None else checked_add_signed len offset)))) (\<lambda>position.
      sbind (slift (ok_or (case position of Some position \<Rightarrow> if position \<le> br_limit r then Some position else None | None \<Rightarrow> None)
          SeekLimit)) (\<lambda>position.
      sbind (inner (SeekStart position)) (\<lambda>_.
      sbind (smodify (br_position_update (\<lambda>_. position))) (\<lambda>_. sret position)))) r)"

definition read_chunk_bytes :: nat where
  "read_chunk_bytes = 64 * 1024"

function read_bounded_loop :: "nat \<Rightarrow> byte list \<Rightarrow> reply list \<Rightarrow> (byte list, io_error) result \<times> reply list" where
  "read_bounded_loop max_bytes bytes rs =
     (if max_bytes < length bytes then (Panic, rs)
      else let remaining = max_bytes - length bytes; wanted = min (min (remaining + 1) u64_max) read_chunk_bytes
      in case src_read wanted rs of
        (Ok got, rs) \<Rightarrow>
          if length got = 0 then (Ok bytes, rs)
          else if remaining < length got then (Err ByteLimit, rs)
          else read_bounded_loop max_bytes (bytes @ got) rs
      | (Err e, rs) \<Rightarrow> if e = Interrupted then read_bounded_loop max_bytes bytes rs else (Err e, rs)
      | (Panic, rs) \<Rightarrow> (Panic, rs))"
  by pat_completeness auto

termination
proof (relation "measure (\<lambda>(max_bytes, bytes, rs). replies_size rs)", goal_cases)
  case 2
  then show ?case by (auto dest!: sym [THEN src_read_size(1)] simp: neq_Nil_conv)
next
  case 3
  then show ?case by (auto dest!: sym [THEN src_read_size(2)])
qed simp

declare read_bounded_loop.simps [simp del]

definition read_bounded :: "reply list \<Rightarrow> nat \<Rightarrow> (byte list, io_error) result \<times> reply list" where
  "read_bounded rs max_bytes = read_bounded_loop max_bytes [] rs"

text \<open>Opening the file and asking for its length are the parameters \<open>opened\<close> and \<open>file_length\<close>.\<close>

definition read_file_bounded ::
    "(source, io_error) result \<Rightarrow> (nat, io_error) result \<Rightarrow> nat \<Rightarrow> (byte list, io_error) result" where
  "read_file_bounded opened file_length max_bytes =
     rbind opened (\<lambda>source.
     rbind file_length (\<lambda>len.
     rbind (guard (max_bytes < len) ByteLimit) (\<lambda>_. fst (read_bounded (src_replies source) max_bytes))))"

definition read_graph_file_bounded ::
    "(source, io_error) result \<Rightarrow> (nat, io_error) result \<Rightarrow> limits \<Rightarrow> (byte list, io_error) result" where
  "read_graph_file_bounded opened file_length limits =
     rbind opened (\<lambda>source.
     case fill interrupted 4 [] (src_replies source) of (filled, prefix, replies) \<Rightarrow>
     rbind filled (\<lambda>_.
     let limit = (if prefix = [0x28, 0xb5, 0x2f, 0xfd] then lm_compressed_graph_bytes limits else lm_graph_bytes limits) in
     rbind file_length (\<lambda>len.
     rbind (guard (limit < len) ByteLimit) (\<lambda>_.
       fst (read_bounded (if prefix = [] then replies else Got prefix # replies) limit)))))"

section \<open>The manifest\<close>

datatype (plugins only: code) artifact_error =
    ArtifactInvalidExpectedHash
  | ArtifactZkeyHashMismatch "byte list" "byte list"
  | ManifestHashMismatch "byte list" "byte list"
  | ManifestZkeyHashMismatch "byte list" "byte list"
  | ZkeyChunkHashMismatch nat "byte list" "byte list"
  | ArtifactInvalidZkey string
  | ArtifactUnexpectedEof
  | ArtifactIo io_error

definition manifest_magic :: "byte list" where
  "manifest_magic = [67, 86, 89, 90, 75, 77, 48, 49]"

definition manifest_version :: nat where "manifest_version = 1"

definition manifest_header_bytes :: nat where "manifest_header_bytes = 60"

definition hash_bytes :: nat where "hash_bytes = 32"

definition min_chunk_bytes :: nat where "min_chunk_bytes = 64 * 1024"

definition max_chunk_bytes :: nat where "max_chunk_bytes = 8 * 1024 * 1024"

record zkey_manifest =
  zm_chunk_bytes :: nat
  zm_zkey_bytes :: nat
  zm_zkey_sha256 :: "byte list"
  zm_chunk_hashes :: "byte list list"

definition normalize_hash :: "byte list \<Rightarrow> (byte list, artifact_error) result" where
  "normalize_hash s =
     (if length s \<noteq> 64 \<or> \<not> list_all is_ascii_hexdigit s then Err ArtifactInvalidExpectedHash
      else Ok (to_ascii_lowercase s))"

definition is_power_of_two :: "nat \<Rightarrow> bool" where
  "is_power_of_two n \<longleftrightarrow> list_ex (\<lambda>k. n = 2 ^ k) [0..<64]"

definition chunk_size_allowed :: "nat \<Rightarrow> bool" where
  "chunk_size_allowed chunk_bytes \<longleftrightarrow>
     min_chunk_bytes \<le> chunk_bytes \<and> chunk_bytes \<le> max_chunk_bytes \<and> is_power_of_two chunk_bytes"

text \<open>A field of the header: \<open>le_u32\<close> and \<open>le_u64\<close> of a slice, which panics out of bounds.\<close>

definition slice_le :: "byte list \<Rightarrow> nat \<Rightarrow> nat \<Rightarrow> (nat, 'e) result" where
  "slice_le bytes a b = (if b \<le> length bytes then Ok (nat_of_le (take (b - a) (drop a bytes))) else Panic)"

definition manifest_from_bytes ::
    "digest \<Rightarrow> byte list \<Rightarrow> byte list \<Rightarrow> byte list \<Rightarrow> (zkey_manifest, artifact_error) result" where
  "manifest_from_bytes sha bytes expected_manifest_sha256 expected_zkey_sha256 =
     rbind (normalize_hash expected_manifest_sha256) (\<lambda>expected_manifest.
     let actual_manifest = to_hex (sha bytes) in
     rbind (guard (actual_manifest \<noteq> expected_manifest) (ManifestHashMismatch expected_manifest actual_manifest)) (\<lambda>_.
     rbind (guard (length bytes < manifest_header_bytes \<or> take 8 bytes \<noteq> manifest_magic)
         (ArtifactInvalidZkey ''invalid zkey chunk manifest header'')) (\<lambda>_.
     rbind (slice_le bytes 8 12) (\<lambda>version.
     rbind (guard (version \<noteq> manifest_version) (ArtifactInvalidZkey ''unsupported zkey chunk manifest version'')) (\<lambda>_.
     rbind (slice_le bytes 12 16) (\<lambda>chunk_bytes.
     rbind (guard (\<not> chunk_size_allowed chunk_bytes) (ArtifactInvalidZkey ''invalid zkey manifest chunk size'')) (\<lambda>_.
     rbind (slice_le bytes 16 24) (\<lambda>zkey_bytes.
     let zkey_sha256 = to_hex (take 32 (drop 24 bytes)) in
     rbind (normalize_hash expected_zkey_sha256) (\<lambda>expected_zkey.
     rbind (guard (zkey_sha256 \<noteq> expected_zkey) (ManifestZkeyHashMismatch expected_zkey zkey_sha256)) (\<lambda>_.
     rbind (slice_le bytes 56 60) (\<lambda>count.
     let expected_count = (if zkey_bytes = 0 then 0 else (zkey_bytes + chunk_bytes - 1) div chunk_bytes) in
     rbind (ok_or (checked_mul count hash_bytes) (ArtifactInvalidZkey ''manifest hash table overflow'')) (\<lambda>table.
     rbind (ok_or (checked_add manifest_header_bytes table) (ArtifactInvalidZkey ''manifest size overflow'')) (\<lambda>expected_bytes.
     rbind (guard (zkey_bytes = 0 \<or> count \<noteq> expected_count \<or> length bytes \<noteq> expected_bytes)
         (ArtifactInvalidZkey ''zkey manifest size or chunk count mismatch'')) (\<lambda>_.
       Ok \<lparr>zm_chunk_bytes = chunk_bytes, zm_zkey_bytes = zkey_bytes, zm_zkey_sha256 = zkey_sha256,
           zm_chunk_hashes = chunks hash_bytes (drop manifest_header_bytes bytes)\<rparr>))))))))))))))"

definition manifest_generate ::
    "digest \<Rightarrow> reply list \<Rightarrow> nat \<Rightarrow> (byte list \<times> byte list, artifact_error) result" where
  "manifest_generate sha rs chunk_bytes =
     rbind (guard (\<not> chunk_size_allowed chunk_bytes)
         (ArtifactInvalidZkey ''manifest chunk size must be a power of two from 64 KiB to 8 MiB'')) (\<lambda>_.
     rbind (fst (chunk_pass (\<lambda>_. False) ArtifactIo (ArtifactInvalidZkey ''zkey size overflow'') sha chunk_bytes ([], [], 0) rs))
       (\<lambda>(whole, chunk_hashes, zkey_bytes).
     rbind (guard (zkey_bytes = 0) (ArtifactInvalidZkey ''cannot manifest an empty zkey'')) (\<lambda>_.
     rbind (guard (2 ^ 32 \<le> length chunk_hashes) (ArtifactInvalidZkey ''too many manifest chunks'')) (\<lambda>_.
       let encoded = manifest_magic @ nat_to_le 4 manifest_version @ nat_to_le 4 chunk_bytes @ nat_to_le 8 zkey_bytes @
             sha whole @ nat_to_le 4 (length chunk_hashes) @ concat chunk_hashes
       in Ok (encoded, to_hex (sha encoded))))))"

text \<open>One chunk of \<open>verify_reader\<close>, with the bytes received and hashed so far.\<close>

definition exact_or_eof :: "io_error \<Rightarrow> artifact_error" where
  "exact_or_eof e = (if e = UnexpectedEof then ArtifactUnexpectedEof else ArtifactIo e)"

definition verify_chunk ::
    "digest \<Rightarrow> zkey_manifest \<Rightarrow> nat \<times> byte list \<Rightarrow> nat \<times> byte list \<Rightarrow> (reply list, nat \<times> byte list, artifact_error) sm" where
  "verify_chunk sha manifest = (\<lambda>(index, expected) (received, whole).
     sbind (slift (guard (zm_zkey_bytes manifest < received) (ArtifactInvalidZkey ''manifest chunk table exceeds zkey size''))) (\<lambda>_.
     let count = min (zm_zkey_bytes manifest - received) (zm_chunk_bytes manifest) in
     sbind (\<lambda>rs. case read_exact count rs of (filled, got, rs) \<Rightarrow>
         (map_err exact_or_eof (rbind filled (\<lambda>_. Ok got)), rs)) (\<lambda>bytes.
     sbind (slift (guard (sha bytes \<noteq> expected) (ZkeyChunkHashMismatch index (to_hex expected) (to_hex (sha bytes))))) (\<lambda>_.
       sret (received + count, whole @ bytes)))))"

definition manifest_verify_reader :: "digest \<Rightarrow> zkey_manifest \<Rightarrow> (reply list, unit, artifact_error) sm" where
  "manifest_verify_reader sha manifest =
     sbind (sfold (enumerate 0 (zm_chunk_hashes manifest)) (verify_chunk sha manifest) (0, [])) (\<lambda>(received, whole).
     sbind (smap_err ArtifactIo (src_read 1)) (\<lambda>more.
     sbind (slift (guard (length more \<noteq> 0) (ArtifactInvalidZkey ''zkey stream exceeds manifest size''))) (\<lambda>_.
       slift (guard (to_hex (sha whole) \<noteq> zm_zkey_sha256 manifest)
         (ArtifactZkeyHashMismatch (zm_zkey_sha256 manifest) (to_hex (sha whole)))))))"

section \<open>The manifest reader\<close>

record manifest_reader =
  mr_source :: "reply list"
  mr_manifest :: zkey_manifest
  mr_chunk :: "byte list"
  mr_position :: nat
  mr_next_chunk :: nat
  mr_delivered :: nat

definition manifest_reader_new :: "reply list \<Rightarrow> zkey_manifest \<Rightarrow> manifest_reader" where
  "manifest_reader_new source manifest =
     \<lparr>mr_source = source, mr_manifest = manifest, mr_chunk = [], mr_position = 0, mr_next_chunk = 0, mr_delivered = 0\<rparr>"

definition next_chunk :: "digest \<Rightarrow> (manifest_reader, unit, io_error) sm" where
  "next_chunk sha r =
     (let count = min (zm_zkey_bytes (mr_manifest r) - mr_delivered r) (zm_chunk_bytes (mr_manifest r)) in
      case read_exact count (mr_source r) of (filled, got, rs) \<Rightarrow>
      sbind (slift filled) (\<lambda>_.
      sbind (\<lambda>r. (idx (zm_chunk_hashes (mr_manifest r)) (mr_next_chunk r), r)) (\<lambda>expected.
      sbind (\<lambda>r. (guard (sha (mr_chunk r) \<noteq> expected) (ChunkChanged (mr_next_chunk r) (to_hex expected) (to_hex (sha (mr_chunk r)))), r)) (\<lambda>_.
        smodify (\<lambda>r. r\<lparr>mr_next_chunk := mr_next_chunk r + 1, mr_position := 0\<rparr>))))
        (r\<lparr>mr_source := rs, mr_chunk := got @ drop (length got) (resize (mr_chunk r) count 0), mr_position := count\<rparr>))"

definition manifest_read :: "digest \<Rightarrow> nat \<Rightarrow> (manifest_reader, byte list, io_error) sm" where
  "manifest_read sha n r =
     (if n = 0 \<or> mr_delivered r = zm_zkey_bytes (mr_manifest r) then (Ok [], r)
      else sbind (if mr_position r = length (mr_chunk r) then next_chunk sha else sret ()) (\<lambda>_ r.
        let count = min n (length (mr_chunk r) - mr_position r)
        in (Ok (take count (drop (mr_position r) (mr_chunk r))),
            r\<lparr>mr_position := mr_position r + count, mr_delivered := mr_delivered r + count\<rparr>)) r)"

function probe_end :: "reply list \<Rightarrow> (unit, artifact_error) result" where
  "probe_end rs =
     (case src_read 1 rs of
        (Ok got, rs) \<Rightarrow> if length got = 0 then Ok () else Err (ArtifactInvalidZkey ''zkey stream exceeds manifest size'')
      | (Err e, rs) \<Rightarrow> if e = Interrupted then probe_end rs else Err (ArtifactIo e)
      | (Panic, rs) \<Rightarrow> Panic)"
  by pat_completeness auto

termination
  by (relation "measure replies_size") (auto dest!: sym [THEN src_read_size(2)])

declare probe_end.simps [simp del]

definition manifest_finish :: "manifest_reader \<Rightarrow> (unit, artifact_error) result" where
  "manifest_finish r =
     rbind (guard (mr_delivered r \<noteq> zm_zkey_bytes (mr_manifest r)) ArtifactUnexpectedEof) (\<lambda>_. probe_end (mr_source r))"

end
