(* ===== verification/Pinned_Correct.thy ===== *)
theory Pinned_Correct
  imports Manifest
begin

text \<open>
  What the pinned readers promise: every byte that they serve lies in a chunk with the digest that the
  authenticated file, or the manifest, has at that place, whatever the source replies and however it is
  read and sought.
\<close>

section \<open>Chunks\<close>

lemma chunks_nth:
  assumes "0 < n"
  shows "i < length (chunks n xs) \<longleftrightarrow> i * n < length xs"
    and "i * n < length xs \<Longrightarrow> chunks n xs ! i = take n (drop (i * n) xs)"
proof (induction i arbitrary: xs)
  case 0
  { case 1 show ?case by (cases "xs = []") (simp_all add: chunks_step assms) }
  { case 2 then show ?case by (cases "xs = []") (simp_all add: chunks_step assms) }
next
  case (Suc i)
  { case 1 show ?case using Suc(1) [of "drop n xs"] assms by (cases "xs = []") (auto simp: chunks_step) }
  { case 2
    then have "xs \<noteq> []" by auto
    then show ?case using Suc(2) [of "drop n xs"] 2 assms by (simp add: chunks_step add.commute less_diff_conv) }
qed

lemma chunks_snoc:
  assumes "n dvd length xs" and "ys \<noteq> []" and "length ys \<le> n"
  shows "chunks n (xs @ ys) = chunks n xs @ [ys]"
  using assms
proof (induction n xs rule: chunks.induct)
  case (1 n xs)
  have n: "0 < n" using 1(3,4) by (cases ys) auto
  show ?case
  proof (cases "xs = []")
    case True
    then show ?thesis using 1(3,4) n by (simp add: chunks_step)
  next
    case False
    then have "n \<le> length xs" using 1(2) by (simp add: dvd_imp_le)
    moreover from this have "n dvd length (drop n xs)" using 1(2) by simp
    ultimately show ?thesis using False n 1 by (simp add: chunks_step)
  qed
qed

lemma length_chunks: "0 < n \<Longrightarrow> length (chunks n xs) = (length xs + n - 1) div n"
proof (induction n xs rule: chunks.induct)
  case (1 n xs)
  show ?case
  proof (cases "xs = []")
    case True
    then show ?thesis using 1(2) by simp
  next
    case False
    then have "length (chunks n xs) = Suc ((length xs - n + n - 1) div n)" using 1 by (simp add: chunks_step)
    also have "\<dots> = (length xs + n - 1) div n"
    proof -
      obtain l where l: "length xs = Suc l" using False by (cases xs) auto
      have "(length xs + n - 1) div n = Suc (l div n)" using 1(2) div_add_self2 [of n l] by (simp add: l)
      moreover have "length xs - n + n - 1 = l \<or> (length xs < n \<and> length xs - n + n - 1 = n - 1)" by (auto simp: l)
      ultimately show ?thesis using l 1(2) by auto
    qed
    finally show ?thesis .
  qed
qed

section \<open>Reading a source\<close>

lemma src_read_no_Panic [simp]: "src_read n rs \<noteq> (Panic, rs')"
  by (cases "(n, rs)" rule: src_read.cases) simp_all

lemma src_read_length: "src_read n rs = (Ok bs, rs') \<Longrightarrow> length bs \<le> n"
  by (cases "(n, rs)" rule: src_read.cases) auto

lemma fill_grows:
  "fill retry n got rs = (r, got', rs') \<Longrightarrow> r \<noteq> Panic \<and> (\<exists>bs. got' = got @ bs) \<and> (length got \<le> n \<longrightarrow> length got' \<le> n)"
proof (induction retry n got rs arbitrary: r got' rs' rule: fill.induct)
  case (1 retry n got rs)
  obtain q rest where read: "src_read (n - length got) rs = (q, rest)" by fastforce
  show ?case
  proof (cases "n \<le> length got")
    case True
    then show ?thesis using 1(3) by (auto simp: fill.simps [of retry n got rs])
  next
    case False
    show ?thesis
    proof (cases q)
      case (Ok bs)
      show ?thesis
      proof (cases "bs = []")
        case True
        then show ?thesis using 1(3) False Ok read by (auto simp: fill.simps [of retry n got rs])
      next
        case more: False
        have "fill retry n (got @ bs) rest = (r, got', rs')"
          using 1(3) False Ok read more by (simp add: fill.simps [of retry n got rs])
        from 1(1) [OF False read [symmetric, unfolded Ok] _ more this] Ok read
        show ?thesis using src_read_length [of "n - length got" rs bs rest] by auto
      qed
    next
      case (Err e)
      show ?thesis
      proof (cases "retry e")
        case True
        have "fill retry n got rest = (r, got', rs')"
          using 1(3) False Err read True by (simp add: fill.simps [of retry n got rs])
        from 1(2) [OF False read [symmetric, unfolded Err] _ True this] show ?thesis by simp
      next
        case no: False
        then show ?thesis using 1(3) False Err read by (auto simp: fill.simps [of retry n got rs])
      qed
    next
      case Panic
      then show ?thesis using read by simp
    qed
  qed
qed

lemma read_exact_Ok:
  assumes "read_exact n rs = (r, got, rs')"
  shows "r \<noteq> Panic" "length got \<le> n" "r = Ok u \<Longrightarrow> length got = n"
proof -
  obtain q g rest where f: "fill interrupted n [] rs = (q, g, rest)" by (cases "fill interrupted n [] rs")
  from fill_grows [OF f] have g: "q \<noteq> Panic" "length g \<le> n" by auto
  then show "r \<noteq> Panic" "length got \<le> n" "r = Ok u \<Longrightarrow> length got = n"
    using assms by (cases q; auto simp: read_exact_def f split: if_splits)+
qed

lemma chunk_pass_Ok:
  assumes "chunk_pass retry into overflow sha n (whole, hashes, len) rs = (Ok (whole', hashes', len'), rs')"
    and "0 < n" and "n dvd length whole" and "hashes = map sha (chunks n whole)" and "len = length whole"
  shows "hashes' = map sha (chunks n whole') \<and> len' = length whole' \<and> (len' < 2 ^ 64 \<or> len' = len)"
  using assms
proof (induction retry into overflow sha n "(whole, hashes, len)" rs arbitrary: whole hashes len rule: chunk_pass.induct)
  case (1 retry into overflow sha n whole hashes len rs)
  obtain q bs rest where f: "fill retry n [] rs = (q, bs, rest)" by (cases "fill retry n [] rs")
  from fill_grows [OF f] have g: "q \<noteq> Panic" "length bs \<le> n" by auto
  note step = chunk_pass.simps [of retry into overflow sha n whole hashes len rs]
  show ?case
  proof (cases q)
    case (Ok u)
    show ?thesis
    proof (cases "bs = []")
      case True
      then show ?thesis using 1(2-) Ok f unfolding step by auto
    next
      case False
      let ?acc = "(whole @ bs, hashes @ [sha bs], len + length bs)"
      have small: "len + length bs < 2 ^ 64"
      proof (rule ccontr)
        assume "\<not> len + length bs < 2 ^ 64"
        then have "checked_add len (length bs) = None" by (simp add: checked_add_def usize_bits_def)
        then show False using 1(2) Ok f False unfolding step by simp
      qed
      then have add: "checked_add len (length bs) = Some (len + length bs)" by simp
      have h: "hashes @ [sha bs] = map sha (chunks n (whole @ bs))"
        using 1(4,5) False g(2) by (simp add: chunks_snoc)
      show ?thesis
      proof (cases "length bs < n")
        case True
        then have "(whole', hashes', len') = ?acc"
          using 1(2) Ok f False add unfolding step by simp
        then show ?thesis using h 1(6) small by simp
      next
        case full: False
        then have next_round: "chunk_pass retry into overflow sha n ?acc rest = (Ok (whole', hashes', len'), rs')"
          using 1(2) Ok f False add unfolding step by simp
        have "n dvd length (whole @ bs)" using full g(2) 1(4) by simp
        from 1(1) [OF f [symmetric] Ok refl False add refl full next_round 1(3) this h] 1(6) small
        show ?thesis by auto
      qed
    qed
  next
    case (Err e)
    then show ?thesis using 1(2) f unfolding step by simp
  next
    case Panic
    then show ?thesis using g(1) by simp
  qed
qed

section \<open>The authenticated reader\<close>

lemma auth_chunk_pos [simp]: "0 < auth_chunk_bytes"
  by (simp add: auth_chunk_bytes_def)

text \<open>A cached chunk may differ from the chunk of the file, but only as a second preimage of its digest.\<close>

definition pinned_chunk :: "digest \<Rightarrow> nat \<Rightarrow> byte list \<Rightarrow> nat \<Rightarrow> byte list \<Rightarrow> bool" where
  "pinned_chunk sha n zkey i chunk \<longleftrightarrow>
     length chunk = length (take n (drop (i * n) zkey)) \<and> sha chunk = sha (take n (drop (i * n) zkey))"

definition auth_inv :: "digest \<Rightarrow> byte list \<Rightarrow> auth_reader \<Rightarrow> bool" where
  "auth_inv sha zkey r \<longleftrightarrow>
     ar_length r = length zkey \<and> ar_hashes r = map sha (chunks auth_chunk_bytes zkey) \<and>
     length (ar_buffer r) = auth_chunk_bytes \<and>
     (\<forall>i. ar_cached r = Some i \<longrightarrow> i * auth_chunk_bytes < length zkey \<and>
        pinned_chunk sha auth_chunk_bytes zkey i (take (length zkey - i * auth_chunk_bytes) (ar_buffer r)))"

lemma auth_new_inv:
  assumes "auth_new sha source expected = Ok r"
  obtains zkey where "prover_decode_sha256 expected = Ok (sha zkey)" "auth_inv sha zkey r" "ar_position r = 0"
    "length zkey < 2 ^ 64"
proof -
  obtain sought s where seek: "src_seek (SeekStart 0) source = (sought, s)" by fastforce
  obtain passed rest where pass: "chunk_pass interrupted ProverZkeyIo (ProverZkeyIo LengthOverflow) sha auth_chunk_bytes ([], [], 0) (src_replies s) = (passed, rest)" by fastforce
  obtain whole hashes len where w: "passed = Ok (whole, hashes, len)" "verify_digest (sha whole) expected = Ok ()"
      "r = \<lparr>ar_source = s\<lparr>src_replies := rest\<rparr>, ar_length = len, ar_position = 0, ar_hashes = hashes,
         ar_buffer = replicate auth_chunk_bytes 0, ar_cached = None\<rparr>"
    using assms by (auto simp: auth_new_def seek pass rbind_Ok_iff)
  have c: "hashes = map sha (chunks auth_chunk_bytes whole) \<and> len = length whole \<and> (len < 2 ^ 64 \<or> len = 0)"
    using chunk_pass_Ok [OF pass [unfolded w(1)]] by auto
  moreover have "length whole < 2 ^ 64"
  proof -
    have "len < 2 ^ 64" using c by (elim conjE disjE) simp_all
    then show ?thesis using c by (elim conjE) (simp only:)
  qed
  moreover have "prover_decode_sha256 expected = Ok (sha whole)" using w(2) by (auto simp: verify_digest_def rbind_Ok_iff)
  ultimately show ?thesis using w(3) by (intro that [of whole]) (auto simp: auth_inv_def)
qed

lemma load_chunk_inv:
  assumes inv: "auth_inv sha zkey r" "ar_cached r = None" and i: "i * auth_chunk_bytes < length zkey"
    and load: "load_chunk sha i (min (length zkey - i * auth_chunk_bytes) auth_chunk_bytes) r = (q, r')"
  shows "q \<noteq> Panic \<and> auth_inv sha zkey r' \<and> ar_position r' = ar_position r \<and> (\<forall>u. q = Ok u \<longrightarrow> ar_cached r' = Some i)"
proof -
  let ?n = "auth_chunk_bytes" and ?c = "min (length zkey - i * auth_chunk_bytes) auth_chunk_bytes"
  obtain filled got rs where read: "read_exact ?c (src_replies (ar_source r)) = (filled, got, rs)" by (cases "read_exact ?c (src_replies (ar_source r))")
  have got: "filled \<noteq> Panic" "length got \<le> ?c" "filled = Ok () \<Longrightarrow> length got = ?c" by (rule read_exact_Ok [OF read])+
  have buffer: "length (got @ drop (length got) (ar_buffer r)) = ?n" using inv(1) got(2) by (simp add: auth_inv_def)
  have index: "i < length (ar_hashes r)" "ar_hashes r ! i = sha (take ?n (drop (i * ?n) zkey))"
    using inv(1) i chunks_nth [OF auth_chunk_pos, of i zkey] by (simp_all add: auth_inv_def)
  show ?thesis
  proof (cases filled)
    case (Ok u)
    then have len: "length got = ?c" using got(3) by simp
    then have take: "take ?c (got @ drop (length got) (ar_buffer r)) = got" by simp
    have "take (length zkey - i * ?n) (got @ drop (length got) (ar_buffer r)) = got"
    proof (cases "length zkey - i * ?n \<le> ?n")
      case True
      then show ?thesis using len by simp
    next
      case False
      then have "length got = ?n" "length (ar_buffer r) = ?n" using len inv(1) by (simp_all add: auth_inv_def)
      then show ?thesis using False by simp
    qed
    moreover have "length got = length (take ?n (drop (i * ?n) zkey))" using len by simp
    ultimately show ?thesis using load inv index buffer i take
      by (auto simp: load_chunk_def read Ok sm_simps auth_inv_def pinned_chunk_def guard_def split: if_splits)
  next
    case (Err e)
    then show ?thesis using load inv buffer by (auto simp: load_chunk_def read sm_simps auth_inv_def)
  next
    case Panic
    then show ?thesis using got(1) by simp
  qed
qed

lemma cache_chunk_inv:
  assumes inv: "auth_inv sha zkey r" and i: "i * auth_chunk_bytes < length zkey" and cache: "cache_chunk sha i r = (q, r')"
  shows "q \<noteq> Panic \<and> auth_inv sha zkey r' \<and> ar_position r' = ar_position r \<and> (\<forall>u. q = Ok u \<longrightarrow> ar_cached r' = Some i)"
proof (cases "ar_cached r = Some i")
  case True
  then show ?thesis using cache inv by (auto simp: cache_chunk_def)
next
  case False
  let ?r = "r\<lparr>ar_cached := None\<rparr>"
  obtain sought s where seek: "src_seek (SeekStart (i * auth_chunk_bytes)) (ar_source r) = (sought, s)" by fastforce
  have sought: "sought \<noteq> Panic" using seek by (auto simp: src_seek_def split: list.splits sum.splits)
  have len: "ar_length r = length zkey" using inv by (simp add: auth_inv_def)
  have inv': "auth_inv sha zkey (?r\<lparr>ar_source := s\<rparr>)" using inv by (simp add: auth_inv_def)
  show ?thesis
  proof (cases sought)
    case (Ok u)
    have "load_chunk sha i (min (length zkey - i * auth_chunk_bytes) auth_chunk_bytes) (?r\<lparr>ar_source := s\<rparr>) = (q, r')"
      using cache False i by (simp add: cache_chunk_def Let_def sm_simps len seek Ok)
    from load_chunk_inv [OF inv' _ i this] show ?thesis by simp
  next
    case (Err e)
    then show ?thesis using cache False i inv' by (auto simp: cache_chunk_def Let_def sm_simps len seek)
  next
    case Panic
    then show ?thesis using sought by simp
  qed
qed

text \<open>What a read of \<open>n\<close> bytes at \<open>position\<close> delivers: it stops at the end of the chunk and of the file.\<close>

definition read_count :: "nat \<Rightarrow> nat \<Rightarrow> nat \<Rightarrow> nat" where
  "read_count len position n = min n (min (auth_chunk_bytes - position mod auth_chunk_bytes) (len - position))"

lemma auth_read_inv:
  assumes inv: "auth_inv sha zkey r" and read: "auth_read sha n r = (q, r')"
  shows "q \<noteq> Panic \<and> auth_inv sha zkey r' \<and>
    (case q of
       Ok bytes \<Rightarrow> \<exists>chunk. pinned_chunk sha auth_chunk_bytes zkey (ar_position r div auth_chunk_bytes) chunk \<and>
         bytes = take (read_count (length zkey) (ar_position r) n) (drop (ar_position r mod auth_chunk_bytes) chunk) \<and>
         length bytes = read_count (length zkey) (ar_position r) n \<and> ar_position r' = ar_position r + length bytes
     | _ \<Rightarrow> ar_position r' = ar_position r)"
proof -
  let ?n = "auth_chunk_bytes" and ?p = "ar_position r"
  have len: "ar_length r = length zkey" using inv by (simp add: auth_inv_def)
  show ?thesis
  proof (cases "n = 0 \<or> length zkey \<le> ?p")
    case True
    then have "read_count (length zkey) ?p n = 0" by (auto simp: read_count_def)
    then show ?thesis using read inv True len
      by (auto simp: auth_read_def pinned_chunk_def intro!: exI [of _ "take ?n (drop (?p div ?n * ?n) zkey)"])
  next
    case False
    let ?i = "?p div ?n"
    have i: "?i * ?n < length zkey" using False by (meson div_times_less_eq_dividend le_less_trans not_le)
    obtain c r1 where cache: "cache_chunk sha ?i r = (c, r1)" by fastforce
    from cache_chunk_inv [OF inv i cache] have c: "c \<noteq> Panic" "auth_inv sha zkey r1" "ar_position r1 = ?p"
        "\<And>u. c = Ok u \<Longrightarrow> ar_cached r1 = Some ?i" by auto
    show ?thesis
    proof (cases c)
      case (Ok u)
      let ?chunk = "take (length zkey - ?i * ?n) (ar_buffer r1)"
      let ?k = "read_count (length zkey) ?p n"
      have pinned: "pinned_chunk sha ?n zkey ?i ?chunk" and buffer: "length (ar_buffer r1) = ?n"
        using c(2) c(4) [OF Ok] by (auto simp: auth_inv_def)
      have rest: "length zkey - ?p = length zkey - ?i * ?n - ?p mod ?n"
        using div_mult_mod_eq [of ?p ?n] by (metis diff_diff_left)
      have count: "min (min n (?n - ?p mod ?n)) (min (length zkey - ?p) ?n) = ?k"
        by (auto simp: read_count_def min_def)
      have len1: "ar_length r1 = length zkey" using c(2) by (simp add: auth_inv_def)
      have q: "q = Ok (take ?k (drop (?p mod ?n) (ar_buffer r1)))" "r' = r1\<lparr>ar_position := ?p + ?k\<rparr>"
        using read False by (auto simp: auth_read_def len Let_def sm_simps cache Ok c(3) len1 count)
      have "?k \<le> length zkey - ?i * ?n - ?p mod ?n" unfolding rest [symmetric] by (simp add: read_count_def)
      then have bytes: "take ?k (drop (?p mod ?n) (ar_buffer r1)) = take ?k (drop (?p mod ?n) ?chunk)"
        by (simp add: drop_take min_def)
      have "length (take ?k (drop (?p mod ?n) (ar_buffer r1))) = ?k"
        by (simp add: buffer read_count_def)
      moreover have "auth_inv sha zkey r'" using c(2) by (simp add: q(2) auth_inv_def)
      ultimately show ?thesis using pinned bytes by (auto simp: q intro!: exI [of _ ?chunk])
    next
      case (Err e)
      then show ?thesis using read False c by (auto simp: auth_read_def len Let_def sm_simps cache)
    next
      case Panic
      then show ?thesis using c(1) by simp
    qed
  qed
qed

lemma auth_seek_inv:
  assumes "auth_inv sha zkey r" and "auth_seek target r = (q, r')"
  shows "q \<noteq> Panic \<and> auth_inv sha zkey r' \<and> (case q of Ok position \<Rightarrow> ar_position r' = position | _ \<Rightarrow> r' = r)"
  using assms by (auto simp: auth_seek_def auth_inv_def split: option.splits)

subsection \<open>Every run\<close>

inductive auth_reachable :: "digest \<Rightarrow> auth_reader \<Rightarrow> auth_reader \<Rightarrow> bool" for sha r0 where
  auth_start: "auth_reachable sha r0 r0"
| auth_after_read: "auth_reachable sha r0 r \<Longrightarrow> auth_reachable sha r0 (snd (auth_read sha n r))"
| auth_after_seek: "auth_reachable sha r0 r \<Longrightarrow> auth_reachable sha r0 (snd (auth_seek target r))"

lemma auth_reachable_inv: "auth_reachable sha r0 r \<Longrightarrow> auth_inv sha zkey r0 \<Longrightarrow> auth_inv sha zkey r"
proof (induction rule: auth_reachable.induct)
  case (auth_after_read r n)
  then show ?case using auth_read_inv [of sha zkey r n] by (metis prod.collapse)
next
  case (auth_after_seek r target)
  then show ?case using auth_seek_inv [of sha zkey r target] by (metis prod.collapse)
qed simp

text \<open>C37: Opening a key with a pinned digest yields a reader for one fixed file of that digest: whatever the
  source replies later and in whatever order the reader is read and sought, a read that succeeds delivers, at
  its position, bytes of a chunk with the length and the digest of the file's chunk, moves the position by
  their number and stops only at the end of a chunk or of the file; a read that fails does not move; and no
  operation panics.\<close>

theorem authenticated_reads_are_pinned:
  assumes "auth_new sha source expected = Ok r0"
  shows "\<exists>zkey. prover_decode_sha256 expected = Ok (sha zkey) \<and> (\<forall>r n target. auth_reachable sha r0 r \<longrightarrow>
    (case auth_read sha n r of
       (Ok bytes, r') \<Rightarrow> \<exists>chunk. pinned_chunk sha auth_chunk_bytes zkey (ar_position r div auth_chunk_bytes) chunk \<and>
         bytes = take (read_count (length zkey) (ar_position r) n) (drop (ar_position r mod auth_chunk_bytes) chunk) \<and>
         length bytes = read_count (length zkey) (ar_position r) n \<and> ar_position r' = ar_position r + length bytes
     | (Err e, r') \<Rightarrow> ar_position r' = ar_position r
     | (Panic, r') \<Rightarrow> False) \<and>
    fst (auth_seek target r) \<noteq> Panic)"
proof -
  obtain zkey where zkey: "prover_decode_sha256 expected = Ok (sha zkey)" "auth_inv sha zkey r0"
    using auth_new_inv [OF assms] by blast
  show ?thesis
  proof (intro exI [of _ zkey] conjI allI impI)
    fix r n target
    assume "auth_reachable sha r0 r"
    then have inv: "auth_inv sha zkey r" using zkey(2) by (rule auth_reachable_inv)
    obtain q r' where read: "auth_read sha n r = (q, r')" by fastforce
    from auth_read_inv [OF inv read] show "case auth_read sha n r of
       (Ok bytes, r') \<Rightarrow> \<exists>chunk. pinned_chunk sha auth_chunk_bytes zkey (ar_position r div auth_chunk_bytes) chunk \<and>
         bytes = take (read_count (length zkey) (ar_position r) n) (drop (ar_position r mod auth_chunk_bytes) chunk) \<and>
         length bytes = read_count (length zkey) (ar_position r) n \<and> ar_position r' = ar_position r + length bytes
     | (Err e, r') \<Rightarrow> ar_position r' = ar_position r
     | (Panic, r') \<Rightarrow> False"
      unfolding read by (cases q) simp_all
    show "fst (auth_seek target r) \<noteq> Panic" using auth_seek_inv [OF inv, of target] by (metis prod.collapse)
  qed (rule zkey(1))
qed

text \<open>A file of one byte that the source hands out in two interrupted passes.\<close>

definition one_byte_source :: source where
  "one_byte_source = \<lparr>src_replies = [Got [7], Got [], Fails Interrupted, Got [7]], src_seeks = [Inl 0, Inl 0]\<rparr>"

definition zero_digest :: digest where
  "zero_digest bytes = replicate 32 0"

lemma one_byte_opens:
  "auth_new zero_digest one_byte_source (replicate 64 48) =
    Ok \<lparr>ar_source = \<lparr>src_replies = [Fails Interrupted, Got [7]], src_seeks = [Inl 0]\<rparr>, ar_length = 1, ar_position = 0,
      ar_hashes = [replicate 32 0], ar_buffer = replicate auth_chunk_bytes 0, ar_cached = None\<rparr>"
proof -
  have n: "\<not> auth_chunk_bytes \<le> 0" "1 < auth_chunk_bytes" "\<not> auth_chunk_bytes \<le> 1" by (simp_all add: auth_chunk_bytes_def)
  have fill1: "fill interrupted auth_chunk_bytes [7] [Got [], Fails Interrupted, Got [7]] = (Ok (), [7], [Fails Interrupted, Got [7]])"
    using n by (subst fill.simps) simp
  have "fill interrupted auth_chunk_bytes [] (src_replies one_byte_source) = (Ok (), [7], [Fails Interrupted, Got [7]])"
    using n fill1 by (subst fill.simps) (simp add: one_byte_source_def)
  then have "chunk_pass interrupted ProverZkeyIo (ProverZkeyIo LengthOverflow) zero_digest auth_chunk_bytes ([], [], 0) (src_replies one_byte_source) =
      (Ok ([7], [replicate 32 0], 1), [Fails Interrupted, Got [7]])"
    using n by (subst chunk_pass.simps) (simp add: zero_digest_def checked_add_def usize_bits_def)
  moreover have "prover_decode_sha256 (replicate 64 48) = Ok (replicate 32 0)" by code_simp
  ultimately show ?thesis
    by (simp add: auth_new_def src_seek_def one_byte_source_def verify_digest_def zero_digest_def)
qed

lemma authenticated_reads_are_pinned_witness:
  "\<exists>zkey. prover_decode_sha256 (replicate 64 48) = Ok (zero_digest zkey)"
  using authenticated_reads_are_pinned [OF one_byte_opens] by (elim exE conjE) (rule exI)

end
