(* ===== verification/Manifest_Correct.thy ===== *)
theory Manifest_Correct
  imports Pinned_Correct Sage_Cache
begin

text \<open>
  The chunk manifest end to end: what a generated manifest records, what its verifier establishes, and that
  the forward reader delivers nothing but pinned chunks and, from an honest source, the whole file.
\<close>

section \<open>Honest sources\<close>

text \<open>The bytes that a source still holds, when it does nothing worse than to be interrupted.\<close>

fun content :: "reply list \<Rightarrow> byte list" where
  "content [] = []"
| "content (Got bs # rs) = bs @ content rs"
| "content (Fails e # rs) = content rs"

definition honest :: "(io_error \<Rightarrow> bool) \<Rightarrow> reply list \<Rightarrow> byte list \<Rightarrow> bool" where
  "honest retry rs zkey \<longleftrightarrow> list_all (\<lambda>r. case r of Got bs \<Rightarrow> bs \<noteq> [] | Fails e \<Rightarrow> retry e) rs \<and> content rs = zkey"

lemma honest_read:
  assumes "honest retry rs zkey" and "0 < n"
  shows "(\<exists>bs rs'. src_read n rs = (Ok bs, rs') \<and> zkey = bs @ drop (length bs) zkey \<and> length bs \<le> n \<and>
      (bs = [] \<longleftrightarrow> zkey = []) \<and> honest retry rs' (drop (length bs) zkey)) \<or>
    (\<exists>e rs'. src_read n rs = (Err e, rs') \<and> retry e \<and> honest retry rs' zkey)"
proof (cases rs)
  case (Cons r rest)
  then show ?thesis using assms by (cases r) (auto simp: honest_def)
qed (use assms in \<open>auto simp: honest_def\<close>)

lemma fill_honest:
  "honest retry rs zkey \<Longrightarrow>
    \<exists>rs'. fill retry n got rs = (Ok (), got @ take (n - length got) zkey, rs') \<and> honest retry rs' (drop (n - length got) zkey)"
proof (induction retry n got rs arbitrary: zkey rule: fill.induct)
  case (1 retry n got rs)
  note step = fill.simps [of retry n got rs]
  show ?case
  proof (cases "n \<le> length got")
    case True
    then show ?thesis using 1(3) by (simp add: step)
  next
    case False
    then have "0 < n - length got" by simp
    from honest_read [OF 1(3) this] show ?thesis
    proof (elim disjE exE conjE)
      fix bs rest
      assume r: "src_read (n - length got) rs = (Ok bs, rest)" "zkey = bs @ drop (length bs) zkey" "length bs \<le> n - length got"
        "(bs = []) = (zkey = [])" "honest retry rest (drop (length bs) zkey)"
      show ?thesis
      proof (cases "bs = []")
        case True
        then show ?thesis using r False by (simp add: step)
      next
        case more: False
        from 1(1) [OF False r(1) [symmetric] refl more r(5)] obtain rs' where
          rs': "fill retry n (got @ bs) rest = (Ok (), (got @ bs) @ take (n - length (got @ bs)) (drop (length bs) zkey), rs')"
            "honest retry rs' (drop (n - length (got @ bs)) (drop (length bs) zkey))" by blast
        have "take (n - length got) zkey = bs @ take (n - length (got @ bs)) (drop (length bs) zkey)"
          by (subst r(2)) (use r(3) in \<open>simp add: diff_diff_eq\<close>)
        moreover have "n - length (got @ bs) + length bs = n - length got" using r(3) False by simp
        then have "drop (n - length (got @ bs)) (drop (length bs) zkey) = drop (n - length got) zkey" by (simp only: drop_drop)
        ultimately show ?thesis using rs' r(1) more False by (simp add: step)
      qed
    next
      fix e rest
      assume r: "src_read (n - length got) rs = (Err e, rest)" "retry e" "honest retry rest zkey"
      from 1(2) [OF False r(1) [symmetric] refl r(2,3)] show ?thesis using r False by (simp add: step)
    qed
  qed
qed

lemma read_exact_honest:
  assumes "honest interrupted rs zkey" and "n \<le> length zkey"
  shows "\<exists>rs'. read_exact n rs = (Ok (), take n zkey, rs') \<and> honest interrupted rs' (drop n zkey)"
  using fill_honest [OF assms(1), of n "[]"] assms(2) by (auto simp: read_exact_def)

lemma chunk_pass_honest:
  assumes "honest retry rs zkey" and "0 < n" and "len + length zkey < 2 ^ 64"
  shows "\<exists>rs'. chunk_pass retry into overflow sha n (whole, hashes, len) rs =
    (Ok (whole @ zkey, hashes @ map sha (chunks n zkey), len + length zkey), rs')"
  using assms
proof (induction retry into overflow sha n "(whole, hashes, len)" rs arbitrary: whole hashes len zkey rule: chunk_pass.induct)
  case (1 retry into overflow sha n whole hashes len rs)
  note step = chunk_pass.simps [of retry into overflow sha n whole hashes len rs]
  obtain rest where f: "fill retry n [] rs = (Ok (), take n zkey, rest)" "honest retry rest (drop n zkey)"
    using fill_honest [OF 1(2), of n "[]"] by auto
  show ?case
  proof (cases "zkey = []")
    case True
    then show ?thesis using f(1) unfolding step by simp
  next
    case False
    then have some: "take n zkey \<noteq> []" using 1(3) by simp
    have add: "checked_add len (length (take n zkey)) = Some (len + length (take n zkey))" using 1(4) by simp
    note [simp] = checked_add_def usize_bits_def
    show ?thesis
    proof (cases "length zkey < n")
      case True
      then show ?thesis using f(1) some add 1(3) False unfolding step by (simp add: chunks_step Let_def)
    next
      case full: False
      then have len: "\<not> length (take n zkey) < n" by simp
      have "len + length (take n zkey) + length (drop n zkey) < 2 ^ 64" using 1(4) full by simp
      from 1(1) [OF f(1) [symmetric] refl refl some add refl len f(2) 1(3) this]
      show ?thesis using f(1) some add len full 1(3) False unfolding step by (auto simp: chunks_step)
    qed
  qed
qed

section \<open>The encoding\<close>

definition manifest_bytes :: "digest \<Rightarrow> nat \<Rightarrow> byte list \<Rightarrow> byte list" where
  "manifest_bytes sha c zkey =
     manifest_magic @ nat_to_le 4 manifest_version @ nat_to_le 4 c @ nat_to_le 8 (length zkey) @ sha zkey @
     nat_to_le 4 (length (chunks c zkey)) @ concat (map sha (chunks c zkey))"

definition manifest_of :: "digest \<Rightarrow> nat \<Rightarrow> byte list \<Rightarrow> zkey_manifest" where
  "manifest_of sha c zkey =
     \<lparr>zm_chunk_bytes = c, zm_zkey_bytes = length zkey, zm_zkey_sha256 = to_hex (sha zkey), zm_chunk_hashes = map sha (chunks c zkey)\<rparr>"

definition manifest_fits :: "nat \<Rightarrow> byte list \<Rightarrow> bool" where
  "manifest_fits c zkey \<longleftrightarrow> chunk_size_allowed c \<and> zkey \<noteq> [] \<and> length zkey < 2 ^ 64 \<and> length (chunks c zkey) < 2 ^ 32"

lemma chunk_size_bounds: "chunk_size_allowed c \<Longrightarrow> 0 < c \<and> c < 2 ^ 32"
  by (simp add: chunk_size_allowed_def min_chunk_bytes_def max_chunk_bytes_def)

lemma generate_Ok:
  assumes "manifest_generate sha rs c = Ok (encoded, pin)"
  obtains zkey where "manifest_fits c zkey" "encoded = manifest_bytes sha c zkey" "pin = to_hex (sha encoded)"
proof -
  obtain passed rest where pass: "chunk_pass (\<lambda>_. False) ArtifactIo (ArtifactInvalidZkey ''zkey size overflow'') sha c ([], [], 0) rs = (passed, rest)" by fastforce
  obtain whole hashes len where w: "chunk_size_allowed c" "passed = Ok (whole, hashes, len)" "len \<noteq> 0" "length hashes < 2 ^ 32"
      "encoded = manifest_magic @ nat_to_le 4 manifest_version @ nat_to_le 4 c @ nat_to_le 8 len @ sha whole @ nat_to_le 4 (length hashes) @ concat hashes"
      "pin = to_hex (sha encoded)"
    using assms by (auto simp: manifest_generate_def pass rbind_Ok_iff Let_def)
  have "0 < c" using chunk_size_bounds w(1) by simp
  from chunk_pass_Ok [OF pass [unfolded w(2)] this] have "hashes = map sha (chunks c whole)" "len = length whole" "len < 2 ^ 64" using w(3) by auto
  then show ?thesis using w by (intro that [of whole]) (auto simp: manifest_fits_def manifest_bytes_def)
qed

lemma generate_honest:
  assumes "honest (\<lambda>_. False) rs zkey" and "manifest_fits c zkey"
  shows "manifest_generate sha rs c = Ok (manifest_bytes sha c zkey, to_hex (sha (manifest_bytes sha c zkey)))"
proof -
  have fits: "chunk_size_allowed c" "0 < c" "zkey \<noteq> []" "0 + length zkey < 2 ^ 64" "length (chunks c zkey) < 2 ^ 32"
    using assms(2) chunk_size_bounds by (auto simp: manifest_fits_def)
  obtain rest where "chunk_pass (\<lambda>_. False) ArtifactIo (ArtifactInvalidZkey ''zkey size overflow'') sha c ([], [], 0) rs =
      (Ok ([] @ zkey, [] @ map sha (chunks c zkey), 0 + length zkey), rest)"
    using chunk_pass_honest [OF assms(1) fits(2,4), of ArtifactIo _ sha "[]" "[]"] by blast
  then show ?thesis using fits by (simp add: manifest_generate_def manifest_bytes_def Let_def not_le)
qed

lemma normalize_hex: "length d = 32 \<Longrightarrow> normalize_hash (to_hex d) = Ok (to_hex d)"
  by (simp add: normalize_hash_def to_hex_digits to_hex_lowercase)

lemma chunks_concat_const:
  assumes "\<forall>x \<in> set xs. length x = n" and "0 < n"
  shows "chunks n (concat xs) = xs"
  using assms(1)
proof (induction xs)
  case (Cons x xs)
  then have "x \<noteq> []" using assms(2) by auto
  then show ?case using Cons assms(2) by (simp add: chunks_step)
qed simp

lemma from_bytes_generated:
  assumes sha: "\<forall>x. length (sha x) = 32" and fits: "manifest_fits c zkey"
  shows "manifest_from_bytes sha (manifest_bytes sha c zkey) (to_hex (sha (manifest_bytes sha c zkey))) (to_hex (sha zkey)) = Ok (manifest_of sha c zkey)"
proof -
  let ?b = "manifest_bytes sha c zkey" and ?k = "length (chunks c zkey)"
  have c: "chunk_size_allowed c" "0 < c" "c < 256 ^ 4" "?k < 256 ^ 4" "length zkey < 256 ^ 8" "zkey \<noteq> []"
    using fits chunk_size_bounds by (auto simp: manifest_fits_def)
  have table: "length (concat (map sha (chunks c zkey))) = 32 * ?k"
    using sha by (induction "chunks c zkey" rule: rev_induct) (simp_all add: length_concat sum_list_triv comp_def)
  have "length ?b = 60 + 32 * ?k" using sha table by (simp add: manifest_bytes_def manifest_magic_def)
  moreover have "take 8 ?b = manifest_magic" by (simp add: manifest_bytes_def manifest_magic_def)
  moreover have "slice_le ?b 8 12 = (Ok manifest_version :: (_, artifact_error) result)" "slice_le ?b 12 16 = (Ok c :: (_, artifact_error) result)"
      "slice_le ?b 16 24 = (Ok (length zkey) :: (_, artifact_error) result)" "slice_le ?b 56 60 = (Ok ?k :: (_, artifact_error) result)"
      "take 32 (drop 24 ?b) = sha zkey" "drop 60 ?b = concat (map sha (chunks c zkey))"
    using sha c by (simp_all add: slice_le_def manifest_bytes_def manifest_magic_def manifest_version_def)
  moreover have "chunks 32 (concat (map sha (chunks c zkey))) = map sha (chunks c zkey)"
    using sha by (intro chunks_concat_const) auto
  moreover have "?k = (length zkey + c - 1) div c" using c(2) by (rule length_chunks)
  ultimately show ?thesis
    using sha c by (simp add: manifest_from_bytes_def normalize_hex Let_def manifest_of_def manifest_header_bytes_def
        checked_mul_def checked_add_def usize_bits_def hash_bytes_def)
qed

text \<open>What any accepted manifest satisfies.\<close>

definition manifest_ok :: "zkey_manifest \<Rightarrow> bool" where
  "manifest_ok m \<longleftrightarrow> 0 < zm_chunk_bytes m \<and> 0 < zm_zkey_bytes m \<and>
     length (zm_chunk_hashes m) = (zm_zkey_bytes m + zm_chunk_bytes m - 1) div zm_chunk_bytes m"

lemma from_bytes_ok:
  assumes "manifest_from_bytes sha bytes expected_manifest expected_zkey = Ok m"
  shows "manifest_ok m"
proof -
  obtain c n k where m: "chunk_size_allowed c" "n \<noteq> 0" "k = (n + c - 1) div c" "length bytes = 60 + 32 * k"
      "m = \<lparr>zm_chunk_bytes = c, zm_zkey_bytes = n, zm_zkey_sha256 = to_hex (take 32 (drop 24 bytes)), zm_chunk_hashes = chunks hash_bytes (drop 60 bytes)\<rparr>"
    using assms by (auto simp: manifest_from_bytes_def rbind_Ok_iff Let_def hash_bytes_def manifest_header_bytes_def split: if_splits)
  have "length (chunks hash_bytes (drop 60 bytes)) = (32 * k + 32 - 1) div 32"
    using m(4) length_chunks [of hash_bytes "drop 60 bytes"] by (simp add: hash_bytes_def)
  also have "\<dots> = k" by simp
  finally show ?thesis using m chunk_size_bounds by (simp add: manifest_ok_def)
qed

section \<open>The verifier\<close>

lemma ceil_less: "0 < c \<Longrightarrow> k < (N + c - 1) div c \<longleftrightarrow> k * c < N" for c k N :: nat
  using chunks_nth(1) [of c k "replicate N ()"] length_chunks [of c "replicate N ()"] by simp

lemma verify_loop:
  assumes "manifest_ok m" and "drop k (zm_chunk_hashes m) = hs" and "k \<le> length (zm_chunk_hashes m)"
    and "sfold (enumerate k hs) (verify_chunk sha m) (length whole, whole) rs = (Ok (received, whole'), rs')"
    and "length whole = min (k * zm_chunk_bytes m) (zm_zkey_bytes m)"
    and "map sha (chunks (zm_chunk_bytes m) whole) = take k (zm_chunk_hashes m)"
  shows "length whole' = zm_zkey_bytes m \<and> map sha (chunks (zm_chunk_bytes m) whole') = zm_chunk_hashes m"
  using assms(2-)
proof (induction hs arbitrary: k whole rs)
  case Nil
  let ?c = "zm_chunk_bytes m" and ?N = "zm_zkey_bytes m"
  have k: "k = length (zm_chunk_hashes m)" using Nil by simp
  then have "\<not> k * ?c < ?N" using assms(1) ceil_less [of ?c k ?N] by (simp add: manifest_ok_def)
  then show ?case using Nil k by (simp add: sm_simps)
next
  case (Cons h hs)
  let ?c = "zm_chunk_bytes m" and ?N = "zm_zkey_bytes m" and ?H = "zm_chunk_hashes m"
  have k: "k < length ?H" using Cons.prems(1) by (metis drop_all list.distinct(1) not_le)
  then have less: "k * ?c < ?N" using assms(1) ceil_less [of ?c k ?N] by (simp add: manifest_ok_def)
  have c: "0 < ?c" using assms(1) by (simp add: manifest_ok_def)
  have len: "length whole = k * ?c" using Cons.prems(4) less by simp
  let ?count = "min (?N - length whole) ?c"
  obtain filled got rest where read: "read_exact ?count rs = (filled, got, rest)" by (cases "read_exact ?count rs")
  have verify: "verify_chunk sha m (k, h) (length whole, whole) rs =
      (case filled of
         Ok _ \<Rightarrow> if sha got \<noteq> h then (Err (ZkeyChunkHashMismatch k (to_hex h) (to_hex (sha got))), rest)
           else (Ok (length whole + ?count, whole @ got), rest)
       | Err e \<Rightarrow> (Err (exact_or_eof e), rest)
       | Panic \<Rightarrow> (Panic, rest))"
    using less by (cases filled) (simp_all add: verify_chunk_def sm_simps read [unfolded len] len guard_def Let_def)
  have step: "filled = Ok ()" "sha got = h"
      "sfold (enumerate (Suc k) hs) (verify_chunk sha m) (length whole + ?count, whole @ got) rest = (Ok (received, whole'), rs')"
    using Cons.prems(3) verify by (cases filled; simp add: sbind_def split: if_splits)+
  have got: "length got = ?count" using read_exact_Ok(3) [OF read step(1)] .
  have "0 < ?count" using less c len by simp
  then have some: "got \<noteq> []" using got by auto
  have chunk: "h = ?H ! k" "take (Suc k) ?H = take k ?H @ [h]" "drop (Suc k) ?H = hs"
    using Cons.prems(1) k by (metis nth_via_drop) (metis Cons.prems(1) hd_drop_conv_nth k list.sel(1) take_hd_drop, metis Cons.prems(1) Cons_nth_drop_Suc k list.inject)
  have "map sha (chunks ?c (whole @ got)) = take (Suc k) ?H"
    using Cons.prems(5) some got step(2) len chunk(2) by (simp add: chunks_snoc)
  moreover have "length (whole @ got) = min (Suc k * ?c) ?N" using got len less by (auto simp: min_def)
  moreover have "sfold (enumerate (Suc k) hs) (verify_chunk sha m) (length (whole @ got), whole @ got) rest = (Ok (received, whole'), rs')"
    using step(3) got by simp
  ultimately show ?case using Cons.IH [of "Suc k" "whole @ got" rest] chunk(3) k by simp
qed

lemma verify_reader_Ok:
  assumes "manifest_ok m" and "manifest_verify_reader sha m rs = (Ok (), rs')"
  obtains zkey where "length zkey = zm_zkey_bytes m" "map sha (chunks (zm_chunk_bytes m) zkey) = zm_chunk_hashes m"
    "to_hex (sha zkey) = zm_zkey_sha256 m"
proof -
  obtain q rest where loop: "sfold (enumerate 0 (zm_chunk_hashes m)) (verify_chunk sha m) (0, []) rs = (q, rest)" by fastforce
  obtain received whole where w: "q = Ok (received, whole)" "to_hex (sha whole) = zm_zkey_sha256 m"
    using assms(2) by (cases q) (auto simp: manifest_verify_reader_def sm_simps loop guard_def split: prod.splits result.splits if_splits)
  from verify_loop [OF assms(1), of 0 "zm_chunk_hashes m" sha "[]" rs received whole rest] loop w(1)
  have "length whole = zm_zkey_bytes m" "map sha (chunks (zm_chunk_bytes m) whole) = zm_chunk_hashes m" by simp_all
  then show ?thesis using w(2) by (rule that)
qed

section \<open>The forward reader\<close>

definition chunk_length :: "zkey_manifest \<Rightarrow> nat \<Rightarrow> nat" where
  "chunk_length m i = min (zm_chunk_bytes m) (zm_zkey_bytes m - i * zm_chunk_bytes m)"

text \<open>The first chunks of some file whose lengths and digests are those of the manifest.\<close>

definition pinned_chunks :: "digest \<Rightarrow> zkey_manifest \<Rightarrow> byte list list \<Rightarrow> bool" where
  "pinned_chunks sha m cs \<longleftrightarrow> length cs \<le> length (zm_chunk_hashes m) \<and>
     (\<forall>i < length cs. length (cs ! i) = chunk_length m i \<and> sha (cs ! i) = zm_chunk_hashes m ! i)"

lemma pinned_chunks_snoc:
  "pinned_chunks sha m (cs @ [x]) \<longleftrightarrow> pinned_chunks sha m cs \<and> length cs < length (zm_chunk_hashes m) \<and>
    length x = chunk_length m (length cs) \<and> sha x = zm_chunk_hashes m ! length cs"
  by (auto simp: pinned_chunks_def nth_append less_Suc_eq)

lemma pinned_chunks_length:
  assumes "0 < zm_chunk_bytes m" and "pinned_chunks sha m cs"
  shows "length (concat cs) = min (length cs * zm_chunk_bytes m) (zm_zkey_bytes m)"
  using assms(2)
proof (induction cs rule: rev_induct)
  case (snoc x cs)
  then show ?case by (auto simp: pinned_chunks_snoc chunk_length_def min_def)
qed simp

definition manifest_inv :: "digest \<Rightarrow> zkey_manifest \<Rightarrow> byte list \<Rightarrow> manifest_reader \<Rightarrow> bool" where
  "manifest_inv sha m out r \<longleftrightarrow> mr_manifest r = m \<and> mr_position r \<le> length (mr_chunk r) \<and> mr_delivered r = length out \<and>
     (\<exists>cs. pinned_chunks sha m cs \<and> length cs = mr_next_chunk r \<and> out @ drop (mr_position r) (mr_chunk r) = concat cs)"

lemma manifest_inv_next:
  assumes ok: "manifest_ok m" and inv: "manifest_inv sha m out r" and used: "mr_position r = length (mr_chunk r)"
    and more: "length out < zm_zkey_bytes m" and load: "next_chunk sha r = (q, r')"
  shows "q \<noteq> Panic \<and> manifest_inv sha m out r' \<and> (\<forall>u. q = Ok u \<longrightarrow> mr_position r' < length (mr_chunk r'))"
proof -
  let ?c = "zm_chunk_bytes m" and ?N = "zm_zkey_bytes m" and ?k = "mr_next_chunk r"
  obtain cs where cs: "pinned_chunks sha m cs" "length cs = ?k" "out = concat cs" using inv used by (auto simp: manifest_inv_def)
  have c: "0 < ?c" using ok by (simp add: manifest_ok_def)
  have out: "length out = ?k * ?c" "?k * ?c < ?N"
    using pinned_chunks_length [OF c cs(1)] more cs(2,3) by (auto simp: min_def split: if_splits)
  then have k: "?k < length (zm_chunk_hashes m)" using ok ceil_less [of ?c ?k ?N] by (simp add: manifest_ok_def)
  have m: "mr_manifest r = m" "mr_delivered r = length out" using inv by (simp_all add: manifest_inv_def)
  have count: "min (?N - mr_delivered r) ?c = chunk_length m ?k" by (simp add: m(2) out(1) chunk_length_def min.commute)
  let ?n = "chunk_length m ?k"
  obtain filled got rest where read: "read_exact ?n (mr_source r) = (filled, got, rest)" by (cases "read_exact ?n (mr_source r)")
  have got: "filled \<noteq> Panic" "length got \<le> ?n" "filled = Ok () \<Longrightarrow> length got = ?n" by (rule read_exact_Ok [OF read])+
  have len: "length (got @ drop (length got) (resize (mr_chunk r) ?n 0)) = ?n" using got(2) by simp
  have pos: "0 < ?n" using c out(2) by (simp add: chunk_length_def)
  show ?thesis
  proof (cases filled)
    case (Ok u)
    then have full: "length got = ?n" using got(3) by simp
    have snoc: "pinned_chunks sha m (cs @ [got])" if "sha got = zm_chunk_hashes m ! ?k"
      using that cs(1,2) k full by (simp add: pinned_chunks_snoc)
    show ?thesis
    proof (cases "sha got = zm_chunk_hashes m ! ?k")
      case True
      then have "q = Ok ()" "r' = r\<lparr>mr_source := rest, mr_chunk := got, mr_position := 0, mr_next_chunk := ?k + 1\<rparr>"
        using load k full by (auto simp: next_chunk_def m(1) count read Ok sm_simps guard_def)
      then show ?thesis using snoc [OF True] cs m full pos by (auto simp: manifest_inv_def intro!: exI [of _ "cs @ [got]"])
    next
      case False
      then have "q \<noteq> Panic \<and> (\<forall>u. q \<noteq> Ok u)" "r' = r\<lparr>mr_source := rest, mr_chunk := got, mr_position := ?n\<rparr>"
        using load k full by (auto simp: next_chunk_def m(1) count read Ok sm_simps guard_def)
      then show ?thesis using cs m full by (auto simp: manifest_inv_def)
    qed
  next
    case (Err e)
    then have "q = Err e" "r' = r\<lparr>mr_source := rest, mr_chunk := got @ drop (length got) (resize (mr_chunk r) ?n 0), mr_position := ?n\<rparr>"
      using load by (auto simp: next_chunk_def m(1) count read sm_simps Let_def)
    then show ?thesis using cs m len by (auto simp: manifest_inv_def)
  next
    case Panic
    then show ?thesis using got(1) by simp
  qed
qed

lemma manifest_inv_serve:
  assumes inv: "manifest_inv sha m out r" and more: "mr_position r < length (mr_chunk r)" and "0 < n"
  defines "count \<equiv> min n (length (mr_chunk r) - mr_position r)"
  defines "bytes \<equiv> take count (drop (mr_position r) (mr_chunk r))"
  shows "bytes \<noteq> []" "manifest_inv sha m (out @ bytes) (r\<lparr>mr_position := mr_position r + count, mr_delivered := mr_delivered r + count\<rparr>)"
proof -
  show "bytes \<noteq> []" using more assms(3) by (simp add: bytes_def count_def)
  have "bytes @ drop (mr_position r + count) (mr_chunk r) = drop (mr_position r) (mr_chunk r)"
    by (simp add: bytes_def add.commute flip: drop_drop)
  moreover have "length bytes = count" "mr_position r + count \<le> length (mr_chunk r)" using more by (simp_all add: bytes_def count_def)
  ultimately show "manifest_inv sha m (out @ bytes) (r\<lparr>mr_position := mr_position r + count, mr_delivered := mr_delivered r + count\<rparr>)"
    using inv by (auto simp: manifest_inv_def)
qed

lemma manifest_inv_read:
  assumes ok: "manifest_ok m" and inv: "manifest_inv sha m out r" and read: "manifest_read sha n r = (q, r')"
  shows "case q of
      Ok bytes \<Rightarrow> manifest_inv sha m (out @ bytes) r' \<and> (bytes = [] \<longleftrightarrow> n = 0 \<or> length out = zm_zkey_bytes m)
    | Err e \<Rightarrow> manifest_inv sha m out r'
    | Panic \<Rightarrow> False"
proof -
  have m: "mr_manifest r = m" "mr_delivered r = length out" "mr_position r \<le> length (mr_chunk r)" using inv by (simp_all add: manifest_inv_def)
  show ?thesis
  proof (cases "n = 0 \<or> length out = zm_zkey_bytes m")
    case True
    then show ?thesis using read inv m by (auto simp: manifest_read_def)
  next
    case False
    obtain cs where "pinned_chunks sha m cs" "out @ drop (mr_position r) (mr_chunk r) = concat cs" using inv by (auto simp: manifest_inv_def)
    then have "length out \<le> zm_zkey_bytes m"
      using pinned_chunks_length [of m sha cs] ok by (metis add_leD1 length_append manifest_ok_def min.bounded_iff order_refl)
    then have more: "length out < zm_zkey_bytes m" using False by simp
    show ?thesis
    proof (cases "mr_position r = length (mr_chunk r)")
      case True
      obtain q1 r1 where load: "next_chunk sha r = (q1, r1)" by fastforce
      from manifest_inv_next [OF ok inv True more load] have r1: "q1 \<noteq> Panic" "manifest_inv sha m out r1"
          "\<And>u. q1 = Ok u \<Longrightarrow> mr_position r1 < length (mr_chunk r1)" by auto
      show ?thesis
      proof (cases q1)
        case (Ok u)
        then show ?thesis using read False True m load manifest_inv_serve [OF r1(2) r1(3) [OF Ok], of n]
          by (auto simp: manifest_read_def sm_simps Let_def)
      next
        case (Err e)
        then show ?thesis using read False True m load r1(2) by (auto simp: manifest_read_def sm_simps Let_def)
      next
        case Panic
        then show ?thesis using r1(1) by simp
      qed
    next
      case pending: False
      then have "mr_position r < length (mr_chunk r)" using m(3) by simp
      from manifest_inv_serve [OF inv this, of n] show ?thesis using read False pending m
        by (auto simp: manifest_read_def sm_simps Let_def)
    qed
  qed
qed

text \<open>The bytes that a run of reads has delivered; failed reads deliver none and may be repeated.\<close>

inductive manifest_run :: "digest \<Rightarrow> manifest_reader \<Rightarrow> byte list \<Rightarrow> manifest_reader \<Rightarrow> bool" for sha r0 where
  run_start: "manifest_run sha r0 [] r0"
| run_read: "manifest_run sha r0 out r \<Longrightarrow> manifest_read sha n r = (Ok bytes, r') \<Longrightarrow> manifest_run sha r0 (out @ bytes) r'"
| run_failed: "manifest_run sha r0 out r \<Longrightarrow> manifest_read sha n r = (Err e, r') \<Longrightarrow> manifest_run sha r0 out r'"

lemma manifest_start_inv: "manifest_inv sha m [] (manifest_reader_new source m)"
  by (simp add: manifest_inv_def manifest_reader_new_def pinned_chunks_def)

lemma manifest_run_inv:
  assumes "manifest_ok m" and "manifest_run sha (manifest_reader_new source m) out r"
  shows "manifest_inv sha m out r"
  using assms(2)
proof (induction rule: manifest_run.induct)
  case run_start
  show ?case by (rule manifest_start_inv)
next
  case (run_read out r n bytes r')
  then show ?case using manifest_inv_read [OF assms(1) run_read(3,2)] by simp
next
  case (run_failed out r n e r')
  then show ?case using manifest_inv_read [OF assms(1) run_failed(3,2)] by simp
qed

lemma probe_end_no_Panic: "probe_end rs \<noteq> Panic"
proof (induction rs rule: probe_end.induct)
  case (1 rs)
  obtain q rest where read: "src_read 1 rs = (q, rest)" by fastforce
  then have "q \<noteq> Panic" by (metis src_read_no_Panic)
  then show ?case using 1 [OF read [symmetric]] read by (cases q) (simp_all add: probe_end.simps [of rs])
qed

subsection \<open>Honest sources\<close>

definition honest_inv :: "digest \<Rightarrow> nat \<Rightarrow> byte list \<Rightarrow> byte list \<Rightarrow> manifest_reader \<Rightarrow> bool" where
  "honest_inv sha c zkey out r \<longleftrightarrow> manifest_inv sha (manifest_of sha c zkey) out r \<and>
     out @ drop (mr_position r) (mr_chunk r) = take (mr_next_chunk r * c) zkey \<and>
     honest interrupted (mr_source r) (drop (mr_next_chunk r * c) zkey)"

lemma manifest_of_ok: "manifest_fits c zkey \<Longrightarrow> manifest_ok (manifest_of sha c zkey)"
  using chunk_size_bounds [of c] length_chunks [of c zkey] by (simp add: manifest_ok_def manifest_of_def manifest_fits_def)

lemma honest_next:
  assumes c: "0 < c" and inv: "honest_inv sha c zkey out r" and used: "mr_position r = length (mr_chunk r)" and more: "length out < length zkey"
  shows "\<exists>rest. next_chunk sha r = (Ok (), r\<lparr>mr_source := rest, mr_chunk := take c (drop (length out) zkey), 
      mr_next_chunk := mr_next_chunk r + 1, mr_position := 0\<rparr>) \<and>
    length out = mr_next_chunk r * c \<and> honest interrupted rest (drop ((mr_next_chunk r + 1) * c) zkey)"
proof -
  let ?k = "mr_next_chunk r"
  have m: "mr_manifest r = manifest_of sha c zkey" "mr_delivered r = length out" using inv by (simp_all add: honest_inv_def manifest_inv_def)
  have out: "out = take (?k * c) zkey" using inv used by (simp add: honest_inv_def)
  then have len: "length out = min (length zkey) (?k * c)" by simp
  then have out: "out = take (?k * c) zkey" "length out = ?k * c" "?k * c < length zkey"
    using out more by (auto simp: min_def split: if_splits)
  let ?n = "min (length zkey - length out) c"
  have "honest interrupted (mr_source r) (drop (?k * c) zkey)" using inv by (simp add: honest_inv_def)
  from read_exact_honest [OF this, of ?n] obtain rest where
    rest: "read_exact ?n (mr_source r) = (Ok (), take ?n (drop (?k * c) zkey), rest)"
      "honest interrupted rest (drop ?n (drop (?k * c) zkey))" using out(2) by auto
  have chunk: "take ?n (drop (?k * c) zkey) = take c (drop (length out) zkey)" by (simp add: out(2) min_def)
  have "drop ?n (drop (?k * c) zkey) = drop ((?k + 1) * c) zkey" using out(2,3) by (auto simp: min_def)
  moreover have "?k < length (chunks c zkey)" "chunks c zkey ! ?k = take c (drop (length out) zkey)"
    using chunks_nth [OF c, of ?k zkey] out(2,3) by auto
  ultimately show ?thesis
    using rest chunk out(2) by (auto simp: next_chunk_def m manifest_of_def sm_simps guard_def Let_def)
qed

lemma honest_read_step:
  assumes fits: "manifest_fits c zkey" and inv: "honest_inv sha c zkey out r" and n: "0 < n"
  shows "\<exists>bytes r'. manifest_read sha n r = (Ok bytes, r') \<and> honest_inv sha c zkey (out @ bytes) r'"
proof -
  let ?m = "manifest_of sha c zkey"
  have ok: "manifest_ok ?m" using fits by (rule manifest_of_ok)
  have c: "0 < c" using fits chunk_size_bounds by (auto simp: manifest_fits_def)
  have minv: "manifest_inv sha ?m out r" using inv by (simp add: honest_inv_def)
  then have m: "mr_manifest r = ?m" "mr_delivered r = length out" "mr_position r \<le> length (mr_chunk r)" by (simp_all add: manifest_inv_def)
  have N: "zm_zkey_bytes ?m = length zkey" by (simp add: manifest_of_def)
  obtain q r' where read: "manifest_read sha n r = (q, r')" by fastforce
  note kept = manifest_inv_read [OF ok minv read]
  show ?thesis
  proof (cases "length out = length zkey")
    case True
    then show ?thesis using inv m N by (intro exI [of _ "[]"] exI [of _ r]) (simp add: manifest_read_def)
  next
    case False
    have "length (out @ drop (mr_position r) (mr_chunk r)) \<le> length zkey" using inv by (simp add: honest_inv_def)
    then have more: "length out < length zkey" using False by simp
    show ?thesis
    proof (cases "mr_position r = length (mr_chunk r)")
      case True
      from honest_next [OF c inv True more] obtain rest where
        next': "next_chunk sha r = (Ok (), r\<lparr>mr_source := rest, mr_chunk := take c (drop (length out) zkey), 
          mr_next_chunk := mr_next_chunk r + 1, mr_position := 0\<rparr>)" "length out = mr_next_chunk r * c"
          "honest interrupted rest (drop ((mr_next_chunk r + 1) * c) zkey)" by blast
      let ?chunk = "take c (drop (length out) zkey)"
      let ?bytes = "take (min n (length ?chunk)) ?chunk"
      have out: "out = take (mr_next_chunk r * c) zkey" using inv True by (simp add: honest_inv_def)
      have r': "q = Ok ?bytes" "mr_source r' = rest" "mr_chunk r' = ?chunk" "mr_position r' = length ?bytes" "mr_next_chunk r' = mr_next_chunk r + 1"
        using read n False True m N next'(1) by (auto simp: manifest_read_def sm_simps Let_def)
      have "out @ ?chunk = take ((mr_next_chunk r + 1) * c) zkey"
        using take_add [of "mr_next_chunk r * c" c zkey] by (subst out) (simp add: next'(2) add.commute)
      moreover have "take k xs @ drop (length (take k xs)) xs = xs" for k and xs :: "byte list" by (simp add: min_def)
      then have "?bytes @ drop (length ?bytes) ?chunk = ?chunk" .
      ultimately have "(out @ ?bytes) @ drop (length ?bytes) ?chunk = take ((mr_next_chunk r + 1) * c) zkey" by (simp only: append_assoc)
      then have "honest_inv sha c zkey (out @ ?bytes) r'" using kept r' next'(3) by (simp add: honest_inv_def)
      then show ?thesis using read r'(1) by blast
    next
      case pending: False
      let ?k = "min n (length (mr_chunk r) - mr_position r)"
      let ?bytes = "take ?k (drop (mr_position r) (mr_chunk r))"
      have r': "q = Ok ?bytes" "r' = r\<lparr>mr_position := mr_position r + ?k, mr_delivered := mr_delivered r + ?k\<rparr>"
        using read n False pending m N by (auto simp: manifest_read_def sm_simps Let_def)
      have "?bytes @ drop (mr_position r + ?k) (mr_chunk r) = drop (mr_position r) (mr_chunk r)"
        by (metis append_take_drop_id drop_drop add.commute)
      then have "honest_inv sha c zkey (out @ ?bytes) r'" using kept inv by (simp add: r' honest_inv_def)
      then show ?thesis using read r'(1) by blast
    qed
  qed
qed

lemma honest_run_inv:
  assumes fits: "manifest_fits c zkey" and source: "honest interrupted source zkey"
    and "manifest_run sha (manifest_reader_new source (manifest_of sha c zkey)) out r"
  shows "honest_inv sha c zkey out r"
  using assms(3)
proof (induction rule: manifest_run.induct)
  case run_start
  show ?case using source manifest_start_inv by (simp add: honest_inv_def manifest_reader_new_def)
next
  case (run_read out r n bytes r')
  show ?case
  proof (cases "n = 0")
    case True
    then show ?thesis using run_read(2,3) by (simp add: manifest_read_def)
  next
    case False
    then show ?thesis using honest_read_step [OF fits run_read(3), of n] run_read(2) by auto
  qed
next
  case (run_failed out r n e r')
  then show ?case using honest_read_step [OF fits run_failed(3), of n] by (cases "n = 0") (auto simp: manifest_read_def)
qed

lemma probe_end_honest: "honest interrupted rs [] \<Longrightarrow> probe_end rs = Ok ()"
proof (induction rs rule: probe_end.induct)
  case (1 rs)
  have "0 < (1 :: nat)" by simp
  from honest_read [OF 1(2) this] show ?case
  proof (elim disjE exE conjE)
    fix bs rest
    assume "src_read 1 rs = (Ok bs, rest)" "(bs = []) = (([] :: byte list) = [])"
    then show ?thesis by (simp add: probe_end.simps [of rs])
  next
    fix e rest
    assume r: "src_read 1 rs = (Err e, rest)" "interrupted e" "honest interrupted rest []"
    have "probe_end rest = Ok ()" using 1(1) [OF r(1) [symmetric] refl _ r(3)] r(2) by (simp add: interrupted_def)
    then show ?thesis using r by (simp add: probe_end.simps [of rs] interrupted_def)
  qed
qed

section \<open>Properties\<close>

text \<open>C38: A reader pinned by an accepted manifest never delivers a byte outside the pinned chunks: after any
  run of reads, failed ones included, over any source, the bytes delivered so far are the beginning of the
  concatenation of chunks whose lengths and digests are the manifest's, in order; closing succeeds only if
  they are all of it; and nothing panics.\<close>

theorem manifest_reads_are_pinned:
  assumes "manifest_from_bytes sha bytes expected_manifest expected_zkey = Ok m"
    and "manifest_run sha (manifest_reader_new source m) out r"
  shows "(\<exists>cs rest. pinned_chunks sha m cs \<and> out @ rest = concat cs) \<and>
    (manifest_finish r = Ok () \<longrightarrow>
      (\<exists>cs. pinned_chunks sha m cs \<and> length cs = length (zm_chunk_hashes m) \<and> out = concat cs \<and> length out = zm_zkey_bytes m)) \<and>
    fst (manifest_read sha n r) \<noteq> Panic \<and> manifest_finish r \<noteq> Panic"
proof -
  have ok: "manifest_ok m" using assms(1) by (rule from_bytes_ok)
  have inv: "manifest_inv sha m out r" using ok assms(2) by (rule manifest_run_inv)
  then obtain cs where cs: "pinned_chunks sha m cs" "length cs = mr_next_chunk r" "out @ drop (mr_position r) (mr_chunk r) = concat cs"
    by (auto simp: manifest_inv_def)
  have c: "0 < zm_chunk_bytes m" using ok by (simp add: manifest_ok_def)
  have "length cs = length (zm_chunk_hashes m) \<and> out = concat cs \<and> length out = zm_zkey_bytes m" if "manifest_finish r = Ok ()"
  proof -
    have out: "length out = zm_zkey_bytes m" using that inv by (auto simp: manifest_finish_def manifest_inv_def rbind_Ok_iff)
    have len: "length (concat cs) = min (length cs * zm_chunk_bytes m) (zm_zkey_bytes m)" using c cs(1) by (rule pinned_chunks_length)
    have "length out + length (drop (mr_position r) (mr_chunk r)) = length (concat cs)" using arg_cong [OF cs(3), of length] by simp
    then have rest: "drop (mr_position r) (mr_chunk r) = []" "zm_zkey_bytes m \<le> length cs * zm_chunk_bytes m"
      using out len by auto
    then have "\<not> length cs < length (zm_chunk_hashes m)" using ok c ceil_less [OF c, of "length cs" "zm_zkey_bytes m"] by (simp add: manifest_ok_def)
    then show ?thesis using cs(1,3) rest(1) out by (simp add: pinned_chunks_def)
  qed
  moreover have "fst (manifest_read sha n r) \<noteq> Panic"
    using manifest_inv_read [OF ok inv, of n "fst (manifest_read sha n r)" "snd (manifest_read sha n r)"] by (auto split: result.splits)
  moreover have "manifest_finish r \<noteq> Panic" by (auto simp: manifest_finish_def rbind_Panic_iff probe_end_no_Panic)
  ultimately show ?thesis using cs by blast
qed

text \<open>C39: Publishing a key and loading it works: the manifest generated from a key is accepted under its pin
  as the manifest of that key; from any source that holds the key, however it splits the bytes and however
  often it is interrupted, every read of a positive size succeeds, delivers the next bytes of the key and at
  least one of them until all are delivered; and closing succeeds exactly then.\<close>

theorem published_keys_are_served:
  assumes "\<forall>x. length (sha x) = 32" and "honest (\<lambda>_. False) published zkey" and "manifest_fits c zkey"
  shows "\<exists>encoded pin. manifest_generate sha published c = Ok (encoded, pin) \<and>
    manifest_from_bytes sha encoded pin (to_hex (sha zkey)) = Ok (manifest_of sha c zkey) \<and>
    (\<forall>source out r n. honest interrupted source zkey \<and> 0 < n \<and>
        manifest_run sha (manifest_reader_new source (manifest_of sha c zkey)) out r \<longrightarrow>
      (\<exists>bytes r' rest. manifest_read sha n r = (Ok bytes, r') \<and> zkey = out @ bytes @ rest \<and> (bytes = [] \<longleftrightarrow> out = zkey)) \<and>
      (manifest_finish r = Ok () \<longleftrightarrow> out = zkey))"
proof (rule exI, rule exI, intro conjI allI impI)
  let ?m = "manifest_of sha c zkey"
  show "manifest_generate sha published c = Ok (manifest_bytes sha c zkey, to_hex (sha (manifest_bytes sha c zkey)))"
    using assms(2,3) by (rule generate_honest)
  show "manifest_from_bytes sha (manifest_bytes sha c zkey) (to_hex (sha (manifest_bytes sha c zkey))) (to_hex (sha zkey)) = Ok ?m"
    using assms(1,3) by (rule from_bytes_generated)
  fix source out r and n :: nat
  assume run: "honest interrupted source zkey \<and> 0 < n \<and> manifest_run sha (manifest_reader_new source ?m) out r"
  have ok: "manifest_ok ?m" using assms(3) by (rule manifest_of_ok)
  have inv: "honest_inv sha c zkey out r" using honest_run_inv [OF assms(3)] run by blast
  have ahead: "\<exists>rest. zkey = o1 @ rest" if "honest_inv sha c zkey o1 r1" for o1 r1
    using that append_take_drop_id [of "mr_next_chunk r1 * c" zkey] by (metis append.assoc honest_inv_def)
  have N: "zm_zkey_bytes ?m = length zkey" by (simp add: manifest_of_def)
  obtain rest0 where rest0: "zkey = out @ rest0" using ahead [OF inv] by blast
  obtain bytes r' where read: "manifest_read sha n r = (Ok bytes, r')" "honest_inv sha c zkey (out @ bytes) r'"
    using honest_read_step [OF assms(3) inv] run by blast
  obtain rest where "zkey = (out @ bytes) @ rest" using ahead [OF read(2)] by blast
  moreover have "bytes = [] \<longleftrightarrow> out = zkey"
    using manifest_inv_read [OF ok _ read(1), of out] inv run rest0 N by (auto simp: honest_inv_def)
  ultimately show "\<exists>bytes r' rest. manifest_read sha n r = (Ok bytes, r') \<and> zkey = out @ bytes @ rest \<and> (bytes = [] \<longleftrightarrow> out = zkey)"
    using read(1) by auto
  show "manifest_finish r = Ok () \<longleftrightarrow> out = zkey"
  proof
    assume "manifest_finish r = Ok ()"
    then have "length out = length zkey" using inv N by (auto simp: manifest_finish_def honest_inv_def manifest_inv_def rbind_Ok_iff)
    then show "out = zkey" using rest0 by simp
  next
    assume "out = zkey"
    then have d: "mr_delivered r = length zkey" "mr_manifest r = ?m" using inv by (simp_all add: honest_inv_def manifest_inv_def)
    have "length (out @ drop (mr_position r) (mr_chunk r)) = min (length zkey) (mr_next_chunk r * c)" using inv by (simp add: honest_inv_def)
    then have "drop (mr_next_chunk r * c) zkey = []" using \<open>out = zkey\<close> by simp
    then have "honest interrupted (mr_source r) []" using inv by (simp add: honest_inv_def)
    then show "manifest_finish r = Ok ()" using d N by (simp add: manifest_finish_def probe_end_honest)
  qed
qed

lemma one_byte_fits: "manifest_fits (64 * 1024) [7]"
  by (simp add: manifest_fits_def chunk_size_allowed_def min_chunk_bytes_def max_chunk_bytes_def is_power_of_two_def
      chunks_step upt_rec)

lemma manifest_reads_are_pinned_witness:
  "\<exists>cs rest. pinned_chunks zero_digest (manifest_of zero_digest (64 * 1024) [7]) cs \<and> [] @ rest = concat cs"
proof -
  have sha: "\<forall>x. length (zero_digest x) = 32" by (simp add: zero_digest_def)
  show ?thesis
    by (rule conjunct1 [OF manifest_reads_are_pinned [OF from_bytes_generated [OF sha one_byte_fits] run_start]])
qed

lemma published_keys_are_served_witness:
  "\<exists>encoded pin. manifest_generate zero_digest [Got [7]] (64 * 1024) = Ok (encoded, pin) \<and>
    manifest_from_bytes zero_digest encoded pin (to_hex (zero_digest [7])) = Ok (manifest_of zero_digest (64 * 1024) [7])"
proof -
  have "\<forall>x. length (zero_digest x) = 32" by (simp add: zero_digest_def)
  moreover have "honest (\<lambda>_. False) [Got [7]] [7]" by (simp add: honest_def)
  ultimately show ?thesis using published_keys_are_served [OF _ _ one_byte_fits] by blast
qed

section \<open>Bounded reads\<close>

lemma read_bounded_loop_bound:
  "length bytes \<le> limit \<Longrightarrow> read_bounded_loop limit bytes rs = (q, rs') \<Longrightarrow>
    q \<noteq> Panic \<and> (\<forall>out. q = Ok out \<longrightarrow> length out \<le> limit)"
proof (induction limit bytes rs arbitrary: q rs' rule: read_bounded_loop.induct)
  case (1 limit bytes rs)
  note step = read_bounded_loop.simps [of limit bytes rs]
  let ?wanted = "min (min (limit - length bytes + 1) u64_max) read_chunk_bytes"
  obtain p rest where read: "src_read ?wanted rs = (p, rest)" by fastforce
  have fits: "\<not> limit < length bytes" using 1(3) by simp
  show ?case
  proof (cases p)
    case (Ok got)
    then show ?thesis
      using 1(1) [OF fits refl refl read [symmetric] Ok] 1(3,4) read by (auto simp: step Let_def split: if_splits)
  next
    case (Err e)
    then show ?thesis
      using 1(2) [OF fits refl refl read [symmetric] Err] 1(3,4) read by (auto simp: step Let_def split: if_splits)
  next
    case Panic
    then show ?thesis using read by simp
  qed
qed

lemma read_bounded_loop_honest:
  "honest interrupted rs zkey \<Longrightarrow> length bytes \<le> limit \<Longrightarrow>
    fst (read_bounded_loop limit bytes rs) = (if length bytes + length zkey \<le> limit then Ok (bytes @ zkey) else Err ByteLimit)"
proof (induction limit bytes rs arbitrary: zkey rule: read_bounded_loop.induct)
  case (1 limit bytes rs)
  note step = read_bounded_loop.simps [of limit bytes rs]
  let ?wanted = "min (min (limit - length bytes + 1) u64_max) read_chunk_bytes"
  have fits: "\<not> limit < length bytes" using 1(4) by simp
  have "0 < ?wanted" by (simp add: u64_max_def read_chunk_bytes_def)
  from honest_read [OF 1(3) this] show ?case
  proof (elim disjE exE conjE)
    fix got rest
    assume r: "src_read ?wanted rs = (Ok got, rest)" "zkey = got @ drop (length got) zkey" "(got = []) = (zkey = [])"
      "honest interrupted rest (drop (length got) zkey)"
    obtain more where z: "zkey = got @ more" using r(2) by blast
    have more: "honest interrupted rest more" using r(4) by (simp add: z)
    show ?thesis
    proof (cases "limit - length bytes < length got")
      case True
      then have "got \<noteq> []" "\<not> length bytes + length (got @ more) \<le> limit" using \<open>length bytes \<le> limit\<close> by auto
      then show ?thesis unfolding z using r(1) True fits by (simp only: step Let_def if_False length_0_conv prod.case result.case fst_conv if_True)
    next
      case False
      show ?thesis
      proof (cases "got = []")
        case True
        then have "zkey = []" using r(3) by simp
        then show ?thesis using r(1) True fits by (simp add: step Let_def)
      next
        case some: False
        have "length (bytes @ got) \<le> limit" using False \<open>length bytes \<le> limit\<close> by simp
        from 1(1) [OF fits refl refl r(1) [symmetric] refl _ _ more this]
        have "fst (read_bounded_loop limit (bytes @ got) rest) =
            (if length (bytes @ got) + length more \<le> limit then Ok ((bytes @ got) @ more) else Err ByteLimit)"
          using False some by simp
        moreover have "fst (read_bounded_loop limit bytes rs) = fst (read_bounded_loop limit (bytes @ got) rest)"
          using False some r(1) fits by (simp add: step Let_def)
        ultimately show ?thesis by (simp add: z add.assoc)
      qed
    qed
  next
    fix e rest
    assume r: "src_read ?wanted rs = (Err e, rest)" "interrupted e" "honest interrupted rest zkey"
    then show ?thesis using 1(2) [OF fits refl refl r(1) [symmetric] refl _ r(3) 1(4)] fits by (simp add: step Let_def interrupted_def)
  qed
qed

text \<open>Reading with a limit never panics and never returns more than the limit; from a source that holds
  some bytes it returns exactly them when they are within the limit and refuses them otherwise.\<close>

theorem read_bounded_exact:
  assumes "honest interrupted rs zkey"
  shows "fst (read_bounded rs limit) = (if length zkey \<le> limit then Ok zkey else Err ByteLimit) \<and>
    (case fst (read_bounded any limit) of Ok out \<Rightarrow> length out \<le> limit | Err e \<Rightarrow> True | Panic \<Rightarrow> False)"
  using read_bounded_loop_honest [OF assms, of "[]" limit]
    read_bounded_loop_bound [of "[]" limit any "fst (read_bounded any limit)" "snd (read_bounded any limit)"]
  by (auto simp: read_bounded_def split: result.splits)

text \<open>A bounded reader never panics and never moves past its limit, wherever it is sought.\<close>

lemma bounded_new_limit: "bounded_new inner limit = Ok r \<Longrightarrow> br_position r \<le> br_limit r"
  by (auto simp: bounded_new_def rbind_Ok_iff split: prod.splits)

lemma src_seek_no_Panic: "fst (src_seek target s) \<noteq> Panic"
  by (simp add: src_seek_def split: list.splits sum.splits)

lemma bounded_read_limit:
  assumes "br_position r \<le> br_limit r"
  shows "fst (bounded_read n r) \<noteq> Panic \<and> br_position (snd (bounded_read n r)) \<le> br_limit (snd (bounded_read n r))"
proof -
  let ?wanted = "min n (min (br_limit r - br_position r + 1) u64_max)"
  obtain got rest where read: "src_read ?wanted (src_replies (br_inner r)) = (got, rest)" by fastforce
  moreover from this have "got \<noteq> Panic" by (metis src_read_no_Panic)
  ultimately show ?thesis using assms by (cases got) (auto simp: bounded_read_def Let_def sm_simps guard_def)
qed

end
