(* ===== verification/Prover_Wtns.thy ===== *)
theory Prover_Wtns
  imports Graph_Wire Signet
begin

text \<open>
  The strict reader of snarkjs witness files (\<open>crates/prover/src/wtns.rs\<close>), and its agreement with the
  reader that the exporter keeps for reference witnesses (\<open>crates/signet/src/wtns.rs\<close>).
\<close>

section \<open>The reader\<close>

datatype (plugins only: code) wtns_error =
    WtnsIo
  | WtnsInvalidMagic
  | WtnsUnsupportedVersion nat
  | WtnsInvalidHeader
  | WtnsMissingData
  | WtnsDuplicateSection nat
  | WtnsSectionOutOfBounds
  | WtnsWrongField
  | WtnsNonCanonicalField nat

definition wtns_version :: nat where "wtns_version = 2"

definition bn254_field_bytes :: nat where "bn254_field_bytes = 32"

text \<open>A read of the cursor at a position; one past the end is an I/O error.\<close>

definition cursor_read :: "byte list \<Rightarrow> nat \<Rightarrow> nat \<Rightarrow> (byte list \<times> nat, wtns_error) result" where
  "cursor_read bytes n position =
     (if position + n \<le> length bytes then Ok (take n (drop position bytes), position + n) else Err WtnsIo)"

definition cursor_uint :: "byte list \<Rightarrow> nat \<Rightarrow> nat \<Rightarrow> (nat \<times> nat, wtns_error) result" where
  "cursor_uint bytes n position = rbind (cursor_read bytes n position) (\<lambda>(v, position). Ok (nat_of_le v, position))"

text \<open>Four limbs of 64 bits, the lowest first.\<close>

definition read_big_integer :: "byte list \<Rightarrow> nat \<Rightarrow> (nat \<times> nat, wtns_error) result" where
  "read_big_integer bytes position =
     rbind (cursor_uint bytes 8 position) (\<lambda>(a, position).
     rbind (cursor_uint bytes 8 position) (\<lambda>(b, position).
     rbind (cursor_uint bytes 8 position) (\<lambda>(c, position).
     rbind (cursor_uint bytes 8 position) (\<lambda>(d, position).
       Ok (a + 2 ^ 64 * (b + 2 ^ 64 * (c + 2 ^ 64 * d)), position)))))"

definition wtns_header :: "byte list \<Rightarrow> nat \<Rightarrow> nat \<Rightarrow> (nat \<times> nat, wtns_error) result" where
  "wtns_header bytes section_size position =
     rbind (cursor_uint bytes 4 position) (\<lambda>(n8, position).
     rbind (guard (n8 \<noteq> bn254_field_bytes) WtnsWrongField) (\<lambda>_.
     rbind (ok_or (checked_add 8 n8) WtnsInvalidHeader) (\<lambda>expected_header_size.
     rbind (guard (section_size \<noteq> expected_header_size) WtnsInvalidHeader) (\<lambda>_.
     rbind (read_big_integer bytes position) (\<lambda>(modulus, position).
     rbind (guard (modulus \<noteq> fr_modulus) WtnsWrongField) (\<lambda>_.
     rbind (cursor_uint bytes 4 position) (\<lambda>(count, position).
     rbind (guard (count = 0) WtnsInvalidHeader) (\<lambda>_. Ok (n8, count)))))))))"

type_synonym wtns_scan = "nat \<times> (nat \<times> nat) option \<times> (nat \<times> nat) option"

definition wtns_section :: "byte list \<Rightarrow> nat \<Rightarrow> wtns_scan \<Rightarrow> (wtns_scan, wtns_error) result" where
  "wtns_section bytes index = (\<lambda>(position, header, data).
     rbind (cursor_uint bytes 4 position) (\<lambda>(section_id, position).
     rbind (cursor_uint bytes 8 position) (\<lambda>(section_size, section_start).
     rbind (ok_or (case checked_add section_start section_size of
           Some e \<Rightarrow> if e \<le> length bytes then Some e else None | None \<Rightarrow> None) WtnsSectionOutOfBounds) (\<lambda>section_end.
     rbind (if section_id = 1 then
              rbind (guard (header \<noteq> None) (WtnsDuplicateSection section_id)) (\<lambda>_.
              rbind (wtns_header bytes section_size section_start) (\<lambda>header. Ok (Some header, data)))
            else if section_id = 2 then
              rbind (guard (data \<noteq> None) (WtnsDuplicateSection section_id)) (\<lambda>_. Ok (header, Some (section_start, section_size)))
            else Ok (header, data)) (\<lambda>(header, data).
       Ok (section_end, header, data))))))"

definition wtns_element :: "byte list \<Rightarrow> nat \<Rightarrow> nat \<times> fr list \<Rightarrow> (nat \<times> fr list, wtns_error) result" where
  "wtns_element bytes index = (\<lambda>(position, assignment).
     rbind (read_big_integer bytes position) (\<lambda>(v, position).
     rbind (guard (fr_modulus \<le> v) (WtnsNonCanonicalField index)) (\<lambda>_. Ok (position, assignment @ [fr_of_nat v]))))"

definition read_wtns :: "byte list \<Rightarrow> (fr list, wtns_error) result" where
  "read_wtns bytes =
     rbind (cursor_read bytes 4 0) (\<lambda>(magic, position).
     rbind (guard (magic \<noteq> [119, 116, 110, 115]) WtnsInvalidMagic) (\<lambda>_.
     rbind (cursor_uint bytes 4 position) (\<lambda>(version, position).
     rbind (guard (version \<noteq> wtns_version) (WtnsUnsupportedVersion version)) (\<lambda>_.
     rbind (cursor_uint bytes 4 position) (\<lambda>(section_count, position).
     rbind (rfold [0..<section_count] (wtns_section bytes) (position, None, None)) (\<lambda>(position, header, data).
     rbind (ok_or header WtnsInvalidHeader) (\<lambda>(n8, count).
     rbind (ok_or data WtnsMissingData) (\<lambda>(data_start, data_size).
     rbind (ok_or (checked_mul count n8) WtnsSectionOutOfBounds) (\<lambda>expected_size.
     rbind (guard (data_size \<noteq> expected_size) WtnsSectionOutOfBounds) (\<lambda>_.
     rbind (rfold [0..<count] (wtns_element bytes) (data_start, [])) (\<lambda>(position, assignment).
       Ok assignment)))))))))))"

section \<open>Agreement\<close>

lemma le_limbs_append: "nat_of_le (xs @ ys) = nat_of_le xs + 256 ^ length xs * nat_of_le ys"
  by (induction xs) (simp_all add: algebra_simps)

lemma cursor_read_Ok_iff: "cursor_read bytes n position = Ok (v, p) \<longleftrightarrow>
    position + n \<le> length bytes \<and> v = take n (drop position bytes) \<and> p = position + n"
  by (auto simp: cursor_read_def)

lemma cursor_uint_Ok_iff: "cursor_uint bytes n position = Ok (v, p) \<longleftrightarrow>
    position + n \<le> length bytes \<and> v = nat_of_le (take n (drop position bytes)) \<and> p = position + n"
  by (auto simp: cursor_uint_def rbind_Ok_iff cursor_read_Ok_iff)

lemma read_big_integer_Ok_iff: "read_big_integer bytes position = Ok (v, p) \<longleftrightarrow>
    position + 32 \<le> length bytes \<and> v = nat_of_le (take 32 (drop position bytes)) \<and> p = position + 32"
proof -
  have "take 32 (drop position bytes) = take 8 (drop position bytes) @ take 8 (drop (position + 8) bytes) @
      take 8 (drop (position + 16) bytes) @ take 8 (drop (position + 24) bytes)"
    using take_add [of 8 24 "drop position bytes"] take_add [of 8 16 "drop (position + 8) bytes"] take_add [of 8 8 "drop (position + 16) bytes"]
    by (simp add: add.commute)
  then have "nat_of_le (take 32 (drop position bytes)) = nat_of_le (take 8 (drop position bytes)) + 2 ^ 64 *
      (nat_of_le (take 8 (drop (position + 8) bytes)) + 2 ^ 64 * (nat_of_le (take 8 (drop (position + 16) bytes)) +
        2 ^ 64 * nat_of_le (take 8 (drop (position + 24) bytes))))" if "position + 32 \<le> length bytes"
    using that by (simp add: le_limbs_append)
  then show ?thesis by (auto simp: read_big_integer_def rbind_Ok_iff cursor_uint_Ok_iff ac_simps)
qed

lemma signet_uint_Ok: "position + n \<le> length bytes \<Longrightarrow> length bytes < 2 ^ 64 \<Longrightarrow>
    wt_uint bytes n position = Ok (nat_of_le (take n (drop position bytes)), position + n) \<and>
    wt_array bytes n position = Ok (take n (drop position bytes), position + n)"
  by (simp add: wt_uint_def wt_array_def checked_add_def usize_bits_def)

definition scan_agrees :: "wtns_scan \<Rightarrow> nat \<times> nat option \<times> (nat \<times> nat) option \<Rightarrow> bool" where
  "scan_agrees = (\<lambda>(p, h, d) (p', c, d'). p' = p \<and> c = map_option snd h \<and> d' = d)"

lemma section_agrees:
  assumes len: "length bytes < 2 ^ 64" and sec: "wtns_section bytes i st = Ok st'" and agree: "scan_agrees st sc"
  shows "\<exists>sc'. wt_section bytes i sc = Ok sc' \<and> scan_agrees st' sc'"
  using assms
  by (auto simp: wtns_section_def wtns_header_def wt_section_def scan_agrees_def rbind_Ok_iff cursor_uint_Ok_iff
      read_big_integer_Ok_iff signet_uint_Ok bn254_field_bytes_def split: if_splits option.splits prod.splits)

lemma sections_agree:
  assumes "length bytes < 2 ^ 64" and "rfold is (wtns_section bytes) st = Ok st'" and "scan_agrees st sc"
  shows "\<exists>sc'. rfold is (wt_section bytes) sc = Ok sc' \<and> scan_agrees st' sc'"
  using assms(2,3)
proof (induction "is" arbitrary: st sc)
  case (Cons i "is")
  then obtain st1 where st1: "wtns_section bytes i st = Ok st1" "rfold is (wtns_section bytes) st1 = Ok st'" by (auto simp: rbind_Ok_iff)
  from section_agrees [OF assms(1) st1(1) Cons.prems(2)] obtain sc1 where "wt_section bytes i sc = Ok sc1" "scan_agrees st1 sc1" by blast
  then show ?case using Cons.IH [OF st1(2)] by simp
qed simp

lemma section_widths:
  assumes "rfold is (wtns_section bytes) (p, h, d) = Ok (p', h', d')" and "\<forall>n8 count. h = Some (n8, count) \<longrightarrow> n8 = 32 \<and> 0 < count"
  shows "\<forall>n8 count. h' = Some (n8, count) \<longrightarrow> n8 = 32 \<and> 0 < count"
  using assms
proof (induction "is" arbitrary: p h d)
  case (Cons i "is")
  then obtain p1 h1 d1 where s: "wtns_section bytes i (p, h, d) = Ok (p1, h1, d1)" "rfold is (wtns_section bytes) (p1, h1, d1) = Ok (p', h', d')"
    by (auto simp: rbind_Ok_iff)
  have "\<forall>n8 count. h1 = Some (n8, count) \<longrightarrow> n8 = 32 \<and> 0 < count"
    using s(1) Cons.prems(2) by (auto simp: wtns_section_def wtns_header_def rbind_Ok_iff bn254_field_bytes_def split: if_splits)
  then show ?case using Cons.IH [OF s(2)] by blast
qed simp

lemma wtns_element_Ok_iff: "wtns_element bytes i (p, acc) = Ok (p', out) \<longleftrightarrow>
    p + 32 \<le> length bytes \<and> nat_of_le (take 32 (drop p bytes)) < fr_modulus \<and> p' = p + 32 \<and>
    out = acc @ [fr_of_nat (nat_of_le (take 32 (drop p bytes)))]"
  by (auto simp: wtns_element_def rbind_Ok_iff read_big_integer_Ok_iff)

lemma elements_Ok:
  "rfold [k..<k + n] (wtns_element bytes) (p, acc) = Ok (p', out) \<Longrightarrow>
    p' = p + n * 32 \<and> out = acc @ map (\<lambda>i. fr_of_nat (nat_of_le (take 32 (drop (p + i * 32) bytes)))) [0..<n] \<and>
    (\<forall>i < n. p + i * 32 + 32 \<le> length bytes \<and> nat_of_le (take 32 (drop (p + i * 32) bytes)) < fr_modulus)"
proof (induction n arbitrary: p' out)
  case (Suc n)
  then obtain q mid where s: "rfold [k..<k + n] (wtns_element bytes) (p, acc) = Ok (q, mid)" "wtns_element bytes (k + n) (q, mid) = Ok (p', out)"
    by (auto simp: rfold_append rbind_Ok_iff)
  from Suc.IH [OF s(1)] s(2) show ?case by (auto simp: wtns_element_Ok_iff less_Suc_eq)
qed simp

lemma cursor_no_Panic [simp]: "cursor_read bytes n p \<noteq> Panic" "cursor_uint bytes n p \<noteq> Panic" "read_big_integer bytes p \<noteq> Panic"
  by (auto simp: cursor_read_def cursor_uint_def read_big_integer_def rbind_Panic_iff)

lemma read_wtns_no_Panic: "read_wtns bytes \<noteq> Panic"
proof -
  have "wtns_section bytes i st \<noteq> Panic" for i st
    by (auto simp: wtns_section_def wtns_header_def rbind_Panic_iff split: prod.splits)
  then have "rfold is (wtns_section bytes) st \<noteq> Panic" for "is" st
    by (intro rfold_no_panic [where P = "\<lambda>_. True"]) simp_all
  moreover have "wtns_element bytes i st \<noteq> Panic" for i st
    by (auto simp: wtns_element_def rbind_Panic_iff split: prod.splits)
  then have "rfold is (wtns_element bytes) acc \<noteq> Panic" for "is" acc
    by (intro rfold_no_panic [where P = "\<lambda>_. True"]) simp_all
  ultimately show ?thesis by (auto simp: read_wtns_def rbind_Panic_iff)
qed

lemma strict_reader_accepts:
  assumes "length bytes < 2 ^ 64" and "read_wtns bytes = Ok assignment"
  shows "wtns_read bytes = Ok assignment \<and> assignment \<noteq> [] \<and>
    (\<exists>start. start + 32 * length assignment \<le> length bytes \<and>
      concat (map (\<lambda>x. nat_to_le 32 (fr_rep x)) assignment) = take (32 * length assignment) (drop start bytes))"
proof -
  obtain p0 p h d count start size q where r: "take 4 bytes = [119, 116, 110, 115]" "12 \<le> length bytes"
      "nat_of_le (take 4 (drop 4 bytes)) = 2"
      "rfold [0..<nat_of_le (take 4 (drop 8 bytes))] (wtns_section bytes) (12, None, None) = Ok (p, Some h, Some (start, size))"
      "size = snd h * fst h" "rfold [0..<snd h] (wtns_element bytes) (start, []) = Ok (q, assignment)"
    using assms(2)
    by (auto simp: read_wtns_def rbind_Ok_iff cursor_read_Ok_iff cursor_uint_Ok_iff wtns_version_def split: prod.splits)
  obtain n8 count where h: "h = (n8, count)" by fastforce
  have n8: "n8 = 32" "0 < count" using section_widths [OF r(4)] h by auto
  have agree: "scan_agrees (12, None, None) (12, None, None)" by (simp add: scan_agrees_def)
  from sections_agree [OF assms(1) r(4) agree] obtain sc' where
    sc: "rfold [0..<nat_of_le (take 4 (drop 8 bytes))] (wt_section bytes) (12, None, None) = Ok sc'" "scan_agrees (p, Some h, Some (start, size)) sc'" by blast
  have sc': "sc' = (p, Some count, Some (start, size))" using sc(2) by (auto simp: scan_agrees_def h)
  have elems: "assignment = map (\<lambda>i. fr_of_nat (nat_of_le (take 32 (drop (start + i * 32) bytes)))) [0..<count]"
      "\<And>i. i < count \<Longrightarrow> start + i * 32 + 32 \<le> length bytes \<and> nat_of_le (take 32 (drop (start + i * 32) bytes)) < fr_modulus"
    using elements_Ok [of 0 count bytes start "[]" q assignment] r(6) h by auto
  have vals: "rmap (wt_value bytes start) [0..<count] = (Ok assignment :: (_, signet_error) result)"
    unfolding elems(1) by (rule rmap_Ok) (use elems(2) in \<open>auto simp: wt_value_def Let_def\<close>)
  have "wtns_read bytes = Ok assignment"
    using r(1-3) sc(1) vals assms(1) by (simp add: wtns_read_def signet_uint_Ok sc' r(5) h n8(1))
  moreover have "concat (map (\<lambda>x. nat_to_le 32 (fr_rep x)) assignment) = take (32 * count) (drop start bytes)"
  proof -
    have "nat_to_le 32 (fr_rep (fr_of_nat (nat_of_le (take 32 (drop (start + i * 32) bytes))))) = take 32 (drop (start + i * 32) bytes)" if "i < count" for i
    proof -
      have len: "length (take 32 (drop (start + i * 32) bytes)) = 32"
        using elems(2) [OF that, THEN conjunct1] by auto
      show ?thesis using elems(2) [OF that] nat_to_le_of_le [of "take 32 (drop (start + i * 32) bytes)", unfolded len] by simp
    qed
    then have "map (\<lambda>x. nat_to_le 32 (fr_rep x)) assignment = map (\<lambda>i. take 32 (drop (start + i * 32) bytes)) [0..<count]"
      by (simp add: elems(1))
    also have "concat \<dots> = take (32 * count) (drop start bytes)"
    proof (induction count)
      case (Suc k)
      show ?case using take_add [of "32 * k" 32 "drop start bytes"] Suc by (simp add: ac_simps)
    qed simp
    finally show ?thesis .
  qed
  moreover have "start + 32 * count \<le> length bytes" using elems(2) [of "count - 1"] n8(2) by (cases count) simp_all
  moreover have "length assignment = count" "assignment \<noteq> []" using n8(2) by (simp_all add: elems(1))
  ultimately show ?thesis by blast
qed



end
