(* ===== verification/Spec2Isabelle.thy ===== *)
theory Spec2Isabelle
  imports Sharded_Restore Sharded_Dirty Sharded_Stateless Leaf_Trees Imt_Refine Inclusion_Proof
    Snapshot_Frontier Bound_Pending Calldata Note_Signers Eddsa_Correct
    Sage_Cache Signet_Correct Msm_Correct Manifest_Correct Prover_Wtns
begin

text \<open>
  The off-chain core of the note protocol.
\<close>

end
